(* ===== verification/Orbit_Prelude.thy ===== *)
theory Orbit_Prelude
  imports Main "HOL-Library.Multiset" "HOL-Library.While_Combinator"
begin

text \<open>
  Facts the components share: arrays as lists that are updated by index, the C++ standard
  library operations the sources call (\<open>std::sort\<close>, \<open>std::unique\<close>, \<open>std::lower_bound\<close>,
  \<open>std::vector::resize\<close>, swap with the last element and \<open>pop_back\<close>), and the
  counting lemmas on lists.
\<close>

named_theorems array_simps \<open>reads of updated arrays\<close>

section \<open>Arrays as lists\<close>

text \<open>A read-modify-write of one cell, as in \<open>a[i]++\<close> or \<open>a[i].push_back (x)\<close>.\<close>

definition upd_nth :: "'a list \<Rightarrow> nat \<Rightarrow> ('a \<Rightarrow> 'a) \<Rightarrow> 'a list" where
  "upd_nth xs i f = xs[i := f (xs ! i)]"

lemma length_upd_nth [simp]: "length (upd_nth xs i f) = length xs"
  by (simp add: upd_nth_def)

lemma nth_upd_nth [array_simps]:
  "j < length xs \<Longrightarrow> upd_nth xs i f ! j = (if i = j then f (xs ! j) else xs ! j)"
  by (auto simp: upd_nth_def nth_list_update)

lemma nth_upd_nth_same [simp]: "i < length xs \<Longrightarrow> upd_nth xs i f ! i = f (xs ! i)"
  by (simp add: upd_nth_def)

lemma nth_upd_nth_other [simp]: "i \<noteq> j \<Longrightarrow> upd_nth xs i f ! j = xs ! j"
  by (simp add: upd_nth_def)

text \<open>\<open>vector::resize (k, d)\<close>: truncate or pad with \<open>d\<close>.\<close>

definition resize :: "nat \<Rightarrow> 'a \<Rightarrow> 'a list \<Rightarrow> 'a list" where
  "resize k d xs = take k xs @ replicate (k - length xs) d"

lemma length_resize [simp]: "length (resize k d xs) = k"
  by (simp add: resize_def)

lemma nth_resize_old: "i < length xs \<Longrightarrow> i < k \<Longrightarrow> resize k d xs ! i = xs ! i"
  by (simp add: resize_def nth_append)

lemma nth_resize_new: "length xs \<le> i \<Longrightarrow> i < k \<Longrightarrow> resize k d xs ! i = d"
  by (simp add: resize_def nth_append)

section \<open>Standard library operations\<close>

text \<open>
  \<open>std::sort\<close> followed by \<open>erase (unique (...))\<close>: the strictly ascending list of the
  values that occur. \<open>std::lower_bound\<close> on an ascending list: the number of entries below.
\<close>

definition sort_unique :: "'a::linorder list \<Rightarrow> 'a list" where
  "sort_unique xs = remdups_adj (sort xs)"

definition lower_bound :: "'a::linorder list \<Rightarrow> 'a \<Rightarrow> nat" where
  "lower_bound xs x = length (takeWhile (\<lambda>y. y < x) xs)"

lemma sorted_remdups_adj_strict: "sorted xs \<Longrightarrow> sorted (remdups_adj xs) \<and> distinct (remdups_adj xs)"
  by (induction xs rule: remdups_adj.induct) auto

lemma set_sort_unique [simp]: "set (sort_unique xs) = set xs"
  by (simp add: sort_unique_def)

lemma sorted_sort_unique [simp]: "sorted (sort_unique xs)"
  by (simp add: sort_unique_def sorted_remdups_adj_strict)

lemma distinct_sort_unique [simp]: "distinct (sort_unique xs)"
  by (simp add: sort_unique_def sorted_remdups_adj_strict)

lemma takeWhile_sorted_nth:
  "sorted xs \<Longrightarrow> distinct xs \<Longrightarrow> i < length xs \<Longrightarrow> length (takeWhile (\<lambda>y. y < xs ! i) xs) = i"
proof (induction xs arbitrary: i)
  case (Cons x xs)
  show ?case
  proof (cases i)
    case (Suc j)
    with Cons.prems have "x < xs ! j" by (auto simp: less_le)
    with Suc Cons show ?thesis by auto
  qed simp
qed simp

lemma lower_bound_nth:
  "x \<in> set (sort_unique xs) \<Longrightarrow>
    lower_bound (sort_unique xs) x < length (sort_unique xs) \<and>
    sort_unique xs ! lower_bound (sort_unique xs) x = x"
proof -
  assume "x \<in> set (sort_unique xs)"
  then obtain i where i: "i < length (sort_unique xs)" "sort_unique xs ! i = x"
    unfolding in_set_conv_nth by blast
  have "lower_bound (sort_unique xs) x = i"
    using takeWhile_sorted_nth [of "sort_unique xs" i] i by (simp add: lower_bound_def)
  with i show ?thesis by simp
qed

lemma lower_bound_inj:
  "x \<in> set xs \<Longrightarrow> y \<in> set xs \<Longrightarrow>
    lower_bound (sort_unique xs) x = lower_bound (sort_unique xs) y \<Longrightarrow> x = y"
  using lower_bound_nth [of x xs] lower_bound_nth [of y xs] by (metis set_sort_unique)

lemma lower_bound_surj:
  "i < length (sort_unique xs) \<Longrightarrow> \<exists>x \<in> set xs. lower_bound (sort_unique xs) x = i"
proof -
  assume i: "i < length (sort_unique xs)"
  then have "sort_unique xs ! i \<in> set (sort_unique xs)" by (rule nth_mem)
  then have "sort_unique xs ! i \<in> set xs" by (simp only: set_sort_unique)
  moreover have "lower_bound (sort_unique xs) (sort_unique xs ! i) = i"
    unfolding lower_bound_def by (rule takeWhile_sorted_nth) (simp_all add: i)
  ultimately show ?thesis by blast
qed

lemma length_sort_unique_le: "length (sort_unique xs) \<le> length xs"
  by (metis remdups_adj_length length_sort sort_unique_def)

text \<open>
  \<open>auto it = std::find (xs.begin (), xs.end (), x); if (it != xs.end ()) { *it = xs.back ();
  xs.pop_back (); }\<close>
\<close>

fun index_of :: "'a \<Rightarrow> 'a list \<Rightarrow> nat" where
  "index_of x [] = 0"
| "index_of x (y # ys) = (if x = y then 0 else Suc (index_of x ys))"

definition swap_remove :: "'a \<Rightarrow> 'a list \<Rightarrow> 'a list" where
  "swap_remove x xs = (if x \<in> set xs then butlast (xs[index_of x xs := last xs]) else xs)"

lemma index_of_less: "x \<in> set xs \<Longrightarrow> index_of x xs < length xs"
  by (induction xs) auto

lemma nth_index_of: "x \<in> set xs \<Longrightarrow> xs ! index_of x xs = x"
  by (induction xs) auto

lemma mset_butlast: "xs \<noteq> [] \<Longrightarrow> mset (butlast xs) = mset xs - {#last xs#}"
  by (induction xs) (auto simp: last_in_set in_multiset_in_set)

lemma mset_swap_remove: "mset (swap_remove x xs) = mset xs - {#x#}"
proof (cases "x \<in> set xs")
  case True
  then have ne: "xs \<noteq> []" by auto
  let ?i = "index_of x xs" and ?ys = "xs[index_of x xs := last xs]"
  have i: "?i < length xs" and xi: "xs ! ?i = x"
    using True by (simp_all add: index_of_less nth_index_of)
  have yne: "?ys \<noteq> []" using ne by simp
  have lst: "last ?ys = last xs"
    using ne i by (simp add: last_list_update)
  have m: "mset ?ys = add_mset (last xs) (mset xs - {#x#})"
    using i xi by (simp add: mset_update)
  have "mset (butlast ?ys) = mset ?ys - {#last ?ys#}"
    using yne by (rule mset_butlast)
  also have "\<dots> = mset xs - {#x#}"
    by (simp only: lst m) simp
  finally show ?thesis using True by (simp add: swap_remove_def)
qed (simp add: swap_remove_def)

lemma set_swap_remove: "distinct xs \<Longrightarrow> set (swap_remove x xs) = set xs - {x}"
  by (metis mset_swap_remove mset_remove1 set_mset_mset set_remove1_eq)

lemma distinct_swap_remove: "distinct xs \<Longrightarrow> distinct (swap_remove x xs)"
  by (metis distinct_remove1 mset_eq_imp_distinct_iff mset_remove1 mset_swap_remove)

section \<open>Counting\<close>

lemma count_list_concat: "count_list (concat xss) x = sum_list (map (\<lambda>xs. count_list xs x) xss)"
  by (induction xss) auto

lemma sum_list_distinct: "distinct xs \<Longrightarrow> sum_list (map f xs) = sum f (set xs)"
  by (simp add: sum_list_distinct_conv_sum_set)

lemma image_mset_cancel:
  assumes "inj_on f A" "set_mset M \<subseteq> A" "set_mset N \<subseteq> A" "image_mset f M = image_mset f N"
  shows "M = N"
proof -
  have inv: "image_mset (the_inv_into A f) (image_mset f K) = K" if "set_mset K \<subseteq> A" for K
  proof -
    have "image_mset (\<lambda>x. the_inv_into A f (f x)) K = image_mset (\<lambda>x. x) K"
      using that assms(1) by (intro image_mset_cong) (auto simp: the_inv_into_f_f)
    then show ?thesis by (simp add: multiset.map_comp comp_def)
  qed
  show ?thesis using inv [OF assms(2)] inv [OF assms(3)] unfolding assms(4) by (rule trans [OF sym])
qed

end
