(* ===== verification/WL1_Refine.thy ===== *)
theory WL1_Refine
  imports Orbit_Prelude
begin

text \<open>
  Colour refinement (1-WL): \<open>src/src/main/cpp/paige_tarjan_wl1.cpp\<close>.

  The record \<open>wl1\<close> is the local state of \<open>run1WL\<close>; every block of its main loop is one
  definition below, in the order of the source: \<open>calculateColorDegrees\<close>, the minimum
  degrees, \<open>toSplit\<close>, the splitting of a colour and the cleanup. The loop itself is
  \<open>while_option\<close>, so that its termination is a theorem. Vertices and colours, C++ \<open>int\<close>s
  that are never negative, are natural numbers; \<open>nm\<close>, which starts at \<open>-1\<close>, holds integers.

  The theory ends with the invariant of one iteration (\<open>refine_step_spec\<close>); the
  properties are in \<open>WL1_Correct\<close>.
\<close>

section \<open>The graph\<close>

text \<open>The neighbours of \<open>v\<close>: the entries \<open>offsets[v] .. offsets[v + 1]\<close> of \<open>neighbors\<close>.\<close>

definition nbrs :: "nat list \<Rightarrow> nat list \<Rightarrow> nat \<Rightarrow> nat list" where
  "nbrs offsets neighbors v = map (\<lambda>i. neighbors ! i) [offsets ! v ..< offsets ! Suc v]"

text \<open>What the native code relies on: a well-formed CSR pair for \<open>n\<close> vertices.\<close>

definition csr_ok :: "nat list \<Rightarrow> nat list \<Rightarrow> nat \<Rightarrow> bool" where
  "csr_ok offsets neighbors n \<longleftrightarrow>
     length offsets = Suc n \<and>
     (\<forall>v<n. offsets ! v \<le> offsets ! Suc v \<and> offsets ! Suc v \<le> length neighbors) \<and>
     (\<forall>w \<in> set neighbors. w < n)"

text \<open>How often the vertices of \<open>S\<close> point at \<open>w\<close>: the number of edges from \<open>S\<close> into \<open>w\<close>.\<close>

definition deg :: "nat list \<Rightarrow> nat list \<Rightarrow> nat set \<Rightarrow> nat \<Rightarrow> nat" where
  "deg offsets neighbors S w = (\<Sum>v\<in>S. count_list (nbrs offsets neighbors v) w)"

lemma nbrs_bound: "csr_ok off nb n \<Longrightarrow> v < n \<Longrightarrow> w \<in> set (nbrs off nb v) \<Longrightarrow> w < n"
  by (force simp: csr_ok_def nbrs_def)

section \<open>The state of the loop\<close>

record wl1 =
  coloring :: "nat list"
  cd :: "nat list"
  cc :: "nat list list"
  pdcc :: "nat list list"
  maxCD :: "nat list"
  minCD :: "nat list"
  inStack :: "bool list"
  lastColor :: nat
  stk :: "nat list"

text \<open>Initial colours, normalised to a dense range: (\<open>initColor\<close>, \<open>numInit\<close>).\<close>

definition init_colors :: "nat \<Rightarrow> int list \<Rightarrow> nat list \<times> nat" where
  "init_colors n vertexColors =
     (if vertexColors = [] then (replicate n 0, 1)
      else let distinct_colors = sort_unique vertexColors
           in (map (\<lambda>v. lower_bound distinct_colors (vertexColors ! v)) [0..<n],
               length distinct_colors))"

definition init_wl1 :: "nat \<Rightarrow> int list \<Rightarrow> wl1" where
  "init_wl1 n vertexColors =
     (let (initColor, numInit) = init_colors n vertexColors; mx = n + 2 in
      \<lparr>coloring = initColor,
       cd = replicate n 0,
       cc = fold (\<lambda>v cc. upd_nth cc (initColor ! v) (\<lambda>l. l @ [v])) [0..<n] (replicate mx []),
       pdcc = replicate mx [],
       maxCD = replicate mx 0,
       minCD = replicate mx 0,
       inStack = fold (\<lambda>c b. b[c := True]) [0..<numInit] (replicate mx False),
       lastColor = numInit - 1,
       stk = [0..<numInit]\<rparr>)"

section \<open>One iteration\<close>

text \<open>
  The body of the innermost loop, for one neighbour \<open>w\<close> of a splitter vertex. The
  \<open>std::set adj\<close> is the ascending list of its elements.
\<close>

definition count_neighbor :: "nat \<Rightarrow> wl1 \<times> nat list \<Rightarrow> wl1 \<times> nat list" where
  "count_neighbor w = (\<lambda>(s, adj).
     let s = s\<lparr>cd := upd_nth (cd s) w Suc\<rparr>;
         c = coloring s ! w;
         s = (if cd s ! w = 1 then s\<lparr>pdcc := upd_nth (pdcc s) c (\<lambda>l. l @ [w])\<rparr> else s);
         adj = insort_insert c adj;
         s = (if cd s ! w > maxCD s ! c then s\<lparr>maxCD := (maxCD s)[c := cd s ! w]\<rparr> else s)
     in (s, adj))"

definition calculateColorDegrees ::
  "nat list \<Rightarrow> nat list \<Rightarrow> nat \<Rightarrow> wl1 \<Rightarrow> wl1 \<times> nat list" where
  "calculateColorDegrees offsets neighbors cur s =
     fold (\<lambda>v st. fold count_neighbor (nbrs offsets neighbors v) st) (cc s ! cur) (s, [])"

definition min_color_degree :: "nat \<Rightarrow> wl1 \<Rightarrow> wl1" where
  "min_color_degree c s =
     (if length (cc s ! c) \<noteq> length (pdcc s ! c) then s\<lparr>minCD := (minCD s)[c := 0]\<rparr>
      else s\<lparr>minCD := (minCD s)[c :=
             fold (\<lambda>v m. if cd s ! v < m then cd s ! v else m) (pdcc s ! c) (maxCD s ! c)]\<rparr>)"

definition toSplit :: "nat list \<Rightarrow> wl1 \<Rightarrow> nat list" where
  "toSplit adj s = sort (filter (\<lambda>c. minCD s ! c < maxCD s ! c) adj)"

text \<open>\<open>num[d]\<close>: how many vertices of the colour have degree \<open>d\<close> into the splitter.\<close>

definition degree_counts :: "nat \<Rightarrow> wl1 \<Rightarrow> nat list" where
  "degree_counts color s =
     fold (\<lambda>v num. upd_nth num (cd s ! v) Suc) (pdcc s ! color)
       ((replicate (Suc (maxCD s ! color)) 0)
          [0 := length (cc s ! color) - length (pdcc s ! color)])"

definition largest_part :: "nat list \<Rightarrow> nat" where
  "largest_part num = fold (\<lambda>i maxIdx. if num ! i > num ! maxIdx then i else maxIdx) [1..<length num] 0"

definition push_color :: "nat \<Rightarrow> wl1 \<Rightarrow> wl1" where
  "push_color c s = s\<lparr>stk := stk s @ [c], inStack := (inStack s)[c := True]\<rparr>"

text \<open>\<open>++lastColor\<close>, and the arrays grow when it no longer fits.\<close>

definition fresh_color :: "wl1 \<Rightarrow> wl1" where
  "fresh_color s =
     (let l = Suc (lastColor s); s = s\<lparr>lastColor := l\<rparr> in
      if l \<ge> length (cc s)
      then s\<lparr>cc := resize (Suc l) [] (cc s), pdcc := resize (Suc l) [] (pdcc s),
             maxCD := resize (Suc l) 0 (maxCD s), minCD := resize (Suc l) 0 (minCD s),
             inStack := resize (Suc l) False (inStack s)\<rparr>
      else s)"

definition assign_color ::
  "nat \<Rightarrow> bool \<Rightarrow> nat list \<Rightarrow> nat \<Rightarrow> nat \<Rightarrow> wl1 \<times> int list \<Rightarrow> wl1 \<times> int list" where
  "assign_color color curInStk num maxIdx i = (\<lambda>(s, nm).
     if num ! i = 0 then (s, nm)
     else if i = minCD s ! color then
       (if \<not> curInStk \<and> maxIdx \<noteq> i then push_color color s else s, nm[i := int color])
     else
       let s = fresh_color s; l = lastColor s in
       (if curInStk \<or> i \<noteq> maxIdx then push_color l s else s, nm[i := int l]))"

definition move_vertex :: "nat \<Rightarrow> int list \<Rightarrow> nat \<Rightarrow> wl1 \<Rightarrow> wl1" where
  "move_vertex color nm v s =
     (let nc = nm ! (cd s ! v) in
      if nc \<noteq> int color then
        s\<lparr>cc := upd_nth (upd_nth (cc s) color (swap_remove v)) (nat nc) (\<lambda>l. l @ [v]),
          coloring := (coloring s)[v := nat nc]\<rparr>
      else s)"

definition split_color :: "nat \<Rightarrow> wl1 \<Rightarrow> wl1" where
  "split_color color s =
     (let maxDeg = maxCD s ! color;
          num = degree_counts color s;
          maxIdx = largest_part num;
          (s, nm) = fold (assign_color color (inStack s ! color) num maxIdx) [0..<Suc maxDeg]
                      (s, replicate (Suc maxDeg) (-1))
      in fold (move_vertex color nm) (pdcc s ! color) s)"

definition cleanup_color :: "nat \<Rightarrow> wl1 \<Rightarrow> wl1" where
  "cleanup_color c s =
     s\<lparr>cd := fold (\<lambda>v d. d[v := 0]) (pdcc s ! c) (cd s),
       maxCD := (maxCD s)[c := 0],
       pdcc := (pdcc s)[c := []]\<rparr>"

definition pop_color :: "wl1 \<Rightarrow> nat \<times> wl1" where
  "pop_color s = (hd (stk s), s\<lparr>stk := tl (stk s), inStack := (inStack s)[hd (stk s) := False]\<rparr>)"

definition refine_step :: "nat list \<Rightarrow> nat list \<Rightarrow> wl1 \<Rightarrow> wl1" where
  "refine_step offsets neighbors s =
     (let (cur, s) = pop_color s;
          (s, adj) = calculateColorDegrees offsets neighbors cur s;
          s = fold min_color_degree adj s;
          s = fold split_color (toSplit adj s) s
      in fold cleanup_color adj s)"

definition run1WL :: "nat list \<Rightarrow> nat list \<Rightarrow> nat \<Rightarrow> int list \<Rightarrow> nat list option" where
  "run1WL offsets neighbors n vertexColors =
     (if n = 0 then Some []
      else if n = 1 then Some [0]
      else map_option coloring
             (while_option (\<lambda>s. stk s \<noteq> []) (refine_step offsets neighbors)
                (init_wl1 n vertexColors)))"

text \<open>
  The JNI entries. \<open>readIntArray\<close> copies the Java array; \<open>newIntArray\<close> returns \<open>null\<close>
  (\<open>None\<close>, the \<open>OutOfMemoryError\<close> pending) when the JVM cannot allocate, which is the
  parameter \<open>heap_ok\<close>.
\<close>

definition newIntArray :: "bool \<Rightarrow> 'a list \<Rightarrow> 'a list option" where
  "newIntArray heap_ok v = (if heap_ok then Some v else None)"

definition compute1WLColors :: "bool \<Rightarrow> nat list \<Rightarrow> nat list \<Rightarrow> int \<Rightarrow> nat list option option" where
  "compute1WLColors heap_ok offsets neighbors maxVertex =
     map_option (newIntArray heap_ok) (run1WL offsets neighbors (nat (maxVertex + 1)) [])"

definition compute1WLColorsFrom ::
  "bool \<Rightarrow> nat list \<Rightarrow> nat list \<Rightarrow> int \<Rightarrow> int list \<Rightarrow> nat list option option" where
  "compute1WLColorsFrom heap_ok offsets neighbors maxVertex colors =
     map_option (newIntArray heap_ok) (run1WL offsets neighbors (nat (maxVertex + 1)) colors)"

section \<open>Well-formed states\<close>

text \<open>The vertices of a colour.\<close>

definition cls :: "nat \<Rightarrow> wl1 \<Rightarrow> nat \<Rightarrow> nat set" where
  "cls n s c = {v. v < n \<and> coloring s ! v = c}"

text \<open>Array sizes, and \<open>cc[c]\<close> lists the vertices of colour \<open>c\<close>.\<close>

definition sizes_ok :: "nat \<Rightarrow> wl1 \<Rightarrow> bool" where
  "sizes_ok n s \<longleftrightarrow> length (coloring s) = n \<and> length (cd s) = n \<and>
     length (pdcc s) = length (cc s) \<and> length (maxCD s) = length (cc s) \<and>
     length (minCD s) = length (cc s) \<and> length (inStack s) = length (cc s) \<and>
     lastColor s < length (cc s)"

definition classes_ok :: "nat \<Rightarrow> wl1 \<Rightarrow> bool" where
  "classes_ok n s \<longleftrightarrow>
     (\<forall>c < length (cc s). distinct (cc s ! c) \<and> set (cc s ! c) = cls n s c)"

definition colors_ok :: "nat \<Rightarrow> wl1 \<Rightarrow> bool" where
  "colors_ok n s \<longleftrightarrow> (\<lambda>v. coloring s ! v) ` {..<n} = {..lastColor s}"

definition stack_ok :: "wl1 \<Rightarrow> bool" where
  "stack_ok s \<longleftrightarrow> distinct (stk s) \<and> set (stk s) \<subseteq> {..lastColor s} \<and>
     (\<forall>c < length (cc s). inStack s ! c \<longleftrightarrow> c \<in> set (stk s))"

definition wf_wl1 :: "nat \<Rightarrow> wl1 \<Rightarrow> bool" where
  "wf_wl1 n s \<longleftrightarrow> sizes_ok n s \<and> classes_ok n s \<and> colors_ok n s \<and> stack_ok s"

text \<open>Between iterations the scratch arrays are reset.\<close>

definition scratch_clean :: "wl1 \<Rightarrow> bool" where
  "scratch_clean s \<longleftrightarrow> (\<forall>w < length (cd s). cd s ! w = 0) \<and>
     (\<forall>c < length (cc s). pdcc s ! c = [] \<and> maxCD s ! c = 0)"

named_theorems wl1_defs \<open>the parts of a well-formed state\<close>

lemmas [wl1_defs] = sizes_ok_def classes_ok_def colors_ok_def stack_ok_def

lemma color_le_last: "colors_ok n s \<Longrightarrow> v < n \<Longrightarrow> coloring s ! v \<le> lastColor s"
  by (auto simp: colors_ok_def)

lemma cls_nonempty: "colors_ok n s \<Longrightarrow> c \<le> lastColor s \<Longrightarrow> \<exists>v<n. coloring s ! v = c"
  unfolding colors_ok_def by (metis atMost_iff imageE lessThan_iff)

lemma finite_cls [simp]: "finite (cls n s c)"
  by (simp add: cls_def)

text \<open>There are at most as many colours as vertices.\<close>

lemma lastColor_less: "colors_ok n s \<Longrightarrow> lastColor s < n"
proof -
  assume a: "colors_ok n s"
  have "card {..lastColor s} \<le> card {..<n}"
    using card_image_le [of "{..<n}" "\<lambda>v. coloring s ! v"] a by (simp add: colors_ok_def)
  then show ?thesis by simp
qed

section \<open>Counting the degrees\<close>

text \<open>
  What the counting loop has computed after a list \<open>E\<close> of neighbours, for the colouring
  \<open>col\<close> and \<open>L\<close> colour slots.
\<close>

definition counted ::
  "nat list \<Rightarrow> nat \<Rightarrow> nat list \<Rightarrow> nat list \<Rightarrow> nat list list \<Rightarrow> nat list \<Rightarrow> nat list \<Rightarrow> bool" where
  "counted col L E d pd mx adj \<longleftrightarrow>
     length d = length col \<and> length pd = L \<and> length mx = L \<and>
     (\<forall>w < length col. d ! w = count_list E w) \<and>
     (\<forall>c < L. distinct (pd ! c) \<and> set (pd ! c) = {w \<in> set E. col ! w = c}) \<and>
     sorted adj \<and> distinct adj \<and> set adj = (\<lambda>w. col ! w) ` set E \<and>
     (\<forall>w < length col. count_list E w \<le> mx ! (col ! w)) \<and>
     (\<forall>c < L. mx ! c = 0 \<or> (\<exists>w \<in> set E. col ! w = c \<and> count_list E w = mx ! c))"

lemma count_neighbor_eq:
  assumes "w < length (cd s)" "coloring s ! w < length (maxCD s)"
  shows "count_neighbor w (s, adj) =
    (let c = coloring s ! w; k = Suc (cd s ! w) in
     (s\<lparr>cd := (cd s)[w := k],
        pdcc := (if k = 1 then upd_nth (pdcc s) c (\<lambda>l. l @ [w]) else pdcc s),
        maxCD := (if k > maxCD s ! c then (maxCD s)[c := k] else maxCD s)\<rparr>,
      insort_insert c adj))"
  using assms by (simp add: count_neighbor_def Let_def upd_nth_def)

lemma counted_snoc:
  assumes c: "counted col L E d pd mx adj" and w: "w < length col"
    and col: "\<forall>v < length col. col ! v < L" and E: "\<forall>v \<in> set E. v < length col"
  defines "cw \<equiv> col ! w" and "k \<equiv> Suc (d ! w)"
  shows "counted col L (E @ [w]) (d[w := k])
           (if k = 1 then upd_nth pd cw (\<lambda>l. l @ [w]) else pd)
           (if k > mx ! cw then mx[cw := k] else mx) (insort_insert cw adj)"
proof -
  note c' = c [unfolded counted_def]
  have k: "k = Suc (count_list E w)" and cL: "cw < L"
    using c' w col by (auto simp: k_def cw_def)
  have k1: "k = 1 \<longleftrightarrow> w \<notin> set E"
    using k by (simp add: count_list_0_iff)
  have mx: "count_list E w \<le> mx ! cw" using c' w by (simp add: cw_def)
  let ?pd = "if k = 1 then upd_nth pd cw (\<lambda>l. l @ [w]) else pd"
  let ?mx = "if k > mx ! cw then mx[cw := k] else mx"
  have lens: "length (d[w := k]) = length col" "length ?pd = L" "length ?mx = L"
    using c' by simp_all
  have d: "\<forall>v < length col. d[w := k] ! v = count_list (E @ [w]) v"
    using c' k by (auto simp: nth_list_update)
  have pd: "distinct (?pd ! x) \<and> set (?pd ! x) = {v \<in> set (E @ [w]). col ! v = x}"
    if "x < L" for x
  proof -
    have "distinct (pd ! x) \<and> set (pd ! x) = {v \<in> set E. col ! v = x}"
      using c' that by blast
    then show ?thesis
      using c' that k1 cL by (auto simp: cw_def nth_upd_nth)
  qed
  have adj: "sorted (insort_insert cw adj)" "distinct (insort_insert cw adj)"
    "set (insort_insert cw adj) = (\<lambda>v. col ! v) ` set (E @ [w])"
    using c' by (auto simp: cw_def set_insort_insert distinct_insort_insert
      intro: sorted_insort_insert)
  have mx1: "count_list (E @ [w]) v \<le> ?mx ! (col ! v)" if v: "v < length col" for v
  proof (cases "v = w")
    case True
    then show ?thesis using k cL c' by (simp add: cw_def)
  next
    case False
    have "count_list E v \<le> mx ! (col ! v)" using c' v by blast
    also have "\<dots> \<le> ?mx ! (col ! v)"
      using cL c' by (cases "col ! v = cw") (auto simp: nth_list_update)
    finally show ?thesis using False by simp
  qed
  have mx2: "?mx ! x = 0 \<or> (\<exists>v \<in> set (E @ [w]). col ! v = x \<and> count_list (E @ [w]) v = ?mx ! x)"
    if x: "x < L" for x
  proof (cases "k > mx ! cw \<and> x = cw")
    case True
    then show ?thesis using c' k cL by (auto simp: cw_def)
  next
    case False
    then have eq: "?mx ! x = mx ! x" by auto
    have "mx ! x = 0 \<or> (\<exists>v \<in> set E. col ! v = x \<and> count_list E v = mx ! x)"
      using c x by (simp add: counted_def)
    then show ?thesis
    proof (elim disjE bexE conjE)
      assume "mx ! x = 0"
      then show ?thesis using eq by simp
    next
      fix v assume v: "v \<in> set E" "col ! v = x" "count_list E v = mx ! x"
      then have "v \<noteq> w" using False k by (auto simp: cw_def)
      then show ?thesis using v eq by force
    qed
  qed
  show ?thesis
    unfolding counted_def using lens d pd adj mx1 mx2 by blast
qed

lemma fold_count_neighbor:
  assumes "sizes_ok n s" "scratch_clean s" "colors_ok n s" "\<forall>v \<in> set E. v < n"
  shows "\<exists>d pd mx adj. fold count_neighbor E (s, []) = (s\<lparr>cd := d, pdcc := pd, maxCD := mx\<rparr>, adj) \<and>
    counted (coloring s) (length (cc s)) E d pd mx adj"
  using assms(4)
proof (induction E rule: rev_induct)
  case Nil
  have "counted (coloring s) (length (cc s)) [] (cd s) (pdcc s) (maxCD s) []"
    using assms(1,2) color_le_last [OF assms(3)]
    by (auto simp: counted_def sizes_ok_def scratch_clean_def)
  then show ?case
    by (intro exI [of _ "cd s"] exI [of _ "pdcc s"] exI [of _ "maxCD s"] exI [of _ "[]"]) simp
next
  case (snoc w E)
  then obtain d pd mx adj where
    IH: "fold count_neighbor E (s, []) = (s\<lparr>cd := d, pdcc := pd, maxCD := mx\<rparr>, adj)"
      "counted (coloring s) (length (cc s)) E d pd mx adj" by auto
  have w: "w < length (coloring s)" and col: "\<forall>v < length (coloring s). coloring s ! v < length (cc s)"
    and E: "\<forall>v \<in> set E. v < length (coloring s)"
    using snoc.prems assms(1) color_le_last [OF assms(3)]
    by (auto simp: sizes_ok_def intro: le_less_trans)
  have d_len: "length d = length (coloring s)" "length mx = length (cc s)"
    using IH(2) by (simp_all add: counted_def)
  have "count_neighbor w (s\<lparr>cd := d, pdcc := pd, maxCD := mx\<rparr>, adj) =
    (let c = coloring s ! w; k = Suc (d ! w) in
     (s\<lparr>cd := d[w := k], pdcc := (if k = 1 then upd_nth pd c (\<lambda>l. l @ [w]) else pd),
        maxCD := (if k > mx ! c then mx[c := k] else mx)\<rparr>, insort_insert c adj))"
    using w col d_len by (subst count_neighbor_eq) (simp_all add: Let_def)
  then show ?case
    using counted_snoc [OF IH(2) w col E] IH(1) by (fastforce simp: Let_def)
qed

section \<open>Minimum degrees\<close>

definition min_deg :: "nat \<Rightarrow> wl1 \<Rightarrow> nat" where
  "min_deg c s = (if length (cc s ! c) \<noteq> length (pdcc s ! c) then 0
     else fold (\<lambda>v m. if cd s ! v < m then cd s ! v else m) (pdcc s ! c) (maxCD s ! c))"

lemma min_color_degree_eq: "min_color_degree c s = s\<lparr>minCD := (minCD s)[c := min_deg c s]\<rparr>"
  by (simp add: min_color_degree_def min_deg_def)

lemma min_deg_minCD [simp]: "min_deg c (s\<lparr>minCD := m\<rparr>) = min_deg c s"
  by (simp add: min_deg_def cong: if_cong)

lemma fold_min_color_degree:
  "\<exists>m. fold min_color_degree adj s = s\<lparr>minCD := m\<rparr> \<and> length m = length (minCD s) \<and>
     (\<forall>c \<in> set adj. c < length (minCD s) \<longrightarrow> m ! c = min_deg c s)"
proof (induction adj rule: rev_induct)
  case Nil
  show ?case by (rule exI [of _ "minCD s"]) simp
next
  case (snoc c adj)
  then obtain m where m: "fold min_color_degree adj s = s\<lparr>minCD := m\<rparr>"
    "length m = length (minCD s)" "\<forall>c \<in> set adj. c < length (minCD s) \<longrightarrow> m ! c = min_deg c s"
    by blast
  have "m[c := min_deg c s] ! d = min_deg d s" if "d \<in> set (adj @ [c])" "d < length (minCD s)" for d
    using that m(2,3) by (cases "d = c") auto
  with m(1,2) show ?case
    by (intro exI [of _ "m[c := min_deg c s]"]) (simp add: min_color_degree_eq [of c])
qed

lemma fold_min_bounds:
  "let r = fold (\<lambda>v m. if (f v :: nat) < m then f v else m) xs m0 in
     r \<le> m0 \<and> (\<forall>v \<in> set xs. r \<le> f v) \<and> (r = m0 \<or> (\<exists>v \<in> set xs. r = f v))"
proof (induction xs rule: rev_induct)
  case (snoc x xs)
  then show ?case by (auto simp: Let_def)
qed (simp add: Let_def)

section \<open>The degree data of a colour\<close>

text \<open>
  What the splitting of the colour \<open>c\<close> reads: the vertices with a positive degree, and
  bounds on the degrees of which the lower one is attained.
\<close>

definition deg_data :: "nat \<Rightarrow> (nat \<Rightarrow> nat) \<Rightarrow> wl1 \<Rightarrow> nat \<Rightarrow> bool" where
  "deg_data n D s c \<longleftrightarrow> c \<le> lastColor s \<and> (\<forall>w<n. cd s ! w = D w) \<and>
     distinct (pdcc s ! c) \<and> set (pdcc s ! c) = {w \<in> cls n s c. D w > 0} \<and>
     (\<forall>w \<in> cls n s c. minCD s ! c \<le> D w \<and> D w \<le> maxCD s ! c) \<and>
     (\<exists>w \<in> cls n s c. D w = minCD s ! c) \<and> (\<exists>w \<in> cls n s c. D w = maxCD s ! c)"

text \<open>\<open>cc[c].size () != pdcc[c].size ()\<close> says that some vertex of \<open>c\<close> has degree 0.\<close>

lemma pdcc_full_iff:
  assumes cls: "classes_ok n s" "c < length (cc s)"
    and pd: "distinct (pdcc s ! c)" "set (pdcc s ! c) = {w \<in> cls n s c. D w > (0::nat)}"
  shows "length (cc s ! c) = length (pdcc s ! c) \<longleftrightarrow> (\<forall>w \<in> cls n s c. D w > 0)"
    and "length (pdcc s ! c) \<le> length (cc s ! c)"
proof -
  have cc: "distinct (cc s ! c)" "set (cc s ! c) = cls n s c"
    using cls by (auto simp: classes_ok_def)
  have l: "length (cc s ! c) = card (cls n s c)" "length (pdcc s ! c) = card {w \<in> cls n s c. D w > 0}"
    using distinct_card [OF cc(1)] distinct_card [OF pd(1)] cc(2) pd(2) by simp_all
  show "length (cc s ! c) = length (pdcc s ! c) \<longleftrightarrow> (\<forall>w \<in> cls n s c. D w > 0)"
  proof
    assume "length (cc s ! c) = length (pdcc s ! c)"
    then have "{w \<in> cls n s c. D w > 0} = cls n s c"
      using l by (intro card_subset_eq) auto
    then show "\<forall>w \<in> cls n s c. D w > 0" by blast
  next
    assume "\<forall>w \<in> cls n s c. D w > 0"
    then have "{w \<in> cls n s c. D w > 0} = cls n s c" by blast
    then show "length (cc s ! c) = length (pdcc s ! c)" using l by simp
  qed
  show "length (pdcc s ! c) \<le> length (cc s ! c)"
    unfolding l by (intro card_mono) auto
qed

lemma min_deg_attained:
  assumes cls: "classes_ok n s" "c < length (cc s)"
    and cd: "\<forall>w<n. cd s ! w = D w"
    and pd: "distinct (pdcc s ! c)" "set (pdcc s ! c) = {w \<in> cls n s c. D w > 0}"
    and mx: "\<exists>w \<in> cls n s c. D w = maxCD s ! c"
  shows "(\<forall>w \<in> cls n s c. min_deg c s \<le> D w) \<and> (\<exists>w \<in> cls n s c. D w = min_deg c s)"
proof -
  note same = pdcc_full_iff(1) [OF cls pd]
  show ?thesis
  proof (cases "length (cc s ! c) = length (pdcc s ! c)")
    case False
    then show ?thesis using same by (auto simp: min_deg_def)
  next
    case True
    then have all: "set (pdcc s ! c) = cls n s c" using same pd(2) by auto
    have cdw: "cd s ! w = D w" if "w \<in> cls n s c" for w
      using cd that by (simp add: cls_def)
    let ?r = "fold (\<lambda>v m. if cd s ! v < m then cd s ! v else m) (pdcc s ! c) (maxCD s ! c)"
    have "(\<forall>w \<in> set (pdcc s ! c). ?r \<le> cd s ! w) \<and>
        (?r = maxCD s ! c \<or> (\<exists>w \<in> set (pdcc s ! c). ?r = cd s ! w))"
      using fold_min_bounds [of "\<lambda>v. cd s ! v" "pdcc s ! c" "maxCD s ! c"] by (simp add: Let_def)
    moreover have "min_deg c s = ?r" using True by (simp add: min_deg_def)
    ultimately have "(\<forall>w \<in> cls n s c. min_deg c s \<le> D w) \<and>
        (min_deg c s = maxCD s ! c \<or> (\<exists>w \<in> cls n s c. min_deg c s = D w))"
      using all cdw by simp
    then show ?thesis using mx by metis
  qed
qed

section \<open>Array extension\<close>

text \<open>\<open>s'\<close> keeps every colour slot of \<open>s\<close>; the slots it adds are empty.\<close>

definition ext :: "wl1 \<Rightarrow> wl1 \<Rightarrow> bool" where
  "ext s s' \<longleftrightarrow> coloring s' = coloring s \<and> cd s' = cd s \<and> length (cc s) \<le> length (cc s') \<and>
     (\<forall>c < length (cc s). cc s' ! c = cc s ! c \<and> pdcc s' ! c = pdcc s ! c \<and>
        maxCD s' ! c = maxCD s ! c \<and> minCD s' ! c = minCD s ! c) \<and>
     (\<forall>c. length (cc s) \<le> c \<and> c < length (cc s') \<longrightarrow>
        cc s' ! c = [] \<and> pdcc s' ! c = [] \<and> maxCD s' ! c = 0)"

lemma ext_refl [simp]: "ext s s"
  by (auto simp: ext_def)

lemma ext_trans: "ext s t \<Longrightarrow> ext t u \<Longrightarrow> ext s u"
  unfolding ext_def by (smt (verit) leI le_trans order.strict_trans2)

lemma push_color_ext [simp]: "ext s (push_color c s)"
  by (auto simp: ext_def push_color_def)

lemma push_color_simps [simp]:
  "lastColor (push_color c s) = lastColor s" "stk (push_color c s) = stk s @ [c]"
  "coloring (push_color c s) = coloring s" "cc (push_color c s) = cc s"
  "minCD (push_color c s) = minCD s"
  "sizes_ok n (push_color c s) = sizes_ok n s"
  by (auto simp: push_color_def sizes_ok_def)

lemma push_color_stack:
  "sizes_ok n s \<Longrightarrow> stack_ok s \<Longrightarrow> c \<le> lastColor s \<Longrightarrow> c \<notin> set (stk s) \<Longrightarrow> stack_ok (push_color c s)"
  by (auto simp: stack_ok_def sizes_ok_def push_color_def nth_list_update)

lemma fresh_color_simps [simp]:
  "lastColor (fresh_color s) = Suc (lastColor s)" "stk (fresh_color s) = stk s"
  "coloring (fresh_color s) = coloring s"
  by (simp_all add: fresh_color_def Let_def)

lemma fresh_color_sizes: "sizes_ok n s \<Longrightarrow> sizes_ok n (fresh_color s)"
  by (auto simp: fresh_color_def Let_def sizes_ok_def)

lemma fresh_color_ext: "sizes_ok n s \<Longrightarrow> ext s (fresh_color s)"
  by (auto simp: fresh_color_def Let_def sizes_ok_def ext_def nth_resize_old nth_resize_new)

lemma fresh_color_stack: "sizes_ok n s \<Longrightarrow> stack_ok s \<Longrightarrow> stack_ok (fresh_color s)"
proof -
  assume a: "sizes_ok n s" "stack_ok s"
  have "inStack (fresh_color s) ! c \<longleftrightarrow> c \<in> set (stk s)" if "c < length (cc (fresh_color s))" for c
  proof (cases "c < length (cc s)")
    case True
    then show ?thesis using a by (auto simp: fresh_color_def Let_def sizes_ok_def stack_ok_def nth_resize_old)
  next
    case False
    then show ?thesis using a that
      by (auto simp: fresh_color_def Let_def sizes_ok_def stack_ok_def nth_resize_new split: if_splits)
  qed
  then show ?thesis using a by (auto simp: stack_ok_def)
qed

end
