(* ===== verification/WL1_Split.thy ===== *)
theory WL1_Split
  imports WL1_Refine
begin

text \<open>
  The splitting of one colour (\<open>split_color\<close>, \<open>paige_tarjan_wl1.cpp\<close>): what the assignment
  of the new colour ids and the moves of the vertices do to a well-formed state, and from it
  the effect of all the splits of an iteration (\<open>fold_split_color\<close>).
\<close>

section \<open>Assigning the new colours\<close>

text \<open>
  After the degrees below \<open>k\<close> have been given their colours: the minimum keeps
  \<open>color\<close>, the others have fresh ones, and all but (at most) the part of degree \<open>maxIdx\<close>
  are queued.
\<close>

definition assigned ::
  "nat \<Rightarrow> wl1 \<Rightarrow> nat \<Rightarrow> nat list \<Rightarrow> nat \<Rightarrow> nat \<Rightarrow> wl1 \<Rightarrow> int list \<Rightarrow> bool" where
  "assigned n s color num maxIdx k s' nm \<longleftrightarrow>
     sizes_ok n s' \<and> stack_ok s' \<and> ext s s' \<and> lastColor s \<le> lastColor s' \<and>
     set (stk s) \<subseteq> set (stk s') \<and> length nm = length num \<and>
     (color \<in> set (stk s') \<longrightarrow> color \<in> set (stk s) \<or> minCD s ! color < k) \<and>
     (\<forall>i<k. num ! i \<noteq> 0 \<longrightarrow> (if i = minCD s ! color then nm ! i = int color
        else \<exists>l. nm ! i = int l \<and> lastColor s < l \<and> l \<le> lastColor s')) \<and>
     (\<forall>i<k. \<forall>j<k. num ! i \<noteq> 0 \<longrightarrow> num ! j \<noteq> 0 \<longrightarrow> nm ! i = nm ! j \<longrightarrow> i = j) \<and>
     (\<forall>l. lastColor s < l \<and> l \<le> lastColor s' \<longrightarrow> (\<exists>i<k. num ! i \<noteq> 0 \<and> nm ! i = int l)) \<and>
     (\<forall>i<k. num ! i \<noteq> 0 \<longrightarrow> color \<in> set (stk s) \<or> i \<noteq> maxIdx \<longrightarrow> nat (nm ! i) \<in> set (stk s'))"

lemma assignedD:
  assumes "assigned n s color num maxIdx k s' nm"
  shows "sizes_ok n s'" and "stack_ok s'" and "ext s s'" and "lastColor s \<le> lastColor s'"
    and "set (stk s) \<subseteq> set (stk s')" and "length nm = length num"
    and "color \<in> set (stk s') \<longrightarrow> color \<in> set (stk s) \<or> minCD s ! color < k"
    and "\<forall>i<k. num ! i \<noteq> 0 \<longrightarrow> (if i = minCD s ! color then nm ! i = int color
        else \<exists>l. nm ! i = int l \<and> lastColor s < l \<and> l \<le> lastColor s')"
    and "\<forall>i<k. \<forall>j<k. num ! i \<noteq> 0 \<longrightarrow> num ! j \<noteq> 0 \<longrightarrow> nm ! i = nm ! j \<longrightarrow> i = j"
    and "\<forall>l. lastColor s < l \<and> l \<le> lastColor s' \<longrightarrow> (\<exists>i<k. num ! i \<noteq> 0 \<and> nm ! i = int l)"
    and "\<forall>i<k. num ! i \<noteq> 0 \<longrightarrow> color \<in> set (stk s) \<or> i \<noteq> maxIdx \<longrightarrow> nat (nm ! i) \<in> set (stk s')"
  using assms unfolding assigned_def by - (elim conjE, assumption)+

lemma assigned_skip:
  assumes "assigned n s color num maxIdx k s1 nm" "num ! k = 0"
  shows "assigned n s color num maxIdx (Suc k) s1 nm"
proof -
  note A = assignedD [OF assms(1)]
  have lt: "i < k" if "i < Suc k" "num ! i \<noteq> 0" for i
    using that assms(2) by (cases "i = k") auto
  show ?thesis
    unfolding assigned_def
  proof (intro conjI allI impI)
    fix l assume "lastColor s < l \<and> l \<le> lastColor s1"
    then show "\<exists>i<Suc k. num ! i \<noteq> 0 \<and> nm ! i = int l"
      using A(10) less_SucI by blast
  qed (use A lt in \<open>blast intro: less_SucI\<close>)+
qed

text \<open>The two other branches: the new entry of \<open>nm\<close> and the (possibly larger) state.\<close>

lemma assigned_extend:
  assumes a: "assigned n s color num maxIdx k s1 nm" and k: "k < length num" "num ! k \<noteq> 0"
    and st: "sizes_ok n s2" "stack_ok s2" "ext s1 s2" "lastColor s1 \<le> lastColor s2"
      "set (stk s1) \<subseteq> set (stk s2)"
    and col: "color \<le> lastColor s"
      "color \<in> set (stk s2) \<Longrightarrow> color \<in> set (stk s1) \<or> minCD s ! color = k"
    and c: "if k = minCD s ! color then c = color \<and> lastColor s2 = lastColor s1
            else lastColor s2 = Suc (lastColor s1) \<and> c = lastColor s2"
    and q: "color \<in> set (stk s) \<or> k \<noteq> maxIdx \<Longrightarrow> c \<in> set (stk s2)"
  shows "assigned n s color num maxIdx (Suc k) s2 (nm[k := int c])"
proof -
  note A = assignedD [OF a]
  have len: "k < length nm" using A(6) k by simp
  let ?nm = "nm[k := int c]"
  have old: "?nm ! i = nm ! i" if "i < k" for i using that by simp
  have new: "?nm ! k = int c" using len by simp
  have e: "ext s s2" using A(3) st(3) by (rule ext_trans)
  have r: "if i = minCD s ! color then nm ! i = int color
      else \<exists>l. nm ! i = int l \<and> lastColor s < l \<and> l \<le> lastColor s1" if "i < k" "num ! i \<noteq> 0" for i
    using A(8) that by blast
  have ne: "nm ! i \<noteq> int c" if i: "i < k" "num ! i \<noteq> 0" for i
  proof (cases "k = minCD s ! color")
    case True
    then show ?thesis using r [OF i] c col(1) i by auto
  next
    case False
    then have "c > lastColor s1" "c > color" using c A(4) col(1) by auto
    then show ?thesis using r [OF i] by (auto split: if_splits)
  qed
  have fresh: "if k = minCD s ! color then c = color else lastColor s < c \<and> c \<le> lastColor s2"
    using c A(4) by (auto split: if_splits)
  have cases: "i < k \<or> i = k" if "i < Suc k" for i using that by (auto simp: less_Suc_eq)
  have B8: "if i = minCD s ! color then ?nm ! i = int color
      else \<exists>l. ?nm ! i = int l \<and> lastColor s < l \<and> l \<le> lastColor s2"
    if i: "i < Suc k" "num ! i \<noteq> 0" for i
  proof (cases "i = k")
    case True
    then show ?thesis using new fresh by auto
  next
    case False
    then have "i < k" using i by simp
    then show ?thesis using r [of i] old i st(4) by (auto split: if_splits intro: le_trans)
  qed
  have B9: "i = j" if ij: "i < Suc k" "j < Suc k" "num ! i \<noteq> 0" "num ! j \<noteq> 0" "?nm ! i = ?nm ! j" for i j
    using cases [OF ij(1)] cases [OF ij(2)] A(9) ij old new ne by (metis (no_types, lifting))
  have B10: "\<exists>i<Suc k. num ! i \<noteq> 0 \<and> ?nm ! i = int l" if l: "lastColor s < l" "l \<le> lastColor s2" for l
  proof (cases "l \<le> lastColor s1")
    case True
    then obtain i where "i < k" "num ! i \<noteq> 0" "nm ! i = int l" using A(10) l by blast
    then show ?thesis using old by (intro exI [of _ i]) simp
  next
    case False
    then have "l = c" using c l by (auto split: if_splits)
    then show ?thesis using new k by blast
  qed
  have B11: "nat (?nm ! i) \<in> set (stk s2)"
    if i: "i < Suc k" "num ! i \<noteq> 0" "color \<in> set (stk s) \<or> i \<noteq> maxIdx" for i
    using cases [OF i(1)]
  proof
    assume "i < k"
    then show ?thesis using i A(11) old st(5) by auto
  next
    assume "i = k"
    then show ?thesis using i new q by auto
  qed
  have B7: "color \<in> set (stk s2) \<longrightarrow> color \<in> set (stk s) \<or> minCD s ! color < Suc k"
    using A(7) col(2) by auto
  show ?thesis
    unfolding assigned_def length_list_update
    using st(1,2) e le_trans [OF A(4) st(4)] subset_trans [OF A(5) st(5)] A(6) B7
    by (intro conjI; (assumption | (use B8 B9 B10 B11 in blast)))
qed

lemma assign_color_step:
  assumes a: "assigned n s color num maxIdx k s1 nm" and k: "k < length num"
    and s: "sizes_ok n s" "stack_ok s" and col: "color \<le> lastColor s"
  shows "\<exists>s2 nm2. assign_color color (inStack s ! color) num maxIdx k (s1, nm) = (s2, nm2) \<and>
    assigned n s color num maxIdx (Suc k) s2 nm2"
proof -
  note A = assignedD [OF a]
  have cl: "color < length (cc s)" using col s by (simp add: sizes_ok_def)
  have stk: "inStack s ! color \<longleftrightarrow> color \<in> set (stk s)"
    using s(2) cl by (simp add: stack_ok_def)
  have m: "minCD s1 ! color = minCD s ! color" using A(3) cl by (simp add: ext_def)
  consider "num ! k = 0" | "num ! k \<noteq> 0" "k = minCD s ! color" | "num ! k \<noteq> 0" "k \<noteq> minCD s ! color"
    by blast
  then show ?thesis
  proof cases
    case 1
    then show ?thesis using assigned_skip [OF a] by (simp add: assign_color_def)
  next
    case 2
    let ?s2 = "if color \<notin> set (stk s) \<and> maxIdx \<noteq> k then push_color color s1 else s1"
    have "color \<notin> set (stk s1)" if "color \<notin> set (stk s)"
      using A(7) that 2 by simp
    then have st: "stack_ok ?s2"
      using push_color_stack [OF A(1,2)] A(2,4) col by auto
    have "assigned n s color num maxIdx (Suc k) ?s2 (nm[k := int color])"
    proof (rule assigned_extend [OF a k 2(1)])
      show "color \<in> set (stk ?s2)" if "color \<in> set (stk s) \<or> k \<noteq> maxIdx"
        using that A(5) by auto
    qed (use st A(1) 2 col in auto)
    then show ?thesis using 2 m stk by (simp add: assign_color_def)
  next
    case 3
    let ?f = "fresh_color s1"
    let ?s2 = "if color \<in> set (stk s) \<or> k \<noteq> maxIdx then push_color (lastColor ?f) ?f else ?f"
    have f: "sizes_ok n ?f" "stack_ok ?f" "ext s1 ?f"
      using A(1,2) by (simp_all add: fresh_color_sizes fresh_color_stack fresh_color_ext)
    have "lastColor ?f \<notin> set (stk ?f)"
      using A(2) by (auto simp: stack_ok_def)
    then have st: "stack_ok ?s2"
      using push_color_stack [OF f(1,2)] f(2) by simp
    have e: "ext s1 ?s2" using f(3) push_color_ext ext_trans by simp
    have "assigned n s color num maxIdx (Suc k) ?s2 (nm[k := int (lastColor ?f)])"
    proof (rule assigned_extend [OF a k 3(1) _ st e])
      show "color \<in> set (stk s1) \<or> minCD s ! color = k" if "color \<in> set (stk ?s2)"
        using that col A(4) by (auto split: if_splits)
    qed (use f(1) 3 col in auto)
    then show ?thesis using 3 m stk by (simp add: assign_color_def Let_def)
  qed
qed

lemma fold_assign_color:
  assumes s: "sizes_ok n s" "stack_ok s" and col: "color \<le> lastColor s" and k: "k \<le> length num"
    and nm0: "length nm0 = length num"
  shows "\<exists>s2 nm2. fold (assign_color color (inStack s ! color) num maxIdx) [0..<k] (s, nm0) = (s2, nm2) \<and>
    assigned n s color num maxIdx k s2 nm2"
  using k
proof (induction k)
  case 0
  show ?case using s nm0 by (auto simp: assigned_def)
next
  case (Suc k)
  then obtain s2 nm2 where
    "fold (assign_color color (inStack s ! color) num maxIdx) [0..<k] (s, nm0) = (s2, nm2)"
    "assigned n s color num maxIdx k s2 nm2" by auto
  with assign_color_step [OF this(2) _ s col] Suc.prems show ?case by simp
qed

section \<open>Counting the parts\<close>

lemma fold_count_degrees:
  assumes "\<forall>v \<in> set xs. f v < length num"
  shows "let r = fold (\<lambda>v num. upd_nth num (f v) Suc) xs num in
    length r = length num \<and> (\<forall>i < length num. r ! i = num ! i + count_list (map f xs) i)"
  using assms
proof (induction xs rule: rev_induct)
  case (snoc x xs)
  then show ?case by (auto simp: Let_def nth_upd_nth)
qed (simp add: Let_def)

lemma degree_counts_nonzero:
  assumes d: "deg_data n D s c" and s: "sizes_ok n s" "classes_ok n s" and i: "i \<le> maxCD s ! c"
  shows "degree_counts c s ! i \<noteq> 0 \<longleftrightarrow> (\<exists>w \<in> cls n s c. D w = i)"
    and "length (degree_counts c s) = Suc (maxCD s ! c)"
proof -
  have pd: "distinct (pdcc s ! c)" "set (pdcc s ! c) = {w \<in> cls n s c. D w > 0}"
    and c: "c < length (cc s)" and D: "\<forall>w \<in> cls n s c. cd s ! w = D w \<and> D w \<le> maxCD s ! c"
    using d s(1) by (auto simp: deg_data_def sizes_ok_def cls_def)
  note full = pdcc_full_iff [OF s(2) c pd]
  let ?num = "(replicate (Suc (maxCD s ! c)) 0)[0 := length (cc s ! c) - length (pdcc s ! c)]"
  have "\<forall>v \<in> set (pdcc s ! c). cd s ! v < length ?num"
    using pd(2) D by auto
  from fold_count_degrees [OF this]
  have r: "length (degree_counts c s) = Suc (maxCD s ! c)"
    "degree_counts c s ! i = ?num ! i + count_list (map (\<lambda>v. cd s ! v) (pdcc s ! c)) i"
    using i by (simp_all add: degree_counts_def Let_def)
  then show "length (degree_counts c s) = Suc (maxCD s ! c)" by simp
  have cnt: "count_list (map (\<lambda>v. cd s ! v) (pdcc s ! c)) i \<noteq> 0 \<longleftrightarrow>
      (\<exists>w \<in> cls n s c. D w > 0 \<and> D w = i)"
    using pd(2) D by (auto simp: count_list_0_iff)
  have num: "?num ! i \<noteq> 0 \<longleftrightarrow> i = 0 \<and> (\<exists>w \<in> cls n s c. D w = 0)"
    using full i by (cases i) auto
  show "degree_counts c s ! i \<noteq> 0 \<longleftrightarrow> (\<exists>w \<in> cls n s c. D w = i)"
    unfolding r(2) add_is_0 de_Morgan_conj cnt num by auto
qed

section \<open>Moving the vertices\<close>

lemma move_vertex_classes:
  assumes s: "sizes_ok n s" "classes_ok n s" and v: "v < n" "coloring s ! v = color"
    and nc: "nm ! (cd s ! v) = int l" "l < length (cc s)" and c: "color < length (cc s)"
  shows "\<exists>cc' col'. move_vertex color nm v s = s\<lparr>cc := cc', coloring := col'\<rparr> \<and>
    length cc' = length (cc s) \<and> length col' = n \<and>
    (\<forall>u<n. col' ! u = (if u = v then l else coloring s ! u)) \<and>
    classes_ok n (s\<lparr>cc := cc', coloring := col'\<rparr>)"
proof (cases "l = color")
  case True
  then show ?thesis
    using assms by (intro exI [of _ "cc s"] exI [of _ "coloring s"])
      (auto simp: move_vertex_def sizes_ok_def)
next
  case False
  let ?cc = "upd_nth (upd_nth (cc s) color (swap_remove v)) l (\<lambda>x. x @ [v])"
  let ?col = "(coloring s)[v := l]"
  have len: "length (coloring s) = n" using s(1) by (simp add: sizes_ok_def)
  have "distinct (?cc ! x) \<and> set (?cc ! x) = {u. u < n \<and> ?col ! u = x}" if x: "x < length (cc s)" for x
  proof -
    have old: "distinct (cc s ! x)" "set (cc s ! x) = {u. u < n \<and> coloring s ! u = x}"
      using s(2) x by (auto simp: classes_ok_def cls_def)
    consider "x = color" | "x = l" | "x \<noteq> color" "x \<noteq> l" by blast
    then show ?thesis
    proof cases
      case 1
      then have "?cc ! x = swap_remove v (cc s ! x)" using False c by simp
      then show ?thesis
        using old v False 1 len by (auto simp: set_swap_remove distinct_swap_remove nth_list_update)
    next
      case 2
      then have "?cc ! x = cc s ! x @ [v]" using False nc by simp
      then show ?thesis
        using old v False 2 len by (auto simp: nth_list_update)
    next
      case 3
      then have "?cc ! x = cc s ! x" by simp
      then show ?thesis
        using old v False 3 len by (auto simp: nth_list_update)
    qed
  qed
  then have "classes_ok n (s\<lparr>cc := ?cc, coloring := ?col\<rparr>)"
    by (auto simp: classes_ok_def cls_def)
  moreover have "move_vertex color nm v s = s\<lparr>cc := ?cc, coloring := ?col\<rparr>"
    using False nc by (simp add: move_vertex_def Let_def)
  ultimately show ?thesis
    using len by (intro exI [of _ ?cc] exI [of _ ?col]) (auto simp: nth_list_update)
qed

lemma fold_move_vertex:
  assumes s: "sizes_ok n s" "classes_ok n s" and c: "color < length (cc s)"
    and vs: "distinct vs" "\<forall>v \<in> set vs. v < n \<and> coloring s ! v = color \<and>
      (\<exists>l < length (cc s). nm ! (cd s ! v) = int l)"
  shows "\<exists>cc' col'. fold (move_vertex color nm) vs s = s\<lparr>cc := cc', coloring := col'\<rparr> \<and>
    length cc' = length (cc s) \<and> length col' = n \<and>
    (\<forall>u<n. col' ! u = (if u \<in> set vs then nat (nm ! (cd s ! u)) else coloring s ! u)) \<and>
    classes_ok n (s\<lparr>cc := cc', coloring := col'\<rparr>)"
  using vs
proof (induction vs rule: rev_induct)
  case Nil
  show ?case using s by (intro exI [of _ "cc s"] exI [of _ "coloring s"]) (auto simp: sizes_ok_def)
next
  case (snoc v vs)
  then obtain cc1 col1 where IH: "fold (move_vertex color nm) vs s = s\<lparr>cc := cc1, coloring := col1\<rparr>"
    "length cc1 = length (cc s)" "length col1 = n"
    "\<forall>u<n. col1 ! u = (if u \<in> set vs then nat (nm ! (cd s ! u)) else coloring s ! u)"
    "classes_ok n (s\<lparr>cc := cc1, coloring := col1\<rparr>)" by auto
  let ?s = "s\<lparr>cc := cc1, coloring := col1\<rparr>"
  obtain l where v: "v < n" "v \<notin> set vs" "coloring s ! v = color" "l < length (cc s)"
    "nm ! (cd s ! v) = int l" using snoc.prems by auto
  have "sizes_ok n ?s" using s(1) IH(2,3) by (auto simp: sizes_ok_def)
  from move_vertex_classes [OF this IH(5), of v color nm l] v IH(2,4) c
  obtain cc2 col2 where "move_vertex color nm v ?s = ?s\<lparr>cc := cc2, coloring := col2\<rparr>"
    "length cc2 = length (cc s)" "length col2 = n"
    "\<forall>u<n. col2 ! u = (if u = v then l else col1 ! u)"
    "classes_ok n (?s\<lparr>cc := cc2, coloring := col2\<rparr>)" by auto
  with IH v show ?case
    by (intro exI [of _ cc2] exI [of _ col2]) auto
qed

section \<open>One split\<close>

text \<open>
  The effect of splitting colour \<open>c\<close>: the vertices of other colours stay, those of \<open>c\<close>
  are separated exactly by their degree, the new colours are queued up to the part of one
  degree (all of them when \<open>c\<close> was queued), and there is a new colour when the degrees vary.
\<close>

definition keeps_scratch :: "wl1 \<Rightarrow> wl1 \<Rightarrow> bool" where
  "keeps_scratch s s' \<longleftrightarrow> cd s' = cd s \<and> length (cc s) \<le> length (cc s') \<and>
     (\<forall>x < length (cc s). pdcc s' ! x = pdcc s ! x \<and> maxCD s' ! x = maxCD s ! x \<and>
        minCD s' ! x = minCD s ! x) \<and>
     (\<forall>x. length (cc s) \<le> x \<and> x < length (cc s') \<longrightarrow> pdcc s' ! x = [] \<and> maxCD s' ! x = 0)"

definition splits ::
  "nat \<Rightarrow> (nat \<Rightarrow> nat) \<Rightarrow> nat list \<Rightarrow> nat \<Rightarrow> nat set \<Rightarrow> nat \<Rightarrow> nat list \<Rightarrow> nat set \<Rightarrow>
    nat \<Rightarrow> bool" where
  "splits n D col l0 q c col' q' l1 \<longleftrightarrow>
     (\<forall>u<n. col ! u \<noteq> c \<longrightarrow> col' ! u = col ! u) \<and>
     (\<forall>u<n. col ! u = c \<longrightarrow> col' ! u = c \<or> col' ! u > l0) \<and>
     (\<forall>u<n. \<forall>v<n. col ! u = c \<longrightarrow> col ! v = c \<longrightarrow> (col' ! u = col' ! v \<longleftrightarrow> D u = D v)) \<and>
     q \<subseteq> q' \<and>
     (c \<in> q \<longrightarrow> (\<forall>u<n. col ! u = c \<longrightarrow> col' ! u \<in> q')) \<and>
     (\<exists>e. \<forall>u<n. col ! u = c \<longrightarrow> D u \<noteq> e \<longrightarrow> col' ! u \<in> q') \<and>
     l0 \<le> l1"

lemma keeps_scratch_refl [simp]: "keeps_scratch s s"
  by (auto simp: keeps_scratch_def)

lemma keeps_scratch_trans: "keeps_scratch s t \<Longrightarrow> keeps_scratch t u \<Longrightarrow> keeps_scratch s u"
  unfolding keeps_scratch_def by (smt (verit) leI le_trans order.strict_trans2)

lemma ext_classes:
  assumes e: "ext s s'" and s: "sizes_ok n s" "classes_ok n s" "colors_ok n s"
  shows "classes_ok n s'"
proof -
  have "distinct (cc s' ! x) \<and> set (cc s' ! x) = cls n s' x" if x: "x < length (cc s')" for x
  proof (cases "x < length (cc s)")
    case True
    then show ?thesis using e s(2) by (simp add: ext_def classes_ok_def cls_def)
  next
    case False
    then have "cc s' ! x = []" using e x by (simp add: ext_def)
    moreover have "cls n s' x = {}"
      using False e s(1) color_le_last [OF s(3)] by (force simp: ext_def cls_def sizes_ok_def)
    ultimately show ?thesis by simp
  qed
  then show ?thesis by (simp add: classes_ok_def)
qed

lemma split_color_spec:
  assumes wf: "wf_wl1 n s" and d: "deg_data n D s c"
  defines "s' \<equiv> split_color c s"
  shows "wf_wl1 n s' \<and> keeps_scratch s s' \<and>
    splits n D (coloring s) (lastColor s) (set (stk s)) c (coloring s') (set (stk s')) (lastColor s') \<and>
    (minCD s ! c < maxCD s ! c \<longrightarrow> lastColor s < lastColor s')"
proof -
  have sz: "sizes_ok n s" and cl: "classes_ok n s" and co: "colors_ok n s" and st: "stack_ok s"
    using wf by (simp_all add: wf_wl1_def)
  let ?num = "degree_counts c s" and ?m = "minCD s ! c" and ?M = "maxCD s ! c"
  let ?mx = "largest_part ?num"
  have c: "c \<le> lastColor s" "c < length (cc s)" using d sz by (auto simp: deg_data_def sizes_ok_def)
  have len: "length ?num = Suc ?M" by (rule degree_counts_nonzero(2) [OF d sz cl le0])
  have num: "?num ! i \<noteq> 0 \<longleftrightarrow> (\<exists>w \<in> cls n s c. D w = i)" if "i \<le> ?M" for i
    by (rule degree_counts_nonzero(1) [OF d sz cl that])
  have "\<exists>s1 nm. fold (assign_color c (inStack s ! c) ?num ?mx) [0..<Suc ?M]
      (s, replicate (Suc ?M) (-1)) = (s1, nm) \<and> assigned n s c ?num ?mx (Suc ?M) s1 nm"
    by (rule fold_assign_color [OF sz st c(1)]) (simp_all add: len)
  then obtain s1 nm where f1: "fold (assign_color c (inStack s ! c) ?num ?mx) [0..<Suc ?M]
      (s, replicate (Suc ?M) (-1)) = (s1, nm)"
    and a: "assigned n s c ?num ?mx (Suc ?M) s1 nm" by blast
  note A = assignedD [OF a]
  have e: "coloring s1 = coloring s" "cd s1 = cd s" "pdcc s1 ! c = pdcc s ! c" "c < length (cc s1)"
    using A(3) c by (auto simp: ext_def)
  have cl1: "classes_ok n s1" by (rule ext_classes [OF A(3) sz cl co])
  have D: "cd s ! w = D w" "?m \<le> D w" "D w \<le> ?M" "?num ! D w \<noteq> 0" "w < n" "coloring s ! w = c"
    if "w \<in> cls n s c" for w
    using d that num [of "D w"] by (auto simp: deg_data_def cls_def)
  have nm: "if D w = ?m then nm ! D w = int c
      else \<exists>l. nm ! D w = int l \<and> lastColor s < l \<and> l \<le> lastColor s1" if "w \<in> cls n s c" for w
    using A(8) [rule_format, of "D w"] D [OF that] by simp
  have nmL: "\<exists>l < length (cc s1). nm ! D w = int l" if "w \<in> cls n s c" for w
    using nm [OF that] e(4) A(1) by (auto simp: sizes_ok_def split: if_splits)
  have pd: "distinct (pdcc s ! c)" "set (pdcc s ! c) = {w \<in> cls n s c. D w > 0}"
    using d by (simp_all add: deg_data_def)
  have "\<forall>v \<in> set (pdcc s ! c). v < n \<and> coloring s1 ! v = c \<and>
      (\<exists>l < length (cc s1). nm ! (cd s1 ! v) = int l)"
    using pd(2) D nmL e by auto
  from fold_move_vertex [OF A(1) cl1 e(4) pd(1) this]
  obtain cc2 col2 where f2: "fold (move_vertex c nm) (pdcc s ! c) s1 = s1\<lparr>cc := cc2, coloring := col2\<rparr>"
    and len2: "length cc2 = length (cc s1)" "length col2 = n"
    and col2: "\<forall>u<n. col2 ! u = (if u \<in> set (pdcc s ! c) then nat (nm ! (cd s1 ! u)) else coloring s1 ! u)"
    and cl2: "classes_ok n (s1\<lparr>cc := cc2, coloring := col2\<rparr>)" by blast
  have s': "s' = s1\<lparr>cc := cc2, coloring := col2\<rparr>"
    unfolding s'_def split_color_def Let_def f1 prod.case e(3) f2 by (simp only: f1 prod.case e(3) f2)
  have new: "col2 ! w = nat (nm ! D w)" if w: "w \<in> cls n s c" for w
  proof (cases "D w > 0")
    case True
    then show ?thesis using w col2 D [OF w] pd(2) e by simp
  next
    case False
    then have "D w = ?m" using D(2) [OF w] by simp
    then show ?thesis using False w col2 D [OF w] nm [OF w] pd(2) e by simp
  qed
  have other: "col2 ! u = coloring s ! u" if "u < n" "coloring s ! u \<noteq> c" for u
    using that col2 pd(2) e by (auto simp: cls_def)
  have mem: "w \<in> cls n s c \<longleftrightarrow> w < n \<and> coloring s ! w = c" for w by (auto simp: cls_def)
  have inj: "col2 ! u = col2 ! v \<longleftrightarrow> D u = D v" if u: "u \<in> cls n s c" and v: "v \<in> cls n s c" for u v
  proof
    assume "col2 ! u = col2 ! v"
    then have "nm ! D u = nm ! D v" using new [OF u] new [OF v] nmL [OF u] nmL [OF v] by auto
    then show "D u = D v" using A(9) D [OF u] D [OF v] by (simp add: less_Suc_eq_le)
  qed (simp add: new u v)
  have stk: "col2 ! u \<in> set (stk s1)" if "u \<in> cls n s c" "c \<in> set (stk s) \<or> D u \<noteq> ?mx" for u
    using A(11) [rule_format, of "D u"] D [OF that(1)] that(2) new [OF that(1)] by auto
  have range: "col2 ! u = c \<or> lastColor s < col2 ! u" "col2 ! u \<le> lastColor s1" if u: "u \<in> cls n s c" for u
    using nm [OF u] new [OF u] c(1) A(4) by (auto split: if_splits)
  have colors: "(\<lambda>v. col2 ! v) ` {..<n} = {..lastColor s1}"
  proof (intro equalityI subsetI)
    fix x assume "x \<in> (\<lambda>v. col2 ! v) ` {..<n}"
    then show "x \<in> {..lastColor s1}"
      using range(2) other color_le_last [OF co] A(4) by (force simp: mem)
  next
    fix x assume x: "x \<in> {..lastColor s1}"
    consider "x = c" | "x \<noteq> c" "x \<le> lastColor s" | "x > lastColor s" by linarith
    then show "x \<in> (\<lambda>v. col2 ! v) ` {..<n}"
    proof cases
      case 1
      obtain w where w: "w \<in> cls n s c" "D w = ?m" using d by (auto simp: deg_data_def)
      then have "col2 ! w = c" using new [OF w(1)] nm [OF w(1)] by simp
      then show ?thesis using w 1 by (auto simp: mem)
    next
      case 2
      then obtain u where "u < n" "coloring s ! u = x" using cls_nonempty [OF co] by blast
      then show ?thesis using other 2 by (metis imageI lessThan_iff)
    next
      case 3
      then obtain i where i: "i < Suc ?M" "?num ! i \<noteq> 0" "nm ! i = int x" using A(10) x by auto
      then obtain w where "w \<in> cls n s c" "D w = i" using num [of i] by auto
      then show ?thesis using new i(3) by (force simp: mem)
    qed
  qed
  have wf': "wf_wl1 n s'"
    using cl2 len2 A(1,2) colors
    by (auto simp: s' wf_wl1_def colors_ok_def sizes_ok_def stack_ok_def)
  have ks: "keeps_scratch s s'"
    using A(3) len2 by (simp add: keeps_scratch_def ext_def s')
  have sp: "splits n D (coloring s) (lastColor s) (set (stk s)) c (coloring s') (set (stk s')) (lastColor s')"
    unfolding splits_def
  proof (intro conjI)
    show "\<exists>e. \<forall>u<n. coloring s ! u = c \<longrightarrow> D u \<noteq> e \<longrightarrow> coloring s' ! u \<in> set (stk s')"
      using stk by (intro exI [of _ ?mx]) (simp add: s' mem)
  qed (use other range(1) inj stk A(4,5) in \<open>auto simp: s' mem\<close>)
  have "lastColor s < lastColor s'" if lt: "?m < ?M"
  proof -
    obtain w where "w \<in> cls n s c" "D w = ?M" using d by (auto simp: deg_data_def)
    then show ?thesis using nm [of w] lt s' by (auto split: if_splits)
  qed
  with wf' ks sp show ?thesis by blast
qed

section \<open>All the splits of an iteration\<close>

text \<open>
  After the colours in \<open>done\<close> have been split, from the state \<open>s0\<close>: the vertices are
  separated by their old colour and, in the colours of \<open>done\<close>, by their degree.
\<close>

definition split_upto :: "nat \<Rightarrow> (nat \<Rightarrow> nat) \<Rightarrow> wl1 \<Rightarrow> nat set \<Rightarrow> wl1 \<Rightarrow> bool" where
  "split_upto n D s0 dn s \<longleftrightarrow>
     wf_wl1 n s \<and> keeps_scratch s0 s \<and>
     (\<forall>u<n. coloring s0 ! u \<notin> dn \<longrightarrow> coloring s ! u = coloring s0 ! u) \<and>
     (\<forall>u<n. coloring s0 ! u \<in> dn \<longrightarrow>
        coloring s ! u = coloring s0 ! u \<or> coloring s ! u > lastColor s0) \<and>
     (\<forall>u<n. \<forall>v<n. coloring s ! u = coloring s ! v \<longleftrightarrow>
        coloring s0 ! u = coloring s0 ! v \<and> (coloring s0 ! u \<in> dn \<longrightarrow> D u = D v)) \<and>
     (\<forall>u<n. coloring s0 ! u \<in> set (stk s0) \<longrightarrow> coloring s ! u \<in> set (stk s)) \<and>
     (\<forall>c \<in> dn. \<exists>e. \<forall>u<n. coloring s0 ! u = c \<longrightarrow> D u \<noteq> e \<longrightarrow> coloring s ! u \<in> set (stk s)) \<and>
     lastColor s0 \<le> lastColor s \<and> (lastColor s = lastColor s0 \<longrightarrow> stk s = stk s0)"

lemma split_uptoD:
  assumes "split_upto n D s0 dn s"
  shows "wf_wl1 n s" and "keeps_scratch s0 s"
    and "\<forall>u<n. coloring s0 ! u \<notin> dn \<longrightarrow> coloring s ! u = coloring s0 ! u"
    and "\<forall>u<n. coloring s0 ! u \<in> dn \<longrightarrow>
      coloring s ! u = coloring s0 ! u \<or> coloring s ! u > lastColor s0"
    and "\<forall>u<n. \<forall>v<n. coloring s ! u = coloring s ! v \<longleftrightarrow>
      coloring s0 ! u = coloring s0 ! v \<and> (coloring s0 ! u \<in> dn \<longrightarrow> D u = D v)"
    and "\<forall>u<n. coloring s0 ! u \<in> set (stk s0) \<longrightarrow> coloring s ! u \<in> set (stk s)"
    and "\<forall>c \<in> dn. \<exists>e. \<forall>u<n. coloring s0 ! u = c \<longrightarrow> D u \<noteq> e \<longrightarrow> coloring s ! u \<in> set (stk s)"
    and "lastColor s0 \<le> lastColor s" and "lastColor s = lastColor s0 \<longrightarrow> stk s = stk s0"
  using assms unfolding split_upto_def by - (elim conjE, assumption)+

lemma splitsD:
  assumes "splits n D col l0 q c col' q' l1"
  shows "\<forall>u<n. col ! u \<noteq> c \<longrightarrow> col' ! u = col ! u"
    and "\<forall>u<n. col ! u = c \<longrightarrow> col' ! u = c \<or> col' ! u > l0"
    and "\<forall>u<n. \<forall>v<n. col ! u = c \<longrightarrow> col ! v = c \<longrightarrow> (col' ! u = col' ! v \<longleftrightarrow> D u = D v)"
    and "q \<subseteq> q'" and "c \<in> q \<longrightarrow> (\<forall>u<n. col ! u = c \<longrightarrow> col' ! u \<in> q')"
    and "\<exists>e. \<forall>u<n. col ! u = c \<longrightarrow> D u \<noteq> e \<longrightarrow> col' ! u \<in> q'" and "l0 \<le> l1"
  using assms unfolding splits_def by - (elim conjE, assumption)+

lemma split_upto_step:
  assumes u: "split_upto n D s0 dn s" and co0: "colors_ok n s0" and sz0: "sizes_ok n s0"
    and c: "c \<notin> dn" and d: "deg_data n D s0 c" "minCD s0 ! c < maxCD s0 ! c"
  shows "split_upto n D s0 (insert c dn) (split_color c s)"
proof -
  note U = split_uptoD [OF u]
  let ?s' = "split_color c s"
  have cl: "c \<le> lastColor s0" "c < length (cc s0)" using d(1) sz0 by (auto simp: deg_data_def sizes_ok_def)
  have mem: "coloring s ! v = c \<longleftrightarrow> coloring s0 ! v = c" if "v < n" for v
    using U(3,4) c cl(1) that by (metis leD)
  have "cls n s c = cls n s0 c" using mem by (auto simp: cls_def)
  then have ds: "deg_data n D s c" "minCD s ! c < maxCD s ! c"
    using d U(2,8) cl(2) by (auto simp: deg_data_def keeps_scratch_def)
  have co: "colors_ok n s" using U(1) by (simp add: wf_wl1_def)
  from split_color_spec [OF U(1) ds(1)] ds(2)
  have wf': "wf_wl1 n ?s'" and ks: "keeps_scratch s ?s'" and lt: "lastColor s < lastColor ?s'"
    and sp: "splits n D (coloring s) (lastColor s) (set (stk s)) c (coloring ?s') (set (stk ?s')) (lastColor ?s')"
    by blast+
  note S = splitsD [OF sp]
  have same: "coloring ?s' ! v = coloring s ! v" if "v < n" "coloring s0 ! v \<noteq> c" for v
    using S(1) that mem by simp
  have mine: "coloring ?s' ! v = c \<or> coloring ?s' ! v > lastColor s" if "v < n" "coloring s0 ! v = c" for v
    using S(2) that mem by simp
  have iff: "coloring ?s' ! a = coloring ?s' ! b \<longleftrightarrow>
      coloring s0 ! a = coloring s0 ! b \<and> (coloring s0 ! a \<in> insert c dn \<longrightarrow> D a = D b)"
    if a: "a < n" and b: "b < n" for a b
  proof -
    have differ: "coloring ?s' ! x \<noteq> coloring ?s' ! y"
      if "x < n" "y < n" "coloring s0 ! x = c" "coloring s0 ! y \<noteq> c" for x y
      using mine [of x] same [of y] mem [of y] color_le_last [OF co, of y] that by auto
    show ?thesis
    proof (cases "coloring s0 ! a = c"; cases "coloring s0 ! b = c")
      assume "coloring s0 ! a = c" "coloring s0 ! b = c"
      then show ?thesis using S(3) a b mem by simp
    next
      assume "coloring s0 ! a \<noteq> c" "coloring s0 ! b \<noteq> c"
      then show ?thesis using U(5) a b same by simp
    qed (use differ a b in \<open>metis\<close>)+
  qed
  have stk: "coloring ?s' ! v \<in> set (stk ?s')" if v: "v < n" "coloring s0 ! v \<in> set (stk s0)" for v
  proof (cases "coloring s0 ! v = c")
    case True
    then show ?thesis using S(5) U(6) v mem by metis
  next
    case False
    then show ?thesis using S(4) U(6) v same by auto
  qed
  have exc: "\<exists>e. \<forall>v<n. coloring s0 ! v = x \<longrightarrow> D v \<noteq> e \<longrightarrow> coloring ?s' ! v \<in> set (stk ?s')"
    if x: "x \<in> insert c dn" for x
  proof (cases "x = c")
    case True
    then show ?thesis using S(6) mem by (metis (no_types, lifting))
  next
    case False
    with x obtain e where "\<forall>v<n. coloring s0 ! v = x \<longrightarrow> D v \<noteq> e \<longrightarrow> coloring s ! v \<in> set (stk s)"
      using U(7) by blast
    then show ?thesis using False same S(4) by (intro exI [of _ e]) auto
  qed
  have old: "coloring ?s' ! v = coloring s0 ! v \<or> coloring ?s' ! v > lastColor s0"
    if v: "v < n" "coloring s0 ! v \<in> insert c dn" for v
    using v mine [of v] same [of v] U(4,8) by (cases "coloring s0 ! v = c") auto
  show ?thesis
    unfolding split_upto_def
    using wf' keeps_scratch_trans [OF U(2) ks] U(3,8) same lt old iff stk exc by auto
qed

lemma fold_split_color:
  assumes wf: "wf_wl1 n s0" and d: "distinct cs" "\<forall>c \<in> set cs. deg_data n D s0 c \<and> minCD s0 ! c < maxCD s0 ! c"
  shows "split_upto n D s0 (set cs) (fold split_color cs s0)"
  using d
proof (induction cs rule: rev_induct)
  case Nil
  show ?case using wf by (simp add: split_upto_def)
next
  case (snoc c cs)
  then have "split_upto n D s0 (insert c (set cs)) (split_color c (fold split_color cs s0))"
    using wf by (intro split_upto_step) (auto simp: wf_wl1_def)
  then show ?case by simp
qed

end
