(* ===== verification/WL1_Correct.thy ===== *)
theory WL1_Correct
  imports WL1_Split
begin

text \<open>
  Correctness of colour refinement (\<open>run1WL\<close>, \<open>paige_tarjan_wl1.cpp\<close>): the effect of one
  iteration, the loop invariant behind the queueing rule (the smaller parts of a split are
  enough), termination, and the properties of the result: it is the coarsest equitable
  refinement of the initial colouring, with dense colour ids.
\<close>

section \<open>One iteration\<close>

lemma fold_zero: "length (fold (\<lambda>v d. d[v := 0]) xs d) = length d \<and>
    (\<forall>w < length d. fold (\<lambda>v d. d[v := (0::nat)]) xs d ! w = (if w \<in> set xs then 0 else d ! w))"
proof (induction xs rule: rev_induct)
  case (snoc x xs)
  then have "(fold (\<lambda>v d. d[v := 0]) xs d)[x := 0] ! w = (if w \<in> set (xs @ [x]) then 0 else d ! w)"
    if "w < length d" for w
    using that by (cases "w = x") auto
  with snoc show ?case by simp
qed simp

lemma fold_cleanup_color:
  assumes "length (pdcc s) = length (cc s)" "length (maxCD s) = length (cc s)"
    and "\<forall>w < length (cd s). cd s ! w \<noteq> 0 \<longrightarrow> (\<exists>c \<in> set adj. w \<in> set (pdcc s ! c))"
    and "\<forall>c < length (cc s). c \<notin> set adj \<longrightarrow> pdcc s ! c = [] \<and> maxCD s ! c = 0"
  shows "\<exists>d p m. fold cleanup_color adj s = s\<lparr>cd := d, maxCD := m, pdcc := p\<rparr> \<and>
    length d = length (cd s) \<and> length p = length (cc s) \<and> length m = length (cc s) \<and>
    scratch_clean (s\<lparr>cd := d, maxCD := m, pdcc := p\<rparr>)"
  using assms
proof (induction adj arbitrary: s)
  case Nil
  then show ?case
    by (intro exI [of _ "cd s"] exI [of _ "pdcc s"] exI [of _ "maxCD s"]) (auto simp: scratch_clean_def)
next
  case (Cons c adj)
  let ?d = "fold (\<lambda>v d. d[v := 0]) (pdcc s ! c) (cd s)"
  let ?s = "cleanup_color c s"
  have s: "?s = s\<lparr>cd := ?d, maxCD := (maxCD s)[c := 0], pdcc := (pdcc s)[c := []]\<rparr>"
    by (simp add: cleanup_color_def)
  note z = fold_zero [of "pdcc s ! c" "cd s"]
  have "\<exists>d p m. fold cleanup_color adj ?s = ?s\<lparr>cd := d, maxCD := m, pdcc := p\<rparr> \<and>
    length d = length (cd ?s) \<and> length p = length (cc ?s) \<and> length m = length (cc ?s) \<and>
    scratch_clean (?s\<lparr>cd := d, maxCD := m, pdcc := p\<rparr>)"
  proof (rule Cons.IH)
    show "\<forall>w < length (cd ?s). cd ?s ! w \<noteq> 0 \<longrightarrow> (\<exists>c' \<in> set adj. w \<in> set (pdcc ?s ! c'))"
    proof (intro allI impI)
      fix w assume w: "w < length (cd ?s)" "cd ?s ! w \<noteq> 0"
      then have "w \<notin> set (pdcc s ! c)" "cd s ! w \<noteq> 0" "w < length (cd s)"
        using z s by (auto split: if_splits)
      moreover from this obtain c' where "c' \<in> set (c # adj)" "w \<in> set (pdcc s ! c')"
        using Cons.prems(3) by blast
      ultimately show "\<exists>c' \<in> set adj. w \<in> set (pdcc ?s ! c')"
        by (intro bexI [of _ c']) (cases "c = c'", auto simp: s)
    qed
    show "\<forall>c' < length (cc ?s). c' \<notin> set adj \<longrightarrow> pdcc ?s ! c' = [] \<and> maxCD ?s ! c' = 0"
    proof (intro allI impI)
      fix x assume "x < length (cc ?s)" "x \<notin> set adj"
      then show "pdcc ?s ! x = [] \<and> maxCD ?s ! x = 0"
        using Cons.prems by (cases "x = c") (auto simp: s)
    qed
  qed (use Cons.prems s in simp_all)
  then show ?case using z by (auto simp: s)
qed

lemma calculateColorDegrees_eq:
  "calculateColorDegrees off nb cur s = fold count_neighbor (concat (map (nbrs off nb) (cc s ! cur))) (s, [])"
proof -
  have "fold (\<lambda>v st. fold count_neighbor (nbrs off nb v) st) xs st =
      fold count_neighbor (concat (map (nbrs off nb) xs)) st" for xs and st
    by (induction xs arbitrary: st) auto
  then show ?thesis by (simp add: calculateColorDegrees_def)
qed

lemma count_list_class:
  assumes "classes_ok n s" "c < length (cc s)"
  shows "count_list (concat (map (nbrs off nb) (cc s ! c))) w = deg off nb (cls n s c) w"
  using assms by (simp add: count_list_concat comp_def deg_def classes_ok_def sum_list_distinct)

text \<open>The degree data of the colours that are adjacent to the splitter.\<close>

lemma counted_deg_data:
  assumes sz: "sizes_ok n s" and cl: "classes_ok n s" and co: "colors_ok n s"
    and ct: "counted (coloring s) (length (cc s)) E (cd s) (pdcc s) (maxCD s) adj"
    and E: "\<forall>w \<in> set E. w < n" and D: "\<forall>w<n. count_list E w = D w"
    and c: "c \<in> set adj" and m: "minCD s ! c = min_deg c s"
  shows "deg_data n D s c"
proof -
  note C = ct [unfolded counted_def]
  obtain w0 where w0: "w0 \<in> set E" "coloring s ! w0 = c" "w0 < n" using C c E by auto
  have cl': "c \<le> lastColor s" "c < length (cc s)"
    using color_le_last [OF co w0(3)] w0(2) sz by (auto simp: sizes_ok_def)
  have cdD: "\<forall>w<n. cd s ! w = D w" using C D sz by (simp add: sizes_ok_def)
  have pos: "w \<in> set E \<longleftrightarrow> D w > 0" if "w < n" for w
    using D that by (metis count_list_0_iff gr0I less_irrefl)
  have pd: "distinct (pdcc s ! c)" "set (pdcc s ! c) = {w \<in> cls n s c. D w > 0}"
    using C cl'(2) pos E by (auto simp: cls_def)
  have mx: "\<forall>w \<in> cls n s c. D w \<le> maxCD s ! c"
    using C D sz by (auto simp: cls_def sizes_ok_def)
  have "maxCD s ! c = 0 \<or> (\<exists>w \<in> set E. coloring s ! w = c \<and> count_list E w = maxCD s ! c)"
    using C cl'(2) by blast
  then have mxa: "\<exists>w \<in> cls n s c. D w = maxCD s ! c"
  proof
    assume "maxCD s ! c = 0"
    then show ?thesis using mx w0 by (intro bexI [of _ w0]) (auto simp: cls_def)
  next
    assume "\<exists>w \<in> set E. coloring s ! w = c \<and> count_list E w = maxCD s ! c"
    then show ?thesis using D E by (auto simp: cls_def)
  qed
  show ?thesis
    using min_deg_attained [OF cl cl'(2) cdD pd mxa] cl'(1) cdD pd mx mxa m
    by (auto simp: deg_data_def)
qed

text \<open>The state between the two halves of an iteration: counted, not yet split.\<close>

lemma count_phase:
  assumes csr: "csr_ok off nb n" and wf: "wf_wl1 n s" and clean: "scratch_clean s"
    and cur: "cur \<le> lastColor s" and D: "D = deg off nb (cls n s cur)"
  shows "\<exists>s1 adj. calculateColorDegrees off nb cur s = (s1, adj) \<and>
    (let s2 = fold min_color_degree adj s1 in
      wf_wl1 n s2 \<and> coloring s2 = coloring s \<and> stk s2 = stk s \<and> lastColor s2 = lastColor s \<and>
      distinct adj \<and> (\<forall>c \<in> set adj. deg_data n D s2 c) \<and>
      (\<forall>w<n. coloring s ! w \<notin> set adj \<longrightarrow> D w = 0) \<and>
      (\<forall>w<n. cd s2 ! w \<noteq> 0 \<longrightarrow> w \<in> set (pdcc s2 ! (coloring s ! w)) \<and> coloring s ! w \<in> set adj) \<and>
      (\<forall>c < length (cc s2). c \<notin> set adj \<longrightarrow> pdcc s2 ! c = [] \<and> maxCD s2 ! c = 0))"
proof -
  have sz: "sizes_ok n s" and cl: "classes_ok n s" and co: "colors_ok n s" and st: "stack_ok s"
    using wf by (simp_all add: wf_wl1_def)
  define E where "E = concat (map (nbrs off nb) (cc s ! cur))"
  have curL: "cur < length (cc s)" using cur sz by (simp add: sizes_ok_def)
  have E: "\<forall>w \<in> set E. w < n"
    unfolding E_def using nbrs_bound [OF csr] cl curL by (auto simp: classes_ok_def cls_def)
  have cD: "count_list E w = D w" for w
    using count_list_class [OF cl curL] D by (simp add: E_def)
  obtain d pd mx adj where f: "fold count_neighbor E (s, []) = (s\<lparr>cd := d, pdcc := pd, maxCD := mx\<rparr>, adj)"
    and ct: "counted (coloring s) (length (cc s)) E d pd mx adj"
    using fold_count_neighbor [OF sz clean co E] by blast
  let ?s1 = "s\<lparr>cd := d, pdcc := pd, maxCD := mx\<rparr>"
  obtain m where m: "fold min_color_degree adj ?s1 = ?s1\<lparr>minCD := m\<rparr>" "length m = length (minCD s)"
    "\<forall>c \<in> set adj. c < length (minCD s) \<longrightarrow> m ! c = min_deg c ?s1"
    using fold_min_color_degree [of adj ?s1] by auto
  let ?s2 = "?s1\<lparr>minCD := m\<rparr>"
  note C = ct [unfolded counted_def]
  have adj: "set adj = (\<lambda>w. coloring s ! w) ` set E" "distinct adj"
    and pd: "\<forall>c < length (cc s). set (pd ! c) = {w \<in> set E. coloring s ! w = c}"
    and cnt: "\<forall>w < length (coloring s). d ! w = count_list E w"
    and mx: "\<forall>c < length (cc s). mx ! c = 0 \<or> (\<exists>w \<in> set E. coloring s ! w = c \<and> count_list E w = mx ! c)"
    using C by (elim conjE, simp)+
  have wf2: "wf_wl1 n ?s2"
    using wf m(2) C by (auto simp: wf_wl1_def wl1_defs cls_def)
  have adjL: "c < length (cc s)" if "c \<in> set adj" for c
    using that adj(1) E color_le_last [OF co] sz by (fastforce simp: sizes_ok_def)
  have dd: "deg_data n D ?s2 c" if c: "c \<in> set adj" for c
  proof (rule counted_deg_data [of n ?s2 E adj D c])
    show "minCD ?s2 ! c = min_deg c ?s2"
      using m(3) c adjL [OF c] sz by (simp add: sizes_ok_def)
  qed (use wf2 ct E cD c in \<open>simp_all add: wf_wl1_def\<close>)
  have inE: "w \<in> set E \<longleftrightarrow> D w \<noteq> 0" for w
    unfolding cD [symmetric] by (simp add: count_list_0_iff)
  have r3: "\<forall>w<n. coloring s ! w \<notin> set adj \<longrightarrow> D w = 0"
    using inE adj(1) by blast
  have r4: "w \<in> set (pd ! (coloring s ! w)) \<and> coloring s ! w \<in> set adj" if "w < n" "d ! w \<noteq> 0" for w
  proof -
    have w: "w \<in> set E" using cnt that inE cD sz by (simp add: sizes_ok_def)
    have "coloring s ! w < length (cc s)"
      using color_le_last [OF co that(1)] sz by (simp add: sizes_ok_def)
    then have "set (pd ! (coloring s ! w)) = {x \<in> set E. coloring s ! x = coloring s ! w}"
      using pd by simp
    with w show ?thesis using adj(1) by blast
  qed
  have r5: "pd ! c = [] \<and> mx ! c = 0" if c: "c < length (cc s)" "c \<notin> set adj" for c
  proof -
    have no: "coloring s ! w \<noteq> c" if "w \<in> set E" for w
      using c(2) that unfolding adj(1) by (metis imageI)
    have "set (pd ! c) = {w \<in> set E. coloring s ! w = c}" using pd c(1) by simp
    also have "\<dots> = {}" using no by simp
    finally show ?thesis using mx c(1) no by auto
  qed
  show ?thesis
    unfolding calculateColorDegrees_eq E_def [symmetric] f
    by (intro exI [of _ ?s1] exI [of _ adj] conjI refl, unfold Let_def m(1),
        intro conjI ballI allI impI)
      (use wf2 adj(2) dd r3 r4 r5 in simp_all)
qed

text \<open>
  The effect of one iteration with splitter \<open>cur\<close>: two vertices share a colour afterwards
  exactly when they did before and receive equally many edges from the class of \<open>cur\<close>;
  parts of queued colours are queued, and of every colour all parts but (at most) the one of
  degree \<open>e\<close> are.
\<close>

definition refined ::
  "nat \<Rightarrow> (nat \<Rightarrow> nat) \<Rightarrow> wl1 \<Rightarrow> nat list \<Rightarrow> wl1 \<Rightarrow> bool" where
  "refined n D s rest s' \<longleftrightarrow>
     (\<forall>u<n. \<forall>v<n. coloring s' ! u = coloring s' ! v \<longleftrightarrow>
        coloring s ! u = coloring s ! v \<and> D u = D v) \<and>
     (\<forall>u<n. coloring s ! u \<in> set rest \<longrightarrow> coloring s' ! u \<in> set (stk s')) \<and>
     (\<forall>c. \<exists>e. \<forall>u<n. coloring s ! u = c \<longrightarrow> D u \<noteq> e \<longrightarrow> coloring s' ! u \<in> set (stk s')) \<and>
     lastColor s \<le> lastColor s' \<and> (lastColor s' = lastColor s \<longrightarrow> stk s' = rest)"

lemma pop_color_wf:
  assumes "wf_wl1 n s" "scratch_clean s" "stk s = cur # rest"
  shows "\<exists>s0. pop_color s = (cur, s0) \<and> wf_wl1 n s0 \<and> scratch_clean s0 \<and> coloring s0 = coloring s \<and>
    lastColor s0 = lastColor s \<and> stk s0 = rest \<and> cur \<le> lastColor s"
  using assms
  by (auto simp: pop_color_def wf_wl1_def wl1_defs cls_def scratch_clean_def nth_list_update)

lemma split_phase:
  assumes wf: "wf_wl1 n s" and adj: "distinct adj" "\<forall>c \<in> set adj. deg_data n D s c"
    and out: "\<forall>w<n. coloring s ! w \<notin> set adj \<longrightarrow> D w = 0"
  shows "split_upto n D s (set (toSplit adj s)) (fold split_color (toSplit adj s) s) \<and>
    refined n D s (stk s) (fold split_color (toSplit adj s) s)"
proof -
  let ?ts = "toSplit adj s" and ?s' = "fold split_color (toSplit adj s) s"
  have "split_upto n D s (set ?ts) ?s'"
    using wf by (rule fold_split_color) (use adj in \<open>auto simp: toSplit_def\<close>)
  note U = split_uptoD [OF this]
  have const: "D u = D v" if "u < n" "v < n" "coloring s ! u = coloring s ! v" "coloring s ! u \<notin> set ?ts" for u v
  proof (cases "coloring s ! u \<in> set adj")
    case True
    then have "deg_data n D s (coloring s ! u)" "\<not> minCD s ! (coloring s ! u) < maxCD s ! (coloring s ! u)"
      using that(4) adj(2) by (auto simp: toSplit_def)
    then have "D w = minCD s ! (coloring s ! u)" if "w \<in> cls n s (coloring s ! u)" for w
      using that by (force simp: deg_data_def)
    then show ?thesis using that by (simp add: cls_def)
  next
    case False
    then show ?thesis using out that by simp
  qed
  have "\<exists>e. \<forall>u<n. coloring s ! u = c \<longrightarrow> D u \<noteq> e \<longrightarrow> coloring ?s' ! u \<in> set (stk ?s')" for c
  proof (cases "c \<in> set ?ts")
    case True
    then show ?thesis using U(7) by blast
  next
    case False
    then show ?thesis using const by metis
  qed
  then have "refined n D s (stk s) ?s'"
    unfolding refined_def using U(5,6,8,9) const by (intro conjI) (metis, metis, blast, simp, simp)
  with \<open>split_upto n D s (set ?ts) ?s'\<close> show ?thesis by blast
qed

lemma refine_step_spec:
  assumes csr: "csr_ok off nb n" and wf: "wf_wl1 n s" and clean: "scratch_clean s"
    and st: "stk s = cur # rest"
  shows "wf_wl1 n (refine_step off nb s) \<and> scratch_clean (refine_step off nb s) \<and>
    refined n (deg off nb (cls n s cur)) s rest (refine_step off nb s)"
proof -
  obtain s0 where p: "pop_color s = (cur, s0)" and s0: "wf_wl1 n s0" "scratch_clean s0"
    "coloring s0 = coloring s" "lastColor s0 = lastColor s" "stk s0 = rest" "cur \<le> lastColor s0"
    using pop_color_wf [OF wf clean st] by auto
  define D where "D = deg off nb (cls n s0 cur)"
  have Ds: "D = deg off nb (cls n s cur)" using s0(3) by (simp add: D_def cls_def)
  obtain s1 adj where c: "calculateColorDegrees off nb cur s0 = (s1, adj)"
    and "let s2 = fold min_color_degree adj s1 in
      wf_wl1 n s2 \<and> coloring s2 = coloring s0 \<and> stk s2 = stk s0 \<and> lastColor s2 = lastColor s0 \<and>
      distinct adj \<and> (\<forall>c \<in> set adj. deg_data n D s2 c) \<and>
      (\<forall>w<n. coloring s0 ! w \<notin> set adj \<longrightarrow> D w = 0) \<and>
      (\<forall>w<n. cd s2 ! w \<noteq> 0 \<longrightarrow> w \<in> set (pdcc s2 ! (coloring s0 ! w)) \<and> coloring s0 ! w \<in> set adj) \<and>
      (\<forall>c < length (cc s2). c \<notin> set adj \<longrightarrow> pdcc s2 ! c = [] \<and> maxCD s2 ! c = 0)"
    using count_phase [OF csr s0(1,2,6) D_def] by blast
  moreover define s2 where "s2 = fold min_color_degree adj s1"
  ultimately have s2: "wf_wl1 n s2" "coloring s2 = coloring s0" "stk s2 = stk s0"
    "lastColor s2 = lastColor s0" "distinct adj" "\<forall>c \<in> set adj. deg_data n D s2 c"
    "\<forall>w<n. coloring s2 ! w \<notin> set adj \<longrightarrow> D w = 0"
    and cd2: "\<forall>w<n. cd s2 ! w \<noteq> 0 \<longrightarrow> w \<in> set (pdcc s2 ! (coloring s0 ! w)) \<and> coloring s0 ! w \<in> set adj"
    and rest2: "\<forall>c < length (cc s2). c \<notin> set adj \<longrightarrow> pdcc s2 ! c = [] \<and> maxCD s2 ! c = 0"
    by (simp_all add: Let_def)
  let ?s3 = "fold split_color (toSplit adj s2) s2"
  from split_phase [OF s2(1,5,6,7)]
  have up: "split_upto n D s2 (set (toSplit adj s2)) ?s3" and rf: "refined n D s2 (stk s2) ?s3"
    by auto
  note wf3 = split_uptoD(1) [OF up] and ks = split_uptoD(2) [OF up]
  have sz3: "sizes_ok n ?s3" using wf3 by (simp add: wf_wl1_def)
  have sz2: "sizes_ok n s2" "colors_ok n s2" using s2(1) by (simp_all add: wf_wl1_def)
  have colL: "coloring s0 ! w < length (cc s2)" if "w < n" for w
    using color_le_last [OF sz2(2) that] sz2(1) s2(2) by (simp add: sizes_ok_def)
  have "\<exists>c \<in> set adj. w \<in> set (pdcc ?s3 ! c)" if "w < length (cd ?s3)" "cd ?s3 ! w \<noteq> 0" for w
    using that cd2 colL ks sz3 by (intro bexI [of _ "coloring s0 ! w"]) (auto simp: keeps_scratch_def sizes_ok_def)
  moreover have "pdcc ?s3 ! c = [] \<and> maxCD ?s3 ! c = 0" if "c < length (cc ?s3)" "c \<notin> set adj" for c
    using that rest2 ks by (cases "c < length (cc s2)") (auto simp: keeps_scratch_def)
  ultimately obtain d p m where cl: "fold cleanup_color adj ?s3 = ?s3\<lparr>cd := d, maxCD := m, pdcc := p\<rparr>"
    "length d = length (cd ?s3)" "length p = length (cc ?s3)" "length m = length (cc ?s3)"
    "scratch_clean (?s3\<lparr>cd := d, maxCD := m, pdcc := p\<rparr>)"
    using fold_cleanup_color [of ?s3 adj] sz3 by (auto simp: sizes_ok_def)
  have res: "refine_step off nb s = ?s3\<lparr>cd := d, maxCD := m, pdcc := p\<rparr>"
    by (simp add: refine_step_def p c s2_def [symmetric] cl(1))
  have "wf_wl1 n (refine_step off nb s)"
    using wf3 cl(2-4) unfolding res by (simp add: wf_wl1_def wl1_defs cls_def)
  moreover have "refined n D s rest (refine_step off nb s)"
    using rf s2(2,3,4) s0(3,4,5) unfolding res by (simp add: refined_def)
  ultimately show ?thesis using cl(5) unfolding res Ds by simp
qed

section \<open>The invariants of the loop\<close>

text \<open>Equal colours receive equally many edges from every colour class.\<close>

definition equitable :: "nat list \<Rightarrow> nat list \<Rightarrow> nat \<Rightarrow> (nat \<Rightarrow> 'c) \<Rightarrow> bool" where
  "equitable off nb n col \<longleftrightarrow> (\<forall>u<n. \<forall>v<n. col u = col v \<longrightarrow>
     (\<forall>c. deg off nb {w. w < n \<and> col w = c} u = deg off nb {w. w < n \<and> col w = c} v))"

text \<open>
  What the queue stands for: vertices of one colour that agree on all queued classes agree
  on all classes. With an empty queue this says that the colouring is equitable.
\<close>

definition queue_complete :: "nat list \<Rightarrow> nat list \<Rightarrow> nat \<Rightarrow> wl1 \<Rightarrow> bool" where
  "queue_complete off nb n s \<longleftrightarrow> (\<forall>u<n. \<forall>v<n. coloring s ! u = coloring s ! v \<longrightarrow>
     (\<forall>c \<in> set (stk s). deg off nb (cls n s c) u = deg off nb (cls n s c) v) \<longrightarrow>
     (\<forall>c. deg off nb (cls n s c) u = deg off nb (cls n s c) v))"

lemma deg_empty [simp]: "deg off nb {} w = 0"
  by (simp add: deg_def)

lemma deg_partition:
  "finite S \<Longrightarrow> deg off nb S w = (\<Sum>y \<in> f ` S. deg off nb {x \<in> S. f x = y} w)"
  unfolding deg_def by (rule sum.image_gen)

lemma deg_eq_by_parts:
  assumes "finite S" "\<And>y. y \<in> f ` S \<Longrightarrow> deg off nb {x \<in> S. f x = y} u = deg off nb {x \<in> S. f x = y} v"
  shows "deg off nb S u = deg off nb S v"
  using assms by (simp add: deg_partition [of S _ _ _ f])

text \<open>A class after an iteration is a part of a class before it.\<close>

lemma refined_part:
  assumes "refined n D s rest s'" "x < n"
  shows "cls n s' (coloring s' ! x) = {w \<in> cls n s (coloring s ! x). D w = D x}"
  using assms by (auto simp: refined_def cls_def)

lemma refined_parts:
  assumes r: "refined n D s rest s'" and x: "x \<in> S"
    and S: "S \<subseteq> cls n s c" "\<And>w w'. w \<in> S \<Longrightarrow> w' \<in> cls n s c \<Longrightarrow> D w' = D w \<Longrightarrow> w' \<in> S"
  shows "{w \<in> S. coloring s' ! w = coloring s' ! x} = cls n s' (coloring s' ! x)"
proof -
  have xn: "x < n" "coloring s ! x = c" using x S(1) by (auto simp: cls_def)
  have "w \<in> S \<and> coloring s' ! w = coloring s' ! x \<longleftrightarrow> w \<in> cls n s' (coloring s' ! x)" for w
    using refined_part [OF r xn(1)] r xn S x by (auto simp: refined_def cls_def)
  then show ?thesis by auto
qed

lemma queue_complete_step:
  assumes r: "refined n (deg off nb (cls n s cur)) s rest s'" and st: "stk s = cur # rest"
    and q: "queue_complete off nb n s"
  shows "queue_complete off nb n s'"
  unfolding queue_complete_def
proof (intro allI impI)
  fix u v d
  assume u: "u < n" and v: "v < n" and uv: "coloring s' ! u = coloring s' ! v"
    and ag: "\<forall>c \<in> set (stk s'). deg off nb (cls n s' c) u = deg off nb (cls n s' c) v"
  let ?D = "deg off nb (cls n s cur)"
  have same: "coloring s ! u = coloring s ! v" "?D u = ?D v"
    using r u v uv by (auto simp: refined_def)
  have part: "deg off nb {w \<in> S. coloring s' ! w = y} u = deg off nb {w \<in> S. coloring s' ! w = y} v"
    if S: "S \<subseteq> cls n s c" "\<And>w w'. w \<in> S \<Longrightarrow> w' \<in> cls n s c \<Longrightarrow> ?D w' = ?D w \<Longrightarrow> w' \<in> S"
      and queued: "\<And>w. w \<in> S \<Longrightarrow> coloring s' ! w \<in> set (stk s')" and y: "y \<in> (\<lambda>w. coloring s' ! w) ` S"
    for S c y
  proof -
    obtain x where x: "x \<in> S" "y = coloring s' ! x" using y by blast
    show ?thesis
      using refined_parts [OF r x(1) S] queued [OF x(1)] ag x(2) by simp
  qed
  have "deg off nb (cls n s c) u = deg off nb (cls n s c) v" if "c \<in> set (stk s)" for c
  proof (cases "c = cur")
    case True
    then show ?thesis using same(2) by simp
  next
    case False
    then have c: "c \<in> set rest" using \<open>c \<in> set (stk s)\<close> st by simp
    have "\<forall>w<n. coloring s ! w \<in> set rest \<longrightarrow> coloring s' ! w \<in> set (stk s')"
      using r by (simp add: refined_def)
    then have queued: "coloring s' ! w \<in> set (stk s')" if "w \<in> cls n s c" for w
      using c that by (simp add: cls_def)
    show ?thesis
      by (rule deg_eq_by_parts [of _ "\<lambda>w. coloring s' ! w"], rule finite_cls,
          rule part [OF subset_refl _ queued])
  qed
  then have "\<forall>c \<in> set (stk s). deg off nb (cls n s c) u = deg off nb (cls n s c) v" by blast
  then have all: "deg off nb (cls n s c) u = deg off nb (cls n s c) v" for c
    using q [unfolded queue_complete_def, rule_format, OF u v same(1)] by blast
  show "deg off nb (cls n s' d) u = deg off nb (cls n s' d) v"
  proof (cases "\<exists>x<n. coloring s' ! x = d")
    case False
    then have "cls n s' d = {}" by (auto simp: cls_def)
    then show ?thesis by simp
  next
    case True
    then obtain x where x: "x < n" "coloring s' ! x = d" by blast
    let ?C = "cls n s (coloring s ! x)"
    obtain e where e: "\<forall>w<n. coloring s ! w = coloring s ! x \<longrightarrow> ?D w \<noteq> e \<longrightarrow> coloring s' ! w \<in> set (stk s')"
      using r unfolding refined_def by metis
    show ?thesis
    proof (cases "?D x = e")
      case False
      then show ?thesis using e x ag by auto
    next
      case True
      let ?A = "{w \<in> ?C. ?D w = e}" and ?B = "{w \<in> ?C. ?D w \<noteq> e}"
      have d: "cls n s' d = ?A" using refined_part [OF r x(1)] x(2) True by simp
      have "deg off nb ?B u = deg off nb ?B v"
        by (rule deg_eq_by_parts [of _ "\<lambda>w. coloring s' ! w"], simp,
            rule part [of _ "coloring s ! x"]) (use e in \<open>auto simp: cls_def\<close>)
      moreover have "deg off nb ?C w = deg off nb ?A w + deg off nb ?B w" for w
        unfolding deg_def by (subst sum.union_disjoint [symmetric]) (auto intro: sum.cong)
      ultimately show ?thesis using all [of "coloring s ! x"] d by simp
    qed
  qed
qed

text \<open>The colouring stays coarser than every equitable colouring that refines it.\<close>

lemma coarser_step:
  assumes r: "refined n (deg off nb (cls n s cur)) s rest s'"
    and g: "equitable off nb n g" "\<forall>u<n. \<forall>v<n. g u = g v \<longrightarrow> coloring s ! u = coloring s ! v"
  shows "\<forall>u<n. \<forall>v<n. g u = g v \<longrightarrow> coloring s' ! u = coloring s' ! v"
proof (intro allI impI)
  fix u v assume uv: "u < n" "v < n" "g u = g v"
  have "deg off nb (cls n s cur) u = deg off nb (cls n s cur) v"
  proof (rule deg_eq_by_parts [of _ g])
    fix y assume "y \<in> g ` cls n s cur"
    then have "{w \<in> cls n s cur. g w = y} = {w. w < n \<and> g w = y}"
      using g(2) by (auto simp: cls_def)
    moreover have "deg off nb {w. w < n \<and> g w = y} u = deg off nb {w. w < n \<and> g w = y} v"
      using g(1) uv unfolding equitable_def by blast
    ultimately show "deg off nb {w \<in> cls n s cur. g w = y} u = deg off nb {w \<in> cls n s cur. g w = y} v"
      by (simp only:)
  qed simp
  moreover have "coloring s ! u = coloring s ! v" using g(2) uv by blast
  ultimately show "coloring s' ! u = coloring s' ! v"
    using r uv(1,2) unfolding refined_def by blast
qed

text \<open>An automorphism of the coloured graph: a permutation that keeps edge multiplicities.\<close>

definition graph_automorphism :: "nat list \<Rightarrow> nat list \<Rightarrow> nat \<Rightarrow> (nat \<Rightarrow> nat) \<Rightarrow> bool" where
  "graph_automorphism off nb n p \<longleftrightarrow> bij_betw p {..<n} {..<n} \<and>
     (\<forall>v<n. \<forall>w<n. count_list (nbrs off nb (p v)) (p w) = count_list (nbrs off nb v) w)"

lemma automorphism_step:
  assumes r: "refined n (deg off nb (cls n s cur)) s rest s'"
    and p: "graph_automorphism off nb n p" "\<forall>v<n. coloring s ! p v = coloring s ! v"
  shows "\<forall>v<n. coloring s' ! p v = coloring s' ! v"
proof (intro allI impI)
  fix v assume v: "v < n"
  let ?C = "cls n s cur"
  have bij: "bij_betw p {..<n} {..<n}" using p(1) by (simp add: graph_automorphism_def)
  then have pn: "p w < n" if "w < n" for w using that by (auto simp: bij_betw_def)
  have C: "bij_betw p ?C ?C"
    unfolding bij_betw_def
  proof
    show "inj_on p ?C" using bij by (auto simp: bij_betw_def cls_def inj_on_def)
    show "p ` ?C = ?C"
    proof (intro equalityI subsetI)
      fix x assume "x \<in> ?C"
      then have "x \<in> p ` {..<n}" using bij by (simp add: bij_betw_def cls_def)
      then show "x \<in> p ` ?C" using p(2) \<open>x \<in> ?C\<close> by (auto simp: cls_def)
    qed (use pn p(2) in \<open>auto simp: cls_def\<close>)
  qed
  have "deg off nb ?C (p v) = (\<Sum>w\<in>?C. count_list (nbrs off nb (p w)) (p v))"
    unfolding deg_def by (rule sum.reindex_bij_betw [OF C, symmetric])
  also have "\<dots> = deg off nb ?C v"
    unfolding deg_def using p(1) v by (intro sum.cong refl) (simp add: graph_automorphism_def cls_def)
  finally show "coloring s' ! p v = coloring s' ! v"
    using r p(2) v pn [OF v] unfolding refined_def by blast
qed

section \<open>The initial state\<close>

lemma init_colors_props:
  assumes "init_colors n cols = (ic, k)" "0 < n" "cols = [] \<or> length cols = n"
  shows "length ic = n" and "(\<lambda>v. ic ! v) ` {..<n} = {..<k}" and "0 < k"
    and "\<forall>u<n. \<forall>v<n. ic ! u = ic ! v \<longleftrightarrow> (cols = [] \<or> cols ! u = cols ! v)"
proof -
  show "length ic = n" using assms by (auto simp: init_colors_def Let_def split: if_splits)
  have inC: "cols ! v \<in> set (sort_unique cols)" if "cols \<noteq> []" "v < n" for v
    using that assms(3) by simp
  show img: "(\<lambda>v. ic ! v) ` {..<n} = {..<k}"
  proof (cases "cols = []")
    case True
    then show ?thesis using assms(1,2) by (auto simp: init_colors_def image_iff)
  next
    case False
    then have ic: "ic ! v = lower_bound (sort_unique cols) (cols ! v)" if "v < n" for v
      using assms(1) that by (auto simp: init_colors_def Let_def)
    have k: "k = length (sort_unique cols)" using False assms(1) by (auto simp: init_colors_def Let_def)
    show ?thesis
    proof (intro equalityI subsetI)
      fix x assume "x \<in> (\<lambda>v. ic ! v) ` {..<n}"
      then show "x \<in> {..<k}" using ic k lower_bound_nth inC [OF False] by force
    next
      fix x assume "x \<in> {..<k}"
      then obtain y where "y \<in> set cols" "lower_bound (sort_unique cols) y = x"
        using lower_bound_surj k by auto
      then show "x \<in> (\<lambda>v. ic ! v) ` {..<n}"
        using ic False assms(3) by (force simp: in_set_conv_nth)
    qed
  qed
  show "0 < k" using img assms(2) by (metis image_is_empty lessThan_empty_iff neq0_conv)
  show "\<forall>u<n. \<forall>v<n. ic ! u = ic ! v \<longleftrightarrow> (cols = [] \<or> cols ! u = cols ! v)"
  proof (cases "cols = []")
    case True
    then show ?thesis using assms(1) by (auto simp: init_colors_def)
  next
    case False
    then have "ic ! v = lower_bound (sort_unique cols) (cols ! v)" if "v < n" for v
      using assms(1) that by (auto simp: init_colors_def Let_def)
    then show ?thesis
      using lower_bound_inj [of _ cols] inC [OF False] False by (metis set_sort_unique)
  qed
qed

lemma fold_bucket:
  "length (fold (\<lambda>v b. upd_nth b (f v) (\<lambda>l. l @ [v])) vs xss) = length xss \<and>
    (\<forall>c < length xss. fold (\<lambda>v b. upd_nth b (f v) (\<lambda>l. l @ [v])) vs xss ! c =
       xss ! c @ filter (\<lambda>v. f v = c) vs)"
proof (induction vs rule: rev_induct)
  case (snoc v vs)
  then show ?case by (auto simp: nth_upd_nth)
qed simp

lemma fold_set_true:
  "length (fold (\<lambda>c b. b[c := True]) cs b) = length b \<and>
    (\<forall>c < length b. fold (\<lambda>c b. b[c := True]) cs b ! c \<longleftrightarrow> c \<in> set cs \<or> b ! c)"
proof (induction cs rule: rev_induct)
  case (snoc c cs)
  then have "(fold (\<lambda>c b. b[c := True]) cs b)[c := True] ! d \<longleftrightarrow> d \<in> set (cs @ [c]) \<or> b ! d"
    if "d < length b" for d
    using that by (cases "d = c") auto
  with snoc show ?case by simp
qed simp

lemma init_wl1_wf:
  assumes "0 < n" "cols = [] \<or> length cols = n"
  shows "wf_wl1 n (init_wl1 n cols)" and "scratch_clean (init_wl1 n cols)"
    and "queue_complete off nb n (init_wl1 n cols)"
    and "\<forall>u<n. \<forall>v<n. coloring (init_wl1 n cols) ! u = coloring (init_wl1 n cols) ! v \<longleftrightarrow>
      (cols = [] \<or> cols ! u = cols ! v)"
proof -
  obtain ic k where ick: "init_colors n cols = (ic, k)" by fastforce
  note I = init_colors_props [OF ick assms]
  have k: "k \<le> n"
  proof -
    have "card {..<k} \<le> card {..<n}" using card_image_le [of "{..<n}" "\<lambda>v. ic ! v"] I(2) by simp
    then show ?thesis by simp
  qed
  let ?s = "init_wl1 n cols"
  define mx where "mx = n + 2"
  have eq: "?s = \<lparr>coloring = ic, cd = replicate n 0,
      cc = fold (\<lambda>v cc. upd_nth cc (ic ! v) (\<lambda>l. l @ [v])) [0..<n] (replicate mx []),
      pdcc = replicate mx [], maxCD = replicate mx 0, minCD = replicate mx 0,
      inStack = fold (\<lambda>c b. b[c := True]) [0..<k] (replicate mx False),
      lastColor = k - 1, stk = [0..<k]\<rparr>"
    unfolding init_wl1_def ick mx_def Let_def prod.case ..
  note cc = fold_bucket [of "\<lambda>v. ic ! v" "[0..<n]" "replicate mx []"]
  note st = fold_set_true [of "[0..<k]" "replicate mx False"]
  have mx: "n < mx" by (simp add: mx_def)
  have s: "coloring ?s = ic" "lastColor ?s = k - 1" "stk ?s = [0..<k]"
    by (simp_all add: eq)
  have "sizes_ok n ?s" using I k cc st mx by (auto simp: sizes_ok_def eq)
  moreover have "classes_ok n ?s"
    using cc by (auto simp: classes_ok_def eq cls_def)
  moreover have "colors_ok n ?s"
  proof -
    have "{..<k} = {..k - 1}" using I(3) by auto
    then show ?thesis using I(2) s by (simp add: colors_ok_def)
  qed
  moreover have "stack_ok ?s" using I(3) st cc by (auto simp: stack_ok_def eq)
  ultimately show "wf_wl1 n ?s" by (simp add: wf_wl1_def)
  show "scratch_clean ?s" using cc by (auto simp: scratch_clean_def eq)
  show "\<forall>u<n. \<forall>v<n. coloring ?s ! u = coloring ?s ! v \<longleftrightarrow> (cols = [] \<or> cols ! u = cols ! v)"
    using I(4) s(1) by simp
  have "deg off nb (cls n ?s c) u = deg off nb (cls n ?s c) v"
    if "\<forall>c \<in> set (stk ?s). deg off nb (cls n ?s c) u = deg off nb (cls n ?s c) v" for c u v
  proof (cases "c < k")
    case True
    then show ?thesis using that s(3) by auto
  next
    case False
    then have "cls n ?s c = {}" using I(2) s(1) by (auto simp: cls_def)
    then show ?thesis by simp
  qed
  then show "queue_complete off nb n ?s" unfolding queue_complete_def by blast
qed

section \<open>The loop\<close>

definition loop_inv :: "nat list \<Rightarrow> nat list \<Rightarrow> nat \<Rightarrow> wl1 \<Rightarrow> bool" where
  "loop_inv off nb n s \<longleftrightarrow> wf_wl1 n s \<and> scratch_clean s \<and> queue_complete off nb n s"

lemma loop_inv_step:
  assumes csr: "csr_ok off nb n" and inv: "loop_inv off nb n s" and st: "stk s \<noteq> []"
  shows "loop_inv off nb n (refine_step off nb s) \<and>
    refined n (deg off nb (cls n s (hd (stk s)))) s (tl (stk s)) (refine_step off nb s)"
proof -
  have s: "stk s = hd (stk s) # tl (stk s)" using st by simp
  from refine_step_spec [OF csr _ _ s] queue_complete_step [OF _ s] inv
  show ?thesis by (auto simp: loop_inv_def)
qed

text \<open>
  An iteration either creates a colour or shortens the queue, and neither can go on: there
  are at most \<open>n\<close> colours and a queue holds each at most once.
\<close>

definition loop_measure :: "nat \<Rightarrow> wl1 \<Rightarrow> nat" where
  "loop_measure n s = (n - lastColor s) * (n + 1) + length (stk s)"

lemma loop_measure_decreases:
  assumes csr: "csr_ok off nb n" and inv: "loop_inv off nb n s" and st: "stk s \<noteq> []"
  shows "loop_measure n (refine_step off nb s) < loop_measure n s"
proof -
  let ?s = "refine_step off nb s"
  from loop_inv_step [OF assms] have inv': "loop_inv off nb n ?s"
    and r: "refined n (deg off nb (cls n s (hd (stk s)))) s (tl (stk s)) ?s" by auto
  have le: "lastColor s \<le> lastColor ?s" "lastColor ?s = lastColor s \<longrightarrow> stk ?s = tl (stk s)"
    using r by (simp_all add: refined_def)
  have lt: "lastColor ?s < n"
    using inv' lastColor_less by (auto simp: loop_inv_def wf_wl1_def)
  have q: "length (stk ?s) \<le> n"
  proof -
    have "distinct (stk ?s)" "set (stk ?s) \<subseteq> {..lastColor ?s}"
      using inv' by (auto simp: loop_inv_def wf_wl1_def stack_ok_def)
    then have "length (stk ?s) \<le> card {..lastColor ?s}"
      by (metis card_mono distinct_card finite_atMost)
    then show ?thesis using lt by simp
  qed
  show ?thesis
  proof (cases "lastColor ?s = lastColor s")
    case True
    then show ?thesis using le(2) st by (simp add: loop_measure_def)
  next
    case False
    then have d: "Suc (n - lastColor ?s) \<le> n - lastColor s" using le(1) lt by simp
    have "loop_measure n ?s \<le> (n - lastColor ?s) * (n + 1) + n"
      using q by (simp add: loop_measure_def)
    also have "\<dots> < Suc (n - lastColor ?s) * (n + 1)" by simp
    also have "\<dots> \<le> (n - lastColor s) * (n + 1)" using d by (rule mult_le_mono1)
    also have "\<dots> \<le> loop_measure n s" unfolding loop_measure_def by (rule le_add1)
    finally show ?thesis .
  qed
qed

lemma loop_terminates:
  assumes "csr_ok off nb n" "loop_inv off nb n s0"
  shows "\<exists>s. while_option (\<lambda>s. stk s \<noteq> []) (refine_step off nb) s0 = Some s"
  using assms
  by (intro measure_while_option_Some [where P = "loop_inv off nb n" and f = "loop_measure n"])
    (auto simp: loop_inv_step loop_measure_decreases)

text \<open>Facts every iteration keeps hold for the result.\<close>

lemma loop_result:
  assumes csr: "csr_ok off nb n" and n: "1 < n" "cols = [] \<or> length cols = n"
    and run: "run1WL off nb n cols = Some res"
    and start: "P (init_wl1 n cols)"
    and step: "\<And>s s' cur rest. P s \<Longrightarrow> refined n (deg off nb (cls n s cur)) s rest s' \<Longrightarrow> P s'"
  shows "\<exists>s. res = coloring s \<and> P s \<and> loop_inv off nb n s \<and> stk s = []"
proof -
  obtain s where w: "while_option (\<lambda>s. stk s \<noteq> []) (refine_step off nb) (init_wl1 n cols) = Some s"
    and res: "res = coloring s" using run n by (auto simp: run1WL_def)
  have init: "loop_inv off nb n (init_wl1 n cols)"
    using init_wl1_wf [of n cols] n by (simp add: loop_inv_def)
  have "P s \<and> loop_inv off nb n s"
  proof (rule while_option_rule [where P = "\<lambda>s. P s \<and> loop_inv off nb n s", OF _ w])
    fix t assume t: "P t \<and> loop_inv off nb n t" "stk t \<noteq> []"
    show "P (refine_step off nb t) \<and> loop_inv off nb n (refine_step off nb t)"
      using loop_inv_step [OF csr _ t(2)] t(1) step by blast
  qed (use start init in blast)
  then show ?thesis using res while_option_stop [OF w] by auto
qed

lemma refined_same: "refined n D s rest s' \<Longrightarrow> u < n \<Longrightarrow> v < n \<Longrightarrow>
    coloring s' ! u = coloring s' ! v \<Longrightarrow> coloring s ! u = coloring s ! v"
  by (auto simp: refined_def)

lemma result_refines_input:
  assumes "csr_ok off nb n" "1 < n" "cols = [] \<or> length cols = n" "run1WL off nb n cols = Some res"
  shows "\<exists>s. res = coloring s \<and> (\<forall>u<n. \<forall>v<n. coloring s ! u = coloring s ! v \<longrightarrow>
    cols = [] \<or> cols ! u = cols ! v) \<and> loop_inv off nb n s \<and> stk s = []"
proof (rule loop_result [OF assms])
  show "\<forall>u<n. \<forall>v<n. coloring (init_wl1 n cols) ! u = coloring (init_wl1 n cols) ! v \<longrightarrow>
      cols = [] \<or> cols ! u = cols ! v"
    using init_wl1_wf(4) [of n cols] assms(2,3) by simp
qed (use refined_same in blast)

lemma small_graph: "run1WL off nb n cols = Some res \<Longrightarrow> \<not> 1 < n \<Longrightarrow> n = 0 \<and> res = [] \<or> n = 1 \<and> res = [0]"
  by (auto simp: run1WL_def split: if_splits)

text \<open>The path on four vertices, the example of the witnesses.\<close>

lemma csr_path: "csr_ok [0, 1, 3, 5, 6] [1, 0, 2, 1, 3, 2] 4"
  by code_simp

lemma run1WL_path: "run1WL [0, 1, 3, 5, 6] [1, 0, 2, 1, 3, 2] 4 [] = Some [0, 1, 1, 0]"
  by code_simp

section \<open>Properties\<close>

lemma run1WL_returns:
  assumes "csr_ok offsets neighbors n" "vertexColors = [] \<or> length vertexColors = n"
  shows "\<exists>res. run1WL offsets neighbors n vertexColors = Some res \<and> length res = n"
proof (cases "1 < n")
  case True
  then have "loop_inv offsets neighbors n (init_wl1 n vertexColors)"
    using init_wl1_wf assms(2) by (simp add: loop_inv_def)
  from loop_terminates [OF assms(1) this] True
  obtain res where res: "run1WL offsets neighbors n vertexColors = Some res"
    by (auto simp: run1WL_def)
  from loop_result [OF assms(1) True assms(2) res, of "\<lambda>_. True"] res show ?thesis
    by (auto simp: loop_inv_def wf_wl1_def sizes_ok_def)
qed (auto simp: run1WL_def)

text \<open>
  C1. Colour refinement terminates: on every well-formed CSR graph and every initial
  colouring of its vertices (or none) \<open>run1WL\<close> returns, with one colour for each vertex.
\<close>

theorem run1WL_terminates:
  assumes "csr_ok offsets neighbors n" "vertexColors = [] \<or> length vertexColors = n"
  shows "\<exists>res. run1WL offsets neighbors n vertexColors = Some res \<and> length res = n"
  using assms by (rule run1WL_returns)

theorem run1WL_terminates_witness:
  "\<exists>res. run1WL [0, 1, 3, 5, 6] [1, 0, 2, 1, 3, 2] 4 [] = Some res \<and> length res = 4"
  by (rule run1WL_terminates [OF csr_path]) simp

lemma run1WL_stable:
  assumes "csr_ok offsets neighbors n" "vertexColors = [] \<or> length vertexColors = n"
    and "run1WL offsets neighbors n vertexColors = Some res"
  shows "equitable offsets neighbors n (\<lambda>v. res ! v) \<and>
    (\<forall>u<n. \<forall>v<n. res ! u = res ! v \<longrightarrow> vertexColors = [] \<or> vertexColors ! u = vertexColors ! v)"
proof (cases "1 < n")
  case True
  from result_refines_input [OF assms(1) True assms(2,3)]
  obtain s where s: "res = coloring s" "loop_inv offsets neighbors n s" "stk s = []"
    "\<forall>u<n. \<forall>v<n. coloring s ! u = coloring s ! v \<longrightarrow> vertexColors = [] \<or> vertexColors ! u = vertexColors ! v"
    by blast
  then have "queue_complete offsets neighbors n s" by (simp add: loop_inv_def)
  have q: "\<forall>c. deg offsets neighbors (cls n s c) u = deg offsets neighbors (cls n s c) v"
    if uv: "u < n" "v < n" "coloring s ! u = coloring s ! v" for u v
  proof -
    have "queue_complete offsets neighbors n s" using s(2) by (simp add: loop_inv_def)
    moreover have "\<forall>c \<in> set (stk s). deg offsets neighbors (cls n s c) u = deg offsets neighbors (cls n s c) v"
      unfolding s(3) by (simp only: list.set ball_empty)
    ultimately show ?thesis unfolding queue_complete_def using uv by meson
  qed
  have "equitable offsets neighbors n (\<lambda>v. res ! v)"
    unfolding equitable_def s(1) by (intro allI impI, rule q [unfolded cls_def, THEN spec])
  with s(1,4) show ?thesis by blast
next
  case False
  then show ?thesis using small_graph [OF assms(3)] by (auto simp: equitable_def)
qed

lemma path_equitable:
  "equitable [0, 1, 3, 5, 6] [1, 0, 2, 1, 3, 2] 4 (\<lambda>v. [0, 1, 1, 0 :: nat] ! v)"
  using run1WL_stable [OF csr_path _ run1WL_path] by simp

text \<open>
  C2. The result is stable and refines the input: two vertices of one colour receive equally
  many edges from every colour class, and had the same initial colour.
\<close>

theorem run1WL_equitable:
  assumes "csr_ok offsets neighbors n" "vertexColors = [] \<or> length vertexColors = n"
    and "run1WL offsets neighbors n vertexColors = Some res"
  shows "equitable offsets neighbors n (\<lambda>v. res ! v) \<and>
    (\<forall>u<n. \<forall>v<n. res ! u = res ! v \<longrightarrow> vertexColors = [] \<or> vertexColors ! u = vertexColors ! v)"
  using assms by (rule run1WL_stable)

theorem run1WL_equitable_witness:
  "equitable [0, 1, 3, 5, 6] [1, 0, 2, 1, 3, 2] 4 (\<lambda>v. [0, 1, 1, 0 :: nat] ! v)"
  using run1WL_equitable [OF csr_path _ run1WL_path] by simp

lemma run1WL_coarser:
  assumes "csr_ok offsets neighbors n" "vertexColors = [] \<or> length vertexColors = n"
    and "run1WL offsets neighbors n vertexColors = Some res"
    and "equitable offsets neighbors n g"
    and "\<forall>u<n. \<forall>v<n. g u = g v \<longrightarrow> vertexColors = [] \<or> vertexColors ! u = vertexColors ! v"
  shows "\<forall>u<n. \<forall>v<n. g u = g v \<longrightarrow> res ! u = res ! v"
proof (cases "1 < n")
  case True
  have "\<exists>s. res = coloring s \<and> (\<forall>u<n. \<forall>v<n. g u = g v \<longrightarrow> coloring s ! u = coloring s ! v) \<and>
      loop_inv offsets neighbors n s \<and> stk s = []"
  proof (rule loop_result [OF assms(1) True assms(2,3)])
    show "\<forall>u<n. \<forall>v<n. g u = g v \<longrightarrow>
        coloring (init_wl1 n vertexColors) ! u = coloring (init_wl1 n vertexColors) ! v"
      using init_wl1_wf(4) [of n vertexColors] True assms(2,5) by simp
  qed (use coarser_step assms(4) in blast)
  then show ?thesis by blast
next
  case False
  then show ?thesis using small_graph [OF assms(3)] by auto
qed

text \<open>
  C3. The result is the coarsest such colouring: every equitable colouring \<open>g\<close> that refines
  the initial one refines it. With C2 this is the fixed point of colour refinement.
\<close>

theorem run1WL_coarsest:
  assumes "csr_ok offsets neighbors n" "vertexColors = [] \<or> length vertexColors = n"
    and "run1WL offsets neighbors n vertexColors = Some res"
    and "equitable offsets neighbors n g"
    and "\<forall>u<n. \<forall>v<n. g u = g v \<longrightarrow> vertexColors = [] \<or> vertexColors ! u = vertexColors ! v"
  shows "\<forall>u<n. \<forall>v<n. g u = g v \<longrightarrow> res ! u = res ! v"
  using assms by (rule run1WL_coarser)

theorem run1WL_coarsest_witness: "[0, 1, 1, 0 :: nat] ! 1 = [0, 1, 1, 0] ! 2"
proof -
  have "\<forall>u<4. \<forall>v<4. [0, 1, 1, 0 :: nat] ! u = [0, 1, 1, 0] ! v \<longrightarrow> [0, 1, 1, 0 :: nat] ! u = [0, 1, 1, 0] ! v"
    by (rule run1WL_coarsest [OF csr_path _ run1WL_path path_equitable]) simp_all
  then show ?thesis by simp
qed

text \<open>
  C4. Colours are invariants of the coloured graph: an automorphism that keeps the initial
  colours keeps the result, so vertices of different colours lie in different orbits.
\<close>

theorem run1WL_automorphism:
  assumes "csr_ok offsets neighbors n" "vertexColors = [] \<or> length vertexColors = n"
    and "run1WL offsets neighbors n vertexColors = Some res"
    and "graph_automorphism offsets neighbors n p"
    and "\<forall>v<n. vertexColors = [] \<or> vertexColors ! p v = vertexColors ! v"
  shows "\<forall>v<n. res ! p v = res ! v"
proof (cases "1 < n")
  case True
  have pn: "p v < n" if "v < n" for v
    using assms(4) that by (auto simp: graph_automorphism_def bij_betw_def)
  have "\<exists>s. res = coloring s \<and> (\<forall>v<n. coloring s ! p v = coloring s ! v) \<and>
      loop_inv offsets neighbors n s \<and> stk s = []"
  proof (rule loop_result [OF assms(1) True assms(2,3)])
    show "\<forall>v<n. coloring (init_wl1 n vertexColors) ! p v = coloring (init_wl1 n vertexColors) ! v"
      using init_wl1_wf(4) [of n vertexColors] True assms(2,5) pn by simp
  qed (use automorphism_step assms(4) in blast)
  then show ?thesis by blast
next
  case False
  moreover have "\<forall>v<n. p v < n"
    using assms(4) by (auto simp: graph_automorphism_def bij_betw_def)
  ultimately show ?thesis using small_graph [OF assms(3)] by auto
qed

lemma csr_path3: "csr_ok [0, 1, 3, 4] [1, 0, 2, 1] 3"
  by code_simp

lemma run1WL_path3: "run1WL [0, 1, 3, 4] [1, 0, 2, 1] 3 [] = Some [0, 1, 0]"
  by code_simp

lemma reversal_automorphism: "graph_automorphism [0, 1, 3, 4] [1, 0, 2, 1] 3 (\<lambda>v. 2 - v)"
proof -
  have "bij_betw (\<lambda>v. 2 - v :: nat) {..<3} {..<3}"
    by (rule bij_betw_byWitness [of _ "\<lambda>v. 2 - v"]) auto
  moreover have "nbrs [0, 1, 3, 4] [1, 0, 2, 1] 0 = [1]" "nbrs [0, 1, 3, 4] [1, 0, 2, 1] (Suc 0) = [0, 2]"
    "nbrs [0, 1, 3, 4] [1, 0, 2, 1] 2 = [1]"
    by code_simp+
  moreover have "(\<forall>v<3. P v) \<longleftrightarrow> P 0 \<and> P (Suc 0) \<and> P 2" for P :: "nat \<Rightarrow> bool"
    by (auto simp: numeral_3_eq_3 less_Suc_eq numeral_2_eq_2)
  ultimately show ?thesis by (simp add: graph_automorphism_def)
qed

theorem run1WL_automorphism_witness: "[0, 1, 0 :: nat] ! 0 = [0, 1, 0] ! 2"
proof -
  have "\<forall>v<3. [0, 1, 0 :: nat] ! (2 - v) = [0, 1, 0] ! v"
    by (rule run1WL_automorphism [OF csr_path3 _ run1WL_path3 reversal_automorphism]) simp_all
  from this [rule_format, of 2] show ?thesis by simp
qed

text \<open>
  C18. The colour ids are dense, as the file's header promises: exactly \<open>0 .. k - 1\<close> occur,
  without a compaction pass.
\<close>

theorem run1WL_dense:
  assumes "csr_ok offsets neighbors n" "vertexColors = [] \<or> length vertexColors = n"
    and "run1WL offsets neighbors n vertexColors = Some res"
  shows "\<exists>k \<le> n. set res = {..<k}"
proof (cases "1 < n")
  case True
  from result_refines_input [OF assms(1) True assms(2,3)]
  obtain s where s: "res = coloring s" "loop_inv offsets neighbors n s" by blast
  then have co: "colors_ok n s" and len: "length res = n"
    by (simp_all add: loop_inv_def wf_wl1_def sizes_ok_def)
  have "set res = (\<lambda>v. coloring s ! v) ` {..<n}"
    using len s(1) by (auto simp: set_conv_nth)
  also have "\<dots> = {..<Suc (lastColor s)}" using co by (auto simp: colors_ok_def)
  finally show ?thesis using lastColor_less [OF co] by (metis Suc_leI)
next
  case False
  from small_graph [OF assms(3) False] show ?thesis
  proof
    assume "n = 1 \<and> res = [0]"
    then have "set res = {..<1}" by auto
    then show ?thesis using \<open>n = 1 \<and> res = [0]\<close> by blast
  qed simp
qed

lemma run1WL_dense_witness: "\<exists>k. k \<le> 4 \<and> set [0, 1, 1, 0 :: nat] = {..<k}"
  using run1WL_dense [OF csr_path _ run1WL_path] by auto

end
