(* ===== verification/AHU_Model.thy ===== *)
theory AHU_Model
  imports Orbit_Prelude WL1_Refine "HOL-Library.Word" "HOL-Library.List_Lexorder" "HOL-Library.Char_ord"
begin

unbundle bit_operations_syntax

text \<open>
  Coloured AHU labels of rooted trees: \<open>src/src/main/cpp/colored_ahu.cpp\<close>.

  The three globals of the registry and its counter are the record \<open>registry\<close>; the
  traversal of \<open>encode_tree\<close>, an explicit stack of frames, is one step function under
  \<open>while_option\<close>. Labels are integers because \<open>-1\<close> marks an unvisited vertex. A colour
  is absent (\<open>null\<close> on the Java side) or a byte string, and \<open>std::string\<close> compares
  bytes as unsigned characters, which is the order of \<open>List_Lexorder\<close> and \<open>Char_ord\<close>.
  \<open>std::out_of_range\<close> (\<open>unordered_map::at\<close>) is \<open>None\<close>. The CSR arrays and \<open>nbrs\<close>
  are those of \<open>WL1_Refine\<close>.
\<close>

section \<open>The registry\<close>

record key =
  kcolored :: bool
  kcolor :: string
  kchildren :: "int list"

text \<open>
  The hash of a key, over the hash of its colour string, which is the C++ library's
  (\<open>string_hash\<close>, a parameter).
\<close>

definition mix_hash :: "64 word \<Rightarrow> 64 word \<Rightarrow> 64 word" where
  "mix_hash x h = h XOR (x + 0x9e3779b9 + push_bit 6 h + drop_bit 2 h)"

definition key_hash :: "(string \<Rightarrow> 64 word) \<Rightarrow> key \<Rightarrow> 64 word" where
  "key_hash string_hash k =
     (let h = (if kcolored k then string_hash (kcolor k) else 0xdeadbeefcafebabe);
          h = mix_hash (if kcolored k then 1 else 0) h
      in fold (\<lambda>x h. mix_hash (ucast (word_of_int x :: 32 word)) h) (kchildren k) h)"

record registry =
  key_to_label :: "key \<Rightarrow> int option"
  label_to_key :: "key list"
  label_to_str :: "int \<Rightarrow> string option"
  counter :: int

definition reset_registry :: "registry \<Rightarrow> registry" where
  "reset_registry R = R\<lparr>key_to_label := Map.empty, label_to_key := [],
     label_to_str := Map.empty, counter := 0\<rparr>"

text \<open>The static initialisation of the globals.\<close>

definition empty_registry :: registry where
  "empty_registry = \<lparr>key_to_label = Map.empty, label_to_key = [],
     label_to_str = Map.empty, counter = 0\<rparr>"

definition intern :: "bool \<Rightarrow> string \<Rightarrow> int list \<Rightarrow> registry \<Rightarrow> int \<times> registry" where
  "intern colored color sorted_children R =
     (let k = \<lparr>kcolored = colored, kcolor = (if colored then color else ''''),
               kchildren = sorted_children\<rparr> in
      case key_to_label R k of
        Some label \<Rightarrow> (label, R)
      | None \<Rightarrow>
          let label = counter R in
          (label, R\<lparr>counter := counter R + 1,
                    key_to_label := (key_to_label R)(k \<mapsto> label),
                    label_to_key := label_to_key R @ [k]\<rparr>))"

section \<open>Canonical strings\<close>

text \<open>One iteration of the loop of \<open>ensure_strings_up_to\<close>, for the label \<open>l\<close>.\<close>

definition ensure_string :: "int \<Rightarrow> registry \<Rightarrow> registry option" where
  "ensure_string l R =
     (if label_to_str R l \<noteq> None then Some R
      else let k = label_to_key R ! nat l in
        case those (map (label_to_str R) (kchildren k)) of
          None \<Rightarrow> None
        | Some cs \<Rightarrow>
            Some (R\<lparr>label_to_str := (label_to_str R)(l \<mapsto>
              (if kcolored k then ''('' @ kcolor k else ''(*'') @ concat (sort cs) @ '')'')\<rparr>))"

definition ensure_strings_up_to :: "int \<Rightarrow> registry \<Rightarrow> registry option" where
  "ensure_strings_up_to max_label R =
     fold (\<lambda>l r. Option.bind r (ensure_string (int l)))
       [0..<min (nat (max_label + 1)) (length (label_to_key R))] (Some R)"

definition canonicalString :: "int \<Rightarrow> registry \<Rightarrow> (string \<times> registry) option" where
  "canonicalString label R =
     (if label < 0 \<or> label \<ge> counter R then Some ('''', R)
      else Option.bind (ensure_strings_up_to label R)
             (\<lambda>R. Option.bind (label_to_str R label) (\<lambda>s. Some (s, R))))"

section \<open>The traversal\<close>

record frame =
  node :: nat
  parent :: int
  pos :: nat

record enc =
  frames :: "frame list"   \<comment> \<open>\<open>stk\<close>, the top first\<close>
  labels :: "int list"
  reg :: registry

text \<open>The inner loop: skip the entries that are the parent.\<close>

function skip_parent :: "nat list \<Rightarrow> int \<Rightarrow> nat \<Rightarrow> nat \<Rightarrow> nat" where
  "skip_parent neighbors par stop p =
     (if p < stop \<and> int (neighbors ! p) = par then skip_parent neighbors par stop (Suc p) else p)"
  by pat_completeness auto
termination
  by (relation "measure (\<lambda>(_, _, stop, p). stop - p)") auto

declare skip_parent.simps [simp del]

definition encode_step ::
  "nat list \<Rightarrow> nat list \<Rightarrow> bool list \<Rightarrow> string list \<Rightarrow> enc \<Rightarrow> enc" where
  "encode_step offsets neighbors colored colors s =
     (case frames s of
        [] \<Rightarrow> s
      | f # rest \<Rightarrow>
          let v = node f; par = parent f; stop = offsets ! Suc v;
              p = skip_parent neighbors par stop (pos f) in
          if p < stop then
            let child = neighbors ! p in
            s\<lparr>frames := \<lparr>node = child, parent = int v, pos = offsets ! child\<rparr>
                # \<lparr>node = v, parent = par, pos = Suc p\<rparr> # rest\<rparr>
          else
            let ch = map (\<lambda>nb. labels s ! nb) (filter (\<lambda>nb. int nb \<noteq> par) (nbrs offsets neighbors v));
                (label, R) = intern (colored ! v) (colors ! v) (sort ch) (reg s)
            in s\<lparr>frames := rest, labels := (labels s)[v := label], reg := R\<rparr>)"

definition encode_tree ::
  "nat list \<Rightarrow> nat list \<Rightarrow> bool list \<Rightarrow> string list \<Rightarrow> nat \<Rightarrow> int list \<Rightarrow> registry \<Rightarrow>
    (int list \<times> registry) option" where
  "encode_tree offsets neighbors colored colors root labels0 R =
     map_option (\<lambda>s. (labels s, reg s))
       (while_option (\<lambda>s. frames s \<noteq> []) (encode_step offsets neighbors colored colors)
         \<lparr>frames = [\<lparr>node = root, parent = -1, pos = offsets ! root\<rparr>],
          labels = labels0, reg = R\<rparr>)"

text \<open>
  The JNI entry: colours \<open>null\<close> or a string, labels start at \<open>-1\<close>. \<open>heap_ok\<close> says whether
  \<open>NewIntArray\<close> can allocate; without it the result is \<open>null\<close> (\<open>None\<close>, with the
  \<open>OutOfMemoryError\<close> pending), but the registry has been extended.
\<close>

definition computeLabels ::
  "bool \<Rightarrow> nat list \<Rightarrow> nat list \<Rightarrow> int \<Rightarrow> string option list \<Rightarrow> nat \<Rightarrow> registry \<Rightarrow>
    (int list option \<times> registry) option" where
  "computeLabels heap_ok offsets neighbors maxVertex initialColors root R =
     (let N = nat (maxVertex + 1);
          colored = map (\<lambda>v. initialColors ! v \<noteq> None) [0..<N];
          colors = map (\<lambda>v. case initialColors ! v of None \<Rightarrow> '''' | Some utf \<Rightarrow> utf) [0..<N]
      in map_option (\<lambda>(ls, R). (if heap_ok then Some ls else None, R))
           (encode_tree offsets neighbors colored colors root (replicate N (-1)) R))"

end
