(* ===== verification/AHU_Registry.thy ===== *)
theory AHU_Registry
  imports AHU_Model
begin

text \<open>
  The registry of \<open>colored_ahu.cpp\<close>: its invariant, the coloured tree a label stands for, and
  the contract \<open>hash_cons\<close> the traversal relies on, which \<open>intern\<close> is shown to meet.
\<close>

section \<open>What a label stands for\<close>

text \<open>Coloured rooted trees up to the order of the children.\<close>

datatype utree = U "string option" "utree multiset"

definition key_col :: "key \<Rightarrow> string option" where
  "key_col k = (if kcolored k then Some (kcolor k) else None)"

text \<open>The trees of the labels \<open>0, 1, ...\<close>, built from the keys in the order of interning.\<close>

definition key_tree :: "utree list \<Rightarrow> key \<Rightarrow> utree" where
  "key_tree us k = U (key_col k) (mset (map (\<lambda>c. us ! nat c) (kchildren k)))"

definition reps :: "key list \<Rightarrow> utree list" where
  "reps ks = fold (\<lambda>k us. us @ [key_tree us k]) ks []"

definition label_class :: "registry \<Rightarrow> int \<Rightarrow> utree option" where
  "label_class R l =
     (if 0 \<le> l \<and> l < int (length (label_to_key R)) then Some (reps (label_to_key R) ! nat l) else None)"

lemma reps_Nil [simp]: "reps [] = []"
  by (simp add: reps_def)

lemma reps_snoc [simp]: "reps (ks @ [k]) = reps ks @ [key_tree (reps ks) k]"
  by (simp add: reps_def)

lemma length_reps [simp]: "length (reps ks) = length ks"
  by (induction ks rule: rev_induct) auto

section \<open>The invariant\<close>

definition key_wf :: "nat \<Rightarrow> key \<Rightarrow> bool" where
  "key_wf n k \<longleftrightarrow> sorted (kchildren k) \<and> (\<forall>c \<in> set (kchildren k). 0 \<le> c \<and> c < int n) \<and>
     (\<not> kcolored k \<longrightarrow> kcolor k = '''')"

text \<open>
  The two maps are inverse to each other, labels are dense, and a key only mentions smaller
  labels (the post-order invariant of the file's header comment).
\<close>

definition reg_ok :: "registry \<Rightarrow> bool" where
  "reg_ok R \<longleftrightarrow>
     counter R = int (length (label_to_key R)) \<and>
     (\<forall>k l. key_to_label R k = Some l \<longleftrightarrow>
        0 \<le> l \<and> nat l < length (label_to_key R) \<and> label_to_key R ! nat l = k) \<and>
     (\<forall>i < length (label_to_key R). key_wf i (label_to_key R ! i))"

lemma reg_okD:
  assumes "reg_ok R"
  shows "counter R = int (length (label_to_key R))"
    and "key_to_label R k = Some l \<longleftrightarrow>
      0 \<le> l \<and> nat l < length (label_to_key R) \<and> label_to_key R ! nat l = k"
    and "i < length (label_to_key R) \<Longrightarrow> key_wf i (label_to_key R ! i)"
  using assms by (auto simp: reg_ok_def)

lemma reg_ok_distinct:
  assumes "reg_ok R" "i < length (label_to_key R)" "j < length (label_to_key R)"
    and "label_to_key R ! i = label_to_key R ! j"
  shows "i = j"
  using reg_okD(2) [OF assms(1), of "label_to_key R ! i" "int i"]
    reg_okD(2) [OF assms(1), of "label_to_key R ! i" "int j"] assms by simp

lemma reg_ok_empty [simp]: "reg_ok empty_registry"
  by (auto simp: reg_ok_def empty_registry_def)

lemma reg_ok_reset [simp]: "reg_ok (reset_registry R)"
  by (auto simp: reg_ok_def reset_registry_def)

lemma reg_ok_strings [simp]: "reg_ok (R\<lparr>label_to_str := f\<rparr>) = reg_ok R"
  by (simp add: reg_ok_def)

lemma nth_reps:
  assumes "\<forall>i < length ks. key_wf i (ks ! i)" "i < length ks"
  shows "reps ks ! i = key_tree (reps ks) (ks ! i)"
  using assms
proof (induction ks rule: rev_induct)
  case (snoc k ks)
  have wf: "\<forall>j < length ks. key_wf j (ks ! j)"
    using snoc.prems(1) by (metis length_append_singleton less_Suc_eq nth_append)
  have stable: "key_tree (reps ks @ [u]) q = key_tree (reps ks) q" if "key_wf j q" "j \<le> length ks" for q u j
  proof -
    have "(reps ks @ [u]) ! nat c = reps ks ! nat c" if "c \<in> set (kchildren q)" for c
    proof -
      have "0 \<le> c" "c < int j" using that \<open>key_wf j q\<close> by (auto simp: key_wf_def)
      then show ?thesis using \<open>j \<le> length ks\<close> by (simp add: nth_append nat_less_iff)
    qed
    then show ?thesis by (simp add: key_tree_def cong: map_cong)
  qed
  show ?case
  proof (cases "i < length ks")
    case True
    then show ?thesis using snoc.IH [OF wf True] stable [of i] wf by (simp add: nth_append)
  next
    case False
    then have "i = length ks" using snoc.prems by simp
    then show ?thesis using stable [of "length ks" k] snoc.prems(1) by (auto simp: nth_append)
  qed
qed simp

lemma reps_inj_upto:
  assumes "reg_ok R" "n \<le> length (label_to_key R)"
  shows "inj_on (\<lambda>i. reps (label_to_key R) ! i) {..<n}"
  using assms(2)
proof (induction n)
  case (Suc n)
  let ?ks = "label_to_key R" and ?r = "\<lambda>i. reps (label_to_key R) ! i"
  have inj: "inj_on ?r {..<n}" using Suc by simp
  have wf: "\<forall>i < length ?ks. key_wf i (?ks ! i)" using reg_okD(3) [OF assms(1)] by blast
  have "?r i \<noteq> ?r n" if "i < n" for i
  proof
    assume eq: "?r i = ?r n"
    have kwf: "key_wf i (?ks ! i)" "key_wf n (?ks ! n)" using wf that Suc.prems by auto
    have kt: "key_tree (reps ?ks) (?ks ! i) = key_tree (reps ?ks) (?ks ! n)"
      using eq nth_reps [OF wf, of i] nth_reps [OF wf, of n] that Suc.prems by simp
    have bnd: "\<forall>c \<in> set (kchildren (?ks ! i)) \<union> set (kchildren (?ks ! n)). 0 \<le> c \<and> nat c < n"
      using kwf that by (fastforce simp: key_wf_def)
    have "inj_on (\<lambda>c. ?r (nat c)) (set (kchildren (?ks ! i)) \<union> set (kchildren (?ks ! n)))"
    proof (rule inj_onI)
      fix x y assume "x \<in> set (kchildren (?ks ! i)) \<union> set (kchildren (?ks ! n))"
        "y \<in> set (kchildren (?ks ! i)) \<union> set (kchildren (?ks ! n))" "?r (nat x) = ?r (nat y)"
      then show "x = y" using bnd inj by (metis inj_onD int_nat_eq lessThan_iff)
    qed
    moreover have "image_mset (\<lambda>c. ?r (nat c)) (mset (kchildren (?ks ! i))) =
        image_mset (\<lambda>c. ?r (nat c)) (mset (kchildren (?ks ! n)))"
      using kt by (simp add: key_tree_def)
    ultimately have "mset (kchildren (?ks ! i)) = mset (kchildren (?ks ! n))"
      by - (rule image_mset_cancel, auto)
    then have "kchildren (?ks ! i) = kchildren (?ks ! n)"
      using kwf by (metis key_wf_def sorted_sort_id sorted_list_of_multiset_mset)
    moreover have "kcolored (?ks ! i) = kcolored (?ks ! n)" "kcolor (?ks ! i) = kcolor (?ks ! n)"
      using kt kwf by (auto simp: key_tree_def key_col_def key_wf_def split: if_splits)
    ultimately have "?ks ! i = ?ks ! n" by simp
    then show False using reg_ok_distinct [OF assms(1), of i n] that Suc.prems by simp
  qed
  then have "?r n \<notin> ?r ` {..<n}" by (metis imageE lessThan_iff)
  then show ?case using inj by (simp add: lessThan_Suc)
qed simp

lemma label_class_inj:
  assumes "reg_ok R" "label_class R l = Some u" "label_class R m = Some u"
  shows "l = m"
proof -
  let ?n = "length (label_to_key R)"
  have "nat l < ?n" "nat m < ?n" "0 \<le> l" "0 \<le> m"
    and "reps (label_to_key R) ! nat l = reps (label_to_key R) ! nat m"
    using assms(2,3) by (auto simp: label_class_def split: if_splits)
  then show ?thesis
    using inj_onD [OF reps_inj_upto [OF assms(1) order.refl], of "nat l" "nat m"] by simp
qed

section \<open>Interning\<close>

lemma label_class_append:
  "label_to_key R' = label_to_key R @ [k] \<Longrightarrow> label_class R l = Some u \<Longrightarrow> label_class R' l = Some u"
  by (auto simp: label_class_def nth_append split: if_splits)

text \<open>The key \<open>intern\<close> looks up.\<close>

definition mk_key :: "bool \<Rightarrow> string \<Rightarrow> int list \<Rightarrow> key" where
  "mk_key colored color cs =
     \<lparr>kcolored = colored, kcolor = (if colored then color else ''''), kchildren = cs\<rparr>"

lemma intern_hit:
  "key_to_label R (mk_key colored color cs) = Some l \<Longrightarrow> intern colored color cs R = (l, R)"
  by (simp add: intern_def mk_key_def)

lemma intern_miss:
  "key_to_label R (mk_key colored color cs) = None \<Longrightarrow>
   intern colored color cs R = (counter R, R\<lparr>counter := counter R + 1,
     key_to_label := (key_to_label R)(mk_key colored color cs \<mapsto> counter R),
     label_to_key := label_to_key R @ [mk_key colored color cs]\<rparr>)"
  by (simp add: intern_def mk_key_def Let_def)

lemma mk_key_wf:
  assumes "reg_ok R" "sorted cs" "\<forall>c \<in> set cs. label_class R c \<noteq> None"
  shows "key_wf (length (label_to_key R)) (mk_key colored color cs)"
  using assms by (auto simp: key_wf_def mk_key_def label_class_def split: if_splits)

lemma key_tree_mk_key:
  assumes "\<forall>c \<in> set cs. label_class R c \<noteq> None"
  shows "key_tree (reps (label_to_key R)) (mk_key colored color cs) =
    U (if colored then Some color else None) (mset (map (\<lambda>c. the (label_class R c)) cs))"
  using assms
  by (auto simp: key_tree_def mk_key_def key_col_def label_class_def intro!: image_mset_cong split: if_splits)

lemma intern_ok:
  assumes "reg_ok R" "sorted cs" "\<forall>c \<in> set cs. label_class R c \<noteq> None"
  shows "reg_ok (snd (intern colored color cs R))"
proof (cases "key_to_label R (mk_key colored color cs)")
  case None
  let ?k = "mk_key colored color cs"
  have new: "label_to_key R ! i \<noteq> ?k" if "i < length (label_to_key R)" for i
    using None reg_okD(2) [OF assms(1), of ?k "int i"] that by auto
  show ?thesis
    unfolding intern_miss [OF None] snd_conv reg_ok_def
    using reg_okD [OF assms(1)] mk_key_wf [OF assms, of colored color] new
    by (auto simp: nth_append less_Suc_eq nat_less_iff)
qed (simp add: intern_hit assms)

lemma intern_class:
  assumes "reg_ok R" "sorted cs" "\<forall>c \<in> set cs. label_class R c \<noteq> None"
  shows "label_class (snd (intern colored color cs R)) (fst (intern colored color cs R)) =
    Some (U (if colored then Some color else None) (mset (map (\<lambda>c. the (label_class R c)) cs)))"
proof (cases "key_to_label R (mk_key colored color cs)")
  case None
  show ?thesis
    unfolding intern_miss [OF None] key_tree_mk_key [OF assms(3), of colored color, symmetric]
    using reg_okD(1) [OF assms(1)] by (simp add: label_class_def nth_append)
next
  case (Some l)
  then have "0 \<le> l" "nat l < length (label_to_key R)" "label_to_key R ! nat l = mk_key colored color cs"
    using reg_okD(2) [OF assms(1)] by blast+
  moreover from this have "reps (label_to_key R) ! nat l =
      key_tree (reps (label_to_key R)) (mk_key colored color cs)"
    using nth_reps [of "label_to_key R" "nat l"] reg_okD(3) [OF assms(1)] by simp
  ultimately show ?thesis
    unfolding intern_hit [OF Some] key_tree_mk_key [OF assms(3), of colored color, symmetric]
    by (simp add: label_class_def)
qed

lemma intern_keeps:
  "label_class R l = Some u \<Longrightarrow> label_class (snd (intern colored color cs R)) l = Some u"
  by (cases "key_to_label R (mk_key colored color cs)")
    (auto simp: intern_hit intern_miss label_class_append)

section \<open>The contract the traversal relies on\<close>

text \<open>
  A store that hands out one label per coloured tree: labels keep their meaning as the store
  grows, and two labels with the same meaning are equal.
\<close>

locale hash_cons =
  fixes ok :: "'r \<Rightarrow> bool"
    and meaning :: "'r \<Rightarrow> int \<Rightarrow> utree option"
    and put :: "bool \<Rightarrow> string \<Rightarrow> int list \<Rightarrow> 'r \<Rightarrow> int \<times> 'r"
  assumes put_ok: "ok r \<Longrightarrow> sorted cs \<Longrightarrow> \<forall>c \<in> set cs. meaning r c \<noteq> None \<Longrightarrow>
      ok (snd (put colored color cs r))"
    and put_meaning: "ok r \<Longrightarrow> sorted cs \<Longrightarrow> \<forall>c \<in> set cs. meaning r c \<noteq> None \<Longrightarrow>
      meaning (snd (put colored color cs r)) (fst (put colored color cs r)) =
      Some (U (if colored then Some color else None) (mset (map (\<lambda>c. the (meaning r c)) cs)))"
    and put_keeps: "meaning r l = Some u \<Longrightarrow> meaning (snd (put colored color cs r)) l = Some u"
    and meaning_inj: "ok r \<Longrightarrow> meaning r l = Some u \<Longrightarrow> meaning r m = Some u \<Longrightarrow> l = m"

interpretation reg_store: hash_cons reg_ok label_class intern
  by unfold_locales (fact intern_ok intern_class intern_keeps label_class_inj)+

end
