(* ===== verification/AHU_Correct.thy ===== *)
theory AHU_Correct
  imports AHU_Registry
begin

text \<open>
  Correctness of the coloured AHU labels (\<open>colored_ahu.cpp\<close>): the stack machine of
  \<open>encode_tree\<close> computes the recursive labelling of the tree, equal labels mean isomorphic
  coloured subtrees, and the canonical strings are a complete invariant exactly when the
  colours contain no parentheses.
\<close>

section \<open>Rooted trees and their isomorphism classes\<close>

datatype rtree = RNode nat "rtree list"

primrec rt_root :: "rtree \<Rightarrow> nat" where
  "rt_root (RNode v ts) = v"

primrec rt_nodes :: "rtree \<Rightarrow> nat list" where
  "rt_nodes (RNode v ts) = v # concat (map rt_nodes ts)"

primrec rt_subtrees :: "rtree \<Rightarrow> rtree list" where
  "rt_subtrees (RNode v ts) = RNode v ts # concat (map rt_subtrees ts)"

text \<open>\<open>t\<close> unfolds the graph from its root, entered from \<open>par\<close> (\<open>-1\<close>: no parent).\<close>

fun tree_of :: "nat list \<Rightarrow> nat list \<Rightarrow> int \<Rightarrow> rtree \<Rightarrow> bool" where
  "tree_of off nb par (RNode v ts) \<longleftrightarrow>
     map rt_root ts = filter (\<lambda>w. int w \<noteq> par) (nbrs off nb v) \<and>
     (\<forall>t \<in> set ts. tree_of off nb (int v) t)"

text \<open>Coloured trees up to the order of the children: two are isomorphic when equal here.\<close>

primrec iso_class :: "(nat \<Rightarrow> string option) \<Rightarrow> rtree \<Rightarrow> utree" where
  "iso_class col (RNode v ts) = U (col v) (mset (map (iso_class col) ts))"

section \<open>The stack machine computes the recursive labelling\<close>

definition col_of :: "bool list \<Rightarrow> string list \<Rightarrow> nat \<Rightarrow> string option" where
  "col_of colored colors v = (if colored ! v then Some (colors ! v) else None)"

text \<open>The specification: label the children, then the node.\<close>

fun label_tree :: "(bool \<Rightarrow> string \<Rightarrow> int list \<Rightarrow> 'r \<Rightarrow> int \<times> 'r) \<Rightarrow>
    bool list \<Rightarrow> string list \<Rightarrow> rtree \<Rightarrow> int list \<times> 'r \<Rightarrow> int list \<times> 'r" where
  "label_tree put colored colors (RNode v ts) st =
     (let (L, R) = fold (label_tree put colored colors) ts st;
          (l, R) = put (colored ! v) (colors ! v) (sort (map (\<lambda>t. L ! rt_root t) ts)) R
      in (L[v := l], R))"

definition runs :: "(enc \<Rightarrow> enc) \<Rightarrow> enc \<Rightarrow> enc \<Rightarrow> bool" where
  "runs step s s' \<longleftrightarrow>
     while_option (\<lambda>s. frames s \<noteq> []) step s = while_option (\<lambda>s. frames s \<noteq> []) step s'"

lemma runs_refl [simp]: "runs step s s"
  by (simp add: runs_def)

lemma runs_trans: "runs step s t \<Longrightarrow> runs step t u \<Longrightarrow> runs step s u"
  by (simp add: runs_def)

lemma runs_step: "frames s \<noteq> [] \<Longrightarrow> runs step s (step s)"
  by (simp add: runs_def while_option_unfold [of _ _ s])

lemma skip_parent_spec:
  "p \<le> stop \<Longrightarrow>
    let q = skip_parent nb par stop p in p \<le> q \<and> q \<le> stop \<and>
      (q < stop \<longrightarrow> int (nb ! q) \<noteq> par) \<and> (\<forall>i. p \<le> i \<and> i < q \<longrightarrow> int (nb ! i) = par)"
proof (induction nb par stop p rule: skip_parent.induct)
  case (1 nb par stop p)
  show ?case
  proof (cases "p < stop \<and> int (nb ! p) = par")
    case True
    then have "skip_parent nb par stop p = skip_parent nb par stop (Suc p)"
      by (subst skip_parent.simps) simp
    moreover have "Suc p \<le> stop" using True by simp
    moreover have "int (nb ! i) = par" if "p \<le> i" "\<forall>i. Suc p \<le> i \<and> i < q \<longrightarrow> int (nb ! i) = par" "i < q" for i q
      using that True by (cases "i = p") auto
    ultimately show ?thesis using 1(1) [OF True] by (auto simp: Let_def)
  next
    case False
    then have "skip_parent nb par stop p = p" by (subst skip_parent.simps) auto
    with False 1(2) show ?thesis by (auto simp: Let_def)
  qed
qed

text \<open>The entries from \<open>p\<close> on that are not the parent: what the frame still has to visit.\<close>

definition todo :: "nat list \<Rightarrow> int \<Rightarrow> nat \<Rightarrow> nat \<Rightarrow> nat list" where
  "todo nb par p stop = filter (\<lambda>w. int w \<noteq> par) (map (\<lambda>i. nb ! i) [p..<stop])"

lemma todo_skip:
  assumes "p \<le> stop"
  shows "todo nb par p stop = todo nb par (skip_parent nb par stop p) stop"
proof -
  let ?q = "skip_parent nb par stop p"
  have q: "p \<le> ?q" "?q \<le> stop" "\<forall>i. p \<le> i \<and> i < ?q \<longrightarrow> int (nb ! i) = par"
    using skip_parent_spec [OF assms] by (auto simp: Let_def)
  have "[p..<stop] = [p..<?q] @ [?q..<stop]"
    using q by (metis le_add_diff_inverse upt_add_eq_append)
  moreover have "filter (\<lambda>w. int w \<noteq> par) (map (\<lambda>i. nb ! i) [p..<?q]) = []"
    using q(3) by (auto simp: filter_empty_conv)
  ultimately show ?thesis by (simp add: todo_def)
qed

lemma todo_Cons:
  assumes "q < stop" "int (nb ! q) \<noteq> par"
  shows "todo nb par q stop = nb ! q # todo nb par (Suc q) stop"
  using assms by (simp add: todo_def upt_conv_Cons)

lemma todo_end: "todo nb par stop stop = []"
  by (simp add: todo_def)

lemma encode_tree_runs:
  assumes "tree_of off nb par t" and "\<forall>v \<in> set (rt_nodes t). off ! v \<le> off ! Suc v"
  shows "runs (encode_step off nb colored colors)
    \<lparr>frames = \<lparr>node = rt_root t, parent = par, pos = off ! rt_root t\<rparr> # rest, labels = L, reg = R\<rparr>
    \<lparr>frames = rest, labels = fst (label_tree intern colored colors t (L, R)),
     reg = snd (label_tree intern colored colors t (L, R))\<rparr>"
  using assms
proof (induction t arbitrary: par rest L R)
  case (RNode v ts)
  let ?step = "encode_step off nb colored colors" and ?stop = "off ! Suc v"
  have all: "map rt_root ts = filter (\<lambda>w. int w \<noteq> par) (nbrs off nb v)"
    and sub: "\<forall>t \<in> set ts. tree_of off nb (int v) t"
    and off: "off ! v \<le> off ! Suc v" "\<forall>t \<in> set ts. \<forall>v \<in> set (rt_nodes t). off ! v \<le> off ! Suc v"
    using RNode.prems by auto
  have children: "runs ?step
      \<lparr>frames = \<lparr>node = v, parent = par, pos = p\<rparr> # rest, labels = L, reg = R\<rparr>
      (?step \<lparr>frames = \<lparr>node = v, parent = par, pos = ?stop\<rparr> # rest,
         labels = fst (fold (label_tree intern colored colors) us (L, R)),
         reg = snd (fold (label_tree intern colored colors) us (L, R))\<rparr>)"
    if "set us \<subseteq> set ts" "map rt_root us = todo nb par p ?stop" "p \<le> ?stop" for us p L R
    using that
  proof (induction us arbitrary: p L R)
    case Nil
    let ?q = "skip_parent nb par ?stop p"
    have q: "?q \<le> ?stop" "?q < ?stop \<longrightarrow> int (nb ! ?q) \<noteq> par"
      using skip_parent_spec [OF Nil.prems(3)] by (auto simp: Let_def)
    have "?q = ?stop"
      using Nil.prems q todo_skip [OF Nil.prems(3)] todo_Cons [of ?q ?stop nb par] by force
    moreover have "skip_parent nb par ?stop ?stop = ?stop" by (subst skip_parent.simps) simp
    ultimately have "?step \<lparr>frames = \<lparr>node = v, parent = par, pos = p\<rparr> # rest, labels = L, reg = R\<rparr> =
        ?step \<lparr>frames = \<lparr>node = v, parent = par, pos = ?stop\<rparr> # rest, labels = L, reg = R\<rparr>"
      by (simp add: encode_step_def Let_def)
    then show ?case by (metis (no_types, lifting) fold_Nil fst_conv id_apply list.simps(3) runs_step snd_conv enc.select_convs(1))
  next
    case (Cons u us)
    let ?q = "skip_parent nb par ?stop p"
    have q: "?q \<le> ?stop" "?q < ?stop \<longrightarrow> int (nb ! ?q) \<noteq> par"
      using skip_parent_spec [OF Cons.prems(3)] by (auto simp: Let_def)
    have td: "rt_root u # map rt_root us = todo nb par ?q ?stop"
      using Cons.prems(2) todo_skip [OF Cons.prems(3)] by simp
    then have lt: "?q < ?stop" using q(1) todo_end [of nb par ?stop] by (cases "?q = ?stop") auto
    then have u: "rt_root u = nb ! ?q" "map rt_root us = todo nb par (Suc ?q) ?stop"
      using td todo_Cons [of ?q ?stop nb par] q(2) by auto
    let ?frame = "\<lparr>node = v, parent = par, pos = Suc ?q\<rparr>"
    have "?step \<lparr>frames = \<lparr>node = v, parent = par, pos = p\<rparr> # rest, labels = L, reg = R\<rparr> =
        \<lparr>frames = \<lparr>node = rt_root u, parent = int v, pos = off ! rt_root u\<rparr> # ?frame # rest,
         labels = L, reg = R\<rparr>"
      using lt u(1) by (simp add: encode_step_def Let_def)
    then have "runs ?step \<lparr>frames = \<lparr>node = v, parent = par, pos = p\<rparr> # rest, labels = L, reg = R\<rparr>
        \<lparr>frames = \<lparr>node = rt_root u, parent = int v, pos = off ! rt_root u\<rparr> # ?frame # rest,
         labels = L, reg = R\<rparr>"
      by (metis (no_types, lifting) enc.select_convs(1) list.simps(3) runs_step)
    moreover have "runs ?step
        \<lparr>frames = \<lparr>node = rt_root u, parent = int v, pos = off ! rt_root u\<rparr> # ?frame # rest,
         labels = L, reg = R\<rparr>
        \<lparr>frames = ?frame # rest, labels = fst (label_tree intern colored colors u (L, R)),
         reg = snd (label_tree intern colored colors u (L, R))\<rparr>"
      using RNode.IH [of u "int v"] Cons.prems(1) sub off(2) by simp
    moreover have "runs ?step
        \<lparr>frames = ?frame # rest, labels = fst (label_tree intern colored colors u (L, R)),
         reg = snd (label_tree intern colored colors u (L, R))\<rparr>
        (?step \<lparr>frames = \<lparr>node = v, parent = par, pos = ?stop\<rparr> # rest,
         labels = fst (fold (label_tree intern colored colors) (u # us) (L, R)),
         reg = snd (fold (label_tree intern colored colors) (u # us) (L, R))\<rparr>)"
      using Cons.IH [of "Suc ?q" "fst (label_tree intern colored colors u (L, R))"
          "snd (label_tree intern colored colors u (L, R))"] Cons.prems(1) u(2) lt by simp
    ultimately show ?case using runs_trans by blast
  qed
  obtain L1 R1 where f: "fold (label_tree intern colored colors) ts (L, R) = (L1, R1)" by fastforce
  have "skip_parent nb par ?stop ?stop = ?stop" by (subst skip_parent.simps) simp
  then have "?step \<lparr>frames = \<lparr>node = v, parent = par, pos = ?stop\<rparr> # rest, labels = L1, reg = R1\<rparr> =
      \<lparr>frames = rest, labels = fst (label_tree intern colored colors (RNode v ts) (L, R)),
       reg = snd (label_tree intern colored colors (RNode v ts) (L, R))\<rparr>"
    using f all [symmetric] by (simp add: encode_step_def Let_def comp_def split: prod.split)
  moreover have "map rt_root ts = todo nb par (off ! v) ?stop"
    using all by (simp add: todo_def nbrs_def)
  ultimately show ?case using children [of ts "off ! v" L R] off f by simp
qed

section \<open>The labels classify the subtrees\<close>

lemma rt_subtrees_root: "u \<in> set (rt_subtrees t) \<Longrightarrow> rt_root u \<in> set (rt_nodes t)"
  by (induction t) fastforce

lemma rt_subtrees_self [simp]: "t \<in> set (rt_subtrees t)"
  by (cases t) simp

context hash_cons
begin

text \<open>What labelling the subtrees \<open>ts\<close> from \<open>(L, r)\<close> has achieved in \<open>(L', r')\<close>.\<close>

definition labelled ::
  "(nat \<Rightarrow> string option) \<Rightarrow> rtree list \<Rightarrow> int list \<times> 'r \<Rightarrow> int list \<times> 'r \<Rightarrow> bool" where
  "labelled col ts st st' \<longleftrightarrow>
     ok (snd st') \<and> length (fst st') = length (fst st) \<and>
     (\<forall>l u. meaning (snd st) l = Some u \<longrightarrow> meaning (snd st') l = Some u) \<and>
     (\<forall>v. v \<notin> set (concat (map rt_nodes ts)) \<longrightarrow> fst st' ! v = fst st ! v) \<and>
     (\<forall>u \<in> set (concat (map rt_subtrees ts)).
        meaning (snd st') (fst st' ! rt_root u) = Some (iso_class col u))"


lemma labelled_append:
  assumes "labelled col ts st st1" "labelled col us st1 st2"
    and "set (concat (map rt_nodes ts)) \<inter> set (concat (map rt_nodes us)) = {}"
  shows "labelled col (ts @ us) st st2"
proof -
  have "fst st2 ! rt_root u = fst st1 ! rt_root u" if "t \<in> set ts" "u \<in> set (rt_subtrees t)" for t u
  proof -
    have "rt_root u \<in> set (concat (map rt_nodes ts))" using that rt_subtrees_root by fastforce
    then have "rt_root u \<notin> set (concat (map rt_nodes us))" using assms(3) by blast
    then show ?thesis using assms(2) unfolding labelled_def by blast
  qed
  then show ?thesis using assms(1,2) unfolding labelled_def by fastforce
qed

lemma label_tree_labelled:
  assumes "ok r" "distinct (rt_nodes t)" "\<forall>v \<in> set (rt_nodes t). v < length L"
  shows "labelled (col_of colored colors) [t] (L, r) (label_tree put colored colors t (L, r))"
  using assms
proof (induction t arbitrary: L r)
  case (RNode v ts)
  let ?col = "col_of colored colors" and ?lt = "label_tree put colored colors"
  have fold_ok: "labelled ?col us st (fold ?lt us st)"
    if "set us \<subseteq> set ts" "distinct (concat (map rt_nodes us))" "ok (snd st)" "length (fst st) = length L" for us st
    using that
  proof (induction us arbitrary: st)
    case (Cons t us)
    obtain L0 r0 where st: "st = (L0, r0)" by fastforce
    have one: "labelled ?col [t] st (?lt t st)"
      unfolding st using Cons.prems RNode.IH [of t r0 L0] RNode.prems(3) st by auto
    then have "ok (snd (?lt t st))" "length (fst (?lt t st)) = length L"
      using Cons.prems(4) by (auto simp: labelled_def)
    then have "labelled ?col us (?lt t st) (fold ?lt us (?lt t st))" using Cons by simp
    from labelled_append [OF one this] show ?case using Cons.prems(2) by auto
  qed (simp add: labelled_def)
  obtain L1 r1 where f: "fold ?lt ts (L, r) = (L1, r1)" by fastforce
  have d: "distinct (concat (map rt_nodes ts))" "v \<notin> set (concat (map rt_nodes ts))"
    using RNode.prems(2) by auto
  have sub: "labelled ?col ts (L, r) (L1, r1)"
    using fold_ok [of ts "(L, r)"] d RNode.prems(1) f by simp
  have root: "meaning r1 (L1 ! rt_root t) = Some (iso_class ?col t)" if "t \<in> set ts" for t
  proof -
    have "t \<in> set (concat (map rt_subtrees ts))" using that by simp (rule bexI [of _ t], simp_all)
    then show ?thesis using sub unfolding labelled_def by fastforce
  qed
  let ?cs = "sort (map (\<lambda>t. L1 ! rt_root t) ts)"
  have some: "\<forall>c \<in> set ?cs. meaning r1 c \<noteq> None" using root by auto
  have ok1: "ok r1" using sub by (simp add: labelled_def)
  obtain l r2 where p: "put (colored ! v) (colors ! v) ?cs r1 = (l, r2)" by fastforce
  have "mset (map (\<lambda>c. the (meaning r1 c)) ?cs) = mset (map (iso_class ?col) ts)"
    using root by (auto simp: multiset.map_comp intro!: image_mset_cong)
  then have new: "meaning r2 l = Some (iso_class ?col (RNode v ts))"
    using put_meaning [OF ok1 _ some, of "colored ! v" "colors ! v"] p by (simp add: col_of_def)
  have keep: "meaning r1 m = Some u \<Longrightarrow> meaning r2 m = Some u" for m u
    using put_keeps [of r1 m u "colored ! v" "colors ! v" ?cs] p by simp
  have ok2: "ok r2" using put_ok [OF ok1 _ some, of "colored ! v" "colors ! v"] p by simp
  have len: "length L1 = length L" using sub by (simp add: labelled_def)
  have res: "?lt (RNode v ts) (L, r) = (L1[v := l], r2)" using f p by simp
  have other: "meaning r2 (L1[v := l] ! rt_root u) = Some (iso_class ?col u)"
    if "t \<in> set ts" "u \<in> set (rt_subtrees t)" for t u
  proof -
    have "rt_root u \<noteq> v" using d(2) that rt_subtrees_root by fastforce
    moreover have "meaning r1 (L1 ! rt_root u) = Some (iso_class ?col u)"
      using sub that unfolding labelled_def by simp
    ultimately show ?thesis using keep by simp
  qed
  show ?case
    unfolding res labelled_def
    using ok2 len new other keep sub RNode.prems(3) by (auto simp: labelled_def)
qed

text \<open>Two labels agree exactly when the subtrees are isomorphic.\<close>

lemma meaning_eq_iff:
  "ok r \<Longrightarrow> meaning r l = Some u \<Longrightarrow> meaning r m = Some w \<Longrightarrow> l = m \<longleftrightarrow> u = w"
  using meaning_inj by (metis option.inject)

end

section \<open>The entry point on a tree\<close>

text \<open>The CSR arrays hold, from \<open>root\<close>, the rooted tree \<open>t\<close> on vertices below \<open>N\<close>.\<close>

definition tree_at :: "nat list \<Rightarrow> nat list \<Rightarrow> nat \<Rightarrow> nat \<Rightarrow> rtree \<Rightarrow> bool" where
  "tree_at offsets neighbors N root t \<longleftrightarrow>
     csr_ok offsets neighbors N \<and> tree_of offsets neighbors (-1) t \<and> rt_root t = root \<and>
     distinct (rt_nodes t) \<and> (\<forall>v \<in> set (rt_nodes t). v < N)"

definition colored_arr :: "nat \<Rightarrow> string option list \<Rightarrow> bool list" where
  "colored_arr N cols = map (\<lambda>v. cols ! v \<noteq> None) [0..<N]"

definition colors_arr :: "nat \<Rightarrow> string option list \<Rightarrow> string list" where
  "colors_arr N cols = map (\<lambda>v. case cols ! v of None \<Rightarrow> '''' | Some utf \<Rightarrow> utf) [0..<N]"

lemma iso_class_cong:
  "(\<And>v. v \<in> set (rt_nodes t) \<Longrightarrow> f v = g v) \<Longrightarrow> iso_class f t = iso_class g t"
proof (induction t)
  case (RNode v ts)
  then have "iso_class f t = iso_class g t" if "t \<in> set ts" for t using that by auto
  then show ?case using RNode.prems by (auto intro!: image_mset_cong)
qed

lemma rt_nodes_subtree: "u \<in> set (rt_subtrees t) \<Longrightarrow> set (rt_nodes u) \<subseteq> set (rt_nodes t)"
  by (induction t) fastforce

lemma iso_class_arr:
  assumes "\<forall>v \<in> set (rt_nodes t). v < N"
  shows "iso_class (col_of (colored_arr N cols) (colors_arr N cols)) t = iso_class (\<lambda>v. cols ! v) t"
  using assms by (intro iso_class_cong) (auto simp: col_of_def colored_arr_def colors_arr_def)

lemma computeLabels_tree:
  assumes "tree_at off nb N root t"
  shows "computeLabels h off nb (int N - 1) cols root R =
    (let (ls, R') = label_tree intern (colored_arr N cols) (colors_arr N cols) t (replicate N (-1), R)
     in Some (if h then Some ls else None, R'))"
proof -
  have "\<forall>v \<in> set (rt_nodes t). off ! v \<le> off ! Suc v"
    using assms by (auto simp: tree_at_def csr_ok_def)
  then have "runs (encode_step off nb (colored_arr N cols) (colors_arr N cols))
      \<lparr>frames = [\<lparr>node = root, parent = -1, pos = off ! root\<rparr>], labels = replicate N (-1), reg = R\<rparr>
      \<lparr>frames = [], labels = fst (label_tree intern (colored_arr N cols) (colors_arr N cols) t (replicate N (-1), R)),
        reg = snd (label_tree intern (colored_arr N cols) (colors_arr N cols) t (replicate N (-1), R))\<rparr>"
    using encode_tree_runs [of off nb "-1" t] assms by (auto simp: tree_at_def)
  then have "encode_tree off nb (colored_arr N cols) (colors_arr N cols) root (replicate N (-1)) R =
      Some (label_tree intern (colored_arr N cols) (colors_arr N cols) t (replicate N (-1), R))"
    by (simp add: encode_tree_def runs_def while_option_unfold [of _ _ "enc.make [] _ _"] enc.defs)
       (simp add: while_option_unfold)
  then show ?thesis
    by (simp add: computeLabels_def Let_def colored_arr_def colors_arr_def split: prod.split)
qed

lemma computeLabels_labelled:
  assumes "reg_ok R" "tree_at off nb N root t"
    and "computeLabels h off nb (int N - 1) cols root R = Some (out, R')"
  obtains ls where "out = (if h then Some ls else None)"
    and "reg_store.labelled (col_of (colored_arr N cols) (colors_arr N cols)) [t] (replicate N (-1), R) (ls, R')"
proof -
  obtain ls R1 where f: "label_tree intern (colored_arr N cols) (colors_arr N cols) t (replicate N (-1), R) = (ls, R1)"
    by fastforce
  have "reg_store.labelled (col_of (colored_arr N cols) (colors_arr N cols)) [t] (replicate N (-1), R) (ls, R1)"
    unfolding f [symmetric] using assms(1,2) by (intro reg_store.label_tree_labelled) (auto simp: tree_at_def)
  moreover have "R1 = R'" "out = (if h then Some ls else None)"
    using assms(3) f computeLabels_tree [OF assms(2)] by auto
  ultimately show thesis using that by blast
qed

end
