(* ===== verification/AHU_Strings.thy ===== *)
theory AHU_Strings
  imports AHU_Correct
begin

text \<open>
  The canonical strings of \<open>colored_ahu.cpp\<close>, the reachable registries and the properties of
  the entry points \<open>computeLabels\<close>, \<open>canonicalString\<close> and \<open>reset\<close>.
\<close>

section \<open>The string of a coloured tree\<close>

definition colour_name :: "string option \<Rightarrow> string" where
  "colour_name c = (case c of None \<Rightarrow> ''*'' | Some x \<Rightarrow> x)"

primrec canon :: "utree \<Rightarrow> string" where
  "canon (U c M) = ''('' @ colour_name c @ concat (sorted_list_of_multiset (image_mset canon M)) @ '')''"

text \<open>Colours without parentheses, and not the reserved \<open>*\<close>.\<close>

definition plain_colour :: "string option \<Rightarrow> bool" where
  "plain_colour c \<longleftrightarrow>
     (case c of None \<Rightarrow> True | Some x \<Rightarrow> CHR ''('' \<notin> set x \<and> CHR '')'' \<notin> set x \<and> x \<noteq> ''*'')"

primrec plain :: "utree \<Rightarrow> bool" where
  "plain (U c M) \<longleftrightarrow> plain_colour c \<and> (\<forall>b \<in># image_mset plain M. b)"

lemma name_prefix:
  assumes "P x" "\<forall>c \<in> set xs. \<not> P c" "P y" "\<forall>c \<in> set ys. \<not> P c" "xs @ x # s = ys @ y # s'"
  shows "xs = ys \<and> x # s = y # s'"
  using assms(2,4,5)
proof (induction xs arbitrary: ys)
  case Nil
  then show ?case using assms(1,3) by (cases ys) auto
next
  case (Cons a xs)
  then show ?case using assms(1,3) by (cases ys) auto
qed

text \<open>A list of strings of trees followed by a closing parenthesis parses in one way.\<close>

lemma concat_canon_inj:
  assumes "\<And>a b s s'. a \<in> A \<Longrightarrow> plain b \<Longrightarrow> canon a @ s = canon b @ s' \<Longrightarrow> a = b \<and> s = s'"
    and "set xs \<subseteq> canon ` A" "set ys \<subseteq> canon ` {b. plain b}"
    and "concat xs @ CHR '')'' # s = concat ys @ CHR '')'' # s'"
  shows "xs = ys \<and> s = s'"
  using assms(2-)
proof (induction xs arbitrary: ys)
  case Nil
  have "ys = []"
  proof (cases ys)
    case (Cons y zs)
    then obtain b where "y = canon b" using Nil.prems by auto
    then show ?thesis using Nil.prems Cons by (cases b) auto
  qed simp
  then show ?case using Nil.prems by simp
next
  case (Cons x xs)
  then obtain a where a: "a \<in> A" "x = canon a" by auto
  show ?case
  proof (cases ys)
    case Nil
    then show ?thesis using a Cons.prems by (cases a) auto
  next
    case Cons': (Cons y zs)
    then obtain b where b: "plain b" "y = canon b" using Cons.prems by auto
    have "canon a @ (concat xs @ CHR '')'' # s) = canon b @ (concat zs @ CHR '')'' # s')"
      using Cons.prems(3) Cons' a b by simp
    then have "a = b" "concat xs @ CHR '')'' # s = concat zs @ CHR '')'' # s'"
      using assms(1) [OF a(1) b(1)] by blast+
    then show ?thesis using Cons.IH [of zs] Cons.prems Cons' a b by simp
  qed
qed

lemma canon_prefix_free:
  "plain u \<Longrightarrow> plain w \<Longrightarrow> canon u @ s = canon w @ s' \<Longrightarrow> u = w \<and> s = s'"
proof (induction u arbitrary: w s s')
  case (U c M)
  obtain d N where w: "w = U d N" by (cases w)
  let ?xs = "sorted_list_of_multiset (image_mset canon M)"
    and ?ys = "sorted_list_of_multiset (image_mset canon N)"
    and ?par = "\<lambda>x. x = CHR ''('' \<or> x = CHR '')''"
  have sx: "set ?xs = canon ` set_mset M" and sy: "set ?ys = canon ` set_mset N" by simp_all
  have pM: "\<forall>a \<in># M. plain a" and pN: "\<forall>b \<in># N. plain b" using U.prems w by auto
  have head: "\<exists>x r. ?par x \<and> concat (sorted_list_of_multiset (image_mset canon K)) @ CHR '')'' # t = x # r" for K t
  proof (cases "sorted_list_of_multiset (image_mset canon K)")
    case (Cons y zs)
    then have "y \<in> canon ` set_mset K"
      by (metis list.set_intros(1) set_image_mset set_sorted_list_of_multiset)
    then obtain k where "y = canon k" by blast
    then show ?thesis using Cons by (cases k) auto
  qed simp
  have names: "\<forall>x \<in> set (colour_name e). \<not> ?par x" if "plain_colour e" for e
    using that by (auto simp: plain_colour_def colour_name_def split: option.splits)
  have "colour_name c @ concat ?xs @ CHR '')'' # s = colour_name d @ concat ?ys @ CHR '')'' # s'"
    using U.prems w by simp
  moreover from head [of M s] obtain x r where xr: "?par x" "concat ?xs @ CHR '')'' # s = x # r"
    by (elim exE conjE)
  moreover from head [of N s'] obtain y q where yq: "?par y" "concat ?ys @ CHR '')'' # s' = y # q"
    by (elim exE conjE)
  ultimately have sp: "colour_name c @ x # r = colour_name d @ y # q" by simp
  have "plain_colour c" "plain_colour d" using U.prems w by simp_all
  from name_prefix [where P = ?par, OF xr(1) names [OF this(1)] yq(1) names [OF this(2)] sp]
  have eq: "colour_name c = colour_name d"
      "concat ?xs @ CHR '')'' # s = concat ?ys @ CHR '')'' # s'"
    by (simp_all only: xr(2) yq(2))
  have "?xs = ?ys \<and> s = s'"
    using U.IH pM by (intro concat_canon_inj [OF _ _ _ eq(2), of "set_mset M"]) (auto simp: pN)
  then have img: "image_mset canon M = image_mset canon N" and "s = s'"
    by (metis mset_sorted_list_of_multiset, blast)
  have canon_eq: "a = b" if "a \<in># M" "plain b" "canon a = canon b" for a b
    using U.IH [of a b "[]" "[]"] that pM by simp
  have "inj_on canon (set_mset M)" using canon_eq pM by (auto intro: inj_onI)
  moreover have "set_mset N \<subseteq> set_mset M"
  proof
    fix b assume "b \<in># N"
    then have "canon b \<in> canon ` set_mset M" using arg_cong [OF img, of set_mset] by auto
    then obtain a where "a \<in># M" "canon a = canon b" by auto
    then show "b \<in># M" using canon_eq [of a b] pN \<open>b \<in># N\<close> by auto
  qed
  ultimately have "M = N" using img by - (rule image_mset_cancel, auto)
  moreover have "c = d"
    using eq(1) U.prems w by (auto simp: colour_name_def plain_colour_def split: option.splits)
  ultimately show ?case using w \<open>s = s'\<close> by simp
qed

lemma canon_inj: "plain u \<Longrightarrow> plain w \<Longrightarrow> canon u = canon w \<Longrightarrow> u = w"
  using canon_prefix_free [of u w "[]" "[]"] by simp

section \<open>The cache of strings\<close>

definition strs_ok :: "registry \<Rightarrow> bool" where
  "strs_ok R \<longleftrightarrow> (\<forall>l s. label_to_str R l = Some s \<longrightarrow> map_option canon (label_class R l) = Some s)"

lemma strs_okD: "strs_ok R \<Longrightarrow> label_to_str R l = Some s \<Longrightarrow> map_option canon (label_class R l) = Some s"
  by (auto simp: strs_ok_def)

lemma label_class_strings [simp]: "label_class (R\<lparr>label_to_str := f\<rparr>) l = label_class R l"
  by (simp add: label_class_def)

lemma those_map_Some: "\<forall>x \<in> set xs. f x = Some (g x) \<Longrightarrow> those (map f xs) = Some (map g xs)"
  by (induction xs) auto

text \<open>Only the cache changes, and it now covers \<open>l\<close>.\<close>

definition strings_added :: "registry \<Rightarrow> registry \<Rightarrow> bool" where
  "strings_added R R' \<longleftrightarrow> strs_ok R' \<and> (\<exists>f. R' = R\<lparr>label_to_str := f\<rparr>) \<and>
     (\<forall>m. label_to_str R m \<noteq> None \<longrightarrow> label_to_str R' m \<noteq> None)"

lemma strings_added_refl: "strs_ok R \<Longrightarrow> strings_added R R"
  by (simp add: strings_added_def) (rule exI [of _ "label_to_str R"], simp)

lemma ensure_string_spec:
  assumes "reg_ok R" "strs_ok R" "l < length (label_to_key R)" "\<forall>m<l. label_to_str R (int m) \<noteq> None"
  shows "\<exists>R'. ensure_string (int l) R = Some R' \<and> strings_added R R' \<and> label_to_str R' (int l) \<noteq> None"
proof (cases "label_to_str R (int l)")
  case None
  let ?k = "label_to_key R ! l" and ?rep = "\<lambda>c. reps (label_to_key R) ! nat c"
  have wf: "key_wf l ?k" using assms(1,3) by (rule reg_okD(3))
  have dep: "label_to_str R c = Some (canon (?rep c))" if "c \<in> set (kchildren ?k)" for c
  proof -
    have c: "0 \<le> c" "c < int l" using wf that by (auto simp: key_wf_def)
    then obtain s where "label_to_str R c = Some s" using assms(4) by (metis nat_less_iff nat_0_le option.exhaust)
    then show ?thesis using strs_okD [OF assms(2), of c s] c assms(3) by (auto simp: label_class_def)
  qed
  then have those: "those (map (label_to_str R) (kchildren ?k)) = Some (map (\<lambda>c. canon (?rep c)) (kchildren ?k))"
    by (intro those_map_Some) blast
  have cls: "label_class R (int l) = Some (key_tree (reps (label_to_key R)) ?k)"
    using assms(3) nth_reps [of "label_to_key R" l] reg_okD(3) [OF assms(1)] by (simp add: label_class_def)
  have "canon (key_tree (reps (label_to_key R)) ?k) =
      (if kcolored ?k then ''('' @ kcolor ?k else ''(*'') @ concat (sort (map (\<lambda>c. canon (?rep c)) (kchildren ?k))) @ '')''"
    using sorted_list_of_multiset_mset [of "map (\<lambda>c. canon (?rep c)) (kchildren ?k)"]
    by (simp add: key_tree_def key_col_def colour_name_def multiset.map_comp comp_def)
  then have "ensure_string (int l) R =
      Some (R\<lparr>label_to_str := (label_to_str R)(int l \<mapsto> canon (key_tree (reps (label_to_key R)) ?k))\<rparr>)"
    using None those by (simp add: ensure_string_def Let_def)
  then show ?thesis using assms(2) cls by (auto simp: strings_added_def strs_ok_def)
qed (use strings_added_refl [OF assms(2)] in \<open>simp add: ensure_string_def\<close>)

lemma ensure_strings_spec:
  assumes "reg_ok R" "strs_ok R" "n \<le> length (label_to_key R)"
  shows "\<exists>R'. fold (\<lambda>l r. Option.bind r (ensure_string (int l))) [0..<n] (Some R) = Some R' \<and>
    strings_added R R' \<and> (\<forall>m<n. label_to_str R' (int m) \<noteq> None)"
  using assms(3)
proof (induction n)
  case 0
  show ?case using strings_added_refl [OF assms(2)] by simp
next
  case (Suc n)
  then obtain R1 where R1: "fold (\<lambda>l r. Option.bind r (ensure_string (int l))) [0..<n] (Some R) = Some R1"
    "strings_added R R1" "\<forall>m<n. label_to_str R1 (int m) \<noteq> None" by auto
  then obtain f where f: "R1 = R\<lparr>label_to_str := f\<rparr>" "strs_ok R1" by (auto simp: strings_added_def)
  obtain R2 where R2: "ensure_string (int n) R1 = Some R2" "strings_added R1 R2" "label_to_str R2 (int n) \<noteq> None"
    using ensure_string_spec [of R1 n] f R1(3) Suc.prems assms(1) by auto
  then have "strings_added R R2" using R1(2) f(1) by (force simp: strings_added_def)
  moreover have "\<forall>m<Suc n. label_to_str R2 (int m) \<noteq> None"
    using R1(3) R2(2,3) by (auto simp: strings_added_def less_Suc_eq)
  ultimately show ?case using R1(1) R2(1) by simp
qed

lemma canonicalString_spec:
  assumes "reg_ok R" "strs_ok R"
  obtains R' where "strings_added R R'"
    and "canonicalString l R = Some (case label_class R l of None \<Rightarrow> '''' | Some u \<Rightarrow> canon u, R')"
proof (cases "l < 0 \<or> l \<ge> counter R")
  case True
  then have "label_class R l = None" using reg_okD(1) [OF assms(1)] by (auto simp: label_class_def)
  then have "canonicalString l R = Some (case label_class R l of None \<Rightarrow> '''' | Some u \<Rightarrow> canon u, R)"
    using True by (simp add: canonicalString_def)
  moreover have "strings_added R R" using assms(2) by (rule strings_added_refl)
  ultimately show thesis using that by blast
next
  case False
  then have l: "0 \<le> l" "nat (l + 1) \<le> length (label_to_key R)"
    using reg_okD(1) [OF assms(1)] by auto
  obtain R' where R': "fold (\<lambda>l r. Option.bind r (ensure_string (int l))) [0..<nat (l + 1)] (Some R) = Some R'"
    "strings_added R R'" "\<forall>m<nat (l + 1). label_to_str R' (int m) \<noteq> None"
    using ensure_strings_spec [OF assms l(2)] by blast
  have "nat l < nat (l + 1)" using l(1) by simp
  then have "label_to_str R' l \<noteq> None" using R'(3) [rule_format, of "nat l"] l(1) by simp
  then obtain s where s: "label_to_str R' l = Some s" by blast
  then obtain u where u: "label_class R l = Some u" "s = canon u"
    using R'(2) strs_okD [of R' l s] by (auto simp: strings_added_def)
  have "canonicalString l R = Some (s, R')"
    using False R'(1) l s by (simp add: canonicalString_def ensure_strings_up_to_def min_def)
  then show thesis using that R'(2) u by simp
qed

section \<open>Reachable registries\<close>

text \<open>The registries the entry points can produce from the static initialisation, on trees.\<close>

inductive reg_reachable :: "registry \<Rightarrow> bool" where
  start: "reg_reachable empty_registry"
| reset: "reg_reachable R \<Longrightarrow> reg_reachable (reset_registry R)"
| compute: "reg_reachable R \<Longrightarrow> tree_at off nb N root t \<Longrightarrow>
    computeLabels h off nb (int N - 1) cols root R = Some (out, R') \<Longrightarrow> reg_reachable R'"
| canonical: "reg_reachable R \<Longrightarrow> canonicalString l R = Some (s, R') \<Longrightarrow> reg_reachable R'"

lemma intern_strings [simp]: "label_to_str (snd (intern c x cs R)) = label_to_str R"
  by (cases "key_to_label R (mk_key c x cs)") (simp_all add: intern_hit intern_miss)

lemma label_tree_strings: "label_to_str (snd (label_tree intern colored colors t (L, R))) = label_to_str R"
proof (induction t arbitrary: L R)
  case (RNode v ts)
  have "label_to_str (snd (fold (label_tree intern colored colors) us (L, R))) = label_to_str R"
    if "set us \<subseteq> set ts" for us L R
    using that
  proof (induction us arbitrary: L R)
    case (Cons t us)
    then show ?case
      using RNode.IH [of t L R] by (cases "label_tree intern colored colors t (L, R)") auto
  qed simp
  from this [of ts L R] show ?case
    by (auto split: prod.split) (metis intern_strings snd_conv)
qed

lemma strs_ok_mono:
  assumes "strs_ok R" "label_to_str R' = label_to_str R"
    and "\<forall>l u. label_class R l = Some u \<longrightarrow> label_class R' l = Some u"
  shows "strs_ok R'"
proof -
  have "map_option canon (label_class R' l) = Some s" if "label_to_str R' l = Some s" for l s
    using strs_okD [OF assms(1), of l s] assms(2,3) that by auto
  then show ?thesis by (simp add: strs_ok_def)
qed

lemma reachable_ok: "reg_reachable R \<Longrightarrow> reg_ok R \<and> strs_ok R"
proof (induction rule: reg_reachable.induct)
  case start
  have "label_to_str empty_registry = Map.empty" by (simp add: empty_registry_def)
  then show ?case by (simp add: strs_ok_def)
next
  case (reset R)
  then show ?case by (simp add: strs_ok_def) (simp add: reset_registry_def)
next
  case (compute R off nb N root t h cols out R')
  obtain ls where lab: "reg_store.labelled (col_of (colored_arr N cols) (colors_arr N cols)) [t] (replicate N (-1), R) (ls, R')"
    using computeLabels_labelled [OF _ compute.hyps(2,3)] compute.IH by blast
  have "label_to_str R' = label_to_str R"
    using compute.hyps(3) computeLabels_tree [OF compute.hyps(2)]
      label_tree_strings [of "colored_arr N cols" "colors_arr N cols" t "replicate N (-1)" R]
    by (auto split: prod.splits)
  moreover have "reg_ok R'" "\<forall>l u. label_class R l = Some u \<longrightarrow> label_class R' l = Some u"
    using lab by (simp_all add: reg_store.labelled_def)
  ultimately show ?case using strs_ok_mono compute.IH by blast
next
  case (canonical R l s R')
  obtain R1 where "strings_added R R1" "canonicalString l R = Some (case label_class R l of None \<Rightarrow> '''' | Some u \<Rightarrow> canon u, R1)"
    using canonicalString_spec canonical.IH by blast
  then show ?case using canonical.hyps(2) canonical.IH by (auto simp: strings_added_def)
qed

end
