(* ===== verification/AHU_Props.thy ===== *)
theory AHU_Props
  imports AHU_Strings
begin

text \<open>
  The properties of the coloured AHU entry points (\<open>colored_ahu.cpp\<close>), each with a witness on
  the path \<open>0 - 1 - 2\<close> rooted at its centre.
\<close>

section \<open>Isomorphism of coloured rooted trees\<close>

inductive tree_iso :: "(nat \<Rightarrow> string option) \<Rightarrow> (nat \<Rightarrow> string option) \<Rightarrow> rtree \<Rightarrow> rtree \<Rightarrow> bool"
  for col col' where
  node: "col v = col' w \<Longrightarrow> mset us' = mset us \<Longrightarrow> list_all2 (tree_iso col col') ts us' \<Longrightarrow>
    tree_iso col col' (RNode v ts) (RNode w us)"

inductive_cases tree_isoE: "tree_iso col col' (RNode v ts) (RNode w us)"

lemma map_eq_list_all2:
  "list_all2 (\<lambda>x y. f x = g y) xs ys \<longleftrightarrow> map f xs = map g ys"
  by (auto simp: list_all2_conv_all_nth list_eq_iff_nth_eq)

lemma mset_map_reorder:
  "mset (map f xs) = mset (map g ys) \<Longrightarrow> \<exists>zs. mset zs = mset ys \<and> map f xs = map g zs"
proof (induction xs arbitrary: ys)
  case (Cons x xs)
  have "f x \<in> set (map g ys)" using mset_eq_setD [OF Cons.prems] by (metis list.set_intros(1) list.simps(9))
  then obtain y where y: "y \<in> set ys" "g y = f x" by auto
  have ys: "mset ys = add_mset y (mset (remove1 y ys))" using y(1) by simp
  have "image_mset g (mset ys) = add_mset (f x) (mset (map g (remove1 y ys)))"
    by (subst ys) (simp only: image_mset_add_mset y(2) mset_map)
  then have "mset (map f xs) = mset (map g (remove1 y ys))"
    using Cons.prems by (simp only: mset_map list.simps(9) mset.simps image_mset_add_mset add_mset_add_mset_same_iff)
  from Cons.IH [OF this] obtain zs where zs: "mset zs = mset (remove1 y ys)" "map f xs = map g zs" by blast
  have "mset (y # zs) = mset ys" unfolding mset.simps zs(1) by (rule ys [symmetric])
  moreover have "map f (x # xs) = map g (y # zs)" by (simp add: zs(2) y(2))
  ultimately show ?case by blast
qed simp

lemma iso_class_tree_iso: "iso_class col t = iso_class col' s \<longleftrightarrow> tree_iso col col' t s"
proof (induction t arbitrary: s)
  case (RNode v ts)
  obtain w us where s: "s = RNode w us" by (cases s)
  have all2: "list_all2 (tree_iso col col') ts us' \<longleftrightarrow> map (iso_class col) ts = map (iso_class col') us'" for us'
    unfolding map_eq_list_all2 [symmetric] by (intro list.rel_cong refl) (simp add: RNode)
  have "mset (map (iso_class col) ts) = mset (map (iso_class col') us) \<longleftrightarrow>
      (\<exists>us'. mset us' = mset us \<and> list_all2 (tree_iso col col') ts us')"
    unfolding all2 using mset_map_reorder by (metis mset_map)
  then show ?case
    unfolding s by (auto intro: tree_iso.node elim: tree_isoE)
qed

section \<open>The properties\<close>

text \<open>The tree of the witnesses: the path rooted at its centre.\<close>

abbreviation path_tree :: rtree where
  "path_tree \<equiv> RNode 1 [RNode 0 [], RNode 2 []]"

lemma path_tree_at: "tree_at [0, 1, 3, 4] [1, 0, 2, 1] 3 1 path_tree"
  by code_simp

lemma computeLabels_Some:
  assumes "tree_at off nb N root t"
  shows "\<exists>ls R'. computeLabels True off nb (int N - 1) cols root R = Some (Some ls, R')"
  unfolding computeLabels_tree [OF assms] by (simp split: prod.split)

text \<open>
  C5. \<open>computeLabels\<close> returns on every tree: the explicit stack of \<open>encode_tree\<close> empties,
  with one label per vertex of the array.
\<close>

theorem computeLabels_terminates:
  assumes "tree_at offsets neighbors N root t"
  shows "\<exists>ls R'. computeLabels True offsets neighbors (int N - 1) cols root R = Some (Some ls, R')"
  using assms by (rule computeLabels_Some)

lemma computeLabels_terminates_witness:
  "\<exists>ls R'. computeLabels True [0, 1, 3, 4] [1, 0, 2, 1] (int 3 - 1) [Some ''a'', None, Some ''b''] 1
     empty_registry = Some (Some ls, R')"
  by (rule computeLabels_terminates) (rule path_tree_at)

lemma computeLabels_label:
  assumes "reg_ok R" "tree_at off nb N root t"
    and "computeLabels True off nb (int N - 1) cols root R = Some (Some ls, R')" "u \<in> set (rt_subtrees t)"
  shows "label_class R' (ls ! rt_root u) = Some (iso_class (\<lambda>v. cols ! v) u)"
proof -
  obtain ls' where "Some ls = (if True then Some ls' else None)"
    "reg_store.labelled (col_of (colored_arr N cols) (colors_arr N cols)) [t] (replicate N (-1), R) (ls', R')"
    by (rule computeLabels_labelled [OF assms(1-3)])
  then have "label_class R' (ls ! rt_root u) = Some (iso_class (col_of (colored_arr N cols) (colors_arr N cols)) u)"
    using assms(4) by (simp add: reg_store.labelled_def)
  moreover have "\<forall>v \<in> set (rt_nodes u). v < N"
    using assms(2) rt_nodes_subtree [OF assms(4)] by (auto simp: tree_at_def)
  ultimately show ?thesis by (simp add: iso_class_arr)
qed

lemma computeLabels_keeps:
  assumes "reg_ok R" "tree_at off nb N root t"
    and "computeLabels h off nb (int N - 1) cols root R = Some (out, R')"
  shows "reg_ok R'" "label_class R l = Some u \<Longrightarrow> label_class R' l = Some u"
  using computeLabels_labelled [OF assms] by (metis reg_store.labelled_def snd_conv)+

text \<open>
  C6. Labels are a complete invariant: after any sequence of calls, the labels two calls of
  \<open>computeLabels\<close> give to a subtree of the first tree and a subtree of the second agree
  exactly when there is a colour-preserving isomorphism of rooted trees between them.
\<close>

theorem computeLabels_isomorphism:
  assumes "reg_reachable R" "tree_at offsets neighbors N root t" "tree_at offsets' neighbors' N' root' t'"
    and "computeLabels True offsets neighbors (int N - 1) cols root R = Some (Some ls, R1)"
    and "computeLabels True offsets' neighbors' (int N' - 1) cols' root' R1 = Some (Some ls', R2)"
    and "u \<in> set (rt_subtrees t)" "u' \<in> set (rt_subtrees t')"
  shows "ls ! rt_root u = ls' ! rt_root u' \<longleftrightarrow> tree_iso (\<lambda>v. cols ! v) (\<lambda>v. cols' ! v) u u'"
proof -
  have ok: "reg_ok R" using assms(1) reachable_ok by blast
  note keeps = computeLabels_keeps [OF ok assms(2,4)]
  have "label_class R2 (ls ! rt_root u) = Some (iso_class (\<lambda>v. cols ! v) u)"
    using computeLabels_keeps(2) [OF keeps(1) assms(3,5)] computeLabels_label [OF ok assms(2,4,6)] by simp
  moreover have "label_class R2 (ls' ! rt_root u') = Some (iso_class (\<lambda>v. cols' ! v) u')"
    by (rule computeLabels_label [OF keeps(1) assms(3,5,7)])
  moreover have "reg_ok R2" by (rule computeLabels_keeps(1) [OF keeps(1) assms(3,5)])
  ultimately show ?thesis
    unfolding iso_class_tree_iso [symmetric] by (intro reg_store.meaning_eq_iff)
qed

lemma computeLabels_isomorphism_witness:
  "\<exists>ls R1 ls' R2.
     computeLabels True [0, 1, 3, 4] [1, 0, 2, 1] (int 3 - 1) [Some ''a'', None, Some ''b''] 1 empty_registry = Some (Some ls, R1) \<and>
     computeLabels True [0, 1, 3, 4] [1, 0, 2, 1] (int 3 - 1) [Some ''b'', None, Some ''a''] 1 R1 = Some (Some ls', R2) \<and>
     (ls ! 0 = ls' ! 2 \<longleftrightarrow>
       tree_iso (\<lambda>v. [Some ''a'', None, Some ''b''] ! v) (\<lambda>v. [Some ''b'', None, Some ''a''] ! v) (RNode 0 []) (RNode 2 []))"
proof -
  obtain ls R1 where 1: "computeLabels True [0, 1, 3, 4] [1, 0, 2, 1] (int 3 - 1)
      [Some ''a'', None, Some ''b''] 1 empty_registry = Some (Some ls, R1)"
    using computeLabels_Some [OF path_tree_at] by blast
  moreover obtain ls' R2 where 2: "computeLabels True [0, 1, 3, 4] [1, 0, 2, 1] (int 3 - 1)
      [Some ''b'', None, Some ''a''] 1 R1 = Some (Some ls', R2)"
    using computeLabels_Some [OF path_tree_at] by blast
  moreover have "ls ! rt_root (RNode 0 []) = ls' ! rt_root (RNode 2 []) \<longleftrightarrow>
      tree_iso (\<lambda>v. [Some ''a'', None, Some ''b''] ! v) (\<lambda>v. [Some ''b'', None, Some ''a''] ! v) (RNode 0 []) (RNode 2 [])"
    by (rule computeLabels_isomorphism [OF reg_reachable.start path_tree_at path_tree_at 1 2]) simp_all
  ultimately show ?thesis by (metis rt_root.simps)
qed

lemma rt_nodes_root: "v \<in> set (rt_nodes t) \<Longrightarrow> \<exists>u \<in> set (rt_subtrees t). rt_root u = v"
  by (induction t) fastforce

text \<open>
  A vertex of the array gets a label of the registry when the root reaches it, and keeps
  the \<open>-1\<close> it starts with otherwise.
\<close>

lemma computeLabels_unreachable:
  assumes "reg_reachable R" "tree_at offsets neighbors N root t" "v < N"
    and "computeLabels True offsets neighbors (int N - 1) cols root R = Some (Some ls, R')"
  shows "if v \<in> set (rt_nodes t) then 0 \<le> ls ! v \<and> ls ! v < counter R' else ls ! v = -1"
proof -
  have ok: "reg_ok R" using assms(1) reachable_ok by blast
  obtain ls' where "Some ls = (if True then Some ls' else None)"
    and lab: "reg_store.labelled (col_of (colored_arr N cols) (colors_arr N cols)) [t] (replicate N (-1), R) (ls', R')"
    by (rule computeLabels_labelled [OF ok assms(2,4)])
  then have [simp]: "ls' = ls" by simp
  have "\<exists>u \<in> set (rt_subtrees t). rt_root u = v" if "v \<in> set (rt_nodes t)"
    using that by (rule rt_nodes_root)
  moreover have "0 \<le> ls ! rt_root u \<and> ls ! rt_root u < counter R'" if "u \<in> set (rt_subtrees t)" for u
    using computeLabels_label [OF ok assms(2,4) that] reg_okD(1) [OF computeLabels_keeps(1) [OF ok assms(2,4)]]
    by (auto simp: label_class_def split: if_splits)
  moreover have "ls ! v = -1" if "v \<notin> set (rt_nodes t)"
    using lab that assms(3) by (simp add: reg_store.labelled_def)
  ultimately show ?thesis by metis
qed

lemma computeLabels_unreachable_witness:
  "\<exists>ls R'. computeLabels True [0, 1, 2, 2] [1, 0] (int 3 - 1) [None, None, None] 0 empty_registry = Some (Some ls, R') \<and>
     ls ! 2 = -1"
proof -
  have t: "tree_at [0, 1, 2, 2] [1, 0] 3 0 (RNode 0 [RNode 1 []])" by code_simp
  obtain ls R' where 1: "computeLabels True [0, 1, 2, 2] [1, 0] (int 3 - 1) [None, None, None] 0 empty_registry = Some (Some ls, R')"
    using computeLabels_Some [OF t] by blast
  have "if 2 \<in> set (rt_nodes (RNode 0 [RNode 1 []])) then 0 \<le> ls ! 2 \<and> ls ! 2 < counter R' else ls ! 2 = -1"
    by (rule computeLabels_unreachable [OF reg_reachable.start t _ 1]) simp
  then show ?thesis using 1 by simp
qed

text \<open>
  C7. \<open>canonicalString\<close> never throws: \<open>unordered_map::at\<close> finds every string it asks for, the
  result is the canonical string of the tree the label stands for, and the empty string for an
  integer that is no label.
\<close>

theorem canonicalString_correct:
  assumes "reg_reachable R"
  shows "map_option fst (canonicalString l R) =
    Some (case label_class R l of None \<Rightarrow> '''' | Some u \<Rightarrow> canon u)"
proof -
  obtain R' where "canonicalString l R = Some (case label_class R l of None \<Rightarrow> '''' | Some u \<Rightarrow> canon u, R')"
    using canonicalString_spec reachable_ok [OF assms] by blast
  then show ?thesis by simp
qed

lemma canonicalString_correct_witness:
  "map_option fst (canonicalString 0 empty_registry) = Some ''''"
  using canonicalString_correct [OF reg_reachable.start, of 0]
  by (simp add: label_class_def empty_registry_def)

lemma reps_plain:
  "\<lbrakk>\<forall>i < length ks. key_wf i (ks ! i); \<forall>k \<in> set ks. plain_colour (key_col k)\<rbrakk> \<Longrightarrow> \<forall>u \<in> set (reps ks). plain u"
proof (induction ks rule: rev_induct)
  case (snoc k ks)
  have "\<forall>i < length ks. key_wf i (ks ! i)"
    using snoc.prems(1) by (metis length_append_singleton less_Suc_eq nth_append)
  then have ih: "\<forall>u \<in> set (reps ks). plain u" using snoc by simp
  have "key_wf (length ks) k" using snoc.prems(1) by (metis length_append_singleton lessI nth_append_length)
  then have "reps ks ! nat c \<in> set (reps ks)" if "c \<in> set (kchildren k)" for c
    using that by (intro nth_mem) (auto simp: key_wf_def nat_less_iff)
  then show ?case using ih snoc.prems(2) by (auto simp: key_tree_def)
qed simp

text \<open>
  C8. Canonical strings identify labels: when no colour interned so far contains a parenthesis
  or is the reserved \<open>*\<close>, two labels with the same canonical string are the same label.
\<close>

theorem canonicalString_injective:
  assumes "reg_reachable R" "\<forall>k \<in> set (label_to_key R). plain_colour (key_col k)"
    and "0 \<le> l" "l < counter R" "0 \<le> m" "m < counter R"
    and "map_option fst (canonicalString l R) = map_option fst (canonicalString m R)"
  shows "l = m"
proof -
  have ok: "reg_ok R" "strs_ok R" using reachable_ok [OF assms(1)] by blast+
  have "\<exists>u. label_class R x = Some u \<and> plain u" if "0 \<le> x" "x < counter R" for x
    using that reg_okD(1) [OF ok(1)] reps_plain [OF _ assms(2)] reg_okD(3) [OF ok(1)]
    by (auto simp: label_class_def nat_less_iff)
  then obtain u w where uw: "label_class R l = Some u" "plain u" "label_class R m = Some w" "plain w"
    using assms(3-6) by blast
  have "map_option fst (canonicalString l R) = Some (canon u)" "map_option fst (canonicalString m R) = Some (canon w)"
    using canonicalString_spec [OF ok, of l] canonicalString_spec [OF ok, of m] uw by fastforce+
  then show ?thesis using assms(7) canon_inj uw label_class_inj [OF ok(1)] by auto
qed

abbreviation path_registry :: registry where
  "path_registry \<equiv> snd (the (computeLabels True [0, 1, 3, 4] [1, 0, 2, 1] (int 3 - 1)
     [Some ''a'', None, Some ''b''] 1 empty_registry))"

lemma path_registry_reachable: "reg_reachable path_registry"
proof -
  obtain ls R where c: "computeLabels True [0, 1, 3, 4] [1, 0, 2, 1] (int 3 - 1)
      [Some ''a'', None, Some ''b''] 1 empty_registry = Some (Some ls, R)"
    using computeLabels_Some [OF path_tree_at] by blast
  then show ?thesis using reg_reachable.compute [OF reg_reachable.start path_tree_at c] by simp
qed

lemma canonicalString_injective_witness: "counter path_registry = 3 \<and> (2::int) = 2"
proof
  show c: "counter path_registry = 3" by code_simp
  have "\<forall>k \<in> set (label_to_key path_registry). plain_colour (key_col k)" by code_simp
  from canonicalString_injective [OF path_registry_reachable this, of 2 2] show "(2::int) = 2"
    unfolding c by simp
qed

text \<open>
  A colour with parentheses breaks this: after labelling the edge \<open>a - b\<close> and then a single
  vertex coloured \<open>a(b)\<close>, two different labels have the canonical string \<open>(a(b))\<close>.
\<close>

abbreviation edge_labels :: "(int list option \<times> registry) option" where
  "edge_labels \<equiv> computeLabels True [0, 1, 2] [1, 0] (int 2 - 1) [Some ''a'', Some ''b''] 0 empty_registry"

abbreviation vertex_labels :: "(int list option \<times> registry) option" where
  "vertex_labels \<equiv> computeLabels True [0, 0] [] (int 1 - 1) [Some ''a(b)''] 0 (snd (the edge_labels))"

lemma canonicalString_collision:
  "\<exists>R. reg_reachable R \<and> map_option fst edge_labels = Some (Some [1, 0]) \<and>
     map_option fst vertex_labels = Some (Some [2]) \<and> R = snd (the vertex_labels) \<and>
     map_option fst (canonicalString 1 R) = Some ''(a(b))'' \<and>
     map_option fst (canonicalString 2 R) = Some ''(a(b))''"
proof -
  have t: "tree_at [0, 1, 2] [1, 0] 2 0 (RNode 0 [RNode 1 []])" by code_simp
  have t': "tree_at [0, 0] [] 1 0 (RNode 0 [])" by code_simp
  obtain ls R1 where 1: "edge_labels = Some (Some ls, R1)" using computeLabels_Some [OF t] by blast
  obtain ls' R2 where 2: "vertex_labels = Some (Some ls', R2)" using computeLabels_Some [OF t'] by blast
  have "reg_reachable (snd (the edge_labels))"
    using reg_reachable.compute [OF reg_reachable.start t 1] 1 by simp
  from reg_reachable.compute [OF this t' 2] have "reg_reachable (snd (the vertex_labels))" using 2 by simp
  moreover have "map_option fst edge_labels = Some (Some [1, 0])" by code_simp
  moreover have "map_option fst vertex_labels = Some (Some [2])" by code_simp
  moreover have "map_option fst (canonicalString 1 (snd (the vertex_labels))) = Some ''(a(b))''" by code_simp
  moreover have "map_option fst (canonicalString 2 (snd (the vertex_labels))) = Some ''(a(b))''" by code_simp
  ultimately show ?thesis by blast
qed

end
