(* ===== verification/Cms_Shim.thy ===== *)
theory Cms_Shim
  imports Orbit_Prelude "HOL-Library.Word"
begin

text \<open>
  The CryptoMiniSat binding: \<open>src/src/main/cpp/cryptominisat_jni.cpp\<close>.

  \<open>CMSat::SATSolver\<close> is not in the repository (its submodule is empty). It is a black box
  here: the solver object is the list of the calls it has received, and every answer it gives
  is a function of that list, a field of the parameter \<open>cms_api\<close>. \<open>jint\<close> and \<open>uint32_t\<close>
  are \<open>32 word\<close>; a literal of the solver is \<open>Lit var sign\<close>, \<open>sign\<close> for a negated one.
\<close>

datatype clit = Lit (lit_var: "32 word") (lit_sign: bool)

datatype lbool = l_True | l_False | l_Undef

datatype cms_call =
  New_vars "32 word"
| Add_clause "clit list"
| Add_xor_clause "32 word list" bool
| Set_max_time "64 word"  \<comment> \<open>milliseconds; the code divides by 1000.0\<close>
| Solve "clit list"
| Simplify
| Backbone_simpl "64 word"

record cms_api =
  nVars :: "cms_call list \<Rightarrow> 32 word"
  solve_result :: "cms_call list \<Rightarrow> lbool"
  backbone_result :: "cms_call list \<Rightarrow> bool \<times> bool"  \<comment> \<open>returned value, \<open>finished\<close>\<close>
  get_model :: "cms_call list \<Rightarrow> lbool list"
  recovered_xors :: "cms_call list \<Rightarrow> nat"

record cms =
  calls :: "cms_call list"  \<comment> \<open>the \<open>SATSolver\<close>\<close>
  currentClause :: "clit list"
  pendingAssumptions :: "clit list"

section \<open>The configuration\<close>

record solver_conf =
  doFindXors :: bool
  autodisable :: bool
  max_matrix_rows :: nat
  max_matrix_columns :: nat
  doMatrixFind :: bool
  max_num_matrices :: nat
  allow_elim_xor_vars :: bool
  simplify_at_startup :: bool
  full_simplify_at_startup :: bool

text \<open>The defaults of \<open>SolverConf\<close>, the library's, are the argument.\<close>

definition aggressiveGaussConf :: "solver_conf \<Rightarrow> solver_conf" where
  "aggressiveGaussConf conf = conf\<lparr>doFindXors := True, autodisable := False,
     max_matrix_rows := 150000, max_matrix_columns := 10000000, doMatrixFind := True,
     max_num_matrices := 10, allow_elim_xor_vars := True,
     simplify_at_startup := True, full_simplify_at_startup := True\<rparr>"

section \<open>Operations\<close>

definition abs_int :: "32 word \<Rightarrow> 32 word" where
  "abs_int x = (if x <s 0 then - x else x)"

definition toLit :: "32 word \<Rightarrow> clit" where
  "toLit dimacsLit = Lit (abs_int dimacsLit - 1) (dimacsLit <s 0)"

definition record_call :: "cms_call \<Rightarrow> cms \<Rightarrow> cms" where
  "record_call c h = h\<lparr>calls := calls h @ [c]\<rparr>"

definition ensureVar :: "cms_api \<Rightarrow> 32 word \<Rightarrow> cms \<Rightarrow> cms" where
  "ensureVar api var0 h =
     (if var0 \<ge> nVars api (calls h) then record_call (New_vars (var0 + 1 - nVars api (calls h))) h else h)"

definition cms_nativeInit :: cms where
  "cms_nativeInit = \<lparr>calls = [], currentClause = [], pendingAssumptions = []\<rparr>"

definition cms_nativeAdd :: "cms_api \<Rightarrow> 32 word \<Rightarrow> cms \<Rightarrow> cms" where
  "cms_nativeAdd api lit h =
     (if lit = 0 then (record_call (Add_clause (currentClause h)) h)\<lparr>currentClause := []\<rparr>
      else let h = ensureVar api (abs_int lit - 1) h
           in h\<lparr>currentClause := currentClause h @ [toLit lit]\<rparr>)"

definition cms_nativeAddXorClause :: "cms_api \<Rightarrow> 32 word list \<Rightarrow> bool \<Rightarrow> cms \<Rightarrow> cms" where
  "cms_nativeAddXorClause api vars rhs h =
     (let (h, cmsVars) =
        fold (\<lambda>e (h, cmsVars). (ensureVar api (e - 1) h, cmsVars @ [e - 1])) vars (h, [])
      in record_call (Add_xor_clause cmsVars rhs) h)"

definition cms_nativeAssume :: "cms_api \<Rightarrow> 32 word \<Rightarrow> cms \<Rightarrow> cms" where
  "cms_nativeAssume api lit h =
     (let h = ensureVar api (abs_int lit - 1) h
      in h\<lparr>pendingAssumptions := pendingAssumptions h @ [toLit lit]\<rparr>)"

definition result_code :: "lbool \<Rightarrow> int" where
  "result_code r = (if r = l_True then 10 else if r = l_False then 20 else 0)"

definition set_timeout :: "64 word \<Rightarrow> cms \<Rightarrow> cms" where
  "set_timeout timeoutMs h = (if 0 <s timeoutMs then record_call (Set_max_time timeoutMs) h else h)"

definition cms_nativeSolve :: "cms_api \<Rightarrow> 64 word \<Rightarrow> cms \<Rightarrow> int \<times> cms" where
  "cms_nativeSolve api timeoutMs h =
     (let h = set_timeout timeoutMs h;
          h = record_call (Solve (pendingAssumptions h)) h;
          result = solve_result api (calls h)
      in (result_code result, h\<lparr>pendingAssumptions := []\<rparr>))"

definition cms_nativeSimplify :: "cms_api \<Rightarrow> 64 word \<Rightarrow> cms \<Rightarrow> int \<times> cms" where
  "cms_nativeSimplify api timeoutMs h =
     (let h = record_call Simplify (set_timeout timeoutMs h)
      in (result_code (solve_result api (calls h)), h))"

definition cms_nativeBackboneSimplify :: "cms_api \<Rightarrow> 64 word \<Rightarrow> cms \<Rightarrow> int \<times> cms" where
  "cms_nativeBackboneSimplify api maxConfl h =
     (let h = record_call (Backbone_simpl maxConfl) h;
          (ok, finished) = backbone_result api (calls h)
      in ((if ok then 1 else 0) + (if finished then 2 else 0), h))"

definition cms_nativeRecoveredXorCount :: "cms_api \<Rightarrow> cms \<Rightarrow> nat" where
  "cms_nativeRecoveredXorCount api h = recovered_xors api (calls h)"

definition cms_nativeVal :: "cms_api \<Rightarrow> 32 word \<Rightarrow> cms \<Rightarrow> 32 word" where
  "cms_nativeVal api lit h =
     (let var0 = abs_int lit - 1; model = get_model api (calls h) in
      if unat var0 \<ge> length model then 0
      else let v = model ! unat var0 in
        if v = l_Undef then 0
        else if (v = l_True) = (0 <s lit) then lit else - lit)"

section \<open>The contract\<close>

text \<open>
  What the binding relies on: \<open>new_vars (k)\<close> adds \<open>k\<close> variables and no call removes one.
\<close>

definition api_ok :: "cms_api \<Rightarrow> bool" where
  "api_ok api \<longleftrightarrow> nVars api [] = 0 \<and>
     (\<forall>cs k. uint (nVars api cs) + uint k < 2 ^ 32 \<longrightarrow> nVars api (cs @ [New_vars k]) = nVars api cs + k) \<and>
     (\<forall>cs c. (\<forall>k. c \<noteq> New_vars k) \<longrightarrow> nVars api cs \<le> nVars api (cs @ [c]))"

datatype cms_op = Op_add "32 word" | Op_xor "32 word list" bool | Op_assume "32 word"
  | Op_solve "64 word" | Op_simplify "64 word" | Op_backbone "64 word"

primrec run_op :: "cms_api \<Rightarrow> cms_op \<Rightarrow> cms \<Rightarrow> cms" where
  "run_op api (Op_add l) h = cms_nativeAdd api l h"
| "run_op api (Op_xor vs rhs) h = cms_nativeAddXorClause api vs rhs h"
| "run_op api (Op_assume l) h = cms_nativeAssume api l h"
| "run_op api (Op_solve t) h = snd (cms_nativeSolve api t h)"
| "run_op api (Op_simplify t) h = snd (cms_nativeSimplify api t h)"
| "run_op api (Op_backbone m) h = snd (cms_nativeBackboneSimplify api m h)"

text \<open>
  Arguments the Kotlin side passes: literals are not \<open>Integer.MIN_VALUE\<close>, assumptions are not
  zero, and \<open>XOR\<close> variables are positive.
\<close>

definition lit_ok :: "32 word \<Rightarrow> bool" where
  "lit_ok l \<longleftrightarrow> l \<noteq> 0 \<and> l \<noteq> 0x80000000"

primrec op_ok :: "cms_op \<Rightarrow> bool" where
  "op_ok (Op_add l) \<longleftrightarrow> l = 0 \<or> lit_ok l"
| "op_ok (Op_xor vs rhs) \<longleftrightarrow> (\<forall>v \<in> set vs. 0 <s v)"
| "op_ok (Op_assume l) \<longleftrightarrow> lit_ok l"
| "op_ok (Op_solve t) \<longleftrightarrow> True"
| "op_ok (Op_simplify t) \<longleftrightarrow> True"
| "op_ok (Op_backbone m) \<longleftrightarrow> True"

primrec call_vars :: "cms_call \<Rightarrow> 32 word list" where
  "call_vars (New_vars k) = []"
| "call_vars (Add_clause c) = map lit_var c"
| "call_vars (Add_xor_clause vs rhs) = vs"
| "call_vars (Set_max_time t) = []"
| "call_vars (Solve as) = map lit_var as"
| "call_vars Simplify = []"
| "call_vars (Backbone_simpl m) = []"

text \<open>Every call so far only mentioned variables that existed when it was made.\<close>

definition calls_ok :: "cms_api \<Rightarrow> cms_call list \<Rightarrow> bool" where
  "calls_ok api cs \<longleftrightarrow> (\<forall>i < length cs. \<forall>v \<in> set (call_vars (cs ! i)). v < nVars api (take i cs))"

text \<open>The IPASIR view of a sequence of operations: (buffer, assumptions, calls).\<close>

primrec ipasir_op :: "cms_op \<Rightarrow> 32 word list \<times> 32 word list \<times> cms_call list \<Rightarrow>
    32 word list \<times> 32 word list \<times> cms_call list" where
  "ipasir_op (Op_add l) st = (let (b, a, out) = st in
     if l = 0 then ([], a, out @ [Add_clause (map toLit b)]) else (b @ [l], a, out))"
| "ipasir_op (Op_xor vs rhs) st = (let (b, a, out) = st in (b, a, out @ [Add_xor_clause (map (\<lambda>v. v - 1) vs) rhs]))"
| "ipasir_op (Op_assume l) st = (let (b, a, out) = st in (b, a @ [l], out))"
| "ipasir_op (Op_solve t) st = (let (b, a, out) = st in (b, [], out @ [Solve (map toLit a)]))"
| "ipasir_op (Op_simplify t) st = (let (b, a, out) = st in (b, a, out @ [Simplify]))"
| "ipasir_op (Op_backbone m) st = (let (b, a, out) = st in (b, a, out @ [Backbone_simpl m]))"

definition visible :: "cms_call \<Rightarrow> bool" where
  "visible c \<longleftrightarrow> (case c of New_vars k \<Rightarrow> False | Set_max_time t \<Rightarrow> False | _ \<Rightarrow> True)"

section \<open>Variables exist before they are used\<close>

lemma uint_Suc:
  fixes v :: "32 word"
  assumes "v \<noteq> - 1"
  shows "uint (v + 1) = uint v + 1"
proof -
  have "uint v \<noteq> uint (- 1 :: 32 word)" using assms by (simp only: word_uint_eq_iff not_False_eq_True)
  moreover have "uint (- 1 :: 32 word) = 2 ^ 32 - 1"
    by (simp add: unsigned_minus_1_eq_mask mask_eq_exp_minus_1)
  ultimately have "uint v + 1 < 2 ^ 32" using uint_lt2p [of v] by simp
  then show ?thesis by (simp add: uint_word_ariths)
qed

lemma uint_grow:
  fixes v n :: "32 word"
  assumes "n \<le> v" "v \<noteq> - 1"
  shows "uint n + uint (v + 1 - n) = uint v + 1"
  using assms uint_Suc [OF assms(2)] by (simp add: uint_sub_if' word_le_def)

lemma abs_pred_not_max: "l \<noteq> 0 \<Longrightarrow> abs_int l - 1 \<noteq> -1"
  by (auto simp: abs_int_def algebra_simps)

lemma record_call_simps [simp]:
  "calls (record_call c h) = calls h @ [c]"
  "currentClause (record_call c h) = currentClause h"
  "pendingAssumptions (record_call c h) = pendingAssumptions h"
  by (simp_all add: record_call_def)

lemma calls_ok_snoc:
  "calls_ok api (cs @ [c]) \<longleftrightarrow> calls_ok api cs \<and> (\<forall>v \<in> set (call_vars c). v < nVars api cs)"
  by (auto simp: calls_ok_def less_Suc_eq nth_append)

definition cms_inv :: "cms_api \<Rightarrow> cms \<Rightarrow> bool" where
  "cms_inv api h \<longleftrightarrow> calls_ok api (calls h) \<and>
     (\<forall>l \<in> set (currentClause h) \<union> set (pendingAssumptions h). lit_var l < nVars api (calls h))"

lemma cms_inv_call:
  assumes "api_ok api" "cms_inv api h" "\<forall>v \<in> set (call_vars c). v < nVars api (calls h)" "\<forall>k. c \<noteq> New_vars k"
  shows "cms_inv api (record_call c h)"
proof -
  have "nVars api (calls h) \<le> nVars api (calls h @ [c])" using assms(1,4) by (simp add: api_ok_def)
  then show ?thesis using assms(2,3) by (auto simp: cms_inv_def calls_ok_snoc intro: less_le_trans)
qed

lemma ensureVar_buffers [simp]:
  "currentClause (ensureVar api v h) = currentClause h"
  "pendingAssumptions (ensureVar api v h) = pendingAssumptions h"
  by (simp_all add: ensureVar_def)

lemma ensureVar_spec:
  assumes "api_ok api" "v \<noteq> - 1"
  shows "v < nVars api (calls (ensureVar api v h))"
    and "nVars api (calls h) \<le> nVars api (calls (ensureVar api v h))"
    and "calls_ok api (calls h) \<Longrightarrow> calls_ok api (calls (ensureVar api v h))"
proof -
  let ?n = "nVars api (calls h)"
  have "nVars api (calls h @ [New_vars (v + 1 - ?n)]) = v + 1" if "?n \<le> v"
  proof -
    have "uint ?n + uint (v + 1 - ?n) < 2 ^ 32"
      using uint_grow [OF that assms(2)] uint_Suc [OF assms(2)] uint_lt2p [of "v + 1"] by simp
    then show ?thesis using assms(1) by (simp add: api_ok_def)
  qed
  moreover have "v < v + 1" using uint_Suc [OF assms(2)] by (simp add: word_less_def)
  ultimately show "v < nVars api (calls (ensureVar api v h))"
    and "?n \<le> nVars api (calls (ensureVar api v h))"
    by (auto simp: ensureVar_def not_le intro: order.trans less_imp_le)
  show "calls_ok api (calls h) \<Longrightarrow> calls_ok api (calls (ensureVar api v h))"
    by (simp add: ensureVar_def calls_ok_snoc)
qed

lemma ensureVar_inv:
  assumes "api_ok api" "v \<noteq> - 1" "cms_inv api h"
  shows "cms_inv api (ensureVar api v h)"
  using ensureVar_spec [OF assms(1,2), of h] assms(3) by (auto simp: cms_inv_def intro: less_le_trans)

lemma visible_ensureVar [simp]: "filter visible (calls (ensureVar api v h)) = filter visible (calls h)"
  by (simp add: ensureVar_def visible_def)

lemma set_timeout_simps [simp]:
  "currentClause (set_timeout t h) = currentClause h"
  "pendingAssumptions (set_timeout t h) = pendingAssumptions h"
  "filter visible (calls (set_timeout t h)) = filter visible (calls h)"
  by (simp_all add: set_timeout_def visible_def)

lemma set_timeout_inv: "api_ok api \<Longrightarrow> cms_inv api h \<Longrightarrow> cms_inv api (set_timeout t h)"
  by (simp add: set_timeout_def cms_inv_call)

lemma xor_loop:
  assumes "api_ok api" "\<forall>v \<in> set vars. v \<noteq> 0" "cms_inv api h"
    and "\<forall>v \<in> set acc. v < nVars api (calls h)"
  shows "\<exists>h'. fold (\<lambda>e (h, cmsVars). (ensureVar api (e - 1) h, cmsVars @ [e - 1])) vars (h, acc) =
      (h', acc @ map (\<lambda>v. v - 1) vars) \<and> cms_inv api h' \<and>
      (\<forall>v \<in> set (acc @ map (\<lambda>v. v - 1) vars). v < nVars api (calls h'))"
  using assms(2-)
proof (induction vars arbitrary: h acc)
  case (Cons e vars)
  have e: "e - 1 \<noteq> - 1" using Cons.prems(1) by (auto simp: algebra_simps)
  note spec = ensureVar_spec [OF assms(1) e, of h]
  have "\<forall>v \<in> set (acc @ [e - 1]). v < nVars api (calls (ensureVar api (e - 1) h))"
    using Cons.prems(3) spec(1,2) by (auto intro: less_le_trans)
  from Cons.IH [OF _ ensureVar_inv [OF assms(1) e Cons.prems(2)] this] Cons.prems(1)
  show ?case by simp
qed simp

lemma run_op_inv:
  assumes "api_ok api" "op_ok a" "cms_inv api h"
  shows "cms_inv api (run_op api a h)"
proof (cases a)
  case (Op_add l)
  show ?thesis
  proof (cases "l = 0")
    case True
    have "cms_inv api (record_call (Add_clause (currentClause h)) h)"
      using assms(3) by (intro cms_inv_call [OF assms(1,3)]) (auto simp: cms_inv_def)
    then show ?thesis using Op_add True by (simp add: cms_nativeAdd_def cms_inv_def)
  next
    case False
    have nm: "abs_int l - 1 \<noteq> - 1" using False by (rule abs_pred_not_max)
    show ?thesis
      using ensureVar_spec(1) [OF assms(1) nm, of h] ensureVar_inv [OF assms(1) nm assms(3)] Op_add False
      by (auto simp: cms_nativeAdd_def cms_inv_def Let_def toLit_def)
  qed
next
  case (Op_xor vs rhs)
  have "\<forall>v \<in> set vs. v \<noteq> 0" using assms(2) Op_xor by auto
  from xor_loop [OF assms(1) this assms(3), of "[]"] obtain h' where h':
    "fold (\<lambda>e (h, cmsVars). (ensureVar api (e - 1) h, cmsVars @ [e - 1])) vs (h, []) =
      (h', map (\<lambda>v. v - 1) vs)" "cms_inv api h'" "\<forall>v \<in> set (map (\<lambda>v. v - 1) vs). v < nVars api (calls h')"
    by auto
  then show ?thesis using Op_xor cms_inv_call [OF assms(1) h'(2)] by (simp add: cms_nativeAddXorClause_def)
next
  case (Op_assume l)
  have nm: "abs_int l - 1 \<noteq> - 1" using assms(2) Op_assume by (intro abs_pred_not_max) (auto simp: lit_ok_def)
  show ?thesis
    using ensureVar_spec(1) [OF assms(1) nm, of h] ensureVar_inv [OF assms(1) nm assms(3)] Op_assume
    by (auto simp: cms_nativeAssume_def cms_inv_def Let_def toLit_def)
next
  case (Op_solve t)
  have inv: "cms_inv api (set_timeout t h)" using assms by (simp add: set_timeout_inv)
  then have "cms_inv api (record_call (Solve (pendingAssumptions h)) (set_timeout t h))"
    by (intro cms_inv_call [OF assms(1) inv]) (auto simp: cms_inv_def)
  then show ?thesis using Op_solve by (auto simp: cms_nativeSolve_def cms_inv_def Let_def)
next
  case (Op_simplify t)
  then show ?thesis
    using cms_inv_call [OF assms(1) set_timeout_inv [OF assms(1,3), of t], of Simplify]
    by (simp add: cms_nativeSimplify_def Let_def)
next
  case (Op_backbone m)
  then show ?thesis
    using cms_inv_call [OF assms(1,3), of "Backbone_simpl m"]
    by (simp add: cms_nativeBackboneSimplify_def Let_def split: prod.split)
qed

lemma cms_inv_run:
  assumes "api_ok api" "\<forall>a \<in> set ops. op_ok a" "cms_inv api h"
  shows "cms_inv api (fold (run_op api) ops h)"
  using assms(2,3) by (induction ops arbitrary: h) (auto simp: run_op_inv assms(1))

lemma cms_inv_init: "cms_inv api cms_nativeInit"
  by (simp add: cms_inv_def cms_nativeInit_def calls_ok_def)

section \<open>The shim implements the IPASIR buffering\<close>

definition cms_abs :: "cms \<Rightarrow> 32 word list \<times> 32 word list \<times> cms_call list \<Rightarrow> bool" where
  "cms_abs h st \<longleftrightarrow> currentClause h = map toLit (fst st) \<and>
     pendingAssumptions h = map toLit (fst (snd st)) \<and> filter visible (calls h) = snd (snd st)"

lemma xor_loop_abs:
  "\<exists>h'. fold (\<lambda>e (h, cmsVars). (ensureVar api (e - 1) h, cmsVars @ [e - 1])) vars (h, acc) =
      (h', acc @ map (\<lambda>v. v - 1) vars) \<and> filter visible (calls h') = filter visible (calls h) \<and>
      currentClause h' = currentClause h \<and> pendingAssumptions h' = pendingAssumptions h"
proof (induction vars arbitrary: h acc)
  case (Cons e vars)
  from Cons [of "ensureVar api (e - 1) h" "acc @ [e - 1]"] show ?case by simp
qed simp

lemma run_op_abs: "cms_abs h st \<Longrightarrow> cms_abs (run_op api a h) (ipasir_op a st)"
proof (cases a)
  case (Op_xor vs rhs)
  assume "cms_abs h st"
  obtain h' where "fold (\<lambda>e (h, cmsVars). (ensureVar api (e - 1) h, cmsVars @ [e - 1])) vs (h, []) =
      (h', map (\<lambda>v. v - 1) vs)" "filter visible (calls h') = filter visible (calls h)"
      "currentClause h' = currentClause h" "pendingAssumptions h' = pendingAssumptions h"
    using xor_loop_abs [of api vs h "[]"] by auto
  then show ?thesis using Op_xor \<open>cms_abs h st\<close>
    by (auto simp: cms_nativeAddXorClause_def cms_abs_def visible_def split: prod.split)
qed (auto simp: cms_abs_def cms_nativeAdd_def cms_nativeAssume_def cms_nativeSolve_def
       cms_nativeSimplify_def cms_nativeBackboneSimplify_def Let_def visible_def split: prod.split)

lemma fold_run_op_abs: "cms_abs h st \<Longrightarrow> cms_abs (fold (run_op api) ops h) (fold ipasir_op ops st)"
  by (induction ops arbitrary: h st) (auto simp: run_op_abs)

section \<open>The properties\<close>

text \<open>A solver that only counts its variables, for the witnesses.\<close>

definition counting_api :: cms_api where
  "counting_api = \<lparr>nVars = \<lambda>cs. fold (\<lambda>c n. case c of New_vars k \<Rightarrow> if uint n + uint k < 2 ^ 32 then n + k else n | _ \<Rightarrow> n) cs 0,
     solve_result = \<lambda>_. l_Undef, backbone_result = \<lambda>_. (True, False), get_model = \<lambda>_. [],
     recovered_xors = \<lambda>_. 0\<rparr>"

lemma counting_api_ok: "api_ok counting_api"
  by (auto simp: api_ok_def counting_api_def split: cms_call.split)

text \<open>
  C9. Every literal, assumption and XOR variable the shim hands to the solver belongs to a
  variable that \<open>ensureVar\<close> created before, in every sequence of calls of the binding.
\<close>

theorem cms_calls_ok:
  assumes "api_ok api" "\<forall>a \<in> set ops. op_ok a"
  shows "calls_ok api (calls (fold (run_op api) ops cms_nativeInit))"
  using cms_inv_run [OF assms cms_inv_init] by (simp add: cms_inv_def)

lemma cms_calls_ok_witness:
  "calls_ok counting_api (calls (fold (run_op counting_api)
     [Op_add 3, Op_add (-1), Op_add 0, Op_assume (-4), Op_xor [2, 5] True, Op_solve 100] cms_nativeInit))"
  by (rule cms_calls_ok [OF counting_api_ok]) code_simp

text \<open>
  C10. Refinement of IPASIR: leaving out \<open>new_vars\<close> and \<open>set_max_time\<close>, the solver receives
  exactly the clauses between two zeros, the XOR constraints, and for each \<open>solve\<close> exactly the
  assumptions made since the previous one.
\<close>

theorem cms_refines_ipasir:
  "filter visible (calls (fold (run_op api) ops cms_nativeInit)) =
   snd (snd (fold ipasir_op ops ([], [], [])))"
  using fold_run_op_abs [of cms_nativeInit "([], [], [])" api ops]
  by (simp add: cms_abs_def cms_nativeInit_def)

text \<open>The value of a solver literal in a model.\<close>

definition model_value :: "lbool list \<Rightarrow> clit \<Rightarrow> bool option" where
  "model_value m l =
     (if unat (lit_var l) \<ge> length m then None
      else case m ! unat (lit_var l) of l_Undef \<Rightarrow> None | l_True \<Rightarrow> Some (\<not> lit_sign l) | l_False \<Rightarrow> Some (lit_sign l))"

text \<open>
  \<open>nativeVal\<close> reads the model consistently with \<open>nativeAdd\<close>: it returns the literal when
  the model makes the solver literal it was translated to true, its negation when false, and
  \<open>0\<close> when the model says nothing.
\<close>

lemma cms_nativeVal_correct:
  assumes "lit \<noteq> 0"
  shows "cms_nativeVal api lit h =
    (case model_value (get_model api (calls h)) (toLit lit) of
       None \<Rightarrow> 0 | Some b \<Rightarrow> if b then lit else - lit)"
proof -
  have "\<not> lit <s 0 \<longleftrightarrow> 0 <s lit" using assms by (auto simp: signed.not_less signed.le_less)
  then show ?thesis
    by (auto simp: cms_nativeVal_def model_value_def toLit_def Let_def split: lbool.split)
qed

lemma cms_nativeVal_correct_witness:
  "cms_nativeVal (counting_api\<lparr>get_model := \<lambda>_. [l_True, l_False]\<rparr>) (- 2) cms_nativeInit = - 2 \<and>
   model_value [l_True, l_False] (toLit (- 2)) = Some True"
proof
  show m: "model_value [l_True, l_False] (toLit (- 2)) = Some True" by code_simp
  show "cms_nativeVal (counting_api\<lparr>get_model := \<lambda>_. [l_True, l_False]\<rparr>) (- 2) cms_nativeInit = - 2"
    using cms_nativeVal_correct [of "- 2" "counting_api\<lparr>get_model := \<lambda>_. [l_True, l_False]\<rparr>" cms_nativeInit] m
    by simp
qed

end
