(* ===== verification/Cadical_Shim.thy ===== *)
theory Cadical_Shim
  imports Orbit_Prelude "HOL-Library.Word"
begin

text \<open>
  The CaDiCaL binding: \<open>src/src/main/cpp/cadical_jni.cpp\<close> over the C wrapper
  \<open>src/src/main/cpp/cadical/src/ccadical.cpp\<close>.

  \<open>CaDiCaL::Solver\<close> is a black box: the solver object is the list of the calls it has
  received, and what it answers is a parameter. A terminator callback is a function of the
  clock (milliseconds since the epoch), the only thing the shim's callback reads.
\<close>

datatype solver_call =
  Add int
| Assume int
| Constrain int
| Solve_call
| Simplify_call
| Set_option string int
| Limit string int
| Freeze int
| Melt int
| Phase int
| Unphase int
| Connect_terminator
| Disconnect_terminator
| Connect_learner
| Disconnect_learner
| Terminate
| Conclude
| Close_proof

section \<open>The wrapper\<close>

record learner_state =
  learn_function :: bool  \<comment> \<open>a callback is installed\<close>
  max_length :: int
  block :: "int list"  \<comment> \<open>the memory \<open>begin_clause .. capacity_clause\<close>\<close>
  filled :: nat  \<comment> \<open>\<open>end_clause - begin_clause\<close>\<close>
  delivered :: "int list list"  \<comment> \<open>the arguments of the calls of the callback\<close>

record wrapper =
  solver :: "solver_call list"
  term_function :: "(int \<Rightarrow> int) option"
  learner :: learner_state

definition Wrapper :: wrapper where
  "Wrapper = \<lparr>solver = [], term_function = None,
     learner = \<lparr>learn_function = False, max_length = 0, block = [], filled = 0, delivered = []\<rparr>\<rparr>"

definition wrapper_terminate :: "wrapper \<Rightarrow> int \<Rightarrow> bool" where
  "wrapper_terminate w now = (case term_function w of None \<Rightarrow> False | Some f \<Rightarrow> f now \<noteq> 0)"

definition wrapper_learning :: "int \<Rightarrow> learner_state \<Rightarrow> bool" where
  "wrapper_learning sz l = (if \<not> learn_function l then False else sz \<le> max_length l)"

text \<open>
  \<open>realloc\<close> keeps the block and leaves anything, here \<open>junk\<close>, in what it adds. Writing behind the
  block and calling a null pointer are \<open>None\<close>.
\<close>

definition wrapper_learn :: "int \<Rightarrow> int \<Rightarrow> learner_state \<Rightarrow> learner_state option" where
  "wrapper_learn junk lit l =
     (let l = (if filled l = length (block l)
               then l\<lparr>block := resize (if filled l \<noteq> 0 then 2 * filled l else 1) junk (block l)\<rparr> else l)
      in if filled l \<ge> length (block l) then None
         else
           let l = l\<lparr>block := (block l)[filled l := lit], filled := filled l + 1\<rparr>
           in if lit \<noteq> 0 then Some l
              else if \<not> learn_function l then None
              else Some (l\<lparr>delivered := delivered l @ [take (filled l) (block l)], filled := 0\<rparr>))"

fun wrapper_learn_all :: "int \<Rightarrow> int list \<Rightarrow> learner_state \<Rightarrow> learner_state option" where
  "wrapper_learn_all junk [] l = Some l"
| "wrapper_learn_all junk (lit # lits) l = Option.bind (wrapper_learn junk lit l) (wrapper_learn_all junk lits)"

text \<open>
  How the solver calls the learner (\<open>external.cpp\<close>): a learned clause is exported when the learner
  is interested in its size. \<open>i2e\<close> are the external variables of the internal ones.
\<close>

definition learner_externalize :: "int list \<Rightarrow> int \<Rightarrow> int" where
  "learner_externalize i2e lit = (let res = i2e ! nat \<bar>lit\<bar> in if lit < 0 then - res else res)"

definition export_learned_empty_clause :: "int \<Rightarrow> learner_state \<Rightarrow> learner_state option" where
  "export_learned_empty_clause junk l =
     (if wrapper_learning 0 l then wrapper_learn junk 0 l else Some l)"

definition export_learned_unit_clause :: "int \<Rightarrow> int list \<Rightarrow> int \<Rightarrow> learner_state \<Rightarrow> learner_state option" where
  "export_learned_unit_clause junk i2e ilit l =
     (if wrapper_learning 1 l
      then Option.bind (wrapper_learn junk (learner_externalize i2e ilit) l) (wrapper_learn junk 0)
      else Some l)"

definition export_learned_large_clause :: "int \<Rightarrow> int list \<Rightarrow> int list \<Rightarrow> learner_state \<Rightarrow> learner_state option" where
  "export_learned_large_clause junk i2e clause l =
     (if wrapper_learning (int (length clause)) l
      then Option.bind (wrapper_learn_all junk (map (learner_externalize i2e) clause) l) (wrapper_learn junk 0)
      else Some l)"

datatype export =
  Export_empty
| Export_unit int
| Export_large "int list"

primrec run_export :: "int \<Rightarrow> int list \<Rightarrow> export \<Rightarrow> learner_state \<Rightarrow> learner_state option" where
  "run_export junk i2e Export_empty l = export_learned_empty_clause junk l"
| "run_export junk i2e (Export_unit lit) l = export_learned_unit_clause junk i2e lit l"
| "run_export junk i2e (Export_large c) l = export_learned_large_clause junk i2e c l"

fun run_exports :: "int \<Rightarrow> int list \<Rightarrow> export list \<Rightarrow> learner_state \<Rightarrow> learner_state option" where
  "run_exports junk i2e [] l = Some l"
| "run_exports junk i2e (e # es) l = Option.bind (run_export junk i2e e l) (run_exports junk i2e es)"

definition on_solver :: "solver_call \<Rightarrow> wrapper \<Rightarrow> wrapper" where
  "on_solver c w = w\<lparr>solver := solver w @ [c]\<rparr>"

definition ccadical_add :: "int \<Rightarrow> wrapper \<Rightarrow> wrapper" where
  "ccadical_add lit w = on_solver (Add lit) w"

definition ccadical_assume :: "int \<Rightarrow> wrapper \<Rightarrow> wrapper" where
  "ccadical_assume lit w = on_solver (Assume lit) w"

definition ccadical_constrain :: "int \<Rightarrow> wrapper \<Rightarrow> wrapper" where
  "ccadical_constrain lit w = on_solver (Constrain lit) w"

text \<open>
  The answer of \<open>solve\<close> depends on the calls so far and on the callback it may poll.
\<close>

definition ccadical_solve ::
  "(solver_call list \<Rightarrow> (int \<Rightarrow> bool) \<Rightarrow> int) \<Rightarrow> wrapper \<Rightarrow> int \<times> wrapper" where
  "ccadical_solve solve_answer w =
     (solve_answer (solver w) (wrapper_terminate w), on_solver Solve_call w)"

definition ccadical_set_terminate :: "(int \<Rightarrow> int) option \<Rightarrow> wrapper \<Rightarrow> wrapper" where
  "ccadical_set_terminate f w =
     (let w = w\<lparr>term_function := f\<rparr>
      in if f \<noteq> None then on_solver Connect_terminator w else on_solver Disconnect_terminator w)"

definition ccadical_set_learn :: "int \<Rightarrow> bool \<Rightarrow> wrapper \<Rightarrow> wrapper" where
  "ccadical_set_learn max_len f w =
     (let w = w\<lparr>learner := (learner w)\<lparr>max_length := max_len, learn_function := f\<rparr>\<rparr>
      in if f then on_solver Connect_learner w else on_solver Disconnect_learner w)"

definition ccadical_set_option :: "string \<Rightarrow> int \<Rightarrow> wrapper \<Rightarrow> wrapper" where
  "ccadical_set_option name val w = on_solver (Set_option name val) w"

definition ccadical_limit :: "string \<Rightarrow> int \<Rightarrow> wrapper \<Rightarrow> wrapper" where
  "ccadical_limit name val w = on_solver (Limit name val) w"

definition ccadical_freeze :: "int \<Rightarrow> wrapper \<Rightarrow> wrapper" where
  "ccadical_freeze lit w = on_solver (Freeze lit) w"

definition ccadical_melt :: "int \<Rightarrow> wrapper \<Rightarrow> wrapper" where
  "ccadical_melt lit w = on_solver (Melt lit) w"

definition ccadical_phase :: "int \<Rightarrow> wrapper \<Rightarrow> wrapper" where
  "ccadical_phase lit w = on_solver (Phase lit) w"

definition ccadical_unphase :: "int \<Rightarrow> wrapper \<Rightarrow> wrapper" where
  "ccadical_unphase lit w = on_solver (Unphase lit) w"

section \<open>The JNI shim\<close>

record handle =
  wrapped :: wrapper
  deadlineMs :: "64 word"

definition terminateCallback :: "64 word \<Rightarrow> int \<Rightarrow> int" where
  "terminateCallback deadline now =
     (if deadline \<le>s 0 then 0 else if now \<ge> sint deadline then 1 else 0)"

text \<open>
  The callback reads \<open>Handle::deadlineMs\<close> when it is called, so the installed function follows
  every update of the field.
\<close>

definition set_deadline :: "64 word \<Rightarrow> handle \<Rightarrow> handle" where
  "set_deadline d h = h\<lparr>deadlineMs := d,
     wrapped := (wrapped h)\<lparr>term_function :=
       map_option (\<lambda>_. terminateCallback d) (term_function (wrapped h))\<rparr>\<rparr>"

definition cadical_nativeInit :: handle where
  "cadical_nativeInit =
     \<lparr>wrapped = ccadical_set_terminate (Some (terminateCallback 0)) Wrapper, deadlineMs = 0\<rparr>"

definition cadical_nativeAdd :: "int \<Rightarrow> handle \<Rightarrow> handle" where
  "cadical_nativeAdd lit h = h\<lparr>wrapped := ccadical_add lit (wrapped h)\<rparr>"

definition cadical_nativeAssume :: "int \<Rightarrow> handle \<Rightarrow> handle" where
  "cadical_nativeAssume lit h = h\<lparr>wrapped := ccadical_assume lit (wrapped h)\<rparr>"

definition cadical_nativeSolve ::
  "(solver_call list \<Rightarrow> (int \<Rightarrow> bool) \<Rightarrow> int) \<Rightarrow> 64 word \<Rightarrow> handle \<Rightarrow> int \<times> handle" where
  "cadical_nativeSolve solve_answer deadlineEpochMs h =
     (let h = set_deadline deadlineEpochMs h;
          (result, w) = ccadical_solve solve_answer (wrapped h);
          h = set_deadline 0 (h\<lparr>wrapped := w\<rparr>)
      in (result, h))"

datatype cadical_op = Cop_add int | Cop_assume int | Cop_solve "64 word"

primrec run_cadical ::
  "(solver_call list \<Rightarrow> (int \<Rightarrow> bool) \<Rightarrow> int) \<Rightarrow> cadical_op \<Rightarrow> handle \<Rightarrow> handle" where
  "run_cadical sa (Cop_add l) h = cadical_nativeAdd l h"
| "run_cadical sa (Cop_assume l) h = cadical_nativeAssume l h"
| "run_cadical sa (Cop_solve d) h = snd (cadical_nativeSolve sa d h)"

section \<open>Properties\<close>

definition idle :: "handle \<Rightarrow> bool" where
  "idle h \<longleftrightarrow> deadlineMs h = 0 \<and> term_function (wrapped h) = Some (terminateCallback 0)"

lemma idle_run: "idle h \<Longrightarrow> idle (run_cadical sa a h)"
  by (cases a) (auto simp: idle_def cadical_nativeAdd_def cadical_nativeAssume_def cadical_nativeSolve_def
    ccadical_add_def ccadical_assume_def ccadical_solve_def on_solver_def set_deadline_def Let_def)

lemma idle_fold: "idle h \<Longrightarrow> idle (fold (run_cadical sa) ops h)"
  by (induction ops arbitrary: h) (auto simp: idle_run)

text \<open>
  C11. Deadlines: after any calls, \<open>nativeSolve\<close> lets the solver run under a callback that asks
  it to stop exactly from the given deadline on, and never when the deadline is not positive;
  no deadline of an earlier call is left over.
\<close>

theorem cadical_deadline:
  "fst (cadical_nativeSolve solve_answer d (fold (run_cadical solve_answer) ops cadical_nativeInit)) =
   solve_answer (solver (wrapped (fold (run_cadical solve_answer) ops cadical_nativeInit)))
     (\<lambda>now. 0 <s d \<and> sint d \<le> now)"
proof -
  let ?h = "fold (run_cadical solve_answer) ops cadical_nativeInit"
  have "idle ?h"
    by (rule idle_fold) (simp add: idle_def cadical_nativeInit_def ccadical_set_terminate_def on_solver_def)
  moreover have "(\<lambda>now. terminateCallback d now \<noteq> 0) = (\<lambda>now. 0 <s d \<and> sint d \<le> now)"
    by (auto simp: terminateCallback_def fun_eq_iff signed.not_less [symmetric])
  ultimately show ?thesis
    by (auto simp: cadical_nativeSolve_def set_deadline_def ccadical_solve_def idle_def
        wrapper_terminate_def [abs_def] Let_def)
qed

definition learner_inv :: "learner_state \<Rightarrow> bool" where
  "learner_inv l \<longleftrightarrow> filled l \<le> length (block l)"

text \<open>One literal is written behind those in the block.\<close>

definition pushed :: "int list \<Rightarrow> learner_state \<Rightarrow> learner_state \<Rightarrow> bool" where
  "pushed c l l' \<longleftrightarrow> learner_inv l' \<and> take (filled l') (block l') = take (filled l) (block l) @ c \<and>
     learn_function l' = learn_function l \<and> max_length l' = max_length l \<and> delivered l' = delivered l"

lemma grow_pushed:
  fixes junk :: int
  assumes "learner_inv l"
  defines "l' \<equiv> (if filled l = length (block l)
               then l\<lparr>block := resize (if filled l \<noteq> 0 then 2 * filled l else 1) junk (block l)\<rparr> else l)"
  shows "filled l' < length (block l')" "take (filled l') (block l') = take (filled l) (block l)" "filled l' = filled l"
    "learn_function l' = learn_function l" "max_length l' = max_length l" "delivered l' = delivered l"
  using assms(1) by (auto simp: l'_def learner_inv_def resize_def)

lemma wrapper_learn_pushed:
  assumes "learner_inv l" "lit \<noteq> 0"
  shows "\<exists>l'. wrapper_learn junk lit l = Some l' \<and> pushed [lit] l l'"
proof -
  note G = grow_pushed [OF assms(1), of junk]
  show ?thesis
    using G assms(2) by (simp add: wrapper_learn_def Let_def pushed_def learner_inv_def take_Suc_conv_app_nth)
qed

lemma wrapper_learn_all_pushed:
  assumes "learner_inv l" "0 \<notin> set c"
  shows "\<exists>l'. wrapper_learn_all junk c l = Some l' \<and> pushed c l l'"
  using assms
proof (induction c arbitrary: l)
  case (Cons x c)
  obtain l1 where l1: "wrapper_learn junk x l = Some l1" "pushed [x] l l1" using wrapper_learn_pushed [of l x] Cons.prems by auto
  then obtain l2 where "wrapper_learn_all junk c l1 = Some l2" "pushed c l1 l2" using Cons.IH [of l1] Cons.prems by (auto simp: pushed_def)
  then show ?case using l1 by (auto simp: pushed_def)
qed (simp add: pushed_def)

lemma wrapper_learn_zero:
  assumes "learner_inv l" "learn_function l"
  shows "\<exists>l'. wrapper_learn junk 0 l = Some l' \<and> learner_inv l' \<and> filled l' = 0 \<and> learn_function l' \<and> max_length l' = max_length l \<and>
    delivered l' = delivered l @ [take (filled l) (block l) @ [0]]"
proof -
  note G = grow_pushed [OF assms(1), of junk]
  show ?thesis
    using G assms(2) by (simp add: wrapper_learn_def Let_def learner_inv_def take_Suc_conv_app_nth)
qed

text \<open>The learned clause of an export, in external literals.\<close>

fun exported :: "int list \<Rightarrow> export \<Rightarrow> int list" where
  "exported i2e Export_empty = []"
| "exported i2e (Export_unit lit) = [learner_externalize i2e lit]"
| "exported i2e (Export_large c) = map (learner_externalize i2e) c"

lemma run_export_clause:
  "run_export junk i2e e l =
     (if wrapper_learning (int (length (exported i2e e))) l
      then Option.bind (wrapper_learn_all junk (exported i2e e) l) (wrapper_learn junk 0) else Some l)"
  by (cases e) (simp_all add: export_learned_empty_clause_def export_learned_unit_clause_def export_learned_large_clause_def)

text \<open>
  C12. The learner: whatever the solver exports, the buffer never overflows and no null pointer is
  called; an installed callback receives exactly the clauses of at most \<open>max_length\<close> literals, each
  whole and in external literals with its terminating zero, in order, and without a callback
  nothing is delivered.
\<close>

theorem wrapper_learn_stream:
  assumes "filled l = 0" "\<forall>e \<in> set es. 0 \<notin> set (exported i2e e)"
  shows "\<exists>l'. run_exports junk i2e es l = Some l' \<and> filled l' = 0 \<and>
    delivered l' = delivered l @ (if learn_function l
      then map (\<lambda>c. c @ [0]) (filter (\<lambda>c. int (length c) \<le> max_length l) (map (exported i2e) es)) else [])"
  using assms
proof (induction es arbitrary: l)
  case (Cons e es)
  show ?case
  proof (cases "wrapper_learning (int (length (exported i2e e))) l")
    case True
    then have f: "learn_function l" "int (length (exported i2e e)) \<le> max_length l" by (auto simp: wrapper_learning_def split: if_splits)
    have "learner_inv l" using Cons.prems(1) by (simp add: learner_inv_def)
    then obtain l1 where l1: "wrapper_learn_all junk (exported i2e e) l = Some l1" "pushed (exported i2e e) l l1"
      using wrapper_learn_all_pushed [of l "exported i2e e" junk] Cons.prems(2) by auto
    then obtain l2 where l2: "wrapper_learn junk 0 l1 = Some l2" "filled l2 = 0" "learn_function l2" "max_length l2 = max_length l"
      "delivered l2 = delivered l @ [exported i2e e @ [0]]"
      using wrapper_learn_zero [of l1 junk] f(1) Cons.prems(1) by (auto simp: pushed_def)
    show ?thesis using Cons.IH [OF l2(2)] Cons.prems(2) True l1(1) l2 f by (simp add: run_export_clause)
  next
    case False
    then show ?thesis using Cons.IH [OF Cons.prems(1)] Cons.prems(2) by (auto simp: run_export_clause wrapper_learning_def)
  qed
qed simp

text \<open>Two clauses and a long one, for a callback that takes clauses of at most two literals, and for none.\<close>

abbreviation sample_exports :: "export list" where
  "sample_exports \<equiv> [Export_large [1, -2], Export_large [1, 2, 3], Export_unit 3, Export_empty]"

lemma wrapper_learn_stream_witness:
  "(\<exists>l. run_exports 9 [0, 4, 5, 6] sample_exports (learner (ccadical_set_learn 2 True Wrapper)) = Some l \<and>
     delivered l = [[4, -5, 0], [6, 0], [0]]) \<and>
   (\<exists>l. run_exports 9 [0, 4, 5, 6] sample_exports (learner Wrapper) = Some l \<and> delivered l = [])"
  using wrapper_learn_stream [of "learner (ccadical_set_learn 2 True Wrapper)" sample_exports "[0, 4, 5, 6]" 9]
    wrapper_learn_stream [of "learner Wrapper" sample_exports "[0, 4, 5, 6]" 9]
  by (auto simp: Wrapper_def ccadical_set_learn_def on_solver_def learner_externalize_def simp del: run_exports.simps)

end
