(* ===== verification/Nauty_Shim.thy ===== *)
theory Nauty_Shim
  imports WL1_Correct
begin

text \<open>
  The Traces binding: \<open>src/src/main/cpp/nauty_traces.cpp\<close>.

  \<open>Traces\<close> itself is nauty's C code, a parameter here: from the sparse graph, the partition
  \<open>(lab, ptn)\<close> and the options it gives the labelling, the orbits, the statistics and the
  sequence of automorphisms it hands to the callback. What the shim adds is modelled: the
  sparse graph built from the CSR arrays, the detection of the trivial partition, the options,
  the generator sink and the handling of failed Java allocations.
\<close>

record sparsegraph =
  nv :: nat
  nde :: nat
  sg_v :: "nat list"
  sg_d :: "nat list"
  sg_e :: "nat list"

record traces_options =
  getcanon :: bool
  defaultptn :: bool
  userautomproc :: bool

record traces_result =
  lab_out :: "nat list"
  orbits_out :: "nat list"
  stats_out :: "nat list"  \<comment> \<open>\<open>numnodes, numorbits, numgenerators, grpsize1, grpsize2\<close>\<close>
  reported :: "nat list list"

type_synonym traces_fun =
  "sparsegraph \<Rightarrow> nat list \<Rightarrow> nat list \<Rightarrow> traces_options \<Rightarrow> traces_result"

section \<open>The graph and the partition\<close>

definition csr_sparsegraph :: "nat list \<Rightarrow> nat list \<Rightarrow> nat \<Rightarrow> sparsegraph" where
  "csr_sparsegraph offsets neighbors n =
     \<lparr>nv = n, nde = length neighbors,
      sg_v = map (\<lambda>v. offsets ! v) [0..<n],
      sg_d = map (\<lambda>v. offsets ! Suc v - offsets ! v) [0..<n],
      sg_e = map (\<lambda>i. neighbors ! i) [0..<length neighbors]\<rparr>"

definition isTrivialPartition :: "nat list \<Rightarrow> nat list \<Rightarrow> nat \<Rightarrow> bool" where
  "isTrivialPartition lab ptn n =
     fold (\<lambda>i triv. if triv then
         (let triv = (if lab ! i \<noteq> i then False else triv)
          in if i < n - 1 \<and> ptn ! i = 0 then False else triv)
       else triv) [0..<n] True"

section \<open>The entry points\<close>

definition nativeCanon ::
  "traces_fun \<Rightarrow> bool \<Rightarrow> nat list \<Rightarrow> nat list \<Rightarrow> int \<Rightarrow> nat list \<Rightarrow> nat list \<Rightarrow> bool \<Rightarrow>
    nat list \<times> nat list \<times> nat list option" where
  "nativeCanon Traces heap_ok offsets neighbors maxVertex lab ptn j_getcanon =
     (let n = nat (maxVertex + 1);
          r = Traces (csr_sparsegraph offsets neighbors n) lab ptn
                \<lparr>getcanon = j_getcanon, defaultptn = isTrivialPartition lab ptn n, userautomproc = False\<rparr>;
          stats = stats_out r
      in (lab_out r, orbits_out r,
          if heap_ok then Some [stats ! 0, 0, stats ! 1, stats ! 2, stats ! 3, stats ! 4] else None))"

text \<open>\<open>g_generatorSink\<close>: \<open>None\<close> for \<open>nullptr\<close>.\<close>

definition collectGenerator :: "nat list \<Rightarrow> nat list list option \<Rightarrow> nat list list option" where
  "collectGenerator perm sink = (case sink of None \<Rightarrow> None | Some l \<Rightarrow> Some (l @ [perm]))"

text \<open>
  \<open>heap_ok k\<close> says whether the \<open>k\<close>-th allocation of the call succeeds; a failed one returns
  \<open>null\<close>.
\<close>

definition copy_out :: "(nat \<Rightarrow> bool) \<Rightarrow> 'a list \<Rightarrow> 'a list option" where
  "copy_out heap_ok collected =
     fold (\<lambda>i acc. case acc of None \<Rightarrow> None
       | Some out \<Rightarrow> if heap_ok (Suc i) then Some (out @ [collected ! i]) else None)
       [0..<length collected] (if heap_ok 0 then Some [] else None)"

definition nativeGenerators ::
  "traces_fun \<Rightarrow> (nat \<Rightarrow> bool) \<Rightarrow> nat list \<Rightarrow> nat list \<Rightarrow> int \<Rightarrow> nat list \<Rightarrow> nat list \<Rightarrow>
    nat list list option" where
  "nativeGenerators Traces heap_ok offsets neighbors maxVertex lab ptn =
     (let n = nat (maxVertex + 1);
          r = Traces (csr_sparsegraph offsets neighbors n) lab ptn
                \<lparr>getcanon = False, defaultptn = isTrivialPartition lab ptn n, userautomproc = True\<rparr>;
          sink = fold collectGenerator (reported r) (Some [])
      in case sink of None \<Rightarrow> None | Some collected \<Rightarrow> copy_out heap_ok collected)"

section \<open>Facts about the pieces\<close>

definition sg_nbrs :: "sparsegraph \<Rightarrow> nat \<Rightarrow> nat list" where
  "sg_nbrs g v = map (\<lambda>i. sg_e g ! i) [sg_v g ! v..<sg_v g ! v + sg_d g ! v]"

lemma sg_nbrs_csr:
  assumes "csr_ok offsets neighbors n" "v < n"
  shows "sg_nbrs (csr_sparsegraph offsets neighbors n) v = nbrs offsets neighbors v"
proof -
  have "offsets ! v \<le> offsets ! Suc v" "offsets ! Suc v \<le> length neighbors"
    using assms by (auto simp: csr_ok_def)
  then show ?thesis using assms(2) by (auto simp: sg_nbrs_def csr_sparsegraph_def nbrs_def)
qed

text \<open>The cell of a position of \<open>lab\<close>: how many cells end before it.\<close>

definition cell_at :: "nat list \<Rightarrow> nat \<Rightarrow> nat" where
  "cell_at ptn i = length (filter (\<lambda>j. ptn ! j = 0) [0..<i])"

lemma isTrivialPartition_upto:
  "fold (\<lambda>i triv. if triv then
         (let triv = (if lab ! i \<noteq> i then False else triv)
          in if i < n - 1 \<and> ptn ! i = 0 then False else triv)
       else triv) [0..<k] True \<longleftrightarrow> (\<forall>i<k. lab ! i = i \<and> (i < n - 1 \<longrightarrow> ptn ! i \<noteq> (0::nat)))"
  by (induction k) (auto simp: less_Suc_eq Let_def)

lemma isTrivialPartition_iff:
  "isTrivialPartition lab ptn n \<longleftrightarrow> (\<forall>i<n. lab ! i = i \<and> cell_at ptn i = 0)"
proof -
  have "(\<forall>i<n. i < n - 1 \<longrightarrow> ptn ! i \<noteq> 0) \<longleftrightarrow> (\<forall>i<n. cell_at ptn i = 0)"
  proof
    assume "\<forall>i<n. i < n - 1 \<longrightarrow> ptn ! i \<noteq> 0"
    then show "\<forall>i<n. cell_at ptn i = 0" by (simp add: cell_at_def filter_empty_conv)
  next
    assume a: "\<forall>i<n. cell_at ptn i = 0"
    show "\<forall>i<n. i < n - 1 \<longrightarrow> ptn ! i \<noteq> 0"
    proof (intro allI impI)
      fix i assume "i < n" "i < n - 1"
      then have "cell_at ptn (Suc i) = 0" using a by simp
      then show "ptn ! i \<noteq> 0" by (auto simp: cell_at_def split: if_splits)
    qed
  qed
  then show ?thesis unfolding isTrivialPartition_def isTrivialPartition_upto by blast
qed

lemma collect_all: "fold collectGenerator ps (Some acc) = Some (acc @ ps)"
  by (induction ps arbitrary: acc) (auto simp: collectGenerator_def)

lemma copy_out_upto:
  assumes "k \<le> length xs"
  shows "fold (\<lambda>i acc. case acc of None \<Rightarrow> None
       | Some out \<Rightarrow> if heap_ok (Suc i) then Some (out @ [xs ! i]) else None) [0..<k]
       (if heap_ok 0 then Some [] else None) = (if \<forall>i\<le>k. heap_ok i then Some (take k xs) else None)"
  using assms
  by (induction k) (auto simp: take_Suc_conv_app_nth le_Suc_eq split: option.split)

lemma copy_out_eq: "copy_out heap_ok xs = (if \<forall>i\<le>length xs. heap_ok i then Some xs else None)"
  unfolding copy_out_def by (simp add: copy_out_upto)

section \<open>The contract of Traces, and the property\<close>

definition sg_automorphism :: "sparsegraph \<Rightarrow> (nat \<Rightarrow> nat) \<Rightarrow> bool" where
  "sg_automorphism g p \<longleftrightarrow> bij_betw p {..<nv g} {..<nv g} \<and>
     (\<forall>v<nv g. \<forall>w<nv g. count_list (sg_nbrs g (p v)) (p w) = count_list (sg_nbrs g v) w)"

definition keeps_cells :: "nat list \<Rightarrow> nat list \<Rightarrow> nat \<Rightarrow> (nat \<Rightarrow> nat) \<Rightarrow> bool" where
  "keeps_cells lab ptn n p \<longleftrightarrow> (\<forall>i<n. \<forall>j<n. p (lab ! i) = lab ! j \<longrightarrow> cell_at ptn i = cell_at ptn j)"

text \<open>
  nauty's manual: what reaches \<open>userautomproc\<close> is an automorphism of the graph, and of the
  given partition unless \<open>defaultptn\<close> says to ignore it. This is asked for sparse graphs whose arrays fit
  together, when the callback is installed.
\<close>

definition sg_ok :: "sparsegraph \<Rightarrow> bool" where
  "sg_ok g \<longleftrightarrow> length (sg_v g) = nv g \<and> length (sg_d g) = nv g \<and> nde g = length (sg_e g) \<and>
     (\<forall>v<nv g. sg_v g ! v + sg_d g ! v \<le> length (sg_e g)) \<and> (\<forall>w \<in> set (sg_e g). w < nv g)"

definition traces_ok :: "traces_fun \<Rightarrow> bool" where
  "traces_ok Traces \<longleftrightarrow> (\<forall>g lab ptn opts. sg_ok g \<longrightarrow> userautomproc opts \<longrightarrow>
     (\<forall>p \<in> set (reported (Traces g lab ptn opts)).
       sg_automorphism g (\<lambda>v. p ! v) \<and> (defaultptn opts \<or> keeps_cells lab ptn (nv g) (\<lambda>v. p ! v))))"

lemma sg_ok_csr:
  assumes "csr_ok offsets neighbors n"
  shows "sg_ok (csr_sparsegraph offsets neighbors n)"
proof -
  have "offsets ! v + (offsets ! Suc v - offsets ! v) \<le> length neighbors" if "v < n" for v
    using assms that by (simp add: csr_ok_def)
  moreover have "\<forall>w \<in> set neighbors. w < n" using assms by (simp add: csr_ok_def)
  ultimately show ?thesis by (simp add: sg_ok_def csr_sparsegraph_def map_nth)
qed

text \<open>
  C13. Passing \<open>defaultptn\<close> is sound: every permutation \<open>nativeGenerators\<close> returns is an
  automorphism of the CSR graph that respects the partition the caller gave, although Traces is
  told to ignore partitions that the shim finds trivial.
\<close>

theorem nativeGenerators_sound:
  assumes "traces_ok Traces" "csr_ok offsets neighbors n"
    and "nativeGenerators Traces heap_ok offsets neighbors (int n - 1) lab ptn = Some perms"
    and "p \<in> set perms"
  shows "graph_automorphism offsets neighbors n (\<lambda>v. p ! v) \<and> keeps_cells lab ptn n (\<lambda>v. p ! v)"
proof -
  let ?g = "csr_sparsegraph offsets neighbors n"
    and ?o = "\<lparr>getcanon = False, defaultptn = isTrivialPartition lab ptn n, userautomproc = True\<rparr>"
  have nv: "nv ?g = n" by (simp add: csr_sparsegraph_def)
  have "p \<in> set (reported (Traces ?g lab ptn ?o))"
    using assms(3,4) by (simp add: nativeGenerators_def collect_all copy_out_eq Let_def split: if_splits)
  then have aut: "sg_automorphism ?g (\<lambda>v. p ! v)"
    and cells: "isTrivialPartition lab ptn n \<or> keeps_cells lab ptn n (\<lambda>v. p ! v)"
    using assms(1) [unfolded traces_ok_def, rule_format, OF sg_ok_csr [OF assms(2)], of ?o p lab ptn] nv by auto
  have "p ! v < n" if "v < n" for v using aut that nv by (auto simp: sg_automorphism_def bij_betw_def)
  then have "graph_automorphism offsets neighbors n (\<lambda>v. p ! v)"
    using aut nv sg_nbrs_csr [OF assms(2)] by (simp add: sg_automorphism_def graph_automorphism_def)
  moreover have "keeps_cells lab ptn n (\<lambda>v. p ! v)"
    using cells by (auto simp: isTrivialPartition_iff keeps_cells_def)
  ultimately show ?thesis ..
qed

lemma nativeGenerators_sound_witness:
  "nativeGenerators (\<lambda>g lab ptn opts. \<lparr>lab_out = lab, orbits_out = [], stats_out = [],
       reported = (if csr_sparsegraph [0, 1, 3, 4] [1, 0, 2, 1] 3 = g \<and> defaultptn opts then [[2, 1, 0]] else [])\<rparr>)
     (\<lambda>_. True) [0, 1, 3, 4] [1, 0, 2, 1] 2 [0, 1, 2] [1, 1, 0] = Some [[2, 1, 0]] \<and>
   graph_automorphism [0, 1, 3, 4] [1, 0, 2, 1] 3 (\<lambda>v. [2, 1, 0] ! v)"
proof
  let ?T = "\<lambda>g lab ptn opts. \<lparr>lab_out = lab, orbits_out = [], stats_out = [],
       reported = (if csr_sparsegraph [0, 1, 3, 4] [1, 0, 2, 1] 3 = g \<and> defaultptn opts then [[2, 1, 0]] else [])\<rparr> :: traces_result"
  have res: "nativeGenerators ?T (\<lambda>_. True) [0, 1, 3, 4] [1, 0, 2, 1] (int 3 - 1) [0, 1, 2] [1, 1, 0] = Some [[2, 1, 0]]"
    by code_simp
  then show "nativeGenerators ?T (\<lambda>_. True) [0, 1, 3, 4] [1, 0, 2, 1] 2 [0, 1, 2] [1, 1, 0] = Some [[2, 1, 0]]"
    by simp
  have bij: "bij_betw (\<lambda>v. [2, 1, 0 :: nat] ! v) {..<3} {..<3}"
    by (rule bij_betw_byWitness [of _ "\<lambda>v. [2, 1, 0] ! v"]) (auto simp: numeral_3_eq_3 less_Suc_eq numeral_2_eq_2)
  moreover have "sg_nbrs (csr_sparsegraph [0, 1, 3, 4] [1, 0, 2, 1] 3) 0 = [1]"
    "sg_nbrs (csr_sparsegraph [0, 1, 3, 4] [1, 0, 2, 1] 3) (Suc 0) = [0, 2]"
    "sg_nbrs (csr_sparsegraph [0, 1, 3, 4] [1, 0, 2, 1] 3) 2 = [1]"
    "nv (csr_sparsegraph [0, 1, 3, 4] [1, 0, 2, 1] 3) = 3"
    by code_simp+
  moreover have "(\<forall>v<3. P v) \<longleftrightarrow> P 0 \<and> P (Suc 0) \<and> P 2" for P :: "nat \<Rightarrow> bool"
    by (auto simp: numeral_3_eq_3 less_Suc_eq numeral_2_eq_2)
  ultimately have "sg_automorphism (csr_sparsegraph [0, 1, 3, 4] [1, 0, 2, 1] 3) (\<lambda>v. [2, 1, 0] ! v)"
    by (simp add: sg_automorphism_def)
  then have "traces_ok ?T" by (auto simp: traces_ok_def)
  from nativeGenerators_sound [OF this csr_path3 res, of "[2, 1, 0]"]
  show "graph_automorphism [0, 1, 3, 4] [1, 0, 2, 1] 3 (\<lambda>v. [2, 1, 0] ! v)" by simp
qed

end
