(* ===== verification/Literals.thy ===== *)
theory Literals
  imports Orbit_Prelude
begin

text \<open>
  DIMACS literals as non-zero integers: their index \<open>l2u\<close> into flag arrays, which the proof
  checkers of CaDiCaL share, and the truth of literals, clauses and formulas.
\<close>

section \<open>Flag arrays indexed by literals\<close>

definition l2u :: "int \<Rightarrow> nat" where
  "l2u lit = (let res = 2 * (nat \<bar>lit\<bar> - 1) in if lit < 0 then res + 1 else res)"

definition INT_MIN :: int where
  "INT_MIN = - (2 ^ 31)"

text \<open>The literals an array of \<open>2 * n\<close> flags has room for.\<close>

definition lit_in :: "nat \<Rightarrow> int \<Rightarrow> bool" where
  "lit_in n lit \<longleftrightarrow> lit \<noteq> 0 \<and> nat \<bar>lit\<bar> < n"

lemma lit_in_uminus [simp]: "lit_in n (- lit) = lit_in n lit"
  by (simp add: lit_in_def)

lemma lit_in_mono: "lit_in n lit \<Longrightarrow> n \<le> m \<Longrightarrow> lit_in m lit"
  by (simp add: lit_in_def)

lemma l2u_less: "lit_in n lit \<Longrightarrow> l2u lit < 2 * n"
  by (auto simp: l2u_def lit_in_def Let_def)

lemma l2u_inj: "a \<noteq> 0 \<Longrightarrow> b \<noteq> 0 \<Longrightarrow> l2u a = l2u b \<longleftrightarrow> a = b"
  by (auto simp: l2u_def Let_def Suc_double_not_eq_double double_not_eq_Suc_double)

text \<open>The literals whose flag is set.\<close>

definition flagged :: "bool list \<Rightarrow> int set" where
  "flagged A = {lit. lit \<noteq> 0 \<and> l2u lit < length A \<and> A ! l2u lit}"

lemma flagged_replicate [simp]: "flagged (replicate n False) = {}"
  by (auto simp: flagged_def)

lemma flag_iff: "lit_in n lit \<Longrightarrow> length A = 2 * n \<Longrightarrow> A ! l2u lit \<longleftrightarrow> lit \<in> flagged A"
  using l2u_less [of n lit] by (auto simp: flagged_def lit_in_def)

lemma flagged_True:
  "lit_in n lit \<Longrightarrow> length A = 2 * n \<Longrightarrow> flagged (A[l2u lit := True]) = insert lit (flagged A)"
  using l2u_less [of n lit]
  by (auto simp: flagged_def nth_list_update l2u_inj lit_in_def)

lemma flagged_False:
  "lit_in n lit \<Longrightarrow> length A = 2 * n \<Longrightarrow> flagged (A[l2u lit := False]) = flagged A - {lit}"
  using l2u_less [of n lit]
  by (auto simp: flagged_def nth_list_update l2u_inj lit_in_def)

lemma flagged_resize: "length A \<le> k \<Longrightarrow> flagged (resize k False A) = flagged A"
proof -
  assume k: "length A \<le> k"
  have "resize k False A ! i \<longleftrightarrow> i < length A \<and> A ! i" if "i < k" for i
    using that by (cases "i < length A") (simp_all add: nth_resize_old nth_resize_new)
  then show ?thesis using k by (auto simp: flagged_def)
qed

definition set_flags :: "bool \<Rightarrow> int list \<Rightarrow> bool list \<Rightarrow> bool list" where
  "set_flags b lits A = fold (\<lambda>lit A. A[l2u lit := b]) lits A"

lemma set_flags_simps [simp]:
  "set_flags b [] A = A"
  "set_flags b (lit # lits) A = set_flags b lits (A[l2u lit := b])"
  by (simp_all add: set_flags_def)

lemma length_set_flags [simp]: "length (set_flags b lits A) = length A"
  by (induction lits arbitrary: A) auto

lemma flagged_set_flags:
  assumes "\<forall>lit \<in> set lits. lit_in n lit" "length A = 2 * n"
  shows "flagged (set_flags b lits A) = (if b then flagged A \<union> set lits else flagged A - set lits)"
  using assms by (induction lits arbitrary: A) (auto simp: flagged_True flagged_False)

section \<open>Truth\<close>

text \<open>Assignments give truth values to variables.\<close>

definition lit_true :: "(int \<Rightarrow> bool) \<Rightarrow> int \<Rightarrow> bool" where
  "lit_true \<sigma> lit = (if lit < 0 then \<not> \<sigma> (- lit) else \<sigma> lit)"

definition clause_true :: "(int \<Rightarrow> bool) \<Rightarrow> int list \<Rightarrow> bool" where
  "clause_true \<sigma> c \<longleftrightarrow> (\<exists>lit \<in> set c. lit_true \<sigma> lit)"

definition models :: "(int \<Rightarrow> bool) \<Rightarrow> int list set \<Rightarrow> bool" where
  "models \<sigma> F \<longleftrightarrow> (\<forall>c \<in> F. clause_true \<sigma> c)"

definition satisfiable :: "int list set \<Rightarrow> bool" where
  "satisfiable F \<longleftrightarrow> (\<exists>\<sigma>. models \<sigma> F)"

definition implies :: "int list set \<Rightarrow> int list \<Rightarrow> bool" where
  "implies F c \<longleftrightarrow> (\<forall>\<sigma>. models \<sigma> F \<longrightarrow> clause_true \<sigma> c)"

lemma lit_true_uminus: "lit \<noteq> 0 \<Longrightarrow> lit_true \<sigma> (- lit) = (\<not> lit_true \<sigma> lit)"
  by (auto simp: lit_true_def)

lemma clause_true_Nil [simp]: "\<not> clause_true \<sigma> []"
  by (simp add: clause_true_def)

lemma clause_true_mono: "clause_true \<sigma> c \<Longrightarrow> set c \<subseteq> set d \<Longrightarrow> clause_true \<sigma> d"
  by (auto simp: clause_true_def)

lemma models_insert [simp]: "models \<sigma> (insert c F) \<longleftrightarrow> clause_true \<sigma> c \<and> models \<sigma> F"
  by (auto simp: models_def)

lemma models_mono: "models \<sigma> F \<Longrightarrow> G \<subseteq> F \<Longrightarrow> models \<sigma> G"
  by (auto simp: models_def)

lemma impliesD: "implies F c \<Longrightarrow> models \<sigma> F \<Longrightarrow> clause_true \<sigma> c"
  by (simp add: implies_def)

lemma implies_mono: "implies G c \<Longrightarrow> G \<subseteq> F \<Longrightarrow> implies F c"
  using models_mono by (auto simp: implies_def)

lemma satisfiable_implied: "satisfiable F \<Longrightarrow> implies F c \<Longrightarrow> satisfiable (insert c F)"
  by (auto simp: satisfiable_def implies_def)

lemma implies_Nil: "implies F [] \<longleftrightarrow> \<not> satisfiable F"
  by (auto simp: implies_def satisfiable_def)

text \<open>Flipping the value of one literal.\<close>

definition make_true :: "int \<Rightarrow> (int \<Rightarrow> bool) \<Rightarrow> int \<Rightarrow> bool" where
  "make_true lit \<sigma> = \<sigma>(\<bar>lit\<bar> := 0 < lit)"

lemma lit_true_make_true: "lit \<noteq> 0 \<Longrightarrow> k \<noteq> 0 \<Longrightarrow>
    lit_true (make_true lit \<sigma>) k = (k = lit \<or> k \<noteq> - lit \<and> lit_true \<sigma> k)"
  by (auto simp: lit_true_def make_true_def)

text \<open>A clause blocked by \<open>lit\<close> can be made true without falsifying any clause.\<close>

lemma blocked_models:
  assumes "lit \<in> set c" "0 \<notin> set c" "\<forall>d \<in> F. 0 \<notin> set d"
    and "\<forall>d \<in> F. - lit \<in> set d \<longrightarrow> (\<exists>k \<in> set c. k \<noteq> lit \<and> - k \<in> set d)"
    and m: "models \<sigma> F" and false: "\<not> clause_true \<sigma> c"
  shows "models (make_true lit \<sigma>) (insert c F)"
proof -
  let ?\<tau> = "make_true lit \<sigma>"
  have nz: "lit \<noteq> 0" using assms(1,2) by auto
  have "clause_true ?\<tau> d" if d: "d \<in> F" for d
  proof (cases "- lit \<in> set d")
    case True
    then obtain k where k: "k \<in> set c" "k \<noteq> lit" "- k \<in> set d" using assms(4) d by blast
    then have kz: "k \<noteq> 0" using assms(2) by metis
    have "\<not> lit_true \<sigma> k" using false k(1) by (auto simp: clause_true_def)
    then have "lit_true ?\<tau> (- k)"
      using kz nz k(2) by (simp add: lit_true_make_true lit_true_uminus)
    then show ?thesis using k(3) by (auto simp: clause_true_def)
  next
    case False
    obtain k where k: "k \<in> set d" "lit_true \<sigma> k" using m d by (auto simp: models_def clause_true_def)
    then have "k \<noteq> 0" "k \<noteq> - lit" using assms(3) d False by metis+
    then have "lit_true ?\<tau> k" using k nz by (simp add: lit_true_make_true)
    then show ?thesis using k(1) by (auto simp: clause_true_def)
  qed
  moreover have "clause_true ?\<tau> c"
    unfolding clause_true_def
    by (rule bexI [OF _ assms(1)]) (simp add: lit_true_make_true nz)
  ultimately show ?thesis by (auto simp: models_def)
qed

lemma blocked_satisfiable:
  assumes "lit \<in> set c" "0 \<notin> set c" "\<forall>d \<in> F. 0 \<notin> set d"
    and "\<forall>d \<in> F. - lit \<in> set d \<longrightarrow> (\<exists>k \<in> set c. k \<noteq> lit \<and> - k \<in> set d)"
    and "satisfiable F"
  shows "satisfiable (insert c F)"
proof -
  from assms(5) obtain \<sigma> where m: "models \<sigma> F" by (auto simp: satisfiable_def)
  show ?thesis
  proof (cases "clause_true \<sigma> c")
    case True
    then show ?thesis using m by (auto simp: satisfiable_def)
  next
    case False
    show ?thesis unfolding satisfiable_def using blocked_models [OF assms(1-4) m False] by blast
  qed
qed

end
