(* ===== verification/Proof_Base.thy ===== *)
theory Proof_Base
  imports Literals "HOL-Library.Word"
begin

unbundle bit_operations_syntax

text \<open>
  What the proof checkers and proof tracers of CaDiCaL share: calls that may stop the program as
  values of a sum, the reduction of a 64-bit hash to the size of the table, growing arrays, and
  chained tables as multisets.
\<close>

section \<open>Results\<close>

text \<open>The left of a sum is a fatal error, the right the result.\<close>

fun accepted :: "'e + 'a \<Rightarrow> bool" where
  "accepted (Inl e) = False"
| "accepted (Inr a) = True"

fun and_then :: "'e + 'a \<Rightarrow> ('a \<Rightarrow> 'e + 'b) \<Rightarrow> 'e + 'b" where
  "and_then (Inl e) f = Inl e"
| "and_then (Inr a) f = f a"

lemma and_then_Inr: "and_then r f = Inr b \<longleftrightarrow> (\<exists>a. r = Inr a \<and> f a = Inr b)"
  by (cases r) simp_all

lemma and_then_assoc: "and_then (and_then r f) g = and_then r (\<lambda>a. and_then (f a) g)"
  by (cases r) simp_all

lemma accepted_iff: "accepted r \<longleftrightarrow> (\<exists>t. r = Inr t)"
  by (cases r) simp_all

fun error_of :: "'e + 'a \<Rightarrow> 'e option" where
  "error_of (Inl e) = Some e"
| "error_of (Inr a) = None"

section \<open>Hashing\<close>

text \<open>The loop of \<open>reduce_hash\<close>; the assertion \<open>size > 0\<close> makes it end.\<close>

function reduce_loop :: "64 word \<Rightarrow> nat \<Rightarrow> 64 word \<Rightarrow> 64 word" where
  "reduce_loop sz shift res =
     (if sz \<noteq> 0 \<and> sz < push_bit shift 1 then reduce_loop sz (shift div 2) (res XOR drop_bit shift res) else res)"
  by pat_completeness auto
termination
proof (relation "measure (\<lambda>(sz, shift, res). shift)")
  fix sz res :: "64 word" and shift :: nat
  assume "sz \<noteq> 0 \<and> sz < push_bit shift 1"
  then have "0 < shift" by (cases shift) auto
  then show "((sz, shift div 2, res XOR drop_bit shift res), sz, shift, res) \<in> measure (\<lambda>(sz, shift, res). shift)"
    by simp
qed simp

declare reduce_loop.simps [simp del]

definition reduce_hash :: "64 word \<Rightarrow> nat \<Rightarrow> nat" where
  "reduce_hash hash sz = unat (reduce_loop (of_nat sz) 32 hash AND (of_nat sz - 1))"

lemma unat_mask_less:
  assumes "0 < sz"
  shows "unat (of_nat sz - 1 :: 64 word) < sz"
proof (cases "(of_nat sz :: 64 word) = 0")
  case True
  then have "2 ^ 64 dvd sz" by (simp add: word_of_nat_eq_0_iff)
  then have "2 ^ 64 \<le> sz" using assms by (rule dvd_imp_le)
  moreover have "unat (of_nat sz - 1 :: 64 word) < 2 ^ 64"
    using unsigned_less [of "of_nat sz - 1 :: 64 word", where 'a = nat] by simp
  ultimately show ?thesis by simp
next
  case False
  then have "unat (of_nat sz - 1 :: 64 word) = unat (of_nat sz :: 64 word) - 1"
    by (rule unat_minus_one)
  also have "\<dots> < sz"
  proof -
    have "unat (of_nat sz :: 64 word) \<le> sz" by (simp add: unat_of_nat)
    moreover have "unat (of_nat sz :: 64 word) \<noteq> 0" using False by (simp add: unat_eq_0)
    ultimately show ?thesis by linarith
  qed
  finally show ?thesis .
qed

lemma reduce_hash_less: "0 < sz \<Longrightarrow> reduce_hash h sz < sz"
proof -
  assume sz: "0 < sz"
  have "reduce_loop (of_nat sz) 32 h AND (of_nat sz - 1) \<le> of_nat sz - 1" by (rule word_and_le1)
  then show ?thesis
    unfolding reduce_hash_def using unat_mask_less [OF sz] by (simp add: word_le_nat_alt)
qed

section \<open>Growing arrays\<close>

text \<open>The loop that doubles the capacity until it exceeds the index.\<close>

function grow_to :: "nat \<Rightarrow> nat \<Rightarrow> nat" where
  "grow_to idx n = (if 0 < n \<and> n \<le> idx then grow_to idx (2 * n) else n)"
  by pat_completeness auto
termination by (relation "measure (\<lambda>(idx, n). Suc idx - n)") auto

declare grow_to.simps [simp del]

lemma grow_to_spec: "0 < n \<Longrightarrow> n \<le> grow_to idx n \<and> idx < grow_to idx n"
proof (induction idx n rule: grow_to.induct)
  case (1 idx n)
  show ?case
  proof (cases "n \<le> idx")
    case True
    then have "grow_to idx n = grow_to idx (2 * n)" using 1(2) by (subst grow_to.simps) simp
    then show ?thesis using 1 True by simp
  next
    case False
    then have "grow_to idx n = n" by (subst grow_to.simps) simp
    then show ?thesis using False by simp
  qed
qed

section \<open>Chained tables\<close>

lemma in_concat_nth: "c \<in> set (concat xss) \<longleftrightarrow> (\<exists>h < length xss. c \<in> set (xss ! h))"
  by (simp add: set_concat) (metis in_set_conv_nth)

lemma mset_concat_upd:
  "h < length xss \<Longrightarrow> mset (concat (upd_nth xss h (\<lambda>l. x # l))) = add_mset x (mset (concat xss))"
proof (induction xss arbitrary: h)
  case (Cons xs xss)
  then show ?case by (cases h) (auto simp: upd_nth_def)
qed simp

lemma mset_concat_remove:
  "h < length xss \<Longrightarrow> x \<in> set (xss ! h) \<Longrightarrow>
   mset (concat (upd_nth xss h (remove1 x))) = mset (concat xss) - {#x#}"
proof (induction xss arbitrary: h)
  case (Cons xs xss)
  show ?case
  proof (cases h)
    case 0
    then have "x \<in># mset xs" using Cons.prems by simp
    from diff_union_single_conv [OF this, of "mset (concat xss)"]
    show ?thesis using 0 by (simp add: upd_nth_def add.commute)
  next
    case (Suc k)
    have k: "k < length xss" "x \<in> set (xss ! k)" using Cons.prems Suc by simp_all
    then have "x \<in> set (concat xss)" unfolding in_concat_nth by blast
    then have "x \<in># mset (concat xss)" by (simp only: set_mset_mset)
    from diff_union_single_conv [OF this, of "mset xs"]
    have "mset xs + mset (concat xss) - {#x#} = mset xs + (mset (concat xss) - {#x#})" .
    moreover have "mset (concat (upd_nth xss k (remove1 x))) = mset (concat xss) - {#x#}"
      by (rule Cons.IH [OF k])
    ultimately show ?thesis using Suc by (simp add: upd_nth_def)
  qed
qed simp

text \<open>Distributing entries over the chains of a new table.\<close>

lemma distribute:
  assumes "length t = n" "\<And>a. h a < n"
  shows "length (fold (\<lambda>a t. upd_nth t (h a) (\<lambda>l. a # l)) as t) = n \<and>
    mset (concat (fold (\<lambda>a t. upd_nth t (h a) (\<lambda>l. a # l)) as t)) = mset as + mset (concat t)"
  using assms(1)
proof (induction as arbitrary: t)
  case (Cons a as)
  have "length (upd_nth t (h a) (\<lambda>l. a # l)) = n" using Cons.prems by simp
  moreover have "h a < length t" using Cons.prems assms(2) by simp
  ultimately show ?case using Cons.IH [of "upd_nth t (h a) (\<lambda>l. a # l)"] mset_concat_upd [of "h a" t a] by simp
qed simp

end
