(* ===== verification/Lrat_Checker.thy ===== *)
theory Lrat_Checker
  imports Proof_Base
begin

unbundle bit_operations_syntax

text \<open>
  CaDiCaL's internal LRAT proof checker: \<open>src/src/main/cpp/cadical/src/lratchecker.cpp\<close> and
  \<open>lratchecker.hpp\<close>.

  The record \<open>lrat\<close> is the class \<open>LratChecker\<close>: the hash table is the list of its collision
  chains (\<open>size_clauses\<close> is its length), the flag arrays are indexed by \<open>l2u\<close>, ids are
  integers. The transient \<open>used\<close> flags of clauses are the list of the ids marked so far,
  ids being unique in the table. A call of \<open>fatal_message_end\<close> stops the program and is the
  left of a sum. Left out: the statistics, and the tracing flag \<open>bool\<close> arguments the code
  ignores. \<open>find\<close> on a table without chains, which the assertion of \<open>reduce_hash\<close> excludes,
  finds nothing.
\<close>

section \<open>State\<close>

record lrat_clause =
  lc_hash :: "64 word"
  lc_id :: int
  lc_tautological :: bool
  lc_literals :: "int list"

record lrat =
  size_vars :: nat
  checked_lits :: "bool list"
  marks :: "bool list"
  clauses_to_reconstruct :: "int \<Rightarrow> int list option"
  assumptions :: "int list"
  constraint :: "int list"
  concluded :: bool
  num_clauses :: nat
  num_finalized :: nat
  num_garbage :: nat
  clauses :: "lrat_clause list list"
  garbage :: "lrat_clause list"
  imported_clause :: "int list"
  assumption_clauses :: "int list"
  nonces :: "64 word list"
  last_hash :: "64 word"
  last_id :: int
  current_id :: int

datatype lrat_error =
  Different_clause_present
| Derivation_failed
| Not_an_assumption
| Already_concluded
| Empty_clause_missing
| Bad_conclusion
| Not_in_proof
| Not_weakened
| Restored_differs
| Not_all_finalized
| Null_clause  \<comment> \<open>a null pointer is followed\<close>

type_synonym 'a checked = "lrat_error + 'a"

datatype conclusion = CONFLICT | ASSUMPTIONS | CONSTRAINT

definition init_lrat :: "64 word list \<Rightarrow> lrat" where
  "init_lrat ns = \<lparr>size_vars = 0, checked_lits = [], marks = [], clauses_to_reconstruct = Map.empty,
     assumptions = [], constraint = [], concluded = False, num_clauses = 0, num_finalized = 0,
     num_garbage = 0, clauses = [], garbage = [], imported_clause = [], assumption_clauses = [],
     nonces = ns, last_hash = 0, last_id = 0, current_id = 0\<rparr>"

definition size_clauses :: "lrat \<Rightarrow> nat" where
  "size_clauses s = length (clauses s)"

section \<open>Hashing\<close>

text \<open>\<open>num_nonces\<close> is 4.\<close>

definition compute_hash :: "int \<Rightarrow> lrat \<Rightarrow> 64 word \<times> lrat" where
  "compute_hash cid s =
     (let tmp = nonces s ! nat (cid mod 4) * word_of_int cid in (tmp, s\<lparr>last_hash := tmp\<rparr>))"

section \<open>Import\<close>

definition enlarge_vars :: "nat \<Rightarrow> lrat \<Rightarrow> lrat" where
  "enlarge_vars idx s =
     (let n = grow_to idx (if size_vars s \<noteq> 0 then 2 * size_vars s else 2)
      in s\<lparr>marks := resize (2 * n) False (marks s),
           checked_lits := resize (2 * n) False (checked_lits s),
           size_vars := n\<rparr>)"

definition import_literal :: "int \<Rightarrow> lrat \<Rightarrow> lrat" where
  "import_literal lit s =
     (let idx = nat \<bar>lit\<bar>;
          s = (if idx \<ge> size_vars s then enlarge_vars idx s else s)
      in s\<lparr>imported_clause := imported_clause s @ [lit]\<rparr>)"

definition import_clause :: "int list \<Rightarrow> lrat \<Rightarrow> lrat" where
  "import_clause c s = fold import_literal c s"

section \<open>The hash table\<close>

fun find_in :: "int \<Rightarrow> 64 word \<times> lrat \<Rightarrow> lrat_clause option \<times> lrat" where
  "find_in cid (hash, s) =
     (if clauses s = [] then None
      else List.find (\<lambda>c. lc_hash c = hash \<and> lc_id c = cid) (clauses s ! reduce_hash hash (size_clauses s)),
      s)"

definition find :: "int \<Rightarrow> lrat \<Rightarrow> lrat_clause option \<times> lrat" where
  "find cid s = find_in cid (compute_hash cid s)"

definition enlarge_clauses :: "lrat \<Rightarrow> lrat" where
  "enlarge_clauses s =
     (let n = (if size_clauses s \<noteq> 0 then 2 * size_clauses s else 1)
      in s\<lparr>clauses := fold (\<lambda>c new_clauses. upd_nth new_clauses (reduce_hash (lc_hash c) n) (\<lambda>l. c # l))
                        (concat (clauses s)) (replicate n [])\<rparr>)"

text \<open>The loop of \<open>new_clause\<close> over the literals: the flags and whether the clause is a tautology.\<close>

definition taut_step :: "int \<Rightarrow> bool list \<times> bool \<Rightarrow> bool list \<times> bool" where
  "taut_step lit = (\<lambda>(A, taut).
     let A = A[l2u (- lit) := True] in (A, if A ! l2u lit then True else taut))"

fun new_clause_from :: "lrat \<Rightarrow> bool list \<times> bool \<Rightarrow> lrat_clause \<times> lrat" where
  "new_clause_from s (A, taut) =
     (\<lparr>lc_hash = last_hash s, lc_id = last_id s, lc_tautological = taut, lc_literals = imported_clause s\<rparr>,
      s\<lparr>checked_lits := set_flags False (map uminus (imported_clause s)) A,
        num_clauses := num_clauses s + 1\<rparr>)"

definition new_clause :: "lrat \<Rightarrow> lrat_clause \<times> lrat" where
  "new_clause s = new_clause_from s (fold taut_step (imported_clause s) (checked_lits s, False))"

fun link_clause :: "nat \<Rightarrow> lrat_clause \<times> lrat \<Rightarrow> lrat" where
  "link_clause h (c, s) = s\<lparr>clauses := upd_nth (clauses s) h (\<lambda>l. c # l)\<rparr>"

fun insert_hashed :: "64 word \<times> lrat \<Rightarrow> lrat" where
  "insert_hashed (hash, s) = link_clause (reduce_hash hash (size_clauses s)) (new_clause s)"

definition make_room :: "lrat \<Rightarrow> lrat" where
  "make_room s = (if num_clauses s = size_clauses s then enlarge_clauses s else s)"

definition insert_clause :: "lrat \<Rightarrow> lrat" where
  "insert_clause s = insert_hashed (compute_hash (last_id s) (make_room s))"

definition collect_garbage_clauses :: "lrat \<Rightarrow> lrat" where
  "collect_garbage_clauses s = s\<lparr>num_garbage := num_garbage s - length (garbage s), garbage := []\<rparr>"

section \<open>Checking a derived clause\<close>

text \<open>
  The loop over the literals of a chain clause: \<open>0\<close> when all are falsified, the only literal
  that is not, or \<open>INT_MIN\<close> when there are several.
\<close>

fun scan_unit :: "bool list \<Rightarrow> int list \<Rightarrow> int \<Rightarrow> int" where
  "scan_unit A [] unit = unit"
| "scan_unit A (lit # lits) unit =
     (if A ! l2u (- lit) then scan_unit A lits unit
      else if unit \<noteq> 0 \<and> unit \<noteq> lit then INT_MIN
      else scan_unit A lits lit)"

text \<open>The loop over the chain, with the ids of the clauses marked \<open>used\<close>.\<close>

fun check_chain :: "int list \<Rightarrow> int list \<Rightarrow> lrat \<Rightarrow> bool \<times> lrat" where
  "check_chain [] used s = (False, s)"
| "check_chain (cid # ids) used s =
     (case find cid s of
        (None, s) \<Rightarrow> (False, s)
      | (Some c, s) \<Rightarrow>
          if lc_tautological c then (False, s)
          else if cid \<in> set used then (False, s)
          else let unit = scan_unit (checked_lits s) (lc_literals c) 0 in
            if unit = INT_MIN then (False, s)
            else if unit = 0 then (True, s)
            else check_chain ids (cid # used) (s\<lparr>checked_lits := (checked_lits s)[l2u unit := True]\<rparr>))"

fun clear_checked :: "bool \<times> lrat \<Rightarrow> bool \<times> lrat" where
  "clear_checked (checking, s) = (checking, s\<lparr>checked_lits := replicate (length (checked_lits s)) False\<rparr>)"

fun check_from :: "int list \<Rightarrow> lrat \<Rightarrow> bool list \<times> bool \<Rightarrow> bool \<times> lrat" where
  "check_from proof_chain s (A, taut) =
     (if taut \<or> proof_chain = [] \<or> last proof_chain < 0
      then (taut, s\<lparr>checked_lits := set_flags False (map uminus (imported_clause s)) A\<rparr>)
      else clear_checked (check_chain proof_chain [] (s\<lparr>checked_lits := A\<rparr>)))"

definition check :: "int list \<Rightarrow> lrat \<Rightarrow> bool \<times> lrat" where
  "check proof_chain s = check_from proof_chain s (fold taut_step (imported_clause s) (checked_lits s, False))"

definition resolve_lit :: "int \<Rightarrow> bool list \<Rightarrow> bool list" where
  "resolve_lit lit A = (if \<not> A ! l2u (- lit) then A[l2u lit := True] else A[l2u (- lit) := False])"

text \<open>The comparison of the resolvent with the learned clause, \<open>None\<close> when it fails at once.\<close>

fun match_imported :: "int list \<Rightarrow> bool list \<Rightarrow> bool list option" where
  "match_imported [] A = Some A"
| "match_imported (lit # lits) A =
     (if A ! l2u (- lit) then None
      else match_imported lits ((if \<not> A ! l2u lit then A[l2u lit := True] else A)[l2u (- lit) := True]))"

text \<open>The final loop over the variables: (flags, failed).\<close>

definition match_var :: "int \<Rightarrow> bool list \<times> bool \<Rightarrow> bool list \<times> bool" where
  "match_var lit = (\<lambda>(A, failed).
     let ok = A ! l2u lit \<and> A ! l2u (- lit);
         ok = ok \<or> (\<not> A ! l2u lit \<and> \<not> A ! l2u (- lit));
         A = (A[l2u (- lit) := False])[l2u lit := False]
     in (A, if \<not> ok \<and> \<not> failed then True else failed))"

text \<open>The rest of the chain, from its end; a clause that is not found is a null pointer.\<close>

fun resolve_chain :: "int list \<Rightarrow> bool list \<Rightarrow> lrat \<Rightarrow> (bool list \<times> lrat) checked" where
  "resolve_chain [] A s = Inr (A, s)"
| "resolve_chain (cid # ids) A s =
     (case find cid s of
        (None, s) \<Rightarrow> Inl Null_clause
      | (Some c, s) \<Rightarrow> resolve_chain ids (fold resolve_lit (lc_literals c) A) s)"

fun matched :: "lrat \<Rightarrow> bool list \<times> bool \<Rightarrow> bool \<times> lrat" where
  "matched s (A, failed) = (\<not> failed, s\<lparr>checked_lits := A\<rparr>)"

fun match_resolvent :: "bool list \<times> lrat \<Rightarrow> (bool \<times> lrat) checked" where
  "match_resolvent (A, s) =
     Inr (case match_imported (imported_clause s) A of
            None \<Rightarrow> (False, s\<lparr>checked_lits := replicate (length A) False\<rparr>)
          | Some A \<Rightarrow> matched s (fold match_var (map int [1..<size_vars s]) (A, False)))"

fun resolve_from :: "int list \<Rightarrow> lrat_clause option \<times> lrat \<Rightarrow> (bool \<times> lrat) checked" where
  "resolve_from proof_chain (None, s) = Inl Null_clause"
| "resolve_from proof_chain (Some c, s) =
     and_then (resolve_chain (rev (butlast proof_chain)) (set_flags True (lc_literals c) (checked_lits s)) s)
       match_resolvent"

definition check_resolution :: "int list \<Rightarrow> lrat \<Rightarrow> (bool \<times> lrat) checked" where
  "check_resolution proof_chain s =
     (if proof_chain = [] then Inr (True, s)
      else if last proof_chain < 0 then Inr (False, s)
      else resolve_from proof_chain (find (last proof_chain) s))"

text \<open>
  One clause of the table in \<open>check_blocked\<close>: \<open>None\<close> when the check fails. \<open>A\<close> holds the
  negations of the imported literals, \<open>M\<close> the negations of the remaining candidates.
\<close>

definition blocked_clause ::
  "int list \<Rightarrow> int list \<Rightarrow> bool list \<Rightarrow> lrat_clause \<Rightarrow> bool list \<Rightarrow> bool list option" where
  "blocked_clause proof_chain imported A c M =
     (if - lc_id c \<in> set proof_chain then
        let count = length (filter (\<lambda>lit. A ! l2u lit) (lc_literals c));
            candidates = filter (\<lambda>lit. M ! l2u lit) (lc_literals c)
        in if count < 2 then None
           else Some (fold (\<lambda>lit M. if M ! l2u (- lit) \<and> - lit \<notin> set candidates
                        then M[l2u (- lit) := False] else M) imported M)
      else Some (fold (\<lambda>lit M. if A ! l2u lit then M[l2u lit := False] else M) (lc_literals c) M))"

fun blocked_loop ::
  "int list \<Rightarrow> int list \<Rightarrow> bool list \<Rightarrow> lrat_clause list \<Rightarrow> bool list \<Rightarrow> bool list option" where
  "blocked_loop proof_chain imported A [] M = Some M"
| "blocked_loop proof_chain imported A (c # cs) M =
     (case blocked_clause proof_chain imported A c M of
        None \<Rightarrow> None
      | Some M \<Rightarrow> blocked_loop proof_chain imported A cs M)"

text \<open>The last loop: whether a candidate is left, and the flags cleared.\<close>

definition success_step :: "int \<Rightarrow> bool \<times> bool list \<times> bool list \<Rightarrow> bool \<times> bool list \<times> bool list" where
  "success_step lit = (\<lambda>(success, A, M).
     (if M ! l2u (- lit) then True else success, A[l2u (- lit) := False], M[l2u (- lit) := False]))"

fun blocked_result :: "lrat \<Rightarrow> bool \<times> bool list \<times> bool list \<Rightarrow> bool \<times> lrat" where
  "blocked_result s (success, A, M) = (success, s\<lparr>checked_lits := A, marks := M\<rparr>)"

fun blocked_end :: "lrat \<Rightarrow> bool list option \<Rightarrow> bool \<times> lrat" where
  "blocked_end s None =
     (False, s\<lparr>checked_lits := set_flags False (map uminus (imported_clause s)) (checked_lits s),
               marks := set_flags False (map uminus (imported_clause s)) (marks s)\<rparr>)"
| "blocked_end s (Some M) =
     blocked_result s (fold success_step (imported_clause s) (False, checked_lits s, M))"

definition mark_negations :: "lrat \<Rightarrow> lrat" where
  "mark_negations s =
     s\<lparr>checked_lits := set_flags True (map uminus (imported_clause s)) (checked_lits s),
       marks := set_flags True (map uminus (imported_clause s)) (marks s)\<rparr>"

definition blocked_scan :: "int list \<Rightarrow> lrat \<Rightarrow> bool \<times> lrat" where
  "blocked_scan proof_chain s =
     blocked_end s (blocked_loop proof_chain (imported_clause s) (checked_lits s) (concat (clauses s)) (marks s))"

definition check_blocked :: "int list \<Rightarrow> lrat \<Rightarrow> bool \<times> lrat" where
  "check_blocked proof_chain s = blocked_scan proof_chain (mark_negations s)"

section \<open>Tracer operations\<close>

definition restore_clause :: "int \<Rightarrow> int list \<Rightarrow> lrat \<Rightarrow> lrat checked" where
  "restore_clause cid c s =
     (case clauses_to_reconstruct s cid of
        None \<Rightarrow> Inl Not_weakened
      | Some d \<Rightarrow>
          if sort c \<noteq> d then Inl Restored_differs
          else Inr (s\<lparr>clauses_to_reconstruct := (clauses_to_reconstruct s)(cid := None)\<rparr>))"

text \<open>The search for a clause of the same id, skipped on an empty table and on restoring.\<close>

definition find_present :: "bool \<Rightarrow> int \<Rightarrow> lrat \<Rightarrow> lrat_clause option \<times> lrat" where
  "find_present restore cid s = (if size_clauses s \<noteq> 0 \<and> \<not> restore then find cid s else (None, s))"

definition insert_imported :: "lrat \<Rightarrow> lrat" where
  "insert_imported s = (insert_clause s)\<lparr>imported_clause := []\<rparr>"

fun insert_fresh :: "lrat_clause option \<times> lrat \<Rightarrow> lrat checked" where
  "insert_fresh (Some d, s) = Inl Different_clause_present"
| "insert_fresh (None, s) = Inr (insert_imported s)"

definition count_original :: "int \<Rightarrow> bool \<Rightarrow> lrat \<Rightarrow> lrat" where
  "count_original cid restore s =
     (if \<not> restore \<and> cid = 1 + current_id s then s\<lparr>current_id := cid\<rparr> else s)"

definition enter_original :: "int \<Rightarrow> int list \<Rightarrow> bool \<Rightarrow> lrat \<Rightarrow> lrat checked" where
  "enter_original cid c restore s =
     insert_fresh (find_present restore cid (count_original cid restore ((import_clause c s)\<lparr>last_id := cid\<rparr>)))"

definition add_original_clause :: "int \<Rightarrow> int list \<Rightarrow> bool \<Rightarrow> lrat \<Rightarrow> lrat checked" where
  "add_original_clause cid c restore s =
     and_then (if restore then restore_clause cid c s else Inr s) (enter_original cid c restore)"

text \<open>\<open>check (proof_chain) \<and> check_resolution (proof_chain)\<close>, else \<open>check_blocked (proof_chain)\<close>.\<close>

fun check_rup :: "int list \<Rightarrow> bool \<times> lrat \<Rightarrow> (bool \<times> lrat) checked" where
  "check_rup proof_chain (rup, s) = (if rup then check_resolution proof_chain s else Inr (False, s))"

fun check_else_blocked :: "int list \<Rightarrow> bool \<times> lrat \<Rightarrow> bool \<times> lrat" where
  "check_else_blocked proof_chain (ok, s) = (if ok then (True, s) else check_blocked proof_chain s)"

fun insert_checked :: "bool \<times> lrat \<Rightarrow> lrat checked" where
  "insert_checked (ok, s) = (if ok then Inr (insert_imported s) else Inl Derivation_failed)"

definition conclude_check :: "int list \<Rightarrow> bool \<times> lrat \<Rightarrow> lrat checked" where
  "conclude_check proof_chain r = insert_checked (check_else_blocked proof_chain r)"

fun derive :: "int list \<Rightarrow> lrat_clause option \<times> lrat \<Rightarrow> lrat checked" where
  "derive proof_chain (Some d, s) = Inl Different_clause_present"
| "derive proof_chain (None, s) =
     and_then (check_rup proof_chain (check proof_chain s)) (conclude_check proof_chain)"

definition add_derived_clause :: "int \<Rightarrow> int list \<Rightarrow> int list \<Rightarrow> lrat \<Rightarrow> lrat checked" where
  "add_derived_clause cid c proof_chain s =
     derive proof_chain (find_present False cid ((import_clause c s)\<lparr>last_id := cid, current_id := cid\<rparr>))"

text \<open>
  The comparison that deletion, weakening and finalisation share: every literal of the clause
  found is marked after marking the imported ones; the marks are cleared.
\<close>

definition confirm_literals :: "lrat_clause \<Rightarrow> lrat \<Rightarrow> lrat checked" where
  "confirm_literals d s =
     (if \<exists>lit \<in> set (lc_literals d). \<not> set_flags True (imported_clause s) (marks s) ! l2u lit then Inl Not_in_proof
      else Inr (s\<lparr>marks := set_flags False (imported_clause s) (set_flags True (imported_clause s) (marks s))\<rparr>))"

fun confirm_found :: "lrat_clause option \<times> lrat \<Rightarrow> (lrat_clause \<Rightarrow> lrat \<Rightarrow> lrat checked) \<Rightarrow> lrat checked" where
  "confirm_found (None, s) f = Inl Not_in_proof"
| "confirm_found (Some d, s) f = and_then (confirm_literals d s) (f d)"

definition find_imported :: "int \<Rightarrow> int list \<Rightarrow> lrat \<Rightarrow> lrat_clause option \<times> lrat" where
  "find_imported cid c s = find cid ((import_clause c s)\<lparr>last_id := cid\<rparr>)"

text \<open>Unlink the clause found from its chain, and collect when there is enough garbage.\<close>

definition unlink_clause :: "lrat_clause \<Rightarrow> lrat \<Rightarrow> lrat" where
  "unlink_clause d s =
     s\<lparr>num_garbage := num_garbage s + 1, num_clauses := num_clauses s - 1,
       clauses := upd_nth (clauses s) (reduce_hash (last_hash s) (size_clauses s)) (remove1 d),
       garbage := d # garbage s\<rparr>"

definition maybe_collect :: "lrat \<Rightarrow> lrat" where
  "maybe_collect s =
     (if 2 * num_garbage s > max (size_clauses s) (size_vars s) then collect_garbage_clauses s else s)"

definition remove_clause :: "lrat_clause \<Rightarrow> lrat \<Rightarrow> lrat checked" where
  "remove_clause d s = Inr ((maybe_collect (unlink_clause d s))\<lparr>imported_clause := []\<rparr>)"

definition delete_clause :: "int \<Rightarrow> int list \<Rightarrow> lrat \<Rightarrow> lrat checked" where
  "delete_clause cid c s = confirm_found (find_imported cid c s) remove_clause"

fun only_assumed :: "int list \<Rightarrow> lrat \<Rightarrow> bool" where
  "only_assumed [] s = True"
| "only_assumed (lit # lits) s =
     (if - lit \<in> set (assumptions s) then only_assumed lits s
      else if - lit \<in> set (constraint s) then only_assumed lits s
      else False)"

definition note_assumption_clause :: "int \<Rightarrow> lrat \<Rightarrow> lrat checked" where
  "note_assumption_clause cid s = Inr (s\<lparr>assumption_clauses := assumption_clauses s @ [cid]\<rparr>)"

definition add_assumption_clause :: "int \<Rightarrow> int list \<Rightarrow> int list \<Rightarrow> lrat \<Rightarrow> lrat checked" where
  "add_assumption_clause cid c chain s =
     (if \<not> only_assumed c s then Inl Not_an_assumption
      else and_then (and_then (add_derived_clause cid c chain s) (delete_clause cid c))
             (note_assumption_clause cid))"

definition add_assumption :: "int \<Rightarrow> lrat \<Rightarrow> lrat" where
  "add_assumption a s = s\<lparr>assumptions := assumptions s @ [a]\<rparr>"

definition add_constraint :: "int list \<Rightarrow> lrat \<Rightarrow> lrat" where
  "add_constraint c s =
     s\<lparr>constraint := fold (\<lambda>lit cs. if lit \<in> set cs then cs else cs @ [lit]) c []\<rparr>"

definition reset_assumptions :: "lrat \<Rightarrow> lrat" where
  "reset_assumptions s = s\<lparr>assumption_clauses := [], assumptions := [], concluded := False\<rparr>"

fun conclude_empty :: "lrat_clause option \<times> lrat \<Rightarrow> lrat checked" where
  "conclude_empty (None, s) = Inl Empty_clause_missing"
| "conclude_empty (Some d, s) = (if lc_literals d \<noteq> [] then Inl Empty_clause_missing else Inr s)"

definition conclude_unsat :: "conclusion \<Rightarrow> int list \<Rightarrow> lrat \<Rightarrow> lrat checked" where
  "conclude_unsat concl ids s =
     (if concluded s then Inl Already_concluded
      else if concl = CONFLICT then conclude_empty (find (last ids) (s\<lparr>concluded := True\<rparr>))
      else if concl = ASSUMPTIONS then
        (if length ids \<noteq> 1 \<or> length (assumption_clauses s) \<noteq> 1 then Inl Bad_conclusion
         else if last ids \<noteq> last (assumption_clauses s) then Inl Bad_conclusion
         else Inr (s\<lparr>concluded := True\<rparr>))
      else
        (if length (constraint s) \<noteq> length ids then Inl Bad_conclusion
         else if \<exists>cid \<in> set ids. cid \<notin> set (assumption_clauses s) then Inl Bad_conclusion
         else Inr (s\<lparr>concluded := True\<rparr>)))"

definition save_clause :: "int \<Rightarrow> int list \<Rightarrow> lrat_clause \<Rightarrow> lrat \<Rightarrow> lrat checked" where
  "save_clause cid c d s = Inr (s\<lparr>imported_clause := [],
     clauses_to_reconstruct := (clauses_to_reconstruct s)(cid \<mapsto> sort c)\<rparr>)"

definition weaken_minus :: "int \<Rightarrow> int list \<Rightarrow> lrat \<Rightarrow> lrat checked" where
  "weaken_minus cid c s = confirm_found (find_imported cid c s) (save_clause cid c)"

definition finish_clause :: "lrat_clause \<Rightarrow> lrat \<Rightarrow> lrat checked" where
  "finish_clause d s = Inr (s\<lparr>imported_clause := []\<rparr>)"

definition finalize_clause :: "int \<Rightarrow> int list \<Rightarrow> lrat \<Rightarrow> lrat checked" where
  "finalize_clause cid c s =
     confirm_found (find_imported cid c (s\<lparr>num_finalized := num_finalized s + 1\<rparr>)) finish_clause"

definition report_status :: "lrat \<Rightarrow> lrat checked" where
  "report_status s =
     (if num_finalized s = num_clauses s then Inr (s\<lparr>num_finalized := 0\<rparr>) else Inl Not_all_finalized)"

definition begin_proof :: "int \<Rightarrow> lrat \<Rightarrow> lrat" where
  "begin_proof cid s = s\<lparr>current_id := cid\<rparr>"

text \<open>The calls a proof makes, and a whole proof.\<close>

datatype lrat_call =
  Begin int
| Original int "int list" bool
| Derived int "int list" "int list"
| Delete int "int list"
| Weaken int "int list"
| Finalize int "int list"
| Assumption_clause int "int list" "int list"
| Assume_lit int
| Constrain_lits "int list"
| Reset_assumptions
| Conclude_unsat conclusion "int list"
| Report

primrec lrat_step :: "lrat_call \<Rightarrow> lrat \<Rightarrow> lrat checked" where
  "lrat_step (Begin cid) s = Inr (begin_proof cid s)"
| "lrat_step (Original cid c r) s = add_original_clause cid c r s"
| "lrat_step (Derived cid c chain) s = add_derived_clause cid c chain s"
| "lrat_step (Delete cid c) s = delete_clause cid c s"
| "lrat_step (Weaken cid c) s = weaken_minus cid c s"
| "lrat_step (Finalize cid c) s = finalize_clause cid c s"
| "lrat_step (Assumption_clause cid c chain) s = add_assumption_clause cid c chain s"
| "lrat_step (Assume_lit a) s = Inr (add_assumption a s)"
| "lrat_step (Constrain_lits c) s = Inr (add_constraint c s)"
| "lrat_step Reset_assumptions s = Inr (reset_assumptions s)"
| "lrat_step (Conclude_unsat concl ids) s = conclude_unsat concl ids s"
| "lrat_step Report s = report_status s"

fun run_lrat :: "lrat_call list \<Rightarrow> lrat \<Rightarrow> lrat checked" where
  "run_lrat [] s = Inr s"
| "run_lrat (a # as) s = and_then (lrat_step a s) (run_lrat as)"

end
