(* ===== verification/Lrat_Table.thy ===== *)
theory Lrat_Table
  imports Lrat_Checker
begin

text \<open>
  The hash table of the LRAT checker as a multiset of clauses: its invariant, the contract
  \<open>clause_table\<close> of search, insertion and removal, and the interpretation on the model.
\<close>

section \<open>The table as a multiset\<close>

definition db :: "lrat \<Rightarrow> lrat_clause multiset" where
  "db s = mset (concat (clauses s))"

definition hash_of :: "lrat \<Rightarrow> int \<Rightarrow> 64 word" where
  "hash_of s cid = nonces s ! nat (cid mod 4) * word_of_int cid"

text \<open>Every clause sits in the chain of its hash, which is the hash of its id.\<close>

definition table_ok :: "lrat \<Rightarrow> bool" where
  "table_ok s \<longleftrightarrow> num_clauses s = size (db s) \<and>
     (\<forall>h < length (clauses s). \<forall>c \<in> set (clauses s ! h).
        lc_hash c = hash_of s (lc_id c) \<and> reduce_hash (lc_hash c) (length (clauses s)) = h)"

lemma table_okD:
  assumes "table_ok s" "c \<in># db s"
  shows "lc_hash c = hash_of s (lc_id c)"
    and "c \<in> set (clauses s ! reduce_hash (lc_hash c) (length (clauses s)))"
    and "reduce_hash (lc_hash c) (length (clauses s)) < length (clauses s)"
proof -
  obtain h where h: "h < length (clauses s)" "c \<in> set (clauses s ! h)"
    using assms(2) by (auto simp only: db_def set_mset_mset in_concat_nth)
  then have "lc_hash c = hash_of s (lc_id c)" "reduce_hash (lc_hash c) (length (clauses s)) = h"
    using assms(1) unfolding table_ok_def by blast+
  with h show "lc_hash c = hash_of s (lc_id c)"
    "c \<in> set (clauses s ! reduce_hash (lc_hash c) (length (clauses s)))"
    "reduce_hash (lc_hash c) (length (clauses s)) < length (clauses s)"
    by simp_all
qed

lemma find_state: "snd (find cid s) = s\<lparr>last_hash := hash_of s cid\<rparr>"
  by (simp add: find_def compute_hash_def hash_of_def Let_def)

definition lookup :: "int \<Rightarrow> lrat \<Rightarrow> lrat_clause option" where
  "lookup cid s = fst (find cid s)"

lemma find_eq: "find cid s = (lookup cid s, s\<lparr>last_hash := hash_of s cid\<rparr>)"
  by (simp add: lookup_def find_state [symmetric])

lemma lookup_eq:
  "lookup cid s = (if clauses s = [] then None
     else List.find (\<lambda>c. lc_hash c = hash_of s cid \<and> lc_id c = cid)
            (clauses s ! reduce_hash (hash_of s cid) (length (clauses s))))"
  by (simp add: lookup_def find_def compute_hash_def hash_of_def size_clauses_def Let_def)

lemma lookup_cong:
  "clauses s = clauses t \<Longrightarrow> nonces s = nonces t \<Longrightarrow> lookup cid s = lookup cid t"
  by (simp add: lookup_eq hash_of_def)

lemma lookup_Some:
  assumes "lookup cid s = Some c"
  shows "c \<in># db s" "lc_id c = cid" "c \<in> set (clauses s ! reduce_hash (hash_of s cid) (length (clauses s)))"
proof -
  let ?h = "reduce_hash (hash_of s cid) (length (clauses s))"
  have ne: "clauses s \<noteq> []" using assms by (auto simp: lookup_eq split: if_splits)
  then have f: "List.find (\<lambda>c. lc_hash c = hash_of s cid \<and> lc_id c = cid) (clauses s ! ?h) = Some c"
    using assms by (simp add: lookup_eq)
  then show c: "c \<in> set (clauses s ! ?h)" and "lc_id c = cid"
    by (auto simp: find_Some_iff)
  have "?h < length (clauses s)" using ne by (intro reduce_hash_less) simp
  then show "c \<in># db s" using c by (auto simp: db_def)
qed

lemma lookup_None:
  assumes "table_ok s" "lookup cid s = None" "c \<in># db s"
  shows "lc_id c \<noteq> cid"
proof
  assume cid: "lc_id c = cid"
  note t = table_okD [OF assms(1,3)]
  have "clauses s \<noteq> []" using assms(3) by (auto simp: db_def)
  then have "List.find (\<lambda>c. lc_hash c = hash_of s cid \<and> lc_id c = cid)
      (clauses s ! reduce_hash (hash_of s cid) (length (clauses s))) = None"
    using assms(2) by (simp add: lookup_eq)
  then show False using t cid by (auto simp: find_None_iff)
qed

section \<open>Insertion and removal\<close>

definition rehash_step :: "nat \<Rightarrow> lrat_clause \<Rightarrow> lrat_clause list list \<Rightarrow> lrat_clause list list" where
  "rehash_step n c t = upd_nth t (reduce_hash (lc_hash c) n) (\<lambda>l. c # l)"

definition placed :: "nat \<Rightarrow> lrat_clause list list \<Rightarrow> bool" where
  "placed n t \<longleftrightarrow> length t = n \<and> (\<forall>h<n. \<forall>c \<in> set (t ! h). reduce_hash (lc_hash c) n = h)"

lemma rehash:
  assumes "placed n t" "0 < n"
  shows "placed n (fold (rehash_step n) cs t) \<and>
    mset (concat (fold (rehash_step n) cs t)) = mset cs + mset (concat t)"
  using assms(1)
proof (induction cs arbitrary: t)
  case (Cons c cs)
  have r: "reduce_hash (lc_hash c) n < length t"
    using Cons.prems assms(2) by (simp add: reduce_hash_less placed_def)
  have "placed n (rehash_step n c t)"
    using Cons.prems by (auto simp: rehash_step_def placed_def nth_upd_nth split: if_splits)
  then show ?case using Cons.IH mset_concat_upd [OF r] by (simp add: rehash_step_def)
qed simp

lemma enlarge_clauses_spec:
  assumes "table_ok s"
  shows "table_ok (enlarge_clauses s) \<and> db (enlarge_clauses s) = db s \<and> clauses (enlarge_clauses s) \<noteq> [] \<and>
    (\<exists>t. enlarge_clauses s = s\<lparr>clauses := t\<rparr>)"
proof -
  obtain n where n: "n = (if size_clauses s \<noteq> 0 then 2 * size_clauses s else 1)" "0 < n" by simp
  let ?t = "fold (rehash_step n) (concat (clauses s)) (replicate n [])"
  have e: "enlarge_clauses s = s\<lparr>clauses := ?t\<rparr>"
    by (simp add: enlarge_clauses_def rehash_step_def [abs_def] Let_def n(1))
  have "placed n (replicate n [])" by (auto simp: placed_def)
  note r = rehash [OF this n(2), of "concat (clauses s)"]
  have db: "db (enlarge_clauses s) = db s" unfolding e using r by (simp add: db_def)
  have len: "length ?t = n" using r by (simp add: placed_def)
  have "lc_hash c = hash_of s (lc_id c)" if "h < n" "c \<in> set (?t ! h)" for h c
  proof -
    have "c \<in> set (concat ?t)" unfolding in_concat_nth using that len by (intro exI [of _ h]) simp
    then have "c \<in># db (enlarge_clauses s)" by (simp add: e db_def)
    then have "c \<in># db s" by (simp only: db)
    then show ?thesis using table_okD(1) [OF assms] by blast
  qed
  then have "table_ok (enlarge_clauses s)"
    using r len assms db unfolding e by (auto simp: table_ok_def hash_of_def placed_def)
  moreover have "?t \<noteq> []" using len n(2) by (metis length_0_conv less_irrefl)
  ultimately show ?thesis using db e by auto
qed

lemma taut_fold_flags:
  "fst (fold taut_step c (A, b)) = set_flags True (map uminus c) A"
  by (induction c arbitrary: A b) (auto simp: taut_step_def Let_def)

lemma insert_clause_spec:
  assumes "table_ok s"
  obtains c t m where "lc_id c = last_id s" "lc_literals c = imported_clause s"
    and "lc_tautological c = snd (fold taut_step (imported_clause s) (checked_lits s, False))"
    and "insert_clause s = s\<lparr>clauses := t, num_clauses := m, last_hash := hash_of s (last_id s),
      checked_lits := set_flags False (map uminus (imported_clause s))
        (set_flags True (map uminus (imported_clause s)) (checked_lits s))\<rparr>"
    and "table_ok (insert_clause s)" "db (insert_clause s) = add_mset c (db s)"
proof -
  let ?s = "make_room s"
  have ok: "table_ok ?s" and same: "db ?s = db s" and ext: "\<exists>t. ?s = s\<lparr>clauses := t\<rparr>"
    using enlarge_clauses_spec [OF assms] assms by (auto simp: make_room_def intro: exI [of _ "clauses s"])
  have ne: "clauses ?s \<noteq> []"
  proof (cases "num_clauses s = size_clauses s")
    case False
    then have "clauses s \<noteq> []" using assms by (auto simp: table_ok_def size_clauses_def db_def)
    then show ?thesis using False by (simp add: make_room_def)
  qed (use enlarge_clauses_spec [OF assms] in \<open>simp add: make_room_def\<close>)
  obtain t where t: "?s = s\<lparr>clauses := t\<rparr>" using ext by blast
  have tne: "t \<noteq> []" using ne [unfolded t] by simp
  let ?hash = "hash_of s (last_id s)"
  let ?h = "reduce_hash ?hash (length t)"
  let ?imp = "imported_clause s"
  define c where "c = \<lparr>lc_hash = ?hash, lc_id = last_id s,
     lc_tautological = snd (fold taut_step ?imp (checked_lits s, False)), lc_literals = ?imp\<rparr>"
  have h: "?h < length t" using tne by (intro reduce_hash_less) simp
  have eq: "insert_clause s = s\<lparr>clauses := upd_nth t ?h (\<lambda>l. c # l), num_clauses := num_clauses s + 1,
      last_hash := ?hash, checked_lits := set_flags False (map uminus ?imp) (set_flags True (map uminus ?imp) (checked_lits s))\<rparr>"
    unfolding insert_clause_def t
    using taut_fold_flags [of ?imp "checked_lits s" False]
    by (cases "fold taut_step ?imp (checked_lits s, False)")
       (simp add: compute_hash_def hash_of_def new_clause_def size_clauses_def c_def Let_def)
  have dbt: "mset (concat t) = db s" using same unfolding t by (simp add: db_def)
  have "db (insert_clause s) = add_mset c (db s)"
    using mset_concat_upd [OF h, of c] dbt by (simp add: eq db_def)
  moreover have "table_ok (insert_clause s)"
  proof -
    have f: "clauses (insert_clause s) = upd_nth t ?h (\<lambda>l. c # l)"
      "num_clauses (insert_clause s) = num_clauses s + 1" "hash_of (insert_clause s) = hash_of s"
      by (simp_all add: eq hash_of_def fun_eq_iff)
    have "hash_of (s\<lparr>clauses := t\<rparr>) = hash_of s" by (simp add: hash_of_def fun_eq_iff)
    then have old: "lc_hash x = hash_of s (lc_id x) \<and> reduce_hash (lc_hash x) (length t) = k"
      if "k < length t" "x \<in> set (t ! k)" for x k
    proof -
      have "table_ok (s\<lparr>clauses := t\<rparr>)" using ok unfolding t .
      then have "\<forall>k < length (clauses (s\<lparr>clauses := t\<rparr>)). \<forall>x \<in> set (clauses (s\<lparr>clauses := t\<rparr>) ! k).
          lc_hash x = hash_of (s\<lparr>clauses := t\<rparr>) (lc_id x) \<and>
          reduce_hash (lc_hash x) (length (clauses (s\<lparr>clauses := t\<rparr>))) = k"
        unfolding table_ok_def by (rule conjunct2)
      from this [rule_format, of k x] that \<open>hash_of (s\<lparr>clauses := t\<rparr>) = hash_of s\<close>
      show ?thesis by auto
    qed
    have new: "lc_hash c = hash_of s (lc_id c) \<and> reduce_hash (lc_hash c) (length t) = ?h"
      by (simp add: c_def)
    have "lc_hash x = hash_of s (lc_id x) \<and> reduce_hash (lc_hash x) (length t) = k"
      if "k < length t" "x \<in> set (upd_nth t ?h (\<lambda>l. c # l) ! k)" for x k
    proof (cases "?h = k \<and> x = c")
      case True
      then show ?thesis using new by blast
    next
      case False
      then have "x \<in> set (t ! k)" using that by (auto simp: nth_upd_nth split: if_splits)
      then show ?thesis using old that(1) by blast
    qed
    moreover have "num_clauses s = size (db s)" using assms by (simp add: table_ok_def)
    ultimately show ?thesis
      unfolding table_ok_def f \<open>db (insert_clause s) = add_mset c (db s)\<close> length_upd_nth
      by (intro conjI allI impI ballI) (simp, blast+)
  qed
  moreover have "lc_id c = last_id s" "lc_literals c = imported_clause s"
    "lc_tautological c = snd (fold taut_step (imported_clause s) (checked_lits s, False))"
    by (simp_all add: c_def)
  ultimately show thesis using that [of c, OF _ _ _ eq] by blast
qed

text \<open>Removing the clause found, as \<open>delete_clause\<close> does.\<close>

lemma remove_found:
  assumes "table_ok s" "lookup cid s = Some d"
    and "clauses t = upd_nth (clauses s) (reduce_hash (hash_of s cid) (size_clauses s)) (remove1 d)"
    and "num_clauses t = num_clauses s - 1" "nonces t = nonces s"
  shows "table_ok t \<and> db t = db s - {#d#}"
proof -
  note l = lookup_Some [OF assms(2)]
  have "clauses s \<noteq> []" using l(1) by (auto simp: db_def)
  then have h: "reduce_hash (hash_of s cid) (size_clauses s) < length (clauses s)"
    unfolding size_clauses_def by (intro reduce_hash_less) simp
  have dbt: "db t = db s - {#d#}"
    unfolding db_def assms(3) using h l(3) by (intro mset_concat_remove) (simp_all add: size_clauses_def)
  moreover have "size (db s - {#d#}) = size (db s) - 1" using l(1) by (simp add: size_Diff_singleton)
  ultimately have "num_clauses t = size (db t)" using assms(1,4) by (simp add: table_ok_def)
  moreover have "length (clauses t) = length (clauses s)" using assms(3) by simp
  moreover have "c \<in> set (clauses s ! k)" if "k < length (clauses s)" "c \<in> set (clauses t ! k)" for k c
    using that set_remove1_subset [of d "clauses s ! k"] unfolding assms(3)
    by (auto simp: nth_upd_nth split: if_splits)
  moreover have "hash_of t = hash_of s" using assms(5) by (simp add: hash_of_def fun_eq_iff)
  ultimately show ?thesis using dbt assms(1) unfolding table_ok_def by (metis (no_types))
qed

section \<open>The contract of the table\<close>

text \<open>
  What the checking routines rely on: search returns a stored clause of that id and fails only
  when there is none, whatever the table looks like inside.
\<close>

locale clause_table =
  fixes inv :: "'s \<Rightarrow> bool"
    and stored :: "'s \<Rightarrow> lrat_clause multiset"
    and search :: "int \<Rightarrow> 's \<Rightarrow> lrat_clause option"
  assumes search_Some: "inv s \<Longrightarrow> search cid s = Some c \<Longrightarrow> c \<in># stored s \<and> lc_id c = cid"
    and search_None: "inv s \<Longrightarrow> search cid s = None \<Longrightarrow> c \<in># stored s \<Longrightarrow> lc_id c \<noteq> cid"
begin

lemma search_unique:
  assumes "inv s" "c \<in># stored s" "\<forall>d. d \<in># stored s \<longrightarrow> lc_id d = lc_id c \<longrightarrow> d = c"
  shows "search (lc_id c) s = Some c"
proof (cases "search (lc_id c) s")
  case None
  then show ?thesis using search_None assms(1,2) by blast
next
  case (Some d)
  then show ?thesis using search_Some [OF assms(1) Some] assms(3) by blast
qed

lemma search_present: "inv s \<Longrightarrow> search cid s \<noteq> None \<longleftrightarrow> (\<exists>c. c \<in># stored s \<and> lc_id c = cid)"
  using search_Some search_None by (metis option.exhaust)

end

interpretation lrat_table: clause_table table_ok db lookup
  by unfold_locales (use lookup_Some lookup_None in blast)+

end
