(* ===== verification/Lrat_Sound.thy ===== *)
theory Lrat_Sound
  imports Lrat_Table
begin

text \<open>
  What the LRAT checker accepts: a clause that passes \<open>check\<close> is implied by the stored clauses,
  a clause that passes \<open>check_blocked\<close> keeps them satisfiable when no stored clause repeats a
  literal.
\<close>

section \<open>Invariant\<close>

definition formula :: "lrat \<Rightarrow> int list set" where
  "formula s = lc_literals ` set_mset (db s)"

text \<open>The flag arrays fit, and every stored literal has a flag.\<close>

definition sized :: "lrat \<Rightarrow> bool" where
  "sized s \<longleftrightarrow> length (checked_lits s) = 2 * size_vars s \<and> length (marks s) = 2 * size_vars s \<and>
     (\<forall>c \<in> formula s. \<forall>lit \<in> set c. lit_in (size_vars s) lit)"

text \<open>Between two calls all flags are clear and nothing is imported.\<close>

definition lrat_inv :: "lrat \<Rightarrow> bool" where
  "lrat_inv s \<longleftrightarrow> table_ok s \<and> sized s \<and> flagged (checked_lits s) = {} \<and> flagged (marks s) = {} \<and>
     imported_clause s = []"

lemma formula_cong: "clauses s = clauses t \<Longrightarrow> formula s = formula t"
  by (simp add: formula_def db_def)

lemma lookup_formula: "lookup cid s = Some c \<Longrightarrow> lc_literals c \<in> formula s"
  using lookup_Some(1) by (auto simp: formula_def)

section \<open>Import\<close>

text \<open>Import extends the arrays and appends to the imported clause.\<close>

definition imported :: "int list \<Rightarrow> lrat \<Rightarrow> lrat \<Rightarrow> bool" where
  "imported c s s' \<longleftrightarrow> (\<exists>n A M.
     s' = s\<lparr>size_vars := n, checked_lits := A, marks := M, imported_clause := imported_clause s @ c\<rparr> \<and>
     size_vars s \<le> n \<and> length A = 2 * n \<and> length M = 2 * n \<and>
     flagged A = flagged (checked_lits s) \<and> flagged M = flagged (marks s) \<and> (\<forall>lit \<in> set c. lit_in n lit))"

lemma import_literal_imported:
  assumes "lit \<noteq> 0" "length (checked_lits s) = 2 * size_vars s" "length (marks s) = 2 * size_vars s"
  shows "imported [lit] s (import_literal lit s)"
proof (cases "nat \<bar>lit\<bar> \<ge> size_vars s")
  case True
  let ?n = "grow_to (nat \<bar>lit\<bar>) (if size_vars s \<noteq> 0 then 2 * size_vars s else 2)"
  have n: "size_vars s \<le> ?n" "nat \<bar>lit\<bar> < ?n"
    using grow_to_spec [of "if size_vars s \<noteq> 0 then 2 * size_vars s else 2" "nat \<bar>lit\<bar>"] by auto
  then show ?thesis
    using True assms unfolding imported_def
    by (intro exI [of _ ?n] exI [of _ "resize (2 * ?n) False (checked_lits s)"] exI [of _ "resize (2 * ?n) False (marks s)"])
      (simp add: import_literal_def enlarge_vars_def flagged_resize lit_in_def Let_def)
next
  case False
  then show ?thesis
    using assms unfolding imported_def
    by (intro exI [of _ "size_vars s"] exI [of _ "checked_lits s"] exI [of _ "marks s"])
      (simp add: import_literal_def lit_in_def Let_def)
qed

lemma imported_trans:
  assumes "imported c s t" "imported d t u"
  shows "imported (c @ d) s u"
proof -
  from assms(1) obtain n A M where t: "t = s\<lparr>size_vars := n, checked_lits := A, marks := M, imported_clause := imported_clause s @ c\<rparr>"
    "size_vars s \<le> n" "flagged A = flagged (checked_lits s)" "flagged M = flagged (marks s)" "\<forall>lit \<in> set c. lit_in n lit"
    unfolding imported_def by blast
  from assms(2) obtain m B N where u: "u = t\<lparr>size_vars := m, checked_lits := B, marks := N, imported_clause := imported_clause t @ d\<rparr>"
    "size_vars t \<le> m" "length B = 2 * m" "length N = 2 * m" "flagged B = flagged (checked_lits t)"
    "flagged N = flagged (marks t)" "\<forall>lit \<in> set d. lit_in m lit"
    unfolding imported_def by blast
  have "n \<le> m" using t(1) u(2) by simp
  then show ?thesis
    using t u unfolding imported_def
    by (intro exI [of _ m] exI [of _ B] exI [of _ N]) (auto intro: lit_in_mono)
qed

lemma import_clause_imported:
  assumes "0 \<notin> set c" "length (checked_lits s) = 2 * size_vars s" "length (marks s) = 2 * size_vars s"
  shows "imported c s (import_clause c s)"
  using assms
proof (induction c arbitrary: s)
  case Nil
  then show ?case
    unfolding imported_def
    by (intro exI [of _ "size_vars s"] exI [of _ "checked_lits s"] exI [of _ "marks s"])
      (simp add: import_clause_def)
next
  case (Cons lit c)
  have one: "imported [lit] s (import_literal lit s)" using Cons.prems by (intro import_literal_imported) auto
  then have "length (checked_lits (import_literal lit s)) = 2 * size_vars (import_literal lit s)"
    "length (marks (import_literal lit s)) = 2 * size_vars (import_literal lit s)"
    unfolding imported_def by auto
  then have "imported c (import_literal lit s) (import_clause c (import_literal lit s))"
    using Cons by simp
  from imported_trans [OF one this] show ?case by (simp add: import_clause_def)
qed

section \<open>Unit propagation along the chain\<close>

lemma scan_unit_spec:
  assumes "\<forall>lit \<in> set lits. lit \<noteq> 0" "scan_unit A lits unit \<noteq> INT_MIN"
  shows "(\<forall>lit \<in> set lits. A ! l2u (- lit) \<or> lit = scan_unit A lits unit) \<and>
    (unit \<noteq> 0 \<longrightarrow> scan_unit A lits unit = unit) \<and>
    (scan_unit A lits unit = unit \<or> scan_unit A lits unit \<in> set lits)"
  using assms
proof (induction lits arbitrary: unit)
  case (Cons lit lits)
  show ?case
  proof (cases "A ! l2u (- lit)")
    case True
    then show ?thesis using Cons.IH [of unit] Cons.prems by auto
  next
    case False
    then have "unit = 0 \<or> unit = lit" "scan_unit A (lit # lits) unit = scan_unit A lits lit"
      using Cons.prems(2) by (auto split: if_splits)
    then show ?thesis using Cons.IH [of lit] Cons.prems by auto
  qed
qed simp

lemma check_chain_state:
  "\<exists>A h. snd (check_chain ids used s) = s\<lparr>checked_lits := A, last_hash := h\<rparr> \<and>
     length A = length (checked_lits s)"
proof (induction ids arbitrary: used s)
  case Nil
  have "s = s\<lparr>checked_lits := checked_lits s, last_hash := last_hash s\<rparr>" by simp
  then show ?case by (metis check_chain.simps(1) snd_conv)
next
  case (Cons cid ids)
  let ?s = "s\<lparr>last_hash := hash_of s cid\<rparr>"
  have base: "\<exists>A h. ?s = s\<lparr>checked_lits := A, last_hash := h\<rparr> \<and> length A = length (checked_lits s)"
    by (intro exI [of _ "checked_lits s"] exI [of _ "hash_of s cid"]) simp
  show ?case
  proof (cases "lookup cid s")
    case None
    then show ?thesis using base by (simp add: find_eq)
  next
    case (Some c)
    let ?u = "scan_unit (checked_lits s) (lc_literals c) 0"
    let ?t = "?s\<lparr>checked_lits := (checked_lits s)[l2u ?u := True]\<rparr>"
    obtain A h where "snd (check_chain ids (cid # used) ?t) = ?t\<lparr>checked_lits := A, last_hash := h\<rparr>"
      "length A = length (checked_lits ?t)" using Cons.IH [of "cid # used" ?t] by blast
    then have "\<exists>A h. snd (check_chain ids (cid # used) ?t) = s\<lparr>checked_lits := A, last_hash := h\<rparr> \<and>
        length A = length (checked_lits s)"
      by (intro exI [of _ A] exI [of _ h]) simp
    then show ?thesis using base Some by (simp add: find_eq Let_def)
  qed
qed

lemma check_chain_sound:
  assumes "length (checked_lits s) = 2 * size_vars s" "\<forall>c \<in> formula s. \<forall>lit \<in> set c. lit_in (size_vars s) lit"
    and "models \<sigma> (formula s)" "\<forall>lit \<in> flagged (checked_lits s). lit_true \<sigma> lit"
  shows "\<not> fst (check_chain ids used s)"
  using assms
proof (induction ids arbitrary: used s)
  case (Cons cid ids)
  let ?n = "size_vars s" and ?A = "checked_lits s"
  show ?case
  proof (cases "lookup cid s")
    case None
    then show ?thesis by (simp add: find_eq)
  next
    case (Some c)
    let ?u = "scan_unit ?A (lc_literals c) 0"
    have c: "lc_literals c \<in> formula s" using Some by (rule lookup_formula)
    then have inr: "\<forall>lit \<in> set (lc_literals c). lit_in ?n lit" using Cons.prems(2) by blast
    have nz: "\<forall>lit \<in> set (lc_literals c). lit \<noteq> 0" using inr by (auto simp: lit_in_def)
    have false: "\<not> lit_true \<sigma> lit" if "lit \<in> set (lc_literals c)" "?A ! l2u (- lit)" for lit
    proof -
      have "- lit \<in> flagged ?A"
        using that inr Cons.prems(1) flag_iff [of ?n "- lit" ?A] by simp
      then have "lit_true \<sigma> (- lit)" using Cons.prems(4) by blast
      then show ?thesis using lit_true_uminus [of lit] nz that(1) by blast
    qed
    obtain k where k: "k \<in> set (lc_literals c)" "lit_true \<sigma> k"
      using Cons.prems(3) c by (auto simp: models_def clause_true_def)
    have key: "?u = k \<and> k \<noteq> 0" if "?u \<noteq> INT_MIN"
      using scan_unit_spec [OF nz that] k false nz by blast
    let ?t = "s\<lparr>last_hash := hash_of s cid, checked_lits := ?A[l2u ?u := True]\<rparr>"
    have "\<not> fst (check_chain ids (cid # used) ?t)" if u: "?u \<noteq> INT_MIN"
    proof (rule Cons.IH)
      have "flagged (?A[l2u ?u := True]) = insert k (flagged ?A)"
        using key [OF u] k(1) inr Cons.prems(1) flagged_True [of ?n k ?A] by simp
      then show "\<forall>lit \<in> flagged (checked_lits ?t). lit_true \<sigma> lit"
        using k(2) Cons.prems(4) by simp
    qed (use Cons.prems in \<open>simp_all add: formula_def db_def\<close>)
    then show ?thesis using Some key by (auto simp: find_eq Let_def)
  qed
qed simp

lemma taut_fold_taut:
  assumes "\<forall>lit \<in> set c. lit_in n lit" "length A = 2 * n" "snd (fold taut_step c (A, b))"
  shows "b \<or> (\<exists>lit \<in> set c. lit \<in> flagged A \<or> - lit \<in> set c)"
  using assms
proof (induction c arbitrary: A b)
  case (Cons k c)
  have k: "lit_in n k" "lit_in n (- k)" "k \<noteq> 0" using Cons.prems(1) by (auto simp: lit_in_def)
  let ?A = "A[l2u (- k) := True]" and ?b = "if k \<in> flagged A then True else b"
  have fl: "flagged ?A = insert (- k) (flagged A)" using k Cons.prems(2) by (simp add: flagged_True)
  have "?A ! l2u k \<longleftrightarrow> k \<in> flagged A"
    using flag_iff [OF k(1), of ?A] Cons.prems(2) fl k(3) by (simp add: eq_neg_iff_add_eq_0)
  then have "taut_step k (A, b) = (?A, ?b)" by (simp add: taut_step_def)
  then have "snd (fold taut_step c (?A, ?b))" using Cons.prems(3) by (simp del: taut_step_def)
  from Cons.IH [OF _ _ this] Cons.prems(1,2)
  have "?b \<or> (\<exists>lit \<in> set c. lit \<in> insert (- k) (flagged A) \<or> - lit \<in> set c)" unfolding fl by simp
  then show ?case by (auto split: if_splits)
qed simp

lemma taut_fold_sound:
  assumes "\<forall>lit \<in> set c. lit_in n lit" "length A = 2 * n" "flagged A = {}" "snd (fold taut_step c (A, False))"
  shows "clause_true \<sigma> c"
proof -
  obtain k where k: "k \<in> set c" "- k \<in> set c"
    using taut_fold_taut [OF assms(1,2,4)] assms(3) by auto
  then have "k \<noteq> 0" using assms(1) by (auto simp: lit_in_def)
  then show ?thesis using k lit_true_uminus [of k \<sigma>] by (auto simp: clause_true_def)
qed

text \<open>What \<open>check\<close> does to the state, and its soundness.\<close>

lemma check_spec:
  assumes "sized s" "flagged (checked_lits s) = {}" "\<forall>lit \<in> set (imported_clause s). lit_in (size_vars s) lit"
  obtains b A h where "check chain s = (b, s\<lparr>checked_lits := A, last_hash := h\<rparr>)"
    and "length A = 2 * size_vars s" "flagged A = {}"
    and "b \<Longrightarrow> implies (formula s) (imported_clause s)"
proof -
  let ?n = "size_vars s" and ?imp = "imported_clause s"
  have len: "length (checked_lits s) = 2 * ?n" using assms(1) by (simp add: sized_def)
  obtain B taut where f: "fold taut_step ?imp (checked_lits s, False) = (B, taut)" by fastforce
  have neg: "\<forall>lit \<in> set (map uminus ?imp). lit_in ?n lit" using assms(3) by auto
  have B: "B = set_flags True (map uminus ?imp) (checked_lits s)"
    using taut_fold_flags [of ?imp "checked_lits s" False] f by simp
  have flB: "flagged B = uminus ` set ?imp" "length B = 2 * ?n"
    unfolding B using flagged_set_flags [OF neg len] assms(2) len by simp_all
  have taut: "taut \<Longrightarrow> implies (formula s) ?imp"
    using taut_fold_sound [OF assms(3) len assms(2)] f by (auto simp: implies_def)
  show thesis
  proof (cases "taut \<or> chain = [] \<or> last chain < 0")
    case True
    let ?A = "set_flags False (map uminus ?imp) B"
    have "check chain s = (taut, s\<lparr>checked_lits := ?A, last_hash := last_hash s\<rparr>)"
      using True f by (simp add: check_def)
    moreover have "flagged ?A = {}" using flagged_set_flags [OF neg flB(2), of False] flB(1) by auto
    ultimately show thesis using that [of taut "last_hash s" ?A] taut flB(2) by simp
  next
    case False
    let ?s = "s\<lparr>checked_lits := B\<rparr>"
    obtain b t where ct: "check_chain chain [] ?s = (b, t)" by fastforce
    obtain A h where t: "t = s\<lparr>checked_lits := A, last_hash := h\<rparr>" "length A = 2 * ?n"
      using check_chain_state [of chain "[]" ?s] ct flB(2) by auto
    have "check chain s = (b, t\<lparr>checked_lits := replicate (length (checked_lits t)) False\<rparr>)"
      using False f ct by (simp add: check_def)
    then have eq: "check chain s = (b, s\<lparr>checked_lits := replicate (2 * ?n) False, last_hash := h\<rparr>)"
      using t by simp
    have sound: "implies (formula s) ?imp" if b
    proof -
      have "clause_true \<sigma> ?imp" if m: "models \<sigma> (formula s)" for \<sigma>
      proof (rule ccontr)
        assume not: "\<not> clause_true \<sigma> ?imp"
        have "lit_true \<sigma> lit" if l: "lit \<in> flagged B" for lit
        proof -
          from l obtain k where k: "k \<in> set ?imp" "lit = - k" unfolding flB(1) by blast
          then have "k \<noteq> 0" using assms(3) by (auto simp: lit_in_def)
          then show ?thesis using not k lit_true_uminus [of k \<sigma>] by (auto simp: clause_true_def)
        qed
        then have "\<not> fst (check_chain chain [] ?s)"
          using assms(1) flB(2) m by (intro check_chain_sound ballI) (auto simp: sized_def formula_def db_def)
        then show False using ct \<open>b\<close> by simp
      qed
      then show ?thesis by (simp add: implies_def)
    qed
    show thesis by (rule that [OF eq _ _ sound]) simp_all
  qed
qed

section \<open>The resolution check\<close>

lemma flagged_update_subset:
  "i < length A \<Longrightarrow> flagged (A[i := False]) \<subseteq> flagged A"
  by (auto simp: flagged_def nth_list_update split: if_splits)

text \<open>All flags set belong to literals in range.\<close>

definition in_range :: "nat \<Rightarrow> bool list \<Rightarrow> bool" where
  "in_range n A \<longleftrightarrow> length A = 2 * n \<and> (\<forall>lit \<in> flagged A. lit_in n lit)"

lemma in_range_update: "in_range n A \<Longrightarrow> lit_in n lit \<Longrightarrow> in_range n (A[l2u lit := b])"
  by (cases b) (auto simp: in_range_def flagged_True flagged_False)

lemma in_range_resolve:
  "\<lbrakk>in_range n A; \<forall>lit \<in> set lits. lit_in n lit\<rbrakk> \<Longrightarrow> in_range n (fold resolve_lit lits A)"
  by (induction lits arbitrary: A) (auto simp: resolve_lit_def in_range_update)

lemma in_range_set_flags:
  "\<lbrakk>in_range n A; \<forall>lit \<in> set lits. lit_in n lit\<rbrakk> \<Longrightarrow> in_range n (set_flags b lits A)"
  by (induction lits arbitrary: A) (auto simp: in_range_update)

lemma in_range_match:
  "\<lbrakk>in_range n A; \<forall>lit \<in> set lits. lit_in n lit; match_imported lits A = Some B\<rbrakk> \<Longrightarrow> in_range n B"
proof (induction lits arbitrary: A)
  case (Cons lit lits)
  let ?A = "(if \<not> A ! l2u lit then A[l2u lit := True] else A)[l2u (- lit) := True]"
  have "in_range n ?A" using Cons.prems(1,2) in_range_update [of n _ "- lit"] by (auto simp: in_range_update)
  moreover have "match_imported lits ?A = Some B" using Cons.prems(3) by (simp split: if_splits)
  ultimately show ?case using Cons.IH Cons.prems(2) by simp
qed simp

lemma resolve_chain_state:
  assumes "resolve_chain ids A s = Inr (B, t)" "in_range (size_vars s) A"
    and "\<forall>c \<in> formula s. \<forall>lit \<in> set c. lit_in (size_vars s) lit"
  shows "in_range (size_vars s) B \<and> (\<exists>h. t = s\<lparr>last_hash := h\<rparr>)"
  using assms
proof (induction ids arbitrary: A s)
  case Nil
  then show ?case by (auto intro: exI [of _ "last_hash s"])
next
  case (Cons cid ids)
  let ?s = "s\<lparr>last_hash := hash_of s cid\<rparr>"
  from Cons.prems(1) obtain c where c: "lookup cid s = Some c"
    "resolve_chain ids (fold resolve_lit (lc_literals c) A) ?s = Inr (B, t)"
    by (auto simp: find_eq split: option.splits)
  have "\<forall>lit \<in> set (lc_literals c). lit_in (size_vars s) lit"
    using Cons.prems(3) lookup_formula [OF c(1)] by blast
  then have "in_range (size_vars s) (fold resolve_lit (lc_literals c) A)"
    using Cons.prems(2) by (intro in_range_resolve)
  moreover have "formula ?s = formula s" by (simp add: formula_def db_def)
  ultimately have "in_range (size_vars s) B \<and> (\<exists>h. t = ?s\<lparr>last_hash := h\<rparr>)"
    using Cons.IH [OF c(2)] Cons.prems(3) by simp
  then show ?case by auto
qed

lemma match_vars_clear:
  assumes "in_range n A" "k \<le> n"
  shows "length (fst (fold match_var (map int [1..<k]) (A, f))) = 2 * n \<and>
    flagged (fst (fold match_var (map int [1..<k]) (A, f))) = {lit \<in> flagged A. k \<le> nat \<bar>lit\<bar>}"
  using assms(2)
proof (induction k)
  case 0
  then show ?case using assms(1) by (auto simp: in_range_def flagged_def)
next
  case (Suc k)
  show ?case
  proof (cases "k = 0")
    case True
    have "1 \<le> nat \<bar>lit\<bar>" if "lit \<in> flagged A" for lit using that by (auto simp: flagged_def)
    then show ?thesis using assms(1) True by (auto simp: in_range_def)
  next
    case False
    obtain B g where B: "fold match_var (map int [1..<k]) (A, f) = (B, g)" by fastforce
    have len: "length B = 2 * n" and fl: "flagged B = {lit \<in> flagged A. k \<le> nat \<bar>lit\<bar>}"
      using Suc B by simp_all
    have l: "lit_in n (int k)" "lit_in n (- int k)" using False Suc.prems by (auto simp: lit_in_def)
    have "fst (match_var (int k) (B, g)) = (B[l2u (- int k) := False])[l2u (int k) := False]"
      by (simp add: match_var_def Let_def)
    moreover have "flagged ((B[l2u (- int k) := False])[l2u (int k) := False]) = flagged B - {- int k} - {int k}"
      using l len by (simp add: flagged_False)
    moreover have "{lit \<in> flagged A. k \<le> nat \<bar>lit\<bar>} - {- int k} - {int k} = {lit \<in> flagged A. Suc k \<le> nat \<bar>lit\<bar>}"
      using False by auto
    ultimately show ?thesis using B False len fl by simp
  qed
qed

lemma check_resolution_spec:
  assumes "sized s" "flagged (checked_lits s) = {}" "\<forall>lit \<in> set (imported_clause s). lit_in (size_vars s) lit"
    and "check_resolution chain s = Inr (b, t)"
  shows "\<exists>h A. t = s\<lparr>checked_lits := A, last_hash := h\<rparr> \<and> length A = 2 * size_vars s \<and> flagged A = {}"
proof (cases "chain = [] \<or> last chain < 0")
  case True
  then have "t = s" using assms(4) by (cases "chain = []") (auto simp: check_resolution_def)
  then show ?thesis using assms(1,2)
    by (intro exI [of _ "last_hash s"] exI [of _ "checked_lits s"]) (simp add: sized_def)
next
  case False
  let ?n = "size_vars s" and ?s = "s\<lparr>last_hash := hash_of s (last chain)\<rparr>"
  have rng: "\<forall>c \<in> formula s. \<forall>lit \<in> set c. lit_in ?n lit" using assms(1) by (simp add: sized_def)
  from assms(4) False obtain c A u where c: "lookup (last chain) s = Some c"
    and rc: "resolve_chain (rev (butlast chain)) (set_flags True (lc_literals c) (checked_lits s)) ?s = Inr (A, u)"
    and res: "match_resolvent (A, u) = Inr (b, t)"
    by (cases "lookup (last chain) s") (auto simp: check_resolution_def find_eq and_then_Inr simp del: match_resolvent.simps)
  have "in_range ?n (checked_lits s)" using assms(1,2) by (simp add: in_range_def sized_def)
  then have "in_range ?n (set_flags True (lc_literals c) (checked_lits s))"
    using rng lookup_formula [OF c] by (intro in_range_set_flags) blast+
  then have u: "in_range ?n A" "\<exists>h. u = ?s\<lparr>last_hash := h\<rparr>"
    using resolve_chain_state [OF rc] rng by (simp_all add: formula_def db_def)
  from u(2) obtain h where h: "u = s\<lparr>last_hash := h\<rparr>" by auto
  show ?thesis
  proof (cases "match_imported (imported_clause s) A")
    case None
    then show ?thesis using res h u(1)
      by (intro exI [of _ h] exI [of _ "replicate (length A) False"]) (auto simp: in_range_def)
  next
    case (Some B)
    have "in_range ?n B" using in_range_match [OF u(1) assms(3) Some] .
    then have "length (fst (fold match_var (map int [1..<?n]) (B, False))) = 2 * ?n"
      "flagged (fst (fold match_var (map int [1..<?n]) (B, False))) = {}"
      using match_vars_clear [of ?n B ?n False] by (auto simp: in_range_def lit_in_def)
    then show ?thesis using res h Some
      by (intro exI [of _ h] exI [of _ "fst (fold match_var (map int [1..<?n]) (B, False))"])
        (cases "fold match_var (map int [1..<?n]) (B, False)", auto)
  qed
qed

section \<open>The blocked-clause check\<close>

text \<open>
  What the loop of \<open>check_blocked\<close> knows of a candidate that is still marked: a clause the
  chain names contains its negation and a second negated literal, the others do not contain it.
\<close>

definition blocked_by :: "int list \<Rightarrow> int list \<Rightarrow> lrat_clause \<Rightarrow> int \<Rightarrow> bool" where
  "blocked_by chain imp c lit \<longleftrightarrow>
     (if - lc_id c \<in> set chain
      then - lit \<in> set (lc_literals c) \<and> 2 \<le> length (filter (\<lambda>k. - k \<in> set imp) (lc_literals c))
      else - lit \<notin> set (lc_literals c))"

lemma unmark_outside:
  assumes "length M = 2 * n" "\<forall>lit \<in> set imp. lit_in n lit"
  shows "length (fold (\<lambda>lit M. if M ! l2u (- lit) \<and> - lit \<notin> C then M[l2u (- lit) := False] else M) imp M) = 2 * n \<and>
    flagged (fold (\<lambda>lit M. if M ! l2u (- lit) \<and> - lit \<notin> C then M[l2u (- lit) := False] else M) imp M) =
    flagged M - (uminus ` set imp - C)"
  using assms
proof (induction imp arbitrary: M)
  case (Cons lit imp)
  have l: "lit_in n (- lit)" using Cons.prems by simp
  let ?M = "if M ! l2u (- lit) \<and> - lit \<notin> C then M[l2u (- lit) := False] else M"
  have "length ?M = 2 * n" "flagged ?M = flagged M - ({- lit} - C)"
    using Cons.prems(1) l flag_iff [OF l, of M] by (auto simp: flagged_False)
  then show ?case using Cons.IH [of ?M] Cons.prems(2) by auto
qed simp

lemma unmark_checked:
  assumes "length M = 2 * n" "length A = 2 * n" "\<forall>lit \<in> set lits. lit_in n lit"
  shows "length (fold (\<lambda>lit M. if A ! l2u lit then M[l2u lit := False] else M) lits M) = 2 * n \<and>
    flagged (fold (\<lambda>lit M. if A ! l2u lit then M[l2u lit := False] else M) lits M) =
    flagged M - (set lits \<inter> flagged A)"
  using assms
proof (induction lits arbitrary: M)
  case (Cons lit lits)
  have l: "lit_in n lit" using Cons.prems by simp
  let ?M = "if A ! l2u lit then M[l2u lit := False] else M"
  have "length ?M = 2 * n" "flagged ?M = flagged M - ({lit} \<inter> flagged A)"
    using Cons.prems(1,2) l flag_iff [OF l, of A] by (auto simp: flagged_False)
  then show ?case using Cons.IH [of ?M] Cons.prems(2,3) by auto
qed simp

lemma blocked_clause_spec:
  assumes "length M = 2 * n" "length A = 2 * n" "\<forall>lit \<in> set imp. lit_in n lit"
    and "\<forall>lit \<in> set (lc_literals c). lit_in n lit" "flagged A = uminus ` set imp" "flagged M \<subseteq> uminus ` set imp"
    and "blocked_clause chain imp A c M = Some N"
  shows "length N = 2 * n \<and> flagged N \<subseteq> flagged M \<and> (\<forall>lit. - lit \<in> flagged N \<longrightarrow> blocked_by chain imp c lit)"
proof (cases "- lc_id c \<in> set chain")
  case True
  let ?cnd = "set (filter (\<lambda>lit. M ! l2u lit) (lc_literals c))"
  have cnd: "?cnd = {lit \<in> set (lc_literals c). lit \<in> flagged M}"
    using assms(1,4) flag_iff [of n _ M] by auto
  have "filter (\<lambda>lit. A ! l2u lit) (lc_literals c) = filter (\<lambda>k. - k \<in> set imp) (lc_literals c)"
  proof (rule filter_cong [OF refl])
    fix k assume "k \<in> set (lc_literals c)"
    then have "A ! l2u k \<longleftrightarrow> k \<in> flagged A" using assms(2,4) flag_iff [of n k A] by blast
    also have "\<dots> \<longleftrightarrow> - k \<in> set imp" unfolding assms(5) by (metis image_iff minus_minus)
    finally show "A ! l2u k \<longleftrightarrow> - k \<in> set imp" .
  qed
  then have N: "2 \<le> length (filter (\<lambda>k. - k \<in> set imp) (lc_literals c))"
    "N = fold (\<lambda>lit M. if M ! l2u (- lit) \<and> - lit \<notin> ?cnd then M[l2u (- lit) := False] else M) imp M"
    using assms(7) True by (auto simp: blocked_clause_def Let_def split: if_splits)
  then have "length N = 2 * n" "flagged N = flagged M - (uminus ` set imp - ?cnd)"
    using unmark_outside [OF assms(1,3), of ?cnd] by simp_all
  moreover from this(2) have "flagged N \<subseteq> ?cnd" using assms(6) by blast
  ultimately show ?thesis using N(1) True unfolding cnd by (auto simp: blocked_by_def)
next
  case False
  then have "N = fold (\<lambda>lit M. if A ! l2u lit then M[l2u lit := False] else M) (lc_literals c) M"
    using assms(7) by (simp add: blocked_clause_def)
  then have "length N = 2 * n" "flagged N = flagged M - (set (lc_literals c) \<inter> flagged A)"
    using unmark_checked [OF assms(1,2,4)] by simp_all
  then show ?thesis using False assms(5,6) unfolding blocked_by_def by auto
qed

lemma blocked_loop_spec:
  assumes "length M = 2 * n" "length A = 2 * n" "\<forall>lit \<in> set imp. lit_in n lit"
    and "\<forall>c \<in> set cs. \<forall>lit \<in> set (lc_literals c). lit_in n lit" "flagged A = uminus ` set imp"
    and "flagged M \<subseteq> uminus ` set imp" "blocked_loop chain imp A cs M = Some N"
  shows "length N = 2 * n \<and> flagged N \<subseteq> flagged M \<and>
    (\<forall>lit. - lit \<in> flagged N \<longrightarrow> (\<forall>c \<in> set cs. blocked_by chain imp c lit))"
  using assms
proof (induction cs arbitrary: M)
  case (Cons c cs)
  from Cons.prems(7) obtain M' where M': "blocked_clause chain imp A c M = Some M'"
    "blocked_loop chain imp A cs M' = Some N" by (auto split: option.splits)
  have c: "\<forall>lit \<in> set (lc_literals c). lit_in n lit" using Cons.prems(4) by simp
  have one: "length M' = 2 * n \<and> flagged M' \<subseteq> flagged M \<and> (\<forall>lit. - lit \<in> flagged M' \<longrightarrow> blocked_by chain imp c lit)"
    by (rule blocked_clause_spec [OF Cons.prems(1,2,3) c Cons.prems(5,6) M'(1)])
  then have "length N = 2 * n \<and> flagged N \<subseteq> flagged M' \<and>
      (\<forall>lit. - lit \<in> flagged N \<longrightarrow> (\<forall>c \<in> set cs. blocked_by chain imp c lit))"
    using Cons.prems M'(2) by (intro Cons.IH) auto
  then show ?case using one by auto
qed simp

lemma success_fold:
  assumes "length A = 2 * n" "length M = 2 * n" "\<forall>lit \<in> set imp. lit_in n lit"
  shows "\<exists>b A' M'. fold success_step imp (b0, A, M) = (b, A', M') \<and> length A' = 2 * n \<and> length M' = 2 * n \<and>
      flagged A' = flagged A - uminus ` set imp \<and> flagged M' = flagged M - uminus ` set imp \<and>
      (b \<longrightarrow> b0 \<or> (\<exists>lit \<in> set imp. - lit \<in> flagged M))"
  using assms
proof (induction imp arbitrary: b0 A M)
  case (Cons lit imp)
  have l: "lit_in n (- lit)" using Cons.prems(3) by simp
  let ?A = "A[l2u (- lit) := False]" and ?M = "M[l2u (- lit) := False]"
    and ?b = "if M ! l2u (- lit) then True else b0"
  have fl: "flagged ?A = flagged A - {- lit}" "flagged ?M = flagged M - {- lit}"
    by (rule flagged_False [OF l Cons.prems(1)], rule flagged_False [OF l Cons.prems(2)])
  have step: "success_step lit (b0, A, M) = (?b, ?A, ?M)" by (simp add: success_step_def)
  have "length ?A = 2 * n" "length ?M = 2 * n" "\<forall>lit \<in> set imp. lit_in n lit" using Cons.prems by auto
  from Cons.IH [OF this, of ?b] obtain b A' M' where r:
    "fold success_step imp (?b, ?A, ?M) = (b, A', M')"
    "length A' = 2 * n" "length M' = 2 * n" "flagged A' = flagged ?A - uminus ` set imp"
    "flagged M' = flagged ?M - uminus ` set imp"
    "b \<longrightarrow> ?b \<or> (\<exists>lit \<in> set imp. - lit \<in> flagged ?M)" by blast
  have "b \<longrightarrow> b0 \<or> (\<exists>lit \<in> set (lit # imp). - lit \<in> flagged M)"
    using r(6) flag_iff [OF l Cons.prems(2)] fl(2) by (auto split: if_splits)
  moreover have "flagged A' = flagged A - uminus ` set (lit # imp)" using r(4) fl(1) by auto
  moreover have "flagged M' = flagged M - uminus ` set (lit # imp)" using r(5) fl(2) by auto
  ultimately show ?case using r(1-3) step
    by (intro exI [of _ b] exI [of _ A'] exI [of _ M'] conjI) simp_all
qed simp

lemma check_blocked_spec:
  assumes "sized s" "flagged (checked_lits s) = {}" "flagged (marks s) = {}"
    and imp: "\<forall>lit \<in> set (imported_clause s). lit_in (size_vars s) lit"
  obtains b A M where "check_blocked chain s = (b, s\<lparr>checked_lits := A, marks := M\<rparr>)"
    and "length A = 2 * size_vars s" "length M = 2 * size_vars s" "flagged A = {}" "flagged M = {}"
    and "b \<Longrightarrow> \<exists>lit \<in> set (imported_clause s). \<forall>c \<in># db s. blocked_by chain (imported_clause s) c lit"
proof -
  let ?n = "size_vars s" and ?imp = "imported_clause s" and ?neg = "map uminus (imported_clause s)"
  have len: "length (checked_lits s) = 2 * ?n" "length (marks s) = 2 * ?n"
    and rng: "\<forall>c \<in> set (concat (clauses s)). \<forall>lit \<in> set (lc_literals c). lit_in ?n lit"
    using assms(1) by (auto simp: sized_def formula_def db_def)
  have neg: "\<forall>lit \<in> set ?neg. lit_in ?n lit" using imp by auto
  define A0 where "A0 = set_flags True ?neg (checked_lits s)"
  define M0 where "M0 = set_flags True ?neg (marks s)"
  have A0: "length A0 = 2 * ?n" "flagged A0 = uminus ` set ?imp"
    unfolding A0_def using flagged_set_flags [OF neg len(1)] len assms(2) by simp_all
  have M0: "length M0 = 2 * ?n" "flagged M0 = uminus ` set ?imp"
    unfolding M0_def using flagged_set_flags [OF neg len(2)] len assms(3) by simp_all
  show thesis
  proof (cases "blocked_loop chain ?imp A0 (concat (clauses s)) M0")
    case None
    have "check_blocked chain s = (False, s\<lparr>checked_lits := set_flags False ?neg A0, marks := set_flags False ?neg M0\<rparr>)"
      using None by (simp add: check_blocked_def blocked_scan_def mark_negations_def A0_def M0_def)
    then show thesis
      by (rule that) (use A0 M0 flagged_set_flags [OF neg A0(1), of False] flagged_set_flags [OF neg M0(1), of False] in auto)
  next
    case (Some N)
    have N: "length N = 2 * ?n" "flagged N \<subseteq> uminus ` set ?imp"
      "\<forall>lit. - lit \<in> flagged N \<longrightarrow> (\<forall>c \<in> set (concat (clauses s)). blocked_by chain ?imp c lit)"
      using blocked_loop_spec [OF M0(1) A0(1) imp rng A0(2) _ Some] M0(2) by auto
    from success_fold [OF A0(1) N(1) imp, of False] obtain b A' M' where r:
      "fold success_step ?imp (False, A0, N) = (b, A', M')" "length A' = 2 * ?n" "length M' = 2 * ?n"
      "flagged A' = flagged A0 - uminus ` set ?imp" "flagged M' = flagged N - uminus ` set ?imp"
      "b \<longrightarrow> (\<exists>lit \<in> set ?imp. - lit \<in> flagged N)" by blast
    have eq: "check_blocked chain s = (b, s\<lparr>checked_lits := A', marks := M'\<rparr>)"
      using Some r(1) by (simp add: check_blocked_def blocked_scan_def mark_negations_def A0_def M0_def)
    show thesis
    proof (rule that [OF eq])
      show "flagged A' = {}" "flagged M' = {}" using r(4,5) A0(2) N(2) by auto
      show "\<exists>lit \<in> set ?imp. \<forall>c \<in># db s. blocked_by chain ?imp c lit" if b
        using r(6) that N(3) by (auto simp: db_def)
    qed (use r in simp_all)
  qed
qed

text \<open>A blocked clause keeps satisfiability when the stored clauses have no repeated literals.\<close>

lemma two_distinct:
  assumes "distinct xs" "2 \<le> length (filter P xs)" "y \<in> set xs"
  shows "\<exists>k \<in> set xs. k \<noteq> y \<and> P k"
proof (rule ccontr)
  assume "\<not> ?thesis"
  then have "set (filter P xs) \<subseteq> {y}" by auto
  then have "card (set (filter P xs)) \<le> 1" using card_mono [of "{y}" "set (filter P xs)"] by simp
  moreover have "card (set (filter P xs)) = length (filter P xs)"
    using assms(1) by (intro distinct_card) simp
  ultimately show False using assms(2) by simp
qed

lemma blocked_sound:
  assumes "\<forall>c \<in># db s. blocked_by chain imp c lit" "lit \<in> set imp" "0 \<notin> set imp"
    and "\<forall>c \<in> formula s. distinct c \<and> 0 \<notin> set c" "satisfiable (formula s)"
  shows "satisfiable (insert imp (formula s))"
proof (rule blocked_satisfiable [OF assms(2,3) _ _ assms(5)])
  show "\<forall>d \<in> formula s. 0 \<notin> set d" using assms(4) by blast
  show "\<forall>d \<in> formula s. - lit \<in> set d \<longrightarrow> (\<exists>k \<in> set imp. k \<noteq> lit \<and> - k \<in> set d)"
  proof (intro ballI impI)
    fix d assume d: "d \<in> formula s" "- lit \<in> set d"
    then obtain c where c: "c \<in># db s" "d = lc_literals c" by (auto simp: formula_def)
    then have "blocked_by chain imp c lit" using assms(1) by blast
    then have "2 \<le> length (filter (\<lambda>k. - k \<in> set imp) d)"
      using d(2) c(2) by (auto simp: blocked_by_def split: if_splits)
    then obtain k where "k \<in> set d" "k \<noteq> - lit" "- k \<in> set imp"
      using two_distinct [of d _ "- lit"] assms(4) d by blast
    then show "\<exists>k \<in> set imp. k \<noteq> lit \<and> - k \<in> set d" by (intro bexI [of _ "- k"]) auto
  qed
qed

end
