(* ===== verification/Lrat_Props.thy ===== *)
theory Lrat_Props
  imports Lrat_Sound
begin

text \<open>
  The operations of the LRAT checker on its abstract state, the set of stored clauses, and the
  properties of whole proofs.
\<close>

section \<open>Preparing a clause\<close>

text \<open>The clause \<open>c\<close> is imported in \<open>s1\<close>, which stores what \<open>s\<close> stores.\<close>

definition ready :: "int list \<Rightarrow> lrat \<Rightarrow> lrat \<Rightarrow> bool" where
  "ready c s s1 \<longleftrightarrow> table_ok s1 \<and> sized s1 \<and> flagged (checked_lits s1) = {} \<and> flagged (marks s1) = {} \<and>
     imported_clause s1 = c \<and> (\<forall>lit \<in> set c. lit_in (size_vars s1) lit) \<and> db s1 = db s"

lemma readyD:
  assumes "ready c s s1"
  shows "table_ok s1" "sized s1" "flagged (checked_lits s1) = {}" "flagged (marks s1) = {}"
    "imported_clause s1 = c" "\<forall>lit \<in> set c. lit_in (size_vars s1) lit" "db s1 = db s"
  using assms unfolding ready_def by blast+

lemma lrat_invD:
  assumes "lrat_inv s"
  shows "table_ok s" "sized s" "flagged (checked_lits s) = {}" "flagged (marks s) = {}" "imported_clause s = []"
  using assms unfolding lrat_inv_def by blast+

lemma table_ok_cong:
  "clauses t = clauses s \<Longrightarrow> num_clauses t = num_clauses s \<Longrightarrow> nonces t = nonces s \<Longrightarrow> table_ok t = table_ok s"
  by (simp add: table_ok_def db_def hash_of_def)

lemma sized_cong:
  "\<lbrakk>clauses t = clauses s; size_vars t = size_vars s; length (checked_lits t) = length (checked_lits s);
    length (marks t) = length (marks s)\<rbrakk> \<Longrightarrow> sized t = sized s"
  by (simp add: sized_def formula_def db_def)

lemma ready_cong:
  assumes "ready c s s1" "clauses t = clauses s1" "num_clauses t = num_clauses s1" "nonces t = nonces s1"
    and "size_vars t = size_vars s1" "imported_clause t = imported_clause s1"
    and "length (checked_lits t) = length (checked_lits s1)" "length (marks t) = length (marks s1)"
    and "flagged (checked_lits t) = {}" "flagged (marks t) = {}"
  shows "ready c s t"
  using readyD [OF assms(1)] table_ok_cong [OF assms(2-4)] sized_cong [OF assms(2,5,7,8)] assms
  by (simp add: ready_def db_def)

lemma import_ready:
  assumes "lrat_inv s" "0 \<notin> set c"
  shows "ready c s (import_clause c s)"
proof -
  note inv = lrat_invD [OF assms(1)]
  have len: "length (checked_lits s) = 2 * size_vars s" "length (marks s) = 2 * size_vars s"
    using inv(2) by (simp_all add: sized_def)
  from import_clause_imported [OF assms(2) len] obtain n A M where i:
    "import_clause c s = s\<lparr>size_vars := n, checked_lits := A, marks := M, imported_clause := imported_clause s @ c\<rparr>"
    "size_vars s \<le> n" "length A = 2 * n" "length M = 2 * n" "flagged A = {}" "flagged M = {}" "\<forall>lit \<in> set c. lit_in n lit"
    unfolding imported_def using inv(3,4) by metis
  have "formula (import_clause c s) = formula s" unfolding i(1) by (simp add: formula_def db_def)
  then have "sized (import_clause c s)"
    using i inv(2) lit_in_mono unfolding sized_def by (simp add: i(1)) blast
  moreover have "table_ok (import_clause c s)"
    using inv(1) table_ok_cong [of "import_clause c s" s] by (simp add: i(1))
  ultimately show ?thesis using i inv(5) by (simp add: ready_def db_def)
qed

text \<open>The updates between import and insertion keep the clause ready.\<close>

lemma ready_ids [simp]:
  "ready c s (s1\<lparr>last_id := i\<rparr>) = ready c s s1"
  "ready c s (s1\<lparr>last_id := i, current_id := j\<rparr>) = ready c s s1"
  "ready c s (s1\<lparr>current_id := j\<rparr>) = ready c s s1"
  "ready c s (s1\<lparr>last_hash := h\<rparr>) = ready c s s1"
  by (simp_all add: ready_def table_ok_def sized_def formula_def db_def hash_of_def)

lemma ready_flags:
  assumes "ready c s s1" "length A = 2 * size_vars s1" "length M = 2 * size_vars s1" "flagged A = {}" "flagged M = {}"
  shows "ready c s (s1\<lparr>checked_lits := A, marks := M, last_hash := h\<rparr>)"
  using assms(1) by (rule ready_cong) (use assms readyD(2) [OF assms(1)] in \<open>simp_all add: sized_def\<close>)

lemma insert_ready:
  assumes "ready c s s1"
  obtains d where "lrat_inv ((insert_clause s1)\<lparr>imported_clause := []\<rparr>)" "lc_literals d = c" "lc_id d = last_id s1"
    and "db ((insert_clause s1)\<lparr>imported_clause := []\<rparr>) = add_mset d (db s)"
proof -
  note r = readyD [OF assms]
  obtain d t m where d: "lc_id d = last_id s1" "lc_literals d = imported_clause s1"
    "insert_clause s1 = s1\<lparr>clauses := t, num_clauses := m, last_hash := hash_of s1 (last_id s1),
      checked_lits := set_flags False (map uminus (imported_clause s1))
        (set_flags True (map uminus (imported_clause s1)) (checked_lits s1))\<rparr>"
    "table_ok (insert_clause s1)" "db (insert_clause s1) = add_mset d (db s1)"
    by (rule insert_clause_spec [OF r(1)])
  let ?t = "(insert_clause s1)\<lparr>imported_clause := []\<rparr>"
  have len: "length (checked_lits s1) = 2 * size_vars s1" "length (marks s1) = 2 * size_vars s1"
    using r(2) by (simp_all add: sized_def)
  have neg: "\<forall>lit \<in> set (map uminus c). lit_in (size_vars s1) lit" using r(6) by auto
  have db: "db ?t = add_mset d (db s)" using d(5) r(7) by (simp add: db_def)
  have form: "formula ?t = insert c (formula s1)" using db d(2) r(5,7) by (simp add: formula_def)
  have tok: "table_ok ?t" using d(4) table_ok_cong [of ?t "insert_clause s1"] by simp
  have fl: "flagged (checked_lits ?t) = {}"
    using flagged_set_flags [OF neg, of "set_flags True (map uminus c) (checked_lits s1)" False]
      flagged_set_flags [OF neg len(1), of True] len r(3,5) by (simp add: d(3))
  have "sized ?t"
    using r(2,6) len unfolding sized_def form by (auto simp: d(3))
  then have "lrat_inv ?t" using tok fl r(4) by (simp add: lrat_inv_def d(3))
  then show thesis using that d(1,2) r(5) db by blast
qed

section \<open>The operations\<close>

text \<open>A clause may be stored when it is implied, or blocked in the sense of the checker.\<close>

definition justified :: "int list \<Rightarrow> int list \<Rightarrow> lrat \<Rightarrow> bool" where
  "justified chain c s \<longleftrightarrow> implies (formula s) c \<or> (\<exists>lit \<in> set c. \<forall>d \<in># db s. blocked_by chain c d lit)"

lemma add_derived_spec:
  assumes "lrat_inv s" "0 \<notin> set c" "add_derived_clause cid c chain s = Inr t"
  obtains d where "lrat_inv t" "lc_literals d = c" "lc_id d = cid" "db t = add_mset d (db s)"
    and "justified chain c s" "\<forall>e \<in># db s. lc_id e \<noteq> cid"
proof -
  let ?s0 = "(import_clause c s)\<lparr>last_id := cid, current_id := cid\<rparr>"
  have r0: "ready c s ?s0" using import_ready [OF assms(1,2)] by simp
  obtain e s1 where f: "find_present False cid ?s0 = (e, s1)" by fastforce
  then have r1: "ready c s s1" and "last_id s1 = cid" using r0 by (auto simp: find_present_def find_eq split: if_splits)
  note R = readyD [OF r1]
  have e: "e = None" and
    rest: "and_then (check_rup chain (check chain s1)) (conclude_check chain) = Inr t"
    using assms(3) f by (cases e, auto simp: add_derived_clause_def)+
  have fresh: "\<forall>x \<in># db s. lc_id x \<noteq> cid"
  proof (cases "size_clauses ?s0 \<noteq> 0")
    case True
    then have "lookup cid ?s0 = None" using f e by (simp add: find_present_def find_eq)
    then have "\<forall>x \<in># db ?s0. lc_id x \<noteq> cid" using lookup_None readyD(1) [OF r0] by blast
    then show ?thesis using readyD(7) [OF r0] by simp
  next
    case False
    then have "db ?s0 = {#}" by (simp add: size_clauses_def db_def)
    then show ?thesis using readyD(7) [OF r0] by simp
  qed
  obtain rup A h where ck: "check chain s1 = (rup, s1\<lparr>checked_lits := A, last_hash := h\<rparr>)"
    and A: "length A = 2 * size_vars s1" "flagged A = {}"
    and imp: "rup \<Longrightarrow> implies (formula s1) c"
    using check_spec [OF R(2,3), of chain] R(5,6) by metis
  let ?s2 = "s1\<lparr>checked_lits := A, last_hash := h\<rparr>"
  have r2: "ready c s ?s2"
    using r1 by (rule ready_cong) (use A R(2,4) in \<open>simp_all add: sized_def\<close>)
  obtain ok s3 where cr: "check_rup chain (rup, ?s2) = Inr (ok, s3)" and cc: "conclude_check chain (ok, s3) = Inr t"
    using rest unfolding ck and_then_Inr by force
  have r3: "ready c s s3" and l3: "last_id s3 = cid" and okrup: "ok \<Longrightarrow> rup"
  proof -
    show "ok \<Longrightarrow> rup" using cr by (auto split: if_splits)
    show "ready c s s3"
    proof (cases rup)
      case True
      then have "check_resolution chain ?s2 = Inr (ok, s3)" using cr by simp
      from check_resolution_spec [OF readyD(2,3) [OF r2] _ this] readyD(5,6) [OF r2]
      obtain B k where "s3 = ?s2\<lparr>checked_lits := B, last_hash := k\<rparr>" "length B = 2 * size_vars ?s2" "flagged B = {}"
        by metis
      then show ?thesis
        by (intro ready_cong [OF r2]) (use readyD(2,4) [OF r2] in \<open>simp_all add: sized_def\<close>)
    qed (use cr r2 in simp)
    show "last_id s3 = cid"
    proof (cases rup)
      case True
      then have "check_resolution chain ?s2 = Inr (ok, s3)" using cr by simp
      from check_resolution_spec [OF readyD(2,3) [OF r2] _ this] readyD(5,6) [OF r2]
      obtain B k where "s3 = ?s2\<lparr>checked_lits := B, last_hash := k\<rparr>" by metis
      then show ?thesis using \<open>last_id s1 = cid\<close> by simp
    qed (use cr \<open>last_id s1 = cid\<close> in auto)
  qed
  obtain fin s4 where fin: "check_else_blocked chain (ok, s3) = (fin, s4)" by fastforce
  have fin': "fin" and t: "t = insert_imported s4"
    using cc unfolding conclude_check_def fin by (simp_all split: if_splits)
  have forms: "formula s1 = formula s" "db s3 = db s" using R(7) readyD(7) [OF r3] by (simp_all add: formula_def)
  have r4: "ready c s s4" and l4: "last_id s4 = cid" and j: "justified chain c s"
  proof -
    obtain b B M where cb: "check_blocked chain s3 = (b, s3\<lparr>checked_lits := B, marks := M\<rparr>)"
      "length B = 2 * size_vars s3" "length M = 2 * size_vars s3" "flagged B = {}" "flagged M = {}"
      "b \<Longrightarrow> \<exists>lit \<in> set c. \<forall>d \<in># db s3. blocked_by chain c d lit"
      using check_blocked_spec [OF readyD(2,3,4) [OF r3], of chain] readyD(5,6) [OF r3] by metis
    have "ready c s (s3\<lparr>checked_lits := B, marks := M\<rparr>)"
      by (intro ready_cong [OF r3]) (use cb readyD(2) [OF r3] in \<open>simp_all add: sized_def\<close>)
    then show "ready c s s4" using fin cb(1) r3 by (auto split: if_splits)
    show "last_id s4 = cid" using fin cb(1) l3 by (auto split: if_splits)
    show "justified chain c s"
      using fin fin' cb(1,6) imp okrup forms by (auto simp: justified_def split: if_splits)
  qed
  obtain d where "lrat_inv t" "lc_literals d = c" "lc_id d = cid" "db t = add_mset d (db s)"
    using insert_ready [OF r4] l4 unfolding t insert_imported_def by metis
  then show thesis using that j fresh by blast
qed

lemma restore_clause_spec:
  "restore_clause cid c s = Inr t \<Longrightarrow>
   (\<exists>d. clauses_to_reconstruct s cid = Some d \<and> sort c = d) \<and>
   t = s\<lparr>clauses_to_reconstruct := (clauses_to_reconstruct s)(cid := None)\<rparr>"
  by (auto simp: restore_clause_def split: option.splits if_splits)

lemma lrat_inv_cong:
  assumes "lrat_inv s" "clauses t = clauses s" "num_clauses t = num_clauses s" "nonces t = nonces s"
    and "size_vars t = size_vars s" "imported_clause t = []" "checked_lits t = checked_lits s" "marks t = marks s"
  shows "lrat_inv t \<and> db t = db s"
  using lrat_invD [OF assms(1)] table_ok_cong [OF assms(2-4)] sized_cong [OF assms(2,5)] assms(2,6-8)
  by (simp add: lrat_inv_def db_def)

lemma add_original_spec:
  assumes "lrat_inv s" "0 \<notin> set c" "add_original_clause cid c r s = Inr t"
  shows "lrat_inv t \<and> formula t = insert c (formula s)"
proof -
  obtain s0 where s0: "(if r then restore_clause cid c s else Inr s) = Inr s0"
    and e0: "enter_original cid c r s0 = Inr t"
    using assms(3) unfolding add_original_clause_def and_then_Inr by blast
  then have i0: "lrat_inv s0" "db s0 = db s"
    using lrat_inv_cong [OF assms(1), of s0] restore_clause_spec [of cid c s s0] assms(1) lrat_invD(5) [OF assms(1)]
    by (auto split: if_splits)
  let ?s1 = "(import_clause c s0)\<lparr>last_id := cid\<rparr>"
  let ?s2 = "count_original cid r ?s1"
  have "ready c s0 (import_clause c s0)" by (rule import_ready [OF i0(1) assms(2)])
  then have "ready c s0 ?s2" by (simp add: count_original_def)
  moreover obtain d s3 where f: "find_present r cid ?s2 = (d, s3)" by fastforce
  ultimately have r3: "ready c s0 s3" by (auto simp: find_present_def find_eq split: if_splits)
  have t: "t = insert_imported s3" using e0 unfolding enter_original_def f by (cases d) simp_all
  obtain e where "lrat_inv t" "lc_literals e = c" "db t = add_mset e (db s0)"
    using insert_ready [OF r3] unfolding t insert_imported_def by metis
  then show ?thesis using i0(2) by (simp add: formula_def)
qed

lemma confirm_spec:
  assumes "ready c s s1" "confirm_literals d s1 = Inr t" "d \<in># db s1"
  shows "ready c s t \<and> set (lc_literals d) \<subseteq> set c \<and> (\<exists>M. t = s1\<lparr>marks := M\<rparr>)"
proof -
  note r = readyD [OF assms(1)]
  have len: "length (marks s1) = 2 * size_vars s1" using r(2) by (simp add: sized_def)
  let ?M = "set_flags True c (marks s1)"
  have M: "flagged ?M = set c" "length ?M = 2 * size_vars s1"
    using flagged_set_flags [OF r(6) len, of True] r(4) len by simp_all
  have t: "t = s1\<lparr>marks := set_flags False c ?M\<rparr>" "\<forall>lit \<in> set (lc_literals d). ?M ! l2u lit"
    using assms(2) r(5) by (auto simp: confirm_literals_def Let_def split: if_splits)
  have "\<forall>lit \<in> set (lc_literals d). lit_in (size_vars s1) lit"
    using r(2) assms(3) by (auto simp: sized_def formula_def)
  then have "set (lc_literals d) \<subseteq> set c" using t(2) flag_iff [OF _ M(2)] M(1) by blast
  moreover have "ready c s t"
    by (intro ready_cong [OF assms(1)]) (use t r len flagged_set_flags [OF r(6) M(2), of False] M(1) in auto)
  ultimately show ?thesis using t(1) by blast
qed

text \<open>Finding and confirming a clause, which deletion, weakening and finalisation share.\<close>

lemma confirm_found_Inr:
  "confirm_found r f = Inr t \<longleftrightarrow>
   (\<exists>d s1 s2. r = (Some d, s1) \<and> confirm_literals d s1 = Inr s2 \<and> f d s2 = Inr t)"
proof -
  obtain x s1 where r: "r = (x, s1)" by (cases r)
  show ?thesis unfolding r by (cases x) (simp_all add: and_then_Inr)
qed

lemma find_confirm:
  assumes "lrat_inv s" "0 \<notin> set c" "s0 = (import_clause c s)\<lparr>last_id := cid\<rparr>"
    and "find cid s0 = (Some d, s1)" "confirm_literals d s1 = Inr t"
  shows "ready c s t \<and> d \<in># db s \<and> lc_id d = cid \<and> set (lc_literals d) \<subseteq> set c \<and>
    lookup cid t = Some d \<and> last_hash t = hash_of t cid"
proof -
  have r0: "ready c s s0" using import_ready [OF assms(1,2)] assms(3) by simp
  have l: "lookup cid s0 = Some d" "s1 = s0\<lparr>last_hash := hash_of s0 cid\<rparr>"
    using assms(4) by (simp_all add: find_eq)
  have r1: "ready c s s1" using r0 l(2) by simp
  have d: "d \<in># db s1" "lc_id d = cid" using lookup_Some [OF l(1)] l(2) by (simp_all add: db_def)
  note c = confirm_spec [OF r1 assms(5) d(1)]
  then obtain M where "t = s1\<lparr>marks := M\<rparr>" by blast
  then have "lookup cid t = Some d" "last_hash t = hash_of t cid"
    using l lookup_cong [of t s0 cid] by (simp_all add: hash_of_def)
  then show ?thesis using c d readyD(7) [OF r1] by simp
qed

lemma ready_done: "ready c s t \<Longrightarrow> lrat_inv (t\<lparr>imported_clause := []\<rparr>) \<and> db (t\<lparr>imported_clause := []\<rparr>) = db s"
  using readyD [of c s t] table_ok_cong [of "t\<lparr>imported_clause := []\<rparr>" t] sized_cong [of "t\<lparr>imported_clause := []\<rparr>" t]
  by (simp add: lrat_inv_def) (simp add: db_def)

lemma delete_clause_spec:
  assumes "lrat_inv s" "0 \<notin> set c" "delete_clause cid c s = Inr t"
  obtains d where "lrat_inv t" "db t = db s - {#d#}" "d \<in># db s" "lc_id d = cid" "set (lc_literals d) \<subseteq> set c"
proof -
  obtain d s1 s2 where f: "find cid ((import_clause c s)\<lparr>last_id := cid\<rparr>) = (Some d, s1)"
    "confirm_literals d s1 = Inr s2" and t: "remove_clause d s2 = Inr t"
    using assms(3) unfolding delete_clause_def find_imported_def confirm_found_Inr by blast
  note fc = find_confirm [OF assms(1,2) refl f]
  then have r: "ready c s s2" and l: "lookup cid s2 = Some d" "last_hash s2 = hash_of s2 cid" by blast+
  have ct: "clauses t = upd_nth (clauses s2) (reduce_hash (hash_of s2 cid) (size_clauses s2)) (remove1 d)"
    "num_clauses t = num_clauses s2 - 1" "nonces t = nonces s2" "size_vars t = size_vars s2"
    "checked_lits t = checked_lits s2" "marks t = marks s2" "imported_clause t = []"
    using t l(2) by (auto simp: remove_clause_def maybe_collect_def unlink_clause_def collect_garbage_clauses_def)
  note R = readyD [OF r]
  have rm: "table_ok t \<and> db t = db s2 - {#d#}" by (rule remove_found [OF R(1) l(1) ct(1-3)])
  then have "formula t \<subseteq> formula s2" by (auto simp: formula_def dest: in_diffD)
  then have "sized t" using R(2) ct by (auto simp: sized_def)
  then have "lrat_inv t" using rm R ct by (simp add: lrat_inv_def)
  then show thesis using that fc rm R(7) by simp
qed

lemma weaken_minus_spec:
  assumes "lrat_inv s" "0 \<notin> set c" "weaken_minus cid c s = Inr t"
  shows "lrat_inv t \<and> db t = db s \<and> (\<exists>d. d \<in># db s \<and> lc_id d = cid \<and> set (lc_literals d) \<subseteq> set c)"
proof -
  obtain d s1 s2 where f: "find cid ((import_clause c s)\<lparr>last_id := cid\<rparr>) = (Some d, s1)"
    "confirm_literals d s1 = Inr s2"
    and s: "save_clause cid c d s2 = Inr t"
    using assms(3) unfolding weaken_minus_def find_imported_def confirm_found_Inr by blast
  then have t: "t = s2\<lparr>imported_clause := [], clauses_to_reconstruct := (clauses_to_reconstruct s2)(cid \<mapsto> sort c)\<rparr>"
    by (simp add: save_clause_def)
  note fc = find_confirm [OF assms(1,2) refl f]
  then have "lrat_inv (s2\<lparr>imported_clause := []\<rparr>)" "db (s2\<lparr>imported_clause := []\<rparr>) = db s"
    using ready_done by blast+
  then show ?thesis using fc lrat_inv_cong [of "s2\<lparr>imported_clause := []\<rparr>" t] t by auto
qed

lemma finalize_clause_spec:
  assumes "lrat_inv s" "0 \<notin> set c" "finalize_clause cid c s = Inr t"
  shows "lrat_inv t \<and> db t = db s"
proof -
  let ?u = "s\<lparr>num_finalized := num_finalized s + 1\<rparr>"
  have u: "lrat_inv ?u" "db ?u = db s" using lrat_inv_cong [OF assms(1), of ?u] lrat_invD(5) [OF assms(1)] by auto
  obtain d s1 s2 where f: "find cid ((import_clause c ?u)\<lparr>last_id := cid\<rparr>) = (Some d, s1)"
    "confirm_literals d s1 = Inr s2" and t: "t = s2\<lparr>imported_clause := []\<rparr>"
    using assms(3) by (auto simp: finalize_clause_def find_imported_def confirm_found_Inr finish_clause_def)
  then show ?thesis using find_confirm [OF u(1) assms(2) refl f] ready_done u(2) by metis
qed

lemma only_assumed_iff:
  "only_assumed c s \<longleftrightarrow> (\<forall>lit \<in> set c. - lit \<in> set (assumptions s) \<union> set (constraint s))"
  by (induction c) auto

lemma add_assumption_clause_spec:
  assumes "lrat_inv s" "0 \<notin> set c" "add_assumption_clause cid c chain s = Inr t"
  shows "lrat_inv t \<and> db t = db s \<and> justified chain c s \<and>
    (\<forall>lit \<in> set c. - lit \<in> set (assumptions s) \<union> set (constraint s))"
proof -
  obtain s1 s2 where d: "add_derived_clause cid c chain s = Inr s1" "delete_clause cid c s1 = Inr s2"
    and t: "t = s2\<lparr>assumption_clauses := assumption_clauses s2 @ [cid]\<rparr>" and o: "only_assumed c s"
    using assms(3) by (auto simp: add_assumption_clause_def note_assumption_clause_def and_then_Inr split: if_splits)
  obtain e where e: "lrat_inv s1" "lc_id e = cid" "db s1 = add_mset e (db s)" "justified chain c s"
    "\<forall>x \<in># db s. lc_id x \<noteq> cid"
    by (rule add_derived_spec [OF assms(1,2) d(1)])
  obtain x where x: "lrat_inv s2" "db s2 = db s1 - {#x#}" "x \<in># db s1" "lc_id x = cid"
    by (rule delete_clause_spec [OF e(1) assms(2) d(2)])
  have "x = e" using x(3,4) e(3,5) by auto
  then have "db s2 = db s" using x(2) e(3) by simp
  moreover have "lrat_inv t" "db t = db s2"
    using lrat_inv_cong [OF x(1), of t] t lrat_invD(5) [OF x(1)] by auto
  moreover have "\<forall>lit \<in> set c. - lit \<in> set (assumptions s) \<union> set (constraint s)"
    using o by (rule only_assumed_iff [THEN iffD1])
  ultimately show ?thesis using e(4) by simp
qed

section \<open>Whole proofs\<close>

primrec call_lits :: "lrat_call \<Rightarrow> int list" where
  "call_lits (Begin cid) = []"
| "call_lits (Original cid c r) = c"
| "call_lits (Derived cid c chain) = c"
| "call_lits (Delete cid c) = c"
| "call_lits (Weaken cid c) = c"
| "call_lits (Finalize cid c) = c"
| "call_lits (Assumption_clause cid c chain) = c"
| "call_lits (Assume_lit a) = []"
| "call_lits (Constrain_lits c) = []"
| "call_lits Reset_assumptions = []"
| "call_lits (Conclude_unsat concl ids) = []"
| "call_lits Report = []"

text \<open>Literals are not zero, which the assertions of the code check.\<close>

definition call_ok :: "lrat_call \<Rightarrow> bool" where
  "call_ok a \<longleftrightarrow> 0 \<notin> set (call_lits a)"

definition is_original :: "lrat_call \<Rightarrow> bool" where
  "is_original a \<longleftrightarrow> (case a of Original cid c r \<Rightarrow> True | _ \<Rightarrow> False)"

text \<open>What a call may do to the stored clauses.\<close>

definition effect :: "lrat_call \<Rightarrow> lrat \<Rightarrow> lrat \<Rightarrow> bool" where
  "effect a s t \<longleftrightarrow>
     (case a of
        Original cid c r \<Rightarrow> formula t = insert c (formula s)
      | Derived cid c chain \<Rightarrow> formula t = insert c (formula s) \<and> justified chain c s
      | Delete cid c \<Rightarrow> formula t \<subseteq> formula s
      | _ \<Rightarrow> formula t = formula s)"

lemma conclude_unsat_state:
  assumes "conclude_unsat concl ids s = Inr t"
  shows "\<exists>h. t = s\<lparr>concluded := True, last_hash := h\<rparr>"
proof (cases "concl = CONFLICT")
  case True
  then have "t = s\<lparr>concluded := True, last_hash := hash_of (s\<lparr>concluded := True\<rparr>) (last ids)\<rparr>"
    using assms by (cases "lookup (last ids) (s\<lparr>concluded := True\<rparr>)")
      (auto simp: conclude_unsat_def find_eq split: if_splits)
  then show ?thesis by blast
next
  case False
  then have "t = s\<lparr>concluded := True, last_hash := last_hash s\<rparr>"
    using assms by (simp add: conclude_unsat_def Let_def split: if_splits)
  then show ?thesis by blast
qed

lemma formula_db: "db t = db s \<Longrightarrow> formula t = formula s"
  by (simp add: formula_def)

lemma inv_other:
  assumes "lrat_inv s"
    and "clauses t = clauses s" "num_clauses t = num_clauses s" "nonces t = nonces s" "size_vars t = size_vars s"
    and "imported_clause t = imported_clause s" "checked_lits t = checked_lits s" "marks t = marks s"
  shows "lrat_inv t \<and> formula t = formula s"
proof -
  have "imported_clause t = []" using assms(6) lrat_invD(5) [OF assms(1)] by simp
  then show ?thesis using lrat_inv_cong [OF assms(1-5) _ assms(7,8)] formula_db by blast
qed

lemma lrat_step_effect:
  assumes inv: "lrat_inv s" and ok: "call_ok a" and step: "lrat_step a s = Inr t"
  shows "lrat_inv t \<and> effect a s t"
proof (cases a)
  case (Begin cid)
  then have "t = begin_proof cid s" using step by simp
  then have "lrat_inv t \<and> formula t = formula s" by (intro inv_other [OF inv]) (simp_all add: begin_proof_def)
  then show ?thesis using Begin by (simp add: effect_def)
next
  case (Original cid c r)
  then have "0 \<notin> set c" "add_original_clause cid c r s = Inr t" using ok step by (simp_all add: call_ok_def)
  from add_original_spec [OF inv this] show ?thesis using Original by (simp add: effect_def)
next
  case (Derived cid c chain)
  then have "0 \<notin> set c" "add_derived_clause cid c chain s = Inr t" using ok step by (simp_all add: call_ok_def)
  obtain d where d: "lrat_inv t" "lc_literals d = c" "lc_id d = cid" "db t = add_mset d (db s)"
    "justified chain c s" "\<forall>e \<in># db s. lc_id e \<noteq> cid"
    by (rule add_derived_spec [OF inv \<open>0 \<notin> set c\<close> \<open>add_derived_clause cid c chain s = Inr t\<close>])
  then have "formula t = insert c (formula s)" by (simp add: formula_def)
  with d Derived show ?thesis by (simp add: effect_def)
next
  case (Delete cid c)
  then have "0 \<notin> set c" "delete_clause cid c s = Inr t" using ok step by (simp_all add: call_ok_def)
  obtain d where d: "lrat_inv t" "db t = db s - {#d#}" "d \<in># db s" "lc_id d = cid" "set (lc_literals d) \<subseteq> set c"
    by (rule delete_clause_spec [OF inv \<open>0 \<notin> set c\<close> \<open>delete_clause cid c s = Inr t\<close>])
  then have "formula t \<subseteq> formula s" by (auto simp: formula_def dest: in_diffD)
  with d Delete show ?thesis by (simp add: effect_def)
next
  case (Weaken cid c)
  then have "0 \<notin> set c" "weaken_minus cid c s = Inr t" using ok step by (simp_all add: call_ok_def)
  from weaken_minus_spec [OF inv this] show ?thesis using Weaken formula_db [of t s] by (simp add: effect_def)
next
  case (Finalize cid c)
  then have "0 \<notin> set c" "finalize_clause cid c s = Inr t" using ok step by (simp_all add: call_ok_def)
  from finalize_clause_spec [OF inv this] show ?thesis using Finalize formula_db [of t s] by (simp add: effect_def)
next
  case (Assumption_clause cid c chain)
  then have "0 \<notin> set c" "add_assumption_clause cid c chain s = Inr t" using ok step by (simp_all add: call_ok_def)
  from add_assumption_clause_spec [OF inv this] show ?thesis
    using Assumption_clause formula_db [of t s] by (simp add: effect_def)
next
  case (Assume_lit x)
  then have "t = add_assumption x s" using step by simp
  then have "lrat_inv t \<and> formula t = formula s" by (intro inv_other [OF inv]) (simp_all add: add_assumption_def)
  then show ?thesis using Assume_lit by (simp add: effect_def)
next
  case (Constrain_lits c)
  then have "t = add_constraint c s" using step by simp
  then have "lrat_inv t \<and> formula t = formula s" by (intro inv_other [OF inv]) (simp_all add: add_constraint_def)
  then show ?thesis using Constrain_lits by (simp add: effect_def)
next
  case Reset_assumptions
  then have "t = reset_assumptions s" using step by simp
  then have "lrat_inv t \<and> formula t = formula s" by (intro inv_other [OF inv]) (simp_all add: reset_assumptions_def)
  then show ?thesis using Reset_assumptions by (simp add: effect_def)
next
  case (Conclude_unsat concl ids)
  then obtain h where "t = s\<lparr>concluded := True, last_hash := h\<rparr>"
    using step conclude_unsat_state [of concl ids s t] by auto
  then have "lrat_inv t \<and> formula t = formula s" by (intro inv_other [OF inv]) simp_all
  then show ?thesis using Conclude_unsat by (simp add: effect_def)
next
  case Report
  then have "t = s\<lparr>num_finalized := 0\<rparr>" using step by (simp add: report_status_def split: if_splits)
  then have "lrat_inv t \<and> formula t = formula s" by (intro inv_other [OF inv]) simp_all
  then show ?thesis using Report by (simp add: effect_def)
qed

lemma init_lrat_inv: "lrat_inv (init_lrat ns) \<and> formula (init_lrat ns) = {}"
  by (simp add: lrat_inv_def init_lrat_def table_ok_def sized_def formula_def db_def flagged_def)

lemma run_lrat_append: "run_lrat (as @ bs) s = and_then (run_lrat as s) (run_lrat bs)"
proof (induction as arbitrary: s)
  case (Cons a as)
  then have "run_lrat (as @ bs) = (\<lambda>u. and_then (run_lrat as u) (run_lrat bs))" by (simp add: fun_eq_iff)
  then show ?case by (simp add: and_then_assoc)
qed simp

lemma run_lrat_inv:
  "\<lbrakk>lrat_inv s; \<forall>a \<in> set as. call_ok a; run_lrat as s = Inr t\<rbrakk> \<Longrightarrow> lrat_inv t"
proof (induction as arbitrary: s)
  case (Cons a as)
  then obtain u where "lrat_step a s = Inr u" "run_lrat as u = Inr t" by (auto simp: and_then_Inr)
  moreover from this have "lrat_inv u" using Cons.prems lrat_step_effect [of s a u] by simp
  ultimately show ?case using Cons by simp
qed simp

text \<open>Stored clauses come from the calls.\<close>

lemma effect_formula:
  "effect a s t \<Longrightarrow> formula t \<subseteq> insert (call_lits a) (formula s)"
  by (cases a) (auto simp: effect_def)

definition call_distinct :: "lrat_call \<Rightarrow> bool" where
  "call_distinct a \<longleftrightarrow> call_ok a \<and> distinct (call_lits a)"

lemma effect_satisfiable:
  assumes "effect a s t" "\<not> is_original a" "call_ok a" "\<forall>c \<in> formula s. distinct c \<and> 0 \<notin> set c"
    and "satisfiable (formula s)"
  shows "satisfiable (formula t)"
proof (cases a)
  case (Derived cid c chain)
  then have t: "formula t = insert c (formula s)" and j: "justified chain c s"
    using assms(1) by (simp_all add: effect_def)
  show ?thesis
  proof (cases "implies (formula s) c")
    case True
    then show ?thesis using satisfiable_implied assms(5) t by metis
  next
    case False
    then obtain lit where "lit \<in> set c" "\<forall>d \<in># db s. blocked_by chain c d lit"
      using j by (auto simp: justified_def)
    then show ?thesis
      using blocked_sound [of s chain c lit] assms(3-5) t Derived by (simp add: call_ok_def)
  qed
qed (use assms in \<open>auto simp: effect_def is_original_def satisfiable_def intro: models_mono\<close>)

lemma run_lrat_satisfiable:
  assumes "lrat_inv s" "\<forall>a \<in> set as. call_distinct a \<and> \<not> is_original a" "run_lrat as s = Inr t"
    and "\<forall>c \<in> formula s. distinct c \<and> 0 \<notin> set c" "satisfiable (formula s)"
  shows "satisfiable (formula t)"
  using assms
proof (induction as arbitrary: s)
  case (Cons a as)
  then obtain u where u: "lrat_step a s = Inr u" "run_lrat as u = Inr t" by (auto simp: and_then_Inr)
  have ok: "call_ok a" "distinct (call_lits a)" using Cons.prems(2) by (simp_all add: call_distinct_def)
  have e: "lrat_inv u" "effect a s u" using lrat_step_effect [OF Cons.prems(1) ok(1) u(1)] by blast+
  have "\<forall>c \<in> formula u. distinct c \<and> 0 \<notin> set c"
    using effect_formula [OF e(2)] Cons.prems(4) ok by (auto simp: call_ok_def)
  moreover have "satisfiable (formula u)"
    using effect_satisfiable [OF e(2) _ ok(1) Cons.prems(4,5)] Cons.prems(2) by simp
  ultimately show ?case using Cons.IH [OF e(1) _ u(2)] Cons.prems(2) by simp
qed simp

text \<open>Adding the original clauses \<open>fs\<close>, with their ids.\<close>

definition originals :: "(int \<times> int list) list \<Rightarrow> lrat_call list" where
  "originals fs = map (\<lambda>(cid, c). Original cid c False) fs"

lemma run_originals:
  assumes "lrat_inv s" "\<forall>c \<in> snd ` set fs. 0 \<notin> set c" "run_lrat (originals fs) s = Inr t"
  shows "lrat_inv t \<and> formula t = formula s \<union> snd ` set fs"
  using assms
proof (induction fs arbitrary: s)
  case (Cons f fs)
  obtain cid c where f: "f = (cid, c)" by fastforce
  then obtain u where u: "lrat_step (Original cid c False) s = Inr u" "run_lrat (originals fs) u = Inr t"
    using Cons.prems(3) by (auto simp: originals_def and_then_Inr)
  have "lrat_inv u \<and> formula u = insert c (formula s)"
    using add_original_spec [OF Cons.prems(1), of c cid False u] u(1) Cons.prems(2) f by simp
  then show ?case using Cons.IH [OF _ _ u(2)] Cons.prems(2) f by auto
qed (simp add: originals_def)

lemma conclude_conflict:
  assumes "conclude_unsat CONFLICT ids s = Inr t"
  shows "[] \<in> formula s"
proof -
  obtain d where "lookup (last ids) (s\<lparr>concluded := True\<rparr>) = Some d" "lc_literals d = []"
    using assms by (cases "lookup (last ids) (s\<lparr>concluded := True\<rparr>)")
      (auto simp: conclude_unsat_def find_eq split: if_splits)
  then show ?thesis using lookup_formula [of "last ids" "s\<lparr>concluded := True\<rparr>" d] by (simp add: formula_def db_def)
qed

text \<open>An accepted proof that ends with the empty clause.\<close>

lemma refutation_sound:
  assumes "run_lrat (originals fs @ as @ [Conclude_unsat CONFLICT ids]) (init_lrat ns) = Inr t"
    and "\<forall>c \<in> snd ` set fs. distinct c \<and> 0 \<notin> set c" "\<forall>a \<in> set as. call_distinct a \<and> \<not> is_original a"
  shows "\<not> satisfiable (snd ` set fs)"
proof
  assume sat: "satisfiable (snd ` set fs)"
  obtain s1 s2 where r: "run_lrat (originals fs) (init_lrat ns) = Inr s1" "run_lrat as s1 = Inr s2"
    "conclude_unsat CONFLICT ids s2 = Inr t"
    using assms(1) by (auto simp: run_lrat_append and_then_Inr)
  have s1: "lrat_inv s1" "formula s1 = snd ` set fs"
    using run_originals [OF _ _ r(1)] init_lrat_inv assms(2) by auto
  have "satisfiable (formula s2)"
    using run_lrat_satisfiable [OF s1(1) assms(3) r(2)] assms(2) sat unfolding s1(2) by blast
  moreover have "[] \<in> formula s2" by (rule conclude_conflict [OF r(3)])
  ultimately show False by (auto simp: satisfiable_def models_def)
qed

section \<open>The properties\<close>

text \<open>Nonces for the witnesses: odd, as the constructor makes them.\<close>

abbreviation nonces4 :: "64 word list" where
  "nonces4 \<equiv> [1, 3, 5, 7]"

text \<open>
  C14. Soundness of refutations: when the checker accepts a proof that starts from the original
  clauses \<open>fs\<close>, makes any calls but further originals and concludes with the empty clause, the
  original clauses are unsatisfiable, provided no clause of the proof repeats a literal.
\<close>

theorem lrat_refutation_sound:
  assumes "run_lrat (originals fs @ as @ [Conclude_unsat CONFLICT ids]) (init_lrat ns) = Inr t"
    and "\<forall>c \<in> snd ` set fs. distinct c \<and> 0 \<notin> set c" "\<forall>a \<in> set as. call_distinct a \<and> \<not> is_original a"
  shows "\<not> satisfiable (snd ` set fs)"
  by (rule refutation_sound [OF assms])

lemma lrat_refutation_sound_witness:
  "\<not> satisfiable {[1, 2], [1, -2], [-1]}"
proof -
  have "accepted (run_lrat (originals [(1, [1, 2]), (2, [1, -2]), (3, [-1])] @
      [Derived 4 [1] [1, 2], Delete 1 [1, 2], Derived 5 [] [4, 3]] @ [Conclude_unsat CONFLICT [5]]) (init_lrat nonces4))"
    by code_simp
  then show ?thesis
    unfolding accepted_iff
    using lrat_refutation_sound [of "[(1, [1, 2]), (2, [1, -2]), (3, [-1])]"
        "[Derived 4 [1] [1, 2], Delete 1 [1, 2], Derived 5 [] [4, 3]]" "[5]" nonces4]
    by (auto simp: call_distinct_def call_ok_def is_original_def)
qed

end
