(* ===== verification/Lrat_Claims.thy ===== *)
theory Lrat_Claims
  imports Lrat_Props
begin

text \<open>
  Further properties of the LRAT checker: its invariant along a proof, what a derived clause
  owes to the stored ones, ids, weakening and restoring, and the proofs it accepts although it
  should not.
\<close>

text \<open>
  C15. Between two calls of a proof whose clauses have no zero literal the flags are clear, the
  flag arrays cover the stored literals and every clause sits in the chain of its hash.
\<close>

theorem lrat_run_invariant:
  assumes "run_lrat as (init_lrat ns) = Inr t" "\<forall>a \<in> set as. call_ok a"
  shows "lrat_inv t"
  using run_lrat_inv [OF _ assms(2,1)] init_lrat_inv by blast

lemma lrat_run_invariant_witness:
  "\<exists>t. run_lrat [Original 1 [1, 2] False, Original 2 [1, -2] False, Derived 3 [1] [1, 2], Delete 1 [2, 1]]
     (init_lrat nonces4) = Inr t \<and> lrat_inv t"
proof -
  let ?as = "[Original 1 [1, 2] False, Original 2 [1, -2] False, Derived 3 [1] [1, 2], Delete 1 [2, 1]]"
  have "accepted (run_lrat ?as (init_lrat nonces4))" by code_simp
  then obtain t where t: "run_lrat ?as (init_lrat nonces4) = Inr t" unfolding accepted_iff by blast
  have "lrat_inv t" by (rule lrat_run_invariant [OF t]) (simp add: call_ok_def)
  then show ?thesis using t by blast
qed

text \<open>
  C16. A derived clause that is accepted is stored, and it is implied by the stored clauses or
  blocked on one of its literals: every stored clause with the negated literal is named in the
  chain and clashes with the new clause twice.
\<close>

theorem lrat_derived_justified:
  assumes "lrat_inv s" "0 \<notin> set c" "add_derived_clause cid c chain s = Inr t"
  shows "formula t = insert c (formula s) \<and>
    (implies (formula s) c \<or> (\<exists>lit \<in> set c. \<forall>d \<in># db s. blocked_by chain c d lit))"
proof -
  obtain d where "lrat_inv t" "lc_literals d = c" "lc_id d = cid" "db t = add_mset d (db s)"
    "justified chain c s" "\<forall>e \<in># db s. lc_id e \<noteq> cid"
    by (rule add_derived_spec [OF assms])
  then show ?thesis by (simp add: formula_def justified_def)
qed

lemma lrat_derived_justified_witness:
  "\<exists>t. add_derived_clause 1 [2] [] (init_lrat nonces4) = Inr t \<and> formula t = insert [2] (formula (init_lrat nonces4))"
proof -
  have "accepted (add_derived_clause 1 [2] [] (init_lrat nonces4))" by code_simp
  then obtain t where t: "add_derived_clause 1 [2] [] (init_lrat nonces4) = Inr t" unfolding accepted_iff by blast
  then show ?thesis using lrat_derived_justified [OF conjunct1 [OF init_lrat_inv] _ t] by simp
qed

text \<open>The first search of an addition sees the stored clauses.\<close>

lemma find_present_ready:
  assumes "ready c s s1"
  shows "(\<exists>d. fst (find_present False cid s1) = Some d) \<longleftrightarrow> (\<exists>d. d \<in># db s \<and> lc_id d = cid)"
proof -
  have "lookup cid s1 \<noteq> None \<longleftrightarrow> (\<exists>d. d \<in># db s1 \<and> lc_id d = cid)"
    by (rule lrat_table.search_present [OF readyD(1) [OF assms]])
  then have found: "(\<exists>d. lookup cid s1 = Some d) \<longleftrightarrow> (\<exists>d. d \<in># db s \<and> lc_id d = cid)"
    unfolding readyD(7) [OF assms] by (simp only: not_None_eq)
  show ?thesis
  proof (cases "size_clauses s1 = 0")
    case True
    then have "db s = {#}" using readyD(7) [OF assms] by (simp add: size_clauses_def db_def)
    then show ?thesis using True by (simp add: find_present_def)
  qed (simp add: find_present_def find_eq found)
qed

text \<open>
  An original clause is refused as present exactly when a stored clause has its id, and a
  derived clause is refused then.
\<close>

lemma lrat_ids_unique:
  assumes "lrat_inv s" "0 \<notin> set c"
  shows "(add_original_clause cid c False s = Inl Different_clause_present \<longleftrightarrow> (\<exists>d. d \<in># db s \<and> lc_id d = cid)) \<and>
    ((\<exists>d. d \<in># db s \<and> lc_id d = cid) \<longrightarrow> add_derived_clause cid c chain s = Inl Different_clause_present)"
proof (intro conjI impI)
  have r: "ready c s (import_clause c s)" by (rule import_ready [OF assms])
  let ?o = "count_original cid False ((import_clause c s)\<lparr>last_id := cid\<rparr>)"
  let ?d = "(import_clause c s)\<lparr>last_id := cid, current_id := cid\<rparr>"
  have "ready c s ?o" using r by (simp add: count_original_def)
  from find_present_ready [OF this, of cid]
  show "add_original_clause cid c False s = Inl Different_clause_present \<longleftrightarrow> (\<exists>d. d \<in># db s \<and> lc_id d = cid)"
    by (cases "find_present False cid ?o"; cases "fst (find_present False cid ?o)")
      (simp_all add: add_original_clause_def enter_original_def)
  assume "\<exists>d. d \<in># db s \<and> lc_id d = cid"
  moreover have "ready c s ?d" using r by simp
  note find_present_ready [OF this, of cid]
  ultimately show "add_derived_clause cid c chain s = Inl Different_clause_present"
    by (cases "find_present False cid ?d"; cases "fst (find_present False cid ?d)")
      (simp_all add: add_derived_clause_def)
qed

lemma sort_eq_iff: "sort d = sort c \<longleftrightarrow> mset d = mset (c :: int list)"
  by (metis mset_sort properties_for_sort sorted_sort)

text \<open>
  C17. Weakening and restoring: a weakened clause can be restored exactly with the same
  literals, in any order, and only once.
\<close>

theorem lrat_weaken_restore:
  assumes "weaken_minus cid c s = Inr t"
  shows "(accepted (restore_clause cid d t) \<longleftrightarrow> mset d = mset c) \<and>
    (restore_clause cid d t = Inr u \<longrightarrow> restore_clause cid e u = Inl Not_weakened)"
proof -
  obtain x s2 where "save_clause cid c x s2 = Inr t"
    using assms unfolding weaken_minus_def find_imported_def confirm_found_Inr by blast
  then have t: "clauses_to_reconstruct t cid = Some (sort c)" by (auto simp: save_clause_def)
  have "restore_clause cid e u = Inl Not_weakened" if "restore_clause cid d t = Inr u"
  proof -
    have "clauses_to_reconstruct u cid = None" using restore_clause_spec [OF that] by simp
    then show ?thesis by (simp add: restore_clause_def)
  qed
  then show ?thesis using t by (simp add: restore_clause_def sort_eq_iff)
qed

lemma lrat_weaken_restore_witness:
  "\<exists>t. and_then (add_original_clause 1 [2, 1] False (init_lrat nonces4)) (weaken_minus 1 [1, 2]) = Inr t \<and>
     accepted (restore_clause 1 [2, 1] t) \<and> \<not> accepted (restore_clause 1 [2] t)"
proof -
  have "accepted (and_then (add_original_clause 1 [2, 1] False (init_lrat nonces4)) (weaken_minus 1 [1, 2]))"
    by code_simp
  then obtain s t where t: "and_then (add_original_clause 1 [2, 1] False (init_lrat nonces4)) (weaken_minus 1 [1, 2]) = Inr t"
    "weaken_minus 1 [1, 2] s = Inr t"
    unfolding accepted_iff and_then_Inr by blast
  have "accepted (restore_clause 1 [2, 1] t)" "\<not> accepted (restore_clause 1 [2] t)"
    using lrat_weaken_restore [OF t(2), of "[2, 1]" t "[]"] lrat_weaken_restore [OF t(2), of "[2]" t "[]"]
    by (simp_all add: add_mset_commute)
  then show ?thesis using t(1) by blast
qed

section \<open>Proofs accepted in error\<close>

text \<open>
  The condition of C14 that clauses do not repeat literals is needed: \<open>check_blocked\<close> counts
  a repeated literal twice, so that the unit clause \<open>1\<close> passes as blocked although \<open>-1 -1\<close> is
  stored, and the refutation of a satisfiable clause is accepted.
\<close>

lemma lrat_repeated_literals_unsound:
  "accepted (run_lrat [Original 1 [-1, -1] False, Derived 2 [1] [-1], Derived 3 [] [2, 1],
     Conclude_unsat CONFLICT [3]] (init_lrat nonces4)) \<and> satisfiable {[-1, -1]}"
proof
  show "satisfiable {[-1, -1]}"
    by (auto simp: satisfiable_def models_def clause_true_def lit_true_def)
qed code_simp

text \<open>
  An assumption clause that is only blocked is accepted: with no clause at all and the
  assumption \<open>1\<close>, the checker confirms that the assumption failed.
\<close>

lemma lrat_blocked_assumption_accepted:
  "accepted (run_lrat [Assume_lit 1, Assumption_clause 1 [-1] [], Conclude_unsat ASSUMPTIONS [1]]
     (init_lrat nonces4)) \<and> \<not> implies {} [-1]"
proof
  show "\<not> implies {} [-1]"
    by (auto simp: implies_def models_def clause_true_def lit_true_def)
qed code_simp

text \<open>
  A chain may go on with an unknown id behind the clause that is falsified: \<open>check\<close> does
  not look at it, \<open>check_resolution\<close> follows the null pointer.
\<close>

lemma lrat_unknown_id_after_conflict:
  "error_of (run_lrat [Original 1 [1] False, Original 2 [-1] False, Derived 3 [] [1, 2, 9]]
     (init_lrat nonces4)) = Some Null_clause"
  by code_simp

end
