(* ===== verification/Drup_Checker.thy ===== *)
theory Drup_Checker
  imports Proof_Base
begin

unbundle bit_operations_syntax

text \<open>
  CaDiCaL's internal forward proof checker: \<open>src/src/main/cpp/cadical/src/checker.cpp\<close> and
  \<open>checker.hpp\<close>.

  The record \<open>checker\<close> is the class \<open>Checker\<close>. Clauses are shared between the hash table, the
  watcher lists and the garbage list, so they live in \<open>heap\<close> and are referred to by their
  address; \<open>freed\<close> lists the addresses given back by \<open>delete_clause (CheckerClause *)\<close>. The array
  \<open>vals\<close>, which the code indexes by signed literals, is a list of \<open>2 * size_vars\<close> entries indexed
  by \<open>lit + size_vars\<close>. A call of \<open>fatal_message_end\<close> is the left of a sum. Left out: the
  statistics, logging, and the flags the code ignores. Assertions are not checked; a value read
  outside of \<open>vals\<close>, which they exclude, counts as assigned, and a search in a table without
  chains finds nothing.
\<close>

section \<open>State\<close>

record checker_clause =
  cc_hash :: "64 word"
  cc_size :: nat  \<comment> \<open>zero if this is a garbage clause\<close>
  cc_literals :: "int list"

record checker_watch =
  blit :: int
  wsize :: nat
  wclause :: nat

record checker =
  size_vars :: nat
  vals :: "int list"
  watchers :: "checker_watch list list"
  marks :: "bool list"
  inconsistent :: bool
  num_clauses :: nat
  num_garbage :: nat
  clauses :: "nat list list"
  garbage :: "nat list"
  unsimplified :: "int list"
  simplified :: "int list"
  trail :: "int list"
  next_to_propagate :: nat
  nonces :: "64 word list"
  last_hash :: "64 word"
  last_id :: int
  heap :: "checker_clause list"
  freed :: "nat list"

datatype checker_error = Derivation_failed | Not_in_proof

definition init_checker :: "64 word list \<Rightarrow> checker" where
  "init_checker ns = \<lparr>size_vars = 0, vals = [], watchers = [], marks = [], inconsistent = False,
     num_clauses = 0, num_garbage = 0, clauses = [], garbage = [], unsimplified = [], simplified = [],
     trail = [], next_to_propagate = 0, nonces = ns, last_hash = 0, last_id = 0, heap = [], freed = []\<rparr>"

definition val_index :: "int \<Rightarrow> checker \<Rightarrow> nat" where
  "val_index lit s = nat (lit + int (size_vars s))"

definition val :: "int \<Rightarrow> checker \<Rightarrow> int" where
  "val lit s = (if val_index lit s < length (vals s) then vals s ! val_index lit s else 1)"

definition watcher :: "int \<Rightarrow> checker \<Rightarrow> checker_watch list" where
  "watcher lit s = watchers s ! l2u lit"

definition push_watch :: "int \<Rightarrow> checker_watch \<Rightarrow> checker \<Rightarrow> checker" where
  "push_watch lit w s = s\<lparr>watchers := upd_nth (watchers s) (l2u lit) (\<lambda>ws. ws @ [w])\<rparr>"

definition new_watch :: "int \<Rightarrow> nat \<Rightarrow> checker \<Rightarrow> checker_watch" where
  "new_watch b a s = \<lparr>blit = b, wsize = cc_size (heap s ! a), wclause = a\<rparr>"

section \<open>Clauses and the hash table\<close>

definition swap_nth :: "nat \<Rightarrow> nat \<Rightarrow> 'a list \<Rightarrow> 'a list" where
  "swap_nth i j xs = xs[i := xs ! j, j := xs ! i]"

text \<open>The loop of \<open>new_clause\<close> for the watch at position \<open>i\<close>.\<close>

definition choose_watch :: "checker \<Rightarrow> nat \<Rightarrow> int list \<Rightarrow> int list" where
  "choose_watch s i lits =
     (if val (lits ! i) s = 0 then lits
      else case List.find (\<lambda>j. val (lits ! j) s = 0) [i + 1..<length lits] of
             None \<Rightarrow> lits
           | Some j \<Rightarrow> swap_nth i j lits)"

definition alloc_clause :: "int list \<Rightarrow> checker \<Rightarrow> checker" where
  "alloc_clause lits s =
     s\<lparr>heap := heap s @ [\<lparr>cc_hash = last_hash s, cc_size = length lits, cc_literals = lits\<rparr>],
       num_clauses := num_clauses s + 1\<rparr>"

fun watch_clause :: "nat \<Rightarrow> int list \<Rightarrow> checker \<Rightarrow> checker" where
  "watch_clause a lits s =
     push_watch (lits ! 1) (new_watch (lits ! 0) a s) (push_watch (lits ! 0) (new_watch (lits ! 1) a s) s)"

definition new_clause_from :: "int list \<Rightarrow> checker \<Rightarrow> checker" where
  "new_clause_from lits s = watch_clause (length (heap s)) lits (alloc_clause lits s)"

definition new_clause :: "checker \<Rightarrow> nat \<times> checker" where
  "new_clause s =
     (length (heap s), new_clause_from (choose_watch s 1 (choose_watch s 0 (simplified s))) s)"

definition delete_address :: "nat \<Rightarrow> checker \<Rightarrow> checker" where
  "delete_address a s =
     (if cc_size (heap s ! a) \<noteq> 0 then s\<lparr>num_clauses := num_clauses s - 1, freed := a # freed s\<rparr>
      else s\<lparr>num_garbage := num_garbage s - 1, freed := a # freed s\<rparr>)"

definition enlarge_clauses :: "checker \<Rightarrow> checker" where
  "enlarge_clauses s =
     (let n = (if length (clauses s) \<noteq> 0 then 2 * length (clauses s) else 1)
      in s\<lparr>clauses := fold (\<lambda>a new_clauses. upd_nth new_clauses (reduce_hash (cc_hash (heap s ! a)) n) (\<lambda>l. a # l))
                        (concat (clauses s)) (replicate n [])\<rparr>)"

definition size_literals :: "checker_clause \<Rightarrow> int list" where
  "size_literals c = take (cc_size c) (cc_literals c)"

definition clause_satisfied :: "checker \<Rightarrow> nat \<Rightarrow> bool" where
  "clause_satisfied s a \<longleftrightarrow> (\<exists>lit \<in> set (size_literals (heap s ! a)). val lit s > 0)"

text \<open>
  Garbage collection: satisfied clauses move from their chain to the garbage list, watches of
  garbage clauses are removed, the garbage list is freed.
\<close>

definition make_garbage :: "nat \<Rightarrow> checker \<Rightarrow> checker" where
  "make_garbage a s = s\<lparr>heap := (heap s)[a := (heap s ! a)\<lparr>cc_size := 0\<rparr>], garbage := a # garbage s,
     num_garbage := num_garbage s + 1, num_clauses := num_clauses s - 1\<rparr>"

definition drop_satisfied :: "checker \<Rightarrow> checker" where
  "drop_satisfied s =
     (fold make_garbage (filter (clause_satisfied s) (concat (clauses s))) s)
       \<lparr>clauses := map (filter (\<lambda>a. \<not> clause_satisfied s a)) (clauses s)\<rparr>"

definition flush_watchers :: "checker \<Rightarrow> checker" where
  "flush_watchers s =
     s\<lparr>watchers := map (filter (\<lambda>w. cc_size (heap s ! wclause w) \<noteq> 0)) (watchers s)\<rparr>"

definition free_garbage :: "checker \<Rightarrow> checker" where
  "free_garbage s = (fold delete_address (garbage s) s)\<lparr>garbage := []\<rparr>"

definition collect_garbage_clauses :: "checker \<Rightarrow> checker" where
  "collect_garbage_clauses s = free_garbage (flush_watchers (drop_satisfied s))"

definition compute_hash :: "checker \<Rightarrow> checker" where
  "compute_hash s = s\<lparr>last_hash := nonces s ! nat (last_id s mod 4) * word_of_int (last_id s)\<rparr>"

text \<open>The clause searched has the hash, the size, and all its literals are marked.\<close>

definition matches :: "checker \<Rightarrow> bool list \<Rightarrow> nat \<Rightarrow> bool" where
  "matches s M a \<longleftrightarrow> cc_hash (heap s ! a) = last_hash s \<and> cc_size (heap s ! a) = length (simplified s) \<and>
     (\<forall>lit \<in> set (size_literals (heap s ! a)). M ! l2u lit)"

definition find_marked :: "checker \<Rightarrow> nat option \<times> checker" where
  "find_marked s =
     (if clauses s = [] then None
      else List.find (matches s (set_flags True (simplified s) (marks s)))
             (clauses s ! reduce_hash (last_hash s) (length (clauses s))),
      s\<lparr>marks := set_flags False (simplified s) (set_flags True (simplified s) (marks s))\<rparr>)"

definition find :: "checker \<Rightarrow> nat option \<times> checker" where
  "find s = find_marked (compute_hash s)"

fun link_clause :: "nat \<times> checker \<Rightarrow> checker" where
  "link_clause (a, s) =
     s\<lparr>clauses := upd_nth (clauses s) (reduce_hash (last_hash s) (length (clauses s))) (\<lambda>l. a # l)\<rparr>"

definition make_room :: "checker \<Rightarrow> checker" where
  "make_room s = (if num_clauses s = length (clauses s) then enlarge_clauses s else s)"

definition insert_clause :: "checker \<Rightarrow> checker" where
  "insert_clause s = link_clause (new_clause (compute_hash (make_room s)))"

section \<open>Import\<close>

definition enlarge_vars :: "nat \<Rightarrow> checker \<Rightarrow> checker" where
  "enlarge_vars idx s =
     (let n = grow_to idx (if size_vars s \<noteq> 0 then 2 * size_vars s else 2);
          pad = replicate (n - size_vars s) 0
      in s\<lparr>vals := pad @ vals s @ pad, size_vars := n, watchers := resize (2 * n) [] (watchers s),
           marks := resize (2 * n) False (marks s)\<rparr>)"

definition import_literal :: "int \<Rightarrow> checker \<Rightarrow> checker" where
  "import_literal lit s =
     (let s = (if nat \<bar>lit\<bar> \<ge> size_vars s then enlarge_vars (nat \<bar>lit\<bar>) s else s)
      in s\<lparr>simplified := simplified s @ [lit], unsimplified := unsimplified s @ [lit]\<rparr>)"

definition import_clause :: "int list \<Rightarrow> checker \<Rightarrow> checker" where
  "import_clause c s = fold import_literal c s"

definition lit_smaller :: "int \<Rightarrow> int \<Rightarrow> bool" where
  "lit_smaller a b = (let c = \<bar>a\<bar>; d = \<bar>b\<bar> in if c < d then True else if c > d then False else a < b)"

text \<open>A key for this order, by which \<open>std::sort\<close> is modelled.\<close>

definition lit_rank :: "int \<Rightarrow> int" where
  "lit_rank lit = 2 * \<bar>lit\<bar> + (if lit > 0 then 1 else 0)"

text \<open>The loop of \<open>tautological\<close>: whether it returns true, and the literals kept.\<close>

fun keep_literal :: "int \<Rightarrow> bool \<times> int list \<Rightarrow> bool \<times> int list" where
  "keep_literal lit (taut, kept) = (taut, lit # kept)"

fun taut_loop :: "checker \<Rightarrow> int \<Rightarrow> int list \<Rightarrow> bool \<times> int list" where
  "taut_loop s prev [] = (False, [])"
| "taut_loop s prev (lit # lits) =
     (if lit = prev then taut_loop s prev lits
      else if lit = - prev then (True, [])
      else if val lit s > 0 then (True, [])
      else keep_literal lit (taut_loop s lit lits))"

text \<open>The kept literals overwrite the front of the array, which is cut off in the end.\<close>

fun store_kept :: "checker \<Rightarrow> int list \<Rightarrow> bool \<times> int list \<Rightarrow> bool \<times> checker" where
  "store_kept s sorted_lits (taut, kept) =
     (taut, s\<lparr>simplified := (if taut then kept @ drop (length kept) sorted_lits else kept)\<rparr>)"

definition tautological :: "checker \<Rightarrow> bool \<times> checker" where
  "tautological s =
     store_kept s (sort_key lit_rank (simplified s)) (taut_loop s 0 (sort_key lit_rank (simplified s)))"

section \<open>Propagation\<close>

definition assign :: "int \<Rightarrow> checker \<Rightarrow> checker" where
  "assign lit s = s\<lparr>vals := (vals s)[val_index lit s := 1, val_index (- lit) s := -1], trail := trail s @ [lit]\<rparr>"

definition assume_lit :: "int \<Rightarrow> checker \<Rightarrow> checker" where
  "assume_lit lit s = (if val lit s > 0 then s else assign lit s)"

definition backtrack :: "nat \<Rightarrow> checker \<Rightarrow> checker" where
  "backtrack n s =
     s\<lparr>vals := fold (\<lambda>lit v. v[val_index lit s := 0, val_index (- lit) s := 0]) (rev (drop n (trail s))) (vals s),
       trail := take n (trail s), next_to_propagate := n\<rparr>"

definition set_literals :: "nat \<Rightarrow> int list \<Rightarrow> checker \<Rightarrow> checker" where
  "set_literals a lits s = s\<lparr>heap := (heap s)[a := (heap s ! a)\<lparr>cc_literals := lits\<rparr>]\<rparr>"

text \<open>
  One watch \<open>w\<close> of the false literal \<open>l\<close>: whether there is no conflict, the watches kept, and
  the state. First a clause with more than two literals whose other watch \<open>other\<close> is not true.
\<close>

definition prop_unit :: "int \<Rightarrow> checker_watch \<Rightarrow> checker \<Rightarrow> bool \<times> checker_watch list \<times> checker" where
  "prop_unit other w s = (if val other s = 0 then (True, [w], assign other s) else (False, [w], s))"

definition find_replacement :: "nat \<Rightarrow> int list \<Rightarrow> checker \<Rightarrow> nat option" where
  "find_replacement sz lits s = List.find (\<lambda>k. val (lits ! k) s \<ge> 0) [2..<sz]"

fun prop_replace ::
  "int \<Rightarrow> int \<Rightarrow> checker_watch \<Rightarrow> int list \<Rightarrow> checker \<Rightarrow> nat option \<Rightarrow> bool \<times> checker_watch list \<times> checker" where
  "prop_replace l other w lits s None = prop_unit other w (set_literals (wclause w) lits s)"
| "prop_replace l other w lits s (Some k) =
     (True, [], set_literals (wclause w) (swap_nth 1 k lits)
                  (push_watch (lits ! k) (new_watch l (wclause w) s) s))"

definition prop_other ::
  "int \<Rightarrow> int \<Rightarrow> checker_watch \<Rightarrow> int list \<Rightarrow> checker \<Rightarrow> bool \<times> checker_watch list \<times> checker" where
  "prop_other l other w lits s =
     (if val other s > 0 then (True, [w\<lparr>blit := other\<rparr>], s)
      else prop_replace l other w (lits[0 := other, 1 := l]) s
             (find_replacement (wsize w) (lits[0 := other, 1 := l]) s))"

definition prop_long :: "int \<Rightarrow> checker_watch \<Rightarrow> checker_clause \<Rightarrow> checker \<Rightarrow> bool \<times> checker_watch list \<times> checker" where
  "prop_long l w c s =
     (if cc_size c = 0 then (True, [], s)
      else prop_other l (cc_literals c ! 0 XOR cc_literals c ! 1 XOR l) w (cc_literals c) s)"

definition prop_watch :: "int \<Rightarrow> checker_watch \<Rightarrow> checker \<Rightarrow> bool \<times> checker_watch list \<times> checker" where
  "prop_watch l w s =
     (if val (blit w) s > 0 then (True, [w], s)
      else if wsize w = 2 then
        (if val (blit w) s < 0 then (False, [w], s) else (True, [w], assign (blit w) s))
      else prop_long l w (heap s ! wclause w) s)"

text \<open>The loop over the watches; after a conflict the rest is kept as it is.\<close>

fun add_kept :: "checker_watch list \<Rightarrow> bool \<times> checker_watch list \<times> checker \<Rightarrow> bool \<times> checker_watch list \<times> checker" where
  "add_kept ks (res, ks', s) = (res, ks @ ks', s)"

fun after_watch ::
  "checker_watch list \<Rightarrow> (checker \<Rightarrow> bool \<times> checker_watch list \<times> checker) \<Rightarrow>
   bool \<times> checker_watch list \<times> checker \<Rightarrow> bool \<times> checker_watch list \<times> checker" where
  "after_watch ws f (res, ks, s) = (if res then add_kept ks (f s) else (False, ks @ ws, s))"

primrec prop_watches ::
  "int \<Rightarrow> checker_watch list \<Rightarrow> checker \<Rightarrow> bool \<times> checker_watch list \<times> checker" where
  "prop_watches l [] s = (True, [], s)"
| "prop_watches l (w # ws) s = after_watch ws (prop_watches l ws) (prop_watch l w s)"

fun store_watches :: "int \<Rightarrow> bool \<times> checker_watch list \<times> checker \<Rightarrow> bool \<times> checker" where
  "store_watches l (res, ws, s) = (res, s\<lparr>watchers := (watchers s)[l2u l := ws]\<rparr>)"

definition propagate_false :: "int \<Rightarrow> checker \<Rightarrow> bool \<times> checker" where
  "propagate_false l s = store_watches l (prop_watches l (watcher l s) s)"

definition propagate_next :: "checker \<Rightarrow> bool \<times> checker" where
  "propagate_next s =
     propagate_false (- trail s ! next_to_propagate s) (s\<lparr>next_to_propagate := next_to_propagate s + 1\<rparr>)"


text \<open>
  Termination of the outer loop: a call either assigns a variable, so that fewer entries of
  \<open>vals\<close> are zero, or leaves the trail as it is.
\<close>

definition zeros :: "checker \<Rightarrow> nat" where
  "zeros s = length (filter (\<lambda>v. v = 0) (vals s))"

text \<open>What the body of the loop may do to the assignment.\<close>

definition extends :: "checker \<Rightarrow> checker \<Rightarrow> bool" where
  "extends s t \<longleftrightarrow> next_to_propagate t = next_to_propagate s \<and>
     (zeros t < zeros s \<or> zeros t = zeros s \<and> trail t = trail s)"

lemma extends_refl [simp]: "extends s s"
  by (simp add: extends_def)

lemma extends_trans: "extends s t \<Longrightarrow> extends t u \<Longrightarrow> extends s u"
  by (auto simp: extends_def)

lemma extends_cong:
  "vals t = vals s \<Longrightarrow> trail t = trail s \<Longrightarrow> next_to_propagate t = next_to_propagate s \<Longrightarrow> extends s t"
  by (simp add: extends_def zeros_def)

lemma length_filter_update:
  "i < length xs \<Longrightarrow> \<not> P y \<Longrightarrow> length (filter P (xs[i := y])) = length (filter P xs) - (if P (xs ! i) then 1 else 0)"
proof (induction xs arbitrary: i)
  case (Cons x xs)
  show ?case
  proof (cases i)
    case (Suc k)
    have "P (xs ! k) \<Longrightarrow> k < length xs \<Longrightarrow> 0 < length (filter P xs)"
      by (auto simp: filter_empty_conv)
    then show ?thesis using Cons Suc by auto
  qed (use Cons in auto)
qed simp

lemma length_filter_update_le:
  "\<not> P y \<Longrightarrow> length (filter P (xs[i := y])) \<le> length (filter P xs)"
  by (cases "i < length xs") (simp_all add: length_filter_update list_update_beyond)

lemma assign_extends:
  assumes "val lit s = 0"
  shows "extends s (assign lit s)"
proof -
  let ?i = "val_index lit s" and ?z = "\<lambda>v::int. v = 0"
  have i: "?i < length (vals s)" "vals s ! ?i = 0" using assms by (auto simp: val_def split: if_splits)
  then have "0 \<in> set (filter ?z (vals s))" by (auto simp: in_set_conv_nth)
  then have "0 < length (filter ?z (vals s))" by (rule length_pos_if_in_set)
  then have "length (filter ?z ((vals s)[?i := 1])) < length (filter ?z (vals s))"
    using i by (simp add: length_filter_update)
  moreover have "zeros (assign lit s) \<le> length (filter ?z ((vals s)[?i := 1]))"
    unfolding zeros_def assign_def by (simp add: length_filter_update_le)
  ultimately have "zeros (assign lit s) < zeros s" by (simp add: zeros_def)
  then show ?thesis by (simp add: extends_def assign_def)
qed

lemma prop_replace_extends:
  "extends s (snd (snd (prop_replace l other w lits s k)))"
proof (cases k)
  case None
  have "extends s (set_literals (wclause w) lits s)" by (rule extends_cong) (simp_all add: set_literals_def)
  then show ?thesis using None assign_extends extends_trans by (auto simp: prop_unit_def)
next
  case (Some j)
  then show ?thesis by (auto simp: set_literals_def push_watch_def intro!: extends_cong)
qed

lemma prop_watch_extends: "extends s (snd (snd (prop_watch l w s)))"
  using prop_replace_extends assign_extends [of "blit w" s]
  by (auto simp: prop_watch_def prop_long_def prop_other_def)

lemma prop_watches_extends: "extends s (snd (snd (prop_watches l ws s)))"
proof (induction ws arbitrary: s)
  case (Cons w ws)
  obtain res ks t where r: "prop_watch l w s = (res, ks, t)" by (metis prod_cases3)
  obtain res' ks' u where r': "prop_watches l ws t = (res', ks', u)" by (metis prod_cases3)
  have "extends s t" using prop_watch_extends [of s l w] r by simp
  moreover have "extends t u" using Cons [of t] r' by simp
  ultimately show ?case using r r' extends_trans by auto
qed simp

lemma propagate_next_extends:
  assumes "propagate_next s = (res, t)"
  shows "next_to_propagate t = next_to_propagate s + 1 \<and>
    (zeros t < zeros s \<or> zeros t = zeros s \<and> trail t = trail s)"
proof -
  let ?s = "s\<lparr>next_to_propagate := next_to_propagate s + 1\<rparr>" and ?l = "- trail s ! next_to_propagate s"
  obtain ks u where u: "prop_watches ?l (watcher ?l ?s) ?s = (res, ks, u)" "t = u\<lparr>watchers := (watchers u)[l2u ?l := ks]\<rparr>"
    using assms by (cases "prop_watches ?l (watcher ?l ?s) ?s") (auto simp: propagate_next_def propagate_false_def)
  have "extends ?s u" using prop_watches_extends [of ?s ?l "watcher ?l ?s"] u(1) by simp
  moreover have "extends u t" unfolding u(2) by (rule extends_cong) simp_all
  ultimately have "extends ?s t" by (rule extends_trans)
  then show ?thesis by (auto simp: extends_def zeros_def)
qed

function propagate :: "checker \<Rightarrow> bool \<times> checker" where
  "propagate s =
     (if next_to_propagate s < length (trail s) then
        (case propagate_next s of (res, t) \<Rightarrow> if res then propagate t else (False, t))
      else (True, s))"
  by pat_completeness auto
termination
proof (relation "measures [zeros, \<lambda>s. length (trail s) - next_to_propagate s]", goal_cases)
  case (2 s res t)
  then have "next_to_propagate t = next_to_propagate s + 1 \<and>
      (zeros t < zeros s \<or> zeros t = zeros s \<and> trail t = trail s)"
    using propagate_next_extends [of s res t] by simp
  then show ?case using 2(1) by auto
qed simp

declare propagate.simps [simp del]

section \<open>Checking\<close>

fun check_done :: "nat \<Rightarrow> bool \<times> checker \<Rightarrow> bool \<times> checker" where
  "check_done previously_propagated (res, s) = (\<not> res, backtrack previously_propagated s)"

definition check :: "checker \<Rightarrow> bool \<times> checker" where
  "check s =
     (if inconsistent s then (True, s)
      else check_done (next_to_propagate s)
             (propagate (fold (\<lambda>lit. assume_lit (- lit)) (simplified s) s)))"

text \<open>
  The marked literals of one clause: their number, with 2 for a satisfied clause, and the last
  of them.
\<close>

fun count_marked :: "checker \<Rightarrow> bool list \<Rightarrow> int list \<Rightarrow> nat \<times> int \<Rightarrow> nat \<times> int" where
  "count_marked s M [] acc = acc"
| "count_marked s M (lit # lits) acc =
     (if val lit s > 0 then (2, snd acc)
      else if M ! l2u lit then count_marked s M lits (fst acc + 1, lit)
      else count_marked s M lits acc)"

definition marked_once :: "checker \<Rightarrow> bool list \<Rightarrow> nat \<Rightarrow> nat \<times> int" where
  "marked_once s M a = count_marked s M (size_literals (heap s ! a)) (0, 0)"

definition not_blocked :: "checker \<Rightarrow> bool list \<Rightarrow> int list" where
  "not_blocked s M = map snd (filter (\<lambda>p. fst p = 1) (map (marked_once s M) (concat (clauses s))))"

fun blocked_step :: "int \<Rightarrow> bool \<times> bool list \<Rightarrow> bool \<times> bool list" where
  "blocked_step lit (blocked, M) = (if M ! l2u (- lit) then True else blocked, M[l2u (- lit) := False])"

fun store_marks :: "checker \<Rightarrow> bool \<times> bool list \<Rightarrow> bool \<times> checker" where
  "store_marks s (blocked, M) = (blocked, s\<lparr>marks := M\<rparr>)"

definition blocked_scan :: "checker \<Rightarrow> bool list \<Rightarrow> bool \<times> checker" where
  "blocked_scan s M =
     store_marks s (fold blocked_step (unsimplified s) (False, set_flags False (not_blocked s M) M))"

definition check_blocked :: "checker \<Rightarrow> bool \<times> checker" where
  "check_blocked s = blocked_scan s (set_flags True (map uminus (unsimplified s)) (marks s))"

section \<open>Tracer operations\<close>

text \<open>The first loop of \<open>add_clause\<close>: 0, the only literal not false, or \<open>INT_MIN\<close>.\<close>

fun scan_unit :: "checker \<Rightarrow> int list \<Rightarrow> int \<Rightarrow> int" where
  "scan_unit s [] unit = unit"
| "scan_unit s (lit # lits) unit =
     (if val lit s < 0 then scan_unit s lits unit
      else if unit \<noteq> 0 then INT_MIN
      else scan_unit s lits lit)"

definition maybe_collect :: "checker \<Rightarrow> checker" where
  "maybe_collect s =
     (if 2 * num_garbage s > max (length (clauses s)) (size_vars s) then collect_garbage_clauses s else s)"

fun unit_propagated :: "bool \<times> checker \<Rightarrow> checker" where
  "unit_propagated (res, s) = (if res then s else s\<lparr>inconsistent := True\<rparr>)"

definition add_scanned :: "int \<Rightarrow> checker \<Rightarrow> checker" where
  "add_scanned unit s =
     (if unit = 0 then s\<lparr>inconsistent := True\<rparr>
      else if unit \<noteq> INT_MIN then unit_propagated (propagate (assign unit s))
      else insert_clause s)"

definition add_unscanned :: "checker \<Rightarrow> checker" where
  "add_unscanned s =
     add_scanned (scan_unit s (simplified s) 0) (if simplified s = [] then s\<lparr>inconsistent := True\<rparr> else s)"

definition add_clause :: "checker \<Rightarrow> checker" where
  "add_clause s = add_unscanned (maybe_collect s)"

definition clear_imported :: "checker \<Rightarrow> checker" where
  "clear_imported s = s\<lparr>simplified := [], unsimplified := []\<rparr>"

definition import_id :: "int \<Rightarrow> int list \<Rightarrow> checker \<Rightarrow> bool \<times> checker" where
  "import_id cid c s = tautological ((import_clause c s)\<lparr>last_id := cid\<rparr>)"

fun add_original :: "bool \<times> checker \<Rightarrow> checker" where
  "add_original (taut, s) = clear_imported (if taut then s else add_clause s)"

definition add_original_clause :: "int \<Rightarrow> int list \<Rightarrow> checker \<Rightarrow> checker" where
  "add_original_clause cid c s = (if inconsistent s then s else add_original (import_id cid c s))"

fun else_blocked :: "bool \<times> checker \<Rightarrow> bool \<times> checker" where
  "else_blocked (ok, s) = (if ok then (True, s) else check_blocked s)"

fun add_if :: "bool \<times> checker \<Rightarrow> checker_error + checker" where
  "add_if (ok, s) = (if ok then Inr (clear_imported (add_clause s)) else Inl Derivation_failed)"

fun add_derived :: "bool \<times> checker \<Rightarrow> checker_error + checker" where
  "add_derived (taut, s) = (if taut then Inr (clear_imported s) else add_if (else_blocked (check s)))"

definition add_derived_clause :: "int \<Rightarrow> int list \<Rightarrow> checker \<Rightarrow> checker_error + checker" where
  "add_derived_clause cid c s = (if inconsistent s then Inr s else add_derived (import_id cid c s))"

definition unlink_clause :: "nat \<Rightarrow> checker \<Rightarrow> checker" where
  "unlink_clause a s =
     make_garbage a (s\<lparr>clauses := upd_nth (clauses s) (reduce_hash (last_hash s) (length (clauses s))) (remove1 a)\<rparr>)"

fun remove_found :: "nat option \<times> checker \<Rightarrow> checker_error + checker" where
  "remove_found (None, s) = Inl Not_in_proof"
| "remove_found (Some a, s) = Inr (clear_imported (unlink_clause a s))"

fun remove_unless :: "bool \<times> checker \<Rightarrow> checker_error + checker" where
  "remove_unless (taut, s) = (if taut then Inr (clear_imported s) else remove_found (find s))"

definition delete_clause :: "int \<Rightarrow> int list \<Rightarrow> checker \<Rightarrow> checker_error + checker" where
  "delete_clause cid c s =
     (if inconsistent s then Inr s else remove_unless (import_id cid c (clear_imported s)))"

definition add_assumption_clause :: "int \<Rightarrow> int list \<Rightarrow> checker \<Rightarrow> checker_error + checker" where
  "add_assumption_clause cid c s = and_then (add_derived_clause cid c s) (delete_clause cid c)"

text \<open>The calls that change the state, and a whole proof.\<close>

datatype checker_call =
  Original int "int list"
| Derived int "int list"
| Delete int "int list"
| Assumption_clause int "int list"

primrec checker_step :: "checker_call \<Rightarrow> checker \<Rightarrow> checker_error + checker" where
  "checker_step (Original cid c) s = Inr (add_original_clause cid c s)"
| "checker_step (Derived cid c) s = add_derived_clause cid c s"
| "checker_step (Delete cid c) s = delete_clause cid c s"
| "checker_step (Assumption_clause cid c) s = add_assumption_clause cid c s"

fun run_checker :: "checker_call list \<Rightarrow> checker \<Rightarrow> checker_error + checker" where
  "run_checker [] s = Inr s"
| "run_checker (a # as) s = and_then (checker_step a s) (run_checker as)"

end
