(* ===== verification/Drup_Wf.thy ===== *)
theory Drup_Wf
  imports Drup_Checker
begin

text \<open>
  The data structures of the forward checker: its structural invariant \<open>checker_wf\<close> (arrays fit,
  watched literals are the first two of their clause, every address in use is allocated and not
  freed) and that propagation, backtracking and the table operations keep it.
\<close>

section \<open>The invariant\<close>

definition live :: "checker \<Rightarrow> nat \<Rightarrow> bool" where
  "live s a \<longleftrightarrow> cc_size (heap s ! a) \<noteq> 0"

definition clause_ok :: "nat \<Rightarrow> checker_clause \<Rightarrow> bool" where
  "clause_ok n c \<longleftrightarrow> cc_size c = length (cc_literals c) \<and> 2 \<le> cc_size c \<and> distinct (cc_literals c) \<and>
     (\<forall>lit \<in> set (cc_literals c). lit_in n lit)"

text \<open>The addresses in use: the chains of the table and the garbage list.\<close>

definition addresses :: "checker \<Rightarrow> nat set" where
  "addresses s = set (concat (clauses s)) \<union> set (garbage s)"

definition watch_ok :: "checker \<Rightarrow> int \<Rightarrow> checker_watch \<Rightarrow> bool" where
  "watch_ok s l w \<longleftrightarrow> lit_in (size_vars s) (blit w) \<and> wclause w \<in> addresses s \<and>
     (live s (wclause w) \<longrightarrow> wsize w = cc_size (heap s ! wclause w) \<and>
        l \<in> {cc_literals (heap s ! wclause w) ! 0, cc_literals (heap s ! wclause w) ! 1})"

definition live_watched :: "checker \<Rightarrow> checker_watch list \<Rightarrow> nat list" where
  "live_watched s ws = filter (live s) (map wclause ws)"

definition watches_ok :: "checker \<Rightarrow> int \<Rightarrow> checker_watch list \<Rightarrow> bool" where
  "watches_ok s l ws \<longleftrightarrow> (\<forall>w \<in> set ws. watch_ok s l w) \<and> distinct (live_watched s ws)"

text \<open>The first entry of \<open>vals\<close> belongs to no literal in range.\<close>

definition arrays_ok :: "checker \<Rightarrow> bool" where
  "arrays_ok s \<longleftrightarrow> length (vals s) = 2 * size_vars s \<and> length (watchers s) = 2 * size_vars s \<and>
     length (marks s) = 2 * size_vars s \<and> (\<forall>lit \<in> set (trail s). lit_in (size_vars s) lit) \<and>
     (0 < size_vars s \<longrightarrow> vals s ! 0 = 0)"

definition tables_ok :: "checker \<Rightarrow> bool" where
  "tables_ok s \<longleftrightarrow> distinct (concat (clauses s) @ garbage s) \<and>
     (\<forall>a \<in> addresses s. a < length (heap s) \<and> a \<notin> set (freed s)) \<and>
     (\<forall>a \<in> set (concat (clauses s)). live s a) \<and> (\<forall>a \<in> set (garbage s). \<not> live s a) \<and>
     num_clauses s = length (concat (clauses s)) \<and> num_garbage s = length (garbage s) \<and>
     (\<forall>a \<in> set (freed s). a < length (heap s))"

definition heap_ok :: "checker \<Rightarrow> bool" where
  "heap_ok s \<longleftrightarrow> (\<forall>a \<in> addresses s. live s a \<longrightarrow> clause_ok (size_vars s) (heap s ! a))"

text \<open>The watcher lists also have entries for the literals of the variable \<open>size_vars\<close>.\<close>

definition checker_wf :: "checker \<Rightarrow> bool" where
  "checker_wf s \<longleftrightarrow> arrays_ok s \<and> tables_ok s \<and> heap_ok s \<and>
     (\<forall>l. lit_in (Suc (size_vars s)) l \<longrightarrow> watches_ok s l (watcher l s))"

lemma checker_wfD:
  assumes "checker_wf s"
  shows "arrays_ok s" "tables_ok s" "heap_ok s"
    "\<And>l. lit_in (Suc (size_vars s)) l \<Longrightarrow> watches_ok s l (watcher l s)"
  using assms unfolding checker_wf_def by blast+

lemma checker_wfI:
  assumes "arrays_ok s" "tables_ok s" "heap_ok s"
    "\<And>l. lit_in (Suc (size_vars s)) l \<Longrightarrow> watches_ok s l (watcher l s)"
  shows "checker_wf s"
  using assms unfolding checker_wf_def by blast

text \<open>Changes of the parts that an invariant does not read.\<close>

lemma watches_ok_cong:
  "size_vars t = size_vars s \<Longrightarrow> heap t = heap s \<Longrightarrow> clauses t = clauses s \<Longrightarrow> garbage t = garbage s \<Longrightarrow>
   watches_ok t l ws = watches_ok s l ws"
  by (simp add: watches_ok_def watch_ok_def live_watched_def live_def [abs_def] addresses_def)

lemma tables_ok_cong:
  "heap t = heap s \<Longrightarrow> clauses t = clauses s \<Longrightarrow> garbage t = garbage s \<Longrightarrow> freed t = freed s \<Longrightarrow>
   num_clauses t = num_clauses s \<Longrightarrow> num_garbage t = num_garbage s \<Longrightarrow> tables_ok t = tables_ok s"
  by (simp add: tables_ok_def live_def addresses_def)

lemma heap_ok_cong:
  "size_vars t = size_vars s \<Longrightarrow> heap t = heap s \<Longrightarrow> clauses t = clauses s \<Longrightarrow> garbage t = garbage s \<Longrightarrow>
   heap_ok t = heap_ok s"
  by (simp add: heap_ok_def live_def addresses_def)

lemma checker_wf_cong:
  assumes "checker_wf s" "size_vars t = size_vars s" "heap t = heap s" "clauses t = clauses s"
    "garbage t = garbage s" "freed t = freed s" "num_clauses t = num_clauses s" "num_garbage t = num_garbage s"
    "watchers t = watchers s" "arrays_ok t"
  shows "checker_wf t"
  using assms tables_ok_cong [of t s] heap_ok_cong [of t s] watches_ok_cong [of t s]
  by (simp add: checker_wf_def watcher_def)

lemma watches_ok_subset:
  assumes "watches_ok s l (us @ ws @ vs)" "ks = [] \<or> ks = ws"
  shows "watches_ok s l (us @ ks @ vs)"
  using assms by (auto simp: watches_ok_def live_watched_def)

section \<open>Values\<close>

lemma val_index_less: "lit_in (size_vars s) lit \<Longrightarrow> val_index lit s < 2 * size_vars s"
  by (auto simp: val_index_def lit_in_def)

lemma val_index_pos: "lit_in (size_vars s) lit \<Longrightarrow> 0 < val_index lit s"
  by (auto simp: val_index_def lit_in_def)

lemma val_index_inj:
  "lit_in (size_vars s) a \<Longrightarrow> lit_in (size_vars s) b \<Longrightarrow> val_index a s = val_index b s \<longleftrightarrow> a = b"
  by (auto simp: val_index_def lit_in_def)

lemma assign_simps [simp]:
  "vals (assign k s) = (vals s)[val_index k s := 1, val_index (- k) s := -1]" "val_index lit (assign k s) = val_index lit s"
  "trail (assign k s) = trail s @ [k]" "size_vars (assign k s) = size_vars s" "heap (assign k s) = heap s"
  "clauses (assign k s) = clauses s" "garbage (assign k s) = garbage s" "freed (assign k s) = freed s"
  "num_clauses (assign k s) = num_clauses s" "num_garbage (assign k s) = num_garbage s"
  "watchers (assign k s) = watchers s" "marks (assign k s) = marks s"
  "next_to_propagate (assign k s) = next_to_propagate s" "inconsistent (assign k s) = inconsistent s"
  "simplified (assign k s) = simplified s" "unsimplified (assign k s) = unsimplified s"
  by (simp_all add: assign_def val_index_def)

lemma val_assign:
  assumes "length (vals s) = 2 * size_vars s" "lit_in (size_vars s) lit" "lit_in (size_vars s) k"
  shows "val lit (assign k s) = (if lit = - k then -1 else if lit = k then 1 else val lit s)"
proof -
  let ?i = "\<lambda>l. val_index l s"
  have i: "?i lit < length (vals s)" "?i k < length (vals s)" "?i (- k) < length (vals s)"
    unfolding assms(1) using assms(2,3) by (simp_all add: val_index_less)
  have "lit_in (size_vars s) (- k)" using assms(3) by simp
  then have e: "(?i k = ?i lit) = (k = lit)" "(?i (- k) = ?i lit) = (- k = lit)"
    using val_index_inj [of s k lit] val_index_inj [of s "- k" lit] assms(2,3) by blast+
  have "val lit (assign k s) = (vals s)[?i k := 1, ?i (- k) := -1] ! ?i lit"
    using i(1) by (simp add: val_def)
  also have "\<dots> = (if - k = lit then -1 else if k = lit then 1 else vals s ! ?i lit)"
    by (simp only: nth_list_update i length_list_update e)
  finally show ?thesis using i(1) unfolding val_def by (simp only: if_True eq_commute)
qed

lemma arrays_ok_assign: "arrays_ok s \<Longrightarrow> lit_in (size_vars s) k \<Longrightarrow> arrays_ok (assign k s)"
  using val_index_pos [of s k] val_index_pos [of s "- k"] by (auto simp: arrays_ok_def)

lemma checker_wf_assign:
  assumes "checker_wf s" "lit_in (size_vars s) k"
  shows "checker_wf (assign k s)"
  by (rule checker_wf_cong [OF assms(1)]) (simp_all add: arrays_ok_assign [OF checker_wfD(1) [OF assms(1)] assms(2)])

section \<open>Propagation\<close>

text \<open>The state in which the list of \<open>l\<close> is being replaced.\<close>

definition put :: "int \<Rightarrow> checker_watch list \<Rightarrow> checker \<Rightarrow> checker" where
  "put l ws s = s\<lparr>watchers := (watchers s)[l2u l := ws]\<rparr>"

lemma put_simps [simp]:
  "size_vars (put l ws s) = size_vars s" "heap (put l ws s) = heap s" "clauses (put l ws s) = clauses s"
  "garbage (put l ws s) = garbage s" "freed (put l ws s) = freed s" "num_clauses (put l ws s) = num_clauses s"
  "num_garbage (put l ws s) = num_garbage s" "vals (put l ws s) = vals s" "trail (put l ws s) = trail s"
  "marks (put l ws s) = marks s" "length (watchers (put l ws s)) = length (watchers s)"
  "arrays_ok (put l ws s) = arrays_ok s"
  by (simp_all add: put_def arrays_ok_def)

lemma watcher_put:
  assumes "length (watchers s) = 2 * size_vars s" "lit_in (size_vars s) l" "lit_in (Suc (size_vars s)) k"
  shows "watcher k (put l ws s) = (if k = l then ws else watcher k s)"
  using l2u_less [OF assms(2)] assms l2u_inj [of l k] by (auto simp: watcher_def put_def lit_in_def)

lemma put_wf_iff:
  assumes "arrays_ok s" "lit_in (size_vars s) l"
  shows "checker_wf (put l ws s) \<longleftrightarrow> tables_ok s \<and> heap_ok s \<and> watches_ok s l ws \<and>
    (\<forall>k. lit_in (Suc (size_vars s)) k \<longrightarrow> k \<noteq> l \<longrightarrow> watches_ok s k (watcher k s))"
proof -
  have w: "length (watchers s) = 2 * size_vars s" using assms(1) by (simp add: arrays_ok_def)
  have l: "lit_in (Suc (size_vars s)) l" using assms(2) lit_in_mono by (metis le_SucI le_refl)
  have eq: "watches_ok (put l ws s) = watches_ok s" "tables_ok (put l ws s) = tables_ok s" "heap_ok (put l ws s) = heap_ok s"
    using watches_ok_cong [of "put l ws s" s] tables_ok_cong [of "put l ws s" s] heap_ok_cong [of "put l ws s" s]
    by (auto simp: fun_eq_iff)
  show ?thesis
    unfolding checker_wf_def eq put_simps using assms l watcher_put [OF w assms(2)] by auto
qed


text \<open>Reordering the literals of a clause.\<close>

lemma mset_swap_nth: "i < length xs \<Longrightarrow> j < length xs \<Longrightarrow> mset (swap_nth i j xs) = mset xs"
  unfolding swap_nth_def by (rule mset_swap)

lemma length_swap_nth [simp]: "length (swap_nth i j xs) = length xs"
  by (simp add: swap_nth_def)

lemma mset_facts: "mset xs = mset ys \<Longrightarrow> set xs = set ys \<and> length xs = length ys \<and> distinct xs = distinct ys"
  using mset_eq_setD mset_eq_length mset_eq_imp_distinct_iff by blast

lemma set_literals_simps [simp]:
  "size_vars (set_literals a lits s) = size_vars s" "clauses (set_literals a lits s) = clauses s"
  "garbage (set_literals a lits s) = garbage s" "freed (set_literals a lits s) = freed s"
  "num_clauses (set_literals a lits s) = num_clauses s" "num_garbage (set_literals a lits s) = num_garbage s"
  "watchers (set_literals a lits s) = watchers s" "vals (set_literals a lits s) = vals s"
  "trail (set_literals a lits s) = trail s" "marks (set_literals a lits s) = marks s"
  "length (heap (set_literals a lits s)) = length (heap s)"
  by (simp_all add: set_literals_def)

lemma heap_set_literals:
  "a < length (heap s) \<Longrightarrow> heap (set_literals a lits s) ! b =
     (if b = a then (heap s ! a)\<lparr>cc_literals := lits\<rparr> else heap s ! b)"
  by (cases "b < length (heap s)") (auto simp: set_literals_def nth_list_update)

lemma live_set_literals: "a < length (heap s) \<Longrightarrow> live (set_literals a lits s) = live s"
  by (auto simp: live_def heap_set_literals fun_eq_iff)

lemma set_literals_ok:
  assumes "a < length (heap s)" "mset lits = mset (cc_literals (heap s ! a))"
  shows "heap_ok s \<Longrightarrow> heap_ok (set_literals a lits s)" "tables_ok s \<Longrightarrow> tables_ok (set_literals a lits s)"
    "arrays_ok s \<Longrightarrow> arrays_ok (set_literals a lits s)"
  using mset_facts [OF assms(2)] live_set_literals [OF assms(1), of lits]
  by (auto simp: heap_ok_def tables_ok_def arrays_ok_def addresses_def clause_ok_def heap_set_literals [OF assms(1)])

lemma set_literals_watches:
  assumes "watches_ok s k ws" "a < length (heap s)"
    and "a \<in> wclause ` set ws \<Longrightarrow> live s a \<Longrightarrow> k \<in> {lits ! 0, lits ! 1}"
  shows "watches_ok (set_literals a lits s) k ws"
proof -
  have "watch_ok (set_literals a lits s) k w" if "w \<in> set ws" for w
    using assms that by (auto simp: watches_ok_def watch_ok_def addresses_def heap_set_literals live_set_literals)
  moreover have "live_watched (set_literals a lits s) ws = live_watched s ws"
    by (simp add: live_watched_def live_set_literals [OF assms(2)])
  ultimately show ?thesis using assms(1) by (simp add: watches_ok_def)
qed

lemma push_watch_simps [simp]:
  "size_vars (push_watch r w s) = size_vars s" "clauses (push_watch r w s) = clauses s"
  "garbage (push_watch r w s) = garbage s" "freed (push_watch r w s) = freed s"
  "num_clauses (push_watch r w s) = num_clauses s" "num_garbage (push_watch r w s) = num_garbage s"
  "heap (push_watch r w s) = heap s" "vals (push_watch r w s) = vals s" "trail (push_watch r w s) = trail s"
  "marks (push_watch r w s) = marks s" "length (watchers (push_watch r w s)) = length (watchers s)"
  "arrays_ok (push_watch r w s) = arrays_ok s"
  by (simp_all add: push_watch_def arrays_ok_def)

lemma watcher_push_watch:
  assumes "length (watchers s) = 2 * size_vars s" "lit_in (size_vars s) r" "lit_in (Suc (size_vars s)) k"
  shows "watcher k (push_watch r w s) = (if k = r then watcher r s @ [w] else watcher k s)"
  using l2u_less [OF assms(2)] assms l2u_inj [of k r]
  by (auto simp: watcher_def push_watch_def lit_in_def upd_nth_def nth_list_update)

text \<open>The watched literals of a clause, as the code finds the other one with \<open>^\<close>.\<close>

lemma other_watch:
  assumes "l \<in> {lits ! 0, lits ! 1}" "2 \<le> length lits" "distinct lits"
  defines "other \<equiv> lits ! 0 XOR lits ! 1 XOR (l::int)"
  shows "{other, l} = {lits ! 0, lits ! 1}" "other \<noteq> l" "mset (lits[0 := other, 1 := l]) = mset lits"
proof -
  have ne: "lits ! 0 \<noteq> lits ! 1"
  proof -
    have "0 < length lits" "1 < length lits" using assms(2) by linarith+
    from nth_eq_iff_index_eq [OF assms(3) this] show ?thesis by simp
  qed
  have nonempty: "lits \<noteq> []" using assms(2) by auto
  consider (first) "l = lits ! 0" "other = lits ! 1" | (second) "l = lits ! 1" "other = lits ! 0"
    using assms(1) unfolding other_def
    by (metis insertE singletonD xor.assoc xor.commute xor.left_neutral xor_self_eq)
  then have "{other, l} = {lits ! 0, lits ! 1} \<and> other \<noteq> l \<and> mset (lits[0 := other, 1 := l]) = mset lits"
  proof cases
    case first
    then have "lits[0 := other, 1 := l] = swap_nth 0 1 lits" by (simp add: swap_nth_def)
    then show ?thesis using first ne nonempty assms(2) mset_swap_nth [of 0 lits 1] by (simp add: insert_commute)
  next
    case second
    then show ?thesis using ne by simp
  qed
  then show "{other, l} = {lits ! 0, lits ! 1}" "other \<noteq> l" "mset (lits[0 := other, 1 := l]) = mset lits"
    by blast+
qed

text \<open>Moving the watch of \<open>w\<close> from \<open>l\<close> to \<open>r\<close>, the new second literal of the clause.\<close>

lemma move_watch_wf:
  assumes a: "arrays_ok s" "lit_in (size_vars s) l" "checker_wf (put l (us @ w # ws) s)"
    and w: "wclause w = c" "live s c" and lits: "mset lits = mset (cc_literals (heap s ! c))"
    and first: "{lits ! 0, l} = {cc_literals (heap s ! c) ! 0, cc_literals (heap s ! c) ! 1}"
    and r: "r = lits ! 1" "r \<notin> {lits ! 0, l}"
  shows "checker_wf (put l (us @ ws) (set_literals c lits (push_watch r (new_watch l c s) s)))"
proof -
  let ?nw = "new_watch l c s" and ?s = "push_watch r (new_watch l c s) s"
  let ?t = "set_literals c lits ?s"
  note pw = put_wf_iff [OF a(1,2), of "us @ w # ws", THEN iffD1, OF a(3)]
  have len: "length (watchers s) = 2 * size_vars s" using a(1) by (simp add: arrays_ok_def)
  have wok: "watch_ok s l w" using pw by (simp add: watches_ok_def)
  then have adr: "c \<in> addresses s" using w(1) by (simp add: watch_ok_def)
  then have c: "c < length (heap s)" and cok: "clause_ok (size_vars s) (heap s ! c)"
    using pw w(2) by (auto simp: tables_ok_def heap_ok_def)
  have rin: "lit_in (size_vars s) r"
  proof -
    have "1 < length lits" using cok mset_facts [OF lits] by (simp add: clause_ok_def)
    then have "r \<in> set lits" unfolding r(1) by (rule nth_mem)
    then show ?thesis using cok mset_facts [OF lits] by (simp add: clause_ok_def)
  qed
  have notin: "c \<notin> wclause ` set (us @ ws)"
    using pw w by (auto simp: watches_ok_def live_watched_def)
  have watched: "k \<in> {lits ! 0, l}" if "lit_in (Suc (size_vars s)) k" "k \<noteq> l" "c \<in> wclause ` set (watcher k s)" for k
    using pw that w(2) unfolding first by (auto simp: watches_ok_def watch_ok_def)
  have eqs: "heap_ok ?s = heap_ok s" "tables_ok ?s = tables_ok s" "watches_ok ?s = watches_ok s" "live ?s = live s"
    using heap_ok_cong [of ?s s] tables_ok_cong [of ?s s] watches_ok_cong [of ?s s]
    by (auto simp: fun_eq_iff live_def)
  have so: "heap_ok ?t" "tables_ok ?t" "arrays_ok ?t"
    using set_literals_ok [of c ?s lits] c lits pw a(1) eqs by simp_all
  have l_ok: "watches_ok ?t l (us @ ws)"
  proof (rule set_literals_watches)
    show "watches_ok ?s l (us @ ws)"
      using watches_ok_subset [of s l us "[w]" ws "[]"] pw eqs by simp
  qed (use c notin in auto)
  have k_ok: "watches_ok ?t k (watcher k ?t)" if k: "lit_in (Suc (size_vars s)) k" "k \<noteq> l" for k
  proof -
    have old: "watches_ok s k (watcher k s)" using pw k by blast
    have wt: "watcher k ?t = (if k = r then watcher r s @ [?nw] else watcher k s)"
      using watcher_push_watch [OF len rin k(1)] by (simp add: watcher_def)
    have "watches_ok ?s k (watcher k s)" using old eqs by simp
    then have kt: "watches_ok ?t k (watcher k s)"
      by (rule set_literals_watches) (use c watched [OF k] k(2) in auto)
    show ?thesis
    proof (cases "k = r")
      case True
      have "c \<notin> wclause ` set (watcher r s)" using watched [OF k] r(2) True by auto
      moreover have "watch_ok ?t r ?nw"
        using a(2) adr c r(1) live_set_literals [of c ?s lits] heap_set_literals [of c ?s lits c]
        by (simp add: watch_ok_def new_watch_def addresses_def)
      moreover have "watcher r ?t = watcher r s @ [?nw]" using wt True by simp
      moreover have "wclause ?nw = c" by (simp add: new_watch_def)
      ultimately show ?thesis using kt unfolding True by (auto simp: watches_ok_def live_watched_def)
    next
      case False
      then show ?thesis using kt wt by simp
    qed
  qed
  have "arrays_ok ?t" "lit_in (size_vars ?t) l" using so a(2) by simp_all
  from put_wf_iff [OF this, of "us @ ws"] show ?thesis using so l_ok k_ok by simp
qed

lemma other_watch_subset:
  "watches_ok s l (us @ w # ws) \<Longrightarrow> watches_ok s l (us @ ws)"
  using watches_ok_subset [of s l us "[w]" ws "[]"] by simp

text \<open>One watch: the list of \<open>l\<close> with the kept watches in place of \<open>w\<close>.\<close>

lemma prop_watch_wf:
  assumes a: "arrays_ok s" "lit_in (size_vars s) l" and wf: "checker_wf (put l (us @ w # ws) s)"
    and step: "prop_watch l w s = (res, ks, t)"
  shows "arrays_ok t \<and> size_vars t = size_vars s \<and> checker_wf (put l (us @ ks @ ws) t)"
proof -
  note pw = put_wf_iff [OF a(1,2), of "us @ w # ws", THEN iffD1, OF wf]
  have wok: "watch_ok s l w" using pw by (simp add: watches_ok_def)
  have asg: "arrays_ok (assign k u) \<and> checker_wf (put l vs (assign k u))"
    if "arrays_ok u" "checker_wf (put l vs u)" "lit_in (size_vars u) k" for k vs u
  proof -
    have "put l vs (assign k u) = assign k (put l vs u)" by (simp add: put_def assign_def val_index_def)
    then show ?thesis using checker_wf_assign [OF that(2)] arrays_ok_assign that by simp
  qed
  show ?thesis
  proof (cases "val (blit w) s > 0 \<or> wsize w = 2")
    case True
    then have "ks = [w] \<and> (t = s \<or> t = assign (blit w) s)"
      using step by (auto simp: prop_watch_def split: if_splits)
    then show ?thesis using a(1) wf asg [OF a(1) wf, of "blit w"] wok by (auto simp: watch_ok_def)
  next
    case long: False
    let ?c = "wclause w"
    let ?lits = "cc_literals (heap s ! ?c)"
    let ?other = "?lits ! 0 XOR ?lits ! 1 XOR l"
    have step: "prop_long l w (heap s ! ?c) s = (res, ks, t)" using step long by (simp add: prop_watch_def)
    show ?thesis
    proof (cases "live s ?c")
      case False
      then have "ks = []" "t = s" using step by (simp_all add: prop_long_def live_def)
      moreover have "watches_ok s l (us @ ws)" using pw other_watch_subset by blast
      ultimately show ?thesis using a pw put_wf_iff [OF a, of "us @ ws"] by simp
    next
      case True
      have c: "?c < length (heap s)" "clause_ok (size_vars s) (heap s ! ?c)" "l \<in> {?lits ! 0, ?lits ! 1}"
        "wsize w = length ?lits"
        using wok pw True by (auto simp: watch_ok_def tables_ok_def heap_ok_def clause_ok_def)
      then have len: "2 \<le> length ?lits" "distinct ?lits" by (simp_all add: clause_ok_def)
      then have nonempty: "?lits \<noteq> []" by auto
      note ow = other_watch [OF c(3) len]
      let ?new = "?lits[0 := ?other, 1 := l]"
      have oin: "lit_in (size_vars s) ?other"
      proof -
        have "?other \<in> {?lits ! 0, ?lits ! 1}" using ow(1) by blast
        moreover have "?lits ! 0 \<in> set ?lits" "?lits ! 1 \<in> set ?lits" using len(1) by (intro nth_mem, linarith)+
        ultimately have "?other \<in> set ?lits" by auto
        then show ?thesis using c(2) by (simp add: clause_ok_def)
      qed
      have step: "prop_other l ?other w ?lits s = (res, ks, t)" using step True by (simp add: prop_long_def live_def)
      show ?thesis
      proof (cases "val ?other s > 0")
        case True
        then have "ks = [w\<lparr>blit := ?other\<rparr>]" "t = s" using step by (auto simp: prop_other_def)
        moreover have "watches_ok s l (us @ w\<lparr>blit := ?other\<rparr> # ws)"
          using pw oin by (auto simp: watches_ok_def watch_ok_def live_watched_def)
        ultimately show ?thesis using a pw put_wf_iff [OF a, of "us @ ks @ ws"] by simp
      next
        case False
        then have step: "prop_replace l ?other w ?new s (find_replacement (wsize w) ?new s) = (res, ks, t)"
          using step by (simp add: prop_other_def)
        have n01: "?new ! 0 = ?other" "?new ! 1 = l" using len(1) nonempty by (simp_all add: nth_list_update)
        show ?thesis
        proof (cases "find_replacement (wsize w) ?new s")
          case None
          let ?u = "set_literals ?c ?new s"
          have "ks = [w]" "t = ?u \<or> t = assign ?other ?u"
            using step None by (auto simp: prop_unit_def split: if_splits)
          moreover have u: "arrays_ok ?u" "checker_wf (put l (us @ w # ws) ?u)"
          proof -
            have wt: "watches_ok ?u k vs" if "watches_ok s k vs" for k vs
              by (rule set_literals_watches [OF that c(1)])
                 (use that ow(1) n01 in \<open>auto simp: watches_ok_def watch_ok_def\<close>)
            show "arrays_ok ?u" using set_literals_ok [OF c(1) ow(3)] a(1) by simp
            then show "checker_wf (put l (us @ w # ws) ?u)"
              using put_wf_iff [of ?u l "us @ w # ws"] pw wt a(2) set_literals_ok [OF c(1) ow(3)]
              by (simp add: watcher_def)
          qed
          ultimately show ?thesis using asg [OF u, of ?other] oin by auto
        next
          case (Some k)
          then have k: "2 \<le> k" "k < length ?lits"
            using c(4) by (auto simp: find_replacement_def find_Some_iff)
          let ?sw = "swap_nth 1 k ?new"
          have ms: "mset ?sw = mset ?lits" using k ow(3) mset_swap_nth [of 1 ?new k] by simp
          have sw: "?sw ! 0 = ?other" "?sw ! 1 = ?new ! k" using k n01(1) by (simp_all add: swap_nth_def)
          have "?new ! k \<notin> {?other, l}"
          proof -
            have "distinct ?new" using mset_facts [OF ow(3)] len(2) by simp
            then show ?thesis
              using k n01 nonempty nth_eq_iff_index_eq [of ?new k 0] nth_eq_iff_index_eq [of ?new k 1] by auto
          qed
          then have r: "?new ! k = ?sw ! 1" "?new ! k \<notin> {?sw ! 0, l}" using sw by simp_all
          have first: "{?sw ! 0, l} = {?lits ! 0, ?lits ! 1}" unfolding sw(1) by (rule ow(1))
          have "checker_wf (put l (us @ ws) (set_literals ?c ?sw (push_watch (?new ! k) (new_watch l ?c s) s)))"
            by (rule move_watch_wf [OF a wf refl True ms first r])
          moreover have "ks = []" "t = set_literals ?c ?sw (push_watch (?new ! k) (new_watch l ?c s) s)"
            using step Some by auto
          moreover have "arrays_ok (set_literals ?c ?sw (push_watch (?new ! k) (new_watch l ?c s) s))"
            using set_literals_ok(3) [of ?c "push_watch (?new ! k) (new_watch l ?c s) s" ?sw] c(1) ms a(1) by simp
          ultimately show ?thesis by simp
        qed
      qed
    qed
  qed
qed

lemma prop_watches_wf:
  "\<lbrakk>arrays_ok s; lit_in (size_vars s) l; checker_wf (put l (us @ ws) s); prop_watches l ws s = (res, ks, t)\<rbrakk> \<Longrightarrow>
   arrays_ok t \<and> size_vars t = size_vars s \<and> checker_wf (put l (us @ ks) t)"
proof (induction ws arbitrary: us s res ks t)
  case (Cons w ws)
  obtain r1 k1 s1 where one: "prop_watch l w s = (r1, k1, s1)" by (metis prod_cases3)
  have s1: "arrays_ok s1" "size_vars s1 = size_vars s" "checker_wf (put l (us @ k1 @ ws) s1)"
    using prop_watch_wf [OF Cons.prems(1-3) one] by blast+
  show ?case
  proof (cases r1)
    case True
    obtain r2 k2 s2 where two: "prop_watches l ws s1 = (r2, k2, s2)" by (metis prod_cases3)
    have "arrays_ok s2 \<and> size_vars s2 = size_vars s1 \<and> checker_wf (put l ((us @ k1) @ k2) s2)"
      using Cons.prems(2) s1 by (intro Cons.IH [OF _ _ _ two]) simp_all
    then show ?thesis using Cons.prems(4) one two True s1(2) by simp
  next
    case False
    then show ?thesis using Cons.prems(4) one s1 by simp
  qed
qed simp

lemma put_watcher: "put l (watcher l s) s = s"
  by (simp add: put_def watcher_def)

lemma arrays_ok_more [simp]: "arrays_ok (s\<lparr>next_to_propagate := k\<rparr>) = arrays_ok s"
  by (simp add: arrays_ok_def)

lemma checker_wf_next [simp]: "checker_wf (s\<lparr>next_to_propagate := k\<rparr>) = checker_wf s"
proof
  assume w: "checker_wf (s\<lparr>next_to_propagate := k\<rparr>)"
  show "checker_wf s" by (rule checker_wf_cong [OF w]) (use checker_wfD(1) [OF w] in simp_all)
next
  assume w: "checker_wf s"
  show "checker_wf (s\<lparr>next_to_propagate := k\<rparr>)" by (rule checker_wf_cong [OF w]) (use checker_wfD(1) [OF w] in simp_all)
qed

lemma propagate_next_wf:
  assumes "checker_wf s" "next_to_propagate s < length (trail s)" "propagate_next s = (res, t)"
  shows "checker_wf t \<and> size_vars t = size_vars s"
proof -
  let ?s = "s\<lparr>next_to_propagate := next_to_propagate s + 1\<rparr>" and ?l = "- trail s ! next_to_propagate s"
  have wf: "checker_wf ?s" using assms(1) by simp
  have l: "lit_in (size_vars ?s) ?l"
    using checker_wfD(1) [OF assms(1)] nth_mem [OF assms(2)] by (simp add: arrays_ok_def)
  obtain ks u where u: "prop_watches ?l (watcher ?l ?s) ?s = (res, ks, u)" "t = put ?l ks u"
    using assms(3) by (cases "prop_watches ?l (watcher ?l ?s) ?s") (auto simp: propagate_next_def propagate_false_def put_def)
  have "checker_wf (put ?l ([] @ watcher ?l ?s) ?s)" using wf by (simp only: append_Nil put_watcher)
  from prop_watches_wf [OF checker_wfD(1) [OF wf] l this u(1)] show ?thesis using u(2) by simp
qed

lemma propagate_wf:
  "\<lbrakk>checker_wf s; propagate s = (res, t)\<rbrakk> \<Longrightarrow> checker_wf t \<and> size_vars t = size_vars s"
proof (induction s arbitrary: res t rule: propagate.induct)
  case (1 s)
  show ?case
  proof (cases "next_to_propagate s < length (trail s)")
    case True
    obtain r1 s1 where one: "propagate_next s = (r1, s1)" by fastforce
    have s1: "checker_wf s1 \<and> size_vars s1 = size_vars s" by (rule propagate_next_wf [OF 1(2) True one])
    have p: "propagate s = (if r1 then propagate s1 else (False, s1))"
      using True one by (subst propagate.simps) simp
    show ?thesis
    proof (cases r1)
      case True
      then show ?thesis
        using 1(1) [OF \<open>next_to_propagate s < length (trail s)\<close> one [symmetric] True, of res t] 1(3) s1 p by simp
    next
      case False
      then show ?thesis using 1(3) s1 p by simp
    qed
  next
    case False
    then show ?thesis using 1 by (subst (asm) propagate.simps) simp
  qed
qed

end
