(* ===== verification/Drup_Sound.thy ===== *)
theory Drup_Sound
  imports Drup_Wf
begin

text \<open>
  Soundness of propagation in the forward checker: an assignment that satisfies everything the
  data structures know is never contradicted.
\<close>

section \<open>What an assignment satisfies\<close>

definition holds :: "(int \<Rightarrow> bool) \<Rightarrow> checker \<Rightarrow> bool" where
  "holds \<sigma> s \<longleftrightarrow>
     (\<forall>lit. lit_in (size_vars s) lit \<longrightarrow> (val lit s > 0 \<longrightarrow> lit_true \<sigma> lit) \<and> (val lit s < 0 \<longrightarrow> \<not> lit_true \<sigma> lit)) \<and>
     (\<forall>lit \<in> set (trail s). lit_true \<sigma> lit)"

text \<open>A watch of size two is a clause by itself, also when its clause is garbage.\<close>

definition watch_true :: "(int \<Rightarrow> bool) \<Rightarrow> int \<Rightarrow> checker_watch \<Rightarrow> bool" where
  "watch_true \<sigma> l w \<longleftrightarrow> (wsize w = 2 \<longrightarrow> lit_true \<sigma> l \<or> lit_true \<sigma> (blit w))"

definition know :: "(int \<Rightarrow> bool) \<Rightarrow> checker \<Rightarrow> bool" where
  "know \<sigma> s \<longleftrightarrow> (\<forall>a \<in> addresses s. live s a \<longrightarrow> clause_true \<sigma> (cc_literals (heap s ! a))) \<and>
     (\<forall>l. lit_in (Suc (size_vars s)) l \<longrightarrow> (\<forall>w \<in> set (watcher l s). watch_true \<sigma> l w))"

lemma holdsD:
  assumes "holds \<sigma> s" "lit_in (size_vars s) lit"
  shows "val lit s > 0 \<Longrightarrow> lit_true \<sigma> lit" "val lit s < 0 \<Longrightarrow> \<not> lit_true \<sigma> lit"
  using assms unfolding holds_def by blast+

lemma val_cong: "vals t = vals s \<Longrightarrow> size_vars t = size_vars s \<Longrightarrow> val lit t = val lit s"
  by (simp add: val_def val_index_def)

lemma holds_cong:
  "vals t = vals s \<Longrightarrow> size_vars t = size_vars s \<Longrightarrow> trail t = trail s \<Longrightarrow> holds \<sigma> t = holds \<sigma> s"
  by (simp add: holds_def val_cong [of t s])

lemma holds_assign:
  assumes "arrays_ok s" "holds \<sigma> s" "lit_in (size_vars s) k" "lit_true \<sigma> k"
  shows "holds \<sigma> (assign k s)"
proof -
  have "length (vals s) = 2 * size_vars s" using assms(1) by (simp add: arrays_ok_def)
  moreover have "k \<noteq> 0" using assms(3) by (simp add: lit_in_def)
  ultimately show ?thesis
    using assms(2-4) by (auto simp: holds_def val_assign lit_true_uminus)
qed

lemma know_cong:
  "size_vars t = size_vars s \<Longrightarrow> heap t = heap s \<Longrightarrow> clauses t = clauses s \<Longrightarrow> garbage t = garbage s \<Longrightarrow>
   watchers t = watchers s \<Longrightarrow> know \<sigma> t = know \<sigma> s"
  by (simp add: know_def live_def addresses_def watcher_def)

lemma know_put:
  assumes "arrays_ok s" "lit_in (size_vars s) l"
  shows "know \<sigma> (put l ws s) \<longleftrightarrow>
    (\<forall>a \<in> addresses s. live s a \<longrightarrow> clause_true \<sigma> (cc_literals (heap s ! a))) \<and> (\<forall>w \<in> set ws. watch_true \<sigma> l w) \<and>
    (\<forall>k. lit_in (Suc (size_vars s)) k \<longrightarrow> k \<noteq> l \<longrightarrow> (\<forall>w \<in> set (watcher k s). watch_true \<sigma> k w))"
proof -
  have "length (watchers s) = 2 * size_vars s" using assms(1) by (simp add: arrays_ok_def)
  moreover have "lit_in (Suc (size_vars s)) l" using assms(2) lit_in_mono by (metis le_SucI le_refl)
  ultimately show ?thesis
    using assms watcher_put [of s l] by (auto simp: know_def live_def addresses_def)
qed

lemma know_assign: "know \<sigma> (put l ws (assign k s)) = know \<sigma> (put l ws s)"
  by (rule know_cong) (simp_all add: put_def)

lemma clauses_set_literals:
  assumes "\<forall>a \<in> addresses s. live s a \<longrightarrow> clause_true \<sigma> (cc_literals (heap s ! a))"
    and "c < length (heap s)" "set lits = set (cc_literals (heap s ! c))"
  shows "\<forall>a \<in> addresses (set_literals c lits s). live (set_literals c lits s) a \<longrightarrow>
    clause_true \<sigma> (cc_literals (heap (set_literals c lits s) ! a))"
  using assms by (auto simp: addresses_def live_set_literals heap_set_literals clause_true_def)

text \<open>The clause is unit or falsified when no replacement is found.\<close>

lemma no_replacement:
  assumes "find_replacement (length lits) lits s = None" "clause_true \<sigma> lits" "holds \<sigma> s"
    and "\<forall>lit \<in> set lits. lit_in (size_vars s) lit" "\<not> lit_true \<sigma> (lits ! 1)"
  shows "lit_true \<sigma> (lits ! 0)"
proof -
  obtain i where i: "i < length lits" "lit_true \<sigma> (lits ! i)"
    using assms(2) unfolding clause_true_def by (auto simp: in_set_conv_nth)
  have "\<not> 2 \<le> i"
  proof
    assume "2 \<le> i"
    then have "\<not> val (lits ! i) s \<ge> 0" using assms(1) i(1) by (auto simp: find_replacement_def find_None_iff)
    then show False using holdsD(2) [OF assms(3), of "lits ! i"] assms(4) i by auto
  qed
  then have "i = 0 \<or> i = 1" by arith
  then show ?thesis using i(2) assms(5) by auto
qed

text \<open>The outcomes of one watch.\<close>

lemma prop_watch_cases [consumes 4]:
  assumes a: "arrays_ok s" "lit_in (size_vars s) l" and wf: "checker_wf (put l (us @ w # ws) s)"
    and step: "prop_watch l w s = (res, ks, t)"
  obtains (same) "t = s" "res" "ks = [w] \<or> ks = [] \<or> wsize w \<noteq> 2 \<and> (\<exists>b. ks = [w\<lparr>blit := b\<rparr>])"
  | (binary) "wsize w = 2" "ks = [w]" "lit_in (size_vars s) (blit w)"
    "t = s \<and> \<not> res \<and> val (blit w) s < 0 \<or> t = assign (blit w) s \<and> res \<and> val (blit w) s = 0"
  | (last) c lits u where "ks = [w]" "c \<in> addresses s" "live s c" "c < length (heap s)" "mset lits = mset (cc_literals (heap s ! c))"
    "\<forall>lit \<in> set lits. lit_in (size_vars s) lit" "lits ! 0 \<in> set lits" "lits ! 1 = l"
    "find_replacement (length lits) lits s = None" "u = set_literals c lits s"
    "t = u \<and> \<not> res \<and> val (lits ! 0) u < 0 \<or> t = assign (lits ! 0) u \<and> res \<and> val (lits ! 0) u = 0"
  | (move) c lits r where "ks = []" "res" "c \<in> addresses s" "live s c" "c < length (heap s)"
    "mset lits = mset (cc_literals (heap s ! c))" "lit_in (size_vars s) r" "wsize (new_watch l c s) \<noteq> 2"
    "t = set_literals c lits (push_watch r (new_watch l c s) s)"
proof -
  note pw = put_wf_iff [OF a, of "us @ w # ws", THEN iffD1, OF wf]
  have wok: "watch_ok s l w" using pw by (simp add: watches_ok_def)
  show thesis
  proof (cases "val (blit w) s > 0 \<or> wsize w = 2")
    case True
    then consider "val (blit w) s > 0" | "wsize w = 2" "\<not> val (blit w) s > 0" by blast
    then show thesis
    proof cases
      case 1
      then have "t = s" "res" "ks = [w]" using step by (auto simp: prop_watch_def)
      then show thesis by (intro same) auto
    next
      case 2
      have "lit_in (size_vars s) (blit w)" using wok by (simp add: watch_ok_def)
      moreover have "ks = [w]" "t = s \<and> \<not> res \<and> val (blit w) s < 0 \<or> t = assign (blit w) s \<and> res \<and> val (blit w) s = 0"
        using step 2 by (auto simp: prop_watch_def split: if_splits)
      ultimately show thesis using 2 by (intro binary) auto
    qed
  next
    case long: False
    let ?c = "wclause w"
    let ?lits = "cc_literals (heap s ! ?c)"
    let ?other = "?lits ! 0 XOR ?lits ! 1 XOR l"
    let ?new = "?lits[0 := ?other, 1 := l]"
    have step: "prop_long l w (heap s ! ?c) s = (res, ks, t)" using step long by (simp add: prop_watch_def)
    show thesis
    proof (cases "live s ?c")
      case False
      then have "t = s" "res" "ks = []" using step by (auto simp: prop_long_def live_def)
      then show thesis by (intro same) auto
    next
      case True
      have c: "?c \<in> addresses s" "?c < length (heap s)" "clause_ok (size_vars s) (heap s ! ?c)"
        "l \<in> {?lits ! 0, ?lits ! 1}" "wsize w = length ?lits"
        using wok pw True by (auto simp: watch_ok_def tables_ok_def heap_ok_def clause_ok_def)
      then have len: "2 \<le> length ?lits" "distinct ?lits" by (simp_all add: clause_ok_def)
      then have nonempty: "?lits \<noteq> []" by auto
      note ow = other_watch [OF c(4) len]
      have new: "?new ! 0 = ?other" "?new ! 1 = l" "?new ! 0 \<in> set ?new"
        using len(1) nonempty nth_mem [of 0 ?new] by (simp_all add: nth_list_update)
      have inr: "\<forall>lit \<in> set ?new. lit_in (size_vars s) lit"
        using c(3) mset_facts [OF ow(3)] by (simp add: clause_ok_def)
      have step: "prop_other l ?other w ?lits s = (res, ks, t)" using step True by (simp add: prop_long_def live_def)
      show thesis
      proof (cases "val ?other s > 0")
        case True
        then have "t = s" "res" "ks = [w\<lparr>blit := ?other\<rparr>]" using step by (auto simp: prop_other_def)
        then show thesis using long by (intro same) auto
      next
        case False
        then have step: "prop_replace l ?other w ?new s (find_replacement (wsize w) ?new s) = (res, ks, t)"
          using step by (simp add: prop_other_def)
        show thesis
        proof (cases "find_replacement (wsize w) ?new s")
          case None
          let ?u = "set_literals ?c ?new s"
          have "\<not> val ?other ?u > 0" using False val_cong [of ?u s ?other] by simp
          then have "t = ?u \<and> \<not> res \<and> val (?new ! 0) ?u < 0 \<or> t = assign (?new ! 0) ?u \<and> res \<and> val (?new ! 0) ?u = 0"
            using step None unfolding new(1) by (auto simp: prop_unit_def split: if_splits)
          moreover have "ks = [w]" using step None by (auto simp: prop_unit_def split: if_splits)
          moreover have "find_replacement (length ?new) ?new s = None" using None c(5) by simp
          ultimately show thesis using True c(1,2) ow(3) inr new(2,3) by (intro last [of ?c ?new ?u]) simp_all
        next
          case (Some k)
          then have k: "2 \<le> k" "k < length ?lits"
            using c(5) by (auto simp: find_replacement_def find_Some_iff)
          let ?sw = "swap_nth 1 k ?new"
          have "lit_in (size_vars s) (?new ! k)" using inr k(2) nth_mem [of k ?new] by (metis length_list_update)
          moreover have "mset ?sw = mset ?lits" using k ow(3) mset_swap_nth [of 1 ?new k] by simp
          moreover have "wsize (new_watch l ?c s) \<noteq> 2"
            using c(3,5) long by (simp add: new_watch_def clause_ok_def)
          moreover have "ks = []" "res" "t = set_literals ?c ?sw (push_watch (?new ! k) (new_watch l ?c s) s)"
            using step Some by auto
          ultimately show thesis using True c(1,2) by (intro move [of ?c ?sw "?new ! k"]) simp_all
        qed
      qed
    qed
  qed
qed

text \<open>Nothing that was known is lost, whatever the assignment.\<close>

lemma prop_watch_know:
  assumes a: "arrays_ok s" "lit_in (size_vars s) l" and wf: "checker_wf (put l (us @ w # ws) s)"
    and step: "prop_watch l w s = (res, ks, t)" and kn: "know \<sigma> (put l (us @ w # ws) s)"
  shows "know \<sigma> (put l (us @ ks @ ws) t)"
proof -
  note kp = know_put [OF a, of \<sigma> "us @ w # ws", THEN iffD1, OF kn]
  show ?thesis
    using a wf step
  proof (cases rule: prop_watch_cases)
    case same
    have "\<forall>x \<in> set ks. watch_true \<sigma> l x" using same(3) kp by (auto simp: watch_true_def)
    then show ?thesis using know_put [OF a, of \<sigma> "us @ ks @ ws"] kp same(1) by auto
  next
    case binary
    then show ?thesis using kn by (auto simp: know_assign)
  next
    case (last c lits u)
    have u: "arrays_ok u" "size_vars u = size_vars s" "watchers u = watchers s"
      using set_literals_ok(3) [OF last(4,5)] a(1) last(10) by simp_all
    have "know \<sigma> (put l (us @ [w] @ ws) u)"
      using know_put [OF u(1), of l \<sigma> "us @ [w] @ ws"] a(2) kp clauses_set_literals [of s \<sigma> c lits] u last(4,10)
        mset_facts [OF last(5)] by (simp add: watcher_def)
    then show ?thesis using last(1,11) by (auto simp: know_assign)
  next
    case (move c lits r)
    let ?v = "push_watch r (new_watch l c s) s"
    have t: "arrays_ok t" "size_vars t = size_vars s"
      using set_literals_ok(3) [of c ?v lits] move(5,6,9) a(1) by simp_all
    have wlen: "length (watchers s) = 2 * size_vars s" using a(1) by (simp add: arrays_ok_def)
    have "watch_true \<sigma> m x" if "lit_in (Suc (size_vars s)) m" "m \<noteq> l" "x \<in> set (watcher m t)" for m x
    proof -
      have "watcher m t = (if m = r then watcher r s @ [new_watch l c s] else watcher m s)"
        using watcher_push_watch [OF wlen move(7) that(1)] move(9) by (simp add: watcher_def)
      moreover have "watch_true \<sigma> m (new_watch l c s)" using move(8) by (simp add: watch_true_def)
      ultimately show ?thesis using that kp by (auto split: if_splits)
    qed
    moreover have "\<forall>a \<in> addresses t. live t a \<longrightarrow> clause_true \<sigma> (cc_literals (heap t ! a))"
      unfolding move(9) by (rule clauses_set_literals)
        (use kp move(5) mset_facts [OF move(6)] in \<open>simp_all add: addresses_def live_def\<close>)
    ultimately show ?thesis using know_put [OF t(1), of l \<sigma> "us @ ks @ ws"] a(2) kp t(2) move(1) by auto
  qed
qed

lemma prop_watch_sound:
  assumes a: "arrays_ok s" "lit_in (size_vars s) l" and wf: "checker_wf (put l (us @ w # ws) s)"
    and step: "prop_watch l w s = (res, ks, t)" and kn: "know \<sigma> (put l (us @ w # ws) s)"
    and h: "holds \<sigma> s" and l: "\<not> lit_true \<sigma> l"
  shows "res \<and> holds \<sigma> t"
proof -
  note kp = know_put [OF a, of \<sigma> "us @ w # ws", THEN iffD1, OF kn]
  show ?thesis
    using a wf step
  proof (cases rule: prop_watch_cases)
    case binary
    then have "lit_true \<sigma> (blit w)" using kp l by (simp add: watch_true_def)
    then show ?thesis
      using binary(4) holdsD(2) [OF h binary(3)] holds_assign [OF a(1) h binary(3)] by auto
  next
    case (last c lits u)
    have u: "arrays_ok u" "holds \<sigma> u" "size_vars u = size_vars s"
      using set_literals_ok(3) [OF last(4,5)] a(1) h holds_cong [of u s] last(10) by simp_all
    have "clause_true \<sigma> lits" using kp last(2,3) mset_facts [OF last(5)] by (simp add: clause_true_def)
    from no_replacement [OF last(9) this h last(6)] last(8) l have ot: "lit_true \<sigma> (lits ! 0)" by simp
    moreover have oin: "lit_in (size_vars u) (lits ! 0)" using last(6,7) u(3) by simp
    ultimately show ?thesis
      using last(11) holdsD(2) [OF u(2) oin] holds_assign [OF u(1,2) oin ot] by auto
  next
    case (move c lits r)
    then show ?thesis using h holds_cong [of t s] by simp
  qed (use h in simp)
qed

lemma prop_watches_know:
  "\<lbrakk>arrays_ok s; lit_in (size_vars s) l; checker_wf (put l (us @ ws) s); prop_watches l ws s = (res, ks, t);
    know \<sigma> (put l (us @ ws) s)\<rbrakk> \<Longrightarrow>
   know \<sigma> (put l (us @ ks) t) \<and> (holds \<sigma> s \<longrightarrow> \<not> lit_true \<sigma> l \<longrightarrow> res \<and> holds \<sigma> t)"
proof (induction ws arbitrary: us s res ks t)
  case (Cons w ws)
  obtain r1 k1 s1 where one: "prop_watch l w s = (r1, k1, s1)" by (metis prod_cases3)
  have s1: "arrays_ok s1" "size_vars s1 = size_vars s" "checker_wf (put l (us @ k1 @ ws) s1)"
    using prop_watch_wf [OF Cons.prems(1-3) one] by blast+
  have k1: "know \<sigma> (put l (us @ k1 @ ws) s1)" by (rule prop_watch_know [OF Cons.prems(1-3) one Cons.prems(5)])
  have h1: "holds \<sigma> s \<longrightarrow> \<not> lit_true \<sigma> l \<longrightarrow> r1 \<and> holds \<sigma> s1"
    using prop_watch_sound [OF Cons.prems(1-3) one Cons.prems(5)] by blast
  show ?case
  proof (cases r1)
    case True
    obtain r2 k2 s2 where two: "prop_watches l ws s1 = (r2, k2, s2)" by (metis prod_cases3)
    have "know \<sigma> (put l ((us @ k1) @ k2) s2) \<and> (holds \<sigma> s1 \<longrightarrow> \<not> lit_true \<sigma> l \<longrightarrow> r2 \<and> holds \<sigma> s2)"
      using Cons.prems(2) s1 k1 by (intro Cons.IH [OF _ _ _ two]) simp_all
    then show ?thesis using Cons.prems(4) one two True h1 by auto
  next
    case False
    then show ?thesis using Cons.prems(4) one k1 h1 by auto
  qed
qed simp

lemma know_next [simp]: "know \<sigma> (s\<lparr>next_to_propagate := k\<rparr>) = know \<sigma> s"
  by (rule know_cong) simp_all

lemma propagate_next_know:
  assumes "checker_wf s" "next_to_propagate s < length (trail s)" "propagate_next s = (res, t)" "know \<sigma> s"
  shows "know \<sigma> t \<and> (holds \<sigma> s \<longrightarrow> res \<and> holds \<sigma> t)"
proof -
  let ?s = "s\<lparr>next_to_propagate := next_to_propagate s + 1\<rparr>" and ?l = "- trail s ! next_to_propagate s"
  have wf: "checker_wf ?s" using assms(1) by simp
  have mem: "trail s ! next_to_propagate s \<in> set (trail s)" using assms(2) by (rule nth_mem)
  then have l: "lit_in (size_vars ?s) ?l" using checker_wfD(1) [OF assms(1)] by (simp add: arrays_ok_def)
  obtain ks u where u: "prop_watches ?l (watcher ?l ?s) ?s = (res, ks, u)" "t = put ?l ks u"
    using assms(3) by (cases "prop_watches ?l (watcher ?l ?s) ?s") (auto simp: propagate_next_def propagate_false_def put_def)
  have p: "put ?l ([] @ watcher ?l ?s) ?s = ?s" by (simp only: append_Nil put_watcher)
  have "know \<sigma> (put ?l ([] @ ks) u) \<and> (holds \<sigma> ?s \<longrightarrow> \<not> lit_true \<sigma> ?l \<longrightarrow> res \<and> holds \<sigma> u)"
    by (rule prop_watches_know [OF checker_wfD(1) [OF wf] l _ u(1)]) (use wf assms(4) in \<open>simp_all only: p know_next\<close>)
  moreover have "\<not> lit_true \<sigma> ?l" if "holds \<sigma> s"
    using that mem l lit_true_uminus [of "trail s ! next_to_propagate s" \<sigma>] by (auto simp: holds_def lit_in_def)
  moreover have "holds \<sigma> ?s = holds \<sigma> s" "holds \<sigma> t = holds \<sigma> u"
    unfolding u(2) by (rule holds_cong; simp)+
  ultimately show ?thesis using u(2) by auto
qed

lemma propagate_unfold:
  "propagate s = (if next_to_propagate s < length (trail s) then
     (if fst (propagate_next s) then propagate (snd (propagate_next s)) else (False, snd (propagate_next s)))
   else (True, s))"
  by (subst propagate.simps) (simp add: case_prod_unfold)

lemma propagate_know:
  "\<lbrakk>checker_wf s; propagate s = (res, t); know \<sigma> s\<rbrakk> \<Longrightarrow> know \<sigma> t \<and> (holds \<sigma> s \<longrightarrow> res \<and> holds \<sigma> t)"
proof (induction s arbitrary: res t rule: propagate.induct)
  case (1 s)
  show ?case
  proof (cases "next_to_propagate s < length (trail s)")
    case less: True
    obtain r1 s1 where one: "propagate_next s = (r1, s1)" by fastforce
    have s1: "checker_wf s1" "know \<sigma> s1" "holds \<sigma> s \<longrightarrow> r1 \<and> holds \<sigma> s1"
      using propagate_next_wf [OF 1(2) less one] propagate_next_know [OF 1(2) less one 1(4)] by blast+
    have p: "propagate s = (if r1 then propagate s1 else (False, s1))"
      using propagate_unfold [of s] less one by simp
    show ?thesis
    proof (cases r1)
      case True
      then show ?thesis using 1(1) [OF less one [symmetric] True s1(1) _ s1(2), of res t] 1(3) s1 p by simp
    next
      case False
      then show ?thesis using 1(3) s1 p by simp
    qed
  next
    case False
    then show ?thesis using 1 propagate_unfold [of s] by simp
  qed
qed

end
