(* ===== verification/Drup_Check.thy ===== *)
theory Drup_Check
  imports Drup_Sound
begin

text \<open>
  What checking a clause does to the state: it only touches the assignment, the watches and the
  order of literals, backtracking undoes the assignment, and a clause that passes is implied.
\<close>

section \<open>Frame\<close>

text \<open>The trail grows, and only the values of its new literals change.\<close>

definition grows :: "checker \<Rightarrow> checker \<Rightarrow> bool" where
  "grows s t \<longleftrightarrow>
     (\<exists>v w h tr k. t = s\<lparr>vals := v, watchers := w, heap := h, trail := tr, next_to_propagate := k\<rparr> \<and>
        next_to_propagate s \<le> k) \<and> length (vals t) = length (vals s) \<and>
     (\<exists>new. trail t = trail s @ new \<and> (\<forall>lit. lit_in (size_vars s) lit \<longrightarrow> lit \<notin> set new \<longrightarrow> - lit \<notin> set new \<longrightarrow>
        val lit t = val lit s))"

lemma growsD:
  assumes "grows s t"
  shows "\<exists>v w h tr k. t = s\<lparr>vals := v, watchers := w, heap := h, trail := tr, next_to_propagate := k\<rparr> \<and>
        next_to_propagate s \<le> k"
    and "length (vals t) = length (vals s)"
    and "\<exists>new. trail t = trail s @ new \<and> (\<forall>lit. lit_in (size_vars s) lit \<longrightarrow> lit \<notin> set new \<longrightarrow> - lit \<notin> set new \<longrightarrow>
        val lit t = val lit s)"
  using assms unfolding grows_def by blast+

lemma growsI:
  assumes "t = s\<lparr>vals := v, watchers := w, heap := h, trail := trail s @ new, next_to_propagate := k\<rparr>"
    and "next_to_propagate s \<le> k" "length v = length (vals s)"
    and "\<And>lit. lit_in (size_vars s) lit \<Longrightarrow> lit \<notin> set new \<Longrightarrow> - lit \<notin> set new \<Longrightarrow> val lit t = val lit s"
  shows "grows s t"
proof -
  have "length (vals t) = length (vals s)" "trail t = trail s @ new" using assms(1,3) by simp_all
  then show ?thesis unfolding grows_def using assms(1,2,4) by blast
qed

lemma grows_frame:
  assumes "grows s t"
  shows "size_vars t = size_vars s" "clauses t = clauses s" "garbage t = garbage s" "freed t = freed s"
    "num_clauses t = num_clauses s" "num_garbage t = num_garbage s" "inconsistent t = inconsistent s"
    "simplified t = simplified s" "unsimplified t = unsimplified s" "marks t = marks s" "nonces t = nonces s"
    "last_id t = last_id s" "last_hash t = last_hash s" "next_to_propagate s \<le> next_to_propagate t"
  using growsD(1) [OF assms] by auto

lemma grows_refl [simp]: "grows s s"
proof -
  have "s = s\<lparr>vals := vals s, watchers := watchers s, heap := heap s, trail := trail s, next_to_propagate := next_to_propagate s\<rparr>"
    by simp
  then show ?thesis unfolding grows_def by (metis append_Nil2 le_refl)
qed

lemma grows_trans:
  assumes "grows s t" "grows t u"
  shows "grows s u"
proof -
  obtain n1 n2 where n: "trail t = trail s @ n1" "trail u = trail t @ n2"
    "\<forall>lit. lit_in (size_vars s) lit \<longrightarrow> lit \<notin> set n1 \<longrightarrow> - lit \<notin> set n1 \<longrightarrow> val lit t = val lit s"
    "\<forall>lit. lit_in (size_vars t) lit \<longrightarrow> lit \<notin> set n2 \<longrightarrow> - lit \<notin> set n2 \<longrightarrow> val lit u = val lit t"
    using growsD(3) [OF assms(1)] growsD(3) [OF assms(2)] by blast
  have "\<forall>lit. lit_in (size_vars s) lit \<longrightarrow> lit \<notin> set (n1 @ n2) \<longrightarrow> - lit \<notin> set (n1 @ n2) \<longrightarrow> val lit u = val lit s"
    using n(3,4) grows_frame(1) [OF assms(1)] by simp
  moreover have "trail u = trail s @ n1 @ n2" using n(1,2) by simp
  moreover have "length (vals u) = length (vals s)" using growsD(2) assms by metis
  moreover have "\<exists>v w h tr k. u = s\<lparr>vals := v, watchers := w, heap := h, trail := tr, next_to_propagate := k\<rparr> \<and>
      next_to_propagate s \<le> k"
    using growsD(1) [OF assms(1)] growsD(1) [OF assms(2)] by (fastforce intro: order_trans)
  ultimately show ?thesis unfolding grows_def by blast
qed

lemma grows_assign:
  assumes "arrays_ok s" "lit_in (size_vars s) k"
  shows "grows s (assign k s)"
proof (rule growsI)
  show "assign k s = s\<lparr>vals := vals (assign k s), watchers := watchers s, heap := heap s,
      trail := trail s @ [k], next_to_propagate := next_to_propagate s\<rparr>"
    by (simp add: assign_def)
  have len: "length (vals s) = 2 * size_vars s" using assms(1) by (simp add: arrays_ok_def)
  show "val lit (assign k s) = val lit s" if "lit_in (size_vars s) lit" "lit \<notin> set [k]" "- lit \<notin> set [k]" for lit
    using val_assign [OF len that(1) assms(2)] that(2,3) by auto
qed simp_all

lemma grows_other:
  assumes "t = s\<lparr>watchers := w, heap := h\<rparr>"
  shows "grows s t"
proof (rule growsI)
  show "t = s\<lparr>vals := vals s, watchers := w, heap := h, trail := trail s @ [], next_to_propagate := next_to_propagate s\<rparr>"
    unfolding assms by simp
  show "val lit t = val lit s" for lit unfolding assms by (rule val_cong) simp_all
qed simp_all

lemma grows_set_literals [simp]: "grows s (set_literals c lits s)"
  by (rule grows_other [where w = "watchers s"]) (simp add: set_literals_def)

lemma grows_push_watch [simp]: "grows s (push_watch r w s)"
  by (rule grows_other [where h = "heap s"]) (simp add: push_watch_def)

lemma grows_put [simp]: "grows s (put l ws s)"
  by (rule grows_other [where h = "heap s"]) (simp add: put_def)

lemma grows_step: "grows s (s\<lparr>next_to_propagate := next_to_propagate s + 1\<rparr>)"
proof (rule growsI)
  show "s\<lparr>next_to_propagate := next_to_propagate s + 1\<rparr> = s\<lparr>vals := vals s, watchers := watchers s, heap := heap s,
      trail := trail s @ [], next_to_propagate := next_to_propagate s + 1\<rparr>"
    by simp
  show "val lit (s\<lparr>next_to_propagate := next_to_propagate s + 1\<rparr>) = val lit s" for lit by (rule val_cong) simp_all
qed simp_all

lemma prop_watch_grows:
  assumes a: "arrays_ok s" "lit_in (size_vars s) l" and wf: "checker_wf (put l (us @ w # ws) s)"
    and step: "prop_watch l w s = (res, ks, t)"
  shows "grows s t"
  using a wf step
proof (cases rule: prop_watch_cases)
  case binary
  then show ?thesis using grows_assign [OF a(1)] by auto
next
  case (last c lits u)
  have u: "arrays_ok u" "size_vars u = size_vars s" "grows s u"
    using set_literals_ok(3) [OF last(4,5)] a(1) last(10) by simp_all
  then show ?thesis using last(6,7,11) grows_assign [of u "lits ! 0"] grows_trans [of s u] by auto
next
  case (move c lits r)
  then show ?thesis using grows_trans [OF grows_push_watch grows_set_literals] by simp
qed simp

lemma prop_watches_grows:
  "\<lbrakk>arrays_ok s; lit_in (size_vars s) l; checker_wf (put l (us @ ws) s); prop_watches l ws s = (res, ks, t)\<rbrakk> \<Longrightarrow> grows s t"
proof (induction ws arbitrary: us s res ks t)
  case (Cons w ws)
  obtain r1 k1 s1 where one: "prop_watch l w s = (r1, k1, s1)" by (metis prod_cases3)
  have s1: "arrays_ok s1" "size_vars s1 = size_vars s" "checker_wf (put l (us @ k1 @ ws) s1)"
    using prop_watch_wf [OF Cons.prems(1-3) one] by blast+
  have g1: "grows s s1" by (rule prop_watch_grows [OF Cons.prems(1-3) one])
  show ?case
  proof (cases r1)
    case True
    obtain r2 k2 s2 where two: "prop_watches l ws s1 = (r2, k2, s2)" by (metis prod_cases3)
    have "grows s1 s2" using Cons.prems(2) s1 by (intro Cons.IH [OF _ _ _ two, of "us @ k1"]) simp_all
    then show ?thesis using Cons.prems(4) one two True grows_trans [OF g1] by simp
  next
    case False
    then show ?thesis using Cons.prems(4) one g1 by simp
  qed
qed simp

lemma propagate_next_grows:
  assumes "checker_wf s" "next_to_propagate s < length (trail s)" "propagate_next s = (res, t)"
  shows "grows s t"
proof -
  let ?s = "s\<lparr>next_to_propagate := next_to_propagate s + 1\<rparr>" and ?l = "- trail s ! next_to_propagate s"
  have wf: "checker_wf ?s" using assms(1) by simp
  have l: "lit_in (size_vars ?s) ?l"
    using checker_wfD(1) [OF assms(1)] nth_mem [OF assms(2)] by (simp add: arrays_ok_def)
  obtain ks u where u: "prop_watches ?l (watcher ?l ?s) ?s = (res, ks, u)" "t = put ?l ks u"
    using assms(3) by (cases "prop_watches ?l (watcher ?l ?s) ?s") (auto simp: propagate_next_def propagate_false_def put_def)
  have "checker_wf (put ?l ([] @ watcher ?l ?s) ?s)" using wf by (simp only: append_Nil put_watcher)
  from prop_watches_grows [OF checker_wfD(1) [OF wf] l this u(1)]
  have "grows s u" using grows_step grows_trans by blast
  then show ?thesis unfolding u(2) using grows_put grows_trans by blast
qed

lemma propagate_grows: "\<lbrakk>checker_wf s; propagate s = (res, t)\<rbrakk> \<Longrightarrow> grows s t"
proof (induction s arbitrary: res t rule: propagate.induct)
  case (1 s)
  show ?case
  proof (cases "next_to_propagate s < length (trail s)")
    case less: True
    obtain r1 s1 where one: "propagate_next s = (r1, s1)" by fastforce
    have s1: "checker_wf s1" "grows s s1"
      using propagate_next_wf [OF 1(2) less one] propagate_next_grows [OF 1(2) less one] by blast+
    have p: "propagate s = (if r1 then propagate s1 else (False, s1))"
      using propagate_unfold [of s] less one by simp
    show ?thesis
    proof (cases r1)
      case True
      then show ?thesis using 1(1) [OF less one [symmetric] True s1(1), of res t] 1(3) s1 p grows_trans by simp
    next
      case False
      then show ?thesis using 1(3) s1 p by simp
    qed
  next
    case False
    then show ?thesis using 1 propagate_unfold [of s] by simp
  qed
qed

section \<open>Backtracking\<close>

definition clear_vals :: "checker \<Rightarrow> int list \<Rightarrow> int list \<Rightarrow> int list" where
  "clear_vals s lits v = fold (\<lambda>lit v. v[val_index lit s := 0, val_index (- lit) s := 0]) lits v"

lemma length_clear_vals [simp]: "length (clear_vals s lits v) = length v"
  unfolding clear_vals_def by (induction lits arbitrary: v) auto

lemma update_0: "xs ! 0 = 0 \<Longrightarrow> xs[i := 0] ! 0 = (0 :: int)"
  by (cases xs; cases i) auto

lemma clear_vals_0: "v ! 0 = 0 \<Longrightarrow> clear_vals s lits v ! 0 = 0"
proof (induction lits arbitrary: v)
  case (Cons k lits)
  have "v[val_index k s := 0, val_index (- k) s := 0] ! 0 = 0"
    using Cons.prems by (intro update_0)
  then show ?case using Cons.IH by (simp add: clear_vals_def)
qed (simp add: clear_vals_def)

lemma clear_vals_nth:
  assumes "length v = 2 * size_vars s" "lit_in (size_vars s) lit" "\<forall>k \<in> set lits. lit_in (size_vars s) k"
  shows "clear_vals s lits v ! val_index lit s = (if lit \<in> set lits \<or> - lit \<in> set lits then 0 else v ! val_index lit s)"
  using assms(1,3)
proof (induction lits arbitrary: v)
  case (Cons k lits)
  let ?v = "v[val_index k s := 0, val_index (- k) s := 0]"
  have "clear_vals s (k # lits) v = clear_vals s lits ?v" by (simp add: clear_vals_def)
  moreover have "?v ! val_index lit s = (if lit = k \<or> - lit = k then 0 else v ! val_index lit s)"
  proof -
    let ?i = "\<lambda>l. val_index l s"
    have i: "?i lit < length v" "?i k < length v" "?i (- k) < length v"
      unfolding Cons.prems(1) using assms(2) Cons.prems(2) by (simp_all add: val_index_less)
    have "lit_in (size_vars s) k" using Cons.prems(2) by simp
    then have e: "(?i k = ?i lit) = (k = lit)" "(?i (- k) = ?i lit) = (- k = lit)"
      using val_index_inj [of s k lit] val_index_inj [of s "- k" lit] assms(2) by auto
    show ?thesis by (simp only: nth_list_update i length_list_update e) auto
  qed
  ultimately show ?case using Cons by auto
qed (simp add: clear_vals_def)

lemma backtrack_simps [simp]:
  "size_vars (backtrack n s) = size_vars s" "heap (backtrack n s) = heap s" "clauses (backtrack n s) = clauses s"
  "garbage (backtrack n s) = garbage s" "freed (backtrack n s) = freed s" "num_clauses (backtrack n s) = num_clauses s"
  "num_garbage (backtrack n s) = num_garbage s" "watchers (backtrack n s) = watchers s" "marks (backtrack n s) = marks s"
  "trail (backtrack n s) = take n (trail s)" "next_to_propagate (backtrack n s) = n"
  "inconsistent (backtrack n s) = inconsistent s" "simplified (backtrack n s) = simplified s"
  "unsimplified (backtrack n s) = unsimplified s" "last_id (backtrack n s) = last_id s"
  "vals (backtrack n s) = clear_vals s (rev (drop n (trail s))) (vals s)"
  by (simp_all add: backtrack_def clear_vals_def)

lemma val_backtrack:
  assumes "arrays_ok s" "lit_in (size_vars s) lit"
  shows "val lit (backtrack n s) =
    (if lit \<in> set (drop n (trail s)) \<or> - lit \<in> set (drop n (trail s)) then 0 else val lit s)"
proof -
  have len: "length (vals s) = 2 * size_vars s" and rng: "\<forall>k \<in> set (trail s). lit_in (size_vars s) k"
    using assms(1) by (simp_all add: arrays_ok_def)
  have "\<forall>k \<in> set (rev (drop n (trail s))). lit_in (size_vars s) k"
    using rng set_drop_subset [of n "trail s"] by auto
  from clear_vals_nth [OF len assms(2) this]
  show ?thesis using val_index_less [OF assms(2)] len by (simp add: val_def val_index_def)
qed

lemma checker_wf_backtrack:
  assumes "checker_wf s"
  shows "checker_wf (backtrack n s)"
  by (rule checker_wf_cong [OF assms])
    (use checker_wfD(1) [OF assms] set_take_subset [of n "trail s"] in \<open>auto simp: arrays_ok_def clear_vals_0\<close>)

text \<open>Growing and backtracking forgets, but does not change, the assignment.\<close>

lemma val_grow_back:
  assumes "grows s t" "arrays_ok t" "n \<le> length (trail s)" "lit_in (size_vars s) lit"
  shows "val lit (backtrack n t) = 0 \<or> val lit (backtrack n t) = val lit s"
proof -
  obtain new where "trail t = trail s @ new"
    "\<forall>lit. lit_in (size_vars s) lit \<longrightarrow> lit \<notin> set new \<longrightarrow> - lit \<notin> set new \<longrightarrow> val lit t = val lit s"
    using growsD(3) [OF assms(1)] by blast
  then show ?thesis
    using val_backtrack [OF assms(2), of lit n] assms(3,4) grows_frame(1) [OF assms(1)] by auto
qed

lemma holds_grow_back:
  assumes "grows s t" "arrays_ok t" "n \<le> length (trail s)" "holds \<sigma> s"
  shows "holds \<sigma> (backtrack n t)"
proof -
  obtain new where "trail t = trail s @ new" using growsD(3) [OF assms(1)] by blast
  then have "set (take n (trail t)) \<subseteq> set (trail s)" using assms(3) set_take_subset [of n "trail s"] by simp
  moreover have sz: "size_vars t = size_vars s" using grows_frame(1) [OF assms(1)] .
  ultimately show ?thesis
    using assms(4) val_grow_back [OF assms(1-3)] unfolding holds_def by (auto; metis less_irrefl)
qed

section \<open>Checking\<close>

definition assume_all :: "int list \<Rightarrow> checker \<Rightarrow> checker" where
  "assume_all lits s = fold (\<lambda>lit. assume_lit (- lit)) lits s"

lemma assume_all_spec:
  "\<lbrakk>checker_wf s; \<forall>lit \<in> set lits. lit_in (size_vars s) lit\<rbrakk> \<Longrightarrow>
   checker_wf (assume_all lits s) \<and> grows s (assume_all lits s) \<and>
   (\<forall>\<sigma>. know \<sigma> s \<longrightarrow> know \<sigma> (assume_all lits s)) \<and>
   (\<forall>\<sigma>. holds \<sigma> s \<longrightarrow> \<not> clause_true \<sigma> lits \<longrightarrow> holds \<sigma> (assume_all lits s))"
proof (induction lits arbitrary: s)
  case (Cons lit lits)
  let ?t = "assume_lit (- lit) s"
  have l: "lit_in (size_vars s) (- lit)" "lit \<noteq> 0" using Cons.prems(2) by (simp_all add: lit_in_def)
  have a: "arrays_ok s" using checker_wfD(1) [OF Cons.prems(1)] .
  have t: "checker_wf ?t" "grows s ?t" "\<forall>\<sigma>. know \<sigma> s \<longrightarrow> know \<sigma> ?t"
    "\<forall>\<sigma>. holds \<sigma> s \<longrightarrow> \<not> lit_true \<sigma> lit \<longrightarrow> holds \<sigma> ?t"
    using Cons.prems(1) checker_wf_assign [OF Cons.prems(1) l(1)] grows_assign [OF a l(1)] holds_assign [OF a _ l(1)]
      lit_true_uminus [OF l(2)] know_cong [of "assign (- lit) s" s]
    by (auto simp: assume_lit_def)
  have "\<forall>k \<in> set lits. lit_in (size_vars ?t) k" using Cons.prems(2) grows_frame(1) [OF t(2)] by simp
  note IH = Cons.IH [OF t(1) this]
  have eq: "assume_all (lit # lits) s = assume_all lits ?t" by (simp add: assume_all_def)
  show ?case
    unfolding eq using IH t grows_trans [OF t(2)] by (simp add: clause_true_def)
qed (simp add: assume_all_def)

lemma assume_all_Nil: "assume_all [] s = s"
  by (simp add: assume_all_def)

lemma drup_check_spec:
  assumes wf: "checker_wf s" and simp: "\<forall>lit \<in> set (simplified s). lit_in (size_vars s) lit"
    and nxt: "next_to_propagate s \<le> length (trail s)" and con: "\<not> inconsistent s"
    and r: "check s = (b, t)"
  shows "checker_wf t" "\<exists>v w h tr. t = s\<lparr>vals := v, watchers := w, heap := h, trail := tr\<rparr>"
    "next_to_propagate t \<le> length (trail t)"
    "know \<sigma> s \<Longrightarrow> know \<sigma> t" "holds \<sigma> s \<Longrightarrow> holds \<sigma> t"
    "b \<Longrightarrow> know \<sigma> s \<Longrightarrow> holds \<sigma> s \<Longrightarrow> clause_true \<sigma> (simplified s)"
    "lit_in (size_vars s) lit \<Longrightarrow> val lit t = 0 \<or> val lit t = val lit s"
proof -
  let ?n = "next_to_propagate s" and ?a = "assume_all (simplified s) s"
  note as = assume_all_spec [OF wf simp]
  obtain res u where p: "propagate ?a = (res, u)" by fastforce
  have b: "b = (\<not> res)" and t: "t = backtrack ?n u"
    using r con p by (simp_all add: check_def assume_all_def)
  have u: "checker_wf u" "grows s u"
    using propagate_wf [OF _ p] propagate_grows [OF _ p] as grows_trans by blast+
  show "checker_wf t" unfolding t by (rule checker_wf_backtrack [OF u(1)])
  obtain v w h tr k where uf: "u = s\<lparr>vals := v, watchers := w, heap := h, trail := tr, next_to_propagate := k\<rparr>"
    using growsD(1) [OF u(2)] by blast
  have "t = s\<lparr>vals := vals t, watchers := w, heap := h, trail := trail t\<rparr>"
    unfolding t uf by (simp add: backtrack_def)
  then show "\<exists>v w h tr. t = s\<lparr>vals := v, watchers := w, heap := h, trail := tr\<rparr>" by blast
  obtain new where "trail u = trail s @ new" using growsD(3) [OF u(2)] by blast
  then show "next_to_propagate t \<le> length (trail t)" using nxt unfolding t by simp
  show "know \<sigma> t" if "know \<sigma> s"
    unfolding t using propagate_know [OF _ p] as that know_cong [of "backtrack ?n u" u] by simp
  show "holds \<sigma> t" if "holds \<sigma> s"
    unfolding t by (rule holds_grow_back [OF u(2) checker_wfD(1) [OF u(1)] nxt that])
  show "clause_true \<sigma> (simplified s)" if "b" "know \<sigma> s" "holds \<sigma> s"
    using propagate_know [OF _ p] as that b by blast
  show "val lit t = 0 \<or> val lit t = val lit s" if "lit_in (size_vars s) lit"
    unfolding t by (rule val_grow_back [OF u(2) checker_wfD(1) [OF u(1)] nxt that])
qed


lemma propagate_next_bound:
  "\<lbrakk>checker_wf s; next_to_propagate s \<le> length (trail s); propagate s = (res, t)\<rbrakk> \<Longrightarrow>
   next_to_propagate t \<le> length (trail t)"
proof (induction s arbitrary: res t rule: propagate.induct)
  case (1 s)
  show ?case
  proof (cases "next_to_propagate s < length (trail s)")
    case less: True
    obtain r1 s1 where one: "propagate_next s = (r1, s1)" by fastforce
    have s1: "checker_wf s1" using propagate_next_wf [OF 1(2) less one] by blast
    have "length (trail s) \<le> length (trail s1)" using growsD(3) [OF propagate_next_grows [OF 1(2) less one]] by auto
    then have n1: "next_to_propagate s1 \<le> length (trail s1)" using propagate_next_extends [OF one] less by simp
    have p: "propagate s = (if r1 then propagate s1 else (False, s1))"
      using propagate_unfold [of s] less one by simp
    show ?thesis
    proof (cases r1)
      case True
      then show ?thesis using 1(1) [OF less one [symmetric] True s1 n1, of res t] 1(4) p by simp
    next
      case False
      then show ?thesis using 1(4) n1 p by simp
    qed
  next
    case False
    then show ?thesis using 1(3,4) propagate_unfold [of s] by simp
  qed
qed

end
