(* ===== verification/Drup_Import.thy ===== *)
theory Drup_Import
  imports Drup_Check
begin

text \<open>
  Importing a clause into the forward checker, and sorting and cleaning it: the arrays grow
  without losing anything, and the clause that \<open>tautological\<close> leaves has the same literals, none
  of them twice, true, or with its negation.
\<close>

section \<open>Growing the arrays\<close>

lemma index_pad:
  assumes "length v = 2 * m" "m \<le> n" "0 < m \<longrightarrow> v ! 0 = 0" "lit_in n lit"
  shows "(replicate (n - m) 0 @ v @ replicate (n - m) (0::int)) ! nat (lit + int n) =
    (if lit_in m lit then v ! nat (lit + int m) else 0)"
proof -
  have "\<not> lit < - int m \<Longrightarrow> lit \<noteq> - int m \<Longrightarrow> \<not> int m \<le> lit \<Longrightarrow> lit_in m lit"
    using assms(4) unfolding lit_in_def by linarith
  then consider (low) "lit < - int m" | (edge) "lit = - int m" | (mid) "lit_in m lit" | (high) "int m \<le> lit"
    by blast
  then show ?thesis
  proof cases
    case low
    then have "nat (lit + int n) < n - m" "\<not> lit_in m lit"
      using assms(4) unfolding lit_in_def by auto
    then show ?thesis by (simp add: nth_append)
  next
    case edge
    then have "nat (lit + int n) = n - m" "\<not> lit_in m lit" using assms(2) by (auto simp: lit_in_def)
    moreover have "0 < m" using edge assms(4) by (auto simp: lit_in_def)
    ultimately show ?thesis using assms(1,3) by (simp add: nth_append)
  next
    case mid
    then have i: "nat (lit + int n) = (n - m) + nat (lit + int m)" "nat (lit + int m) < 2 * m"
      using assms(2) unfolding lit_in_def by auto
    show ?thesis unfolding i(1) using mid i(2) assms(1) by (simp add: nth_append)
  next
    case high
    let ?pad = "replicate (n - m) (0::int)"
    have i: "nat (lit + int n) = length ?pad + (length v + (nat lit - m))" "\<not> lit_in m lit"
      using high assms(1,2,4) unfolding lit_in_def by auto
    have "nat lit - m < n - m" using high assms(4) by (auto simp: lit_in_def)
    moreover have "(?pad @ v @ ?pad) ! nat (lit + int n) = ?pad ! (nat lit - m)"
      unfolding i(1) by (simp only: nth_append_length_plus)
    ultimately show ?thesis using i(2) by simp
  qed
qed

text \<open>What enlarging the arrays does.\<close>

definition enlarged :: "checker \<Rightarrow> checker \<Rightarrow> bool" where
  "enlarged s t \<longleftrightarrow>
     (\<exists>n v w m. t = s\<lparr>size_vars := n, vals := v, watchers := w, marks := m\<rparr>) \<and>
     size_vars s \<le> size_vars t \<and> checker_wf t \<and> flagged (marks t) = flagged (marks s) \<and>
     (\<forall>\<sigma>. know \<sigma> s \<longrightarrow> know \<sigma> t) \<and> (\<forall>\<sigma>. holds \<sigma> s \<longrightarrow> holds \<sigma> t)"

lemma l2u_Suc: "lit_in (Suc n) lit \<Longrightarrow> l2u lit < 2 * n"
  by (auto simp: l2u_def lit_in_def Let_def)

lemma clause_ok_mono: "clause_ok m c \<Longrightarrow> m \<le> n \<Longrightarrow> clause_ok n c"
  using lit_in_mono by (auto simp: clause_ok_def)

lemma enlarge_vars_spec:
  assumes wf: "checker_wf s"
  shows "enlarged s (enlarge_vars idx s) \<and> idx < size_vars (enlarge_vars idx s)"
proof -
  define n where "n = grow_to idx (if size_vars s \<noteq> 0 then 2 * size_vars s else 2)"
  let ?m = "size_vars s" and ?pad = "replicate (n - size_vars s) (0::int)" and ?t = "enlarge_vars idx s"
  have n: "?m \<le> n" "idx < n" "0 < n"
    using grow_to_spec [of "if size_vars s \<noteq> 0 then 2 * size_vars s else 2" idx] by (auto simp: n_def)
  have t: "?t = s\<lparr>size_vars := n, vals := ?pad @ vals s @ ?pad, watchers := resize (2 * n) [] (watchers s),
      marks := resize (2 * n) False (marks s)\<rparr>"
    by (simp add: enlarge_vars_def n_def Let_def)
  have a: "length (vals s) = 2 * ?m" "length (watchers s) = 2 * ?m" "length (marks s) = 2 * ?m"
    "\<forall>lit \<in> set (trail s). lit_in ?m lit" "0 < ?m \<longrightarrow> vals s ! 0 = 0"
    using checker_wfD(1) [OF wf] unfolding arrays_ok_def by blast+
  have val_t: "val lit ?t = (if lit_in ?m lit then val lit s else 0)" if "lit_in n lit" for lit
  proof -
    have i: "nat (lit + int n) < 2 * n" using that by (auto simp: lit_in_def)
    have l: "length (?pad @ vals s @ ?pad) = 2 * n" using a(1) n(1) by simp
    have "val lit ?t = (?pad @ vals s @ ?pad) ! nat (lit + int n)"
      using i l unfolding t val_def val_index_def by simp
    moreover have "lit_in ?m lit \<Longrightarrow> val lit s = vals s ! nat (lit + int ?m)"
      using val_index_less [of s lit] a(1) by (simp add: val_def val_index_def)
    ultimately show ?thesis using index_pad [OF a(1) n(1) a(5) that] by simp
  qed
  have v0: "vals ?t ! 0 = 0"
    using n(1) a(5) n(3) by (cases "n = ?m") (simp_all add: t nth_append)
  have w_t: "watcher k ?t = (if lit_in (Suc ?m) k then watcher k s else [])" if "lit_in (Suc n) k" for k
  proof (cases "lit_in (Suc ?m) k")
    case True
    then have "l2u k < length (watchers s)" "l2u k < 2 * n" using l2u_Suc that a(2) by simp_all
    then show ?thesis using True by (simp add: watcher_def t nth_resize_old)
  next
    case False
    then have "\<not> l2u k < length (watchers s)" using that a(2) by (auto simp: l2u_def lit_in_def Let_def)
    then show ?thesis using False l2u_Suc [OF that] by (simp add: watcher_def t nth_resize_new)
  qed
  have "checker_wf ?t"
  proof (rule checker_wfI)
    show "arrays_ok ?t" using a(1,2,4) n v0 lit_in_mono by (auto simp: arrays_ok_def t)
    show "tables_ok ?t" using checker_wfD(2) [OF wf] tables_ok_cong [of ?t s] by (simp add: t)
    show "heap_ok ?t"
      using checker_wfD(3) [OF wf] clause_ok_mono [OF _ n(1)]
      by (simp add: heap_ok_def t live_def addresses_def)
    show "watches_ok ?t l (watcher l ?t)" if "lit_in (Suc (size_vars ?t)) l" for l
    proof -
      have "lit_in (Suc n) l" using that by (simp add: t)
      moreover have "watches_ok ?t l ws" if "watches_ok s l ws" for ws
        using that n(1) lit_in_mono
        by (auto simp: watches_ok_def watch_ok_def live_watched_def live_def [abs_def] addresses_def t)
      moreover have "watches_ok ?t l []" by (simp add: watches_ok_def live_watched_def)
      ultimately show ?thesis using w_t checker_wfD(4) [OF wf] by simp
    qed
  qed
  moreover have "know \<sigma> ?t" if "know \<sigma> s" for \<sigma>
  proof -
    have "\<forall>w \<in> set (watcher l ?t). watch_true \<sigma> l w" if "lit_in (Suc n) l" for l
      using \<open>know \<sigma> s\<close> that w_t [OF that] by (auto simp: know_def split: if_splits)
    moreover have "\<forall>a \<in> addresses ?t. live ?t a \<longrightarrow> clause_true \<sigma> (cc_literals (heap ?t ! a))"
      using \<open>know \<sigma> s\<close> by (simp add: know_def t addresses_def live_def)
    ultimately show ?thesis by (simp add: know_def t)
  qed
  moreover have "holds \<sigma> ?t" if "holds \<sigma> s" for \<sigma>
  proof -
    have sz: "size_vars ?t = n" "trail ?t = trail s" by (simp_all add: t)
    show ?thesis using that val_t unfolding holds_def sz by auto
  qed
  moreover have "flagged (marks ?t) = flagged (marks s)" using flagged_resize [of "marks s" "2 * n"] a(3) n(1) by (simp add: t)
  moreover have "\<exists>n v w m. ?t = s\<lparr>size_vars := n, vals := v, watchers := w, marks := m\<rparr>" unfolding t by blast
  moreover have "size_vars s \<le> size_vars ?t" "idx < size_vars ?t" using n by (simp_all add: t)
  ultimately show ?thesis unfolding enlarged_def by blast
qed

lemma enlarged_refl: "checker_wf s \<Longrightarrow> enlarged s s"
proof -
  assume "checker_wf s"
  moreover have "s = s\<lparr>size_vars := size_vars s, vals := vals s, watchers := watchers s, marks := marks s\<rparr>" by simp
  ultimately show ?thesis unfolding enlarged_def by (metis order_refl)
qed

section \<open>Importing\<close>

definition imported :: "int list \<Rightarrow> checker \<Rightarrow> checker \<Rightarrow> bool" where
  "imported c s t \<longleftrightarrow>
     (\<exists>n v w m. t = s\<lparr>size_vars := n, vals := v, watchers := w, marks := m,
        simplified := simplified s @ c, unsimplified := unsimplified s @ c\<rparr>) \<and>
     size_vars s \<le> size_vars t \<and> checker_wf t \<and> flagged (marks t) = flagged (marks s) \<and>
     (\<forall>\<sigma>. know \<sigma> s \<longrightarrow> know \<sigma> t) \<and> (\<forall>\<sigma>. holds \<sigma> s \<longrightarrow> holds \<sigma> t) \<and> (\<forall>lit \<in> set c. lit_in (size_vars t) lit)"

text \<open>The imported clause is no part of the invariants.\<close>

lemma checker_wf_imported [simp]:
  "checker_wf (s\<lparr>simplified := p, unsimplified := q\<rparr>) = checker_wf s"
  "checker_wf (s\<lparr>simplified := p\<rparr>) = checker_wf s"
  "checker_wf (s\<lparr>last_id := i\<rparr>) = checker_wf s"
  "checker_wf (s\<lparr>last_hash := h\<rparr>) = checker_wf s"
  "checker_wf (s\<lparr>inconsistent := b\<rparr>) = checker_wf s"
  by (simp_all add: checker_wf_def arrays_ok_def tables_ok_def heap_ok_def watches_ok_def watch_ok_def addresses_def
      live_def [abs_def] live_watched_def watcher_def)

lemma know_imported [simp]:
  "know \<sigma> (s\<lparr>simplified := p, unsimplified := q\<rparr>) = know \<sigma> s"
  "know \<sigma> (s\<lparr>simplified := p\<rparr>) = know \<sigma> s"
  "know \<sigma> (s\<lparr>last_id := i\<rparr>) = know \<sigma> s"
  "know \<sigma> (s\<lparr>last_hash := h\<rparr>) = know \<sigma> s"
  "know \<sigma> (s\<lparr>inconsistent := b\<rparr>) = know \<sigma> s"
  "know \<sigma> (s\<lparr>marks := m\<rparr>) = know \<sigma> s"
  by (simp_all add: know_def addresses_def live_def watcher_def)

lemma holds_imported [simp]:
  "holds \<sigma> (s\<lparr>simplified := p, unsimplified := q\<rparr>) = holds \<sigma> s"
  "holds \<sigma> (s\<lparr>simplified := p\<rparr>) = holds \<sigma> s"
  "holds \<sigma> (s\<lparr>last_id := i\<rparr>) = holds \<sigma> s"
  "holds \<sigma> (s\<lparr>last_hash := h\<rparr>) = holds \<sigma> s"
  "holds \<sigma> (s\<lparr>inconsistent := b\<rparr>) = holds \<sigma> s"
  "holds \<sigma> (s\<lparr>marks := m\<rparr>) = holds \<sigma> s"
  by (simp_all add: holds_def val_def val_index_def)

lemma import_literal_spec:
  assumes "checker_wf s" "lit \<noteq> 0"
  shows "imported [lit] s (import_literal lit s)"
proof -
  let ?u = "if nat \<bar>lit\<bar> \<ge> size_vars s then enlarge_vars (nat \<bar>lit\<bar>) s else s"
  have u: "enlarged s ?u" "nat \<bar>lit\<bar> < size_vars ?u"
    using enlarge_vars_spec [OF assms(1)] enlarged_refl [OF assms(1)] by auto
  obtain n v w m where f: "?u = s\<lparr>size_vars := n, vals := v, watchers := w, marks := m\<rparr>"
    using u(1) unfolding enlarged_def by blast
  let ?t = "?u\<lparr>simplified := simplified ?u @ [lit], unsimplified := unsimplified ?u @ [lit]\<rparr>"
  have t: "import_literal lit s = ?t" by (simp add: import_literal_def Let_def)
  have "?t = s\<lparr>size_vars := n, vals := v, watchers := w, marks := m,
      simplified := simplified s @ [lit], unsimplified := unsimplified s @ [lit]\<rparr>"
    unfolding f by simp
  moreover have "\<forall>k \<in> set [lit]. lit_in (size_vars ?t) k" using u(2) assms(2) by (simp add: lit_in_def)
  moreover have "size_vars s \<le> size_vars ?u" "checker_wf ?u" "flagged (marks ?u) = flagged (marks s)"
    "\<forall>\<sigma>. know \<sigma> s \<longrightarrow> know \<sigma> ?u" "\<forall>\<sigma>. holds \<sigma> s \<longrightarrow> holds \<sigma> ?u"
    using u(1) unfolding enlarged_def by blast+
  then have "size_vars s \<le> size_vars ?t" "checker_wf ?t" "flagged (marks ?t) = flagged (marks s)"
    "\<forall>\<sigma>. know \<sigma> s \<longrightarrow> know \<sigma> ?t" "\<forall>\<sigma>. holds \<sigma> s \<longrightarrow> holds \<sigma> ?t"
    by simp_all
  ultimately show ?thesis unfolding t imported_def by blast
qed

lemma imported_Nil:
  assumes "checker_wf s"
  shows "imported [] s s"
proof -
  have "s = s\<lparr>size_vars := size_vars s, vals := vals s, watchers := watchers s, marks := marks s,
      simplified := simplified s @ [], unsimplified := unsimplified s @ []\<rparr>" by simp
  then show ?thesis using assms unfolding imported_def by (intro conjI) (blast | simp)+
qed

lemma drup_imported_trans:
  assumes "imported c s t" "imported d t u"
  shows "imported (c @ d) s u"
proof -
  obtain n v w m where t: "t = s\<lparr>size_vars := n, vals := v, watchers := w, marks := m,
      simplified := simplified s @ c, unsimplified := unsimplified s @ c\<rparr>"
    using assms(1) unfolding imported_def by blast
  obtain n' v' w' m' where "u = t\<lparr>size_vars := n', vals := v', watchers := w', marks := m',
      simplified := simplified t @ d, unsimplified := unsimplified t @ d\<rparr>"
    using assms(2) unfolding imported_def by blast
  then have "u = s\<lparr>size_vars := n', vals := v', watchers := w', marks := m',
      simplified := simplified s @ c @ d, unsimplified := unsimplified s @ c @ d\<rparr>"
    unfolding t by simp
  moreover have "\<forall>lit \<in> set (c @ d). lit_in (size_vars u) lit"
    using assms unfolding imported_def by (auto intro: lit_in_mono)
  ultimately show ?thesis using assms unfolding imported_def append_assoc by (intro conjI) (blast | force)+
qed

lemma import_clause_spec:
  "\<lbrakk>checker_wf s; 0 \<notin> set c\<rbrakk> \<Longrightarrow> imported c s (import_clause c s)"
proof (induction c arbitrary: s)
  case (Cons lit c)
  have one: "imported [lit] s (import_literal lit s)" using Cons.prems by (intro import_literal_spec) auto
  then have "imported c (import_literal lit s) (import_clause c (import_literal lit s))"
    using Cons by (simp add: imported_def)
  from drup_imported_trans [OF one this] show ?case by (simp add: import_clause_def)
qed (simp add: import_clause_def imported_Nil)

section \<open>Tautologies\<close>

lemma lit_rank_smaller: "a \<noteq> 0 \<Longrightarrow> b \<noteq> 0 \<Longrightarrow> lit_rank a < lit_rank b \<longleftrightarrow> lit_smaller a b"
  by (auto simp: lit_rank_def lit_smaller_def Let_def)

lemma lit_rank_inj: "lit_rank a = lit_rank b \<longleftrightarrow> a = b"
  unfolding lit_rank_def by (cases "0 < a"; cases "0 < b"; simp) presburger+

lemma lit_rank_between: "lit_rank a \<le> lit_rank b \<Longrightarrow> lit_rank b \<le> lit_rank (- a) \<Longrightarrow> b = a \<or> b = - a"
  by (auto simp: lit_rank_def split: if_splits)

lemma taut_loop_clean:
  "\<lbrakk>sorted (map lit_rank (prev # lits)); 0 \<notin> set lits; taut_loop s prev lits = (False, kept)\<rbrakk> \<Longrightarrow>
   distinct kept \<and> insert prev (set kept) = insert prev (set lits) \<and> prev \<notin> set kept \<and> - prev \<notin> set kept \<and>
   (\<forall>lit \<in> set kept. \<not> val lit s > 0 \<and> - lit \<notin> set kept)"
proof (induction lits arbitrary: prev kept)
  case (Cons lit lits)
  have nz: "lit \<noteq> 0" "0 \<notin> set lits" using Cons.prems(2) by auto
  show ?case
  proof (cases "lit = prev")
    case True
    then show ?thesis using Cons.IH [of prev kept] Cons.prems by (auto simp: sorted_wrt_append)
  next
    case False
    then obtain ks where ks: "kept = lit # ks" "taut_loop s lit lits = (False, ks)"
      and lit: "lit \<noteq> - prev" "\<not> val lit s > 0"
      using Cons.prems(3) by (cases "taut_loop s lit lits") (auto split: if_splits)
    have IH: "distinct ks" "insert lit (set ks) = insert lit (set lits)" "lit \<notin> set ks" "- lit \<notin> set ks"
      "\<forall>l \<in> set ks. \<not> val l s > 0 \<and> - l \<notin> set ks"
      using Cons.IH [of lit ks] Cons.prems(1) nz ks(2) by simp_all
    have above: "lit_rank prev \<le> lit_rank lit \<and> lit_rank lit \<le> lit_rank k" if "k \<in> set ks" for k
      using that IH(2) Cons.prems(1) by auto
    have prev: "prev \<notin> set ks" "- prev \<notin> set ks"
    proof -
      show "prev \<notin> set ks"
      proof
        assume "prev \<in> set ks"
        from above [OF this] have "lit_rank lit = lit_rank prev" by simp
        then show False using False by (simp add: lit_rank_inj)
      qed
      show "- prev \<notin> set ks" using above [of "- prev"] lit_rank_between [of prev lit] False lit(1) by blast
    qed
    have "\<not> val l s > 0 \<and> - l \<notin> set kept" if "l \<in> set kept" for l
    proof (cases "l = lit")
      case True
      then show ?thesis using lit(2) IH(4) nz(1) ks(1) by simp
    next
      case False
      then have "l \<in> set ks" using that ks(1) by simp
      then show ?thesis using IH(4,5) ks(1) by auto
    qed
    moreover have "insert prev (set kept) = insert prev (set (lit # lits))" using IH(2) ks(1) by auto
    moreover have "distinct kept" using IH(1,3) ks(1) by simp
    moreover have "prev \<notin> set kept" "- prev \<notin> set kept" using prev False lit(1) ks(1) by auto
    ultimately show ?thesis by blast
  qed
qed simp


lemma taut_loop_taut:
  "\<lbrakk>0 \<notin> set lits; taut_loop s prev lits = (True, kept)\<rbrakk> \<Longrightarrow>
   (\<exists>lit \<in> set lits. val lit s > 0 \<or> - lit \<in> insert prev (set lits))"
proof (induction lits arbitrary: prev kept)
  case (Cons lit lits)
  show ?case
  proof (cases "lit = prev \<or> lit \<noteq> - prev \<and> \<not> val lit s > 0")
    case True
    then obtain ks where "taut_loop s lit lits = (True, ks)"
      using Cons.prems(2) by (cases "taut_loop s lit lits") (auto split: if_splits)
    then show ?thesis using Cons.IH [of lit ks] Cons.prems(1) by auto
  next
    case False
    then show ?thesis by auto
  qed
qed simp

text \<open>The simplified clause after \<open>tautological\<close> returned false.\<close>

definition clean :: "checker \<Rightarrow> int list \<Rightarrow> bool" where
  "clean s c \<longleftrightarrow> distinct c \<and> (\<forall>lit \<in> set c. lit_in (size_vars s) lit \<and> lit \<noteq> INT_MIN \<and> \<not> val lit s > 0 \<and> - lit \<notin> set c)"

lemma tautological_spec:
  assumes "\<forall>lit \<in> set (simplified s). lit_in (size_vars s) lit \<and> lit \<noteq> INT_MIN" "tautological s = (taut, t)"
  shows "\<exists>q. t = s\<lparr>simplified := q\<rparr>"
    and "\<not> taut \<Longrightarrow> set (simplified t) = set (simplified s) \<and> clean t (simplified t)"
    and "taut \<Longrightarrow> holds \<sigma> s \<Longrightarrow> clause_true \<sigma> (simplified s)"
proof -
  let ?c = "sort_key lit_rank (simplified s)"
  obtain b kept where k: "taut_loop s 0 ?c = (b, kept)" by fastforce
  have t: "taut = b" "t = s\<lparr>simplified := (if b then kept @ drop (length kept) ?c else kept)\<rparr>"
    using assms(2) k by (auto simp: tautological_def)
  then show "\<exists>q. t = s\<lparr>simplified := q\<rparr>" by blast
  have nz: "0 \<notin> set ?c" using assms(1) by (auto simp: lit_in_def)
  have "sorted (map lit_rank (0 # ?c))" by (auto simp: lit_rank_def)
  note cl = taut_loop_clean [OF this nz]
  have vt: "val l t = val l s" for l using t(2) by (intro val_cong) simp_all
  show "set (simplified t) = set (simplified s) \<and> clean t (simplified t)" if "\<not> taut"
  proof -
    have f: "taut_loop s 0 ?c = (False, kept)" "simplified t = kept" using k t that by auto
    have "set kept = set ?c" using cl [OF f(1)] nz insert_ident [of 0 "set kept" "set ?c"] by blast
    then have s: "set kept = set (simplified s)" by simp
    have "size_vars t = size_vars s" using t(2) by simp
    then have "clean t kept" unfolding clean_def vt using cl [OF f(1)] assms(1) s by auto
    then show ?thesis using s f(2) by simp
  qed
  show "clause_true \<sigma> (simplified s)" if "taut" "holds \<sigma> s"
  proof -
    have "taut_loop s 0 ?c = (True, kept)" using k t that by auto
    from taut_loop_taut [OF nz this] obtain l where l: "l \<in> set (simplified s)" "val l s > 0 \<or> - l = 0 \<or> - l \<in> set (simplified s)"
      by auto
    then have i: "lit_in (size_vars s) l" "l \<noteq> 0" using assms(1) by (auto simp: lit_in_def)
    show ?thesis
      using l i holdsD(1) [OF that(2) i(1)] lit_true_uminus [OF i(2)] by (auto simp: clause_true_def)
  qed
qed

end
