(* ===== verification/Drup_Ops.thy ===== *)
theory Drup_Ops
  imports Drup_Import
begin

text \<open>
  The operations of the forward checker on its table: collection, insertion, search and removal
  keep the structural invariant, lose nothing that is known but garbage, and free only clauses
  nothing refers to.
\<close>

section \<open>Garbage collection\<close>

lemma make_garbage_fold:
  assumes "distinct as" "\<forall>a \<in> set as. a < length (heap s)"
  shows "\<exists>h. fold make_garbage as s = s\<lparr>heap := h, garbage := rev as @ garbage s,
      num_garbage := num_garbage s + length as, num_clauses := num_clauses s - length as\<rparr> \<and>
    length h = length (heap s) \<and>
    (\<forall>b < length h. h ! b = (if b \<in> set as then (heap s ! b)\<lparr>cc_size := 0\<rparr> else heap s ! b))"
  using assms
proof (induction as arbitrary: s)
  case Nil
  then show ?case by (intro exI [of _ "heap s"]) simp
next
  case (Cons a as)
  let ?s = "make_garbage a s"
  have h: "heap ?s = (heap s)[a := (heap s ! a)\<lparr>cc_size := 0\<rparr>]" "a < length (heap s)"
    using Cons.prems by (simp_all add: make_garbage_def)
  have "distinct as" "\<forall>a \<in> set as. a < length (heap ?s)" using Cons.prems h by simp_all
  from Cons.IH [OF this] obtain g where g: "fold make_garbage as ?s = ?s\<lparr>heap := g, garbage := rev as @ garbage ?s,
      num_garbage := num_garbage ?s + length as, num_clauses := num_clauses ?s - length as\<rparr>"
    "length g = length (heap ?s)"
    "\<forall>b < length g. g ! b = (if b \<in> set as then (heap ?s ! b)\<lparr>cc_size := 0\<rparr> else heap ?s ! b)"
    by blast
  have "fold make_garbage (a # as) s = s\<lparr>heap := g, garbage := rev (a # as) @ garbage s,
      num_garbage := num_garbage s + length (a # as), num_clauses := num_clauses s - length (a # as)\<rparr>"
    using g(1) by (simp add: make_garbage_def)
  moreover have "length g = length (heap s)" using g(2) h by simp
  moreover have "\<forall>b < length g. g ! b = (if b \<in> set (a # as) then (heap s ! b)\<lparr>cc_size := 0\<rparr> else heap s ! b)"
    using g(2,3) h Cons.prems(1) by (auto simp: nth_list_update)
  ultimately show ?case by blast
qed

text \<open>Fewer live clauses, the same addresses.\<close>

lemma weaken_heap:
  assumes "checker_wf s" "tables_ok t"
    and t: "t = s\<lparr>heap := h, garbage := g, num_garbage := n, num_clauses := m, clauses := cs, watchers := w, freed := fr\<rparr>"
    and h: "length h = length (heap s)" "\<forall>b < length h. h ! b = heap s ! b \<or> h ! b = (heap s ! b)\<lparr>cc_size := 0\<rparr>"
    and adr: "addresses t \<subseteq> addresses s" and len: "length w = length (watchers s)"
    and w: "\<And>l. lit_in (Suc (size_vars s)) l \<Longrightarrow>
      \<exists>P. watcher l t = filter P (watcher l s) \<and> (\<forall>x \<in> set (watcher l t). wclause x \<in> addresses t)"
  shows "checker_wf t" "know \<sigma> s \<Longrightarrow> know \<sigma> t"
proof -
  have in_t: "a < length h" if "a \<in> addresses t" for a
    using that adr checker_wfD(2) [OF assms(1)] h(1) by (auto simp: tables_ok_def)
  have heap_t: "heap t ! a = heap s ! a \<or> heap t ! a = (heap s ! a)\<lparr>cc_size := 0\<rparr>" if "a \<in> addresses t" for a
    using h(2) in_t [OF that] by (simp add: t)
  have live_t: "live s a \<and> heap t ! a = heap s ! a" if "a \<in> addresses t" "live t a" for a
    using heap_t [OF that(1)] that(2) by (auto simp: live_def)
  show "checker_wf t"
  proof (rule checker_wfI)
    show "arrays_ok t" using checker_wfD(1) [OF assms(1)] len by (simp add: arrays_ok_def t)
    show "heap_ok t"
    proof -
      have "clause_ok (size_vars s) (heap s ! a)" if "a \<in> addresses t" "live t a" for a
        using live_t [OF that] checker_wfD(3) [OF assms(1)] adr that(1) by (auto simp: heap_ok_def)
      moreover have "size_vars t = size_vars s" by (simp add: t)
      ultimately show ?thesis using live_t unfolding heap_ok_def by auto
    qed
    show "watches_ok t l (watcher l t)" if l: "lit_in (Suc (size_vars t)) l" for l
    proof -
      have "lit_in (Suc (size_vars s)) l" using l by (simp add: t)
      from w [OF this] checker_wfD(4) [OF assms(1) this] obtain P where P: "watcher l t = filter P (watcher l s)"
        "\<forall>x \<in> set (watcher l t). wclause x \<in> addresses t" and old: "watches_ok s l (watcher l s)" by blast
      have "watch_ok t l x" if x: "x \<in> set (watcher l t)" for x
      proof -
        have "watch_ok s l x" using old P(1) x by (auto simp: watches_ok_def)
        then show ?thesis using P(2) x live_t by (auto simp: watch_ok_def t)
      qed
      moreover have "distinct (live_watched t (watcher l t))"
      proof -
        let ?as = "map wclause (watcher l t)"
        have "filter (\<lambda>x. live s x \<and> live t x) ?as = filter (live t) ?as"
          by (rule filter_cong) (use P(2) live_t in auto)
        then have eq: "filter (live t) ?as = filter (live t) (filter (live s) ?as)" by (simp only: filter_filter)
        have "distinct (filter (live s) (map wclause (filter P xs)))"
          if "distinct (filter (live s) (map wclause xs))" for xs
          using that by (induction xs) auto
        then have "distinct (filter (live s) ?as)" using old P(1) by (simp add: watches_ok_def live_watched_def)
        then show ?thesis unfolding live_watched_def by (subst eq) (rule distinct_filter)
      qed
      ultimately show ?thesis by (simp add: watches_ok_def)
    qed
  qed fact
  assume kn: "know \<sigma> s"
  have "clause_true \<sigma> (cc_literals (heap t ! a))" if "a \<in> addresses t" "live t a" for a
    using live_t [OF that] kn that(1) adr by (auto simp: know_def)
  moreover have "watch_true \<sigma> l x" if "lit_in (Suc (size_vars s)) l" "x \<in> set (watcher l t)" for l x
    using kn w [OF that(1)] that unfolding know_def by fastforce
  ultimately show "know \<sigma> t" by (simp add: know_def t)
qed


lemma delete_address_fold:
  assumes "\<forall>a \<in> set as. cc_size (heap s ! a) = 0"
  shows "fold delete_address as s = s\<lparr>num_garbage := num_garbage s - length as, freed := rev as @ freed s\<rparr>"
  using assms by (induction as arbitrary: s) (simp_all add: delete_address_def)

lemma tables_okD:
  assumes "tables_ok s"
  shows "distinct (concat (clauses s) @ garbage s)" "\<And>a. a \<in> addresses s \<Longrightarrow> a < length (heap s) \<and> a \<notin> set (freed s)"
    "\<And>a. a \<in> set (concat (clauses s)) \<Longrightarrow> live s a" "\<And>a. a \<in> set (garbage s) \<Longrightarrow> \<not> live s a"
    "num_clauses s = length (concat (clauses s))" "num_garbage s = length (garbage s)"
    "\<And>a. a \<in> set (freed s) \<Longrightarrow> a < length (heap s)"
  using assms unfolding tables_ok_def by blast+

lemma mset_concat_filter:
  "mset (concat (map (filter P) xss)) = filter_mset P (mset (concat xss))"
  by (induction xss) simp_all

lemma drop_satisfied_spec:
  assumes wf: "checker_wf s"
  shows "\<exists>h. drop_satisfied s = s\<lparr>heap := h, garbage := rev (filter (clause_satisfied s) (concat (clauses s))) @ garbage s,
      num_garbage := num_garbage s + length (filter (clause_satisfied s) (concat (clauses s))),
      num_clauses := num_clauses s - length (filter (clause_satisfied s) (concat (clauses s))),
      clauses := map (filter (\<lambda>a. \<not> clause_satisfied s a)) (clauses s)\<rparr> \<and>
    length h = length (heap s) \<and> (\<forall>b < length h. h ! b =
      (if b \<in> set (filter (clause_satisfied s) (concat (clauses s))) then (heap s ! b)\<lparr>cc_size := 0\<rparr> else heap s ! b))"
proof -
  let ?as = "filter (clause_satisfied s) (concat (clauses s))"
  note tb = tables_okD [OF checker_wfD(2) [OF wf]]
  have "distinct ?as" "\<forall>a \<in> set ?as. a < length (heap s)" using tb(1,2) by (auto simp: addresses_def)
  from make_garbage_fold [OF this] obtain h where h: "fold make_garbage ?as s = s\<lparr>heap := h, garbage := rev ?as @ garbage s,
      num_garbage := num_garbage s + length ?as, num_clauses := num_clauses s - length ?as\<rparr>"
    "length h = length (heap s)"
    "\<forall>b < length h. h ! b = (if b \<in> set ?as then (heap s ! b)\<lparr>cc_size := 0\<rparr> else heap s ! b)"
    by blast
  have "drop_satisfied s = s\<lparr>heap := h, garbage := rev ?as @ garbage s,
      num_garbage := num_garbage s + length ?as, num_clauses := num_clauses s - length ?as,
      clauses := map (filter (\<lambda>a. \<not> clause_satisfied s a)) (clauses s)\<rparr>"
    unfolding drop_satisfied_def h(1) ..
  then show ?thesis using h(2,3) by blast
qed

lemma collect_tables:
  assumes wf: "checker_wf s"
  obtains h w where "collect_garbage_clauses s = s\<lparr>heap := h, garbage := [], num_garbage := 0,
      num_clauses := length (concat (map (filter (\<lambda>a. \<not> clause_satisfied s a)) (clauses s))),
      clauses := map (filter (\<lambda>a. \<not> clause_satisfied s a)) (clauses s), watchers := w,
      freed := rev (rev (filter (clause_satisfied s) (concat (clauses s))) @ garbage s) @ freed s\<rparr>"
    and "length h = length (heap s)" "w = map (filter (\<lambda>x. cc_size (h ! wclause x) \<noteq> 0)) (watchers s)"
    and "\<forall>b < length h. h ! b =
      (if b \<in> set (filter (clause_satisfied s) (concat (clauses s))) then (heap s ! b)\<lparr>cc_size := 0\<rparr> else heap s ! b)"
proof -
  let ?sat = "filter (clause_satisfied s) (concat (clauses s))"
    and ?cs = "map (filter (\<lambda>a. \<not> clause_satisfied s a)) (clauses s)"
  note tb = tables_okD [OF checker_wfD(2) [OF wf]]
  obtain h where h: "drop_satisfied s = s\<lparr>heap := h, garbage := rev ?sat @ garbage s,
      num_garbage := num_garbage s + length ?sat, num_clauses := num_clauses s - length ?sat, clauses := ?cs\<rparr>"
    "length h = length (heap s)"
    "\<forall>b < length h. h ! b = (if b \<in> set ?sat then (heap s ! b)\<lparr>cc_size := 0\<rparr> else heap s ! b)"
    using drop_satisfied_spec [OF wf] by blast
  let ?w = "map (filter (\<lambda>x. cc_size (h ! wclause x) \<noteq> 0)) (watchers s)"
  let ?f = "(drop_satisfied s)\<lparr>watchers := ?w\<rparr>"
  have f: "flush_watchers (drop_satisfied s) = ?f" by (simp add: flush_watchers_def h(1))
  have "cc_size (h ! a) = 0" if "a \<in> set (rev ?sat @ garbage s)" for a
  proof -
    have "a < length h" using that tb(2) h(2) by (auto simp: addresses_def)
    moreover have "a \<in> set (garbage s) \<Longrightarrow> cc_size (heap s ! a) = 0" using tb(4) by (simp add: live_def)
    ultimately show ?thesis using that h(3) by auto
  qed
  then have "\<forall>a \<in> set (garbage ?f). cc_size (heap ?f ! a) = 0" by (simp add: h(1))
  from delete_address_fold [OF this]
  have "fold delete_address (garbage ?f) ?f = ?f\<lparr>num_garbage := 0, freed := rev (rev ?sat @ garbage s) @ freed s\<rparr>"
    using tb(6) by (simp add: h(1))
  moreover have "num_clauses s - length ?sat = length (concat ?cs)"
  proof -
    have "length (concat ?cs) = size (filter_mset (\<lambda>a. \<not> clause_satisfied s a) (mset (concat (clauses s))))"
      by (metis mset_concat_filter size_mset)
    then show ?thesis
      using tb(5) sum_length_filter_compl [of "clause_satisfied s" "concat (clauses s)"]
      by (metis diff_add_inverse mset_filter size_mset)
  qed
  ultimately have "collect_garbage_clauses s = s\<lparr>heap := h, garbage := [], num_garbage := 0, num_clauses := length (concat ?cs),
      clauses := ?cs, watchers := ?w, freed := rev (rev ?sat @ garbage s) @ freed s\<rparr>"
    unfolding collect_garbage_clauses_def free_garbage_def f by (simp add: h(1))
  then show thesis using that h(2,3) by blast
qed


lemma set_concat_filter: "set (concat (map (filter P) xss)) = {x \<in> set (concat xss). P x}"
  by auto

lemma collect_spec:
  assumes wf: "checker_wf s"
  defines "t \<equiv> collect_garbage_clauses s"
  shows "checker_wf t" "know \<sigma> s \<Longrightarrow> know \<sigma> t" "holds \<sigma> s \<Longrightarrow> holds \<sigma> t"
    "\<exists>h g n m cs w fr. t = s\<lparr>heap := h, garbage := g, num_garbage := n, num_clauses := m, clauses := cs, watchers := w, freed := fr\<rparr>"
proof -
  let ?sat = "filter (clause_satisfied s) (concat (clauses s))"
    and ?cs = "map (filter (\<lambda>a. \<not> clause_satisfied s a)) (clauses s)"
  note tb = tables_okD [OF checker_wfD(2) [OF wf]]
  obtain h w where t: "t = s\<lparr>heap := h, garbage := [], num_garbage := 0, num_clauses := length (concat ?cs),
      clauses := ?cs, watchers := w, freed := rev (rev ?sat @ garbage s) @ freed s\<rparr>"
    and h: "length h = length (heap s)"
      "\<forall>b < length h. h ! b = (if b \<in> set ?sat then (heap s ! b)\<lparr>cc_size := 0\<rparr> else heap s ! b)"
    and w: "w = map (filter (\<lambda>x. cc_size (h ! wclause x) \<noteq> 0)) (watchers s)"
    unfolding t_def by (rule collect_tables [OF wf])
  have cs: "set (concat ?cs) = {a \<in> set (concat (clauses s)). \<not> clause_satisfied s a}" by (rule set_concat_filter)
  have disj: "set (concat (clauses s)) \<inter> set (garbage s) = {}" using tb(1) by simp
  have adr: "addresses t = set (concat ?cs)" by (simp add: addresses_def t)
  have sub: "addresses t \<subseteq> addresses s" unfolding adr cs by (auto simp: addresses_def)
  have low: "a < length h" if "a \<in> addresses s" for a using tb(2) [OF that] h(1) by simp
  have dist: "distinct (concat ?cs)"
    using tb(1) mset_concat_filter [of "\<lambda>a. \<not> clause_satisfied s a" "clauses s"]
    by (metis distinct_append distinct_filter mset_eq_imp_distinct_iff mset_filter)
  have live_t: "live t a" if "a \<in> set (concat ?cs)" for a
    using that tb(3) low h(2) unfolding cs live_def t by (auto simp: addresses_def)
  have "a \<notin> set (freed t)" if "a \<in> set (concat ?cs)" for a
    using that tb(2) disj unfolding cs t by (auto simp: addresses_def)
  then have "tables_ok t"
    unfolding tables_ok_def using dist live_t tb(2,7) low adr sub h(1)
    by (auto simp: t addresses_def)
  moreover have "length w = length (watchers s)" using w by simp
  moreover have "\<exists>P. watcher l t = filter P (watcher l s) \<and> (\<forall>x \<in> set (watcher l t). wclause x \<in> addresses t)"
    if l: "lit_in (Suc (size_vars s)) l" for l
  proof -
    let ?P = "\<lambda>x. cc_size (h ! wclause x) \<noteq> 0"
    have "l2u l < length (watchers s)" using l2u_Suc [OF l] checker_wfD(1) [OF wf] by (simp add: arrays_ok_def)
    then have eq: "watcher l t = filter ?P (watcher l s)" by (simp add: watcher_def t w)
    have "wclause x \<in> addresses t" if x: "x \<in> set (watcher l s)" "?P x" for x
    proof -
      have xa: "wclause x \<in> addresses s" using checker_wfD(4) [OF wf l] x(1) by (auto simp: watches_ok_def watch_ok_def)
      have "heap s ! wclause x = h ! wclause x" "wclause x \<notin> set ?sat"
        using x(2) h(2) low [OF xa] by (auto split: if_splits)
      moreover from this have "wclause x \<notin> set (garbage s)"
        using x(2) tb(4) [of "wclause x"] unfolding live_def by metis
      ultimately show ?thesis using xa unfolding adr cs by (auto simp: addresses_def)
    qed
    then show ?thesis using eq by auto
  qed
  moreover have "\<forall>b < length h. h ! b = heap s ! b \<or> h ! b = (heap s ! b)\<lparr>cc_size := 0\<rparr>" using h(2) by auto
  moreover have t': "t = s\<lparr>heap := h, garbage := [], num_garbage := 0, num_clauses := length (concat ?cs),
      clauses := ?cs, watchers := w, freed := rev (rev ?sat @ garbage s) @ freed s\<rparr>" by (rule t)
  ultimately have wk: "checker_wf t" "\<And>\<sigma>. know \<sigma> s \<Longrightarrow> know \<sigma> t"
    using weaken_heap [OF wf _ t' h(1)] sub by blast+
  then show "checker_wf t" "know \<sigma> s \<Longrightarrow> know \<sigma> t" by blast+
  show "holds \<sigma> s \<Longrightarrow> holds \<sigma> t" using holds_cong [of t s] by (simp add: t)
  show "\<exists>h g n m cs w fr. t = s\<lparr>heap := h, garbage := g, num_garbage := n, num_clauses := m, clauses := cs, watchers := w, freed := fr\<rparr>"
    unfolding t by blast
qed

section \<open>Removal\<close>

lemma unlink_spec:
  assumes wf: "checker_wf s" and a: "k < length (clauses s)" "a \<in> set (clauses s ! k)"
    and t: "t = make_garbage a (s\<lparr>clauses := upd_nth (clauses s) k (remove1 a)\<rparr>)"
  shows "checker_wf t" "know \<sigma> s \<Longrightarrow> know \<sigma> t" "holds \<sigma> s \<Longrightarrow> holds \<sigma> t"
proof -
  let ?cs = "upd_nth (clauses s) k (remove1 a)" and ?h = "(heap s)[a := (heap s ! a)\<lparr>cc_size := 0\<rparr>]"
  note tb = tables_okD [OF checker_wfD(2) [OF wf]]
  have ac: "a \<in> set (concat (clauses s))" unfolding in_concat_nth using a by blast
  have t': "t = s\<lparr>heap := ?h, garbage := a # garbage s, num_garbage := num_garbage s + 1,
      num_clauses := num_clauses s - 1, clauses := ?cs, watchers := watchers s, freed := freed s\<rparr>"
    using t by (simp add: make_garbage_def)
  have m: "mset (concat ?cs) = mset (concat (clauses s)) - {#a#}" by (rule mset_concat_remove [OF a])
  have dist: "distinct (concat (clauses s))" using tb(1) by simp
  have cs: "set (concat ?cs) = set (concat (clauses s)) - {a}"
  proof -
    have "set_mset (mset (concat ?cs)) = set_mset (mset (concat (clauses s)) - {#a#})" by (simp only: m)
    also have "\<dots> = set_mset (mset (remove1 a (concat (clauses s))))" by (simp only: mset_remove1)
    also have "\<dots> = set (concat (clauses s)) - {a}" using dist by (simp only: set_mset_mset set_remove1_eq)
    finally show ?thesis by (simp only: set_mset_mset)
  qed
  have dcs: "distinct (concat ?cs)"
    using dist m by (metis distinct_remove1 mset_eq_imp_distinct_iff mset_remove1)
  have len: "length (concat ?cs) = length (concat (clauses s)) - 1"
    using m ac by (metis length_remove1 mset_remove1 size_mset)
  have adr: "addresses t = addresses s"
    using cs ac unfolding addresses_def t' by auto
  have al: "a < length (heap s)" using tb(2) ac by (auto simp: addresses_def)
  have lv: "live t b \<longleftrightarrow> live s b \<and> b \<noteq> a" if "b < length (heap s)" for b
    using that al by (simp add: live_def t' nth_list_update)
  have "tables_ok t"
    unfolding tables_ok_def adr
  proof (intro conjI ballI)
    show "distinct (concat (clauses t) @ garbage t)" using tb(1) dcs cs ac by (auto simp: t')
    show "b < length (heap t)" "b \<notin> set (freed t)" if "b \<in> addresses s" for b using tb(2) [OF that] by (simp_all add: t')
    show "live t b" if "b \<in> set (concat (clauses t))" for b
    proof -
      have "b \<in> set (concat (clauses s))" "b \<noteq> a" using that cs by (auto simp: t')
      then show ?thesis using lv [of b] tb(2,3) by (auto simp: addresses_def)
    qed
    show "\<not> live t b" if "b \<in> set (garbage t)" for b
      using that lv [of b] tb(2,4) al by (auto simp: t' addresses_def)
    show "num_clauses t = length (concat (clauses t))" using len tb(5) by (simp add: t')
    show "num_garbage t = length (garbage t)" using tb(6) by (simp add: t')
    show "b < length (heap t)" if "b \<in> set (freed t)" for b using tb(7) that by (simp add: t')
  qed
  moreover have "\<exists>P. watcher l t = filter P (watcher l s) \<and> (\<forall>x \<in> set (watcher l t). wclause x \<in> addresses t)"
    if "lit_in (Suc (size_vars s)) l" for l
  proof -
    have "watcher l t = filter (\<lambda>_. True) (watcher l s)" by (simp add: watcher_def t')
    moreover have "\<forall>x \<in> set (watcher l s). wclause x \<in> addresses t"
      using checker_wfD(4) [OF wf that] unfolding adr by (simp add: watches_ok_def watch_ok_def)
    ultimately show ?thesis by (intro exI [of _ "\<lambda>_. True"]) simp
  qed
  moreover have "\<forall>b < length ?h. ?h ! b = heap s ! b \<or> ?h ! b = (heap s ! b)\<lparr>cc_size := 0\<rparr>"
    using al by (metis nth_list_update_eq nth_list_update_neq)
  moreover have "addresses t \<subseteq> addresses s" by (simp add: adr)
  moreover have "length ?h = length (heap s)" by simp
  ultimately have wk: "checker_wf t" "\<And>\<sigma>. know \<sigma> s \<Longrightarrow> know \<sigma> t"
    using weaken_heap [OF wf _ t'] by blast+
  then show "checker_wf t" "know \<sigma> s \<Longrightarrow> know \<sigma> t" by blast+
  show "holds \<sigma> s \<Longrightarrow> holds \<sigma> t" using holds_cong [of t s] by (simp add: t')
qed


section \<open>Search\<close>

lemma checker_wf_marks:
  assumes "checker_wf s" "length m = length (marks s)"
  shows "checker_wf (s\<lparr>marks := m\<rparr>)"
  by (rule checker_wf_cong [OF assms(1)]) (use checker_wfD(1) [OF assms(1)] assms(2) in \<open>simp_all add: arrays_ok_def\<close>)

lemma find_spec:
  assumes wf: "checker_wf s" and cl: "clean s (simplified s)" and m: "flagged (marks s) = {}" and r: "find s = (r, t)"
  shows "\<exists>h m. t = s\<lparr>last_hash := h, marks := m\<rparr>" "checker_wf t" "flagged (marks t) = {}"
    and "r = Some a \<Longrightarrow> reduce_hash (last_hash t) (length (clauses s)) < length (clauses s) \<and>
      a \<in> set (clauses s ! reduce_hash (last_hash t) (length (clauses s))) \<and>
      set (cc_literals (heap s ! a)) = set (simplified s)"
proof -
  let ?s = "compute_hash s" and ?c = "simplified s"
  let ?A = "set_flags True ?c (marks s)"
  have mk: "length (marks s) = 2 * size_vars s" using checker_wfD(1) [OF wf] by (simp add: arrays_ok_def)
  have rng: "\<forall>lit \<in> set ?c. lit_in (size_vars s) lit" using cl by (simp add: clean_def)
  have A: "flagged ?A = set ?c" "length ?A = 2 * size_vars s"
    using flagged_set_flags [OF rng mk, of True] m mk by simp_all
  have ch: "marks ?s = marks s" "simplified ?s = ?c" "clauses ?s = clauses s" "heap ?s = heap s"
    by (simp_all add: compute_hash_def)
  have t: "t = ?s\<lparr>marks := set_flags False ?c ?A\<rparr>"
    and rr: "r = (if clauses s = [] then None else List.find (matches ?s ?A) (clauses s ! reduce_hash (last_hash ?s) (length (clauses s))))"
    using r by (auto simp: find_def find_marked_def ch)
  have t': "t = s\<lparr>last_hash := last_hash ?s, marks := set_flags False ?c ?A\<rparr>"
    using t by (simp add: compute_hash_def)
  then show "\<exists>h m. t = s\<lparr>last_hash := h, marks := m\<rparr>" by blast
  have "checker_wf ?s" using wf by (simp add: compute_hash_def)
  then show "checker_wf t" unfolding t by (rule checker_wf_marks) (simp add: ch)
  show "flagged (marks t) = {}" using flagged_set_flags [OF rng A(2), of False] A(1) by (simp add: t)
  assume some: "r = Some a"
  let ?k = "reduce_hash (last_hash t) (length (clauses s))"
  have lh: "last_hash t = last_hash ?s" by (simp add: t)
  have "clauses s \<noteq> []" using some rr by (auto split: if_splits)
  then have k: "?k < length (clauses s)" by (intro reduce_hash_less) simp
  have f: "List.find (matches ?s ?A) (clauses s ! ?k) = Some a" using some rr lh by (auto split: if_splits)
  then have a: "a \<in> set (clauses s ! ?k)" "matches ?s ?A a" by (auto simp: find_Some_iff)
  have "a \<in> set (concat (clauses s))" unfolding in_concat_nth using a(1) k by blast
  then have "a \<in> addresses s" "live s a"
    using tables_okD(3) [OF checker_wfD(2) [OF wf]] by (auto simp: addresses_def)
  then have ok: "clause_ok (size_vars s) (heap s ! a)" using checker_wfD(3) [OF wf] by (simp add: heap_ok_def)
  let ?l = "cc_literals (heap s ! a)"
  have sz: "size_literals (heap s ! a) = ?l" "length ?l = length ?c"
    using ok a(2) by (simp_all add: size_literals_def clause_ok_def matches_def ch)
  have "set ?l \<subseteq> set ?c"
  proof
    fix lit assume l: "lit \<in> set ?l"
    then have "?A ! l2u lit" using a(2) sz(1) by (simp add: matches_def ch)
    moreover have "lit_in (size_vars s) lit" using ok l by (simp add: clause_ok_def)
    ultimately show "lit \<in> set ?c" using flag_iff [OF _ A(2)] A(1) by simp
  qed
  moreover have "card (set ?l) = card (set ?c)"
    using ok cl sz(2) by (simp add: clause_ok_def clean_def distinct_card)
  ultimately have "set ?l = set ?c" by (simp add: card_subset_eq)
  then show "?k < length (clauses s) \<and> a \<in> set (clauses s ! ?k) \<and> set ?l = set ?c" using k a(1) by blast
qed

section \<open>Insertion\<close>

lemma drup_enlarge_clauses_spec:
  assumes wf: "checker_wf s"
  shows "checker_wf (enlarge_clauses s)" "clauses (enlarge_clauses s) \<noteq> []" "\<exists>cs. enlarge_clauses s = s\<lparr>clauses := cs\<rparr>"
    "addresses (enlarge_clauses s) = addresses s"
proof -
  define n where "n = (if length (clauses s) \<noteq> 0 then 2 * length (clauses s) else 1)"
  have n: "0 < n" by (simp add: n_def)
  let ?h = "\<lambda>a. reduce_hash (cc_hash (heap s ! a)) n"
  let ?cs = "fold (\<lambda>a t. upd_nth t (?h a) (\<lambda>l. a # l)) (concat (clauses s)) (replicate n [])"
  have t: "enlarge_clauses s = s\<lparr>clauses := ?cs\<rparr>" by (simp add: enlarge_clauses_def n_def Let_def)
  then show "\<exists>cs. enlarge_clauses s = s\<lparr>clauses := cs\<rparr>" by blast
  have d: "length ?cs = n" "mset (concat ?cs) = mset (concat (clauses s))"
    using distribute [of "replicate n []" n ?h "concat (clauses s)"] reduce_hash_less [OF n] by simp_all
  show "clauses (enlarge_clauses s) \<noteq> []" using d(1) n by (auto simp: t)
  note same = mset_facts [OF d(2)]
  have adr: "addresses (s\<lparr>clauses := ?cs\<rparr>) = addresses s" using same unfolding addresses_def by simp
  then show "addresses (enlarge_clauses s) = addresses s" unfolding t .
  note tb = tables_okD [OF checker_wfD(2) [OF wf]]
  show "checker_wf (enlarge_clauses s)"
    unfolding t
  proof (rule checker_wfI)
    show "arrays_ok (s\<lparr>clauses := ?cs\<rparr>)" using checker_wfD(1) [OF wf] by (simp add: arrays_ok_def)
    show "tables_ok (s\<lparr>clauses := ?cs\<rparr>)"
      using checker_wfD(2) [OF wf] same unfolding tables_ok_def adr by (simp add: live_def)
    show "heap_ok (s\<lparr>clauses := ?cs\<rparr>)"
      using checker_wfD(3) [OF wf] unfolding heap_ok_def adr by (simp add: live_def)
    show "watches_ok (s\<lparr>clauses := ?cs\<rparr>) l (watcher l (s\<lparr>clauses := ?cs\<rparr>))"
      if "lit_in (Suc (size_vars (s\<lparr>clauses := ?cs\<rparr>))) l" for l
      using checker_wfD(4) [OF wf, of l] that unfolding watches_ok_def watch_ok_def adr
      by (simp add: live_watched_def live_def [abs_def] watcher_def)
  qed
qed

lemma mset_choose_watch:
  assumes "i < length lits"
  shows "mset (choose_watch s i lits) = mset lits"
proof (cases "List.find (\<lambda>j. val (lits ! j) s = 0) [i + 1..<length lits]")
  case (Some j)
  then have "j < length lits" by (auto simp: find_Some_iff)
  then show ?thesis using Some assms by (simp add: choose_watch_def mset_swap_nth)
qed (simp add: choose_watch_def)

text \<open>The address of a new clause is fresh; its two watches go to the ends of two lists.\<close>

lemma new_clause_spec:
  assumes wf: "checker_wf s" and cl: "clean s (simplified s)" "2 \<le> length (simplified s)"
    and k: "k < length (clauses s)" and n: "new_clause s = (a, u)"
    and t: "t = u\<lparr>clauses := upd_nth (clauses u) k (\<lambda>l. a # l)\<rparr>"
  shows "checker_wf t" "know \<sigma> s \<Longrightarrow> clause_true \<sigma> (simplified s) \<Longrightarrow> know \<sigma> t"
    "\<exists>h m w cs. t = s\<lparr>heap := h, num_clauses := m, watchers := w, clauses := cs\<rparr>"
proof -
  define lits where "lits = choose_watch s 1 (choose_watch s 0 (simplified s))"
  have "0 < length (simplified s)" "1 < length (simplified s)" using cl(2) by linarith+
  then have ms: "mset lits = mset (simplified s)"
    using mset_choose_watch [of 0 "simplified s" s] mset_choose_watch [of 1 "choose_watch s 0 (simplified s)" s]
      mset_facts [of "choose_watch s 0 (simplified s)" "simplified s"] unfolding lits_def by metis
  note same = mset_facts [OF ms]
  have len: "2 \<le> length lits" "distinct lits" "\<forall>lit \<in> set lits. lit_in (size_vars s) lit"
    using same cl by (simp_all add: clean_def)
  let ?c = "\<lparr>cc_hash = last_hash s, cc_size = length lits, cc_literals = lits\<rparr>"
  let ?s1 = "alloc_clause lits s"
  let ?w0 = "\<lparr>blit = lits ! 1, wsize = length lits, wclause = a\<rparr>" and ?w1 = "\<lparr>blit = lits ! 0, wsize = length lits, wclause = a\<rparr>"
  have a: "a = length (heap s)" and u: "u = push_watch (lits ! 1) ?w1 (push_watch (lits ! 0) ?w0 ?s1)"
  proof -
    have nc: "new_clause s = (length (heap s), new_clause_from lits s)" by (simp add: new_clause_def lits_def)
    then show a: "a = length (heap s)" using n by simp
    have "new_watch b a ?s1 = \<lparr>blit = b, wsize = length lits, wclause = a\<rparr>"
      "new_watch b a (push_watch (lits ! 0) ?w0 ?s1) = \<lparr>blit = b, wsize = length lits, wclause = a\<rparr>" for b
      by (simp_all add: new_watch_def alloc_clause_def a)
    then show "u = push_watch (lits ! 1) ?w1 (push_watch (lits ! 0) ?w0 ?s1)"
      using nc n a by (simp add: new_clause_from_def)
  qed
  let ?cs = "upd_nth (clauses s) k (\<lambda>l. a # l)"
  have t': "t = s\<lparr>heap := heap s @ [?c], num_clauses := num_clauses s + 1, watchers := watchers u, clauses := ?cs\<rparr>"
    unfolding t u by (simp add: alloc_clause_def push_watch_def)
  then show "\<exists>h m w cs. t = s\<lparr>heap := h, num_clauses := m, watchers := w, clauses := cs\<rparr>" by blast
  have l01: "lit_in (size_vars s) (lits ! 0)" "lit_in (size_vars s) (lits ! 1)" "lits ! 0 \<noteq> lits ! 1"
  proof -
    have i: "0 < length lits" "1 < length lits" using len(1) by linarith+
    then show "lit_in (size_vars s) (lits ! 0)" "lit_in (size_vars s) (lits ! 1)" using len(3) nth_mem by blast+
    show "lits ! 0 \<noteq> lits ! 1" using nth_eq_iff_index_eq [OF len(2) i] by simp
  qed
  have ar: "arrays_ok s" by (rule checker_wfD(1) [OF wf])
  have wt: "watcher l t = (if l = lits ! 0 then watcher l s @ [?w0] else if l = lits ! 1 then watcher l s @ [?w1] else watcher l s)"
    if "lit_in (Suc (size_vars s)) l" for l
  proof -
    have e: "watchers ?s1 = watchers s" "size_vars ?s1 = size_vars s" by (simp_all add: alloc_clause_def)
    have wl: "length (watchers ?s1) = 2 * size_vars ?s1" using ar e by (simp add: arrays_ok_def)
    have in1: "lit_in (Suc (size_vars s)) (lits ! 1)" using l01(2) lit_in_mono by (metis le_SucI le_refl)
    have "watcher l t = watcher l u" by (simp add: watcher_def t)
    also have "\<dots> = (if l = lits ! 1 then watcher l (push_watch (lits ! 0) ?w0 ?s1) @ [?w1] else watcher l (push_watch (lits ! 0) ?w0 ?s1))"
      unfolding u using watcher_push_watch [of "push_watch (lits ! 0) ?w0 ?s1" "lits ! 1" l ?w1] wl that l01(2) e(2) by simp
    finally show ?thesis
      using watcher_push_watch [OF wl, of "lits ! 0" l ?w0] that l01 e by (auto simp: watcher_def)
  qed
  note tb = tables_okD [OF checker_wfD(2) [OF wf]]
  have m: "mset (concat ?cs) = add_mset a (mset (concat (clauses s)))" by (rule mset_concat_upd [OF k])
  have cs: "set (concat ?cs) = insert a (set (concat (clauses s)))" using arg_cong [OF m, of set_mset] by (simp only: set_mset_mset set_mset_add_mset_insert)
  have new: "a \<notin> addresses s" "a \<notin> set (freed s)" using tb(2,7) a by blast+
  have adr: "addresses t = insert a (addresses s)" unfolding addresses_def t' using cs by simp
  have old: "heap t ! b = heap s ! b" if "b \<in> addresses s" for b using tb(2) [OF that] by (simp add: t' nth_append)
  have ha: "heap t ! a = ?c" by (simp add: t' a)
  have lv: "live t b = live s b" if "b \<in> addresses s" for b using old [OF that] by (simp add: live_def)
  show wft: "checker_wf t"
  proof (rule checker_wfI)
    show "arrays_ok t" using ar unfolding arrays_ok_def t' by (simp add: u alloc_clause_def)
    show "heap_ok t"
      unfolding heap_ok_def adr
    proof (intro ballI impI)
      fix b assume b: "b \<in> insert a (addresses s)" "live t b"
      have sz: "size_vars t = size_vars s" by (simp add: t')
      show "clause_ok (size_vars t) (heap t ! b)"
      proof (cases "b = a")
        case True
        then show ?thesis using len unfolding sz True ha by (simp add: clause_ok_def)
      next
        case False
        then have "b \<in> addresses s" using b(1) by simp
        then show ?thesis using checker_wfD(3) [OF wf] b(2) lv old unfolding sz by (simp add: heap_ok_def)
      qed
    qed
    show "tables_ok t"
      unfolding tables_ok_def
    proof (intro conjI ballI)
      have "distinct (concat ?cs)"
        using m new(1) tb(1) mset_eq_imp_distinct_iff [of "concat ?cs" "a # concat (clauses s)"] by (simp add: addresses_def)
      then show "distinct (concat (clauses t) @ garbage t)" using tb(1) new(1) cs by (auto simp: t' addresses_def)
      show "b < length (heap t)" "b \<notin> set (freed t)" if "b \<in> addresses t" for b
        using that new(2) a tb(2) [of b] unfolding adr by (auto simp: t')
      show "live t b" if "b \<in> set (concat (clauses t))" for b
      proof (cases "b = a")
        case True
        have "lits \<noteq> []" using len(1) by auto
        then show ?thesis unfolding True live_def ha by simp
      next
        case False
        have "clauses t = ?cs" by (simp add: t')
        then have "b \<in> insert a (set (concat (clauses s)))" using that by (simp only: cs)
        then have "b \<in> set (concat (clauses s))" using False by blast
        then have "live s b" "b \<in> addresses s" using tb(3) unfolding addresses_def by blast+
        then show ?thesis using lv by blast
      qed
      show "\<not> live t b" if "b \<in> set (garbage t)" for b
      proof -
        have "b \<in> set (garbage s)" using that by (simp add: t')
        then have "\<not> live s b" "b \<in> addresses s" using tb(4) unfolding addresses_def by blast+
        then show ?thesis using lv by blast
      qed
      show "num_clauses t = length (concat (clauses t))"
        using tb(5) arg_cong [OF m, of size] by (simp only: size_mset size_add_mset) (simp add: t')
      show "num_garbage t = length (garbage t)" using tb(6) by (simp add: t')
      show "b < length (heap t)" if "b \<in> set (freed t)" for b using tb(7) [of b] that by (simp add: t')
    qed
    show "watches_ok t l (watcher l t)" if l: "lit_in (Suc (size_vars t)) l" for l
    proof -
      have l: "lit_in (Suc (size_vars s)) l" using l by (simp add: t')
      note wo = checker_wfD(4) [OF wf l]
      have wa: "wclause w \<in> addresses s" if "w \<in> set (watcher l s)" for w
        using wo that by (simp add: watches_ok_def watch_ok_def)
      have o: "watch_ok t l w" if "w \<in> set (watcher l s)" for w
      proof -
        have "size_vars t = size_vars s" by (simp add: t')
        then show ?thesis using wo that lv [OF wa [OF that]] old [OF wa [OF that]]
          by (simp add: watches_ok_def watch_ok_def adr)
      qed
      have w01: "watch_ok t (lits ! 0) ?w0" "watch_ok t (lits ! 1) ?w1"
      proof -
        have "size_vars t = size_vars s" by (simp add: t')
        then show "watch_ok t (lits ! 0) ?w0" "watch_ok t (lits ! 1) ?w1"
          using l01 ha by (simp_all add: watch_ok_def adr)
      qed
      have lw: "live_watched t (watcher l s) = live_watched s (watcher l s)"
        unfolding live_watched_def by (rule filter_cong) (use lv wa in auto)
      have fresh: "a \<notin> wclause ` set (watcher l s)" using wa new(1) by auto
      have d: "distinct (live_watched t (watcher l s))" unfolding lw using wo by (simp add: watches_ok_def)
      have "distinct (live_watched t (watcher l s @ [w]))" if "wclause w = a" for w
        using d fresh that by (auto simp: live_watched_def)
      then show ?thesis using o w01 d unfolding wt [OF l] watches_ok_def by auto
    qed
  qed
  assume kn: "know \<sigma> s" and ct: "clause_true \<sigma> (simplified s)"
  have ctl: "clause_true \<sigma> lits" using ct same by (simp add: clause_true_def)
  have "clause_true \<sigma> (cc_literals (heap t ! b))" if "b \<in> addresses t" "live t b" for b
    using that kn ctl ha lv [of b] old [of b] by (cases "b = a") (auto simp: know_def adr)
  moreover have "watch_true \<sigma> l w" if l: "lit_in (Suc (size_vars s)) l" and w: "w \<in> set (watcher l t)" for l w
  proof -
    have two: "lit_true \<sigma> (lits ! 0) \<or> lit_true \<sigma> (lits ! 1)" if "length lits = 2"
    proof -
      have "set lits = {lits ! 0, lits ! 1}" using that by (cases lits; cases "tl lits") auto
      then show ?thesis using ctl by (auto simp: clause_true_def)
    qed
    show ?thesis
      using w kn l two unfolding wt [OF l] know_def by (auto simp: watch_true_def split: if_splits)
  qed
  moreover have "size_vars t = size_vars s" by (simp add: t')
  ultimately show "know \<sigma> t" by (simp add: know_def)
qed

lemma drup_insert_clause_spec:
  assumes wf: "checker_wf s" and cl: "clean s (simplified s)" "2 \<le> length (simplified s)"
  shows "checker_wf (insert_clause s)"
    "know \<sigma> s \<Longrightarrow> clause_true \<sigma> (simplified s) \<Longrightarrow> know \<sigma> (insert_clause s)"
    "\<exists>h m w cs lh. insert_clause s = s\<lparr>heap := h, num_clauses := m, watchers := w, clauses := cs, last_hash := lh\<rparr>"
proof -
  have room: "checker_wf (make_room s)" "clauses (make_room s) \<noteq> []" "\<exists>cs. make_room s = s\<lparr>clauses := cs\<rparr>"
    "addresses (make_room s) = addresses s"
  proof -
    have "clauses s \<noteq> []" if "num_clauses s \<noteq> length (clauses s)"
      using that tables_okD(5) [OF checker_wfD(2) [OF wf]] by auto
    moreover have "s = s\<lparr>clauses := clauses s\<rparr>" by simp
    ultimately show "checker_wf (make_room s)" "clauses (make_room s) \<noteq> []" "\<exists>cs. make_room s = s\<lparr>clauses := cs\<rparr>"
      "addresses (make_room s) = addresses s"
      using drup_enlarge_clauses_spec [OF wf] wf unfolding make_room_def by (simp_all, metis)
  qed
  then obtain cs where r: "make_room s = s\<lparr>clauses := cs\<rparr>" by blast
  let ?s = "compute_hash (make_room s)"
  obtain h where h: "?s = s\<lparr>clauses := cs, last_hash := h\<rparr>" by (simp add: r compute_hash_def)
  have wf': "checker_wf ?s" using room(1) by (simp add: compute_hash_def)
  have cl': "clean ?s (simplified ?s)" "2 \<le> length (simplified ?s)"
    using cl val_cong [of ?s s] by (simp_all add: clean_def h)
  obtain a u where n: "new_clause ?s = (a, u)" by fastforce
  let ?k = "reduce_hash (last_hash u) (length (clauses u))"
  have cu: "clauses u = clauses ?s"
    using n by (auto simp: new_clause_def new_clause_from_def alloc_clause_def push_watch_def)
  then have k: "?k < length (clauses ?s)" using room(2) r h by (simp add: reduce_hash_less)
  let ?t = "u\<lparr>clauses := upd_nth (clauses u) ?k (\<lambda>l. a # l)\<rparr>"
  have t: "insert_clause s = ?t" unfolding insert_clause_def n by simp
  note sp = new_clause_spec [OF wf' cl' k n refl]
  show "checker_wf (insert_clause s)" unfolding t by (rule sp(1))
  have "know \<sigma> ?s" if "know \<sigma> s"
  proof -
    have "addresses (s\<lparr>clauses := cs, last_hash := h\<rparr>) = addresses s" using room(4) r by (simp add: addresses_def)
    then show ?thesis using that unfolding h know_def by (simp add: live_def watcher_def)
  qed
  then show "know \<sigma> s \<Longrightarrow> clause_true \<sigma> (simplified s) \<Longrightarrow> know \<sigma> (insert_clause s)"
    unfolding t using sp(2) by (simp add: h)
  obtain hh m w ds where e: "?t = ?s\<lparr>heap := hh, num_clauses := m, watchers := w, clauses := ds\<rparr>" using sp(3) by blast
  have "?t = s\<lparr>heap := hh, num_clauses := m, watchers := w, clauses := ds, last_hash := h\<rparr>" unfolding e h by simp
  then show "\<exists>h m w cs lh. insert_clause s = s\<lparr>heap := h, num_clauses := m, watchers := w, clauses := cs, last_hash := lh\<rparr>"
    unfolding t by blast
qed

end
