(* ===== verification/Drup_Props.thy ===== *)
theory Drup_Props
  imports Drup_Ops
begin

text \<open>
  The tracer operations of the forward checker: what they keep, that a refutation by unit
  propagation is sound, and the two proofs it accepts although it should not.
\<close>

section \<open>Adding a clause\<close>

text \<open>An assignment the checker has not refuted.\<close>

definition good :: "(int \<Rightarrow> bool) \<Rightarrow> checker \<Rightarrow> bool" where
  "good \<sigma> s \<longleftrightarrow> know \<sigma> s \<and> holds \<sigma> s \<and> \<not> inconsistent s"

text \<open>Within a call, and between two calls.\<close>

definition busy :: "checker \<Rightarrow> bool" where
  "busy s \<longleftrightarrow> checker_wf s \<and> next_to_propagate s \<le> length (trail s) \<and> flagged (marks s) = {}"

definition idle :: "checker \<Rightarrow> bool" where
  "idle s \<longleftrightarrow> busy s \<and> simplified s = [] \<and> unsimplified s = []"

lemma scan_unit_zero: "0 \<notin> set c \<Longrightarrow> scan_unit s c u = 0 \<Longrightarrow> u = 0 \<and> (\<forall>lit \<in> set c. val lit s < 0)"
proof (induction c arbitrary: u)
  case (Cons lit c)
  have "INT_MIN \<noteq> 0" by (simp add: INT_MIN_def)
  then show ?case using Cons.IH [of u] Cons.IH [of lit] Cons.prems by (cases "val lit s < 0"; cases "u = 0") auto
qed simp

lemma scan_unit_several:
  "INT_MIN \<notin> set c \<Longrightarrow> u \<noteq> INT_MIN \<Longrightarrow> 0 \<notin> set c \<Longrightarrow> scan_unit s c u = INT_MIN \<Longrightarrow>
   (if u = 0 then 2 \<le> length c else 1 \<le> length c)"
proof (induction c arbitrary: u)
  case (Cons lit c)
  have IH: "v \<noteq> INT_MIN \<Longrightarrow> scan_unit s c v = INT_MIN \<Longrightarrow> (if v = 0 then 2 \<le> length c else 1 \<le> length c)" for v
    using Cons.IH [of v] Cons.prems by simp
  show ?case using IH [of u] IH [of lit] Cons.prems by (cases "val lit s < 0"; cases "u = 0") auto
qed simp

lemma scan_unit_kept: "scan_unit s c u \<noteq> INT_MIN \<Longrightarrow> u \<noteq> 0 \<Longrightarrow> scan_unit s c u = u \<and> (\<forall>lit \<in> set c. val lit s < 0)"
  by (induction c) (auto split: if_splits)

lemma scan_unit_one:
  "scan_unit s c 0 \<noteq> INT_MIN \<Longrightarrow> 0 \<notin> set c \<Longrightarrow> scan_unit s c 0 \<noteq> 0 \<Longrightarrow>
   scan_unit s c 0 \<in> set c \<and> (\<forall>lit \<in> set c. lit = scan_unit s c 0 \<or> val lit s < 0)"
proof (induction c)
  case (Cons lit c)
  show ?case
  proof (cases "val lit s < 0")
    case False
    then show ?thesis using Cons.prems scan_unit_kept [of s c lit] by auto
  qed (use Cons in auto)
qed simp

lemma good_clause_unit:
  assumes "holds \<sigma> s" "\<forall>lit \<in> set c. lit_in (size_vars s) lit" "clause_true \<sigma> c" "\<forall>lit \<in> set c. lit = r \<or> val lit s < 0"
  shows "lit_true \<sigma> r"
  using assms holdsD(2) [OF assms(1)] by (auto simp: clause_true_def)

lemma add_scanned_spec:
  assumes b: "busy s" and cl: "clean s (simplified s)"
    and t: "t = add_scanned (scan_unit s (simplified s) 0) (s\<lparr>inconsistent := i\<rparr>)"
  shows "busy t \<and> unsimplified t = unsimplified s \<and>
    (\<not> i \<longrightarrow> good \<sigma> s \<longrightarrow> clause_true \<sigma> (simplified s) \<longrightarrow> good \<sigma> t)"
proof -
  let ?c = "simplified s" and ?r = "scan_unit s (simplified s) 0" and ?s = "s\<lparr>inconsistent := i\<rparr>"
  have wf: "checker_wf s" using b by (simp add: busy_def)
  have rng: "\<forall>lit \<in> set ?c. lit_in (size_vars s) lit" using cl by (simp add: clean_def)
  have nz: "0 \<notin> set ?c" "INT_MIN \<notin> set ?c" using cl by (auto simp: clean_def lit_in_def)
  consider (zero) "?r = 0" | (unit) "?r \<noteq> 0" "?r \<noteq> INT_MIN" | (two) "?r = INT_MIN" by blast
  then show ?thesis
  proof cases
    case zero
    then have "\<forall>lit \<in> set ?c. val lit s < 0" using scan_unit_zero [OF nz(1)] by blast
    then have "\<not> clause_true \<sigma> ?c" if "good \<sigma> s"
      using that rng holdsD(2) [of \<sigma> s] by (auto simp: good_def clause_true_def)
    then show ?thesis using zero b t by (auto simp: add_scanned_def busy_def)
  next
    case unit
    then have r: "?r \<in> set ?c" "\<forall>lit \<in> set ?c. lit = ?r \<or> val lit s < 0" using scan_unit_one [of s ?c] nz(1) by blast+
    then have rin: "lit_in (size_vars ?s) ?r" using rng by simp
    have wf': "checker_wf ?s" using wf by simp
    have ar: "arrays_ok ?s" by (rule checker_wfD(1) [OF wf'])
    have wa: "checker_wf (assign ?r ?s)" by (rule checker_wf_assign [OF wf' rin])
    obtain res u where p: "propagate (assign ?r ?s) = (res, u)" by fastforce
    have tu: "t = (if res then u else u\<lparr>inconsistent := True\<rparr>)" using t unit p by (simp add: add_scanned_def)
    have g: "grows ?s u" using grows_trans [OF grows_assign [OF ar rin] propagate_grows [OF wa p]] .
    have u: "checker_wf u" using propagate_wf [OF wa p] by blast
    note fr = grows_frame [OF g]
    obtain new where "trail u = trail ?s @ new" using growsD(3) [OF g] by blast
    moreover have "next_to_propagate u \<le> length (trail u)"
      using propagate_next_bound [OF wa _ p] b by (simp add: busy_def)
    moreover have "good \<sigma> t" if "\<not> i" "good \<sigma> s" "clause_true \<sigma> ?c"
    proof -
      have h: "know \<sigma> s" "holds \<sigma> s" "\<not> inconsistent s" using that(2) by (simp_all add: good_def)
      have "lit_true \<sigma> ?r" by (rule good_clause_unit [OF h(2) rng that(3) r(2)])
      then have "holds \<sigma> (assign ?r ?s)" using holds_assign [OF ar _ rin] h(2) by simp
      moreover have "know \<sigma> (assign ?r ?s)" using know_cong [of "assign ?r ?s" ?s] h(1) by simp
      ultimately have "res \<and> know \<sigma> u \<and> holds \<sigma> u" using propagate_know [OF wa p] by blast
      then show ?thesis using tu fr(7) that(1) by (simp add: good_def)
    qed
    ultimately show ?thesis using u fr b tu by (auto simp: busy_def)
  next
    case two
    then have "2 \<le> length ?c" using scan_unit_several [OF nz(2) _ nz(1), of 0 s] by (simp add: INT_MIN_def)
    moreover have "clean ?s (simplified ?s)" using cl val_cong [of ?s s] by (simp add: clean_def)
    ultimately have "clean ?s (simplified ?s)" "2 \<le> length (simplified ?s)" "checker_wf ?s" using wf by simp_all
    note ins = drup_insert_clause_spec [OF this(3,1,2)]
    have "INT_MIN \<noteq> 0" by (simp add: INT_MIN_def)
    then have tt: "t = insert_clause ?s" using t two by (simp add: add_scanned_def)
    obtain h m w cs lh where f: "insert_clause ?s = ?s\<lparr>heap := h, num_clauses := m, watchers := w, clauses := cs, last_hash := lh\<rparr>"
      using ins(3) by blast
    have "holds \<sigma> t" if "holds \<sigma> s" using that holds_cong [of t s] by (simp add: tt f)
    moreover have "know \<sigma> t" if "know \<sigma> s" "clause_true \<sigma> ?c"
      unfolding tt by (rule ins(2)) (use that in simp_all)
    moreover have "checker_wf t" unfolding tt by (rule ins(1))
    moreover have "inconsistent t = i" "next_to_propagate t = next_to_propagate s" "trail t = trail s" "marks t = marks s"
      "unsimplified t = unsimplified s" unfolding tt f by simp_all
    ultimately show ?thesis using b by (simp add: busy_def good_def)
  qed
qed


lemma add_clause_spec:
  assumes b: "busy s" and cl: "clean s (simplified s)"
  shows "busy (add_clause s) \<and> (good \<sigma> s \<longrightarrow> clause_true \<sigma> (simplified s) \<longrightarrow> good \<sigma> (add_clause s))"
proof -
  let ?s = "maybe_collect s"
  have wf: "checker_wf s" using b by (simp add: busy_def)
  have f: "\<exists>h g n m cs w fr. ?s = s\<lparr>heap := h, garbage := g, num_garbage := n, num_clauses := m, clauses := cs, watchers := w, freed := fr\<rparr>"
    and w: "checker_wf ?s" "know \<sigma> s \<Longrightarrow> know \<sigma> ?s" "holds \<sigma> s \<Longrightarrow> holds \<sigma> ?s"
  proof -
    have "\<exists>h g n m cs w fr. s = s\<lparr>heap := h, garbage := g, num_garbage := n, num_clauses := m, clauses := cs, watchers := w, freed := fr\<rparr>"
    proof -
      have "s = s\<lparr>heap := heap s, garbage := garbage s, num_garbage := num_garbage s, num_clauses := num_clauses s,
          clauses := clauses s, watchers := watchers s, freed := freed s\<rparr>" by simp
      then show ?thesis by metis
    qed
    then show "\<exists>h g n m cs w fr. ?s = s\<lparr>heap := h, garbage := g, num_garbage := n, num_clauses := m, clauses := cs, watchers := w, freed := fr\<rparr>"
      using collect_spec(4) [OF wf] by (simp add: maybe_collect_def)
    show "checker_wf ?s" "know \<sigma> s \<Longrightarrow> know \<sigma> ?s" "holds \<sigma> s \<Longrightarrow> holds \<sigma> ?s"
      using collect_spec(1-3) [OF wf] wf by (simp_all add: maybe_collect_def)
  qed
  obtain h g n m cs ws fr where e: "?s = s\<lparr>heap := h, garbage := g, num_garbage := n, num_clauses := m, clauses := cs, watchers := ws, freed := fr\<rparr>"
    using f by blast
  have b': "busy ?s" using b w(1) by (simp add: busy_def e)
  have cl': "clean ?s (simplified ?s)" using cl val_cong [of ?s s] by (simp add: clean_def e)
  let ?i = "simplified ?s = [] \<or> inconsistent ?s"
  have t: "add_clause s = add_scanned (scan_unit ?s (simplified ?s) 0) (?s\<lparr>inconsistent := ?i\<rparr>)"
    unfolding add_clause_def add_unscanned_def by simp
  have "clause_true \<sigma> (simplified s) \<Longrightarrow> simplified s \<noteq> []" by auto
  then show ?thesis
    using add_scanned_spec [OF b' cl' t, of \<sigma>] w by (auto simp: good_def e)
qed

section \<open>Blocked clauses\<close>

lemma blocked_fold:
  assumes "length M = 2 * n" "\<forall>lit \<in> set c. lit_in n lit"
  shows "\<exists>b' M'. fold blocked_step c (b, M) = (b', M') \<and> length M' = 2 * n \<and> flagged M' = flagged M - uminus ` set c \<and>
    (b' \<longrightarrow> b \<or> (\<exists>lit \<in> set c. - lit \<in> flagged M))"
  using assms
proof (induction c arbitrary: b M)
  case (Cons lit c)
  have l: "lit_in n (- lit)" using Cons.prems(2) by simp
  let ?b = "if M ! l2u (- lit) then True else b" and ?M = "M[l2u (- lit) := False]"
  have fl: "flagged ?M = flagged M - {- lit}" by (rule flagged_False [OF l Cons.prems(1)])
  from Cons.IH [of ?M ?b] Cons.prems obtain b' M' where r: "fold blocked_step c (?b, ?M) = (b', M')" "length M' = 2 * n"
    "flagged M' = flagged ?M - uminus ` set c" "b' \<longrightarrow> ?b \<or> (\<exists>lit \<in> set c. - lit \<in> flagged ?M)" by auto
  have "b' \<longrightarrow> b \<or> (\<exists>lit \<in> set (lit # c). - lit \<in> flagged M)"
    using r(4) flag_iff [OF l Cons.prems(1)] fl by (auto split: if_splits)
  moreover have "flagged M' = flagged M - uminus ` set (lit # c)" using r(3) fl by auto
  ultimately show ?case using r(1,2) by auto
qed auto

lemma count_marked_one:
  "fst (count_marked s M lits acc) = 1 \<Longrightarrow> fst acc \<le> 1 \<and>
   (fst acc = 1 \<longrightarrow> snd (count_marked s M lits acc) = snd acc) \<and>
   (fst acc = 0 \<longrightarrow> snd (count_marked s M lits acc) \<in> set lits)"
proof (induction lits arbitrary: acc)
  case (Cons lit lits)
  have "\<not> val lit s > 0" using Cons.prems by auto
  then show ?case
    using Cons.IH [of "(fst acc + 1, lit)"] Cons.IH [of acc] Cons.prems by (cases "M ! l2u lit") auto
qed simp

text \<open>
  A clause \<open>c\<close> is blocked on \<open>lit\<close> by the table: no clause of the table that is not satisfied
  has the negation of \<open>lit\<close> as its only literal that is negated in \<open>c\<close>.
\<close>

definition blocked_on :: "checker \<Rightarrow> int list \<Rightarrow> int \<Rightarrow> bool" where
  "blocked_on s c lit \<longleftrightarrow> lit \<in> set c \<and> (\<forall>a \<in> set (concat (clauses s)). \<not> clause_satisfied s a \<longrightarrow>
     - lit \<in> set (size_literals (heap s ! a)) \<longrightarrow> 2 \<le> length (filter (\<lambda>k. - k \<in> set c) (size_literals (heap s ! a))))"

lemma count_marked_unsatisfied:
  "\<forall>lit \<in> set lits. \<not> val lit s > 0 \<Longrightarrow> count_marked s M lits acc =
    (fst acc + length (filter (\<lambda>lit. M ! l2u lit) lits),
     if filter (\<lambda>lit. M ! l2u lit) lits = [] then snd acc else last (filter (\<lambda>lit. M ! l2u lit) lits))"
  by (induction lits arbitrary: acc) (auto split: if_splits)

lemma drup_check_blocked_spec:
  assumes b: "busy s" and c: "\<forall>lit \<in> set (unsimplified s). lit_in (size_vars s) lit" and r: "check_blocked s = (ok, t)"
  shows "\<exists>m. t = s\<lparr>marks := m\<rparr>" "busy t" "ok \<Longrightarrow> \<exists>lit. blocked_on s (unsimplified s) lit"
proof -
  let ?n = "size_vars s" and ?c = "unsimplified s" and ?neg = "map uminus (unsimplified s)"
  have wf: "checker_wf s" and fm: "flagged (marks s) = {}" using b by (simp_all add: busy_def)
  have mk: "length (marks s) = 2 * ?n" using checker_wfD(1) [OF wf] by (simp add: arrays_ok_def)
  have neg: "\<forall>lit \<in> set ?neg. lit_in ?n lit" using c by auto
  define M where "M = set_flags True ?neg (marks s)"
  have M: "length M = 2 * ?n" "flagged M = uminus ` set ?c"
    unfolding M_def using flagged_set_flags [OF neg mk, of True] fm mk by simp_all
  let ?nb = "not_blocked s M"
  have table: "clause_ok ?n (heap s ! a)" if "a \<in> set (concat (clauses s))" for a
    using that tables_okD(3) [OF checker_wfD(2) [OF wf]] checker_wfD(3) [OF wf] by (auto simp: heap_ok_def addresses_def)
  have lits: "\<forall>lit \<in> set (size_literals (heap s ! a)). lit_in ?n lit" if "a \<in> set (concat (clauses s))" for a
    using table [OF that] by (simp add: clause_ok_def size_literals_def)
  have mark_iff: "filter (\<lambda>lit. M ! l2u lit) (size_literals (heap s ! a)) = filter (\<lambda>k. - k \<in> set ?c) (size_literals (heap s ! a))"
    if "a \<in> set (concat (clauses s))" for a
  proof (rule filter_cong [OF refl])
    fix k assume "k \<in> set (size_literals (heap s ! a))"
    then have "M ! l2u k \<longleftrightarrow> k \<in> flagged M" using lits [OF that] flag_iff [OF _ M(1)] by blast
    also have "\<dots> \<longleftrightarrow> - k \<in> set ?c" unfolding M(2) by (metis image_iff minus_minus)
    finally show "M ! l2u k \<longleftrightarrow> - k \<in> set ?c" .
  qed
  have nbin: "\<forall>lit \<in> set ?nb. lit_in ?n lit"
  proof
    fix lit assume "lit \<in> set ?nb"
    then obtain p where "p \<in> set (map (marked_once s M) (concat (clauses s)))" "fst p = 1" "snd p = lit"
      unfolding not_blocked_def by auto
    from this(1) obtain a where a: "a \<in> set (concat (clauses s))" "p = marked_once s M a" unfolding set_map by blast
    have "fst (count_marked s M (size_literals (heap s ! a)) (0, 0)) = 1"
      using a(2) \<open>fst p = 1\<close> by (simp add: marked_once_def)
    from count_marked_one [OF this] have "lit \<in> set (size_literals (heap s ! a))"
      using a(2) \<open>snd p = lit\<close> by (simp add: marked_once_def)
    then show "lit_in ?n lit" using lits [OF a(1)] by simp
  qed
  let ?N = "set_flags False ?nb M"
  have N: "length ?N = 2 * ?n" "flagged ?N = flagged M - set ?nb"
    using flagged_set_flags [OF nbin M(1), of False] M(1) by simp_all
  from blocked_fold [OF N(1) c, of False] obtain b' m where f: "fold blocked_step ?c (False, ?N) = (b', m)"
    "length m = 2 * ?n" "flagged m = flagged ?N - uminus ` set ?c" "b' \<longrightarrow> (\<exists>lit \<in> set ?c. - lit \<in> flagged ?N)" by blast
  have t: "t = s\<lparr>marks := m\<rparr>" "b' = ok"
    using r f(1) by (simp_all add: check_blocked_def blocked_scan_def M_def [symmetric])
  show "\<exists>m. t = s\<lparr>marks := m\<rparr>" using t by blast
  have "checker_wf t" unfolding t(1) by (rule checker_wf_marks [OF wf]) (simp add: f(2) mk)
  then show "busy t" using b f(3) N(2) M(2) by (auto simp: busy_def t)
  assume ok
  then obtain lit where l: "lit \<in> set ?c" "- lit \<in> flagged M" "- lit \<notin> set ?nb" using f(4) t(2) N(2) by blast
  have "2 \<le> length (filter (\<lambda>k. - k \<in> set ?c) (size_literals (heap s ! a)))"
    if a: "a \<in> set (concat (clauses s))" "\<not> clause_satisfied s a" "- lit \<in> set (size_literals (heap s ! a))" for a
  proof (rule ccontr)
    let ?L = "size_literals (heap s ! a)" and ?F = "filter (\<lambda>k. - k \<in> set ?c) (size_literals (heap s ! a))"
    assume "\<not> ?thesis"
    moreover have mem: "- lit \<in> set ?F" using a(3) l(1) by simp
    ultimately have F: "?F = [- lit]" by (cases ?F; cases "tl ?F") auto
    have "\<forall>k \<in> set ?L. \<not> val k s > 0" using a(2) by (auto simp: clause_satisfied_def)
    from count_marked_unsatisfied [OF this, of M "(0, 0)"] have "marked_once s M a = (1, - lit)"
      unfolding marked_once_def mark_iff [OF a(1)] F by simp
    then have eq: "(1, - lit) = marked_once s M a" by simp
    have "(1, - lit) \<in> set (map (marked_once s M) (concat (clauses s)))"
      unfolding set_map eq by (rule imageI [OF a(1)])
    then have "(1, - lit) \<in> set (filter (\<lambda>p. fst p = 1) (map (marked_once s M) (concat (clauses s))))"
      unfolding set_filter by simp
    from imageI [OF this, of snd] have "- lit \<in> set ?nb" unfolding not_blocked_def set_map by simp
    then show False using l(3) by blast
  qed
  then show "\<exists>lit. blocked_on s ?c lit" using l(1) unfolding blocked_on_def by blast
qed


section \<open>The calls\<close>

text \<open>What the assertions of \<open>import_literal\<close> demand.\<close>

definition lits_ok :: "int list \<Rightarrow> bool" where
  "lits_ok c \<longleftrightarrow> 0 \<notin> set c \<and> INT_MIN \<notin> set c"

lemma import_id_spec:
  assumes s: "idle s" and c: "lits_ok c" and r: "import_id cid c s = (taut, t)"
  shows "busy t" "unsimplified t = c" "\<forall>lit \<in> set c. lit_in (size_vars t) lit" "inconsistent t = inconsistent s"
    "good \<sigma> s \<Longrightarrow> good \<sigma> t" "taut \<Longrightarrow> good \<sigma> s \<Longrightarrow> clause_true \<sigma> c"
    "\<not> taut \<Longrightarrow> clean t (simplified t) \<and> set (simplified t) = set c"
proof -
  let ?u = "(import_clause c s)\<lparr>last_id := cid\<rparr>"
  have wf: "checker_wf s" and b: "busy s" and e: "simplified s = []" "unsimplified s = []"
    using s by (simp_all add: idle_def busy_def)
  have im: "imported c s (import_clause c s)" using import_clause_spec [OF wf] c by (simp add: lits_ok_def)
  obtain n v w m where f: "import_clause c s = s\<lparr>size_vars := n, vals := v, watchers := w, marks := m,
        simplified := simplified s @ c, unsimplified := unsimplified s @ c\<rparr>"
    using im unfolding imported_def by blast
  have i: "checker_wf (import_clause c s)" "flagged (marks (import_clause c s)) = flagged (marks s)"
    "\<And>\<sigma>. know \<sigma> s \<Longrightarrow> know \<sigma> (import_clause c s)" "\<And>\<sigma>. holds \<sigma> s \<Longrightarrow> holds \<sigma> (import_clause c s)"
    "\<forall>lit \<in> set c. lit_in (size_vars (import_clause c s)) lit"
    using im unfolding imported_def by blast+
  have su: "simplified ?u = c" "unsimplified ?u = c" using e by (simp_all add: f)
  have "\<forall>lit \<in> set (simplified ?u). lit_in (size_vars ?u) lit \<and> lit \<noteq> INT_MIN"
    using i(5) c su(1) by (auto simp: lits_ok_def)
  note ts = tautological_spec [OF this r [unfolded import_id_def]]
  obtain q where t: "t = ?u\<lparr>simplified := q\<rparr>" using ts(1) by blast
  show "unsimplified t = c" "\<forall>lit \<in> set c. lit_in (size_vars t) lit" "inconsistent t = inconsistent s"
    using su i(5) by (simp_all add: t f)
  have "next_to_propagate t = next_to_propagate s" "trail t = trail s" "marks t = marks (import_clause c s)"
    by (simp_all add: t f)
  moreover have "checker_wf t" using i(1) by (simp add: t)
  ultimately show "busy t" using b i(2) by (simp add: busy_def)
  show "good \<sigma> t" if "good \<sigma> s" using that i(3,4) by (simp add: good_def t) (simp add: f)
  show "clause_true \<sigma> c" if "taut" "good \<sigma> s"
    using ts(3) [OF that(1), of \<sigma>] i(4) [of \<sigma>] that(2) su(1) by (simp add: good_def)
  show "clean t (simplified t) \<and> set (simplified t) = set c" if "\<not> taut"
    using ts(2) [OF that] su(1) by simp
qed

lemma idle_clear: "busy s \<Longrightarrow> idle (clear_imported s)"
  by (simp add: idle_def busy_def clear_imported_def)

lemma good_clear [simp]: "good \<sigma> (clear_imported s) = good \<sigma> s"
  by (simp add: good_def clear_imported_def)

lemma drup_add_original_spec:
  assumes s: "idle s" and c: "lits_ok c"
  shows "idle (add_original_clause cid c s) \<and>
    (good \<sigma> s \<longrightarrow> clause_true \<sigma> c \<longrightarrow> good \<sigma> (add_original_clause cid c s))"
proof (cases "inconsistent s")
  case False
  obtain taut u where r: "import_id cid c s = (taut, u)" by fastforce
  note i = import_id_spec [OF s c r]
  show ?thesis
  proof (cases taut)
    case True
    then show ?thesis using False r i(1) i(5) [of \<sigma>] idle_clear by (simp add: add_original_clause_def)
  next
    case nt: False
    have cl: "clean u (simplified u)" "set (simplified u) = set c" using i(7) [OF nt] by blast+
    from add_clause_spec [OF i(1) cl(1), of \<sigma>] show ?thesis
      using False nt r i(5) [of \<sigma>] cl(2) idle_clear by (simp add: add_original_clause_def clause_true_def)
  qed
qed (use s in \<open>simp add: add_original_clause_def\<close>)

text \<open>The clause is accepted because it is satisfied or by propagation, not as a blocked clause.\<close>

definition by_propagation :: "int \<Rightarrow> int list \<Rightarrow> checker \<Rightarrow> bool" where
  "by_propagation cid c s \<longleftrightarrow> inconsistent s \<or> fst (import_id cid c s) \<or> fst (check (snd (import_id cid c s)))"

lemma drup_add_derived_spec:
  assumes s: "idle s" and c: "lits_ok c" and r: "add_derived_clause cid c s = Inr t"
  shows "idle t" "good \<sigma> s \<Longrightarrow> clause_true \<sigma> c \<Longrightarrow> good \<sigma> t"
    "by_propagation cid c s \<Longrightarrow> good \<sigma> s \<Longrightarrow> clause_true \<sigma> c"
    "\<not> by_propagation cid c s \<Longrightarrow> \<exists>lit. blocked_on (snd (check (snd (import_id cid c s)))) c lit"
proof -
  have all: "idle t \<and> (good \<sigma> s \<longrightarrow> clause_true \<sigma> c \<longrightarrow> good \<sigma> t) \<and> (by_propagation cid c s \<longrightarrow> good \<sigma> s \<longrightarrow> clause_true \<sigma> c) \<and>
      (\<not> by_propagation cid c s \<longrightarrow> (\<exists>lit. blocked_on (snd (check (snd (import_id cid c s)))) c lit))"
  proof (cases "inconsistent s")
    case True
    then show ?thesis using s r by (auto simp: add_derived_clause_def good_def by_propagation_def)
  next
    case con: False
    obtain taut u where im: "import_id cid c s = (taut, u)" by fastforce
    note i = import_id_spec [OF s c im]
    show ?thesis
    proof (cases taut)
      case True
      then have "t = clear_imported u" using r con im by (simp add: add_derived_clause_def)
      then show ?thesis using i(1) i(5,6) [of \<sigma>] True idle_clear con im by (simp add: by_propagation_def)
    next
      case nt: False
      have cl: "clean u (simplified u)" "set (simplified u) = set c" using i(7) [OF nt] by blast+
      have rng: "\<forall>lit \<in> set (simplified u). lit_in (size_vars u) lit" using cl(1) by (simp add: clean_def)
      obtain ok v where ck: "check u = (ok, v)" by fastforce
      have bu: "checker_wf u" "next_to_propagate u \<le> length (trail u)" "flagged (marks u) = {}" "\<not> inconsistent u"
        using i(1,4) con by (simp_all add: busy_def)
      note cs = drup_check_spec [OF bu(1) rng bu(2,4) ck]
      obtain vv ww hh tr where fv: "v = u\<lparr>vals := vv, watchers := ww, heap := hh, trail := tr\<rparr>" using cs(2) by blast
      have bv: "busy v" using cs(1,3) bu(3) by (simp add: busy_def fv)
      have gv: "good \<sigma> u \<Longrightarrow> good \<sigma> v" using cs(4,5) [of \<sigma>] by (simp add: good_def) (simp add: fv)
      have ok: "ok \<Longrightarrow> good \<sigma> u \<Longrightarrow> clause_true \<sigma> (simplified u)" using cs(6) by (simp add: good_def)
      obtain fin x where fin: "else_blocked (ok, v) = (fin, x)" by fastforce
      have "add_if (fin, x) = Inr t" using r con im nt ck fin by (simp add: add_derived_clause_def)
      then have fin': fin and t: "t = clear_imported (add_clause x)" by (simp_all split: if_splits)
      have x: "busy x" "simplified x = simplified u" "good \<sigma> v \<Longrightarrow> good \<sigma> x" "clean x (simplified x)"
        "\<not> ok \<Longrightarrow> \<exists>lit. blocked_on v c lit"
      proof -
        have vv: "simplified v = simplified u" "unsimplified v = c" "size_vars v = size_vars u" using i(2) by (simp_all add: fv)
        have clv: "clean v (simplified v)"
          using cl(1) cs(7) unfolding clean_def vv by (metis less_irrefl)
        have un: "\<forall>lit \<in> set (unsimplified v). lit_in (size_vars v) lit" using i(3) vv by simp
        show "busy x" "simplified x = simplified u" "good \<sigma> v \<Longrightarrow> good \<sigma> x" "clean x (simplified x)"
          "\<not> ok \<Longrightarrow> \<exists>lit. blocked_on v c lit"
        proof -
          have "busy x \<and> simplified x = simplified v \<and> (good \<sigma> v \<longrightarrow> good \<sigma> x) \<and> clean x (simplified x) \<and>
              (\<not> ok \<longrightarrow> (\<exists>lit. blocked_on v c lit))"
          proof (cases ok)
            case True
            then show ?thesis using fin bv clv by simp
          next
            case False
            then have cb: "check_blocked v = (fin, x)" using fin by simp
            note b = drup_check_blocked_spec [OF bv un cb]
            obtain m where xm: "x = v\<lparr>marks := m\<rparr>" using b(1) by blast
            have "clean x (simplified x)" using clv val_cong [of x v] by (simp add: clean_def xm)
            then show ?thesis using b(2) b(3) [OF fin'] vv(2) by (simp add: good_def xm)
          qed
          then show "busy x" "simplified x = simplified u" "good \<sigma> v \<Longrightarrow> good \<sigma> x" "clean x (simplified x)"
            "\<not> ok \<Longrightarrow> \<exists>lit. blocked_on v c lit" using vv(1) by auto
        qed
      qed
      have bp: "by_propagation cid c s = ok" using con nt by (simp add: by_propagation_def im ck)
      have ct: "clause_true \<sigma> (simplified u) = clause_true \<sigma> c" using cl(2) by (simp add: clause_true_def)
      have "idle t \<and> (good \<sigma> s \<longrightarrow> clause_true \<sigma> c \<longrightarrow> good \<sigma> t)"
        using add_clause_spec [OF x(1,4), of \<sigma>] x(2,3) i(5) [of \<sigma>] gv ct t idle_clear by simp
      moreover have "snd (check (snd (import_id cid c s))) = v" by (simp add: im ck)
      ultimately show ?thesis using bp ok i(5) [of \<sigma>] ct x(5) by simp
    qed
  qed
  then show "idle t" "good \<sigma> s \<Longrightarrow> clause_true \<sigma> c \<Longrightarrow> good \<sigma> t"
    "by_propagation cid c s \<Longrightarrow> good \<sigma> s \<Longrightarrow> clause_true \<sigma> c"
    "\<not> by_propagation cid c s \<Longrightarrow> \<exists>lit. blocked_on (snd (check (snd (import_id cid c s)))) c lit"
    by blast+
qed

end
