(* ===== verification/Drup_Claims.thy ===== *)
theory Drup_Claims
  imports Drup_Props
begin

text \<open>
  Whole proofs in the forward checker and its properties.
\<close>

section \<open>Deletion and whole proofs\<close>

lemma idle_cleared: "idle s \<Longrightarrow> clear_imported s = s"
  by (simp add: idle_def clear_imported_def)

lemma drup_delete_clause_spec:
  assumes s: "idle s" and c: "lits_ok c" and r: "delete_clause cid c s = Inr t"
  shows "idle t \<and> (good \<sigma> s \<longrightarrow> good \<sigma> t)"
proof (cases "inconsistent s")
  case False
  obtain taut u where im: "import_id cid c s = (taut, u)" by fastforce
  note i = import_id_spec [OF s c im]
  have r: "remove_unless (taut, u) = Inr t"
    using r False im by (simp add: delete_clause_def idle_cleared [OF s])
  show ?thesis
  proof (cases taut)
    case True
    then have "t = clear_imported u" using r by simp
    then show ?thesis using i(1) i(5) [of \<sigma>] idle_clear by simp
  next
    case nt: False
    have cl: "clean u (simplified u)" using i(7) [OF nt] by blast
    have bu: "checker_wf u" "flagged (marks u) = {}" using i(1) by (simp_all add: busy_def)
    obtain a v where fd: "find u = (Some a, v)" and t: "t = clear_imported (unlink_clause a v)"
      using r nt by (cases "find u"; cases "fst (find u)") auto
    note fs = find_spec [OF bu(1) cl bu(2) fd]
    obtain h m where v: "v = u\<lparr>last_hash := h, marks := m\<rparr>" using fs(1) by blast
    let ?k = "reduce_hash (last_hash v) (length (clauses v))"
    have k: "?k < length (clauses v)" "a \<in> set (clauses v ! ?k)" using fs(4) [OF refl] by (simp_all add: v)
    have w: "unlink_clause a v = make_garbage a (v\<lparr>clauses := upd_nth (clauses v) ?k (remove1 a)\<rparr>)"
      by (simp add: unlink_clause_def)
    note us = unlink_spec [OF fs(2) k w]
    have "busy (unlink_clause a v)"
      using us(1) fs(3) i(1) by (simp add: busy_def w make_garbage_def) (simp add: v)
    moreover have "good \<sigma> (unlink_clause a v)" if "good \<sigma> s"
    proof -
      have "know \<sigma> v" "holds \<sigma> v" "\<not> inconsistent v"
        using i(5) [OF that] know_imported holds_imported by (simp_all add: good_def v know_def holds_def)
          (simp_all add: addresses_def live_def watcher_def val_def val_index_def)
      then show ?thesis using us(2,3) [of \<sigma>] by (simp add: good_def w make_garbage_def)
    qed
    ultimately show ?thesis using t idle_clear by simp
  qed
qed (use s r in \<open>auto simp: delete_clause_def\<close>)

primrec call_lits :: "checker_call \<Rightarrow> int list" where
  "call_lits (Original cid c) = c"
| "call_lits (Derived cid c) = c"
| "call_lits (Delete cid c) = c"
| "call_lits (Assumption_clause cid c) = c"

primrec is_original :: "checker_call \<Rightarrow> bool" where
  "is_original (Original cid c) = True"
| "is_original (Derived cid c) = False"
| "is_original (Delete cid c) = False"
| "is_original (Assumption_clause cid c) = False"

text \<open>Derived clauses are accepted by propagation, in a call and in a proof.\<close>

primrec call_by_propagation :: "checker_call \<Rightarrow> checker \<Rightarrow> bool" where
  "call_by_propagation (Original cid c) s = True"
| "call_by_propagation (Derived cid c) s = by_propagation cid c s"
| "call_by_propagation (Delete cid c) s = True"
| "call_by_propagation (Assumption_clause cid c) s = by_propagation cid c s"

fun then_all :: "(checker \<Rightarrow> bool) \<Rightarrow> checker_error + checker \<Rightarrow> bool" where
  "then_all f (Inl e) = True"
| "then_all f (Inr s) = f s"

primrec all_by_propagation :: "checker_call list \<Rightarrow> checker \<Rightarrow> bool" where
  "all_by_propagation [] s = True"
| "all_by_propagation (a # as) s = (call_by_propagation a s \<and> then_all (all_by_propagation as) (checker_step a s))"

lemma checker_step_spec:
  assumes "idle s" "lits_ok (call_lits a)" "checker_step a s = Inr t"
  shows "idle t" "good \<sigma> s \<Longrightarrow> is_original a \<longrightarrow> clause_true \<sigma> (call_lits a) \<Longrightarrow> call_by_propagation a s \<Longrightarrow> good \<sigma> t"
proof -
  have "idle t \<and> (good \<sigma> s \<longrightarrow> (is_original a \<longrightarrow> clause_true \<sigma> (call_lits a)) \<longrightarrow> call_by_propagation a s \<longrightarrow> good \<sigma> t)"
  proof (cases a)
    case (Original cid c)
    then show ?thesis using drup_add_original_spec [OF assms(1), of c cid \<sigma>] assms by auto
  next
    case (Derived cid c)
    then have d: "lits_ok c" "add_derived_clause cid c s = Inr t" using assms by simp_all
    show ?thesis using drup_add_derived_spec(1) [OF assms(1) d] drup_add_derived_spec(2,3) [OF assms(1) d, of \<sigma>] Derived by auto
  next
    case (Delete cid c)
    then have d: "lits_ok c" "delete_clause cid c s = Inr t" using assms by simp_all
    show ?thesis using drup_delete_clause_spec [OF assms(1) d, of \<sigma>] Delete by auto
  next
    case (Assumption_clause cid c)
    then obtain u where d: "lits_ok c" "add_derived_clause cid c s = Inr u" "delete_clause cid c u = Inr t"
      using assms by (auto simp: add_assumption_clause_def and_then_Inr)
    note ad = drup_add_derived_spec [OF assms(1) d(1,2)]
    show ?thesis
      using ad(2,3) [of \<sigma>] drup_delete_clause_spec [OF ad(1) d(1,3), of \<sigma>] Assumption_clause by auto
  qed
  then show "idle t" "good \<sigma> s \<Longrightarrow> is_original a \<longrightarrow> clause_true \<sigma> (call_lits a) \<Longrightarrow> call_by_propagation a s \<Longrightarrow> good \<sigma> t"
    by blast+
qed

lemma run_checker_idle:
  "\<lbrakk>idle s; \<forall>a \<in> set as. lits_ok (call_lits a); run_checker as s = Inr t\<rbrakk> \<Longrightarrow> idle t"
proof (induction as arbitrary: s)
  case (Cons a as)
  then obtain u where "checker_step a s = Inr u" "run_checker as u = Inr t" by (auto simp: and_then_Inr)
  then show ?case using Cons checker_step_spec(1) [of s a u] by simp
qed simp

lemma run_checker_good:
  "\<lbrakk>idle s; \<forall>a \<in> set as. lits_ok (call_lits a); run_checker as s = Inr t; all_by_propagation as s;
    \<forall>a \<in> set as. is_original a \<longrightarrow> clause_true \<sigma> (call_lits a); good \<sigma> s\<rbrakk> \<Longrightarrow> good \<sigma> t"
proof (induction as arbitrary: s)
  case (Cons a as)
  then obtain u where u: "checker_step a s = Inr u" "run_checker as u = Inr t" by (auto simp: and_then_Inr)
  have "idle u" "good \<sigma> u" using checker_step_spec(1) [OF Cons.prems(1) _ u(1)]
      checker_step_spec(2) [OF Cons.prems(1) _ u(1), of \<sigma>] Cons.prems by auto
  moreover have "all_by_propagation as u" using Cons.prems(4) u(1) by simp
  ultimately show ?case using Cons.IH [of u] Cons.prems u(2) by simp
qed simp

lemma init_checker_idle: "idle (init_checker ns) \<and> good \<sigma> (init_checker ns)"
  by (simp add: idle_def busy_def good_def checker_wf_def arrays_ok_def tables_ok_def heap_ok_def watches_ok_def
      addresses_def know_def holds_def init_checker_def flagged_def lit_in_def live_watched_def)

text \<open>The original clauses of a proof.\<close>

definition original_clauses :: "checker_call list \<Rightarrow> int list set" where
  "original_clauses as = call_lits ` {a \<in> set as. is_original a}"

section \<open>The properties\<close>

abbreviation nonces4 :: "64 word list" where
  "nonces4 \<equiv> [1, 3, 5, 7]"

text \<open>
  C27. A proof the checker accepts, in which every derived clause passes by propagation, and
  that makes it inconsistent shows that the original clauses are unsatisfiable.
\<close>

theorem checker_refutation_sound:
  assumes "run_checker as (init_checker ns) = Inr t" "inconsistent t"
    and "all_by_propagation as (init_checker ns)" "\<forall>a \<in> set as. lits_ok (call_lits a)"
  shows "\<not> satisfiable (original_clauses as)"
proof
  assume "satisfiable (original_clauses as)"
  then obtain \<sigma> where "models \<sigma> (original_clauses as)" by (auto simp: satisfiable_def)
  then have "\<forall>a \<in> set as. is_original a \<longrightarrow> clause_true \<sigma> (call_lits a)"
    by (auto simp: models_def original_clauses_def)
  then have "good \<sigma> t" using run_checker_good [OF _ assms(4,1,3)] init_checker_idle by blast
  then show False using assms(2) by (simp add: good_def)
qed

fun accepts :: "(checker \<Rightarrow> bool) \<Rightarrow> checker_error + checker \<Rightarrow> bool" where
  "accepts P (Inl e) = False"
| "accepts P (Inr s) = P s"

lemma accepts_iff: "accepts P r \<longleftrightarrow> (\<exists>s. r = Inr s \<and> P s)"
  by (cases r) simp_all

definition checker_proof :: "checker_call list" where
  "checker_proof = [Original 1 [1, 2], Original 2 [1, -2], Original 3 [-1, 3], Original 4 [-1, -3], Derived 5 [1]]"

lemma checker_refutation_sound_witness:
  "\<not> satisfiable {[1, 2], [1, -2], [-1, 3], [-1, -3]}"
proof -
  have "accepts inconsistent (run_checker checker_proof (init_checker nonces4))"
    "all_by_propagation checker_proof (init_checker nonces4)"
    by code_simp+
  then have "\<not> satisfiable (original_clauses checker_proof)"
    using checker_refutation_sound [of checker_proof nonces4]
    by (auto simp: accepts_iff checker_proof_def lits_ok_def INT_MIN_def)
  then show ?thesis
    by (simp add: original_clauses_def checker_proof_def insert_commute conj_disj_distribR Collect_disj_eq image_Un Collect_conv_if)
qed

text \<open>
  C28. Along a proof the data structures stay well formed; no chain of the hash table, garbage
  entry or watch refers to a clause that was freed.
\<close>

definition no_dangling :: "checker \<Rightarrow> bool" where
  "no_dangling s \<longleftrightarrow> (\<forall>a \<in> addresses s. a < length (heap s) \<and> a \<notin> set (freed s)) \<and>
     (\<forall>l. lit_in (size_vars s) l \<longrightarrow> (\<forall>w \<in> set (watcher l s). wclause w < length (heap s) \<and> wclause w \<notin> set (freed s)))"

theorem checker_memory_safe:
  assumes "run_checker as (init_checker ns) = Inr t" "\<forall>a \<in> set as. lits_ok (call_lits a)"
  shows "checker_wf t \<and> no_dangling t"
proof -
  have wf: "checker_wf t"
    using run_checker_idle [OF _ assms(2,1)] init_checker_idle by (simp add: idle_def busy_def)
  have adr: "a < length (heap t) \<and> a \<notin> set (freed t)" if "a \<in> addresses t" for a
    using tables_okD(2) [OF checker_wfD(2) [OF wf] that] .
  have "wclause w \<in> addresses t" if "lit_in (size_vars t) l" "w \<in> set (watcher l t)" for l w
  proof -
    have "lit_in (Suc (size_vars t)) l" using that(1) lit_in_mono by (metis le_SucI le_refl)
    then show ?thesis using checker_wfD(4) [OF wf] that(2) by (simp add: watches_ok_def watch_ok_def)
  qed
  then show ?thesis using wf adr unfolding no_dangling_def by blast
qed

definition checker_collecting :: "checker_call list" where
  "checker_collecting = [Original 1 [1, 2, 3], Original 2 [1, -2], Delete 1 [3, 2, 1], Original 3 [2, 3], Delete 2 [1, -2],
     Original 4 [1], Delete 3 [2, 3], Original 5 [2, -3]]"

lemma checker_memory_safe_witness:
  "\<exists>t. run_checker checker_collecting (init_checker nonces4) = Inr t \<and> freed t \<noteq> [] \<and> checker_wf t \<and> no_dangling t"
proof -
  have "accepts (\<lambda>t. freed t \<noteq> []) (run_checker checker_collecting (init_checker nonces4))" by code_simp
  then obtain t where t: "run_checker checker_collecting (init_checker nonces4) = Inr t" "freed t \<noteq> []"
    by (auto simp: accepts_iff)
  have "checker_wf t \<and> no_dangling t"
    by (rule checker_memory_safe [OF t(1)]) (simp add: checker_collecting_def lits_ok_def INT_MIN_def)
  then show ?thesis using t by blast
qed

text \<open>
  C29. A derived clause is accepted only if every assignment the checker has not refuted
  satisfies it, or if it is blocked: no clause of the table that is not satisfied clashes with
  it on the blocking literal alone.
\<close>

theorem checker_derived_justified:
  assumes "idle s" "lits_ok c" "add_derived_clause cid c s = Inr t"
  shows "(\<forall>\<sigma>. good \<sigma> s \<longrightarrow> clause_true \<sigma> c) \<or>
    (\<exists>lit. blocked_on (snd (check (snd (import_id cid c s)))) c lit)"
proof (cases "by_propagation cid c s")
  case True
  then show ?thesis using drup_add_derived_spec(3) [OF assms] by blast
next
  case False
  then show ?thesis using drup_add_derived_spec(4) [OF assms] by blast
qed

lemma checker_derived_justified_witness:
  "accepted (add_derived_clause 1 [2] (init_checker nonces4)) \<and>
   (\<exists>lit. blocked_on (snd (check (snd (import_id 1 [2] (init_checker nonces4))))) [2] lit)"
proof -
  have a: "accepted (add_derived_clause 1 [2] (init_checker nonces4))" by code_simp
  then obtain t where t: "add_derived_clause 1 [2] (init_checker nonces4) = Inr t" unfolding accepted_iff by blast
  have "\<not> clause_true (\<lambda>v. False) [2]" by (simp add: clause_true_def lit_true_def)
  then have "\<exists>lit. blocked_on (snd (check (snd (import_id 1 [2] (init_checker nonces4))))) [2] lit"
    using checker_derived_justified [OF _ _ t] init_checker_idle by (auto simp: lits_ok_def INT_MIN_def)
  then show ?thesis using a by blast
qed

section \<open>Proofs accepted in error\<close>

text \<open>
  \<open>check_blocked\<close> looks at the hash table only, where unit clauses are not kept: the
  negation of a unit clause passes as blocked and makes the checker inconsistent although the
  formula is satisfiable.
\<close>

lemma checker_unit_negation_accepted:
  "accepts inconsistent (run_checker [Original 1 [1], Derived 2 [-1]] (init_checker nonces4)) \<and> satisfiable {[1]}"
proof
  show "satisfiable {[1]}" by (auto simp: satisfiable_def models_def clause_true_def lit_true_def)
qed code_simp

text \<open>
  Propagation uses a deleted binary clause until it is collected, which is not sound
  together with blocked clauses: after the only clause is deleted, its two negated literals pass
  as blocked, and together with the deleted clause they are inconsistent.
\<close>

lemma checker_deleted_binary_propagates:
  "accepts inconsistent (run_checker [Original 1 [1, 2], Delete 1 [1, 2], Derived 2 [-1], Derived 3 [-2]] (init_checker nonces4)) \<and>
   satisfiable {[1, 2]}"
proof
  show "satisfiable {[1, 2]}" by (auto simp: satisfiable_def models_def clause_true_def lit_true_def)
qed code_simp

end
