(* ===== verification/Ext_Stack.thy ===== *)
theory Ext_Stack
  imports Proof_Base
begin

text \<open>
  The reconstruction stack of CaDiCaL: \<open>extend.cpp\<close> and the parts of \<open>external.hpp\<close>,
  \<open>external.cpp\<close> it uses. A weakened clause is stacked as

    \<open>0 witness\<^sub>1 ... witness\<^sub>m 0 id\<^sub>h\<^sub>i id\<^sub>l\<^sub>o 0 lit\<^sub>1 ... lit\<^sub>n\<close>

  in one \<open>vector<int>\<close>, which the traversals, the extension of an assignment and the restoring
  of clauses read back. \<open>int\<close> is \<open>int\<close> here, \<open>int64_t\<close> is \<open>64 word\<close>; a conversion from
  \<open>uint32_t\<close> to \<open>int\<close> is \<open>sint\<close>. What the internal solver is told is the log \<open>calls\<close>; what it
  answers is a parameter.
\<close>

section \<open>State\<close>

datatype var_status = UNUSED | ACTIVE | FIXED | ELIMINATED | SUBSTITUTED | PURE

record var_flags =
  factored_but_on_reconstruction_stack :: bool
  status :: var_status

definition init_flags :: var_flags where
  "init_flags = \<lparr>factored_but_on_reconstruction_stack = False, status = UNUSED\<rparr>"

datatype internal_call =
  Add_original_lit int
| Lrat_chain_push_back "64 word"
| Finish_added_clause_with_id "64 word" bool

record internal =
  imax_var :: nat
  ivsize :: nat
  i2e :: "int list"
  ftab :: "var_flags list"
  weakened :: nat
  weakenedlen :: nat
  calls :: "internal_call list"

record external =
  max_var :: nat
  vsize :: nat
  vals :: "bool list"
  e2i :: "int list"
  ext_units :: "64 word list"
  ext_flags :: "bool list"
  eclause :: "int list"
  extended :: bool
  concluded :: bool
  extension :: "int list"
  witness :: "bool list"
  tainted :: "bool list"
  ervars :: "bool list"
  moltentab :: "bool list"
  internal :: internal

text \<open>The constructors: nothing is allocated.\<close>

definition init_external :: external where
  "init_external = \<lparr>max_var = 0, vsize = 0, vals = [], e2i = [], ext_units = [], ext_flags = [],
     eclause = [], extended = False, concluded = False, extension = [], witness = [], tainted = [],
     ervars = [], moltentab = [],
     internal = \<lparr>imax_var = 0, ivsize = 0, i2e = [], ftab = [], weakened = 0, weakenedlen = 0,
       calls = []\<rparr>\<rparr>"

text \<open>The options and flags of the internal solver these functions test.\<close>

record options =
  restoreall :: nat
  restoreflush :: bool
  checkfrozen :: bool
  proof_lrat :: bool  \<comment> \<open>\<open>internal->proof && internal->lrat\<close>\<close>

section \<open>Marks and values\<close>

definition elit2ulit :: "int \<Rightarrow> nat" where
  "elit2ulit elit = 2 * (nat \<bar>elit\<bar> - 1) + (if elit < 0 then 1 else 0)"

definition marked :: "bool list \<Rightarrow> int \<Rightarrow> bool" where
  "marked A elit = (let ulit = elit2ulit elit in if ulit < length A then A ! ulit else False)"

definition mark :: "int \<Rightarrow> bool list \<Rightarrow> bool list" where
  "mark elit A = (let ulit = elit2ulit elit;
                      A = (if ulit \<ge> length A then resize (ulit + 1) False A else A)
                  in A[ulit := True])"

definition ival :: "nat \<Rightarrow> bool list \<Rightarrow> int \<Rightarrow> int" where
  "ival m vs elit =
     (let eidx = nat \<bar>elit\<bar>;
          val = (if eidx \<le> m \<and> eidx < length vs then vs ! eidx else False);
          val = (if elit < 0 then \<not> val else val)
      in if val then elit else - elit)"

definition externalize :: "external \<Rightarrow> int \<Rightarrow> int" where
  "externalize e ilit = (let res = i2e (internal e) ! nat \<bar>ilit\<bar> in if ilit < 0 then - res else res)"

section \<open>Variables\<close>

text \<open>\<open>while (new_vsize <= new_max_var) new_vsize *= 2\<close>, for a positive \<open>new_vsize\<close>.\<close>

function double_until :: "nat \<Rightarrow> nat \<Rightarrow> nat" where
  "double_until n k = (if 0 < k \<and> k \<le> n then double_until n (2 * k) else k)"
  by pat_completeness auto
termination by (relation "measure (\<lambda>(n, k). Suc n - k)") auto

declare double_until.simps [simp del]

definition new_vsize :: "nat \<Rightarrow> nat \<Rightarrow> nat" where
  "new_vsize vsz new_max_var = double_until new_max_var (if vsz \<noteq> 0 then 2 * vsz else 1 + new_max_var)"

definition internal_enlarge :: "nat \<Rightarrow> internal \<Rightarrow> internal" where
  "internal_enlarge new_max_var i =
     (let n = new_vsize (ivsize i) new_max_var
      in i\<lparr>ivsize := n, ftab := resize n init_flags (ftab i)\<rparr>)"

definition init_vars :: "nat \<Rightarrow> internal \<Rightarrow> internal" where
  "init_vars new_max_var i =
     (if new_max_var \<le> imax_var i then i
      else (if new_max_var \<ge> ivsize i then internal_enlarge new_max_var i else i)
             \<lparr>imax_var := new_max_var\<rparr>)"

definition enlarge :: "nat \<Rightarrow> external \<Rightarrow> external" where
  "enlarge new_max_var e = e\<lparr>vsize := new_vsize (vsize e) new_max_var\<rparr>"

definition first_slot :: "external \<Rightarrow> external" where
  "first_slot e = (if max_var e = 0
     then e\<lparr>e2i := e2i e @ [0], ext_units := ext_units e @ [0, 0], ext_flags := ext_flags e @ [False],
            ervars := ervars e @ [False], internal := (internal e)\<lparr>i2e := i2e (internal e) @ [0]\<rparr>\<rparr>
     else e)"

text \<open>One round of the loop of \<open>init\<close>: external \<open>eidx\<close> becomes internal \<open>iidx\<close>.\<close>

definition map_variable :: "nat \<times> nat \<Rightarrow> external \<Rightarrow> external" where
  "map_variable = (\<lambda>(eidx, iidx) e.
     e\<lparr>e2i := e2i e @ [int iidx], ext_units := ext_units e @ [0, 0], ext_flags := ext_flags e @ [False],
       ervars := ervars e @ [False], internal := (internal e)\<lparr>i2e := i2e (internal e) @ [int eidx]\<rparr>\<rparr>)"

definition init :: "options \<Rightarrow> nat \<Rightarrow> external \<Rightarrow> external" where
  "init opts new_max_var e =
     (if new_max_var \<le> max_var e then e
      else let old = max_var e; iold = imax_var (internal e);
               e = e\<lparr>internal := init_vars (iold + (new_max_var - old)) (internal e)\<rparr>;
               e = (if new_max_var \<ge> vsize e then enlarge new_max_var e else e);
               e = fold map_variable (map (\<lambda>k. (old + 1 + k, iold + 1 + k)) [0..<new_max_var - old]) (first_slot e);
               e = (if checkfrozen opts \<and> new_max_var \<ge> length (moltentab e)
                    then e\<lparr>moltentab := resize (1 + new_max_var) False (moltentab e)\<rparr> else e)
           in e\<lparr>max_var := new_max_var\<rparr>)"

section \<open>Pushing\<close>

record clause =
  cid :: "64 word"
  clits :: "int list"  \<comment> \<open>internal literals\<close>

definition higher_bits :: "64 word \<Rightarrow> 32 word" where
  "higher_bits ident = ucast (push_bit 32 ident)"

definition lower_bits :: "64 word \<Rightarrow> 32 word" where
  "lower_bits ident = ucast (ident AND (push_bit 32 1 - 1))"

definition push_back :: "int \<Rightarrow> external \<Rightarrow> external" where
  "push_back x e = e\<lparr>extension := extension e @ [x]\<rparr>"

definition push_zero :: "external \<Rightarrow> external" where
  "push_zero = push_back 0"

definition push_id :: "64 word \<Rightarrow> external \<Rightarrow> external" where
  "push_id ident = push_back (sint (lower_bits ident)) \<circ> push_back (sint (higher_bits ident))"

definition taint_factored :: "int \<Rightarrow> internal \<Rightarrow> internal" where
  "taint_factored ilit i =
     i\<lparr>ftab := upd_nth (ftab i) (nat \<bar>ilit\<bar>) (\<lambda>f. f\<lparr>factored_but_on_reconstruction_stack := True\<rparr>)\<rparr>"

definition push_clause_literal :: "int \<Rightarrow> external \<Rightarrow> external" where
  "push_clause_literal ilit e =
     (let elit = externalize e ilit;
          e = (if ervars e ! nat \<bar>elit\<bar> then e\<lparr>internal := taint_factored ilit (internal e)\<rparr> else e)
      in push_back elit e)"

definition push_witness_literal :: "int \<Rightarrow> external \<Rightarrow> external" where
  "push_witness_literal ilit e =
     (let elit = externalize e ilit; e = push_back elit e
      in if marked (witness e) elit then e else e\<lparr>witness := mark elit (witness e)\<rparr>)"

definition count_weakened :: "nat \<Rightarrow> external \<Rightarrow> external" where
  "count_weakened n e = e\<lparr>internal := (internal e)\<lparr>weakened := weakened (internal e) + 1,
     weakenedlen := weakenedlen (internal e) + n\<rparr>\<rparr>"

definition push_clause :: "clause \<Rightarrow> external \<Rightarrow> external" where
  "push_clause c e =
     fold push_clause_literal (clits c)
       (push_zero (push_id (cid c) (push_zero (count_weakened (length (clits c)) e))))"

definition push_clause_on_extension_stack :: "clause \<Rightarrow> int \<Rightarrow> external \<Rightarrow> external" where
  "push_clause_on_extension_stack c pivot e =
     push_clause c (push_witness_literal pivot (push_zero e))"

definition push_binary_clause_on_extension_stack :: "64 word \<Rightarrow> int \<Rightarrow> int \<Rightarrow> external \<Rightarrow> external" where
  "push_binary_clause_on_extension_stack ident pivot other e =
     push_clause_literal other (push_clause_literal pivot
       (push_zero (push_id ident (push_zero (push_witness_literal pivot (push_zero (count_weakened 2 e)))))))"

definition push_external_literal :: "options \<Rightarrow> int \<Rightarrow> external \<Rightarrow> external" where
  "push_external_literal opts elit e = push_back elit (init opts (nat \<bar>elit\<bar>) e)"

definition push_external_witness :: "options \<Rightarrow> int \<Rightarrow> external \<Rightarrow> external" where
  "push_external_witness opts elit e =
     (let e = push_external_literal opts elit e in e\<lparr>witness := mark elit (witness e)\<rparr>)"

definition push_external_clause_and_witness_on_extension_stack ::
    "options \<Rightarrow> int list \<Rightarrow> int list \<Rightarrow> 64 word \<Rightarrow> external \<Rightarrow> external" where
  "push_external_clause_and_witness_on_extension_stack opts c w ident e =
     fold (push_external_literal opts) c
       (push_zero (push_id ident (push_zero
         (fold (push_external_witness opts) w (push_zero e)))))"

section \<open>Traversing\<close>

text \<open>\<open>((int64_t) hi << 32) + (int64_t) lo\<close>\<close>

definition stack_id :: "int \<Rightarrow> int \<Rightarrow> 64 word" where
  "stack_id hi lo = push_bit 32 (word_of_int hi) + word_of_int lo"

text \<open>
  \<open>while ((lit = *i++)) ...\<close> on the entries ahead of the iterator, or \<open>while ((lit = *--i)) ...\<close>
  on those behind it: the literals before a zero and the entries after it. Running over the end
  of the vector is \<open>None\<close>.
\<close>

fun read_lits :: "int list \<Rightarrow> (int list \<times> int list) option" where
  "read_lits [] = None"
| "read_lits (l # r) = (if l = 0 then Some ([], r)
     else case read_lits r of None \<Rightarrow> None | Some (ls, s) \<Rightarrow> Some (l # ls, s))"

lemma read_lits_length: "read_lits s = Some (ls, r) \<Longrightarrow> length r < length s"
  by (induction s arbitrary: ls r) (fastforce split: if_splits option.splits)+

text \<open>The witness, the id and the clause behind the iterator, read backward.\<close>

fun read_back :: "int list \<Rightarrow> ((int list \<times> 64 word \<times> int list) \<times> int list) option" where
  "read_back s = (case read_lits s of
     Some (c, lo # hi # z # r) \<Rightarrow>
       (case read_lits r of
          Some (w, r) \<Rightarrow> Some ((rev w, stack_id hi lo, rev c), r)
        | None \<Rightarrow> None)
   | _ \<Rightarrow> None)"

lemma read_back_length: "read_back s = Some (x, r) \<Longrightarrow> length r < length s"
  by (auto split: option.splits list.splits dest!: read_lits_length)

text \<open>A \<open>WitnessIterator\<close>: whether to go on, and its new state.\<close>

type_synonym 's iterator = "int list \<Rightarrow> int list \<Rightarrow> 64 word \<Rightarrow> 's \<Rightarrow> bool \<times> 's"

function traverse_back :: "'s iterator \<Rightarrow> 's \<Rightarrow> int list \<Rightarrow> (bool \<times> 's) option" where
  "traverse_back it st s =
     (if s = [] then Some (True, st)
      else case read_back s of
        None \<Rightarrow> None
      | Some ((w, ident, c), r) \<Rightarrow>
          (let (go, st) = it c w ident st in if go then traverse_back it st r else Some (False, st)))"
  by pat_completeness auto
termination
  by (relation "measure (\<lambda>(it, st, s). length s)") (auto simp del: read_back.simps dest: read_back_length)

declare traverse_back.simps [simp del]

definition traverse_witnesses_backward :: "bool \<Rightarrow> 's iterator \<Rightarrow> external \<Rightarrow> 's \<Rightarrow> (bool \<times> 's) option" where
  "traverse_witnesses_backward unsat it e st =
     (if unsat then Some (True, st) else traverse_back it st (rev (extension e)))"

text \<open>The same forward, after the zero that starts an entry.\<close>

fun read_ahead :: "int list \<Rightarrow> ((int list \<times> 64 word \<times> int list) \<times> int list) option" where
  "read_ahead s = (case read_lits s of
     Some (w, hi # lo # z # r) \<Rightarrow>
       Some ((w, stack_id hi lo, takeWhile (\<lambda>l. l \<noteq> 0) r), drop 1 (dropWhile (\<lambda>l. l \<noteq> 0) r))
   | _ \<Rightarrow> None)"

lemma read_ahead_length: "read_ahead s = Some (x, r) \<Longrightarrow> length r < length s"
proof -
  assume "read_ahead s = Some (x, r)"
  then obtain w hi lo z t where w: "read_lits s = Some (w, hi # lo # z # t)"
    and r: "r = drop 1 (dropWhile (\<lambda>l. l \<noteq> 0) t)"
    by (auto split: option.splits list.splits)
  have "length r \<le> length t"
    unfolding r using length_dropWhile_le [of "\<lambda>l. l \<noteq> 0" t] by simp
  then show "length r < length s" using read_lits_length [OF w] by simp
qed

function traverse_ahead :: "'s iterator \<Rightarrow> 's \<Rightarrow> int list \<Rightarrow> (bool \<times> 's) option" where
  "traverse_ahead it st s =
     (case read_ahead s of
        None \<Rightarrow> None
      | Some ((w, ident, c), r) \<Rightarrow>
          (let (go, st) = it c w ident st
           in if \<not> go then Some (False, st)
              else if r = [] then Some (True, st)
              else traverse_ahead it st r))"
  by pat_completeness auto
termination
  by (relation "measure (\<lambda>(it, st, s). length s)") (auto simp del: read_ahead.simps dest: read_ahead_length)

declare traverse_ahead.simps [simp del]

definition traverse_witnesses_forward :: "bool \<Rightarrow> 's iterator \<Rightarrow> external \<Rightarrow> 's \<Rightarrow> (bool \<times> 's) option" where
  "traverse_witnesses_forward unsat it e st =
     (if unsat then Some (True, st)
      else case extension e of [] \<Rightarrow> Some (True, st) | lit # s \<Rightarrow> traverse_ahead it st s)"

end
