(* ===== verification/Ext_Layout.thy ===== *)
theory Ext_Layout
  imports Ext_Stack
begin

text \<open>
  The layout of the reconstruction stack: what the push operations write is the encoding of a
  list of entries, and the traversals in both directions read these entries back.
\<close>

section \<open>Marks\<close>

lemma elit2ulit_l2u: "elit2ulit elit = l2u elit"
  by (simp add: elit2ulit_def l2u_def Let_def)

lemma marked_flagged: "elit \<noteq> 0 \<Longrightarrow> marked A elit \<longleftrightarrow> elit \<in> flagged A"
  by (auto simp: marked_def flagged_def elit2ulit_l2u Let_def)

lemma flagged_set: "l2u elit < length A \<Longrightarrow> elit \<noteq> 0 \<Longrightarrow> flagged (A[l2u elit := True]) = insert elit (flagged A)"
  by (auto simp: flagged_def nth_list_update l2u_inj)

lemma flagged_mark [simp]: "elit \<noteq> 0 \<Longrightarrow> flagged (mark elit A) = insert elit (flagged A)"
proof (cases "l2u elit < length A")
  case False
  assume nz: "elit \<noteq> 0"
  have "flagged ((resize (l2u elit + 1) False A)[l2u elit := True])
      = insert elit (flagged (resize (l2u elit + 1) False A))"
    by (rule flagged_set) (use nz in simp_all)
  then show ?thesis using False by (simp add: mark_def elit2ulit_l2u Let_def flagged_resize)
qed (simp add: mark_def elit2ulit_l2u Let_def flagged_set)

lemma flagged_Nil [simp]: "flagged [] = {}"
  by (simp add: flagged_def)

section \<open>Entries\<close>

text \<open>The witness, the id and the clause.\<close>

type_synonym entry = "int list \<times> 64 word \<times> int list"

fun encode_entry :: "entry \<Rightarrow> int list" where
  "encode_entry (w, n, c) = 0 # w @ 0 # sint (higher_bits n) # sint (lower_bits n) # 0 # c"

definition encode :: "entry list \<Rightarrow> int list" where
  "encode es = concat (map encode_entry es)"

lemma encode_simps [simp]:
  "encode [] = []"
  "encode (x # es) = encode_entry x @ encode es"
  "encode (es @ fs) = encode es @ encode fs"
  by (simp_all add: encode_def)

fun entry_ok :: "entry \<Rightarrow> bool" where
  "entry_ok (w, n, c) \<longleftrightarrow> 0 \<notin> set w \<and> 0 \<notin> set c"

text \<open>The id a reader gets for the id \<open>n\<close>.\<close>

definition stacked_id :: "64 word \<Rightarrow> 64 word" where
  "stacked_id n = stack_id (sint (higher_bits n)) (sint (lower_bits n))"

fun stored :: "entry \<Rightarrow> entry" where
  "stored (w, n, c) = (w, stacked_id n, c)"

lemma higher_bits_0: "higher_bits n = 0"
  by (rule bit_word_eqI) (simp add: higher_bits_def bit_simps)

lemma lower_bits_ucast: "lower_bits n = ucast n"
proof -
  have "push_bit 32 1 - 1 = (mask 32 :: 64 word)" by (simp add: mask_eq_decr_exp push_bit_eq_mult)
  then have "lower_bits n = ucast (take_bit 32 n)"
    by (simp add: lower_bits_def take_bit_eq_mask)
  also have "\<dots> = ucast n" by (rule bit_word_eqI) (auto simp: bit_simps)
  finally show ?thesis .
qed

lemma stacked_id_scast: "stacked_id n = scast (ucast n :: 32 word)"
  by (simp add: stacked_id_def stack_id_def higher_bits_0 lower_bits_ucast)

lemma sint_ucast_32: "sint (ucast (n :: 64 word) :: 32 word) = signed_take_bit 31 (sint n)"
  by transfer (simp add: signed_take_bit_take_bit)

text \<open>The id survives exactly when it fits into an \<open>int\<close>.\<close>

lemma stacked_id_iff: "stacked_id n = n \<longleftrightarrow> - (2 ^ 31) \<le> sint n \<and> sint n < 2 ^ 31"
proof -
  have "stacked_id n = n \<longleftrightarrow> sint (stacked_id n) = sint n" by (auto intro: signed_word_eqI)
  also have "sint (stacked_id n) = signed_take_bit 31 (sint n)"
    by (simp add: stacked_id_scast sint_ucast_32 sint_up_scast is_up)
  also have "signed_take_bit 31 (sint n) = sint n \<longleftrightarrow> - (2 ^ 31) \<le> sint n \<and> sint n < 2 ^ 31"
    using signed_take_bit_int_eq_self_iff [of 31 "sint n"] by simp
  finally show ?thesis .
qed

section \<open>Reading\<close>

lemma read_lits_append [simp]: "0 \<notin> set ls \<Longrightarrow> read_lits (ls @ 0 # r) = Some (ls, r)"
  by (induction ls) auto

lemma takeWhile_lits: "0 \<notin> set c \<Longrightarrow> takeWhile (\<lambda>l. l \<noteq> 0) (c @ r) = c @ takeWhile (\<lambda>l. l \<noteq> (0::int)) r"
  by (rule takeWhile_append2) auto

lemma dropWhile_lits: "0 \<notin> set c \<Longrightarrow> dropWhile (\<lambda>l. l \<noteq> 0) (c @ r) = dropWhile (\<lambda>l. l \<noteq> (0::int)) r"
  by (rule dropWhile_append2) auto

lemma encode_head: "takeWhile (\<lambda>l. l \<noteq> 0) (encode es) = []" "dropWhile (\<lambda>l. l \<noteq> 0) (encode es) = encode es"
proof -
  have "takeWhile (\<lambda>l. l \<noteq> 0) (encode es) = [] \<and> dropWhile (\<lambda>l. l \<noteq> 0) (encode es) = encode es"
    by (cases es) (auto simp: encode_def)
  then show "takeWhile (\<lambda>l. l \<noteq> 0) (encode es) = []" "dropWhile (\<lambda>l. l \<noteq> 0) (encode es) = encode es"
    by simp_all
qed

lemma read_ahead_encode:
  assumes "entry_ok x"
  shows "read_ahead (drop 1 (encode_entry x) @ encode es) = Some (stored x, drop 1 (encode es))"
proof -
  obtain w n c where x: "x = (w, n, c)" by (metis prod_cases3)
  show ?thesis
    using assms by (simp add: x takeWhile_lits dropWhile_lits encode_head stacked_id_def)
qed

lemma drop_encode: "drop 1 (encode es) = [] \<longleftrightarrow> es = []"
proof (cases es)
  case (Cons x fs)
  obtain w n c where "x = (w, n, c)" by (metis prod_cases3)
  then show ?thesis using Cons by simp
qed simp

lemma rev_encode_entry:
  "rev (encode_entry (w, n, c)) = rev c @ 0 # sint (lower_bits n) # sint (higher_bits n) # 0 # rev w @ [0]"
  by simp

lemma read_back_encode:
  assumes "entry_ok x"
  shows "read_back (rev (encode_entry x) @ r) = Some (stored x, r)"
proof -
  obtain w n c where x: "x = (w, n, c)" by (metis prod_cases3)
  show ?thesis using assms by (simp add: x stacked_id_def)
qed

text \<open>An iterator on a list of entries: it stops at the first entry it refuses.\<close>

fun visit :: "'s iterator \<Rightarrow> entry list \<Rightarrow> 's \<Rightarrow> bool \<times> 's" where
  "visit it [] st = (True, st)"
| "visit it ((w, n, c) # es) st = (let (go, st) = it c w n st in if go then visit it es st else (False, st))"

lemma traverse_ahead_encode:
  assumes "\<forall>x \<in> set (x # es). entry_ok x"
  shows "traverse_ahead it st (drop 1 (encode (x # es))) = Some (visit it (map stored (x # es)) st)"
  using assms
proof (induction es arbitrary: x st)
  case (Nil x)
  obtain w n c where s: "stored x = (w, n, c)" by (metis prod_cases3)
  have "read_ahead (drop 1 (encode [x])) = Some ((w, n, c), [])"
    using read_ahead_encode [of x "[]"] Nil s by simp
  then show ?case
    by (subst traverse_ahead.simps) (simp add: s split: prod.splits)
next
  case (Cons y ys)
  obtain w n c where s: "stored x = (w, n, c)" by (metis prod_cases3)
  have e: "drop 1 (encode (x # y # ys)) = drop 1 (encode_entry x) @ encode (y # ys)"
    by (cases x) simp
  have r: "read_ahead (drop 1 (encode (x # y # ys))) = Some ((w, n, c), drop 1 (encode (y # ys)))"
    unfolding e using read_ahead_encode [of x "y # ys"] Cons.prems s by simp
  have ne: "drop 1 (encode (y # ys)) \<noteq> []" using drop_encode by blast
  have IH: "traverse_ahead it st' (drop 1 (encode (y # ys))) = Some (visit it (map stored (y # ys)) st')" for st'
    by (rule Cons.IH) (use Cons.prems in simp)
  show ?case
    by (subst traverse_ahead.simps)
      (simp only: r option.case prod.case ne if_False list.map s visit.simps IH [simplified list.map]
        Let_def split: prod.splits, simp)
qed

lemma traverse_back_encode:
  assumes "\<forall>x \<in> set es. entry_ok x"
  shows "traverse_back it st (rev (encode es)) = Some (visit it (rev (map stored es)) st)"
  using assms
proof (induction es arbitrary: st rule: rev_induct)
  case Nil
  then show ?case by (simp add: traverse_back.simps)
next
  case (snoc x es)
  obtain w n c where s: "stored x = (w, n, c)" by (metis prod_cases3)
  have r: "read_back (rev (encode (es @ [x]))) = Some ((w, n, c), rev (encode es))"
    using read_back_encode [of x "rev (encode es)"] snoc.prems s by (simp del: read_back.simps)
  have ne: "rev (encode (es @ [x])) \<noteq> []" by (cases x) simp
  have IH: "traverse_back it st' (rev (encode es)) = Some (visit it (rev (map stored es)) st')" for st'
    by (rule snoc.IH) (use snoc.prems in simp)
  show ?case
    by (subst traverse_back.simps)
      (simp only: r option.case prod.case ne if_False IH Let_def, simp add: s split: prod.splits)
qed

section \<open>Pushing\<close>

datatype push_op =
  Push_clause clause int
| Push_binary "64 word" int int
| Push_external "int list" "int list" "64 word"

fun push_step :: "options \<Rightarrow> push_op \<Rightarrow> external \<Rightarrow> external" where
  "push_step opts (Push_clause c pivot) = push_clause_on_extension_stack c pivot"
| "push_step opts (Push_binary n pivot other) = push_binary_clause_on_extension_stack n pivot other"
| "push_step opts (Push_external c w n) = push_external_clause_and_witness_on_extension_stack opts c w n"

text \<open>The entry an operation stacks: internal literals are those of the current mapping.\<close>

fun op_entry :: "external \<Rightarrow> push_op \<Rightarrow> entry" where
  "op_entry e (Push_clause c pivot) = ([externalize e pivot], cid c, map (externalize e) (clits c))"
| "op_entry e (Push_binary n pivot other) = ([externalize e pivot], n, map (externalize e) [pivot, other])"
| "op_entry e (Push_external c w n) = (w, n, c)"

fun op_entries :: "options \<Rightarrow> push_op list \<Rightarrow> external \<Rightarrow> entry list" where
  "op_entries opts [] e = []"
| "op_entries opts (p # ps) e = op_entry e p # op_entries opts ps (push_step opts p e)"

lemma push_simps [simp]:
  "extension (push_back x e) = extension e @ [x]"
  "internal (push_back x e) = internal e"
  "i2e (internal (push_clause_literal l e)) = i2e (internal e)"
  "extension (push_clause_literal l e) = extension e @ [externalize e l]"
  "i2e (internal (push_witness_literal l e)) = i2e (internal e)"
  "extension (push_witness_literal l e) = extension e @ [externalize e l]"
  "extension (push_zero e) = extension e @ [0]"
  "internal (push_zero e) = internal e"
  "extension (push_id n e) = extension e @ [sint (higher_bits n), sint (lower_bits n)]"
  "internal (push_id n e) = internal e"
  "extension (count_weakened k e) = extension e"
  "i2e (internal (count_weakened k e)) = i2e (internal e)"
  by (simp_all add: push_back_def push_clause_literal_def push_witness_literal_def push_zero_def push_id_def
      count_weakened_def taint_factored_def Let_def)

lemma externalize_cong: "i2e (internal e) = i2e (internal e') \<Longrightarrow> externalize e = externalize e'"
  by (simp add: externalize_def fun_eq_iff Let_def)

lemma push_literals:
  "extension (fold push_clause_literal ls e) = extension e @ map (externalize e) ls
     \<and> i2e (internal (fold push_clause_literal ls e)) = i2e (internal e)"
proof (induction ls arbitrary: e)
  case (Cons l ls)
  have "externalize (push_clause_literal l e) = externalize e" by (rule externalize_cong) simp
  then show ?case using Cons.IH [of "push_clause_literal l e"] by simp
qed simp

lemma init_extension [simp]: "extension (init opts n e) = extension e"
proof -
  have first: "extension (first_slot e) = extension e" for e by (simp add: first_slot_def)
  have maps: "extension (fold map_variable ks e) = extension e" for ks e
    by (induction ks arbitrary: e) (auto simp: map_variable_def)
  show ?thesis by (simp add: init_def Let_def first maps enlarge_def)
qed

lemma push_external_literals:
  "extension (fold (push_external_literal opts) ls e) = extension e @ ls"
  "extension (fold (push_external_witness opts) ls e) = extension e @ ls"
  by (induction ls arbitrary: e) (simp_all add: push_external_literal_def push_external_witness_def Let_def)

lemma push_step_extension: "extension (push_step opts p e) = extension e @ encode_entry (op_entry e p)"
proof (cases p)
  case (Push_clause c pivot)
  let ?e = "push_zero (push_id (cid c) (push_zero (count_weakened (length (clits c)) (push_witness_literal pivot (push_zero e)))))"
  have "externalize ?e = externalize e" "externalize (push_zero e) = externalize e"
    by (rule externalize_cong, simp)+
  then show ?thesis
    using push_literals [of "clits c" ?e]
    by (simp add: Push_clause push_clause_on_extension_stack_def push_clause_def)
next
  case (Push_binary n pivot other)
  let ?w = "push_zero (count_weakened 2 e)"
  let ?e = "push_zero (push_id n (push_zero (push_witness_literal pivot ?w)))"
  have "externalize ?e = externalize e" "externalize ?w = externalize e"
    "externalize (push_clause_literal pivot ?e) = externalize e"
    by (rule externalize_cong, simp)+
  then show ?thesis
    by (simp add: Push_binary push_binary_clause_on_extension_stack_def)
next
  case (Push_external c w n)
  then show ?thesis
    by (simp add: push_external_clause_and_witness_on_extension_stack_def push_external_literals)
qed

lemma pushes_extension:
  "extension (fold (push_step opts) ps e) = extension e @ encode (op_entries opts ps e)"
  by (induction ps arbitrary: e) (simp_all add: push_step_extension)

section \<open>Round trip\<close>

lemma traverse_forward_encode:
  "extension e = encode es \<Longrightarrow> \<forall>x \<in> set es. entry_ok x \<Longrightarrow>
   traverse_witnesses_forward False it e st = Some (visit it (map stored es) st)"
proof (cases es)
  case (Cons x xs)
  assume e: "extension e = encode es" and ok: "\<forall>x \<in> set es. entry_ok x"
  obtain s where s: "encode (x # xs) = 0 # s" by (cases x) simp
  have "traverse_ahead it st (drop 1 (encode (x # xs))) = Some (visit it (map stored (x # xs)) st)"
    by (rule traverse_ahead_encode) (use ok Cons in simp)
  moreover have "drop 1 (encode (x # xs)) = s" unfolding s by simp
  ultimately have "traverse_ahead it st s = Some (visit it (map stored (x # xs)) st)" by simp
  then show ?thesis using e s by (simp add: traverse_witnesses_forward_def Cons)
qed (simp add: traverse_witnesses_forward_def)

lemma traverse_backward_encode:
  "extension e = encode es \<Longrightarrow> \<forall>x \<in> set es. entry_ok x \<Longrightarrow>
   traverse_witnesses_backward False it e st = Some (visit it (rev (map stored es)) st)"
  by (simp add: traverse_witnesses_backward_def traverse_back_encode)

end
