(* ===== verification/Ext_Extend.thy ===== *)
theory Ext_Extend
  imports Ext_Layout
begin

text \<open>
  Extending an assignment over the reconstruction stack: \<open>External::extend\<close> and
  \<open>External::conclude_sat\<close> of \<open>extend.cpp\<close>. The values of the internal solver and its proof
  are parameters.
\<close>

section \<open>The loop\<close>

text \<open>One round of the first loop of \<open>extend\<close>.\<close>

definition store_value :: "(int \<Rightarrow> int) \<Rightarrow> int list \<Rightarrow> nat \<Rightarrow> bool list \<Rightarrow> bool list" where
  "store_value val em i vs =
     (let ilit = em ! i
      in if ilit = 0 then vs
         else let vs = (if i \<ge> length vs then resize (i + 1) False vs else vs)
              in vs[i := 0 < val ilit])"

text \<open>
  The scan of a clause, as \<open>read_lits\<close> with the flag \<open>satisfied\<close>, and the flipping of its
  witness literals. The entries behind the iterator are a list, as in \<open>read_back\<close>.
\<close>

fun scan_clause :: "(int \<Rightarrow> int) \<Rightarrow> bool \<Rightarrow> int list \<Rightarrow> (bool \<times> int list) option" where
  "scan_clause value satisfied [] = None"
| "scan_clause value satisfied (l # r) =
     (if l = 0 then Some (satisfied, r) else scan_clause value (satisfied \<or> value l = l) r)"

definition flip_value :: "nat \<Rightarrow> int \<Rightarrow> bool list \<Rightarrow> bool list" where
  "flip_value m lit vs =
     (if ival m vs lit \<noteq> lit
      then let idx = nat \<bar>lit\<bar>;
               vs = (if idx \<ge> length vs then resize (idx + 1) False vs else vs)
           in upd_nth vs idx Not
      else vs)"

fun flip_witness :: "nat \<Rightarrow> bool list \<Rightarrow> int list \<Rightarrow> (bool list \<times> int list) option" where
  "flip_witness m vs [] = None"
| "flip_witness m vs (l # r) = (if l = 0 then Some (vs, r) else flip_witness m (flip_value m l vs) r)"

fun extend_entry :: "nat \<Rightarrow> bool list \<Rightarrow> int list \<Rightarrow> (bool list \<times> int list) option" where
  "extend_entry m vs s =
     (case scan_clause (ival m vs) False s of
        Some (satisfied, lo # hi # z # r) \<Rightarrow>
          (if satisfied
           then (case read_lits r of Some (w, r) \<Rightarrow> Some (vs, r) | None \<Rightarrow> None)
           else flip_witness m vs r)
      | _ \<Rightarrow> None)"

lemma scan_clause_read: "scan_clause v b s = Some (c, r) \<Longrightarrow> \<exists>ls. read_lits s = Some (ls, r)"
  by (induction v b s rule: scan_clause.induct) (auto split: if_splits)

lemma flip_witness_read: "flip_witness m vs s = Some (us, r) \<Longrightarrow> \<exists>ls. read_lits s = Some (ls, r)"
  by (induction m vs s rule: flip_witness.induct) (auto split: if_splits)

lemma extend_entry_length: "extend_entry m vs s = Some (us, r) \<Longrightarrow> length r < length s"
  by (auto split: option.splits list.splits if_splits dest!: scan_clause_read flip_witness_read read_lits_length)

function extend_loop :: "nat \<Rightarrow> bool list \<Rightarrow> int list \<Rightarrow> bool list option" where
  "extend_loop m vs s =
     (if s = [] then Some vs
      else case extend_entry m vs s of None \<Rightarrow> None | Some (us, r) \<Rightarrow> extend_loop m us r)"
  by pat_completeness auto
termination
  by (relation "measure (\<lambda>(m, vs, s). length s)") (auto simp del: extend_entry.simps dest: extend_entry_length)

declare extend_loop.simps [simp del]

definition stored_values :: "(int \<Rightarrow> int) \<Rightarrow> external \<Rightarrow> bool list" where
  "stored_values val e = fold (store_value val (e2i e)) [1..<max_var e + 1] (vals e)"

definition extend :: "(int \<Rightarrow> int) \<Rightarrow> external \<Rightarrow> external option" where
  "extend val e =
     (case extend_loop (max_var e) (stored_values val e) (rev (extension e)) of
        None \<Rightarrow> None
      | Some vs \<Rightarrow> Some (e\<lparr>vals := vs, extended := True\<rparr>))"

text \<open>The model the proof is concluded with, \<open>None\<close> without a call.\<close>

definition conclude_sat :: "bool \<Rightarrow> (int \<Rightarrow> int) \<Rightarrow> external \<Rightarrow> (external \<times> int list option) option" where
  "conclude_sat proof val e =
     (if \<not> proof \<or> concluded e then Some (e, None)
      else let e = e\<lparr>concluded := True\<rparr>
           in case (if extended e then Some e else extend val e) of
                None \<Rightarrow> None
              | Some e \<Rightarrow>
                  Some (e, Some (map (\<lambda>idx. ival (max_var e) (vals e) (int idx))
                    (filter (\<lambda>idx. \<not> ervars e ! idx) [1..<max_var e + 1]))))"

section \<open>Reconstruction\<close>

text \<open>The assignment \<open>ival\<close> reads, and the reconstruction of an assignment from entries.\<close>

definition assignment :: "nat \<Rightarrow> bool list \<Rightarrow> int \<Rightarrow> bool" where
  "assignment m vs v \<longleftrightarrow> 0 < v \<and> nat v \<le> m \<and> nat v < length vs \<and> vs ! nat v"

definition satisfy :: "int list \<Rightarrow> (int \<Rightarrow> bool) \<Rightarrow> int \<Rightarrow> bool" where
  "satisfy w \<sigma> = fold make_true (rev w) \<sigma>"

fun repair :: "entry \<Rightarrow> (int \<Rightarrow> bool) \<Rightarrow> int \<Rightarrow> bool" where
  "repair (w, n, c) \<sigma> = (if clause_true \<sigma> c then \<sigma> else satisfy w \<sigma>)"

definition reconstruct :: "entry list \<Rightarrow> (int \<Rightarrow> bool) \<Rightarrow> int \<Rightarrow> bool" where
  "reconstruct es \<sigma> = fold repair (rev es) \<sigma>"

fun entry_vars :: "nat \<Rightarrow> entry \<Rightarrow> bool" where
  "entry_vars m (w, n, c) \<longleftrightarrow> (\<forall>l \<in> set w. nat \<bar>l\<bar> \<le> m)"

lemma ival_true: "l \<noteq> 0 \<Longrightarrow> ival m vs l = l \<longleftrightarrow> lit_true (assignment m vs) l"
  by (auto simp: ival_def lit_true_def assignment_def Let_def)

lemma assignment_resize: "length vs \<le> k \<Longrightarrow> assignment m (resize k False vs) = assignment m vs"
proof -
  assume k: "length vs \<le> k"
  have "nat v < k \<and> resize k False vs ! nat v \<longleftrightarrow> nat v < length vs \<and> vs ! nat v" for v
    using k by (cases "nat v < length vs") (auto simp: nth_resize_old nth_resize_new not_less)
  then show ?thesis by (auto simp: assignment_def fun_eq_iff)
qed

lemma assignment_upd:
  assumes "0 < i" "i \<le> m" "i < length vs"
  shows "assignment m (vs[i := b]) = (assignment m vs)(int i := b)"
proof
  fix v
  show "assignment m (vs[i := b]) v = ((assignment m vs)(int i := b)) v"
  proof (cases "v = int i")
    case False
    then have "nat v \<noteq> i" if "0 < v" using that by auto
    then show ?thesis using False by (auto simp: assignment_def)
  qed (use assms in \<open>simp add: assignment_def\<close>)
qed

lemma assignment_flip:
  assumes "l \<noteq> 0" "nat \<bar>l\<bar> \<le> m"
  shows "assignment m (flip_value m l vs) = make_true l (assignment m vs)"
proof (cases "lit_true (assignment m vs) l")
  case True
  then have "make_true l (assignment m vs) = assignment m vs"
    using assms(1) by (auto simp: make_true_def lit_true_def fun_eq_iff assignment_def split: if_splits)
  then show ?thesis using True assms(1) by (simp add: flip_value_def ival_true)
next
  case False
  define us where "us = (if nat \<bar>l\<bar> \<ge> length vs then resize (nat \<bar>l\<bar> + 1) False vs else vs)"
  have us: "assignment m us = assignment m vs" "nat \<bar>l\<bar> < length us"
    by (simp_all add: us_def assignment_resize)
  have fl: "flip_value m l vs = us[nat \<bar>l\<bar> := \<not> us ! nat \<bar>l\<bar>]"
    using False assms(1) by (simp add: flip_value_def ival_true us_def upd_nth_def Let_def)
  have "us ! nat \<bar>l\<bar> = assignment m us \<bar>l\<bar>" using us(2) assms by (simp add: assignment_def)
  then have "(\<not> us ! nat \<bar>l\<bar>) = (0 < l)" using False assms(1) us(1) by (auto simp: lit_true_def split: if_splits)
  then show ?thesis
    unfolding fl using assms us by (subst assignment_upd) (simp_all add: make_true_def)
qed

lemma scan_clause_append:
  assumes "0 \<notin> set c"
  shows "scan_clause (ival m vs) b (c @ 0 # r) = Some (b \<or> clause_true (assignment m vs) c, r)"
  using assms by (induction c arbitrary: b) (auto simp: ival_true clause_true_def)

lemma flip_witness_append:
  assumes "0 \<notin> set w" "\<forall>l \<in> set w. nat \<bar>l\<bar> \<le> m"
  shows "\<exists>us. flip_witness m vs (w @ 0 # r) = Some (us, r)
    \<and> assignment m us = fold make_true w (assignment m vs)"
  using assms
proof (induction w arbitrary: vs)
  case (Cons l w)
  then show ?case using Cons.IH [of "flip_value m l vs"] by (auto simp: assignment_flip)
qed simp

lemma clause_true_rev [simp]: "clause_true \<sigma> (rev c) = clause_true \<sigma> c"
  by (simp add: clause_true_def)

lemma extend_entry_encode:
  assumes "entry_ok x" "entry_vars m x"
  shows "\<exists>us. extend_entry m vs (rev (encode_entry x) @ r) = Some (us, r)
    \<and> assignment m us = repair x (assignment m vs)"
proof -
  obtain w n c where x: "x = (w, n, c)" by (metis prod_cases3)
  have ok: "0 \<notin> set (rev c)" "0 \<notin> set (rev w)" "\<forall>l \<in> set (rev w). nat \<bar>l\<bar> \<le> m"
    using assms by (simp_all add: x)
  obtain us where us: "flip_witness m vs (rev w @ 0 # r) = Some (us, r)"
    "assignment m us = fold make_true (rev w) (assignment m vs)"
    using flip_witness_append [OF ok(2,3)] by blast
  show ?thesis
    using us ok by (simp add: x scan_clause_append satisfy_def)
qed

lemma extend_loop_encode:
  assumes "\<forall>x \<in> set es. entry_ok x \<and> entry_vars m x"
  shows "\<exists>us. extend_loop m vs (rev (encode es)) = Some us
    \<and> assignment m us = reconstruct es (assignment m vs)"
  using assms
proof (induction es arbitrary: vs rule: rev_induct)
  case Nil
  then show ?case by (simp add: extend_loop.simps reconstruct_def)
next
  case (snoc x es)
  obtain us where us: "extend_entry m vs (rev (encode_entry x) @ rev (encode es)) = Some (us, rev (encode es))"
    "assignment m us = repair x (assignment m vs)"
    using extend_entry_encode [of x m vs "rev (encode es)"] snoc.prems by auto
  have e: "rev (encode (es @ [x])) = rev (encode_entry x) @ rev (encode es)" by simp
  have ne: "rev (encode (es @ [x])) \<noteq> []" by (cases x) simp
  obtain ws where ws: "extend_loop m us (rev (encode es)) = Some ws"
    "assignment m ws = reconstruct es (assignment m us)"
    using snoc.IH [of us] snoc.prems by auto
  have "extend_loop m vs (rev (encode (es @ [x]))) = Some ws"
    by (subst extend_loop.simps, subst if_not_P [OF ne]) (simp only: e us(1) option.case prod.case ws(1))
  then show ?case using ws(2) us(2) by (simp add: reconstruct_def)
qed

section \<open>Redundant entries\<close>

text \<open>
  An entry is redundant with respect to clauses \<open>G\<close> when a model of \<open>G\<close> that falsifies its
  clause still models \<open>G\<close>, and the clause, once the witness is made true. Each stacked entry
  must be so for the clauses of the formula and those stacked after it.
\<close>

fun redundant :: "int list set \<Rightarrow> entry \<Rightarrow> bool" where
  "redundant G (w, n, c) \<longleftrightarrow>
     (\<forall>\<sigma>. models \<sigma> G \<and> \<not> clause_true \<sigma> c \<longrightarrow> models (satisfy w \<sigma>) (insert c G))"

definition entry_clause :: "entry \<Rightarrow> int list" where
  "entry_clause x = snd (snd x)"

fun redundant_stack :: "int list set \<Rightarrow> entry list \<Rightarrow> bool" where
  "redundant_stack F [] \<longleftrightarrow> True"
| "redundant_stack F (x # es) \<longleftrightarrow> redundant (F \<union> entry_clause ` set es) x \<and> redundant_stack F es"

lemma redundant_repair:
  assumes "redundant G x" "models \<sigma> G"
  shows "models (repair x \<sigma>) (insert (entry_clause x) G)"
proof -
  obtain w n c where x: "x = (w, n, c)" by (metis prod_cases3)
  show ?thesis using assms by (simp add: x entry_clause_def del: models_insert) (simp add: assms(2))
qed

lemma reconstruct_models:
  "redundant_stack F es \<Longrightarrow> models \<sigma> F \<Longrightarrow> models (reconstruct es \<sigma>) (F \<union> entry_clause ` set es)"
proof (induction es)
  case (Cons x es)
  have "models (reconstruct es \<sigma>) (F \<union> entry_clause ` set es)" using Cons by simp
  then have "models (repair x (reconstruct es \<sigma>)) (insert (entry_clause x) (F \<union> entry_clause ` set es))"
    using Cons.prems(1) by (intro redundant_repair) simp_all
  moreover have "reconstruct (x # es) \<sigma> = repair x (reconstruct es \<sigma>)" by (simp add: reconstruct_def)
  ultimately show ?case by simp
qed (simp add: reconstruct_def)

text \<open>A clause blocked on its witness literal is redundant.\<close>

lemma blocked_redundant:
  assumes "l \<in> set c" "0 \<notin> set c" "\<forall>d \<in> G. 0 \<notin> set d"
    and "\<forall>d \<in> G. - l \<in> set d \<longrightarrow> (\<exists>k \<in> set c. k \<noteq> l \<and> - k \<in> set d)"
  shows "redundant G ([l], n, c)"
  using assms(4) blocked_models [OF assms(1-3)] by (simp add: satisfy_def)

lemma extend_models:
  assumes "extension e = encode es" "\<forall>x \<in> set es. entry_ok x \<and> entry_vars (max_var e) x"
    and "models (assignment (max_var e) (stored_values val e)) F" "redundant_stack F es"
  shows "\<exists>us. extend val e = Some (e\<lparr>vals := us, extended := True\<rparr>)
    \<and> models (assignment (max_var e) us) (F \<union> entry_clause ` set es)"
proof -
  obtain us where "extend_loop (max_var e) (stored_values val e) (rev (encode es)) = Some us"
    "assignment (max_var e) us = reconstruct es (assignment (max_var e) (stored_values val e))"
    using extend_loop_encode [OF assms(2)] by blast
  then show ?thesis
    using reconstruct_models [OF assms(4,3)] by (intro exI [of _ us]) (simp add: extend_def assms(1))
qed

text \<open>\<open>ival\<close> is the literal of its variable that is true.\<close>

lemma nat_ival: "nat \<bar>ival m vs (int i)\<bar> = i"
  by (simp add: ival_def Let_def)

lemma lit_true_ival: "0 < i \<Longrightarrow> lit_true (assignment m vs) (ival m vs (int i))"
  by (auto simp: ival_def lit_true_def assignment_def Let_def)

end
