(* ===== verification/Ext_Restore.thy ===== *)
theory Ext_Restore
  imports Ext_Layout
begin

text \<open>
  Restoring weakened clauses: \<open>External::internalize\<close> of \<open>external.cpp\<close>, \<open>External::fixed\<close> of
  \<open>internal.hpp\<close> and \<open>restore.cpp\<close>. \<open>internal->fixed\<close> is a function of the calls the internal
  solver has received. \<open>FATAL\<close> is \<open>None\<close>.
\<close>

section \<open>Internalizing\<close>

text \<open>\<open>mark_active\<close> for an unused variable, \<open>reactivate\<close> for one that is neither active nor fixed.\<close>

definition activate :: "nat \<Rightarrow> internal \<Rightarrow> internal" where
  "activate i n = (if status (ftab n ! i) \<noteq> ACTIVE \<and> status (ftab n ! i) \<noteq> FIXED
     then n\<lparr>ftab := upd_nth (ftab n) i (\<lambda>f. f\<lparr>status := ACTIVE\<rparr>)\<rparr> else n)"

text \<open>A variable that lost its internal one in \<open>compact\<close> gets a new one.\<close>

definition fresh_internal :: "nat \<Rightarrow> external \<Rightarrow> external" where
  "fresh_internal eidx e =
     (if e2i e ! eidx = 0
      then let ilit = imax_var (internal e) + 1; n = init_vars ilit (internal e)
           in e\<lparr>e2i := (e2i e)[eidx := int ilit], internal := n\<lparr>i2e := i2e n @ [int eidx]\<rparr>\<rparr>
      else e)"

definition taint :: "int \<Rightarrow> external \<Rightarrow> external" where
  "taint elit e = (if \<not> marked (tainted e) elit \<and> marked (witness e) (- elit)
     then e\<lparr>tainted := mark elit (tainted e)\<rparr> else e)"

definition known :: "options \<Rightarrow> bool \<Rightarrow> nat \<Rightarrow> external \<Rightarrow> external" where
  "known opts ext eidx e =
     (let e = init opts eidx e
      in fresh_internal eidx (if ext then e\<lparr>ervars := (ervars e)[eidx := True]\<rparr> else e))"

definition internalize :: "options \<Rightarrow> bool \<Rightarrow> int \<Rightarrow> external \<Rightarrow> (external \<times> int) option" where
  "internalize opts ext elit e =
     (if elit = 0 then Some (e, 0)
      else let eidx = nat \<bar>elit\<bar>
           in if ext \<and> eidx \<le> max_var e then None
              else let e = known opts ext eidx e;
                       ilit = (if elit < 0 then - (e2i e ! eidx) else e2i e ! eidx)
                   in if checkfrozen opts \<and> moltentab e ! eidx then None
                      else Some (taint elit (e\<lparr>internal := activate (nat \<bar>ilit\<bar>) (internal e)\<rparr>), ilit))"

section \<open>Restoring one clause\<close>

definition tell :: "internal_call \<Rightarrow> external \<Rightarrow> external" where
  "tell c e = e\<lparr>internal := (internal e)\<lparr>calls := calls (internal e) @ [c]\<rparr>\<rparr>"

text \<open>The unit that falsifies the literal, for the LRAT chain.\<close>

definition chain_unit :: "int \<Rightarrow> external \<Rightarrow> external" where
  "chain_unit elit e =
     (let eidx = (if 0 < elit then 1 else 0) + 2 * nat \<bar>elit\<bar>; n = ext_units e ! eidx
      in if n \<noteq> 0 \<and> \<not> ext_flags e ! nat \<bar>elit\<bar>
         then tell (Lrat_chain_push_back n) (e\<lparr>ext_flags := (ext_flags e)[nat \<bar>elit\<bar> := True]\<rparr>)
         else e)"

definition restore_literal :: "options \<Rightarrow> int \<Rightarrow> external \<Rightarrow> external option" where
  "restore_literal opts elit e =
     (let e = e\<lparr>eclause := eclause e @ [elit]\<rparr>;
          e = (if proof_lrat opts then chain_unit elit e else e)
      in case internalize opts False elit e of
           None \<Rightarrow> None
         | Some (e, ilit) \<Rightarrow> Some (tell (Add_original_lit ilit) e))"

fun restore_literals :: "options \<Rightarrow> int list \<Rightarrow> external \<Rightarrow> external option" where
  "restore_literals opts [] e = Some e"
| "restore_literals opts (l # ls) e =
     (case restore_literal opts l e of None \<Rightarrow> None | Some e \<Rightarrow> restore_literals opts ls e)"

definition finish_restored :: "options \<Rightarrow> 64 word \<Rightarrow> external \<Rightarrow> external" where
  "finish_restored opts n e =
     (let e = (if proof_lrat opts
               then e\<lparr>ext_flags := fold (\<lambda>l fs. fs[nat \<bar>l\<bar> := False]) (eclause e) (ext_flags e)\<rparr> else e)
      in (tell (Finish_added_clause_with_id n True) e)\<lparr>eclause := []\<rparr>)"

definition restore_clause :: "options \<Rightarrow> int list \<Rightarrow> 64 word \<Rightarrow> external \<Rightarrow> external option" where
  "restore_clause opts c n e =
     (case restore_literals opts c e of None \<Rightarrow> None | Some e \<Rightarrow> Some (finish_restored opts n e))"

section \<open>Restoring all\<close>

definition fixed :: "(internal_call list \<Rightarrow> int \<Rightarrow> int) \<Rightarrow> external \<Rightarrow> int \<Rightarrow> int" where
  "fixed ifixed e elit =
     (let eidx = nat \<bar>elit\<bar>
      in if eidx > max_var e then 0
         else let ilit = e2i e ! eidx
              in if ilit = 0 then 0
                 else ifixed (calls (internal e)) (if elit < 0 then - ilit else ilit))"

text \<open>
  The scan of a witness finds the last literal with a tainted negation, the scan of a clause
  the first literal fixed to true; both are 0 when there is none.
\<close>

fun tainted_lit :: "external \<Rightarrow> int list \<Rightarrow> int" where
  "tainted_lit e w = fold (\<lambda>elit tlit. if marked (tainted e) (- elit) then elit else tlit) w 0"

fun satisfied_lit :: "(int \<Rightarrow> int) \<Rightarrow> int list \<Rightarrow> int" where
  "satisfied_lit f [] = 0"
| "satisfied_lit f (l # c) = (if 0 < f l then l else satisfied_lit f c)"

text \<open>
  One entry: the entries kept so far are those before \<open>q\<close>, the entries ahead those from \<open>p\<close>.
  As \<open>q\<close> never overtakes \<open>p\<close>, the copying within the vector does not change what is ahead.
\<close>

definition restore_entry :: "options \<Rightarrow> (internal_call list \<Rightarrow> int \<Rightarrow> int) \<Rightarrow> external \<Rightarrow> int list \<Rightarrow> int list \<Rightarrow>
    (external \<times> int list \<times> int list) option" where
  "restore_entry opts ifixed e q p =
     (case read_lits (tl p) of
        Some (w, hi # lo # z # r) \<Rightarrow>
          (let tlit = tainted_lit e w;
               n = stack_id hi lo;
               c = takeWhile (\<lambda>l. l \<noteq> 0) r;
               r = dropWhile (\<lambda>l. l \<noteq> 0) r;
               satisfied = (if restoreflush opts then satisfied_lit (fixed ifixed e) c else 0)
           in if satisfied \<noteq> 0 then Some (e, q, r)
              else if tlit \<noteq> 0 \<or> restoreall opts \<noteq> 0
              then (case restore_clause opts c n e of None \<Rightarrow> None | Some e \<Rightarrow> Some (e, q, r))
              else Some (e, q @ hd p # w @ [0, hi, lo, z] @ c, r))
      | _ \<Rightarrow> None)"

lemma restore_entry_length:
  assumes "restore_entry opts ifixed e q p = Some (e', q', p')"
  shows "length p' < length p"
proof -
  obtain w hi lo z r where w: "read_lits (tl p) = Some (w, hi # lo # z # r)"
    using assms by (auto simp: restore_entry_def split: option.splits list.splits)
  then have p': "p' = dropWhile (\<lambda>l. l \<noteq> 0) r"
    using assms by (auto simp: restore_entry_def Let_def split: option.splits if_splits)
  have "length p' \<le> length r" unfolding p' by (rule length_dropWhile_le)
  then show ?thesis using read_lits_length [OF w] by simp
qed

function restore_loop :: "options \<Rightarrow> (internal_call list \<Rightarrow> int \<Rightarrow> int) \<Rightarrow> external \<Rightarrow> int list \<Rightarrow> int list \<Rightarrow>
    (external \<times> int list) option" where
  "restore_loop opts ifixed e q p =
     (if p = [] then Some (e, q)
      else case restore_entry opts ifixed e q p of
        None \<Rightarrow> None
      | Some (e, q, p) \<Rightarrow> restore_loop opts ifixed e q p)"
  by pat_completeness auto
termination
  by (relation "measure (\<lambda>(opts, ifixed, e, q, p). length p)") (auto dest: restore_entry_length)

declare restore_loop.simps [simp del]

text \<open>The witness bits are recomputed backward over the stack.\<close>

function witness_bits :: "bool list \<Rightarrow> int list \<Rightarrow> bool list option" where
  "witness_bits A s =
     (if s = [] then Some A
      else case read_back s of
        None \<Rightarrow> None
      | Some ((w, n, c), r) \<Rightarrow> witness_bits (fold mark (rev w) A) r)"
  by pat_completeness auto
termination
  by (relation "measure (\<lambda>(A, s). length s)") (auto simp del: read_back.simps dest: read_back_length)

declare witness_bits.simps [simp del]

definition restore_clauses :: "options \<Rightarrow> (internal_call list \<Rightarrow> int \<Rightarrow> int) \<Rightarrow> external \<Rightarrow> external option" where
  "restore_clauses opts ifixed e =
     (case restore_loop opts ifixed e [] (extension e) of
        None \<Rightarrow> None
      | Some (e, q) \<Rightarrow>
          (let e = e\<lparr>extension := q, tainted := []\<rparr>
           in case witness_bits [] (rev q) of
                None \<Rightarrow> None
              | Some A \<Rightarrow> Some (e\<lparr>witness := A\<rparr>)))"

end
