(* ===== verification/Ext_Fates.thy ===== *)
theory Ext_Fates
  imports Ext_Restore
begin

text \<open>
  What restoring does to each entry of the reconstruction stack, as a function of the literals
  tainted so far, and that \<open>restore_clauses\<close> implements it.
\<close>

section \<open>Fates\<close>

datatype fate = Kept | Flushed | Restored

type_synonym fated = "(entry \<times> fate) list"

definition kept :: "fated \<Rightarrow> entry list" where
  "kept ds = map fst (filter (\<lambda>(x, d). d = Kept) ds)"

definition restored :: "fated \<Rightarrow> entry list" where
  "restored ds = map fst (filter (\<lambda>(x, d). d = Restored) ds)"

lemma kept_simps [simp]:
  "kept [] = []" "kept ((x, d) # ds) = (if d = Kept then x # kept ds else kept ds)"
  "restored [] = []" "restored ((x, d) # ds) = (if d = Restored then x # restored ds else restored ds)"
  by (simp_all add: kept_def restored_def)

text \<open>
  The tainted literals \<open>T\<close> hit a witness when they contain the negation of one of its literals. A
  clause is flushable when the option \<open>restoreflush\<close> is set and the internal solver has fixed one of
  its literals to true.
\<close>

definition hit :: "int set \<Rightarrow> int list \<Rightarrow> bool" where
  "hit T w = list_ex (\<lambda>l. - l \<in> T) w"

definition flushable :: "options \<Rightarrow> (internal_call list \<Rightarrow> int \<Rightarrow> int) \<Rightarrow> external \<Rightarrow> int list \<Rightarrow> bool" where
  "flushable opts ifixed e c \<longleftrightarrow> restoreflush opts \<and> list_ex (\<lambda>l. 0 < fixed ifixed e l) c"

text \<open>
  The fate of every entry from the state \<open>e\<close> on, which ends in \<open>f\<close>: flushable entries are flushed; of the others
  those that are hit are restored, or all of them with \<open>restoreall\<close>, and their literals count as
  tainted from then on; the rest is kept.
\<close>

fun fates :: "options \<Rightarrow> (internal_call list \<Rightarrow> int \<Rightarrow> int) \<Rightarrow> external \<Rightarrow> int set \<Rightarrow> fated \<Rightarrow> external \<Rightarrow> bool" where
  "fates opts ifixed e T [] f \<longleftrightarrow> f = e"
| "fates opts ifixed e T (((w, n, c), Flushed) # ds) f \<longleftrightarrow> flushable opts ifixed e c \<and> fates opts ifixed e T ds f"
| "fates opts ifixed e T (((w, n, c), Kept) # ds) f \<longleftrightarrow>
     \<not> flushable opts ifixed e c \<and> restoreall opts = 0 \<and> \<not> hit T w \<and> fates opts ifixed e T ds f"
| "fates opts ifixed e T (((w, n, c), Restored) # ds) f \<longleftrightarrow>
     \<not> flushable opts ifixed e c \<and> (restoreall opts \<noteq> 0 \<or> hit T w) \<and>
     (case restore_clause opts c (stacked_id n) e of
        None \<Rightarrow> False
      | Some g \<Rightarrow> fates opts ifixed g (T \<union> set c) ds f)"

section \<open>Restoring one clause\<close>

text \<open>The parts of the state the argument is about.\<close>

definition same_marks :: "external \<Rightarrow> external \<Rightarrow> bool" where
  "same_marks e e' \<longleftrightarrow> witness e' = witness e \<and> tainted e' = tainted e"

lemma same_marksD:
  assumes "same_marks e e'"
  shows "witness e' = witness e" "tainted e' = tainted e"
  using assms by (simp_all add: same_marks_def)

lemma init_vars_calls [simp]: "calls (init_vars n i) = calls i"
  by (simp add: init_vars_def internal_enlarge_def Let_def)

lemma same_marks_init: "same_marks e (init opts n e)"
proof -
  have "same_marks e (fold map_variable ks e)" for ks e
    by (induction ks arbitrary: e) (auto simp: map_variable_def same_marks_def)
  then have f: "witness (fold map_variable ks e) = witness e" "tainted (fold map_variable ks e) = tainted e" for ks e
    by (simp_all add: same_marks_def)
  show ?thesis by (simp add: init_def Let_def same_marks_def f first_slot_def enlarge_def)
qed

lemma same_marks_known: "same_marks e (known opts ext eidx e)"
  using same_marks_init [of e opts eidx]
  by (simp add: known_def same_marks_def fresh_internal_def Let_def)

lemma same_marks_chain_unit: "same_marks e (chain_unit l e)"
  by (simp add: chain_unit_def Let_def tell_def same_marks_def)

lemma activate_calls [simp]: "calls (activate i n) = calls n"
  by (simp add: activate_def)

definition new_taints :: "external \<Rightarrow> int list \<Rightarrow> int set" where
  "new_taints e c = {l \<in> set c. - l \<in> flagged (witness e)}"

text \<open>\<open>e'\<close> is \<open>e\<close> after the literals \<open>c\<close> have become tainted.\<close>

definition tainted_by :: "int list \<Rightarrow> external \<Rightarrow> external \<Rightarrow> bool" where
  "tainted_by c e e' \<longleftrightarrow> witness e' = witness e
     \<and> flagged (tainted e') = flagged (tainted e) \<union> new_taints e c"

lemma taint_tainted_by:
  assumes "l \<noteq> 0" "same_marks e f"
  shows "tainted_by [l] e (taint l f)"
  using assms by (auto simp: tainted_by_def taint_def same_marks_def marked_flagged new_taints_def)

lemma internalize_tainted_by:
  assumes "l \<noteq> 0" "\<not> checkfrozen opts"
  shows "\<exists>f ilit. internalize opts False l e = Some (f, ilit) \<and> tainted_by [l] e f"
proof -
  let ?e = "known opts False (nat \<bar>l\<bar>) e"
  define ilit where "ilit = (if l < 0 then - (e2i ?e ! nat \<bar>l\<bar>) else e2i ?e ! nat \<bar>l\<bar>)"
  have "same_marks e (?e\<lparr>internal := activate (nat \<bar>ilit\<bar>) (internal ?e)\<rparr>)"
    using same_marks_known [of e opts False "nat \<bar>l\<bar>"] by (simp add: same_marks_def)
  from taint_tainted_by [OF assms(1) this] show ?thesis
    using assms by (simp add: internalize_def ilit_def Let_def)
qed

lemma tainted_by_tell: "tainted_by c e f \<Longrightarrow> tainted_by c e (tell x f)"
  by (simp add: tainted_by_def tell_def)

lemma tainted_by_same: "same_marks e f \<Longrightarrow> tainted_by c f g \<Longrightarrow> tainted_by c e g"
  by (simp add: tainted_by_def same_marks_def new_taints_def)

lemma tainted_by_trans: "tainted_by c e f \<Longrightarrow> tainted_by d f g \<Longrightarrow> tainted_by (c @ d) e g"
  by (auto simp: tainted_by_def new_taints_def)

lemma restore_literal_tainted_by:
  assumes "l \<noteq> 0" "\<not> checkfrozen opts"
  shows "\<exists>f. restore_literal opts l e = Some f \<and> tainted_by [l] e f"
proof -
  define g where "g = (let e = e\<lparr>eclause := eclause e @ [l]\<rparr> in if proof_lrat opts then chain_unit l e else e)"
  have "same_marks e (e\<lparr>eclause := eclause e @ [l]\<rparr>)" by (simp add: same_marks_def)
  then have "same_marks e g"
    using same_marks_chain_unit [of "e\<lparr>eclause := eclause e @ [l]\<rparr>" l] by (simp add: g_def same_marks_def Let_def)
  moreover obtain f ilit where f: "internalize opts False l g = Some (f, ilit)" "tainted_by [l] g f"
    using internalize_tainted_by [OF assms] by blast
  ultimately have "tainted_by [l] e (tell (Add_original_lit ilit) f)"
    using tainted_by_same tainted_by_tell [OF f(2)] by simp
  moreover have "restore_literal opts l e = Some (tell (Add_original_lit ilit) f)"
    using f(1) by (simp add: restore_literal_def g_def Let_def)
  ultimately show ?thesis by blast
qed

lemma restore_literals_tainted_by:
  assumes "0 \<notin> set c" "\<not> checkfrozen opts"
  shows "\<exists>f. restore_literals opts c e = Some f \<and> tainted_by c e f"
  using assms(1)
proof (induction c arbitrary: e)
  case Nil
  then show ?case by (simp add: tainted_by_def new_taints_def)
next
  case (Cons l c)
  obtain f where f: "restore_literal opts l e = Some f" "tainted_by [l] e f"
    using restore_literal_tainted_by [OF _ assms(2), of l e] Cons.prems by auto
  obtain g where g: "restore_literals opts c f = Some g" "tainted_by c f g"
    using Cons.IH [of f] Cons.prems by auto
  show ?case using f(1) g(1) tainted_by_trans [OF f(2) g(2)] by simp
qed

lemma finish_tainted_by: "tainted_by [] e (finish_restored opts n e)"
  by (simp add: finish_restored_def tell_def tainted_by_def new_taints_def Let_def)

lemma restore_clause_tainted_by:
  assumes "0 \<notin> set c" "\<not> checkfrozen opts"
  shows "\<exists>f. restore_clause opts c n e = Some f \<and> tainted_by c e f"
proof -
  obtain f where f: "restore_literals opts c e = Some f" "tainted_by c e f"
    using restore_literals_tainted_by [OF assms] by blast
  show ?thesis
    using f(1) tainted_by_trans [OF f(2) finish_tainted_by] by (simp add: restore_clause_def)
qed

section \<open>The loop\<close>

lemma tainted_lit_0: "0 \<notin> set w \<Longrightarrow> tainted_lit e w \<noteq> 0 \<longleftrightarrow> hit (flagged (tainted e)) w"
proof -
  have "0 \<notin> set w \<Longrightarrow> fold (\<lambda>elit tlit. if marked (tainted e) (- elit) then elit else tlit) w t \<noteq> 0
      \<longleftrightarrow> t \<noteq> 0 \<or> hit (flagged (tainted e)) w" for t
    by (induction w arbitrary: t) (auto simp: hit_def marked_flagged)
  then show "0 \<notin> set w \<Longrightarrow> ?thesis" by simp
qed

lemma satisfied_lit_0: "0 \<notin> set c \<Longrightarrow> satisfied_lit g c \<noteq> 0 \<longleftrightarrow> list_ex (\<lambda>l. 0 < g l) c"
  by (induction c) auto

lemma restore_entry_encode:
  assumes "0 \<notin> set w" "0 \<notin> set c"
  shows "restore_entry opts ifixed e q (encode_entry (w, n, c) @ encode es) =
    (if flushable opts ifixed e c then Some (e, q, encode es)
     else if hit (flagged (tainted e)) w \<or> restoreall opts \<noteq> 0
     then (case restore_clause opts c (stacked_id n) e of None \<Rightarrow> None | Some e \<Rightarrow> Some (e, q, encode es))
     else Some (e, q @ encode_entry (w, n, c), encode es))"
  using assms
  by (simp add: restore_entry_def takeWhile_lits dropWhile_lits encode_head Let_def stacked_id_def
      tainted_lit_0 satisfied_lit_0 flushable_def del: tainted_lit.simps split: option.split)

text \<open>The witness bits agree with the tainted literals on what a stacked witness is hit by.\<close>

lemma hit_cong:
  assumes "tainted_by c e f" "set w \<subseteq> flagged (witness e)"
  shows "hit (flagged (tainted f)) w = hit (flagged (tainted e) \<union> set c) w"
  using assms by (auto simp: hit_def list_ex_iff tainted_by_def new_taints_def)

text \<open>What the loop does to the entries ahead, where \<open>T\<close> is what has become tainted.\<close>

lemma restore_loop_encode:
  assumes "\<forall>x \<in> set es. entry_ok x" "\<forall>x \<in> set es. set (fst x) \<subseteq> flagged (witness e)" "\<not> checkfrozen opts"
    and "\<And>w. set w \<subseteq> flagged (witness e) \<Longrightarrow> hit (flagged (tainted e)) w = hit T w"
  shows "\<exists>f ds. restore_loop opts ifixed e q (encode es) = Some (f, q @ encode (kept ds))
    \<and> map fst ds = es \<and> fates opts ifixed e T ds f"
  using assms
proof (induction es arbitrary: e q T)
  case Nil
  then show ?case by (intro exI [of _ e] exI [of _ "[]"]) (simp add: restore_loop.simps)
next
  case (Cons x es)
  obtain w n c where x: "x = (w, n, c)" by (metis prod_cases3)
  have ok: "0 \<notin> set w" "0 \<notin> set c" "set w \<subseteq> flagged (witness e)" using Cons.prems(1,2) by (simp_all add: x)
  note entry = restore_entry_encode [OF ok(1,2), of opts ifixed e q n es]
  have step: "restore_loop opts ifixed e q (encode (x # es)) =
      (case restore_entry opts ifixed e q (encode_entry (w, n, c) @ encode es) of
        None \<Rightarrow> None | Some (e, q, p) \<Rightarrow> restore_loop opts ifixed e q p)"
    by (subst restore_loop.simps) (simp add: x)
  note T = Cons.prems(4)
  have rest: "\<forall>x \<in> set es. entry_ok x" "\<forall>x \<in> set es. set (fst x) \<subseteq> flagged (witness e)"
    using Cons.prems(1,2) by simp_all
  consider (flush) "flushable opts ifixed e c"
    | (restore) "\<not> flushable opts ifixed e c" "hit (flagged (tainted e)) w \<or> restoreall opts \<noteq> 0"
    | (keep) "\<not> flushable opts ifixed e c" "\<not> hit (flagged (tainted e)) w" "restoreall opts = 0" by blast
  then show ?case
  proof cases
    case flush
    obtain f ds where IH: "restore_loop opts ifixed e q (encode es) = Some (f, q @ encode (kept ds))"
      "map fst ds = es" "fates opts ifixed e T ds f"
      using Cons.IH [OF rest Cons.prems(3) T] by blast
    have "restore_loop opts ifixed e q (encode (x # es)) = Some (f, q @ encode (kept ((x, Flushed) # ds)))"
      unfolding step entry using flush IH(1) by simp
    then show ?thesis using IH(2,3) flush by (intro exI [of _ f] exI [of _ "(x, Flushed) # ds"]) (simp add: x)
  next
    case restore
    obtain g where g: "restore_clause opts c (stacked_id n) e = Some g" "tainted_by c e g"
      using restore_clause_tainted_by [OF ok(2) Cons.prems(3)] by blast
    have w: "witness g = witness e" using g(2) by (simp add: tainted_by_def)
    have T': "hit (flagged (tainted g)) v = hit (T \<union> set c) v" if "set v \<subseteq> flagged (witness g)" for v
      using hit_cong [OF g(2)] T [of v] that w by (auto simp: hit_def list_ex_iff)
    obtain f ds where IH: "restore_loop opts ifixed g q (encode es) = Some (f, q @ encode (kept ds))"
      "map fst ds = es" "fates opts ifixed g (T \<union> set c) ds f"
      using Cons.IH [of g "T \<union> set c" q] rest Cons.prems(3) T' w by auto
    have "restore_loop opts ifixed e q (encode (x # es)) = Some (f, q @ encode (kept ((x, Restored) # ds)))"
      unfolding step entry using restore g(1) IH(1) by simp
    then show ?thesis
      using IH(2,3) restore g(1) T [OF ok(3)] by (intro exI [of _ f] exI [of _ "(x, Restored) # ds"]) (auto simp: x)
  next
    case keep
    obtain f ds where IH: "restore_loop opts ifixed e (q @ encode_entry (w, n, c)) (encode es)
        = Some (f, (q @ encode_entry (w, n, c)) @ encode (kept ds))"
      "map fst ds = es" "fates opts ifixed e T ds f"
      using Cons.IH [OF rest Cons.prems(3) T] by blast
    have "restore_loop opts ifixed e q (encode (x # es)) = Some (f, q @ encode (kept ((x, Kept) # ds)))"
      unfolding step entry using keep IH(1) by (simp add: x)
    then show ?thesis using IH(2,3) keep T [OF ok(3)] by (intro exI [of _ f] exI [of _ "(x, Kept) # ds"]) (simp add: x)
  qed
qed

section \<open>What the internal solver is given\<close>

text \<open>The calls besides those that extend the LRAT chain of a clause.\<close>

fun handed :: "internal_call list \<Rightarrow> internal_call list" where
  "handed [] = []"
| "handed (Lrat_chain_push_back n # cs) = handed cs"
| "handed (c # cs) = c # handed cs"

lemma handed_append [simp]: "handed (cs @ ds) = handed cs @ handed ds"
  by (induction cs rule: handed.induct) auto

definition internal_lit :: "external \<Rightarrow> int \<Rightarrow> int" where
  "internal_lit e l = (if l < 0 then - (e2i e ! nat \<bar>l\<bar>) else e2i e ! nat \<bar>l\<bar>)"

definition given_clause :: "external \<Rightarrow> entry \<Rightarrow> internal_call list" where
  "given_clause e = (\<lambda>(w, n, c). map (\<lambda>l. Add_original_lit (internal_lit e l)) c @ [Finish_added_clause_with_id (stacked_id n) True])"

text \<open>The table of internal variables has a place for every external one; places that are filled stay as they are.\<close>

definition maps_ok :: "external \<Rightarrow> bool" where
  "maps_ok e \<longleftrightarrow> (if max_var e = 0 then e2i e = [] else length (e2i e) = max_var e + 1)"

definition maps_on :: "external \<Rightarrow> external \<Rightarrow> bool" where
  "maps_on e f \<longleftrightarrow> maps_ok f \<and> length (e2i e) \<le> length (e2i f) \<and> (\<forall>i < length (e2i e). e2i e ! i \<noteq> 0 \<longrightarrow> e2i f ! i = e2i e ! i)"

definition mapped :: "external \<Rightarrow> int \<Rightarrow> bool" where
  "mapped e l \<longleftrightarrow> nat \<bar>l\<bar> < length (e2i e) \<and> e2i e ! nat \<bar>l\<bar> \<noteq> 0"

lemma maps_on_refl: "maps_ok e \<Longrightarrow> maps_on e e"
  by (simp add: maps_on_def)

lemma maps_on_trans: "maps_on e f \<Longrightarrow> maps_on f g \<Longrightarrow> maps_on e g"
  unfolding maps_on_def by (metis order.strict_trans2 order.trans)

lemma maps_on_mapped:
  assumes "maps_on e f" "mapped e l"
  shows "mapped f l" "internal_lit f l = internal_lit e l"
proof -
  have "e2i f ! nat \<bar>l\<bar> = e2i e ! nat \<bar>l\<bar>" "nat \<bar>l\<bar> < length (e2i f)"
    using assms by (auto simp: maps_on_def mapped_def simp del: abs_of_nonneg abs_of_nonpos)
  then show "mapped f l" "internal_lit f l = internal_lit e l" using assms(2) by (simp_all only: mapped_def internal_lit_def simp_thms)
qed

lemma fold_map_variable:
  "e2i (fold map_variable ks e) = e2i e @ map (\<lambda>(i, j). int j) ks" "max_var (fold map_variable ks e) = max_var e"
  "calls (internal (fold map_variable ks e)) = calls (internal e)"
  by (induction ks arbitrary: e) (auto simp: map_variable_def)

lemma init_maps:
  assumes "maps_ok e"
  shows "maps_on e (init opts n e)" "n \<le> max_var (init opts n e)" "calls (internal (init opts n e)) = calls (internal e)"
proof -
  show "n \<le> max_var (init opts n e)" by (simp add: init_def Let_def)
  show "calls (internal (init opts n e)) = calls (internal e)"
    by (simp add: init_def Let_def fold_map_variable first_slot_def enlarge_def)
  show "maps_on e (init opts n e)"
  proof (cases "n \<le> max_var e")
    case True
    then show ?thesis using assms by (simp add: init_def maps_on_refl)
  next
    case False
    then have "e2i (init opts n e) = e2i (first_slot e) @ map (\<lambda>k. int (imax_var (internal e) + 1 + k)) [0..<n - max_var e]"
      "max_var (init opts n e) = n"
      by (simp_all add: init_def Let_def fold_map_variable first_slot_def enlarge_def)
    then show ?thesis
      using assms False by (auto simp: maps_on_def maps_ok_def first_slot_def nth_append split: if_splits)
  qed
qed

lemma known_maps:
  assumes "maps_ok e" "0 < i"
  shows "maps_on e (known opts False i e)" "i < length (e2i (known opts False i e))" "e2i (known opts False i e) ! i \<noteq> 0"
    "calls (internal (known opts False i e)) = calls (internal e)"
proof -
  note I = init_maps [OF assms(1), where opts = opts and n = i]
  have i: "i < length (e2i (init opts i e))" using I(1,2) assms(2) by (auto simp: maps_on_def maps_ok_def split: if_splits)
  then show "i < length (e2i (known opts False i e))" "e2i (known opts False i e) ! i \<noteq> 0"
    by (simp_all add: known_def fresh_internal_def Let_def)
  have "maps_on (init opts i e) (known opts False i e)"
    using I(1) i by (auto simp: known_def fresh_internal_def maps_on_def maps_ok_def Let_def nth_list_update)
  then show "maps_on e (known opts False i e)" using maps_on_trans I(1) by blast
  show "calls (internal (known opts False i e)) = calls (internal e)" using I(3) by (simp add: known_def fresh_internal_def Let_def)
qed

lemma maps_on_same: "e2i f = e2i e \<Longrightarrow> max_var f = max_var e \<Longrightarrow> maps_on g f = maps_on g e"
  by (simp add: maps_on_def maps_ok_def)

lemma restore_literal_handed:
  assumes ok: "maps_ok e" and l: "l \<noteq> 0" and r: "restore_literal opts l e = Some f"
  shows "maps_on e f" "mapped f l" "handed (calls (internal f)) = handed (calls (internal e)) @ [Add_original_lit (internal_lit f l)]"
proof -
  define g where "g = (let e = e\<lparr>eclause := eclause e @ [l]\<rparr> in if proof_lrat opts then chain_unit l e else e)"
  have g: "e2i g = e2i e" "max_var g = max_var e" "handed (calls (internal g)) = handed (calls (internal e))"
    by (simp_all add: g_def chain_unit_def tell_def Let_def)
  have gok: "maps_ok g" using ok g by (simp add: maps_ok_def)
  have "0 < nat \<bar>l\<bar>" using l by simp
  note K = known_maps [OF gok this, where opts = opts]
  let ?k = "known opts False (nat \<bar>l\<bar>) g"
  obtain h ilit where h: "internalize opts False l g = Some (h, ilit)" "f = tell (Add_original_lit ilit) h"
    using r by (auto simp: restore_literal_def g_def Let_def split: option.splits)
  then have "\<exists>j. h = taint l (?k\<lparr>internal := activate j (internal ?k)\<rparr>)" "ilit = internal_lit ?k l"
    using l by (auto simp: internalize_def internal_lit_def Let_def split: if_splits)
  then have f: "e2i f = e2i ?k" "max_var f = max_var ?k" "ilit = internal_lit ?k l" "calls (internal h) = calls (internal ?k)"
    by (auto simp: h(2) taint_def tell_def)
  have "maps_on g f" using K(1) maps_on_same [OF f(1,2)] by simp
  then show "maps_on e f" unfolding maps_on_def g(1) .
  show "mapped f l" using K(2,3) by (simp only: mapped_def f(1) simp_thms)
  have "internal_lit f l = ilit" by (simp only: f(3) internal_lit_def f(1))
  moreover have "calls (internal f) = calls (internal g) @ [Add_original_lit ilit]" using f(4) K(4) by (simp add: h(2) tell_def)
  ultimately show "handed (calls (internal f)) = handed (calls (internal e)) @ [Add_original_lit (internal_lit f l)]" using g(3) by simp
qed

lemma restore_literals_handed:
  assumes "maps_ok e" "0 \<notin> set c" "restore_literals opts c e = Some f"
  shows "maps_on e f \<and> (\<forall>l \<in> set c. mapped f l) \<and>
    handed (calls (internal f)) = handed (calls (internal e)) @ map (\<lambda>l. Add_original_lit (internal_lit f l)) c"
  using assms
proof (induction c arbitrary: e)
  case (Cons l c)
  then obtain g where g: "restore_literal opts l e = Some g" "restore_literals opts c g = Some f" by (auto split: option.splits)
  note G = restore_literal_handed [OF Cons.prems(1) _ g(1)]
  have "maps_ok g" using G(1) Cons.prems(2) by (auto simp: maps_on_def)
  then have IH: "maps_on g f" "\<forall>l \<in> set c. mapped f l"
    "handed (calls (internal f)) = handed (calls (internal g)) @ map (\<lambda>l. Add_original_lit (internal_lit f l)) c"
    using Cons.IH [of g] Cons.prems(2) g(2) by auto
  show ?case using G Cons.prems(2) IH maps_on_trans [of e g f] maps_on_mapped [OF IH(1), of l] by auto
qed (simp add: maps_on_refl)

lemma restore_clause_handed:
  assumes "maps_ok e" "0 \<notin> set c" "restore_clause opts c (stacked_id n) e = Some f"
  shows "maps_on e f" "\<forall>l \<in> set c. mapped f l"
    "handed (calls (internal f)) = handed (calls (internal e)) @ given_clause f (w, n, c)"
proof -
  obtain g where g: "restore_literals opts c e = Some g" "f = finish_restored opts (stacked_id n) g"
    using assms(3) by (auto simp: restore_clause_def split: option.splits)
  have f: "e2i f = e2i g" "max_var f = max_var g" "handed (calls (internal f)) = handed (calls (internal g)) @ [Finish_added_clause_with_id (stacked_id n) True]"
    by (simp_all add: g(2) finish_restored_def tell_def Let_def)
  note G = restore_literals_handed [OF assms(1,2) g(1)]
  show "maps_on e f" "\<forall>l \<in> set c. mapped f l" "handed (calls (internal f)) = handed (calls (internal e)) @ given_clause f (w, n, c)"
    using G f by (simp_all add: maps_on_def maps_ok_def mapped_def given_clause_def internal_lit_def)
qed

lemma fates_handed:
  assumes "maps_ok e" "\<forall>x \<in> set ds. entry_ok (fst x)" "fates opts ifixed e T ds f"
  shows "maps_on e f \<and> handed (calls (internal f)) = handed (calls (internal e)) @ concat (map (given_clause f) (restored ds))"
  using assms
proof (induction ds arbitrary: e T)
  case Nil
  then show ?case by (simp add: maps_on_refl)
next
  case (Cons x ds)
  obtain w n c d where x: "x = ((w, n, c), d)" by (cases x) auto
  show ?case
  proof (cases d)
    case Restored
    obtain g where g: "restore_clause opts c (stacked_id n) e = Some g" "fates opts ifixed g (T \<union> set c) ds f"
      using Cons.prems(3) by (auto simp: x Restored split: option.splits)
    have nz: "0 \<notin> set c" using Cons.prems(2) by (simp add: x)
    note G = restore_clause_handed [OF Cons.prems(1) nz g(1)]
    then have "maps_ok g" by (simp add: maps_on_def)
    then have IH: "maps_on g f" "handed (calls (internal f)) = handed (calls (internal g)) @ concat (map (given_clause f) (restored ds))"
      using Cons.IH [OF _ _ g(2)] Cons.prems(2) by auto
    have "given_clause f (w, n, c) = given_clause g (w, n, c)"
      using maps_on_mapped(2) [OF IH(1)] G(2) by (simp add: given_clause_def)
    then show ?thesis using G(3) [of w] IH maps_on_trans [OF G(1) IH(1)] by (simp add: x Restored)
  qed (use Cons in \<open>auto simp: x\<close>)
qed

section \<open>All clauses\<close>

lemma flagged_fold_mark: "0 \<notin> set w \<Longrightarrow> flagged (fold mark w A) = set w \<union> flagged A"
  by (induction w arbitrary: A) auto

lemma witness_bits_encode:
  assumes "\<forall>x \<in> set es. entry_ok x"
  shows "\<exists>B. witness_bits A (rev (encode es)) = Some B \<and> flagged B = flagged A \<union> \<Union> (set ` fst ` set es)"
  using assms
proof (induction es arbitrary: A rule: rev_induct)
  case Nil
  then show ?case by (simp add: witness_bits.simps)
next
  case (snoc x es)
  obtain w n c where x: "x = (w, n, c)" by (metis prod_cases3)
  have ok: "entry_ok x" using snoc.prems by simp
  have r: "read_back (rev (encode (es @ [x]))) = Some ((w, stacked_id n, c), rev (encode es))"
    using read_back_encode [OF ok, of "rev (encode es)"] by (simp add: x del: read_back.simps)
  have ne: "rev (encode (es @ [x])) \<noteq> []" by (simp add: x)
  obtain B where B: "witness_bits (fold mark (rev w) A) (rev (encode es)) = Some B"
    "flagged B = flagged (fold mark (rev w) A) \<union> \<Union> (set ` fst ` set es)"
    using snoc.IH [of "fold mark (rev w) A"] snoc.prems by auto
  have "witness_bits A (rev (encode (es @ [x]))) = Some B"
    by (subst witness_bits.simps) (simp only: r option.case prod.case ne if_False B(1))
  then show ?case using B(2) ok by (auto simp: x flagged_fold_mark)
qed

text \<open>The stack holds the entries \<open>es\<close> and every witness literal on it is marked.\<close>

definition holds_stack :: "external \<Rightarrow> entry list \<Rightarrow> bool" where
  "holds_stack e es \<longleftrightarrow> extension e = encode es
     \<and> (\<forall>x \<in> set es. entry_ok x \<and> set (fst x) \<subseteq> flagged (witness e))"

lemma restore_clauses_fates:
  assumes hs: "holds_stack e es" and nf: "\<not> checkfrozen opts" and mo: "maps_ok e"
  shows "\<exists>f g ds. restore_clauses opts ifixed e = Some f \<and> holds_stack f (kept ds)
    \<and> map fst ds = es \<and> fates opts ifixed e (flagged (tainted e)) ds g
    \<and> f = g\<lparr>extension := encode (kept ds), tainted := [], witness := witness f\<rparr>
    \<and> flagged (witness f) = \<Union> (set ` fst ` set (kept ds)) \<and> maps_ok f
    \<and> handed (calls (internal f)) = handed (calls (internal e)) @ concat (map (given_clause f) (restored ds))"
proof -
  have ok: "\<forall>x \<in> set es. entry_ok x" "\<forall>x \<in> set es. set (fst x) \<subseteq> flagged (witness e)"
    and ext: "extension e = encode es"
    using hs by (simp_all add: holds_stack_def)
  obtain g ds where g: "restore_loop opts ifixed e [] (encode es) = Some (g, [] @ encode (kept ds))"
    "map fst ds = es" "fates opts ifixed e (flagged (tainted e)) ds g"
    using restore_loop_encode [OF ok nf] by blast
  have dok: "\<forall>x \<in> set ds. entry_ok (fst x)" using ok(1) unfolding g(2) [symmetric] by simp
  then have kok: "\<forall>x \<in> set (kept ds). entry_ok x" by (auto simp: kept_def)
  obtain B where B: "witness_bits [] (rev (encode (kept ds))) = Some B"
    "flagged B = \<Union> (set ` fst ` set (kept ds))"
    using witness_bits_encode [OF kok, of "[]"] by auto
  let ?f = "g\<lparr>extension := encode (kept ds), tainted := [], witness := B\<rparr>"
  have G: "maps_on e g" "handed (calls (internal g)) = handed (calls (internal e)) @ concat (map (given_clause g) (restored ds))"
    using fates_handed [OF mo dok g(3)] by blast+
  have "given_clause ?f = given_clause g" by (simp add: given_clause_def internal_lit_def fun_eq_iff)
  moreover have "maps_ok ?f" using G(1) by (simp add: maps_on_def maps_ok_def)
  moreover have "holds_stack ?f (kept ds)" using kok B(2) by (auto simp: holds_stack_def)
  moreover have "restore_clauses opts ifixed e = Some ?f" using g(1) B(1) ext by (simp add: restore_clauses_def)
  ultimately show ?thesis using g(2,3) G(2) B(2) by (intro exI [of _ ?f] exI [of _ g] exI [of _ ds]) simp
qed

section \<open>Pushing keeps the witnesses marked\<close>

lemma witness_push [simp]:
  "witness (push_back x e) = witness e"
  "witness (push_zero e) = witness e"
  "witness (push_id n e) = witness e"
  "witness (push_clause_literal l e) = witness e"
  "witness (count_weakened k e) = witness e"
  by (simp_all add: push_back_def push_zero_def push_id_def push_clause_literal_def count_weakened_def Let_def)

lemma witness_push_literals [simp]: "witness (fold push_clause_literal ls e) = witness e"
  by (induction ls arbitrary: e) simp_all

lemma witness_push_witness_literal:
  "externalize e l \<noteq> 0 \<Longrightarrow>
   flagged (witness (push_witness_literal l e)) = insert (externalize e l) (flagged (witness e))"
  by (auto simp: push_witness_literal_def Let_def marked_flagged)

lemma witness_init [simp]: "witness (init opts n e) = witness e"
  using same_marks_init [of e opts n] by (simp add: same_marks_def)

lemma witness_push_external:
  "0 \<notin> set w \<Longrightarrow> flagged (witness (fold (push_external_witness opts) w e)) = set w \<union> flagged (witness e)"
  by (induction w arbitrary: e) (auto simp: push_external_witness_def push_external_literal_def Let_def)

lemma witness_push_external_literals [simp]: "witness (fold (push_external_literal opts) c e) = witness e"
  by (induction c arbitrary: e) (simp_all add: push_external_literal_def)

lemma push_step_witness:
  assumes "entry_ok (op_entry e p)"
  shows "flagged (witness (push_step opts p e)) = set (fst (op_entry e p)) \<union> flagged (witness e)"
proof (cases p)
  case (Push_clause c pivot)
  have "externalize (push_zero e) = externalize e" by (rule externalize_cong) simp
  then show ?thesis
    using assms
    by (simp add: Push_clause push_clause_on_extension_stack_def push_clause_def witness_push_witness_literal)
next
  case (Push_binary n pivot other)
  have "externalize (push_zero (count_weakened 2 e)) = externalize e" by (rule externalize_cong) simp
  then show ?thesis
    using assms
    by (simp add: Push_binary push_binary_clause_on_extension_stack_def witness_push_witness_literal)
next
  case (Push_external c w n)
  then show ?thesis
    using assms
    by (simp add: push_external_clause_and_witness_on_extension_stack_def witness_push_external)
qed

lemma push_step_holds:
  assumes "holds_stack e es" "entry_ok (op_entry e p)"
  shows "holds_stack (push_step opts p e) (es @ [op_entry e p])"
proof -
  have "encode_entry (op_entry e p) = encode [op_entry e p]" by simp
  then show ?thesis
    using assms(1) assms(2) push_step_witness [OF assms(2), of opts]
    by (auto simp: holds_stack_def push_step_extension)
qed

lemma pushes_hold:
  "holds_stack e es \<Longrightarrow> list_all entry_ok (op_entries opts ps e) \<Longrightarrow>
   holds_stack (fold (push_step opts) ps e) (es @ op_entries opts ps e)"
proof (induction ps arbitrary: e es)
  case (Cons p ps)
  then show ?case using Cons.IH [OF push_step_holds] by simp
qed simp

end
