(* ===== verification/Ext_Claims.thy ===== *)
theory Ext_Claims
  imports Ext_Extend Ext_Fates
begin

text \<open>
  The properties of the reconstruction stack: what is pushed is read back, extending an
  assignment satisfies every stacked clause, restoring leaves a stack no tainted literal hits,
  and ids beyond 31 bits are lost.
\<close>

section \<open>A sample run\<close>

definition sample_options :: options where
  "sample_options = \<lparr>restoreall = 0, restoreflush = False, checkfrozen = False, proof_lrat = False\<rparr>"

text \<open>
  Three variables; the clauses \<open>1 2\<close> and \<open>-1 3\<close> of an eliminated variable 1, the second
  pushed as a binary clause, then one of an external caller.
\<close>

definition sample_start :: external where
  "sample_start = init sample_options 3 init_external"

definition sample_pushes :: "push_op list" where
  "sample_pushes = [Push_clause \<lparr>cid = 7, clits = [1, 2]\<rparr> 1, Push_binary 8 (-1) 3]"

definition sample_entries :: "entry list" where
  "sample_entries = [([1], 7, [1, 2]), ([-1], 8, [-1, 3])]"

definition sample_stack :: external where
  "sample_stack = fold (push_step sample_options) sample_pushes sample_start"

lemma sample_entries: "op_entries sample_options sample_pushes sample_start = sample_entries"
  by code_simp

lemma sample_ok: "list_all entry_ok sample_entries"
  by code_simp

lemma sample_start_extension: "extension sample_start = []"
  by code_simp

lemma sample_holds: "holds_stack sample_stack sample_entries"
proof -
  have "holds_stack sample_start []" by (simp add: holds_stack_def sample_start_extension)
  then show ?thesis
    using pushes_hold [of sample_start "[]" sample_options sample_pushes] sample_ok
    by (simp add: sample_stack_def sample_entries)
qed

section \<open>Round trip\<close>

text \<open>
  C31. Whatever sequence of clauses is pushed on an empty reconstruction stack, by clause and
  pivot, as a binary clause or with an external witness, the forward traversal hands exactly
  these witnesses and clauses to its iterator, in this order and until the iterator refuses,
  and the backward traversal the same in reverse; neither reads outside of the stack. Each id
  arrives as \<open>stacked_id\<close> of the one pushed.
\<close>

theorem pushes_traversed:
  assumes "extension e = []" "list_all entry_ok (op_entries opts ps e)"
  shows "traverse_witnesses_forward False it (fold (push_step opts) ps e) st
      = Some (visit it (map stored (op_entries opts ps e)) st)
    \<and> traverse_witnesses_backward False it (fold (push_step opts) ps e) st
      = Some (visit it (rev (map stored (op_entries opts ps e))) st)"
  using assms pushes_extension [of opts ps e]
  by (auto simp: list_all_iff intro: traverse_forward_encode traverse_backward_encode)

text \<open>An iterator that collects the entries, and refuses once it has two.\<close>

definition collect :: "entry list iterator" where
  "collect c w n st = (length st < 1, st @ [(w, n, c)])"

theorem pushes_traversed_witness:
  "traverse_witnesses_forward False collect sample_stack [] = Some (visit collect (map stored sample_entries) [])
   \<and> traverse_witnesses_backward False collect sample_stack [] = Some (visit collect (rev (map stored sample_entries)) [])
   \<and> visit collect (rev (map stored sample_entries)) [] = (False, [([-1], 8, [-1, 3]), ([1], 7, [1, 2])])"
  using pushes_traversed [of sample_start sample_options sample_pushes collect "[]"] sample_ok
  by (simp add: sample_stack_def [symmetric] sample_start_extension sample_entries) code_simp

section \<open>Extending\<close>

text \<open>
  C32. Let every stacked entry be redundant for the clauses \<open>F\<close> of the solver together with
  the entries stacked after it, and let the values of the internal solver satisfy \<open>F\<close>. Then
  concluding with a proof terminates without leaving the stack, the extended assignment
  satisfies \<open>F\<close> and every stacked clause, and the model handed to the proof lists, for the
  variables not introduced by the solver itself, the literals this assignment makes true.
\<close>

theorem conclude_sat_model:
  assumes "extension e = encode es" "list_all (\<lambda>x. entry_ok x \<and> entry_vars (max_var e) x) es"
    and "models (assignment (max_var e) (stored_values val e)) F" "redundant_stack F es"
    and "\<not> extended e" "\<not> concluded e"
  shows "\<exists>f model. conclude_sat True val e = Some (f, Some model) \<and> extended f
    \<and> models (assignment (max_var f) (vals f)) (F \<union> entry_clause ` set es)
    \<and> map (\<lambda>l. nat \<bar>l\<bar>) model = filter (\<lambda>i. \<not> ervars e ! i) [1..<max_var e + 1]
    \<and> list_all (lit_true (assignment (max_var f) (vals f))) model"
proof -
  let ?e = "e\<lparr>concluded := True\<rparr>"
  have "stored_values val ?e = stored_values val e" by (simp add: stored_values_def)
  then obtain us where us: "extend val ?e = Some (?e\<lparr>vals := us, extended := True\<rparr>)"
    "models (assignment (max_var e) us) (F \<union> entry_clause ` set es)"
    using extend_models [of ?e es val F] assms(1-4) by (auto simp: list_all_iff)
  define model where "model = map (\<lambda>idx. ival (max_var e) us (int idx)) (filter (\<lambda>i. \<not> ervars e ! i) [1..<max_var e + 1])"
  have c: "conclude_sat True val e = Some (?e\<lparr>vals := us, extended := True\<rparr>, Some model)"
    using us(1) assms(5,6) by (simp add: conclude_sat_def model_def)
  have vars: "map (\<lambda>l. nat \<bar>l\<bar>) model = filter (\<lambda>i. \<not> ervars e ! i) [1..<max_var e + 1]"
    by (simp add: model_def comp_def nat_ival)
  have "list_all (lit_true (assignment (max_var e) us)) model"
    by (auto simp: model_def list_all_iff lit_true_ival)
  then show ?thesis using c vars us(2) by (intro exI [of _ "?e\<lparr>vals := us, extended := True\<rparr>"] exI [of _ model]) simp
qed

text \<open>Variable 1 was eliminated from \<open>1 2\<close> and \<open>-1 3\<close>, which left \<open>2 3\<close>.\<close>

definition sample_formula :: "int list set" where
  "sample_formula = {[2, 3]}"

definition sample_val :: "int \<Rightarrow> int" where
  "sample_val ilit = (if ilit = 3 then 1 else -1)"

lemma sample_redundant: "redundant_stack sample_formula sample_entries"
proof -
  have "redundant {[2, 3]} ([-1], 8, [-1, 3])" by (rule blocked_redundant) auto
  moreover have "redundant {[-1, 3], [2, 3]} ([1], 7, [1, 2])"
    by (auto simp: satisfy_def clause_true_def lit_true_def make_true_def models_def)
  ultimately show ?thesis
    by (simp add: sample_formula_def sample_entries_def entry_clause_def)
qed

lemma sample_values: "assignment (max_var sample_stack) (stored_values sample_val sample_stack) 3"
  by code_simp

lemma sample_models: "models (assignment (max_var sample_stack) (stored_values sample_val sample_stack)) sample_formula"
  using sample_values by (simp add: sample_formula_def clause_true_def lit_true_def models_def)

lemma sample_state:
  "list_all (\<lambda>x. entry_ok x \<and> entry_vars (max_var sample_stack) x) sample_entries"
  "\<not> extended sample_stack" "\<not> concluded sample_stack"
  by code_simp+

theorem conclude_sat_model_witness:
  "(\<exists>f model. conclude_sat True sample_val sample_stack = Some (f, Some model) \<and> extended f
    \<and> models (assignment (max_var f) (vals f)) (sample_formula \<union> entry_clause ` set sample_entries)
    \<and> map (\<lambda>l. nat \<bar>l\<bar>) model = filter (\<lambda>i. \<not> ervars sample_stack ! i) [1..<max_var sample_stack + 1]
    \<and> list_all (lit_true (assignment (max_var f) (vals f))) model)
   \<and> map_option snd (conclude_sat True sample_val sample_stack) = Some (Some [1, -2, 3])"
  by (rule conjI [OF conclude_sat_model [OF _ sample_state(1) sample_models sample_redundant sample_state(2,3)]])
    (use sample_holds in \<open>simp add: holds_stack_def\<close>, code_simp)

section \<open>Restoring\<close>

text \<open>
  C33. \<open>restore_clauses\<close> terminates without leaving the stack, when every witness literal on the stack
  is marked, as pushing and restoring keep it. It goes through the entries in their order: an
  entry is flushed exactly when the option asks for it and a literal of its clause is fixed to true at
  that point; of the others it restores exactly those with a witness literal whose negation is
  among the literals tainted at the start or in a clause restored before, or all with
  \<open>restoreall\<close>; the rest stays on the stack. The internal solver is given exactly the restored clauses in
  this order, literal by literal in internal variables and closed with their ids. The witness bits are
  those of the entries that stay, and no literal is tainted any more.
\<close>

theorem restore_clauses_cleans:
  assumes "holds_stack e es" "\<not> checkfrozen opts" "maps_ok e"
  shows "\<exists>f g ds. restore_clauses opts ifixed e = Some f \<and> holds_stack f (kept ds)
    \<and> map fst ds = es \<and> fates opts ifixed e (flagged (tainted e)) ds g
    \<and> f = g\<lparr>extension := encode (kept ds), tainted := [], witness := witness f\<rparr>
    \<and> flagged (witness f) = \<Union> (set ` fst ` set (kept ds)) \<and> maps_ok f
    \<and> handed (calls (internal f)) = handed (calls (internal e)) @ concat (map (given_clause f) (restored ds))"
  by (rule restore_clauses_fates [OF assms])


text \<open>
  A third entry, pushed from outside; then a caller adds a clause with the literal \<open>-1\<close>. It hits
  the first entry, whose clause hits the second; the third stays.
\<close>

definition sample_restore :: external where
  "sample_restore = (case internalize sample_options False (-1)
      (fold (push_step sample_options) (sample_pushes @ [Push_external [2, 3] [2] 9]) sample_start) of
     Some (e, ilit) \<Rightarrow> e | None \<Rightarrow> sample_start)"

definition sample_restore_entries :: "entry list" where
  "sample_restore_entries = sample_entries @ [([2], 9, [2, 3])]"

lemma sample_restore_holds: "holds_stack sample_restore sample_restore_entries"
proof -
  let ?e = "fold (push_step sample_options) (sample_pushes @ [Push_external [2, 3] [2] 9]) sample_start"
  have "holds_stack ?e sample_restore_entries"
    using push_step_holds [OF sample_holds, of "Push_external [2, 3] [2] 9" sample_options]
    by (simp add: sample_stack_def sample_restore_entries_def)
  moreover have "extension sample_restore = extension ?e" "witness sample_restore = witness ?e" by code_simp+
  ultimately show ?thesis by (simp add: holds_stack_def)
qed

definition sample_fixed :: "internal_call list \<Rightarrow> int \<Rightarrow> int" where
  "sample_fixed cs ilit = 0"

lemma not_checkfrozen: "\<not> checkfrozen sample_options"
  by (simp add: sample_options_def)

lemma sample_restore_maps: "maps_ok sample_restore"
  by code_simp

theorem restore_clauses_cleans_witness:
  "(\<exists>f g ds. restore_clauses sample_options sample_fixed sample_restore = Some f \<and> holds_stack f (kept ds)
    \<and> map fst ds = sample_restore_entries
    \<and> fates sample_options sample_fixed sample_restore (flagged (tainted sample_restore)) ds g
    \<and> handed (calls (internal f)) = handed (calls (internal sample_restore)) @ concat (map (given_clause f) (restored ds)))
   \<and> map_option (\<lambda>f. (extension f, drop (length (handed (calls (internal sample_restore)))) (handed (calls (internal f)))))
       (restore_clauses sample_options sample_fixed sample_restore)
     = Some ([0, 2, 0, 0, 9, 0, 2, 3], [Add_original_lit 1, Add_original_lit 2, Finish_added_clause_with_id 7 True,
         Add_original_lit (- 1), Add_original_lit 3, Finish_added_clause_with_id 8 True])"
proof (rule conjI)
  from restore_clauses_cleans [OF sample_restore_holds not_checkfrozen sample_restore_maps]
  show "\<exists>f g ds. restore_clauses sample_options sample_fixed sample_restore = Some f \<and> holds_stack f (kept ds)
    \<and> map fst ds = sample_restore_entries
    \<and> fates sample_options sample_fixed sample_restore (flagged (tainted sample_restore)) ds g
    \<and> handed (calls (internal f)) = handed (calls (internal sample_restore)) @ concat (map (given_clause f) (restored ds))"
    by blast
qed code_simp

section \<open>Lost ids\<close>

text \<open>
  C34. The id of a clause pushed with a pivot is read back exactly when it fits into 32 bits with
  a sign: \<open>push_id_on_extension_stack\<close> shifts the id left instead of right, so the upper word is
  always zero, and the readers extend the sign of the lower one.
\<close>

theorem stacked_id_lost:
  assumes "extension e = []" "entry_ok (op_entry e (Push_clause c pivot))"
  shows "traverse_witnesses_forward False (\<lambda>c w n ns. (True, ns @ [n])) (push_clause_on_extension_stack c pivot e) []
      = Some (True, [cid c])
    \<longleftrightarrow> - (2 ^ 31) \<le> sint (cid c) \<and> sint (cid c) < 2 ^ 31"
proof -
  have "extension (push_clause_on_extension_stack c pivot e) = encode [op_entry e (Push_clause c pivot)]"
    using push_step_extension [of undefined "Push_clause c pivot" e] assms(1) by simp
  from traverse_forward_encode [OF this, of "\<lambda>c w n ns. (True, ns @ [n])" "[]"] assms(2)
  show ?thesis by (simp add: stacked_id_iff)
qed

theorem stacked_id_lost_witness:
  "traverse_witnesses_forward False (\<lambda>c w n ns. (True, ns @ [n]))
      (push_clause_on_extension_stack \<lparr>cid = 2 ^ 32 + 7, clits = [1, 2]\<rparr> 1 sample_start) []
    \<noteq> Some (True, [2 ^ 32 + 7])
   \<and> traverse_witnesses_forward False (\<lambda>c w n ns. (True, ns @ [n]))
      (push_clause_on_extension_stack \<lparr>cid = 2 ^ 32 + 7, clits = [1, 2]\<rparr> 1 sample_start) []
    = Some (True, [7])"
proof (rule conjI)
  have "entry_ok (op_entry sample_start (Push_clause \<lparr>cid = 2 ^ 32 + 7, clits = [1, 2]\<rparr> 1))" by code_simp
  from stacked_id_lost [OF sample_start_extension this]
  show "traverse_witnesses_forward False (\<lambda>c w n ns. (True, ns @ [n]))
      (push_clause_on_extension_stack \<lparr>cid = 2 ^ 32 + 7, clits = [1, 2]\<rparr> 1 sample_start) []
    \<noteq> Some (True, [2 ^ 32 + 7])" by simp
qed code_simp

end
