(* ===== verification/Reluctant.thy ===== *)
theory Reluctant
  imports "HOL-Library.Word"
begin

unbundle bit_operations_syntax

text \<open>
  Restart intervals: Knuth's reluctant doubling in \<open>reluctant.hpp\<close>, proved to follow the Luby
  sequence. All counters are 64-bit words.
\<close>

section \<open>Model\<close>

record reluctant =
  ru :: "64 word"
  rv :: "64 word"
  limit :: "64 word"
  period :: "64 word"
  countdown :: "64 word"
  trigger :: bool
  limited :: bool

text \<open>\<open>p\<close> is a positive \<open>int\<close>, \<open>l\<close> an \<open>int64_t\<close>.\<close>

definition enable :: "int \<Rightarrow> int \<Rightarrow> reluctant \<Rightarrow> reluctant" where
  "enable p l r =
     (let r = r\<lparr>ru := 1, rv := 1, period := word_of_int p, countdown := word_of_int p, trigger := False\<rparr>
      in if l \<le> 0 then r\<lparr>limited := False\<rparr> else r\<lparr>limited := True, limit := word_of_int l\<rparr>)"

definition disable :: "reluctant \<Rightarrow> reluctant" where
  "disable r = r\<lparr>period := 0, trigger := False\<rparr>"

definition doubling :: "reluctant \<Rightarrow> reluctant" where
  "doubling r = (if ru r AND - ru r = rv r then r\<lparr>ru := ru r + 1, rv := 1\<rparr> else r\<lparr>rv := 2 * rv r\<rparr>)"

definition start_over :: "reluctant \<Rightarrow> reluctant" where
  "start_over r = (if limited r \<and> rv r \<ge> limit r then r\<lparr>ru := 1, rv := 1\<rparr> else r)"

definition tick :: "reluctant \<Rightarrow> reluctant" where
  "tick r =
     (if period r = 0 then r
      else if trigger r then r
      else let r = r\<lparr>countdown := countdown r - 1\<rparr>
           in if countdown r \<noteq> 0 then r
              else let r = start_over (doubling r)
                   in r\<lparr>countdown := rv r * period r, trigger := True\<rparr>)"

text \<open>\<open>operator bool\<close>: the signal is delivered once.\<close>

definition test :: "reluctant \<Rightarrow> bool \<times> reluctant" where
  "test r = (if \<not> trigger r then (False, r) else (True, r\<lparr>trigger := False\<rparr>))"

section \<open>The Luby sequence\<close>

text \<open>The first \<open>2 ^ k - 1\<close> members.\<close>

fun luby :: "nat \<Rightarrow> nat list" where
  "luby 0 = []"
| "luby (Suc k) = luby k @ luby k @ [2 ^ k]"

text \<open>The lowest bit of a positive number.\<close>

fun low :: "nat \<Rightarrow> nat" where
  "low n = (if n = 0 then 0 else if odd n then 1 else 2 * low (n div 2))"

declare low.simps [simp del]

lemma low_odd: "odd n \<Longrightarrow> low n = 1"
  by (subst low.simps) (auto elim: oddE)

lemma low_double: "low (2 * n) = 2 * low n"
  by (cases "n = 0") (simp_all add: low.simps [of "2 * n"] low.simps [of 0])

lemma low_le: "low n \<le> n"
proof (induction n rule: low.induct)
  case (1 n)
  then show ?case by (subst low.simps) (auto elim: oddE)
qed

lemma and_minus_low: "(of_nat n AND - of_nat n :: 'a::len word) = of_nat (low n)"
proof (induction n rule: low.induct)
  case (1 n)
  consider "n = 0" | "odd n" | m where "n = 2 * m" "0 < m"
    by (metis dvd_def gr0I mult_0_right)
  then show ?case
  proof cases
    case 1
    then show ?thesis by (simp add: low.simps)
  next
    case 2
    then obtain m where n: "n = 2 * m + 1" by (rule oddE)
    let ?x = "of_nat m :: 'a word"
    have minus: "- (2 * ?x + 1) = NOT (2 * ?x)" by (simp add: not_eq_complement)
    have or: "2 * ?x + 1 = 1 OR 2 * ?x" by (simp add: one_or_eq)
    have "(1 OR 2 * ?x) AND NOT (2 * ?x) = 1"
      by (rule bit_eqI) (auto simp: bit_simps bit_double_iff bit_1_iff)
    then have "(2 * ?x + 1) AND - (2 * ?x + 1) = 1" unfolding minus unfolding or .
    moreover have "of_nat n = 2 * ?x + 1" by (simp add: n)
    ultimately show ?thesis using low_odd [OF 2] by simp
  next
    case 3
    let ?x = "of_nat m :: 'a word"
    have IH: "?x AND - ?x = of_nat (low m)" using 1 3 by simp
    have "2 * ?x AND - (2 * ?x) = push_bit 1 ?x AND push_bit 1 (- ?x)"
      by (simp add: push_bit_eq_mult mult.commute)
    also have "\<dots> = push_bit 1 (?x AND - ?x)" by simp
    also have "\<dots> = 2 * of_nat (low m)" by (simp only: IH) (simp add: push_bit_eq_mult)
    finally have "2 * ?x AND - (2 * ?x) = 2 * of_nat (low m)" .
    moreover have "of_nat n = 2 * ?x" by (simp add: 3)
    moreover have "of_nat (low n) = 2 * (of_nat (low m) :: 'a word)" by (simp add: 3 low_double)
    ultimately show ?thesis by (simp only:)
  qed
qed

lemma low_power: "low (2 ^ m) = 2 ^ m"
  by (induction m) (simp_all add: low_odd low_double)

lemma low_add: "0 < x \<Longrightarrow> x < 2 ^ m \<Longrightarrow> low (2 ^ m + x) = low x"
proof (induction m arbitrary: x)
  case (Suc m)
  show ?case
  proof (cases "odd x")
    case True
    then show ?thesis by (simp add: low_odd)
  next
    case False
    then obtain y where y: "x = 2 * y" by (auto elim: evenE)
    then have "low (2 ^ m + y) = low y" using Suc by simp
    moreover have "2 ^ Suc m + x = 2 * (2 ^ m + y)" by (simp add: y)
    ultimately show ?thesis by (simp only: low_double y)
  qed
qed simp

lemma low_is_power: "0 < n \<Longrightarrow> \<exists>j. low n = 2 ^ j"
proof (induction n rule: low.induct)
  case (1 n)
  show ?case
  proof (cases "odd n")
    case True
    then show ?thesis using low_odd [of n] by (intro exI [of _ 0]) simp
  next
    case False
    then obtain m where m: "n = 2 * m" by (auto elim: evenE)
    then obtain j where "low m = 2 ^ j" using 1 False by auto
    then show ?thesis by (intro exI [of _ "Suc j"]) (simp add: m low_double)
  qed
qed

text \<open>Reluctant doubling lists, for each \<open>u\<close>, the powers of two up to its lowest bit.\<close>

fun powers :: "nat \<Rightarrow> nat list" where
  "powers n = (if n = 0 then [] else powers (n div 2) @ [n])"

declare powers.simps [simp del]

lemma powers_1: "powers 1 = [1]" "powers 0 = []"
  by (simp_all add: powers.simps)

lemma powers_double: "0 < n \<Longrightarrow> powers (2 * n) = powers n @ [2 * n]"
  by (subst powers.simps) simp

definition doublings :: "nat \<Rightarrow> nat list" where
  "doublings n = concat (map (\<lambda>u. powers (low u)) [1..<n + 1])"

lemma doublings_luby: "doublings (2 ^ k) = luby (Suc k)"
proof (induction k)
  case 0
  show ?case by (simp add: doublings_def low_odd powers_1 [simplified])
next
  case (Suc k)
  let ?f = "\<lambda>u. powers (low u)"
  have p: "(1::nat) \<le> 2 ^ k" by simp
  then have pp: "Suc 0 \<le> 2 ^ k + 2 ^ k" by linarith
  have half: "doublings (2 ^ k) = concat (map ?f [1..<2 ^ k]) @ powers (2 ^ k)"
    by (simp add: doublings_def low_power upt_Suc_append)
  have "[1..<2 ^ Suc k + 1] = [1..<2 ^ k + 1] @ [2 ^ k + 1..<2 ^ Suc k] @ [2 ^ Suc k]"
    using p pp upt_add_eq_append [of 1 "2 ^ k + 1" "2 ^ k - 1"] upt_Suc_append [of 1 "2 ^ Suc k"] by (simp add: mult_2)
  moreover have "concat (map ?f [2 ^ k + 1..<2 ^ Suc k]) = concat (map ?f [1..<2 ^ k])"
  proof -
    have "[2 ^ k + 1..<2 ^ Suc k] = map (\<lambda>i. 2 ^ k + i) [1..<2 ^ k]"
      by (rule nth_equalityI) (simp_all add: mult_2)
    moreover have "map (?f \<circ> (\<lambda>i. 2 ^ k + i)) [1..<2 ^ k] = map ?f [1..<2 ^ k]"
      by (rule map_cong) (simp_all add: low_add)
    ultimately show ?thesis by (simp only: map_map)
  qed
  ultimately have "doublings (2 ^ Suc k) = doublings (2 ^ k) @ concat (map ?f [1..<2 ^ k]) @ powers (2 ^ Suc k)"
    by (simp add: doublings_def low_power del: power_Suc)
  also have "powers (2 ^ Suc k) = powers (2 ^ k) @ [2 ^ Suc k]" by (simp add: powers_double)
  finally have "doublings (2 ^ Suc k) = doublings (2 ^ k) @ doublings (2 ^ k) @ [2 ^ Suc k]" by (simp add: half)
  then show ?case by (simp only: Suc.IH luby.simps(2) [of "Suc k"])
qed

section \<open>Inactive intervals\<close>

text \<open>
  The next signals come after exactly these numbers of ticks each, when every signal is taken
  before the next tick.
\<close>

fun intervals :: "reluctant \<Rightarrow> nat list \<Rightarrow> bool" where
  "intervals r [] \<longleftrightarrow> True"
| "intervals r (g # gs) \<longleftrightarrow>
     list_all (\<lambda>i. \<not> fst (test ((tick ^^ i) r))) [0..<g]
     \<and> fst (test ((tick ^^ g) r)) \<and> intervals (snd (test ((tick ^^ g) r))) gs"

lemma unat_word64: "n < 2 ^ 64 \<Longrightarrow> unat (of_nat n :: 64 word) = n"
  by (simp add: unat_of_nat)

lemma tick_wait:
  assumes "period r \<noteq> 0" "\<not> trigger r"
  shows "i < unat (countdown r) \<Longrightarrow> (tick ^^ i) r = r\<lparr>countdown := countdown r - of_nat i\<rparr>"
proof (induction i)
  case (Suc i)
  then have i: "i < unat (countdown r)" and IH: "(tick ^^ i) r = r\<lparr>countdown := countdown r - of_nat i\<rparr>" by simp_all
  have "countdown r \<noteq> of_nat (Suc i)"
    using Suc.prems unat_word64 [of "Suc i"] unsigned_less [of "countdown r", where 'a = nat] by auto
  then have "countdown r - of_nat i - 1 \<noteq> 0" by (simp add: algebra_simps)
  then have "tick (r\<lparr>countdown := countdown r - of_nat i\<rparr>) = r\<lparr>countdown := countdown r - of_nat (Suc i)\<rparr>"
    using assms by (simp add: tick_def Let_def algebra_simps)
  then show ?case by (simp only: funpow.simps comp_apply IH)
qed simp

text \<open>
  Enabled, with the values \<open>u\<close> and \<open>v\<close>, and with the limit \<open>L\<close> if there is one; \<open>below\<close> says that a
  value does not reach the limit.
\<close>

definition at :: "nat option \<Rightarrow> nat \<Rightarrow> nat \<Rightarrow> nat \<Rightarrow> reluctant \<Rightarrow> bool" where
  "at L p u v r \<longleftrightarrow> ru r = of_nat u \<and> rv r = of_nat v \<and> period r = of_nat p
     \<and> countdown r = of_nat (v * p) \<and> \<not> trigger r
     \<and> (case L of None \<Rightarrow> \<not> limited r | Some l \<Rightarrow> limited r \<and> limit r = of_nat l \<and> l < 2 ^ 31)"

definition below :: "nat option \<Rightarrow> nat \<Rightarrow> bool" where
  "below L v = (case L of None \<Rightarrow> True | Some l \<Rightarrow> v < l)"

lemma below_mono: "below L b \<Longrightarrow> a \<le> b \<Longrightarrow> below L a"
  by (auto simp: below_def split: option.splits)

text \<open>The values after a signal, before the limit is looked at.\<close>

definition after :: "nat \<Rightarrow> nat \<Rightarrow> nat \<times> nat" where
  "after u v = (if of_nat (low u) = (of_nat v :: 64 word) then (u + 1, 1) else (u, 2 * v))"

lemma tick_signal:
  assumes "at L p u v r" "0 < v" "0 < p" "v * p < 2 ^ 64"
  shows "list_all (\<lambda>i. \<not> fst (test ((tick ^^ i) r))) [0..<v * p]"
    and "fst (test ((tick ^^ (v * p)) r))"
    and "below L (snd (after u v)) \<Longrightarrow> at L p (fst (after u v)) (snd (after u v)) (snd (test ((tick ^^ (v * p)) r)))"
    and "\<not> below L (snd (after u v)) \<Longrightarrow> v < 2 ^ 31 \<Longrightarrow> at L p 1 1 (snd (test ((tick ^^ (v * p)) r)))"
proof -
  have "p \<le> v * p" using assms(2) by simp
  then have pp: "p < 2 ^ 64" using assms(4) by (rule le_less_trans)
  then have per: "period r \<noteq> 0" using assms(1,3) by (auto simp: at_def word_of_nat_eq_0_iff dest: dvd_imp_le)
  have cd: "unat (countdown r) = v * p" using assms(1) unat_word64 [OF assms(4)] by (simp add: at_def del: of_nat_mult)
  have nt: "\<not> trigger r" using assms(1) by (simp add: at_def)
  note wait = tick_wait [OF per nt, unfolded cd]
  show "list_all (\<lambda>i. \<not> fst (test ((tick ^^ i) r))) [0..<v * p]"
    using nt by (auto simp: list_all_iff wait test_def)
  have vp: "v * p - 1 < v * p" using assms(2,3) by simp
  obtain m where m: "v * p = Suc m" using vp by (cases "v * p") simp_all
  then have "of_nat (v * p - 1) = (of_nat (v * p) - 1 :: 64 word)" by (simp del: of_nat_mult)
  then have one: "countdown r - of_nat (v * p - 1) = 1"
    using assms(1) by (simp add: at_def)
  have "(tick ^^ (v * p)) r = tick ((tick ^^ (v * p - 1)) r)" by (simp add: m)
  also have "\<dots> = tick (r\<lparr>countdown := 1\<rparr>)" by (simp only: wait [OF vp] one)
  finally have t: "(tick ^^ (v * p)) r = tick (r\<lparr>countdown := 1\<rparr>)" .
  show "fst (test ((tick ^^ (v * p)) r))"
    unfolding t using per nt by (simp add: tick_def test_def Let_def)
  let ?d = "doubling (r\<lparr>countdown := 0\<rparr>)"
  have d: "ru ?d = of_nat (fst (after u v))" "rv ?d = of_nat (snd (after u v))" "limited ?d = limited r" "limit ?d = limit r"
    "period ?d = period r" "trigger ?d = trigger r"
    using assms(1) by (simp_all add: doubling_def after_def at_def and_minus_low)
  have st: "snd (test ((tick ^^ (v * p)) r)) =
      (start_over ?d)\<lparr>countdown := rv (start_over ?d) * period (start_over ?d), trigger := False\<rparr>"
    unfolding t using per nt by (simp add: tick_def test_def Let_def)
  have le: "rv ?d \<ge> limit ?d \<longleftrightarrow> l \<le> snd (after u v)" if "L = Some l" "snd (after u v) < 2 ^ 64" for l
    using that assms(1) unat_word64 [of l] unat_word64 [OF that(2)] by (simp add: d at_def word_le_nat_alt)
  have v2: "snd (after u v) < 2 ^ 64" if "v < 2 ^ 31" using that by (simp add: after_def)
  show "at L p (fst (after u v)) (snd (after u v)) (snd (test ((tick ^^ (v * p)) r)))" if b: "below L (snd (after u v))"
  proof -
    have "\<not> (limited ?d \<and> rv ?d \<ge> limit ?d)"
    proof (cases L)
      case None
      then show ?thesis using assms(1) d(3) by (simp add: at_def)
    next
      case (Some l)
      then have "snd (after u v) < l" "l < 2 ^ 31" using b assms(1) by (simp_all add: below_def at_def)
      then show ?thesis using le [OF Some] by simp
    qed
    then have "start_over ?d = ?d" unfolding start_over_def by (rule if_not_P)
    then show ?thesis unfolding st using assms(1) d by (simp add: at_def split: option.splits)
  qed
  show "at L p 1 1 (snd (test ((tick ^^ (v * p)) r)))" if b: "\<not> below L (snd (after u v))" "v < 2 ^ 31"
  proof -
    obtain l where l: "L = Some l" "l \<le> snd (after u v)" using b(1) by (auto simp: below_def split: option.splits)
    then have "limited ?d \<and> rv ?d \<ge> limit ?d" using le [OF l(1) v2 [OF b(2)]] assms(1) d(3) by (simp add: at_def)
    then have "start_over ?d = ?d\<lparr>ru := 1, rv := 1\<rparr>" unfolding start_over_def by (rule if_P)
    then show ?thesis unfolding st using assms(1) d(3-6) by (simp add: at_def l(1))
  qed
qed

lemma after_powers:
  assumes "low u = 2 ^ (i + j)" "u < 2 ^ 64"
  shows "after u (2 ^ i) = (if j = 0 then (u + 1, 1) else (u, 2 ^ Suc i))"
proof (cases j)
  case (Suc k)
  have "low u < 2 ^ 64" using low_le [of u] assms(2) by simp
  moreover have lu: "2 ^ i < low u" unfolding assms(1) by (rule power_strict_increasing) (simp_all add: Suc)
  ultimately have "of_nat (low u) \<noteq> (of_nat (2 ^ i) :: 64 word)"
    using unat_word64 [of "low u"] unat_word64 [of "2 ^ i"] by (metis less_irrefl less_trans)
  then show ?thesis by (simp add: after_def Suc)
qed (simp add: after_def assms(1))

lemma powers_upt: "powers (2 ^ j) = map (\<lambda>k. 2 ^ k) [0..<j + 1]"
proof (induction j)
  case (Suc j)
  then show ?case by (simp add: powers_double)
qed (simp add: powers_1 [simplified])

text \<open>The powers of two after \<open>2 ^ i\<close>, up to the lowest bit of \<open>u\<close> or up to the limit.\<close>

lemma intervals_walk:
  assumes "at L p u (2 ^ i) r" "0 < p" "u < 2 ^ 64" "low u = 2 ^ (i + j + k)" "2 ^ (i + j) * p < 2 ^ 64" "below L (2 ^ (i + j))"
    and "k = 0 \<Longrightarrow> below L 1"
    and "\<And>s. k = 0 \<Longrightarrow> at L p (u + 1) 1 s \<Longrightarrow> intervals s gs"
    and "0 < k \<Longrightarrow> \<not> below L (2 ^ Suc (i + j))" "\<And>s. 0 < k \<Longrightarrow> at L p 1 1 s \<Longrightarrow> intervals s gs"
  shows "intervals r (map (\<lambda>v. v * p) (map (\<lambda>k. 2 ^ k) [i..<i + j + 1]) @ gs)"
  using assms
proof (induction j arbitrary: i r)
  case 0
  have b: "2 ^ i * p < 2 ^ 64" using "0.prems"(5) by simp
  note s = tick_signal [OF "0.prems"(1) _ assms(2) b]
  have a: "after u (2 ^ i) = (if k = 0 then (u + 1, 1) else (u, 2 ^ Suc i))"
    using after_powers [of u i k] "0.prems"(3,4) by simp
  have "intervals (snd (test ((tick ^^ (2 ^ i * p)) r))) gs"
  proof (cases "k = 0")
    case True
    then show ?thesis using s(3) "0.prems"(7,8) by (simp add: a)
  next
    case False
    then have "\<not> below L (2 ^ Suc i)" using "0.prems"(9) by simp
    moreover obtain l where "L = Some l" using \<open>\<not> below L _\<close> by (auto simp: below_def split: option.splits)
    then have "2 ^ i < l" "l < 2 ^ 31" using "0.prems"(1,6) by (simp_all add: below_def at_def)
    then have "(2::nat) ^ i < 2 ^ 31" by (rule less_trans)
    ultimately show ?thesis using s(4) "0.prems"(10) False by (simp add: a)
  qed
  then show ?case using s(1,2) by simp
next
  case (Suc j)
  have le: "(2::nat) ^ i \<le> 2 ^ (i + Suc j)" "(2::nat) ^ Suc i \<le> 2 ^ (i + Suc j)" by (rule power_increasing; simp)+
  have b: "2 ^ i * p < 2 ^ 64" using Suc.prems(5) le(1) by (metis le_less_trans mult_le_mono1)
  have bl: "below L (2 ^ Suc i)" by (rule below_mono [OF Suc.prems(6) le(2)])
  note s = tick_signal [OF Suc.prems(1) _ assms(2) b]
  have "after u (2 ^ i) = (u, 2 ^ Suc i)" using after_powers [of u i "Suc j + k"] Suc.prems(3,4) by (simp add: add.assoc)
  then have n: "at L p u (2 ^ Suc i) (snd (test ((tick ^^ (2 ^ i * p)) r)))" using s(3) bl by simp
  have up: "[i..<i + Suc j + 1] = i # [Suc i..<Suc i + j + 1]" by (simp add: upt_conv_Cons)
  have "intervals (snd (test ((tick ^^ (2 ^ i * p)) r)))
      (map (\<lambda>v. v * p) (map (\<lambda>k. 2 ^ k) [Suc i..<Suc i + j + 1]) @ gs)"
    by (rule Suc.IH [OF n assms(2)]) (use Suc.prems(3-10) in simp_all)
  then show ?case unfolding up using s(1,2) by simp
qed

text \<open>The powers of two up to the lowest bit of \<open>u\<close>, which is below the limit.\<close>

lemma intervals_powers:
  assumes "at L p u 1 r" "0 < p" "0 < u" "u < 2 ^ 64" "low u * p < 2 ^ 64" "below L (low u)"
    and "\<And>s. at L p (u + 1) 1 s \<Longrightarrow> intervals s gs"
  shows "intervals r (map (\<lambda>v. v * p) (powers (low u)) @ gs)"
proof -
  obtain j where j: "low u = 2 ^ j" using low_is_power [OF assms(3)] by blast
  have "below L 1" using below_mono [OF assms(6), of 1] by (simp add: j)
  then show ?thesis
    using intervals_walk [of L p u 0 r j 0 gs] assms by (simp add: j powers_upt)
qed

lemma intervals_doublings:
  assumes "at L p u 1 r" "0 < p" "p < 2 ^ 31" "0 < u" "u + n \<le> 2 ^ 32 + 1" "\<forall>x \<in> {u..<u + n}. below L (low x)"
    and "\<And>s. at L p (u + n) 1 s \<Longrightarrow> intervals s gs"
  shows "intervals r (map (\<lambda>v. v * p) (concat (map (\<lambda>u. powers (low u)) [u..<u + n])) @ gs)"
  using assms
proof (induction n arbitrary: u r)
  case (Suc n)
  have "[u..<u + Suc n] = u # [Suc u..<Suc u + n]" by (simp add: upt_conv_Cons)
  moreover have "intervals r (map (\<lambda>v. v * p) (powers (low u))
      @ (map (\<lambda>v. v * p) (concat (map (\<lambda>u. powers (low u)) [Suc u..<Suc u + n])) @ gs))"
  proof (rule intervals_powers [OF Suc.prems(1,2,4)])
    have "low u * p \<le> 2 ^ 32 * 2 ^ 31"
      using low_le [of u] Suc.prems(3,5) by (intro mult_le_mono) simp_all
    then show "low u * p < 2 ^ 64" by simp
    show "u < 2 ^ 64" using Suc.prems(5) by simp
    show "below L (low u)" using Suc.prems(6) by simp
    show "intervals s (map (\<lambda>v. v * p) (concat (map (\<lambda>u. powers (low u)) [Suc u..<Suc u + n])) @ gs)"
      if "at L p (u + 1) 1 s" for s
      by (rule Suc.IH) (use that Suc.prems in simp_all)
  qed
  ultimately show ?case by simp
qed simp

text \<open>
  With a limit from \<open>2 ^ m + 1\<close> to \<open>2 ^ Suc m\<close> the sequence starts over in place of its first member
  \<open>2 ^ Suc m\<close>.
\<close>

lemma low_small: "0 < x \<Longrightarrow> x < 2 ^ Suc m \<Longrightarrow> low x \<le> 2 ^ m"
proof (induction m arbitrary: x)
  case 0
  then have "x = 1" by simp
  then show ?case using low_odd [of 1] by simp
next
  case (Suc m)
  show ?case
  proof (cases "odd x")
    case True
    then show ?thesis by (simp add: low_odd)
  next
    case False
    then obtain y where y: "x = 2 * y" by (auto elim: evenE)
    then show ?thesis using Suc.IH [of y] Suc.prems by (simp add: low_double)
  qed
qed

lemma intervals_cycle:
  assumes r: "at (Some l) p 1 1 r" and p: "0 < p" "p < 2 ^ 31" and l: "2 ^ m < l" "l \<le> 2 ^ Suc m"
    and gs: "\<And>s. at (Some l) p 1 1 s \<Longrightarrow> intervals s gs"
  shows "intervals r (map (\<lambda>v. v * p) (luby (Suc m) @ luby (Suc m)) @ gs)"
proof -
  let ?n = "2 ^ Suc m :: nat" and ?f = "\<lambda>u. powers (low u)"
  have "2 ^ m < (2::nat) ^ 31" using l(1) r by (simp add: at_def)
  then have m: "m < 31" by (rule power_less_imp_less_exp [rotated]) simp
  then have n: "(2::nat) ^ m \<le> 2 ^ 30" "?n \<le> 2 ^ 31" by (intro power_increasing; simp)+
  have "2 ^ m * p \<le> 2 ^ 30 * 2 ^ 31" using n(1) p(2) by (intro mult_le_mono) simp_all
  then have vp: "2 ^ m * p < 2 ^ 64" by simp
  have last: "intervals s (map (\<lambda>v. v * p) (map (\<lambda>k. 2 ^ k) [0..<m + 1]) @ gs)" if s: "at (Some l) p ?n 1 s" for s
    using intervals_walk [of "Some l" p ?n 0 s m 1 gs] s p(1) n vp l gs low_power [of "Suc m"] by (simp add: below_def)
  have "intervals r (map (\<lambda>v. v * p) (concat (map ?f [1..<1 + (?n - 1)])) @ (map (\<lambda>v. v * p) (map (\<lambda>k. 2 ^ k) [0..<m + 1]) @ gs))"
  proof (rule intervals_doublings [OF r p])
    show "\<forall>x \<in> {1..<1 + (?n - 1)}. below (Some l) (low x)"
    proof
      fix x :: nat assume "x \<in> {1..<1 + (?n - 1)}"
      then have "low x \<le> 2 ^ m" by (intro low_small) simp_all
      then show "below (Some l) (low x)" using l(1) by (simp add: below_def)
    qed
    show "1 + (?n - 1) \<le> 2 ^ 32 + 1" using n(2) by simp
  qed (use last in simp_all)
  moreover have "concat (map ?f [1..<1 + (?n - 1)]) @ map (\<lambda>k. 2 ^ k) [0..<m + 1] = luby (Suc m) @ luby (Suc m)"
  proof -
    have "[1..<?n + 1] = [1..<1 + (?n - 1)] @ [?n]" using upt_Suc_append [of 1 ?n] by simp
    then have "doublings ?n = concat (map ?f [1..<1 + (?n - 1)]) @ powers ?n" using low_power [of "Suc m"] by (simp add: doublings_def del: power_Suc)
    also have "powers ?n = map (\<lambda>k. 2 ^ k) [0..<m + 1] @ [?n]" using powers_upt [of "Suc m"] by simp
    finally have "(concat (map ?f [1..<1 + (?n - 1)]) @ map (\<lambda>k. 2 ^ k) [0..<m + 1]) @ [?n] = (luby (Suc m) @ luby (Suc m)) @ [?n]"
      using doublings_luby [of "Suc m"] by simp
    then show ?thesis by (simp only: append_same_eq)
  qed
  ultimately show ?thesis by (metis append_assoc map_append)
qed

lemma intervals_limit_1:
  assumes "at (Some 1) p 1 1 r" "0 < p" "p < 2 ^ 64" "\<And>s. at (Some 1) p 1 1 s \<Longrightarrow> intervals s gs"
  shows "intervals r (map (\<lambda>v. v * p) (replicate n 1) @ gs)"
  using assms(1)
proof (induction n arbitrary: r)
  case (Suc n)
  have "1 * p < 2 ^ 64" using assms(3) by simp
  note s = tick_signal [OF Suc.prems zero_less_one assms(2) this, unfolded mult_1]
  have "at (Some 1) p 1 1 (snd (test ((tick ^^ p) r)))" using s(4) by (simp add: below_def after_def)
  then show ?case using s(1,2) Suc.IH by simp
qed (use assms(4) in simp)

lemma tick_disabled: "(tick ^^ i) (disable r) = disable r"
  by (induction i) (simp_all add: tick_def disable_def)

section \<open>Properties\<close>

text \<open>
  C35. Enabled with a positive period \<open>p\<close>, the intervals between the signals are exactly the following
  ones times \<open>p\<close>, so every signal comes and none earlier. Without a limit they are the Luby
  sequence, for the first \<open>2 ^ 33 - 1\<close> signals. With a limit \<open>l\<close>, as the option \<open>reluctantmax\<close> sets it,
  they are for ever the members of the Luby sequence before its first \<open>2 ^ m\<close>, the power of two that reaches
  \<open>l\<close>, over and over again; with \<open>l = 1\<close> they are all one.
\<close>

theorem reluctant_luby:
  assumes "0 < p" "p < 2 ^ 31" "l < 2 ^ 31"
  shows "(l \<le> 0 \<and> k \<le> 33 \<longrightarrow> intervals (enable p l r) (map (\<lambda>v. v * nat p) (luby k))) \<and>
    (0 < l \<and> l \<le> 2 ^ m \<and> 0 < m \<and> (m = 1 \<or> 2 ^ (m - 1) < l) \<longrightarrow>
       intervals (enable p l r) (map (\<lambda>v. v * nat p) (concat (replicate k (luby m @ luby m)))))"
proof (intro conjI impI)
  have p: "0 < nat p" "nat p < 2 ^ 31" using assms(1,2) by simp_all
  assume l: "l \<le> 0 \<and> k \<le> 33"
  show "intervals (enable p l r) (map (\<lambda>v. v * nat p) (luby k))"
  proof (cases k)
    case (Suc j)
    have "at None (nat p) 1 1 (enable p l r)" using assms(1) l by (simp add: at_def enable_def Let_def)
    moreover have "(2::nat) ^ j \<le> 2 ^ 32" using l Suc by (intro power_increasing) simp_all
    ultimately have "intervals (enable p l r) (map (\<lambda>v. v * nat p) (concat (map (\<lambda>u. powers (low u)) [1..<1 + 2 ^ j])))"
      using intervals_doublings [of None "nat p" 1 "enable p l r" "2 ^ j" "[]"] p by (simp add: below_def)
    moreover have "concat (map (\<lambda>u. powers (low u)) [1..<1 + 2 ^ j]) = luby (Suc j)"
      using doublings_luby [of j] by (simp only: doublings_def add.commute [of 1 "2 ^ j"])
    ultimately show ?thesis by (simp only: Suc)
  qed simp
next
  have p: "0 < nat p" "nat p < 2 ^ 31" using assms(1,2) by simp_all
  assume l: "0 < l \<and> l \<le> 2 ^ m \<and> 0 < m \<and> (m = 1 \<or> 2 ^ (m - 1) < l)"
  then obtain j where m: "m = Suc j" by (cases m) auto
  have start: "at (Some (nat l)) (nat p) 1 1 (enable p l r)"
    using assms(1,3) l by (simp add: at_def enable_def Let_def)
  have "intervals s (map (\<lambda>v. v * nat p) (concat (replicate k (luby m @ luby m))))" if "at (Some (nat l)) (nat p) 1 1 s" for s
    using that
  proof (induction k arbitrary: s)
    case (Suc k)
    show ?case
    proof (cases "l = 1")
      case True
      then have "m = 1" using l by (cases m) auto
      have "luby m @ luby m = replicate 2 1" unfolding \<open>m = 1\<close> by (simp add: numeral_2_eq_2)
      then show ?thesis
        using intervals_limit_1 [of "nat p" s "map (\<lambda>v. v * nat p) (concat (replicate k (luby m @ luby m)))" 2] Suc True p by simp
    next
      case False
      then have "2 ^ j < l" "l \<le> 2 ^ Suc j" using l m by (auto simp del: power_Suc)
      then have "2 ^ j < nat l" "nat l \<le> 2 ^ Suc j" using l by (simp_all add: nat_le_iff zless_nat_eq_int_zless)
      from intervals_cycle [OF Suc.prems p this Suc.IH] show ?thesis by (simp add: m)
    qed
  qed simp
  then show "intervals (enable p l r) (map (\<lambda>v. v * nat p) (concat (replicate k (luby m @ luby m))))" using start by blast
qed

definition sample_reluctant :: reluctant where
  "sample_reluctant = \<lparr>ru = 0, rv = 0, limit = 0, period = 0, countdown = 0, trigger = False, limited = False\<rparr>"

theorem reluctant_luby_witness:
  "intervals (enable 1024 0 sample_reluctant) (map (\<lambda>v. v * nat 1024) (luby 3)) \<and> luby 3 = [1, 1, 2, 1, 1, 2, 4] \<and>
   intervals (enable 1024 1048576 sample_reluctant) (map (\<lambda>v. v * nat 1024) (concat (replicate 5 (luby 20 @ luby 20))))"
proof (intro conjI)
  show "intervals (enable 1024 0 sample_reluctant) (map (\<lambda>v. v * nat 1024) (luby 3))"
    using reluctant_luby [of 1024 0 3 sample_reluctant 0] by simp
  show "intervals (enable 1024 1048576 sample_reluctant) (map (\<lambda>v. v * nat 1024) (concat (replicate 5 (luby 20 @ luby 20))))"
    by (rule reluctant_luby [THEN conjunct2, rule_format, of 1024 1048576 20 sample_reluctant 5]) simp_all
qed (simp add: numeral_3_eq_3)

end
