(* ===== verification/Heap_Array.thy ===== *)
theory Heap_Array
  imports Orbit_Prelude
begin

text \<open>
  The binary heap with updates of CaDiCaL: \<open>heap.hpp\<close>. Elements and positions are \<open>unsigned\<close>;
  they stay below \<open>UINT_MAX\<close>, so no arithmetic on them wraps. The comparison \<open>less\<close>, the
  template parameter, is the first argument. The loops of \<open>up\<close> and \<open>down\<close> end only when the two
  arrays fit together, so they are partial here.
\<close>

section \<open>Model\<close>

definition invalid_heap_position :: nat where
  "invalid_heap_position = 2 ^ 32 - 1"

record heap =
  array :: "nat list"
  pos :: "nat list"

definition empty_heap :: heap where
  "empty_heap = \<lparr>array = [], pos = []\<rparr>"

text \<open>\<open>index\<close> returns a reference; first the growing of \<open>pos\<close>, then the read.\<close>

definition indexed :: "nat \<Rightarrow> heap \<Rightarrow> heap" where
  "indexed e h = (if e \<ge> length (pos h) then h\<lparr>pos := resize (1 + e) invalid_heap_position (pos h)\<rparr> else h)"

definition index :: "heap \<Rightarrow> nat \<Rightarrow> nat" where
  "index h e = pos (indexed e h) ! e"

definition heap_size :: "heap \<Rightarrow> nat" where
  "heap_size h = length (array h)"

definition has_parent :: "heap \<Rightarrow> nat \<Rightarrow> bool" where
  "has_parent h e \<longleftrightarrow> 0 < index h e"

definition has_left :: "heap \<Rightarrow> nat \<Rightarrow> bool" where
  "has_left h e \<longleftrightarrow> 2 * index h e + 1 < heap_size h"

definition has_right :: "heap \<Rightarrow> nat \<Rightarrow> bool" where
  "has_right h e \<longleftrightarrow> 2 * index h e + 2 < heap_size h"

definition parent :: "heap \<Rightarrow> nat \<Rightarrow> nat" where
  "parent h e = array h ! ((index h e - 1) div 2)"

definition left :: "heap \<Rightarrow> nat \<Rightarrow> nat" where
  "left h e = array h ! (2 * index h e + 1)"

definition right :: "heap \<Rightarrow> nat \<Rightarrow> nat" where
  "right h e = array h ! (2 * index h e + 2)"

definition exchange :: "nat \<Rightarrow> nat \<Rightarrow> heap \<Rightarrow> heap" where
  "exchange a b h =
     (let h = indexed b (indexed a h); i = pos h ! a; j = pos h ! b
      in h\<lparr>array := (array h)[i := array h ! j, j := array h ! i], pos := (pos h)[a := j, b := i]\<rparr>)"

partial_function (option) up :: "(nat \<Rightarrow> nat \<Rightarrow> bool) \<Rightarrow> nat \<Rightarrow> heap \<Rightarrow> heap option" where
  "up lt e h =
     (if has_parent h e \<and> lt (parent h e) e then up lt e (exchange (parent h e) e h) else Some h)"

text \<open>The larger child.\<close>

definition larger_child :: "(nat \<Rightarrow> nat \<Rightarrow> bool) \<Rightarrow> heap \<Rightarrow> nat \<Rightarrow> nat" where
  "larger_child lt h e =
     (let c = left h e
      in if has_right h e then let r = right h e in if lt c r then r else c else c)"

partial_function (option) down :: "(nat \<Rightarrow> nat \<Rightarrow> bool) \<Rightarrow> nat \<Rightarrow> heap \<Rightarrow> heap option" where
  "down lt e h =
     (if has_left h e
      then let c = larger_child lt h e
           in if \<not> lt e c then Some h else down lt e (exchange e c h)
      else Some h)"

definition contains :: "heap \<Rightarrow> nat \<Rightarrow> bool" where
  "contains h e = (if e \<ge> length (pos h) then False else pos h ! e \<noteq> invalid_heap_position)"

definition heap_update :: "(nat \<Rightarrow> nat \<Rightarrow> bool) \<Rightarrow> nat \<Rightarrow> heap \<Rightarrow> heap option" where
  "heap_update lt e h = (case up lt e h of None \<Rightarrow> None | Some h \<Rightarrow> down lt e h)"

definition append_element :: "nat \<Rightarrow> heap \<Rightarrow> heap" where
  "append_element e h =
     (let i = length (array h); h = indexed e (h\<lparr>array := array h @ [e]\<rparr>) in h\<lparr>pos := (pos h)[e := i]\<rparr>)"

definition push_element :: "(nat \<Rightarrow> nat \<Rightarrow> bool) \<Rightarrow> nat \<Rightarrow> heap \<Rightarrow> heap option" where
  "push_element lt e h = heap_update lt e (append_element e h)"

definition front :: "heap \<Rightarrow> nat" where
  "front h = array h ! 0"

text \<open>\<open>pop_front\<close> up to the call of \<open>down\<close>.\<close>

definition remove_front :: "heap \<Rightarrow> heap" where
  "remove_front h =
     (let res = array h ! 0; last = array h ! (length (array h) - 1);
          h = (if heap_size h > 1 then exchange res last h else h);
          h = indexed res h
      in h\<lparr>pos := (pos h)[res := invalid_heap_position], array := butlast (array h)\<rparr>)"

definition pop_front :: "(nat \<Rightarrow> nat \<Rightarrow> bool) \<Rightarrow> heap \<Rightarrow> (heap \<times> nat) option" where
  "pop_front lt h =
     (let res = array h ! 0; last = array h ! (length (array h) - 1); h = remove_front h
      in if heap_size h > 1 then map_option (\<lambda>h. (h, res)) (down lt last h) else Some (h, res))"

section \<open>Positions\<close>

text \<open>The two arrays are inverse to each other.\<close>

definition linked :: "heap \<Rightarrow> bool" where
  "linked h \<longleftrightarrow> length (array h) \<le> invalid_heap_position
     \<and> (\<forall>i < length (array h). array h ! i < length (pos h) \<and> pos h ! (array h ! i) = i)
     \<and> (\<forall>e < length (pos h). pos h ! e \<noteq> invalid_heap_position
          \<longrightarrow> pos h ! e < length (array h) \<and> array h ! (pos h ! e) = e)"

lemma linkedD:
  assumes "linked h" "i < length (array h)"
  shows "array h ! i < length (pos h)" "pos h ! (array h ! i) = i"
  using assms by (simp_all add: linked_def)

lemma linked_index: "linked h \<Longrightarrow> i < length (array h) \<Longrightarrow> index h (array h ! i) = i"
  using linkedD [of h i] by (simp add: index_def indexed_def)

lemma linked_distinct: "linked h \<Longrightarrow> distinct (array h)"
  unfolding distinct_conv_nth by (metis linkedD(2))

lemma linked_contains: "linked h \<Longrightarrow> contains h e \<longleftrightarrow> e \<in> set (array h)"
proof
  assume h: "linked h"
  show "e \<in> set (array h)" if "contains h e"
  proof -
    have "e < length (pos h)" "pos h ! e \<noteq> invalid_heap_position"
      using that by (simp_all add: contains_def split: if_splits)
    then have "pos h ! e < length (array h)" "array h ! (pos h ! e) = e" using h by (simp_all add: linked_def)
    then show ?thesis using nth_mem by metis
  qed
  show "e \<in> set (array h) \<Longrightarrow> contains h e"
  proof -
    assume "e \<in> set (array h)"
    then obtain i where i: "i < length (array h)" "array h ! i = e" by (auto simp: in_set_conv_nth)
    then have "e < length (pos h)" "pos h ! e = i" using linkedD [OF h i(1)] by simp_all
    moreover have "i \<noteq> invalid_heap_position" using h i(1) by (simp add: linked_def)
    ultimately show "contains h e" by (simp add: contains_def)
  qed
qed

text \<open>Exchanging the elements at two positions.\<close>

definition swap_at :: "nat \<Rightarrow> nat \<Rightarrow> 'a list \<Rightarrow> 'a list" where
  "swap_at i j xs = xs[i := xs ! j, j := xs ! i]"

lemma length_swap_at [simp]: "length (swap_at i j xs) = length xs"
  by (simp add: swap_at_def)

lemma nth_swap_at: "i < length xs \<Longrightarrow> j < length xs \<Longrightarrow> k < length xs \<Longrightarrow>
    swap_at i j xs ! k = (if k = i then xs ! j else if k = j then xs ! i else xs ! k)"
  by (auto simp: swap_at_def nth_list_update)

lemma mset_swap_at: "i < length xs \<Longrightarrow> j < length xs \<Longrightarrow> mset (swap_at i j xs) = mset xs"
  by (simp add: swap_at_def mset_swap)

lemma set_swap_at [simp]: "i < length xs \<Longrightarrow> j < length xs \<Longrightarrow> set (swap_at i j xs) = set xs"
  using mset_swap_at by (rule mset_eq_setD)

lemma exchange_swap:
  assumes "linked h" "i < length (array h)" "j < length (array h)"
  shows "linked (exchange (array h ! i) (array h ! j) h)"
    and "array (exchange (array h ! i) (array h ! j) h) = swap_at i j (array h)"
proof -
  let ?a = "array h ! i" and ?b = "array h ! j"
  note a = linkedD [OF assms(1,2)] and b = linkedD [OF assms(1,3)]
  have e: "exchange ?a ?b h = h\<lparr>array := swap_at i j (array h), pos := (pos h)[?a := j, ?b := i]\<rparr>"
    using a b by (simp add: exchange_def indexed_def Let_def swap_at_def)
  show "array (exchange ?a ?b h) = swap_at i j (array h)" by (simp add: e)
  have inj: "array h ! k = array h ! l \<longleftrightarrow> k = l" if "k < length (array h)" "l < length (array h)" for k l
    using linked_distinct [OF assms(1)] that by (simp add: nth_eq_iff_index_eq)
  have p: "(pos h)[?a := j, ?b := i] ! x = (if x = ?b then i else if x = ?a then j else pos h ! x)"
    if "x < length (pos h)" for x
    using that a(1) b(1) by (simp add: nth_list_update)
  show "linked (exchange ?a ?b h)"
    unfolding e linked_def
  proof (simp, intro conjI allI impI)
    show "length (array h) \<le> invalid_heap_position" using assms(1) by (simp add: linked_def)
  next
    fix k assume k: "k < length (array h)"
    show "swap_at i j (array h) ! k < length (pos h)"
      using linkedD [OF assms(1)] k assms(2,3) by (simp add: nth_swap_at)
    then show "(pos h)[?a := j, ?b := i] ! (swap_at i j (array h) ! k) = k"
      using linkedD [OF assms(1)] k assms(2,3) by (simp add: p nth_swap_at inj)
  next
    fix x assume x: "x < length (pos h)" and v: "(pos h)[?a := j, ?b := i] ! x \<noteq> invalid_heap_position"
    have old: "pos h ! x < length (array h) \<and> array h ! (pos h ! x) = x" if "x \<noteq> ?a" "x \<noteq> ?b"
      using assms(1) x v that by (simp add: p linked_def)
    show "(pos h)[?a := j, ?b := i] ! x < length (array h)"
      using old x assms(2,3) by (simp add: p)
    show "swap_at i j (array h) ! ((pos h)[?a := j, ?b := i] ! x) = x"
      using old x assms(2,3) a b by (auto simp: p nth_swap_at)
  qed
qed

lemma append_linked:
  assumes "linked h" "e \<notin> set (array h)" "length (array h) < invalid_heap_position"
  shows "linked (append_element e h)" "array (append_element e h) = array h @ [e]"
proof -
  have e: "append_element e h = h\<lparr>array := array h @ [e],
      pos := (if e \<ge> length (pos h) then resize (1 + e) invalid_heap_position (pos h) else pos h)[e := length (array h)]\<rparr>"
    by (simp add: append_element_def indexed_def Let_def)
  show "array (append_element e h) = array h @ [e]" by (simp add: e)
  define ps where "ps = (if e \<ge> length (pos h) then resize (1 + e) invalid_heap_position (pos h) else pos h)"
  have len: "e < length ps" "length (pos h) \<le> length ps" by (auto simp: ps_def)
  have old: "ps ! x = (if x < length (pos h) then pos h ! x else invalid_heap_position)" if "x < length ps" for x
    using that by (auto simp: ps_def nth_resize_old nth_resize_new split: if_splits)
  have ne: "array h ! i \<noteq> e" if "i < length (array h)" for i using assms(2) that nth_mem by blast
  show "linked (append_element e h)"
    unfolding e ps_def [symmetric] linked_def
  proof (simp, intro conjI allI impI)
    show "Suc (length (array h)) \<le> invalid_heap_position" using assms(3) by simp
  next
    fix i assume i: "i < Suc (length (array h))"
    show "(array h @ [e]) ! i < length ps"
      using linkedD(1) [OF assms(1), of i] i len by (cases "i < length (array h)") (auto simp: nth_append)
    show "ps[e := length (array h)] ! ((array h @ [e]) ! i) = i"
    proof (cases "i < length (array h)")
      case True
      then have "array h ! i < length (pos h)" "pos h ! (array h ! i) = i" using linkedD [OF assms(1)] by auto
      then show ?thesis using True ne [OF True] len old [of "array h ! i"] by (simp add: nth_append)
    qed (use i len in \<open>auto simp: nth_append\<close>)
  next
    fix x assume x: "x < length ps" and v: "ps[e := length (array h)] ! x \<noteq> invalid_heap_position"
    have "pos h ! x < length (array h) \<and> array h ! (pos h ! x) = x" if "x \<noteq> e"
      using assms(1) x v that len old [OF x] by (auto simp: linked_def split: if_splits)
    then show "ps[e := length (array h)] ! x < Suc (length (array h))"
      "(array h @ [e]) ! (ps[e := length (array h)] ! x) = x"
      using x len old [OF x] v by (auto simp: nth_list_update nth_append split: if_splits)
  qed
qed

end
