(* ===== verification/Heap_Order.thy ===== *)
theory Heap_Order
  imports Heap_Array "HOL-Library.Multiset"
begin

text \<open>
  The heap order. What \<open>heap.hpp\<close> needs of its template parameter is the locale \<open>weak_order\<close>;
  inside it, \<open>up\<close> and \<open>down\<close> end and restore the order after a change at one position, and the
  operations keep the heap with the expected elements.
\<close>

section \<open>Order with a hole\<close>

text \<open>The position of the parent.\<close>

definition par :: "nat \<Rightarrow> nat" where
  "par k = (k - 1) div 2"

definition ordered :: "('a \<Rightarrow> 'a \<Rightarrow> bool) \<Rightarrow> 'a list \<Rightarrow> bool" where
  "ordered lt xs \<longleftrightarrow> (\<forall>k < length xs. 0 < k \<longrightarrow> \<not> lt (xs ! par k) (xs ! k))"

text \<open>
  The order may be violated between position \<open>i\<close> and its parent and children, but not between
  this parent and these children.
\<close>

definition hole :: "('a \<Rightarrow> 'a \<Rightarrow> bool) \<Rightarrow> nat \<Rightarrow> 'a list \<Rightarrow> bool" where
  "hole lt i xs \<longleftrightarrow>
     (\<forall>k < length xs. 0 < k \<longrightarrow> k \<noteq> i \<longrightarrow> par k \<noteq> i \<longrightarrow> \<not> lt (xs ! par k) (xs ! k))
     \<and> (\<forall>k < length xs. 0 < k \<longrightarrow> par k = i \<longrightarrow> 0 < i \<longrightarrow> \<not> lt (xs ! par i) (xs ! k))"

text \<open>The order with the parent of \<open>i\<close> holds, too.\<close>

definition above_ok :: "('a \<Rightarrow> 'a \<Rightarrow> bool) \<Rightarrow> nat \<Rightarrow> 'a list \<Rightarrow> bool" where
  "above_ok lt i xs \<longleftrightarrow> (0 < i \<longrightarrow> \<not> lt (xs ! par i) (xs ! i))"

lemma holeD:
  assumes "hole lt i xs" "k < length xs" "0 < k"
  shows "k \<noteq> i \<Longrightarrow> par k \<noteq> i \<Longrightarrow> \<not> lt (xs ! par k) (xs ! k)"
    and "par k = i \<Longrightarrow> 0 < i \<Longrightarrow> \<not> lt (xs ! par i) (xs ! k)"
  using assms unfolding hole_def by blast+

lemma par_less: "0 < k \<Longrightarrow> par k < k"
  unfolding par_def by linarith

lemma par_child: "par (2 * i + 1) = i" "par (2 * i + 2) = i"
  by (simp_all add: par_def)

lemma par_cases: "0 < k \<Longrightarrow> par k = i \<Longrightarrow> k = 2 * i + 1 \<or> k = 2 * i + 2"
  unfolding par_def by linarith

lemma hole_closed:
  assumes "hole lt i xs" "above_ok lt i xs"
    and "\<And>k. k < length xs \<Longrightarrow> 0 < k \<Longrightarrow> par k = i \<Longrightarrow> \<not> lt (xs ! i) (xs ! k)"
  shows "ordered lt xs"
  unfolding ordered_def
proof (intro allI impI)
  fix k assume k: "k < length xs" "0 < k"
  show "\<not> lt (xs ! par k) (xs ! k)"
  proof (cases "k = i")
    case True
    then show ?thesis using assms(2) k(2) by (simp add: above_ok_def)
  next
    case ki: False
    show ?thesis
    proof (cases "par k = i")
      case True
      then show ?thesis using assms(3) [OF k True] by simp
    next
      case False
      then show ?thesis using holeD(1) [OF assms(1) k ki] by simp
    qed
  qed
qed

lemma ordered_hole: "ordered lt xs \<Longrightarrow> hole lt (length xs) (xs @ [x])"
proof -
  assume o: "ordered lt xs"
  have "\<not> lt ((xs @ [x]) ! par k) ((xs @ [x]) ! k)" if k: "k < length (xs @ [x])" "0 < k" "k \<noteq> length xs" for k
  proof -
    have "k < length xs" using k by simp
    then show ?thesis using o k(2) par_less [OF k(2)] by (simp add: ordered_def nth_append)
  qed
  moreover have "par k \<noteq> length xs" if "k < length (xs @ [x])" "0 < k" for k
    using par_less [OF that(2)] that(1) by simp
  ultimately show ?thesis unfolding hole_def by blast
qed

definition heap_ok :: "(nat \<Rightarrow> nat \<Rightarrow> bool) \<Rightarrow> heap \<Rightarrow> bool" where
  "heap_ok lt h \<longleftrightarrow> linked h \<and> ordered lt (array h)"

section \<open>Sifting\<close>

locale weak_order =
  fixes lt :: "nat \<Rightarrow> nat \<Rightarrow> bool"
  assumes asym: "lt a b \<Longrightarrow> \<not> lt b a"
    and neg_trans: "\<not> lt a b \<Longrightarrow> \<not> lt b c \<Longrightarrow> \<not> lt a c"
begin

lemma irrefl: "\<not> lt a a"
  using asym by blast

lemma up_step:
  assumes "hole lt i xs" "0 < i" "i < length xs" "lt (xs ! par i) (xs ! i)"
  shows "hole lt (par i) (swap_at (par i) i xs)"
proof -
  have pi: "par i < i" "par i < length xs" using assms(2,3) par_less [of i] by simp_all
  note nth = nth_swap_at [OF pi(2) assms(3)]
  have old: "\<not> lt (xs ! par k) (xs ! k)" if "k < length xs" "0 < k" "k \<noteq> i" "par k \<noteq> i" for k
    using holeD(1) [OF assms(1) that(1,2)] that(3,4) .
  show ?thesis
    unfolding hole_def length_swap_at
  proof (intro conjI allI impI)
    fix k assume k: "k < length xs" "0 < k" "k \<noteq> par i" "par k \<noteq> par i"
    have "par k < length xs" using k(1,2) par_less [of k] by simp
    then show "\<not> lt (swap_at (par i) i xs ! par k) (swap_at (par i) i xs ! k)"
      using k old [of k] holeD(2) [OF assms(1) k(1,2)] assms(2) by (cases "par k = i") (auto simp: nth)
  next
    fix k assume k: "k < length xs" "0 < k" "par k = par i" "0 < par i"
    have "par (par i) < par i" using k(4) par_less by blast
    moreover have "\<not> lt (xs ! par (par i)) (xs ! par i)" using old [of "par i"] k(4) pi calculation by simp
    moreover have "\<not> lt (xs ! par i) (xs ! k)" if "k \<noteq> i" using old [of k] k that pi by simp
    moreover have "k \<noteq> par i" using par_less [OF k(2)] k(3) by simp
    ultimately show "\<not> lt (swap_at (par i) i xs ! par (par i)) (swap_at (par i) i xs ! k)"
      using pi k neg_trans [of "xs ! par (par i)" "xs ! par i" "xs ! k"] by (auto simp: nth)
  qed
qed

lemma down_step:
  assumes "hole lt i xs" "above_ok lt i xs" "c < length xs" "0 < c" "par c = i" "lt (xs ! i) (xs ! c)"
    and max: "\<And>k. k < length xs \<Longrightarrow> 0 < k \<Longrightarrow> par k = i \<Longrightarrow> \<not> lt (xs ! c) (xs ! k)"
  shows "hole lt c (swap_at i c xs)" "above_ok lt c (swap_at i c xs)"
proof -
  have ic: "i < c" "i < length xs" using assms(3,5) par_less [OF assms(4)] by simp_all
  note nth = nth_swap_at [OF ic(2) assms(3)]
  show "above_ok lt c (swap_at i c xs)"
    using asym [OF assms(6)] assms(3,5) ic by (simp add: above_ok_def nth)
  show "hole lt c (swap_at i c xs)"
    unfolding hole_def length_swap_at
  proof (intro conjI allI impI)
    fix k assume k: "k < length xs" "0 < k" "k \<noteq> c" "par k \<noteq> c"
    have p: "par k < length xs" "par k \<noteq> k" using k(1,2) par_less [of k] by auto
    show "\<not> lt (swap_at i c xs ! par k) (swap_at i c xs ! k)"
    proof (cases "k = i")
      case True
      then have "\<not> lt (xs ! par i) (xs ! c)" using holeD(2) [OF assms(1,3,4,5)] k(2) by simp
      then show ?thesis using True k p ic assms(3) by (simp add: nth)
    next
      case False
      then show ?thesis using k p ic assms(3) holeD(1) [OF assms(1) k(1,2) False] max [OF k(1,2)]
        by (cases "par k = i") (auto simp: nth)
    qed
  next
    fix k assume k: "k < length xs" "0 < k" "par k = c" "0 < c"
    have "\<not> lt (xs ! c) (xs ! k)" using holeD(1) [OF assms(1) k(1,2)] k ic par_less [OF k(2)] by auto
    moreover have "k \<noteq> c" "k \<noteq> i" using k ic par_less [OF k(2)] by auto
    ultimately show "\<not> lt (swap_at i c xs ! par c) (swap_at i c xs ! k)"
      using k assms(3,5) ic by (simp add: nth)
  qed
qed

lemma up_ends:
  assumes "linked h" "i < length (array h)" "hole lt i (array h)"
  shows "\<exists>h' j. up lt (array h ! i) h = Some h' \<and> linked h' \<and> mset (array h') = mset (array h)
    \<and> j < length (array h') \<and> array h' ! j = array h ! i \<and> hole lt j (array h') \<and> above_ok lt j (array h')"
  using assms
proof (induction i arbitrary: h rule: less_induct)
  case (less i)
  let ?xs = "array h" and ?e = "array h ! i"
  have ix: "index h ?e = i" using linked_index [OF less.prems(1,2)] .
  have parent: "parent h ?e = ?xs ! par i" by (simp add: parent_def ix par_def)
  show ?case
  proof (cases "0 < i \<and> lt (?xs ! par i) ?e")
    case False
    then have "up lt ?e h = Some h" by (subst up.simps) (auto simp: has_parent_def ix parent)
    then show ?thesis using less.prems False by (intro exI [of _ h] exI [of _ i]) (auto simp: above_ok_def)
  next
    case True
    let ?p = "?xs ! par i" and ?g = "exchange (?xs ! par i) ?e h"
    have pi: "par i < i" "par i < length ?xs" using True less.prems(2) par_less [of i] by simp_all
    have g: "linked ?g" "array ?g = swap_at (par i) i ?xs"
      using exchange_swap [OF less.prems(1) pi(2) less.prems(2)] by simp_all
    have at: "array ?g ! par i = ?e" using g(2) pi less.prems(2) by (simp add: nth_swap_at)
    have ms: "mset (array ?g) = mset ?xs" using g(2) mset_swap_at [OF pi(2) less.prems(2)] by simp
    have "hole lt (par i) (array ?g)" using up_step [OF less.prems(3) _ less.prems(2)] True g(2) by simp
    from less.IH [OF pi(1) g(1) _ this] pi(2) g(2) at ms
    obtain h' j where "up lt ?e ?g = Some h'" "linked h'" "mset (array h') = mset ?xs"
      "j < length (array h')" "array h' ! j = ?e" "hole lt j (array h')" "above_ok lt j (array h')" by auto
    moreover have "up lt ?e h = up lt ?e ?g"
      using True by (subst up.simps) (simp add: has_parent_def ix parent)
    ultimately show ?thesis by auto
  qed
qed

text \<open>The larger child of position \<open>i\<close>.\<close>

lemma larger_child_at:
  assumes "linked h" "i < length (array h)" "2 * i + 1 < length (array h)"
  shows "\<exists>c. larger_child lt h (array h ! i) = array h ! c \<and> c < length (array h) \<and> 0 < c \<and> par c = i
    \<and> (\<forall>k < length (array h). 0 < k \<longrightarrow> par k = i \<longrightarrow> \<not> lt (array h ! c) (array h ! k))"
proof -
  let ?xs = "array h"
  have ix: "index h (?xs ! i) = i" using linked_index [OF assms(1,2)] .
  define c where "c = (if 2 * i + 2 < length ?xs \<and> lt (?xs ! (2 * i + 1)) (?xs ! (2 * i + 2)) then 2 * i + 2 else 2 * i + 1)"
  have "larger_child lt h (?xs ! i) = ?xs ! c"
    by (simp add: larger_child_def left_def right_def has_right_def heap_size_def ix c_def Let_def)
  moreover have "c < length ?xs" "0 < c" "par c = i" using assms(3) by (auto simp: c_def par_def)
  moreover have "\<not> lt (?xs ! c) (?xs ! k)" if k: "k < length ?xs" "0 < k" "par k = i" for k
    using par_cases [OF k(2,3)] k(1) irrefl asym by (auto simp: c_def)
  ultimately show ?thesis by blast
qed

lemma down_ends:
  assumes "linked h" "i < length (array h)" "hole lt i (array h)" "above_ok lt i (array h)"
  shows "\<exists>h'. down lt (array h ! i) h = Some h' \<and> linked h' \<and> mset (array h') = mset (array h)
    \<and> ordered lt (array h')"
  using assms
proof (induction "length (array h) - i" arbitrary: h i rule: less_induct)
  case less
  let ?xs = "array h" and ?e = "array h ! i"
  have ix: "index h ?e = i" using linked_index [OF less.prems(1,2)] .
  have left: "has_left h ?e \<longleftrightarrow> 2 * i + 1 < length ?xs" by (simp add: has_left_def ix heap_size_def)
  show ?case
  proof (cases "2 * i + 1 < length ?xs")
    case False
    have none: "\<not> k < length ?xs" if "0 < k" "par k = i" for k
      using par_cases [OF that] False by auto
    have "ordered lt ?xs"
      by (rule hole_closed [OF less.prems(3,4)]) (use none in blast)
    moreover have "down lt ?e h = Some h" using False by (subst down.simps) (simp add: left)
    ultimately show ?thesis using less.prems(1) by simp
  next
    case True
    from larger_child_at [OF less.prems(1,2) True]
    obtain c where c: "larger_child lt h ?e = ?xs ! c" "c < length ?xs" "0 < c" "par c = i"
      and max: "\<And>k. k < length ?xs \<Longrightarrow> 0 < k \<Longrightarrow> par k = i \<Longrightarrow> \<not> lt (?xs ! c) (?xs ! k)" by blast
    have d: "down lt ?e h = (if \<not> lt ?e (?xs ! c) then Some h else down lt ?e (exchange ?e (?xs ! c) h))"
      using True by (subst down.simps) (simp add: left c(1) Let_def)
    show ?thesis
    proof (cases "lt ?e (?xs ! c)")
      case False
      have "ordered lt ?xs"
        by (rule hole_closed [OF less.prems(3,4)]) (rule neg_trans [OF False max])
      then show ?thesis using d False less.prems(1) by simp
    next
      case lt: True
      let ?g = "exchange ?e (?xs ! c) h"
      have g: "linked ?g" "array ?g = swap_at i c ?xs"
        using exchange_swap [OF less.prems(1,2) c(2)] by simp_all
      have ms: "mset (array ?g) = mset ?xs" using g(2) mset_swap_at [OF less.prems(2) c(2)] by simp
      have at: "array ?g ! c = ?e" using g(2) less.prems(2) c(2) by (simp add: nth_swap_at)
      have "i < c" using par_less [OF c(3)] c(4) by simp
      then have m: "length (array ?g) - c < length ?xs - i" using g(2) less.prems(2) by simp
      note s = down_step [OF less.prems(3,4) c(2,3,4) lt max]
      have "\<exists>h'. down lt (array ?g ! c) ?g = Some h' \<and> linked h' \<and> mset (array h') = mset (array ?g)
          \<and> ordered lt (array h')"
      proof (rule less.hyps [OF m g(1)])
        show "c < length (array ?g)" using c(2) g(2) by simp
        show "hole lt c (array ?g)" unfolding g(2) by (rule s(1))
        show "above_ok lt c (array ?g)" unfolding g(2) by (rule s(2))
      qed
      moreover have "down lt ?e h = down lt ?e ?g" using d lt by simp
      ultimately show ?thesis by (simp only: at ms)
    qed
  qed
qed

section \<open>Operations\<close>

lemma sift_ok:
  assumes "linked h" "i < length (array h)" "hole lt i (array h)"
  shows "\<exists>h'. heap_update lt (array h ! i) h = Some h' \<and> heap_ok lt h' \<and> mset (array h') = mset (array h)"
proof -
  obtain g j where g: "up lt (array h ! i) h = Some g" "linked g" "mset (array g) = mset (array h)"
    "j < length (array g)" "array g ! j = array h ! i" "hole lt j (array g)" "above_ok lt j (array g)"
    using up_ends [OF assms] by blast
  obtain h' where "down lt (array g ! j) g = Some h'" "linked h'" "mset (array h') = mset (array g)"
    "ordered lt (array h')"
    using down_ends [OF g(2,4,6,7)] by blast
  then show ?thesis using g(1,3,5) by (simp add: heap_update_def heap_ok_def)
qed

lemma push_ok:
  assumes "heap_ok lt h" "\<not> contains h e" "length (array h) < invalid_heap_position"
  shows "\<exists>h'. push_element lt e h = Some h' \<and> heap_ok lt h' \<and> mset (array h') = add_mset e (mset (array h))"
proof -
  have l: "linked h" "ordered lt (array h)" using assms(1) by (simp_all add: heap_ok_def)
  have "e \<notin> set (array h)" using assms(2) linked_contains [OF l(1)] by simp
  note a = append_linked [OF l(1) this assms(3)]
  have at: "array (append_element e h) ! length (array h) = e" "length (array h) < length (array (append_element e h))"
    by (simp_all add: a(2))
  have "hole lt (length (array h)) (array (append_element e h))" unfolding a(2) by (rule ordered_hole [OF l(2)])
  from sift_ok [OF a(1) at(2) this] show ?thesis by (simp add: push_element_def at(1) a(2))
qed

lemma front_max:
  assumes "heap_ok lt h" "x \<in> set (array h)"
  shows "\<not> lt (front h) x"
proof -
  have "k < length (array h) \<Longrightarrow> \<not> lt (array h ! 0) (array h ! k)" for k
  proof (induction k rule: less_induct)
    case (less k)
    show ?case
    proof (cases "k = 0")
      case False
      then have k: "0 < k" by simp
      have "\<not> lt (array h ! 0) (array h ! par k)" using less par_less [OF k] by simp
      moreover have "\<not> lt (array h ! par k) (array h ! k)"
        using assms(1) less.prems k by (simp add: heap_ok_def ordered_def)
      ultimately show ?thesis by (rule neg_trans)
    qed (simp add: irrefl)
  qed
  then show ?thesis using assms(2) by (auto simp: in_set_conv_nth front_def)
qed

lemma front_in: "array h \<noteq> [] \<Longrightarrow> front h \<in> set (array h)"
  by (simp add: front_def)

end

text \<open>The part of \<open>pop_front\<close> before \<open>down\<close>, for any order.\<close>

lemma mark_last_linked:
  assumes "linked h" "array h \<noteq> []"
  defines "x \<equiv> last (array h)"
  shows "linked (h\<lparr>pos := (pos h)[x := invalid_heap_position], array := butlast (array h)\<rparr>)"
proof -
  let ?n = "length (array h) - 1"
  have n: "?n < length (array h)" using assms(2) by simp
  have x: "x = array h ! ?n" using assms(2) by (simp add: x_def last_conv_nth)
  have xp: "x < length (pos h)" "pos h ! x = ?n" using linkedD [OF assms(1) n] x by simp_all
  have ne: "array h ! i \<noteq> x" if "i < ?n" for i
    using linkedD [OF assms(1)] that n unfolding x by (metis less_irrefl less_trans)
  show ?thesis
    unfolding linked_def
  proof (simp, intro conjI allI impI)
    have "length (array h) \<le> invalid_heap_position" using assms(1) by (simp add: linked_def)
    then show "length (array h) - Suc 0 \<le> invalid_heap_position" by (rule order_trans [OF diff_le_self])
  next
    fix i assume i: "i < length (array h) - Suc 0"
    then have b: "butlast (array h) ! i = array h ! i" by (simp add: nth_butlast)
    show "butlast (array h) ! i < length (pos h)" using linkedD [OF assms(1)] i b by simp
    show "(pos h)[x := invalid_heap_position] ! (butlast (array h) ! i) = i"
      using linkedD [OF assms(1), of i] i b ne [of i] by simp
  next
    fix e assume e: "e < length (pos h)" and v: "(pos h)[x := invalid_heap_position] ! e \<noteq> invalid_heap_position"
    then have "e \<noteq> x" by auto
    then have o: "pos h ! e < length (array h)" "array h ! (pos h ! e) = e"
      using assms(1) e v by (simp_all add: linked_def)
    have "pos h ! e \<noteq> ?n" using o(2) \<open>e \<noteq> x\<close> x by metis
    then have lt: "pos h ! e < length (array h) - Suc 0" using o(1) by simp
    then show "(pos h)[x := invalid_heap_position] ! e < length (array h) - Suc 0"
      "butlast (array h) ! ((pos h)[x := invalid_heap_position] ! e) = e"
      using o \<open>e \<noteq> x\<close> by (simp_all add: nth_butlast)
  qed
qed

lemma remove_front_linked:
  assumes "linked h" "array h \<noteq> []"
  shows "linked (remove_front h)" "array (remove_front h) = butlast (swap_at 0 (length (array h) - 1) (array h))"
proof -
  let ?n = "length (array h) - 1" and ?res = "array h ! 0"
  have n: "?n < length (array h)" and z: "0 < length (array h)" using assms(2) by simp_all
  define g where "g = (if heap_size h > 1 then exchange ?res (array h ! ?n) h else h)"
  have g: "linked g" "array g = swap_at 0 ?n (array h)"
    using exchange_swap [OF assms(1) z n] assms(1) z
    by (auto simp: g_def heap_size_def swap_at_def)
  have ne: "array g \<noteq> []" using assms(2) g(2) by (metis length_swap_at length_0_conv)
  have last: "last (array g) = ?res"
  proof -
    have "last (array g) = array g ! ?n" using ne g(2) by (simp add: last_conv_nth)
    then show ?thesis using nth_swap_at [OF z n n] g(2) by simp
  qed
  have "?res < length (pos g)"
    using linkedD(1) [OF g(1), of ?n] n g(2) last ne by (simp add: last_conv_nth)
  then have r: "remove_front h = g\<lparr>pos := (pos g)[?res := invalid_heap_position], array := butlast (array g)\<rparr>"
    unfolding remove_front_def Let_def g_def [symmetric] by (simp add: indexed_def)
  show "array (remove_front h) = butlast (swap_at 0 ?n (array h))" by (simp add: r g(2))
  show "linked (remove_front h)" unfolding r last [symmetric] by (rule mark_last_linked [OF g(1) ne])
qed

context weak_order begin

lemma remove_front_hole:
  assumes "ordered lt xs" "xs \<noteq> []"
  shows "hole lt 0 (butlast (swap_at 0 (length xs - 1) xs))"
proof -
  let ?n = "length xs - 1"
  have n: "?n < length xs" "0 < length xs" using assms(2) by simp_all
  show ?thesis
    unfolding hole_def
  proof (intro conjI allI impI)
    fix k assume k: "k < length (butlast (swap_at 0 ?n xs))" "0 < k" "par k \<noteq> 0"
    then have kn: "k < ?n" by simp
    have pn: "par k < ?n" using par_less [OF k(2)] kn by simp
    show "\<not> lt (butlast (swap_at 0 ?n xs) ! par k) (butlast (swap_at 0 ?n xs) ! k)"
      using assms(1) k kn pn n by (simp add: nth_butlast nth_swap_at ordered_def)
  qed simp
qed

lemma pop_ok:
  assumes "heap_ok lt h" "array h \<noteq> []"
  shows "\<exists>h'. pop_front lt h = Some (h', front h) \<and> heap_ok lt h'
    \<and> mset (array h) = add_mset (front h) (mset (array h'))"
proof -
  let ?g = "remove_front h" and ?n = "length (array h) - 1"
  have l: "linked h" "ordered lt (array h)" using assms(1) by (simp_all add: heap_ok_def)
  have n: "?n < length (array h)" "0 < length (array h)" using assms(2) by simp_all
  note g = remove_front_linked [OF l(1) assms(2)]
  have len: "length (array ?g) = ?n" by (simp add: g(2))
  have ne: "swap_at 0 ?n (array h) \<noteq> []" using assms(2) by (metis length_swap_at length_0_conv)
  have "last (swap_at 0 ?n (array h)) = front h"
    using ne nth_swap_at [OF n(2,1,1)] by (simp add: last_conv_nth front_def)
  then have ms: "mset (array h) = add_mset (front h) (mset (array ?g))"
    using mset_swap_at [OF n(2,1)] append_butlast_last_id [OF ne] unfolding g(2)
    by (metis mset.simps(2) rotate1.simps(2) mset_append add_mset_add_single mset_single_iff_right union_commute)
  have p: "pop_front lt h = (if heap_size ?g > 1 then map_option (\<lambda>h'. (h', front h)) (down lt (array h ! ?n) ?g)
      else Some (?g, front h))"
    by (simp add: pop_front_def front_def Let_def)
  show ?thesis
  proof (cases "heap_size ?g > 1")
    case False
    then have "ordered lt (array ?g)" by (simp add: ordered_def heap_size_def)
    then show ?thesis using p False g(1) ms by (simp add: heap_ok_def)
  next
    case True
    then have z: "0 < length (array ?g)" unfolding heap_size_def by linarith
    have "array ?g ! 0 = array h ! ?n"
      using z len nth_swap_at [OF n(2,1,2)] by (simp add: g(2) nth_butlast)
    moreover have "hole lt 0 (array ?g)" unfolding g(2) by (rule remove_front_hole [OF l(2) assms(2)])
    ultimately obtain h' where "down lt (array h ! ?n) ?g = Some h'" "linked h'"
      "mset (array h') = mset (array ?g)" "ordered lt (array h')"
      using down_ends [OF g(1) z] by (auto simp: above_ok_def)
    then show ?thesis using p True ms by (simp add: heap_ok_def)
  qed
qed

end

end
