(* ===== verification/Decide_Model.thy ===== *)
theory Decide_Model
  imports Heap_Order
begin

text \<open>
  The two decision orders of CaDiCaL over the variables \<open>1 .. dmax_var\<close>: the heap of scores
  (\<open>score.cpp\<close>, \<open>internal.hpp\<close>) and the queue of recently bumped variables (\<open>queue.hpp\<close>,
  \<open>queue.cpp\<close>), with what assigning, unassigning, bumping and deciding do to them (\<open>analyze.cpp\<close>,
  \<open>backtrack.cpp\<close>, \<open>decide.cpp\<close>). Scores are elements of a linear order: the code compares
  doubles, and how it computes them is not modelled. Variables are \<open>nat\<close>, 0 is no variable;
  time stamps are \<open>int64_t\<close>, read as \<open>int\<close>.
\<close>

section \<open>State\<close>

record link =
  prev :: nat
  "next" :: nat

record queue =
  first :: nat
  last_var :: nat
  unassigned :: nat
  qbumped :: int

record 's decider =
  dmax_var :: nat
  dvals :: "int list"  \<comment> \<open>by variable\<close>
  stab :: "'s list"
  scores :: heap
  links :: "link list"
  btab :: "int list"
  queue :: queue
  bumped_stat :: int  \<comment> \<open>\<open>stats.bumped\<close>\<close>

definition empty_queue :: queue where
  "empty_queue = \<lparr>first = 0, last_var = 0, unassigned = 0, qbumped = 0\<rparr>"

text \<open>The tables after \<open>enlarge\<close>, for \<open>n\<close> variables: nothing is assigned.\<close>

definition fresh_decider :: "nat \<Rightarrow> 's \<Rightarrow> 's decider" where
  "fresh_decider n s = \<lparr>dmax_var = n, dvals = replicate (n + 1) 0, stab = replicate (n + 1) s,
     scores = empty_heap, links = replicate (n + 1) \<lparr>prev = 0, next = 0\<rparr>, btab = replicate (n + 1) 0,
     queue = empty_queue, bumped_stat = 0\<rparr>"

section \<open>Scores\<close>

definition score_smaller :: "'s::linorder list \<Rightarrow> nat \<Rightarrow> nat \<Rightarrow> bool" where
  "score_smaller tab a b =
     (let s = tab ! a; t = tab ! b in if s < t then True else if s > t then False else a > b)"

fun push_all :: "(nat \<Rightarrow> nat \<Rightarrow> bool) \<Rightarrow> nat list \<Rightarrow> heap \<Rightarrow> heap option" where
  "push_all lt [] h = Some h"
| "push_all lt (e # es) h = (case push_element lt e h of None \<Rightarrow> None | Some h \<Rightarrow> push_all lt es h)"

definition init_scores :: "nat \<Rightarrow> nat \<Rightarrow> 's::linorder decider \<Rightarrow> 's decider option" where
  "init_scores old_max_var new_max_var d =
     map_option (\<lambda>h. d\<lparr>scores := h\<rparr>)
       (push_all (score_smaller (stab d)) (map (\<lambda>i. i + 1) [old_max_var..<new_max_var]) (scores d))"

text \<open>The end of \<open>bump_variable_score\<close>, after the new score has been computed.\<close>

definition store_score :: "nat \<Rightarrow> 's::linorder \<Rightarrow> 's decider \<Rightarrow> 's decider option" where
  "store_score idx new_score d =
     (let d = d\<lparr>stab := (stab d)[idx := new_score]\<rparr>
      in if contains (scores d) idx
         then map_option (\<lambda>h. d\<lparr>scores := h\<rparr>) (heap_update (score_smaller (stab d)) idx (scores d))
         else Some d)"

text \<open>\<open>next_decision_variable_with_best_score\<close>: the front of an empty heap is \<open>None\<close>.\<close>

partial_function (option) best_score :: "(nat \<Rightarrow> nat \<Rightarrow> bool) \<Rightarrow> int list \<Rightarrow> heap \<Rightarrow> (heap \<times> nat) option" where
  "best_score lt vs h =
     (if array h = [] then None
      else if vs ! front h = 0 then Some (h, front h)
      else case pop_front lt h of None \<Rightarrow> None | Some (h, res) \<Rightarrow> best_score lt vs h)"

definition next_decision_variable_with_best_score :: "'s::linorder decider \<Rightarrow> ('s decider \<times> nat) option" where
  "next_decision_variable_with_best_score d =
     map_option (\<lambda>(h, res). (d\<lparr>scores := h\<rparr>, res)) (best_score (score_smaller (stab d)) (dvals d) (scores d))"

section \<open>Queue\<close>

definition dequeue :: "nat \<Rightarrow> link list \<times> queue \<Rightarrow> link list \<times> queue" where
  "dequeue idx = (\<lambda>(ls, q).
     let l = ls ! idx;
         (ls, q) = (if prev l \<noteq> 0 then (upd_nth ls (prev l) (\<lambda>k. k\<lparr>next := next l\<rparr>), q)
                    else (ls, q\<lparr>first := next l\<rparr>))
     in if next l \<noteq> 0 then (upd_nth ls (next l) (\<lambda>k. k\<lparr>prev := prev l\<rparr>), q)
        else (ls, q\<lparr>last_var := prev l\<rparr>))"

definition enqueue :: "nat \<Rightarrow> link list \<times> queue \<Rightarrow> link list \<times> queue" where
  "enqueue idx = (\<lambda>(ls, q).
     let ls = upd_nth ls idx (\<lambda>k. k\<lparr>prev := last_var q\<rparr>);
         (ls, q) = (if last_var q \<noteq> 0 then (upd_nth ls (last_var q) (\<lambda>k. k\<lparr>next := idx\<rparr>), q)
                    else (ls, q\<lparr>first := idx\<rparr>))
     in (upd_nth ls idx (\<lambda>k. k\<lparr>next := 0\<rparr>), q\<lparr>last_var := idx\<rparr>))"

definition bury :: "nat \<Rightarrow> link list \<times> queue \<Rightarrow> link list \<times> queue" where
  "bury idx = (\<lambda>(ls, q).
     let ls = upd_nth ls idx (\<lambda>k. k\<lparr>next := first q\<rparr>);
         (ls, q) = (if first q \<noteq> 0 then (upd_nth ls (first q) (\<lambda>k. k\<lparr>prev := idx\<rparr>), q)
                    else (ls, q\<lparr>last_var := idx\<rparr>))
     in (upd_nth ls idx (\<lambda>k. k\<lparr>prev := 0\<rparr>), q\<lparr>first := idx\<rparr>))"

definition on_queue :: "(link list \<times> queue \<Rightarrow> link list \<times> queue) \<Rightarrow> 's decider \<Rightarrow> 's decider" where
  "on_queue f d = (let (ls, q) = f (links d, queue d) in d\<lparr>links := ls, queue := q\<rparr>)"

definition update_queue_unassigned :: "nat \<Rightarrow> 's decider \<Rightarrow> 's decider" where
  "update_queue_unassigned idx d = d\<lparr>queue := (queue d)\<lparr>unassigned := idx, qbumped := btab d ! idx\<rparr>\<rparr>"

definition stamp :: "nat \<Rightarrow> 's decider \<Rightarrow> 's decider" where
  "stamp idx d = d\<lparr>bumped_stat := bumped_stat d + 1, btab := (btab d)[idx := bumped_stat d + 1]\<rparr>"

text \<open>\<open>init_enqueue\<close>, with \<open>opts.reverse\<close> and without. Here the code inlines the linking.\<close>

definition link_front :: "nat \<Rightarrow> 's decider \<Rightarrow> 's decider" where
  "link_front idx d =
     (let d = d\<lparr>links := upd_nth (links d) idx (\<lambda>k. k\<lparr>prev := 0\<rparr>)\<rparr>;
          d = (if first (queue d) \<noteq> 0
               then d\<lparr>links := upd_nth (links d) (first (queue d)) (\<lambda>k. k\<lparr>prev := idx\<rparr>),
                      btab := (btab d)[idx := btab d ! first (queue d) - 1]\<rparr>
               else d\<lparr>queue := (queue d)\<lparr>last_var := idx\<rparr>, btab := (btab d)[idx := 0]\<rparr>)
      in d\<lparr>links := upd_nth (links d) idx (\<lambda>k. k\<lparr>next := first (queue d)\<rparr>),
           queue := (queue d)\<lparr>first := idx\<rparr>\<rparr>)"

definition link_back :: "nat \<Rightarrow> 's decider \<Rightarrow> 's decider" where
  "link_back idx d =
     (let d = d\<lparr>links := upd_nth (links d) idx (\<lambda>k. k\<lparr>next := 0\<rparr>)\<rparr>;
          d = (if last_var (queue d) \<noteq> 0
               then d\<lparr>links := upd_nth (links d) (last_var (queue d)) (\<lambda>k. k\<lparr>next := idx\<rparr>)\<rparr>
               else d\<lparr>queue := (queue d)\<lparr>first := idx\<rparr>\<rparr>);
          d = stamp idx d
      in d\<lparr>links := upd_nth (links d) idx (\<lambda>k. k\<lparr>prev := last_var (queue d)\<rparr>),
           queue := (queue d)\<lparr>last_var := idx\<rparr>\<rparr>)"

definition init_enqueue :: "bool \<Rightarrow> nat \<Rightarrow> 's decider \<Rightarrow> 's decider" where
  "init_enqueue reverse idx d =
     (if reverse
      then let d = link_front idx d
           in if unassigned (queue d) = 0 then update_queue_unassigned (last_var (queue d)) d else d
      else let d = link_back idx d in update_queue_unassigned (last_var (queue d)) d)"

definition init_queue :: "bool \<Rightarrow> nat \<Rightarrow> nat \<Rightarrow> 's decider \<Rightarrow> 's decider" where
  "init_queue reverse old_max_var new_max_var d =
     fold (\<lambda>idx. init_enqueue reverse (idx + 1)) [old_max_var..<new_max_var] d"

definition bump_queue :: "nat \<Rightarrow> 's decider \<Rightarrow> 's decider" where
  "bump_queue idx d =
     (if next (links d ! idx) = 0 then d
      else let d = stamp idx (on_queue (enqueue idx \<circ> dequeue idx) d)
           in if dvals d ! idx = 0 then update_queue_unassigned idx d else d)"

text \<open>The search along \<open>prev\<close>, with its number of steps; it ends at an unassigned variable.\<close>

partial_function (option) search_queue :: "int list \<Rightarrow> link list \<Rightarrow> nat \<Rightarrow> nat \<Rightarrow> (nat \<times> nat) option" where
  "search_queue vs ls res searched =
     (if vs ! res \<noteq> 0 then search_queue vs ls (prev (ls ! res)) (searched + 1) else Some (res, searched))"

definition next_decision_variable_on_queue :: "'s decider \<Rightarrow> ('s decider \<times> nat) option" where
  "next_decision_variable_on_queue d =
     (case search_queue (dvals d) (links d) (unassigned (queue d)) 0 of
        None \<Rightarrow> None
      | Some (res, searched) \<Rightarrow> Some (if searched \<noteq> 0 then update_queue_unassigned res d else d, res))"

section \<open>Unassigning\<close>

definition unassign :: "nat \<Rightarrow> 's::linorder decider \<Rightarrow> 's decider option" where
  "unassign idx d =
     (let d = d\<lparr>dvals := (dvals d)[idx := 0]\<rparr>
      in case (if \<not> contains (scores d) idx then push_element (score_smaller (stab d)) idx (scores d)
               else Some (scores d)) of
           None \<Rightarrow> None
         | Some h \<Rightarrow>
             (let d = d\<lparr>scores := h\<rparr>
              in Some (if qbumped (queue d) < btab d ! idx then update_queue_unassigned idx d else d)))"

section \<open>The variables of a state\<close>

definition variables :: "'s decider \<Rightarrow> nat set" where
  "variables d = {1..dmax_var d}"

definition unassigned_vars :: "'s decider \<Rightarrow> nat set" where
  "unassigned_vars d = {v \<in> variables d. dvals d ! v = 0}"

end
