(* ===== verification/Decide_Scores.thy ===== *)
theory Decide_Scores
  imports Decide_Model
begin

text \<open>
  Deciding by score: the heap holds every unassigned variable in the order of the scores, through
  assigning, unassigning, bumping and deciding, and the variable decided has the best score.
\<close>

section \<open>The order of the scores\<close>

lemma score_smaller_iff: "score_smaller tab a b \<longleftrightarrow> tab ! a < tab ! b \<or> tab ! a = tab ! b \<and> b < a"
  by (auto simp: score_smaller_def Let_def)

interpretation score_order: weak_order "score_smaller tab" for tab :: "'s::linorder list"
  by unfold_locales (auto simp: score_smaller_iff)

lemma score_smaller_update:
  assumes "i < length tab" "a \<noteq> i" "b \<noteq> i"
  shows "score_smaller (tab[i := s]) a b = score_smaller tab a b"
  using assms by (simp add: score_smaller_iff)

text \<open>Changing the score of one element leaves a hole at its position.\<close>

lemma score_update_hole:
  assumes "ordered (score_smaller tab) xs" "distinct xs" "i < length xs" "xs ! i < length tab"
  shows "hole (score_smaller (tab[xs ! i := s])) i xs"
proof -
  have ne: "xs ! k \<noteq> xs ! i" if "k < length xs" "k \<noteq> i" for k
    using assms(2,3) that by (simp add: nth_eq_iff_index_eq)
  have eq: "score_smaller (tab[xs ! i := s]) (xs ! j) (xs ! k) = score_smaller tab (xs ! j) (xs ! k)"
    if "j < length xs" "k < length xs" "j \<noteq> i" "k \<noteq> i" for j k
    by (rule score_smaller_update [OF assms(4)]) (use ne that in blast)+
  have old: "\<not> score_smaller tab (xs ! par k) (xs ! k)" if "k < length xs" "0 < k" for k
    using assms(1) that by (simp add: ordered_def)
  show ?thesis
    unfolding hole_def
  proof (intro conjI allI impI)
    fix k assume k: "k < length xs" "0 < k" "k \<noteq> i" "par k \<noteq> i"
    have "par k < length xs" using par_less [OF k(2)] k(1) by simp
    then show "\<not> score_smaller (tab[xs ! i := s]) (xs ! par k) (xs ! k)"
      using eq k old by simp
  next
    fix k assume k: "k < length xs" "0 < k" "par k = i" "0 < i"
    have "\<not> score_smaller tab (xs ! par i) (xs ! i)" using old [OF assms(3) k(4)] .
    moreover have "\<not> score_smaller tab (xs ! i) (xs ! k)" using old [OF k(1,2)] k(3) by simp
    ultimately have "\<not> score_smaller tab (xs ! par i) (xs ! k)" by (rule score_order.neg_trans)
    moreover have "par i < length xs" "par i \<noteq> i" "k \<noteq> i"
      using par_less [OF k(4)] par_less [OF k(2)] k(3) assms(3) by simp_all
    ultimately show "\<not> score_smaller (tab[xs ! i := s]) (xs ! par i) (xs ! k)" using eq k(1) by simp
  qed
qed

section \<open>Invariant\<close>

definition scores_ok :: "'s::linorder decider \<Rightarrow> bool" where
  "scores_ok d \<longleftrightarrow> heap_ok (score_smaller (stab d)) (scores d)
     \<and> set (array (scores d)) \<subseteq> variables d \<and> unassigned_vars d \<subseteq> set (array (scores d))
     \<and> dmax_var d < invalid_heap_position
     \<and> length (dvals d) = dmax_var d + 1 \<and> length (stab d) = dmax_var d + 1"

lemma scores_okD:
  assumes "scores_ok d"
  shows "heap_ok (score_smaller (stab d)) (scores d)" "linked (scores d)"
    "set (array (scores d)) \<subseteq> variables d" "unassigned_vars d \<subseteq> set (array (scores d))"
    "dmax_var d < invalid_heap_position" "length (dvals d) = dmax_var d + 1" "length (stab d) = dmax_var d + 1"
  using assms by (simp_all add: scores_ok_def heap_ok_def)

lemma heap_room:
  assumes "linked h" "set (array h) \<subseteq> {1..n}" "e \<notin> set (array h)" "e \<in> {1..n}" "n < invalid_heap_position"
  shows "length (array h) < invalid_heap_position"
proof -
  have "length (array h) = card (set (array h))" using linked_distinct [OF assms(1)] by (simp add: distinct_card)
  also have "\<dots> \<le> card {1..n}" using assms(2) by (intro card_mono) simp_all
  finally show ?thesis using assms(5) by simp
qed

section \<open>Operations\<close>

text \<open>
  Assigning a variable a non-zero value is the propagation's; deciding takes place only while a
  variable is unassigned.
\<close>

datatype 's score_op = Assign nat int | Unassign nat | Store_score nat 's | Decide

definition assign_var :: "nat \<Rightarrow> int \<Rightarrow> 's decider \<Rightarrow> 's decider" where
  "assign_var v b d = d\<lparr>dvals := (dvals d)[v := b]\<rparr>"

definition all_assigned :: "'s decider \<Rightarrow> bool" where
  "all_assigned d = list_all (\<lambda>v. dvals d ! v \<noteq> 0) [1..<dmax_var d + 1]"

lemma all_assigned_iff: "all_assigned d \<longleftrightarrow> unassigned_vars d = {}"
  by (auto simp: all_assigned_def unassigned_vars_def variables_def list_all_iff)

fun score_step :: "'s::linorder score_op \<Rightarrow> 's decider \<Rightarrow> 's decider option" where
  "score_step (Assign v b) d = Some (assign_var v b d)"
| "score_step (Unassign v) d = unassign v d"
| "score_step (Store_score v s) d = store_score v s d"
| "score_step Decide d =
     (if all_assigned d then Some d else map_option fst (next_decision_variable_with_best_score d))"

fun op_var_ok :: "nat \<Rightarrow> 's score_op \<Rightarrow> bool" where
  "op_var_ok n (Assign v b) \<longleftrightarrow> 1 \<le> v \<and> v \<le> n \<and> b \<noteq> 0"
| "op_var_ok n (Unassign v) \<longleftrightarrow> 1 \<le> v \<and> v \<le> n"
| "op_var_ok n (Store_score v s) \<longleftrightarrow> 1 \<le> v \<and> v \<le> n"
| "op_var_ok n Decide \<longleftrightarrow> True"

fun score_run :: "'s::linorder score_op list \<Rightarrow> 's decider \<Rightarrow> 's decider option" where
  "score_run [] d = Some d"
| "score_run (x # xs) d = (case score_step x d of None \<Rightarrow> None | Some d \<Rightarrow> score_run xs d)"

lemma assign_ok:
  assumes "scores_ok d" "b \<noteq> 0"
  shows "scores_ok (assign_var v b d)"
proof -
  have "unassigned_vars (assign_var v b d) \<subseteq> unassigned_vars d"
    using assms(2) scores_okD(6) [OF assms(1)]
    by (auto simp: assign_var_def unassigned_vars_def variables_def) (metis nth_list_update_eq nth_list_update_neq list_update_beyond not_le)
  then show ?thesis using assms(1) by (auto simp: scores_ok_def assign_var_def variables_def)
qed

lemma scores_update_queue [simp]:
  "scores (update_queue_unassigned v d) = scores d" "dvals (update_queue_unassigned v d) = dvals d"
  "stab (update_queue_unassigned v d) = stab d" "dmax_var (update_queue_unassigned v d) = dmax_var d"
  by (simp_all add: update_queue_unassigned_def)

lemma unassigned_vars_cong: "dvals d = dvals d' \<Longrightarrow> dmax_var d = dmax_var d' \<Longrightarrow> unassigned_vars d = unassigned_vars d'"
  by (simp add: unassigned_vars_def variables_def)

lemma unassign_ok:
  assumes "scores_ok d" "v \<in> variables d"
  shows "\<exists>d'. unassign v d = Some d' \<and> scores_ok d' \<and> dmax_var d' = dmax_var d"
proof -
  note ok = scores_okD [OF assms(1)]
  let ?lt = "score_smaller (stab d)"
  define r where "r = (if \<not> contains (scores d) v then push_element ?lt v (scores d) else Some (scores d))"
  have "\<exists>h. r = Some h \<and> heap_ok ?lt h \<and> set (array h) = insert v (set (array (scores d)))"
  proof (cases "contains (scores d) v")
    case True
    then show ?thesis using ok(1) linked_contains [OF ok(2)] by (auto simp: r_def)
  next
    case False
    have v: "v \<notin> set (array (scores d))" using False linked_contains [OF ok(2)] by simp
    have "length (array (scores d)) < invalid_heap_position"
      using heap_room [OF ok(2) _ v _ ok(5)] ok(3) assms(2) by (simp add: variables_def)
    from score_order.push_ok [OF ok(1) False this] obtain h where
      "push_element ?lt v (scores d) = Some h" "heap_ok ?lt h" "mset (array h) = add_mset v (mset (array (scores d)))"
      by blast
    then show ?thesis using False mset_eq_setD [of "array h" "v # array (scores d)"] by (simp add: r_def)
  qed
  then obtain h where h: "r = Some h" "heap_ok ?lt h" "set (array h) = insert v (set (array (scores d)))" by blast
  let ?d = "d\<lparr>dvals := (dvals d)[v := 0], scores := h\<rparr>"
  define d' where "d' = (if qbumped (queue d) < btab d ! v then update_queue_unassigned v ?d else ?d)"
  have "unassign v d = (case r of None \<Rightarrow> None | Some h \<Rightarrow>
      (let d = d\<lparr>dvals := (dvals d)[v := 0], scores := h\<rparr>
       in Some (if qbumped (queue d) < btab d ! v then update_queue_unassigned v d else d)))"
    by (simp add: unassign_def Let_def r_def)
  then have u: "unassign v d = Some d'" using h(1) by (simp add: d'_def Let_def)
  have f: "dvals d' = (dvals d)[v := 0]" "scores d' = h" "stab d' = stab d" "dmax_var d' = dmax_var d"
    by (simp_all add: d'_def)
  have "unassigned_vars d' \<subseteq> insert v (unassigned_vars d)"
    using ok(6) by (auto simp: unassigned_vars_def variables_def f nth_list_update split: if_splits)
  then have "scores_ok d'"
    using h ok assms(2) by (auto simp: scores_ok_def f variables_def)
  then show ?thesis using u f(4) by simp
qed

lemma store_score_ok:
  assumes "scores_ok d" "v \<in> variables d"
  shows "\<exists>d'. store_score v s d = Some d' \<and> scores_ok d' \<and> dmax_var d' = dmax_var d"
proof -
  note ok = scores_okD [OF assms(1)]
  let ?tab = "(stab d)[v := s]" and ?h = "scores d"
  have ord: "ordered (score_smaller (stab d)) (array ?h)" using ok(1) by (simp add: heap_ok_def)
  have vl: "v < length (stab d)" using assms(2) ok(7) by (simp add: variables_def)
  show ?thesis
  proof (cases "contains ?h v")
    case False
    then have v: "v \<notin> set (array ?h)" using linked_contains [OF ok(2)] by simp
    have "ordered (score_smaller ?tab) (array ?h)"
      unfolding ordered_def
    proof (intro allI impI)
      fix k assume k: "k < length (array ?h)" "0 < k"
      have "array ?h ! k \<noteq> v" "array ?h ! par k \<noteq> v" using v k par_less [OF k(2)] nth_mem by force+
      then show "\<not> score_smaller ?tab (array ?h ! par k) (array ?h ! k)"
        using ord k score_smaller_update [OF vl] by (simp add: ordered_def)
    qed
    then have "scores_ok (d\<lparr>stab := ?tab\<rparr>)"
      using ok unassigned_vars_cong [of d "d\<lparr>stab := ?tab\<rparr>"] by (simp add: scores_ok_def heap_ok_def variables_def)
    then show ?thesis using False by (simp add: store_score_def)
  next
    case True
    then have "v \<in> set (array ?h)" using linked_contains [OF ok(2)] by simp
    then obtain i where i: "i < length (array ?h)" "array ?h ! i = v" by (auto simp: in_set_conv_nth)
    have "hole (score_smaller ?tab) i (array ?h)"
      using score_update_hole [OF ord linked_distinct [OF ok(2)] i(1)] vl i(2) by simp
    from score_order.sift_ok [OF ok(2) i(1) this] i(2) obtain h where h: "heap_update (score_smaller ?tab) v ?h = Some h"
      "heap_ok (score_smaller ?tab) h" "mset (array h) = mset (array ?h)" by auto
    let ?d = "d\<lparr>stab := ?tab, scores := h\<rparr>"
    have "scores_ok ?d"
      using h ok mset_eq_setD [OF h(3)] unassigned_vars_cong [of d ?d] by (simp add: scores_ok_def variables_def)
    then show ?thesis using True h(1) by (simp add: store_score_def)
  qed
qed

section \<open>Deciding\<close>

text \<open>No unassigned variable has a better score, or the same and a smaller index.\<close>

definition best_unassigned :: "'s::linorder decider \<Rightarrow> nat \<Rightarrow> bool" where
  "best_unassigned d v \<longleftrightarrow> v \<in> unassigned_vars d
     \<and> list_all (\<lambda>u. dvals d ! u = 0 \<longrightarrow> \<not> score_smaller (stab d) v u) [1..<dmax_var d + 1]"

lemma best_score_ends:
  assumes "heap_ok (score_smaller tab) h" "U \<subseteq> set (array h)" "U \<noteq> {}"
    and "\<And>v. v \<in> set (array h) \<Longrightarrow> vs ! v = (0 :: int) \<longleftrightarrow> v \<in> U"
  shows "\<exists>h' v. best_score (score_smaller tab) vs h = Some (h', v) \<and> heap_ok (score_smaller tab) h'
    \<and> U \<subseteq> set (array h') \<and> set (array h') \<subseteq> set (array h) \<and> v \<in> U
    \<and> (\<forall>u \<in> U. \<not> score_smaller tab v u)"
  using assms
proof (induction "length (array h)" arbitrary: h rule: less_induct)
  case less
  let ?lt = "score_smaller tab"
  have ne: "array h \<noteq> []" using less.prems(2,3) by auto
  have fin: "front h \<in> set (array h)" using ne by (rule score_order.front_in)
  show ?case
  proof (cases "vs ! front h = 0")
    case True
    have "best_score ?lt vs h = Some (h, front h)" using True ne by (subst best_score.simps) simp
    moreover have "front h \<in> U" using True less.prems(4) [OF fin] by simp
    moreover have "\<forall>u \<in> U. \<not> ?lt (front h) u"
      using score_order.front_max [OF less.prems(1)] less.prems(2) by blast
    ultimately show ?thesis using less.prems(1,2) by blast
  next
    case False
    from score_order.pop_ok [OF less.prems(1) ne]
    obtain g where g: "pop_front ?lt h = Some (g, front h)" "heap_ok ?lt g"
      "mset (array h) = add_mset (front h) (mset (array g))" by blast
    have st: "set (array h) = insert (front h) (set (array g))"
      using mset_eq_setD [of "array h" "front h # array g"] g(3) by simp
    have len: "length (array g) < length (array h)"
      using arg_cong [OF g(3), where f = size] by simp
    have sub: "U \<subseteq> set (array g)" using less.prems(2) less.prems(4) [of "front h"] False fin st by auto
    have z: "vs ! v = 0 \<longleftrightarrow> v \<in> U" if "v \<in> set (array g)" for v
      by (rule less.prems(4)) (use that st in simp)
    obtain h' v where h': "best_score ?lt vs g = Some (h', v)" "heap_ok ?lt h'" "U \<subseteq> set (array h')"
      "set (array h') \<subseteq> set (array g)" "v \<in> U" "\<forall>u \<in> U. \<not> ?lt v u"
      using less.hyps [OF len g(2) sub less.prems(3) z] by blast
    have "best_score ?lt vs h = best_score ?lt vs g" using False ne g(1) by (subst best_score.simps) simp
    then show ?thesis using h' st by (intro exI [of _ h'] exI [of _ v]) auto
  qed
qed

lemma decide_ok:
  assumes "scores_ok d" "\<not> all_assigned d"
  shows "\<exists>d' v. next_decision_variable_with_best_score d = Some (d', v) \<and> scores_ok d'
    \<and> dmax_var d' = dmax_var d \<and> best_unassigned d v"
proof -
  note ok = scores_okD [OF assms(1)]
  have ne: "unassigned_vars d \<noteq> {}" using assms(2) by (simp add: all_assigned_iff)
  have z: "dvals d ! v = 0 \<longleftrightarrow> v \<in> unassigned_vars d" if "v \<in> set (array (scores d))" for v
    using that ok(3) by (auto simp: unassigned_vars_def)
  from best_score_ends [OF ok(1,4) ne z] obtain h v where
    h: "best_score (score_smaller (stab d)) (dvals d) (scores d) = Some (h, v)"
    "heap_ok (score_smaller (stab d)) h" "unassigned_vars d \<subseteq> set (array h)" "set (array h) \<subseteq> set (array (scores d))"
    "v \<in> unassigned_vars d" "\<forall>u \<in> unassigned_vars d. \<not> score_smaller (stab d) v u" by blast
  have "scores_ok (d\<lparr>scores := h\<rparr>)"
    using h ok unassigned_vars_cong [of d "d\<lparr>scores := h\<rparr>"] by (auto simp: scores_ok_def variables_def)
  moreover have "best_unassigned d v"
    using h(5,6) by (auto simp: best_unassigned_def list_all_iff unassigned_vars_def variables_def)
  ultimately show ?thesis using h(1) by (simp add: next_decision_variable_with_best_score_def)
qed

lemma score_step_ok:
  assumes "scores_ok d" "op_var_ok (dmax_var d) x"
  shows "\<exists>d'. score_step x d = Some d' \<and> scores_ok d' \<and> dmax_var d' = dmax_var d"
proof (cases x)
  case (Assign v b)
  then show ?thesis using assms assign_ok [of d b v] by (simp add: assign_var_def)
next
  case (Unassign v)
  then show ?thesis using assms unassign_ok [of d v] by (simp add: variables_def)
next
  case (Store_score v s)
  then show ?thesis using assms store_score_ok [of d v s] by (simp add: variables_def)
next
  case Decide
  then show ?thesis using assms(1) decide_ok [OF assms(1)] by (cases "all_assigned d") auto
qed

lemma score_run_ok:
  "scores_ok d \<Longrightarrow> list_all (op_var_ok (dmax_var d)) xs \<Longrightarrow>
   \<exists>d'. score_run xs d = Some d' \<and> scores_ok d' \<and> dmax_var d' = dmax_var d"
proof (induction xs arbitrary: d)
  case (Cons x xs)
  then obtain e where "score_step x d = Some e" "scores_ok e" "dmax_var e = dmax_var d"
    using score_step_ok [of d x] by auto
  then show ?case using Cons.IH [of e] Cons.prems by simp
qed simp

section \<open>Initialization\<close>

lemma push_all_ok:
  assumes "heap_ok (score_smaller tab) h" "distinct es" "set es \<inter> set (array h) = {}"
    and "set es \<union> set (array h) \<subseteq> {1..n}" "n < invalid_heap_position"
  shows "\<exists>h'. push_all (score_smaller tab) es h = Some h' \<and> heap_ok (score_smaller tab) h'
    \<and> set (array h') = set es \<union> set (array h)"
  using assms
proof (induction es arbitrary: h)
  case (Cons e es)
  have l: "linked h" using Cons.prems(1) by (simp add: heap_ok_def)
  have e: "e \<notin> set (array h)" "e \<in> {1..n}" using Cons.prems(3,4) by auto
  have c: "\<not> contains h e" using e(1) linked_contains [OF l] by simp
  have sub: "set (array h) \<subseteq> {1..n}" using Cons.prems(4) by simp
  obtain g where g: "push_element (score_smaller tab) e h = Some g" "heap_ok (score_smaller tab) g"
    "mset (array g) = add_mset e (mset (array h))"
    using score_order.push_ok [OF Cons.prems(1) c heap_room [OF l sub e Cons.prems(5)]] by blast
  have st: "set (array g) = insert e (set (array h))" using mset_eq_setD [of "array g" "e # array h"] g(3) by simp
  obtain h' where "push_all (score_smaller tab) es g = Some h'" "heap_ok (score_smaller tab) h'"
    "set (array h') = set es \<union> set (array g)"
    using Cons.IH [OF g(2)] Cons.prems(2-5) st by auto
  then show ?case using g(1) st by auto
qed simp

lemma init_scores_ok:
  assumes "scores d = empty_heap" "length (dvals d) = dmax_var d + 1" "length (stab d) = dmax_var d + 1"
    and "dmax_var d < invalid_heap_position"
  shows "\<exists>h. init_scores 0 (dmax_var d) d = Some (d\<lparr>scores := h\<rparr>) \<and> scores_ok (d\<lparr>scores := h\<rparr>)"
proof -
  let ?n = "dmax_var d"
  let ?es = "map (\<lambda>i. i + 1) [0..<?n]"
  have "heap_ok (score_smaller (stab d)) (scores d)"
    by (simp add: heap_ok_def linked_def ordered_def assms(1) empty_heap_def)
  moreover have es: "set ?es = {1..?n}" by (simp add: image_Suc_atLeastLessThan atLeastLessThanSuc_atLeastAtMost)
  moreover have "distinct ?es" by (simp add: distinct_map)
  moreover have "array (scores d) = []" by (simp add: assms(1) empty_heap_def)
  ultimately obtain h where h: "push_all (score_smaller (stab d)) ?es (scores d) = Some h"
    "heap_ok (score_smaller (stab d)) h" "set (array h) = {1..?n}"
    using push_all_ok [of "stab d" "scores d" ?es ?n] assms(4) by auto
  have "unassigned_vars (d\<lparr>scores := h\<rparr>) \<subseteq> {1..?n}" by (auto simp: unassigned_vars_def variables_def)
  then have "scores_ok (d\<lparr>scores := h\<rparr>)"
    unfolding scores_ok_def using h(2) assms(2-4) by (simp add: h(3) variables_def)
  moreover have "init_scores 0 ?n d = Some (d\<lparr>scores := h\<rparr>)" using h(1) by (simp add: init_scores_def)
  ultimately show ?thesis by blast
qed

end
