(* ===== verification/Decide_Queue.thy ===== *)
theory Decide_Queue
  imports Decide_Model
begin

text \<open>
  Deciding by recency: the doubly linked queue holds the variables in the order of their time
  stamps, everything stamped after \<open>queue.bumped\<close> is assigned, and the search along \<open>prev\<close> finds
  the unassigned variable bumped last.
\<close>

section \<open>Doubly linked segments\<close>

definition hd_or :: "nat list \<Rightarrow> nat \<Rightarrow> nat" where
  "hd_or xs n = (if xs = [] then n else hd xs)"

definition last_or :: "nat list \<Rightarrow> nat \<Rightarrow> nat" where
  "last_or xs p = (if xs = [] then p else List.last xs)"

lemma hd_last_or [simp]:
  "hd_or [] n = n" "hd_or (x # xs) n = x" "last_or [] p = p" "last_or (x # xs) p = last_or xs x"
  "hd_or (xs @ ys) n = hd_or xs (hd_or ys n)" "last_or (xs @ ys) p = last_or ys (last_or xs p)"
  by (auto simp: hd_or_def last_or_def)

text \<open>The segment \<open>xs\<close> between the elements \<open>p\<close> and \<open>n\<close>, 0 for none.\<close>

fun segment :: "link list \<Rightarrow> nat \<Rightarrow> nat list \<Rightarrow> nat \<Rightarrow> bool" where
  "segment ls p [] n \<longleftrightarrow> True"
| "segment ls p (x # xs) n \<longleftrightarrow> prev (ls ! x) = p \<and> next (ls ! x) = hd_or xs n \<and> segment ls x xs n"

lemma segment_append: "segment ls p (xs @ ys) n \<longleftrightarrow> segment ls p xs (hd_or ys n) \<and> segment ls (last_or xs p) ys n"
  by (induction xs arbitrary: p) auto

lemma segment_cong: "\<forall>x \<in> set xs. ls' ! x = ls ! x \<Longrightarrow> segment ls' p xs n = segment ls p xs n"
  by (induction xs arbitrary: p) auto

lemma segment_other: "x \<notin> set xs \<Longrightarrow> segment (upd_nth ls x f) p xs n = segment ls p xs n"
  by (rule segment_cong) (metis nth_list_update_neq upd_nth_def)

lemma segment_set_prev:
  assumes "distinct (x # xs)" "x < length ls" "segment ls p (x # xs) n"
  shows "segment (upd_nth ls x (\<lambda>k. k\<lparr>prev := q\<rparr>)) q (x # xs) n"
  using assms by (simp add: segment_other)

lemma segment_set_next:
  assumes "distinct (xs @ [x])" "x < length ls" "segment ls p (xs @ [x]) n"
  shows "segment (upd_nth ls x (\<lambda>k. k\<lparr>next := m\<rparr>)) p (xs @ [x]) m"
  using assms by (simp add: segment_append segment_other)

section \<open>The queue as a list\<close>

definition dlist :: "nat list \<Rightarrow> link list \<times> queue \<Rightarrow> bool" where
  "dlist xs lq \<longleftrightarrow> distinct xs \<and> 0 \<notin> set xs \<and> (\<forall>x \<in> set xs. x < length (fst lq))
     \<and> first (snd lq) = hd_or xs 0 \<and> last_var (snd lq) = last_or xs 0 \<and> segment (fst lq) 0 xs 0"

lemma last_or_0: "0 \<notin> set xs \<Longrightarrow> last_or xs 0 = 0 \<longleftrightarrow> xs = []"
  by (auto simp: last_or_def) (metis last_in_set gr0I)

lemma hd_or_0: "0 \<notin> set xs \<Longrightarrow> hd_or xs 0 = 0 \<longleftrightarrow> xs = []"
  by (cases xs) auto

text \<open>Updates at the two ends of a segment, as the code does them.\<close>

lemma segment_upd_last:
  fixes m :: nat
  assumes "distinct xs" "0 \<notin> set xs" "\<forall>x \<in> set xs. x < length ls" "segment ls p xs n"
  defines "ls' \<equiv> if last_or xs 0 \<noteq> 0 then upd_nth ls (last_or xs 0) (\<lambda>k. k\<lparr>next := m\<rparr>) else ls"
  shows "segment ls' p xs m"
    and "\<forall>y. y \<notin> set xs \<longrightarrow> ls' ! y = ls ! y" and "length ls' = length ls"
proof -
  show "segment ls' p xs m"
  proof (cases xs rule: rev_cases)
    case (snoc ys x)
    then show ?thesis using segment_set_next [of ys x ls p n m] assms(1-4) last_or_0 [OF assms(2)] by (simp add: ls'_def)
  qed (use assms(4) in simp)
  show "\<forall>y. y \<notin> set xs \<longrightarrow> ls' ! y = ls ! y"
  proof (intro allI impI)
    fix y assume "y \<notin> set xs"
    then have "last_or xs 0 \<noteq> y \<or> last_or xs 0 = 0" by (auto simp: last_or_def)
    then show "ls' ! y = ls ! y" by (auto simp: ls'_def upd_nth_def)
  qed
  show "length ls' = length ls" by (simp add: ls'_def upd_nth_def)
qed

lemma segment_upd_hd:
  fixes q :: nat
  assumes "distinct xs" "0 \<notin> set xs" "\<forall>x \<in> set xs. x < length ls" "segment ls p xs n"
  defines "ls' \<equiv> if hd_or xs 0 \<noteq> 0 then upd_nth ls (hd_or xs 0) (\<lambda>k. k\<lparr>prev := q\<rparr>) else ls"
  shows "segment ls' q xs n"
    and "\<forall>y. y \<notin> set xs \<longrightarrow> ls' ! y = ls ! y" and "length ls' = length ls"
proof -
  show "segment ls' q xs n"
  proof (cases xs)
    case (Cons x ys)
    then show ?thesis using segment_set_prev [of x ys ls p n q] assms(1-4) by (simp add: ls'_def)
  qed simp
  show "\<forall>y. y \<notin> set xs \<longrightarrow> ls' ! y = ls ! y"
    using hd_or_0 [OF assms(2)] by (cases xs) (auto simp: ls'_def upd_nth_def)
  show "length ls' = length ls" by (simp add: ls'_def upd_nth_def)
qed

lemma dequeue_dlist:
  assumes "dlist (as @ x # bs) (ls, q)"
  shows "dlist (as @ bs) (dequeue x (ls, q))"
    and "length (fst (dequeue x (ls, q))) = length ls"
    and "unassigned (snd (dequeue x (ls, q))) = unassigned q" "qbumped (snd (dequeue x (ls, q))) = qbumped q"
proof -
  have as: "distinct as" "0 \<notin> set as" "\<forall>y \<in> set as. y < length ls"
    and bs: "distinct bs" "0 \<notin> set bs" "\<forall>y \<in> set bs. y < length ls"
    and dis: "set as \<inter> set bs = {}"
    and seg: "segment ls 0 as x" "prev (ls ! x) = last_or as 0" "next (ls ! x) = hd_or bs 0" "segment ls x bs 0"
    and anchors: "first q = hd_or as x" "last_var q = last_or bs x"
    using assms by (auto simp: dlist_def segment_append)
  define l1 where "l1 = (if last_or as 0 \<noteq> 0 then upd_nth ls (last_or as 0) (\<lambda>k. k\<lparr>next := hd_or bs 0\<rparr>) else ls)"
  define l2 where "l2 = (if hd_or bs 0 \<noteq> 0 then upd_nth l1 (hd_or bs 0) (\<lambda>k. k\<lparr>prev := last_or as 0\<rparr>) else l1)"
  define q' where "q' = (if hd_or bs 0 \<noteq> 0 then id else (\<lambda>q. q\<lparr>last_var := last_or as 0\<rparr>))
      ((if last_or as 0 \<noteq> 0 then id else (\<lambda>q. q\<lparr>first := hd_or bs 0\<rparr>)) q)"
  have d: "dequeue x (ls, q) = (l2, q')"
    by (simp add: dequeue_def seg Let_def l1_def l2_def q'_def)
  note s1 = segment_upd_last [OF as seg(1), of "hd_or bs 0", folded l1_def]
  have b1: "segment l1 x bs 0" using seg(4) segment_cong [of bs l1 ls] s1(2) dis by auto
  have len1: "\<forall>y \<in> set bs. y < length l1" using bs(3) s1(3) by simp
  note s2 = segment_upd_hd [OF bs(1,2) len1 b1, of "last_or as 0", folded l2_def]
  have a2: "segment l2 0 as (hd_or bs 0)" using s1(1) segment_cong [of as l2 l1] s2(2) dis by auto
  have q: "first q' = hd_or as (hd_or bs 0)" "last_var q' = last_or bs (last_or as 0)"
    using anchors last_or_0 [OF as(2)] hd_or_0 [OF bs(2)]
    by (auto simp: q'_def hd_or_def last_or_def)
  show "dlist (as @ bs) (dequeue x (ls, q))"
    using as bs dis s2(1) a2 q s1(3) s2(3) by (auto simp: d dlist_def segment_append)
  show "length (fst (dequeue x (ls, q))) = length ls" by (simp add: d s1(3) s2(3))
  show "unassigned (snd (dequeue x (ls, q))) = unassigned q" "qbumped (snd (dequeue x (ls, q))) = qbumped q"
    by (simp_all add: d q'_def)
qed

lemma enqueue_dlist:
  assumes "dlist xs (ls, q)" "x \<notin> set xs" "0 < x" "x < length ls"
  shows "dlist (xs @ [x]) (enqueue x (ls, q))"
    and "length (fst (enqueue x (ls, q))) = length ls"
    and "unassigned (snd (enqueue x (ls, q))) = unassigned q" "qbumped (snd (enqueue x (ls, q))) = qbumped q"
proof -
  have xs: "distinct xs" "0 \<notin> set xs" "\<forall>y \<in> set xs. y < length ls" "segment ls 0 xs 0"
    and anchors: "first q = hd_or xs 0" "last_var q = last_or xs 0"
    using assms(1) by (auto simp: dlist_def)
  define l0 where "l0 = upd_nth ls x (\<lambda>k. k\<lparr>prev := last_or xs 0\<rparr>)"
  define l1 where "l1 = (if last_or xs 0 \<noteq> 0 then upd_nth l0 (last_or xs 0) (\<lambda>k. k\<lparr>next := x\<rparr>) else l0)"
  define q' where "q' = (if last_or xs 0 \<noteq> 0 then q else q\<lparr>first := x\<rparr>)\<lparr>last_var := x\<rparr>"
  have e: "enqueue x (ls, q) = (upd_nth l1 x (\<lambda>k. k\<lparr>next := 0\<rparr>), q')"
    by (simp add: enqueue_def anchors Let_def l0_def l1_def q'_def)
  have len: "\<forall>y \<in> set xs. y < length l0" "length l0 = length ls" using xs(3) by (simp_all add: l0_def upd_nth_def)
  have s0: "segment l0 0 xs 0" using xs(4) assms(2) by (simp add: l0_def segment_other)
  note s1 = segment_upd_last [OF xs(1,2) len(1) s0, of x, folded l1_def]
  have "l1 ! x = l0 ! x" using s1(2) assms(2) by blast
  then have x: "prev (l1 ! x) = last_or xs 0" using assms(4) by (simp add: l0_def upd_nth_def)
  have "first q' = hd_or xs x" using last_or_0 [OF xs(2)] anchors by (auto simp: q'_def hd_or_def)
  then show "dlist (xs @ [x]) (enqueue x (ls, q))"
    using xs assms(2-4) s1(1,3) len x
    by (simp add: e dlist_def segment_append segment_other) (simp add: upd_nth_def q'_def)
  show "length (fst (enqueue x (ls, q))) = length ls" by (simp add: e upd_nth_def s1(3) len)
  show "unassigned (snd (enqueue x (ls, q))) = unassigned q" "qbumped (snd (enqueue x (ls, q))) = qbumped q"
    by (simp_all add: e q'_def)
qed

lemma bury_dlist:
  assumes "dlist xs (ls, q)" "x \<notin> set xs" "0 < x" "x < length ls"
  shows "dlist (x # xs) (bury x (ls, q))"
proof -
  have xs: "distinct xs" "0 \<notin> set xs" "\<forall>y \<in> set xs. y < length ls" "segment ls 0 xs 0"
    and anchors: "first q = hd_or xs 0" "last_var q = last_or xs 0"
    using assms(1) by (auto simp: dlist_def)
  define l0 where "l0 = upd_nth ls x (\<lambda>k. k\<lparr>next := hd_or xs 0\<rparr>)"
  define l1 where "l1 = (if hd_or xs 0 \<noteq> 0 then upd_nth l0 (hd_or xs 0) (\<lambda>k. k\<lparr>prev := x\<rparr>) else l0)"
  define q' where "q' = (if hd_or xs 0 \<noteq> 0 then q else q\<lparr>last_var := x\<rparr>)\<lparr>first := x\<rparr>"
  have e: "bury x (ls, q) = (upd_nth l1 x (\<lambda>k. k\<lparr>prev := 0\<rparr>), q')"
    by (simp add: bury_def anchors Let_def l0_def l1_def q'_def)
  have len: "\<forall>y \<in> set xs. y < length l0" "length l0 = length ls" using xs(3) by (simp_all add: l0_def upd_nth_def)
  have s0: "segment l0 0 xs 0" using xs(4) assms(2) by (simp add: l0_def segment_other)
  note s1 = segment_upd_hd [OF xs(1,2) len(1) s0, of x, folded l1_def]
  have "l1 ! x = l0 ! x" using s1(2) assms(2) by blast
  then have x: "next (l1 ! x) = hd_or xs 0" using assms(4) by (simp add: l0_def upd_nth_def)
  have "last_var q' = last_or xs x" using hd_or_0 [OF xs(2)] anchors by (auto simp: q'_def last_or_def)
  then show "dlist (x # xs) (bury x (ls, q))"
    using xs assms(2-4) s1(1,3) len x
    by (simp add: e dlist_def segment_other) (simp add: upd_nth_def q'_def)
qed

end
