(* ===== verification/Decide_Recent.thy ===== *)
theory Decide_Recent
  imports Decide_Queue
begin

text \<open>
  The invariant of the decision queue through its initialization, assigning, unassigning, bumping
  and deciding, and which variable it decides.
\<close>

section \<open>Invariant\<close>

definition listed :: "nat list \<Rightarrow> 's decider \<Rightarrow> bool" where
  "listed xs d \<longleftrightarrow> dlist xs (links d, queue d) \<and> set xs \<subseteq> variables d
     \<and> length (links d) = dmax_var d + 1 \<and> length (btab d) = dmax_var d + 1 \<and> length (dvals d) = dmax_var d + 1
     \<and> sorted_wrt (\<lambda>a b. btab d ! a < btab d ! b) xs \<and> (\<forall>x \<in> set xs. btab d ! x \<le> bumped_stat d)
     \<and> 0 \<le> bumped_stat d \<and> dvals d ! 0 = 0"

text \<open>
  The stamp \<open>queue.bumped\<close> is that of \<open>queue.unassigned\<close> or an older one, as bumping an
  assigned variable changes its stamp but not the copy.
\<close>

definition queue_ok :: "nat list \<Rightarrow> 's decider \<Rightarrow> bool" where
  "queue_ok xs d \<longleftrightarrow> listed xs d \<and> set xs = variables d \<and> unassigned (queue d) \<in> set xs
     \<and> qbumped (queue d) \<le> btab d ! unassigned (queue d)
     \<and> (\<forall>x \<in> set xs. qbumped (queue d) < btab d ! x \<longrightarrow> dvals d ! x \<noteq> 0)"

lemma listedD:
  assumes "listed xs d"
  shows "dlist xs (links d, queue d)" "set xs \<subseteq> variables d" "length (links d) = dmax_var d + 1"
    "length (btab d) = dmax_var d + 1" "length (dvals d) = dmax_var d + 1"
    "sorted_wrt (\<lambda>a b. btab d ! a < btab d ! b) xs" "\<And>x. x \<in> set xs \<Longrightarrow> btab d ! x \<le> bumped_stat d"
    "0 \<le> bumped_stat d" "dvals d ! 0 = 0" "distinct xs" "0 \<notin> set xs"
  using assms by (auto simp: listed_def dlist_def)

lemma queue_okD:
  assumes "queue_ok xs d"
  shows "listed xs d" "set xs = variables d" "unassigned (queue d) \<in> set xs"
    "qbumped (queue d) \<le> btab d ! unassigned (queue d)"
    "\<And>x. x \<in> set xs \<Longrightarrow> qbumped (queue d) < btab d ! x \<Longrightarrow> dvals d ! x \<noteq> 0"
  using assms by (auto simp: queue_ok_def)

lemma queue_okI:
  assumes "listed xs d" "set xs = variables d" "unassigned (queue d) \<in> set xs"
    "qbumped (queue d) \<le> btab d ! unassigned (queue d)"
    "\<And>x. x \<in> set xs \<Longrightarrow> qbumped (queue d) < btab d ! x \<Longrightarrow> dvals d ! x \<noteq> 0"
  shows "queue_ok xs d"
  using assms by (auto simp: queue_ok_def)

lemma variables_cong: "dmax_var d = dmax_var e \<Longrightarrow> variables d = variables e"
  by (simp add: variables_def)

text \<open>The values matter only for their number and that of no variable.\<close>

lemma listed_values:
  assumes "listed xs d" "links e = links d" "queue e = queue d" "btab e = btab d" "bumped_stat e = bumped_stat d"
    "dmax_var e = dmax_var d" "length (dvals e) = length (dvals d)" "dvals e ! 0 = 0"
  shows "listed xs e"
  using assms(1) variables_cong [OF assms(6)] by (simp add: listed_def assms(2-))

lemma update_queue_unassigned_simps [simp]:
  "links (update_queue_unassigned v d) = links d" "btab (update_queue_unassigned v d) = btab d"
  "bumped_stat (update_queue_unassigned v d) = bumped_stat d" "dvals (update_queue_unassigned v d) = dvals d"
  "dmax_var (update_queue_unassigned v d) = dmax_var d" "variables (update_queue_unassigned v d) = variables d"
  "queue (update_queue_unassigned v d) = (queue d)\<lparr>unassigned := v, qbumped := btab d ! v\<rparr>"
  by (simp_all add: update_queue_unassigned_def variables_def)

lemma dlist_unassigned [simp]: "dlist xs (ls, q\<lparr>unassigned := v, qbumped := b\<rparr>) = dlist xs (ls, q)"
  by (simp add: dlist_def)

lemma listed_update [simp]: "listed xs (update_queue_unassigned v d) = listed xs d"
  by (simp add: listed_def)

text \<open>Pointing at a variable after which all are assigned.\<close>

lemma update_queue_ok:
  assumes "listed xs d" "set xs = variables d" "v \<in> set xs"
    and "\<And>x. x \<in> set xs \<Longrightarrow> btab d ! v < btab d ! x \<Longrightarrow> dvals d ! x \<noteq> 0"
  shows "queue_ok xs (update_queue_unassigned v d)"
  using assms by (simp add: queue_ok_def)

lemma queue_assign_ok:
  assumes "queue_ok xs d" "b \<noteq> 0" "v \<in> variables d"
  shows "queue_ok xs (d\<lparr>dvals := (dvals d)[v := b]\<rparr>)"
proof -
  have v: "v \<noteq> 0" "v < length (dvals d)"
    using assms(3) listedD(5) [OF queue_okD(1) [OF assms(1)]] by (auto simp: variables_def)
  have "(dvals d)[v := b] ! x \<noteq> 0" if "x \<in> set xs" "qbumped (queue d) < btab d ! x" for x
    using queue_okD(5) [OF assms(1) that] assms(2) v(2) by (cases "x = v") simp_all
  moreover have "listed xs (d\<lparr>dvals := (dvals d)[v := b]\<rparr>)"
    by (rule listed_values [OF queue_okD(1) [OF assms(1)]])
      (use v listedD(9) [OF queue_okD(1) [OF assms(1)]] in simp_all)
  ultimately show ?thesis
    using queue_okD(2-4) [OF assms(1)] by (intro queue_okI) (simp_all add: variables_def)
qed

text \<open>The queue's part of \<open>unassign\<close>.\<close>

lemma queue_unassign_ok:
  fixes h :: heap
  assumes "queue_ok xs d" "v \<in> variables d"
  defines "e \<equiv> d\<lparr>dvals := (dvals d)[v := 0], scores := h\<rparr>"
  shows "queue_ok xs (if qbumped (queue e) < btab e ! v then update_queue_unassigned v e else e)"
proof -
  note ok = queue_okD [OF assms(1)]
  have z: "(dvals d)[v := 0] ! 0 = 0"
    using listedD(5,9) [OF ok(1)] by (cases "v = 0") simp_all
  have l: "listed xs e"
    by (rule listed_values [OF ok(1)]) (simp_all add: e_def z)
  have s: "set xs = variables e" using ok(2) by (simp add: e_def variables_def)
  have v: "v \<in> set xs" using assms(2) ok(2) by simp
  have as: "dvals e ! x \<noteq> 0" if "x \<in> set xs" "qbumped (queue d) < btab d ! x" "x \<noteq> v" for x
    using ok(5) [OF that(1,2)] that(3) by (simp add: e_def)
  show ?thesis
  proof (cases "qbumped (queue e) < btab e ! v")
    case True
    have "queue_ok xs (update_queue_unassigned v e)"
      by (rule update_queue_ok [OF l s v]) (rule as; use True in \<open>auto simp: e_def\<close>)
    then show ?thesis using True by simp
  next
    case False
    have "dvals e ! x \<noteq> 0" if "x \<in> set xs" "qbumped (queue e) < btab e ! x" for x
    proof -
      have "x \<noteq> v" using that(2) False by blast
      then show ?thesis using as [OF that(1)] that(2) by (simp add: e_def)
    qed
    then have "queue_ok xs e"
      using l s ok(3,4) by (intro queue_okI) (simp_all add: e_def)
    then show ?thesis using False by simp
  qed
qed

section \<open>Bumping\<close>

lemma stamp_simps [simp]:
  "links (stamp v d) = links d" "queue (stamp v d) = queue d" "dvals (stamp v d) = dvals d"
  "dmax_var (stamp v d) = dmax_var d" "bumped_stat (stamp v d) = bumped_stat d + 1"
  "btab (stamp v d) = (btab d)[v := bumped_stat d + 1]" "variables (stamp v d) = variables d"
  by (simp_all add: stamp_def variables_def)

lemma stamp_last:
  assumes "\<forall>x \<in> set xs. btab d ! x \<le> bumped_stat d" "sorted_wrt (\<lambda>a b. btab d ! a < btab d ! b) xs"
    and "v \<notin> set xs" "v < length (btab d)"
  shows "sorted_wrt (\<lambda>a b. btab (stamp v d) ! a < btab (stamp v d) ! b) (xs @ [v])"
    and "\<forall>x \<in> set (xs @ [v]). btab (stamp v d) ! x \<le> bumped_stat (stamp v d)"
proof -
  have o: "(btab d)[v := b] ! x = btab d ! x" if "x \<in> set xs" for x b
    using that assms(3) by (metis nth_list_update_neq)
  have "sorted_wrt (\<lambda>a b. (btab d)[v := c] ! a < (btab d)[v := c] ! b) xs" for c
    by (rule sorted_wrt_mono_rel [OF _ assms(2)]) (simp add: o)
  then show "sorted_wrt (\<lambda>a b. btab (stamp v d) ! a < btab (stamp v d) ! b) (xs @ [v])"
    using assms(1,4) by (auto simp: sorted_wrt_append o)
  show "\<forall>x \<in> set (xs @ [v]). btab (stamp v d) ! x \<le> bumped_stat (stamp v d)"
    using assms(1,4) by (auto simp: o)
qed

lemma next_last:
  assumes "dlist (as @ v # bs) (ls, q)"
  shows "next (ls ! v) = 0 \<longleftrightarrow> bs = []"
  using assms hd_or_0 [of bs] by (auto simp: dlist_def segment_append)

lemma bump_queue_ok:
  assumes "queue_ok xs d" "v \<in> variables d"
  shows "queue_ok (remove1 v xs @ [v]) (bump_queue v d)"
proof -
  note ok = queue_okD [OF assms(1)] and l = listedD [OF queue_okD(1) [OF assms(1)]]
  obtain as bs where xs: "xs = as @ v # bs" using assms(2) ok(2) by (metis split_list)
  have va: "v \<notin> set as" "v \<notin> set bs" using l(10) by (simp_all add: xs)
  then have rem: "remove1 v xs = as @ bs" by (simp add: xs remove1_append)
  have dl: "dlist (as @ v # bs) (links d, queue d)" using l(1) by (simp add: xs)
  show ?thesis
  proof (cases "next (links d ! v) = 0")
    case True
    then have "bs = []" using next_last [OF dl] by simp
    then show ?thesis using assms(1) True va rem by (simp add: bump_queue_def xs)
  next
    case False
    have vl: "0 < v" "v < length (links d)" "v < length (btab d)" using assms(2) l(3,4) by (auto simp: variables_def)
    define r where "r = dequeue v (links d, queue d)"
    define t where "t = enqueue v r"
    note dq = dequeue_dlist [OF dl, folded r_def]
    have r: "dlist (as @ bs) (fst r, snd r)" using dq(1) by simp
    have vr: "v \<notin> set (as @ bs)" "v < length (fst r)" using va vl dq(2) by simp_all
    note eq = enqueue_dlist [OF r vr(1) vl(1) vr(2), unfolded prod.collapse, folded t_def]
    define e where "e = stamp v (d\<lparr>links := fst t, queue := snd t\<rparr>)"
    have b: "bump_queue v d = (if dvals d ! v = 0 then update_queue_unassigned v e else e)"
      using False by (simp add: bump_queue_def on_queue_def e_def t_def r_def Let_def split_beta)
    have f: "links e = fst t" "queue e = snd t" "dvals e = dvals d" "dmax_var e = dmax_var d"
      "btab e = (btab d)[v := bumped_stat d + 1]" "bumped_stat e = bumped_stat d + 1" "variables e = variables d"
      by (simp_all add: e_def variables_def)
    have "sorted_wrt (\<lambda>a b. btab d ! a < btab d ! b) (as @ bs)" "\<forall>x \<in> set (as @ bs). btab d ! x \<le> bumped_stat d"
      using l(6,7) by (auto simp: xs sorted_wrt_append)
    note st = stamp_last [OF this(2,1) vr(1) vl(3)]
    have le: "listed (as @ bs @ [v]) e"
      using eq(1,2) dq(2) st l(2-5,8,9) by (simp add: listed_def f xs)
    have se: "set (as @ bs @ [v]) = variables e" using ok(2) by (auto simp: f xs)
    have old: "btab e ! x = btab d ! x" if "x \<noteq> v" for x using that by (simp add: f)
    have new: "btab e ! v = bumped_stat d + 1" using vl(3) by (simp add: f)
    have top: "btab e ! x \<le> bumped_stat d + 1" if "x \<in> set xs" for x
      using l(7) [OF that] old [of x] new by (cases "x = v") auto
    have "queue_ok (as @ bs @ [v]) (if dvals d ! v = 0 then update_queue_unassigned v e else e)"
    proof (cases "dvals d ! v = 0")
      case True
      have "queue_ok (as @ bs @ [v]) (update_queue_unassigned v e)"
        by (rule update_queue_ok [OF le se]) (use top new in \<open>fastforce simp: xs\<close>)+
      then show ?thesis using True by simp
    next
      case nz: False
      have ptr: "unassigned (queue e) = unassigned (queue d)" "qbumped (queue e) = qbumped (queue d)"
        by (simp_all add: f eq(3,4) dq(3,4))
      have "qbumped (queue d) \<le> btab e ! unassigned (queue d)"
        using ok(4) l(7) [OF ok(3)] old [of "unassigned (queue d)"] new
        by (cases "unassigned (queue d) = v") auto
      moreover have "dvals e ! x \<noteq> 0" if "x \<in> set xs" "qbumped (queue d) < btab e ! x" for x
        using ok(5) [OF that(1)] that(2) old [of x] nz by (cases "x = v") (auto simp: f)
      moreover have "set (as @ bs @ [v]) = set xs" by (auto simp: xs)
      ultimately show ?thesis using nz le se ok(3) by (simp add: queue_ok_def ptr)
    qed
    then show ?thesis by (simp add: b rem)
  qed
qed

section \<open>Deciding\<close>

lemma search_queue_finds:
  assumes "segment ls 0 as n" "vs ! 0 = 0"
  shows "\<exists>k. search_queue vs ls (last_or as 0) s = Some (last_or (filter (\<lambda>x. vs ! x = 0) as) 0, s + k)
    \<and> (k = 0 \<longrightarrow> vs ! last_or as 0 = 0)"
  using assms(1)
proof (induction as arbitrary: n s rule: rev_induct)
  case Nil
  show ?case by (subst search_queue.simps) (simp add: assms(2))
next
  case (snoc x as)
  have seg: "segment ls 0 as x" "prev (ls ! x) = last_or as 0" using snoc.prems by (simp_all add: segment_append)
  show ?case
  proof (cases "vs ! x = 0")
    case True
    then show ?thesis by (subst search_queue.simps) simp
  next
    case False
    obtain k where "search_queue vs ls (last_or as 0) (s + 1) = Some (last_or (filter (\<lambda>x. vs ! x = 0) as) 0, s + 1 + k)"
      using snoc.IH [OF seg(1)] by blast
    then show ?thesis
      using False seg(2) by (intro exI [of _ "Suc k"]) (subst search_queue.simps, simp)
  qed
qed

text \<open>The variable with the latest time stamp among the unassigned ones.\<close>

definition most_recent :: "'s decider \<Rightarrow> nat \<Rightarrow> bool" where
  "most_recent d v \<longleftrightarrow> v \<in> unassigned_vars d
     \<and> list_all (\<lambda>u. dvals d ! u = 0 \<longrightarrow> btab d ! u \<le> btab d ! v) [1..<dmax_var d + 1]"

lemma sorted_last_filter:
  assumes "sorted_wrt (\<lambda>a b. f a < (f b :: int)) xs" "x \<in> set xs" "P x"
  shows "last_or (filter P xs) 0 \<in> set xs \<and> P (last_or (filter P xs) 0) \<and> f x \<le> f (last_or (filter P xs) 0)"
  using assms
proof (induction xs rule: rev_induct)
  case (snoc y ys)
  show ?case
  proof (cases "P y")
    case True
    then show ?thesis using snoc.prems by (auto simp: sorted_wrt_append)
  next
    case False
    then have "x \<in> set ys" using snoc.prems by auto
    then show ?thesis using snoc.IH snoc.prems False by (auto simp: sorted_wrt_append)
  qed
qed simp

lemma next_on_queue_ok:
  assumes "queue_ok xs d" "unassigned_vars d \<noteq> {}"
  shows "\<exists>d' v. next_decision_variable_on_queue d = Some (d', v) \<and> queue_ok xs d' \<and> most_recent d v
    \<and> v = last_or (filter (\<lambda>x. dvals d ! x = 0) xs) 0
    \<and> dvals d' = dvals d \<and> dmax_var d' = dmax_var d \<and> scores d' = scores d \<and> stab d' = stab d"
proof -
  note ok = queue_okD [OF assms(1)] and l = listedD [OF queue_okD(1) [OF assms(1)]]
  let ?p = "unassigned (queue d)" and ?P = "\<lambda>x. dvals d ! x = 0"
  obtain as bs where xs: "xs = as @ ?p # bs" using ok(3) by (metis split_list)
  have "segment (links d) 0 (as @ [?p]) (hd_or bs 0)"
    using l(1) by (simp add: dlist_def xs segment_append)
  from search_queue_finds [OF this l(9), of 0] obtain k where
    k: "search_queue (dvals d) (links d) ?p 0 = Some (last_or (filter ?P (as @ [?p])) 0, k)"
    and k0: "k = 0 \<longrightarrow> ?P ?p" by auto
  have bs: "\<not> ?P x" if "x \<in> set bs" for x
  proof -
    have "btab d ! ?p < btab d ! x" using l(6) that by (simp add: xs sorted_wrt_append)
    then show ?thesis using ok(4) ok(5) [of x] that by (simp add: xs)
  qed
  then have "filter ?P bs = []" by (simp add: filter_empty_conv)
  then have f: "filter ?P xs = filter ?P (as @ [?p])" by (subst xs) simp
  let ?v = "last_or (filter ?P xs) 0"
  obtain u where u: "u \<in> set xs" "?P u" using assms(2) ok(2) by (auto simp: unassigned_vars_def)
  note last = sorted_last_filter [where f = "\<lambda>x. btab d ! x" and P = ?P, OF l(6)]
  have v: "?v \<in> set xs" "?P ?v" using last [OF u] by simp_all
  have max: "btab d ! x \<le> btab d ! ?v" if "x \<in> set xs" "?P x" for x
    using last [OF that] by simp
  have "most_recent d ?v"
    using v max ok(2) by (auto simp: most_recent_def unassigned_vars_def variables_def list_all_iff)
  moreover have "queue_ok xs (if k \<noteq> 0 then update_queue_unassigned ?v d else d)"
  proof -
    have "queue_ok xs (update_queue_unassigned ?v d)"
      by (rule update_queue_ok [OF ok(1,2) v(1)]) (use max in force)
    then show ?thesis using assms(1) by simp
  qed
  moreover have "next_decision_variable_on_queue d = Some (if k \<noteq> 0 then update_queue_unassigned ?v d else d, ?v)"
    using k by (simp add: next_decision_variable_on_queue_def f)
  ultimately show ?thesis by (auto simp: update_queue_unassigned_def)
qed

section \<open>Initialization\<close>

lemma upd_nth_swap: "i \<noteq> j \<Longrightarrow> upd_nth (upd_nth ls i f) j g = upd_nth (upd_nth ls j g) i f"
  by (simp add: upd_nth_def list_update_swap)

lemma upd_nth_twice: "upd_nth (upd_nth ls i f) i g = upd_nth ls i (\<lambda>x. g (f x))"
  by (cases "i < length ls") (simp_all add: upd_nth_def not_less list_update_beyond)

lemma link_commute: "(k :: link)\<lparr>next := n, prev := p\<rparr> = k\<lparr>prev := p, next := n\<rparr>"
  by simp

text \<open>The linking inlined into \<open>init_enqueue\<close> is that of the queue's operations.\<close>

lemma link_back_enqueue:
  assumes "last_var (queue d) \<noteq> v"
  shows "(links (link_back v d), queue (link_back v d)) = enqueue v (links d, queue d)"
  using assms
  by (simp add: link_back_def enqueue_def Let_def upd_nth_swap [of v "last_var (queue d)"] upd_nth_twice link_commute)

lemma link_front_bury:
  assumes "first (queue d) \<noteq> v"
  shows "(links (link_front v d), queue (link_front v d)) = bury v (links d, queue d)"
  using assms
  by (simp add: link_front_def bury_def Let_def upd_nth_swap [of v "first (queue d)"] upd_nth_twice link_commute)

text \<open>While no variable is assigned the pointer is at the end of the queue.\<close>

definition initial :: "nat list \<Rightarrow> 's decider \<Rightarrow> bool" where
  "initial xs d \<longleftrightarrow> listed xs d \<and> unassigned (queue d) = last_or xs 0
     \<and> (xs \<noteq> [] \<longrightarrow> qbumped (queue d) = btab d ! last_or xs 0)"

lemma link_back_fields:
  "btab (link_back v d) = (btab d)[v := bumped_stat d + 1]" "bumped_stat (link_back v d) = bumped_stat d + 1"
  "dvals (link_back v d) = dvals d" "dmax_var (link_back v d) = dmax_var d"
  "variables (link_back v d) = variables d" "scores (link_back v d) = scores d" "stab (link_back v d) = stab d"
  by (simp_all add: link_back_def Let_def stamp_def variables_def)

lemma link_front_fields:
  "btab (link_front v d) = (btab d)[v := if first (queue d) \<noteq> 0 then btab d ! first (queue d) - 1 else 0]"
  "bumped_stat (link_front v d) = bumped_stat d" "unassigned (queue (link_front v d)) = unassigned (queue d)"
  "qbumped (queue (link_front v d)) = qbumped (queue d)"
  "dvals (link_front v d) = dvals d" "dmax_var (link_front v d) = dmax_var d"
  "variables (link_front v d) = variables d" "scores (link_front v d) = scores d" "stab (link_front v d) = stab d"
  by (simp_all add: link_front_def Let_def variables_def)

lemma bury_length: "length (fst (bury v (ls, q))) = length ls"
  by (simp add: bury_def Let_def upd_nth_def)

lemma init_back_ok:
  assumes "initial xs d" "v \<in> variables d" "v \<notin> set xs"
  shows "initial (xs @ [v]) (init_enqueue False v d)"
proof -
  have li: "listed xs d" using assms(1) by (simp add: initial_def)
  note l = listedD [OF li]
  have v: "0 < v" "v < length (links d)" "v < length (btab d)" using assms(2) l(3,4) by (auto simp: variables_def)
  have "last_var (queue d) = last_or xs 0" using l(1) by (simp add: dlist_def)
  then have "last_var (queue d) \<noteq> v" using assms(3) v(1) by (auto simp: last_or_def split: if_splits)
  note e = link_back_enqueue [OF this]
  note q = enqueue_dlist [OF l(1) assms(3) v(1,2), folded e]
  have "\<forall>x \<in> set xs. btab d ! x \<le> bumped_stat d" using l(7) by blast
  note st = stamp_last [OF this l(6) assms(3) v(3), unfolded stamp_simps]
  have lb: "listed (xs @ [v]) (link_back v d)"
    using q(1,2) st l(2-5,8,9) assms(2) by (simp add: listed_def link_back_fields)
  then have "last_var (queue (link_back v d)) = v" by (simp add: listed_def dlist_def)
  then show ?thesis using lb by (simp add: init_enqueue_def Let_def initial_def)
qed

lemma init_front_ok:
  assumes "initial xs d" "v \<in> variables d" "v \<notin> set xs"
  shows "initial (v # xs) (init_enqueue True v d)"
proof -
  have li: "listed xs d" using assms(1) by (simp add: initial_def)
  note l = listedD [OF li]
  have v: "0 < v" "v < length (links d)" "v < length (btab d)" using assms(2) l(3,4) by (auto simp: variables_def)
  have f: "first (queue d) = hd_or xs 0" using l(1) by (simp add: dlist_def)
  then have "first (queue d) \<noteq> v" using assms(3) v(1) by (cases xs) auto
  note e = link_front_bury [OF this]
  note q = bury_dlist [OF l(1) assms(3) v(1,2), folded e]
  let ?c = "if first (queue d) \<noteq> 0 then btab d ! first (queue d) - 1 else 0"
  have nv: "(btab d)[v := c] ! x = btab d ! x" if "x \<in> set xs" for x c using that assms(3) by (metis nth_list_update_neq)
  have cl: "?c < btab d ! x" if "x \<in> set xs" for x
    using that l(6) f hd_or_0 [OF l(11)] by (cases xs) fastforce+
  have ct: "?c \<le> bumped_stat d"
    using l(7) [of "hd_or xs 0"] l(8) f hd_or_0 [OF l(11)] by (cases xs) fastforce+
  have so: "sorted_wrt (\<lambda>a b. (btab d)[v := ?c] ! a < (btab d)[v := ?c] ! b) (v # xs)"
    using sorted_wrt_mono_rel [OF _ l(6), of "\<lambda>a b. (btab d)[v := ?c] ! a < (btab d)[v := ?c] ! b"] nv cl v(3) by simp
  have len: "length (links (link_front v d)) = length (links d)"
    using arg_cong [OF e, where f = "\<lambda>x. length (fst x)"] bury_length [of v "links d" "queue d"] by simp
  have "\<forall>x \<in> set (v # xs). (btab d)[v := ?c] ! x \<le> bumped_stat d" using ct l(7) nv v(3) by simp
  then have lf: "listed (v # xs) (link_front v d)"
    using q so l(2-5,8,9) assms(2) len by (simp add: listed_def link_front_fields)
  have lv: "last_var (queue (link_front v d)) = last_or xs v" using lf by (simp add: listed_def dlist_def)
  show ?thesis
  proof (cases "xs = []")
    case True
    then have "unassigned (queue (link_front v d)) = 0" using assms(1) by (simp add: initial_def link_front_fields)
    then show ?thesis using lf lv True by (simp add: init_enqueue_def Let_def initial_def)
  next
    case False
    then have lo: "last_or xs v = last_or xs 0" "last_or xs 0 \<noteq> 0" "last_or xs 0 \<in> set xs"
      using last_or_0 [OF l(11)] by (simp_all add: last_or_def)
    then have u: "unassigned (queue (link_front v d)) \<noteq> 0" using assms(1) by (simp add: initial_def link_front_fields)
    have "qbumped (queue d) = btab d ! last_or xs 0" using assms(1) False by (simp add: initial_def)
    then show ?thesis
      using lf u lo nv [OF lo(3)] assms(1) by (simp add: init_enqueue_def initial_def link_front_fields)
  qed
qed

lemma init_enqueue_fields:
  "dvals (init_enqueue r v d) = dvals d" "dmax_var (init_enqueue r v d) = dmax_var d"
  "variables (init_enqueue r v d) = variables d" "scores (init_enqueue r v d) = scores d"
  "stab (init_enqueue r v d) = stab d"
  by (simp_all add: init_enqueue_def Let_def link_back_fields link_front_fields update_queue_unassigned_def variables_def)

lemma init_enqueues:
  assumes "initial xs d" "set vs \<subseteq> variables d" "distinct (vs @ xs)"
  shows "initial (if r then rev vs @ xs else xs @ vs) (fold (init_enqueue r) vs d)"
  using assms
proof (induction vs arbitrary: xs d)
  case (Cons v vs)
  have v: "v \<in> variables d" "v \<notin> set xs" using Cons.prems by auto
  define zs where "zs = (if r then v # xs else xs @ [v])"
  have "initial zs (init_enqueue r v d)"
    using init_back_ok [OF Cons.prems(1) v] init_front_ok [OF Cons.prems(1) v] by (cases r) (simp_all add: zs_def)
  moreover have "distinct (vs @ zs)" using Cons.prems(3) by (auto simp: zs_def)
  ultimately have "initial (if r then rev vs @ zs else zs @ vs) (fold (init_enqueue r) vs (init_enqueue r v d))"
    using Cons.IH [of zs "init_enqueue r v d"] Cons.prems(2) by (simp add: init_enqueue_fields)
  then show ?case by (cases r) (simp_all add: zs_def)
qed simp

lemma init_enqueues_variables: "variables (fold (init_enqueue r) vs d) = variables d"
  by (induction vs arbitrary: d) (simp_all add: init_enqueue_fields)

lemma fresh_initial: "initial [] (fresh_decider n s)"
  by (simp add: initial_def listed_def dlist_def fresh_decider_def empty_queue_def variables_def)

lemma initial_queue_ok:
  assumes "initial xs d" "set xs = variables d" "xs \<noteq> []"
  shows "queue_ok xs d"
proof -
  have li: "listed xs d" and p: "unassigned (queue d) = last_or xs 0" "qbumped (queue d) = btab d ! last_or xs 0"
    using assms(1,3) by (simp_all add: initial_def)
  have top: "btab d ! x \<le> btab d ! last_or xs 0" if "x \<in> set xs" for x
    using sorted_last_filter [where f = "\<lambda>x. btab d ! x" and P = "\<lambda>x. True", OF listedD(6) [OF li] that] by simp
  have "last_or xs 0 \<in> set xs" using assms(3) by (simp add: last_or_def)
  then show ?thesis
    using li assms(2) p top by (intro queue_okI) (simp_all add: leD)
qed

definition initial_order :: "bool \<Rightarrow> nat \<Rightarrow> nat list" where
  "initial_order r n = (if r then rev [1..<n + 1] else [1..<n + 1])"

lemma init_queue_ok:
  assumes "0 < n"
  shows "queue_ok (initial_order r n) (init_queue r 0 n (fresh_decider n s))"
proof -
  let ?d = "fresh_decider n s" and ?vs = "map (\<lambda>i. i + 1) [0..<n]"
  have f: "init_queue r 0 n ?d = fold (init_enqueue r) ?vs ?d"
    by (simp add: init_queue_def fold_map comp_def)
  have vs3: "?vs = [1..<n + 1]" by (simp add: map_Suc_upt del: upt_Suc)
  have vs: "set ?vs = {1..n}" "distinct (?vs @ [])"
    by (simp_all add: image_Suc_atLeastLessThan atLeastLessThanSuc_atLeastAtMost distinct_map)
  have V: "variables ?d = {1..n}" by (simp add: variables_def fresh_decider_def)
  let ?ys = "initial_order r n"
  have "initial (if r then rev ?vs @ [] else [] @ ?vs) (fold (init_enqueue r) ?vs ?d)"
    by (rule init_enqueues [OF fresh_initial]) (use vs V in simp_all)
  moreover have "?ys = (if r then rev ?vs @ [] else [] @ ?vs)"
    unfolding vs3 initial_order_def by (simp del: upt_Suc)
  ultimately have ys: "initial ?ys (fold (init_enqueue r) ?vs ?d)" by (simp only:)
  have "set ?ys = {1..<Suc n}" by (cases r) (simp_all add: initial_order_def del: upt_Suc)
  then have se: "set ?ys = {1..n}" by (simp only: atLeastLessThanSuc_atLeastAtMost)
  have "set ?ys = variables (fold (init_enqueue r) ?vs ?d)"
    unfolding init_enqueues_variables V by (rule se)
  moreover have "?ys \<noteq> []" using se assms by auto
  ultimately show ?thesis using initial_queue_ok [OF ys] unfolding f by blast
qed

lemma init_queue_fields:
  "dvals (init_queue r k n d) = dvals d" "dmax_var (init_queue r k n d) = dmax_var d"
  "scores (init_queue r k n d) = scores d" "stab (init_queue r k n d) = stab d"
proof -
  have "dvals (fold (\<lambda>i. init_enqueue r (i + 1)) is d) = dvals d
      \<and> dmax_var (fold (\<lambda>i. init_enqueue r (i + 1)) is d) = dmax_var d
      \<and> scores (fold (\<lambda>i. init_enqueue r (i + 1)) is d) = scores d
      \<and> stab (fold (\<lambda>i. init_enqueue r (i + 1)) is d) = stab d" for "is"
    by (induction "is" arbitrary: d) (simp_all add: init_enqueue_fields)
  then show "dvals (init_queue r k n d) = dvals d" "dmax_var (init_queue r k n d) = dmax_var d"
    "scores (init_queue r k n d) = scores d" "stab (init_queue r k n d) = stab d"
    by (simp_all add: init_queue_def)
qed

end
