(* ===== verification/Decide_Claims.thy ===== *)
theory Decide_Claims
  imports Decide_Scores Decide_Recent
begin

text \<open>
  The two decision orders together: every operation of the solver on them keeps both invariants,
  so both decisions are the best ones after any sequence of operations.
\<close>

section \<open>Runs\<close>

datatype 's decide_op = Scored "'s score_op" | Bump nat | Search

fun decide_step :: "'s::linorder decide_op \<Rightarrow> 's decider \<Rightarrow> 's decider option" where
  "decide_step (Scored x) d = score_step x d"
| "decide_step (Bump v) d = Some (bump_queue v d)"
| "decide_step Search d =
     (if all_assigned d then Some d else map_option fst (next_decision_variable_on_queue d))"

fun decide_run :: "'s::linorder decide_op list \<Rightarrow> 's decider \<Rightarrow> 's decider option" where
  "decide_run [] d = Some d"
| "decide_run (x # xs) d = (case decide_step x d of None \<Rightarrow> None | Some d \<Rightarrow> decide_run xs d)"

fun decide_op_ok :: "nat \<Rightarrow> 's decide_op \<Rightarrow> bool" where
  "decide_op_ok n (Scored x) \<longleftrightarrow> op_var_ok n x"
| "decide_op_ok n (Bump v) \<longleftrightarrow> 1 \<le> v \<and> v \<le> n"
| "decide_op_ok n Search \<longleftrightarrow> True"

text \<open>Both orders initialized for the variables \<open>1 .. n\<close>, as \<open>init_vars\<close> does.\<close>

definition init_decider :: "bool \<Rightarrow> nat \<Rightarrow> 's::linorder \<Rightarrow> 's decider option" where
  "init_decider r n s = init_scores 0 n (init_queue r 0 n (fresh_decider n s))"

text \<open>The queue as a list: bumping moves to the end, nothing else moves.\<close>

fun list_step :: "'s decide_op \<Rightarrow> nat list \<Rightarrow> nat list" where
  "list_step (Bump v) xs = remove1 v xs @ [v]"
| "list_step x xs = xs"

section \<open>The queue under operations on scores\<close>

lemma queue_ok_cong:
  assumes "queue_ok xs d" "links e = links d" "queue e = queue d" "btab e = btab d" "bumped_stat e = bumped_stat d"
    "dmax_var e = dmax_var d" "dvals e = dvals d"
  shows "queue_ok xs e"
proof -
  note ok = queue_okD [OF assms(1)]
  have "listed xs e" by (rule listed_values [OF ok(1)]) (simp_all add: assms listedD(9) [OF ok(1)])
  then show ?thesis
    using ok(2-5) by (intro queue_okI) (simp_all add: assms variables_cong [OF assms(6)])
qed

lemma store_score_queue:
  assumes "store_score v s d = Some e"
  shows "links e = links d \<and> queue e = queue d \<and> btab e = btab d \<and> bumped_stat e = bumped_stat d
    \<and> dmax_var e = dmax_var d \<and> dvals e = dvals d"
  using assms by (auto simp: store_score_def Let_def split: if_splits)

lemma best_score_queue:
  assumes "next_decision_variable_with_best_score d = Some (e, v)"
  shows "links e = links d \<and> queue e = queue d \<and> btab e = btab d \<and> bumped_stat e = bumped_stat d
    \<and> dmax_var e = dmax_var d \<and> dvals e = dvals d"
  using assms by (auto simp: next_decision_variable_with_best_score_def)

lemma unassign_queue_ok:
  assumes "unassign v d = Some e" "queue_ok xs d" "v \<in> variables d"
  shows "queue_ok xs e"
proof -
  let ?d = "\<lambda>h. d\<lparr>dvals := (dvals d)[v := 0], scores := h\<rparr>"
  obtain h where "e = (if qbumped (queue (?d h)) < btab (?d h) ! v then update_queue_unassigned v (?d h) else ?d h)"
    using assms(1) by (auto simp: unassign_def Let_def split: option.splits)
  then show ?thesis using queue_unassign_ok [OF assms(2,3), of h] by simp
qed

lemma score_step_queue_ok:
  assumes "score_step x d = Some e" "queue_ok xs d" "op_var_ok (dmax_var d) x"
  shows "queue_ok xs e"
proof (cases x)
  case (Assign v b)
  then show ?thesis
    using assms queue_assign_ok [OF assms(2), of b v] by (auto simp: assign_var_def variables_def)
next
  case (Unassign v)
  then show ?thesis using assms unassign_queue_ok [of v d e xs] by (simp add: variables_def)
next
  case (Store_score v s)
  then have "store_score v s d = Some e" using assms(1) by simp
  from store_score_queue [OF this] show ?thesis using queue_ok_cong [OF assms(2)] by blast
next
  case Decide
  show ?thesis
  proof (cases "all_assigned d")
    case True
    then show ?thesis using assms(1,2) Decide by simp
  next
    case False
    then obtain v where "next_decision_variable_with_best_score d = Some (e, v)" using assms(1) Decide by auto
    from best_score_queue [OF this] show ?thesis using queue_ok_cong [OF assms(2)] by blast
  qed
qed

section \<open>The scores under operations on the queue\<close>

lemma scores_ok_cong:
  assumes "scores_ok d" "scores e = scores d" "stab e = stab d" "dvals e = dvals d" "dmax_var e = dmax_var d"
  shows "scores_ok e"
  using assms(1) unassigned_vars_cong [OF assms(4,5)] variables_cong [OF assms(5)]
  by (simp add: scores_ok_def assms(2-))

lemma bump_queue_scores:
  "scores (bump_queue v d) = scores d" "stab (bump_queue v d) = stab d" "dvals (bump_queue v d) = dvals d"
  "dmax_var (bump_queue v d) = dmax_var d"
  by (simp_all add: bump_queue_def on_queue_def stamp_def update_queue_unassigned_def Let_def split_beta)

section \<open>Both invariants\<close>

lemma decide_step_ok:
  assumes "scores_ok d" "queue_ok xs d" "decide_op_ok (dmax_var d) x"
  shows "\<exists>e. decide_step x d = Some e \<and> scores_ok e \<and> queue_ok (list_step x xs) e \<and> dmax_var e = dmax_var d"
proof (cases x)
  case (Scored y)
  then obtain e where e: "score_step y d = Some e" "scores_ok e" "dmax_var e = dmax_var d"
    using score_step_ok [OF assms(1)] assms(3) by auto
  moreover have "queue_ok xs e" using score_step_queue_ok [OF e(1) assms(2)] assms(3) Scored by simp
  ultimately show ?thesis using Scored by simp
next
  case (Bump v)
  have "scores_ok (bump_queue v d)" by (rule scores_ok_cong [OF assms(1)]) (rule bump_queue_scores)+
  moreover have "queue_ok (remove1 v xs @ [v]) (bump_queue v d)"
    by (rule bump_queue_ok [OF assms(2)]) (use assms(3) Bump in \<open>simp add: variables_def\<close>)
  ultimately show ?thesis using Bump by (simp add: bump_queue_scores)
next
  case Search
  show ?thesis
  proof (cases "all_assigned d")
    case True
    then show ?thesis using assms(1,2) Search by simp
  next
    case False
    then have "unassigned_vars d \<noteq> {}" by (simp add: all_assigned_iff)
    then obtain e v where e: "next_decision_variable_on_queue d = Some (e, v)" "queue_ok xs e"
      "dvals e = dvals d" "dmax_var e = dmax_var d" "scores e = scores d" "stab e = stab d"
      using next_on_queue_ok [OF assms(2)] by blast
    have "scores_ok e" by (rule scores_ok_cong [OF assms(1) e(5,6,3,4)])
    then show ?thesis using e(1,2,4) False Search by simp
  qed
qed

lemma decide_run_ok:
  assumes "scores_ok d" "queue_ok xs d" "list_all (decide_op_ok (dmax_var d)) ops"
  shows "\<exists>e. decide_run ops d = Some e \<and> scores_ok e \<and> queue_ok (fold list_step ops xs) e \<and> dmax_var e = dmax_var d"
  using assms
proof (induction ops arbitrary: d xs)
  case (Cons x ops)
  then obtain e where "decide_step x d = Some e" "scores_ok e" "queue_ok (list_step x xs) e" "dmax_var e = dmax_var d"
    using decide_step_ok [of d xs x] by auto
  then show ?case using Cons.IH [of e "list_step x xs"] Cons.prems(3) by simp
qed auto

lemma init_decider_ok:
  assumes "0 < n" "n < invalid_heap_position"
  shows "\<exists>d. init_decider r n s = Some d \<and> scores_ok d \<and> queue_ok (initial_order r n) d \<and> dmax_var d = n"
proof -
  let ?d = "init_queue r 0 n (fresh_decider n s)"
  have f: "scores ?d = empty_heap" "length (dvals ?d) = dmax_var ?d + 1" "length (stab ?d) = dmax_var ?d + 1" "dmax_var ?d = n"
    by (simp_all add: init_queue_fields fresh_decider_def)
  note xs = init_queue_ok [OF assms(1), of r s]
  obtain h where h: "init_scores 0 n ?d = Some (?d\<lparr>scores := h\<rparr>)" "scores_ok (?d\<lparr>scores := h\<rparr>)"
    using init_scores_ok [OF f(1-3)] f(4) assms(2) by auto
  have "queue_ok (initial_order r n) (?d\<lparr>scores := h\<rparr>)" by (rule queue_ok_cong [OF xs]) simp_all
  then show ?thesis using h f(4) by (intro exI [of _ "?d\<lparr>scores := h\<rparr>"]) (simp add: init_decider_def)
qed

lemma decider_reachable:
  assumes "0 < n" "n < invalid_heap_position" "list_all (decide_op_ok n) ops"
  shows "\<exists>d e. init_decider r n s = Some d \<and> decide_run ops d = Some e \<and> scores_ok e
    \<and> queue_ok (fold list_step ops (initial_order r n)) e"
proof -
  obtain d where d: "init_decider r n s = Some d" "scores_ok d" "queue_ok (initial_order r n) d" "dmax_var d = n"
    using init_decider_ok [OF assms(1,2)] by blast
  obtain e where "decide_run ops d = Some e" "scores_ok e" "queue_ok (fold list_step ops (initial_order r n)) e"
    using decide_run_ok [OF d(2,3)] assms(3) d(4) by blast
  then show ?thesis using d(1) by blast
qed

section \<open>Properties\<close>

text \<open>
  C36. From the initialization of \<open>n\<close> variables on, through any sequence of assignments,
  unassignments, changes of scores, bumps and decisions, the heap operations terminate, every
  unassigned variable is in the heap, and \<open>next_decision_variable_with_best_score\<close>, while some
  variable is unassigned, terminates with an unassigned variable that no unassigned variable
  beats: by a larger score, or the same score and a smaller index.
\<close>

theorem score_decision_best:
  fixes s :: "'s::linorder"
  assumes "0 < n" "n < invalid_heap_position" "list_all (decide_op_ok n) ops"
  shows "\<exists>d e. init_decider r n s = Some d \<and> decide_run ops d = Some e \<and> scores_ok e
    \<and> (all_assigned e \<or> (\<exists>f v. next_decision_variable_with_best_score e = Some (f, v) \<and> best_unassigned e v))"
proof -
  obtain d e where "init_decider r n s = Some d" "decide_run ops d = Some e" "scores_ok e"
    using decider_reachable [OF assms] by blast
  then show ?thesis using decide_ok [of e] by blast
qed

text \<open>
  C37. Through the same sequences the doubly linked queue with its time stamps is the list that
  starts as \<open>1 .. n\<close>, or reversed with \<open>opts.reverse\<close>, and in which bumping a variable moves it
  to the end; \<open>next_decision_variable_on_queue\<close>, which starts from a cached pointer, terminates
  with the last unassigned variable of the whole list, which is the one stamped last.
\<close>

theorem queue_decision_recent:
  fixes s :: "'s::linorder"
  assumes "0 < n" "n < invalid_heap_position" "list_all (decide_op_ok n) ops"
  shows "\<exists>d e. init_decider r n s = Some d \<and> decide_run ops d = Some e
    \<and> queue_ok (fold list_step ops (initial_order r n)) e
    \<and> (all_assigned e \<or> (\<exists>f v. next_decision_variable_on_queue e = Some (f, v) \<and> most_recent e v
         \<and> v = last_or (filter (\<lambda>x. dvals e ! x = 0) (fold list_step ops (initial_order r n))) 0))"
proof -
  obtain d e where "init_decider r n s = Some d" "decide_run ops d = Some e"
    "queue_ok (fold list_step ops (initial_order r n)) e"
    using decider_reachable [OF assms] by blast
  then show ?thesis using next_on_queue_ok [of _ e] by (metis all_assigned_iff)
qed

definition sample_ops :: "nat decide_op list" where
  "sample_ops = [Scored (Store_score 2 5), Bump 1, Scored (Assign 2 1), Scored Decide, Scored (Assign 1 (-1)),
     Search, Bump 2, Scored (Unassign 2), Scored (Store_score 3 4)]"

lemma sample_ops_ok: "list_all (decide_op_ok 3) sample_ops"
  by code_simp

lemma sample_size: "(0::nat) < 3" "3 < invalid_heap_position"
  by (simp_all add: invalid_heap_position_def)

text \<open>
  Kernel evaluation by rewriting: the position for absent elements is a large numeral, which
  \<open>code_simp\<close> would count in unary.
\<close>

lemma small_positions:
  "0 \<noteq> invalid_heap_position" "Suc 0 \<noteq> invalid_heap_position" "Suc (Suc 0) \<noteq> invalid_heap_position"
  "invalid_heap_position \<noteq> 0" "invalid_heap_position \<noteq> Suc 0" "invalid_heap_position \<noteq> Suc (Suc 0)"
  by (simp_all add: invalid_heap_position_def)

lemmas heap_eval = index_def indexed_def heap_size_def has_parent_def has_left_def has_right_def
  parent_def left_def right_def exchange_def up.simps down.simps larger_child_def contains_def
  heap_update_def append_element_def push_element_def front_def remove_front_def pop_front_def
  empty_heap_def resize_def Let_def upd_nth_def small_positions

lemmas decide_eval = heap_eval score_smaller_def init_decider_def init_scores_def init_queue_def
  fresh_decider_def init_enqueue_def link_back_def link_front_def stamp_def
  update_queue_unassigned_def empty_queue_def store_score_def bump_queue_def on_queue_def
  enqueue_def dequeue_def assign_var_def all_assigned_def next_decision_variable_with_best_score_def
  best_score.simps next_decision_variable_on_queue_def search_queue.simps unassign_def
  sample_ops_def numeral_2_eq_2 numeral_3_eq_3

theorem score_decision_best_witness:
  "(\<exists>d e. init_decider False 3 0 = Some d \<and> decide_run sample_ops d = Some e \<and> scores_ok e
    \<and> (all_assigned e \<or> (\<exists>f v. next_decision_variable_with_best_score e = Some (f, v) \<and> best_unassigned e v)))
   \<and> Option.bind (init_decider False 3 0)
       (\<lambda>d. Option.bind (decide_run sample_ops d)
         (\<lambda>e. map_option snd (next_decision_variable_with_best_score e))) = Some 2"
  by (rule conjI [OF score_decision_best [OF sample_size sample_ops_ok]]) (simp add: decide_eval)

theorem queue_decision_recent_witness:
  "(\<exists>d e. init_decider True 3 0 = Some d \<and> decide_run sample_ops d = Some e
    \<and> queue_ok (fold list_step sample_ops (initial_order True 3)) e
    \<and> (all_assigned e \<or> (\<exists>f v. next_decision_variable_on_queue e = Some (f, v) \<and> most_recent e v
         \<and> v = last_or (filter (\<lambda>x. dvals e ! x = 0) (fold list_step sample_ops (initial_order True 3))) 0)))
   \<and> fold list_step sample_ops (initial_order True 3) = [3, 1, 2]
   \<and> Option.bind (init_decider True 3 0)
       (\<lambda>d. Option.bind (decide_run sample_ops d)
         (\<lambda>e. map_option snd (next_decision_variable_on_queue e))) = Some 2"
  by (rule conjI [OF queue_decision_recent [OF sample_size sample_ops_ok]], rule conjI, code_simp)
    (simp add: decide_eval)

end
