(* ===== verification/WL2_Sort.thy ===== *)
theory WL2_Sort
  imports Orbit_Prelude "HOL-Library.Monad_Syntax" "HOL-Library.Word"
begin

text \<open>
  The sorting of the seeded 2-WL program (\<open>scawl_seeded.cpp\<close>): the three-way \<open>partition\<close> and
  \<open>quicksort\<close> templates on an array that is changed in place, and \<open>sortValueAndLocationPair\<close>,
  which sorts values together with the places they come from. The comparison operators of the
  element type read one number of an element, the argument \<open>key\<close> of the definitions. Indices are
  integers, since the code steps to \<open>l - 1\<close>; an access outside the array, which is undefined in
  the code, is the value \<open>None\<close>, and so is a scan that would leave the array.
\<close>

section \<open>Cells of an array\<close>

definition in_bounds :: "'a list \<Rightarrow> int \<Rightarrow> bool" where
  "in_bounds a i \<longleftrightarrow> 0 \<le> i \<and> i < int (length a)"

definition cell :: "'a list \<Rightarrow> int \<Rightarrow> 'a" where
  "cell a i = a ! nat i"

definition swapped :: "'a list \<Rightarrow> int \<Rightarrow> int \<Rightarrow> 'a list" where
  "swapped a i j = a[nat i := cell a j, nat j := cell a i]"

text \<open>\<open>swap (a[i], a[j])\<close>\<close>

definition swap_cells :: "'a list \<Rightarrow> int \<Rightarrow> int \<Rightarrow> 'a list option" where
  "swap_cells a i j = (if in_bounds a i \<and> in_bounds a j then Some (swapped a i j) else None)"

lemma length_swapped [simp]: "length (swapped a i j) = length a"
  by (simp add: swapped_def)

lemma in_bounds_swapped [simp]: "in_bounds (swapped a i j) k = in_bounds a k"
  by (simp add: in_bounds_def)

lemma cell_swapped [array_simps]:
  "in_bounds a i \<Longrightarrow> in_bounds a j \<Longrightarrow> 0 \<le> k \<Longrightarrow>
    cell (swapped a i j) k = (if k = i then cell a j else if k = j then cell a i else cell a k)"
  by (auto simp: in_bounds_def cell_def swapped_def nth_list_update)

lemma mset_swapped: "in_bounds a i \<Longrightarrow> in_bounds a j \<Longrightarrow> mset (swapped a i j) = mset a"
  unfolding in_bounds_def swapped_def cell_def by (rule mset_swap) auto

lemma swap_cells_Some:
  "in_bounds a i \<Longrightarrow> in_bounds a j \<Longrightarrow> swap_cells a i j = Some (swapped a i j)"
  by (simp add: swap_cells_def)

text \<open>The arrays that swaps of cells between \<open>l\<close> and \<open>r\<close> lead to.\<close>

inductive permuted :: "int \<Rightarrow> int \<Rightarrow> 'a list \<Rightarrow> 'a list \<Rightarrow> bool" for l r a where
  permuted_refl [intro, simp]: "permuted l r a a"
| permuted_swap: "permuted l r a b \<Longrightarrow> i \<in> {l..r} \<Longrightarrow> j \<in> {l..r} \<Longrightarrow> permuted l r a (swapped b i j)"

lemma permuted_trans: "permuted l r b c \<Longrightarrow> permuted l r a b \<Longrightarrow> permuted l r a c"
  by (induction rule: permuted.induct) (auto intro: permuted_swap)

lemma permuted_mono: "permuted l r a b \<Longrightarrow> l' \<le> l \<Longrightarrow> r \<le> r' \<Longrightarrow> permuted l' r' a b"
  by (induction rule: permuted.induct) (auto intro: permuted_swap)

lemma permuted_length [simp]: "permuted l r a b \<Longrightarrow> length b = length a"
  by (induction rule: permuted.induct) auto

lemma permuted_in_bounds: "permuted l r a b \<Longrightarrow> in_bounds b k = in_bounds a k"
  by (simp add: in_bounds_def)

lemma permuted_mset:
  assumes "permuted l r a b" "0 \<le> l" "r < int (length a)"
  shows "mset b = mset a"
  using assms
proof (induction rule: permuted.induct)
  case (permuted_swap b i j)
  then have "in_bounds b i" "in_bounds b j" by (auto simp: in_bounds_def)
  with permuted_swap show ?case by (simp add: mset_swapped)
qed simp

lemma permuted_outside:
  assumes "permuted l r a b" "0 \<le> l" "r < int (length a)" "0 \<le> k" "k \<notin> {l..r}"
  shows "cell b k = cell a k"
  using assms
proof (induction rule: permuted.induct)
  case (permuted_swap b i j)
  then have "in_bounds b i" "in_bounds b j" by (auto simp: in_bounds_def)
  with permuted_swap show ?case by (auto simp: array_simps)
qed simp

lemma permuted_inside:
  assumes "permuted l r a b" "0 \<le> l" "r < int (length a)" "k \<in> {l..r}"
  shows "\<exists>m \<in> {l..r}. cell b k = cell a m"
  using assms
proof (induction arbitrary: k rule: permuted.induct)
  case (permuted_swap b i j)
  then have "in_bounds b i" "in_bounds b j" by (auto simp: in_bounds_def)
  with permuted_swap show ?case by (auto simp: array_simps)
qed auto

lemma permuted_all:
  "permuted l r a b \<Longrightarrow> 0 \<le> l \<Longrightarrow> r < int (length a) \<Longrightarrow>
    (\<And>m. m \<in> {l..r} \<Longrightarrow> P (cell a m)) \<Longrightarrow> k \<in> {l..r} \<Longrightarrow> P (cell b k)"
  using permuted_inside by metis

section \<open>Partition and quicksort\<close>

text \<open>\<open>while (a[++i] < v);\<close>\<close>

function scan_up :: "('a \<Rightarrow> int) \<Rightarrow> 'a list \<Rightarrow> 'a \<Rightarrow> int \<Rightarrow> int option" where
  "scan_up key a v i =
     (if \<not> in_bounds a (i + 1) then None
      else if key (cell a (i + 1)) < key v then scan_up key a v (i + 1)
      else Some (i + 1))"
  by pat_completeness auto
termination
  by (relation "measure (\<lambda>(key, a, v, i). nat (int (length a) - i))") (auto simp: in_bounds_def)

text \<open>\<open>while (v < a[--j]) if (j == l) break;\<close>\<close>

function scan_down :: "('a \<Rightarrow> int) \<Rightarrow> 'a list \<Rightarrow> 'a \<Rightarrow> int \<Rightarrow> int \<Rightarrow> int option" where
  "scan_down key a v l j =
     (if \<not> in_bounds a (j - 1) then None
      else if key v < key (cell a (j - 1)) then
        (if j - 1 = l then Some (j - 1) else scan_down key a v l (j - 1))
      else Some (j - 1))"
  by pat_completeness auto
termination
  by (relation "measure (\<lambda>(key, a, v, l, j). nat j)") (auto simp: in_bounds_def)

declare scan_up.simps [simp del] scan_down.simps [simp del]

text \<open>
  The two guarded swaps of the loop body: \<open>if (a[i] == v) { p++; swap (a[p], a[i]); }\<close> and
  \<open>if (a[j] == v) { q--; swap (a[j], a[q]); }\<close>.
\<close>

definition keep_left :: "('a \<Rightarrow> int) \<Rightarrow> 'a \<Rightarrow> int \<Rightarrow> 'a list \<Rightarrow> int \<Rightarrow> ('a list \<times> int) option" where
  "keep_left key v i a p =
     (if key (cell a i) = key v then do { a \<leftarrow> swap_cells a (p + 1) i; Some (a, p + 1) }
      else Some (a, p))"

definition keep_right :: "('a \<Rightarrow> int) \<Rightarrow> 'a \<Rightarrow> int \<Rightarrow> 'a list \<Rightarrow> int \<Rightarrow> ('a list \<times> int) option" where
  "keep_right key v j a q =
     (if key (cell a j) = key v then do { a \<leftarrow> swap_cells a j (q - 1); Some (a, q - 1) }
      else Some (a, q))"

partial_function (option) partition_loop ::
  "('a \<Rightarrow> int) \<Rightarrow> int \<Rightarrow> 'a \<Rightarrow> 'a list \<Rightarrow> int \<Rightarrow> int \<Rightarrow> int \<Rightarrow> int \<Rightarrow> ('a list \<times> int \<times> int \<times> int) option"
where
  "partition_loop key l v a i j p q = do {
     i \<leftarrow> scan_up key a v i;
     j \<leftarrow> scan_down key a v l j;
     if i \<ge> j then Some (a, i, p, q)
     else do {
       a \<leftarrow> swap_cells a i j;
       (a, p) \<leftarrow> keep_left key v i a p;
       (a, q) \<leftarrow> keep_right key v j a q;
       partition_loop key l v a i j p q
     }
   }"

text \<open>\<open>for (int k = l; k < p; k++, j--) swap (a[k], a[j]);\<close>\<close>

function move_left :: "'a list \<Rightarrow> int \<Rightarrow> int \<Rightarrow> int \<Rightarrow> ('a list \<times> int) option" where
  "move_left a k p j =
     (if k < p then
        (case swap_cells a k j of None \<Rightarrow> None | Some b \<Rightarrow> move_left b (k + 1) p (j - 1))
      else Some (a, j))"
  by pat_completeness auto
termination
  by (relation "measure (\<lambda>(a, k, p, j). nat (p - k))") auto

text \<open>\<open>for (int k = r - 1; k > q; k--, i++) swap (a[i], a[k]);\<close>\<close>

function move_right :: "'a list \<Rightarrow> int \<Rightarrow> int \<Rightarrow> int \<Rightarrow> ('a list \<times> int) option" where
  "move_right a k q i =
     (if k > q then
        (case swap_cells a i k of None \<Rightarrow> None | Some b \<Rightarrow> move_right b (k - 1) q (i + 1))
      else Some (a, i))"
  by pat_completeness auto
termination
  by (relation "measure (\<lambda>(a, k, q, i). nat (k - q))") auto

declare move_left.simps [simp del] move_right.simps [simp del]

definition partition3 :: "('a \<Rightarrow> int) \<Rightarrow> 'a list \<Rightarrow> int \<Rightarrow> int \<Rightarrow> ('a list \<times> int \<times> int) option" where
  "partition3 key a l r = do {
     v \<leftarrow> (if in_bounds a r then Some (cell a r) else None);
     (a, i, p, q) \<leftarrow> partition_loop key l v a (l - 1) r (l - 1) r;
     a \<leftarrow> swap_cells a i r;
     (a, j) \<leftarrow> move_left a l p (i - 1);
     (a, i) \<leftarrow> move_right a (r - 1) q (i + 1);
     Some (a, i, j)
   }"

partial_function (option) quicksort :: "('a \<Rightarrow> int) \<Rightarrow> 'a list \<Rightarrow> int \<Rightarrow> int \<Rightarrow> 'a list option" where
  "quicksort key a l r =
     (if r \<le> l then Some a
      else do {
        (a, i, j) \<leftarrow> partition3 key a l r;
        a \<leftarrow> quicksort key a l j;
        quicksort key a i r
      })"

declare partition_loop.simps [code] quicksort.simps [code]

section \<open>Sorting values together with their places\<close>

text \<open>\<open>SortPair\<close> compares the values only; the values are \<open>int\<close>s.\<close>

type_synonym int32 = "32 word"

record sort_pair =
  originalLocation :: nat
  valueToSort :: int32

definition pair_key :: "sort_pair \<Rightarrow> int" where
  "pair_key x = sint (valueToSort x)"

definition getSortPairs :: "int32 list \<Rightarrow> nat list \<Rightarrow> nat \<Rightarrow> sort_pair list" where
  "getSortPairs valuesToSort originalLocations n =
     map (\<lambda>i. \<lparr>originalLocation = originalLocations ! i, valueToSort = valuesToSort ! i\<rparr>) [0..<n]"

definition loadFromSortPairs ::
  "sort_pair list \<Rightarrow> int32 list \<Rightarrow> nat list \<Rightarrow> nat \<Rightarrow> int32 list \<times> nat list" where
  "loadFromSortPairs pairs valuesToSort originalLocations n =
     (map (\<lambda>i. valueToSort (pairs ! i)) [0..<n] @ drop n valuesToSort,
      map (\<lambda>i. originalLocation (pairs ! i)) [0..<n] @ drop n originalLocations)"

definition sortValueAndLocationPair ::
  "int32 list \<Rightarrow> nat list \<Rightarrow> nat \<Rightarrow> (int32 list \<times> nat list) option" where
  "sortValueAndLocationPair vals originalLocations n = do {
     pairs \<leftarrow> quicksort pair_key (getSortPairs vals originalLocations n) 0 (int n - 1);
     Some (loadFromSortPairs pairs vals originalLocations n)
   }"

end
