(* ===== verification/WL2_Rows.thy ===== *)
theory WL2_Rows
  imports WL2_Sort
begin

text \<open>
  The row colours of the seeded 2-WL program (\<open>scawl_seeded.cpp\<close>): \<open>RowsEqual\<close> compares two
  rows of the two colour matrices, \<open>GetRowColors\<close> hashes and sorts all rows, cuts the sorted
  order into bins of equal hash, deals the bins out to the threads, and \<open>LargeBinPreprocess\<close> and
  \<open>ThreadWorker\<close> give equal rows of a bin the colour of the first of them. The threads of a
  parallel loop work on disjoint bins or slices, so the model runs them one after the other. The
  number of threads is an argument. Row numbers are naturals: they are loop counters.
\<close>

section \<open>Comparing rows\<close>

text \<open>
  The arguments \<open>colors1\<close>, \<open>colors2\<close>, \<open>colors1Size\<close>, \<open>colors2Size\<close> and \<open>vertexCount\<close> that are
  handed from function to function.
\<close>

record row_arrays =
  colors1 :: "int32 list"
  colors2 :: "int32 list"
  colors1Size :: nat
  colors2Size :: nat
  vertexCount :: nat

definition rows_total :: "row_arrays \<Rightarrow> nat" where
  "rows_total rs = colors1Size rs + colors2Size rs"

text \<open>
  The array a row is in and \<open>offsetRowi = i * vertexCount\<close>, an \<open>int\<close> multiplication: a product
  that does not fit is undefined.
\<close>

definition int_offset :: "nat \<Rightarrow> nat \<Rightarrow> nat option" where
  "int_offset i n = (if i * n < 2 ^ 31 then Some (i * n) else None)"

definition row_start :: "nat \<Rightarrow> row_arrays \<Rightarrow> (int32 list \<times> nat) option" where
  "row_start i rs =
     (if i < colors1Size rs
      then do { off \<leftarrow> int_offset i (vertexCount rs); Some (colors1 rs, off) }
      else do { off \<leftarrow> int_offset (i - colors1Size rs) (vertexCount rs); Some (colors2 rs, off) })"

text \<open>The comparing loop, with the number of cells that are left.\<close>

fun equal_cells :: "int32 list \<Rightarrow> nat \<Rightarrow> int32 list \<Rightarrow> nat \<Rightarrow> nat \<Rightarrow> bool option" where
  "equal_cells as x bs y 0 = Some True"
| "equal_cells as x bs y (Suc m) =
     (if x < length as \<and> y < length bs
      then (if as ! x \<noteq> bs ! y then Some False else equal_cells as (Suc x) bs (Suc y) m)
      else None)"

definition RowsEqual :: "nat \<Rightarrow> nat \<Rightarrow> row_arrays \<Rightarrow> bool option" where
  "RowsEqual i j rs = do {
     (colorsFori, offsetRowi) \<leftarrow> row_start i rs;
     (colorsForj, offsetRowj) \<leftarrow> row_start j rs;
     equal_cells colorsFori offsetRowi colorsForj offsetRowj (vertexCount rs)
   }"

section \<open>Loops over the bins\<close>

text \<open>A counting loop whose body may be undefined.\<close>

primrec for_each :: "('a \<Rightarrow> 's \<Rightarrow> 's option) \<Rightarrow> 'a list \<Rightarrow> 's \<Rightarrow> 's option" where
  "for_each f [] s = Some s"
| "for_each f (x # xs) s = do { s \<leftarrow> f x s; for_each f xs s }"

text \<open>The arrays the threads change.\<close>

record marks =
  rowColors :: "nat list"
  alreadyMatchedLeader :: "bool list"

text \<open>\<open>rowColors[j] = c; alreadyMatchedLeader[j] = true;\<close>\<close>

definition match_leader :: "nat \<Rightarrow> nat \<Rightarrow> marks \<Rightarrow> marks" where
  "match_leader c j s =
     s\<lparr>rowColors := (rowColors s)[j := c], alreadyMatchedLeader := (alreadyMatchedLeader s)[j := True]\<rparr>"

text \<open>The bin \<open>p\<close> starts at \<open>changeIndexes[p]\<close> and ends where the next one starts.\<close>

definition bin_end :: "nat list \<Rightarrow> nat \<Rightarrow> nat \<Rightarrow> nat" where
  "bin_end changeIndexes numRows p =
     (if p + 1 = length changeIndexes then numRows else changeIndexes ! (p + 1))"

subsection \<open>LargeBinPreprocess\<close>

definition preprocess_row ::
  "(nat \<Rightarrow> nat \<Rightarrow> 'e \<Rightarrow> bool option) \<Rightarrow> 'e \<Rightarrow> nat \<Rightarrow> nat \<Rightarrow> marks \<Rightarrow> marks option" where
  "preprocess_row signatureComparer e i j s = do {
     eq \<leftarrow> signatureComparer (rowColors s ! i) (rowColors s ! j) e;
     Some (if eq then match_leader (rowColors s ! i) j s else s)
   }"

definition preprocess_leader ::
  "(nat \<Rightarrow> nat \<Rightarrow> 'e \<Rightarrow> bool option) \<Rightarrow> 'e \<Rightarrow> nat \<Rightarrow> nat \<Rightarrow> marks \<Rightarrow> marks option" where
  "preprocess_leader signatureComparer e threadEnd i s =
     (if \<not> alreadyMatchedLeader s ! i
      then for_each (preprocess_row signatureComparer e i) [Suc i..<threadEnd] s
      else Some s)"

definition preprocess_thread ::
  "(nat \<Rightarrow> nat \<Rightarrow> 'e \<Rightarrow> bool option) \<Rightarrow> 'e \<Rightarrow> nat \<Rightarrow> nat \<Rightarrow> nat \<Rightarrow> nat \<Rightarrow> marks \<Rightarrow> marks option" where
  "preprocess_thread signatureComparer e numThreads i stop t s =
     (let rowsPerThread = (stop - i) div numThreads;
          threadStart = i + rowsPerThread * t;
          threadEnd = (if t + 1 = numThreads then stop else threadStart + rowsPerThread)
      in for_each (preprocess_leader signatureComparer e threadEnd) [threadStart..<threadEnd] s)"

definition LargeBinPreprocess ::
  "nat list \<Rightarrow> nat \<Rightarrow> nat \<Rightarrow> (nat \<Rightarrow> nat \<Rightarrow> 'e \<Rightarrow> bool option) \<Rightarrow> 'e \<Rightarrow> marks \<Rightarrow> marks option" where
  "LargeBinPreprocess changeIndexes numRows numThreads signatureComparer e =
     for_each (\<lambda>p s.
        let i = changeIndexes ! p; stop = bin_end changeIndexes numRows p
        in if stop - i > 2000
           then for_each (preprocess_thread signatureComparer e numThreads i stop) [0..<numThreads] s
           else Some s)
       [0..<length changeIndexes]"

subsection \<open>ThreadWorker\<close>

definition spread_match :: "nat \<Rightarrow> nat \<Rightarrow> nat \<Rightarrow> marks \<Rightarrow> marks" where
  "spread_match i oldJColor k s =
     (if rowColors s ! k = oldJColor then match_leader (rowColors s ! i) k s else s)"

definition worker_row ::
  "(nat \<Rightarrow> nat \<Rightarrow> 'e \<Rightarrow> bool option) \<Rightarrow> 'e \<Rightarrow> nat \<Rightarrow> nat \<Rightarrow> nat \<Rightarrow> marks \<Rightarrow> marks option" where
  "worker_row signatureComparer e stop i j s =
     (if alreadyMatchedLeader s ! j then Some s
      else do {
        eq \<leftarrow> signatureComparer (rowColors s ! i) (rowColors s ! j) e;
        Some (if eq then
                (let oldJColor = rowColors s ! j; s = match_leader (rowColors s ! i) j s
                 in if stop - i > 2000 then fold (spread_match i oldJColor) [Suc j..<stop] s else s)
              else s)
      })"

definition worker_leader ::
  "(nat \<Rightarrow> nat \<Rightarrow> 'e \<Rightarrow> bool option) \<Rightarrow> 'e \<Rightarrow> nat \<Rightarrow> nat \<Rightarrow> marks \<Rightarrow> marks option" where
  "worker_leader signatureComparer e stop i s =
     (if \<not> alreadyMatchedLeader s ! i
      then for_each (worker_row signatureComparer e stop i) [Suc i..<stop] s
      else Some s)"

definition ThreadWorker ::
  "nat list \<Rightarrow> nat \<Rightarrow> nat \<Rightarrow> nat list \<Rightarrow> (nat \<Rightarrow> nat \<Rightarrow> 'e \<Rightarrow> bool option) \<Rightarrow> 'e \<Rightarrow> marks \<Rightarrow> marks option" where
  "ThreadWorker changeIndexes numRows threadNum threadAssignments signatureComparer e =
     for_each (\<lambda>p s.
        if threadAssignments ! p = threadNum
        then for_each (worker_leader signatureComparer e (bin_end changeIndexes numRows p))
               [changeIndexes ! p..<bin_end changeIndexes numRows p] s
        else Some s)
       [0..<length changeIndexes]"

section \<open>GetRowColors\<close>

text \<open>The sum and the exclusive or of a row, mixed bit by bit.\<close>

unbundle bit_operations_syntax

definition row_hash :: "int32 list \<Rightarrow> nat \<Rightarrow> nat \<Rightarrow> int32" where
  "row_hash colors n i =
     (let rowTotal = fold (\<lambda>j s. s + colors ! (i * n + j)) [0..<n] 0;
          rowXor = fold (\<lambda>j s. s XOR colors ! (i * n + j)) [0..<n] 0
      in (rowTotal AND 0xAAAAAAAA) OR (rowXor AND 0x55555555))"


text \<open>The positions where the sorted hashes change; \<open>currentValue\<close> starts with \<open>-1\<close>.\<close>

fun change_positions :: "int32 \<Rightarrow> nat \<Rightarrow> int32 list \<Rightarrow> nat list" where
  "change_positions currentValue p [] = []"
| "change_positions currentValue p (x # xs) =
     (if x \<noteq> currentValue then p # change_positions x (Suc p) xs
      else change_positions currentValue (Suc p) xs)"

text \<open>\<open>(n * (n-1))/2\<close> in \<open>int\<close>s.\<close>

definition pair_work :: "nat \<Rightarrow> int32" where
  "pair_work n = word_of_int (sint (of_nat n * (of_nat n - 1) :: int32) div 2)"

definition work_per_bin :: "nat list \<Rightarrow> nat \<Rightarrow> int32 list" where
  "work_per_bin changeIndexes numRows =
     map (\<lambda>p. pair_work (bin_end changeIndexes numRows p - changeIndexes ! p)) [0..<length changeIndexes]"

text \<open>\<open>prefixSum[0] = arr[0]\<close> and \<open>prefixSum[i] = prefixSum[i - 1] + arr[i]\<close>.\<close>

definition fillPrefixSum :: "int32 list \<Rightarrow> int32 list option" where
  "fillPrefixSum arr =
     (if arr = [] then None
      else Some (fold (\<lambda>i prefixSum. prefixSum @ [prefixSum ! (i - 1) + arr ! i]) [1..<length arr] [arr ! 0]))"

text \<open>The bins are dealt out in the order of their work, thread after thread.\<close>

fun assign_threads :: "nat \<Rightarrow> nat \<Rightarrow> nat list \<Rightarrow> nat list \<Rightarrow> nat list" where
  "assign_threads nthreads threadNum [] threadAssignment = threadAssignment"
| "assign_threads nthreads threadNum (b # bs) threadAssignment =
     assign_threads nthreads (if threadNum + 1 > nthreads then 1 else threadNum + 1) bs
       (threadAssignment[b := threadNum])"

definition color_locations :: "nat list \<Rightarrow> nat list \<Rightarrow> nat list" where
  "color_locations colors rowColorLoc =
     fold (\<lambda>z loc. loc[colors ! z := z]) [0..<length colors] rowColorLoc"

definition bin_colors ::
  "row_arrays \<Rightarrow> nat \<Rightarrow> int32 list \<Rightarrow> nat list \<Rightarrow> nat list option" where
  "bin_colors rs nthreads rowCounts colors = do {
     let numRows = rows_total rs;
     let changeIndexes = change_positions (-1) 0 rowCounts;
     let workPerBin = work_per_bin changeIndexes numRows;
     workPrefixSum \<leftarrow> fillPrefixSum workPerBin;
     (workPerBin, workBinLoc) \<leftarrow>
       sortValueAndLocationPair workPerBin [0..<length changeIndexes] (length changeIndexes);
     let threadAssignment = assign_threads nthreads 1 workBinLoc (replicate (length changeIndexes) 0);
     s \<leftarrow> LargeBinPreprocess changeIndexes numRows nthreads RowsEqual rs
            \<lparr>rowColors = colors, alreadyMatchedLeader = replicate numRows False\<rparr>;
     s \<leftarrow> for_each (\<lambda>t. ThreadWorker changeIndexes numRows t threadAssignment RowsEqual rs)
            [1..<nthreads + 1] (s\<lparr>alreadyMatchedLeader := replicate numRows False\<rparr>);
     Some (rowColors s)
   }"

definition GetRowColors ::
  "row_arrays \<Rightarrow> nat \<Rightarrow> nat list \<Rightarrow> nat list \<Rightarrow> (nat list \<times> nat list) option" where
  "GetRowColors rs nthreads colors rowColorLoc =
     (if rows_total rs = 0 then Some (colors, rowColorLoc)
      else do {
        let rowCounts = map (row_hash (colors1 rs) (vertexCount rs)) [0..<colors1Size rs] @
                        map (row_hash (colors2 rs) (vertexCount rs)) [0..<colors2Size rs];
        (rowCounts, colors) \<leftarrow> sortValueAndLocationPair rowCounts [0..<rows_total rs] (rows_total rs);
        let rowColorLoc = color_locations colors rowColorLoc;
        if rows_total rs < 2 then Some (colors, rowColorLoc)
        else do { colors \<leftarrow> bin_colors rs nthreads rowCounts colors; Some (colors, rowColorLoc) }
      })"

end
