(* ===== verification/WL2_Bins.thy ===== *)
theory WL2_Bins
  imports WL2_Rows
begin

text \<open>
  The loops over the bins give two rows of a bin the same colour exactly when their contents are
  equal, for any comparing function that decides equality of contents: the locale
  \<open>signature_comparer\<close> is the interface behind the function pointer \<open>signatureComparer\<close>.
\<close>

section \<open>Counting loops\<close>

lemma for_each_append: "for_each f (xs @ ys) s = do { s \<leftarrow> for_each f xs s; for_each f ys s }"
  by (induction xs arbitrary: s) (auto split: bind_splits)

lemma for_each_invariant:
  assumes "\<And>x s. x \<in> set xs \<Longrightarrow> P s \<Longrightarrow> \<exists>s'. f x s = Some s' \<and> P s'" "P s"
  shows "\<exists>s'. for_each f xs s = Some s' \<and> P s'"
  using assms
proof (induction xs arbitrary: s)
  case (Cons x xs)
  then obtain s' where "f x s = Some s'" "P s'" by fastforce
  with Cons show ?case by simp
qed simp

lemma for_each_upt:
  assumes "\<And>i s. a \<le> i \<Longrightarrow> i < b \<Longrightarrow> P i s \<Longrightarrow> \<exists>s'. f i s = Some s' \<and> P (Suc i) s'" "P a s" "a \<le> b"
  shows "\<exists>s'. for_each f [a..<b] s = Some s' \<and> P b s'"
  using assms(3,1,2)
proof (induction b rule: dec_induct)
  case (step n)
  have "\<exists>s1. for_each f [a..<n] s = Some s1 \<and> P n s1"
    by (rule step.IH) (use step.prems in auto)
  then obtain s1 where s1: "for_each f [a..<n] s = Some s1" "P n s1" by blast
  obtain s2 where "f n s1 = Some s2" "P (Suc n) s2"
    using step.prems(1) [OF step.hyps(1) lessI s1(2)] by blast
  then show ?case using s1 step.hyps by (simp add: for_each_append)
qed simp

section \<open>Marks that stand for the contents\<close>

text \<open>
  The colour at a position is the number of a row with the content \<open>C\<close> of the row at this
  position; \<open>f\<close> reads the content of a row.
\<close>

definition faithful :: "(nat \<Rightarrow> 'v) \<Rightarrow> nat \<Rightarrow> (nat \<Rightarrow> 'v) \<Rightarrow> marks \<Rightarrow> bool" where
  "faithful f N C s \<longleftrightarrow>
     length (rowColors s) = N \<and> length (alreadyMatchedLeader s) = N \<and>
     (\<forall>p<N. rowColors s ! p < N \<and> f (rowColors s ! p) = C p)"

lemma faithfulD:
  "faithful f N C s \<Longrightarrow> p < N \<Longrightarrow> rowColors s ! p < N"
  "faithful f N C s \<Longrightarrow> p < N \<Longrightarrow> f (rowColors s ! p) = C p"
  "faithful f N C s \<Longrightarrow> length (rowColors s) = N"
  "faithful f N C s \<Longrightarrow> length (alreadyMatchedLeader s) = N"
  by (simp_all add: faithful_def)

lemma nth_list_update_cases: "j < length xs \<Longrightarrow> xs[i := x] ! j = (if i = j then x else xs ! j)"
  by (cases "i = j") simp_all

lemma faithful_match_leader:
  "faithful f N C s \<Longrightarrow> i < N \<Longrightarrow> C j = C i \<Longrightarrow> faithful f N C (match_leader (rowColors s ! i) j s)"
  unfolding faithful_def match_leader_def by (auto split: if_splits simp: nth_list_update_cases)

lemma rowColors_match_leader [simp]:
  "rowColors (match_leader c j s) = (rowColors s)[j := c]"
  "alreadyMatchedLeader (match_leader c j s) = (alreadyMatchedLeader s)[j := True]"
  by (simp_all add: match_leader_def)

text \<open>The leader \<open>i\<close> has taken over some of the later rows with its content.\<close>

definition absorbed :: "(nat \<Rightarrow> 'v) \<Rightarrow> nat \<Rightarrow> (nat \<Rightarrow> 'v) \<Rightarrow> nat \<Rightarrow> nat \<Rightarrow> marks \<Rightarrow> marks \<Rightarrow> bool" where
  "absorbed f N C i stop s s' \<longleftrightarrow>
     faithful f N C s' \<and>
     (\<forall>q. C q \<noteq> C i \<or> q \<le> i \<or> stop \<le> q \<longrightarrow>
        rowColors s' ! q = rowColors s ! q \<and> alreadyMatchedLeader s' ! q = alreadyMatchedLeader s ! q) \<and>
     (\<forall>q. i < q \<and> q < stop \<and> C q = C i \<and> alreadyMatchedLeader s' ! q \<longrightarrow>
        rowColors s' ! q = rowColors s ! i)"

lemma absorbed_leader: "absorbed f N C i stop s s' \<Longrightarrow> rowColors s' ! i = rowColors s ! i"
  by (auto simp: absorbed_def)

lemma absorbed_faithful: "absorbed f N C i stop s s' \<Longrightarrow> faithful f N C s'"
  by (auto simp: absorbed_def)

lemma absorbed_match_leader:
  assumes "absorbed f N C i stop s s'" "i < j" "j < stop" "stop \<le> N" "C j = C i"
  shows "absorbed f N C i stop s (match_leader (rowColors s' ! i) j s')"
proof -
  have "faithful f N C (match_leader (rowColors s' ! i) j s')"
    using assms by (intro faithful_match_leader absorbed_faithful [OF assms(1)]) auto
  moreover have "length (rowColors s') = N" "length (alreadyMatchedLeader s') = N"
    using assms(1) by (auto simp: absorbed_def faithful_def)
  ultimately show ?thesis
    using assms unfolding absorbed_def by (auto simp: nth_list_update)
qed

lemma absorbed_spread:
  assumes "absorbed f N C i stop s s'" "f old = C i" "stop \<le> N" "i < j" "m \<le> stop" "j \<le> m"
    and "\<And>q. q < j \<Longrightarrow> A ! q \<Longrightarrow> alreadyMatchedLeader s' ! q"
  shows "absorbed f N C i stop s (fold (spread_match i old) [j..<m] s') \<and>
    (\<forall>q<j. A ! q \<longrightarrow> alreadyMatchedLeader (fold (spread_match i old) [j..<m] s') ! q)"
  using assms(6,5)
proof (induction m rule: dec_induct)
  case base
  then show ?case using assms by simp
next
  case (step k)
  let ?t = "fold (spread_match i old) [j..<k] s'"
  have ab: "absorbed f N C i stop s ?t"
    and mk: "\<forall>q<j. A ! q \<longrightarrow> alreadyMatchedLeader ?t ! q" using step by auto
  have "C k = C i" if "rowColors ?t ! k = old"
    using faithfulD(2) [OF absorbed_faithful [OF ab], of k] that assms step by simp
  then have "absorbed f N C i stop s (match_leader (rowColors ?t ! i) k ?t)"
    if "rowColors ?t ! k = old"
    using that step assms(3,4,6) absorbed_match_leader [OF ab, of k] by simp
  then have "absorbed f N C i stop s (spread_match i old k ?t)"
    using ab unfolding spread_match_def [of i old k] by (cases "rowColors ?t ! k = old") simp_all
  moreover have "alreadyMatchedLeader (spread_match i old k ?t) ! q" if "q < j" "A ! q" for q
    using mk that step unfolding spread_match_def [of i old k] by (cases "rowColors ?t ! k = old") simp_all
  ultimately show ?case using step by simp
qed

text \<open>
  Before the leader \<open>i\<close> of the bin from \<open>b\<close> to \<open>stop\<close>: the rows equal to an earlier row of the bin
  have its colour and are marked, no other row is, and nothing outside the bin has changed.
\<close>

definition led ::
  "(nat \<Rightarrow> 'v) \<Rightarrow> nat \<Rightarrow> (nat \<Rightarrow> 'v) \<Rightarrow> nat \<Rightarrow> nat \<Rightarrow> marks \<Rightarrow> nat \<Rightarrow> marks \<Rightarrow> bool" where
  "led f N C b stop s0 i s \<longleftrightarrow>
     faithful f N C s \<and>
     (\<forall>p q. b \<le> p \<and> p < i \<and> p < q \<and> q < stop \<and> C p = C q \<longrightarrow>
        alreadyMatchedLeader s ! q \<and> rowColors s ! q = rowColors s ! p) \<and>
     (\<forall>q. b \<le> q \<and> q < stop \<and> alreadyMatchedLeader s ! q \<longrightarrow> (\<exists>p. b \<le> p \<and> p < i \<and> p < q \<and> C p = C q)) \<and>
     (\<forall>q. q < b \<or> stop \<le> q \<longrightarrow>
        rowColors s ! q = rowColors s0 ! q \<and> alreadyMatchedLeader s ! q = alreadyMatchedLeader s0 ! q)"

lemma ledI:
  assumes "faithful f N C s"
    and "\<And>p q. b \<le> p \<Longrightarrow> p < i \<Longrightarrow> p < q \<Longrightarrow> q < stop \<Longrightarrow> C p = C q \<Longrightarrow>
      alreadyMatchedLeader s ! q \<and> rowColors s ! q = rowColors s ! p"
    and "\<And>q. b \<le> q \<Longrightarrow> q < stop \<Longrightarrow> alreadyMatchedLeader s ! q \<Longrightarrow> \<exists>p. b \<le> p \<and> p < i \<and> p < q \<and> C p = C q"
    and "\<And>q. q < b \<or> stop \<le> q \<Longrightarrow>
      rowColors s ! q = rowColors s0 ! q \<and> alreadyMatchedLeader s ! q = alreadyMatchedLeader s0 ! q"
  shows "led f N C b stop s0 i s"
  using assms unfolding led_def by blast

lemma led_faithful: "led f N C b stop s0 i s \<Longrightarrow> faithful f N C s"
  and led_equal: "led f N C b stop s0 i s \<Longrightarrow> b \<le> p \<Longrightarrow> p < i \<Longrightarrow> p < q \<Longrightarrow> q < stop \<Longrightarrow> C p = C q \<Longrightarrow>
    alreadyMatchedLeader s ! q \<and> rowColors s ! q = rowColors s ! p"
  and led_marked: "led f N C b stop s0 i s \<Longrightarrow> b \<le> q \<Longrightarrow> q < stop \<Longrightarrow> alreadyMatchedLeader s ! q \<Longrightarrow>
    \<exists>p. b \<le> p \<and> p < i \<and> p < q \<and> C p = C q"
  and led_frame: "led f N C b stop s0 i s \<Longrightarrow> q < b \<or> stop \<le> q \<Longrightarrow>
    rowColors s ! q = rowColors s0 ! q \<and> alreadyMatchedLeader s ! q = alreadyMatchedLeader s0 ! q"
  unfolding led_def by blast+

section \<open>The interface of the comparing function\<close>

locale signature_comparer =
  fixes comparer :: "nat \<Rightarrow> nat \<Rightarrow> 'e \<Rightarrow> bool option"
    and valid :: "'e \<Rightarrow> bool"
    and content :: "'e \<Rightarrow> nat \<Rightarrow> 'v"
    and numRows :: "'e \<Rightarrow> nat"
  assumes comparer_decides:
    "valid e \<Longrightarrow> x < numRows e \<Longrightarrow> y < numRows e \<Longrightarrow> comparer x y e = Some (content e x = content e y)"
begin

lemma compare_marks:
  "valid e \<Longrightarrow> faithful (content e) (numRows e) C s \<Longrightarrow> i < numRows e \<Longrightarrow> j < numRows e \<Longrightarrow>
    comparer (rowColors s ! i) (rowColors s ! j) e = Some (C i = C j)"
  by (simp add: comparer_decides faithfulD)

lemma preprocess_leader_faithful:
  assumes "valid e" "faithful (content e) (numRows e) C s" "i < threadEnd" "threadEnd \<le> numRows e"
  shows "\<exists>s'. preprocess_leader comparer e threadEnd i s = Some s' \<and> faithful (content e) (numRows e) C s'"
proof -
  have "\<exists>s'. preprocess_row comparer e i j s = Some s' \<and> faithful (content e) (numRows e) C s'"
    if "j \<in> set [Suc i..<threadEnd]" "faithful (content e) (numRows e) C s" for j s
    using that assms compare_marks [OF assms(1) that(2), of i j]
    by (auto simp: preprocess_row_def intro!: faithful_match_leader)
  then show ?thesis
    using assms by (auto simp: preprocess_leader_def intro!: for_each_invariant)
qed

lemma preprocess_thread_faithful:
  assumes "valid e" "faithful (content e) (numRows e) C s" "i \<le> stop" "stop \<le> numRows e" "t < numThreads"
  shows "\<exists>s'. preprocess_thread comparer e numThreads i stop t s = Some s' \<and>
    faithful (content e) (numRows e) C s'"
proof -
  let ?per = "(stop - i) div numThreads"
  let ?upto = "if t + 1 = numThreads then stop else i + ?per * t + ?per"
  have "?upto \<le> stop"
  proof (cases "t + 1 = numThreads")
    case False
    then have "?per * (t + 1) \<le> ?per * numThreads" using assms by (intro mult_le_mono2) auto
    also have "\<dots> \<le> stop - i" by (rule div_times_less_eq_dividend)
    finally show ?thesis using False assms by (simp add: algebra_simps)
  qed simp
  then show ?thesis
    unfolding preprocess_thread_def Let_def using assms
    by (intro for_each_invariant preprocess_leader_faithful) auto
qed

lemma LargeBinPreprocess_faithful:
  assumes "valid e" "faithful (content e) (numRows e) C s"
    and "\<And>p. p < length cis \<Longrightarrow> cis ! p \<le> bin_end cis (numRows e) p \<and> bin_end cis (numRows e) p \<le> numRows e"
  shows "\<exists>s'. LargeBinPreprocess cis (numRows e) numThreads comparer e s = Some s' \<and>
    faithful (content e) (numRows e) C s'"
proof -
  have "\<exists>s'. for_each (preprocess_thread comparer e numThreads (cis ! p) (bin_end cis (numRows e) p))
      [0..<numThreads] s = Some s' \<and> faithful (content e) (numRows e) C s'"
    if "p < length cis" "faithful (content e) (numRows e) C s" for p s
    using assms that by (intro for_each_invariant preprocess_thread_faithful) auto
  then show ?thesis
    unfolding LargeBinPreprocess_def Let_def using assms by (intro for_each_invariant) auto
qed

lemma worker_row_absorbs:
  assumes "valid e" "absorbed (content e) (numRows e) C i stop s s'" "i < j" "j < stop" "stop \<le> numRows e"
    and "\<And>q. i < q \<Longrightarrow> q < j \<Longrightarrow> C q = C i \<Longrightarrow> alreadyMatchedLeader s' ! q"
  shows "\<exists>s''. worker_row comparer e stop i j s' = Some s'' \<and>
    absorbed (content e) (numRows e) C i stop s s'' \<and>
    (\<forall>q. i < q \<and> q < Suc j \<and> C q = C i \<longrightarrow> alreadyMatchedLeader s'' ! q)"
proof -
  have fs: "faithful (content e) (numRows e) C s'" using assms(2) by (rule absorbed_faithful)
  have cmp: "comparer (rowColors s' ! i) (rowColors s' ! j) e = Some (C i = C j)"
    using assms(1,3,4,5) fs by (intro compare_marks) auto
  consider (marked) "alreadyMatchedLeader s' ! j" | (other) "\<not> alreadyMatchedLeader s' ! j" "C i \<noteq> C j"
    | (equal) "\<not> alreadyMatchedLeader s' ! j" "C i = C j" by blast
  then show ?thesis
  proof cases
    case marked
    then have "alreadyMatchedLeader s' ! q" if "i < q" "q < Suc j" "C q = C i" for q
      using that assms(6) [of q] by (cases "q = j") simp_all
    then show ?thesis using marked assms(2) by (simp add: worker_row_def)
  next
    case other
    then have "alreadyMatchedLeader s' ! q" if "i < q" "q < Suc j" "C q = C i" for q
      using that assms(6) [of q] by (cases "q = j") simp_all
    then show ?thesis using other cmp assms(2) by (simp add: worker_row_def)
  next
    case equal
    let ?old = "rowColors s' ! j" and ?t = "match_leader (rowColors s' ! i) j s'"
    let ?r = "fold (spread_match i ?old) [Suc j..<stop] ?t"
    have old: "content e ?old = C i" using faithfulD(2) [OF fs, of j] assms(4,5) equal by simp
    have ab: "absorbed (content e) (numRows e) C i stop s ?t"
      using absorbed_match_leader [OF assms(2-5)] equal by simp
    have len: "length (alreadyMatchedLeader s') = numRows e" using fs by (rule faithfulD)
    have mk: "alreadyMatchedLeader ?t ! q" if "i < q" "q < Suc j" "C q = C i" for q
      using that assms(4,5) assms(6) [of q] len by (cases "q = j") simp_all
    have spread: "absorbed (content e) (numRows e) C i stop s ?r \<and>
      (\<forall>q<Suc j. alreadyMatchedLeader ?t ! q \<longrightarrow> alreadyMatchedLeader ?r ! q)"
      by (rule absorbed_spread [OF ab old]) (use assms(3-5) in auto)
    then have "alreadyMatchedLeader ?r ! q" if "i < q" "q < Suc j" "C q = C i" for q
      using mk [OF that] that by blast
    then show ?thesis
      using equal cmp ab mk spread by (simp add: worker_row_def Let_def)
  qed
qed

lemma worker_leader_step:
  assumes v: "valid e" "b \<le> i" "i < stop" "stop \<le> numRows e"
    and L: "led (content e) (numRows e) C b stop s0 i s"
  shows "\<exists>s'. worker_leader comparer e stop i s = Some s' \<and> led (content e) (numRows e) C b stop s0 (Suc i) s'"
proof (cases "alreadyMatchedLeader s ! i")
  case True
  obtain p0 where p0: "b \<le> p0" "p0 < i" "C p0 = C i" using led_marked [OF L v(2,3) True] by blast
  have "led (content e) (numRows e) C b stop s0 (Suc i) s"
  proof (rule ledI)
    fix p q assume h: "b \<le> p" "p < Suc i" "p < q" "q < stop" "C p = C q"
    show "alreadyMatchedLeader s ! q \<and> rowColors s ! q = rowColors s ! p"
    proof (cases "p = i")
      case eq: True
      then show ?thesis
        using led_equal [OF L p0(1,2), of q] led_equal [OF L p0(1,2), of i] h p0 v(3) by simp
    next
      case False
      then show ?thesis using led_equal [OF L, of p q] h by simp
    qed
  next
    fix q assume "b \<le> q" "q < stop" "alreadyMatchedLeader s ! q"
    then show "\<exists>p. b \<le> p \<and> p < Suc i \<and> p < q \<and> C p = C q"
      using led_marked [OF L] by (meson less_SucI)
  qed (use led_faithful [OF L] led_frame [OF L] in blast)+
  then show ?thesis using True by (simp add: worker_leader_def)
next
  case False
  have fresh: "C p \<noteq> C i" if "b \<le> p" "p < i" for p using led_equal [OF L, of p i] that False v by blast
  have unm: "\<not> alreadyMatchedLeader s ! q" if "i < q" "q < stop" "C q = C i" for q
  proof (rule notI)
    assume "alreadyMatchedLeader s ! q"
    moreover have "b \<le> q" using \<open>i < q\<close> v by simp
    ultimately obtain p where "b \<le> p" "p < i" "C p = C q" using led_marked [OF L, of q] \<open>q < stop\<close> by blast
    then show False using fresh [of p] \<open>C q = C i\<close> by simp
  qed
  have start: "absorbed (content e) (numRows e) C i stop s s"
    using led_faithful [OF L] unm unfolding absorbed_def by blast
  let ?P = "\<lambda>j s'. absorbed (content e) (numRows e) C i stop s s' \<and>
    (\<forall>q. i < q \<and> q < j \<and> C q = C i \<longrightarrow> alreadyMatchedLeader s' ! q)"
  have "\<exists>s'. for_each (worker_row comparer e stop i) [Suc i..<stop] s = Some s' \<and> ?P stop s'"
  proof (rule for_each_upt [where P = ?P])
    fix j s' assume "Suc i \<le> j" "j < stop" and "?P j s'"
    then show "\<exists>s''. worker_row comparer e stop i j s' = Some s'' \<and> ?P (Suc j) s''"
      using v by (intro worker_row_absorbs) auto
  next
    show "?P (Suc i) s" using start by auto
  qed (use v in simp)
  then obtain s' where s': "for_each (worker_row comparer e stop i) [Suc i..<stop] s = Some s'"
    and ab: "absorbed (content e) (numRows e) C i stop s s'"
    and all: "\<And>q. i < q \<Longrightarrow> q < stop \<Longrightarrow> C q = C i \<Longrightarrow> alreadyMatchedLeader s' ! q" by blast
  have same: "rowColors s' ! q = rowColors s ! q" "alreadyMatchedLeader s' ! q = alreadyMatchedLeader s ! q"
    if "C q \<noteq> C i \<or> q \<le> i \<or> stop \<le> q" for q
    using ab that by (simp_all add: absorbed_def)
  have taken: "rowColors s' ! q = rowColors s ! i" if "i < q" "q < stop" "C q = C i" for q
    using ab that all [OF that] by (simp add: absorbed_def)
  have "led (content e) (numRows e) C b stop s0 (Suc i) s'"
  proof (rule ledI)
    fix p q assume h: "b \<le> p" "p < Suc i" "p < q" "q < stop" "C p = C q"
    show "alreadyMatchedLeader s' ! q \<and> rowColors s' ! q = rowColors s' ! p"
    proof (cases "p = i")
      case True
      then show ?thesis using h all [of q] taken [of q] same [of i] by simp
    next
      case neq: False
      then have "C q \<noteq> C i" using h fresh [of p] by simp
      then show ?thesis using neq h led_equal [OF L, of p q] same [of q] same [of p] by simp
    qed
  next
    fix q assume h: "b \<le> q" "q < stop" "alreadyMatchedLeader s' ! q"
    show "\<exists>p. b \<le> p \<and> p < Suc i \<and> p < q \<and> C p = C q"
    proof (cases "C q = C i \<and> i < q")
      case True
      then show ?thesis using v by (intro exI [of _ i]) simp
    next
      case neq: False
      then have "alreadyMatchedLeader s ! q" using same [of q] h by (auto simp: not_less)
      then show ?thesis using led_marked [OF L h(1,2)] by (meson less_SucI)
    qed
  next
    show "faithful (content e) (numRows e) C s'" using ab by (rule absorbed_faithful)
  next
    fix q assume q: "q < b \<or> stop \<le> q"
    then have "q \<le> i \<or> stop \<le> q" using v by auto
    then show "rowColors s' ! q = rowColors s0 ! q \<and> alreadyMatchedLeader s' ! q = alreadyMatchedLeader s0 ! q"
      using same [of q] led_frame [OF L q] by simp
  qed
  then show ?thesis using False s' by (simp add: worker_leader_def)
qed

lemma worker_bin:
  assumes v: "valid e" "b \<le> stop" "stop \<le> numRows e"
    and fs: "faithful (content e) (numRows e) C s"
    and un: "\<And>q. b \<le> q \<Longrightarrow> q < stop \<Longrightarrow> \<not> alreadyMatchedLeader s ! q"
  shows "\<exists>s'. for_each (worker_leader comparer e stop) [b..<stop] s = Some s' \<and>
    faithful (content e) (numRows e) C s' \<and>
    (\<forall>p q. b \<le> p \<and> p < stop \<and> b \<le> q \<and> q < stop \<and> C p = C q \<longrightarrow> rowColors s' ! p = rowColors s' ! q) \<and>
    (\<forall>q. q < b \<or> stop \<le> q \<longrightarrow>
      rowColors s' ! q = rowColors s ! q \<and> alreadyMatchedLeader s' ! q = alreadyMatchedLeader s ! q)"
proof -
  have "\<exists>s'. for_each (worker_leader comparer e stop) [b..<stop] s = Some s' \<and>
    led (content e) (numRows e) C b stop s stop s'"
  proof (rule for_each_upt [where P = "led (content e) (numRows e) C b stop s"])
    fix i s1 assume "b \<le> i" "i < stop" "led (content e) (numRows e) C b stop s i s1"
    then show "\<exists>s2. worker_leader comparer e stop i s1 = Some s2 \<and>
      led (content e) (numRows e) C b stop s (Suc i) s2"
      using v by (intro worker_leader_step)
  next
    show "led (content e) (numRows e) C b stop s b s"
    proof (rule ledI)
      fix q assume "b \<le> q" "q < stop" "alreadyMatchedLeader s ! q"
      then show "\<exists>p. b \<le> p \<and> p < b \<and> p < q \<and> C p = C q" using un by blast
    qed (use fs in auto)
  qed (use v in simp)
  then obtain s' where s': "for_each (worker_leader comparer e stop) [b..<stop] s = Some s'"
    and L: "led (content e) (numRows e) C b stop s stop s'" by blast
  have "rowColors s' ! p = rowColors s' ! q"
    if "b \<le> p" "p < stop" "b \<le> q" "q < stop" "C p = C q" for p q
    using led_equal [OF L, of p q] led_equal [OF L, of q p] that by (cases p q rule: linorder_cases) simp_all
  then show ?thesis using s' led_faithful [OF L] led_frame [OF L] by blast
qed

end

section \<open>All bins and all threads\<close>

text \<open>Bins that follow each other and fill the positions below \<open>N\<close>.\<close>

definition bins_cover :: "nat list \<Rightarrow> nat \<Rightarrow> bool" where
  "bins_cover cis N \<longleftrightarrow>
     (\<forall>p<length cis. cis ! p < bin_end cis N p \<and> bin_end cis N p \<le> N) \<and>
     (\<forall>p p'. p < p' \<and> p' < length cis \<longrightarrow> bin_end cis N p \<le> cis ! p') \<and>
     (\<forall>q<N. \<exists>p<length cis. cis ! p \<le> q \<and> q < bin_end cis N p)"

definition in_bin :: "nat list \<Rightarrow> nat \<Rightarrow> nat \<Rightarrow> nat \<Rightarrow> bool" where
  "in_bin cis N p q \<longleftrightarrow> cis ! p \<le> q \<and> q < bin_end cis N p"

lemma bins_disjoint:
  "bins_cover cis N \<Longrightarrow> p < length cis \<Longrightarrow> p' < length cis \<Longrightarrow> in_bin cis N p q \<Longrightarrow> in_bin cis N p' q \<Longrightarrow>
    p = p'"
  unfolding bins_cover_def in_bin_def by (meson leD less_le_trans linorder_neqE_nat order_trans)

text \<open>The bins of \<open>D\<close> are coloured, the others untouched.\<close>

definition bins_done :: "(nat \<Rightarrow> 'v) \<Rightarrow> nat list \<Rightarrow> nat \<Rightarrow> (nat \<Rightarrow> 'v) \<Rightarrow> nat set \<Rightarrow> marks \<Rightarrow> bool" where
  "bins_done f cis N C D s \<longleftrightarrow>
     faithful f N C s \<and>
     (\<forall>p x y. p < length cis \<and> p \<in> D \<and> in_bin cis N p x \<and> in_bin cis N p y \<and> C x = C y \<longrightarrow>
        rowColors s ! x = rowColors s ! y) \<and>
     (\<forall>p x. p < length cis \<and> p \<notin> D \<and> in_bin cis N p x \<longrightarrow> \<not> alreadyMatchedLeader s ! x)"

lemma bins_doneI:
  assumes "faithful f N C s"
    and "\<And>p x y. p < length cis \<Longrightarrow> p \<in> D \<Longrightarrow> in_bin cis N p x \<Longrightarrow> in_bin cis N p y \<Longrightarrow> C x = C y \<Longrightarrow>
      rowColors s ! x = rowColors s ! y"
    and "\<And>p x. p < length cis \<Longrightarrow> p \<notin> D \<Longrightarrow> in_bin cis N p x \<Longrightarrow> \<not> alreadyMatchedLeader s ! x"
  shows "bins_done f cis N C D s"
  using assms unfolding bins_done_def by blast

lemma bins_done_faithful: "bins_done f cis N C D s \<Longrightarrow> faithful f N C s"
  and bins_done_equal: "bins_done f cis N C D s \<Longrightarrow> p < length cis \<Longrightarrow> p \<in> D \<Longrightarrow> in_bin cis N p x \<Longrightarrow>
    in_bin cis N p y \<Longrightarrow> C x = C y \<Longrightarrow> rowColors s ! x = rowColors s ! y"
  and bins_done_unmarked: "bins_done f cis N C D s \<Longrightarrow> p < length cis \<Longrightarrow> p \<notin> D \<Longrightarrow> in_bin cis N p x \<Longrightarrow>
    \<not> alreadyMatchedLeader s ! x"
  unfolding bins_done_def by blast+

context signature_comparer
begin

lemma worker_bin_done:
  assumes v: "valid e" "bins_cover cis (numRows e)" "p < length cis" "p \<notin> D"
    and D: "bins_done (content e) cis (numRows e) C D s"
  shows "\<exists>s'. for_each (worker_leader comparer e (bin_end cis (numRows e) p))
      [cis ! p..<bin_end cis (numRows e) p] s = Some s' \<and>
    bins_done (content e) cis (numRows e) C (insert p D) s'"
proof -
  let ?N = "numRows e" and ?stop = "bin_end cis (numRows e) p"
  have b: "cis ! p \<le> ?stop" "?stop \<le> ?N" using v unfolding bins_cover_def by (simp_all add: less_imp_le)
  have un: "\<not> alreadyMatchedLeader s ! q" if "cis ! p \<le> q" "q < ?stop" for q
    using bins_done_unmarked [OF D v(3,4)] that unfolding in_bin_def by blast
  obtain s' where s': "for_each (worker_leader comparer e ?stop) [cis ! p..<?stop] s = Some s'"
    and fs: "faithful (content e) ?N C s'"
    and eq: "\<forall>x y. cis ! p \<le> x \<and> x < ?stop \<and> cis ! p \<le> y \<and> y < ?stop \<and> C x = C y \<longrightarrow>
      rowColors s' ! x = rowColors s' ! y"
    and same: "\<forall>q. q < cis ! p \<or> ?stop \<le> q \<longrightarrow>
      rowColors s' ! q = rowColors s ! q \<and> alreadyMatchedLeader s' ! q = alreadyMatchedLeader s ! q"
    using worker_bin [OF v(1) b bins_done_faithful [OF D] un] by blast
  have keep: "rowColors s' ! x = rowColors s ! x \<and> alreadyMatchedLeader s' ! x = alreadyMatchedLeader s ! x"
    if "p' < length cis" "p' \<noteq> p" "in_bin cis ?N p' x" for p' x
  proof -
    have "\<not> in_bin cis ?N p x" using bins_disjoint [OF v(2) that(1) v(3) that(3)] that(2) by blast
    then show ?thesis using same unfolding in_bin_def by (meson not_less)
  qed
  have "bins_done (content e) cis ?N C (insert p D) s'"
  proof (rule bins_doneI [OF fs])
    fix p' x y assume h: "p' < length cis" "p' \<in> insert p D" "in_bin cis ?N p' x" "in_bin cis ?N p' y" "C x = C y"
    show "rowColors s' ! x = rowColors s' ! y"
    proof (cases "p' = p")
      case True
      then show ?thesis using eq h unfolding in_bin_def by blast
    next
      case False
      then show ?thesis
        using keep [OF h(1) False h(3)] keep [OF h(1) False h(4)] bins_done_equal [OF D h(1) _ h(3,4,5)] h(2)
        by simp
    qed
  next
    fix p' x assume h: "p' < length cis" "p' \<notin> insert p D" "in_bin cis ?N p' x"
    then show "\<not> alreadyMatchedLeader s' ! x"
      using keep [of p' x] bins_done_unmarked [OF D h(1) _ h(3)] by simp
  qed
  then show ?thesis using s' by blast
qed

lemma ThreadWorker_done:
  assumes v: "valid e" "bins_cover cis (numRows e)"
    and D: "bins_done (content e) cis (numRows e) C {p. ta ! p < t} s"
  shows "\<exists>s'. ThreadWorker cis (numRows e) t ta comparer e s = Some s' \<and>
    bins_done (content e) cis (numRows e) C {p. ta ! p < Suc t} s'"
proof -
  let ?D = "\<lambda>k. {p. ta ! p < t} \<union> {p. ta ! p = t \<and> p < k}"
  have "\<exists>s'. ThreadWorker cis (numRows e) t ta comparer e s = Some s' \<and>
    bins_done (content e) cis (numRows e) C (?D (length cis)) s'"
    unfolding ThreadWorker_def
  proof (rule for_each_upt [where P = "\<lambda>k. bins_done (content e) cis (numRows e) C (?D k)"])
    fix p s1 assume p: "p < length cis" "bins_done (content e) cis (numRows e) C (?D p) s1"
    show "\<exists>s'. (if ta ! p = t
        then for_each (worker_leader comparer e (bin_end cis (numRows e) p))
               [cis ! p..<bin_end cis (numRows e) p] s1
        else Some s1) = Some s' \<and> bins_done (content e) cis (numRows e) C (?D (Suc p)) s'"
    proof (cases "ta ! p = t")
      case True
      then have "?D (Suc p) = insert p (?D p)" by auto
      then show ?thesis using True worker_bin_done [OF v p(1) _ p(2)] by simp
    next
      case False
      then have "?D (Suc p) = ?D p" by (auto simp: less_Suc_eq)
      then show ?thesis using False p by simp
    qed
  qed (use D in simp_all)
  then obtain s' where s': "ThreadWorker cis (numRows e) t ta comparer e s = Some s'"
    "bins_done (content e) cis (numRows e) C (?D (length cis)) s'" by blast
  have D': "p \<in> ?D (length cis) \<longleftrightarrow> ta ! p < Suc t" if "p < length cis" for p
    using that by (simp add: less_Suc_eq)
  have "bins_done (content e) cis (numRows e) C {p. ta ! p < Suc t} s'"
  proof (rule bins_doneI [OF bins_done_faithful [OF s'(2)]])
    fix p x y
    assume "p < length cis" "p \<in> {p. ta ! p < Suc t}" "in_bin cis (numRows e) p x"
      "in_bin cis (numRows e) p y" "C x = C y"
    then show "rowColors s' ! x = rowColors s' ! y" using bins_done_equal [OF s'(2)] D' by blast
  next
    fix p x assume "p < length cis" "p \<notin> {p. ta ! p < Suc t}" "in_bin cis (numRows e) p x"
    then show "\<not> alreadyMatchedLeader s' ! x" using bins_done_unmarked [OF s'(2)] D' by blast
  qed
  then show ?thesis using s'(1) by blast
qed

lemma ThreadWorkers_done:
  assumes v: "valid e" "bins_cover cis (numRows e)"
    and fs: "faithful (content e) (numRows e) C s"
    and un: "\<And>q. q < numRows e \<Longrightarrow> \<not> alreadyMatchedLeader s ! q"
    and ta: "\<And>p. p < length cis \<Longrightarrow> 1 \<le> ta ! p \<and> ta ! p \<le> nthreads"
  shows "\<exists>s'. for_each (\<lambda>t. ThreadWorker cis (numRows e) t ta comparer e) [1..<nthreads + 1] s = Some s' \<and>
    (\<forall>x y. x < numRows e \<and> y < numRows e \<and> (\<exists>p<length cis. in_bin cis (numRows e) p x \<and> in_bin cis (numRows e) p y) \<longrightarrow>
      rowColors s' ! x = rowColors s' ! y \<longleftrightarrow> C x = C y) \<and> faithful (content e) (numRows e) C s'"
proof -
  have start: "bins_done (content e) cis (numRows e) C {p. ta ! p < 1} s"
  proof (rule bins_doneI [OF fs])
    fix p x y assume "p < length cis" "p \<in> {p. ta ! p < 1}"
    then show "rowColors s ! x = rowColors s ! y" using ta [of p] by simp
  next
    fix p x assume "p < length cis" "in_bin cis (numRows e) p x"
    then have "x < numRows e" using v(2) unfolding bins_cover_def in_bin_def by (meson less_le_trans)
    then show "\<not> alreadyMatchedLeader s ! x" by (rule un)
  qed
  have "\<exists>s'. for_each (\<lambda>t. ThreadWorker cis (numRows e) t ta comparer e) [1..<nthreads + 1] s = Some s' \<and>
    bins_done (content e) cis (numRows e) C {p. ta ! p < nthreads + 1} s'"
    by (rule for_each_upt [where P = "\<lambda>t. bins_done (content e) cis (numRows e) C {p. ta ! p < t}"])
      (use v start in \<open>auto intro: ThreadWorker_done\<close>)
  then obtain s' where s': "for_each (\<lambda>t. ThreadWorker cis (numRows e) t ta comparer e) [1..<nthreads + 1] s = Some s'"
    and B: "bins_done (content e) cis (numRows e) C {p. ta ! p < nthreads + 1} s'" by blast
  have fs': "faithful (content e) (numRows e) C s'" using B by (rule bins_done_faithful)
  have "rowColors s' ! x = rowColors s' ! y \<longleftrightarrow> C x = C y"
    if "x < numRows e" "y < numRows e" "p < length cis" "in_bin cis (numRows e) p x" "in_bin cis (numRows e) p y" for p x y
  proof
    assume "rowColors s' ! x = rowColors s' ! y"
    then show "C x = C y" using faithfulD(2) [OF fs' that(1)] faithfulD(2) [OF fs' that(2)] by simp
  next
    assume "C x = C y"
    moreover have "p \<in> {p. ta ! p < nthreads + 1}" using ta [OF that(3)] by simp
    ultimately show "rowColors s' ! x = rowColors s' ! y" using bins_done_equal [OF B] that by blast
  qed
  then show ?thesis using s' fs' by blast
qed

end

end
