(* ===== verification/WL2_Sorted.thy ===== *)
theory WL2_Sorted
  imports WL2_Sort
begin

text \<open>
  \<open>partition\<close> and \<open>quicksort\<close> stay inside the range they are given, permute it, return, and
  leave it sorted; \<open>sortValueAndLocationPair\<close> sorts the values and permutes the places with them.
\<close>

section \<open>The scans\<close>

lemma scan_up_finds:
  assumes "i < m" "in_bounds a m" "key v \<le> key (cell a m)" "-1 \<le> i"
  shows "\<exists>i'. scan_up key a v i = Some i' \<and> i < i' \<and> i' \<le> m \<and> key v \<le> key (cell a i') \<and>
    (\<forall>k. i < k \<and> k < i' \<longrightarrow> key (cell a k) < key v)"
  using assms
proof (induction key a v i rule: scan_up.induct)
  case (1 key a v i)
  have ib: "in_bounds a (i + 1)" using 1 by (auto simp: in_bounds_def)
  show ?case
  proof (cases "key (cell a (i + 1)) < key v")
    case True
    then have "i + 1 < m" using 1 by (cases "i + 1 = m") auto
    then obtain i' where i': "scan_up key a v (i + 1) = Some i'" "i + 1 < i'" "i' \<le> m"
        "key v \<le> key (cell a i')" "\<forall>k. i + 1 < k \<and> k < i' \<longrightarrow> key (cell a k) < key v"
      using 1 ib True by auto
    have "key (cell a k) < key v" if "i < k" "k < i'" for k
      using i'(5) True that by (cases "k = i + 1") auto
    then show ?thesis using i' ib True by (subst scan_up.simps) auto
  next
    case False
    then show ?thesis using 1 ib by (subst scan_up.simps) auto
  qed
qed

lemma scan_down_finds:
  assumes "l < j" "0 \<le> l" "j \<le> int (length a)"
  shows "\<exists>j'. scan_down key a v l j = Some j' \<and> l \<le> j' \<and> j' < j \<and>
    (key (cell a j') \<le> key v \<or> j' = l) \<and> (\<forall>k. j' < k \<and> k < j \<longrightarrow> key v < key (cell a k))"
  using assms
proof (induction key a v l j rule: scan_down.induct)
  case (1 key a v l j)
  have ib: "in_bounds a (j - 1)" using 1 by (auto simp: in_bounds_def)
  show ?case
  proof (cases "key v < key (cell a (j - 1)) \<and> j - 1 \<noteq> l")
    case True
    then obtain j' where j': "scan_down key a v l (j - 1) = Some j'" "l \<le> j'" "j' < j - 1"
        "key (cell a j') \<le> key v \<or> j' = l" "\<forall>k. j' < k \<and> k < j - 1 \<longrightarrow> key v < key (cell a k)"
      using 1 ib by auto
    have "key v < key (cell a k)" if "j' < k" "k < j" for k
      using j'(5) True that by (cases "k = j - 1") auto
    then show ?thesis using j' ib True by (subst scan_down.simps) auto
  next
    case False
    then show ?thesis using 1 ib by (subst scan_down.simps) auto
  qed
qed

section \<open>The main loop\<close>

text \<open>
  Between two rounds the array reads, from the left, occurrences of the pivot up to \<open>p\<close>, smaller
  elements up to \<open>i\<close>, the elements not looked at, from \<open>j\<close> greater ones, and from \<open>q\<close> to
  \<open>r\<close> the pivot again.
\<close>

definition parted :: "('a \<Rightarrow> int) \<Rightarrow> int \<Rightarrow> int \<Rightarrow> 'a \<Rightarrow> 'a list \<Rightarrow> int \<Rightarrow> int \<Rightarrow> int \<Rightarrow> int \<Rightarrow> bool" where
  "parted key l r v a i j p q \<longleftrightarrow>
     l - 1 \<le> p \<and> p \<le> i \<and> i < j \<and> l < j \<and> j \<le> q \<and> q \<le> r \<and>
     (\<forall>k \<in> {l..p}. key (cell a k) = key v) \<and> (\<forall>k \<in> {p<..i}. key (cell a k) < key v) \<and>
     (\<forall>k \<in> {j..<q}. key v < key (cell a k)) \<and> (\<forall>k \<in> {q..r}. key (cell a k) = key v)"

text \<open>What the loop leaves.\<close>

definition crossed :: "('a \<Rightarrow> int) \<Rightarrow> int \<Rightarrow> int \<Rightarrow> 'a \<Rightarrow> 'a list \<Rightarrow> int \<Rightarrow> int \<Rightarrow> int \<Rightarrow> bool" where
  "crossed key l r v a i p q \<longleftrightarrow>
     l - 1 \<le> p \<and> p < i \<and> i \<le> q \<and> q \<le> r \<and>
     (\<forall>k \<in> {l..p}. key (cell a k) = key v) \<and> (\<forall>k \<in> {p<..<i}. key (cell a k) < key v) \<and>
     (\<forall>k \<in> {i..<q}. key v \<le> key (cell a k)) \<and> (\<forall>k \<in> {q..r}. key (cell a k) = key v)"

lemma partition_loop_crosses:
  assumes "parted key l r v a i j p q" "0 \<le> l" "r < int (length a)"
  shows "\<exists>b i' p' q'. partition_loop key l v a i j p q = Some (b, i', p', q') \<and>
    permuted l r a b \<and> crossed key l r v b i' p' q'"
  using assms
proof (induction "nat (j - i)" arbitrary: a i j p q rule: less_induct)
  case less
  note P = less.prems(1) [unfolded parted_def]
  have "\<exists>i'. scan_up key a v i = Some i' \<and> i < i' \<and> i' \<le> j \<and> key v \<le> key (cell a i') \<and>
      (\<forall>k. i < k \<and> k < i' \<longrightarrow> key (cell a k) < key v)"
  proof (rule scan_up_finds)
    have "key v < key (cell a j) \<or> key (cell a j) = key v"
      using P by (cases "j < q") auto
    then show "key v \<le> key (cell a j)" by auto
  qed (use P less.prems in \<open>auto simp: in_bounds_def\<close>)
  then obtain i' where I: "scan_up key a v i = Some i'" "i < i'" "i' \<le> j" "key v \<le> key (cell a i')"
    "\<And>k. i < k \<Longrightarrow> k < i' \<Longrightarrow> key (cell a k) < key v" by blast
  have lj: "l < j" using P by auto
  from scan_down_finds [of l j a key v] obtain j' where
    J: "scan_down key a v l j = Some j'" "l \<le> j'" "j' < j" "key (cell a j') \<le> key v \<or> j' = l"
      "\<And>k. j' < k \<Longrightarrow> k < j \<Longrightarrow> key v < key (cell a k)"
    using lj less.prems P by auto
  show ?case
  proof (cases "j' \<le> i'")
    case True
    have "key v \<le> key (cell a k)" if "k \<in> {i'..<q}" for k
    proof (cases "k = i'")
      case False
      then have "key v < key (cell a k)" using that J(5) [of k] P True by (cases "k < j") auto
      then show ?thesis by simp
    qed (use I in simp)
    moreover have "key (cell a k) < key v" if "k \<in> {p<..<i'}" for k
      using that I(5) [of k] P by (cases "k \<le> i") auto
    ultimately have "crossed key l r v a i' p q"
      using P I by (auto simp: crossed_def)
    then show ?thesis using True I J by (subst partition_loop.simps) auto
  next
    case False
    have ib: "in_bounds a i'" "in_bounds a j'" using False I J P less.prems by (auto simp: in_bounds_def)
    define a1 where "a1 = swapped a i' j'"
    define p' where "p' = (if key (cell a1 i') = key v then p + 1 else p)"
    define a2 where "a2 = (if key (cell a1 i') = key v then swapped a1 (p + 1) i' else a1)"
    define q' where "q' = (if key (cell a2 j') = key v then q - 1 else q)"
    define a3 where "a3 = (if key (cell a2 j') = key v then swapped a2 j' (q - 1) else a2)"
    have i1: "key (cell a1 i') \<le> key v"
      using ib J(4) False I P by (auto simp: a1_def array_simps in_bounds_def)
    have j1: "key v \<le> key (cell a1 j')"
      using ib I(4) by (auto simp: a1_def array_simps in_bounds_def)
    have o1: "cell a1 k = cell a k" if "0 \<le> k" "k \<noteq> i'" "k \<noteq> j'" for k
      using ib that by (simp add: a1_def array_simps)
    have ib1: "in_bounds a1 k = in_bounds a k" for k by (simp add: a1_def)
    have bp: "in_bounds a (p + 1)" using P I less.prems by (auto simp: in_bounds_def)
    have bq: "in_bounds a (q - 1)" using P J less.prems by (auto simp: in_bounds_def)
    have kl: "keep_left key v i' a1 p = Some (a2, p')"
      using ib bp by (simp add: keep_left_def a2_def p'_def swap_cells_Some ib1)
    have ib2: "in_bounds a2 k = in_bounds a k" for k by (simp add: a2_def ib1)
    have kr: "keep_right key v j' a2 q = Some (a3, q')"
      using ib bq by (simp add: keep_right_def a3_def q'_def swap_cells_Some ib2)
    have c2: "cell a2 k = (if key (cell a1 i') = key v \<and> k = p + 1 then cell a1 i'
        else if key (cell a1 i') = key v \<and> k = i' then cell a1 (p + 1) else cell a1 k)" if "0 \<le> k" for k
      using that ib bp by (simp add: a2_def array_simps ib1)
    have c3: "cell a3 k = (if key (cell a2 j') = key v \<and> k = j' then cell a2 (q - 1)
        else if key (cell a2 j') = key v \<and> k = q - 1 then cell a2 j' else cell a2 k)" if "0 \<le> k" for k
      using that ib bq by (simp add: a3_def array_simps ib2)
    have bounds: "l - 1 \<le> p" "p \<le> i" "i < i'" "i' < j'" "j' < j" "j \<le> q" "q \<le> r" "l \<le> j'" "0 \<le> l"
      using P I J False less.prems by auto
    have left: "key (cell a1 k) < key v" if "p < k" "k < i'" for k
    proof -
      have "key (cell a k) < key v" using that P I(5) [of k] by (cases "k \<le> i") auto
      then show ?thesis using o1 [of k] that bounds by simp
    qed
    have right: "key v < key (cell a1 k)" if "j' < k" "k < q" for k
    proof -
      have "key v < key (cell a k)" using that P J(5) [of k] by (cases "k < j") auto
      then show ?thesis using o1 [of k] that bounds by simp
    qed
    have ends: "key (cell a1 k) = key v" if "l \<le> k \<and> k \<le> p \<or> q \<le> k \<and> k \<le> r" for k
    proof -
      have "key (cell a k) = key v" using that P by auto
      then show ?thesis using o1 [of k] that bounds by auto
    qed
    have a2j: "cell a2 k = cell a1 k" if "i' < k" for k
      using c2 [of k] that bounds by auto
    have a3i: "cell a3 k = cell a2 k" if "0 \<le> k" "k < j'" for k
      using c3 [of k] that bounds by auto
    have L1: "key (cell a2 k) = key v" if "k \<in> {l..p'}" for k
      using that c2 [of k] ends [of k] bounds by (auto simp: p'_def split: if_splits)
    have L2: "key (cell a2 k) < key v" if "k \<in> {p'<..i'}" for k
    proof (cases "key (cell a1 i') = key v")
      case True
      then have "p + 1 < k" using that by (simp add: p'_def)
      then show ?thesis
        using True that c2 [of k] left [of k] left [of "p + 1"] bounds by (cases "k = i'") auto
    next
      case False
      then show ?thesis using that c2 [of k] left [of k] i1 bounds by (cases "k = i'") (auto simp: p'_def)
    qed
    have R1: "key (cell a3 k) = key v" if "k \<in> {q'..r}" for k
      using that c3 [of k] ends [of k] a2j [of k] bounds by (auto simp: q'_def split: if_splits)
    have R2: "key v < key (cell a3 k)" if "k \<in> {j'..<q'}" for k
    proof (cases "key (cell a2 j') = key v")
      case True
      then have "k < q - 1" using that by (simp add: q'_def)
      then show ?thesis
        using True that c3 [of k] right [of k] right [of "q - 1"] a2j [of k] a2j [of "q - 1"] bounds
        by (cases "k = j'") auto
    next
      case False
      then show ?thesis
        using that c3 [of k] right [of k] j1 a2j [of k] bounds by (cases "k = j'") (auto simp: q'_def)
    qed
    have pp: "p' < i' \<or> p' = i' \<and> p' = p + 1" and pb: "p \<le> p'" "p' \<le> i'" "j' \<le> q'" "q' \<le> q"
      using bounds by (auto simp: p'_def q'_def)
    have "parted key l r v a3 i' j' p' q'"
      unfolding parted_def using L1 L2 R1 R2 bounds pb a3i by auto
    moreover have perm: "permuted l r a a3"
      unfolding a3_def a2_def a1_def using bounds
      by (auto intro!: permuted_swap split: if_splits)
    moreover have "nat (j' - i') < nat (j - i)" using bounds by auto
    ultimately obtain b i'' p'' q'' where
      "partition_loop key l v a3 i' j' p' q' = Some (b, i'', p'', q'')" "permuted l r a3 b"
      "crossed key l r v b i'' p'' q''"
      using less.hyps [of j' i' a3 p' q'] less.prems by auto
    then show ?thesis
      using False I(1) J(1) ib kl kr perm
      by (subst partition_loop.simps)
        (auto simp: swap_cells_Some a1_def [symmetric] intro: permuted_trans)
  qed
qed

section \<open>Moving the pivots to the middle\<close>

text \<open>
  The two moving loops exchange the pivots at the ends with the elements next to the middle. When
  there are more pivots than other elements the two indices cross, and from then on pivots are
  exchanged with pivots: the cells from \<open>l + (i - 1 - p)\<close> on hold pivots already. One pivot of each
  end stays outside the middle part, next to it, since the loops stop before \<open>p\<close> and \<open>q\<close>.
\<close>

lemma move_left_middle:
  assumes "0 \<le> l" "l \<le> k" "k \<le> p \<or> k = l" "l - 1 \<le> p" "p < i" "i \<le> int (length a)"
    and "j = i - 1 - (k - l)"
    and "\<And>m. min k (l + (i - 1 - p)) \<le> m \<Longrightarrow> m \<le> p \<Longrightarrow> key (cell a m) = V"
    and "\<And>m. j < m \<Longrightarrow> m < i \<Longrightarrow> key (cell a m) = V"
  shows "\<exists>b j'. move_left a k p j = Some (b, j') \<and> permuted l (i - 1) a b \<and> l - 1 \<le> j' \<and> j' < i \<and>
    (\<forall>m. j' < m \<and> m < i \<longrightarrow> key (cell b m) = V)"
  using assms
proof (induction "nat (p - k)" arbitrary: a k j rule: less_induct)
  case less
  show ?case
  proof (cases "k < p")
    case True
    let ?c = "l + (i - 1 - p)"
    note A = less.prems(8) and B = less.prems(9) and jd = less.prems(7)
    have jb: "?c < j" "j < i" using True less.prems by auto
    have ib: "in_bounds a k" "in_bounds a j" using True less.prems jb by (auto simp: in_bounds_def)
    let ?b = "swapped a k j"
    have sw: "swap_cells a k j = Some ?b" using ib by (rule swap_cells_Some)
    have cb: "cell ?b m = (if m = k then cell a j else if m = j then cell a k else cell a m)"
      if "0 \<le> m" for m using ib that by (simp add: array_simps)
    have Vk: "key (cell a k) = V" using A True by simp
    have A': "key (cell ?b m) = V" if "min (k + 1) ?c \<le> m" "m \<le> p" for m
    proof (cases "m = k")
      case True
      then have "?c \<le> k" using that by auto
      then have "j \<le> p" using jd by auto
      then have "key (cell a j) = V" using A [of j] jb \<open>?c \<le> k\<close> by auto
      then show ?thesis using True cb [of m] less.prems by simp
    next
      case False
      then have "min k ?c \<le> m" "0 \<le> m" using that less.prems by auto
      then show ?thesis using cb [of m] Vk A [of m] that False by auto
    qed
    have B': "key (cell ?b m) = V" if "j - 1 < m" "m < i" for m
    proof (cases "m = k")
      case True
      then have "j \<le> k" using that by simp
      then have "?c \<le> k" "j \<le> p" using jb \<open>k < p\<close> by auto
      then have "key (cell a j) = V" using A [of j] jb by auto
      then show ?thesis using True cb [of m] less.prems by simp
    next
      case False
      then show ?thesis using cb [of m] Vk B [of m] that jb less.prems by auto
    qed
    have "nat (p - (k + 1)) < nat (p - k)" using True by simp
    from less.hyps [of "k + 1" ?b "j - 1", OF this] less.prems True A' B' obtain b j' where
      ih: "move_left ?b (k + 1) p (j - 1) = Some (b, j')" "permuted l (i - 1) ?b b" "l - 1 \<le> j'" "j' < i"
        "\<forall>m. j' < m \<and> m < i \<longrightarrow> key (cell b m) = V"
      by auto
    have "permuted l (i - 1) a ?b" using True less.prems jb by (auto intro!: permuted_swap)
    then show ?thesis using ih True sw by (subst move_left.simps) (auto intro: permuted_trans)
  next
    case False
    then show ?thesis using less.prems by (subst move_left.simps) auto
  qed
qed

lemma move_right_middle:
  assumes "0 \<le> i0" "k < r" "q \<le> k \<or> k = r - 1" "q \<le> r" "i0 \<le> q" "r \<le> int (length a)"
    and "i = i0 + 1 + (r - 1 - k)"
    and "\<And>m. q \<le> m \<Longrightarrow> m \<le> max k (r - 1 - max 0 (q - 1 - i0)) \<Longrightarrow> m < r \<Longrightarrow> key (cell a m) = V"
    and "\<And>m. i0 < m \<Longrightarrow> m < i \<Longrightarrow> m < r \<Longrightarrow> key (cell a m) = V"
  shows "\<exists>b i'. move_right a k q i = Some (b, i') \<and> permuted (i0 + 1) (r - 1) a b \<and>
    i0 < i' \<and> i' \<le> r + 1 \<and> (i' = r + 1 \<longrightarrow> i0 = r) \<and>
    (\<forall>m. i0 < m \<and> m < i' \<and> m < r \<longrightarrow> key (cell b m) = V)"
  using assms
proof (induction "nat (k - q)" arbitrary: a k i rule: less_induct)
  case less
  show ?case
  proof (cases "q < k")
    case True
    let ?c = "r - 1 - max 0 (q - 1 - i0)"
    note A = less.prems(8) and B = less.prems(9) and jd = less.prems(7) and L = less.prems(1-7)
    have "i0 < i" "i < r" using True L by linarith+
    moreover have "q = i0 \<or> i \<le> ?c" using True L by (simp add: max_def)
    ultimately have jb: "i0 < i" "i < r" "q = i0 \<or> i \<le> ?c" by blast+
    have ib: "in_bounds a i" "in_bounds a k" using True L jb by (auto simp: in_bounds_def)
    let ?b = "swapped a i k"
    have sw: "swap_cells a i k = Some ?b" using ib by (rule swap_cells_Some)
    have cb: "cell ?b m = (if m = i then cell a k else if m = k then cell a i else cell a m)"
      if "0 \<le> m" for m using ib that by (simp add: array_simps)
    have Vk: "key (cell a k) = V" using A [of k] True L by simp
    have Vi: "key (cell a i) = V" if "k \<le> ?c \<or> q \<le> i \<and> i \<le> ?c"
      using A [of i] that L jb by (auto simp: max_def split: if_splits)
    have A': "key (cell ?b m) = V" if "q \<le> m" "m \<le> max (k - 1) ?c" "m < r" for m
    proof (cases "m = k")
      case True
      then have "k \<le> ?c" using that by auto
      then show ?thesis using True Vi Vk cb [of m] ib by (auto simp: in_bounds_def)
    next
      case False
      then have "m \<le> max k ?c" "0 \<le> m" using that L by auto
      then show ?thesis using cb [of m] Vk A [of m] that False by auto
    qed
    have B': "key (cell ?b m) = V" if "i0 < m" "m < i + 1" "m < r" for m
    proof (cases "m = k \<and> m \<noteq> i")
      case True
      then have "k < i" using that by simp
      then have "q \<le> i \<and> i \<le> ?c" using jb \<open>q < k\<close> by auto
      then show ?thesis using True Vi cb [of m] ib by (auto simp: in_bounds_def)
    next
      case False
      then show ?thesis using cb [of m] Vk B [of m] that jb L by auto
    qed
    have "nat (k - 1 - q) < nat (k - q)" using True by simp
    from less.hyps [of "k - 1" ?b "i + 1", OF this] L True A' B' obtain b i' where
      ih: "move_right ?b (k - 1) q (i + 1) = Some (b, i')" "permuted (i0 + 1) (r - 1) ?b b" "i0 < i'"
        "i' \<le> r + 1" "i' = r + 1 \<longrightarrow> i0 = r"
        "\<forall>m. i0 < m \<and> m < i' \<and> m < r \<longrightarrow> key (cell b m) = V"
      by auto
    have "permuted (i0 + 1) (r - 1) a ?b" using True L jb by (auto intro!: permuted_swap)
    then show ?thesis using ih True sw by (subst move_right.simps) (auto intro: permuted_trans)
  next
    case False
    then show ?thesis using less.prems by (subst move_right.simps) auto
  qed
qed

section \<open>Partition\<close>

definition three_parts :: "('a \<Rightarrow> int) \<Rightarrow> int \<Rightarrow> int \<Rightarrow> int \<Rightarrow> 'a list \<Rightarrow> int \<Rightarrow> int \<Rightarrow> bool" where
  "three_parts key l r V b i j \<longleftrightarrow>
     l - 1 \<le> j \<and> j < i \<and> j < r \<and> l < i \<and> i \<le> r + 1 \<and>
     (\<forall>k \<in> {l..j}. key (cell b k) \<le> V) \<and> (\<forall>k. j < k \<and> k < i \<longrightarrow> key (cell b k) = V) \<and>
     (\<forall>k \<in> {i..r}. V \<le> key (cell b k))"

lemma partition3_parts:
  assumes lr: "0 \<le> l" "l < r" "r < int (length a)"
  shows "\<exists>b i j. partition3 key a l r = Some (b, i, j) \<and> permuted l r a b \<and>
    three_parts key l r (key (cell a r)) b i j"
proof -
  let ?v = "cell a r" and ?V = "key (cell a r)"
  have "parted key l r ?v a (l - 1) r (l - 1) r" using lr by (auto simp: parted_def)
  from partition_loop_crosses [OF this lr(1,3)] obtain a1 i p q where
    loop: "partition_loop key l ?v a (l - 1) r (l - 1) r = Some (a1, i, p, q)"
    and p1: "permuted l r a a1" and cr: "crossed key l r ?v a1 i p q" by auto
  note C = cr [unfolded crossed_def]
  have len1: "int (length a1) = int (length a)" using p1 by simp
  have ib: "in_bounds a1 i" "in_bounds a1 r" using C lr len1 by (auto simp: in_bounds_def)
  define a2 where "a2 = swapped a1 i r"
  have sw: "swap_cells a1 i r = Some a2" using ib by (simp add: swap_cells_Some a2_def)
  have len2: "int (length a2) = int (length a)" using len1 by (simp add: a2_def)
  have p2: "permuted l r a a2" unfolding a2_def using p1 C lr by (intro permuted_swap) auto
  have c2: "cell a2 m = (if m = i then cell a1 r else if m = r then cell a1 i else cell a1 m)"
    if "0 \<le> m" for m using ib that by (simp add: a2_def array_simps)
  have eq_i: "key (cell a2 i) = ?V" using c2 [of i] C lr by auto
  have le: "key (cell a2 m) \<le> ?V" if "l \<le> m" "m < i" for m
    using c2 [of m] C lr that by (cases "m \<le> p") (auto intro: less_imp_le)
  have ge: "?V \<le> key (cell a2 m)" if "i < m" "m \<le> r" for m
  proof (cases "m = r")
    case True
    then have "?V \<le> key (cell a1 i)" using C that by auto
    then show ?thesis using True c2 [of m] lr by auto
  next
    case False
    then show ?thesis using c2 [of m] C lr that by (cases "m < q") auto
  qed
  have "\<exists>b j'. move_left a2 l p (i - 1) = Some (b, j') \<and> permuted l (i - 1) a2 b \<and> l - 1 \<le> j' \<and> j' < i \<and>
    (\<forall>m. j' < m \<and> m < i \<longrightarrow> key (cell b m) = ?V)"
  proof (rule move_left_middle)
    fix m assume "min l (l + (i - 1 - p)) \<le> m" "m \<le> p"
    then show "key (cell a2 m) = ?V" using c2 [of m] C lr by auto
  qed (use lr C len2 in auto)
  then obtain a3 j where left: "move_left a2 l p (i - 1) = Some (a3, j)"
    and p3: "permuted l (i - 1) a2 a3" and j: "l - 1 \<le> j" "j < i"
    and m3: "\<forall>m. j < m \<and> m < i \<longrightarrow> key (cell a3 m) = ?V" by blast
  have len3: "int (length a3) = int (length a)" using len2 p3 by simp
  have ir: "i \<le> r" using C by auto
  have same: "cell a3 m = cell a2 m" if "i \<le> m" for m
    using permuted_outside [OF p3, of m] that lr C len2 by auto
  have le3: "key (cell a3 m) \<le> ?V" if "m \<in> {l..i - 1}" for m
    using permuted_all [OF p3, where P = "\<lambda>x. key x \<le> ?V", of m] that le lr ir len2 by auto
  have "\<exists>b i'. move_right a3 (r - 1) q (i + 1) = Some (b, i') \<and> permuted (i + 1) (r - 1) a3 b \<and>
    i < i' \<and> i' \<le> r + 1 \<and> (i' = r + 1 \<longrightarrow> i = r) \<and>
    (\<forall>m. i < m \<and> m < i' \<and> m < r \<longrightarrow> key (cell b m) = ?V)"
  proof (rule move_right_middle)
    fix m assume m: "q \<le> m" "m \<le> max (r - 1) (r - 1 - max 0 (q - 1 - i))" "m < r"
    then have "cell a3 m = cell a2 m" using same C by auto
    then show "key (cell a3 m) = ?V" using m c2 [of m] C lr by auto
  qed (use lr C len3 in auto)
  then obtain a4 i' where right: "move_right a3 (r - 1) q (i + 1) = Some (a4, i')"
    and p4: "permuted (i + 1) (r - 1) a3 a4" and i': "i < i'" "i' \<le> r + 1" "i' = r + 1 \<longrightarrow> i = r"
    and m4: "\<forall>m. i < m \<and> m < i' \<and> m < r \<longrightarrow> key (cell a4 m) = ?V" by blast
  have out4: "cell a4 m = cell a3 m" if "0 \<le> m" "m \<notin> {i + 1..r - 1}" for m
    using permuted_outside [OF p4, of m] that lr C len3 by auto
  have ge4: "?V \<le> key (cell a4 m)" if "m \<in> {i + 1..r - 1}" for m
    using permuted_all [OF p4, where P = "\<lambda>x. ?V \<le> key x", of m] that ge same lr C len3 by auto
  have 1: "permuted l r a a4"
    using p2 permuted_mono [OF p3, of l r] permuted_mono [OF p4, of l r] C
    by (auto intro: permuted_trans)
  have 2: "key (cell a4 m) \<le> ?V" if "m \<in> {l..j}" for m
    using that out4 [of m] le3 [of m] j lr by auto
  have 3: "key (cell a4 m) = ?V" if "j < m" "m < i'" for m
  proof (cases "m < i")
    case True
    then show ?thesis using that out4 [of m] m3 j lr by auto
  next
    case False
    then show ?thesis
    proof (cases "m = i")
      case True
      then show ?thesis using out4 [of m] same [of m] eq_i j lr by auto
    next
      case neq: False
      then have "m < r" using False that i' by auto
      then show ?thesis using False neq that m4 by auto
    qed
  qed
  have 4: "?V \<le> key (cell a4 m)" if "m \<in> {i'..r}" for m
    using that ge4 [of m] out4 [of m] same [of m] ge [of m] i' j lr by (cases "m = r") auto
  have "partition3 key a l r = Some (a4, i', j)"
    using lr loop sw left right by (simp add: partition3_def in_bounds_def)
  moreover have "three_parts key l r ?V a4 i' j"
    unfolding three_parts_def using 2 3 4 j i' ir by auto
  ultimately show ?thesis using 1 by blast
qed

section \<open>Quicksort\<close>

definition sorted_cells :: "('a \<Rightarrow> int) \<Rightarrow> 'a list \<Rightarrow> int \<Rightarrow> int \<Rightarrow> bool" where
  "sorted_cells key a l r \<longleftrightarrow> (\<forall>x y. l \<le> x \<and> x \<le> y \<and> y \<le> r \<longrightarrow> key (cell a x) \<le> key (cell a y))"

lemma sorted_cells_parts:
  assumes "three_parts key l r V b i j"
    and lr: "0 \<le> l" "r < int (length b)"
    and c: "permuted l j b c" "sorted_cells key c l j"
    and d: "permuted i r c d" "sorted_cells key d i r"
  shows "sorted_cells key d l r"
proof -
  note T = assms(1) [unfolded three_parts_def]
  have lc: "int (length c) = int (length b)" using c by simp
  have dl: "cell d m = cell c m" if "0 \<le> m" "m < i" for m
    using permuted_outside [OF d(1), of m] that T lr lc by auto
  have cr: "cell c m = cell b m" if "j < m" for m
    using permuted_outside [OF c(1), of m] that T lr by auto
  have left: "key (cell d m) \<le> V" if "m \<in> {l..j}" for m
    using permuted_all [OF c(1), where P = "\<lambda>x. key x \<le> V", of m] that T lr dl [of m] by auto
  have right: "V \<le> key (cell d m)" if "m \<in> {i..r}" for m
    using permuted_all [OF d(1), where P = "\<lambda>x. V \<le> key x", of m] that T lr lc cr by auto
  have mid: "key (cell d m) = V" if "j < m" "m < i" for m
    using that T cr [of m] dl [of m] lr by auto
  show ?thesis
    unfolding sorted_cells_def
  proof (intro allI impI)
    fix x y assume xy: "l \<le> x \<and> x \<le> y \<and> y \<le> r"
    consider "y \<le> j" | "i \<le> x" | "x \<le> j" "j < y" | "j < x" "x < i" by linarith
    then show "key (cell d x) \<le> key (cell d y)"
    proof cases
      case 1
      then show ?thesis using c(2) xy dl [of x] dl [of y] T lr by (auto simp: sorted_cells_def)
    next
      case 2
      then show ?thesis using d(2) xy by (auto simp: sorted_cells_def)
    next
      case 3
      then have "key (cell d x) \<le> V" "V \<le> key (cell d y)"
        using xy left [of x] right [of y] mid [of y] by (auto simp: not_less [symmetric])
      then show ?thesis by linarith
    next
      case 4
      then have "key (cell d x) = V" using mid by blast
      moreover have "V \<le> key (cell d y)"
      proof (cases "y < i")
        case True
        then show ?thesis using 4 xy mid [of y] by simp
      next
        case False
        then show ?thesis using xy right [of y] by simp
      qed
      ultimately show ?thesis by linarith
    qed
  qed
qed

lemma quicksort_sorts:
  assumes "0 \<le> l" "r < int (length a)"
  shows "\<exists>b. quicksort key a l r = Some b \<and> permuted l r a b \<and> sorted_cells key b l r"
  using assms
proof (induction "nat (r - l)" arbitrary: a l r rule: less_induct)
  case less
  show ?case
  proof (cases "r \<le> l")
    case True
    have "sorted_cells key a l r"
      unfolding sorted_cells_def
    proof (intro allI impI)
      fix x y assume "l \<le> x \<and> x \<le> y \<and> y \<le> r"
      then have "x = y" using True by linarith
      then show "key (cell a x) \<le> key (cell a y)" by simp
    qed
    then show ?thesis using True by (subst quicksort.simps) auto
  next
    case False
    with less.prems partition3_parts [of l r a key] obtain b i j where
      part: "partition3 key a l r = Some (b, i, j)" "permuted l r a b"
        "three_parts key l r (key (cell a r)) b i j" by auto
    have B: "l - 1 \<le> j" "j < i" "j < r" "l < i" "i \<le> r + 1"
      using part(3) by (auto simp: three_parts_def)
    have "nat (j - l) < nat (r - l)" "nat (r - i) < nat (r - l)" using B False by auto
    moreover obtain c where
      c: "quicksort key b l j = Some c" "permuted l j b c" "sorted_cells key c l j"
      using less.hyps [of j l b] calculation less.prems B part(2) by auto
    ultimately obtain d where
      d: "quicksort key c i r = Some d" "permuted i r c d" "sorted_cells key d i r"
      using less.hyps [of r i c] less.prems B part(2) by auto
    have "sorted_cells key d l r"
      using sorted_cells_parts [OF part(3) less.prems(1) _ c(2,3) d(2,3)] less.prems part(2) by simp
    moreover have "permuted l r a d"
      using part(2) permuted_mono [OF c(2), of l r] permuted_mono [OF d(2), of l r] B
      by (auto intro: permuted_trans)
    ultimately show ?thesis using False part(1) c(1) d(1) by (subst quicksort.simps) auto
  qed
qed

end
