(* ===== verification/WL2_Colors.thy ===== *)
theory WL2_Colors
  imports WL2_Bins WL2_Sorted
begin

text \<open>
  \<open>GetRowColors\<close> gives two rows the same colour exactly when they have the same cells, for every
  number of threads, as long as no row hashes to \<open>-1\<close>, the value the loop over the sorted hashes
  starts with. The comparing function \<open>RowsEqual\<close> provides the interface of the workers.
\<close>

section \<open>RowsEqual\<close>

text \<open>The cells of a row; arrays of the right sizes, whose offsets fit into an \<open>int\<close>.\<close>

definition row_content :: "row_arrays \<Rightarrow> nat \<Rightarrow> int32 list" where
  "row_content rs x =
     (if x < colors1Size rs then take (vertexCount rs) (drop (x * vertexCount rs) (colors1 rs))
      else take (vertexCount rs) (drop ((x - colors1Size rs) * vertexCount rs) (colors2 rs)))"

definition rows_valid :: "row_arrays \<Rightarrow> bool" where
  "rows_valid rs \<longleftrightarrow>
     length (colors1 rs) = colors1Size rs * vertexCount rs \<and>
     length (colors2 rs) = colors2Size rs * vertexCount rs \<and>
     colors1Size rs * vertexCount rs < 2 ^ 31 \<and> colors2Size rs * vertexCount rs < 2 ^ 31"

lemma equal_cells_slices:
  "x + m \<le> length as \<Longrightarrow> y + m \<le> length bs \<Longrightarrow>
    equal_cells as x bs y m = Some (take m (drop x as) = take m (drop y bs))"
proof (induction m arbitrary: x y)
  case (Suc m)
  have "take (Suc m) (drop x as) = as ! x # take m (drop (Suc x) as)"
    "take (Suc m) (drop y bs) = bs ! y # take m (drop (Suc y) bs)"
    using Suc.prems by (simp_all add: Cons_nth_drop_Suc [symmetric])
  then show ?case using Suc by simp
qed simp

lemma row_fits: "i < m \<Longrightarrow> i * n + n \<le> m * (n::nat)"
  using mult_le_mono1 [of "Suc i" m n] by (simp add: add.commute)

lemma row_start_content:
  assumes "rows_valid rs" "x < rows_total rs"
  shows "\<exists>as off. row_start x rs = Some (as, off) \<and> off + vertexCount rs \<le> length as \<and>
    take (vertexCount rs) (drop off as) = row_content rs x"
proof (cases "x < colors1Size rs")
  case True
  then show ?thesis
    using assms row_fits [of x "colors1Size rs" "vertexCount rs"]
    by (auto simp: row_start_def int_offset_def rows_valid_def row_content_def)
next
  case False
  then have "x - colors1Size rs < colors2Size rs" using assms by (auto simp: rows_total_def)
  then show ?thesis
    using False assms row_fits [of "x - colors1Size rs" "colors2Size rs" "vertexCount rs"]
    by (auto simp: row_start_def int_offset_def rows_valid_def row_content_def)
qed

lemma RowsEqual_contents:
  assumes "rows_valid rs" "x < rows_total rs" "y < rows_total rs"
  shows "RowsEqual x y rs = Some (row_content rs x = row_content rs y)"
proof -
  obtain as off where x: "row_start x rs = Some (as, off)" "off + vertexCount rs \<le> length as"
    "take (vertexCount rs) (drop off as) = row_content rs x"
    using row_start_content [OF assms(1,2)] by blast
  obtain bs off' where y: "row_start y rs = Some (bs, off')" "off' + vertexCount rs \<le> length bs"
    "take (vertexCount rs) (drop off' bs) = row_content rs y"
    using row_start_content [OF assms(1,3)] by blast
  show ?thesis using x y by (simp add: RowsEqual_def equal_cells_slices)
qed

interpretation row_comparer: signature_comparer RowsEqual rows_valid row_content rows_total
  by unfold_locales (rule RowsEqual_contents)

section \<open>The hash of a row\<close>

unbundle bit_operations_syntax

definition content_hash :: "int32 list \<Rightarrow> int32" where
  "content_hash xs = (fold (\<lambda>x s. s + x) xs 0 AND 0xAAAAAAAA) OR (fold (\<lambda>x s. s XOR x) xs 0 AND 0x55555555)"

lemma slice_upt:
  "off + n \<le> length xs \<Longrightarrow> take n (drop off xs) = map (\<lambda>j. xs ! (off + j)) [0..<n]"
  by (rule nth_equalityI) auto

lemma row_hash_content:
  "i * n + n \<le> length xs \<Longrightarrow> row_hash xs n i = content_hash (take n (drop (i * n) xs))"
  by (simp add: row_hash_def content_hash_def slice_upt fold_map comp_def Let_def)

lemma fold_xor_bit:
  "\<not> bit s b \<Longrightarrow> (\<And>x. x \<in> set xs \<Longrightarrow> \<not> bit x b) \<Longrightarrow> \<not> bit (fold (\<lambda>x s. s XOR x) xs s) b"
  for s :: int32
  by (induction xs arbitrary: s) (simp_all add: bit_simps)

lemma mask_bit: "b \<in> {2, 30} \<Longrightarrow> \<not> bit (0xAAAAAAAA :: int32) b"
  by (auto simp: bit_simps)

text \<open>A hash is not \<open>-1\<close> when the cells of the row leave one of the bits 2 and 30 clear.\<close>

lemma content_hash_clear:
  assumes "b \<in> {2, 30}" "\<And>x. x \<in> set xs \<Longrightarrow> \<not> bit x b"
  shows "content_hash xs \<noteq> -1"
proof -
  have "\<not> bit (content_hash xs) b"
    using mask_bit [OF assms(1)] fold_xor_bit [of 0 b xs] assms(2)
    by (simp add: content_hash_def bit_simps)
  moreover have "bit (-1 :: int32) b" using assms(1) by auto
  ultimately show ?thesis by metis
qed


section \<open>Sorting the hashes\<close>

lemma getSortPairs_set:
  "x \<in> set (getSortPairs vals locs n) \<Longrightarrow>
    \<exists>i<n. originalLocation x = locs ! i \<and> valueToSort x = vals ! i"
  by (auto simp: getSortPairs_def)

lemma sort_places:
  assumes "length vals = n"
  shows "\<exists>vals' locs'. sortValueAndLocationPair vals [0..<n] n = Some (vals', locs') \<and>
    mset locs' = mset [0..<n] \<and> length vals' = n \<and> (\<forall>p<n. vals' ! p = vals ! (locs' ! p)) \<and>
    (\<forall>p q. p \<le> q \<and> q < n \<longrightarrow> sint (vals' ! p) \<le> sint (vals' ! q))"
proof -
  let ?a = "getSortPairs vals [0..<n] n"
  have len: "length ?a = n" by (simp add: getSortPairs_def)
  obtain b where b: "quicksort pair_key ?a 0 (int n - 1) = Some b" "permuted 0 (int n - 1) ?a b"
    "sorted_cells pair_key b 0 (int n - 1)"
    using quicksort_sorts [of 0 "int n - 1" ?a pair_key] len by auto
  have ms: "mset b = mset ?a" using permuted_mset [OF b(2)] len by simp
  then have lb: "length b = n" using len by (metis size_mset)
  have mem: "originalLocation (b ! p) < n \<and> valueToSort (b ! p) = vals ! originalLocation (b ! p)"
    if "p < n" for p
  proof -
    have "b ! p \<in> set ?a" using that lb ms by (metis nth_mem set_mset_mset)
    then show ?thesis using getSortPairs_set by fastforce
  qed
  let ?v = "map (\<lambda>i. valueToSort (b ! i)) [0..<n]" and ?l = "map (\<lambda>i. originalLocation (b ! i)) [0..<n]"
  have "sortValueAndLocationPair vals [0..<n] n = Some (?v, ?l)"
    using b(1) assms by (simp add: sortValueAndLocationPair_def loadFromSortPairs_def)
  moreover have "mset ?l = mset [0..<n]"
  proof -
    have "?l = map originalLocation b" using lb by (intro nth_equalityI) simp_all
    then have "mset ?l = image_mset originalLocation (mset ?a)" using ms by simp
    also have "\<dots> = mset (map originalLocation ?a)" by simp
    also have "map originalLocation ?a = [0..<n]" by (rule nth_equalityI) (simp_all add: getSortPairs_def)
    finally show ?thesis .
  qed
  moreover have "sint (?v ! p) \<le> sint (?v ! q)" if "p \<le> q" "q < n" for p q
  proof -
    have "pair_key (cell b (int p)) \<le> pair_key (cell b (int q))"
      using b(3) that unfolding sorted_cells_def by simp
    then show ?thesis using that by (simp add: pair_key_def cell_def)
  qed
  ultimately show ?thesis using mem by (intro exI [of _ ?v] exI [of _ ?l]) simp
qed

section \<open>The bins\<close>

definition previous :: "'a \<Rightarrow> 'a list \<Rightarrow> nat \<Rightarrow> 'a" where
  "previous cur xs k = (if k = 0 then cur else xs ! (k - 1))"

lemma change_positions_set:
  "set (change_positions cur p xs) = {p + k | k. k < length xs \<and> xs ! k \<noteq> previous cur xs k}"
proof (induction cur p xs rule: change_positions.induct)
  case (2 cur p x xs)
  have split: "{p + k | k. k < length (x # xs) \<and> (x # xs) ! k \<noteq> previous cur (x # xs) k} =
    (if x \<noteq> cur then {p} else {}) \<union> {Suc p + k | k. k < length xs \<and> xs ! k \<noteq> previous x xs k}"
  proof (rule set_eqI)
    fix q
    show "q \<in> {p + k | k. k < length (x # xs) \<and> (x # xs) ! k \<noteq> previous cur (x # xs) k} \<longleftrightarrow>
      q \<in> (if x \<noteq> cur then {p} else {}) \<union> {Suc p + k | k. k < length xs \<and> xs ! k \<noteq> previous x xs k}"
    proof (cases "q \<le> p")
      case True
      then show ?thesis by (auto simp: previous_def)
    next
      case False
      then obtain k where q: "q = Suc p + k" by (metis not_less_eq_eq le_Suc_ex)
      have "xs ! k \<noteq> previous x xs k \<longleftrightarrow> (x # xs) ! Suc k \<noteq> previous cur (x # xs) (Suc k)"
        by (cases k) (simp_all add: previous_def)
      then show ?thesis using q by (auto intro: exI [of _ "Suc k"])
    qed
  qed
  show ?case using 2 split by (cases "x = cur") auto
qed simp

lemma change_positions_sorted: "sorted_wrt (<) (change_positions cur p xs)"
proof (induction cur p xs rule: change_positions.induct)
  case (2 cur p x xs)
  have "p < q" if "q \<in> set (change_positions x (Suc p) xs)" for q
    using that by (auto simp: change_positions_set)
  then show ?case using 2 by auto
qed simp

lemma starts_cover:
  assumes s: "sorted_wrt (<) cis" and N: "set cis \<subseteq> {..<N}" and 0: "0 < N \<Longrightarrow> 0 \<in> set cis"
  shows "bins_cover cis N"
proof -
  have mono: "cis ! p < cis ! p'" if "p < p'" "p' < length cis" for p p'
    using s that by (simp add: sorted_wrt_iff_nth_less)
  have below: "cis ! p < N" if "p < length cis" for p using N nth_mem [OF that] by auto
  have 1: "cis ! p < bin_end cis N p \<and> bin_end cis N p \<le> N" if "p < length cis" for p
  proof (cases "p + 1 = length cis")
    case True
    then show ?thesis using below [OF that] by (simp add: bin_end_def)
  next
    case False
    then have "p + 1 < length cis" using that by simp
    then show ?thesis using mono [of p "p + 1"] below [of "p + 1"] False by (simp add: bin_end_def)
  qed
  have 2: "bin_end cis N p \<le> cis ! p'" if "p < p'" "p' < length cis" for p p'
    using that mono [of "p + 1" p'] by (cases "p + 1 = p'") (auto simp: bin_end_def)
  have 3: "\<exists>p<length cis. cis ! p \<le> q \<and> q < bin_end cis N p" if q: "q < N" for q
  proof -
    let ?A = "{p. p < length cis \<and> cis ! p \<le> q}"
    obtain p0 where "p0 < length cis" "cis ! p0 = 0" using 0 q by (auto simp: in_set_conv_nth)
    then have "p0 \<in> ?A" by simp
    moreover have "finite ?A" by simp
    ultimately have "Max ?A \<in> ?A" "\<forall>p\<in>?A. p \<le> Max ?A" using Max_in [of ?A] Max_ge [of ?A] by blast+
    then obtain m where m: "m < length cis" "cis ! m \<le> q"
      and top: "\<And>p. p < length cis \<Longrightarrow> cis ! p \<le> q \<Longrightarrow> p \<le> m" by blast
    have "q < bin_end cis N m"
    proof (cases "m + 1 = length cis")
      case True
      then show ?thesis using q by (simp add: bin_end_def)
    next
      case False
      then have "m + 1 < length cis" using m by simp
      then have "\<not> cis ! (m + 1) \<le> q" using top [of "m + 1"] by auto
      then show ?thesis using False by (simp add: bin_end_def)
    qed
    then show ?thesis using m by blast
  qed
  show ?thesis unfolding bins_cover_def using 1 2 3 by blast
qed

text \<open>Two positions of the sorted hashes are in one bin exactly when their hashes are equal.\<close>

lemma change_positions_bins:
  assumes "\<And>p q. p \<le> q \<Longrightarrow> q < length xs \<Longrightarrow> sint (xs ! p) \<le> sint (xs ! q)" "-1 \<notin> set xs"
  defines "cis \<equiv> change_positions (-1) 0 xs"
  shows "bins_cover cis (length xs)"
    and "x < length xs \<Longrightarrow> y < length xs \<Longrightarrow> xs ! x = xs ! y \<Longrightarrow>
      \<exists>p<length cis. in_bin cis (length xs) p x \<and> in_bin cis (length xs) p y"
proof -
  have set: "k \<in> set cis \<longleftrightarrow> k < length xs \<and> xs ! k \<noteq> previous (-1) xs k" for k
    by (simp add: cis_def change_positions_set)
  have "0 \<in> set cis" if "0 < length xs"
  proof -
    have "xs ! 0 \<noteq> -1" using assms(2) nth_mem [OF that] by metis
    then show ?thesis using that by (simp add: set previous_def)
  qed
  then show cover: "bins_cover cis (length xs)"
    by (intro starts_cover) (auto simp: set, simp add: cis_def change_positions_sorted)
  have same: "\<exists>p<length cis. in_bin cis (length xs) p x \<and> in_bin cis (length xs) p y"
    if "x \<le> y" "y < length xs" "xs ! x = xs ! y" for x y
  proof -
    have "x < length xs" using that by simp
    then obtain p where p: "p < length cis" "cis ! p \<le> x" "x < bin_end cis (length xs) p"
      using cover unfolding bins_cover_def by blast
    have "y < bin_end cis (length xs) p"
    proof (rule ccontr)
      assume "\<not> y < bin_end cis (length xs) p"
      then have le: "bin_end cis (length xs) p \<le> y" by simp
      then have "p + 1 \<noteq> length cis" using that by (auto simp: bin_end_def)
      then have "p + 1 < length cis" and k: "bin_end cis (length xs) p = cis ! (p + 1)"
        using p by (auto simp: bin_end_def)
      let ?k = "cis ! (p + 1)"
      have "?k \<in> set cis" using \<open>p + 1 < length cis\<close> by (rule nth_mem)
      then have change: "xs ! ?k \<noteq> previous (-1) xs ?k" by (simp add: set)
      have "sint (xs ! ?k) \<le> sint (xs ! y)" "sint (xs ! x) \<le> sint (xs ! (?k - 1))"
        "sint (xs ! (?k - 1)) \<le> sint (xs ! ?k)"
        by (rule assms(1); use p k le that in linarith)+
      then have "sint (xs ! (?k - 1)) = sint (xs ! ?k)" using that by simp
      then have "xs ! (?k - 1) = xs ! ?k" by (rule signed_word_eqI)
      then show False using change p k by (simp add: previous_def)
    qed
    moreover have "cis ! p \<le> y" using p(2) \<open>x \<le> y\<close> by (rule le_trans)
    ultimately show ?thesis using p unfolding in_bin_def by blast
  qed
  show "\<exists>p<length cis. in_bin cis (length xs) p x \<and> in_bin cis (length xs) p y"
    if "x < length xs" "y < length xs" "xs ! x = xs ! y"
  proof (cases "x \<le> y")
    case True
    then show ?thesis using same that by blast
  next
    case False
    then show ?thesis using same [of y x] that by (metis nat_le_linear)
  qed
qed

section \<open>The threads\<close>

lemma assign_threads_range:
  assumes "1 \<le> threadNum" "threadNum \<le> nthreads"
    and "\<And>q. q < length ta \<Longrightarrow> q \<in> set bs \<or> 1 \<le> ta ! q \<and> ta ! q \<le> nthreads"
  shows "length (assign_threads nthreads threadNum bs ta) = length ta \<and>
    (\<forall>q<length ta. 1 \<le> assign_threads nthreads threadNum bs ta ! q \<and>
       assign_threads nthreads threadNum bs ta ! q \<le> nthreads)"
  using assms
proof (induction nthreads threadNum bs ta rule: assign_threads.induct)
  case (2 nthreads threadNum b bs ta)
  have "length (assign_threads nthreads (if threadNum + 1 > nthreads then 1 else threadNum + 1) bs
      (ta[b := threadNum])) = length (ta[b := threadNum]) \<and>
    (\<forall>q<length (ta[b := threadNum]).
       1 \<le> assign_threads nthreads (if threadNum + 1 > nthreads then 1 else threadNum + 1) bs (ta[b := threadNum]) ! q \<and>
       assign_threads nthreads (if threadNum + 1 > nthreads then 1 else threadNum + 1) bs (ta[b := threadNum]) ! q \<le> nthreads)"
  proof (rule 2)
    fix q assume "q < length (ta[b := threadNum])"
    then show "q \<in> set bs \<or> 1 \<le> ta[b := threadNum] ! q \<and> ta[b := threadNum] ! q \<le> nthreads"
      using 2 by (cases "q = b") auto
  qed (use 2 in auto)
  then show ?case by simp
qed simp

lemma fillPrefixSum_Some: "arr \<noteq> [] \<Longrightarrow> fillPrefixSum arr \<noteq> None"
  by (simp add: fillPrefixSum_def)

lemma bin_colors_contents:
  assumes v: "rows_valid rs" "1 \<le> nthreads" "0 < rows_total rs"
    and rc: "length rowCounts = rows_total rs" "-1 \<notin> set rowCounts"
      "\<And>p q. p \<le> q \<Longrightarrow> q < rows_total rs \<Longrightarrow> sint (rowCounts ! p) \<le> sint (rowCounts ! q)"
    and co: "length colors = rows_total rs" "\<And>p. p < rows_total rs \<Longrightarrow> colors ! p < rows_total rs"
    and hc: "\<And>p q. p < rows_total rs \<Longrightarrow> q < rows_total rs \<Longrightarrow>
      row_content rs (colors ! p) = row_content rs (colors ! q) \<Longrightarrow> rowCounts ! p = rowCounts ! q"
  shows "\<exists>cols. bin_colors rs nthreads rowCounts colors = Some cols \<and> length cols = rows_total rs \<and>
    (\<forall>p<rows_total rs. cols ! p < rows_total rs) \<and>
    (\<forall>p q. p < rows_total rs \<and> q < rows_total rs \<longrightarrow>
      (cols ! p = cols ! q \<longleftrightarrow> row_content rs (colors ! p) = row_content rs (colors ! q)))"
proof -
  let ?N = "rows_total rs" and ?cis = "change_positions (-1) 0 rowCounts"
    and ?C = "\<lambda>p. row_content rs (colors ! p)"
  have sorted: "sint (rowCounts ! p) \<le> sint (rowCounts ! q)" if "p \<le> q" "q < length rowCounts" for p q
    using that rc by simp
  note bins = change_positions_bins [OF sorted rc(2), unfolded rc(1)]
  have ne: "?cis \<noteq> []"
  proof
    assume "?cis = []"
    then have "bins_cover [] ?N" using bins(1) by simp
    then show False using v(3) unfolding bins_cover_def by fastforce
  qed
  have "work_per_bin ?cis ?N \<noteq> []" using ne by (simp add: work_per_bin_def)
  then obtain sums where sums: "fillPrefixSum (work_per_bin ?cis ?N) = Some sums"
    using fillPrefixSum_Some by blast
  have "length (work_per_bin ?cis ?N) = length ?cis" by (simp add: work_per_bin_def)
  from sort_places [OF this] obtain work locs where
    locs: "sortValueAndLocationPair (work_per_bin ?cis ?N) [0..<length ?cis] (length ?cis) = Some (work, locs)"
      "mset locs = mset [0..<length ?cis]" by blast
  have set_locs: "set locs = {..<length ?cis}"
    using arg_cong [OF locs(2), of set_mset] by (simp add: lessThan_atLeast0)
  define ta where "ta = assign_threads nthreads 1 locs (replicate (length ?cis) 0)"
  have ta: "1 \<le> ta ! p \<and> ta ! p \<le> nthreads" if "p < length ?cis" for p
    using assign_threads_range [of 1 nthreads "replicate (length ?cis) 0" locs] v(2) set_locs that
    by (auto simp: ta_def)
  let ?s0 = "\<lparr>rowColors = colors, alreadyMatchedLeader = replicate ?N False\<rparr>"
  have f0: "faithful (row_content rs) ?N ?C ?s0" using co by (simp add: faithful_def)
  have "\<exists>s1. LargeBinPreprocess ?cis ?N nthreads RowsEqual rs ?s0 = Some s1 \<and>
      faithful (row_content rs) ?N ?C s1"
  proof (rule row_comparer.LargeBinPreprocess_faithful [OF v(1) f0])
    fix p assume "p < length ?cis"
    then show "?cis ! p \<le> bin_end ?cis ?N p \<and> bin_end ?cis ?N p \<le> ?N"
      using bins(1) unfolding bins_cover_def by (simp add: less_imp_le)
  qed
  then obtain s1 where s1: "LargeBinPreprocess ?cis ?N nthreads RowsEqual rs ?s0 = Some s1"
    "faithful (row_content rs) ?N ?C s1" by blast
  let ?s1 = "s1\<lparr>alreadyMatchedLeader := replicate ?N False\<rparr>"
  have f1: "faithful (row_content rs) ?N ?C ?s1" using s1(2) by (simp add: faithful_def)
  have un: "\<not> alreadyMatchedLeader ?s1 ! q" if "q < ?N" for q using that by simp
  from row_comparer.ThreadWorkers_done [OF v(1) bins(1) f1 un, of ta nthreads] ta
  obtain s2 where s2: "for_each (\<lambda>t. ThreadWorker ?cis ?N t ta RowsEqual rs) [1..<nthreads + 1] ?s1 = Some s2"
    and eq: "\<forall>x y. x < ?N \<and> y < ?N \<and> (\<exists>p<length ?cis. in_bin ?cis ?N p x \<and> in_bin ?cis ?N p y) \<longrightarrow>
      (rowColors s2 ! x = rowColors s2 ! y \<longleftrightarrow> ?C x = ?C y)"
    and f2: "faithful (row_content rs) ?N ?C s2" by blast
  have "bin_colors rs nthreads rowCounts colors = Some (rowColors s2)"
    using sums locs(1) s1(1) s2 by (simp add: bin_colors_def ta_def Let_def)
  moreover have "rowColors s2 ! p = rowColors s2 ! q \<longleftrightarrow> ?C p = ?C q" if "p < ?N" "q < ?N" for p q
  proof
    assume "rowColors s2 ! p = rowColors s2 ! q"
    then show "?C p = ?C q" using faithfulD(2) [OF f2 that(1)] faithfulD(2) [OF f2 that(2)] by simp
  next
    assume c: "?C p = ?C q"
    then have "rowCounts ! p = rowCounts ! q" using hc that by blast
    then show "rowColors s2 ! p = rowColors s2 ! q" using eq bins(2) c that by blast
  qed
  ultimately show ?thesis using faithfulD(1,3) [OF f2] by blast
qed

section \<open>All rows\<close>

lemma color_locations_inverse:
  assumes "mset colors = mset [0..<n]" "length loc = n"
  shows "length (color_locations colors loc) = n \<and>
    (\<forall>z<n. color_locations colors loc ! (colors ! z) = z)"
proof -
  have len: "length colors = n" using assms(1) by (metis length_upt minus_nat.diff_0 size_mset)
  have dist: "distinct colors" using mset_eq_imp_distinct_iff [OF assms(1)] by simp
  have below: "colors ! z < n" if "z < n" for z
  proof -
    have "colors ! z \<in> set [0..<n]" using that len assms(1) by (metis nth_mem set_mset_mset)
    then show ?thesis by simp
  qed
  have "length (fold (\<lambda>z loc. loc[colors ! z := z]) [0..<k] loc) = n \<and>
    (\<forall>z<k. fold (\<lambda>z loc. loc[colors ! z := z]) [0..<k] loc ! (colors ! z) = z)" if "k \<le> n" for k
    using that
  proof (induction k)
    case (Suc k)
    let ?l = "fold (\<lambda>z loc. loc[colors ! z := z]) [0..<k] loc"
    have ih: "length ?l = n" "\<forall>z<k. ?l ! (colors ! z) = z" using Suc by auto
    have "?l[colors ! k := k] ! (colors ! z) = z" if "z < Suc k" for z
    proof (cases "z = k")
      case True
      then show ?thesis using ih below [of k] Suc.prems by simp
    next
      case False
      then have "colors ! k \<noteq> colors ! z"
        using dist that Suc.prems len by (simp add: nth_eq_iff_index_eq)
      then show ?thesis using ih that False by simp
    qed
    then show ?case using ih by simp
  qed (simp add: assms(2))
  from this [of n] show ?thesis using len by (simp add: color_locations_def)
qed

lemma GetRowColors_contents:
  assumes v: "rows_valid rs" "1 \<le> nthreads"
    and lens: "length colors = rows_total rs" "length loc = rows_total rs"
    and hash: "\<And>x. x < rows_total rs \<Longrightarrow> content_hash (row_content rs x) \<noteq> -1"
  shows "\<exists>cols locs. GetRowColors rs nthreads colors loc = Some (cols, locs) \<and>
    length cols = rows_total rs \<and> length locs = rows_total rs \<and>
    (\<forall>x<rows_total rs. locs ! x < rows_total rs \<and> cols ! (locs ! x) < rows_total rs) \<and>
    (\<forall>x y. x < rows_total rs \<and> y < rows_total rs \<longrightarrow>
      (cols ! (locs ! x) = cols ! (locs ! y) \<longleftrightarrow> row_content rs x = row_content rs y))"
proof (cases "rows_total rs = 0")
  case True
  then show ?thesis using lens by (simp add: GetRowColors_def)
next
  case False
  let ?N = "rows_total rs"
  define rc0 where "rc0 = map (row_hash (colors1 rs) (vertexCount rs)) [0..<colors1Size rs] @
    map (row_hash (colors2 rs) (vertexCount rs)) [0..<colors2Size rs]"
  have len0: "length rc0 = ?N" by (simp add: rc0_def rows_total_def)
  have hash0: "rc0 ! x = content_hash (row_content rs x)" if "x < ?N" for x
  proof (cases "x < colors1Size rs")
    case True
    then show ?thesis
      using v row_fits [OF True, of "vertexCount rs"]
      by (simp add: rc0_def nth_append row_hash_content row_content_def rows_valid_def)
  next
    case False
    then have "x - colors1Size rs < colors2Size rs" using that by (simp add: rows_total_def)
    then show ?thesis
      using False v row_fits [of "x - colors1Size rs" "colors2Size rs" "vertexCount rs"]
      by (simp add: rc0_def nth_append row_hash_content row_content_def rows_valid_def)
  qed
  from sort_places [OF len0] obtain rc places where
    sp: "sortValueAndLocationPair rc0 [0..<?N] ?N = Some (rc, places)" "mset places = mset [0..<?N]"
      "length rc = ?N" "\<forall>p<?N. rc ! p = rc0 ! (places ! p)"
      "\<forall>p q. p \<le> q \<and> q < ?N \<longrightarrow> sint (rc ! p) \<le> sint (rc ! q)" by blast
  have lp: "length places = ?N" using sp(2) by (metis length_upt minus_nat.diff_0 size_mset)
  have sp_set: "set places = {..<?N}"
    using arg_cong [OF sp(2), of set_mset] by (simp add: lessThan_atLeast0)
  have pb: "places ! p < ?N" if "p < ?N" for p using that lp sp_set nth_mem by fastforce
  define locs where "locs = color_locations places loc"
  from color_locations_inverse [OF sp(2) lens(2)]
  have ll: "length locs = ?N" and inv: "\<And>z. z < ?N \<Longrightarrow> locs ! (places ! z) = z"
    by (simp_all add: locs_def)
  have inv': "locs ! x < ?N \<and> places ! (locs ! x) = x" if "x < ?N" for x
  proof -
    have "x \<in> set places" using that sp_set by simp
    then obtain z where "z < ?N" "places ! z = x" using lp unfolding in_set_conv_nth by auto
    then show ?thesis using inv by auto
  qed
  have run: "GetRowColors rs nthreads colors loc =
    (if ?N < 2 then Some (places, locs)
     else do { cols \<leftarrow> bin_colors rs nthreads rc places; Some (cols, locs) })"
    using False sp(1) by (simp add: GetRowColors_def rc0_def [symmetric] locs_def Let_def)
  show ?thesis
  proof (cases "?N < 2")
    case True
    then have "?N = 1" using False by simp
    then show ?thesis using run lp ll inv' pb by (auto simp: less_Suc_eq)
  next
    case N: False
    have rcv: "rc ! p = content_hash (row_content rs (places ! p))" if "p < ?N" for p
      using sp(4) that pb hash0 by simp
    have neg: "-1 \<notin> set rc"
    proof
      assume "-1 \<in> set rc"
      then obtain p where "p < ?N" "rc ! p = -1" using sp(3) by (metis in_set_conv_nth)
      then show False using rcv [of p] hash [OF pb] by metis
    qed
    have hc: "rc ! p = rc ! q"
      if "p < ?N" "q < ?N" "row_content rs (places ! p) = row_content rs (places ! q)" for p q
      using that rcv by simp
    have srt: "sint (rc ! p) \<le> sint (rc ! q)" if "p \<le> q" "q < ?N" for p q using sp(5) that by blast
    obtain cols where cols: "bin_colors rs nthreads rc places = Some cols" "length cols = ?N"
      "\<forall>p<?N. cols ! p < ?N"
      "\<forall>p q. p < ?N \<and> q < ?N \<longrightarrow>
        (cols ! p = cols ! q \<longleftrightarrow> row_content rs (places ! p) = row_content rs (places ! q))"
      using bin_colors_contents [OF v _ sp(3) neg srt lp pb hc] False by blast
    have "cols ! (locs ! x) = cols ! (locs ! y) \<longleftrightarrow> row_content rs x = row_content rs y"
      if "x < ?N" "y < ?N" for x y
      using cols(4) inv' [OF that(1)] inv' [OF that(2)] by simp
    then show ?thesis using run N cols(1,2,3) ll inv' by (auto intro!: exI [of _ cols] exI [of _ locs])
  qed
qed

text \<open>
  When the least hash is \<open>-1\<close>, its bin is not entered into \<open>changeIndexes\<close>: here two equal rows
  hash to \<open>-1\<close>, no bin is found and the prefix sums are read outside their array.
\<close>

lemma GetRowColors_misses_bin:
  "GetRowColors \<lparr>colors1 = [-1], colors2 = [-1], colors1Size = 1, colors2Size = 1, vertexCount = 1\<rparr>
     1 [0, 0] [0, 0] = None"
  by code_simp

end
