(* ===== verification/WL2_Model.thy ===== *)
theory WL2_Model
  imports WL2_Rows
begin

text \<open>
  The seeded 2-WL program (\<open>scawl_seeded.cpp\<close>) in the configuration its \<open>main\<close> fixes for a
  graph and a seed file: one process (\<open>dialysis_mpi_stub.h\<close>: rank 0 of 1, so every broadcast
  leaves the arrays as they are, the offset \<open>rank * (4 * vertexCount)\<close> and the hash table offsets
  are 0 and \<open>InternodeLoadBalance\<close> returns its argument) and one thread
  (\<open>omp_set_num_threads (1)\<close>: one hash table, which every vertex is assigned to, no team and
  nothing to merge). A matrix file is the list of its 1-based entries, as read by the stream.

  The hash table is a third-party one (\<open>parallel_flat_hash_map\<close>): its operations are the record
  \<open>table_ops\<close>, an argument of the definitions, and \<open>table_laws\<close> states what a map promises. The
  table holds pointers to \<open>ColorCount\<close> objects, which are indices into the list of the objects
  that were allocated.
\<close>

section \<open>The data of a graph\<close>

text \<open>
  The fields of \<open>GraphData\<close> that end in 1 and in 2 are the same fields of the two graphs:
  \<open>rows1\<close> is \<open>rows (graph1 g)\<close>, \<open>colors2CurrentCols\<close> is \<open>colorsCurrentCols (graph2 g)\<close>, and
  \<open>allRowColors1\<close> is \<open>vertexRowColors (graph1 g)\<close>. The sorted copies and the arrays of pointers
  are written before they are read in each round and are results of the steps below.
\<close>

record side =
  rows :: "nat list"
  cols :: "nat list"
  colorsCurrentRows :: "int32 list"
  colorsCurrentCols :: "int32 list"
  colorsNextRows :: "int32 list"
  colorsNextCols :: "int32 list"
  vertexRowColors :: "nat list"
  vertexColColors :: "nat list"

record GraphData =
  graph1 :: side
  graph2 :: side
  allRowColors :: "nat list"
  allRowColorsLoc :: "nat list"
  allColColors :: "nat list"
  allColColorsLoc :: "nat list"

text \<open>\<open>new int[k]\<close> leaves the cells uninitialised; the model fills them with 0.\<close>

definition new_side :: "nat list \<Rightarrow> nat list \<Rightarrow> nat \<Rightarrow> side" where
  "new_side rs cs n =
     \<lparr>rows = rs, cols = cs,
      colorsCurrentRows = replicate (length rs * n) 0, colorsCurrentCols = replicate (length cs * n) 0,
      colorsNextRows = replicate (length rs * n) 0, colorsNextCols = replicate (length cs * n) 0,
      vertexRowColors = replicate n 0, vertexColColors = replicate n 0\<rparr>"

definition InitializeGraphMemory :: "side \<Rightarrow> side \<Rightarrow> GraphData" where
  "InitializeGraphMemory g1 g2 =
     \<lparr>graph1 = g1, graph2 = g2,
      allRowColors = replicate (length (rows g1) + length (rows g2)) 0,
      allRowColorsLoc = replicate (length (rows g1) + length (rows g2)) 0,
      allColColors = replicate (length (cols g1) + length (cols g2)) 0,
      allColColorsLoc = replicate (length (cols g1) + length (cols g2)) 0\<rparr>"

section \<open>Loading\<close>

type_synonym int64 = "64 word"

text \<open>The degree counts; an entry outside the matrix writes outside the arrays.\<close>

record counts =
  rowCounts :: "int64 list"
  colCounts :: "int64 list"
  rowXor :: "int64 list"
  colXor :: "int64 list"

unbundle bit_operations_syntax

definition count_entry :: "nat \<Rightarrow> nat \<times> nat \<Rightarrow> counts \<Rightarrow> counts option" where
  "count_entry n entry c =
     (let (m, k) = entry
      in if 1 \<le> m \<and> m \<le> n \<and> 1 \<le> k \<and> k \<le> n
         then Some (c\<lparr>rowCounts := upd_nth (rowCounts c) (m - 1) (\<lambda>x. x + 1),
                      colCounts := upd_nth (colCounts c) (k - 1) (\<lambda>x. x + 1),
                      rowXor := upd_nth (rowXor c) (m - 1) (\<lambda>x. x XOR 1),
                      colXor := upd_nth (colXor c) (k - 1) (\<lambda>x. x XOR 1)\<rparr>)
         else None)"

definition read_matrix_market_into_counts_and_xor :: "nat \<Rightarrow> (nat \<times> nat) list \<Rightarrow> counts option" where
  "read_matrix_market_into_counts_and_xor n entries =
     for_each (count_entry n) entries
       \<lparr>rowCounts = replicate n 0, colCounts = replicate n 0, rowXor = replicate n 0, colXor = replicate n 0\<rparr>"

definition owned :: "nat \<Rightarrow> nat \<Rightarrow> int64 \<Rightarrow> int64 \<Rightarrow> bool" where
  "owned rank worldSize cnt xors \<longleftrightarrow>
     ((cnt AND 0xAAAAAAAAAAAAAAAA) OR (xors AND 0x5555555555555555)) mod of_nat worldSize = of_nat rank"


text \<open>\<open>rows[index * vertexCount + col] = 1\<close> for the index of a row that is held here.\<close>

definition set_entry :: "nat \<Rightarrow> nat list \<Rightarrow> nat \<Rightarrow> nat \<Rightarrow> int32 list \<Rightarrow> int32 list option" where
  "set_entry n ids r c xs =
     (if r \<in> set ids
      then do {
        off \<leftarrow> int_offset (lower_bound ids r) n;
        if off + c < length xs then Some (xs[off + c := 1]) else None
      }
      else Some xs)"

definition read_matrix_market_into_partition :: "nat \<Rightarrow> (nat \<times> nat) list \<Rightarrow> side \<Rightarrow> side option" where
  "read_matrix_market_into_partition n entries s =
     for_each (\<lambda>(m, k) s. do {
          rs \<leftarrow> set_entry n (rows s) (m - 1) (k - 1) (colorsCurrentRows s);
          cs \<leftarrow> set_entry n (cols s) (k - 1) (m - 1) (colorsCurrentCols s);
          Some (s\<lparr>colorsCurrentRows := rs, colorsCurrentCols := cs\<rparr>)
        }) entries
       (s\<lparr>colorsCurrentRows := replicate (length (rows s) * n) 0,
          colorsCurrentCols := replicate (length (cols s) * n) 0\<rparr>)"

definition initializeFromSparseLinear ::
  "(nat \<times> nat) list \<Rightarrow> (nat \<times> nat) list \<Rightarrow> nat \<Rightarrow> nat \<Rightarrow> nat \<Rightarrow> GraphData option" where
  "initializeFromSparseLinear g1 g2 n rank worldSize = do {
     c1 \<leftarrow> read_matrix_market_into_counts_and_xor n g1;
     c2 \<leftarrow> read_matrix_market_into_counts_and_xor n g2;
     let held = (\<lambda>cnt xors. filter (\<lambda>p. owned rank worldSize (cnt ! p) (xors ! p)) [0..<n]);
     let g = InitializeGraphMemory
       (new_side (held (rowCounts c1) (rowXor c1)) (held (colCounts c1) (colXor c1)) n)
       (new_side (held (rowCounts c2) (rowXor c2)) (held (colCounts c2) (colXor c2)) n);
     s1 \<leftarrow> read_matrix_market_into_partition n g1 (graph1 g);
     s2 \<leftarrow> read_matrix_market_into_partition n g2 (graph2 g);
     Some (g\<lparr>graph1 := s1, graph2 := s2\<rparr>)
   }"

section \<open>The seeds\<close>

text \<open>
  \<open>colors[i * vertexCount + j] += off\<close> for all \<open>j\<close>: the sum of an \<open>int\<close> and a \<open>long\<close>, cut to
  an \<open>int\<close>.
\<close>

definition seed_offset :: "int \<Rightarrow> int32" where
  "seed_offset s = word_of_int (s * 1000000)"

definition shift_lines :: "int list \<Rightarrow> nat \<Rightarrow> nat list \<Rightarrow> int32 list \<Rightarrow> int32 list" where
  "shift_lines seedColours n ids xs =
     fold (\<lambda>i. fold (\<lambda>j xs. upd_nth xs (i * n + j) (\<lambda>x. x + seed_offset (seedColours ! (ids ! i)))) [0..<n])
       [0..<length ids] xs"

definition shift_side :: "int list \<Rightarrow> nat \<Rightarrow> side \<Rightarrow> side" where
  "shift_side seedColours n s =
     s\<lparr>colorsCurrentRows := shift_lines seedColours n (rows s) (colorsCurrentRows s),
       colorsCurrentCols := shift_lines seedColours n (cols s) (colorsCurrentCols s)\<rparr>"

definition applySeedOffset :: "GraphData \<Rightarrow> int list \<Rightarrow> nat \<Rightarrow> GraphData" where
  "applySeedOffset g seedColours n =
     g\<lparr>graph1 := shift_side seedColours n (graph1 g), graph2 := shift_side seedColours n (graph2 g)\<rparr>"

section \<open>The table of signatures\<close>

text \<open>\<open>std::to_string\<close> of an \<open>int\<close>.\<close>

fun decimal :: "nat \<Rightarrow> string" where
  "decimal n = (if n < 10 then [char_of (48 + n)] else decimal (n div 10) @ [char_of (48 + n mod 10)])"

declare decimal.simps [simp del]

definition int_string :: "int \<Rightarrow> string" where
  "int_string i = (if i < 0 then CHR ''-'' # decimal (nat (- i)) else decimal (nat i))"

type_synonym signature = "int \<times> int \<times> int"

definition signature_string :: "signature \<Rightarrow> string" where
  "signature_string sig =
     (case sig of (a, b, c) \<Rightarrow> int_string a @ ''*'' @ int_string b @ ''*'' @ int_string c @ ''*'')"

record 'm table_ops =
  table_new :: 'm
  table_find :: "'m \<Rightarrow> string \<Rightarrow> nat option"
  table_put :: "'m \<Rightarrow> string \<Rightarrow> nat \<Rightarrow> 'm"
  table_pairs :: "'m \<Rightarrow> (string \<times> nat) list"

text \<open>A new table is empty, a put is found, and the iteration visits each key once.\<close>

definition table_laws :: "'m table_ops \<Rightarrow> bool" where
  "table_laws ops \<longleftrightarrow>
     (\<forall>k. table_find ops (table_new ops) k = None) \<and>
     (\<forall>m k v k'. table_find ops (table_put ops m k v) k' = (if k' = k then Some v else table_find ops m k')) \<and>
     (\<forall>m. distinct (map fst (table_pairs ops m)) \<and> map_of (table_pairs ops m) = table_find ops m)"

record ColorCount =
  color :: int32
  count :: int32

definition int_min :: int32 where
  "int_min = 0x80000000"

record 'm color_table =
  colorMap :: 'm
  colorCounts :: "ColorCount list"
  next_color :: int32

definition empty_table :: "'m table_ops \<Rightarrow> 'm color_table" where
  "empty_table ops = \<lparr>colorMap = table_new ops, colorCounts = [], next_color = 0\<rparr>"

definition step_count :: "bool \<Rightarrow> bool \<Rightarrow> int32 \<Rightarrow> int32" where
  "step_count isGraph1 incAndDec c = (if isGraph1 \<and> incAndDec then c + 1 else if incAndDec then c - 1 else c)"

definition first_count :: "bool \<Rightarrow> bool \<Rightarrow> int32" where
  "first_count isGraph1 incAndDec = (if isGraph1 \<and> incAndDec then 1 else if incAndDec then -1 else int_min)"

definition GetColor ::
  "'m table_ops \<Rightarrow> bool \<Rightarrow> bool \<Rightarrow> signature \<Rightarrow> 'm color_table \<Rightarrow> nat \<times> 'm color_table" where
  "GetColor ops isGraph1 incAndDec sig t =
     (case table_find ops (colorMap t) (signature_string sig) of
        Some p \<Rightarrow> (p, t\<lparr>colorCounts := upd_nth (colorCounts t) p
                          (\<lambda>v. v\<lparr>count := step_count isGraph1 incAndDec (count v)\<rparr>)\<rparr>)
      | None \<Rightarrow> (length (colorCounts t),
                \<lparr>colorMap = table_put ops (colorMap t) (signature_string sig) (length (colorCounts t)),
                 colorCounts = colorCounts t @
                   [\<lparr>color = next_color t, count = first_count isGraph1 incAndDec\<rparr>],
                 next_color = next_color t + 1\<rparr>))"

text \<open>The pointers of a loop over all cells.\<close>

fun color_cells ::
  "'m table_ops \<Rightarrow> bool \<Rightarrow> bool \<Rightarrow> signature list \<Rightarrow> 'm color_table \<Rightarrow> nat list \<times> 'm color_table" where
  "color_cells ops isGraph1 incAndDec [] t = ([], t)"
| "color_cells ops isGraph1 incAndDec (sig # sigs) t =
     (let (p, t) = GetColor ops isGraph1 incAndDec sig t;
          (ps, t) = color_cells ops isGraph1 incAndDec sigs t
      in (p # ps, t))"

text \<open>The signatures of the cells of the rows and of the columns, in the order of the loops.\<close>

definition row_signatures :: "nat \<Rightarrow> side \<Rightarrow> signature list" where
  "row_signatures n s =
     concat (map (\<lambda>i. map (\<lambda>j. (sint (colorsCurrentRows s ! (i * n + j)),
                               int (vertexColColors s ! j),
                               int (vertexRowColors s ! (rows s ! i)))) [0..<n]) [0..<length (rows s)])"

definition col_signatures :: "nat \<Rightarrow> side \<Rightarrow> signature list" where
  "col_signatures n s =
     concat (map (\<lambda>i. map (\<lambda>j. (sint (colorsCurrentCols s ! (i * n + j)),
                               int (vertexColColors s ! (cols s ! i)),
                               int (vertexRowColors s ! j))) [0..<n]) [0..<length (cols s)])"

definition ColorCountsMatch :: "'m table_ops \<Rightarrow> 'm color_table \<Rightarrow> bool" where
  "ColorCountsMatch ops t =
     list_all (\<lambda>(k, p). \<not> (count (colorCounts t ! p) \<noteq> 0 \<and> count (colorCounts t ! p) \<noteq> int_min))
       (table_pairs ops (colorMap t))"

definition counted_colors :: "'m table_ops \<Rightarrow> 'm color_table \<Rightarrow> nat" where
  "counted_colors ops t =
     length (filter (\<lambda>(k, p). count (colorCounts t ! p) \<noteq> int_min) (table_pairs ops (colorMap t)))"

section \<open>A round of refinement\<close>

text \<open>The copies of the rows, each sorted in its part of the array.\<close>

definition sort_lines :: "nat \<Rightarrow> nat \<Rightarrow> int32 list \<Rightarrow> int32 list option" where
  "sort_lines n k xs =
     for_each (\<lambda>i acc. do { row \<leftarrow> quicksort sint (take n (drop (i * n) xs)) 0 (int n - 1); Some (acc @ row) })
       [0..<k] []"

definition store_colors :: "nat list \<Rightarrow> (nat \<Rightarrow> nat) \<Rightarrow> nat list \<Rightarrow> nat list" where
  "store_colors ids f dest = fold (\<lambda>i dest. dest[ids ! i := f i]) [0..<length ids] dest"

definition color_lines :: "nat \<Rightarrow> GraphData \<Rightarrow> GraphData option" where
  "color_lines n g = do {
     r1 \<leftarrow> sort_lines n (length (rows (graph1 g))) (colorsCurrentRows (graph1 g));
     r2 \<leftarrow> sort_lines n (length (rows (graph2 g))) (colorsCurrentRows (graph2 g));
     c1 \<leftarrow> sort_lines n (length (cols (graph1 g))) (colorsCurrentCols (graph1 g));
     c2 \<leftarrow> sort_lines n (length (cols (graph2 g))) (colorsCurrentCols (graph2 g));
     (arc, arl) \<leftarrow> GetRowColors
       \<lparr>colors1 = r1, colors2 = r2, colors1Size = length (rows (graph1 g)),
        colors2Size = length (rows (graph2 g)), vertexCount = n\<rparr> 1 (allRowColors g) (allRowColorsLoc g);
     (acc, acl) \<leftarrow> GetRowColors
       \<lparr>colors1 = c1, colors2 = c2, colors1Size = length (cols (graph1 g)),
        colors2Size = length (cols (graph2 g)), vertexCount = n\<rparr> 1 (allColColors g) (allColColorsLoc g);
     let rowColor = (\<lambda>i. arc ! (arl ! i));
     let colColor = (\<lambda>i. acc ! (acl ! i));
     let s1 = graph1 g;
     let s2 = graph2 g;
     Some (g\<lparr>allRowColors := arc, allRowColorsLoc := arl, allColColors := acc, allColColorsLoc := acl,
       graph1 := s1\<lparr>vertexRowColors := store_colors (rows s1) rowColor (vertexRowColors s1),
                    vertexColColors := store_colors (cols s1) colColor (vertexColColors s1)\<rparr>,
       graph2 := s2\<lparr>vertexRowColors :=
                      store_colors (rows s2) (\<lambda>i. rowColor (length (rows s1) + i)) (vertexRowColors s2),
                    vertexColColors :=
                      store_colors (cols s2) (\<lambda>i. colColor (length (cols s1) + i)) (vertexColColors s2)\<rparr>\<rparr>)
   }"

record HashResult =
  matchingGraphs :: bool
  result_maxColor :: int

definition hash1 :: "'m table_ops \<Rightarrow> nat \<Rightarrow> GraphData \<Rightarrow> (HashResult \<times> GraphData) option" where
  "hash1 ops n g = do {
     g \<leftarrow> color_lines n g;
     let s1 = graph1 g;
     let s2 = graph2 g;
     let (r1, t) = color_cells ops True True (row_signatures n s1) (empty_table ops);
     let (c1, t) = color_cells ops True False (col_signatures n s1) t;
     let (r2, t) = color_cells ops False True (row_signatures n s2) t;
     let (c2, t) = color_cells ops False False (col_signatures n s2) t;
     let colors = map (\<lambda>p. color (colorCounts t ! p));
     Some (\<lparr>matchingGraphs = ColorCountsMatch ops t, result_maxColor = int (counted_colors ops t)\<rparr>,
       g\<lparr>graph1 := s1\<lparr>colorsNextRows := colors r1, colorsNextCols := colors c1\<rparr>,
         graph2 := s2\<lparr>colorsNextRows := colors r2, colorsNextCols := colors c2\<rparr>\<rparr>)
   }"

section \<open>The loop\<close>

definition initializeNextColors :: "int32 list \<Rightarrow> int32 list" where
  "initializeNextColors newColors = map (\<lambda>_. -1) newColors"

definition swap_side :: "side \<Rightarrow> side" where
  "swap_side s =
     s\<lparr>colorsCurrentRows := colorsNextRows s, colorsCurrentCols := colorsNextCols s,
       colorsNextRows := colorsCurrentRows s, colorsNextCols := colorsCurrentCols s\<rparr>"

definition clear_side :: "side \<Rightarrow> side" where
  "clear_side s =
     s\<lparr>colorsNextRows := initializeNextColors (colorsNextRows s),
       colorsNextCols := initializeNextColors (colorsNextCols s)\<rparr>"

definition RowCountsMatchForThisPartition :: "GraphData \<Rightarrow> bool" where
  "RowCountsMatchForThisPartition g \<longleftrightarrow>
     length (cols (graph1 g)) = length (cols (graph2 g)) \<and> length (rows (graph1 g)) = length (rows (graph2 g))"

definition GetColorCount :: "int list \<Rightarrow> int" where
  "GetColorCount cs = fold (\<lambda>c total. total + c) cs 0"

definition IsIsomorphic :: "nat list \<Rightarrow> bool" where
  "IsIsomorphic flags = list_all (\<lambda>b. b \<noteq> 0) flags"

text \<open>\<open>maxColor\<close> on the current arrays.\<close>

definition max_cells :: "int32 list \<Rightarrow> int" where
  "max_cells xs = fold (\<lambda>x m. if sint x > m then sint x else m) xs (-1)"

definition maxColor :: "GraphData \<Rightarrow> int" where
  "maxColor g =
     fold (\<lambda>x m. if x > m then x else m)
       [max_cells (colorsCurrentCols (graph1 g)), max_cells (colorsCurrentRows (graph1 g)),
        max_cells (colorsCurrentCols (graph2 g)), max_cells (colorsCurrentRows (graph2 g))] (-1)"

definition map_sides :: "(side \<Rightarrow> side) \<Rightarrow> GraphData \<Rightarrow> GraphData" where
  "map_sides f g = g\<lparr>graph1 := f (graph1 g), graph2 := f (graph2 g)\<rparr>"

text \<open>The arrays with one cell per process have one cell.\<close>

partial_function (option) refine_loop ::
  "'m table_ops \<Rightarrow> nat \<Rightarrow> GraphData \<Rightarrow> int \<Rightarrow> int \<Rightarrow> (bool \<times> GraphData) option" where
  "refine_loop ops n g prevColorCount currentColorCount =
     (if prevColorCount < currentColorCount
      then do {
        (result, g) \<leftarrow> (if RowCountsMatchForThisPartition g then hash1 ops n g
                       else Some (\<lparr>matchingGraphs = False, result_maxColor = 0\<rparr>, g));
        let isIsomorphic = [if matchingGraphs result then 1 else 0];
        if \<not> IsIsomorphic isIsomorphic then Some (False, g)
        else refine_loop ops n (map_sides clear_side (map_sides swap_side g)) currentColorCount
               (GetColorCount [result_maxColor result])
      }
      else Some (True, g))"

declare refine_loop.simps [code]

definition TwoWL ::
  "'m table_ops \<Rightarrow> (nat \<times> nat) list \<Rightarrow> (nat \<times> nat) list \<Rightarrow> nat \<Rightarrow> int list option \<Rightarrow> (bool \<times> (nat \<times> nat) list) option"
where
  "TwoWL ops g1 g2 n seedColours = do {
     g \<leftarrow> initializeFromSparseLinear g1 g2 n 0 1;
     let g = (case seedColours of None \<Rightarrow> g | Some seeds \<Rightarrow> applySeedOffset g seeds n);
     let g = map_sides clear_side g;
     let currentMaxColors = [case seedColours of None \<Rightarrow> maxColor g | Some _ \<Rightarrow> 0];
     (isomorphic, g) \<leftarrow> refine_loop ops n g (GetColorCount [-2]) (GetColorCount currentMaxColors);
     Some (isomorphic, map (\<lambda>v. (v, vertexRowColors (graph1 g) ! v)) [0..<n])
   }"

end
