(* ===== verification/WL2_Table.thy ===== *)
theory WL2_Table
  imports WL2_Model
begin

text \<open>
  The table of signatures of a round: the string of a signature determines it, the pointers of a
  table stand for its keys one to one, and the counter of a signature ends up as the difference
  of its occurrences in the rows of the two graphs.
\<close>

section \<open>Strings of signatures\<close>

definition decimal_value :: "string \<Rightarrow> nat" where
  "decimal_value s = foldl (\<lambda>a c. 10 * a + (of_char c - 48)) 0 s"

lemma decimal_value_decimal: "decimal_value (decimal n) = n"
proof (induction n rule: decimal.induct)
  case (1 n)
  have low: "of_char (char_of (48 + k mod 10) :: char) = (48 + k mod 10 :: nat)" for k
  proof -
    have "k mod 10 < 10" by simp
    then have "48 + k mod 10 < 256" by linarith
    then show ?thesis by simp
  qed
  show ?case
  proof (cases "n < 10")
    case True
    then show ?thesis by (subst decimal.simps) (simp add: decimal_value_def)
  next
    case False
    then have "decimal_value (decimal n) = 10 * decimal_value (decimal (n div 10)) + n mod 10"
      by (subst decimal.simps) (simp add: decimal_value_def low)
    then show ?thesis using 1 False by simp
  qed
qed

lemma decimal_digits: "c \<in> set (decimal n) \<Longrightarrow> 48 \<le> (of_char c :: nat)"
proof (induction n rule: decimal.induct)
  case (1 n)
  have low: "48 \<le> (of_char (char_of (48 + k mod 10) :: char) :: nat)" for k :: nat
  proof -
    have "k mod 10 < 10" by simp
    then have "48 + k mod 10 < 256" by linarith
    then show ?thesis by simp
  qed
  show ?case
  proof (cases "n < 10")
    case True
    then show ?thesis using "1.prems" by (subst (asm) decimal.simps) simp
  next
    case False
    then have "c \<in> set (decimal (n div 10)) \<or> c = char_of (48 + n mod 10)"
      using "1.prems" by (subst (asm) decimal.simps) auto
    then show ?thesis using "1.IH" False low by blast
  qed
qed

lemma decimal_inj: "decimal m = decimal n \<Longrightarrow> m = n"
  by (metis decimal_value_decimal)

lemma no_sign_decimal: "CHR ''-'' \<notin> set (decimal n)" "CHR ''*'' \<notin> set (decimal n)"
  using decimal_digits by fastforce+

lemma int_string_inj:
  assumes "int_string i = int_string j"
  shows "i = j"
proof -
  have ne: "decimal n \<noteq> CHR ''-'' # xs" for n xs
    using no_sign_decimal(1) [of n] by (metis list.set_intros(1))
  note ne' = ne [symmetric]
  show ?thesis
    using assms decimal_inj [of "nat i" "nat j"] decimal_inj [of "nat (- i)" "nat (- j)"]
    by (auto simp: int_string_def ne ne' split: if_splits)
qed

lemma no_star_int_string: "CHR ''*'' \<notin> set (int_string i)"
  using no_sign_decimal(2) by (auto simp: int_string_def)

lemma split_at:
  "c \<notin> set xs \<Longrightarrow> c \<notin> set ys \<Longrightarrow> xs @ c # s = ys @ c # t \<Longrightarrow> xs = ys \<and> s = t"
proof (induction xs arbitrary: ys)
  case Nil
  then show ?case by (cases ys) auto
next
  case (Cons x xs)
  then show ?case by (cases ys) auto
qed

lemma signature_string_inj: "signature_string x = signature_string y \<Longrightarrow> x = y"
proof -
  obtain a b c a' b' c' where xy: "x = (a, b, c)" "y = (a', b', c')" by (metis prod_cases3)
  assume "signature_string x = signature_string y"
  then have 1: "int_string a @ CHR ''*'' # (int_string b @ CHR ''*'' # (int_string c @ CHR ''*'' # [])) =
      int_string a' @ CHR ''*'' # (int_string b' @ CHR ''*'' # (int_string c' @ CHR ''*'' # []))"
    by (simp add: xy signature_string_def)
  from split_at [OF no_star_int_string no_star_int_string 1]
  have A: "int_string a = int_string a'" and
    2: "int_string b @ CHR ''*'' # (int_string c @ CHR ''*'' # []) =
      int_string b' @ CHR ''*'' # (int_string c' @ CHR ''*'' # [])" by blast+
  from split_at [OF no_star_int_string no_star_int_string 2]
  have B: "int_string b = int_string b'" and
    3: "int_string c @ CHR ''*'' # [] = int_string c' @ CHR ''*'' # []" by blast+
  from split_at [OF no_star_int_string no_star_int_string 3] have "int_string c = int_string c'" by blast
  then show ?thesis using A B int_string_inj by (simp add: xy)
qed

section \<open>The table of a round\<close>

definition table_ok :: "'m table_ops \<Rightarrow> 'm color_table \<Rightarrow> bool" where
  "table_ok ops t \<longleftrightarrow>
     next_color t = of_nat (length (colorCounts t)) \<and>
     (\<forall>p<length (colorCounts t). color (colorCounts t ! p) = of_nat p) \<and>
     (\<forall>k p. table_find ops (colorMap t) k = Some p \<longrightarrow> p < length (colorCounts t)) \<and>
     (\<forall>k k' p. table_find ops (colorMap t) k = Some p \<and> table_find ops (colorMap t) k' = Some p \<longrightarrow> k = k') \<and>
     (\<forall>k p. table_find ops (colorMap t) k = Some p \<longrightarrow> (\<exists>sig. k = signature_string sig))"

definition slot_of :: "'m table_ops \<Rightarrow> 'm color_table \<Rightarrow> signature \<Rightarrow> nat option" where
  "slot_of ops t sig = table_find ops (colorMap t) (signature_string sig)"

text \<open>The counter of a signature in the table.\<close>

definition tally :: "'m table_ops \<Rightarrow> 'm color_table \<Rightarrow> signature \<Rightarrow> int32" where
  "tally ops t sig = count (colorCounts t ! the (slot_of ops t sig))"

lemma empty_table_ok: "table_laws ops \<Longrightarrow> table_ok ops (empty_table ops) \<and> slot_of ops (empty_table ops) sig = None"
  by (simp add: table_laws_def table_ok_def empty_table_def slot_of_def)

lemma GetColor_step:
  assumes laws: "table_laws ops" and ok: "table_ok ops t"
  shows "\<exists>p t'. GetColor ops g1 inc sig t = (p, t') \<and> table_ok ops t' \<and>
    slot_of ops t' = (slot_of ops t)(sig \<mapsto> p) \<and>
    (\<forall>x. slot_of ops t x \<noteq> None \<longrightarrow> slot_of ops t' x = slot_of ops t x) \<and>
    length (colorCounts t') = (if slot_of ops t sig = None then Suc (length (colorCounts t)) else length (colorCounts t)) \<and>
    tally ops t' sig = (if slot_of ops t sig = None then first_count g1 inc else step_count g1 inc (tally ops t sig)) \<and>
    (\<forall>x. x \<noteq> sig \<and> slot_of ops t x \<noteq> None \<longrightarrow> tally ops t' x = tally ops t x)"
proof (cases "slot_of ops t sig")
  case (Some p)
  let ?t = "t\<lparr>colorCounts := upd_nth (colorCounts t) p (\<lambda>v. v\<lparr>count := step_count g1 inc (count v)\<rparr>)\<rparr>"
  have p: "p < length (colorCounts t)" using Some ok by (simp add: table_ok_def slot_of_def)
  have kn: "slot_of ops ?t = slot_of ops t" by (rule ext) (simp add: slot_of_def)
  have other: "the (slot_of ops t x) \<noteq> p" if "x \<noteq> sig" "slot_of ops t x \<noteq> None" for x
  proof
    assume "the (slot_of ops t x) = p"
    then have "slot_of ops t x = Some p" using that(2) by auto
    then have "signature_string x = signature_string sig"
      using Some ok unfolding table_ok_def slot_of_def by blast
    then show False using signature_string_inj that(1) by blast
  qed
  have "GetColor ops g1 inc sig t = (p, ?t)" using Some by (simp add: GetColor_def slot_of_def)
  moreover have "table_ok ops ?t" using ok p by (auto simp: table_ok_def upd_nth_def nth_list_update)
  moreover have "slot_of ops ?t = (slot_of ops t)(sig \<mapsto> p)" using Some kn by auto
  moreover have "tally ops ?t sig = step_count g1 inc (tally ops t sig)"
    using Some p by (simp add: tally_def kn)
  moreover have "tally ops ?t x = tally ops t x" if "x \<noteq> sig" "slot_of ops t x \<noteq> None" for x
    using other [OF that] by (simp add: tally_def kn)
  ultimately show ?thesis using Some kn by (intro exI [of _ p] exI [of _ ?t]) simp
next
  case None
  let ?n = "length (colorCounts t)"
  let ?t = "\<lparr>colorMap = table_put ops (colorMap t) (signature_string sig) ?n,
             colorCounts = colorCounts t @ [\<lparr>color = next_color t, count = first_count g1 inc\<rparr>],
             next_color = next_color t + 1\<rparr>"
  have find: "table_find ops (colorMap ?t) k =
      (if k = signature_string sig then Some ?n else table_find ops (colorMap t) k)" for k
    using laws by (simp add: table_laws_def)
  have below: "\<And>k p. table_find ops (colorMap t) k = Some p \<Longrightarrow> p < ?n" using ok by (simp add: table_ok_def)
  have kn: "slot_of ops ?t = (slot_of ops t)(sig \<mapsto> ?n)"
    by (rule ext) (use find in \<open>auto simp: slot_of_def dest: signature_string_inj\<close>)
  have "GetColor ops g1 inc sig t = (?n, ?t)" using None by (simp add: GetColor_def slot_of_def)
  moreover have "table_ok ops ?t"
    unfolding table_ok_def
  proof (intro conjI allI impI)
    fix k p assume "table_find ops (colorMap ?t) k = Some p"
    then show "p < length (colorCounts ?t)" using find [of k] below [of k p] by (auto split: if_splits)
  next
    fix k k' p
    assume "table_find ops (colorMap ?t) k = Some p \<and> table_find ops (colorMap ?t) k' = Some p"
    then show "k = k'"
      using find [of k] find [of k'] below [of k p] below [of k' p] ok
      unfolding table_ok_def by (metis less_irrefl option.inject)
  next
    fix k p assume "table_find ops (colorMap ?t) k = Some p"
    then show "\<exists>sig. k = signature_string sig"
      using find [of k] ok unfolding table_ok_def by (metis)
  qed (use ok in \<open>auto simp: table_ok_def nth_append less_Suc_eq\<close>)
  moreover have "tally ops ?t sig = first_count g1 inc" by (simp add: tally_def kn)
  moreover have "tally ops ?t x = tally ops t x" if "x \<noteq> sig" "slot_of ops t x \<noteq> None" for x
  proof -
    from that(2) obtain q where "slot_of ops t x = Some q" by blast
    moreover then have "q < ?n" using below by (simp add: slot_of_def)
    ultimately show ?thesis using that by (simp add: tally_def kn nth_append)
  qed
  ultimately show ?thesis using None kn by (intro exI [of _ ?n] exI [of _ ?t]) auto
qed

text \<open>A loop over cells: the pointers, the keys and the counters.\<close>

lemma color_cells_run:
  assumes laws: "table_laws ops" and ok: "table_ok ops t"
  shows "\<exists>ps t'. color_cells ops g1 inc sigs t = (ps, t') \<and> table_ok ops t' \<and>
    map Some ps = map (slot_of ops t') sigs \<and>
    (\<forall>x. slot_of ops t x \<noteq> None \<longrightarrow> slot_of ops t' x = slot_of ops t x) \<and>
    (\<forall>x. slot_of ops t' x \<noteq> None \<longleftrightarrow> slot_of ops t x \<noteq> None \<or> x \<in> set sigs) \<and>
    length (colorCounts t') \<le> length (colorCounts t) + length sigs \<and>
    ((\<forall>x \<in> set sigs. slot_of ops t x \<noteq> None) \<longrightarrow> length (colorCounts t') = length (colorCounts t)) \<and>
    (\<forall>x. slot_of ops t x \<noteq> None \<longrightarrow>
      tally ops t' x = (step_count g1 inc ^^ count_list sigs x) (tally ops t x)) \<and>
    (\<forall>x. slot_of ops t x = None \<and> x \<in> set sigs \<longrightarrow>
      tally ops t' x = (step_count g1 inc ^^ (count_list sigs x - 1)) (first_count g1 inc))"
  using ok
proof (induction sigs arbitrary: t)
  case (Cons sig sigs)
  from GetColor_step [OF laws Cons.prems, of g1 inc sig] obtain p t1 where
    g: "GetColor ops g1 inc sig t = (p, t1)" "table_ok ops t1"
      "slot_of ops t1 = (slot_of ops t)(sig \<mapsto> p)"
      "\<forall>x. slot_of ops t x \<noteq> None \<longrightarrow> slot_of ops t1 x = slot_of ops t x"
      "length (colorCounts t1) = (if slot_of ops t sig = None then Suc (length (colorCounts t)) else length (colorCounts t))"
      "tally ops t1 sig = (if slot_of ops t sig = None then first_count g1 inc else step_count g1 inc (tally ops t sig))"
      "\<forall>x. x \<noteq> sig \<and> slot_of ops t x \<noteq> None \<longrightarrow> tally ops t1 x = tally ops t x" by blast
  from Cons.IH [OF g(2)] obtain ps t' where
    h: "color_cells ops g1 inc sigs t1 = (ps, t')" "table_ok ops t'" "map Some ps = map (slot_of ops t') sigs"
      "\<forall>x. slot_of ops t1 x \<noteq> None \<longrightarrow> slot_of ops t' x = slot_of ops t1 x"
      "\<forall>x. slot_of ops t' x \<noteq> None \<longleftrightarrow> slot_of ops t1 x \<noteq> None \<or> x \<in> set sigs"
      "length (colorCounts t') \<le> length (colorCounts t1) + length sigs"
      "(\<forall>x \<in> set sigs. slot_of ops t1 x \<noteq> None) \<longrightarrow> length (colorCounts t') = length (colorCounts t1)"
      "\<forall>x. slot_of ops t1 x \<noteq> None \<longrightarrow>
        tally ops t' x = (step_count g1 inc ^^ count_list sigs x) (tally ops t1 x)"
      "\<forall>x. slot_of ops t1 x = None \<and> x \<in> set sigs \<longrightarrow>
        tally ops t' x = (step_count g1 inc ^^ (count_list sigs x - 1)) (first_count g1 inc)" by blast
  have t7: "tally ops t' x = (step_count g1 inc ^^ count_list sigs x) (tally ops t1 x)"
    if "slot_of ops t1 x \<noteq> None" for x using h(8) that by blast
  have t8: "tally ops t' x = (step_count g1 inc ^^ (count_list sigs x - 1)) (first_count g1 inc)"
    if "slot_of ops t1 x = None" "x \<in> set sigs" for x using h(9) that by blast
  have p: "slot_of ops t1 sig = Some p" using g(3) by simp
  have kp: "slot_of ops t' sig = Some p" using h(4) p by (metis option.distinct(1))
  have 1: "tally ops t' x = (step_count g1 inc ^^ count_list (sig # sigs) x) (tally ops t x)"
    if k: "slot_of ops t x \<noteq> None" for x
  proof (cases "x = sig")
    case True
    then have "tally ops t1 x = step_count g1 inc (tally ops t x)" using g(6) k by auto
    then show ?thesis using t7 [of sig] p True by (simp add: funpow_swap1)
  next
    case False
    have same: "slot_of ops t1 x = slot_of ops t x" "tally ops t1 x = tally ops t x"
      using g(4,7) False k by blast+
    then show ?thesis using t7 [of x] k False by simp
  qed
  have 2: "tally ops t' x = (step_count g1 inc ^^ (count_list (sig # sigs) x - 1)) (first_count g1 inc)"
    if k: "slot_of ops t x = None" "x \<in> set (sig # sigs)" for x
  proof (cases "x = sig")
    case True
    then show ?thesis using t7 [of sig] p g(6) k by simp
  next
    case False
    then have "slot_of ops t1 x = None" using g(3) k by simp
    then show ?thesis using t8 [of x] False k by simp
  qed
  have "slot_of ops t' x \<noteq> None \<longleftrightarrow> slot_of ops t x \<noteq> None \<or> x \<in> set (sig # sigs)" for x
  proof -
    have "slot_of ops t' x \<noteq> None \<longleftrightarrow> slot_of ops t1 x \<noteq> None \<or> x \<in> set sigs" using h(5) by blast
    then show ?thesis using g(3) by (cases "x = sig") simp_all
  qed
  moreover have "slot_of ops t' x = slot_of ops t x" if "slot_of ops t x \<noteq> None" for x
    using h(4) g(4) that by metis
  moreover have "length (colorCounts t') \<le> length (colorCounts t) + length (sig # sigs)"
    using h(6) g(5) by (auto split: if_splits)
  moreover have "length (colorCounts t') = length (colorCounts t)"
    if all: "\<forall>x \<in> set (sig # sigs). slot_of ops t x \<noteq> None"
  proof -
    have "\<forall>x \<in> set sigs. slot_of ops t1 x \<noteq> None" using g(4) all by (metis list.set_intros(2))
    then show ?thesis using h(7) g(5) all by simp
  qed
  moreover have "color_cells ops g1 inc (sig # sigs) t = (p # ps, t')" using g(1) h(1) by simp
  moreover have "map Some (p # ps) = map (slot_of ops t') (sig # sigs)" using h(3) kp by simp
  ultimately show ?case using h(2) 1 2 by (intro exI [of _ "p # ps"] exI [of _ t']) blast
qed simp

lemma funpow_counts [simp]:
  "(step_count True True ^^ k) c = c + of_nat k"
  "(step_count g1 False ^^ k) c = c"
  "(step_count False True ^^ k) c = c - of_nat k"
  by (induction k) (simp_all add: step_count_def algebra_simps)

lemma count_list_pos: "x \<in> set xs \<Longrightarrow> 0 < count_list xs x"
  by (metis count_list_0_iff gr0I)

text \<open>
  The four loops of a round on two equal graphs: both graphs get the same pointers, the pointers
  stand for the signatures one to one, the counters balance, and the colours that were counted are
  the signatures of the rows.
\<close>

lemma balanced_round:
  assumes laws: "table_laws ops"
  shows "\<exists>r1 c1 t t1 t2 t3. color_cells ops True True rs (empty_table ops) = (r1, t1) \<and>
    color_cells ops True False cs t1 = (c1, t2) \<and> color_cells ops False True rs t2 = (r1, t3) \<and>
    color_cells ops False False cs t3 = (c1, t) \<and> table_ok ops t \<and>
    map Some r1 = map (slot_of ops t) rs \<and> map Some c1 = map (slot_of ops t) cs \<and>
    length (colorCounts t) \<le> length rs + length cs \<and>
    ColorCountsMatch ops t \<and> counted_colors ops t = card (set rs)"
proof -
  note ok0 = conjunct1 [OF empty_table_ok [OF laws]]
  have k0: "slot_of ops (empty_table ops) x = None" for x using empty_table_ok [OF laws] by blast
  from color_cells_run [OF laws ok0, of True True rs] obtain r1 t1 where
    1: "color_cells ops True True rs (empty_table ops) = (r1, t1)" "table_ok ops t1"
      "map Some r1 = map (slot_of ops t1) rs"
      "\<And>x. slot_of ops t1 x \<noteq> None \<longleftrightarrow> x \<in> set rs"
      "length (colorCounts t1) \<le> length rs"
      "\<And>x. x \<in> set rs \<Longrightarrow> tally ops t1 x = 1 + of_nat (count_list rs x - 1)"
    using k0 by (auto simp: first_count_def empty_table_def [of ops])
  from color_cells_run [OF laws 1(2), of True False cs] obtain c1 t2 where
    2: "color_cells ops True False cs t1 = (c1, t2)" "table_ok ops t2"
      "map Some c1 = map (slot_of ops t2) cs"
      "\<And>x. slot_of ops t1 x \<noteq> None \<Longrightarrow> slot_of ops t2 x = slot_of ops t1 x"
      "\<And>x. slot_of ops t2 x \<noteq> None \<longleftrightarrow> slot_of ops t1 x \<noteq> None \<or> x \<in> set cs"
      "length (colorCounts t2) \<le> length (colorCounts t1) + length cs"
      "\<And>x. slot_of ops t1 x \<noteq> None \<Longrightarrow> tally ops t2 x = tally ops t1 x"
      "\<And>x. slot_of ops t1 x = None \<Longrightarrow> x \<in> set cs \<Longrightarrow> tally ops t2 x = int_min"
    unfolding funpow_counts first_count_def by force
  from color_cells_run [OF laws 2(2), of False True rs] obtain r2 t3 where
    3: "color_cells ops False True rs t2 = (r2, t3)" "table_ok ops t3"
      "map Some r2 = map (slot_of ops t3) rs"
      "\<And>x. slot_of ops t2 x \<noteq> None \<Longrightarrow> slot_of ops t3 x = slot_of ops t2 x"
      "\<And>x. slot_of ops t3 x \<noteq> None \<longleftrightarrow> slot_of ops t2 x \<noteq> None \<or> x \<in> set rs"
      "\<And>x. slot_of ops t2 x \<noteq> None \<Longrightarrow> tally ops t3 x = tally ops t2 x - of_nat (count_list rs x)"
      "(\<forall>x \<in> set rs. slot_of ops t2 x \<noteq> None) \<longrightarrow> length (colorCounts t3) = length (colorCounts t2)"
    unfolding funpow_counts by blast
  from color_cells_run [OF laws 3(2), of False False cs] obtain c2 t where
    4: "color_cells ops False False cs t3 = (c2, t)" "table_ok ops t"
      "map Some c2 = map (slot_of ops t) cs"
      "\<And>x. slot_of ops t3 x \<noteq> None \<Longrightarrow> slot_of ops t x = slot_of ops t3 x"
      "\<And>x. slot_of ops t x \<noteq> None \<longleftrightarrow> slot_of ops t3 x \<noteq> None \<or> x \<in> set cs"
      "\<And>x. slot_of ops t3 x \<noteq> None \<Longrightarrow> tally ops t x = tally ops t3 x"
      "(\<forall>x \<in> set cs. slot_of ops t3 x \<noteq> None) \<longrightarrow> length (colorCounts t) = length (colorCounts t3)"
    unfolding funpow_counts by blast
  have k2: "slot_of ops t2 x \<noteq> None \<longleftrightarrow> x \<in> set rs \<or> x \<in> set cs" for x
    by (simp only: 2(5) 1(4))
  have k3: "slot_of ops t3 x \<noteq> None \<longleftrightarrow> x \<in> set rs \<or> x \<in> set cs" for x
    by (auto simp only: 3(5) k2)
  have k: "slot_of ops t x \<noteq> None \<longleftrightarrow> x \<in> set rs \<or> x \<in> set cs" for x
    by (auto simp only: 4(5) k3)
  have len: "length (colorCounts t) \<le> length rs + length cs"
  proof -
    have "length (colorCounts t3) = length (colorCounts t2)" using 3(7) k2 by blast
    moreover have "length (colorCounts t) = length (colorCounts t3)" using 4(7) k3 by blast
    ultimately show ?thesis using 1(5) 2(6) by linarith
  qed
  have up: "slot_of ops t x = slot_of ops t1 x" if "x \<in> set rs" for x
    using that 4(4) [of x] 3(4) [of x] 2(4) [of x] 1(4) [of x] k2 [of x] k3 [of x] by metis
  have uc: "slot_of ops t x = slot_of ops t2 x" if "x \<in> set cs" for x
    using that 4(4) [of x] 3(4) [of x] k2 [of x] k3 [of x] by metis
  have ur: "slot_of ops t x = slot_of ops t3 x" if "x \<in> set rs" for x
    using that 4(4) [of x] k3 [of x] by metis
  have r1: "map Some r1 = map (slot_of ops t) rs" using 1(3) up by (metis (mono_tags, lifting) map_eq_conv)
  have c1: "map Some c1 = map (slot_of ops t) cs" using 2(3) uc by (metis (mono_tags, lifting) map_eq_conv)
  have "map Some r2 = map Some r1" using 3(3) ur r1 by (metis (mono_tags, lifting) map_eq_conv)
  then have r2: "r2 = r1" by (metis inj_Some inj_map_eq_map)
  have "map Some c2 = map Some c1" using 4(3) c1 by simp
  then have c2: "c2 = c1" by (metis inj_Some inj_map_eq_map)
  have tr: "tally ops t x = 0" if x: "x \<in> set rs" for x
  proof -
    have "tally ops t x = tally ops t2 x - of_nat (count_list rs x)"
      using 4(6) [of x] 3(6) [of x] k2 [of x] k3 [of x] x by metis
    also have "tally ops t2 x = 1 + of_nat (count_list rs x - 1)"
      using 2(7) [of x] 1(4) [of x] 1(6) [OF x] x by metis
    also have "\<dots> = of_nat (count_list rs x)"
      using count_list_pos [OF x] by (cases "count_list rs x") simp_all
    finally show ?thesis by simp
  qed
  have tc: "tally ops t x = int_min" if "x \<notin> set rs" "x \<in> set cs" for x
  proof -
    have "tally ops t x = tally ops t2 x - of_nat (count_list rs x)"
      using 4(6) [of x] 3(6) [of x] k2 [of x] k3 [of x] that by metis
    also have "count_list rs x = 0" using that(1) by simp
    also have "tally ops t2 x = int_min" using 2(8) [of x] 1(4) [of x] that by metis
    finally show ?thesis by simp
  qed
  have pairs: "distinct (map fst (table_pairs ops (colorMap t)))"
    "map_of (table_pairs ops (colorMap t)) = table_find ops (colorMap t)"
    using laws by (simp_all add: table_laws_def)
  have entry: "\<exists>x. k = signature_string x \<and> slot_of ops t x = Some p \<and>
      count (colorCounts t ! p) = (if x \<in> set rs then 0 else int_min)"
    if "(k, p) \<in> set (table_pairs ops (colorMap t))" for k p
  proof -
    have f: "table_find ops (colorMap t) k = Some p" using that pairs by (metis map_of_is_SomeI)
    then obtain x where x: "k = signature_string x" using 4(2) unfolding table_ok_def by blast
    then have kx: "slot_of ops t x = Some p" using f by (simp add: slot_of_def)
    then have "count (colorCounts t ! p) = tally ops t x" by (simp add: tally_def)
    moreover have "x \<in> set rs \<or> x \<in> set cs" using k [of x] kx by simp
    then have "tally ops t x = (if x \<in> set rs then 0 else int_min)"
      using tr [of x] tc [of x] by (cases "x \<in> set rs") simp_all
    ultimately show ?thesis using x kx by (intro exI [of _ x]) simp
  qed
  have match: "ColorCountsMatch ops t"
    unfolding ColorCountsMatch_def list_all_iff
  proof (rule ballI)
    fix e assume e: "e \<in> set (table_pairs ops (colorMap t))"
    obtain key p where kp: "e = (key, p)" by (cases e)
    from entry [of key p] e kp have "count (colorCounts t ! p) = 0 \<or> count (colorCounts t ! p) = int_min"
      by (metis (full_types))
    then show "case e of (k, p) \<Rightarrow>
      \<not> (count (colorCounts t ! p) \<noteq> 0 \<and> count (colorCounts t ! p) \<noteq> int_min)" by (auto simp: kp)
  qed
  have ne: "(0 :: int32) \<noteq> int_min" by (simp add: int_min_def)
  let ?f = "\<lambda>x. (signature_string x, the (slot_of ops t x))"
  have "set (filter (\<lambda>(k, p). count (colorCounts t ! p) \<noteq> int_min) (table_pairs ops (colorMap t))) = ?f ` set rs"
  proof (rule set_eqI)
    fix e :: "string \<times> nat"
    obtain key p where e: "e = (key, p)" by (cases e)
    show "e \<in> set (filter (\<lambda>(k, p). count (colorCounts t ! p) \<noteq> int_min) (table_pairs ops (colorMap t))) \<longleftrightarrow>
      e \<in> ?f ` set rs"
    proof
      assume "e \<in> set (filter (\<lambda>(k, p). count (colorCounts t ! p) \<noteq> int_min) (table_pairs ops (colorMap t)))"
      then have h: "(key, p) \<in> set (table_pairs ops (colorMap t))" "count (colorCounts t ! p) \<noteq> int_min"
        by (simp_all add: e)
      from entry [OF h(1)] h(2) obtain x where
        "key = signature_string x" "slot_of ops t x = Some p" "x \<in> set rs" by (metis (no_types))
      then show "e \<in> ?f ` set rs" by (auto simp: e)
    next
      assume "e \<in> ?f ` set rs"
      then obtain x where x: "x \<in> set rs" "e = ?f x" by blast
      then have "slot_of ops t x \<noteq> None" using k [of x] by simp
      then have kx: "table_find ops (colorMap t) key = Some p" using x e by (auto simp: slot_of_def)
      then have "(key, p) \<in> set (table_pairs ops (colorMap t))" using pairs(2) by (metis map_of_SomeD)
      moreover have "count (colorCounts t ! p) = 0" using tr [OF x(1)] x(2) e by (simp add: tally_def)
      ultimately show "e \<in> set (filter (\<lambda>(k, p). count (colorCounts t ! p) \<noteq> int_min) (table_pairs ops (colorMap t)))"
        using ne by (simp add: e)
    qed
  qed
  moreover have "distinct (table_pairs ops (colorMap t))" using pairs(1) by (simp add: distinct_map)
  moreover have "inj_on ?f (set rs)" by (rule inj_onI) (simp add: signature_string_inj)
  ultimately have "counted_colors ops t = card (set rs)"
    unfolding counted_colors_def by (metis (no_types, lifting) card_image distinct_card distinct_filter)
  then show ?thesis
    using 1(1) 2(1) 3(1) 4(1,2) r1 c1 len match unfolding r2 c2 by blast
qed

end
