(* ===== verification/WL2_Round.thy ===== *)
theory WL2_Round
  imports WL2_Colors WL2_Table
begin

text \<open>
  One round of refinement on two copies of the same graph: the sorted copies, the colours of the
  rows and columns (equal for equal multisets of cells), the new colours of the cells (equal for
  equal signatures), the counters, and the well-formedness that every round keeps.
\<close>

section \<open>Square arrays\<close>

definition line :: "nat \<Rightarrow> 'a list \<Rightarrow> nat \<Rightarrow> 'a list" where
  "line n xs i = map (\<lambda>j. xs ! (i * n + j)) [0..<n]"

lemma line_slice: "i * n + n \<le> length xs \<Longrightarrow> take n (drop (i * n) xs) = line n xs i"
  by (simp add: line_def slice_upt)

lemma length_line [simp]: "length (line n xs i) = n"
  by (simp add: line_def)

lemma length_grid: "(\<And>i. i < k \<Longrightarrow> length (f i) = n) \<Longrightarrow> length (concat (map f [0..<k])) = k * n"
  by (induction k) simp_all

lemma nth_grid:
  assumes "i < k" "j < n" "\<And>i. i < k \<Longrightarrow> length (f i) = n"
  shows "concat (map f [0..<k]) ! (i * n + j) = f i ! j"
  using assms
proof (induction k)
  case (Suc k)
  have len: "length (concat (map f [0..<k])) = k * n" using Suc.prems(3) by (intro length_grid) simp
  show ?case
  proof (cases "i < k")
    case True
    then have "i * n + j < k * n" using row_fits [of i k n] Suc.prems(2) by simp
    then show ?thesis using Suc True len by (simp add: nth_append)
  next
    case False
    then have "i = k" using Suc.prems by simp
    then show ?thesis using len by (simp add: nth_append)
  qed
qed simp

lemma line_grid:
  "i < k \<Longrightarrow> (\<And>i. i < k \<Longrightarrow> length (f i) = n) \<Longrightarrow> line n (concat (map f [0..<k])) i = f i"
  by (rule nth_equalityI) (simp_all add: line_def nth_grid)

lemma grid_index: "i < k \<Longrightarrow> j < n \<Longrightarrow> i * n + j < k * (n::nat)"
  using row_fits [of i k n] by simp

lemma grid_cells: "m < k * n \<Longrightarrow> \<exists>i<k. \<exists>j<n. m = i * n + (j::nat)"
proof -
  assume m: "m < k * n"
  then have "0 < n" by (cases n) simp_all
  then have "m div n < k" "m mod n < n" "m = m div n * n + m mod n"
    using m by (simp_all add: less_mult_imp_div_less)
  then show ?thesis by blast
qed

section \<open>The sorted copies\<close>

lemma sorted_unique:
  assumes "mset ys = mset zs" "sorted (map sint ys)" "sorted (map sint zs)"
  shows "ys = (zs :: int32 list)"
proof -
  have "mset (map sint ys) = mset (map sint zs)" using assms(1) by simp
  then have "map sint ys = map sint zs" using assms(2,3) properties_for_sort by metis
  then show ?thesis by (rule map_injective) (auto intro: injI signed_word_eqI)
qed

lemma quicksort_line:
  assumes "length (xs :: int32 list) = n"
  shows "quicksort sint xs 0 (int n - 1) = Some (sort_key sint xs)"
proof -
  obtain b where b: "quicksort sint xs 0 (int n - 1) = Some b" "permuted 0 (int n - 1) xs b"
    "sorted_cells sint b 0 (int n - 1)"
    using quicksort_sorts [of 0 "int n - 1" xs sint] assms by auto
  have ms: "mset b = mset xs" using permuted_mset [OF b(2)] assms by simp
  then have len: "length b = n" using assms by (metis size_mset)
  have "sorted (map sint b)"
    unfolding sorted_iff_nth_mono
  proof (intro allI impI)
    fix p q assume "p \<le> q" "q < length (map sint b)"
    then have "sint (cell b (int p)) \<le> sint (cell b (int q))"
      using b(3) len unfolding sorted_cells_def by simp
    then show "map sint b ! p \<le> map sint b ! q"
      using \<open>p \<le> q\<close> \<open>q < length (map sint b)\<close> by (simp add: cell_def)
  qed
  then have "b = sort_key sint xs" using ms by (intro sorted_unique) simp_all
  then show ?thesis using b(1) by simp
qed

lemma sort_key_eq: "sort_key sint xs = sort_key sint ys \<longleftrightarrow> mset xs = mset (ys :: int32 list)"
proof
  assume "sort_key sint xs = sort_key sint ys"
  then show "mset xs = mset ys" by (metis mset_sort)
next
  assume "mset xs = mset ys"
  then show "sort_key sint xs = sort_key sint ys" by (intro sorted_unique) simp_all
qed

definition sorted_lines :: "nat \<Rightarrow> nat \<Rightarrow> int32 list \<Rightarrow> int32 list" where
  "sorted_lines n k xs = concat (map (\<lambda>i. sort_key sint (line n xs i)) [0..<k])"

lemma sort_lines_sorted:
  assumes "k * n \<le> length xs"
  shows "sort_lines n k xs = Some (sorted_lines n k xs)"
proof -
  have "\<exists>s. for_each (\<lambda>i acc. do { row \<leftarrow> quicksort sint (take n (drop (i * n) xs)) 0 (int n - 1); Some (acc @ row) })
      [0..<k] [] = Some s \<and> s = sorted_lines n k xs"
  proof (rule for_each_upt [where P = "\<lambda>m s. s = sorted_lines n m xs"])
    fix i acc assume i: "i < k" "acc = sorted_lines n i xs"
    then have "i * n + n \<le> length xs" using row_fits [of i k n] assms by linarith
    then show "\<exists>s'. do { row \<leftarrow> quicksort sint (take n (drop (i * n) xs)) 0 (int n - 1); Some (acc @ row) } = Some s' \<and>
        s' = sorted_lines n (Suc i) xs"
      using i by (simp add: line_slice quicksort_line sorted_lines_def)
  qed (simp_all add: sorted_lines_def)
  then show ?thesis by (simp add: sort_lines_def)
qed

lemma length_sorted_lines [simp]: "length (sorted_lines n k xs) = k * n"
  unfolding sorted_lines_def by (rule length_grid) simp

lemma line_sorted_lines: "i < k \<Longrightarrow> line n (sorted_lines n k xs) i = sort_key sint (line n xs i)"
  unfolding sorted_lines_def by (rule line_grid) simp_all

section \<open>The colours of the lines\<close>

lemma store_colors_all:
  assumes "length dest = n"
  shows "store_colors [0..<n] f dest = map f [0..<n]"
proof -
  have "length (fold (\<lambda>i dest. dest[[0..<n] ! i := f i]) [0..<k] dest) = n \<and>
    (\<forall>i<k. fold (\<lambda>i dest. dest[[0..<n] ! i := f i]) [0..<k] dest ! i = f i)" if "k \<le> n" for k
    using that by (induction k) (auto simp: assms nth_list_update less_Suc_eq)
  from this [of n] show ?thesis
    by (intro nth_equalityI) (simp_all add: store_colors_def)
qed

text \<open>The sorted lines of the array \<open>xs\<close>, for both graphs.\<close>

definition twin_rows :: "nat \<Rightarrow> int32 list \<Rightarrow> row_arrays" where
  "twin_rows n xs = \<lparr>colors1 = sorted_lines n n xs, colors2 = sorted_lines n n xs,
     colors1Size = n, colors2Size = n, vertexCount = n\<rparr>"

lemma twin_rows_content:
  "i < n \<Longrightarrow> row_content (twin_rows n xs) i = sort_key sint (line n xs i)"
  "i < n \<Longrightarrow> row_content (twin_rows n xs) (n + i) = sort_key sint (line n xs i)"
  using row_fits [of i n n]
  by (simp_all add: row_content_def twin_rows_def line_slice line_sorted_lines)

lemma GetRowColors_twin:
  assumes "n * n < 2 ^ 31" "b \<in> {2, 30}" "\<And>x. x \<in> set xs \<Longrightarrow> \<not> bit x b" "length xs = n * n"
    and "length colors = 2 * n" "length loc = 2 * n"
  shows "\<exists>cols locs. GetRowColors (twin_rows n xs) 1 colors loc = Some (cols, locs) \<and>
    length cols = 2 * n \<and> length locs = 2 * n \<and>
    (\<forall>i<n. cols ! (locs ! (n + i)) = cols ! (locs ! i)) \<and>
    (\<forall>i<n. \<forall>k<n. cols ! (locs ! i) = cols ! (locs ! k) \<longleftrightarrow> mset (line n xs i) = mset (line n xs k))"
proof -
  have N: "rows_total (twin_rows n xs) = 2 * n" by (simp add: rows_total_def twin_rows_def)
  have v: "rows_valid (twin_rows n xs)" using assms(1) by (simp add: rows_valid_def twin_rows_def)
  have hash: "content_hash (row_content (twin_rows n xs) x) \<noteq> -1" if "x < rows_total (twin_rows n xs)" for x
  proof -
    define i where "i = (if x < n then x else x - n)"
    have i: "i < n" "x = i \<or> x = n + i" using that by (auto simp: N i_def)
    then have c: "row_content (twin_rows n xs) x = sort_key sint (line n xs i)"
      using twin_rows_content by blast
    have "set (line n xs i) \<subseteq> set xs"
      using i grid_index [of i n _ n] assms(4) by (auto simp: line_def)
    then show ?thesis unfolding c using assms(2,3) by (intro content_hash_clear [of b]) auto
  qed
  from GetRowColors_contents [OF v _ _ _ hash, of 1 colors loc] assms(5,6) obtain cols locs where
    run: "GetRowColors (twin_rows n xs) 1 colors loc = Some (cols, locs)"
      "length cols = 2 * n" "length locs = 2 * n"
      "\<forall>x y. x < 2 * n \<and> y < 2 * n \<longrightarrow> (cols ! (locs ! x) = cols ! (locs ! y) \<longleftrightarrow>
        row_content (twin_rows n xs) x = row_content (twin_rows n xs) y)"
    unfolding N by auto
  have "cols ! (locs ! (n + i)) = cols ! (locs ! i)" if "i < n" for i
    using run(4) that by (simp add: twin_rows_content)
  moreover have "cols ! (locs ! i) = cols ! (locs ! k) \<longleftrightarrow> mset (line n xs i) = mset (line n xs k)"
    if "i < n" "k < n" for i k
    using run(4) that by (simp add: twin_rows_content sort_key_eq)
  ultimately show ?thesis using run(1-3) by blast
qed

section \<open>Two copies of one graph\<close>

definition twin :: "nat \<Rightarrow> GraphData \<Rightarrow> bool" where
  "twin n g \<longleftrightarrow>
     graph2 g = graph1 g \<and> rows (graph1 g) = [0..<n] \<and> cols (graph1 g) = [0..<n] \<and>
     length (colorsCurrentRows (graph1 g)) = n * n \<and> length (colorsCurrentCols (graph1 g)) = n * n \<and>
     length (vertexRowColors (graph1 g)) = n \<and> length (vertexColColors (graph1 g)) = n \<and>
     length (allRowColors g) = 2 * n \<and> length (allRowColorsLoc g) = 2 * n \<and>
     length (allColColors g) = 2 * n \<and> length (allColColorsLoc g) = 2 * n"

text \<open>No cell of the current arrays has the bit \<open>b\<close>.\<close>

definition clear_of :: "nat \<Rightarrow> GraphData \<Rightarrow> bool" where
  "clear_of b g \<longleftrightarrow>
     (\<forall>x \<in> set (colorsCurrentRows (graph1 g)) \<union> set (colorsCurrentCols (graph1 g)). \<not> bit x b)"

definition same_lines :: "nat \<Rightarrow> int32 list \<Rightarrow> nat list \<Rightarrow> bool" where
  "same_lines n xs f \<longleftrightarrow> (\<forall>i<n. \<forall>k<n. f ! i = f ! k \<longleftrightarrow> mset (line n xs i) = mset (line n xs k))"

lemma color_lines_twin:
  assumes t: "twin n g" and n: "n * n < 2 ^ 31" and b: "b \<in> {2, 30}" "clear_of b g"
  shows "\<exists>g'. color_lines n g = Some g' \<and> twin n g' \<and>
    colorsCurrentRows (graph1 g') = colorsCurrentRows (graph1 g) \<and>
    colorsCurrentCols (graph1 g') = colorsCurrentCols (graph1 g) \<and>
    same_lines n (colorsCurrentRows (graph1 g)) (vertexRowColors (graph1 g')) \<and>
    same_lines n (colorsCurrentCols (graph1 g)) (vertexColColors (graph1 g'))"
proof -
  note T = t [unfolded twin_def]
  let ?R = "colorsCurrentRows (graph1 g)" and ?C = "colorsCurrentCols (graph1 g)"
  have L: "length (allRowColors g) = 2 * n" "length (allRowColorsLoc g) = 2 * n"
    "length (allColColors g) = 2 * n" "length (allColColorsLoc g) = 2 * n"
    "length ?R = n * n" "length ?C = n * n" using T by blast+
  have cb: "\<And>x. x \<in> set ?R \<Longrightarrow> \<not> bit x b" "\<And>x. x \<in> set ?C \<Longrightarrow> \<not> bit x b"
    using b(2) by (simp_all add: clear_of_def)
  obtain rc rl where r: "GetRowColors (twin_rows n ?R) 1 (allRowColors g) (allRowColorsLoc g) = Some (rc, rl)"
    "length rc = 2 * n" "length rl = 2 * n" "\<forall>i<n. rc ! (rl ! (n + i)) = rc ! (rl ! i)"
    "\<forall>i<n. \<forall>k<n. rc ! (rl ! i) = rc ! (rl ! k) \<longleftrightarrow> mset (line n ?R i) = mset (line n ?R k)"
    using GetRowColors_twin [OF n b(1) cb(1) L(5,1,2)] by blast
  obtain cc cl where c: "GetRowColors (twin_rows n ?C) 1 (allColColors g) (allColColorsLoc g) = Some (cc, cl)"
    "length cc = 2 * n" "length cl = 2 * n" "\<forall>i<n. cc ! (cl ! (n + i)) = cc ! (cl ! i)"
    "\<forall>i<n. \<forall>k<n. cc ! (cl ! i) = cc ! (cl ! k) \<longleftrightarrow> mset (line n ?C i) = mset (line n ?C k)"
    using GetRowColors_twin [OF n b(1) cb(2) L(6,3,4)] by blast
  let ?s = "(graph1 g)\<lparr>vertexRowColors := map (\<lambda>i. rc ! (rl ! i)) [0..<n],
                       vertexColColors := map (\<lambda>i. cc ! (cl ! i)) [0..<n]\<rparr>"
  let ?g = "g\<lparr>allRowColors := rc, allRowColorsLoc := rl, allColColors := cc, allColColorsLoc := cl,
              graph1 := ?s, graph2 := ?s\<rparr>"
  have m: "map (\<lambda>i. rc ! (rl ! (n + i))) [0..<n] = map (\<lambda>i. rc ! (rl ! i)) [0..<n]"
    "map (\<lambda>i. cc ! (cl ! (n + i))) [0..<n] = map (\<lambda>i. cc ! (cl ! i)) [0..<n]"
    using r(4) c(4) by simp_all
  have "color_lines n g = Some ?g"
    using T r(1) c(1)
    by (simp add: color_lines_def sort_lines_sorted twin_rows_def [symmetric] store_colors_all m Let_def)
  moreover have "twin n ?g" using T r(2,3) c(2,3) by (simp add: twin_def)
  moreover have "same_lines n ?R (vertexRowColors (graph1 ?g))" "same_lines n ?C (vertexColColors (graph1 ?g))"
    using r(5) c(5) by (simp_all add: same_lines_def)
  ultimately show ?thesis by (intro exI [of _ ?g]) simp
qed

section \<open>The new colours of the cells\<close>

definition row_sig :: "nat \<Rightarrow> side \<Rightarrow> nat \<Rightarrow> nat \<Rightarrow> signature" where
  "row_sig n s i j = (sint (colorsCurrentRows s ! (i * n + j)), int (vertexColColors s ! j), int (vertexRowColors s ! i))"

definition col_sig :: "nat \<Rightarrow> side \<Rightarrow> nat \<Rightarrow> nat \<Rightarrow> signature" where
  "col_sig n s i j = (sint (colorsCurrentCols s ! (i * n + j)), int (vertexColColors s ! i), int (vertexRowColors s ! j))"

lemma signatures_grid:
  assumes "rows s = [0..<n]" "cols s = [0..<n]"
  shows "row_signatures n s = concat (map (\<lambda>i. map (row_sig n s i) [0..<n]) [0..<n])"
    and "col_signatures n s = concat (map (\<lambda>i. map (col_sig n s i) [0..<n]) [0..<n])"
  using assms
  by (auto simp: row_signatures_def col_signatures_def row_sig_def col_sig_def
      intro!: arg_cong [where f = concat] map_cong)

text \<open>A table gives equal colours to equal signatures only.\<close>

lemma table_colors:
  assumes ok: "table_ok ops t" and ps: "map Some ps = map (slot_of ops t) sigs"
    and small: "length (colorCounts t) < 2 ^ 30"
  defines "cs \<equiv> map (\<lambda>p. color (colorCounts t ! p)) ps"
  shows "length cs = length sigs"
    and "x < length sigs \<Longrightarrow> y < length sigs \<Longrightarrow> cs ! x = cs ! y \<longleftrightarrow> sigs ! x = sigs ! y"
    and "c \<in> set cs \<Longrightarrow> \<not> bit c 30"
proof -
  have len: "length ps = length sigs" using ps by (metis length_map)
  then show "length cs = length sigs" by (simp add: cs_def)
  have kp: "slot_of ops t (sigs ! x) = Some (ps ! x)" if "x < length sigs" for x
    using arg_cong [OF ps, of "\<lambda>l. l ! x"] that len by simp
  have pb: "ps ! x < length (colorCounts t)" if "x < length sigs" for x
    using kp [OF that] ok unfolding table_ok_def slot_of_def by blast
  have col: "cs ! x = of_nat (ps ! x)" if "x < length sigs" for x
    using that len pb ok by (simp add: cs_def table_ok_def)
  show "cs ! x = cs ! y \<longleftrightarrow> sigs ! x = sigs ! y" if "x < length sigs" "y < length sigs" for x y
  proof
    assume "cs ! x = cs ! y"
    then have "(of_nat (ps ! x) :: int32) = of_nat (ps ! y)" using col that by simp
    moreover have "ps ! x < 2 ^ 32" "ps ! y < 2 ^ 32" using pb [OF that(1)] pb [OF that(2)] small by simp_all
    ultimately have "ps ! x = ps ! y" by (simp add: of_nat_inverse word_of_nat_eq_iff take_bit_nat_eq_self_iff take_bit_nat_eq_self)
    then have "slot_of ops t (sigs ! x) = slot_of ops t (sigs ! y)" using kp that by simp
    then have "signature_string (sigs ! x) = signature_string (sigs ! y)"
      using kp [OF that(1)] ok unfolding table_ok_def slot_of_def by metis
    then show "sigs ! x = sigs ! y" by (rule signature_string_inj)
  next
    assume "sigs ! x = sigs ! y"
    then have "ps ! x = ps ! y" using kp [OF that(1)] kp [OF that(2)] by simp
    then show "cs ! x = cs ! y" using col that by simp
  qed
  show "\<not> bit c 30" if "c \<in> set cs"
  proof -
    have "\<exists>x<length cs. cs ! x = c" using that by (simp add: in_set_conv_nth)
    then obtain x where x: "x < length sigs" "c = cs ! x" by (auto simp: cs_def len)
    then have "c = of_nat (ps ! x)" "ps ! x < 2 ^ 30" using col pb [OF x(1)] small by simp_all
    moreover have "\<not> bit (of_nat m :: int32) 30" if "m < 2 ^ 30" for m
    proof -
      have "\<not> bit m 30" using that by (simp add: bit_iff_odd)
      then show ?thesis by (simp add: bit_simps)
    qed
    ultimately show ?thesis by simp
  qed
qed

text \<open>
  What a round does with the cells and lines: \<open>X\<close> and \<open>Y\<close> are the arrays it reads, by rows and by
  columns, \<open>s\<close> is what it leaves.
\<close>

definition cell_at :: "nat \<Rightarrow> 'a list \<Rightarrow> nat \<Rightarrow> nat \<Rightarrow> 'a" where
  "cell_at n xs i j = xs ! (i * n + j)"

definition round_of :: "nat \<Rightarrow> int32 list \<Rightarrow> int32 list \<Rightarrow> side \<Rightarrow> bool" where
  "round_of n X Y s \<longleftrightarrow>
     same_lines n X (vertexRowColors s) \<and> same_lines n Y (vertexColColors s) \<and>
     (\<forall>i<n. \<forall>j<n. \<forall>k<n. \<forall>l<n.
        cell_at n (colorsNextRows s) i j = cell_at n (colorsNextRows s) k l \<longleftrightarrow>
        cell_at n X i j = cell_at n X k l \<and>
        vertexColColors s ! j = vertexColColors s ! l \<and> vertexRowColors s ! i = vertexRowColors s ! k) \<and>
     (\<forall>i<n. \<forall>j<n. \<forall>k<n. \<forall>l<n.
        cell_at n (colorsNextCols s) i j = cell_at n (colorsNextCols s) k l \<longleftrightarrow>
        cell_at n Y i j = cell_at n Y k l \<and>
        vertexColColors s ! i = vertexColColors s ! k \<and> vertexRowColors s ! j = vertexRowColors s ! l)"

lemma factor_through:
  assumes "\<And>x y. x \<in> S \<Longrightarrow> y \<in> S \<Longrightarrow> f x = f y \<Longrightarrow> g x = g y"
  shows "\<exists>h. \<forall>x \<in> S. h (f x) = g x"
proof (intro exI ballI)
  fix x assume x: "x \<in> S"
  have "(SOME y. y \<in> S \<and> f y = f x) \<in> S \<and> f (SOME y. y \<in> S \<and> f y = f x) = f x"
    by (rule someI [of _ x]) (use x in simp)
  then show "(\<lambda>c. g (SOME y. y \<in> S \<and> f y = c)) (f x) = g x" using assms x by blast
qed

lemma card_factor:
  assumes "finite S" "\<And>x y. x \<in> S \<Longrightarrow> y \<in> S \<Longrightarrow> f x = f y \<Longrightarrow> g x = g y"
  shows "card (g ` S) \<le> card (f ` S)"
proof -
  obtain h where "\<forall>x \<in> S. h (f x) = g x" using factor_through [of S f g] assms(2) by blast
  then have "g ` S = h ` (f ` S)" by (simp add: image_image)
  then show ?thesis using assms(1) card_image_le [of "f ` S" h] by simp
qed

lemma card_images:
  assumes "finite S" "\<And>x y. x \<in> S \<Longrightarrow> y \<in> S \<Longrightarrow> f x = f y \<longleftrightarrow> g x = g y"
  shows "card (f ` S) = card (g ` S)"
  using card_factor [of S f g] card_factor [of S g f] assms by (simp add: le_antisym)

lemma card_set_nth:
  assumes "length cs = length sigs" "\<And>x y. x < length sigs \<Longrightarrow> y < length sigs \<Longrightarrow> cs ! x = cs ! y \<longleftrightarrow> sigs ! x = sigs ! y"
  shows "card (set cs) = card (set sigs)"
proof -
  have "set cs = (\<lambda>x. cs ! x) ` {..<length sigs}" using assms(1) by (auto simp: set_conv_nth)
  moreover have "set sigs = (\<lambda>x. sigs ! x) ` {..<length sigs}" by (auto simp: set_conv_nth)
  ultimately show ?thesis
    using card_images [of "{..<length sigs}" "\<lambda>x. cs ! x" "\<lambda>x. sigs ! x"] assms(2) by simp
qed

lemma hash1_twin:
  assumes laws: "table_laws ops" and t: "twin n g" and n: "2 * (n * n) < 2 ^ 30"
    and b: "b \<in> {2, 30}" "clear_of b g"
  shows "\<exists>g'. hash1 ops n g =
      Some (\<lparr>matchingGraphs = True, result_maxColor = int (card (set (colorsNextRows (graph1 g'))))\<rparr>, g') \<and>
    twin n g' \<and> length (colorsNextRows (graph1 g')) = n * n \<and> length (colorsNextCols (graph1 g')) = n * n \<and>
    (\<forall>x \<in> set (colorsNextRows (graph1 g')) \<union> set (colorsNextCols (graph1 g')). \<not> bit x 30) \<and>
    round_of n (colorsCurrentRows (graph1 g)) (colorsCurrentCols (graph1 g)) (graph1 g')"
proof -
  have n31: "n * n < 2 ^ 31" using n by simp
  obtain h where h: "color_lines n g = Some h" "twin n h"
    "colorsCurrentRows (graph1 h) = colorsCurrentRows (graph1 g)"
    "colorsCurrentCols (graph1 h) = colorsCurrentCols (graph1 g)"
    "same_lines n (colorsCurrentRows (graph1 g)) (vertexRowColors (graph1 h))"
    "same_lines n (colorsCurrentCols (graph1 g)) (vertexColColors (graph1 h))"
    using color_lines_twin [OF t n31 b] by blast
  note T = h(2) [unfolded twin_def]
  let ?s = "graph1 h"
  let ?rs = "row_signatures n ?s" and ?cs = "col_signatures n ?s"
  have g: "rows ?s = [0..<n]" "cols ?s = [0..<n]" "graph2 h = ?s" using T by simp_all
  have lrs: "length ?rs = n * n" and lcs: "length ?cs = n * n"
    unfolding signatures_grid [OF g(1,2)] by (rule length_grid, simp)+
  from balanced_round [OF laws, of ?rs ?cs] obtain r1 c1 tab t1 t2 t3 where
    run: "color_cells ops True True ?rs (empty_table ops) = (r1, t1)"
      "color_cells ops True False ?cs t1 = (c1, t2)" "color_cells ops False True ?rs t2 = (r1, t3)"
      "color_cells ops False False ?cs t3 = (c1, tab)"
    and tab: "table_ok ops tab" "map Some r1 = map (slot_of ops tab) ?rs" "map Some c1 = map (slot_of ops tab) ?cs"
      "length (colorCounts tab) \<le> length ?rs + length ?cs" "ColorCountsMatch ops tab"
      "counted_colors ops tab = card (set ?rs)"
    by blast
  have small: "length (colorCounts tab) < 2 ^ 30" using tab(4) n by (simp add: lrs lcs)
  let ?R = "map (\<lambda>p. color (colorCounts tab ! p)) r1" and ?C = "map (\<lambda>p. color (colorCounts tab ! p)) c1"
  note R = table_colors [OF tab(1,2) small] and C = table_colors [OF tab(1,3) small]
  have R_eq: "cell_at n ?R i j = cell_at n ?R k l \<longleftrightarrow> row_sig n ?s i j = row_sig n ?s k l"
    if "i < n" "j < n" "k < n" "l < n" for i j k l
  proof -
    have "i * n + j < length ?rs" "k * n + l < length ?rs" using that by (simp_all add: lrs grid_index)
    from R(2) [OF this] show ?thesis
      using that unfolding cell_at_def signatures_grid [OF g(1,2)] by (simp add: nth_grid)
  qed
  have C_eq: "cell_at n ?C i j = cell_at n ?C k l \<longleftrightarrow> col_sig n ?s i j = col_sig n ?s k l"
    if "i < n" "j < n" "k < n" "l < n" for i j k l
  proof -
    have "i * n + j < length ?cs" "k * n + l < length ?cs" using that by (simp_all add: lcs grid_index)
    from C(2) [OF this] show ?thesis
      using that unfolding cell_at_def signatures_grid [OF g(1,2)] by (simp add: nth_grid)
  qed
  have cards: "card (set ?R) = card (set ?rs)" using R(1,2) by (rule card_set_nth)
  let ?t = "?s\<lparr>colorsNextRows := ?R, colorsNextCols := ?C\<rparr>"
  let ?g = "h\<lparr>graph1 := ?t, graph2 := ?t\<rparr>"
  have "hash1 ops n g = Some (\<lparr>matchingGraphs = True, result_maxColor = int (card (set ?R))\<rparr>, ?g)"
    using h(1) run tab(5,6) g(3) cards by (simp add: hash1_def Let_def)
  moreover have "twin n ?g" using T by (simp add: twin_def)
  moreover have "length ?R = n * n" "length ?C = n * n" using R(1) C(1) lrs lcs by simp_all
  moreover have "\<forall>x \<in> set ?R \<union> set ?C. \<not> bit x 30" using R(3) C(3) by blast
  moreover have "round_of n (colorsCurrentRows (graph1 g)) (colorsCurrentCols (graph1 g)) ?t"
    unfolding round_of_def
    using h(3-6) R_eq C_eq by (auto simp: row_sig_def col_sig_def cell_at_def signed_word_eqI)
  ultimately show ?thesis by (intro exI [of _ ?g]) simp
qed

end
