(* ===== verification/WL2_Loop.thy ===== *)
theory WL2_Loop
  imports WL2_Round
begin

text \<open>
  The refinement loop on two copies of an undirected graph: it ends, never reports a mismatch, and
  the colours of the rows it leaves are an equitable partition that respects the seeds, the
  coarsest one. The matrix is the predicate \<open>A\<close>, the offsets the seeds add to a line are \<open>d\<close>.
\<close>

section \<open>Multisets of lines\<close>

lemma mset_determined:
  assumes "\<And>x y. x \<in> S \<Longrightarrow> y \<in> S \<Longrightarrow> f x = f y \<Longrightarrow> g x = g y" "set xs \<subseteq> S" "set ys \<subseteq> S"
    and "mset (map f xs) = mset (map f ys)"
  shows "mset (map g xs) = mset (map g ys)"
proof -
  obtain h where h: "\<forall>x \<in> S. h (f x) = g x" using factor_through [of S f g] assms(1) by blast
  have "mset (map g zs) = image_mset h (mset (map f zs))" if "set zs \<subseteq> S" for zs
  proof -
    have "map g zs = map h (map f zs)" using that h by (auto simp: subset_iff)
    then show ?thesis by (metis mset_map)
  qed
  then show ?thesis using assms(2-4) by simp
qed

text \<open>A function of the cells of a square, for one line.\<close>

definition line_of :: "nat \<Rightarrow> (nat \<Rightarrow> nat \<Rightarrow> 'a) \<Rightarrow> nat \<Rightarrow> 'a multiset" where
  "line_of n f i = mset (map (f i) [0..<n])"

lemma line_cells: "line n xs i = map (cell_at n xs i) [0..<n]"
  by (simp add: line_def cell_at_def)

lemma mset_line: "mset (line n xs i) = line_of n (cell_at n xs) i"
  by (simp add: line_cells line_of_def)

lemma line_of_determined:
  assumes "\<And>i j k l. i < n \<Longrightarrow> j < n \<Longrightarrow> k < n \<Longrightarrow> l < n \<Longrightarrow> f i j = f k l \<Longrightarrow> g i j = g k l"
    and "i < n" "k < n" "line_of n f i = line_of n f k"
  shows "line_of n g i = line_of n g k"
proof -
  have "mset (map (\<lambda>(i, j). g i j) (map (Pair i) [0..<n])) = mset (map (\<lambda>(i, j). g i j) (map (Pair k) [0..<n]))"
    by (rule mset_determined [where S = "{..<n} \<times> {..<n}" and f = "\<lambda>(i, j). f i j"])
      (use assms in \<open>auto simp: line_of_def comp_def\<close>)
  then show ?thesis by (simp add: line_of_def comp_def)
qed

lemma count_line_of: "Multiset.count (line_of n f i) x = card {j. j < n \<and> f i j = x}"
proof -
  have "Multiset.count (mset (map h [0..<m])) x = card {j. j < m \<and> h j = x}" for h m
  proof (induction m)
    case (Suc m)
    have "{j. j < Suc m \<and> h j = x} = (if h m = x then insert m {j. j < m \<and> h j = x} else {j. j < m \<and> h j = x})"
      by (auto simp: less_Suc_eq)
    then show ?case using Suc by simp
  qed simp
  then show ?thesis by (simp add: line_of_def)
qed

lemma line_of_meet:
  assumes "0 < n" "line_of n f i = line_of n f k"
  shows "\<exists>j<n. \<exists>l<n. f i j = f k l"
proof -
  have "f i 0 \<in># line_of n f i" using assms(1) by (simp add: line_of_def)
  then have "f i 0 \<in># line_of n f k" using assms(2) by simp
  then obtain l where "l < n" "f i 0 = f k l" by (auto simp: line_of_def)
  then show ?thesis using assms(1) by blast
qed

section \<open>What the arrays say about the graph\<close>

definition cells_refine :: "nat \<Rightarrow> (nat \<Rightarrow> nat \<Rightarrow> 'a) \<Rightarrow> (nat \<Rightarrow> nat \<Rightarrow> 'b) \<Rightarrow> bool" where
  "cells_refine n f g \<longleftrightarrow> (\<forall>i<n. \<forall>j<n. \<forall>k<n. \<forall>l<n. f i j = f k l \<longrightarrow> g i j = g k l)"

lemma cells_refineD:
  "cells_refine n f g \<Longrightarrow> i < n \<Longrightarrow> j < n \<Longrightarrow> k < n \<Longrightarrow> l < n \<Longrightarrow> f i j = f k l \<Longrightarrow> g i j = g k l"
  unfolding cells_refine_def by blast

lemma cells_refineI:
  "(\<And>i j k l. i < n \<Longrightarrow> j < n \<Longrightarrow> k < n \<Longrightarrow> l < n \<Longrightarrow> f i j = f k l \<Longrightarrow> g i j = g k l) \<Longrightarrow> cells_refine n f g"
  unfolding cells_refine_def by blast

lemma cells_refine_trans: "cells_refine n f g \<Longrightarrow> cells_refine n g h \<Longrightarrow> cells_refine n f h"
  unfolding cells_refine_def by blast

lemma cells_refine_line:
  "cells_refine n f g \<Longrightarrow> i < n \<Longrightarrow> k < n \<Longrightarrow> line_of n f i = line_of n f k \<Longrightarrow> line_of n g i = line_of n g k"
  by (rule line_of_determined [of n f g]) (auto dest: cells_refineD)

text \<open>Colourings of the vertices that refinement must not split.\<close>

definition even_split :: "nat \<Rightarrow> (nat \<Rightarrow> nat \<Rightarrow> bool) \<Rightarrow> (nat \<Rightarrow> int32) \<Rightarrow> (nat \<Rightarrow> nat) \<Rightarrow> bool" where
  "even_split n A d h \<longleftrightarrow> (\<forall>u<n. \<forall>v<n. h u = h v \<longrightarrow> d u = d v \<and>
     (\<forall>c. card {w. w < n \<and> h w = c \<and> A u w} = card {w. w < n \<and> h w = c \<and> A v w}))"

definition kinds :: "(nat \<Rightarrow> nat \<Rightarrow> bool) \<Rightarrow> (nat \<Rightarrow> nat) \<Rightarrow> nat \<Rightarrow> nat \<Rightarrow> nat \<times> nat \<times> bool" where
  "kinds A h i j = (h i, h j, A i j)"

lemma even_split_lines:
  assumes "even_split n A d h" "u < n" "v < n" "h u = h v"
  shows "line_of n (kinds A h) u = line_of n (kinds A h) v"
proof (rule multiset_eqI)
  fix x :: "nat \<times> nat \<times> bool"
  obtain a c b where x: "x = (a, c, b)" by (cases x)
  have pos: "card {w. w < n \<and> h w = c \<and> A u w} = card {w. w < n \<and> h w = c \<and> A v w}"
    using assms unfolding even_split_def by blast
  have split: "card {w. w < n \<and> h w = c \<and> \<not> A y w} + card {w. w < n \<and> h w = c \<and> A y w} =
      card {w. w < n \<and> h w = c}" for y
  proof -
    have "{w. w < n \<and> h w = c} = {w. w < n \<and> h w = c \<and> \<not> A y w} \<union> {w. w < n \<and> h w = c \<and> A y w}" by auto
    then show ?thesis by (simp add: card_Un_disjoint disjoint_iff)
  qed
  have neg: "card {w. w < n \<and> h w = c \<and> \<not> A u w} = card {w. w < n \<and> h w = c \<and> \<not> A v w}"
    using split [of u] split [of v] pos by linarith
  have "card {j. j < n \<and> kinds A h y j = x} =
      (if h y \<noteq> a then 0 else if b then card {w. w < n \<and> h w = c \<and> A y w}
       else card {w. w < n \<and> h w = c \<and> \<not> A y w})" for y
    by (auto simp: kinds_def x intro!: arg_cong [where f = card])
  then show "Multiset.count (line_of n (kinds A h) u) x = Multiset.count (line_of n (kinds A h) v) x"
    using pos neg assms(4) by (simp add: count_line_of)
qed

text \<open>The invariant of the loop, on the arrays by rows and by columns.\<close>

definition graph_arrays ::
  "nat \<Rightarrow> (nat \<Rightarrow> nat \<Rightarrow> bool) \<Rightarrow> (nat \<Rightarrow> int32) \<Rightarrow> int32 list \<Rightarrow> int32 list \<Rightarrow> bool" where
  "graph_arrays n A d X Y \<longleftrightarrow>
     cells_refine n (cell_at n X) (\<lambda>i j. (d i, A i j)) \<and>
     cells_refine n (cell_at n X) (cell_at n Y) \<and> cells_refine n (cell_at n Y) (cell_at n X) \<and>
     (\<forall>h. even_split n A d h \<longrightarrow> cells_refine n (kinds A h) (cell_at n X))"

lemma arrays_graph: "graph_arrays n A d X Y \<Longrightarrow> i < n \<Longrightarrow> j < n \<Longrightarrow> k < n \<Longrightarrow> l < n \<Longrightarrow>
    cell_at n X i j = cell_at n X k l \<Longrightarrow> (d i, A i j) = (d k, A k l)"
  and arrays_rows: "graph_arrays n A d X Y \<Longrightarrow> i < n \<Longrightarrow> j < n \<Longrightarrow> k < n \<Longrightarrow> l < n \<Longrightarrow>
    cell_at n X i j = cell_at n X k l \<Longrightarrow> cell_at n Y i j = cell_at n Y k l"
  and arrays_cols: "graph_arrays n A d X Y \<Longrightarrow> i < n \<Longrightarrow> j < n \<Longrightarrow> k < n \<Longrightarrow> l < n \<Longrightarrow>
    cell_at n Y i j = cell_at n Y k l \<Longrightarrow> cell_at n X i j = cell_at n X k l"
  and arrays_kinds: "graph_arrays n A d X Y \<Longrightarrow> even_split n A d h \<Longrightarrow> i < n \<Longrightarrow> j < n \<Longrightarrow> k < n \<Longrightarrow> l < n \<Longrightarrow>
    kinds A h i j = kinds A h k l \<Longrightarrow> cell_at n X i j = cell_at n X k l"
proof -
  assume G: "graph_arrays n A d X Y" and b: "i < n" "j < n" "k < n" "l < n"
  have G': "cells_refine n (cell_at n X) (\<lambda>i j. (d i, A i j))" "cells_refine n (cell_at n X) (cell_at n Y)"
    "cells_refine n (cell_at n Y) (cell_at n X)"
    using G by (simp_all add: graph_arrays_def)
  show "cell_at n X i j = cell_at n X k l \<Longrightarrow> (d i, A i j) = (d k, A k l)"
    using cells_refineD [OF G'(1) b] .
  show "cell_at n X i j = cell_at n X k l \<Longrightarrow> cell_at n Y i j = cell_at n Y k l"
    using cells_refineD [OF G'(2) b] .
  show "cell_at n Y i j = cell_at n Y k l \<Longrightarrow> cell_at n X i j = cell_at n X k l"
    using cells_refineD [OF G'(3) b] .
  assume "even_split n A d h"
  then have "cells_refine n (kinds A h) (cell_at n X)" using G by (simp add: graph_arrays_def)
  from cells_refineD [OF this b]
  show "kinds A h i j = kinds A h k l \<Longrightarrow> cell_at n X i j = cell_at n X k l" .
qed

text \<open>What a colouring of the vertices must be at the end.\<close>

definition coarsest_split :: "nat \<Rightarrow> (nat \<Rightarrow> nat \<Rightarrow> bool) \<Rightarrow> (nat \<Rightarrow> int32) \<Rightarrow> (nat \<Rightarrow> nat) \<Rightarrow> bool" where
  "coarsest_split n A d f \<longleftrightarrow> even_split n A d f \<and>
     (\<forall>h. even_split n A d h \<longrightarrow> (\<forall>u<n. \<forall>v<n. h u = h v \<longrightarrow> f u = f v))"

section \<open>One round\<close>

lemma same_lines_cells:
  "same_lines n X f \<Longrightarrow> i < n \<Longrightarrow> k < n \<Longrightarrow>
    f ! i = f ! k \<longleftrightarrow> line_of n (cell_at n X) i = line_of n (cell_at n X) k"
  by (simp add: same_lines_def mset_line)

lemma round_rows_cols:
  assumes "graph_arrays n A d X Y" "round_of n X Y s" "i < n" "k < n"
  shows "vertexRowColors s ! i = vertexRowColors s ! k \<longleftrightarrow> vertexColColors s ! i = vertexColColors s ! k"
proof -
  have "line_of n (cell_at n X) i = line_of n (cell_at n X) k \<longleftrightarrow>
      line_of n (cell_at n Y) i = line_of n (cell_at n Y) k"
    using line_of_determined [where f = "cell_at n X" and g = "cell_at n Y", OF arrays_rows [OF assms(1)] assms(3,4)]
      line_of_determined [where f = "cell_at n Y" and g = "cell_at n X", OF arrays_cols [OF assms(1)] assms(3,4)]
    by blast
  then show ?thesis
    using assms same_lines_cells [of n X "vertexRowColors s"] same_lines_cells [of n Y "vertexColColors s"]
    unfolding round_of_def by simp
qed

lemma round_coarse:
  assumes "graph_arrays n A d X Y" "round_of n X Y s" "even_split n A d h" "u < n" "v < n" "h u = h v"
  shows "vertexRowColors s ! u = vertexRowColors s ! v"
proof -
  have "cells_refine n (kinds A h) (cell_at n X)" using assms(1,3) unfolding graph_arrays_def by blast
  from cells_refine_line [OF this assms(4,5) even_split_lines [OF assms(3-6)]] show ?thesis
    using assms(2,4,5) same_lines_cells [of n X "vertexRowColors s"] unfolding round_of_def by simp
qed

text \<open>The equality of two new cells.\<close>

lemma round_cells:
  assumes "graph_arrays n A d X Y" "round_of n X Y s" "i < n" "j < n" "k < n" "l < n"
  shows "cell_at n (colorsNextRows s) i j = cell_at n (colorsNextRows s) k l \<longleftrightarrow>
      cell_at n X i j = cell_at n X k l \<and> vertexRowColors s ! i = vertexRowColors s ! k \<and>
      vertexRowColors s ! j = vertexRowColors s ! l"
    and "cell_at n (colorsNextCols s) i j = cell_at n (colorsNextCols s) k l \<longleftrightarrow>
      cell_at n X i j = cell_at n X k l \<and> vertexRowColors s ! i = vertexRowColors s ! k \<and>
      vertexRowColors s ! j = vertexRowColors s ! l"
proof -
  have XY: "cell_at n X i j = cell_at n X k l \<longleftrightarrow> cell_at n Y i j = cell_at n Y k l"
    using arrays_rows [OF assms(1,3-6)] arrays_cols [OF assms(1,3-6)] by blast
  show "cell_at n (colorsNextRows s) i j = cell_at n (colorsNextRows s) k l \<longleftrightarrow>
      cell_at n X i j = cell_at n X k l \<and> vertexRowColors s ! i = vertexRowColors s ! k \<and>
      vertexRowColors s ! j = vertexRowColors s ! l"
    using assms(2-6) round_rows_cols [OF assms(1,2), of j l] unfolding round_of_def by blast
  show "cell_at n (colorsNextCols s) i j = cell_at n (colorsNextCols s) k l \<longleftrightarrow>
      cell_at n X i j = cell_at n X k l \<and> vertexRowColors s ! i = vertexRowColors s ! k \<and>
      vertexRowColors s ! j = vertexRowColors s ! l"
    using assms(2-6) round_rows_cols [OF assms(1,2), of i k] XY unfolding round_of_def by blast
qed

lemma round_arrays:
  assumes G: "graph_arrays n A d X Y" and R: "round_of n X Y s"
  shows "graph_arrays n A d (colorsNextRows s) (colorsNextCols s)"
    and "cells_refine n (cell_at n (colorsNextRows s)) (cell_at n X)"
proof -
  show XX: "cells_refine n (cell_at n (colorsNextRows s)) (cell_at n X)"
    by (rule cells_refineI) (use round_cells(1) [OF G R] in blast)
  have "cells_refine n (cell_at n (colorsNextRows s)) (\<lambda>i j. (d i, A i j))"
    by (rule cells_refineI) (use arrays_graph [OF G] cells_refineD [OF XX] in blast)
  moreover have "cells_refine n (cell_at n (colorsNextRows s)) (cell_at n (colorsNextCols s))"
    "cells_refine n (cell_at n (colorsNextCols s)) (cell_at n (colorsNextRows s))"
    by (rule cells_refineI, use round_cells [OF G R] in blast)+
  moreover have "cells_refine n (kinds A h) (cell_at n (colorsNextRows s))" if h: "even_split n A d h" for h
  proof (rule cells_refineI)
    fix i j k l assume b: "i < n" "j < n" "k < n" "l < n" and "kinds A h i j = kinds A h k l"
    then have e: "h i = h k" "h j = h l" by (simp_all add: kinds_def)
    have "cell_at n X i j = cell_at n X k l"
      using arrays_kinds [OF G h b] \<open>kinds A h i j = kinds A h k l\<close> by blast
    then show "cell_at n (colorsNextRows s) i j = cell_at n (colorsNextRows s) k l"
      using round_cells(1) [OF G R b] round_coarse [OF G R h b(1,3) e(1)] round_coarse [OF G R h b(2,4) e(2)]
      by blast
  qed
  ultimately show "graph_arrays n A d (colorsNextRows s) (colorsNextCols s)"
    unfolding graph_arrays_def by blast
qed

text \<open>A round that does not find more colours leaves the coarsest partition.\<close>

lemma card_refine:
  assumes "finite S" "\<And>x y. x \<in> S \<Longrightarrow> y \<in> S \<Longrightarrow> f x = f y \<Longrightarrow> g x = g y" "card (f ` S) \<le> card (g ` S)"
    and "x \<in> S" "y \<in> S" "g x = g y"
  shows "f x = f y"
proof -
  obtain h where h: "\<forall>x \<in> S. h (f x) = g x" using factor_through [of S f g] assms(2) by blast
  then have im: "h ` (f ` S) = g ` S" by (simp add: image_image)
  have "card (g ` S) \<le> card (f ` S)" using assms(1,2) by (rule card_factor)
  then have "card (h ` (f ` S)) = card (f ` S)" using assms(3) unfolding im by (rule le_antisym)
  then have "inj_on h (f ` S)" by (intro eq_card_imp_inj_on finite_imageI assms(1))
  moreover have "h (f x) = h (f y)" using h assms(4-6) by simp
  ultimately show ?thesis using assms(4,5) by (simp add: inj_on_eq_iff)
qed

lemma set_cells: "length xs = n * n \<Longrightarrow> set xs = (\<lambda>(i, j). cell_at n xs i j) ` ({..<n} \<times> {..<n})"
proof (intro set_eqI iffI)
  fix x assume len: "length xs = n * n" and "x \<in> set xs"
  then obtain m where "m < n * n" "xs ! m = x" by (auto simp: in_set_conv_nth)
  moreover from grid_cells [OF this(1)] obtain i j where "i < n" "j < n" "m = i * n + j" by blast
  ultimately show "x \<in> (\<lambda>(i, j). cell_at n xs i j) ` ({..<n} \<times> {..<n})"
    by (auto simp: cell_at_def intro!: image_eqI [where x = "(i, j)"])
next
  fix x assume len: "length xs = n * n" and "x \<in> (\<lambda>(i, j). cell_at n xs i j) ` ({..<n} \<times> {..<n})"
  then obtain i j where "i < n" "j < n" "x = xs ! (i * n + j)" by (auto simp: cell_at_def)
  then show "x \<in> set xs" using len grid_index [of i n j n] by simp
qed

lemma round_stable:
  assumes G: "graph_arrays n A d X Y" and R: "round_of n X Y s"
    and len: "length X = n * n" "length (colorsNextRows s) = n * n"
    and card: "card (set (colorsNextRows s)) \<le> card (set X)"
  shows "coarsest_split n A d (\<lambda>v. vertexRowColors s ! v)"
proof -
  let ?N = "colorsNextRows s"
  have backward: "cells_refine n (cell_at n X) (cell_at n ?N)"
  proof (rule cells_refineI)
    fix i j k l assume b: "i < n" "j < n" "k < n" "l < n" and e: "cell_at n X i j = cell_at n X k l"
    have "case_prod (cell_at n ?N) (i, j) = case_prod (cell_at n ?N) (k, l)"
    proof (rule card_refine [where S = "{..<n} \<times> {..<n}" and g = "case_prod (cell_at n X)"])
      fix x y assume "x \<in> {..<n} \<times> {..<n}" "y \<in> {..<n} \<times> {..<n}"
        and "case_prod (cell_at n ?N) x = case_prod (cell_at n ?N) y"
      then show "case_prod (cell_at n X) x = case_prod (cell_at n X) y"
        using cells_refineD [OF round_arrays(2) [OF G R], of "fst x" "snd x" "fst y" "snd y"]
        by (cases x, cases y) simp
    next
      show "card (case_prod (cell_at n ?N) ` ({..<n} \<times> {..<n})) \<le> card (case_prod (cell_at n X) ` ({..<n} \<times> {..<n}))"
        using card unfolding set_cells [OF len(1)] set_cells [OF len(2)] .
    qed (use b e in simp_all)
    then show "cell_at n ?N i j = cell_at n ?N k l" by simp
  qed
  let ?f = "\<lambda>v. vertexRowColors s ! v"
  have fine: "cells_refine n (cell_at n ?N) (\<lambda>i j. (A i j, ?f j))"
  proof (rule cells_refineI)
    fix i j k l assume b: "i < n" "j < n" "k < n" "l < n" and "cell_at n ?N i j = cell_at n ?N k l"
    then have "cell_at n X i j = cell_at n X k l" "?f j = ?f l" using round_cells(1) [OF G R b] by blast+
    moreover then have "(d i, A i j) = (d k, A k l)" using arrays_graph [OF G b] by blast
    ultimately show "(A i j, ?f j) = (A k l, ?f l)" by simp
  qed
  have "d u = d v \<and> (\<forall>c. card {w. w < n \<and> ?f w = c \<and> A u w} = card {w. w < n \<and> ?f w = c \<and> A v w})"
    if uv: "u < n" "v < n" "?f u = ?f v" for u v
  proof -
    have l: "line_of n (cell_at n X) u = line_of n (cell_at n X) v"
      using uv R same_lines_cells [of n X "vertexRowColors s"] unfolding round_of_def by blast
    obtain j k where "j < n" "k < n" "cell_at n X u j = cell_at n X v k"
      using line_of_meet [OF _ l] uv(1) by auto
    then have "d u = d v" using arrays_graph [OF G uv(1) _ uv(2)] by blast
    moreover have "line_of n (\<lambda>i j. (A i j, ?f j)) u = line_of n (\<lambda>i j. (A i j, ?f j)) v"
      using cells_refine_line [OF cells_refine_trans [OF backward fine] uv(1,2) l] .
    then have "card {w. w < n \<and> (A u w, ?f w) = (True, c)} = card {w. w < n \<and> (A v w, ?f w) = (True, c)}" for c
      using count_line_of [of n "\<lambda>i j. (A i j, ?f j)" u "(True, c)"]
        count_line_of [of n "\<lambda>i j. (A i j, ?f j)" v "(True, c)"] by simp
    then have "card {w. w < n \<and> ?f w = c \<and> A u w} = card {w. w < n \<and> ?f w = c \<and> A v w}" for c
      by (simp add: conj_commute)
    ultimately show ?thesis by blast
  qed
  then have "even_split n A d ?f" unfolding even_split_def by blast
  then show ?thesis using round_coarse [OF G R] unfolding coarsest_split_def by blast
qed

end
