(* ===== verification/WL2_Program.thy ===== *)
theory WL2_Program
  imports WL2_Loop
begin

text \<open>
  The seeded 2-WL program as a whole: loading an undirected graph twice and adding the seed offsets
  establishes the invariant of the loop, every round keeps it, and the loop ends with the coarsest
  equitable partition that respects the seeds.
\<close>

section \<open>The loop ends\<close>

definition loop_state ::
  "nat \<Rightarrow> (nat \<Rightarrow> nat \<Rightarrow> bool) \<Rightarrow> (nat \<Rightarrow> int32) \<Rightarrow> GraphData \<Rightarrow> bool" where
  "loop_state n A d g \<longleftrightarrow>
     twin n g \<and> (\<exists>b \<in> {2, 30}. clear_of b g) \<and>
     graph_arrays n A d (colorsCurrentRows (graph1 g)) (colorsCurrentCols (graph1 g))"

lemma next_state:
  assumes "twin n g" "length (colorsNextRows (graph1 g)) = n * n" "length (colorsNextCols (graph1 g)) = n * n"
    and "\<forall>x \<in> set (colorsNextRows (graph1 g)) \<union> set (colorsNextCols (graph1 g)). \<not> bit x 30"
    and "graph_arrays n A d (colorsNextRows (graph1 g)) (colorsNextCols (graph1 g))"
  shows "loop_state n A d (map_sides clear_side (map_sides swap_side g))"
  using assms
  by (auto simp: loop_state_def twin_def clear_of_def map_sides_def swap_side_def clear_side_def)

lemma card_square: "length xs = n * n \<Longrightarrow> card (set xs) \<le> n * n"
  using card_length [of xs] by simp

lemma refine_loop_ends:
  assumes laws: "table_laws ops" and n: "2 * (n * n) < 2 ^ 30"
    and inv: "loop_state n A d g"
    and cur: "prev < cur" "cur = int (card (set (colorsCurrentRows (graph1 g)))) \<or> cur = 0"
  shows "\<exists>g'. refine_loop ops n g prev cur = Some (True, g') \<and>
    length (vertexRowColors (graph1 g')) = n \<and>
    coarsest_split n A d (\<lambda>v. vertexRowColors (graph1 g') ! v)"
  using inv cur
proof (induction "nat (int (n * n) - cur)" arbitrary: g prev cur rule: less_induct)
  case less
  let ?X = "colorsCurrentRows (graph1 g)" and ?Y = "colorsCurrentCols (graph1 g)"
  have t: "twin n g" and G: "graph_arrays n A d ?X ?Y" using less.prems(1) by (simp_all add: loop_state_def)
  obtain b where b: "b \<in> {2, 30}" "clear_of b g" using less.prems(1) by (auto simp: loop_state_def)
  obtain h where h: "hash1 ops n g =
      Some (\<lparr>matchingGraphs = True, result_maxColor = int (card (set (colorsNextRows (graph1 h))))\<rparr>, h)"
    "twin n h" "length (colorsNextRows (graph1 h)) = n * n" "length (colorsNextCols (graph1 h)) = n * n"
    "\<forall>x \<in> set (colorsNextRows (graph1 h)) \<union> set (colorsNextCols (graph1 h)). \<not> bit x 30"
    "round_of n ?X ?Y (graph1 h)"
    using hash1_twin [OF laws t n b] by blast
  let ?g = "map_sides clear_side (map_sides swap_side h)"
  let ?new = "int (card (set (colorsNextRows (graph1 h))))"
  have same: "graph1 ?g = clear_side (swap_side (graph1 h))" by (simp add: map_sides_def)
  have keep: "vertexRowColors (graph1 ?g) = vertexRowColors (graph1 h)"
    "colorsCurrentRows (graph1 ?g) = colorsNextRows (graph1 h)"
    by (simp_all add: same clear_side_def swap_side_def)
  have run: "refine_loop ops n g prev cur = refine_loop ops n ?g cur ?new"
    using less.prems(2) t h(1)
    by (subst refine_loop.simps) (simp add: twin_def RowCountsMatchForThisPartition_def IsIsomorphic_def GetColorCount_def)
  have next_inv: "loop_state n A d ?g"
    by (rule next_state [OF h(2-5) round_arrays(1) [OF G h(6)]])
  show ?case
  proof (cases "cur < ?new")
    case True
    have "?new \<le> int (n * n)" using card_square [OF h(3)] by (simp only: of_nat_le_iff)
    then have "nat (int (n * n) - ?new) < nat (int (n * n) - cur)" using True by simp
    from less.hyps [OF this next_inv True] show ?thesis using run keep by simp
  next
    case False
    have stop: "refine_loop ops n ?g cur ?new = Some (True, ?g)"
      using False by (subst refine_loop.simps) simp
    have lenX: "length ?X = n * n" using t by (simp add: twin_def)
    have "coarsest_split n A d (\<lambda>v. vertexRowColors (graph1 h) ! v)"
    proof (cases "cur = int (card (set ?X))")
      case True
      then have "card (set (colorsNextRows (graph1 h))) \<le> card (set ?X)" using False by simp
      then show ?thesis by (rule round_stable [OF G h(6) lenX h(3)])
    next
      case neq: False
      then have "card (set (colorsNextRows (graph1 h))) = 0" using less.prems(3) False by simp
      then have "n * n = 0" using h(3) by simp
      then show ?thesis by (simp add: coarsest_split_def even_split_def)
    qed
    moreover have "length (vertexRowColors (graph1 h)) = n" using h(2) by (simp add: twin_def)
    ultimately show ?thesis using run stop keep by simp
  qed
qed

section \<open>Loading\<close>

text \<open>The matrix of a list of entries.\<close>

definition edge :: "(nat \<times> nat) list \<Rightarrow> nat \<Rightarrow> nat \<Rightarrow> bool" where
  "edge entries u v \<longleftrightarrow> (u + 1, v + 1) \<in> set entries"

definition entries_valid :: "nat \<Rightarrow> (nat \<times> nat) list \<Rightarrow> bool" where
  "entries_valid n entries \<longleftrightarrow> (\<forall>(m, k) \<in> set entries. 1 \<le> m \<and> m \<le> n \<and> 1 \<le> k \<and> k \<le> n)"

lemma read_counts_returns:
  assumes "entries_valid n entries"
  shows "\<exists>c. read_matrix_market_into_counts_and_xor n entries = Some c"
proof -
  have "\<exists>c'. count_entry n e c = Some c'" if "e \<in> set entries" for e c
    using assms that by (cases e) (auto simp: entries_valid_def count_entry_def)
  then show ?thesis
    using for_each_invariant [where P = "\<lambda>_. True" and f = "count_entry n" and xs = entries]
    unfolding read_matrix_market_into_counts_and_xor_def by blast
qed

lemma owned_single: "owned 0 1 c x"
  by (simp add: owned_def)

lemma filter_owned: "filter (\<lambda>p. owned 0 1 (f p) (g p)) xs = xs"
  by (simp add: owned_def filter_id_conv)

lemma lower_bound_upt: "r < n \<Longrightarrow> lower_bound [0..<n] r = r"
  unfolding lower_bound_def using takeWhile_sorted_nth [of "[0..<n]" r] by simp

text \<open>Reading the entries into the arrays of rows and of columns.\<close>

lemma set_entry_square:
  assumes "n * n < 2 ^ 31" "r < n" "c < n" "length xs = n * n"
  shows "set_entry n [0..<n] r c xs = Some (xs[r * n + c := 1])"
proof -
  have "r * n \<le> n * n" using assms(2) by simp
  then have "r * n < 2 ^ 31" using assms(1) by linarith
  then show ?thesis
    using assms grid_index [of r n c n] by (simp add: set_entry_def lower_bound_upt int_offset_def)
qed

definition bit_cell :: "bool \<Rightarrow> int32" where
  "bit_cell b = (if b then 1 else 0)"

lemma cell_at_update:
  assumes "length xs = n * n" "r < n" "c < n" "i < n" "j < n"
  shows "cell_at n (xs[r * n + c := x]) i j = (if i = r \<and> j = c then x else cell_at n xs i j)"
proof -
  have "r * n + c = i * n + j \<longleftrightarrow> i = r \<and> j = c"
  proof
    assume e: "r * n + c = i * n + j"
    have "(r * n + c) div n = r" "(i * n + j) div n = i" "(r * n + c) mod n = c" "(i * n + j) mod n = j"
      using assms by simp_all
    then show "i = r \<and> j = c" using e by metis
  qed simp
  then show ?thesis using assms grid_index [of i n j n] by (auto simp: cell_at_def nth_list_update)
qed

definition loaded :: "nat \<Rightarrow> (nat \<times> nat) list \<Rightarrow> side \<Rightarrow> bool" where
  "loaded n entries s \<longleftrightarrow>
     rows s = [0..<n] \<and> cols s = [0..<n] \<and>
     length (colorsCurrentRows s) = n * n \<and> length (colorsCurrentCols s) = n * n \<and>
     length (vertexRowColors s) = n \<and> length (vertexColColors s) = n \<and>
     (\<forall>i<n. \<forall>j<n. cell_at n (colorsCurrentRows s) i j = bit_cell (edge entries i j) \<and>
        cell_at n (colorsCurrentCols s) i j = bit_cell (edge entries j i))"

lemma load_entry:
  assumes n: "n * n < 2 ^ 31" and e: "entries_valid n [(m, k)]" and l: "loaded n es s"
  shows "\<exists>s'. (do {
        rs \<leftarrow> set_entry n (rows s) (m - 1) (k - 1) (colorsCurrentRows s);
        cs \<leftarrow> set_entry n (cols s) (k - 1) (m - 1) (colorsCurrentCols s);
        Some (s\<lparr>colorsCurrentRows := rs, colorsCurrentCols := cs\<rparr>) }) = Some s' \<and> loaded n (es @ [(m, k)]) s'"
proof -
  obtain r c where rc: "m = Suc r" "k = Suc c" using e by (cases m; cases k) (auto simp: entries_valid_def)
  have mk: "r < n" "c < n" using e rc by (auto simp: entries_valid_def)
  have L: "rows s = [0..<n]" "cols s = [0..<n]" "length (colorsCurrentRows s) = n * n"
    "length (colorsCurrentCols s) = n * n" "length (vertexRowColors s) = n" "length (vertexColColors s) = n"
    and L': "\<And>i j. i < n \<Longrightarrow> j < n \<Longrightarrow> cell_at n (colorsCurrentRows s) i j = bit_cell (edge es i j)"
    "\<And>i j. i < n \<Longrightarrow> j < n \<Longrightarrow> cell_at n (colorsCurrentCols s) i j = bit_cell (edge es j i)"
    using l unfolding loaded_def by blast+
  let ?s = "s\<lparr>colorsCurrentRows := (colorsCurrentRows s)[r * n + c := 1],
              colorsCurrentCols := (colorsCurrentCols s)[c * n + r := 1]\<rparr>"
  have new: "bit_cell (edge (es @ [(m, k)]) i j) = (if i = r \<and> j = c then 1 else bit_cell (edge es i j))" for i j
    by (auto simp: bit_cell_def edge_def rc)
  have "loaded n (es @ [(m, k)]) ?s"
    unfolding loaded_def
  proof (intro conjI allI impI)
    fix i j assume ij: "i < n" "j < n"
    show "cell_at n (colorsCurrentRows ?s) i j = bit_cell (edge (es @ [(m, k)]) i j)"
      using L' [OF ij] ij mk by (simp add: cell_at_update [OF L(3)] new)
    show "cell_at n (colorsCurrentCols ?s) i j = bit_cell (edge (es @ [(m, k)]) j i)"
      using L' [OF ij] ij mk by (auto simp: cell_at_update [OF L(4)] new)
  qed (use L in simp_all)
  moreover have "(do {
        rs \<leftarrow> set_entry n (rows s) (m - 1) (k - 1) (colorsCurrentRows s);
        cs \<leftarrow> set_entry n (cols s) (k - 1) (m - 1) (colorsCurrentCols s);
        Some (s\<lparr>colorsCurrentRows := rs, colorsCurrentCols := cs\<rparr>) }) = Some ?s"
    using L mk n by (simp add: set_entry_square rc)
  ultimately show ?thesis by blast
qed

lemma read_partition_loaded:
  assumes n: "n * n < 2 ^ 31" and e: "entries_valid n entries"
    and s: "rows s = [0..<n]" "cols s = [0..<n]" "length (vertexRowColors s) = n" "length (vertexColColors s) = n"
  shows "\<exists>s'. read_matrix_market_into_partition n entries s = Some s' \<and> loaded n entries s'"
proof -
  let ?f = "\<lambda>(m, k) s. do {
        rs \<leftarrow> set_entry n (rows s) (m - 1) (k - 1) (colorsCurrentRows s);
        cs \<leftarrow> set_entry n (cols s) (k - 1) (m - 1) (colorsCurrentCols s);
        Some (s\<lparr>colorsCurrentRows := rs, colorsCurrentCols := cs\<rparr>) }"
  have go: "\<exists>s'. for_each ?f es t = Some s' \<and> loaded n (old @ es) s'"
    if "entries_valid n es" "loaded n old t" for es old t
    using that
  proof (induction es arbitrary: old t)
    case (Cons x es)
    obtain m k where x: "x = (m, k)" by (cases x)
    have "entries_valid n [(m, k)]" "entries_valid n es" using Cons.prems(1) x by (auto simp: entries_valid_def)
    with load_entry [OF n this(1) Cons.prems(2)] obtain t' where
      "?f (m, k) t = Some t'" "loaded n (old @ [(m, k)]) t'" by auto
    then show ?case using Cons.IH [OF \<open>entries_valid n es\<close>, of "old @ [(m, k)]" t'] x by simp
  qed simp
  let ?s = "s\<lparr>colorsCurrentRows := replicate (length (rows s) * n) 0,
              colorsCurrentCols := replicate (length (cols s) * n) 0\<rparr>"
  have "loaded n [] ?s"
    using s grid_index [where k = n and n = n]
    by (auto simp: loaded_def cell_at_def bit_cell_def edge_def)
  from go [OF e this] show ?thesis by (simp add: read_matrix_market_into_partition_def)
qed

section \<open>Adding the seeds\<close>

lemma shift_lines_cells:
  assumes "length xs = n * n"
  shows "length (shift_lines seeds n [0..<n] xs) = n * n \<and>
    (\<forall>i<n. \<forall>j<n. cell_at n (shift_lines seeds n [0..<n] xs) i j = cell_at n xs i j + seed_offset (seeds ! i))"
proof -
  let ?row = "\<lambda>m i. fold (\<lambda>j xs. upd_nth xs (i * n + j) (\<lambda>x. x + seed_offset (seeds ! ([0..<n] ! i)))) [0..<m]"
  have row: "length (?row m i ys) = n * n \<and>
    (\<forall>k<n. \<forall>l<n. cell_at n (?row m i ys) k l =
       (if k = i \<and> l < m then cell_at n ys k l + seed_offset (seeds ! i) else cell_at n ys k l))"
    if "length ys = n * n" "i < n" "m \<le> n" for m i ys
    using that(3)
  proof (induction m)
    case (Suc m)
    have m: "m < n" using Suc.prems by simp
    have IH: "length (?row m i ys) = n * n"
      "\<And>k l. k < n \<Longrightarrow> l < n \<Longrightarrow> cell_at n (?row m i ys) k l =
         (if k = i \<and> l < m then cell_at n ys k l + seed_offset (seeds ! i) else cell_at n ys k l)"
      using Suc by auto
    have "?row m i ys ! (i * n + m) = cell_at n ys i m"
      using IH(2) [OF that(2) m] by (simp add: cell_at_def)
    then have step: "?row (Suc m) i ys = (?row m i ys)[i * n + m := cell_at n ys i m + seed_offset (seeds ! i)]"
      using that(2) by (simp add: upd_nth_def)
    show ?case
      unfolding step using IH that(2) m by (auto simp: cell_at_update less_Suc_eq)
  qed (simp add: that(1))
  have all: "length (fold (\<lambda>i. ?row n i) [0..<m] xs) = n * n \<and>
    (\<forall>k<n. \<forall>l<n. cell_at n (fold (\<lambda>i. ?row n i) [0..<m] xs) k l =
       (if k < m then cell_at n xs k l + seed_offset (seeds ! k) else cell_at n xs k l))"
    if "m \<le> n" for m
    using that
  proof (induction m)
    case (Suc m)
    let ?ys = "fold (\<lambda>i. ?row n i) [0..<m] xs"
    have IH: "length ?ys = n * n"
      "\<And>k l. k < n \<Longrightarrow> l < n \<Longrightarrow> cell_at n ?ys k l =
         (if k < m then cell_at n xs k l + seed_offset (seeds ! k) else cell_at n xs k l)"
      using Suc by auto
    have m: "m < n" using Suc.prems by simp
    show ?case using row [OF IH(1) m order_refl] IH(2) by (auto simp: less_Suc_eq)
  qed (simp add: assms)
  from all [of n] show ?thesis by (simp add: shift_lines_def)
qed

lemma seed_offset_even: "even (seed_offset s)"
  by (simp add: seed_offset_def)

lemma cell_sum_inj:
  assumes "bit_cell a + seed_offset s = bit_cell b + seed_offset t"
  shows "a = b \<and> seed_offset s = seed_offset t"
proof -
  have p: "even (bit_cell c + seed_offset u) \<longleftrightarrow> \<not> c" for c u
    using seed_offset_even [of u] by (simp add: bit_cell_def)
  have "a = b" using p [of a s] p [of b t] assms by simp
  then show ?thesis using assms by simp
qed

lemma cell_sum_bit: "\<not> bit (bit_cell a + seed_offset s) 2"
proof -
  have "bit_cell a + seed_offset s = word_of_int (of_bool a + 4 * (250000 * s))"
    by (simp add: bit_cell_def seed_offset_def wi_hom_add)
  moreover have "\<not> bit (of_bool a + 4 * (250000 * s)) 2"
  proof -
    have "(of_bool a + 4 * (250000 * s)) div 2 ^ 2 = 250000 * s" by (cases a) simp_all
    then show ?thesis by (simp only: bit_iff_odd) simp
  qed
  ultimately show ?thesis by (simp only: bit_word_of_int_iff) simp
qed

text \<open>Different seeds below \<open>2 ^ 26\<close> have different offsets; the offsets of 0 and \<open>2 ^ 26\<close> are equal.\<close>

lemma seed_offset_inj:
  assumes "0 \<le> s" "s < 2 ^ 26" "0 \<le> t" "t < 2 ^ 26" "seed_offset s = seed_offset t"
  shows "s = t"
proof -
  have "(word_of_int (s * 1000000) :: int32) = word_of_int (t * 1000000)"
    using assms(5) unfolding seed_offset_def .
  then have "take_bit 32 (s * 1000000) = take_bit 32 (t * 1000000)"
    unfolding word_of_int_eq_iff by simp
  then have "(2 ^ 32 :: int) dvd s * 1000000 - t * 1000000"
    unfolding take_bit_eq_mod mod_eq_dvd_iff .
  moreover have "s * 1000000 - t * 1000000 = 2 ^ 6 * (15625 * (s - t))" by (simp add: algebra_simps)
  moreover have "(2 ^ 32 :: int) = 2 ^ 6 * 2 ^ 26" by simp
  ultimately have "(2 ^ 6 * 2 ^ 26 :: int) dvd 2 ^ 6 * (15625 * (s - t))" by metis
  then have "(2 ^ 6 :: int) = 0 \<or> (2 ^ 26 :: int) dvd 15625 * (s - t)" by (rule iffD1 [OF dvd_mult_cancel_left])
  then have d: "(2 ^ 26 :: int) dvd 15625 * (s - t)" by (rule disjE) simp
  have "coprime (2 ^ 26 :: int) 15625"
    by (simp only: coprime_power_left_iff coprime_left_2_iff_odd) simp
  then have "(2 ^ 26 :: int) dvd s - t" using d by (rule iffD1 [OF coprime_dvd_mult_right_iff])
  moreover have "\<bar>s - t\<bar> < 2 ^ 26" using assms(1-4) by linarith
  ultimately show ?thesis using zdvd_imp_le [of "2 ^ 26" "\<bar>s - t\<bar>"] by auto
qed

lemma seed_offset_wraps: "seed_offset (2 ^ 26) = seed_offset 0"
  by (simp add: seed_offset_def)

section \<open>The program\<close>

text \<open>The state the loop starts from.\<close>

definition seeded :: "nat \<Rightarrow> (nat \<times> nat) list \<Rightarrow> int list \<Rightarrow> GraphData \<Rightarrow> bool" where
  "seeded n entries seeds g \<longleftrightarrow>
     twin n g \<and>
     (\<forall>i<n. \<forall>j<n.
        cell_at n (colorsCurrentRows (graph1 g)) i j = bit_cell (edge entries i j) + seed_offset (seeds ! i) \<and>
        cell_at n (colorsCurrentCols (graph1 g)) i j = bit_cell (edge entries j i) + seed_offset (seeds ! i))"

lemma load_and_seed:
  assumes "n * n < 2 ^ 31" "entries_valid n entries"
  shows "\<exists>g. initializeFromSparseLinear entries entries n 0 1 = Some g \<and>
    seeded n entries seeds (map_sides clear_side (applySeedOffset g seeds n))"
proof -
  obtain c where c: "read_matrix_market_into_counts_and_xor n entries = Some c"
    using read_counts_returns [OF assms(2)] by blast
  let ?s = "new_side [0..<n] [0..<n] n"
  obtain s where s: "read_matrix_market_into_partition n entries ?s = Some s" "loaded n entries s"
    using read_partition_loaded [OF assms, of ?s] by (auto simp: new_side_def)
  let ?g = "(InitializeGraphMemory ?s ?s)\<lparr>graph1 := s, graph2 := s\<rparr>"
  have init: "initializeFromSparseLinear entries entries n 0 1 = Some ?g"
    using c s(1) by (simp add: initializeFromSparseLinear_def filter_owned [unfolded One_nat_def] InitializeGraphMemory_def Let_def)
  note L = s(2) [unfolded loaded_def]
  have R: "length (shift_lines seeds n [0..<n] (colorsCurrentRows s)) = n * n"
    "\<And>i j. i < n \<Longrightarrow> j < n \<Longrightarrow> cell_at n (shift_lines seeds n [0..<n] (colorsCurrentRows s)) i j =
      bit_cell (edge entries i j) + seed_offset (seeds ! i)"
    using shift_lines_cells [of "colorsCurrentRows s" n seeds] L by auto
  have C: "length (shift_lines seeds n [0..<n] (colorsCurrentCols s)) = n * n"
    "\<And>i j. i < n \<Longrightarrow> j < n \<Longrightarrow> cell_at n (shift_lines seeds n [0..<n] (colorsCurrentCols s)) i j =
      bit_cell (edge entries j i) + seed_offset (seeds ! i)"
    using shift_lines_cells [of "colorsCurrentCols s" n seeds] L by auto
  have L': "rows s = [0..<n]" "cols s = [0..<n]" "length (vertexRowColors s) = n" "length (vertexColColors s) = n"
    using L by blast+
  have "seeded n entries seeds (map_sides clear_side (applySeedOffset ?g seeds n))"
    using R C L'
    by (simp add: seeded_def twin_def map_sides_def clear_side_def applySeedOffset_def shift_side_def
        InitializeGraphMemory_def new_side_def)
  then show ?thesis using init by blast
qed

lemma seeded_state:
  assumes s: "seeded n entries seeds g" and sym: "\<And>u v. u < n \<Longrightarrow> v < n \<Longrightarrow> edge entries u v = edge entries v u"
  shows "loop_state n (edge entries) (\<lambda>v. seed_offset (seeds ! v)) g"
proof -
  let ?X = "colorsCurrentRows (graph1 g)" and ?Y = "colorsCurrentCols (graph1 g)"
  let ?d = "\<lambda>v. seed_offset (seeds ! v)"
  have t: "twin n g" and X: "\<And>i j. i < n \<Longrightarrow> j < n \<Longrightarrow> cell_at n ?X i j = bit_cell (edge entries i j) + ?d i"
    and Y: "\<And>i j. i < n \<Longrightarrow> j < n \<Longrightarrow> cell_at n ?Y i j = bit_cell (edge entries i j) + ?d i"
    using s sym unfolding seeded_def by auto
  have len: "length ?X = n * n" "length ?Y = n * n" using t by (simp_all add: twin_def)
  have "\<not> bit x 2" if "x \<in> set ?X \<union> set ?Y" for x
  proof -
    have "\<exists>i<n. \<exists>j<n. x = cell_at n ?X i j \<or> x = cell_at n ?Y i j"
      using that unfolding set_cells [OF len(1)] set_cells [OF len(2)] by auto
    then show ?thesis using X Y cell_sum_bit by auto
  qed
  then have "clear_of 2 g" by (simp add: clear_of_def)
  moreover have "graph_arrays n (edge entries) ?d ?X ?Y"
    unfolding graph_arrays_def
  proof (intro conjI allI impI; rule cells_refineI)
    fix i j k l assume b: "i < n" "j < n" "k < n" "l < n" and e: "cell_at n ?X i j = cell_at n ?X k l"
    then show "(?d i, edge entries i j) = (?d k, edge entries k l)" "cell_at n ?Y i j = cell_at n ?Y k l"
      using X Y cell_sum_inj by auto
  next
    fix i j k l assume b: "i < n" "j < n" "k < n" "l < n" and e: "cell_at n ?Y i j = cell_at n ?Y k l"
    then show "cell_at n ?X i j = cell_at n ?X k l" using X Y by auto
  next
    fix h i j k l assume h: "even_split n (edge entries) ?d h" and b: "i < n" "j < n" "k < n" "l < n"
      and e: "kinds (edge entries) h i j = kinds (edge entries) h k l"
    have "?d i = ?d k" "edge entries i j = edge entries k l"
      using h b e unfolding even_split_def kinds_def by blast+
    then show "cell_at n ?X i j = cell_at n ?X k l" using X b by simp
  qed
  ultimately show ?thesis using t by (auto simp: loop_state_def)
qed

lemma TwoWL_coarsest:
  assumes "table_laws ops" "2 * (n * n) < 2 ^ 30" "entries_valid n entries"
    and "\<And>u v. u < n \<Longrightarrow> v < n \<Longrightarrow> edge entries u v = edge entries v u"
  shows "\<exists>cols. TwoWL ops entries entries n (Some seeds) = Some (True, map (\<lambda>v. (v, cols v)) [0..<n]) \<and>
    coarsest_split n (edge entries) (\<lambda>v. seed_offset (seeds ! v)) cols"
proof -
  have n: "n * n < 2 ^ 31" using assms(2) by simp
  obtain g where g: "initializeFromSparseLinear entries entries n 0 1 = Some g"
    "seeded n entries seeds (map_sides clear_side (applySeedOffset g seeds n))"
    using load_and_seed [OF n assms(3)] by blast
  let ?g = "map_sides clear_side (applySeedOffset g seeds n)"
  obtain g' where g': "refine_loop ops n ?g (-2) 0 = Some (True, g')"
    "coarsest_split n (edge entries) (\<lambda>v. seed_offset (seeds ! v)) (\<lambda>v. vertexRowColors (graph1 g') ! v)"
    using refine_loop_ends [OF assms(1,2) seeded_state [OF g(2) assms(4)], of "-2" 0] by auto
  have "TwoWL ops entries entries n (Some seeds) =
      Some (True, map (\<lambda>v. (v, vertexRowColors (graph1 g') ! v)) [0..<n])"
    using g(1) g'(1) by (simp add: TwoWL_def GetColorCount_def Let_def)
  then show ?thesis using g'(2) by (intro exI [of _ "\<lambda>v. vertexRowColors (graph1 g') ! v"]) simp
qed

end
