(* ===== verification/WL2_Claims.thy ===== *)
theory WL2_Claims
  imports WL2_Program WL1_Correct "HOL-Library.AList"
begin

text \<open>
  The properties of the seeded 2-WL program: its sorting, its row colours, and the partition it
  computes, which is the one of the native 1-WL refinement. An association list serves as the hash
  table of the witness.
\<close>

section \<open>The two refinements on one graph\<close>

text \<open>A CSR pair and a list of matrix entries that describe the same undirected graph.\<close>

definition same_graph :: "nat \<Rightarrow> nat list \<Rightarrow> nat list \<Rightarrow> (nat \<times> nat) list \<Rightarrow> bool" where
  "same_graph n offsets neighbors entries \<longleftrightarrow>
     (\<forall>u<n. \<forall>v<n. edge entries u v = edge entries v u \<and>
        count_list (nbrs offsets neighbors u) v = (if edge entries u v then 1 else 0))"

lemma deg_card:
  assumes "same_graph n off nb entries" "u < n"
  shows "deg off nb {w. w < n \<and> h w = c} u = card {w. w < n \<and> h w = c \<and> edge entries u w}"
proof -
  have "deg off nb {w. w < n \<and> h w = c} u = (\<Sum>w | w < n \<and> h w = c. if edge entries u w then 1 else 0)"
    unfolding deg_def by (rule sum.cong) (use assms in \<open>auto simp: same_graph_def\<close>)
  also have "\<dots> = card ({w. w < n \<and> h w = c} \<inter> {w. edge entries u w})"
    by (simp add: sum.If_cases)
  also have "{w. w < n \<and> h w = c} \<inter> {w. edge entries u w} = {w. w < n \<and> h w = c \<and> edge entries u w}"
    by auto
  finally show ?thesis .
qed

lemma even_split_equitable:
  assumes "same_graph n off nb entries"
  shows "even_split n (edge entries) d h \<longleftrightarrow>
    equitable off nb n h \<and> (\<forall>u<n. \<forall>v<n. h u = h v \<longrightarrow> d u = d v)"
proof -
  have "(\<forall>c. deg off nb {w. w < n \<and> h w = c} u = deg off nb {w. w < n \<and> h w = c} v) \<longleftrightarrow>
      (\<forall>c. card {w. w < n \<and> h w = c \<and> edge entries u w} = card {w. w < n \<and> h w = c \<and> edge entries v w})"
    if "u < n" "v < n" for u v
    by (simp only: deg_card [OF assms that(1)] deg_card [OF assms that(2)])
  then show ?thesis unfolding even_split_def equitable_def by blast
qed

lemma TwoWL_run1WL:
  assumes "table_laws ops" "2 * (n * n) < 2 ^ 30" "entries_valid n entries"
    and csr: "csr_ok offsets neighbors n" and g: "same_graph n offsets neighbors entries"
    and seeds: "length seeds = n" "\<forall>s \<in> set seeds. 0 \<le> s \<and> s < 2 ^ 26"
  shows "\<exists>cols res. TwoWL ops entries entries n (Some seeds) = Some (True, map (\<lambda>v. (v, cols v)) [0..<n]) \<and>
    run1WL offsets neighbors n seeds = Some res \<and>
    (\<forall>u<n. \<forall>v<n. cols u = cols v \<longleftrightarrow> res ! u = res ! v)"
proof -
  let ?d = "\<lambda>v. seed_offset (seeds ! v)"
  have sym: "edge entries u v = edge entries v u" if "u < n" "v < n" for u v
    using g that unfolding same_graph_def by blast
  obtain cols where two: "TwoWL ops entries entries n (Some seeds) = Some (True, map (\<lambda>v. (v, cols v)) [0..<n])"
    and C: "coarsest_split n (edge entries) ?d cols"
    using TwoWL_coarsest [OF assms(1-3) sym] by blast
  have seed_eq: "?d u = ?d v \<longleftrightarrow> seeds ! u = seeds ! v" if "u < n" "v < n" for u v
    using seed_offset_inj [of "seeds ! u" "seeds ! v"] seeds that by (auto simp: all_set_conv_all_nth)
  obtain res where one: "run1WL offsets neighbors n seeds = Some res"
    using run1WL_returns [OF csr] seeds(1) by blast
  have len: "seeds = [] \<or> length seeds = n" using seeds by simp
  have stable: "equitable offsets neighbors n (\<lambda>v. res ! v)"
    "\<forall>u<n. \<forall>v<n. res ! u = res ! v \<longrightarrow> seeds = [] \<or> seeds ! u = seeds ! v"
    using run1WL_stable [OF csr len one] by blast+
  have "even_split n (edge entries) ?d (\<lambda>v. res ! v)"
    unfolding even_split_equitable [OF g] using stable seed_eq seeds(1) by (metis list.size(3) not_less0)
  then have down: "cols u = cols v" if "u < n" "v < n" "res ! u = res ! v" for u v
    using C that unfolding coarsest_split_def by blast
  have "even_split n (edge entries) ?d cols" using C unfolding coarsest_split_def by blast
  then have "equitable offsets neighbors n cols" "\<forall>u<n. \<forall>v<n. cols u = cols v \<longrightarrow> ?d u = ?d v"
    unfolding even_split_equitable [OF g] by blast+
  then have up: "\<forall>u<n. \<forall>v<n. cols u = cols v \<longrightarrow> res ! u = res ! v"
    using seed_eq by (intro run1WL_coarser [OF csr len one]) blast+
  show ?thesis using two one down up by blast
qed

section \<open>An association list as the table\<close>

definition alist_table :: "(string \<times> nat) list table_ops" where
  "alist_table = \<lparr>table_new = [], table_find = map_of, table_put = (\<lambda>m k v. (k, v) # m),
     table_pairs = AList.clearjunk\<rparr>"

lemma alist_table_laws: "table_laws alist_table"
  by (auto simp: table_laws_def alist_table_def distinct_clearjunk map_of_clearjunk)

text \<open>The path on four vertices as a matrix file.\<close>

definition path_entries :: "(nat \<times> nat) list" where
  "path_entries = [(1, 2), (2, 1), (2, 3), (3, 2), (3, 4), (4, 3)]"

lemma path_entries_valid: "entries_valid 4 path_entries"
  by (simp add: entries_valid_def path_entries_def)

lemma path_same_graph: "same_graph 4 [0, 1, 3, 5, 6] [1, 0, 2, 1, 3, 2] path_entries"
proof -
  have "\<forall>u \<in> set [0..<4]. \<forall>v \<in> set [0..<4]. edge path_entries u v = edge path_entries v u \<and>
      count_list (nbrs [0, 1, 3, 5, 6] [1, 0, 2, 1, 3, 2] u) v = (if edge path_entries u v then 1 else 0)"
    by code_simp
  then show ?thesis unfolding same_graph_def by simp
qed

section \<open>Properties\<close>

text \<open>
  C38. The quicksort of the program: on a range inside an array it returns without leaving the
  range, the result is a permutation, the cells outside the range are unchanged, and the cells of
  the range are sorted. This covers ranges of one cell and of none, and any order given by a number
  of the elements, with equal elements.
\<close>

theorem quicksort_correct:
  assumes "0 \<le> l" "r < int (length a)"
  shows "\<exists>b. quicksort key a l r = Some b \<and> mset b = mset a \<and>
    (\<forall>k. 0 \<le> k \<and> k \<notin> {l..r} \<longrightarrow> b ! nat k = a ! nat k) \<and>
    (\<forall>x y. l \<le> x \<and> x \<le> y \<and> y \<le> r \<longrightarrow> key (b ! nat x) \<le> key (b ! nat y))"
proof -
  obtain b where b: "quicksort key a l r = Some b" "permuted l r a b" "sorted_cells key b l r"
    using quicksort_sorts [OF assms] by blast
  have "b ! nat k = a ! nat k" if "0 \<le> k" "k \<notin> {l..r}" for k
    using permuted_outside [OF b(2) assms that] by (simp add: cell_def)
  then show ?thesis
    using b permuted_mset [OF b(2) assms] by (simp add: sorted_cells_def cell_def)
qed

theorem quicksort_correct_witness:
  "\<exists>b. quicksort id [3, 1, 3, 2 :: int] 0 3 = Some b \<and> mset b = {#1, 2, 3, 3#} \<and> b ! 0 \<le> b ! 1"
proof -
  obtain b where b: "quicksort id [3, 1, 3, 2 :: int] 0 3 = Some b" "mset b = mset [3, 1, 3, 2]"
    "\<forall>x y. 0 \<le> x \<and> x \<le> y \<and> y \<le> 3 \<longrightarrow> id (b ! nat x) \<le> id (b ! nat y)"
    using quicksort_correct [of 0 3 "[3, 1, 3, 2 :: int]" id] by auto
  from b(3) [rule_format, of 0 1] have "b ! 0 \<le> b ! 1" by simp
  then show ?thesis using b(1,2) by (intro exI [of _ b]) simp
qed

text \<open>
  C39. \<open>GetRowColors\<close> decides equality of rows: for two arrays of rows of the stated sizes, any
  number of threads, and rows none of which hashes to \<open>-1\<close>, it returns a place and a colour
  for every row, and two rows have the same colour exactly when all their cells are equal. The
  hashing, the bins, the preprocessing of large bins and the distribution to threads are only an
  optimisation of this comparison.
\<close>

theorem GetRowColors_equal_rows:
  assumes "rows_valid rs" "1 \<le> nthreads" "length colors = rows_total rs" "length loc = rows_total rs"
    and "\<forall>x<rows_total rs. content_hash (row_content rs x) \<noteq> -1"
  shows "\<exists>cols locs. GetRowColors rs nthreads colors loc = Some (cols, locs) \<and>
    length cols = rows_total rs \<and>
    (\<forall>x<rows_total rs. locs ! x < rows_total rs) \<and>
    (\<forall>x<rows_total rs. \<forall>y<rows_total rs.
      cols ! (locs ! x) = cols ! (locs ! y) \<longleftrightarrow> row_content rs x = row_content rs y)"
  using GetRowColors_contents [OF assms(1-4)] assms(5) by blast

definition three_rows :: row_arrays where
  "three_rows = \<lparr>colors1 = [1, 2, 1, 3], colors2 = [1, 2], colors1Size = 2, colors2Size = 1, vertexCount = 2\<rparr>"

theorem GetRowColors_equal_rows_witness:
  "\<exists>cols locs. GetRowColors three_rows 2 [0, 0, 0] [0, 0, 0] = Some (cols, locs) \<and>
    cols ! (locs ! 0) = cols ! (locs ! 2) \<and> cols ! (locs ! 0) \<noteq> cols ! (locs ! 1)"
proof -
  have tot: "rows_total three_rows = 3" by (simp add: three_rows_def rows_total_def)
  have c: "row_content three_rows 0 = [1, 2]" "row_content three_rows 1 = [1, 3]" "row_content three_rows 2 = [1, 2]"
    by (simp_all add: three_rows_def row_content_def)
  have "\<exists>cols locs. GetRowColors three_rows 2 [0, 0, 0] [0, 0, 0] = Some (cols, locs) \<and>
    length cols = rows_total three_rows \<and>
    (\<forall>x<rows_total three_rows. locs ! x < rows_total three_rows) \<and>
    (\<forall>x<rows_total three_rows. \<forall>y<rows_total three_rows.
      cols ! (locs ! x) = cols ! (locs ! y) \<longleftrightarrow> row_content three_rows x = row_content three_rows y)"
  proof (rule GetRowColors_equal_rows)
    show "rows_valid three_rows" by (simp add: three_rows_def rows_valid_def)
    show "\<forall>x<rows_total three_rows. content_hash (row_content three_rows x) \<noteq> -1"
    proof (intro allI impI)
      fix x assume "x < rows_total three_rows"
      then have "x = 0 \<or> x = 1 \<or> x = 2" unfolding tot by linarith
      then have "set (row_content three_rows x) \<subseteq> {1, 2, 3}" using c by auto
      moreover have "\<not> bit (y :: int32) 2" if "y \<in> {1, 2, 3}" for y using that by auto
      ultimately show "content_hash (row_content three_rows x) \<noteq> -1"
        by (intro content_hash_clear [of 2]) auto
    qed
  qed (simp_all add: tot)
  then obtain cols locs where g: "GetRowColors three_rows 2 [0, 0, 0] [0, 0, 0] = Some (cols, locs)"
    and e: "\<And>x y. x < 3 \<Longrightarrow> y < 3 \<Longrightarrow>
      cols ! (locs ! x) = cols ! (locs ! y) \<longleftrightarrow> row_content three_rows x = row_content three_rows y"
    unfolding tot by blast
  from e [of 0 2] e [of 0 1] have "cols ! (locs ! 0) = cols ! (locs ! 2)" "cols ! (locs ! 0) \<noteq> cols ! (locs ! 1)"
    using c by simp_all
  then show ?thesis using g by blast
qed

text \<open>
  C40. The seeded 2-WL program computes the partition of the native 1-WL refinement. For an
  undirected graph with \<open>2 n\<^sup>2 < 2\<^sup>3\<^sup>0\<close> and seeds from 0 to \<open>2\<^sup>2\<^sup>6 - 1\<close>, the program returns, the
  comparison of the graph with itself never reports a mismatch, \<open>run1WL\<close> started from the same
  seeds returns, and two vertices have the same colour in the one result exactly when they have
  in the other. The hash table may be any that keeps the promises of a map.
\<close>

theorem two_wl_is_one_wl:
  assumes "table_laws ops" "2 * (n * n) < 2 ^ 30" "entries_valid n entries"
    and "csr_ok offsets neighbors n" "same_graph n offsets neighbors entries"
    and "length seeds = n" "\<forall>s \<in> set seeds. 0 \<le> s \<and> s < 2 ^ 26"
  shows "\<exists>cols res. TwoWL ops entries entries n (Some seeds) = Some (True, map (\<lambda>v. (v, cols v)) [0..<n]) \<and>
    run1WL offsets neighbors n seeds = Some res \<and>
    (\<forall>u<n. \<forall>v<n. cols u = cols v \<longleftrightarrow> res ! u = res ! v)"
  using assms by (rule TwoWL_run1WL)

theorem two_wl_is_one_wl_witness:
  "\<exists>cols res. TwoWL alist_table path_entries path_entries 4 (Some [0, 0, 0, 1]) =
      Some (True, map (\<lambda>v. (v, cols v)) [0..<4]) \<and>
    run1WL [0, 1, 3, 5, 6] [1, 0, 2, 1, 3, 2] 4 [0, 0, 0, 1] = Some res \<and>
    (cols 0 = cols 3 \<longleftrightarrow> res ! 0 = res ! 3)"
proof -
  have "\<exists>cols res. TwoWL alist_table path_entries path_entries 4 (Some [0, 0, 0, 1]) =
      Some (True, map (\<lambda>v. (v, cols v)) [0..<4]) \<and>
    run1WL [0, 1, 3, 5, 6] [1, 0, 2, 1, 3, 2] 4 [0, 0, 0, 1] = Some res \<and>
    (\<forall>u<4. \<forall>v<4. cols u = cols v \<longleftrightarrow> res ! u = res ! v)"
    by (rule two_wl_is_one_wl [OF alist_table_laws _ path_entries_valid csr_path path_same_graph]) simp_all
  then obtain cols res where "TwoWL alist_table path_entries path_entries 4 (Some [0, 0, 0, 1]) =
      Some (True, map (\<lambda>v. (v, cols v)) [0..<4])"
    "run1WL [0, 1, 3, 5, 6] [1, 0, 2, 1, 3, 2] 4 [0, 0, 0, 1] = Some res"
    "\<And>u v. u < 4 \<Longrightarrow> v < 4 \<Longrightarrow> cols u = cols v \<longleftrightarrow> res ! u = res ! v" by blast
  then show ?thesis by (intro exI [of _ cols] exI [of _ res]) simp
qed

end
