(* ===== verification/Lrat_Complete.thy ===== *)
theory Lrat_Complete
  imports Lrat_Props
begin

text \<open>
  What the LRAT checker accepts for sure: a clause with a resolution chain, each clause of which
  is a unit under the negated literals and the units before, and is used by a clause behind it.
\<close>

section \<open>Resolution chains\<close>

text \<open>A step of a chain: the id of a clause, its literals, and its unit. The last clause is \<open>D\<close>.\<close>

type_synonym chain_step = "int \<times> int list \<times> int"

fun unit_steps :: "int set \<Rightarrow> chain_step list \<Rightarrow> int list \<Rightarrow> bool" where
  "unit_steps A [] D \<longleftrightarrow> (\<forall>lit \<in> set D. - lit \<in> A)"
| "unit_steps A ((cid, c, u) # xs) D \<longleftrightarrow>
     u \<in> set c \<and> u \<notin> A \<and> (\<forall>lit \<in> set c. lit \<noteq> u \<longrightarrow> - lit \<in> A) \<and> unit_steps (insert u A) xs D"

fun resolvent :: "chain_step list \<Rightarrow> int list \<Rightarrow> int set" where
  "resolvent [] D = set D"
| "resolvent ((cid, c, u) # xs) D = (resolvent xs D - {- u}) \<union> (set c - {u})"

fun steps_used :: "chain_step list \<Rightarrow> int list \<Rightarrow> bool" where
  "steps_used [] D \<longleftrightarrow> True"
| "steps_used ((cid, c, u) # xs) D \<longleftrightarrow> - u \<in> resolvent xs D \<and> steps_used xs D"

abbreviation step_units :: "chain_step list \<Rightarrow> int set" where
  "step_units xs \<equiv> (\<lambda>x. snd (snd x)) ` set xs"

abbreviation chain_ids :: "chain_step list \<Rightarrow> int list" where
  "chain_ids xs \<equiv> map fst xs"

definition consistent :: "int set \<Rightarrow> bool" where
  "consistent T \<longleftrightarrow> (\<forall>lit \<in> T. lit \<noteq> 0 \<and> - lit \<notin> T)"

lemma consistentD: "consistent T \<Longrightarrow> lit \<in> T \<Longrightarrow> lit \<noteq> 0 \<and> - lit \<notin> T"
  by (simp add: consistent_def)

lemma resolvent_false: "unit_steps A xs D \<Longrightarrow> resolvent xs D \<subseteq> uminus ` A"
proof (induction xs arbitrary: A)
  case Nil
  then show ?case by (auto simp: image_iff) (metis minus_minus)
next
  case (Cons x xs)
  obtain cid c u where x: "x = (cid, c, u)" by (cases x)
  have "resolvent xs D \<subseteq> uminus ` insert u A" using Cons.IH [of "insert u A"] Cons.prems by (simp add: x)
  moreover have "set c - {u} \<subseteq> uminus ` A" using Cons.prems by (force simp: x image_iff)
  ultimately show ?case by (auto simp: x)
qed

section \<open>Unit propagation succeeds\<close>

lemma scan_unit_finds:
  assumes "\<forall>lit \<in> set lits. lit \<noteq> u \<longrightarrow> A ! l2u (- lit)" "\<not> A ! l2u (- u)" "r = 0 \<or> r = u"
  shows "scan_unit A lits r = (if u \<in> set lits then u else r)"
  using assms by (induction lits arbitrary: r) auto

lemma scan_unit_false: "\<forall>lit \<in> set lits. A ! l2u (- lit) \<Longrightarrow> scan_unit A lits r = r"
  by (induction lits) simp_all

text \<open>The clause of a step is found in the table.\<close>

definition present :: "lrat \<Rightarrow> int \<Rightarrow> int list \<Rightarrow> bool" where
  "present s cid c \<longleftrightarrow> (\<exists>d. lookup cid s = Some d \<and> lc_literals d = c \<and>
     (lc_tautological d \<longrightarrow> (\<exists>lit \<in> set c. - lit \<in> set c)))"

lemma present_cong: "clauses s = clauses t \<Longrightarrow> nonces s = nonces t \<Longrightarrow> present s cid c = present t cid c"
  unfolding present_def by (simp only: lookup_cong [of s t cid])

lemma present_in_range:
  assumes "present s cid c" "sized s" "lit \<in> set c"
  shows "lit_in (size_vars s) lit"
proof -
  have "c \<in> formula s" using assms(1) lookup_formula by (auto simp: present_def)
  then show ?thesis using assms(2,3) by (auto simp: sized_def)
qed

lemma check_chain_accepts:
  assumes "unit_steps (flagged (checked_lits s)) xs D" "consistent T"
    and "flagged (checked_lits s) \<union> step_units xs \<subseteq> T"
    and "\<forall>(cid, c, u) \<in> set xs. present s cid c" "present s did D"
    and "distinct (chain_ids xs @ [did])" "set (chain_ids xs @ [did]) \<inter> set used = {}"
    and "sized s" "\<forall>lit \<in> T. lit \<noteq> INT_MIN"
  shows "fst (check_chain (chain_ids xs @ [did]) used s)"
  using assms
proof (induction xs arbitrary: s used)
  case Nil
  let ?A = "checked_lits s"
  obtain d where d: "lookup did s = Some d" "lc_literals d = D"
    "lc_tautological d \<longrightarrow> (\<exists>lit \<in> set D. - lit \<in> set D)"
    using Nil.prems(5) by (auto simp: present_def)
  have len: "length ?A = 2 * size_vars s" using Nil.prems(8) by (simp add: sized_def)
  have r: "lit_in (size_vars s) lit" if "lit \<in> set D" for lit using present_in_range Nil.prems(5,8) that by blast
  have neg: "- lit \<in> flagged ?A" if "lit \<in> set D" for lit using Nil.prems(1) that by simp
  have "\<not> lc_tautological d"
    using d(3) neg Nil.prems(3) consistentD [OF Nil.prems(2)] by fastforce
  moreover have "\<forall>lit \<in> set D. ?A ! l2u (- lit)"
    using neg flag_iff [OF _ len] r by simp
  then have "scan_unit ?A D 0 = 0" by (rule scan_unit_false)
  ultimately show ?case using d(1,2) Nil.prems(7) by (simp add: find_eq INT_MIN_def)
next
  case (Cons x xs)
  obtain cid c u where x: "x = (cid, c, u)" by (cases x)
  let ?A = "checked_lits s"
  let ?t = "s\<lparr>last_hash := hash_of s cid, checked_lits := ?A[l2u u := True]\<rparr>"
  obtain d where d: "lookup cid s = Some d" "lc_literals d = c"
    "lc_tautological d \<longrightarrow> (\<exists>lit \<in> set c. - lit \<in> set c)"
    using Cons.prems(4) by (auto simp: present_def x)
  have p: "present s cid c" using Cons.prems(4) by (simp add: x)
  have len: "length ?A = 2 * size_vars s" using Cons.prems(8) by (simp add: sized_def)
  have r: "lit_in (size_vars s) lit" if "lit \<in> set c" for lit using present_in_range [OF p Cons.prems(8) that] .
  have u: "u \<in> set c" "u \<notin> flagged ?A" "u \<in> T" and other: "\<And>lit. lit \<in> set c \<Longrightarrow> lit \<noteq> u \<Longrightarrow> - lit \<in> flagged ?A"
    using Cons.prems(1,3) by (auto simp: x)
  have nu: "- u \<notin> flagged ?A" "u \<noteq> 0" using u(3) Cons.prems(3) consistentD [OF Cons.prems(2)] by (blast, metis)
  have "\<not> (lit \<in> set c \<and> - lit \<in> set c)" for lit
  proof
    assume l: "lit \<in> set c \<and> - lit \<in> set c"
    show False
    proof (cases "lit = u \<or> - lit = u")
      case True
      then have "- u \<in> set c" "- u \<noteq> u" using l nu(2) by auto
      then have "- (- u) \<in> flagged ?A" using other by blast
      then show False using u(2) by simp
    next
      case False
      then have "- lit \<in> T" "- (- lit) \<in> T" using l other Cons.prems(3) by blast+
      then show False using consistentD [OF Cons.prems(2)] by blast
    qed
  qed
  then have nt: "\<not> lc_tautological d" using d(3) by blast
  have "\<forall>lit \<in> set c. lit \<noteq> u \<longrightarrow> ?A ! l2u (- lit)" "\<not> ?A ! l2u (- u)"
    using other nu(1) r u(1) flag_iff [OF _ len] by simp_all
  then have su: "scan_unit ?A c 0 = u" using scan_unit_finds [of c u ?A 0] u(1) by simp
  have um: "u \<noteq> INT_MIN" using Cons.prems(9) u(3) by blast
  have nused: "cid \<notin> set used" using Cons.prems(7) by (simp add: x)
  have "check_chain (chain_ids (x # xs) @ [did]) used s = check_chain (chain_ids xs @ [did]) (cid # used) ?t"
    using d(1,2) nt nused su um nu(2) by (simp add: x find_eq Let_def)
  moreover have fl: "flagged (checked_lits ?t) = insert u (flagged ?A)"
    using flagged_True [OF r [OF u(1)] len] by simp
  moreover have pc: "present ?t i k = present s i k" for i k by (rule present_cong) simp_all
  moreover have "fst (check_chain (chain_ids xs @ [did]) (cid # used) ?t)"
  proof (rule Cons.IH)
    show "unit_steps (flagged (checked_lits ?t)) xs D" unfolding fl using Cons.prems(1) by (simp add: x)
    show "flagged (checked_lits ?t) \<union> step_units xs \<subseteq> T" unfolding fl using Cons.prems(3) by (simp add: x)
    show "\<forall>(cid, c, u) \<in> set xs. present ?t cid c" "present ?t did D"
      using Cons.prems(4,5) pc by (auto simp: x)
    show "distinct (chain_ids xs @ [did])" "set (chain_ids xs @ [did]) \<inter> set (cid # used) = {}"
      using Cons.prems(6,7) by (auto simp: x)
    show "sized ?t" using Cons.prems(8) by (simp add: sized_def formula_def db_def)
  qed (rule Cons.prems(2), rule Cons.prems(9))
  ultimately show ?case by simp
qed

section \<open>The resolution check succeeds\<close>

lemma resolve_lits:
  assumes "length A = 2 * n" "\<forall>lit \<in> set c. lit_in n lit" "distinct c" "u \<in> set c \<Longrightarrow> - u \<in> flagged A"
    and "\<forall>lit \<in> set c. lit \<noteq> u \<longrightarrow> - lit \<notin> flagged A \<and> - lit \<notin> set c"
  shows "flagged (fold resolve_lit c A) = (if u \<in> set c then flagged A - {- u} else flagged A) \<union> (set c - {u}) \<and>
    length (fold resolve_lit c A) = 2 * n"
  using assms
proof (induction c arbitrary: A)
  case (Cons x c)
  let ?A = "resolve_lit x A"
  have x: "lit_in n x" "lit_in n (- x)" "x \<noteq> 0" using Cons.prems(2) by (auto simp: lit_in_def)
  have xx: "x \<notin> set c" using Cons.prems(3) by simp
  have fx: "flagged ?A = (if x = u then flagged A - {- u} else insert x (flagged A))" "length ?A = 2 * n"
    using Cons.prems(1,4,5) x flag_iff [OF x(2) Cons.prems(1)]
    by (auto simp: resolve_lit_def flagged_True flagged_False)
  have "u \<in> set c \<Longrightarrow> - u \<in> flagged ?A" using Cons.prems(3,4) fx(1) by auto
  moreover have "\<forall>lit \<in> set c. lit \<noteq> u \<longrightarrow> - lit \<notin> flagged ?A \<and> - lit \<notin> set c"
    using Cons.prems(5) fx(1) by auto
  ultimately have "flagged (fold resolve_lit c ?A) =
      (if u \<in> set c then flagged ?A - {- u} else flagged ?A) \<union> (set c - {u}) \<and> length (fold resolve_lit c ?A) = 2 * n"
    using Cons.IH [of ?A] Cons.prems(2,3) fx(2) by simp
  moreover have "x \<noteq> - u" if "u \<in> set c" using Cons.prems(5) that x(3) by force
  ultimately show ?case using fx(1) xx by auto
qed simp

lemma resolve_chain_append:
  "resolve_chain (ids @ jds) A s = and_then (resolve_chain ids A s) (\<lambda>(A, s). resolve_chain jds A s)"
  by (induction ids arbitrary: A s) (auto simp: find_eq split: option.splits)

lemma resolve_chain_accepts:
  assumes "unit_steps B xs D" "steps_used xs D" "consistent T" "B \<union> step_units xs \<subseteq> T"
    and "\<forall>(cid, c, u) \<in> set xs. present s cid c \<and> distinct c" "sized s"
    and "flagged A = set D" "length A = 2 * size_vars s"
  shows "\<exists>E h. resolve_chain (rev (chain_ids xs)) A s = Inr (E, s\<lparr>last_hash := h\<rparr>) \<and>
    flagged E = resolvent xs D \<and> length E = 2 * size_vars s"
  using assms
proof (induction xs arbitrary: B)
  case Nil
  then show ?case by (intro exI [of _ A] exI [of _ "last_hash s"]) simp
next
  case (Cons x xs)
  obtain cid c u where x: "x = (cid, c, u)" by (cases x)
  obtain E h where E: "resolve_chain (rev (chain_ids xs)) A s = Inr (E, s\<lparr>last_hash := h\<rparr>)"
    "flagged E = resolvent xs D" "length E = 2 * size_vars s"
    using Cons.IH [of "insert u B"] Cons.prems by (auto simp: x)
  have p: "present s cid c" "distinct c" using Cons.prems(5) by (simp_all add: x)
  obtain d where d: "lookup cid s = Some d" "lc_literals d = c" using p(1) by (auto simp: present_def)
  let ?s = "s\<lparr>last_hash := h\<rparr>"
  have lk: "lookup cid ?s = Some d" using lookup_cong [of ?s s cid] d(1) by simp
  have rng: "\<forall>lit \<in> set c. lit_in (size_vars s) lit" using present_in_range [OF p(1) Cons.prems(6)] by blast
  have us: "unit_steps (insert u B) xs D" and other: "\<And>lit. lit \<in> set c \<Longrightarrow> lit \<noteq> u \<Longrightarrow> - lit \<in> B"
    and uc: "u \<in> set c" "u \<notin> B" "u \<in> T" and used: "- u \<in> resolvent xs D"
    using Cons.prems(1,2,4) by (auto simp: x)
  have false: "- lit \<in> T" if "lit \<in> resolvent xs D" for lit
  proof -
    have "lit \<in> uminus ` insert u B" using resolvent_false [OF us] that by blast
    then show ?thesis using Cons.prems(4) uc(3) by auto
  qed
  have "- lit \<notin> flagged E \<and> - lit \<notin> set c" if l: "lit \<in> set c" "lit \<noteq> u" for lit
  proof
    have t: "- lit \<in> T" using other [OF l] Cons.prems(4) by auto
    show "- lit \<notin> flagged E"
      using false [of "- lit"] consistentD [OF Cons.prems(3) t] E(2) consistentD [OF Cons.prems(3)] by auto
    show "- lit \<notin> set c"
    proof
      assume m: "- lit \<in> set c"
      show False
      proof (cases "- lit = u")
        case True
        then show False using other [OF l] uc(2) by simp
      next
        case False
        then have "- (- lit) \<in> T" using other [OF m] Cons.prems(4) by auto
        then show False using consistentD [OF Cons.prems(3) t] by simp
      qed
    qed
  qed
  then have "flagged (fold resolve_lit c E) = (if u \<in> set c then flagged E - {- u} else flagged E) \<union> (set c - {u}) \<and>
      length (fold resolve_lit c E) = 2 * size_vars s"
    using used E(2) by (intro resolve_lits [OF E(3) rng p(2)]) blast+
  moreover have "resolve_chain (rev (chain_ids (x # xs))) A s =
      Inr (fold resolve_lit c E, s\<lparr>last_hash := hash_of ?s cid\<rparr>)"
    using E(1) lk d(2) by (simp add: x resolve_chain_append find_eq)
  ultimately show ?case using uc(1) E(2)
    by (intro exI [of _ "fold resolve_lit c E"] exI [of _ "hash_of ?s cid"]) (simp add: x)
qed

lemma match_imported_accepts:
  assumes "length A = 2 * n" "\<forall>lit \<in> set c. lit_in n lit" "distinct c"
    and "\<forall>lit \<in> set c. - lit \<notin> flagged A \<and> - lit \<notin> set c"
  shows "\<exists>B. match_imported c A = Some B \<and> flagged B = flagged A \<union> set c \<union> uminus ` set c \<and> length B = 2 * n"
  using assms
proof (induction c arbitrary: A)
  case (Cons x c)
  let ?A = "(if \<not> A ! l2u x then A[l2u x := True] else A)[l2u (- x) := True]"
  have x: "lit_in n x" "lit_in n (- x)" "x \<noteq> 0" using Cons.prems(2) by (auto simp: lit_in_def)
  have fx: "flagged ?A = insert x (insert (- x) (flagged A))" "length ?A = 2 * n"
    using Cons.prems(1) x flag_iff [OF x(1) Cons.prems(1)] by (auto simp: flagged_True)
  have nx: "\<not> A ! l2u (- x)" using Cons.prems(1,4) flag_iff [OF x(2)] by simp
  have "\<forall>lit \<in> set c. - lit \<notin> flagged ?A \<and> - lit \<notin> set c"
    using Cons.prems(3,4) fx(1) by (auto simp: minus_equation_iff)
  then obtain B where "match_imported c ?A = Some B" "flagged B = flagged ?A \<union> set c \<union> uminus ` set c" "length B = 2 * n"
    using Cons.IH [of ?A] Cons.prems(2,3) fx(2) by auto
  then show ?case using nx fx(1) by (intro exI [of _ B]) auto
qed simp

lemma match_vars_succeed:
  assumes "in_range n A" "k \<le> n" "\<forall>lit. lit \<in> flagged A \<longleftrightarrow> - lit \<in> flagged A"
  shows "\<not> snd (fold match_var (map int [1..<k]) (A, False))"
  using assms(2)
proof (induction k)
  case (Suc k)
  show ?case
  proof (cases "k = 0")
    case False
    obtain B g where B: "fold match_var (map int [1..<k]) (A, False) = (B, g)" by fastforce
    have len: "length B = 2 * n" and fl: "flagged B = {lit \<in> flagged A. k \<le> nat \<bar>lit\<bar>}"
      using match_vars_clear [OF assms(1), of k False] Suc.prems B by simp_all
    have l: "lit_in n (int k)" "lit_in n (- int k)" using False Suc.prems by (auto simp: lit_in_def)
    have "B ! l2u (int k) = B ! l2u (- int k)"
      using flag_iff [OF l(1) len] flag_iff [OF l(2) len] fl assms(3) by simp
    moreover have "\<not> g" using Suc.IH Suc.prems B by simp
    ultimately have "\<not> snd (match_var (int k) (B, g))" by (simp add: match_var_def Let_def)
    then show ?thesis using B False by simp
  qed simp
qed simp
section \<open>The operations succeed\<close>

text \<open>The checker stores exactly the clauses \<open>K\<close>, under different ids.\<close>

definition knows :: "lrat \<Rightarrow> (int \<times> int list) set \<Rightarrow> bool" where
  "knows s K \<longleftrightarrow> lrat_inv s \<and> (\<lambda>d. (lc_id d, lc_literals d)) ` set_mset (db s) = K \<and>
     (\<forall>d \<in># db s. \<forall>e \<in># db s. lc_id d = lc_id e \<longrightarrow> d = e) \<and>
     (\<forall>d \<in># db s. lc_tautological d \<longrightarrow> (\<exists>lit \<in> set (lc_literals d). - lit \<in> set (lc_literals d)))"

lemma knowsD:
  assumes "knows s K"
  shows "lrat_inv s" "K = (\<lambda>d. (lc_id d, lc_literals d)) ` set_mset (db s)"
    and "\<And>d e. d \<in># db s \<Longrightarrow> e \<in># db s \<Longrightarrow> lc_id d = lc_id e \<Longrightarrow> d = e"
    and "\<And>d. d \<in># db s \<Longrightarrow> lc_tautological d \<Longrightarrow> \<exists>lit \<in> set (lc_literals d). - lit \<in> set (lc_literals d)"
  using assms unfolding knows_def by blast+

lemma knows_function: "knows s K \<Longrightarrow> (cid, c) \<in> K \<Longrightarrow> (cid, c') \<in> K \<Longrightarrow> c = c'"
  using knowsD(2,3) by blast

text \<open>A clause that follows by a resolution chain over \<open>K\<close>.\<close>

definition resolution_proof :: "(int \<times> int list) set \<Rightarrow> int list \<Rightarrow> chain_step list \<Rightarrow> int \<times> int list \<Rightarrow> bool" where
  "resolution_proof K c xs = (\<lambda>(did, D).
     unit_steps (uminus ` set c) xs D \<and> steps_used xs D \<and> (did, D) \<in> K \<and> 0 \<le> did \<and> distinct c \<and>
     (\<forall>(cid, cl, u) \<in> set xs. (cid, cl) \<in> K \<and> distinct cl) \<and>
     (\<exists>T. consistent T \<and> INT_MIN \<notin> T \<and> uminus ` set c \<union> step_units xs \<subseteq> T))"

lemma unit_steps_clause:
  "unit_steps A xs D \<Longrightarrow> (cid, cl, u) \<in> set xs \<Longrightarrow>
    u \<in> set cl \<and> (\<forall>lit \<in> set cl. lit \<noteq> u \<longrightarrow> - lit \<in> A \<union> step_units xs)"
proof (induction xs arbitrary: A)
  case (Cons x xs)
  obtain i c v where x: "x = (i, c, v)" by (cases x)
  show ?case
  proof (cases "x = (cid, cl, u)")
    case True
    then show ?thesis using Cons.prems(1) by (auto simp: x)
  next
    case False
    then show ?thesis using Cons.IH [of "insert v A"] Cons.prems by (force simp: x)
  qed
qed simp

lemma unit_steps_last: "unit_steps A xs D \<Longrightarrow> lit \<in> set D \<Longrightarrow> - lit \<in> A \<union> step_units xs"
proof (induction xs arbitrary: A)
  case (Cons x xs)
  obtain i c v where x: "x = (i, c, v)" by (cases x)
  show ?case using Cons.IH [of "insert v A"] Cons.prems by (auto simp: x)
qed simp

lemma unit_steps_fresh: "unit_steps A xs D \<Longrightarrow> (cid, cl, u) \<in> set xs \<Longrightarrow> u \<notin> A"
proof (induction xs arbitrary: A)
  case (Cons x xs)
  obtain i c v where x: "x = (i, c, v)" by (cases x)
  show ?case using Cons.IH [of "insert v A"] Cons.prems by (auto simp: x)
qed simp

text \<open>Different steps have different clauses, as each has its unit as the only true literal.\<close>

lemma unit_steps_distinct:
  assumes "unit_steps A xs D" "consistent T" "A \<union> step_units xs \<subseteq> T"
    and "\<forall>(cid, cl, u) \<in> set xs. (cid, cl) \<in> K" "(did, D) \<in> K"
    and "\<And>cid c c'. (cid, c) \<in> K \<Longrightarrow> (cid, c') \<in> K \<Longrightarrow> c = c'"
  shows "distinct (chain_ids xs @ [did])"
  using assms(1,3,4)
proof (induction xs arbitrary: A)
  case (Cons x xs)
  obtain cid c u where x: "x = (cid, c, u)" by (cases x)
  have us: "unit_steps (insert u A) xs D" "u \<in> set c" "u \<notin> A" and cK: "(cid, c) \<in> K" and uT: "u \<in> T"
    using Cons.prems by (auto simp: x)
  have "did \<noteq> cid"
  proof
    assume "did = cid"
    then have "D = c" using assms(5,6) cK by blast
    then have "- u \<in> insert u A \<union> step_units xs" using unit_steps_last [OF us(1)] us(2) by blast
    then have "- u \<in> T" using Cons.prems(2) by (auto simp: x)
    then show False using consistentD [OF assms(2) uT] by simp
  qed
  moreover have "cid \<notin> set (chain_ids xs)"
  proof
    assume "cid \<in> set (chain_ids xs)"
    then obtain e v where y: "(cid, e, v) \<in> set xs" by auto
    then have "e = c" using Cons.prems(3) cK assms(6) by (auto simp: x)
    then have "u = v \<or> - u \<in> insert u A \<union> step_units xs" using unit_steps_clause [OF us(1) y] us(2) by blast
    moreover have "u \<noteq> v" using unit_steps_fresh [OF us(1) y] by auto
    ultimately have "- u \<in> T" using Cons.prems(2) by (auto simp: x)
    then show False using consistentD [OF assms(2) uT] by simp
  qed
  ultimately show ?case using Cons.IH [OF us(1)] Cons.prems(2,3) uT by (auto simp: x)
qed simp

lemma db_last_id: "db (s\<lparr>last_id := i, current_id := j\<rparr>) = db s"
  by (simp add: db_def)

text \<open>The clause is imported, and the table holds \<open>K\<close>.\<close>

lemma ready_present:
  assumes "knows s K" "ready c s s1" "(cid, cl) \<in> K"
  shows "present s1 cid cl"
proof -
  note k = knowsD [OF assms(1)] and r = readyD [OF assms(2)]
  obtain d where d: "d \<in># db s1" "lc_id d = cid" "lc_literals d = cl" using assms(3) k(2) r(7) by auto
  have "lookup (lc_id d) s1 = Some d"
    using lrat_table.search_unique [OF r(1) d(1)] k(3) r(7) d(1) by simp
  then show ?thesis using d k(4) [of d] r(7) unfolding present_def by auto
qed

lemma present_update: "present (s\<lparr>checked_lits := A, last_hash := h\<rparr>) = present s"
  by (intro ext) (rule present_cong, simp_all)

lemma check_accepts:
  assumes "knows s K" "ready c s s1" "resolution_proof K c xs (did, D)"
  shows "fst (check (chain_ids xs @ [did]) s1)"
proof -
  note k = knowsD [OF assms(1)] and r = readyD [OF assms(2)]
  obtain T where p: "unit_steps (uminus ` set c) xs D" "(did, D) \<in> K" "0 \<le> did"
      "\<forall>(cid, cl, u) \<in> set xs. (cid, cl) \<in> K \<and> distinct cl"
    and T: "consistent T" "INT_MIN \<notin> T" "uminus ` set c \<union> step_units xs \<subseteq> T"
    using assms(3) by (auto simp: resolution_proof_def)
  have len: "length (checked_lits s1) = 2 * size_vars s1" using r(2) by (simp add: sized_def)
  obtain B taut where f: "fold taut_step c (checked_lits s1, False) = (B, taut)" by fastforce
  have neg: "\<forall>lit \<in> set (map uminus c). lit_in (size_vars s1) lit" using r(6) by auto
  have B: "B = set_flags True (map uminus c) (checked_lits s1)"
    using taut_fold_flags [of c "checked_lits s1" False] f by simp
  have flB: "flagged B = uminus ` set c" "length B = 2 * size_vars s1"
    unfolding B using flagged_set_flags [OF neg len] r(3) len by simp_all
  have nt: "\<not> taut"
  proof
    assume taut
    then obtain lit where "lit \<in> set c" "- lit \<in> set c" using taut_fold_taut [OF r(6) len, of False] f r(3) by auto
    then have "- lit \<in> T" "- (- lit) \<in> T" using T(3) by blast+
    then show False using consistentD [OF T(1)] by blast
  qed
  let ?s = "s1\<lparr>checked_lits := B\<rparr>"
  have pr: "present ?s i cl" if "(i, cl) \<in> K" for i cl
    using ready_present [OF assms(1,2) that] present_update [of "last_hash s1" B s1] by simp
  have d: "distinct (chain_ids xs @ [did])"
    using p T by (intro unit_steps_distinct [OF p(1) T(1,3) _ p(2) knows_function [OF assms(1)]]) auto
  have "fst (check_chain (chain_ids xs @ [did]) [] ?s)"
  proof (rule check_chain_accepts [OF _ T(1) _ _ _ d])
    show "\<forall>(cid, cl, u) \<in> set xs. present ?s cid cl" "present ?s did D" using p(2,4) pr by auto
    show "sized ?s" using r(2) flB(2) by (simp add: sized_def formula_def db_def)
    show "\<forall>lit \<in> T. lit \<noteq> INT_MIN" using T(2) by blast
  qed (use p(1) T(3) flB(1) in simp_all)
  moreover have "fst (clear_checked x) = fst x" for x by (cases x) simp
  ultimately show ?thesis using f nt p(3) r(5) by (simp add: check_def)
qed

lemma check_resolution_accepts:
  assumes "knows s K" "ready c s s1" "resolution_proof K c xs (did, D)"
  shows "\<exists>t. check_resolution (chain_ids xs @ [did]) s1 = Inr (True, t)"
proof -
  note k = knowsD [OF assms(1)] and r = readyD [OF assms(2)]
  obtain T where p: "unit_steps (uminus ` set c) xs D" "steps_used xs D" "(did, D) \<in> K" "0 \<le> did" "distinct c"
      "\<forall>(cid, cl, u) \<in> set xs. (cid, cl) \<in> K \<and> distinct cl"
    and T: "consistent T" "INT_MIN \<notin> T" "uminus ` set c \<union> step_units xs \<subseteq> T"
    using assms(3) by (auto simp: resolution_proof_def)
  let ?n = "size_vars s1" and ?s = "s1\<lparr>last_hash := hash_of s1 did\<rparr>"
  have len: "length (checked_lits s1) = 2 * ?n" using r(2) by (simp add: sized_def)
  have pD: "present s1 did D" using ready_present [OF assms(1,2) p(3)] .
  then obtain d where d: "lookup did s1 = Some d" "lc_literals d = D" by (auto simp: present_def)
  let ?A = "set_flags True D (checked_lits s1)"
  have A: "flagged ?A = set D" "length ?A = 2 * ?n"
    using flagged_set_flags [OF _ len, of D True] present_in_range [OF pD r(2)] r(3) len by auto
  have "\<forall>(cid, cl, u) \<in> set xs. present ?s cid cl \<and> distinct cl"
    using p(6) ready_present [OF assms(1)] assms(2) by auto
  moreover have "sized ?s" using r(2) by (simp add: sized_def formula_def db_def)
  ultimately obtain E h where E: "resolve_chain (rev (chain_ids xs)) ?A ?s = Inr (E, ?s\<lparr>last_hash := h\<rparr>)"
    "flagged E = resolvent xs D" "length E = 2 * ?n"
    using resolve_chain_accepts [OF p(1,2) T(1,3), of ?s ?A] A by auto
  have sub: "flagged E \<subseteq> set c" using resolvent_false [OF p(1)] E(2) by (auto simp: image_iff)
  have nc: "- lit \<notin> set c" if "lit \<in> set c" for lit
  proof
    assume "- lit \<in> set c"
    then have "- lit \<in> T" "- (- lit) \<in> T" using T(3) that by blast+
    then show False using consistentD [OF T(1)] by blast
  qed
  obtain B where B: "match_imported c E = Some B" "flagged B = flagged E \<union> set c \<union> uminus ` set c" "length B = 2 * ?n"
    using match_imported_accepts [OF E(3) r(6) p(5)] nc sub by blast
  have fB: "flagged B = set c \<union> uminus ` set c" using B(2) sub by blast
  have "in_range ?n B" using fB B(3) r(6) by (auto simp: in_range_def)
  moreover have "\<forall>lit. lit \<in> flagged B \<longleftrightarrow> - lit \<in> flagged B" unfolding fB by (auto simp: image_iff) (metis minus_minus)+
  ultimately have "\<not> snd (fold match_var (map int [1..<?n]) (B, False))"
    using match_vars_succeed [of ?n B ?n] by simp
  then have "match_resolvent (E, ?s\<lparr>last_hash := h\<rparr>) =
      Inr (True, ?s\<lparr>last_hash := h, checked_lits := fst (fold match_var (map int [1..<?n]) (B, False))\<rparr>)"
    using B(1) r(5) by (cases "fold match_var (map int [1..<?n]) (B, False)") simp
  then show ?thesis
    using d E(1) p(4) by (simp add: check_resolution_def find_eq rev_map del: match_resolvent.simps)
qed

lemma insert_taut:
  assumes "ready c s s1" "db (insert_imported s1) = add_mset d (db s)"
  shows "lc_tautological d \<longrightarrow> (\<exists>lit \<in> set c. - lit \<in> set c)"
proof
  assume taut: "lc_tautological d"
  note r = readyD [OF assms(1)]
  obtain e t m where "lc_tautological e = snd (fold taut_step (imported_clause s1) (checked_lits s1, False))"
    "db (insert_clause s1) = add_mset e (db s1)"
    by (rule insert_clause_spec [OF r(1)])
  then have "snd (fold taut_step c (checked_lits s1, False))"
    using taut assms(2) r(5,7) by (simp add: insert_imported_def db_def)
  then show "\<exists>lit \<in> set c. - lit \<in> set c"
    using taut_fold_taut [OF r(6), of "checked_lits s1" False] r(2,3) by (auto simp: sized_def)
qed

lemma knows_insert:
  assumes "knows s K" "ready c s s1" "last_id s1 = cid" "cid \<notin> fst ` K"
  shows "knows (insert_imported s1) (insert (cid, c) K)"
proof -
  note k = knowsD [OF assms(1)]
  obtain d where d: "lrat_inv (insert_imported s1)" "lc_literals d = c" "lc_id d = cid"
    "db (insert_imported s1) = add_mset d (db s)"
    using insert_ready [OF assms(2)] assms(3) unfolding insert_imported_def by metis
  have "lc_id e \<noteq> cid \<and> cid \<noteq> lc_id e" if "e \<in># db s" for e using assms(4) k(2) that by force
  then show ?thesis
    using d k(2-4) insert_taut [OF assms(2) d(4)] unfolding knows_def d(4) by auto
qed

lemma find_present_fresh:
  assumes "knows s K" "ready c s s0" "cid \<notin> fst ` K"
  obtains s1 where "find_present r cid s0 = (None, s1)" "ready c s s1" "last_id s1 = last_id s0"
proof -
  note k = knowsD [OF assms(1)] and rd = readyD [OF assms(2)]
  have "lookup cid s0 = None"
  proof (rule ccontr)
    assume "lookup cid s0 \<noteq> None"
    then obtain d where "d \<in># db s0" "lc_id d = cid" using lookup_Some by blast
    then show False using assms(3) k(2) rd(7) by force
  qed
  then show thesis
    using that assms(2) by (cases "size_clauses s0 \<noteq> 0 \<and> \<not> r") (auto simp: find_present_def find_eq)
qed

lemma knows_original:
  assumes "knows s K" "0 \<notin> set c" "cid \<notin> fst ` K"
  shows "\<exists>t. add_original_clause cid c False s = Inr t \<and> knows t (insert (cid, c) K)"
proof -
  let ?s0 = "count_original cid False ((import_clause c s)\<lparr>last_id := cid\<rparr>)"
  have r0: "ready c s ?s0" "last_id ?s0 = cid"
    using import_ready [OF knowsD(1) [OF assms(1)] assms(2)] by (simp_all add: count_original_def)
  obtain s1 where "find_present False cid ?s0 = (None, s1)" "ready c s s1" "last_id s1 = cid"
    using find_present_fresh [OF assms(1) r0(1) assms(3)] r0(2) by metis
  then show ?thesis
    using knows_insert [OF assms(1) _ _ assms(3)] by (simp add: add_original_clause_def enter_original_def)
qed

lemma knows_derived:
  assumes "knows s K" "0 \<notin> set c" "cid \<notin> fst ` K" "resolution_proof K c xs (did, D)"
  shows "\<exists>t. add_derived_clause cid c (chain_ids xs @ [did]) s = Inr t \<and> knows t (insert (cid, c) K)"
proof -
  let ?chain = "chain_ids xs @ [did]" and ?s0 = "(import_clause c s)\<lparr>last_id := cid, current_id := cid\<rparr>"
  have r0: "ready c s ?s0" "last_id ?s0 = cid"
    using import_ready [OF knowsD(1) [OF assms(1)] assms(2)] by simp_all
  obtain s1 where f: "find_present False cid ?s0 = (None, s1)" and r1: "ready c s s1" "last_id s1 = cid"
    using find_present_fresh [OF assms(1) r0(1) assms(3)] r0(2) by metis
  note R = readyD [OF r1(1)]
  have imp: "\<forall>lit \<in> set (imported_clause s1). lit_in (size_vars s1) lit" using R(5,6) by simp
  obtain b A h where cb: "check ?chain s1 = (b, s1\<lparr>checked_lits := A, last_hash := h\<rparr>)"
    and A: "length A = 2 * size_vars s1" "flagged A = {}"
    by (rule check_spec [OF R(2,3) imp, of ?chain])
  have ck: "check ?chain s1 = (True, s1\<lparr>checked_lits := A, last_hash := h\<rparr>)"
    using check_accepts [OF assms(1) r1(1) assms(4)] cb by simp
  let ?s2 = "s1\<lparr>checked_lits := A, last_hash := h\<rparr>"
  have r2: "ready c s ?s2"
    using r1(1) by (rule ready_cong) (use A R(2,4) in \<open>simp_all add: sized_def\<close>)
  obtain s3 where cr: "check_resolution ?chain ?s2 = Inr (True, s3)"
    using check_resolution_accepts [OF assms(1) r2 assms(4)] by blast
  from check_resolution_spec [OF readyD(2,3) [OF r2] _ this] readyD(5,6) [OF r2]
  obtain B k where s3: "s3 = ?s2\<lparr>checked_lits := B, last_hash := k\<rparr>" "length B = 2 * size_vars ?s2" "flagged B = {}"
    by metis
  have r3: "ready c s s3" "last_id s3 = cid"
    unfolding s3(1) by (intro ready_cong [OF r2]) (use s3(2,3) readyD(2,4) [OF r2] r1(2) in \<open>simp_all add: sized_def\<close>)
  have "add_derived_clause cid c ?chain s = Inr (insert_imported s3)"
    by (simp add: add_derived_clause_def f ck cr conclude_check_def)
  then show ?thesis using knows_insert [OF assms(1) r3 assms(3)] by blast
qed

lemma knows_initial: "knows (init_lrat ns) {}"
  using init_lrat_inv by (simp add: knows_def init_lrat_def db_def)

end
