(* ===== verification/Search_Model.thy ===== *)
theory Search_Model
  imports Literals "HOL-Library.Monad_Syntax"
begin

text \<open>
  The assignment and conflict analysis of CaDiCaL's search (\<open>propagate.cpp\<close>, \<open>backtrack.cpp\<close>,
  \<open>analyze.cpp\<close>, \<open>minimize.cpp\<close>): the trail with its levels and reasons, also out of order after
  chronological backtracking, first UIP clauses, their minimization, and the LRAT chains for
  everything that is learned.

  The record \<open>search\<close> holds the fields of \<open>Internal\<close> these functions use. Clauses are referred to by
  their position in \<open>clauses\<close>, where pointers are used in the code. \<open>derived\<close> lists the derived
  clauses handed to the proof, each with its id, literals and chain. The model is for the options
  \<open>otfs\<close>, \<open>shrink\<close>, \<open>bump\<close> and \<open>eagersubsume\<close> off and without an external propagator (then
  \<open>out_of_order_trail\<close> stays \<open>-1\<close>). The watch lists are added in \<open>Watch_Model\<close>; usage counts of
  clauses and statistics are left out.
\<close>

section \<open>State\<close>

record search_opts =
  opt_lrat :: bool
  opt_minimize :: bool
  opt_minimizedepth :: nat
  opt_chrono :: nat
  opt_chronoalways :: bool
  opt_chronolevelim :: nat
  opt_chronoreusetrail :: bool

record Var =
  vlevel :: nat
  vtrail :: nat
  reason :: "nat option"

record Level =
  decision :: int
  ltrail :: nat
  seen_count :: nat
  seen_trail :: nat

record Flags =
  seen :: bool
  keep :: bool
  poison :: bool
  removable :: bool
  added :: bool

record Clause =
  sc_id :: int
  sc_lits :: "int list"

record search =
  vals :: "int list"
  vtab :: "Var list"
  ftab :: "Flags list"
  control :: "Level list"
  level :: nat
  trail :: "int list"
  clauses :: "Clause list"
  unit_clauses_idx :: "int list"
  conflict :: "nat option"
  clause :: "int list"
  analyzed :: "int list"
  unit_analyzed :: "int list"
  levels :: "nat list"
  lrat_chain :: "int list"
  unit_chain :: "int list"
  mini_chain :: "int list"
  minimize_chain :: "int list"
  minimized :: "int list"
  clause_id :: int
  unsat :: bool
  derived :: "(int \<times> int list \<times> int list) list"

definition INT_MAX :: nat where
  "INT_MAX = 2 ^ 31 - 1"

definition vidx :: "int \<Rightarrow> nat" where
  "vidx lit = nat \<bar>lit\<bar>"

definition vlit :: "int \<Rightarrow> nat" where
  "vlit lit = (if lit < 0 then 1 else 0) + 2 * vidx lit"

definition val :: "search \<Rightarrow> int \<Rightarrow> int" where
  "val s lit = (if lit < 0 then - (vals s ! vidx lit) else vals s ! vidx lit)"

definition var :: "search \<Rightarrow> int \<Rightarrow> Var" where
  "var s lit = vtab s ! vidx lit"

definition flags :: "search \<Rightarrow> int \<Rightarrow> Flags" where
  "flags s lit = ftab s ! vidx lit"

definition set_val :: "int \<Rightarrow> int \<Rightarrow> search \<Rightarrow> search" where
  "set_val lit v s = s\<lparr>vals := (vals s)[vidx lit := (if lit < 0 then - v else v)]\<rparr>"

definition on_flags :: "int \<Rightarrow> (Flags \<Rightarrow> Flags) \<Rightarrow> search \<Rightarrow> search" where
  "on_flags lit f s = s\<lparr>ftab := upd_nth (ftab s) (vidx lit) f\<rparr>"

definition lits_at :: "search \<Rightarrow> nat \<Rightarrow> int list" where
  "lits_at s c = sc_lits (clauses s ! c)"

definition unit_id :: "search \<Rightarrow> int \<Rightarrow> int" where
  "unit_id s lit = unit_clauses_idx s ! vlit lit"

section \<open>Assigning\<close>

text \<open>A unit has no reason, a decision the pseudo reason \<open>decision_reason\<close>.\<close>

datatype assign_reason = No_reason | Decision_reason | Reason nat

definition assignment_level :: "search \<Rightarrow> int \<Rightarrow> nat \<Rightarrow> nat" where
  "assignment_level s lit c =
     fold (\<lambda>other res. if other = lit then res
                       else if vlevel (var s other) > res then vlevel (var s other) else res)
       (lits_at s c) 0"

definition build_chain_for_units :: "search_opts \<Rightarrow> int \<Rightarrow> nat \<Rightarrow> bool \<Rightarrow> search \<Rightarrow> search" where
  "build_chain_for_units opts lit c forced s =
     (if \<not> opt_lrat opts then s
      else if assignment_level s lit c \<noteq> 0 \<and> \<not> forced then s
      else s\<lparr>lrat_chain := lrat_chain s
                @ map (\<lambda>l. unit_id s (val s l * l)) (filter (\<lambda>l. l \<noteq> lit \<and> val s l \<noteq> 0) (lits_at s c))
                @ [sc_id (clauses s ! c)]\<rparr>)"

definition learn_unit_clause :: "search_opts \<Rightarrow> int \<Rightarrow> search \<Rightarrow> search" where
  "learn_unit_clause opts lit s =
     (let cid = clause_id s + 1
      in s\<lparr>clause_id := cid,
           unit_clauses_idx := (if opt_lrat opts then (unit_clauses_idx s)[vlit lit := cid] else unit_clauses_idx s),
           derived := derived s @ [(cid, [lit], lrat_chain s)]\<rparr>)"

definition search_assign :: "search_opts \<Rightarrow> int \<Rightarrow> assign_reason \<Rightarrow> search \<Rightarrow> search" where
  "search_assign opts lit r s =
     (let lit_level = (case r of No_reason \<Rightarrow> 0 | Decision_reason \<Rightarrow> level s | Reason c \<Rightarrow> assignment_level s lit c);
          c = (if lit_level = 0 then None else case r of Reason c \<Rightarrow> Some c | _ \<Rightarrow> None);
          s = s\<lparr>vtab := (vtab s)[vidx lit := \<lparr>vlevel = lit_level, vtrail = length (trail s), reason = c\<rparr>]\<rparr>;
          s = (if lit_level = 0 then learn_unit_clause opts lit s else s);
          s = set_val lit 1 s
      in s\<lparr>trail := trail s @ [lit], lrat_chain := []\<rparr>)"

definition new_trail_level :: "int \<Rightarrow> search \<Rightarrow> search" where
  "new_trail_level lit s =
     s\<lparr>level := level s + 1,
       control := control s @ [\<lparr>decision = lit, ltrail = length (trail s), seen_count = 0, seen_trail = INT_MAX\<rparr>]\<rparr>"

definition search_assume_decision :: "search_opts \<Rightarrow> int \<Rightarrow> search \<Rightarrow> search" where
  "search_assume_decision opts lit s = search_assign opts lit Decision_reason (new_trail_level lit s)"

text \<open>What \<open>propagate\<close> does with a clause whose other literals are all false.\<close>

definition propagate_unit :: "search_opts \<Rightarrow> int \<Rightarrow> nat \<Rightarrow> search \<Rightarrow> search" where
  "propagate_unit opts lit c s = search_assign opts lit (Reason c) (build_chain_for_units opts lit c False s)"

definition learn_empty_clause :: "search_opts \<Rightarrow> nat \<Rightarrow> search \<Rightarrow> search" where
  "learn_empty_clause opts c s =
     (let s = (if \<not> opt_lrat opts \<or> lrat_chain s \<noteq> [] then s
               else s\<lparr>lrat_chain := map (\<lambda>lit. unit_id s (- lit)) (lits_at s c) @ [sc_id (clauses s ! c)]\<rparr>);
          cid = clause_id s + 1
      in s\<lparr>clause_id := cid, derived := derived s @ [(cid, [], lrat_chain s)], unsat := True, lrat_chain := []\<rparr>)"

section \<open>Backtracking\<close>

text \<open>
  Literals behind the first decision that is undone are unassigned when their level is undone;
  those of lower levels, assigned out of order, move down on the trail.
\<close>

definition retain :: "nat \<Rightarrow> int \<Rightarrow> search \<Rightarrow> search" where
  "retain new_level lit s =
     (if vlevel (var s lit) > new_level then set_val lit 0 s
      else s\<lparr>trail := trail s @ [lit],
             vtab := upd_nth (vtab s) (vidx lit) (\<lambda>v. v\<lparr>vtrail := length (trail s)\<rparr>)\<rparr>)"

definition backtrack :: "nat \<Rightarrow> search \<Rightarrow> search" where
  "backtrack new_level s =
     (if new_level = level s then s
      else let assigned = ltrail (control s ! (new_level + 1));
               s = fold (retain new_level) (drop assigned (trail s)) (s\<lparr>trail := take assigned (trail s)\<rparr>)
           in s\<lparr>control := take (new_level + 1) (control s), level := new_level\<rparr>)"

section \<open>The conflict level\<close>

text \<open>
  The highest level of a clause, how many of its literals are on it, and the literal when it is
  alone. The loop stops at the second literal of the current level.
\<close>

fun scan_levels :: "search \<Rightarrow> int list \<Rightarrow> nat \<Rightarrow> nat \<Rightarrow> int \<Rightarrow> nat \<times> nat \<times> int" where
  "scan_levels s [] res cnt forced = (res, cnt, forced)"
| "scan_levels s (lit # lits) res cnt forced =
     (let tmp = vlevel (var s lit)
      in if tmp > res then scan_levels s lits tmp 1 lit
         else if tmp = res then
           (if res = level s \<and> cnt + 1 > 1 then (res, cnt + 1, forced)
            else scan_levels s lits res (cnt + 1) forced)
         else scan_levels s lits res cnt forced)"

text \<open>The position from \<open>j\<close> on of a literal with the highest level, stopping at level \<open>res\<close>.\<close>

fun highest_position :: "search \<Rightarrow> nat \<Rightarrow> int list \<Rightarrow> nat \<Rightarrow> nat \<Rightarrow> nat \<Rightarrow> nat" where
  "highest_position s res [] j pos highest = pos"
| "highest_position s res (other # lits) j pos highest =
     (let tmp = vlevel (var s other)
      in if highest \<ge> tmp then highest_position s res lits (j + 1) pos highest
         else if tmp = res then j
         else highest_position s res lits (j + 1) j tmp)"

definition move_highest :: "search \<Rightarrow> nat \<Rightarrow> nat \<Rightarrow> int list \<Rightarrow> int list" where
  "move_highest s res i lits =
     (let lit = lits ! i;
          pos = highest_position s res (drop (i + 1) lits) (i + 1) i (vlevel (var s lit))
      in lits[pos := lit, i := lits ! pos])"

definition find_conflict_level :: "nat \<Rightarrow> search \<Rightarrow> (nat \<times> int) \<times> search" where
  "find_conflict_level c s =
     (let (res, cnt, forced) = scan_levels s (lits_at s c) 0 0 0;
          lits = move_highest s res 1 (move_highest s res 0 (lits_at s c));
          s = s\<lparr>clauses := (clauses s)[c := (clauses s ! c)\<lparr>sc_lits := lits\<rparr>]\<rparr>
      in ((res, if cnt \<noteq> 1 then 0 else forced), s))"

section \<open>The first UIP clause\<close>

text \<open>The number of open literals and the state are threaded through the loops.\<close>

definition see_level :: "nat \<Rightarrow> nat \<Rightarrow> search \<Rightarrow> search" where
  "see_level l t s =
     (let s = (if seen_count (control s ! l) = 0 then s\<lparr>levels := levels s @ [l]\<rparr> else s)
      in s\<lparr>control := upd_nth (control s) l
             (\<lambda>e. e\<lparr>seen_count := seen_count e + 1, seen_trail := min t (seen_trail e)\<rparr>)\<rparr>)"

definition analyze_literal :: "search_opts \<Rightarrow> int \<Rightarrow> int \<times> search \<Rightarrow> int \<times> search" where
  "analyze_literal opts lit = (\<lambda>(opened, s).
     let v = var s lit
     in if vlevel v = 0 then
          (if seen (flags s lit) \<or> \<not> opt_lrat opts then (opened, s)
           else (opened, (on_flags lit (\<lambda>f. f\<lparr>seen := True\<rparr>) s)
                         \<lparr>unit_analyzed := unit_analyzed s @ [lit],
                          unit_chain := unit_chain s @ [unit_id s (- lit)]\<rparr>))
        else if seen (flags s lit) then (opened, s)
        else let s = on_flags lit (\<lambda>f. f\<lparr>seen := True\<rparr>) s;
                 s = s\<lparr>analyzed := analyzed s @ [lit],
                       clause := (if vlevel v < level s then clause s @ [lit] else clause s)\<rparr>
             in (if vlevel v = level s then opened + 1 else opened, see_level (vlevel v) (vtrail v) s))"

definition analyze_reason :: "search_opts \<Rightarrow> int \<Rightarrow> nat \<Rightarrow> int \<times> search \<Rightarrow> int \<times> search" where
  "analyze_reason opts lit c = (\<lambda>(opened, s).
     let s = (if opt_lrat opts then s\<lparr>lrat_chain := lrat_chain s @ [sc_id (clauses s ! c)]\<rparr> else s)
     in fold (\<lambda>other. if other \<noteq> lit then analyze_literal opts other else id) (lits_at s c) (opened, s))"

text \<open>The next literal down the trail that was seen on this level; none is left to the propagator.\<close>

fun next_uip :: "search \<Rightarrow> nat \<Rightarrow> (int \<times> nat) option" where
  "next_uip s 0 = None"
| "next_uip s (Suc i) =
     (let lit = trail s ! i
      in if seen (flags s lit) \<and> vlevel (var s lit) = level s then Some (lit, i) else next_uip s i)"

lemma next_uip_less: "next_uip s i = Some (uip, j) \<Longrightarrow> j < i"
  by (induction i) (auto simp: Let_def less_Suc_eq split: if_splits)

function uip_loop :: "search_opts \<Rightarrow> nat \<Rightarrow> int \<times> search \<Rightarrow> (int \<times> search) option" where
  "uip_loop opts i (opened, s) =
     (case next_uip s i of
        None \<Rightarrow> None
      | Some (uip, j) \<Rightarrow>
          if opened - 1 = 0 then Some (uip, s)
          else case reason (var s uip) of
            None \<Rightarrow> None
          | Some c \<Rightarrow> uip_loop opts j (analyze_reason opts uip c (opened - 1, s)))"
  by pat_completeness auto
termination
  by (relation "measure (\<lambda>(opts, i, _). i)") (auto dest: next_uip_less)

declare uip_loop.simps [simp del]

definition first_uip :: "search_opts \<Rightarrow> nat \<Rightarrow> search \<Rightarrow> (int \<times> search) option" where
  "first_uip opts c s =
     (case uip_loop opts (length (trail s)) (analyze_reason opts 0 c (0, s)) of
        None \<Rightarrow> None
      | Some (uip, s) \<Rightarrow> Some (uip, s\<lparr>clause := clause s @ [- uip]\<rparr>))"

section \<open>Minimization\<close>

function minimize_literal :: "nat \<Rightarrow> int \<Rightarrow> nat \<Rightarrow> search \<Rightarrow> bool \<times> search"
  and minimize_reason :: "nat \<Rightarrow> int \<Rightarrow> int list \<Rightarrow> nat \<Rightarrow> search \<Rightarrow> bool \<times> search" where
  "minimize_literal limit lit depth s =
     (let f = flags s lit; v = var s lit; l = control s ! vlevel v
      in if vlevel v = 0 \<or> removable f \<or> keep f then (True, s)
         else case reason v of None \<Rightarrow> (False, s) | Some c \<Rightarrow>
           if poison f \<or> vlevel v = level s then (False, s)
           else if depth = 0 \<and> seen_count l < 2 then (False, s)
           else if vtrail v \<le> seen_trail l then (False, s)
           else if depth > limit then (False, s)
           else let (res, s) = minimize_reason limit lit (lits_at s c) depth s
                in (res, (on_flags lit (\<lambda>f. if res then f\<lparr>removable := True\<rparr> else f\<lparr>poison := True\<rparr>) s)
                           \<lparr>minimized := minimized s @ [lit]\<rparr>))"
| "minimize_reason limit lit [] depth s = (True, s)"
| "minimize_reason limit lit (other # lits) depth s =
     (if other = lit then minimize_reason limit lit lits depth s
      else let (res, s) = minimize_literal limit (- other) (depth + 1) s
           in if res then minimize_reason limit lit lits depth s else (False, s))"
  by pat_completeness auto
termination
  by (relation "inv_image (less_than <*lex*> less_than)
        (case_sum (\<lambda>(limit, lit, depth, s). (2 * (limit + 1 - depth), 0))
                  (\<lambda>(limit, lit, lits, depth, s). (2 * (limit + 1 - depth) - 1, length lits)))") auto

declare minimize_literal.simps [simp del] minimize_reason.simps [simp del]

text \<open>The reasons of a removed literal after those they depend on; the top of the stack comes first.\<close>

partial_function (option) minimize_chain_loop :: "search_opts \<Rightarrow> int list \<Rightarrow> search \<Rightarrow> search option" where
  "minimize_chain_loop opts stack s =
     (case stack of
        [] \<Rightarrow> Some s
      | idx # stack \<Rightarrow>
          let f = flags s idx; v = var s idx
          in if idx < 0 then
               (case reason v of None \<Rightarrow> None | Some c \<Rightarrow>
                  minimize_chain_loop opts stack (s\<lparr>mini_chain := mini_chain s @ [sc_id (clauses s ! c)]\<rparr>))
             else if keep f \<or> added f \<or> poison f then minimize_chain_loop opts stack s
             else if vlevel v = 0 then
               (if seen f then minimize_chain_loop opts stack s
                else minimize_chain_loop opts stack
                  ((on_flags idx (\<lambda>f. f\<lparr>seen := True\<rparr>) s)
                     \<lparr>unit_analyzed := unit_analyzed s @ [idx],
                      unit_chain := unit_chain s @ [unit_id s (if val s idx > 0 then idx else - idx)]\<rparr>))
             else
               (case reason v of None \<Rightarrow> None | Some c \<Rightarrow>
                  minimize_chain_loop opts
                    (rev (map (int \<circ> vidx) (filter (\<lambda>other. other \<noteq> idx) (lits_at s c))) @ (- idx) # stack)
                    (on_flags idx (\<lambda>f. f\<lparr>added := True\<rparr>) s)))"

declare minimize_chain_loop.simps [code]

definition calculate_minimize_chain :: "search_opts \<Rightarrow> int \<Rightarrow> search \<Rightarrow> search option" where
  "calculate_minimize_chain opts lit s = minimize_chain_loop opts [int (vidx lit)] s"

fun minimize_lits :: "search_opts \<Rightarrow> int list \<Rightarrow> int list \<Rightarrow> search \<Rightarrow> (int list \<times> search) option" where
  "minimize_lits opts [] kept s = Some (kept, s)"
| "minimize_lits opts (lit # lits) kept s =
     (let (res, s) = minimize_literal (opt_minimizedepth opts) (- lit) 0 s
      in if res then
           (if opt_lrat opts then
              (case calculate_minimize_chain opts (- lit) s of None \<Rightarrow> None | Some s \<Rightarrow>
                 minimize_lits opts lits kept
                   (s\<lparr>minimize_chain := minimize_chain s @ mini_chain s, mini_chain := []\<rparr>))
            else minimize_lits opts lits kept s)
         else minimize_lits opts lits (kept @ [lit]) (on_flags lit (\<lambda>f. f\<lparr>keep := True\<rparr>) s))"

definition minimize_sort_clause :: "search \<Rightarrow> search" where
  "minimize_sort_clause s = s\<lparr>clause := sort_key (\<lambda>a. vtrail (var s a)) (clause s)\<rparr>"

definition clear_minimized_literals :: "search \<Rightarrow> search" where
  "clear_minimized_literals s =
     (let s = fold (\<lambda>lit. on_flags lit (\<lambda>f. f\<lparr>poison := False, removable := False, added := False\<rparr>)) (minimized s) s;
          s = fold (\<lambda>lit. on_flags lit (\<lambda>f. f\<lparr>keep := False, added := False\<rparr>)) (clause s) s
      in s\<lparr>minimized := []\<rparr>)"

definition minimize_clause :: "search_opts \<Rightarrow> search \<Rightarrow> search option" where
  "minimize_clause opts s =
     (let s = minimize_sort_clause s
      in case minimize_lits opts (clause s) [] s of None \<Rightarrow> None | Some (kept, s) \<Rightarrow>
           let s = clear_minimized_literals (s\<lparr>clause := kept\<rparr>)
           in Some (s\<lparr>lrat_chain := lrat_chain s @ rev (minimize_chain s), minimize_chain := []\<rparr>))"

section \<open>The driving clause\<close>

text \<open>
  The rank is \<open>~ (level << 32 | trail)\<close> in the code: higher levels first, and within a level later
  assignments first.
\<close>

definition trail_rank :: "search \<Rightarrow> int \<Rightarrow> int" where
  "trail_rank s a = - (int (vlevel (var s a)) * 2 ^ 32 + int (vtrail (var s a)))"

definition new_learned_redundant_clause :: "search \<Rightarrow> search \<times> nat" where
  "new_learned_redundant_clause s =
     (let cid = clause_id s + 1
      in (s\<lparr>clause_id := cid, clauses := clauses s @ [\<lparr>sc_id = cid, sc_lits = clause s\<rparr>],
            derived := derived s @ [(cid, clause s, lrat_chain s)]\<rparr>, length (clauses s)))"

definition new_driving_clause :: "search \<Rightarrow> (search \<times> nat) \<times> assign_reason" where
  "new_driving_clause s =
     (if length (clause s) \<le> 1 then ((s, 0), No_reason)
      else let s = s\<lparr>clause := sort_key (trail_rank s) (clause s)\<rparr>;
               (t, c) = new_learned_redundant_clause s
           in ((t, vlevel (var s (clause s ! 1))), Reason c))"

text \<open>
  The level to backtrack to. \<open>assumed\<close> is the number of assumptions; \<open>stays\<close> compares the best
  variable so far with the next one, by score or by time stamp.
\<close>

definition best_position :: "(nat \<Rightarrow> nat \<Rightarrow> bool) \<Rightarrow> search \<Rightarrow> nat \<Rightarrow> nat" where
  "best_position stays s start =
     snd (fold (\<lambda>i (best_idx, best_pos).
            let idx = vidx (trail s ! i)
            in if best_idx \<noteq> 0 \<and> stays best_idx idx then (best_idx, best_pos) else (idx, i))
          [start..<length (trail s)] (0, 0))"

function reuse_level :: "search \<Rightarrow> nat \<Rightarrow> nat \<Rightarrow> nat" where
  "reuse_level s best_pos res =
     (if res < level s - 1 \<and> ltrail (control s ! (res + 1)) \<le> best_pos then reuse_level s best_pos (res + 1)
      else res)"
  by pat_completeness auto
termination
  by (relation "measure (\<lambda>(s, best_pos, res). level s - res)") auto

declare reuse_level.simps [simp del]

definition determine_actual_backtrack_level ::
  "search_opts \<Rightarrow> nat \<Rightarrow> (nat \<Rightarrow> nat \<Rightarrow> bool) \<Rightarrow> nat \<Rightarrow> search \<Rightarrow> nat" where
  "determine_actual_backtrack_level opts assumed stays jump s =
     (if opt_chrono opts = 0 then jump
      else if opt_chronoalways opts then level s - 1
      else if jump \<ge> level s - 1 then jump
      else if jump < assumed then jump
      else if level s - jump > opt_chronolevelim opts then level s - 1
      else if opt_chronoreusetrail opts
        then reuse_level s (best_position stays s (ltrail (control s ! (jump + 1)))) jump
      else jump)"

section \<open>Analysis\<close>

definition clear_seen :: "int list \<Rightarrow> search \<Rightarrow> search" where
  "clear_seen lits s = fold (\<lambda>lit. on_flags lit (\<lambda>f. f\<lparr>seen := False\<rparr>)) lits s"

definition clear_analyzed_literals :: "search \<Rightarrow> search" where
  "clear_analyzed_literals s = (clear_seen (analyzed s) s)\<lparr>analyzed := []\<rparr>"

definition clear_unit_analyzed_literals :: "search \<Rightarrow> search" where
  "clear_unit_analyzed_literals s = (clear_seen (unit_analyzed s) s)\<lparr>unit_analyzed := []\<rparr>"

definition clear_analyzed_levels :: "search \<Rightarrow> search" where
  "clear_analyzed_levels s =
     (fold (\<lambda>l s. if l < length (control s)
              then s\<lparr>control := upd_nth (control s) l (\<lambda>e. e\<lparr>seen_count := 0, seen_trail := INT_MAX\<rparr>)\<rparr> else s)
        (levels s) s)\<lparr>levels := []\<rparr>"

definition reverse_chain :: "search_opts \<Rightarrow> search \<Rightarrow> search" where
  "reverse_chain opts s =
     (if opt_lrat opts then s\<lparr>lrat_chain := rev (lrat_chain s @ unit_chain s), unit_chain := []\<rparr> else s)"

definition finish_analysis :: "search \<Rightarrow> search" where
  "finish_analysis s =
     (clear_analyzed_levels (clear_unit_analyzed_literals (clear_analyzed_literals s)))
       \<lparr>clause := [], conflict := None, lrat_chain := []\<rparr>"

definition learn_driving_clause ::
  "search_opts \<Rightarrow> nat \<Rightarrow> (nat \<Rightarrow> nat \<Rightarrow> bool) \<Rightarrow> int \<Rightarrow> search \<Rightarrow> search" where
  "learn_driving_clause opts assumed stays uip s =
     (let ((s, jump), driving) = new_driving_clause (reverse_chain opts s);
          s = backtrack (determine_actual_backtrack_level opts assumed stays jump s) s
      in finish_analysis (search_assign opts (- uip) driving s))"

definition analyze_level ::
  "search_opts \<Rightarrow> nat \<Rightarrow> (nat \<Rightarrow> nat \<Rightarrow> bool) \<Rightarrow> nat \<Rightarrow> search \<Rightarrow> search option" where
  "analyze_level opts assumed stays c s = do {
     (uip, s) \<leftarrow> first_uip opts c s;
     s \<leftarrow> (if length (clause s) > 1 \<and> opt_minimize opts then minimize_clause opts s else Some s);
     Some (learn_driving_clause opts assumed stays uip s)
   }"

definition analyze :: "search_opts \<Rightarrow> nat \<Rightarrow> (nat \<Rightarrow> nat \<Rightarrow> bool) \<Rightarrow> search \<Rightarrow> search option" where
  "analyze opts assumed stays s =
     (case conflict s of
        None \<Rightarrow> None
      | Some c \<Rightarrow>
          let ((conflict_level, forced), s) = find_conflict_level c s
          in if forced \<noteq> 0 then
               let s = build_chain_for_units opts forced c False (backtrack (conflict_level - 1) s)
               in Some ((search_assign opts forced (Reason c) s)\<lparr>conflict := None\<rparr>)
             else let s = backtrack conflict_level s
               in if level s = 0 then Some (learn_empty_clause opts c s)
                  else analyze_level opts assumed stays c s)"

section \<open>Runs\<close>

text \<open>
  \<open>assign_original_unit\<close> up to its call of \<open>propagate\<close>, which is the propagation steps of a run.
\<close>

definition assign_original_unit :: "search_opts \<Rightarrow> int \<Rightarrow> int \<Rightarrow> search \<Rightarrow> search" where
  "assign_original_unit opts cid lit s =
     (let s = s\<lparr>vtab := (vtab s)[vidx lit := \<lparr>vlevel = 0, vtrail = length (trail s), reason = None\<rparr>]\<rparr>;
          s = set_val lit 1 s
      in s\<lparr>trail := trail s @ [lit],
           unit_clauses_idx := (if opt_lrat opts then (unit_clauses_idx s)[vlit lit := cid] else unit_clauses_idx s)\<rparr>)"

text \<open>
  The state before the search: \<open>n\<close> variables, and the original clauses \<open>fs\<close> with their ids, of
  which those with two literals or more are kept as clauses.
\<close>

definition init_search :: "nat \<Rightarrow> (int \<times> int list) list \<Rightarrow> search" where
  "init_search n fs =
     \<lparr>vals = replicate (n + 1) 0,
      vtab = replicate (n + 1) \<lparr>vlevel = 0, vtrail = 0, reason = None\<rparr>,
      ftab = replicate (n + 1) \<lparr>seen = False, keep = False, poison = False, removable = False, added = False\<rparr>,
      control = [\<lparr>decision = 0, ltrail = 0, seen_count = 0, seen_trail = INT_MAX\<rparr>],
      level = 0, trail = [],
      clauses = map (\<lambda>(cid, c). \<lparr>sc_id = cid, sc_lits = c\<rparr>) (filter (\<lambda>(cid, c). 2 \<le> length c) fs),
      unit_clauses_idx = replicate (2 * (n + 1)) 0, conflict = None, clause = [], analyzed = [], unit_analyzed = [],
      levels = [], lrat_chain = [], unit_chain = [], mini_chain = [], minimize_chain = [], minimized = [],
      clause_id = fold (max \<circ> fst) fs 0, unsat = False, derived = []\<rparr>"

text \<open>
  The steps of the solving loop, in any order in which they are possible: units of the formula,
  decisions and pseudo decisions, propagations, conflicts, their analysis, restarts, and new
  orders of the literals of a clause. An analysis comes with the number of assumptions and the
  comparison of variables.
\<close>

datatype search_event =
  Original_unit int int
| Decide int
| Pseudo_level
| Propagate int nat
| Find_conflict nat
| Analyze nat "nat \<Rightarrow> nat \<Rightarrow> bool"
| Restart nat
| Reorder nat "int list"

definition enabled :: "(int \<times> int list) list \<Rightarrow> search_event \<Rightarrow> search \<Rightarrow> bool" where
  "enabled fs e s \<longleftrightarrow> \<not> unsat s \<and>
     (case e of
        Analyze assumed stays \<Rightarrow> conflict s \<noteq> None
      | Original_unit cid lit \<Rightarrow> conflict s = None \<and> (cid, [lit]) \<in> set fs \<and> val s lit = 0
      | Decide lit \<Rightarrow> conflict s = None \<and> lit_in (length (vals s)) lit \<and> val s lit = 0
      | Pseudo_level \<Rightarrow> conflict s = None
      | Propagate lit c \<Rightarrow> conflict s = None \<and> c < length (clauses s) \<and> lit \<in> set (lits_at s c) \<and> val s lit = 0 \<and>
          (\<forall>other \<in> set (lits_at s c). other \<noteq> lit \<longrightarrow> val s other < 0)
      | Find_conflict c \<Rightarrow> conflict s = None \<and> c < length (clauses s) \<and> (\<forall>lit \<in> set (lits_at s c). val s lit < 0)
      | Restart l \<Rightarrow> conflict s = None \<and> l \<le> level s
      | Reorder c lits \<Rightarrow> conflict s = None \<and> c < length (clauses s) \<and> mset lits = mset (lits_at s c))"

definition perform :: "search_opts \<Rightarrow> search_event \<Rightarrow> search \<Rightarrow> search option" where
  "perform opts e s =
     (case e of
        Original_unit cid lit \<Rightarrow> Some (assign_original_unit opts cid lit s)
      | Decide lit \<Rightarrow> Some (search_assume_decision opts lit s)
      | Pseudo_level \<Rightarrow> Some (new_trail_level 0 s)
      | Propagate lit c \<Rightarrow> Some (propagate_unit opts lit c s)
      | Find_conflict c \<Rightarrow> Some (s\<lparr>conflict := Some c\<rparr>)
      | Analyze assumed stays \<Rightarrow> analyze opts assumed stays s
      | Restart l \<Rightarrow> Some (backtrack l s)
      | Reorder c lits \<Rightarrow> Some (s\<lparr>clauses := (clauses s)[c := (clauses s ! c)\<lparr>sc_lits := lits\<rparr>]\<rparr>))"

fun run_search :: "search_opts \<Rightarrow> (int \<times> int list) list \<Rightarrow> search_event list \<Rightarrow> search \<Rightarrow> search option" where
  "run_search opts fs [] s = Some s"
| "run_search opts fs (e # es) s =
     (if enabled fs e s then Option.bind (perform opts e s) (run_search opts fs es) else None)"

end
