(* ===== verification/Search_Trail.thy ===== *)
theory Search_Trail
  imports Search_Model
begin

text \<open>
  The trail of the search: values, levels, positions and reasons fit together, also when literals
  are out of order. Assigning, new levels and chronological backtracking keep it so.
\<close>

section \<open>Reading a changed state\<close>

text \<open>The arrays are read as before when another field is changed.\<close>

lemma val_update [simp]:
  "val (s\<lparr>vtab := x1\<rparr>) lit = val s lit"
  "val (s\<lparr>ftab := x2\<rparr>) lit = val s lit"
  "val (s\<lparr>control := x3\<rparr>) lit = val s lit"
  "val (s\<lparr>level := x4\<rparr>) lit = val s lit"
  "val (s\<lparr>trail := x5\<rparr>) lit = val s lit"
  "val (s\<lparr>clauses := x6\<rparr>) lit = val s lit"
  "val (s\<lparr>unit_clauses_idx := x7\<rparr>) lit = val s lit"
  "val (s\<lparr>conflict := x8\<rparr>) lit = val s lit"
  "val (s\<lparr>clause := x9\<rparr>) lit = val s lit"
  "val (s\<lparr>analyzed := x10\<rparr>) lit = val s lit"
  "val (s\<lparr>unit_analyzed := x11\<rparr>) lit = val s lit"
  "val (s\<lparr>levels := x12\<rparr>) lit = val s lit"
  "val (s\<lparr>lrat_chain := x13\<rparr>) lit = val s lit"
  "val (s\<lparr>unit_chain := x14\<rparr>) lit = val s lit"
  "val (s\<lparr>mini_chain := x15\<rparr>) lit = val s lit"
  "val (s\<lparr>minimize_chain := x16\<rparr>) lit = val s lit"
  "val (s\<lparr>minimized := x17\<rparr>) lit = val s lit"
  "val (s\<lparr>clause_id := x18\<rparr>) lit = val s lit"
  "val (s\<lparr>unsat := x19\<rparr>) lit = val s lit"
  "val (s\<lparr>derived := x20\<rparr>) lit = val s lit"
  by (simp_all add: val_def)

lemma var_update [simp]:
  "var (s\<lparr>vals := x21\<rparr>) lit = var s lit"
  "var (s\<lparr>ftab := x22\<rparr>) lit = var s lit"
  "var (s\<lparr>control := x23\<rparr>) lit = var s lit"
  "var (s\<lparr>level := x24\<rparr>) lit = var s lit"
  "var (s\<lparr>trail := x25\<rparr>) lit = var s lit"
  "var (s\<lparr>clauses := x26\<rparr>) lit = var s lit"
  "var (s\<lparr>unit_clauses_idx := x27\<rparr>) lit = var s lit"
  "var (s\<lparr>conflict := x28\<rparr>) lit = var s lit"
  "var (s\<lparr>clause := x29\<rparr>) lit = var s lit"
  "var (s\<lparr>analyzed := x30\<rparr>) lit = var s lit"
  "var (s\<lparr>unit_analyzed := x31\<rparr>) lit = var s lit"
  "var (s\<lparr>levels := x32\<rparr>) lit = var s lit"
  "var (s\<lparr>lrat_chain := x33\<rparr>) lit = var s lit"
  "var (s\<lparr>unit_chain := x34\<rparr>) lit = var s lit"
  "var (s\<lparr>mini_chain := x35\<rparr>) lit = var s lit"
  "var (s\<lparr>minimize_chain := x36\<rparr>) lit = var s lit"
  "var (s\<lparr>minimized := x37\<rparr>) lit = var s lit"
  "var (s\<lparr>clause_id := x38\<rparr>) lit = var s lit"
  "var (s\<lparr>unsat := x39\<rparr>) lit = var s lit"
  "var (s\<lparr>derived := x40\<rparr>) lit = var s lit"
  by (simp_all add: var_def)

lemma flags_update [simp]:
  "flags (s\<lparr>vals := x41\<rparr>) lit = flags s lit"
  "flags (s\<lparr>vtab := x42\<rparr>) lit = flags s lit"
  "flags (s\<lparr>control := x43\<rparr>) lit = flags s lit"
  "flags (s\<lparr>level := x44\<rparr>) lit = flags s lit"
  "flags (s\<lparr>trail := x45\<rparr>) lit = flags s lit"
  "flags (s\<lparr>clauses := x46\<rparr>) lit = flags s lit"
  "flags (s\<lparr>unit_clauses_idx := x47\<rparr>) lit = flags s lit"
  "flags (s\<lparr>conflict := x48\<rparr>) lit = flags s lit"
  "flags (s\<lparr>clause := x49\<rparr>) lit = flags s lit"
  "flags (s\<lparr>analyzed := x50\<rparr>) lit = flags s lit"
  "flags (s\<lparr>unit_analyzed := x51\<rparr>) lit = flags s lit"
  "flags (s\<lparr>levels := x52\<rparr>) lit = flags s lit"
  "flags (s\<lparr>lrat_chain := x53\<rparr>) lit = flags s lit"
  "flags (s\<lparr>unit_chain := x54\<rparr>) lit = flags s lit"
  "flags (s\<lparr>mini_chain := x55\<rparr>) lit = flags s lit"
  "flags (s\<lparr>minimize_chain := x56\<rparr>) lit = flags s lit"
  "flags (s\<lparr>minimized := x57\<rparr>) lit = flags s lit"
  "flags (s\<lparr>clause_id := x58\<rparr>) lit = flags s lit"
  "flags (s\<lparr>unsat := x59\<rparr>) lit = flags s lit"
  "flags (s\<lparr>derived := x60\<rparr>) lit = flags s lit"
  by (simp_all add: flags_def)

lemma lits_at_update [simp]:
  "lits_at (s\<lparr>vals := x61\<rparr>) c = lits_at s c"
  "lits_at (s\<lparr>vtab := x62\<rparr>) c = lits_at s c"
  "lits_at (s\<lparr>ftab := x63\<rparr>) c = lits_at s c"
  "lits_at (s\<lparr>control := x64\<rparr>) c = lits_at s c"
  "lits_at (s\<lparr>level := x65\<rparr>) c = lits_at s c"
  "lits_at (s\<lparr>trail := x66\<rparr>) c = lits_at s c"
  "lits_at (s\<lparr>unit_clauses_idx := x67\<rparr>) c = lits_at s c"
  "lits_at (s\<lparr>conflict := x68\<rparr>) c = lits_at s c"
  "lits_at (s\<lparr>clause := x69\<rparr>) c = lits_at s c"
  "lits_at (s\<lparr>analyzed := x70\<rparr>) c = lits_at s c"
  "lits_at (s\<lparr>unit_analyzed := x71\<rparr>) c = lits_at s c"
  "lits_at (s\<lparr>levels := x72\<rparr>) c = lits_at s c"
  "lits_at (s\<lparr>lrat_chain := x73\<rparr>) c = lits_at s c"
  "lits_at (s\<lparr>unit_chain := x74\<rparr>) c = lits_at s c"
  "lits_at (s\<lparr>mini_chain := x75\<rparr>) c = lits_at s c"
  "lits_at (s\<lparr>minimize_chain := x76\<rparr>) c = lits_at s c"
  "lits_at (s\<lparr>minimized := x77\<rparr>) c = lits_at s c"
  "lits_at (s\<lparr>clause_id := x78\<rparr>) c = lits_at s c"
  "lits_at (s\<lparr>unsat := x79\<rparr>) c = lits_at s c"
  "lits_at (s\<lparr>derived := x80\<rparr>) c = lits_at s c"
  by (simp_all add: lits_at_def)

lemma unit_id_update [simp]:
  "unit_id (s\<lparr>vals := x81\<rparr>) lit = unit_id s lit"
  "unit_id (s\<lparr>vtab := x82\<rparr>) lit = unit_id s lit"
  "unit_id (s\<lparr>ftab := x83\<rparr>) lit = unit_id s lit"
  "unit_id (s\<lparr>control := x84\<rparr>) lit = unit_id s lit"
  "unit_id (s\<lparr>level := x85\<rparr>) lit = unit_id s lit"
  "unit_id (s\<lparr>trail := x86\<rparr>) lit = unit_id s lit"
  "unit_id (s\<lparr>clauses := x87\<rparr>) lit = unit_id s lit"
  "unit_id (s\<lparr>conflict := x88\<rparr>) lit = unit_id s lit"
  "unit_id (s\<lparr>clause := x89\<rparr>) lit = unit_id s lit"
  "unit_id (s\<lparr>analyzed := x90\<rparr>) lit = unit_id s lit"
  "unit_id (s\<lparr>unit_analyzed := x91\<rparr>) lit = unit_id s lit"
  "unit_id (s\<lparr>levels := x92\<rparr>) lit = unit_id s lit"
  "unit_id (s\<lparr>lrat_chain := x93\<rparr>) lit = unit_id s lit"
  "unit_id (s\<lparr>unit_chain := x94\<rparr>) lit = unit_id s lit"
  "unit_id (s\<lparr>mini_chain := x95\<rparr>) lit = unit_id s lit"
  "unit_id (s\<lparr>minimize_chain := x96\<rparr>) lit = unit_id s lit"
  "unit_id (s\<lparr>minimized := x97\<rparr>) lit = unit_id s lit"
  "unit_id (s\<lparr>clause_id := x98\<rparr>) lit = unit_id s lit"
  "unit_id (s\<lparr>unsat := x99\<rparr>) lit = unit_id s lit"
  "unit_id (s\<lparr>derived := x100\<rparr>) lit = unit_id s lit"
  by (simp_all add: unit_id_def)

section \<open>The invariant\<close>

abbreviation lev :: "search \<Rightarrow> int \<Rightarrow> nat" where
  "lev s lit \<equiv> vlevel (var s lit)"

text \<open>Values, positions and the arrays.\<close>

definition values_ok :: "search \<Rightarrow> bool" where
  "values_ok s \<longleftrightarrow> length (vtab s) = length (vals s) \<and> length (vals s) \<le> 2 ^ 31 \<and>
     distinct (map vidx (trail s)) \<and>
     (\<forall>lit \<in> set (trail s). lit_in (length (vals s)) lit \<and> val s lit = 1) \<and>
     (\<forall>lit. lit_in (length (vals s)) lit \<longrightarrow> val s lit \<noteq> 0 \<longrightarrow> lit \<in> set (trail s) \<or> - lit \<in> set (trail s)) \<and>
     (\<forall>i < length (trail s). vtrail (var s (trail s ! i)) = i)"

text \<open>What lies before the first decision of a level is of lower levels.\<close>

definition levels_ok :: "search \<Rightarrow> bool" where
  "levels_ok s \<longleftrightarrow> length (control s) = level s + 1 \<and>
     (\<forall>l \<le> level s. ltrail (control s ! l) \<le> length (trail s)) \<and>
     (\<forall>l l'. l \<le> l' \<longrightarrow> l' \<le> level s \<longrightarrow> ltrail (control s ! l) \<le> ltrail (control s ! l')) \<and>
     (\<forall>lit \<in> set (trail s). lev s lit \<le> level s) \<and>
     (\<forall>l < level s. \<forall>i < ltrail (control s ! (l + 1)). lev s (trail s ! i) \<le> l)"

text \<open>A decision opens its level; a propagated literal is the only true one of its reason.\<close>

definition reason_ok :: "search \<Rightarrow> nat \<Rightarrow> bool" where
  "reason_ok s i \<longleftrightarrow>
     (let lit = trail s ! i; l = lev s lit
      in case reason (var s lit) of
           None \<Rightarrow> l = 0 \<or> ltrail (control s ! l) = i \<and> (\<forall>l' \<le> level s. l < l' \<longrightarrow> i < ltrail (control s ! l'))
         | Some c \<Rightarrow> l \<noteq> 0 \<and> c < length (clauses s) \<and> lit \<in> set (lits_at s c) \<and>
             (\<forall>other \<in> set (lits_at s c). other \<noteq> lit \<longrightarrow> - other \<in> set (take i (trail s)) \<and> lev s other \<le> l) \<and>
             (\<exists>other \<in> set (lits_at s c). other \<noteq> lit \<and> lev s other = l))"

definition clauses_ok :: "search \<Rightarrow> bool" where
  "clauses_ok s \<longleftrightarrow>
     (\<forall>c < length (clauses s). 2 \<le> length (lits_at s c) \<and> distinct (lits_at s c) \<and>
        (\<forall>lit \<in> set (lits_at s c). lit_in (length (vals s)) lit))"

definition trail_ok :: "search \<Rightarrow> bool" where
  "trail_ok s \<longleftrightarrow> values_ok s \<and> levels_ok s \<and> (\<forall>i < length (trail s). reason_ok s i) \<and> clauses_ok s"

lemma trail_okD:
  assumes "trail_ok s"
  shows "values_ok s" "levels_ok s" "\<And>i. i < length (trail s) \<Longrightarrow> reason_ok s i" "clauses_ok s"
  using assms unfolding trail_ok_def by blast+

lemma values_okD:
  assumes "values_ok s"
  shows "length (vtab s) = length (vals s)" "length (vals s) \<le> 2 ^ 31" "distinct (map vidx (trail s))"
    and "\<And>lit. lit \<in> set (trail s) \<Longrightarrow> lit_in (length (vals s)) lit"
    and "\<And>lit. lit \<in> set (trail s) \<Longrightarrow> val s lit = 1"
    and "\<And>lit. lit_in (length (vals s)) lit \<Longrightarrow> val s lit \<noteq> 0 \<Longrightarrow> lit \<in> set (trail s) \<or> - lit \<in> set (trail s)"
    and "\<And>i. i < length (trail s) \<Longrightarrow> vtrail (var s (trail s ! i)) = i"
  using assms unfolding values_ok_def by blast+

lemma levels_okD:
  assumes "levels_ok s"
  shows "length (control s) = level s + 1"
    and "\<And>l. l \<le> level s \<Longrightarrow> ltrail (control s ! l) \<le> length (trail s)"
    and "\<And>l l'. l \<le> l' \<Longrightarrow> l' \<le> level s \<Longrightarrow> ltrail (control s ! l) \<le> ltrail (control s ! l')"
    and "\<And>lit. lit \<in> set (trail s) \<Longrightarrow> lev s lit \<le> level s"
    and "\<And>l i. l < level s \<Longrightarrow> i < ltrail (control s ! (l + 1)) \<Longrightarrow> lev s (trail s ! i) \<le> l"
  using assms unfolding levels_ok_def by blast+

lemma clauses_okD:
  assumes "clauses_ok s" "c < length (clauses s)"
  shows "2 \<le> length (lits_at s c)" "distinct (lits_at s c)"
    and "\<And>lit. lit \<in> set (lits_at s c) \<Longrightarrow> lit_in (length (vals s)) lit"
  using assms unfolding clauses_ok_def by blast+

section \<open>Reading the arrays\<close>

lemma vidx_uminus [simp]: "vidx (- lit) = vidx lit"
  by (simp add: vidx_def)

lemma vidx_eq: "vidx a = vidx b \<longleftrightarrow> a = b \<or> a = - b"
  by (auto simp: vidx_def)

lemma vidx_less: "lit_in n lit \<Longrightarrow> vidx lit < n"
  by (simp add: lit_in_def vidx_def)

lemma var_uminus [simp]: "var s (- lit) = var s lit"
  by (simp add: var_def)

lemma flags_uminus [simp]: "flags s (- lit) = flags s lit"
  by (simp add: flags_def)

lemma val_uminus [simp]: "lit \<noteq> 0 \<Longrightarrow> val s (- lit) = - val s lit"
  by (auto simp: val_def)

lemma val_true_iff:
  assumes "values_ok s" "lit_in (length (vals s)) lit"
  shows "val s lit > 0 \<longleftrightarrow> lit \<in> set (trail s)" and "val s lit < 0 \<longleftrightarrow> - lit \<in> set (trail s)"
    and "val s lit = 0 \<longleftrightarrow> lit \<notin> set (trail s) \<and> - lit \<notin> set (trail s)"
proof -
  note v = values_okD [OF assms(1)]
  have nz: "lit \<noteq> 0" using assms(2) by (simp add: lit_in_def)
  have a: "lit \<in> set (trail s) \<Longrightarrow> val s lit = 1" "- lit \<in> set (trail s) \<Longrightarrow> val s lit = -1"
    using v(5) [of lit] v(5) [of "- lit"] val_uminus [OF nz, of s] by simp_all
  have b: "val s lit \<noteq> 0 \<Longrightarrow> lit \<in> set (trail s) \<or> - lit \<in> set (trail s)" by (rule v(6) [OF assms(2)])
  show "val s lit > 0 \<longleftrightarrow> lit \<in> set (trail s)" "val s lit < 0 \<longleftrightarrow> - lit \<in> set (trail s)"
    "val s lit = 0 \<longleftrightarrow> lit \<notin> set (trail s) \<and> - lit \<notin> set (trail s)"
    using a b by fastforce+
qed

lemma trail_consistent:
  assumes "values_ok s" "lit \<in> set (trail s)"
  shows "- lit \<notin> set (trail s)"
proof
  assume "- lit \<in> set (trail s)"
  then have "val s (- lit) = 1" "val s lit = 1" using values_okD(5) [OF assms(1)] assms(2) by blast+
  moreover have "lit \<noteq> 0" using values_okD(4) [OF assms] by (simp add: lit_in_def)
  ultimately show False by simp
qed

text \<open>The position of a literal on the trail.\<close>

lemma trail_position:
  assumes "values_ok s" "lit \<in> set (trail s)"
  shows "vtrail (var s lit) < length (trail s)" "trail s ! vtrail (var s lit) = lit"
  using values_okD(7) [OF assms(1)] assms(2) by (metis in_set_conv_nth)+

lemma in_take_position:
  assumes "values_ok s" "i \<le> length (trail s)"
  shows "lit \<in> set (take i (trail s)) \<longleftrightarrow> lit \<in> set (trail s) \<and> vtrail (var s lit) < i"
proof
  assume "lit \<in> set (take i (trail s))"
  then obtain j where j: "j < i" "lit = trail s ! j" using assms(2) by (auto simp: in_set_conv_nth)
  then show "lit \<in> set (trail s) \<and> vtrail (var s lit) < i"
    using assms values_okD(7) [OF assms(1), of j] by simp
next
  assume "lit \<in> set (trail s) \<and> vtrail (var s lit) < i"
  then show "lit \<in> set (take i (trail s))"
    using trail_position [OF assms(1)] assms(2) by (force simp: in_set_conv_nth)
qed

text \<open>The reason of a true literal, by literal instead of position.\<close>

lemma reason_Some:
  assumes "trail_ok s" "lit \<in> set (trail s)" "reason (var s lit) = Some c"
  shows "c < length (clauses s)" "lit \<in> set (lits_at s c)" "lev s lit \<noteq> 0"
    and "\<And>other. other \<in> set (lits_at s c) \<Longrightarrow> other \<noteq> lit \<Longrightarrow>
      - other \<in> set (trail s) \<and> vtrail (var s other) < vtrail (var s lit) \<and> lev s other \<le> lev s lit"
    and "\<exists>other \<in> set (lits_at s c). other \<noteq> lit \<and> lev s other = lev s lit"
proof -
  note T = trail_okD [OF assms(1)]
  note p = trail_position [OF T(1) assms(2)]
  have r: "reason_ok s (vtrail (var s lit))" using T(3) p(1) .
  then show "c < length (clauses s)" "lit \<in> set (lits_at s c)" "lev s lit \<noteq> 0"
    "\<exists>other \<in> set (lits_at s c). other \<noteq> lit \<and> lev s other = lev s lit"
    unfolding reason_ok_def p(2) Let_def assms(3) by auto
  show "- other \<in> set (trail s) \<and> vtrail (var s other) < vtrail (var s lit) \<and> lev s other \<le> lev s lit"
    if "other \<in> set (lits_at s c)" "other \<noteq> lit" for other
  proof -
    have "- other \<in> set (take (vtrail (var s lit)) (trail s)) \<and> lev s other \<le> lev s lit"
      using r that unfolding reason_ok_def p(2) Let_def assms(3) by auto
    then show ?thesis using in_take_position [OF T(1), of "vtrail (var s lit)" "- other"] p(1) by simp
  qed
qed

lemma reason_None:
  assumes "trail_ok s" "lit \<in> set (trail s)" "reason (var s lit) = None" "lev s lit \<noteq> 0"
  shows "ltrail (control s ! lev s lit) = vtrail (var s lit)"
    and "\<And>l. l \<le> level s \<Longrightarrow> lev s lit < l \<Longrightarrow> vtrail (var s lit) < ltrail (control s ! l)"
proof -
  note T = trail_okD [OF assms(1)]
  note p = trail_position [OF T(1) assms(2)]
  have r: "reason_ok s (vtrail (var s lit))" using T(3) p(1) .
  then show "ltrail (control s ! lev s lit) = vtrail (var s lit)"
    "\<And>l. l \<le> level s \<Longrightarrow> lev s lit < l \<Longrightarrow> vtrail (var s lit) < ltrail (control s ! l)"
    using assms(4) unfolding reason_ok_def p(2) Let_def assms(3) by auto
qed

lemma level_start:
  assumes "trail_ok s" "lit \<in> set (trail s)" "lev s lit \<noteq> 0"
  shows "ltrail (control s ! lev s lit) \<le> vtrail (var s lit)"
proof (rule ccontr)
  note T = trail_okD [OF assms(1)]
  note p = trail_position [OF T(1) assms(2)]
  obtain l where l: "lev s lit = Suc l" using assms(3) not0_implies_Suc by blast
  assume "\<not> ?thesis"
  then have "lev s (trail s ! vtrail (var s lit)) \<le> l"
    using levels_okD(5) [OF T(2), of l] levels_okD(4) [OF T(2) assms(2)] l by simp
  then show False using p(2) l by simp
qed

section \<open>Assigning\<close>

text \<open>The state after \<open>lit\<close> was put on the trail with the data \<open>v\<close>.\<close>

definition puts_literal :: "search \<Rightarrow> int \<Rightarrow> Var \<Rightarrow> search \<Rightarrow> bool" where
  "puts_literal s lit v t \<longleftrightarrow> trail t = trail s @ [lit] \<and> vals t = vals (set_val lit 1 s) \<and>
     vtab t = (vtab s)[vidx lit := v] \<and> control t = control s \<and> level t = level s \<and> clauses t = clauses s"

lemma putsD:
  assumes "puts_literal s lit v t"
  shows "trail t = trail s @ [lit]" "vals t = vals (set_val lit 1 s)" "vtab t = (vtab s)[vidx lit := v]"
    "control t = control s" "level t = level s" "clauses t = clauses s"
  using assms unfolding puts_literal_def by blast+

lemma puts_values:
  assumes "puts_literal s lit v t" "values_ok s" "lit_in (length (vals s)) lit" "val s lit = 0"
  shows "length (vals t) = length (vals s)" "length (vtab t) = length (vtab s)"
    and "var t k = (if vidx k = vidx lit then v else var s k)"
    and "val t k = (if k = lit then 1 else if k = - lit then -1 else val s k)"
    and "lit \<notin> set (trail s)" "- lit \<notin> set (trail s)"
proof -
  note p = putsD [OF assms(1)] and V = values_okD [OF assms(2)]
  have nz: "lit \<noteq> 0" and less: "vidx lit < length (vals s)" using assms(3) vidx_less by (auto simp: lit_in_def)
  show "length (vals t) = length (vals s)" "length (vtab t) = length (vtab s)" using p by (simp_all add: set_val_def)
  show "var t k = (if vidx k = vidx lit then v else var s k)"
    using p(3) V(1) less by (simp add: var_def nth_list_update)
  show "val t k = (if k = lit then 1 else if k = - lit then -1 else val s k)"
    using p(2) less nz vidx_eq [of k lit] by (auto simp: val_def set_val_def nth_list_update)
  show "lit \<notin> set (trail s)" "- lit \<notin> set (trail s)" using val_true_iff(3) [OF assms(2,3)] assms(4) by simp_all
qed

lemma puts_ok:
  assumes p: "puts_literal s lit v t" and ok: "trail_ok s"
    and lit: "lit_in (length (vals s)) lit" "val s lit = 0"
    and v: "vlevel v \<le> level s" "vtrail v = length (trail s)" "reason_ok t (length (trail s))"
  shows "trail_ok t"
proof -
  note P = putsD [OF p] and T = trail_okD [OF ok]
  note V = values_okD [OF T(1)] and L = levels_okD [OF T(2)]
  note W = puts_values [OF p T(1) lit]
  have new: "vidx k \<noteq> vidx lit" if "k \<in> set (trail s)" for k
    using that W(5,6) vidx_eq [of k lit] by metis
  have old: "var t k = var s k" "val t k = val s k" if "k \<in> set (trail s)" for k
    using new [OF that] W(3,4) vidx_eq by simp_all
  have vt: "val t k \<noteq> 0 \<Longrightarrow> k \<in> set (trail t) \<or> - k \<in> set (trail t)" if "lit_in (length (vals t)) k" for k
    using that V(6) [of k] W(1,4) P(1) by (auto split: if_splits)
  have "distinct (map vidx (trail t))" using V(3) new P(1) by force
  moreover have "vtrail (var t (trail t ! i)) = i" if "i < length (trail t)" for i
    using that V(7) [of i] old(1) [of "trail s ! i"] W(3) v(2) P(1) by (cases "i < length (trail s)") (auto simp: nth_append)
  moreover have "\<forall>k \<in> set (trail t). lit_in (length (vals t)) k \<and> val t k = 1"
    using V(4,5) lit old(2) W(1,4) P(1) by auto
  ultimately have vok: "values_ok t" using vt W(1,2) V(1,2) unfolding values_ok_def by simp
  have pos: "i < length (trail s)" if "l < level s" "i < ltrail (control s ! (l + 1))" for i l
    using that L(2) [of "l + 1"] by simp
  have "lev t (trail t ! i) \<le> l" if "l < level s" "i < ltrail (control s ! (l + 1))" for l i
    using L(5) [OF that] pos [OF that] old(1) [of "trail s ! i"] P(1) by (simp add: nth_append)
  moreover have "\<forall>k \<in> set (trail t). lev t k \<le> level t" using L(4) old(1) W(3) v(1) P(1,5) by simp
  ultimately have lok: "levels_ok t"
    using L(1-3) P(1,4,5) unfolding levels_ok_def by (simp add: le_SucI)
  have old_ok: "reason_ok t i" if i: "i < length (trail s)" for i
  proof -
    let ?k = "trail s ! i"
    have k: "?k \<in> set (trail s)" using i by simp
    note kv = old(1) [OF k]
    have tk: "take i (trail t) = take i (trail s)" "trail t ! i = ?k" using i P(1) by (simp_all add: nth_append)
    have lo: "lev t other = lev s other" if "- other \<in> set (trail s)" for other
      using old(1) [OF that] by simp
    note la = lits_at_def [of t] lits_at_def [of s]
    show ?thesis
    proof (cases "reason (var s ?k)")
      case None
      then show ?thesis using T(3) [OF i] P(4,5) unfolding reason_ok_def tk Let_def kv by simp
    next
      case (Some c)
      have o: "- other \<in> set (trail s)" if "other \<in> set (lits_at s c)" "other \<noteq> ?k" for other
        using reason_Some(4) [OF ok k Some that] by blast
      show ?thesis using T(3) [OF i] lo [OF o] P(6) unfolding reason_ok_def tk Let_def kv Some la by auto
    qed
  qed
  have "reason_ok t i" if "i < length (trail t)" for i
    using that v(3) old_ok [of i] P(1) by (cases "i < length (trail s)") (auto simp: less_Suc_eq)
  moreover have "clauses_ok t" using T(4) P(6) W(1) unfolding clauses_ok_def lits_at_def by simp
  ultimately show ?thesis using vok lok unfolding trail_ok_def by blast
qed

lemma assignment_level_max:
  "(\<forall>other \<in> set (lits_at s c). other \<noteq> lit \<longrightarrow> lev s other \<le> assignment_level s lit c) \<and>
   (assignment_level s lit c = 0 \<or>
    (\<exists>other \<in> set (lits_at s c). other \<noteq> lit \<and> lev s other = assignment_level s lit c))"
proof -
  define f where "f = (\<lambda>other res. if other = lit then res else if lev s other > res then lev s other else res)"
  have "m \<le> fold f xs m \<and> (\<forall>other \<in> set xs. other \<noteq> lit \<longrightarrow> lev s other \<le> fold f xs m) \<and>
    (fold f xs m = m \<or> (\<exists>other \<in> set xs. other \<noteq> lit \<and> lev s other = fold f xs m))" for xs m
  proof (induction xs arbitrary: m)
    case (Cons x xs)
    show ?case using Cons.IH [of "f x m"] by (auto simp: f_def split: if_splits)
  qed simp
  from this [of 0 "lits_at s c"] show ?thesis by (simp add: assignment_level_def f_def)
qed

definition assigned_var :: "search \<Rightarrow> int \<Rightarrow> assign_reason \<Rightarrow> Var" where
  "assigned_var s lit r =
     (let l = (case r of No_reason \<Rightarrow> 0 | Decision_reason \<Rightarrow> level s | Reason c \<Rightarrow> assignment_level s lit c)
      in \<lparr>vlevel = l, vtrail = length (trail s),
          reason = (if l = 0 then None else case r of Reason c \<Rightarrow> Some c | _ \<Rightarrow> None)\<rparr>)"

lemma search_assign_puts: "puts_literal s lit (assigned_var s lit r) (search_assign opts lit r s)"
  by (simp add: puts_literal_def search_assign_def assigned_var_def learn_unit_clause_def set_val_def Let_def)

lemma assign_unit_ok:
  assumes "trail_ok s" "lit_in (length (vals s)) lit" "val s lit = 0"
  shows "trail_ok (search_assign opts lit No_reason s)"
proof (rule puts_ok [OF search_assign_puts assms])
  note p = putsD [OF search_assign_puts [of s lit No_reason opts]]
    and w = puts_values [OF search_assign_puts [of s lit No_reason opts] trail_okD(1) [OF assms(1)] assms(2,3)]
  show "reason_ok (search_assign opts lit No_reason s) (length (trail s))"
    unfolding reason_ok_def p w(3) by (simp add: assigned_var_def)
qed (simp_all add: assigned_var_def)

text \<open>The other literals of a clause are false.\<close>

definition others_false :: "search \<Rightarrow> int \<Rightarrow> nat \<Rightarrow> bool" where
  "others_false s lit c \<longleftrightarrow> (\<forall>other \<in> set (lits_at s c). other \<noteq> lit \<longrightarrow> val s other < 0)"

lemma others_falseD:
  assumes "trail_ok s" "c < length (clauses s)" "others_false s lit c" "other \<in> set (lits_at s c)" "other \<noteq> lit"
  shows "- other \<in> set (trail s)"
  using assms val_true_iff(2) [OF trail_okD(1) [OF assms(1)] clauses_okD(3) [OF trail_okD(4) [OF assms(1)] assms(2,4)]]
  unfolding others_false_def by blast

lemma assign_reason_ok:
  assumes ok: "trail_ok s" and c: "c < length (clauses s)" "lit \<in> set (lits_at s c)" "others_false s lit c"
    and lit: "val s lit = 0"
  shows "trail_ok (search_assign opts lit (Reason c) s)"
proof -
  note T = trail_okD [OF ok]
  have inl: "lit_in (length (vals s)) lit" using clauses_okD(3) [OF T(4) c(1,2)] .
  note p = search_assign_puts [of s lit "Reason c" opts]
  note P = putsD [OF p] and W = puts_values [OF p T(1) inl lit]
  note m = assignment_level_max [of s c lit]
  have o: "- other \<in> set (trail s)" if "other \<in> set (lits_at s c)" "other \<noteq> lit" for other
    using others_falseD [OF ok c(1,3) that] .
  have lo: "lev s other \<le> level s" if "other \<in> set (lits_at s c)" "other \<noteq> lit" for other
    using levels_okD(4) [OF T(2) o [OF that]] by simp
  have le: "assignment_level s lit c \<le> level s" using m lo by (metis le0)
  have vo: "var (search_assign opts lit (Reason c) s) other = var s other" if "other \<in> set (lits_at s c)" "other \<noteq> lit" for other
  proof -
    have "vidx other \<noteq> vidx lit" using o [OF that] W(5) that(2) vidx_eq by (metis minus_minus)
    then show ?thesis by (simp add: W(3))
  qed
  show ?thesis
  proof (rule puts_ok [OF p ok inl lit])
    have "reason_ok (search_assign opts lit (Reason c) s) (length (trail s))"
      if "assignment_level s lit c \<noteq> 0"
      unfolding reason_ok_def P(1) Let_def nth_append_length W(3)
      using that c m o vo P(6) by (auto simp: assigned_var_def lits_at_def)
    moreover have "reason_ok (search_assign opts lit (Reason c) s) (length (trail s))"
      if "assignment_level s lit c = 0"
      unfolding reason_ok_def P(1) Let_def nth_append_length W(3) using that by (simp add: assigned_var_def)
    ultimately show "reason_ok (search_assign opts lit (Reason c) s) (length (trail s))" by blast
  qed (use le in \<open>simp_all add: assigned_var_def Let_def\<close>)
qed

lemma new_trail_level_ok:
  assumes "trail_ok s"
  shows "trail_ok (new_trail_level lit s)"
proof -
  let ?t = "new_trail_level lit s"
  note T = trail_okD [OF assms]
  note L = levels_okD [OF T(2)]
  have s: "trail ?t = trail s" "vals ?t = vals s" "vtab ?t = vtab s" "clauses ?t = clauses s" "level ?t = level s + 1"
    by (simp_all add: new_trail_level_def)
  have c: "l \<le> level s \<Longrightarrow> control ?t ! l = control s ! l" "ltrail (control ?t ! Suc (level s)) = length (trail s)" for l
    using L(1) by (simp_all add: new_trail_level_def nth_append)
  have v: "var ?t k = var s k" "val ?t k = val s k" "lits_at ?t k' = lits_at s k'" for k k'
    by (simp_all add: var_def val_def lits_at_def s)
  have "values_ok ?t" using T(1) unfolding values_ok_def s v .
  moreover have "levels_ok ?t"
    unfolding levels_ok_def s v
  proof (intro conjI allI impI ballI)
    show "length (control ?t) = level s + 1 + 1" using L(1) by (simp add: new_trail_level_def)
    show "ltrail (control ?t ! l) \<le> length (trail s)" if "l \<le> level s + 1" for l
      using that c L(2) by (cases "l \<le> level s") (auto simp: le_Suc_eq)
    show "ltrail (control ?t ! l) \<le> ltrail (control ?t ! l')" if "l \<le> l'" "l' \<le> level s + 1" for l l'
      using that c L(2,3) by (cases "l' \<le> level s"; cases "l \<le> level s") (auto simp: le_Suc_eq)
    show "lev s k \<le> level s + 1" if "k \<in> set (trail s)" for k using L(4) [OF that] by simp
    show "lev s (trail s ! i) \<le> l" if "l < level s + 1" "i < ltrail (control ?t ! (l + 1))" for l i
      using that c L(4,5) by (cases "l < level s") (auto simp: less_Suc_eq)
  qed
  moreover have "reason_ok ?t i" if i: "i < length (trail s)" for i
  proof -
    have le: "lev s (trail s ! i) \<le> level s" using L(4) i by simp
    show ?thesis using T(3) [OF i] i c(2) c(1) [OF le] c(1) unfolding reason_ok_def s v Let_def
      by (auto split: option.splits simp: le_Suc_eq)
  qed
  moreover have "clauses_ok ?t" using T(4) by (simp add: clauses_ok_def s v)
  ultimately show ?thesis by (simp add: trail_ok_def s)
qed

lemma assume_decision_ok:
  assumes "trail_ok s" "lit_in (length (vals s)) lit" "val s lit = 0"
  shows "trail_ok (search_assume_decision opts lit s)"
proof -
  let ?s = "new_trail_level lit s" and ?t = "search_assume_decision opts lit s"
  note ok = new_trail_level_ok [OF assms(1), of lit]
  have a: "lit_in (length (vals ?s)) lit" "val ?s lit = 0" using assms by (simp_all add: new_trail_level_def val_def split: if_splits)
  note p = putsD [OF search_assign_puts [of ?s lit Decision_reason opts]]
  note w = puts_values(3) [OF search_assign_puts [of ?s lit Decision_reason opts] trail_okD(1) [OF ok] a]
  have "ltrail (control ?s ! level ?s) = length (trail ?s)"
    using levels_okD(1) [OF trail_okD(2) [OF assms(1)]] by (simp add: new_trail_level_def nth_append)
  then have "reason_ok ?t (length (trail ?s))"
    unfolding search_assume_decision_def reason_ok_def Let_def p w nth_append_length by (simp add: assigned_var_def Let_def)
  then show ?thesis unfolding search_assume_decision_def
    by (intro puts_ok [OF search_assign_puts ok a]) (simp_all add: assigned_var_def Let_def)
qed

section \<open>Backtracking\<close>

lemma nth_filter:
  assumes "i < length (filter P xs)"
  shows "\<exists>j < length xs. filter P xs ! i = xs ! j \<and> take i (filter P xs) = filter P (take j xs)"
  using assms
proof (induction xs arbitrary: i)
  case (Cons x xs)
  show ?case
  proof (cases "P x \<and> i = 0")
    case False
    then obtain k where k: "k < length (filter P xs)" "i = (if P x then Suc k else k)"
      using Cons.prems by (cases i) (auto split: if_splits)
    then obtain j where "j < length xs" "filter P xs ! k = xs ! j" "take k (filter P xs) = filter P (take j xs)"
      using Cons.IH by blast
    then have "Suc j < length (x # xs) \<and> filter P (x # xs) ! i = (x # xs) ! Suc j \<and>
        take i (filter P (x # xs)) = filter P (take (Suc j) (x # xs))"
      using k(2) by simp
    then show ?thesis by blast
  qed (intro exI [of _ 0], simp)
qed simp

text \<open>What the loop of \<open>backtrack\<close> does to the literals \<open>xs\<close>.\<close>

lemma retain_simps [simp]:
  "control (retain l x s) = control s" "level (retain l x s) = level s" "clauses (retain l x s) = clauses s"
  "length (vals (retain l x s)) = length (vals s)" "length (vtab (retain l x s)) = length (vtab s)"
  "search.more (retain l x s) = search.more s"
  by (simp_all add: retain_def set_val_def)

lemma retain_var: "lev (retain l x s) k = lev s k \<and> reason (var (retain l x s) k) = reason (var s k)"
  by (cases "vidx x < length (vtab s)")
    (auto simp: retain_def set_val_def var_def upd_nth_def nth_list_update list_update_beyond)

lemma fold_retain_same:
  "control (fold (retain l) xs s) = control s" "level (fold (retain l) xs s) = level s"
  "clauses (fold (retain l) xs s) = clauses s" "length (vals (fold (retain l) xs s)) = length (vals s)"
  "length (vtab (fold (retain l) xs s)) = length (vtab s)"
  "lev (fold (retain l) xs s) k = lev s k" "reason (var (fold (retain l) xs s) k) = reason (var s k)"
  by (induction xs arbitrary: s) (simp_all add: retain_var)

lemma fold_retain_trail: "trail (fold (retain l) xs s) = trail s @ filter (\<lambda>x. lev s x \<le> l) xs"
proof (induction xs arbitrary: s)
  case (Cons x xs)
  have "trail (retain l x s) = trail s @ filter (\<lambda>x. lev s x \<le> l) [x]" by (simp add: retain_def set_val_def)
  then show ?case using Cons.IH [of "retain l x s"] retain_var by simp
qed simp

lemma fold_retain_vals:
  assumes "\<forall>x \<in> set xs. lit_in (length (vals s)) x" "k \<noteq> 0"
  shows "val (fold (retain l) xs s) k =
    (if \<exists>x \<in> set xs. vidx x = vidx k \<and> lev s x > l then 0 else val s k)"
  using assms(1)
proof (induction xs arbitrary: s)
  case (Cons x xs)
  have x: "vidx x < length (vals s)" using Cons.prems vidx_less by simp
  have "val (retain l x s) k = (if vidx x = vidx k \<and> lev s x > l then 0 else val s k)"
    using x by (auto simp: retain_def set_val_def val_def nth_list_update)
  then show ?case using Cons.IH [of "retain l x s"] Cons.prems retain_var by auto
qed simp

lemma fold_retain_positions:
  assumes "distinct (map vidx (trail s @ xs))" "\<forall>x \<in> set xs. vidx x < length (vtab s)"
    and "\<forall>i < length (trail s). vtrail (var s (trail s ! i)) = i"
  shows "\<forall>i < length (trail (fold (retain l) xs s)).
    vtrail (var (fold (retain l) xs s) (trail (fold (retain l) xs s) ! i)) = i"
  using assms
proof (induction xs arbitrary: s)
  case (Cons x xs)
  let ?t = "retain l x s"
  have ts: "trail ?t = (if lev s x \<le> l then trail s @ [x] else trail s)" by (simp add: retain_def set_val_def)
  have v: "vtrail (var ?t k) = (if lev s x \<le> l \<and> vidx k = vidx x then length (trail s) else vtrail (var s k))" for k
    using Cons.prems(2) by (auto simp: retain_def set_val_def var_def nth_upd_nth)
  have new: "vidx (trail s ! i) \<noteq> vidx x" if "i < length (trail s)" for i
    using Cons.prems(1) that nth_mem [OF that] by (metis (no_types, lifting) Un_iff distinct.simps(2)
        distinct_append image_eqI list.set_map list.simps(9) map_append not_distinct_conv_prefix set_append disjoint_iff list.set_intros(1))
  have "\<forall>i < length (trail ?t). vtrail (var ?t (trail ?t ! i)) = i"
    using Cons.prems(3) new unfolding ts v by (auto simp: nth_append less_Suc_eq)
  moreover have "distinct (map vidx (trail ?t @ xs))" using Cons.prems(1) unfolding ts by auto
  ultimately show ?case using Cons.IH [of ?t] Cons.prems(2) by simp
qed simp

text \<open>The effect of backtracking on a consistent trail.\<close>

lemma backtrack_effect:
  assumes ok: "trail_ok s" and l: "l \<le> level s"
  defines "t \<equiv> backtrack l s"
  shows "trail t = filter (\<lambda>x. lev s x \<le> l) (trail s)" "level t = l" "control t = take (l + 1) (control s)"
    and "clauses t = clauses s" "length (vals t) = length (vals s)" "length (vtab t) = length (vtab s)"
    and "\<And>k. lev t k = lev s k" "\<And>k. reason (var t k) = reason (var s k)"
    and "\<And>k. k \<noteq> 0 \<Longrightarrow> val t k = (if lev s k > l \<and> (k \<in> set (trail s) \<or> - k \<in> set (trail s)) then 0 else val s k)"
    and "\<And>i. i < length (trail t) \<Longrightarrow> vtrail (var t (trail t ! i)) = i"
    and "l < level s \<Longrightarrow> take (ltrail (control s ! (l + 1))) (trail t) = take (ltrail (control s ! (l + 1))) (trail s)"
proof -
  note T = trail_okD [OF ok]
  note V = values_okD [OF T(1)] and L = levels_okD [OF T(2)]
  let ?q = "ltrail (control s ! (l + 1))"
  let ?s = "s\<lparr>trail := take ?q (trail s)\<rparr>"
  let ?f = "fold (retain l) (drop ?q (trail s)) ?s"
  have split: "trail s = take ?q (trail s) @ drop ?q (trail s)" by simp
  show "level t = l" by (simp add: t_def backtrack_def Let_def)
  show "control t = take (l + 1) (control s)" using L(1) by (simp add: t_def backtrack_def Let_def fold_retain_same)
  show "clauses t = clauses s" "length (vals t) = length (vals s)" "length (vtab t) = length (vtab s)"
    "lev t k = lev s k" "reason (var t k) = reason (var s k)" for k
    using fold_retain_same [of l "drop ?q (trail s)" ?s] by (simp_all add: t_def backtrack_def Let_def var_def)
  have le: "lev s x \<le> l" if "l = level s" "x \<in> set (trail s)" for x using that L(4) by simp
  have low: "lev s x \<le> l" if "l < level s" "x \<in> set (take ?q (trail s))" for x
    using that L(5) [OF that(1)] L(2) [of "l + 1"] by (auto simp: in_set_conv_nth)
  have high: "x \<in> set (drop ?q (trail s))" if "l < level s" "lev s x > l" "x \<in> set (trail s)" for x
    using low [OF that(1), of x] that(2,3) split by (metis Un_iff not_le set_append)
  have keep_low: "filter (\<lambda>x. lev s x \<le> l) (take ?q (trail s)) = take ?q (trail s)" if "l < level s"
    using low [OF that] by simp
  have f: "trail ?f = filter (\<lambda>x. lev s x \<le> l) (trail s)" if "l < level s"
    using fold_retain_trail [of l "drop ?q (trail s)" ?s] keep_low [OF that] filter_append [of _ "take ?q (trail s)" "drop ?q (trail s)"]
    by simp
  have tr: "trail t = (if l = level s then trail s else trail ?f)" by (simp add: t_def backtrack_def Let_def)
  show ft: "trail t = filter (\<lambda>x. lev s x \<le> l) (trail s)"
    using tr f l le by (cases "l = level s") (simp_all add: filter_id_conv)
  show "val t k = (if lev s k > l \<and> (k \<in> set (trail s) \<or> - k \<in> set (trail s)) then 0 else val s k)" if k: "k \<noteq> 0" for k
  proof (cases "l = level s")
    case True
    then show ?thesis using le [of k] le [of "- k"] by (auto simp: t_def backtrack_def)
  next
    case False
    then have less: "l < level s" using l by simp
    have "\<forall>x \<in> set (drop ?q (trail s)). lit_in (length (vals ?s)) x" using V(4) in_set_dropD by fastforce
    note fold_retain_vals [OF this k, of l, unfolded val_update var_update]
    moreover have "val t k = val ?f k" using False by (simp add: t_def backtrack_def Let_def)
    ultimately have "val t k = (if \<exists>x \<in> set (drop ?q (trail s)). vidx x = vidx k \<and> lev s x > l then 0 else val s k)"
      by metis
    moreover have "(\<exists>x \<in> set (drop ?q (trail s)). vidx x = vidx k \<and> lev s x > l) \<longleftrightarrow>
        lev s k > l \<and> (k \<in> set (trail s) \<or> - k \<in> set (trail s))"
      using high [OF less, of k] high [OF less, of "- k"] in_set_dropD [of _ ?q "trail s"]
      by (auto simp: vidx_eq)
    ultimately show ?thesis by simp
  qed
  show "vtrail (var t (trail t ! i)) = i" if "i < length (trail t)" for i
  proof (cases "l = level s")
    case True
    then show ?thesis using V(7) that by (simp add: t_def backtrack_def)
  next
    case False
    then have less: "l < level s" using l by simp
    have d: "distinct (map vidx (trail ?s @ drop ?q (trail s)))" using V(3) by (simp flip: map_append)
    have x: "\<forall>x \<in> set (drop ?q (trail s)). vidx x < length (vtab ?s)"
      using V(1,4) vidx_less in_set_dropD by fastforce
    have p: "\<forall>i < length (trail ?s). vtrail (var ?s (trail ?s ! i)) = i" using V(7) by simp
    have "var t k = var ?f k" "trail t = trail ?f" for k using False by (simp_all add: t_def backtrack_def Let_def var_def)
    then show ?thesis using fold_retain_positions [OF d x p, of l] that by simp
  qed
  show "take ?q (trail t) = take ?q (trail s)" if "l < level s"
  proof -
    have q: "?q \<le> length (trail s)" using L(2) [of "l + 1"] that by simp
    have "trail t = take ?q (trail s) @ filter (\<lambda>x. lev s x \<le> l) (drop ?q (trail s))"
      unfolding ft using keep_low [OF that] filter_append [of _ "take ?q (trail s)" "drop ?q (trail s)"] by simp
    then show ?thesis using q by simp
  qed
qed


lemma backtrack_ok:
  assumes ok: "trail_ok s" and l: "l \<le> level s"
  shows "trail_ok (backtrack l s)"
proof (cases "l = level s")
  case True
  then show ?thesis using ok by (simp add: backtrack_def)
next
  case False
  then have less: "l < level s" using l by simp
  let ?t = "backtrack l s" and ?q = "ltrail (control s ! (l + 1))"
  note T = trail_okD [OF ok]
  note V = values_okD [OF T(1)] and L = levels_okD [OF T(2)]
  note B = backtrack_effect [OF ok l]
  have sub: "x \<in> set (trail ?t) \<longleftrightarrow> x \<in> set (trail s) \<and> lev s x \<le> l" for x using B(1) by simp
  have inl: "lit_in (length (vals s)) x" if "x \<in> set (trail s)" for x using V(4) [OF that] .
  have nz: "x \<noteq> 0" if "lit_in n x" for x n using that by (simp add: lit_in_def)
  have vok: "values_ok ?t"
    unfolding values_ok_def B(5,6)
  proof (intro conjI ballI allI impI)
    show "distinct (map vidx (trail ?t))" unfolding B(1) by (rule distinct_map_filter [OF V(3)])
    show "val ?t x = 1" if "x \<in> set (trail ?t)" for x
      using that sub B(9) [OF nz [OF inl]] V(5) by auto
    show "x \<in> set (trail ?t) \<or> - x \<in> set (trail ?t)" if "lit_in (length (vals s)) x" "val ?t x \<noteq> 0" for x
      using that B(9) [OF nz [OF that(1)]] V(6) [OF that(1)] sub by (auto split: if_splits)
  qed (use V B(10) sub inl in auto)
  have q: "?q \<le> length (trail s)" using L(2) [of "l + 1"] less by simp
  have tq: "take ?q (trail ?t) = take ?q (trail s)" using B(11) [OF less] .
  then have len: "?q \<le> length (trail ?t)" using q by (metis length_take min.absorb_iff2 min_def)
  have same: "trail ?t ! i = trail s ! i" if "i < ?q" for i using tq that by (metis nth_take)
  have c: "control ?t ! k = control s ! k" if "k \<le> l" for k using that B(3) by simp
  have lok: "levels_ok ?t"
    unfolding levels_ok_def B(2,7)
  proof (intro conjI ballI allI impI)
    show "length (control ?t) = l + 1" using B(3) L(1) less by simp
    show "ltrail (control ?t ! k) \<le> length (trail ?t)" if "k \<le> l" for k
      using L(3) [of k "l + 1"] that less len c [OF that] by simp
    show "ltrail (control ?t ! k) \<le> ltrail (control ?t ! k')" if "k \<le> k'" "k' \<le> l" for k k'
      using L(3) [of k k'] that less c by simp
    show "lev s x \<le> l" if "x \<in> set (trail ?t)" for x using that sub by simp
    show "lev s (trail ?t ! i) \<le> k" if "k < l" "i < ltrail (control ?t ! (k + 1))" for k i
    proof -
      have "ltrail (control s ! (k + 1)) \<le> ?q" using L(3) [of "k + 1" "l + 1"] that(1) less by simp
      then show ?thesis using L(5) [of k i] that less same [of i] c [of "k + 1"] by simp
    qed
  qed
  have rok: "reason_ok ?t i" if i: "i < length (trail ?t)" for i
  proof -
    let ?x = "trail ?t ! i"
    from nth_filter [of i "\<lambda>x. lev s x \<le> l" "trail s"] i B(1)
    obtain j where j: "j < length (trail s)" "?x = trail s ! j"
      "take i (trail ?t) = filter (\<lambda>x. lev s x \<le> l) (take j (trail s))" by auto
    have x: "?x \<in> set (trail s)" "lev s ?x \<le> l" using sub i nth_mem by blast+
    show ?thesis
    proof (cases "reason (var s ?x)")
      case None
      have "ltrail (control ?t ! lev s ?x) = i \<and> (\<forall>k \<le> l. lev s ?x < k \<longrightarrow> i < ltrail (control ?t ! k))"
        if lv: "lev s ?x \<noteq> 0"
      proof -
        note rn = reason_None [OF ok x(1) None lv]
        note p = trail_position [OF T(1) x(1)]
        have "vtrail (var s ?x) < ?q" using rn(2) [of "l + 1"] x(2) less by simp
        then have "trail ?t ! vtrail (var s ?x) = ?x" "vtrail (var s ?x) < length (trail ?t)"
          using same p(2) len by simp_all
        then have "vtrail (var s ?x) = i"
          using i V(3) B(1) distinct_map_filter [OF V(3)] nth_eq_iff_index_eq [of "trail ?t"] by (simp add: distinct_map)
        then show ?thesis using rn x(2) less c by simp
      qed
      then show ?thesis using None unfolding reason_ok_def Let_def B(2,7,8) by auto
    next
      case (Some r)
      note rs = reason_Some [OF ok x(1) Some]
      have o: "- other \<in> set (take i (trail ?t))" if "other \<in> set (lits_at s r)" "other \<noteq> ?x" for other
      proof -
        have "- other \<in> set (trail s)" "vtrail (var s other) < vtrail (var s ?x)" "lev s other \<le> l"
          using rs(4) [OF that] x(2) by auto
        moreover have "vtrail (var s ?x) = j" using V(7) [OF j(1)] j(2) by simp
        ultimately have "- other \<in> set (take j (trail s))"
          using in_take_position [OF T(1), of j "- other"] j(1) by simp
        then show ?thesis unfolding j(3) using \<open>lev s other \<le> l\<close> by simp
      qed
      have "lits_at ?t r = lits_at s r" by (simp add: lits_at_def B(4))
      then show ?thesis using o rs Some unfolding reason_ok_def Let_def B(2,4,7,8) by auto
    qed
  qed
  have "clauses_ok ?t" using T(4) unfolding clauses_ok_def lits_at_def B(4,5) .
  then show ?thesis using vok lok rok unfolding trail_ok_def by blast
qed

section \<open>Reordering a clause\<close>

text \<open>The same state but for the order of literals within the clauses.\<close>

lemma reordered_ok:
  assumes ok: "trail_ok s" and len: "length cs = length (clauses s)"
    and same: "\<And>c. c < length cs \<Longrightarrow> mset (sc_lits (cs ! c)) = mset (lits_at s c)"
  shows "trail_ok (s\<lparr>clauses := cs\<rparr>)"
proof -
  let ?t = "s\<lparr>clauses := cs\<rparr>"
  note T = trail_okD [OF ok]
  have l: "set (lits_at ?t c) = set (lits_at s c)" "length (lits_at ?t c) = length (lits_at s c)"
    "distinct (lits_at ?t c) = distinct (lits_at s c)" if "c < length (clauses s)" for c
  proof -
    have m: "mset (lits_at ?t c) = mset (lits_at s c)" using same that len by (simp add: lits_at_def)
    show "set (lits_at ?t c) = set (lits_at s c)" "length (lits_at ?t c) = length (lits_at s c)"
      "distinct (lits_at ?t c) = distinct (lits_at s c)"
      using mset_eq_setD [OF m] mset_eq_length [OF m] mset_eq_imp_distinct_iff [OF m] by blast+
  qed
  have "reason_ok ?t i" if "i < length (trail s)" for i
    using T(3) [OF that] l len unfolding reason_ok_def by (auto split: option.splits simp: Let_def)
  moreover have "clauses_ok ?t" using T(4) l len unfolding clauses_ok_def by simp
  ultimately show ?thesis using T(1,2) unfolding trail_ok_def values_ok_def levels_ok_def by simp
qed

section \<open>The conflict level\<close>

definition on_level :: "search \<Rightarrow> nat \<Rightarrow> int list \<Rightarrow> nat" where
  "on_level s l lits = length (filter (\<lambda>lit. lev s lit = l) lits)"

lemma on_level_simps [simp]:
  "on_level s l [] = 0" "on_level s l (xs @ ys) = on_level s l xs + on_level s l ys"
  "on_level s l (x # xs) = (if lev s x = l then Suc (on_level s l xs) else on_level s l xs)"
  by (simp_all add: on_level_def)

lemma on_level_0: "on_level s l lits = 0 \<longleftrightarrow> (\<forall>lit \<in> set lits. lev s lit \<noteq> l)"
  by (simp add: on_level_def filter_empty_conv)

lemma scan_levels_from:
  assumes "scan_levels s lits r n f = (res, cnt, forced)" "\<forall>lit \<in> set (ys @ lits). lev s lit \<le> level s"
    and "\<forall>y \<in> set ys. lev s y \<le> r" "n = on_level s r ys" "r > 0 \<Longrightarrow> f \<in> set ys \<and> lev s f = r"
  shows "(\<forall>z \<in> set (ys @ lits). lev s z \<le> res) \<and> (cnt = 1 \<longleftrightarrow> on_level s res (ys @ lits) = 1) \<and>
    (res > 0 \<longrightarrow> on_level s res (ys @ lits) > 0) \<and>
    (cnt = 1 \<longrightarrow> res > 0 \<longrightarrow> forced \<in> set (ys @ lits) \<and> lev s forced = res)"
  using assms
proof (induction lits arbitrary: r n f ys)
  case Nil
  then show ?case using on_level_0 [of s r ys] by force
next
  case (Cons x lits)
  consider "lev s x > r" | "lev s x = r" "r = level s" "n + 1 > 1" | "lev s x = r" "\<not> (r = level s \<and> n + 1 > 1)"
    | "lev s x < r" by force
  then show ?case
  proof cases
    case 1
    then have "1 = on_level s (lev s x) (ys @ [x])" using Cons.prems(3) by (force simp: on_level_0)
    moreover have "\<forall>y \<in> set (ys @ [x]). lev s y \<le> lev s x" using Cons.prems(3) 1 by auto
    moreover have "scan_levels s lits (lev s x) 1 x = (res, cnt, forced)" using 1 Cons.prems(1) by (simp add: Let_def)
    ultimately show ?thesis
      using Cons.IH [of "lev s x" 1 x "ys @ [x]"] Cons.prems(2) by simp
  next
    case 2
    then have "res = r" "cnt = n + 1" using Cons.prems(1) by (auto simp: Let_def)
    moreover have "on_level s r (ys @ x # lits) \<ge> n + 1" using Cons.prems(4) 2(1) by simp
    ultimately show ?thesis using 2 Cons.prems(2) by auto
  next
    case 3
    then have "scan_levels s lits r (n + 1) f = (res, cnt, forced)" using Cons.prems(1) by (auto simp: Let_def)
    moreover have "\<forall>y \<in> set (ys @ [x]). lev s y \<le> r" "n + 1 = on_level s r (ys @ [x])" using Cons.prems(3,4) 3(1) by auto
    moreover have "r > 0 \<Longrightarrow> f \<in> set (ys @ [x]) \<and> lev s f = r" using Cons.prems(5) by simp
    ultimately show ?thesis using Cons.IH [of r "n + 1" f "ys @ [x]"] Cons.prems(2) by simp
  next
    case 4
    then have "scan_levels s lits r n f = (res, cnt, forced)" using Cons.prems(1) by (auto simp: Let_def)
    moreover have "\<forall>y \<in> set (ys @ [x]). lev s y \<le> r" "n = on_level s r (ys @ [x])" using Cons.prems(3,4) 4 by auto
    moreover have "r > 0 \<Longrightarrow> f \<in> set (ys @ [x]) \<and> lev s f = r" using Cons.prems(5) by simp
    ultimately show ?thesis using Cons.IH [of r n f "ys @ [x]"] Cons.prems(2) by simp
  qed
qed

lemma highest_position_bound:
  "highest_position s res lits j pos h = pos \<or>
   (j \<le> highest_position s res lits j pos h \<and> highest_position s res lits j pos h < j + length lits)"
proof (induction lits arbitrary: j pos h)
  case (Cons x lits)
  show ?case using Cons.IH [of "j + 1" pos h] Cons.IH [of "j + 1" j "lev s x"] by (auto simp: Let_def)
qed simp

lemma mset_move_highest: "i < length lits \<Longrightarrow> mset (move_highest s res i lits) = mset lits"
proof -
  assume i: "i < length lits"
  define p where "p = highest_position s res (drop (i + 1) lits) (i + 1) i (lev s (lits ! i))"
  have "p < length lits" using highest_position_bound [of s res "drop (i + 1) lits" "i + 1" i "lev s (lits ! i)"] i
    unfolding p_def [symmetric] by auto
  then have "mset (lits[p := lits ! i, i := lits ! p]) = mset lits" using i mset_swap by metis
  then show ?thesis by (simp add: move_highest_def Let_def p_def)
qed

definition falsified :: "search \<Rightarrow> nat \<Rightarrow> bool" where
  "falsified s c \<longleftrightarrow> c < length (clauses s) \<and> (\<forall>lit \<in> set (lits_at s c). - lit \<in> set (trail s))"

text \<open>What \<open>find_conflict_level\<close> finds, and the clause it leaves.\<close>

lemma find_conflict_level_spec:
  assumes ok: "trail_ok s" and f: "falsified s c"
  obtains l forced t where "find_conflict_level c s = ((l, forced), t)" "trail_ok t" "falsified t c"
    and "t = s\<lparr>clauses := clauses t\<rparr>" "length (clauses t) = length (clauses s)"
    and "\<And>d. mset (lits_at t d) = mset (lits_at s d) \<and> sc_id (clauses t ! d) = sc_id (clauses s ! d)"
    and "l \<le> level s" "\<forall>lit \<in> set (lits_at s c). lev s lit \<le> l"
    and "forced = 0 \<Longrightarrow> 0 < l \<Longrightarrow> 2 \<le> on_level s l (lits_at s c)"
    and "forced \<noteq> 0 \<Longrightarrow> 0 < l \<and> forced \<in> set (lits_at s c) \<and> lev s forced = l \<and>
      (\<forall>lit \<in> set (lits_at s c). lit \<noteq> forced \<longrightarrow> lev s lit < l)"
proof -
  note T = trail_okD [OF ok]
  have c: "c < length (clauses s)" "\<And>lit. lit \<in> set (lits_at s c) \<Longrightarrow> - lit \<in> set (trail s)"
    using f unfolding falsified_def by blast+
  note C = clauses_okD [OF T(4) c(1)]
  have lv: "\<forall>lit \<in> set ([] @ lits_at s c). lev s lit \<le> level s"
    using levels_okD(4) [OF T(2)] c(2) by fastforce
  obtain l cnt f0 where sc: "scan_levels s (lits_at s c) 0 0 0 = (l, cnt, f0)" by (metis surj_pair)
  from scan_levels_from [OF sc lv] have
    r: "\<forall>z \<in> set (lits_at s c). lev s z \<le> l" "cnt = 1 \<longleftrightarrow> on_level s l (lits_at s c) = 1"
      "l > 0 \<Longrightarrow> on_level s l (lits_at s c) > 0"
      "cnt = 1 \<Longrightarrow> l > 0 \<Longrightarrow> f0 \<in> set (lits_at s c) \<and> lev s f0 = l" by simp_all
  define lits where "lits = move_highest s l 1 (move_highest s l 0 (lits_at s c))"
  define t where "t = s\<lparr>clauses := (clauses s)[c := (clauses s ! c)\<lparr>sc_lits := lits\<rparr>]\<rparr>"
  have m0: "mset (move_highest s l 0 (lits_at s c)) = mset (lits_at s c)"
    using C(1) by (intro mset_move_highest) auto
  have "mset lits = mset (move_highest s l 0 (lits_at s c))"
    unfolding lits_def using C(1) mset_eq_length [OF m0] by (intro mset_move_highest) simp
  then have ml: "mset lits = mset (lits_at s c)" using m0 by simp
  have d: "mset (lits_at t d) = mset (lits_at s d) \<and> sc_id (clauses t ! d) = sc_id (clauses s ! d)" for d
    using ml c(1) by (cases "d = c") (simp_all add: t_def lits_at_def nth_list_update)
  have fl: "find_conflict_level c s = ((l, if cnt \<noteq> 1 then 0 else f0), t)"
    by (simp add: find_conflict_level_def sc t_def lits_def)
  have tok: "trail_ok t"
    unfolding t_def using d by (intro reordered_ok [OF ok]) (simp_all add: t_def lits_at_def)
  have ft: "falsified t c"
    using f mset_eq_setD [of "lits_at t c" "lits_at s c"] d [of c] by (simp add: falsified_def t_def)
  have one: "on_level s l (lits_at s c) = 1 \<Longrightarrow> x \<in> set (lits_at s c) \<Longrightarrow> y \<in> set (lits_at s c) \<Longrightarrow>
      lev s x = l \<Longrightarrow> lev s y = l \<Longrightarrow> x = y" for x y
  proof -
    assume "on_level s l (lits_at s c) = 1" and xy: "x \<in> set (lits_at s c)" "y \<in> set (lits_at s c)" "lev s x = l" "lev s y = l"
    then obtain z where z: "filter (\<lambda>lit. lev s lit = l) (lits_at s c) = [z]"
      by (auto simp: on_level_def length_Suc_conv)
    have "x \<in> set (filter (\<lambda>lit. lev s lit = l) (lits_at s c))" "y \<in> set (filter (\<lambda>lit. lev s lit = l) (lits_at s c))"
      using xy by simp_all
    then show "x = y" unfolding z by simp
  qed
  have l0: "cnt \<noteq> 1" if "l = 0"
  proof -
    have "filter (\<lambda>lit. lev s lit = 0) (lits_at s c) = lits_at s c" using r(1) that by (simp add: filter_id_conv)
    then show ?thesis using r(2) C(1) that by (simp add: on_level_def)
  qed
  have ls: "l \<le> level s"
  proof (cases "l = 0")
    case False
    then have "on_level s l (lits_at s c) \<noteq> 0" using r(3) by simp
    then show ?thesis using on_level_0 [of s l "lits_at s c"] lv by auto
  qed simp
  show thesis
  proof (rule that [OF fl tok ft])
    show "t = s\<lparr>clauses := clauses t\<rparr>" "length (clauses t) = length (clauses s)" by (simp_all add: t_def)
    show "2 \<le> on_level s l (lits_at s c)" if "(if cnt \<noteq> 1 then 0 else f0) = 0" "0 < l"
    proof -
      have "f0 \<noteq> 0" if "cnt = 1" using r(4) [OF that \<open>0 < l\<close>] C(3) by (auto simp: lit_in_def)
      then have "cnt \<noteq> 1" using \<open>(if cnt \<noteq> 1 then 0 else f0) = 0\<close> by metis
      then show ?thesis using r(2,3) \<open>0 < l\<close> by simp
    qed
    show "0 < l \<and> (if cnt \<noteq> 1 then 0 else f0) \<in> set (lits_at s c) \<and> lev s (if cnt \<noteq> 1 then 0 else f0) = l \<and>
        (\<forall>lit \<in> set (lits_at s c). lit \<noteq> (if cnt \<noteq> 1 then 0 else f0) \<longrightarrow> lev s lit < l)"
      if "(if cnt \<noteq> 1 then 0 else f0) \<noteq> 0"
    proof -
      have "cnt = 1" "0 < l" using that l0 by (auto split: if_splits)
      then have o: "on_level s l (lits_at s c) = 1" and f0: "f0 \<in> set (lits_at s c)" "lev s f0 = l"
        using r(2,4) by simp_all
      have "lev s lit < l" if "lit \<in> set (lits_at s c)" "lit \<noteq> f0" for lit
        using one [OF o that(1) f0(1) _ f0(2)] r(1) that by (meson le_neq_implies_less)
      then show ?thesis using f0 \<open>cnt = 1\<close> \<open>0 < l\<close> by simp
    qed
  qed (rule d, rule ls, rule r(1))
qed

lemma falsified_backtrack:
  assumes "trail_ok s" "falsified s c" "l \<le> level s" "\<forall>lit \<in> set (lits_at s c). lev s lit \<le> l"
  shows "falsified (backtrack l s) c"
  using assms backtrack_effect(1,4) [OF assms(1,3)] unfolding falsified_def lits_at_def by auto

end
