(* ===== verification/Search_Analyze.thy ===== *)
theory Search_Analyze
  imports Search_Trail
begin

text \<open>
  The first UIP clause: analysis collects the false literals of the conflict and of the reasons it
  resolves with, ends at a single literal of the conflict level, and never runs off the trail.
\<close>

section \<open>States that differ in what analysis writes\<close>

definition same_search :: "search \<Rightarrow> search \<Rightarrow> bool" where
  "same_search s t \<longleftrightarrow> trail t = trail s \<and> vals t = vals s \<and> vtab t = vtab s \<and> level t = level s \<and>
     clauses t = clauses s \<and> unit_clauses_idx t = unit_clauses_idx s \<and> derived t = derived s \<and>
     clause_id t = clause_id s \<and> unsat t = unsat s \<and> length (ftab t) = length (ftab s) \<and>
     map ltrail (control t) = map ltrail (control s)"

lemma same_searchD:
  assumes "same_search s t"
  shows "trail t = trail s" "vals t = vals s" "vtab t = vtab s" "level t = level s" "clauses t = clauses s"
    "unit_clauses_idx t = unit_clauses_idx s" "derived t = derived s" "clause_id t = clause_id s" "unsat t = unsat s"
    "length (ftab t) = length (ftab s)" "map ltrail (control t) = map ltrail (control s)"
    "var t = var s" "val t = val s" "lits_at t = lits_at s" "unit_id t = unit_id s"
  using assms unfolding same_search_def by (auto simp: var_def val_def lits_at_def unit_id_def fun_eq_iff)

lemma same_search_refl [simp]: "same_search s s"
  by (simp add: same_search_def)

lemma same_search_trans: "same_search s t \<Longrightarrow> same_search t u \<Longrightarrow> same_search s u"
  by (simp add: same_search_def)

lemma same_search_updates [simp]:
  "same_search s (t\<lparr>clause := x1\<rparr>) = same_search s t" "same_search s (t\<lparr>analyzed := x2\<rparr>) = same_search s t"
  "same_search s (t\<lparr>unit_analyzed := x3\<rparr>) = same_search s t" "same_search s (t\<lparr>levels := x4\<rparr>) = same_search s t"
  "same_search s (t\<lparr>lrat_chain := x5\<rparr>) = same_search s t" "same_search s (t\<lparr>unit_chain := x6\<rparr>) = same_search s t"
  "same_search s (t\<lparr>mini_chain := x7\<rparr>) = same_search s t" "same_search s (t\<lparr>minimize_chain := x8\<rparr>) = same_search s t"
  "same_search s (t\<lparr>minimized := x9\<rparr>) = same_search s t" "same_search s (t\<lparr>conflict := x10\<rparr>) = same_search s t"
  "same_search s (on_flags lit f t) = same_search s t"
  by (simp_all add: same_search_def on_flags_def)

lemma on_flags_fields [simp]:
  "trail (on_flags lit f s) = trail s" "vals (on_flags lit f s) = vals s" "vtab (on_flags lit f s) = vtab s"
  "level (on_flags lit f s) = level s" "clauses (on_flags lit f s) = clauses s" "control (on_flags lit f s) = control s"
  "clause (on_flags lit f s) = clause s" "analyzed (on_flags lit f s) = analyzed s"
  "unit_analyzed (on_flags lit f s) = unit_analyzed s" "lrat_chain (on_flags lit f s) = lrat_chain s"
  "unit_chain (on_flags lit f s) = unit_chain s" "mini_chain (on_flags lit f s) = mini_chain s"
  "minimize_chain (on_flags lit f s) = minimize_chain s" "minimized (on_flags lit f s) = minimized s"
  "length (ftab (on_flags lit f s)) = length (ftab s)" "levels (on_flags lit f s) = levels s"
  by (simp_all add: on_flags_def)

lemma on_flags_reads [simp]:
  "var (on_flags lit f s) k = var s k" "val (on_flags lit f s) k = val s k" "lits_at (on_flags lit f s) c = lits_at s c"
  "unit_id (on_flags lit f s) k = unit_id s k"
  by (simp_all add: on_flags_def)

lemma flags_on_flags:
  "vidx lit < length (ftab s) \<Longrightarrow>
    flags (on_flags lit f s) k = (if vidx k = vidx lit then f (flags s k) else flags s k)"
  by (auto simp: flags_def on_flags_def upd_nth_def nth_list_update)

lemma see_level_same [simp]:
  "same_search s (see_level l t u) = same_search s u" "flags (see_level l t u) = flags u"
  "clause (see_level l t u) = clause u" "analyzed (see_level l t u) = analyzed u"
  "unit_analyzed (see_level l t u) = unit_analyzed u" "lrat_chain (see_level l t u) = lrat_chain u"
  "unit_chain (see_level l t u) = unit_chain u" "mini_chain (see_level l t u) = mini_chain u"
  "minimize_chain (see_level l t u) = minimize_chain u" "minimized (see_level l t u) = minimized u"
proof -
  have "map ltrail (upd_nth cs l (\<lambda>e. e\<lparr>seen_count := seen_count e + 1, seen_trail := m e\<rparr>)) = map ltrail cs" for cs m
    by (cases "l < length cs") (auto intro!: nth_equalityI simp: upd_nth_def nth_list_update)
  from this [of "control u" "\<lambda>e. min t (seen_trail e)"]
  show "same_search s (see_level l t u) = same_search s u"
    by (simp add: see_level_def same_search_def Let_def)
qed (simp_all add: see_level_def Let_def flags_def fun_eq_iff)

lemma same_search_ok:
  assumes "trail_ok s" "same_search s t"
  shows "trail_ok t"
proof -
  note T = trail_okD [OF assms(1)] and S = same_searchD [OF assms(2)]
  have len: "length (control t) = length (control s)" using S(11) map_eq_imp_length_eq by blast
  have lt: "ltrail (control t ! l) = ltrail (control s ! l)" if "l \<le> level s" for l
    using S(11) that levels_okD(1) [OF T(2)] len by (metis Suc_eq_plus1 less_Suc_eq_le nth_map)
  have "values_ok t" using T(1) unfolding values_ok_def S .
  moreover have "levels_ok t" using T(2) lt unfolding levels_ok_def S len by simp
  moreover have "reason_ok t i" if i: "i < length (trail s)" for i
  proof -
    have "lev s (trail s ! i) \<le> level s" using levels_okD(4) [OF T(2)] i by simp
    then show ?thesis using T(3) [OF i] lt unfolding reason_ok_def S Let_def by (auto split: option.splits)
  qed
  moreover have "clauses_ok t" using T(4) unfolding clauses_ok_def S .
  ultimately show ?thesis unfolding trail_ok_def S by blast
qed

section \<open>What was reached\<close>

text \<open>No flag of the analysis is set, and the lists it fills are empty.\<close>

definition flags_clear :: "search \<Rightarrow> bool" where
  "flags_clear s \<longleftrightarrow> length (ftab s) = length (vals s) \<and>
     (\<forall>i < length (ftab s). \<not> seen (ftab s ! i) \<and> \<not> keep (ftab s ! i) \<and> \<not> poison (ftab s ! i) \<and>
        \<not> removable (ftab s ! i) \<and> \<not> added (ftab s ! i))"

text \<open>Analysis of a state \<open>s\<close> reached the false literals \<open>R\<close>.\<close>

definition seen_ok :: "search_opts \<Rightarrow> search \<Rightarrow> int set \<Rightarrow> search \<Rightarrow> bool" where
  "seen_ok opts s R t \<longleftrightarrow> same_search s t \<and> (\<forall>lit \<in> R. - lit \<in> set (trail s)) \<and>
     distinct (analyzed t) \<and> set (analyzed t) = {lit \<in> R. lev s lit \<noteq> 0} \<and>
     distinct (unit_analyzed t) \<and> set (unit_analyzed t) = (if opt_lrat opts then {lit \<in> R. lev s lit = 0} else {}) \<and>
     unit_chain t = map (\<lambda>lit. unit_id s (- lit)) (unit_analyzed t) \<and>
     clause t = filter (\<lambda>lit. lev s lit < level s) (analyzed t) \<and>
     (\<forall>lit. vidx lit < length (ftab s) \<longrightarrow>
        (seen (flags t lit) \<longleftrightarrow> (\<exists>k \<in> set (analyzed t) \<union> set (unit_analyzed t). vidx k = vidx lit)) \<and>
        \<not> keep (flags t lit) \<and> \<not> poison (flags t lit) \<and> \<not> removable (flags t lit) \<and> \<not> added (flags t lit))"

lemma seen_okD:
  assumes "seen_ok opts s R t"
  shows "same_search s t" "\<And>lit. lit \<in> R \<Longrightarrow> - lit \<in> set (trail s)" "distinct (analyzed t)"
    "set (analyzed t) = {lit \<in> R. lev s lit \<noteq> 0}" "distinct (unit_analyzed t)"
    "set (unit_analyzed t) = (if opt_lrat opts then {lit \<in> R. lev s lit = 0} else {})"
    "unit_chain t = map (\<lambda>lit. unit_id s (- lit)) (unit_analyzed t)"
    "clause t = filter (\<lambda>lit. lev s lit < level s) (analyzed t)"
    "\<And>lit. vidx lit < length (ftab s) \<Longrightarrow>
       seen (flags t lit) \<longleftrightarrow> (\<exists>k \<in> set (analyzed t) \<union> set (unit_analyzed t). vidx k = vidx lit)"
    "\<And>lit. vidx lit < length (ftab s) \<Longrightarrow> \<not> keep (flags t lit) \<and> \<not> poison (flags t lit) \<and> \<not> removable (flags t lit) \<and> \<not> added (flags t lit)"
  using assms unfolding seen_ok_def by blast+

text \<open>False literals of the same variable are the same.\<close>

lemma false_unique:
  assumes "values_ok s" "- a \<in> set (trail s)" "- b \<in> set (trail s)" "vidx a = vidx b"
  shows "a = b"
  using assms trail_consistent [OF assms(1,2)] by (auto simp: vidx_eq)

lemma false_in_range: "values_ok s \<Longrightarrow> - lit \<in> set (trail s) \<Longrightarrow> lit_in (length (vals s)) lit"
  using values_okD(4) [of s "- lit"] by simp

lemma seen_iff:
  assumes "seen_ok opts s R t" "values_ok s" "length (ftab s) = length (vals s)" "- lit \<in> set (trail s)"
  shows "seen (flags t lit) \<longleftrightarrow> lit \<in> R \<and> (lev s lit \<noteq> 0 \<or> opt_lrat opts)"
proof -
  note S = seen_okD [OF assms(1)]
  have "vidx lit < length (ftab s)" using false_in_range [OF assms(2,4)] vidx_less assms(3) by simp
  then have "seen (flags t lit) \<longleftrightarrow> (\<exists>k \<in> set (analyzed t) \<union> set (unit_analyzed t). vidx k = vidx lit)" by (rule S(9))
  also have "\<dots> \<longleftrightarrow> lit \<in> set (analyzed t) \<union> set (unit_analyzed t)"
    using false_unique [OF assms(2) S(2) assms(4)] S(4,6) by (auto split: if_splits)
  also have "\<dots> \<longleftrightarrow> lit \<in> R \<and> (lev s lit \<noteq> 0 \<or> opt_lrat opts)" using S(4,6) by auto
  finally show ?thesis .
qed

lemma analyze_literal_step:
  fixes n :: int
  assumes "seen_ok opts s R t" "values_ok s" "length (ftab s) = length (vals s)" "- lit \<in> set (trail s)"
  defines "r \<equiv> analyze_literal opts lit (n, t)"
  shows "seen_ok opts s (insert lit R) (snd r)" "lrat_chain (snd r) = lrat_chain t"
    "mini_chain (snd r) = mini_chain t" "minimize_chain (snd r) = minimize_chain t" "minimized (snd r) = minimized t"
    "fst r = n + int (on_level s (level s) (analyzed (snd r))) - int (on_level s (level s) (analyzed t))"
proof -
  note S = seen_okD [OF assms(1)] and C = same_searchD [OF seen_okD(1) [OF assms(1)]]
  note si = seen_iff [OF assms(1-4)]
  have vl: "vidx lit < length (ftab t)" using false_in_range [OF assms(2,4)] vidx_less assms(3) C(10) by simp
  have lenf: "length (ftab t) = length (ftab s)" by (rule C(10))
  have ins: "k \<in> insert lit R \<Longrightarrow> - k \<in> set (trail s)" for k using S(2) assms(4) by auto
  consider (unit_skip) "lev s lit = 0" "lit \<in> R \<or> \<not> opt_lrat opts" | (unit) "lev s lit = 0" "lit \<notin> R" "opt_lrat opts"
    | (skip) "lev s lit \<noteq> 0" "lit \<in> R" | (new) "lev s lit \<noteq> 0" "lit \<notin> R" by blast
  then have "seen_ok opts s (insert lit R) (snd r) \<and> lrat_chain (snd r) = lrat_chain t \<and>
    mini_chain (snd r) = mini_chain t \<and> minimize_chain (snd r) = minimize_chain t \<and> minimized (snd r) = minimized t \<and>
    fst r = n + int (on_level s (level s) (analyzed (snd r))) - int (on_level s (level s) (analyzed t))"
  proof cases
    case unit_skip
    then have r: "r = (n, t)" using si by (auto simp: r_def analyze_literal_def Let_def C)
    have "set (unit_analyzed t) = (if opt_lrat opts then {k \<in> insert lit R. lev s k = 0} else {})"
      "set (analyzed t) = {k \<in> insert lit R. lev s k \<noteq> 0}"
      using S(4,6) unit_skip by auto
    then show ?thesis using assms(1) ins unfolding r seen_ok_def by auto
  next
    case unit
    then have r: "r = (n, (on_flags lit (\<lambda>f. f\<lparr>seen := True\<rparr>) t)
        \<lparr>unit_analyzed := unit_analyzed t @ [lit], unit_chain := unit_chain t @ [unit_id t (- lit)]\<rparr>)"
      using si by (auto simp: r_def analyze_literal_def Let_def C)
    have "set (unit_analyzed t @ [lit]) = {k \<in> insert lit R. lev s k = 0}"
      "set (analyzed t) = {k \<in> insert lit R. lev s k \<noteq> 0}" "distinct (unit_analyzed t @ [lit])"
      using S(4,5,6) unit by auto
    moreover have "vidx k < length (ftab s) \<Longrightarrow> seen (flags (on_flags lit (\<lambda>f. f\<lparr>seen := True\<rparr>) t) k) \<longleftrightarrow>
        (\<exists>x \<in> set (analyzed t) \<union> set (unit_analyzed t @ [lit]). vidx x = vidx k)" for k
      using S(9) [of k] flags_on_flags [OF vl] by auto
    moreover have "vidx k < length (ftab s) \<Longrightarrow> \<not> keep (flags (on_flags lit (\<lambda>f. f\<lparr>seen := True\<rparr>) t) k) \<and>
        \<not> poison (flags (on_flags lit (\<lambda>f. f\<lparr>seen := True\<rparr>) t) k) \<and>
        \<not> removable (flags (on_flags lit (\<lambda>f. f\<lparr>seen := True\<rparr>) t) k) \<and>
        \<not> added (flags (on_flags lit (\<lambda>f. f\<lparr>seen := True\<rparr>) t) k)" for k
      using S(10) [of k] flags_on_flags [OF vl] by simp
    ultimately show ?thesis unfolding r seen_ok_def
      using S(1-3,7,8) ins unit C(15) by simp
  next
    case skip
    then have r: "r = (n, t)" using si by (auto simp: r_def analyze_literal_def Let_def C)
    have "insert lit R = R" using skip by blast
    then show ?thesis using assms(1) unfolding r by simp
  next
    case new
    let ?t = "(on_flags lit (\<lambda>f. f\<lparr>seen := True\<rparr>) t)\<lparr>analyzed := analyzed t @ [lit],
        clause := (if lev s lit < level s then clause t @ [lit] else clause t)\<rparr>"
    have r: "r = (if lev s lit = level s then n + 1 else n, see_level (lev s lit) (vtrail (var s lit)) ?t)"
      using new si by (simp add: r_def analyze_literal_def Let_def C)
    have "set (analyzed t @ [lit]) = {k \<in> insert lit R. lev s k \<noteq> 0}" "distinct (analyzed t @ [lit])"
      "{k \<in> insert lit R. lev s k = 0} = {k \<in> R. lev s k = 0}"
      "filter (\<lambda>lit. lev s lit < level s) (analyzed t @ [lit]) = clause ?t"
      using S(3,4,8) new by auto
    moreover have "vidx k < length (ftab s) \<Longrightarrow> seen (flags (on_flags lit (\<lambda>f. f\<lparr>seen := True\<rparr>) t) k) \<longleftrightarrow>
        (\<exists>x \<in> set (analyzed t @ [lit]) \<union> set (unit_analyzed t). vidx x = vidx k)" for k
      using S(9) [of k] flags_on_flags [OF vl] by auto
    moreover have "vidx k < length (ftab s) \<Longrightarrow> \<not> keep (flags (on_flags lit (\<lambda>f. f\<lparr>seen := True\<rparr>) t) k) \<and>
        \<not> poison (flags (on_flags lit (\<lambda>f. f\<lparr>seen := True\<rparr>) t) k) \<and>
        \<not> removable (flags (on_flags lit (\<lambda>f. f\<lparr>seen := True\<rparr>) t) k) \<and>
        \<not> added (flags (on_flags lit (\<lambda>f. f\<lparr>seen := True\<rparr>) t) k)" for k
      using S(10) [of k] flags_on_flags [OF vl] by simp
    ultimately show ?thesis unfolding r seen_ok_def
      using S(1,2,5-7) ins new by simp
  qed
  then show "seen_ok opts s (insert lit R) (snd r)" "lrat_chain (snd r) = lrat_chain t"
    "mini_chain (snd r) = mini_chain t" "minimize_chain (snd r) = minimize_chain t" "minimized (snd r) = minimized t"
    "fst r = n + int (on_level s (level s) (analyzed (snd r))) - int (on_level s (level s) (analyzed t))"
    by blast+
qed

text \<open>What analysis does not write.\<close>

definition same_chains :: "search \<Rightarrow> search \<Rightarrow> bool" where
  "same_chains t u \<longleftrightarrow> lrat_chain u = lrat_chain t \<and> mini_chain u = mini_chain t \<and>
     minimize_chain u = minimize_chain t \<and> minimized u = minimized t"

lemma same_chains_refl: "same_chains t t"
  by (simp add: same_chains_def)

lemma same_chains_trans: "same_chains t u \<Longrightarrow> same_chains u v \<Longrightarrow> same_chains t v"
  by (simp add: same_chains_def)

lemma analyze_literals:
  fixes n :: int
  assumes "seen_ok opts s R t" "values_ok s" "length (ftab s) = length (vals s)"
    and "\<forall>other \<in> set xs. other \<noteq> lit \<longrightarrow> - other \<in> set (trail s)"
  defines "r \<equiv> fold (\<lambda>other. if other \<noteq> lit then analyze_literal opts other else id) xs (n, t)"
  shows "seen_ok opts s (R \<union> (set xs - {lit})) (snd r)" "same_chains t (snd r)"
    "fst r = n + int (on_level s (level s) (analyzed (snd r))) - int (on_level s (level s) (analyzed t))"
proof -
  have "seen_ok opts s (R \<union> (set xs - {lit})) (snd r) \<and> same_chains t (snd r) \<and>
    fst r = n + int (on_level s (level s) (analyzed (snd r))) - int (on_level s (level s) (analyzed t))"
    using assms(1,4) unfolding r_def
  proof (induction xs arbitrary: R n t)
    case (Cons x xs)
    show ?case
    proof (cases "x = lit")
      case True
      then have "R \<union> (set (x # xs) - {lit}) = R \<union> (set xs - {lit})" by auto
      then show ?thesis using Cons.IH [of R t n] Cons.prems True by simp
    next
      case False
      have x: "- x \<in> set (trail s)" using Cons.prems(2) False by simp
      note st = analyze_literal_step [OF Cons.prems(1) assms(2,3) x, of n]
      obtain m u where u: "analyze_literal opts x (n, t) = (m, u)" by fastforce
      have "R \<union> (set (x # xs) - {lit}) = insert x R \<union> (set xs - {lit})" using False by auto
      moreover have "same_chains t u" using st(2-5) u by (simp add: same_chains_def)
      ultimately show ?thesis
        using Cons.IH [of "insert x R" u m] st(1,6) Cons.prems(2) False u same_chains_trans [of t u] by auto
    qed
  qed (simp add: same_chains_refl)
  then show "seen_ok opts s (R \<union> (set xs - {lit})) (snd r)" "same_chains t (snd r)"
    "fst r = n + int (on_level s (level s) (analyzed (snd r))) - int (on_level s (level s) (analyzed t))"
    by blast+
qed

lemma seen_ok_chain: "seen_ok opts s R (t\<lparr>lrat_chain := xs\<rparr>) = seen_ok opts s R t"
  by (simp add: seen_ok_def)

lemma analyze_reason_step:
  fixes n :: int
  assumes "seen_ok opts s R t" "values_ok s" "length (ftab s) = length (vals s)"
    and "\<forall>other \<in> set (lits_at s c). other \<noteq> lit \<longrightarrow> - other \<in> set (trail s)"
  defines "r \<equiv> analyze_reason opts lit c (n, t)"
  shows "seen_ok opts s (R \<union> (set (lits_at s c) - {lit})) (snd r)"
    "same_chains (t\<lparr>lrat_chain := (if opt_lrat opts then lrat_chain t @ [sc_id (clauses s ! c)] else lrat_chain t)\<rparr>) (snd r)"
    "fst r = n + int (on_level s (level s) (analyzed (snd r))) - int (on_level s (level s) (analyzed t))"
proof -
  let ?t = "t\<lparr>lrat_chain := (if opt_lrat opts then lrat_chain t @ [sc_id (clauses s ! c)] else lrat_chain t)\<rparr>"
  note C = same_searchD [OF seen_okD(1) [OF assms(1)]]
  have r: "r = fold (\<lambda>other. if other \<noteq> lit then analyze_literal opts other else id) (lits_at s c) (n, ?t)"
    unfolding r_def analyze_reason_def by (simp add: C Let_def)
  have "seen_ok opts s R ?t" using assms(1) by (simp only: seen_ok_chain)
  note l = analyze_literals [OF this assms(2-4), of n, folded r]
  show "seen_ok opts s (R \<union> (set (lits_at s c) - {lit})) (snd r)" "same_chains ?t (snd r)"
    "fst r = n + int (on_level s (level s) (analyzed (snd r))) - int (on_level s (level s) (analyzed t))"
    using l by simp_all
qed

lemma next_uip_Some:
  "next_uip s i = Some (uip, j) \<Longrightarrow> j < i \<and> uip = trail s ! j \<and> seen (flags s uip) \<and> lev s uip = level s \<and>
     (\<forall>k. j < k \<longrightarrow> k < i \<longrightarrow> \<not> (seen (flags s (trail s ! k)) \<and> lev s (trail s ! k) = level s))"
  by (induction i) (auto simp: Let_def less_Suc_eq split: if_splits)

lemma next_uip_finds:
  "k < i \<Longrightarrow> seen (flags s (trail s ! k)) \<Longrightarrow> lev s (trail s ! k) = level s \<Longrightarrow> next_uip s i \<noteq> None"
  by (induction i) (auto simp: Let_def less_Suc_eq)


section \<open>The first unique implication point\<close>

definition reason_lits :: "search \<Rightarrow> int \<Rightarrow> int list" where
  "reason_lits s m = lits_at s (the (reason (var s m)))"

definition reason_id :: "search \<Rightarrow> int \<Rightarrow> int" where
  "reason_id s m = sc_id (clauses s ! the (reason (var s m)))"

text \<open>The literals of the conflict \<open>c\<close> and of the reasons resolved so far.\<close>

definition reached :: "search \<Rightarrow> nat \<Rightarrow> int list \<Rightarrow> int set" where
  "reached s c rs = set (lits_at s c) \<union> (\<Union>m \<in> set rs. set (reason_lits s m) - {m})"

text \<open>The literals of the conflict level among them that are not resolved.\<close>

definition open_lits :: "search \<Rightarrow> nat \<Rightarrow> int list \<Rightarrow> int set" where
  "open_lits s c rs = {lit \<in> reached s c rs. lev s lit = level s \<and> - lit \<notin> set rs}"

text \<open>
  The literal at position \<open>k\<close> of \<open>rs\<close> is resolved in its turn: it is the last open one of the trail, another
  is open, and it has a reason.
\<close>

definition in_turn :: "search \<Rightarrow> nat \<Rightarrow> int list \<Rightarrow> nat \<Rightarrow> bool" where
  "in_turn s c rs k \<longleftrightarrow> - (rs ! k) \<in> open_lits s c (take k rs) \<and> 2 \<le> card (open_lits s c (take k rs)) \<and>
     (\<forall>x \<in> open_lits s c (take k rs). x \<noteq> - (rs ! k) \<longrightarrow> vtrail (var s x) < vtrail (var s (rs ! k))) \<and>
     reason (var s (rs ! k)) \<noteq> None"

lemma in_turn_append: "k < length rs \<Longrightarrow> in_turn s c (rs @ qs) k = in_turn s c rs k"
  by (simp add: in_turn_def nth_append)

text \<open>The literals \<open>rs\<close> are resolved, from the end of the trail down to position \<open>i\<close>.\<close>

definition resolved :: "search_opts \<Rightarrow> search \<Rightarrow> nat \<Rightarrow> int list \<Rightarrow> nat \<Rightarrow> search \<Rightarrow> bool" where
  "resolved opts s c rs i t \<longleftrightarrow>
     seen_ok opts s (reached s c rs) t \<and>
     same_chains (s\<lparr>lrat_chain := (if opt_lrat opts then sc_id (clauses s ! c) # map (reason_id s) rs else [])\<rparr>) t \<and>
     (\<forall>m \<in> set rs. m \<in> set (trail s) \<and> lev s m = level s \<and> reason (var s m) \<noteq> None \<and> - m \<in> reached s c rs \<and>
        i \<le> vtrail (var s m)) \<and>
     sorted_wrt (\<lambda>a b. vtrail (var s b) < vtrail (var s a)) rs \<and>
     (\<forall>lit \<in> reached s c rs. lev s lit = level s \<longrightarrow> vtrail (var s lit) < i \<or> - lit \<in> set rs) \<and>
     i \<le> length (trail s) \<and> (\<forall>k < length rs. in_turn s c rs k)"

lemma resolvedD:
  assumes "resolved opts s c rs i t"
  shows "seen_ok opts s (reached s c rs) t"
    "same_chains (s\<lparr>lrat_chain := (if opt_lrat opts then sc_id (clauses s ! c) # map (reason_id s) rs else [])\<rparr>) t"
    "\<And>m. m \<in> set rs \<Longrightarrow> m \<in> set (trail s) \<and> lev s m = level s \<and> reason (var s m) \<noteq> None \<and> - m \<in> reached s c rs \<and>
       i \<le> vtrail (var s m)"
    "sorted_wrt (\<lambda>a b. vtrail (var s b) < vtrail (var s a)) rs"
    "\<And>lit. lit \<in> reached s c rs \<Longrightarrow> lev s lit = level s \<Longrightarrow> vtrail (var s lit) < i \<or> - lit \<in> set rs"
    "i \<le> length (trail s)" "\<And>k. k < length rs \<Longrightarrow> in_turn s c rs k"
  using assms unfolding resolved_def by blast+

lemma reached_snoc: "reached s c (rs @ [m]) = reached s c rs \<union> (set (reason_lits s m) - {m})"
  by (auto simp: reached_def)

text \<open>How many literals of the conflict level are open.\<close>

lemma open_card:
  assumes "seen_ok opts s R t" "level s \<noteq> 0"
  shows "on_level s (level s) (analyzed t) = card {lit \<in> R. lev s lit = level s}"
proof -
  note S = seen_okD [OF assms(1)]
  have "on_level s (level s) (analyzed t) = card (set (filter (\<lambda>lit. lev s lit = level s) (analyzed t)))"
    unfolding on_level_def by (rule distinct_card [symmetric]) (simp add: S(3))
  also have "set (filter (\<lambda>lit. lev s lit = level s) (analyzed t)) = {lit \<in> R. lev s lit = level s}"
  proof (rule set_eqI)
    fix lit
    have "lit \<in> set (analyzed t) \<longleftrightarrow> lit \<in> R \<and> lev s lit \<noteq> 0" using S(4) by blast
    then show "lit \<in> set (filter (\<lambda>lit. lev s lit = level s) (analyzed t)) \<longleftrightarrow> lit \<in> {lit \<in> R. lev s lit = level s}"
      using assms(2) by (simp only: set_filter mem_Collect_eq) metis
  qed
  finally show ?thesis .
qed

lemma open_literals:
  assumes "resolved opts s c rs i t" "level s \<noteq> 0" "n = int (on_level s (level s) (analyzed t)) - int (length rs)"
  shows "n = int (card (open_lits s c rs))"
proof -
  note R = resolvedD [OF assms(1)]
  let ?L = "{lit \<in> reached s c rs. lev s lit = level s}"
  have d: "distinct rs" using R(4) by (induction rs) auto
  have "finite (reached s c rs)" by (simp add: reached_def)
  moreover have "uminus ` set rs \<subseteq> ?L" using R(3) by auto
  moreover have "{lit \<in> reached s c rs. lev s lit = level s \<and> - lit \<notin> set rs} = ?L - uminus ` set rs"
    by (auto simp: image_iff) (metis minus_minus)
  moreover have "card (uminus ` set rs) = length rs" using d by (simp add: card_image distinct_card)
  ultimately show ?thesis
    using assms(3) open_card [OF R(1) assms(2)] card_Diff_subset [of "uminus ` set rs" ?L] card_mono [of ?L "uminus ` set rs"]
    by (simp add: of_nat_diff open_lits_def)
qed

lemma next_uip_cong:
  assumes "same_search s t" "next_uip t i = Some (uip, j)"
  shows "j < i \<and> uip = trail s ! j \<and> seen (flags t uip) \<and> lev s uip = level s \<and>
     (\<forall>k. j < k \<longrightarrow> k < i \<longrightarrow> \<not> (seen (flags t (trail s ! k)) \<and> lev s (trail s ! k) = level s))"
  using next_uip_Some [OF assms(2)] unfolding same_searchD(1,4,12) [OF assms(1)] .

text \<open>The next literal exists, and has a reason unless it is the only open one.\<close>

lemma resolved_next:
  assumes ok: "trail_ok s" and f: "length (ftab s) = length (vals s)" and lv: "level s \<noteq> 0"
    and r: "resolved opts s c rs i t" and n: "n = int (on_level s (level s) (analyzed t)) - int (length rs)" "1 \<le> n"
  obtains uip j where "next_uip t i = Some (uip, j)" "uip \<in> set (trail s)" "vtrail (var s uip) = j" "j < i"
    "lev s uip = level s" "- uip \<in> reached s c rs" "uip \<notin> set rs"
    "\<And>lit. lit \<in> reached s c rs \<Longrightarrow> lev s lit = level s \<Longrightarrow> - lit \<noteq> uip \<Longrightarrow> vtrail (var s lit) < j \<or> - lit \<in> set rs"
    "n = 1 \<Longrightarrow> {lit \<in> reached s c rs. lev s lit = level s} = uminus ` insert uip (set rs)"
    "n \<noteq> 1 \<Longrightarrow> reason (var s uip) \<noteq> None"
proof -
  note R = resolvedD [OF r] and T = trail_okD [OF ok]
  note S = seen_okD [OF R(1)] and C = same_searchD [OF seen_okD(1) [OF R(1)]]
  let ?O = "{lit \<in> reached s c rs. lev s lit = level s \<and> - lit \<notin> set rs}"
  have card: "n = int (card ?O)" using open_literals [OF r lv n(1)] by (simp only: open_lits_def)
  have fin: "finite ?O" by (simp add: reached_def)
  have si: "seen (flags t lit) \<longleftrightarrow> - lit \<in> reached s c rs" if "lit \<in> set (trail s)" "lev s lit = level s" for lit
    using seen_iff [OF R(1) T(1) f, of "- lit"] that lv by simp
  obtain o1 where o1: "o1 \<in> ?O" using card n(2) by (metis (no_types, lifting) all_not_in_conv card.empty not_one_le_zero of_nat_0 zero_less_one int_ops(1) not_le)
  have tr: "- lit \<in> set (trail s)" if "lit \<in> reached s c rs" for lit using S(2) that .
  have p1: "vtrail (var s o1) < i" using o1 R(5) by blast
  have t1: "trail s ! vtrail (var s o1) = - o1" using trail_position(2) [OF T(1) tr, of o1] o1 by simp
  have "seen (flags t (trail t ! vtrail (var s o1)))" "lev t (trail t ! vtrail (var s o1)) = level t"
    using o1 si [of "- o1"] tr [of o1] t1 C by simp_all
  then obtain uip j where u: "next_uip t i = Some (uip, j)" using next_uip_finds [OF p1] by fastforce
  from next_uip_cong [OF S(1) u] have j: "j < i" "uip = trail s ! j" "seen (flags t uip)" "lev s uip = level s"
    and none: "\<And>k. j < k \<Longrightarrow> k < i \<Longrightarrow> \<not> (seen (flags t (trail s ! k)) \<and> lev s (trail s ! k) = level s)" by blast+
  have ut: "uip \<in> set (trail s)" "vtrail (var s uip) = j" using j R(6) values_okD(7) [OF T(1)] by simp_all
  have ur: "- uip \<in> reached s c rs" using si [OF ut(1) j(4)] j(3) by simp
  have un: "uip \<notin> set rs" using R(3) [of uip] ut(2) j(1) by auto
  have less: "vtrail (var s lit) < j \<or> - lit \<in> set rs"
    if "lit \<in> reached s c rs" "lev s lit = level s" "- lit \<noteq> uip" for lit
  proof (rule ccontr)
    assume n: "\<not> ?thesis"
    have "trail s ! vtrail (var s lit) = - lit" using trail_position(2) [OF T(1) tr [OF that(1)]] by simp
    moreover from this have "vtrail (var s lit) \<noteq> j" using that(3) j(2) by auto
    ultimately show False using none [of "vtrail (var s lit)"] n R(5) [OF that(1,2)] si [OF tr [OF that(1)]] that by auto
  qed
  have uO: "- uip \<in> ?O" using ur un j(4) by simp
  have one: "{lit \<in> reached s c rs. lev s lit = level s} = uminus ` insert uip (set rs)" if "n = 1"
  proof -
    have "?O = {- uip}" using that card uO by (metis (no_types, lifting) card_1_singletonE of_nat_1 of_nat_eq_iff singletonD)
    then have a: "- lit = uip" if "lit \<in> reached s c rs" "lev s lit = level s" "- lit \<notin> set rs" for lit
    proof -
      have "lit \<in> {- uip}" using that unfolding \<open>?O = {- uip}\<close> [symmetric] by blast
      then show ?thesis by simp
    qed
    show ?thesis
    proof (intro set_eqI iffI)
      fix lit assume l: "lit \<in> {lit \<in> reached s c rs. lev s lit = level s}"
      then have "- lit \<in> insert uip (set rs)" using a by blast
      then show "lit \<in> uminus ` insert uip (set rs)" by (metis imageI minus_minus)
    next
      fix lit assume "lit \<in> uminus ` insert uip (set rs)"
      then show "lit \<in> {lit \<in> reached s c rs. lev s lit = level s}" using ur j(4) R(3) by auto
    qed
  qed
  have more: "reason (var s uip) \<noteq> None" if "n \<noteq> 1"
  proof
    assume no: "reason (var s uip) = None"
    have "?O \<noteq> {- uip}" using card that n(2) by auto
    then obtain o2 where o2: "o2 \<in> ?O" "o2 \<noteq> - uip" using uO by blast
    then have "vtrail (var s o2) < j" using less [of o2] by auto
    moreover have "ltrail (control s ! lev s o2) \<le> vtrail (var s o2)" using level_start [OF ok tr [of o2]] o2 lv by simp
    moreover have "ltrail (control s ! lev s uip) = j" using reason_None(1) [OF ok ut(1) no] lv j(4) ut(2) by simp
    ultimately show False using o2 j(4) by simp
  qed
  show thesis using that [OF u ut j(1,4) ur un less one more] .
qed

lemma resolved_step:
  fixes n :: int
  assumes ok: "trail_ok s" and f: "length (ftab s) = length (vals s)" and lv: "level s \<noteq> 0"
    and r: "resolved opts s c rs i t" and n: "n = int (on_level s (level s) (analyzed t)) - int (length rs)" "2 \<le> n"
    and u: "uip \<in> set (trail s)" "vtrail (var s uip) < i" "lev s uip = level s" "- uip \<in> reached s c rs" "uip \<notin> set rs"
    and less: "\<And>lit. lit \<in> reached s c rs \<Longrightarrow> lev s lit = level s \<Longrightarrow> - lit \<noteq> uip \<Longrightarrow>
      vtrail (var s lit) < vtrail (var s uip) \<or> - lit \<in> set rs"
    and d: "reason (var s uip) = Some d"
  defines "w \<equiv> analyze_reason opts uip d (n - 1, t)"
  shows "resolved opts s c (rs @ [uip]) (vtrail (var s uip)) (snd w)"
    "fst w = int (on_level s (level s) (analyzed (snd w))) - int (length (rs @ [uip]))" "1 \<le> fst w"
proof -
  note R = resolvedD [OF r] and T = trail_okD [OF ok]
  note rd = reason_Some [OF ok u(1) d]
  have lits: "reason_lits s uip = lits_at s d" "reason_id s uip = sc_id (clauses s ! d)"
    by (simp_all add: reason_lits_def reason_id_def d)
  have false: "\<forall>other \<in> set (lits_at s d). other \<noteq> uip \<longrightarrow> - other \<in> set (trail s)" using rd(4) by blast
  note st = analyze_reason_step [OF R(1) T(1) f false, of "n - 1", folded w_def]
  have re: "reached s c (rs @ [uip]) = reached s c rs \<union> (set (lits_at s d) - {uip})"
    by (simp add: reached_snoc lits)
  have S: "seen_ok opts s (reached s c (rs @ [uip])) (snd w)" using st(1) re by simp
  have ch: "clauses t = clauses s" using seen_okD(1) [OF R(1)] by (rule same_searchD)
  have sc: "same_chains (s\<lparr>lrat_chain := (if opt_lrat opts then sc_id (clauses s ! c) # map (reason_id s) (rs @ [uip]) else [])\<rparr>) (snd w)"
    using st(2) R(2) lits(2) unfolding same_chains_def by simp
  have mem: "m \<in> set (trail s) \<and> lev s m = level s \<and> reason (var s m) \<noteq> None \<and> - m \<in> reached s c (rs @ [uip]) \<and>
      vtrail (var s uip) \<le> vtrail (var s m)" if "m \<in> set (rs @ [uip])" for m
    using that R(3) [of m] u d unfolding re by auto
  have "sorted_wrt (\<lambda>a b. vtrail (var s b) < vtrail (var s a)) (rs @ [uip])"
    using R(3,4) u(2) by (fastforce simp: sorted_wrt_append)
  moreover have "vtrail (var s lit) < vtrail (var s uip) \<or> - lit \<in> set (rs @ [uip])"
    if "lit \<in> reached s c (rs @ [uip])" "lev s lit = level s" for lit
    using that less [of lit] rd(4) [of lit] unfolding re by auto
  moreover have "in_turn s c (rs @ [uip]) k" if k: "k < length (rs @ [uip])" for k
  proof (cases "k < length rs")
    case False
    then have e: "(rs @ [uip]) ! k = uip" "take k (rs @ [uip]) = rs" using k by (simp_all add: nth_append)
    have "- uip \<in> open_lits s c rs" using u(3-5) by (simp add: open_lits_def)
    moreover have "2 \<le> card (open_lits s c rs)" using n(2) open_literals [OF r lv n(1)] by simp
    moreover have "vtrail (var s x) < vtrail (var s uip)" if "x \<in> open_lits s c rs" "x \<noteq> - uip" for x
      using less [of x] that by (auto simp: open_lits_def)
    ultimately show ?thesis unfolding in_turn_def e using d by blast
  qed (use R(7) in_turn_append in simp)
  ultimately show new: "resolved opts s c (rs @ [uip]) (vtrail (var s uip)) (snd w)"
    unfolding resolved_def using S sc mem R(6) u(2) by (intro conjI) (blast+, simp, blast)
  show eq: "fst w = int (on_level s (level s) (analyzed (snd w))) - int (length (rs @ [uip]))" using st(3) n(1) by simp
  obtain other where o: "other \<in> set (lits_at s d)" "other \<noteq> uip" "lev s other = level s" using rd(5) u(3) by auto
  let ?O = "open_lits s c (rs @ [uip])"
  have p: "vtrail (var s other) < vtrail (var s uip)" using rd(4) [OF o(1,2)] by simp
  have "- other \<notin> set (rs @ [uip])" using p mem [of "- other"] by auto
  then have "other \<in> ?O" using o re by (simp add: open_lits_def)
  moreover have "finite ?O" by (simp add: open_lits_def reached_def)
  ultimately have "0 < card ?O" using card_gt_0_iff by blast
  then show "1 \<le> fst w" using open_literals [OF new lv eq] by simp
qed

text \<open>The loop ends with a single literal of the conflict level that is not resolved.\<close>

lemma uip_loop_finds:
  assumes ok: "trail_ok s" and f: "length (ftab s) = length (vals s)" and lv: "level s \<noteq> 0"
    and r: "resolved opts s c rs i t" and n: "n = int (on_level s (level s) (analyzed t)) - int (length rs)" "1 \<le> n"
  shows "\<exists>uip u qs j. uip_loop opts i (n, t) = Some (uip, u) \<and> resolved opts s c qs j u \<and> uip \<in> set (trail s) \<and>
    uip \<notin> set qs \<and> {lit \<in> reached s c qs. lev s lit = level s} = uminus ` insert uip (set qs)"
  using r n
proof (induction i arbitrary: rs t n rule: less_induct)
  case (less i)
  obtain uip j where u: "next_uip t i = Some (uip, j)" "uip \<in> set (trail s)" "vtrail (var s uip) = j" "j < i"
    "lev s uip = level s" "- uip \<in> reached s c rs" "uip \<notin> set rs"
    "\<And>lit. lit \<in> reached s c rs \<Longrightarrow> lev s lit = level s \<Longrightarrow> - lit \<noteq> uip \<Longrightarrow> vtrail (var s lit) < j \<or> - lit \<in> set rs"
    "n = 1 \<Longrightarrow> {lit \<in> reached s c rs. lev s lit = level s} = uminus ` insert uip (set rs)"
    "n \<noteq> 1 \<Longrightarrow> reason (var s uip) \<noteq> None"
    by (rule resolved_next [OF ok f lv less.prems]) blast
  have vt: "var t = var s" using seen_okD(1) [OF resolvedD(1) [OF less.prems(1)]] by (rule same_searchD)
  show ?case
  proof (cases "n = 1")
    case True
    then have "uip_loop opts i (n, t) = Some (uip, t)" using u(1) by (simp add: uip_loop.simps)
    then show ?thesis using u(2,7) u(9) [OF True] less.prems(1) by blast
  next
    case False
    then obtain d where d: "reason (var s uip) = Some d" using u(10) by blast
    define w where "w = analyze_reason opts uip d (n - 1, t)"
    have e: "uip_loop opts i (n, t) = uip_loop opts j (fst w, snd w)"
      using u(1) d False vt by (simp add: uip_loop.simps [of opts i] w_def)
    have "2 \<le> n" using False less.prems(3) by simp
    note st = resolved_step [OF ok f lv less.prems(1,2) this u(2) _ u(5,6,7) _ d, folded w_def, unfolded u(3), OF u(4,8)]
    show ?thesis unfolding e by (rule less.IH [OF u(4) st])
  qed
qed

text \<open>Between two conflicts analysis has no data.\<close>

definition idle :: "search \<Rightarrow> bool" where
  "idle s \<longleftrightarrow> flags_clear s \<and> clause s = [] \<and> analyzed s = [] \<and> unit_analyzed s = [] \<and> levels s = [] \<and>
     lrat_chain s = [] \<and> unit_chain s = [] \<and> mini_chain s = [] \<and> minimize_chain s = [] \<and> minimized s = []"

lemma idleD:
  assumes "idle s"
  shows "flags_clear s" "clause s = []" "analyzed s = []" "unit_analyzed s = []" "levels s = []"
    "lrat_chain s = []" "unit_chain s = []" "mini_chain s = []" "minimize_chain s = []" "minimized s = []"
  using assms unfolding idle_def by blast+

lemma idle_length: "idle s \<Longrightarrow> length (ftab s) = length (vals s)"
  by (simp add: idle_def flags_clear_def)

lemma idle_seen_ok: "idle s \<Longrightarrow> seen_ok opts s {} s"
  by (simp add: idle_def flags_clear_def seen_ok_def flags_def)

text \<open>The literal \<open>uip\<close> was found after the literals \<open>rs\<close> were resolved; \<open>clause\<close> is the learned clause.\<close>

definition uip_found :: "search_opts \<Rightarrow> search \<Rightarrow> nat \<Rightarrow> int list \<Rightarrow> int \<Rightarrow> search \<Rightarrow> bool" where
  "uip_found opts s c rs uip t \<longleftrightarrow>
     (\<exists>j u. resolved opts s c rs j u \<and> t = u\<lparr>clause := clause u @ [- uip]\<rparr>) \<and> uip \<in> set (trail s) \<and> uip \<notin> set rs \<and>
     {lit \<in> reached s c rs. lev s lit = level s} = uminus ` insert uip (set rs)"

lemma first_uip_spec:
  assumes ok: "trail_ok s" and i: "idle s" and lv: "level s \<noteq> 0" and c: "falsified s c"
    and o: "lit \<in> set (lits_at s c)" "lev s lit = level s"
  shows "\<exists>uip t rs. first_uip opts c s = Some (uip, t) \<and> uip_found opts s c rs uip t"
proof -
  note T = trail_okD [OF ok] and I = idleD [OF i]
  have cl: "c < length (clauses s)" and false: "\<And>other. other \<in> set (lits_at s c) \<Longrightarrow> - other \<in> set (trail s)"
    using c by (auto simp: falsified_def)
  have nz: "other \<noteq> 0" if "other \<in> set (lits_at s c)" for other
    using clauses_okD(3) [OF T(4) cl that] by (auto simp: lit_in_def)
  then have "set (lits_at s c) - {0} = set (lits_at s c)" by blast
  then have re: "{} \<union> (set (lits_at s c) - {0}) = reached s c []" by (simp add: reached_def)
  define w where "w = analyze_reason opts 0 c (0, s)"
  have fw: "\<forall>other \<in> set (lits_at s c). other \<noteq> 0 \<longrightarrow> - other \<in> set (trail s)" using false by blast
  note st = analyze_reason_step [OF idle_seen_ok [OF i] T(1) idle_length [OF i] fw, of opts 0, folded w_def, unfolded re]
  have "vtrail (var s other) < length (trail s)" if "other \<in> reached s c []" for other
    using trail_position(1) [OF T(1) false, of other] that by (simp add: reached_def)
  then have r: "resolved opts s c [] (length (trail s)) (snd w)"
    unfolding resolved_def using st(1,2) I(6) by (simp cong: if_cong)
  have n: "fst w = int (on_level s (level s) (analyzed (snd w))) - int (length [])" using st(3) I(3) by simp
  have "lit \<in> open_lits s c []" using o by (simp add: open_lits_def reached_def)
  then have "0 < card (open_lits s c [])"
    by (intro card_gt_0_iff [THEN iffD2]) (auto simp: open_lits_def reached_def)
  then have "1 \<le> fst w" using open_literals [OF r lv n] by simp
  from uip_loop_finds [OF ok idle_length [OF i] lv r n this]
  obtain uip u qs j where u: "uip_loop opts (length (trail s)) w = Some (uip, u)" "resolved opts s c qs j u"
    "uip \<in> set (trail s)" "uip \<notin> set qs" "{lit \<in> reached s c qs. lev s lit = level s} = uminus ` insert uip (set qs)"
    by auto
  have "first_uip opts c s = Some (uip, u\<lparr>clause := clause u @ [- uip]\<rparr>)"
    using u(1) by (simp add: first_uip_def w_def)
  then show ?thesis using u(2-5) unfolding uip_found_def by blast
qed

lemma uip_foundD:
  assumes "uip_found opts s c rs uip t"
  shows "same_search s t" "\<And>lit. lit \<in> reached s c rs \<Longrightarrow> - lit \<in> set (trail s)"
    "distinct (unit_analyzed t)" "set (unit_analyzed t) = (if opt_lrat opts then {lit \<in> reached s c rs. lev s lit = 0} else {})"
    "unit_chain t = map (\<lambda>lit. unit_id s (- lit)) (unit_analyzed t)"
    "same_chains (s\<lparr>lrat_chain := (if opt_lrat opts then sc_id (clauses s ! c) # map (reason_id s) rs else [])\<rparr>) t"
    "\<And>lit. vidx lit < length (ftab s) \<Longrightarrow>
       seen (flags t lit) \<longleftrightarrow> (\<exists>k \<in> set (analyzed t) \<union> set (unit_analyzed t). vidx k = vidx lit)"
    "\<And>lit. vidx lit < length (ftab s) \<Longrightarrow> \<not> keep (flags t lit) \<and> \<not> poison (flags t lit) \<and> \<not> removable (flags t lit) \<and> \<not> added (flags t lit)"
    "\<And>m. m \<in> set rs \<Longrightarrow> m \<in> set (trail s) \<and> lev s m = level s \<and> reason (var s m) \<noteq> None \<and> - m \<in> reached s c rs"
    "sorted_wrt (\<lambda>a b. vtrail (var s b) < vtrail (var s a)) rs"
    "uip \<in> set (trail s)" "uip \<notin> set rs" "{lit \<in> reached s c rs. lev s lit = level s} = uminus ` insert uip (set rs)"
    "set (analyzed t) = {lit \<in> reached s c rs. lev s lit \<noteq> 0}"
    "\<And>k. k < length rs \<Longrightarrow> in_turn s c rs k"
proof -
  obtain j u where r: "resolved opts s c rs j u" and t: "t = u\<lparr>clause := clause u @ [- uip]\<rparr>"
    using assms unfolding uip_found_def by blast
  note R = resolvedD [OF r]
  note S = seen_okD [OF R(1)]
  show "same_search s t" "distinct (unit_analyzed t)"
    "set (unit_analyzed t) = (if opt_lrat opts then {lit \<in> reached s c rs. lev s lit = 0} else {})"
    "unit_chain t = map (\<lambda>lit. unit_id s (- lit)) (unit_analyzed t)"
    "set (analyzed t) = {lit \<in> reached s c rs. lev s lit \<noteq> 0}"
    using S(1,4-7) by (simp_all add: t)
  show "same_chains (s\<lparr>lrat_chain := (if opt_lrat opts then sc_id (clauses s ! c) # map (reason_id s) rs else [])\<rparr>) t"
    using R(2) unfolding t same_chains_def by simp
  show "- lit \<in> set (trail s)" if "lit \<in> reached s c rs" for lit using S(2) that .
  show "seen (flags t lit) \<longleftrightarrow> (\<exists>k \<in> set (analyzed t) \<union> set (unit_analyzed t). vidx k = vidx lit)"
    "\<not> keep (flags t lit) \<and> \<not> poison (flags t lit) \<and> \<not> removable (flags t lit) \<and> \<not> added (flags t lit)"
    if "vidx lit < length (ftab s)" for lit using S(9,10) [OF that] by (simp_all add: t flags_def)
  show "m \<in> set (trail s) \<and> lev s m = level s \<and> reason (var s m) \<noteq> None \<and> - m \<in> reached s c rs" if "m \<in> set rs" for m
    using R(3) [OF that] by blast
  show "sorted_wrt (\<lambda>a b. vtrail (var s b) < vtrail (var s a)) rs" by (rule R(4))
  show "in_turn s c rs k" if "k < length rs" for k using R(7) [OF that] .
  show "uip \<in> set (trail s)" "uip \<notin> set rs" "{lit \<in> reached s c rs. lev s lit = level s} = uminus ` insert uip (set rs)"
    using assms unfolding uip_found_def by blast+
qed

text \<open>The learned clause: the literals of lower levels, and the negated implication point.\<close>

lemma uip_clause:
  assumes "trail_ok s" "uip_found opts s c rs uip t"
  shows "set (clause t) = {lit \<in> reached s c rs. 0 < lev s lit \<and> lev s lit < level s} \<union> {- uip}"
    "distinct (clause t)" "lev s uip = level s" "- uip \<in> reached s c rs"
proof -
  obtain j u where r: "resolved opts s c rs j u" and t: "t = u\<lparr>clause := clause u @ [- uip]\<rparr>"
    using assms(2) unfolding uip_found_def by blast
  note S = seen_okD [OF resolvedD(1) [OF r]]
  have m: "- uip \<in> {lit \<in> reached s c rs. lev s lit = level s}" using uip_foundD(13) [OF assms(2)] by blast
  then show "lev s uip = level s" "- uip \<in> reached s c rs" by simp_all
  then have "- uip \<notin> set (clause u)" using S(8) by simp
  then show "distinct (clause t)" using S(3,8) by (simp add: t)
  have "set (clause u) = {lit \<in> reached s c rs. lev s lit \<noteq> 0} \<inter> {lit. lev s lit < level s}" using S(4,8) by auto
  then show "set (clause t) = {lit \<in> reached s c rs. 0 < lev s lit \<and> lev s lit < level s} \<union> {- uip}"
    by (simp add: t) blast
qed

end
