(* ===== verification/Search_Minimize.thy ===== *)
theory Search_Minimize
  imports Search_Analyze
begin

text \<open>
  Clause minimization: a removed literal is implied by the rest of the clause, and the chain
  collected for it lists the reasons in an order in which each is a unit.
\<close>

section \<open>Marks\<close>

text \<open>A true literal that the kept literals and the units imply, as far as the flags tell.\<close>

definition closed_lit :: "search \<Rightarrow> search \<Rightarrow> int \<Rightarrow> bool" where
  "closed_lit s t m \<longleftrightarrow> lev s m = 0 \<or> keep (flags t m) \<or> removable (flags t m)"

definition marks_ok :: "search \<Rightarrow> search \<Rightarrow> bool" where
  "marks_ok s t \<longleftrightarrow> same_search s t \<and>
     (\<forall>m \<in> set (trail s). removable (flags t m) \<longrightarrow> lev s m \<noteq> 0 \<and> lev s m \<noteq> level s \<and> \<not> keep (flags t m) \<and>
        \<not> poison (flags t m) \<and> reason (var s m) \<noteq> None \<and>
        (\<forall>other \<in> set (reason_lits s m). other \<noteq> m \<longrightarrow> closed_lit s t (- other))) \<and>
     (\<forall>m \<in> set (trail s). poison (flags t m) \<longrightarrow> lev s m \<noteq> 0) \<and>
     (\<forall>k. vidx k < length (ftab s) \<longrightarrow> poison (flags t k) \<or> removable (flags t k) \<longrightarrow>
        vidx k \<in> vidx ` set (minimized t))"

lemma marks_okD:
  assumes "marks_ok s t"
  shows "same_search s t"
    "\<And>m. m \<in> set (trail s) \<Longrightarrow> removable (flags t m) \<Longrightarrow> lev s m \<noteq> 0 \<and> lev s m \<noteq> level s \<and> \<not> keep (flags t m) \<and>
        \<not> poison (flags t m) \<and> reason (var s m) \<noteq> None"
    "\<And>m other. m \<in> set (trail s) \<Longrightarrow> removable (flags t m) \<Longrightarrow> other \<in> set (reason_lits s m) \<Longrightarrow> other \<noteq> m \<Longrightarrow>
        closed_lit s t (- other)"
    "\<And>k. vidx k < length (ftab s) \<Longrightarrow> poison (flags t k) \<or> removable (flags t k) \<Longrightarrow> vidx k \<in> vidx ` set (minimized t)"
    "\<And>m. m \<in> set (trail s) \<Longrightarrow> poison (flags t m) \<Longrightarrow> lev s m \<noteq> 0"
  using assms unfolding marks_ok_def by blast+

text \<open>Marking touches only what is before position \<open>p\<close> of the trail.\<close>

definition marked :: "search \<Rightarrow> nat \<Rightarrow> search \<Rightarrow> search \<Rightarrow> bool" where
  "marked s p t u \<longleftrightarrow> marks_ok s u \<and>
     (\<forall>k. vidx k < length (ftab s) \<longrightarrow> seen (flags u k) = seen (flags t k) \<and> keep (flags u k) = keep (flags t k) \<and>
        added (flags u k) = added (flags t k) \<and> (removable (flags t k) \<longrightarrow> removable (flags u k))) \<and>
     (\<forall>m \<in> set (trail s). p \<le> vtrail (var s m) \<longrightarrow> flags u m = flags t m) \<and>
     clause u = clause t \<and> analyzed u = analyzed t \<and> unit_analyzed u = unit_analyzed t \<and> lrat_chain u = lrat_chain t \<and>
     unit_chain u = unit_chain t \<and> mini_chain u = mini_chain t \<and> minimize_chain u = minimize_chain t"

lemma markedD:
  assumes "marked s p t u"
  shows "marks_ok s u"
    "\<And>k. vidx k < length (ftab s) \<Longrightarrow> seen (flags u k) = seen (flags t k) \<and> keep (flags u k) = keep (flags t k) \<and>
        added (flags u k) = added (flags t k) \<and> (removable (flags t k) \<longrightarrow> removable (flags u k))"
    "\<And>m. m \<in> set (trail s) \<Longrightarrow> p \<le> vtrail (var s m) \<Longrightarrow> flags u m = flags t m"
    "clause u = clause t" "analyzed u = analyzed t" "unit_analyzed u = unit_analyzed t" "lrat_chain u = lrat_chain t"
    "unit_chain u = unit_chain t" "mini_chain u = mini_chain t" "minimize_chain u = minimize_chain t"
  using assms unfolding marked_def by blast+

lemma marked_refl: "marks_ok s t \<Longrightarrow> marked s p t t"
  by (simp add: marked_def)

lemma marked_trans:
  assumes "marked s p t u" "marked s q u v" "p \<le> r" "q \<le> r"
  shows "marked s r t v"
proof -
  note A = markedD [OF assms(1)] and B = markedD [OF assms(2)]
  have "flags v m = flags t m" if "m \<in> set (trail s)" "r \<le> vtrail (var s m)" for m
    using A(3) [OF that(1)] B(3) [OF that(1)] that(2) assms(3,4) by simp
  then show ?thesis using B(1) A(2) B(2) A(4-) B(4-) unfolding marked_def by simp
qed

lemma true_in_range:
  assumes "values_ok s" "length (ftab s) = length (vals s)" "m \<in> set (trail s)"
  shows "vidx m < length (ftab s)"
  using values_okD(4) [OF assms(1,3)] vidx_less assms(2) by simp

lemma marked_closed:
  assumes "marked s p t u" "vidx m < length (ftab s)"
  shows "closed_lit s t m \<Longrightarrow> closed_lit s u m"
  using markedD(2) [OF assms] unfolding closed_lit_def by blast

text \<open>The literal whose reason was found closed or not.\<close>

definition set_mark :: "int \<Rightarrow> bool \<Rightarrow> search \<Rightarrow> search" where
  "set_mark lit res t =
     (on_flags lit (\<lambda>f. if res then f\<lparr>removable := True\<rparr> else f\<lparr>poison := True\<rparr>) t)\<lparr>minimized := minimized t @ [lit]\<rparr>"

lemma set_mark_ok:
  assumes "marks_ok s t" "vidx lit < length (ftab s)" "lit \<in> set (trail s)" "reason (var s lit) \<noteq> None"
    and "lev s lit \<noteq> 0" "lev s lit \<noteq> level s" "\<not> keep (flags t lit)" "\<not> poison (flags t lit)" "\<not> removable (flags t lit)"
    and "res \<Longrightarrow> \<forall>other \<in> set (reason_lits s lit). other \<noteq> lit \<longrightarrow> closed_lit s t (- other)" "values_ok s"
  shows "marked s (Suc (vtrail (var s lit))) t (set_mark lit res t)" "closed_lit s (set_mark lit res t) lit \<longleftrightarrow> res"
proof -
  let ?u = "set_mark lit res t"
  note M = marks_okD [OF assms(1)]
  have l: "vidx lit < length (ftab t)" using same_searchD(10) [OF M(1)] assms(2) by simp
  have fl: "flags ?u k = (if vidx k = vidx lit then (if res then (flags t k)\<lparr>removable := True\<rparr> else (flags t k)\<lparr>poison := True\<rparr>)
      else flags t k)" for k
    using flags_on_flags [OF l] by (simp add: set_mark_def)
  have eq: "flags t k = flags t lit" if "vidx k = vidx lit" for k using that by (simp add: flags_def)
  have cl: "closed_lit s t m \<Longrightarrow> closed_lit s ?u m" for m by (auto simp: closed_lit_def fl)
  have un: "m = lit" if "m \<in> set (trail s)" "vidx m = vidx lit" for m
    using that trail_consistent [OF assms(11,3)] by (auto simp: vidx_eq)
  have "same_search s ?u" using M(1) by (simp add: set_mark_def)
  moreover have "lev s m \<noteq> 0 \<and> lev s m \<noteq> level s \<and> \<not> keep (flags ?u m) \<and> \<not> poison (flags ?u m) \<and> reason (var s m) \<noteq> None \<and>
      (\<forall>other \<in> set (reason_lits s m). other \<noteq> m \<longrightarrow> closed_lit s ?u (- other))"
    if m: "m \<in> set (trail s)" "removable (flags ?u m)" for m
  proof (cases "m = lit")
    case True
    then have res using m(2) assms(9) by (auto simp: fl split: if_splits)
    have "flags ?u lit = (flags t lit)\<lparr>removable := True\<rparr>" using \<open>res\<close> unfolding fl by simp
    then show ?thesis using True \<open>res\<close> assms(4-8,10) cl by simp
  next
    case False
    then have f: "flags ?u m = flags t m" using un m(1) by (simp add: fl) blast
    then show ?thesis using M(2,3) [OF m(1)] m(2) cl unfolding f by blast
  qed
  moreover have "vidx k \<in> vidx ` set (minimized ?u)" if "vidx k < length (ftab s)" "poison (flags ?u k) \<or> removable (flags ?u k)" for k
  proof (cases "vidx k = vidx lit")
    case True
    then show ?thesis by (simp add: set_mark_def)
  next
    case False
    then have "flags ?u k = flags t k" unfolding fl by simp
    then show ?thesis using that M(4) [of k] by (auto simp: set_mark_def)
  qed
  moreover have "lev s m \<noteq> 0" if m: "m \<in> set (trail s)" "poison (flags ?u m)" for m
    using M(5) [OF m(1)] m(2) un [OF m(1)] assms(5) unfolding fl by (auto split: if_splits)
  ultimately have "marks_ok s ?u" unfolding marks_ok_def by blast
  moreover have "flags ?u m = flags t m" if "m \<in> set (trail s)" "Suc (vtrail (var s lit)) \<le> vtrail (var s m)" for m
    using that un [of m] by (auto simp: fl)
  ultimately show "marked s (Suc (vtrail (var s lit))) t ?u"
    unfolding marked_def by (simp add: fl) (simp add: set_mark_def)
  show "closed_lit s ?u lit \<longleftrightarrow> res" using assms(5,7,9) by (simp add: closed_lit_def fl)
qed


lemma minimize_literal_step:
  assumes ok: "trail_ok s" and f: "length (ftab s) = length (vals s)"
  shows "marks_ok s t \<Longrightarrow> lit \<in> set (trail s) \<Longrightarrow>
      marked s (Suc (vtrail (var s lit))) t (snd (minimize_literal limit lit depth t)) \<and>
      (fst (minimize_literal limit lit depth t) \<longleftrightarrow> closed_lit s (snd (minimize_literal limit lit depth t)) lit)"
    and "marks_ok s t \<Longrightarrow> lit \<in> set (trail s) \<Longrightarrow>
      (\<forall>other \<in> set lits. other \<noteq> lit \<longrightarrow> - other \<in> set (trail s) \<and> vtrail (var s other) < vtrail (var s lit)) \<Longrightarrow>
      marked s (vtrail (var s lit)) t (snd (minimize_reason limit lit lits depth t)) \<and>
      (fst (minimize_reason limit lit lits depth t) \<longrightarrow>
        (\<forall>other \<in> set lits. other \<noteq> lit \<longrightarrow> closed_lit s (snd (minimize_reason limit lit lits depth t)) (- other)))"
proof (induction limit lit depth t and limit lit lits depth t rule: minimize_literal_minimize_reason.induct)
  case (1 limit lit depth t)
  note M = marks_okD [OF 1(2)] and C = same_searchD [OF marks_okD(1) [OF 1(2)]]
  have less: "vidx lit < length (ftab s)" using true_in_range [OF trail_okD(1) [OF ok] f 1(3)] .
  show ?case
  proof (cases "closed_lit s t lit")
    case True
    then have "minimize_literal limit lit depth t = (True, t)"
      by (auto simp: minimize_literal.simps [of limit] closed_lit_def C)
    then show ?thesis using True 1(2) marked_refl by simp
  next
    case False
    then have nc: "lev s lit \<noteq> 0" "\<not> keep (flags t lit)" "\<not> removable (flags t lit)" by (auto simp: closed_lit_def)
    show ?thesis
    proof (cases "minimize_literal limit lit depth t = (False, t)")
      case True
      then show ?thesis using False 1(2) marked_refl by simp
    next
      case go: False
      obtain d where d: "reason (var s lit) = Some d"
        using go nc by (cases "reason (var s lit)") (auto simp: minimize_literal.simps [of limit] Let_def C)
      let ?l = "control t ! lev s lit"
      have c: "\<not> (poison (flags t lit) \<or> lev s lit = level s)" "\<not> (depth = 0 \<and> seen_count ?l < 2)"
        "\<not> vtrail (var s lit) \<le> seen_trail ?l" "\<not> depth > limit"
        using go nc d by (auto simp: minimize_literal.simps [of limit] Let_def C split: if_splits)
      note rd = reason_Some [OF ok 1(3) d]
      define r where "r = minimize_reason limit lit (lits_at s d) depth t"
      have m: "minimize_literal limit lit depth t = (fst r, set_mark lit (fst r) (snd r))"
        using nc d c(1,3,4) minimize_literal.simps [of limit lit depth t]
        unfolding Let_def C if_not_P [OF c(2)] by (simp add: r_def set_mark_def split: prod.split)
      have "\<forall>other \<in> set (lits_at s d). other \<noteq> lit \<longrightarrow> - other \<in> set (trail s) \<and> vtrail (var s other) < vtrail (var s lit)"
        using rd(4) by blast
      then have r: "marked s (vtrail (var s lit)) t (snd r)"
        "fst r \<longrightarrow> (\<forall>other \<in> set (lits_at s d). other \<noteq> lit \<longrightarrow> closed_lit s (snd r) (- other))"
        using 1(1) [OF refl refl refl] nc d c 1(2,3) by (simp_all add: C r_def)
      have fl: "flags (snd r) lit = flags t lit" using markedD(3) [OF r(1) 1(3)] by simp
      have re: "reason_lits s lit = lits_at s d" by (simp add: reason_lits_def d)
      note st = set_mark_ok [OF markedD(1) [OF r(1)] less 1(3) _ nc(1) _ _ _ _ _ trail_okD(1) [OF ok], of "fst r"]
      have "marked s (Suc (vtrail (var s lit))) (snd r) (set_mark lit (fst r) (snd r))"
        "closed_lit s (set_mark lit (fst r) (snd r)) lit \<longleftrightarrow> fst r"
        using st d c(1) nc(2,3) r(2) fl re by simp_all
      then show ?thesis using marked_trans [OF r(1), of "Suc (vtrail (var s lit))"] m by simp
    qed
  qed
next
  case (2 limit lit depth t)
  then show ?case using marked_refl by (simp add: minimize_reason.simps)
next
  case (3 limit lit other lits depth t)
  show ?case
  proof (cases "other = lit")
    case True
    then show ?thesis using 3(1) 3(4-) by (simp add: minimize_reason.simps)
  next
    case False
    have o: "- other \<in> set (trail s)" "vtrail (var s other) < vtrail (var s lit)" using 3(6) False by simp_all
    define r where "r = minimize_literal limit (- other) (depth + 1) t"
    have r: "marked s (Suc (vtrail (var s other))) t (snd r)" "fst r \<longleftrightarrow> closed_lit s (snd r) (- other)"
      using 3(2) [OF False 3(4) o(1)] by (simp_all add: r_def)
    show ?thesis
    proof (cases "fst r")
      case True
      define q where "q = minimize_reason limit lit lits depth (snd r)"
      have e: "minimize_reason limit lit (other # lits) depth t = q"
        using True False by (simp add: minimize_reason.simps q_def r_def split_beta)
      have "marked s (vtrail (var s lit)) (snd r) (snd q)"
        "fst q \<longrightarrow> (\<forall>x \<in> set lits. x \<noteq> lit \<longrightarrow> closed_lit s (snd q) (- x))"
        using 3(3) [OF False, of r "fst r" "snd r"] True markedD(1) [OF r(1)] 3(5,6) by (simp_all add: q_def r_def)
      moreover from this have "closed_lit s (snd q) (- other)"
        using marked_closed [OF _ true_in_range [OF trail_okD(1) [OF ok] f o(1)]] r(2) True by blast
      ultimately show ?thesis using marked_trans [OF r(1), of "vtrail (var s lit)"] o(2) by (simp add: e)
    next
      case no: False
      then have "minimize_reason limit lit (other # lits) depth t = (False, snd r)"
        using False by (simp add: minimize_reason.simps r_def split_beta)
      moreover have "marked s (vtrail (var s lit)) t (snd r)"
        using marked_trans [OF r(1) marked_refl [OF markedD(1) [OF r(1)], of 0], of "vtrail (var s lit)"] o(2) by simp
      ultimately show ?thesis by simp
    qed
  qed
qed

section \<open>What follows from the clauses\<close>

text \<open>The clauses of a state and the literals it fixed.\<close>

definition known_clauses :: "search \<Rightarrow> int list set" where
  "known_clauses s = sc_lits ` set (clauses s) \<union> (\<lambda>m. [m]) ` {m \<in> set (trail s). lev s m = 0}"

lemma known_true:
  assumes "models \<sigma> (known_clauses s)"
  shows "c < length (clauses s) \<Longrightarrow> clause_true \<sigma> (lits_at s c)"
    "m \<in> set (trail s) \<Longrightarrow> lev s m = 0 \<Longrightarrow> lit_true \<sigma> m"
proof -
  have all: "clause_true \<sigma> d" if "d \<in> known_clauses s" for d using assms that unfolding models_def by blast
  show "clause_true \<sigma> (lits_at s c)" if "c < length (clauses s)"
    using that by (intro all) (simp add: known_clauses_def lits_at_def)
  show "lit_true \<sigma> m" if "m \<in> set (trail s)" "lev s m = 0"
    using all [of "[m]"] that by (simp add: known_clauses_def clause_true_def)
qed

lemma true_not_both:
  assumes "trail_ok s" "- x \<in> set (trail s)" "lit_true \<sigma> (- x)"
  shows "\<not> lit_true \<sigma> x"
  using values_okD(4) [OF trail_okD(1) [OF assms(1)] assms(2)] lit_true_uminus [of x \<sigma>] assms(3) by (auto simp: lit_in_def)

text \<open>A literal is true when the other literals of its reason are false.\<close>

lemma reason_true:
  assumes ok: "trail_ok s" and m: "models \<sigma> (known_clauses s)" "x \<in> set (trail s)" "reason (var s x) \<noteq> None"
    and o: "\<And>y. y \<in> set (reason_lits s x) \<Longrightarrow> y \<noteq> x \<Longrightarrow> - y \<in> set (trail s) \<Longrightarrow>
      vtrail (var s y) < vtrail (var s x) \<Longrightarrow> lit_true \<sigma> (- y)"
  shows "lit_true \<sigma> x"
proof -
  obtain d where d: "reason (var s x) = Some d" using m(3) by blast
  note rd = reason_Some [OF ok m(2) d]
  have re: "reason_lits s x = lits_at s d" by (simp add: reason_lits_def d)
  obtain y where y: "y \<in> set (lits_at s d)" "lit_true \<sigma> y"
    using known_true(1) [OF m(1) rd(1)] by (auto simp: clause_true_def)
  have "y = x"
  proof (rule ccontr)
    assume n: "y \<noteq> x"
    have f: "- y \<in> set (trail s)" "vtrail (var s y) < vtrail (var s x)" using rd(4) [OF y(1) n] by blast+
    have "lit_true \<sigma> (- y)" by (rule o) (use y(1) n f re in simp_all)
    then show False using true_not_both [OF ok f(1)] y(2) by blast
  qed
  then show ?thesis using y(2) by simp
qed

text \<open>Closed literals are true when the kept ones are.\<close>

lemma closed_true:
  assumes ok: "trail_ok s" and mk: "marks_ok s t" and m: "models \<sigma> (known_clauses s)"
    and k: "\<And>x. x \<in> set (trail s) \<Longrightarrow> keep (flags t x) \<Longrightarrow> lit_true \<sigma> x"
  shows "x \<in> set (trail s) \<Longrightarrow> closed_lit s t x \<Longrightarrow> lit_true \<sigma> x"
proof (induction "vtrail (var s x)" arbitrary: x rule: less_induct)
  case less
  note M = marks_okD [OF mk]
  from less.prems(2) consider "lev s x = 0" | "keep (flags t x)" | (removed) "removable (flags t x)"
    unfolding closed_lit_def by auto
  then show ?case
  proof cases
    case removed
    show ?thesis
    proof (rule reason_true [OF ok m less.prems(1)])
      show "reason (var s x) \<noteq> None" using M(2) [OF less.prems(1) removed] by blast
      fix y assume y: "y \<in> set (reason_lits s x)" "y \<noteq> x" "- y \<in> set (trail s)" "vtrail (var s y) < vtrail (var s x)"
      have "closed_lit s t (- y)" by (rule M(3) [OF less.prems(1) removed y(1,2)])
      then show "lit_true \<sigma> (- y)" using less.hyps [of "- y"] y(3,4) by simp
    qed
  qed (use known_true(2) [OF m less.prems(1)] k [OF less.prems(1)] in blast)+
qed

text \<open>The first implication clause holds in every model.\<close>

lemma uip_clause_implied:
  assumes ok: "trail_ok s" and c: "falsified s c" and u: "uip_found opts s c rs uip w"
    and m: "models \<sigma> (known_clauses s)"
  shows "\<exists>x \<in> {lit \<in> reached s c rs. 0 < lev s lit \<and> lev s lit < level s} \<union> {- uip}. lit_true \<sigma> x"
proof (rule ccontr)
  assume n: "\<not> ?thesis"
  note U = uip_foundD [OF u]
  note V = values_okD [OF trail_okD(1) [OF ok]]
  have nz: "x \<noteq> 0" if "- x \<in> set (trail s)" for x using V(4) [OF that] by (auto simp: lit_in_def)
  have uip: "lit_true \<sigma> uip" using n lit_true_uminus [of "- uip" \<sigma>] nz [of "- uip"] U(11) by simp
  have low: "lit_true \<sigma> (- x)" if x: "x \<in> reached s c rs" "lev s x < level s" for x
  proof (cases "lev s x = 0")
    case True
    then show ?thesis using known_true(2) [OF m U(2) [OF x(1)]] by simp
  next
    case False
    then have "\<not> lit_true \<sigma> x" using n x by auto
    then show ?thesis using lit_true_uminus [OF nz [OF U(2) [OF x(1)]]] by simp
  qed
  have up: "lev s x \<le> level s" if "x \<in> reached s c rs" for x
    using levels_okD(4) [OF trail_okD(2) [OF ok], of "- x"] U(2) [OF that] by simp
  have res: "x \<in> set rs \<Longrightarrow> lit_true \<sigma> x" for x
  proof (induction "vtrail (var s x)" arbitrary: x rule: less_induct)
    case less
    note x = U(9) [OF less.prems]
    show ?case
    proof (rule reason_true [OF ok m])
      show "x \<in> set (trail s)" "reason (var s x) \<noteq> None" using x by blast+
      fix y assume y: "y \<in> set (reason_lits s x)" "y \<noteq> x" "- y \<in> set (trail s)" "vtrail (var s y) < vtrail (var s x)"
      have r: "y \<in> reached s c rs" using y(1,2) less.prems by (auto simp: reached_def)
      show "lit_true \<sigma> (- y)"
      proof (cases "lev s y < level s")
        case True
        then show ?thesis by (rule low [OF r])
      next
        case False
        then have "y \<in> uminus ` insert uip (set rs)" using U(13) up [OF r] r by auto
        then consider "- y = uip" | "- y \<in> set rs" by auto
        then show ?thesis using uip less.hyps [of "- y"] y(4) by cases simp_all
      qed
    qed
  qed
  have false: "lit_true \<sigma> (- x)" if x: "x \<in> set (lits_at s c)" for x
  proof -
    have r: "x \<in> reached s c rs" using x by (simp add: reached_def)
    show ?thesis
    proof (cases "lev s x < level s")
      case False
      then have "x \<in> uminus ` insert uip (set rs)" using U(13) up [OF r] r by auto
      then consider "- x = uip" | "- x \<in> set rs" by auto
      then show ?thesis using uip res [of "- x"] by cases simp_all
    qed (rule low [OF r])
  qed
  obtain x where x: "x \<in> set (lits_at s c)" "lit_true \<sigma> x"
    using known_true(1) [OF m, of c] c by (auto simp: falsified_def clause_true_def)
  then show False using false [OF x(1)] lit_true_uminus [of x \<sigma>] nz c by (auto simp: falsified_def)
qed

end
