(* ===== verification/Search_Chain.thy ===== *)
theory Search_Chain
  imports Search_Minimize
begin

text \<open>
  The LRAT chain of the literals that minimization removes: the loop over the reasons ends, and
  lists them so that each is a unit under the units, the kept literals and the reasons before.
\<close>


section \<open>Chains of reasons\<close>

text \<open>Each literal of the list follows by its reason from \<open>A\<close> and the literals before it.\<close>

fun implied :: "search \<Rightarrow> int set \<Rightarrow> int list \<Rightarrow> bool" where
  "implied s A [] \<longleftrightarrow> True"
| "implied s A (m # ms) \<longleftrightarrow> m \<in> set (trail s) \<and> reason (var s m) \<noteq> None \<and> m \<notin> A \<and>
     (\<forall>other \<in> set (reason_lits s m). other \<noteq> m \<longrightarrow> - other \<in> A) \<and> implied s (insert m A) ms"

lemma implied_append: "implied s A (xs @ ys) \<longleftrightarrow> implied s A xs \<and> implied s (A \<union> set xs) ys"
  by (induction xs arbitrary: A) auto

lemma implied_fresh: "implied s A ms \<Longrightarrow> set ms \<inter> A = {} \<and> distinct ms"
  by (induction ms arbitrary: A) auto

lemma implied_mono: "implied s A ms \<Longrightarrow> A \<subseteq> B \<Longrightarrow> set ms \<inter> B = {} \<Longrightarrow> implied s B ms"
proof (induction ms arbitrary: A B)
  case (Cons m ms)
  have "m \<notin> set ms" using implied_fresh [of s "insert m A" ms] Cons.prems(1) by auto
  then show ?case using Cons.IH [of "insert m A" "insert m B"] Cons.prems by auto
qed simp

text \<open>The literals resolved by the analysis, in the order of the trail.\<close>

lemma implied_sorted:
  assumes "trail_ok s" "sorted_wrt (\<lambda>a b. vtrail (var s a) < vtrail (var s b)) ms"
    and "\<forall>m \<in> set ms. m \<in> set (trail s) \<and> reason (var s m) \<noteq> None \<and> m \<notin> A \<and>
      (\<forall>other \<in> set (reason_lits s m). other \<noteq> m \<longrightarrow> - other \<in> A \<union> set ms)"
  shows "implied s A ms"
  using assms(2,3)
proof (induction ms arbitrary: A)
  case (Cons m ms)
  have m: "m \<in> set (trail s)" "reason (var s m) \<noteq> None" "m \<notin> A" using Cons.prems(2) by auto
  then obtain d where d: "reason (var s m) = Some d" by blast
  have "- other \<in> A" if o: "other \<in> set (reason_lits s m)" "other \<noteq> m" for other
  proof -
    have "vtrail (var s other) < vtrail (var s m)"
      using reason_Some(4) [OF assms(1) m(1) d, of other] o by (simp add: reason_lits_def d)
    then have "- other \<notin> set (m # ms)" using Cons.prems(1) by force
    then show ?thesis using Cons.prems(2) o by auto
  qed
  moreover have "m \<notin> set ms" using Cons.prems(1) by auto
  ultimately show ?case using Cons.IH [of "insert m A"] Cons.prems m by auto
qed simp

section \<open>The stack\<close>

text \<open>
  The stack as a list of true literals: marked, the reason of the literal is appended to the chain
  when the entry is reached; not marked, the literal is visited.
\<close>

definition stack_entry :: "bool \<times> int \<Rightarrow> int" where
  "stack_entry = (\<lambda>(e, m). if e then - int (vidx m) else int (vidx m))"

text \<open>
  Above the entry of a pending literal are literals assigned before it, among them all its
  antecedents that are not in \<open>B\<close>.
\<close>

definition stack_ok :: "search \<Rightarrow> int set \<Rightarrow> (bool \<times> int) list \<Rightarrow> bool" where
  "stack_ok s B g \<longleftrightarrow> (\<forall>xs k ys. g = xs @ (True, k) # ys \<longrightarrow>
     (\<forall>(e, m) \<in> set xs. vtrail (var s m) < vtrail (var s k) \<or> \<not> e \<and> m = k) \<and>
     (\<forall>other \<in> set (reason_lits s k). other \<noteq> k \<longrightarrow> - other \<in> B \<or> (\<exists>e. (e, - other) \<in> set xs)))"

lemma stack_okD:
  assumes "stack_ok s B (xs @ (True, k) # ys)"
  shows "\<And>e m. (e, m) \<in> set xs \<Longrightarrow> vtrail (var s m) < vtrail (var s k) \<or> \<not> e \<and> m = k"
    and "\<And>other. other \<in> set (reason_lits s k) \<Longrightarrow> other \<noteq> k \<Longrightarrow> - other \<in> B \<or> (\<exists>e. (e, - other) \<in> set xs)"
  using assms unfolding stack_ok_def by blast+

lemma stack_ok_single: "stack_ok s B [(False, m)]"
  by (auto simp: stack_ok_def append_eq_Cons_conv Cons_eq_append_conv)

lemma stack_ok_pop:
  assumes "stack_ok s B ((True, m) # g)"
  shows "stack_ok s (insert m B) g" "(True, m) \<notin> set g"
    "\<And>other. other \<in> set (reason_lits s m) \<Longrightarrow> other \<noteq> m \<Longrightarrow> - other \<in> B"
proof -
  show "stack_ok s (insert m B) g"
    unfolding stack_ok_def
  proof (intro allI impI)
    fix xs k ys
    assume "g = xs @ (True, k) # ys"
    then have s: "stack_ok s B (((True, m) # xs) @ (True, k) # ys)" using assms by simp
    note d = stack_okD [OF s]
    show "(\<forall>(e, x) \<in> set xs. vtrail (var s x) < vtrail (var s k) \<or> \<not> e \<and> x = k) \<and>
      (\<forall>other \<in> set (reason_lits s k). other \<noteq> k \<longrightarrow> - other \<in> insert m B \<or> (\<exists>e. (e, - other) \<in> set xs))"
      using d(1) d(2) by fastforce
  qed
  show "(True, m) \<notin> set g"
  proof
    assume "(True, m) \<in> set g"
    then obtain xs ys where "g = xs @ (True, m) # ys" by (meson split_list)
    then have "stack_ok s B (((True, m) # xs) @ (True, m) # ys)" using assms by simp
    from stack_okD(1) [OF this, of True m] show False by simp
  qed
  show "- other \<in> B" if "other \<in> set (reason_lits s m)" "other \<noteq> m" for other
    using stack_okD(2) [of s B "[]" m g other] assms that by simp
qed

lemma stack_ok_skip:
  assumes "stack_ok s B ((False, m) # g)" "m \<in> C \<or> (True, m) \<in> set g" "B \<subseteq> C"
    and "\<And>k other. (True, k) \<in> set g \<Longrightarrow> other \<in> set (reason_lits s k) \<Longrightarrow> other \<noteq> k \<Longrightarrow> vtrail (var s other) < vtrail (var s k)"
  shows "stack_ok s C g"
  unfolding stack_ok_def
proof (intro allI impI)
  fix xs k ys
  assume g: "g = xs @ (True, k) # ys"
  then have s: "stack_ok s B (((False, m) # xs) @ (True, k) # ys)" using assms(1) by simp
  note d = stack_okD [OF s]
  have "- other \<in> C \<or> (\<exists>e. (e, - other) \<in> set xs)" if o: "other \<in> set (reason_lits s k)" "other \<noteq> k" for other
  proof (rule ccontr)
    assume n: "\<not> ?thesis"
    then have m: "m = - other" using d(2) [OF o] assms(3) by auto
    have less: "vtrail (var s m) < vtrail (var s k)" using assms(4) [OF _ o] g m by simp
    have "(True, m) \<in> set g" using n m assms(2) by blast
    then have "(True, m) \<in> set ys" using n m less g by auto
    then obtain zs ws where "ys = zs @ (True, m) # ws" by (meson split_list)
    then have "stack_ok s B (((False, m) # xs @ (True, k) # zs) @ (True, m) # ws)" using assms(1) g by simp
    from stack_okD(1) [OF this, of True k] show False using less by simp
  qed
  moreover have "vtrail (var s x) < vtrail (var s k) \<or> \<not> e \<and> x = k" if "(e, x) \<in> set xs" for e x
    using d(1) [of e x] that by simp
  ultimately show "(\<forall>(e, x) \<in> set xs. vtrail (var s x) < vtrail (var s k) \<or> \<not> e \<and> x = k) \<and>
      (\<forall>other \<in> set (reason_lits s k). other \<noteq> k \<longrightarrow> - other \<in> C \<or> (\<exists>e. (e, - other) \<in> set xs))"
    by blast
qed

lemma stack_ok_push:
  assumes g: "stack_ok s B ((False, m) # g)" "(True, m) \<notin> set g"
    and new: "\<forall>(e, x) \<in> set new. \<not> e \<and> (vtrail (var s x) < vtrail (var s m) \<or> x = m)"
      "\<forall>other \<in> set (reason_lits s m). other \<noteq> m \<longrightarrow> (False, - other) \<in> set new"
  shows "stack_ok s B (new @ (True, m) # g)"
  unfolding stack_ok_def
proof (intro allI impI)
  fix xs k ys
  assume "new @ (True, m) # g = xs @ (True, k) # ys"
  moreover have "(True, k) \<notin> set new" using new(1) by auto
  ultimately consider (top) "xs = new" "k = m" | (below) zs where "g = zs @ (True, k) # ys" "xs = new @ (True, m) # zs"
    by (auto simp: append_eq_append_conv2 Cons_eq_append_conv append_eq_Cons_conv)
  then show "(\<forall>(e, x) \<in> set xs. vtrail (var s x) < vtrail (var s k) \<or> \<not> e \<and> x = k) \<and>
      (\<forall>other \<in> set (reason_lits s k). other \<noteq> k \<longrightarrow> - other \<in> B \<or> (\<exists>e. (e, - other) \<in> set xs))"
  proof cases
    case top
    then show ?thesis using new by auto
  next
    case below
    then have s: "stack_ok s B (((False, m) # zs) @ (True, k) # ys)" using g(1) by simp
    note d = stack_okD [OF s]
    have "k \<noteq> m" using g(2) below(1) by auto
    then have less: "vtrail (var s m) < vtrail (var s k)" using d(1) [of False m] by auto
    have "vtrail (var s x) < vtrail (var s k) \<or> \<not> e \<and> x = k" if "(e, x) \<in> set xs" for e x
      using that less new(1) d(1) [of e x] below(2) by auto
    moreover have "- other \<in> B \<or> (\<exists>e. (e, - other) \<in> set xs)" if "other \<in> set (reason_lits s k)" "other \<noteq> k" for other
      using d(2) [OF that] below(2) by auto
    ultimately show ?thesis by blast
  qed
qed


section \<open>The invariant of the chain\<close>

definition kept_lits :: "search \<Rightarrow> search \<Rightarrow> int set" where
  "kept_lits s t = {m \<in> set (trail s). keep (flags t m)}"

definition added_lits :: "search \<Rightarrow> search \<Rightarrow> int set" where
  "added_lits s t = {m \<in> set (trail s). added (flags t m)}"

text \<open>A literal is used by the clauses \<open>Z\<close> are the false literals of, or by the reason of one of \<open>P\<close>.\<close>

definition used_by :: "search \<Rightarrow> int set \<Rightarrow> int set \<Rightarrow> int \<Rightarrow> bool" where
  "used_by s Z P m \<longleftrightarrow> - m \<in> Z \<or> (\<exists>k \<in> P. - m \<in> set (reason_lits s k) \<and> - m \<noteq> k)"

text \<open>The units \<open>us\<close> and the reasons of \<open>ms\<close> are in the chain.\<close>

definition units_ok :: "search \<Rightarrow> search \<Rightarrow> int list \<Rightarrow> bool" where
  "units_ok s t us \<longleftrightarrow> distinct us \<and> set us = {m \<in> set (trail s). lev s m = 0 \<and> seen (flags t m)} \<and>
     unit_chain t = map (unit_id s) us \<and> map vidx (unit_analyzed t) = map vidx us \<and>
     (\<forall>k. vidx k < length (ftab s) \<longrightarrow> seen (flags t k) \<longrightarrow> vidx k \<in> vidx ` (set (analyzed t) \<union> set (unit_analyzed t)))"

definition added_ok :: "search \<Rightarrow> (bool \<times> int) list \<Rightarrow> search \<Rightarrow> int list \<Rightarrow> bool" where
  "added_ok s g t ms \<longleftrightarrow> added_lits s t = set ms \<union> {m. (True, m) \<in> set g} \<and> set ms \<inter> {m. (True, m) \<in> set g} = {} \<and>
     (\<forall>m \<in> added_lits s t. removable (flags t m)) \<and>
     (\<forall>k. vidx k < length (ftab s) \<longrightarrow> added (flags t k) \<longrightarrow> removable (flags t k))"

definition chain_inv :: "search \<Rightarrow> int set \<Rightarrow> (bool \<times> int) list \<Rightarrow> search \<Rightarrow> int list \<Rightarrow> int list \<Rightarrow> bool" where
  "chain_inv s Z g t ms us \<longleftrightarrow> marks_ok s t \<and> units_ok s t us \<and> added_ok s g t ms \<and>
     implied s (kept_lits s t \<union> set us) ms \<and> (\<forall>m \<in> kept_lits s t. lev s m \<noteq> 0) \<and>
     minimize_chain t @ mini_chain t = map (reason_id s) ms \<and>
     (\<forall>(e, m) \<in> set g. m \<in> set (trail s) \<and> closed_lit s t m) \<and>
     stack_ok s (kept_lits s t \<union> set us \<union> set ms) g \<and>
     (\<forall>m \<in> set us \<union> added_lits s t \<union> snd ` set g. used_by s Z (added_lits s t) m)"

lemma chain_invD:
  assumes "chain_inv s Z g t ms us"
  shows "marks_ok s t" "units_ok s t us" "added_ok s g t ms" "implied s (kept_lits s t \<union> set us) ms"
    "\<And>m. m \<in> kept_lits s t \<Longrightarrow> lev s m \<noteq> 0" "minimize_chain t @ mini_chain t = map (reason_id s) ms"
    "\<And>e m. (e, m) \<in> set g \<Longrightarrow> m \<in> set (trail s) \<and> closed_lit s t m"
    "stack_ok s (kept_lits s t \<union> set us \<union> set ms) g"
    "\<And>m. m \<in> set us \<union> added_lits s t \<union> snd ` set g \<Longrightarrow> used_by s Z (added_lits s t) m"
  using assms unfolding chain_inv_def by blast+

text \<open>What a round of the loop keeps.\<close>

definition chain_frame :: "search \<Rightarrow> search \<Rightarrow> search \<Rightarrow> bool" where
  "chain_frame s t u \<longleftrightarrow> same_search s u \<and> clause u = clause t \<and> analyzed u = analyzed t \<and> lrat_chain u = lrat_chain t \<and>
     minimize_chain u = minimize_chain t \<and> minimized u = minimized t \<and>
     (\<forall>k. keep (flags u k) = keep (flags t k) \<and> removable (flags u k) = removable (flags t k) \<and>
        poison (flags u k) = poison (flags t k))"

lemma chain_frame_trans: "chain_frame s t u \<Longrightarrow> chain_frame s u v \<Longrightarrow> chain_frame s t v"
  unfolding chain_frame_def by simp

lemma chain_frame_marks:
  assumes "chain_frame s t u" "marks_ok s t"
  shows "marks_ok s u" "kept_lits s u = kept_lits s t" "closed_lit s u = closed_lit s t"
proof -
  note M = marks_okD [OF assms(2)]
  have f: "same_search s u" "minimized u = minimized t" "\<And>k. keep (flags u k) = keep (flags t k) \<and>
      removable (flags u k) = removable (flags t k) \<and> poison (flags u k) = poison (flags t k)"
    using assms(1) unfolding chain_frame_def by blast+
  show "kept_lits s u = kept_lits s t" using f(3) by (simp add: kept_lits_def)
  show cl: "closed_lit s u = closed_lit s t" using f(3) by (simp add: closed_lit_def fun_eq_iff)
  show "marks_ok s u" using M f unfolding marks_ok_def cl by simp
qed

text \<open>A round: an entry is skipped, a unit or a reason is appended to the chain, or a literal is expanded.\<close>

lemma chain_skip:
  assumes inv: "chain_inv s Z ((False, m) # g) t ms us" and ok: "trail_ok s"
    and m: "m \<in> kept_lits s t \<union> set us \<union> added_lits s t"
  shows "chain_inv s Z g t ms us"
proof -
  note I = chain_invD [OF inv]
  have pend: "(True, k) \<in> set ((False, m) # g) \<Longrightarrow> k \<in> added_lits s t" for k
    using I(3) unfolding added_ok_def by blast
  have ant: "vtrail (var s other) < vtrail (var s k)"
    if "(True, k) \<in> set g" "other \<in> set (reason_lits s k)" "other \<noteq> k" for k other
  proof -
    have "k \<in> set (trail s)" "removable (flags t k)" using pend [of k] that(1) I(3) by (auto simp: added_ok_def added_lits_def)
    then obtain d where "reason (var s k) = Some d" using marks_okD(2) [OF I(1)] by blast
    then show ?thesis using reason_Some(4) [OF ok \<open>k \<in> set (trail s)\<close>, of d other] that by (simp add: reason_lits_def)
  qed
  have "m \<in> kept_lits s t \<union> set us \<union> set ms \<or> (True, m) \<in> set g"
    using m I(3) unfolding added_ok_def by auto
  from stack_ok_skip [OF I(8) this order_refl ant] have "stack_ok s (kept_lits s t \<union> set us \<union> set ms) g" .
  moreover have "added_ok s g t ms" using I(3) by (simp add: added_ok_def)
  moreover have "\<forall>(e, m) \<in> set g. m \<in> set (trail s) \<and> closed_lit s t m" using I(7) by auto
  ultimately show ?thesis using I(1,2,4,5,6,9) unfolding chain_inv_def by simp
qed


lemma chain_emit:
  assumes inv: "chain_inv s Z ((True, m) # g) t ms us"
  defines "u \<equiv> t\<lparr>mini_chain := mini_chain t @ [reason_id s m]\<rparr>"
  shows "chain_inv s Z g u (ms @ [m]) us" "chain_frame s t u" "added_lits s u = added_lits s t"
proof -
  note I = chain_invD [OF inv]
  have fl: "flags u = flags t" by (simp add: u_def fun_eq_iff)
  show ad: "added_lits s u = added_lits s t" by (simp add: added_lits_def fl)
  show fr: "chain_frame s t u" using marks_okD(1) [OF I(1)] by (simp add: chain_frame_def fl) (simp add: u_def)
  note F = chain_frame_marks [OF fr I(1)]
  have m: "m \<in> added_lits s t" "m \<notin> set ms" using I(3) by (auto simp: added_ok_def)
  then have mt: "m \<in> set (trail s)" "removable (flags t m)" using I(3) by (auto simp: added_ok_def added_lits_def)
  note M = marks_okD(2) [OF I(1) mt]
  have ku: "m \<notin> kept_lits s t \<union> set us" using M I(2) by (auto simp: kept_lits_def units_ok_def)
  note P = stack_ok_pop [OF I(8)]
  have "implied s (kept_lits s t \<union> set us) (ms @ [m])"
    unfolding implied_append using I(4) P(3) mt(1) M ku m(2) by simp
  moreover have "stack_ok s (kept_lits s t \<union> set us \<union> set (ms @ [m])) g" using P(1) by simp
  moreover have "added_ok s g u (ms @ [m])"
    using I(3) P(2) m(2) unfolding added_ok_def ad fl by (auto simp: u_def)
  moreover have "units_ok s u us" using I(2) unfolding units_ok_def fl by (simp add: u_def)
  moreover have "minimize_chain u @ mini_chain u = map (reason_id s) (ms @ [m])" using I(6) by (simp add: u_def)
  moreover have "\<forall>(e, m) \<in> set g. m \<in> set (trail s) \<and> closed_lit s t m" using I(7) by auto
  ultimately show "chain_inv s Z g u (ms @ [m]) us" using F I(5,9) unfolding chain_inv_def ad F by simp
qed

lemma chain_unit:
  assumes inv: "chain_inv s Z ((False, m) # g) t ms us" and ok: "trail_ok s" "length (ftab s) = length (vals s)"
    and m: "lev s m = 0" "\<not> seen (flags t m)"
  defines "u \<equiv> (on_flags (int (vidx m)) (\<lambda>f. f\<lparr>seen := True\<rparr>) t)
    \<lparr>unit_analyzed := unit_analyzed t @ [int (vidx m)], unit_chain := unit_chain t @ [unit_id s m]\<rparr>"
  shows "chain_inv s Z g u ms (us @ [m])" "chain_frame s t u" "added_lits s u = added_lits s t"
proof -
  note I = chain_invD [OF inv]
  have mt: "m \<in> set (trail s)" using I(7) [of False m] by simp
  have vi: "vidx (int (vidx m)) = vidx m" by (simp add: vidx_def)
  have "vidx (int (vidx m)) < length (ftab t)"
    using true_in_range [OF trail_okD(1) [OF ok(1)] ok(2) mt] same_searchD(10) [OF marks_okD(1) [OF I(1)]] vi by simp
  note fo = flags_on_flags [OF this, of "\<lambda>f. f\<lparr>seen := True\<rparr>", unfolded vi]
  have fl: "flags u k = (if vidx k = vidx m then (flags t k)\<lparr>seen := True\<rparr> else flags t k)" for k
    unfolding u_def using fo by simp
  have ad: "added (flags u k) = added (flags t k)" for k by (simp add: fl)
  then show ad2: "added_lits s u = added_lits s t" by (simp add: added_lits_def)
  show fr: "chain_frame s t u"
    using marks_okD(1) [OF I(1)] unfolding chain_frame_def fl by (simp add: u_def)
  note F = chain_frame_marks [OF fr I(1)]
  have un: "k = m" if "k \<in> set (trail s)" "vidx k = vidx m" for k
    using that trail_consistent [OF trail_okD(1) [OF ok(1)] mt] by (auto simp: vidx_eq)
  have seen: "seen (flags u k) \<longleftrightarrow> seen (flags t k) \<or> k = m" if "k \<in> set (trail s)" for k
    using un [OF that] by (auto simp: fl)
  have "m \<notin> set us" using I(2) m by (auto simp: units_ok_def)
  then have uo: "units_ok s u (us @ [m])"
  proof -
    have "vidx k \<in> vidx ` (set (analyzed u) \<union> set (unit_analyzed u))"
      if "vidx k < length (ftab s)" "seen (flags u k)" for k
    proof (cases "vidx k = vidx m")
      case True
      then show ?thesis using vi by (simp add: u_def)
    next
      case False
      then have "flags u k = flags t k" by (simp add: fl)
      then show ?thesis using that I(2) by (auto simp: units_ok_def u_def)
    qed
    moreover have "{k \<in> set (trail s). lev s k = 0 \<and> seen (flags u k)} = set (us @ [m])"
      using seen I(2) mt m(1) by (auto simp: units_ok_def)
    moreover have "unit_chain u = map (unit_id s) (us @ [m])" "map vidx (unit_analyzed u) = map vidx (us @ [m])"
      using I(2) vi by (simp_all add: units_ok_def u_def)
    ultimately show ?thesis using I(2) \<open>m \<notin> set us\<close> unfolding units_ok_def by simp
  qed
  have low: "lev s k \<noteq> 0" if "k \<in> set ms" for k
  proof -
    have "k \<in> set (trail s)" "removable (flags t k)" using that I(3) by (auto simp: added_ok_def added_lits_def)
    then show ?thesis using marks_okD(2) [OF I(1)] by blast
  qed
  then have "set ms \<inter> (kept_lits s t \<union> set (us @ [m])) = {}"
    using implied_fresh [OF I(4)] m(1) low [of m] by auto
  then have im: "implied s (kept_lits s t \<union> set (us @ [m])) ms" by (intro implied_mono [OF I(4)]) auto
  have ao: "added_ok s ((False, m) # g) u ms"
  proof -
    have "removable (flags u k) = removable (flags t k)" for k by (simp add: fl)
    then show ?thesis using I(3) unfolding added_ok_def ad2 ad by simp
  qed
  have st: "stack_ok s (kept_lits s t \<union> set (us @ [m]) \<union> set ms) ((False, m) # g)"
    using I(8) unfolding stack_ok_def by simp
  have ent: "\<forall>(e, k) \<in> set ((False, m) # g). k \<in> set (trail s) \<and> closed_lit s t k" using I(7) by blast
  have "chain_inv s Z ((False, m) # g) u ms (us @ [m])"
    using F(1) uo ao im I(5,6,9) st ent unfolding chain_inv_def F(2,3) ad2 by (simp add: u_def)
  then show "chain_inv s Z g u ms (us @ [m])" by (rule chain_skip [OF _ ok(1)]) simp
qed


definition antecedents :: "search \<Rightarrow> int \<Rightarrow> (bool \<times> int) list" where
  "antecedents s m = rev (map (\<lambda>other. (False, if other = m then m else - other))
     (filter (\<lambda>other. other \<noteq> int (vidx m)) (reason_lits s m)))"

lemma antecedent_entries:
  "map stack_entry (antecedents s m) =
    rev (map (int \<circ> vidx) (filter (\<lambda>other. other \<noteq> int (vidx m)) (reason_lits s m)))"
  by (auto simp: antecedents_def stack_entry_def rev_map)

lemma chain_expand:
  assumes inv: "chain_inv s Z ((False, m) # g) t ms us" and ok: "trail_ok s" "length (ftab s) = length (vals s)"
    and m: "lev s m \<noteq> 0" "\<not> keep (flags t m)" "\<not> added (flags t m)"
  defines "u \<equiv> on_flags (int (vidx m)) (\<lambda>f. f\<lparr>added := True\<rparr>) t"
  shows "chain_inv s Z (antecedents s m @ (True, m) # g) u ms us" "chain_frame s t u"
    "added_lits s u = insert m (added_lits s t)" "\<not> poison (flags t m)" "reason (var s m) \<noteq> None"
proof -
  note I = chain_invD [OF inv]
  have mt: "m \<in> set (trail s)" "removable (flags t m)" using I(7) [of False m] m by (auto simp: closed_lit_def)
  note M = marks_okD(2) [OF I(1) mt]
  then show "\<not> poison (flags t m)" "reason (var s m) \<noteq> None" by blast+
  then obtain d where d: "reason (var s m) = Some d" by blast
  have rl: "reason_lits s m = lits_at s d" by (simp add: reason_lits_def d)
  note rd = reason_Some [OF ok(1) mt(1) d, folded rl]
  have vi: "vidx (int (vidx m)) = vidx m" by (simp add: vidx_def)
  have range: "vidx m < length (ftab s)" by (rule true_in_range [OF trail_okD(1) [OF ok(1)] ok(2) mt(1)])
  then have "vidx (int (vidx m)) < length (ftab t)" using same_searchD(10) [OF marks_okD(1) [OF I(1)]] vi by simp
  note fo = flags_on_flags [OF this, of "\<lambda>f. f\<lparr>added := True\<rparr>", unfolded vi]
  have fl: "flags u k = (if vidx k = vidx m then (flags t k)\<lparr>added := True\<rparr> else flags t k)" for k
    unfolding u_def using fo by simp
  have un: "k = m" if "k \<in> set (trail s)" "vidx k = vidx m" for k
    using that trail_consistent [OF trail_okD(1) [OF ok(1)] mt(1)] by (auto simp: vidx_eq)
  show ad: "added_lits s u = insert m (added_lits s t)"
    using un mt(1) by (auto simp: added_lits_def fl)
  show fr: "chain_frame s t u"
    using marks_okD(1) [OF I(1)] unfolding chain_frame_def fl by (simp add: u_def)
  note F = chain_frame_marks [OF fr I(1)]
  have nm: "m \<notin> added_lits s t" using m(3) by (simp add: added_lits_def)
  then have np: "(True, m) \<notin> set g" "m \<notin> set ms" using I(3) by (auto simp: added_ok_def)
  have mem: "(e, k) \<in> set (antecedents s m) \<Longrightarrow>
      \<not> e \<and> (k = m \<or> (\<exists>other \<in> set (reason_lits s m). other \<noteq> m \<and> k = - other))" for e k
    by (auto simp: antecedents_def split: if_splits)
  have ants: "(False, - other) \<in> set (antecedents s m)" if "other \<in> set (reason_lits s m)" "other \<noteq> m" for other
  proof -
    have "vidx other \<noteq> vidx m" using rd(4) [OF that] un [of "- other"] by auto
    then have "other \<noteq> int (vidx m)" using vi by auto
    then show ?thesis using that by (force simp: antecedents_def)
  qed
  have new: "\<forall>(e, x) \<in> set (antecedents s m). \<not> e \<and> (vtrail (var s x) < vtrail (var s m) \<or> x = m)"
    using mem rd(4) by fastforce
  have st: "stack_ok s (kept_lits s t \<union> set us \<union> set ms) (antecedents s m @ (True, m) # g)"
    using ants by (intro stack_ok_push [OF I(8) np(1) new]) blast
  have cl: "closed_lit s t k" if "(e, k) \<in> set (antecedents s m)" for e k
  proof -
    have "closed_lit s t m" using mt(2) by (simp add: closed_lit_def)
    then show ?thesis using mem [OF that] marks_okD(3) [OF I(1) mt] by blast
  qed
  have ent: "\<forall>(e, k) \<in> set (antecedents s m @ (True, m) # g). k \<in> set (trail s) \<and> closed_lit s t k"
  proof -
    have "k \<in> set (trail s)" if "(e, k) \<in> set (antecedents s m)" for e k
      using mem [OF that] rd(4) mt(1) by blast
    moreover have "k \<in> set (trail s) \<and> closed_lit s t k" if "(e, k) \<in> set ((True, m) # g)" for e k
      using that I(7) [of False m] I(7) [of e k] by auto
    ultimately show ?thesis using cl by auto
  qed
  have ad2: "added_ok s (antecedents s m @ (True, m) # g) u ms"
  proof -
    have "{k. (True, k) \<in> set (antecedents s m @ (True, m) # g)} = insert m {k. (True, k) \<in> set ((False, m) # g)}"
      using mem by auto
    moreover have "removable (flags u k) = removable (flags t k)" for k by (simp add: fl)
    moreover have "removable (flags t k)" if "vidx k < length (ftab s)" "added (flags u k)" for k
    proof (cases "vidx k = vidx m")
      case True
      then have "flags t k = flags t m" by (simp add: flags_def)
      then show ?thesis using mt(2) by simp
    next
      case False
      then have "flags u k = flags t k" by (simp add: fl)
      then show ?thesis using that I(3) by (simp add: added_ok_def)
    qed
    ultimately show ?thesis using I(3) np(2) mt(2) unfolding added_ok_def ad by auto
  qed
  have uo: "units_ok s u us"
  proof -
    have "seen (flags u k) = seen (flags t k)" for k by (simp add: fl)
    then show ?thesis using I(2) unfolding units_ok_def by (simp add: u_def)
  qed
  have mono: "used_by s Z (added_lits s t) k \<Longrightarrow> used_by s Z (insert m (added_lits s t)) k" for k
    by (auto simp: used_by_def)
  have um: "used_by s Z (insert m (added_lits s t)) m" using I(9) [of m] mono by simp
  have ua: "used_by s Z (insert m (added_lits s t)) k" if "(e, k) \<in> set (antecedents s m)" for e k
    using mem [OF that] um by (auto simp: used_by_def)
  have "used_by s Z (insert m (added_lits s t)) k"
    if k: "k \<in> set us \<union> insert m (added_lits s t) \<union> snd ` set (antecedents s m @ (True, m) # g)" for k
  proof -
    consider "k = m" | "k \<in> set us \<union> added_lits s t \<union> snd ` set ((False, m) # g)" | e where "(e, k) \<in> set (antecedents s m)"
      using k by force
    then show ?thesis
    proof cases
      case 1
      then show ?thesis using um by simp
    next
      case 2
      then show ?thesis using I(9) [of k] mono by blast
    next
      case 3
      then show ?thesis by (rule ua)
    qed
  qed
  then show "chain_inv s Z (antecedents s m @ (True, m) # g) u ms us"
    using F(1) uo ad2 I(4,5,6) st ent unfolding chain_inv_def F(2,3) ad by (simp add: u_def)
qed


section \<open>The loop\<close>

lemma chain_loop_runs:
  assumes ok: "trail_ok s" "length (ftab s) = length (vals s)" and "chain_inv s Z g t ms us"
  shows "\<exists>u ms' us'. minimize_chain_loop opts (map stack_entry g) t = Some u \<and> chain_inv s Z [] u ms' us' \<and>
      chain_frame s t u \<and> set us \<subseteq> set us' \<and> set ms \<subseteq> set ms' \<and> snd ` set g \<subseteq> kept_lits s t \<union> set us' \<union> set ms'"
  using assms(3)
proof (induction "(t, g)" arbitrary: t g ms us
    rule: wf_induct_rule [OF wf_measures [of "[\<lambda>(t, g). card (set (trail s) - added_lits s t), \<lambda>(t, g). length g]"]])
  case (1 t g ms us)
  note IH = 1(1) and inv = 1(2)
  note I = chain_invD [OF inv] and C = same_searchD [OF marks_okD(1) [OF chain_invD(1) [OF 1(2)]]]
  have refl: "chain_frame s t t" using marks_okD(1) [OF I(1)] by (simp add: chain_frame_def)
  have step: ?case if u: "minimize_chain_loop opts (map stack_entry g) t = minimize_chain_loop opts (map stack_entry h) u"
      "chain_inv s Z h u ms1 us1" "chain_frame s t u" "set us \<subseteq> set us1" "set ms \<subseteq> set ms1"
      "((u, h), (t, g)) \<in> measures [\<lambda>(t, g). card (set (trail s) - added_lits s t), \<lambda>(t, g). length g]"
      "snd ` set g \<subseteq> kept_lits s t \<union> set us1 \<union> set ms1 \<union> snd ` set h" for u h ms1 us1
  proof -
    obtain v ms2 us2 where v: "minimize_chain_loop opts (map stack_entry h) u = Some v" "chain_inv s Z [] v ms2 us2"
      "chain_frame s u v" "set us1 \<subseteq> set us2" "set ms1 \<subseteq> set ms2" "snd ` set h \<subseteq> kept_lits s u \<union> set us2 \<union> set ms2"
      using IH [OF u(6,2)] by blast
    have "chain_frame s t v" by (rule chain_frame_trans [OF u(3) v(3)])
    moreover have "kept_lits s u = kept_lits s t" by (rule chain_frame_marks(2) [OF u(3) I(1)])
    moreover from this have "snd ` set g \<subseteq> kept_lits s t \<union> set us2 \<union> set ms2" using u(7) v(4-6) by blast
    moreover have "minimize_chain_loop opts (map stack_entry g) t = Some v" using u(1) v(1) by simp
    ultimately show ?thesis using u(4,5) v(2,4,5) by (meson subset_trans)
  qed
  show ?case
  proof (cases g)
    case Nil
    then have "minimize_chain_loop opts (map stack_entry g) t = Some t" by (simp add: minimize_chain_loop.simps)
    then show ?thesis using inv refl Nil by auto
  next
    case g: (Cons x g')
    obtain e m where x: "x = (e, m)" by (cases x)
    have mt: "m \<in> set (trail s)" "closed_lit s t m" using I(7) [of e m] g x by simp_all
    have m0: "0 < vidx m" "val s m = 1"
      using values_okD(4,5) [OF trail_okD(1) [OF ok(1)] mt(1)] by (auto simp: lit_in_def vidx_def)
    let ?i = "int (vidx m)"
    have vi: "vidx ?i = vidx m" by (simp add: vidx_def)
    have fi: "flags t ?i = flags t m" "var s ?i = var s m" "flags t (- ?i) = flags t m" "var s (- ?i) = var s m"
      by (simp_all add: flags_def var_def vi)
    note loop = minimize_chain_loop.simps [of opts "map stack_entry g" t]
    show ?thesis
    proof (cases e)
      case True
      have inv': "chain_inv s Z ((True, m) # g') t ms us" using inv g x True by simp
      note em = chain_emit [OF inv']
      obtain d where d: "reason (var s m) = Some d"
        using I(4) em(1) chain_invD(4) [OF em(1)] unfolding implied_append by auto
      have "reason_id s m = sc_id (clauses s ! d)" by (simp add: reason_id_def d)
      then have "minimize_chain_loop opts (map stack_entry g) t =
          minimize_chain_loop opts (map stack_entry g') (t\<lparr>mini_chain := mini_chain t @ [reason_id s m]\<rparr>)"
        using loop m0(1) d by (simp add: g x True stack_entry_def Let_def fi C)
      then show ?thesis
        by (rule step [OF _ em(1,2)]) (auto simp: g x True em(3))
    next
      case False
      have inv': "chain_inv s Z ((False, m) # g') t ms us" using inv g x False by simp
      note loop' = loop [unfolded g x, simplified, unfolded stack_entry_def]
      consider (skip) "keep (flags t m) \<or> added (flags t m) \<or> poison (flags t m)"
        | (unit) "\<not> (keep (flags t m) \<or> added (flags t m) \<or> poison (flags t m))" "lev s m = 0"
        | (expand) "\<not> (keep (flags t m) \<or> added (flags t m) \<or> poison (flags t m))" "lev s m \<noteq> 0"
        by blast
      then show ?thesis
      proof cases
        case skip
        have mem: "m \<in> kept_lits s t \<union> set us \<union> added_lits s t"
          using skip mt marks_okD(2,5) [OF I(1) mt(1)] by (auto simp: kept_lits_def added_lits_def closed_lit_def)
        have "minimize_chain_loop opts (map stack_entry g) t = minimize_chain_loop opts (map stack_entry g') t"
          using loop m0(1) skip by (simp add: g x False stack_entry_def Let_def fi)
        moreover have "m \<in> kept_lits s t \<union> set us \<union> set ms \<union> snd ` set g'"
          using mem I(3) g x False by (force simp: added_ok_def)
        ultimately show ?thesis
          by (intro step [OF _ chain_skip [OF inv' ok(1) mem] refl]) (auto simp: g x)
      next
        case unit
        show ?thesis
        proof (cases "seen (flags t m)")
          case True
          then have mem: "m \<in> set us" using unit(2) mt(1) I(2) by (auto simp: units_ok_def)
          have "minimize_chain_loop opts (map stack_entry g) t = minimize_chain_loop opts (map stack_entry g') t"
            using loop m0(1) unit True by (simp add: g x False stack_entry_def Let_def fi C)
          then show ?thesis
            using mem by (intro step [OF _ chain_skip [OF inv' ok(1)] refl]) (auto simp: g x)
        next
          case not_seen: False
          have "val s (- ?i) = - val s ?i" using m0(1) by simp
          moreover have "m = ?i \<or> m = - ?i" by (auto simp: vidx_def)
          ultimately have "(if val s ?i > 0 then ?i else - ?i) = m" using m0(2) by (metis neg_0_less_iff_less not_less_iff_gr_or_eq zero_less_one)
          then have go: "minimize_chain_loop opts (map stack_entry g) t = minimize_chain_loop opts (map stack_entry g')
              ((on_flags ?i (\<lambda>f. f\<lparr>seen := True\<rparr>) t)
                \<lparr>unit_analyzed := unit_analyzed t @ [?i], unit_chain := unit_chain t @ [unit_id s m]\<rparr>)"
            using loop m0(1) unit not_seen by (simp add: g x False stack_entry_def Let_def fi C)
          note un = chain_unit [OF inv' ok unit(2) not_seen]
          show ?thesis by (rule step [OF go un(1,2)]) (auto simp: g x un(3))
        qed
      next
        case expand
        then have k: "\<not> keep (flags t m)" "\<not> added (flags t m)" by blast+
        note ex = chain_expand [OF inv' ok expand(2) k]
        obtain d where d: "reason (var s m) = Some d" using ex(5) by blast
        have rl: "reason_lits s m = lits_at s d" by (simp add: reason_lits_def d)
        have "minimize_chain_loop opts (map stack_entry g) t = minimize_chain_loop opts
            (map stack_entry (antecedents s m @ (True, m) # g')) (on_flags ?i (\<lambda>f. f\<lparr>added := True\<rparr>) t)"
          using loop m0(1) expand d
          by (simp add: g x False fi C antecedent_entries rl) (simp add: stack_entry_def Let_def fi C d)
        moreover have "card (set (trail s) - insert m (added_lits s t)) < card (set (trail s) - added_lits s t)"
          using mt(1) k(2) by (intro psubset_card_mono) (auto simp: added_lits_def)
        ultimately show ?thesis
          by (intro step [OF _ ex(1,2)]) (auto simp: g x ex(3))
      qed
    qed
  qed
qed


section \<open>Minimizing the clause\<close>

text \<open>Marking, and keeping a literal, leave the chain as it is.\<close>

lemma chain_marked:
  assumes inv: "chain_inv s Z [] t ms us" and m: "marked s p t u" and ok: "trail_ok s" "length (ftab s) = length (vals s)"
  shows "chain_inv s Z [] u ms us" "kept_lits s u = kept_lits s t"
proof -
  note I = chain_invD [OF inv] and M = markedD [OF m]
  have fl: "seen (flags u k) = seen (flags t k)" "keep (flags u k) = keep (flags t k)" "added (flags u k) = added (flags t k)"
    "removable (flags t k) \<Longrightarrow> removable (flags u k)" if "vidx k < length (ftab s)" for k
    using M(2) [OF that] by blast+
  note r = true_in_range [OF trail_okD(1) [OF ok(1)] ok(2)]
  show k: "kept_lits s u = kept_lits s t" using fl(2) r by (auto simp: kept_lits_def)
  have ad: "added_lits s u = added_lits s t" using fl(3) r by (auto simp: added_lits_def)
  have "{m \<in> set (trail s). lev s m = 0 \<and> seen (flags u m)} = {m \<in> set (trail s). lev s m = 0 \<and> seen (flags t m)}"
    using fl(1) r by blast
  then have "units_ok s u us" using I(2) fl(1) unfolding units_ok_def M(5,6,8) by simp
  moreover have "added_ok s [] u ms"
    using I(3) fl(3,4) r unfolding added_ok_def ad by (fastforce simp: added_lits_def)
  ultimately show "chain_inv s Z [] u ms us"
    using I(4-6,9) M(1) unfolding chain_inv_def k ad M(9,10) by (simp add: stack_ok_def)
qed

lemma chain_keep:
  assumes inv: "chain_inv s Z [] t ms us" and ok: "trail_ok s" "length (ftab s) = length (vals s)"
    and x: "- x \<in> set (trail s)" "lev s x \<noteq> 0" "\<not> removable (flags t x)"
  defines "u \<equiv> on_flags x (\<lambda>f. f\<lparr>keep := True\<rparr>) t"
  shows "chain_inv s Z [] u ms us"
    "\<And>k. flags u k = (if vidx k = vidx x then (flags t k)\<lparr>keep := True\<rparr> else flags t k)"
proof -
  note I = chain_invD [OF inv]
  have "vidx (- x) < length (ftab s)" by (rule true_in_range [OF trail_okD(1) [OF ok(1)] ok(2) x(1)])
  then have "vidx x < length (ftab t)" using same_searchD(10) [OF marks_okD(1) [OF I(1)]] by simp
  note fl = flags_on_flags [OF this, of "\<lambda>f. f\<lparr>keep := True\<rparr>", folded u_def]
  show "flags u k = (if vidx k = vidx x then (flags t k)\<lparr>keep := True\<rparr> else flags t k)" for k by (rule fl)
  have same: "flags t k = flags t x" if "vidx k = vidx x" for k using that by (simp add: flags_def)
  have un: "k = - x" if "k \<in> set (trail s)" "vidx k = vidx x" for k
    using that trail_consistent [OF trail_okD(1) [OF ok(1)] x(1)] by (auto simp: vidx_eq)
  have f: "seen (flags u k) = seen (flags t k)" "removable (flags u k) = removable (flags t k)"
    "poison (flags u k) = poison (flags t k)" "added (flags u k) = added (flags t k)" for k by (simp_all add: fl)
  have kl: "kept_lits s u = insert (- x) (kept_lits s t)"
  proof (rule set_eqI)
    fix k
    have "keep (flags u k) \<longleftrightarrow> vidx k = vidx x \<or> keep (flags t k)" by (simp add: fl)
    moreover have "k \<in> set (trail s) \<Longrightarrow> vidx k = vidx x \<longleftrightarrow> k = - x" using un [of k] by fastforce
    ultimately show "k \<in> kept_lits s u \<longleftrightarrow> k \<in> insert (- x) (kept_lits s t)"
      using x(1) by (auto simp: kept_lits_def)
  qed
  have ad: "added_lits s u = added_lits s t" by (simp add: added_lits_def f)
  have cl: "closed_lit s t k \<Longrightarrow> closed_lit s u k" for k by (auto simp: closed_lit_def fl)
  have nk: "\<not> keep (flags u k)" if "k \<in> set (trail s)" "removable (flags t k)" for k
  proof -
    have "vidx k \<noteq> vidx x" using same [of k] x(3) that(2) by metis
    then show ?thesis using marks_okD(2) [OF I(1) that] by (simp add: fl)
  qed
  have same_s: "same_search s u" using marks_okD(1) [OF I(1)] by (simp add: u_def)
  have mu: "minimized u = minimized t" by (simp add: u_def)
  have "marks_ok s u"
    using marks_okD(2-5) [OF I(1)] nk cl same_s unfolding marks_ok_def f mu by blast
  moreover have "units_ok s u us" using I(2) unfolding units_ok_def f by (simp add: u_def)
  moreover have "added_ok s [] u ms" using I(3) unfolding added_ok_def ad f .
  moreover have "- x \<notin> set ms"
  proof
    assume "- x \<in> set ms"
    then have "removable (flags t (- x))" using I(3) unfolding added_ok_def by blast
    then show False using x(3) by simp
  qed
  then have "implied s (insert (- x) (kept_lits s t) \<union> set us) ms"
    using implied_fresh [OF I(4)] by (intro implied_mono [OF I(4)]) auto
  moreover have "\<forall>m \<in> insert (- x) (kept_lits s t). lev s m \<noteq> 0" using I(5) x(2) by simp
  ultimately show "chain_inv s Z [] u ms us"
    using I(6,9) unfolding chain_inv_def kl ad by (simp add: stack_ok_def u_def)
qed

text \<open>The chain of a removed literal.\<close>

lemma chain_removed:
  assumes inv: "chain_inv s Z [] t ms us" and ok: "trail_ok s" "length (ftab s) = length (vals s)"
    and x: "- x \<in> set (trail s)" "lev s x \<noteq> 0" "\<not> keep (flags t x)" "removable (flags t x)" "x \<in> Z"
  shows "\<exists>u ms' us'. calculate_minimize_chain opts (- x) t = Some u \<and> chain_inv s Z [] u ms' us' \<and>
      chain_frame s t u \<and> set us \<subseteq> set us' \<and> set ms \<subseteq> set ms' \<and> - x \<in> set ms'"
proof -
  note I = chain_invD [OF inv]
  have "chain_inv s Z [(False, - x)] t ms us"
    using inv x(1,4,5) stack_ok_single unfolding chain_inv_def added_ok_def by (auto simp: closed_lit_def used_by_def)
  from chain_loop_runs [OF ok this, of opts] obtain u ms' us' where
    u: "minimize_chain_loop opts (map stack_entry [(False, - x)]) t = Some u" "chain_inv s Z [] u ms' us'"
      "chain_frame s t u" "set us \<subseteq> set us'" "set ms \<subseteq> set ms'" "snd ` set [(False, - x)] \<subseteq> kept_lits s t \<union> set us' \<union> set ms'" by blast
  have "- x \<notin> kept_lits s t \<union> set us'"
    using x(2,3) chain_invD(2) [OF u(2)] by (auto simp: kept_lits_def units_ok_def)
  then have "- x \<in> set ms'" using u(6) by auto
  moreover have "calculate_minimize_chain opts (- x) t = Some u"
    using u(1) by (simp add: calculate_minimize_chain_def stack_entry_def)
  ultimately show ?thesis using u(2-5) by blast
qed


lemma chain_store:
  "chain_inv s Z [] (t\<lparr>minimize_chain := minimize_chain t @ mini_chain t, mini_chain := []\<rparr>) ms us = chain_inv s Z [] t ms us"
  by (simp add: chain_inv_def marks_ok_def units_ok_def added_ok_def kept_lits_def added_lits_def closed_lit_def)

text \<open>Marks of removable literals are not lost.\<close>

definition keeps_removable :: "search \<Rightarrow> search \<Rightarrow> search \<Rightarrow> bool" where
  "keeps_removable s t u \<longleftrightarrow> (\<forall>k. vidx k < length (ftab s) \<longrightarrow> removable (flags t k) \<longrightarrow> removable (flags u k))"

lemma keeps_removable_trans: "keeps_removable s t u \<Longrightarrow> keeps_removable s u v \<Longrightarrow> keeps_removable s t v"
  by (simp add: keeps_removable_def)

text \<open>The literals \<open>kept\<close> and the chain after the loop over the literals of the clause.\<close>

definition minimizing :: "search_opts \<Rightarrow> search \<Rightarrow> int set \<Rightarrow> int list \<Rightarrow> search \<Rightarrow> int list \<Rightarrow> int list \<Rightarrow> bool" where
  "minimizing opts s Z kept t ms us \<longleftrightarrow> chain_inv s Z [] t ms us \<and> mini_chain t = [] \<and>
     (\<forall>k. vidx k < length (ftab s) \<longrightarrow> keep (flags t k) = (vidx k \<in> vidx ` set kept))"

lemma minimize_lits_runs:
  assumes ok: "trail_ok s" "length (ftab s) = length (vals s)" and "minimizing opts s Z kept t ms us"
    and "\<forall>x \<in> set lits. - x \<in> set (trail s) \<and> lev s x \<noteq> 0 \<and> x \<in> Z" "distinct (map vidx (kept @ lits))"
  shows "\<exists>kept' u ms' us'. minimize_lits opts lits kept t = Some (kept', u) \<and> minimizing opts s Z kept' u ms' us' \<and>
    set kept \<subseteq> set kept' \<and> set kept' \<subseteq> set (kept @ lits) \<and> distinct (map vidx kept') \<and> set us \<subseteq> set us' \<and>
    set ms \<subseteq> set ms' \<and> (opt_lrat opts \<longrightarrow> (\<forall>x \<in> set lits - set kept'. - x \<in> set ms')) \<and>
    (\<forall>x \<in> set lits. lev s x = level s \<longrightarrow> x \<in> set kept') \<and>
    keeps_removable s t u \<and> (\<forall>x \<in> set lits - set kept'. removable (flags u x)) \<and>
    clause u = clause t \<and> analyzed u = analyzed t \<and> lrat_chain u = lrat_chain t \<and> (\<not> opt_lrat opts \<longrightarrow> us' = us)"
  using assms(3-)
proof (induction lits arbitrary: kept t ms us)
  case Nil
  then show ?case by (auto simp: keeps_removable_def)
next
  case (Cons x lits)
  have inv: "chain_inv s Z [] t ms us" and mini: "mini_chain t = []"
    and kf: "\<And>k. vidx k < length (ftab s) \<Longrightarrow> keep (flags t k) = (vidx k \<in> vidx ` set kept)"
    using Cons.prems(1) unfolding minimizing_def by blast+
  have x: "- x \<in> set (trail s)" "lev s x \<noteq> 0" "x \<in> Z" and rest: "\<forall>y \<in> set lits. - y \<in> set (trail s) \<and> lev s y \<noteq> 0 \<and> y \<in> Z"
    using Cons.prems(2) by simp_all
  have less: "vidx x < length (ftab s)" using true_in_range [OF trail_okD(1) [OF ok(1)] ok(2) x(1)] by simp
  have fresh: "vidx x \<notin> vidx ` set kept" "vidx x \<notin> vidx ` set lits" using Cons.prems(3) by auto
  define r where "r = minimize_literal (opt_minimizedepth opts) (- x) 0 t"
  note st = minimize_literal_step(1) [OF ok chain_invD(1) [OF inv] x(1), of "opt_minimizedepth opts" 0, folded r_def]
  let ?t = "snd r"
  have m: "marked s (Suc (vtrail (var s x))) t ?t" using st by simp
  note inv1 = chain_marked(1) [OF inv m ok] and M = markedD [OF m]
  have kr: "keeps_removable s t ?t" using M(2) by (simp add: keeps_removable_def)
  have kf1: "keep (flags ?t k) = (vidx k \<in> vidx ` set kept)" if "vidx k < length (ftab s)" for k
    using kf [OF that] M(2) [OF that] by simp
  have nk: "\<not> keep (flags ?t x)" using kf1 [OF less] fresh(1) by simp
  have cl: "fst r \<longleftrightarrow> removable (flags ?t x)" using st nk x(2) by (simp add: closed_lit_def)
  show ?case
  proof (cases "fst r")
    case False
    let ?u = "on_flags x (\<lambda>f. f\<lparr>keep := True\<rparr>) ?t"
    have nr: "\<not> removable (flags ?t x)" using False cl by simp
    note K = chain_keep [OF inv1 ok x(1,2) nr]
    have "keep (flags ?u k) = (vidx k \<in> vidx ` set (kept @ [x]))" if "vidx k < length (ftab s)" for k
      using kf1 [OF that] K(2) [of k] by simp
    then have "minimizing opts s Z (kept @ [x]) ?u ms us" using K(1) M(9) mini by (simp add: minimizing_def)
    from Cons.IH [OF this rest] Cons.prems(3) obtain kept' u ms' us' where
      u: "minimize_lits opts lits (kept @ [x]) ?u = Some (kept', u)" "minimizing opts s Z kept' u ms' us'"
        "set (kept @ [x]) \<subseteq> set kept'" "set kept' \<subseteq> set ((kept @ [x]) @ lits)" "distinct (map vidx kept')" "set ms \<subseteq> set ms'"
        "opt_lrat opts \<longrightarrow> (\<forall>x \<in> set lits - set kept'. - x \<in> set ms')" "\<forall>x \<in> set lits. lev s x = level s \<longrightarrow> x \<in> set kept'"
        "clause u = clause ?u \<and> analyzed u = analyzed ?u \<and> lrat_chain u = lrat_chain ?u" "set us \<subseteq> set us'"
        "\<not> opt_lrat opts \<longrightarrow> us' = us" "keeps_removable s ?u u" "\<forall>x \<in> set lits - set kept'. removable (flags u x)" by auto
    have "keeps_removable s ?t ?u"
      using less same_searchD(10) [OF marks_okD(1) [OF M(1)]] by (simp add: keeps_removable_def flags_on_flags)
    then have "keeps_removable s t u" using keeps_removable_trans kr u(12) by blast
    moreover have "\<forall>y \<in> set (x # lits) - set kept'. removable (flags u y)" using u(3,13) by auto
    moreover have "minimize_lits opts (x # lits) kept t = Some (kept', u)"
      using u(1) False by (simp add: r_def split_beta)
    moreover have "opt_lrat opts \<longrightarrow> (\<forall>y \<in> set (x # lits) - set kept'. - y \<in> set ms')" using u(3,7) by auto
    moreover have "\<forall>y \<in> set (x # lits). lev s y = level s \<longrightarrow> y \<in> set kept'" using u(3,8) by simp
    moreover have "set kept \<subseteq> set kept'" "set kept' \<subseteq> set (kept @ x # lits)" using u(3,4) by auto
    moreover have "clause u = clause t \<and> analyzed u = analyzed t \<and> lrat_chain u = lrat_chain t" using u(9) M(4,5,7) by simp
    ultimately show ?thesis using u(2,5,6,10,11) by blast
  next
    case True
    have rem: "removable (flags ?t x)" using True cl by simp
    have low: "lev s x \<noteq> level s" using marks_okD(2) [OF M(1) x(1)] rem by simp
    have go: ?thesis if w: "minimize_lits opts (x # lits) kept t = minimize_lits opts lits kept w"
      "minimizing opts s Z kept w ms1 us1" "set us \<subseteq> set us1" "set ms \<subseteq> set ms1" "opt_lrat opts \<longrightarrow> - x \<in> set ms1"
      "clause w = clause t" "analyzed w = analyzed t" "lrat_chain w = lrat_chain t" "\<not> opt_lrat opts \<longrightarrow> us1 = us"
      "keeps_removable s ?t w" for w ms1 us1
    proof -
      have "distinct (map vidx (kept @ lits))" using Cons.prems(3) by simp
      from Cons.IH [OF w(2) rest this] obtain kept' u ms' us' where
        u: "minimize_lits opts lits kept w = Some (kept', u)" "minimizing opts s Z kept' u ms' us'"
          "set kept \<subseteq> set kept'" "set kept' \<subseteq> set (kept @ lits)" "distinct (map vidx kept')" "set ms1 \<subseteq> set ms'"
          "opt_lrat opts \<longrightarrow> (\<forall>x \<in> set lits - set kept'. - x \<in> set ms')" "\<forall>x \<in> set lits. lev s x = level s \<longrightarrow> x \<in> set kept'"
          "clause u = clause w \<and> analyzed u = analyzed w \<and> lrat_chain u = lrat_chain w" "set us1 \<subseteq> set us'"
          "\<not> opt_lrat opts \<longrightarrow> us' = us1" "keeps_removable s w u" "\<forall>x \<in> set lits - set kept'. removable (flags u x)" by blast
      have ku: "keeps_removable s ?t u" by (rule keeps_removable_trans [OF w(10) u(12)])
      have "keeps_removable s t u" by (rule keeps_removable_trans [OF kr ku])
      moreover have "\<forall>y \<in> set (x # lits) - set kept'. removable (flags u y)"
        using u(13) ku rem less unfolding keeps_removable_def by auto
      moreover have "opt_lrat opts \<longrightarrow> (\<forall>y \<in> set (x # lits) - set kept'. - y \<in> set ms')" using u(6,7) w(5) by auto
      moreover have "\<forall>y \<in> set (x # lits). lev s y = level s \<longrightarrow> y \<in> set kept'" using u(8) low by simp
      moreover have "set kept' \<subseteq> set (kept @ x # lits)" "set ms \<subseteq> set ms'" using u(4,6) w(4) by auto
      moreover have "clause u = clause t \<and> analyzed u = analyzed t \<and> lrat_chain u = lrat_chain t" using u(9) w(6-8) by simp
      moreover have "minimize_lits opts (x # lits) kept t = Some (kept', u)" using u(1) w(1) by simp
      moreover have "set us \<subseteq> set us'" "\<not> opt_lrat opts \<longrightarrow> us' = us" using u(10,11) w(3,9) by simp_all
      ultimately show ?thesis using u(2,3,5) by blast
    qed
    show ?thesis
    proof (cases "opt_lrat opts")
      case False
      show ?thesis
        by (rule go [of ?t ms us]) (use True False inv1 mini kf1 M(4,5,7,9) in \<open>simp_all add: r_def split_beta minimizing_def keeps_removable_def\<close>)
    next
      case lrat: True
      from chain_removed [OF inv1 ok x(1,2) nk rem x(3), of opts] obtain u ms' us' where
        u: "calculate_minimize_chain opts (- x) ?t = Some u" "chain_inv s Z [] u ms' us'" "chain_frame s ?t u"
          "set us \<subseteq> set us'" "set ms \<subseteq> set ms'" "- x \<in> set ms'" by blast
      let ?u = "u\<lparr>minimize_chain := minimize_chain u @ mini_chain u, mini_chain := []\<rparr>"
      have fr: "clause u = clause ?t" "analyzed u = analyzed ?t" "lrat_chain u = lrat_chain ?t"
        "keep (flags u k) = keep (flags ?t k)" for k using u(3) by (auto simp: chain_frame_def)
      have "minimize_lits opts (x # lits) kept t = minimize_lits opts lits kept ?u"
        using True lrat u(1) by (simp add: r_def split_beta)
      moreover have "minimizing opts s Z kept ?u ms' us'"
        using u(2) kf1 fr(4) unfolding minimizing_def chain_store by simp
      moreover have "keeps_removable s ?t ?u" using u(3) by (simp add: keeps_removable_def chain_frame_def)
      ultimately show ?thesis
        by (intro go) (use u(4-6) fr(1-3) M(4,5,7) lrat in simp_all)
    qed
  qed
qed



end
