(* ===== verification/Search_Learn.thy ===== *)
theory Search_Learn
  imports Search_Chain
begin

text \<open>
  The learned clause after minimization, the clause and the literal it drives, the level to return
  to, and the state analysis leaves.
\<close>


section \<open>Clearing flags\<close>

lemma flags_on_flags_range:
  "vidx k < length (ftab t) \<Longrightarrow> flags (on_flags lit f t) k = (if vidx k = vidx lit then f (flags t k) else flags t k)"
  by (cases "vidx lit < length (ftab t)") (auto simp: flags_on_flags flags_def on_flags_def upd_nth_def list_update_beyond)

lemma fold_on_flags_same [simp]:
  "same_search s (fold (\<lambda>lit. on_flags lit f) xs t) = same_search s t"
  "length (ftab (fold (\<lambda>lit. on_flags lit f) xs t)) = length (ftab t)"
  by (induction xs arbitrary: t) simp_all

lemma fold_on_flags:
  assumes "\<And>x. f (f x) = f x" "vidx k < length (ftab t)"
  shows "flags (fold (\<lambda>lit. on_flags lit f) xs t) k = (if vidx k \<in> vidx ` set xs then f (flags t k) else flags t k)"
  using assms(2)
proof (induction xs arbitrary: t)
  case (Cons x xs)
  then show ?case using Cons.IH [of "on_flags x f t"] flags_on_flags_range [OF Cons.prems, of x f] assms(1) by auto
qed simp

lemma fold_on_flags_fields [simp]:
  "clause (fold (\<lambda>lit. on_flags lit f) xs t) = clause t" "analyzed (fold (\<lambda>lit. on_flags lit f) xs t) = analyzed t"
  "unit_analyzed (fold (\<lambda>lit. on_flags lit f) xs t) = unit_analyzed t" "levels (fold (\<lambda>lit. on_flags lit f) xs t) = levels t"
  "lrat_chain (fold (\<lambda>lit. on_flags lit f) xs t) = lrat_chain t" "unit_chain (fold (\<lambda>lit. on_flags lit f) xs t) = unit_chain t"
  "mini_chain (fold (\<lambda>lit. on_flags lit f) xs t) = mini_chain t" "control (fold (\<lambda>lit. on_flags lit f) xs t) = control t"
  "minimize_chain (fold (\<lambda>lit. on_flags lit f) xs t) = minimize_chain t"
  "minimized (fold (\<lambda>lit. on_flags lit f) xs t) = minimized t"
  by (induction xs arbitrary: t) simp_all

lemma clear_minimized_spec:
  assumes "marks_ok s t" "\<And>k. vidx k < length (ftab s) \<Longrightarrow> added (flags t k) \<Longrightarrow> removable (flags t k)"
    and "\<And>k. vidx k < length (ftab s) \<Longrightarrow> keep (flags t k) \<Longrightarrow> vidx k \<in> vidx ` set (clause t)"
  defines "u \<equiv> clear_minimized_literals t"
  shows "same_search s u" "\<And>k. vidx k < length (ftab s) \<Longrightarrow> seen (flags u k) = seen (flags t k) \<and> \<not> keep (flags u k) \<and>
      \<not> poison (flags u k) \<and> \<not> removable (flags u k) \<and> \<not> added (flags u k)"
    "clause u = clause t" "analyzed u = analyzed t" "unit_analyzed u = unit_analyzed t" "lrat_chain u = lrat_chain t"
    "unit_chain u = unit_chain t" "mini_chain u = mini_chain t" "minimize_chain u = minimize_chain t" "minimized u = []"
proof -
  note M = marks_okD [OF assms(1)]
  let ?f = "\<lambda>f. f\<lparr>poison := False, removable := False, added := False\<rparr>" and ?g = "\<lambda>f. f\<lparr>keep := False, added := False\<rparr>"
  let ?t = "fold (\<lambda>lit. on_flags lit ?f) (minimized t) t"
  have u: "u = (fold (\<lambda>lit. on_flags lit ?g) (clause t) ?t)\<lparr>minimized := []\<rparr>"
    by (simp add: u_def clear_minimized_literals_def)
  have len: "length (ftab t) = length (ftab s)" by (rule same_searchD(10) [OF M(1)])
  show "clause u = clause t" "analyzed u = analyzed t" "unit_analyzed u = unit_analyzed t" "lrat_chain u = lrat_chain t"
    "unit_chain u = unit_chain t" "mini_chain u = mini_chain t" "minimize_chain u = minimize_chain t" "minimized u = []"
    by (simp_all add: u)
  show "same_search s u" using M(1) by (simp add: u)
  show "seen (flags u k) = seen (flags t k) \<and> \<not> keep (flags u k) \<and> \<not> poison (flags u k) \<and> \<not> removable (flags u k) \<and> \<not> added (flags u k)"
    if k: "vidx k < length (ftab s)" for k
  proof -
    have r: "vidx k < length (ftab t)" "vidx k < length (ftab ?t)" using k len by simp_all
    have "flags u k = (if vidx k \<in> vidx ` set (clause t) then ?g (flags ?t k) else flags ?t k)"
      using fold_on_flags [of ?g k ?t "clause t"] r(2) by (simp add: u)
    moreover have "flags ?t k = (if vidx k \<in> vidx ` set (minimized t) then ?f (flags t k) else flags t k)"
      using r(1) by (intro fold_on_flags) simp_all
    ultimately show ?thesis using M(4) [OF k] assms(2,3) [OF k] by auto
  qed
qed

text \<open>The chain before minimization holds the units that analysis reached.\<close>

lemma uip_chain_inv:
  assumes ok: "trail_ok s" and len: "length (ftab s) = length (vals s)" and f: "uip_found opts s c rs uip t"
    and e: "mini_chain s = []" "minimize_chain s = []"
  shows "minimizing opts s (reached s c rs) [] t [] (map uminus (unit_analyzed t))"
proof -
  note U = uip_foundD [OF f]
  note r = true_in_range [OF trail_okD(1) [OF ok] len]
  let ?us = "map uminus (unit_analyzed t)"
  have clear: "\<not> keep (flags t m)" "\<not> poison (flags t m)" "\<not> removable (flags t m)" "\<not> added (flags t m)"
    if "vidx m < length (ftab s)" for m using U(8) [OF that] by blast+
  have empty: "kept_lits s t = {}" "added_lits s t = {}" using clear r by (auto simp: kept_lits_def added_lits_def)
  have false: "- k \<in> set (trail s)" if "k \<in> set (analyzed t) \<union> set (unit_analyzed t)" for k
    using that U(2,4,14) by (auto split: if_splits)
  have "m \<in> set ?us \<longleftrightarrow> m \<in> set (trail s) \<and> lev s m = 0 \<and> seen (flags t m)" for m
  proof
    assume "m \<in> set ?us"
    then have "- m \<in> set (unit_analyzed t)" by (auto simp: image_iff)
    then have m: "m \<in> set (trail s)" "lev s m = 0" using false [of "- m"] U(4) by (auto split: if_splits)
    have "seen (flags t m)" using U(7) [OF r [OF m(1)]] \<open>- m \<in> set (unit_analyzed t)\<close> by (metis UnI2 vidx_uminus)
    then show "m \<in> set (trail s) \<and> lev s m = 0 \<and> seen (flags t m)" using m by blast
  next
    assume m: "m \<in> set (trail s) \<and> lev s m = 0 \<and> seen (flags t m)"
    then obtain k where k: "k \<in> set (analyzed t) \<union> set (unit_analyzed t)" "vidx k = vidx m" using U(7) [OF r] by blast
    have "k = - m" using false [OF k(1)] k(2) m trail_consistent [OF trail_okD(1) [OF ok], of m] by (auto simp: vidx_eq)
    moreover have "k \<notin> set (analyzed t)" using m \<open>k = - m\<close> U(14) by simp
    ultimately show "m \<in> set ?us" using k(1) by force
  qed
  then have su: "set ?us = {m \<in> set (trail s). lev s m = 0 \<and> seen (flags t m)}" by blast
  have cover: "\<forall>k. vidx k < length (ftab s) \<longrightarrow> seen (flags t k) \<longrightarrow> vidx k \<in> vidx ` (set (analyzed t) \<union> set (unit_analyzed t))"
  proof (intro allI impI)
    fix k assume "vidx k < length (ftab s)" "seen (flags t k)"
    then obtain x where "x \<in> set (analyzed t) \<union> set (unit_analyzed t)" "vidx x = vidx k" using U(7) by blast
    then show "vidx k \<in> vidx ` (set (analyzed t) \<union> set (unit_analyzed t))" by (intro rev_image_eqI [of x]) simp_all
  qed
  have "map vidx (unit_analyzed t) = map vidx ?us" "unit_chain t = map (unit_id s) ?us" using U(5) by simp_all
  moreover have "distinct ?us" using U(3) by (simp add: distinct_map)
  ultimately have "units_ok s t ?us" using su cover unfolding units_ok_def by blast
  moreover have "marks_ok s t" using U(1) clear r unfolding marks_ok_def by blast
  moreover have "added_ok s [] t []" using clear by (simp add: added_ok_def empty)
  moreover have "minimize_chain t @ mini_chain t = []" "mini_chain t = []" using U(6) e by (simp_all add: same_chains_def)
  moreover have "used_by s (reached s c rs) {} m" if m: "m \<in> set ?us" for m
  proof -
    have "- m \<in> set (unit_analyzed t)" using m by force
    then show ?thesis using U(4) by (simp add: used_by_def split: if_splits)
  qed
  ultimately show ?thesis
    using clear(1) unfolding minimizing_def chain_inv_def empty by (simp add: stack_ok_def)
qed


section \<open>The learned clause\<close>

definition first_lits :: "search \<Rightarrow> nat \<Rightarrow> int list \<Rightarrow> int \<Rightarrow> int set" where
  "first_lits s c rs uip = {lit \<in> reached s c rs. 0 < lev s lit \<and> lev s lit < level s} \<union> {- uip}"

text \<open>The learned clause with its chain: the units \<open>us\<close>, the reasons of the removed literals \<open>ms\<close>, and the resolved ones.\<close>

definition learned :: "search_opts \<Rightarrow> search \<Rightarrow> nat \<Rightarrow> int list \<Rightarrow> int \<Rightarrow> search \<Rightarrow> int list \<Rightarrow> int list \<Rightarrow> bool" where
  "learned opts s c rs uip u ms us \<longleftrightarrow> same_search s u \<and>
     distinct (clause u) \<and> - uip \<in> set (clause u) \<and> set (clause u) \<subseteq> first_lits s c rs uip \<and>
     (opt_lrat opts \<longrightarrow> (\<forall>lit \<in> first_lits s c rs uip - set (clause u). - lit \<in> set ms)) \<and>
     implied s (uminus ` set (clause u) \<union> set us) ms \<and> (\<forall>m \<in> set ms. lev s m \<noteq> 0 \<and> lev s m \<noteq> level s) \<and>
     distinct us \<and> (\<forall>m \<in> set us. m \<in> set (trail s) \<and> lev s m = 0) \<and> (\<not> opt_lrat opts \<longrightarrow> us = []) \<and>
     (opt_lrat opts \<longrightarrow> (\<forall>lit \<in> reached s c rs. lev s lit = 0 \<longrightarrow> - lit \<in> set us)) \<and>
     (\<forall>m \<in> set us \<union> set ms. used_by s (reached s c rs) (set ms) m) \<and> unit_chain u = map (unit_id s) us \<and>
     lrat_chain u = (if opt_lrat opts then sc_id (clauses s ! c) # map (reason_id s) rs else []) @ rev (map (reason_id s) ms) \<and>
     mini_chain u = [] \<and> minimize_chain u = [] \<and> minimized u = [] \<and>
     (\<forall>k. vidx k < length (ftab s) \<longrightarrow> \<not> keep (flags u k) \<and> \<not> poison (flags u k) \<and> \<not> removable (flags u k) \<and>
        \<not> added (flags u k) \<and> (seen (flags u k) \<longrightarrow> vidx k \<in> vidx ` (set (analyzed u) \<union> set (unit_analyzed u))))"

lemma first_clause:
  assumes ok: "trail_ok s" and f: "uip_found opts s c rs uip t" and lv: "level s \<noteq> 0"
  shows "\<forall>x \<in> set (clause t). - x \<in> set (trail s) \<and> lev s x \<noteq> 0 \<and> x \<in> reached s c rs" "distinct (map vidx (clause t))"
    "set (clause t) = first_lits s c rs uip"
proof -
  note K = uip_clause [OF ok f] and U = uip_foundD [OF f]
  show "set (clause t) = first_lits s c rs uip" by (simp only: K(1) first_lits_def)
  have "x \<in> reached s c rs \<and> lev s x \<noteq> 0" if "x \<in> set (clause t)" for x
    using that K(3,4) lv unfolding K(1) by auto
  then show f: "\<forall>x \<in> set (clause t). - x \<in> set (trail s) \<and> lev s x \<noteq> 0 \<and> x \<in> reached s c rs" using U(2) by blast
  have "inj_on vidx (set (clause t))"
  proof (rule inj_onI)
    fix a b assume "a \<in> set (clause t)" "b \<in> set (clause t)" "vidx a = vidx b"
    then show "a = b" using f false_unique [OF trail_okD(1) [OF ok], of a b] by blast
  qed
  then show "distinct (map vidx (clause t))" using K(2) by (simp add: distinct_map)
qed

text \<open>Without minimization, and with it.\<close>

lemma uip_learned:
  assumes ok: "trail_ok s" and i: "idle s" and lv: "level s \<noteq> 0" and f: "uip_found opts s c rs uip t"
  shows "learned opts s c rs uip t [] (map uminus (unit_analyzed t))"
proof -
  note I = idleD [OF i] and U = uip_foundD [OF f] and K = uip_clause [OF ok f] and F = first_clause [OF ok f lv]
  have inv: "chain_inv s (reached s c rs) [] t [] (map uminus (unit_analyzed t))"
    using uip_chain_inv [OF ok idle_length [OF i] f I(8,9)] by (simp add: minimizing_def)
  note C = chain_invD [OF inv]
  have ad: "added_lits s t = {}" using C(3) by (simp add: added_ok_def)
  have uo: "distinct (map uminus (unit_analyzed t))" "unit_chain t = map (unit_id s) (map uminus (unit_analyzed t))"
    "\<forall>m \<in> set (map uminus (unit_analyzed t)). m \<in> set (trail s) \<and> lev s m = 0"
    "\<forall>k. vidx k < length (ftab s) \<longrightarrow> seen (flags t k) \<longrightarrow> vidx k \<in> vidx ` (set (analyzed t) \<union> set (unit_analyzed t))"
    using C(2) unfolding units_ok_def by blast+
  have us: "\<forall>m \<in> set (map uminus (unit_analyzed t)) \<union> set []. used_by s (reached s c rs) (set []) m" using C(9) unfolding ad by simp
  have "implied s (uminus ` set (clause t) \<union> set (map uminus (unit_analyzed t))) []" by simp
  moreover have "lrat_chain t = (if opt_lrat opts then sc_id (clauses s ! c) # map (reason_id s) rs else []) @ rev (map (reason_id s) [])"
    "mini_chain t = []" "minimize_chain t = []" "minimized t = []"
    using U(6) I(8-10) by (simp_all add: same_chains_def)
  moreover have "- uip \<in> set (clause t)" "set (clause t) \<subseteq> first_lits s c rs uip"
    "opt_lrat opts \<longrightarrow> (\<forall>lit \<in> first_lits s c rs uip - set (clause t). - lit \<in> set [])" unfolding F(3) by (simp_all add: first_lits_def)
  moreover have "opt_lrat opts \<longrightarrow> (\<forall>lit \<in> reached s c rs. lev s lit = 0 \<longrightarrow> - lit \<in> set (map uminus (unit_analyzed t)))"
    "\<not> opt_lrat opts \<longrightarrow> map uminus (unit_analyzed t) = []"
    using U(4) by (simp_all split: if_splits)
  moreover have "\<forall>k. vidx k < length (ftab s) \<longrightarrow> \<not> keep (flags t k) \<and> \<not> poison (flags t k) \<and> \<not> removable (flags t k) \<and>
        \<not> added (flags t k) \<and> (seen (flags t k) \<longrightarrow> vidx k \<in> vidx ` (set (analyzed t) \<union> set (unit_analyzed t)))"
    using U(8) uo(4) by blast
  ultimately show ?thesis
    unfolding learned_def using U(1) uo(1-3) us K(2) by (intro conjI) (assumption+, simp_all only: ball_simps set_simps)
qed

lemma minimizing_clause [simp]: "minimizing opts s Z kept (t\<lparr>clause := xs\<rparr>) ms us = minimizing opts s Z kept t ms us"
  by (simp add: minimizing_def chain_inv_def marks_ok_def units_ok_def added_ok_def kept_lits_def added_lits_def closed_lit_def)

text \<open>In a model with a true literal of \<open>A\<close> the clause is true.\<close>

definition covers :: "search \<Rightarrow> int set \<Rightarrow> int list \<Rightarrow> bool" where
  "covers s A lits \<longleftrightarrow> (\<forall>\<sigma>. models \<sigma> (known_clauses s) \<longrightarrow> (\<exists>x \<in> A. lit_true \<sigma> x) \<longrightarrow> clause_true \<sigma> lits)"

lemma covers_subset: "A \<subseteq> set lits \<Longrightarrow> covers s A lits"
  by (auto simp: covers_def clause_true_def)

lemma minimized_covers:
  assumes ok: "trail_ok s" and mk: "marks_ok s v" and kept: "kept_lits s v = uminus ` set kept"
    and A: "\<And>x. x \<in> A \<Longrightarrow> - x \<in> set (trail s) \<and> (x \<in> set kept \<or> removable (flags v x))"
  shows "covers s A kept"
  unfolding covers_def
proof (intro allI impI, rule ccontr)
  fix \<sigma> assume m: "models \<sigma> (known_clauses s)" and t: "\<exists>x \<in> A. lit_true \<sigma> x" and n: "\<not> clause_true \<sigma> kept"
  obtain x where x: "x \<in> A" "lit_true \<sigma> x" using t by blast
  have xs: "- x \<in> set (trail s)" using A [OF x(1)] by blast
  have k: "lit_true \<sigma> y" if y: "y \<in> set (trail s)" "keep (flags v y)" for y
  proof -
    have "y \<in> uminus ` set kept" using y by (simp add: kept_lits_def flip: kept)
    then have "\<not> lit_true \<sigma> (- y)" using n by (auto simp: clause_true_def)
    moreover have "- y \<noteq> 0" using values_okD(4) [OF trail_okD(1) [OF ok] y(1)] by (auto simp: lit_in_def)
    ultimately show ?thesis using lit_true_uminus [of "- y" \<sigma>] by simp
  qed
  have "removable (flags v x)" using A [OF x(1)] n x(2) by (auto simp: clause_true_def)
  then have "closed_lit s v (- x)" by (simp add: closed_lit_def flags_def)
  then have "lit_true \<sigma> (- x)" using closed_true [OF ok mk m k xs] by blast
  then show False using true_not_both [OF ok xs] x(2) by blast
qed

lemma minimize_clause_learned:
  assumes ok: "trail_ok s" and i: "idle s" and lv: "level s \<noteq> 0" and f: "uip_found opts s c rs uip t"
  shows "\<exists>u ms us. minimize_clause opts t = Some u \<and> learned opts s c rs uip u ms us \<and>
    covers s (first_lits s c rs uip) (clause u)"
proof -
  note I = idleD [OF i] and U = uip_foundD [OF f] and K = uip_clause [OF ok f] and F = first_clause [OF ok f lv]
  let ?Z = "reached s c rs" and ?us = "map uminus (unit_analyzed t)"
  let ?t = "minimize_sort_clause t"
  have cl: "set (clause ?t) = set (clause t)" "distinct (map vidx ([] @ clause ?t))"
    using F(2) by (simp_all add: minimize_sort_clause_def distinct_map)
  have "minimizing opts s ?Z [] t [] ?us" by (rule uip_chain_inv [OF ok idle_length [OF i] f I(8,9)])
  then have m: "minimizing opts s ?Z [] ?t [] ?us"
    by (simp add: minimize_sort_clause_def)
  have lits: "\<forall>x \<in> set (clause ?t). - x \<in> set (trail s) \<and> lev s x \<noteq> 0 \<and> x \<in> ?Z" using F(1) cl(1) by simp
  obtain kept v ms us where v: "minimize_lits opts (clause ?t) [] ?t = Some (kept, v)" "minimizing opts s ?Z kept v ms us"
    "set kept \<subseteq> set ([] @ clause ?t)" "distinct (map vidx kept)" "set ?us \<subseteq> set us"
    "opt_lrat opts \<longrightarrow> (\<forall>x \<in> set (clause ?t) - set kept. - x \<in> set ms)"
    "\<forall>x \<in> set (clause ?t). lev s x = level s \<longrightarrow> x \<in> set kept" "lrat_chain v = lrat_chain ?t"
    "\<not> opt_lrat opts \<longrightarrow> us = ?us" "\<forall>x \<in> set (clause ?t) - set kept. removable (flags v x)"
    using minimize_lits_runs [OF ok idle_length [OF i] m lits cl(2)] by blast
  let ?v = "v\<lparr>clause := kept\<rparr>"
  have inv: "chain_inv s ?Z [] v ms us" and mini: "mini_chain v = []"
    and kf: "\<And>k. vidx k < length (ftab s) \<Longrightarrow> keep (flags v k) = (vidx k \<in> vidx ` set kept)"
    using v(2) unfolding minimizing_def by blast+
  note C = chain_invD [OF inv]
  have "marks_ok s ?v" using C(1) by (simp add: marks_ok_def closed_lit_def)
  note W = clear_minimized_spec [OF this]
  have ao: "added (flags ?v k) \<Longrightarrow> removable (flags ?v k)" if "vidx k < length (ftab s)" for k
    using C(3) that by (simp add: added_ok_def)
  have kc: "keep (flags ?v k) \<Longrightarrow> vidx k \<in> vidx ` set (clause ?v)" if "vidx k < length (ftab s)" for k
    using kf [OF that] by simp
  note W = W [OF ao kc]
  define u where "u = (clear_minimized_literals ?v)\<lparr>lrat_chain := lrat_chain v @ rev (minimize_chain v), minimize_chain := []\<rparr>"
  have run: "minimize_clause opts t = Some u"
    using v(1) W(6,9) by (simp add: minimize_clause_def Let_def u_def)
  have kl: "kept_lits s v = uminus ` set kept"
  proof (intro set_eqI iffI)
    fix x assume x: "x \<in> kept_lits s v"
    then have xt: "x \<in> set (trail s)" "keep (flags v x)" by (auto simp: kept_lits_def)
    then obtain k where k: "k \<in> set kept" "vidx k = vidx x"
      using kf [OF true_in_range [OF trail_okD(1) [OF ok] idle_length [OF i] xt(1)]] by (metis imageE)
    have "- k \<in> set (trail s)" using k(1) v(3) lits by auto
    then have "k = - x" using false_unique [OF trail_okD(1) [OF ok], of k "- x"] k(2) xt(1) by simp
    then show "x \<in> uminus ` set kept" using k(1) by force
  next
    fix x assume "x \<in> uminus ` set kept"
    then obtain k where k: "k \<in> set kept" "x = - k" by blast
    then have "x \<in> set (trail s)" using v(3) lits by auto
    moreover from this have "keep (flags v x)"
      using kf [OF true_in_range [OF trail_okD(1) [OF ok] idle_length [OF i]], of x] k by force
    ultimately show "x \<in> kept_lits s v" by (simp add: kept_lits_def)
  qed
  have ad: "added_lits s v = set ms" using C(3) by (simp add: added_ok_def)
  have low: "lev s x \<noteq> 0 \<and> lev s x \<noteq> level s" if "x \<in> set ms" for x
  proof -
    have "x \<in> set (trail s)" "removable (flags v x)" using that ad C(3) by (auto simp: added_ok_def added_lits_def)
    then show ?thesis using marks_okD(2) [OF C(1)] by blast
  qed
  have uo: "distinct us" "\<forall>m \<in> set us. m \<in> set (trail s) \<and> lev s m = 0" "unit_chain v = map (unit_id s) us"
    "\<forall>k. vidx k < length (ftab s) \<longrightarrow> seen (flags v k) \<longrightarrow> vidx k \<in> vidx ` (set (analyzed v) \<union> set (unit_analyzed v))"
    using C(2) unfolding units_ok_def by blast+
  have lc: "lrat_chain u = (if opt_lrat opts then sc_id (clauses s ! c) # map (reason_id s) rs else []) @ rev (map (reason_id s) ms)"
    using v(8) U(6) C(6) mini by (simp add: u_def minimize_sort_clause_def same_chains_def)
  have cu: "clause u = kept" "unit_chain u = unit_chain v" "mini_chain u = []" "minimize_chain u = []" "minimized u = []"
    "analyzed u = analyzed v" "unit_analyzed u = unit_analyzed v" "flags u = flags (clear_minimized_literals ?v)" "same_search s u"
    using W mini by (simp_all add: u_def fun_eq_iff)
  have units: "opt_lrat opts \<longrightarrow> (\<forall>lit \<in> ?Z. lev s lit = 0 \<longrightarrow> - lit \<in> set us)" using U(4) v(5) by auto
  have none: "\<not> opt_lrat opts \<longrightarrow> us = []" using U(4) v(9) by (simp split: if_splits)
  have fk: "set kept \<subseteq> first_lits s c rs uip" "- uip \<in> set kept"
    "opt_lrat opts \<longrightarrow> (\<forall>lit \<in> first_lits s c rs uip - set kept. - lit \<in> set ms)"
    using v(3,6,7) cl(1) F(3) K(3) by (auto simp: first_lits_def)
  have fl: "\<forall>k. vidx k < length (ftab s) \<longrightarrow> \<not> keep (flags u k) \<and> \<not> poison (flags u k) \<and> \<not> removable (flags u k) \<and>
        \<not> added (flags u k) \<and> (seen (flags u k) \<longrightarrow> vidx k \<in> vidx ` (set (analyzed u) \<union> set (unit_analyzed u)))"
    using W(2) uo(4) cu(6-8) by simp
  have im: "implied s (uminus ` set kept \<union> set us) ms" "\<forall>m \<in> set us \<union> set ms. used_by s ?Z (set ms) m"
    using C(4,9) unfolding kl ad by blast+
  have "distinct kept" using v(4) by (simp add: distinct_map)
  moreover have "\<forall>m \<in> set ms. lev s m \<noteq> 0 \<and> lev s m \<noteq> level s" using low by blast
  ultimately have "learned opts s c rs uip u ms us"
    unfolding learned_def cu(1-5) using cu(9) fk im uo(1-3) none units lc fl by (intro conjI) (assumption+, simp_all only: simp_thms)
  moreover have "covers s (first_lits s c rs uip) (clause u)"
    unfolding cu(1)
  proof (rule minimized_covers [OF ok C(1) kl])
    show "- x \<in> set (trail s) \<and> (x \<in> set kept \<or> removable (flags v x))" if "x \<in> first_lits s c rs uip" for x
      using that lits v(10) cl(1) F(3) by auto
  qed
  ultimately show ?thesis using run by blast
qed


section \<open>The end of an analysis\<close>

definition clear_level :: "nat \<Rightarrow> search \<Rightarrow> search" where
  "clear_level l s = (if l < length (control s)
     then s\<lparr>control := upd_nth (control s) l (\<lambda>e. e\<lparr>seen_count := 0, seen_trail := INT_MAX\<rparr>)\<rparr> else s)"

lemma clear_level_same [simp]:
  "same_search s (clear_level l t) = same_search s t" "ftab (clear_level l t) = ftab t"
  "clause (clear_level l t) = clause t" "analyzed (clear_level l t) = analyzed t"
  "unit_analyzed (clear_level l t) = unit_analyzed t" "unit_chain (clear_level l t) = unit_chain t"
  "mini_chain (clear_level l t) = mini_chain t" "minimize_chain (clear_level l t) = minimize_chain t"
  "minimized (clear_level l t) = minimized t"
proof -
  have "map ltrail (upd_nth cs l (\<lambda>e. e\<lparr>seen_count := 0, seen_trail := n\<rparr>)) = map ltrail cs" for cs :: "Level list" and n
    by (cases "l < length cs") (auto intro!: nth_equalityI simp: upd_nth_def nth_list_update)
  then show "same_search s (clear_level l t) = same_search s t" by (simp add: clear_level_def same_search_def)
qed (simp_all add: clear_level_def)

lemma fold_clear_level [simp]:
  "same_search s (fold clear_level ls t) = same_search s t" "ftab (fold clear_level ls t) = ftab t"
  "clause (fold clear_level ls t) = clause t" "analyzed (fold clear_level ls t) = analyzed t"
  "unit_analyzed (fold clear_level ls t) = unit_analyzed t" "unit_chain (fold clear_level ls t) = unit_chain t"
  "mini_chain (fold clear_level ls t) = mini_chain t" "minimize_chain (fold clear_level ls t) = minimize_chain t"
  "minimized (fold clear_level ls t) = minimized t"
  by (induction ls arbitrary: t) simp_all

lemma clear_levels_fold: "clear_analyzed_levels t = (fold clear_level (levels t) t)\<lparr>levels := []\<rparr>"
proof -
  have "(\<lambda>l s. if l < length (control s)
      then s\<lparr>control := upd_nth (control s) l (\<lambda>e. e\<lparr>seen_count := 0, seen_trail := INT_MAX\<rparr>)\<rparr> else s) = clear_level"
    by (intro ext) (simp add: clear_level_def)
  then show ?thesis by (simp add: clear_analyzed_levels_def)
qed

text \<open>Only the seen flags of the analyzed literals are left to be cleared.\<close>

definition finishing :: "search \<Rightarrow> bool" where
  "finishing t \<longleftrightarrow> length (ftab t) = length (vals t) \<and> unit_chain t = [] \<and> mini_chain t = [] \<and> minimize_chain t = [] \<and>
     minimized t = [] \<and> (\<forall>k. vidx k < length (ftab t) \<longrightarrow> \<not> keep (flags t k) \<and> \<not> poison (flags t k) \<and> \<not> removable (flags t k) \<and>
        \<not> added (flags t k) \<and> (seen (flags t k) \<longrightarrow> vidx k \<in> vidx ` (set (analyzed t) \<union> set (unit_analyzed t))))"

lemma finish_idle:
  assumes "finishing t"
  shows "same_search t (finish_analysis t)" "idle (finish_analysis t)" "conflict (finish_analysis t) = None"
proof -
  note f = assms [unfolded finishing_def]
  let ?f = "\<lambda>f. f\<lparr>seen := False\<rparr>"
  let ?u = "fold (\<lambda>lit. on_flags lit ?f) (unit_analyzed t) ((fold (\<lambda>lit. on_flags lit ?f) (analyzed t) t)\<lparr>analyzed := []\<rparr>)"
  let ?v = "fold clear_level (levels t) (?u\<lparr>unit_analyzed := []\<rparr>)"
  have e: "finish_analysis t = ?v\<lparr>levels := [], clause := [], conflict := None, lrat_chain := []\<rparr>"
    by (simp add: finish_analysis_def clear_levels_fold clear_unit_analyzed_literals_def clear_analyzed_literals_def clear_seen_def)
  show same: "same_search t (finish_analysis t)" unfolding e by simp
  show "conflict (finish_analysis t) = None" by (simp add: e)
  have len: "length (ftab ?v) = length (vals t)" using f by simp
  have "flags ?v k = (if vidx k \<in> vidx ` (set (analyzed t) \<union> set (unit_analyzed t)) then ?f (flags t k) else flags t k)"
    if "vidx k < length (ftab t)" for k
  proof -
    have "flags ?v k = flags ?u k" by (simp add: flags_def)
    also have "\<dots> = (if vidx k \<in> vidx ` set (unit_analyzed t) then ?f (flags (fold (\<lambda>lit. on_flags lit ?f) (analyzed t) t) k)
        else flags (fold (\<lambda>lit. on_flags lit ?f) (analyzed t) t) k)"
      using that by (subst fold_on_flags) simp_all
    also have "flags (fold (\<lambda>lit. on_flags lit ?f) (analyzed t) t) k = (if vidx k \<in> vidx ` set (analyzed t) then ?f (flags t k) else flags t k)"
      using that by (intro fold_on_flags) simp_all
    finally show ?thesis by (auto simp: image_Un)
  qed
  then have fl: "\<not> seen (flags ?v k) \<and> \<not> keep (flags ?v k) \<and> \<not> poison (flags ?v k) \<and> \<not> removable (flags ?v k) \<and> \<not> added (flags ?v k)"
    if "vidx k < length (ftab t)" for k using f that by auto
  have "\<not> seen (ftab ?v ! i) \<and> \<not> keep (ftab ?v ! i) \<and> \<not> poison (ftab ?v ! i) \<and> \<not> removable (ftab ?v ! i) \<and> \<not> added (ftab ?v ! i)"
    if "i < length (ftab ?v)" for i
    using fl [of "int i"] that len f by (simp add: flags_def vidx_def)
  moreover have "vals (finish_analysis t) = vals t" using same by (rule same_searchD)
  ultimately have "flags_clear (finish_analysis t)" using len unfolding flags_clear_def by (simp add: e)
  then show "idle (finish_analysis t)" using f by (simp add: idle_def e)
qed

text \<open>A new clause at the end of the list.\<close>

lemma add_clause_ok:
  assumes ok: "trail_ok s" and c: "2 \<le> length lits" "distinct lits" "\<forall>lit \<in> set lits. lit_in (length (vals s)) lit"
    and t: "trail t = trail s" "vals t = vals s" "vtab t = vtab s" "level t = level s" "control t = control s"
      "clauses t = clauses s @ [\<lparr>sc_id = i, sc_lits = lits\<rparr>]"
  shows "trail_ok t"
proof -
  note T = trail_okD [OF ok]
  have v: "var t k = var s k" "val t k = val s k" for k by (simp_all add: var_def val_def t)
  have old: "lits_at t d = lits_at s d" if "d < length (clauses s)" for d using that by (simp add: lits_at_def t nth_append)
  have new: "lits_at t (length (clauses s)) = lits" by (simp add: lits_at_def t)
  have "values_ok t" using T(1) unfolding values_ok_def v t(1-3) .
  moreover have "levels_ok t" using T(2) unfolding levels_ok_def v t(1,4,5) .
  moreover have "reason_ok t j" if "j < length (trail s)" for j
    using T(3) [OF that] old unfolding reason_ok_def v t(1,4,5) by (auto split: option.splits simp: Let_def t(6))
  moreover have "clauses_ok t"
    unfolding clauses_ok_def t(2,6)
  proof (intro allI impI)
    fix d assume "d < length (clauses s @ [\<lparr>sc_id = i, sc_lits = lits\<rparr>])"
    then consider "d < length (clauses s)" | "d = length (clauses s)" by fastforce
    then show "2 \<le> length (lits_at t d) \<and> distinct (lits_at t d) \<and> (\<forall>lit \<in> set (lits_at t d). lit_in (length (vals s)) lit)"
    proof cases
      case 1
      then show ?thesis using T(4) unfolding old [OF 1] clauses_ok_def by blast
    next
      case 2
      then show ?thesis using c new by simp
    qed
  qed
  ultimately show ?thesis by (simp add: trail_ok_def t(1))
qed






section \<open>The driving clause\<close>

lemma trail_length:
  assumes "values_ok s"
  shows "length (trail s) \<le> length (vals s)"
proof -
  note V = values_okD [OF assms]
  have "set (map vidx (trail s)) \<subseteq> {..<length (vals s)}" using V(4) vidx_less by auto
  then have "card (set (map vidx (trail s))) \<le> length (vals s)" using card_mono [of "{..<length (vals s)}"] by fastforce
  then show ?thesis using distinct_card [OF V(3)] by simp
qed

lemma rank_level:
  assumes "values_ok s" "- a \<in> set (trail s)" "- b \<in> set (trail s)" "trail_rank s a \<le> trail_rank s b"
  shows "lev s b \<le> lev s a"
proof (rule ccontr)
  assume "\<not> ?thesis"
  then have l: "int (lev s a) + 1 \<le> int (lev s b)" by simp
  have "vtrail (var s a) < 2 ^ 32"
    using trail_position(1) [OF assms(1,2)] trail_length [OF assms(1)] values_okD(2) [OF assms(1)] by simp
  then have "int (vtrail (var s a)) < 2 ^ 32" by simp
  moreover have "int (lev s b) * 2 ^ 32 + int (vtrail (var s b)) \<le> int (lev s a) * 2 ^ 32 + int (vtrail (var s a))"
    using assms(4) by (simp add: trail_rank_def)
  moreover have "(int (lev s a) + 1) * 2 ^ 32 \<le> int (lev s b) * 2 ^ 32" using l by (intro mult_right_mono) simp_all
  ultimately show False by simp
qed

text \<open>Sorted, the clause starts with the literal it drives; the second one has the level to jump to.\<close>

lemma driving_order:
  assumes v: "values_ok s" and f: "\<forall>x \<in> set lits. - x \<in> set (trail s)" and u: "u \<in> set lits" "distinct lits"
    and low: "\<forall>x \<in> set lits. x \<noteq> u \<longrightarrow> lev s x < lev s u" and two: "2 \<le> length lits"
  defines "k \<equiv> sort_key (trail_rank s) lits"
  shows "k ! 0 = u" "k ! 1 \<in> set lits" "k ! 1 \<noteq> u" "\<forall>x \<in> set lits. x \<noteq> u \<longrightarrow> lev s x \<le> lev s (k ! 1)"
proof -
  have k: "length k = length lits" "set k = set lits" "distinct k" using u(2) by (simp_all add: k_def)
  have le: "lev s (k ! j) \<le> lev s (k ! i)" if "i \<le> j" "j < length k" for i j
  proof -
    have "trail_rank s (k ! i) \<le> trail_rank s (k ! j)"
      using sorted_nth_mono [of "map (trail_rank s) k" i j] that by (simp add: k_def)
    moreover have "k ! i \<in> set lits" "k ! j \<in> set lits" using that k nth_mem by (metis le_less_trans, metis)
    ultimately show ?thesis using rank_level [OF v] f by blast
  qed
  have u0: "k ! 0 = u"
  proof (rule ccontr)
    assume n: "k ! 0 \<noteq> u"
    obtain j where j: "j < length k" "k ! j = u" using u(1) k(2) by (metis in_set_conv_nth)
    have "k ! 0 \<in> set lits" using two k by (metis nth_mem le_less_trans less_le_trans zero_less_numeral)
    then have "lev s (k ! 0) < lev s u" using low n by blast
    then show False using le [of 0 j] j by simp
  qed
  show "k ! 0 = u" by (rule u0)
  have one: "1 < length k" using two k(1) by simp
  then show "k ! 1 \<in> set lits" using k(2) nth_mem by metis
  show "k ! 1 \<noteq> u" using u0 one k(3) nth_eq_iff_index_eq [of k 0 1] by (metis length_greater_0_conv less_trans zero_less_one zero_neq_one)
  show "\<forall>x \<in> set lits. x \<noteq> u \<longrightarrow> lev s x \<le> lev s (k ! 1)"
  proof (intro ballI impI)
    fix x assume "x \<in> set lits" "x \<noteq> u"
    then obtain j where "j < length k" "k ! j = x" "j \<noteq> 0" using k(2) u0 by (metis in_set_conv_nth)
    then show "lev s x \<le> lev s (k ! 1)" using le [of 1 j] by simp
  qed
qed

lemma reuse_level_bound: "res < level s \<Longrightarrow> res \<le> reuse_level s p res \<and> reuse_level s p res < level s"
proof (induction s p res rule: reuse_level.induct)
  case (1 s p res)
  show ?case
  proof (cases "res < level s - 1 \<and> ltrail (control s ! (res + 1)) \<le> p")
    case True
    then have e: "reuse_level s p res = reuse_level s p (res + 1)" by (subst reuse_level.simps) simp
    have "res + 1 < level s" using True by (simp add: less_diff_conv)
    then have "res + 1 \<le> reuse_level s p (res + 1) \<and> reuse_level s p (res + 1) < level s" by (rule 1(1) [OF True])
    then show ?thesis unfolding e by simp
  next
    case False
    then have "reuse_level s p res = res" by (subst reuse_level.simps) (simp only: if_False)
    then show ?thesis using 1(2) by simp
  qed
qed

lemma backtrack_level_bound:
  assumes "jump < level s"
  shows "jump \<le> determine_actual_backtrack_level opts assumed stays jump s"
    "determine_actual_backtrack_level opts assumed stays jump s < level s"
  using assms reuse_level_bound [OF assms, of "best_position stays s (ltrail (control s ! (jump + 1)))"]
  by (auto simp: determine_actual_backtrack_level_def)

text \<open>What assigning does besides the trail.\<close>

lemma search_assign_fields [simp]:
  "ftab (search_assign opts lit r s) = ftab s" "clause (search_assign opts lit r s) = clause s"
  "analyzed (search_assign opts lit r s) = analyzed s" "unit_analyzed (search_assign opts lit r s) = unit_analyzed s"
  "levels (search_assign opts lit r s) = levels s" "lrat_chain (search_assign opts lit r s) = []"
  "unit_chain (search_assign opts lit r s) = unit_chain s" "mini_chain (search_assign opts lit r s) = mini_chain s"
  "minimize_chain (search_assign opts lit r s) = minimize_chain s" "minimized (search_assign opts lit r s) = minimized s"
  "conflict (search_assign opts lit r s) = conflict s" "unsat (search_assign opts lit r s) = unsat s"
  "clauses (search_assign opts lit r s) = clauses s" "level (search_assign opts lit r s) = level s"
  "control (search_assign opts lit r s) = control s" "trail (search_assign opts lit r s) = trail s @ [lit]"
  by (simp_all add: search_assign_def learn_unit_clause_def set_val_def Let_def)

lemma search_assign_learns:
  fixes s :: search and lit :: int and r :: assign_reason and opts :: search_opts
  defines "l \<equiv> vlevel (assigned_var s lit r)" and "t \<equiv> search_assign opts lit r s"
  shows "derived t = derived s @ (if l = 0 then [(clause_id s + 1, [lit], lrat_chain s)] else [])"
    and "clause_id t = (if l = 0 then clause_id s + 1 else clause_id s)"
    and "unit_clauses_idx t =
      (if l = 0 \<and> opt_lrat opts then (unit_clauses_idx s)[vlit lit := clause_id s + 1] else unit_clauses_idx s)"
  by (simp_all add: t_def l_def search_assign_def learn_unit_clause_def set_val_def assigned_var_def Let_def)

lemma fold_retain_fields [simp]:
  "ftab (fold (retain l) xs s) = ftab s" "clause (fold (retain l) xs s) = clause s" "analyzed (fold (retain l) xs s) = analyzed s"
  "unit_analyzed (fold (retain l) xs s) = unit_analyzed s" "levels (fold (retain l) xs s) = levels s"
  "lrat_chain (fold (retain l) xs s) = lrat_chain s" "unit_chain (fold (retain l) xs s) = unit_chain s"
  "mini_chain (fold (retain l) xs s) = mini_chain s" "minimize_chain (fold (retain l) xs s) = minimize_chain s"
  "minimized (fold (retain l) xs s) = minimized s" "conflict (fold (retain l) xs s) = conflict s"
  "unsat (fold (retain l) xs s) = unsat s" "derived (fold (retain l) xs s) = derived s"
  "clause_id (fold (retain l) xs s) = clause_id s" "unit_clauses_idx (fold (retain l) xs s) = unit_clauses_idx s"
  by (induction xs arbitrary: s) (simp_all add: retain_def set_val_def)

lemma backtrack_fields [simp]:
  "ftab (backtrack l s) = ftab s" "clause (backtrack l s) = clause s" "analyzed (backtrack l s) = analyzed s"
  "unit_analyzed (backtrack l s) = unit_analyzed s" "levels (backtrack l s) = levels s"
  "lrat_chain (backtrack l s) = lrat_chain s" "unit_chain (backtrack l s) = unit_chain s"
  "mini_chain (backtrack l s) = mini_chain s" "minimize_chain (backtrack l s) = minimize_chain s"
  "minimized (backtrack l s) = minimized s" "conflict (backtrack l s) = conflict s"
  "unsat (backtrack l s) = unsat s" "derived (backtrack l s) = derived s"
  "clause_id (backtrack l s) = clause_id s" "unit_clauses_idx (backtrack l s) = unit_clauses_idx s"
  by (simp_all add: backtrack_def Let_def)


text \<open>The state \<open>u\<close> after minimization, seen from the start of the analysis.\<close>

lemma learned_finishing:
  assumes "learned opts s c rs uip u ms us" "length (ftab s) = length (vals s)"
    and "ftab t = ftab u" "length (vals t) = length (vals s)" "unit_chain t = []" "mini_chain t = mini_chain u"
      "minimize_chain t = minimize_chain u" "minimized t = minimized u" "analyzed t = analyzed u" "unit_analyzed t = unit_analyzed u"
  shows "finishing t"
proof -
  have u: "same_search s u" "mini_chain u = []" "minimize_chain u = []" "minimized u = []"
    "\<forall>k. vidx k < length (ftab s) \<longrightarrow> \<not> keep (flags u k) \<and> \<not> poison (flags u k) \<and> \<not> removable (flags u k) \<and>
        \<not> added (flags u k) \<and> (seen (flags u k) \<longrightarrow> vidx k \<in> vidx ` (set (analyzed u) \<union> set (unit_analyzed u)))"
    using assms(1) unfolding learned_def by blast+
  have "flags t = flags u" by (simp add: flags_def assms(3) fun_eq_iff)
  moreover have "length (ftab t) = length (ftab s)" using same_searchD(10) [OF u(1)] assms(3) by simp
  ultimately show ?thesis using u assms by (simp add: finishing_def)
qed

text \<open>What the clause of an analysis does: it is learned, and drives the negated implication point.\<close>

definition drives :: "search_opts \<Rightarrow> search \<Rightarrow> int \<Rightarrow> int list \<Rightarrow> int list \<Rightarrow> search \<Rightarrow> bool" where
  "drives opts s uip lits chain t \<longleftrightarrow>
     derived t = derived s @ [(clause_id s + 1, lits, chain)] \<and> clause_id t = clause_id s + 1 \<and>
     (\<exists>l. l < level s \<and> trail t = filter (\<lambda>x. lev s x \<le> l) (trail s) @ [- uip] \<and> level t = l) \<and>
     (\<forall>x \<in> set (trail t). x \<noteq> - uip \<longrightarrow> lev t x = lev s x) \<and>
     (if length lits = 1
      then lits = [- uip] \<and> lev t uip = 0 \<and> clauses t = clauses s \<and>
        unit_clauses_idx t = (if opt_lrat opts then (unit_clauses_idx s)[vlit (- uip) := clause_id s + 1] else unit_clauses_idx s)
      else lev t uip \<noteq> 0 \<and> clauses t = clauses s @ [\<lparr>sc_id = clause_id s + 1, sc_lits = lits\<rparr>] \<and>
        reason (var t uip) = Some (length (clauses s)) \<and> unit_clauses_idx t = unit_clauses_idx s)"


text \<open>Backtracking and assigning the negated implication point.\<close>

lemma drive_assign:
  fixes opts :: search_opts
  assumes ok: "trail_ok w" and u: "uip \<in> set (trail w)" "lev w uip = level w" and l: "l < level w"
    and r: "r = No_reason \<or> (\<exists>c. r = Reason c \<and> c < length (clauses w) \<and> - uip \<in> set (lits_at w c) \<and>
      (\<forall>x \<in> set (lits_at w c). x \<noteq> - uip \<longrightarrow> - x \<in> set (trail w) \<and> lev w x \<le> l))"
  defines "b \<equiv> backtrack l w"
  defines "t \<equiv> search_assign opts (- uip) r b"
  shows "trail_ok t" "trail t = filter (\<lambda>x. lev w x \<le> l) (trail w) @ [- uip]" "level t = l" "clauses t = clauses w"
    "length (vals t) = length (vals w)" "var t uip = assigned_var b (- uip) r"
    "\<And>x. x \<in> set (trail t) \<Longrightarrow> x \<noteq> - uip \<Longrightarrow> lev t x = lev w x"
    "\<And>c. assignment_level b (- uip) c = assignment_level w (- uip) c"
proof -
  have le: "l \<le> level w" using l by simp
  note V = values_okD [OF trail_okD(1) [OF ok]]
  note B = backtrack_effect [OF ok le, folded b_def] and bok = backtrack_ok [OF ok le, folded b_def]
  have in_w: "lit_in (length (vals w)) uip" using V(4) u(1) .
  then have nz: "- uip \<noteq> 0" "lit_in (length (vals b)) (- uip)" by (auto simp: lit_in_def B(5))
  have v0: "val b (- uip) = 0" using B(9) [OF nz(1)] u l by simp
  show "assignment_level b (- uip) c = assignment_level w (- uip) c" for c
    by (simp add: assignment_level_def lits_at_def B(4,7) cong: if_cong)
  have p: "puts_literal b (- uip) (assigned_var b (- uip) r) t" unfolding t_def by (rule search_assign_puts)
  note P = putsD [OF p] and W = puts_values [OF p trail_okD(1) [OF bok] nz(2) v0]
  show "trail t = filter (\<lambda>x. lev w x \<le> l) (trail w) @ [- uip]" "level t = l" "clauses t = clauses w"
    "length (vals t) = length (vals w)" "var t uip = assigned_var b (- uip) r"
    using P B(1,2,4,5) W(1) W(3) [of uip] by simp_all
  show "lev t x = lev w x" if "x \<in> set (trail t)" "x \<noteq> - uip" for x
  proof -
    have "x \<in> set (trail b)" using that P(1) by simp
    then have "vidx x \<noteq> vidx uip" using W(5,6) that(2) by (auto simp: vidx_eq)
    then show ?thesis by (simp add: W(3) B(7))
  qed
  show "trail_ok t"
  proof (cases r)
    case No_reason
    then show ?thesis unfolding t_def using assign_unit_ok [OF bok nz(2) v0] by simp
  next
    case Decision_reason
    then show ?thesis using r by simp
  next
    case (Reason c)
    then have c: "c < length (clauses b)" "- uip \<in> set (lits_at b c)"
      "\<And>x. x \<in> set (lits_at b c) \<Longrightarrow> x \<noteq> - uip \<Longrightarrow> - x \<in> set (trail w) \<and> lev w x \<le> l"
      using r B(4) by (auto simp: lits_at_def)
    have "others_false b (- uip) c"
      unfolding others_false_def
    proof (intro ballI impI)
      fix x assume x: "x \<in> set (lits_at b c)" "x \<noteq> - uip"
      then have "- x \<in> set (trail b)" using c(3) [OF x] B(1) by simp
      moreover have "lit_in (length (vals b)) x" using clauses_okD(3) [OF trail_okD(4) [OF bok] c(1) x(1)] .
      ultimately show "val b x < 0" using val_true_iff(2) [OF trail_okD(1) [OF bok]] by blast
    qed
    then show ?thesis unfolding t_def Reason by (rule assign_reason_ok [OF bok c(1,2) _ v0])
  qed
qed


text \<open>The end of the analysis, once the literal is assigned.\<close>

lemma drives_finish:
  assumes "trail_ok t" "finishing t" "drives opts s uip lits chain t"
  shows "trail_ok (finish_analysis t)" "idle (finish_analysis t)" "conflict (finish_analysis t) = None"
    "vals (finish_analysis t) = vals t" "unsat (finish_analysis t) = unsat t" "drives opts s uip lits chain (finish_analysis t)"
proof -
  note F = finish_idle [OF assms(2)]
  note C = same_searchD [OF F(1)]
  show "trail_ok (finish_analysis t)" by (rule same_search_ok [OF assms(1) F(1)])
  show "idle (finish_analysis t)" "conflict (finish_analysis t) = None" by (rule F)+
  show "vals (finish_analysis t) = vals t" "unsat (finish_analysis t) = unsat t" by (rule C)+
  show "drives opts s uip lits chain (finish_analysis t)" using assms(3) unfolding drives_def C .
qed

lemma learn_driving:
  fixes assumed :: nat and stays :: "nat \<Rightarrow> nat \<Rightarrow> bool"
  assumes ok: "trail_ok s" and len: "length (ftab s) = length (vals s)" and lv: "level s \<noteq> 0"
    and L: "learned opts s c rs uip u ms us" and uip: "uip \<in> set (trail s)" "lev s uip = level s"
    and f: "\<forall>x \<in> set (clause u). - x \<in> set (trail s) \<and> (x \<noteq> - uip \<longrightarrow> lev s x \<noteq> 0 \<and> lev s x < level s)"
  defines "t \<equiv> learn_driving_clause opts assumed stays uip u"
  shows "trail_ok t \<and> idle t \<and> conflict t = None \<and> length (vals t) = length (vals s) \<and> unsat t = unsat s \<and>
    (\<exists>lits. mset lits = mset (clause u) \<and> drives opts s uip lits (lrat_chain (reverse_chain opts u)) t)"
proof -
  define w where "w = reverse_chain opts u"
  have ss: "same_search s u" and d: "distinct (clause u)" "- uip \<in> set (clause u)" and uc: "\<not> opt_lrat opts \<longrightarrow> unit_chain u = []"
    using L unfolding learned_def by auto
  have sw: "same_search s w" using ss by (simp add: w_def reverse_chain_def)
  note C = same_searchD [OF sw] and wok = same_search_ok [OF ok sw]
  have W: "clause w = clause u" "unit_chain w = []" "ftab w = ftab u" "mini_chain w = mini_chain u" "analyzed w = analyzed u"
    "minimize_chain w = minimize_chain u" "minimized w = minimized u" "unit_analyzed w = unit_analyzed u"
    using uc by (simp_all add: w_def reverse_chain_def)
  have nz: "- uip \<noteq> 0" using values_okD(4) [OF trail_okD(1) [OF ok] uip(1)] by (auto simp: lit_in_def)
  have goal: ?thesis if t: "t = finish_analysis t0" "trail_ok t0" "finishing t0" "length (vals t0) = length (vals s)" "unsat t0 = unsat s"
    "mset lits = mset (clause u)" "drives opts s uip lits (lrat_chain w) t0" for t0 lits
    using drives_finish [OF t(2,3,7)] t(1,4-6) by (auto simp: w_def)
  show ?thesis
  proof (cases "length (clause u) \<le> 1")
    case True
    then have cu: "clause u = [- uip]" using d(2) by (cases "clause u") auto
    define l where "l = determine_actual_backtrack_level opts assumed stays 0 w"
    have l: "l < level w" using backtrack_level_bound(2) [of 0 w] lv C(4) by (simp add: l_def)
    let ?t = "search_assign opts (- uip) No_reason (backtrack l w)"
    have uw: "uip \<in> set (trail w)" "lev w uip = level w" using uip C by simp_all
    note D = drive_assign(1-7) [OF wok uw l, where r = No_reason and opts = opts]
    note A = search_assign_learns [where s = "backtrack l w" and lit = "- uip" and r = No_reason and opts = opts]
    have "drives opts s uip [- uip] (lrat_chain w) ?t"
      unfolding drives_def using A D(2-4,6,7) l
      by (simp add: assigned_var_def C)
    moreover have "t = finish_analysis ?t"
      using True W(1) by (simp add: t_def learn_driving_clause_def w_def new_driving_clause_def l_def Let_def)
    moreover have "finishing ?t"
      by (rule learned_finishing [OF L len]) (use W D(5) C(2) in simp_all)
    ultimately show ?thesis using D(1,5) C(2,9) cu by (intro goal [of ?t "[- uip]"]) simp_all
  next
    case False
    define lits where "lits = sort_key (trail_rank w) (clause w)"
    define x where "x = w\<lparr>clause := lits, clause_id := clause_id s + 1, clauses := clauses s @ [\<lparr>sc_id = clause_id s + 1, sc_lits = lits\<rparr>],
      derived := derived s @ [(clause_id s + 1, lits, lrat_chain w)]\<rparr>"
    define l where "l = determine_actual_backtrack_level opts assumed stays (lev w (lits ! 1)) x"
    have ms: "mset lits = mset (clause u)" "set lits = set (clause u)" "length lits = length (clause u)" "distinct lits"
      using d(1) by (simp_all add: lits_def W(1))
    have fw: "\<forall>y \<in> set (clause w). - y \<in> set (trail w)" "- uip \<in> set (clause w)" "distinct (clause w)" "2 \<le> length (clause w)"
      "\<forall>y \<in> set (clause w). y \<noteq> - uip \<longrightarrow> lev w y < lev w (- uip)"
      using f d False uip(2) by (simp_all add: W(1) C)
    note O = driving_order [OF trail_okD(1) [OF wok] fw(1-3,5,4), folded lits_def]
    have "lev w (lits ! 1) < level x" using O(2,3) f uip(2) C by (simp add: W(1) x_def)
    note bd = backtrack_level_bound [OF this, of opts assumed stays, folded l_def]
    have tx: "trail x = trail w" "vals x = vals w" "vtab x = vtab w" "level x = level w" "control x = control w"
      "clauses x = clauses w @ [\<lparr>sc_id = clause_id s + 1, sc_lits = lits\<rparr>]" by (simp_all add: x_def C)
    have xok: "trail_ok x"
    proof (rule add_clause_ok [OF wok _ ms(4) _ tx])
      show "2 \<le> length lits" using False ms(3) by simp
      have "lit_in (length (vals w)) y" if "- y \<in> set (trail w)" for y
        using values_okD(4) [OF trail_okD(1) [OF wok] that] by simp
      then show "\<forall>y \<in> set lits. lit_in (length (vals w)) y" using fw(1) by (simp add: lits_def)
    qed
    have vx: "var x = var w" by (simp add: x_def fun_eq_iff)
    have lx: "lits_at x (length (clauses s)) = lits" "length (clauses s) < length (clauses x)" by (simp_all add: lits_at_def x_def)
    let ?r = "Reason (length (clauses s))"
    have r: "?r = No_reason \<or> (\<exists>c. ?r = Reason c \<and> c < length (clauses x) \<and> - uip \<in> set (lits_at x c) \<and>
      (\<forall>y \<in> set (lits_at x c). y \<noteq> - uip \<longrightarrow> - y \<in> set (trail x) \<and> lev x y \<le> l))"
      using lx ms(2) d(2) f O(4) bd(1) by (auto simp: tx(1) vx W(1) C(1))
    let ?t = "search_assign opts (- uip) ?r (backtrack l x)"
    have uw: "uip \<in> set (trail x)" "lev x uip = level x" using uip C by (simp_all add: tx vx)
    note D = drive_assign(1-7) [OF xok uw bd(2) r, where opts = opts] and D8 = drive_assign(8) [OF xok uw bd(2) r]
    note A = search_assign_learns [where s = "backtrack l x" and lit = "- uip" and r = ?r and opts = opts]
    have "lev w (lits ! 1) \<le> assignment_level x (- uip) (length (clauses s))"
      using assignment_level_max [of x "length (clauses s)" "- uip"] O(2,3) ms(2) by (simp add: lx(1) vx W(1))
    moreover have "lev w (lits ! 1) \<noteq> 0" using O(2,3) f C by (simp add: W(1))
    ultimately have al: "assignment_level (backtrack l x) (- uip) (length (clauses s)) \<noteq> 0" by (simp add: D8)
    have x1: "derived x = derived s @ [(clause_id s + 1, lits, lrat_chain w)]" "clause_id x = clause_id s + 1"
      "unit_clauses_idx x = unit_clauses_idx s" "unsat x = unsat s" by (simp_all add: x_def C)
    have dv: "drives opts s uip lits (lrat_chain w) ?t"
      unfolding drives_def using A D(2-4,6,7) bd(2) al False ms(3) x1
      by (simp add: assigned_var_def C tx vx)
    have "t = finish_analysis ?t"
      using False W(1) C by (simp add: t_def learn_driving_clause_def new_driving_clause_def new_learned_redundant_clause_def
          flip: w_def) (simp add: Let_def lits_def x_def l_def)
    moreover have "finishing ?t"
      by (rule learned_finishing [OF L len]) (use W D(5) C(2) tx(2) in \<open>simp_all add: x_def\<close>)
    ultimately show ?thesis using D(1,5) C(2) tx(2) x1(4) ms(1) dv by (intro goal [of ?t lits]) simp_all
  qed
qed


section \<open>Analysis at the conflict level\<close>

definition analyzed_to ::
  "search_opts \<Rightarrow> search \<Rightarrow> nat \<Rightarrow> int list \<Rightarrow> int \<Rightarrow> search \<Rightarrow> int list \<Rightarrow> int list \<Rightarrow> int list \<Rightarrow> search \<Rightarrow> bool" where
  "analyzed_to opts s c rs uip u ms us lits t \<longleftrightarrow>
     (\<exists>w. uip_found opts s c rs uip w) \<and> learned opts s c rs uip u ms us \<and>
     covers s (first_lits s c rs uip) (clause u) \<and> (\<not> opt_minimize opts \<longrightarrow> set (clause u) = first_lits s c rs uip) \<and> mset lits = mset (clause u) \<and>
     drives opts s uip lits (lrat_chain (reverse_chain opts u)) t \<and>
     trail_ok t \<and> idle t \<and> conflict t = None \<and> length (vals t) = length (vals s) \<and> unsat t = unsat s"

lemma analyze_parts:
  assumes ok: "trail_ok s" and i: "idle s" and lv: "level s \<noteq> 0" and c: "falsified s c"
    and o: "lit \<in> set (lits_at s c)" "lev s lit = level s"
  obtains uip w rs u ms us where "first_uip opts c s = Some (uip, w)" "uip_found opts s c rs uip w"
    and "(if length (clause w) > 1 \<and> opt_minimize opts then minimize_clause opts w else Some w) = Some u"
    and "learned opts s c rs uip u ms us" "uip \<in> set (trail s)" "lev s uip = level s"
    and "\<forall>x \<in> set (clause u). - x \<in> set (trail s) \<and> (x \<noteq> - uip \<longrightarrow> lev s x \<noteq> 0 \<and> lev s x < level s)"
    and "covers s (first_lits s c rs uip) (clause u)" "\<not> opt_minimize opts \<Longrightarrow> set (clause u) = first_lits s c rs uip"
proof -
  obtain uip w rs where w: "first_uip opts c s = Some (uip, w)" "uip_found opts s c rs uip w"
    using first_uip_spec [OF ok i lv c o] by blast
  obtain u ms us where u: "(if length (clause w) > 1 \<and> opt_minimize opts then minimize_clause opts w else Some w) = Some u"
    "learned opts s c rs uip u ms us" "covers s (first_lits s c rs uip) (clause u)"
    "\<not> opt_minimize opts \<Longrightarrow> set (clause u) = first_lits s c rs uip"
  proof (cases "length (clause w) > 1 \<and> opt_minimize opts")
    case True
    then show thesis using minimize_clause_learned [OF ok i lv w(2)] that by auto
  next
    case False
    note F = first_clause(3) [OF ok w(2) lv]
    then have "covers s (first_lits s c rs uip) (clause w)" by (intro covers_subset) simp
    then show thesis using uip_learned [OF ok i lv w(2)] F False by (intro that [of w]) auto
  qed
  note K = uip_clause [OF ok w(2)] and U = uip_foundD [OF w(2)]
  have sub: "set (clause u) \<subseteq> first_lits s c rs uip" using u(2) unfolding learned_def by blast
  have "\<forall>x \<in> set (clause u). - x \<in> set (trail s) \<and> (x \<noteq> - uip \<longrightarrow> lev s x \<noteq> 0 \<and> lev s x < level s)"
  proof
    fix x assume "x \<in> set (clause u)"
    then have "x \<in> first_lits s c rs uip" using sub by blast
    then show "- x \<in> set (trail s) \<and> (x \<noteq> - uip \<longrightarrow> lev s x \<noteq> 0 \<and> lev s x < level s)"
      using U(2,11) by (auto simp: first_lits_def)
  qed
  then show thesis using that w u U(11) K(3) by blast
qed

text \<open>The learned clause is the first implication clause, or what minimization leaves of it.\<close>

lemma analyze_level_spec:
  assumes ok: "trail_ok s" and i: "idle s" and lv: "level s \<noteq> 0" and c: "falsified s c"
    and o: "lit \<in> set (lits_at s c)" "lev s lit = level s"
  shows "\<exists>t rs uip u ms us lits. analyze_level opts assumed stays c s = Some t \<and> analyzed_to opts s c rs uip u ms us lits t"
proof -
  from analyze_parts [OF assms, of opts] obtain uip w rs u ms us where w: "first_uip opts c s = Some (uip, w)" "uip_found opts s c rs uip w"
    and u: "(if length (clause w) > 1 \<and> opt_minimize opts then minimize_clause opts w else Some w) = Some u"
      "learned opts s c rs uip u ms us"
    and f: "uip \<in> set (trail s)" "lev s uip = level s"
      "\<forall>x \<in> set (clause u). - x \<in> set (trail s) \<and> (x \<noteq> - uip \<longrightarrow> lev s x \<noteq> 0 \<and> lev s x < level s)"
    and cv: "covers s (first_lits s c rs uip) (clause u)" "\<not> opt_minimize opts \<Longrightarrow> set (clause u) = first_lits s c rs uip" by blast
  let ?t = "learn_driving_clause opts assumed stays uip u"
  have "analyze_level opts assumed stays c s = Some ?t" using w(1) u(1) by (simp add: analyze_level_def)
  moreover from learn_driving [OF ok idle_length [OF i] lv u(2) f, of assumed stays]
  obtain lits where "mset lits = mset (clause u)" "drives opts s uip lits (lrat_chain (reverse_chain opts u)) ?t"
    "trail_ok ?t" "idle ?t" "conflict ?t = None" "length (vals ?t) = length (vals s)" "unsat ?t = unsat s" by blast
  then have "analyzed_to opts s c rs uip u ms us lits ?t" using w(2) u(2) cv unfolding analyzed_to_def by blast
  ultimately show ?thesis by blast
qed

end
