(* ===== verification/Search_Proof.thy ===== *)
theory Search_Proof
  imports Lrat_Complete Search_Learn
begin

text \<open>
  The proof the search writes: every clause it derives has a resolution chain over the clauses
  before it, which the LRAT checker accepts.
\<close>


section \<open>Derivations\<close>

text \<open>Derived clauses with their chains, each over the clauses \<open>K\<close> and those derived before.\<close>

fun derivation :: "(int \<times> int list) set \<Rightarrow> (int \<times> int list \<times> int list) list \<Rightarrow> bool" where
  "derivation K [] \<longleftrightarrow> True"
| "derivation K ((cid, c, chain) # ds) \<longleftrightarrow> 0 \<notin> set c \<and> cid \<notin> fst ` K \<and>
     (\<exists>xs did D. chain = chain_ids xs @ [did] \<and> resolution_proof K c xs (did, D)) \<and> derivation (insert (cid, c) K) ds"

definition known :: "(int \<times> int list) set \<Rightarrow> (int \<times> int list \<times> int list) list \<Rightarrow> (int \<times> int list) set" where
  "known K ds = K \<union> (\<lambda>(cid, c, chain). (cid, c)) ` set ds"

lemma known_simps [simp]:
  "known K [] = K" "known K ((cid, c, chain) # ds) = known (insert (cid, c) K) ds"
  "known K (ds @ es) = known (known K ds) es"
  by (simp_all add: known_def image_Un Un_assoc)

lemma derivation_append: "derivation K (ds @ es) \<longleftrightarrow> derivation K ds \<and> derivation (known K ds) es"
  by (induction ds arbitrary: K) auto

text \<open>What the checker is called with.\<close>

definition derived_call :: "int \<times> int list \<times> int list \<Rightarrow> lrat_call" where
  "derived_call = (\<lambda>(cid, c, chain). Derived cid c chain)"

lemma derivation_accepted:
  "knows s K \<Longrightarrow> derivation K ds \<Longrightarrow> \<exists>t. run_lrat (map derived_call ds) s = Inr t \<and> knows t (known K ds)"
proof (induction ds arbitrary: s K)
  case (Cons d ds)
  obtain cid c chain where d: "d = (cid, c, chain)" by (cases d)
  obtain xs did D where "chain = chain_ids xs @ [did]" "resolution_proof K c xs (did, D)" "0 \<notin> set c" "cid \<notin> fst ` K"
    using Cons.prems(2) by (auto simp: d)
  then obtain t where "add_derived_clause cid c chain s = Inr t" "knows t (insert (cid, c) K)"
    using knows_derived [OF Cons.prems(1)] by blast
  then show ?case using Cons.IH [of t "insert (cid, c) K"] Cons.prems(2) by (simp add: d derived_call_def)
qed simp

lemma originals_accepted:
  assumes "knows s K" "\<forall>(cid, c) \<in> set fs. 0 \<notin> set c" "distinct (map fst fs)" "fst ` set fs \<inter> fst ` K = {}"
  shows "\<exists>t. run_lrat (map (\<lambda>(cid, c). Original cid c False) fs) s = Inr t \<and> knows t (K \<union> set fs)"
  using assms
proof (induction fs arbitrary: s K)
  case (Cons f fs)
  obtain cid c where f: "f = (cid, c)" by (cases f)
  have "0 \<notin> set c" "cid \<notin> fst ` K" using Cons.prems(2,4) by (auto simp: f)
  then obtain t where t: "add_original_clause cid c False s = Inr t" "knows t (insert (cid, c) K)"
    using knows_original [OF Cons.prems(1)] by blast
  have "fst ` set fs \<inter> fst ` insert (cid, c) K = {}" using Cons.prems(3,4) by (auto simp: f)
  then show ?case using Cons.IH [OF t(2)] Cons.prems(2,3) t(1) by (simp add: f)
qed simp

section \<open>From analysis to resolution\<close>

lemma unit_steps_append:
  "unit_steps A (xs @ ys) D \<longleftrightarrow> unit_steps A xs [] \<and> unit_steps (A \<union> step_units xs) ys D"
proof (induction xs arbitrary: A)
  case (Cons x xs)
  obtain cid c u where x: "x = (cid, c, u)" by (cases x)
  show ?case using Cons.IH [of "insert u A"] by (simp add: x)
qed simp

lemma resolvent_member:
  assumes "lit \<in> set D \<or> (\<exists>(cid, c, u) \<in> set xs. lit \<in> set c \<and> lit \<noteq> u)" "- lit \<notin> step_units xs"
  shows "lit \<in> resolvent xs D"
  using assms
proof (induction xs)
  case (Cons x xs)
  obtain cid c u where x: "x = (cid, c, u)" by (cases x)
  show ?case using Cons by (auto simp: x)
qed simp

lemma steps_used_if:
  assumes "unit_steps A xs D" "\<forall>(cid, c, u) \<in> set xs. u \<noteq> 0"
    and "\<forall>m \<in> step_units xs. - m \<in> set D \<or> (\<exists>(cid, c, u) \<in> set xs. - m \<in> set c \<and> - m \<noteq> u)"
  shows "steps_used xs D"
  using assms
proof (induction xs arbitrary: A)
  case (Cons x xs)
  obtain cid c u where x: "x = (cid, c, u)" by (cases x)
  have us: "unit_steps (insert u A) xs D" and u: "u \<in> set c" "u \<notin> A" "u \<noteq> 0"
    and c: "\<And>lit. lit \<in> set c \<Longrightarrow> lit \<noteq> u \<Longrightarrow> - lit \<in> A"
    using Cons.prems(1,2) by (auto simp: x)
  have fresh: "v \<notin> insert u A" if v: "v \<in> step_units xs" for v
  proof -
    obtain i e where "(i, e, v) \<in> set xs" using v by auto
    then show ?thesis by (rule unit_steps_fresh [OF us])
  qed
  have rest: "- m \<in> set D \<or> (\<exists>(cid, c, u) \<in> set xs. - m \<in> set c \<and> - m \<noteq> u)" if m: "m = u \<or> m \<in> step_units xs" for m
  proof -
    have "m \<notin> A" using m fresh u(2) by blast
    then have "\<not> (- m \<in> set c \<and> - m \<noteq> u)" using c [of "- m"] by auto
    moreover have "m \<in> step_units (x # xs)" using m by (auto simp: x)
    ultimately show ?thesis using Cons.prems(3) by (fastforce simp: x)
  qed
  have "- u \<in> resolvent xs D"
    using rest [of u] fresh [of u] by (intro resolvent_member) auto
  moreover have "steps_used xs D"
    using Cons.IH [OF us] Cons.prems(2) rest by auto
  ultimately show ?case by (simp add: x)
qed simp


text \<open>A chain of units \<open>us\<close> and reasons \<open>ms\<close>, ending in the clause \<open>D\<close>, is a resolution proof of \<open>C\<close>.\<close>

definition in_known :: "(int \<times> int list) set \<Rightarrow> int \<Rightarrow> int list \<Rightarrow> bool" where
  "in_known K cid lits \<longleftrightarrow> (\<exists>c. mset c = mset lits \<and> (cid, c) \<in> K)"

lemma units_unit_steps:
  "distinct us \<Longrightarrow> set us \<inter> A = {} \<Longrightarrow> unit_steps A (map (\<lambda>m. (f m, [m], m)) us) []"
  by (induction us arbitrary: A) auto

lemma implied_unit_steps:
  assumes "trail_ok s" "implied s A ms" "\<forall>m \<in> set ms. set (g m) = set (reason_lits s m)"
  shows "unit_steps A (map (\<lambda>m. (reason_id s m, g m, m)) ms) []"
  using assms(2,3)
proof (induction ms arbitrary: A)
  case (Cons m ms)
  obtain d where d: "reason (var s m) = Some d" using Cons.prems(1) by auto
  have "m \<in> set (reason_lits s m)"
    using reason_Some(2) [OF assms(1) _ d] Cons.prems(1) by (simp add: reason_lits_def d)
  then show ?case using Cons by auto
qed simp

lemma chain_resolution:
  assumes ok: "trail_ok s" and T: "consistent T" "INT_MIN \<notin> T" "uminus ` set C \<union> set us \<union> set ms \<subseteq> T"
    and us: "distinct us" "set us \<inter> uminus ` set C = {}" "\<forall>m \<in> set us. (unit_id s m, [m]) \<in> K"
    and ms: "implied s (uminus ` set C \<union> set us) ms" "\<forall>m \<in> set ms. in_known K (reason_id s m) (reason_lits s m) \<and> distinct (reason_lits s m)"
    and D: "in_known K did lits" "\<forall>lit \<in> set lits. - lit \<in> uminus ` set C \<union> set us \<union> set ms"
    and used: "\<forall>m \<in> set us \<union> set ms. - m \<in> set lits \<or> (\<exists>k \<in> set ms. - m \<in> set (reason_lits s k) \<and> - m \<noteq> k)"
    and C: "distinct C" "0 \<le> did"
  shows "\<exists>xs D. map (unit_id s) us @ map (reason_id s) ms @ [did] = chain_ids xs @ [did] \<and> resolution_proof K C xs (did, D)"
proof -
  obtain D where D1: "mset D = mset lits" "(did, D) \<in> K" using D(1) by (auto simp: in_known_def)
  have "\<forall>m \<in> set ms. \<exists>c. mset c = mset (reason_lits s m) \<and> (reason_id s m, c) \<in> K" using ms(2) by (auto simp: in_known_def)
  then obtain g where g: "\<forall>m \<in> set ms. mset (g m) = mset (reason_lits s m) \<and> (reason_id s m, g m) \<in> K" by metis
  then have sg: "\<forall>m \<in> set ms. set (g m) = set (reason_lits s m)" using mset_eq_setD by blast
  have dg: "distinct (g m)" if "m \<in> set ms" for m
    using g ms(2) that mset_eq_imp_distinct_iff [of "g m" "reason_lits s m"] by simp
  let ?us = "map (\<lambda>m. (unit_id s m, [m], m)) us" and ?ms = "map (\<lambda>m. (reason_id s m, g m, m)) ms"
  let ?xs = "?us @ ?ms" and ?A = "uminus ` set C"
  have su: "step_units ?us = set us" "step_units ?ms = set ms" by (force simp: image_iff)+
  have "unit_steps (?A \<union> set us) (?ms @ []) D"
    unfolding unit_steps_append su using implied_unit_steps [OF ok ms(1) sg] D(2) mset_eq_setD [OF D1(1)] by simp
  then have steps: "unit_steps ?A ?xs D"
    unfolding unit_steps_append [of ?A ?us] su using units_unit_steps [OF us(1,2)] by simp
  have sx: "step_units ?xs = set us \<union> set ms" using su by (simp add: image_Un)
  have nz: "u \<noteq> 0" if "u \<in> set us \<union> set ms" for u using that T(1,3) consistentD [of T u] by blast
  have "steps_used ?xs D"
  proof (rule steps_used_if [OF steps])
    show "\<forall>(cid, c, u) \<in> set ?xs. u \<noteq> 0" using nz by auto
    show "\<forall>m \<in> step_units ?xs. - m \<in> set D \<or> (\<exists>(cid, c, u) \<in> set ?xs. - m \<in> set c \<and> - m \<noteq> u)"
    proof
      fix m assume "m \<in> step_units ?xs"
      then have "m \<in> set us \<union> set ms" unfolding sx .
      then consider "- m \<in> set lits" | k where "k \<in> set ms" "- m \<in> set (reason_lits s k)" "- m \<noteq> k" using used by blast
      then show "- m \<in> set D \<or> (\<exists>(cid, c, u) \<in> set ?xs. - m \<in> set c \<and> - m \<noteq> u)"
      proof cases
        case 1
        then show ?thesis using mset_eq_setD [OF D1(1)] by simp
      next
        case 2
        then have "(reason_id s k, g k, k) \<in> set ?xs" "- m \<in> set (g k)" using sg by auto
        then show ?thesis using 2(3) by blast
      qed
    qed
  qed
  moreover have "\<forall>(cid, c, u) \<in> set ?xs. (cid, c) \<in> K \<and> distinct c" using us(3) g dg by auto
  moreover have "?A \<union> step_units ?xs \<subseteq> T" unfolding sx using T(3) by blast
  ultimately have "resolution_proof K C ?xs (did, D)"
    unfolding resolution_proof_def using steps D1(2) C T(1,2) by auto
  moreover have "map (unit_id s) us @ map (reason_id s) ms @ [did] = chain_ids ?xs @ [did]" by (simp add: comp_def)
  ultimately show ?thesis by blast
qed


section \<open>What the checker has to know\<close>

definition trail_known :: "(int \<times> int list) set \<Rightarrow> search \<Rightarrow> bool" where
  "trail_known K s \<longleftrightarrow>
     (\<forall>c < length (clauses s). in_known K (sc_id (clauses s ! c)) (lits_at s c) \<and> 0 \<le> sc_id (clauses s ! c)) \<and>
     (\<forall>lit \<in> set (trail s). lev s lit = 0 \<longrightarrow> (unit_id s lit, [lit]) \<in> K)"

lemma trail_knownD:
  assumes "trail_known K s"
  shows "\<And>c. c < length (clauses s) \<Longrightarrow> in_known K (sc_id (clauses s ! c)) (lits_at s c) \<and> 0 \<le> sc_id (clauses s ! c)"
    "\<And>lit. lit \<in> set (trail s) \<Longrightarrow> lev s lit = 0 \<Longrightarrow> (unit_id s lit, [lit]) \<in> K"
  using assms unfolding trail_known_def by blast+

lemma true_consistent:
  assumes "values_ok s"
  shows "consistent (set (trail s))" "INT_MIN \<notin> set (trail s)"
proof -
  note V = values_okD [OF assms]
  show "consistent (set (trail s))"
    using V(4) trail_consistent [OF assms] by (auto simp: consistent_def lit_in_def)
  show "INT_MIN \<notin> set (trail s)"
  proof
    assume "INT_MIN \<in> set (trail s)"
    then have "lit_in (length (vals s)) INT_MIN" by (rule V(4))
    then show False using V(2) by (simp add: lit_in_def INT_MIN_def)
  qed
qed

lemma reason_known:
  assumes "trail_ok s" "trail_known K s" "m \<in> set (trail s)" "reason (var s m) \<noteq> None"
  shows "in_known K (reason_id s m) (reason_lits s m) \<and> distinct (reason_lits s m)"
proof -
  obtain d where d: "reason (var s m) = Some d" using assms(4) by blast
  have "d < length (clauses s)" by (rule reason_Some(1) [OF assms(1,3) d])
  then show ?thesis
    using trail_knownD(1) [OF assms(2)] clauses_okD(2) [OF trail_okD(4) [OF assms(1)]] d
    by (simp add: reason_id_def reason_lits_def)
qed

text \<open>The chain of a learned clause.\<close>

lemma learned_resolution:
  assumes ok: "trail_ok s" and K: "trail_known K s" and lr: "opt_lrat opts" and lv: "level s \<noteq> 0"
    and c: "c < length (clauses s)" and w: "uip_found opts s c rs uip w" and L: "learned opts s c rs uip u ms us"
    and lits: "mset lits = mset (clause u)"
  shows "\<exists>xs did D. lrat_chain (reverse_chain opts u) = chain_ids xs @ [did] \<and> resolution_proof K lits xs (did, D)"
proof -
  note U = uip_foundD [OF w] and k = uip_clause [OF ok w]
  note T = trail_okD [OF ok]
  have l: "distinct (clause u)" "- uip \<in> set (clause u)" "set (clause u) \<subseteq> first_lits s c rs uip"
    "\<And>lit. lit \<in> first_lits s c rs uip \<Longrightarrow> lit \<notin> set (clause u) \<Longrightarrow> - lit \<in> set ms"
    "implied s (uminus ` set (clause u) \<union> set us) ms" "\<And>m. m \<in> set ms \<Longrightarrow> lev s m \<noteq> 0 \<and> lev s m \<noteq> level s" "distinct us"
    "\<And>m. m \<in> set us \<Longrightarrow> m \<in> set (trail s) \<and> lev s m = 0" "\<And>lit. lit \<in> reached s c rs \<Longrightarrow> lev s lit = 0 \<Longrightarrow> - lit \<in> set us"
    "\<And>m. m \<in> set us \<union> set ms \<Longrightarrow> used_by s (reached s c rs) (set ms) m" "unit_chain u = map (unit_id s) us"
    "lrat_chain u = (sc_id (clauses s ! c) # map (reason_id s) rs) @ rev (map (reason_id s) ms)"
    using L lr unfolding learned_def by (blast, blast, blast, blast, blast, blast, blast, blast, blast, blast, blast, simp)
  have sl: "set lits = set (clause u)" using lits by (rule mset_eq_setD)
  let ?A = "uminus ` set lits" and ?ms = "ms @ rev rs"
  have fl: "- x \<in> set (trail s) \<and> lev s x \<noteq> 0" if "x \<in> first_lits s c rs uip" for x
    using that U(2,11) k(3) lv by (auto simp: first_lits_def)
  have At: "m \<in> set (trail s) \<and> lev s m \<noteq> 0" if "m \<in> ?A" for m using that l(3) sl fl by auto
  have Alv: "m = uip" if "m \<in> ?A" "lev s m = level s" for m
    using that l(3) sl by (auto simp: first_lits_def)
  have msT: "set ms \<subseteq> set (trail s)" "\<And>m. m \<in> set ms \<Longrightarrow> reason (var s m) \<noteq> None"
  proof -
    have "implied s B xs \<Longrightarrow> \<forall>m \<in> set xs. m \<in> set (trail s) \<and> reason (var s m) \<noteq> None" for B xs
      by (induction xs arbitrary: B) auto
    then show "set ms \<subseteq> set (trail s)" "\<And>m. m \<in> set ms \<Longrightarrow> reason (var s m) \<noteq> None" using l(5) by blast+
  qed
  have cover: "- lit \<in> ?A \<union> set us \<union> set ?ms" if r: "lit \<in> reached s c rs" for lit
  proof -
    have "lev s lit \<le> level s" using levels_okD(4) [OF T(2) U(2) [OF r]] by simp
    then consider "lev s lit = 0" | "0 < lev s lit" "lev s lit < level s" | "lev s lit = level s" by linarith
    then show ?thesis
    proof cases
      case 1
      then show ?thesis using l(9) [OF r] by blast
    next
      case 2
      then have "lit \<in> first_lits s c rs uip" using r by (simp add: first_lits_def)
      then show ?thesis using l(4) [of lit] sl by auto
    next
      case 3
      then have "lit \<in> uminus ` insert uip (set rs)" using r U(13) by blast
      then have "- lit = uip \<or> - lit \<in> set rs" by auto
      then show ?thesis using l(2) sl by force
    qed
  qed
  have imp: "implied s (?A \<union> set us \<union> set ms) (rev rs)"
  proof (rule implied_sorted [OF ok])
    show "sorted_wrt (\<lambda>a b. vtrail (var s a) < vtrail (var s b)) (rev rs)" using U(10) by (simp add: sorted_wrt_rev)
    show "\<forall>m \<in> set (rev rs). m \<in> set (trail s) \<and> reason (var s m) \<noteq> None \<and> m \<notin> ?A \<union> set us \<union> set ms \<and>
        (\<forall>other \<in> set (reason_lits s m). other \<noteq> m \<longrightarrow> - other \<in> ?A \<union> set us \<union> set ms \<union> set (rev rs))"
    proof
      fix m assume "m \<in> set (rev rs)"
      then have m: "m \<in> set rs" by simp
      note um = U(9) [OF m]
      have "m \<noteq> uip" using m U(12) by blast
      then have "m \<notin> ?A" using Alv [of m] um by blast
      moreover have "m \<notin> set us" using l(8) [of m] um lv by auto
      moreover have "m \<notin> set ms" using l(6) [of m] um by auto
      moreover have "- other \<in> ?A \<union> set us \<union> set ms \<union> set (rev rs)" if "other \<in> set (reason_lits s m)" "other \<noteq> m" for other
      proof -
        have "other \<in> reached s c rs" using that m by (auto simp: reached_def)
        then show ?thesis using cover [of other] by auto
      qed
      ultimately show "m \<in> set (trail s) \<and> reason (var s m) \<noteq> None \<and> m \<notin> ?A \<union> set us \<union> set ms \<and>
        (\<forall>other \<in> set (reason_lits s m). other \<noteq> m \<longrightarrow> - other \<in> ?A \<union> set us \<union> set ms \<union> set (rev rs))"
        using um by blast
    qed
  qed
  have used: "- m \<in> set (lits_at s c) \<or> (\<exists>k \<in> set ?ms. - m \<in> set (reason_lits s k) \<and> - m \<noteq> k)"
    if "m \<in> set us \<union> set ?ms" for m
  proof -
    have "used_by s (reached s c rs) (set ms) m"
      using that l(10) [of m] U(9) [of m] by (auto simp: used_by_def)
    then show ?thesis by (auto simp: used_by_def reached_def)
  qed
  have "\<exists>xs D. map (unit_id s) (rev us) @ map (reason_id s) ?ms @ [sc_id (clauses s ! c)] = chain_ids xs @ [sc_id (clauses s ! c)] \<and>
      resolution_proof K lits xs (sc_id (clauses s ! c), D)"
  proof (rule chain_resolution [OF ok true_consistent [OF T(1)], where lits = "lits_at s c"])
    show "?A \<union> set (rev us) \<union> set ?ms \<subseteq> set (trail s)" using At l(8) msT(1) U(9) by auto
    show "distinct (rev us)" using l(7) by simp
    show "set (rev us) \<inter> ?A = {}" using At l(8) by fastforce
    show "\<forall>m \<in> set (rev us). (unit_id s m, [m]) \<in> K" using trail_knownD(2) [OF K] l(8) by simp
    show "implied s (?A \<union> set (rev us)) ?ms" using l(5) imp sl by (simp add: implied_append Un_assoc)
    have "m \<in> set (trail s) \<and> reason (var s m) \<noteq> None" if "m \<in> set ?ms" for m using that msT U(9) [of m] by auto
    then show "\<forall>m \<in> set ?ms. in_known K (reason_id s m) (reason_lits s m) \<and> distinct (reason_lits s m)"
      using reason_known [OF ok K] by blast
    show "in_known K (sc_id (clauses s ! c)) (lits_at s c)" "0 \<le> sc_id (clauses s ! c)" using trail_knownD(1) [OF K c] by simp_all
    show "\<forall>lit \<in> set (lits_at s c). - lit \<in> ?A \<union> set (rev us) \<union> set ?ms" using cover by (auto simp: reached_def)
    show "\<forall>m \<in> set (rev us) \<union> set ?ms. - m \<in> set (lits_at s c) \<or> (\<exists>k \<in> set ?ms. - m \<in> set (reason_lits s k) \<and> - m \<noteq> k)"
      using used by auto
    show "distinct lits" using l(1) mset_eq_imp_distinct_iff [OF lits] by simp
  qed
  then show ?thesis using lr l(11,12) by (auto simp: reverse_chain_def rev_map)
qed


text \<open>The chain of a clause whose other literals are false at level zero.\<close>

lemma units_resolution:
  assumes ok: "trail_ok s" and K: "trail_known K s" and c: "c < length (clauses s)"
    and C: "distinct C" "\<forall>x \<in> set C. lit_in (length (vals s)) x \<and> x \<notin> set (trail s) \<and> - x \<notin> set C"
    and f: "\<forall>x \<in> set (lits_at s c). x \<notin> set C \<longrightarrow> - x \<in> set (trail s) \<and> lev s x = 0"
  shows "\<exists>xs did D. map (\<lambda>l. unit_id s (- l)) (filter (\<lambda>l. l \<notin> set C) (lits_at s c)) @ [sc_id (clauses s ! c)] = chain_ids xs @ [did] \<and>
    resolution_proof K C xs (did, D)"
proof -
  note T = trail_okD [OF ok]
  let ?fs = "filter (\<lambda>l. l \<notin> set C) (lits_at s c)" and ?T = "set (trail s) \<union> uminus ` set C"
  note tc = true_consistent [OF T(1)]
  have us: "- x \<in> set (trail s) \<and> lev s x = 0" if "x \<in> set ?fs" for x using that f by simp
  have "consistent ?T"
    unfolding consistent_def
  proof
    fix x assume "x \<in> ?T"
    then show "x \<noteq> 0 \<and> - x \<notin> ?T"
    proof
      assume x: "x \<in> set (trail s)"
      then have "- x \<notin> set (trail s)" "x \<noteq> 0" "x \<notin> set C" using consistentD [OF tc(1) x] C(2) by auto
      then show ?thesis by auto
    next
      assume "x \<in> uminus ` set C"
      then obtain y where y: "y \<in> set C" "x = - y" by blast
      then have "y \<noteq> 0" "y \<notin> set (trail s)" "- y \<notin> set C" using C(2) by (auto simp: lit_in_def)
      then show ?thesis using y by auto
    qed
  qed
  moreover have "INT_MIN \<notin> ?T"
  proof -
    have "- x \<noteq> INT_MIN" if "x \<in> set C" for x
      using C(2) that values_okD(2) [OF T(1)] by (auto simp: lit_in_def INT_MIN_def)
    then have "INT_MIN \<notin> uminus ` set C" by (metis imageE)
    then show ?thesis using tc(2) by blast
  qed
  ultimately have "\<exists>xs D. map (unit_id s) (map uminus ?fs) @ map (reason_id s) [] @ [sc_id (clauses s ! c)] =
      chain_ids xs @ [sc_id (clauses s ! c)] \<and> resolution_proof K C xs (sc_id (clauses s ! c), D)"
  proof (rule chain_resolution [OF ok, where lits = "lits_at s c"])
    show "uminus ` set C \<union> set (map uminus ?fs) \<union> set [] \<subseteq> ?T" using us by auto
    show "distinct (map uminus ?fs)" using clauses_okD(2) [OF T(4) c] by (simp add: distinct_map)
    show "set (map uminus ?fs) \<inter> uminus ` set C = {}" by auto
    show "\<forall>m \<in> set (map uminus ?fs). (unit_id s m, [m]) \<in> K" using us trail_knownD(2) [OF K] by auto
    show "in_known K (sc_id (clauses s ! c)) (lits_at s c)" "0 \<le> sc_id (clauses s ! c)" using trail_knownD(1) [OF K c] by simp_all
    show "\<forall>lit \<in> set (lits_at s c). - lit \<in> uminus ` set C \<union> set (map uminus ?fs) \<union> set []" by auto
    show "\<forall>m \<in> set (map uminus ?fs) \<union> set []. - m \<in> set (lits_at s c) \<or> (\<exists>k \<in> set []. - m \<in> set (reason_lits s k) \<and> - m \<noteq> k)"
      by auto
  qed (use C(1) in simp_all)
  then show ?thesis by (auto simp: comp_def)
qed

section \<open>The proof of the search so far\<close>

definition proof_ok :: "(int \<times> int list) set \<Rightarrow> search \<Rightarrow> bool" where
  "proof_ok K s \<longleftrightarrow> derivation K (derived s) \<and> trail_known (known K (derived s)) s \<and>
     (\<forall>k \<in> known K (derived s). fst k \<le> clause_id s) \<and> 0 \<le> clause_id s \<and> length (unit_clauses_idx s) = 2 * length (vals s)"

lemma trail_known_transfer:
  assumes "trail_known K s" "K \<subseteq> L"
    and "\<And>c. c < length (clauses t) \<Longrightarrow>
      (c < length (clauses s) \<and> mset (lits_at t c) = mset (lits_at s c) \<and> sc_id (clauses t ! c) = sc_id (clauses s ! c)) \<or>
      (in_known L (sc_id (clauses t ! c)) (lits_at t c) \<and> 0 \<le> sc_id (clauses t ! c))"
    and "\<And>lit. lit \<in> set (trail t) \<Longrightarrow> lev t lit = 0 \<Longrightarrow>
      (lit \<in> set (trail s) \<and> lev s lit = 0 \<and> unit_id t lit = unit_id s lit) \<or> (unit_id t lit, [lit]) \<in> L"
  shows "trail_known L t"
  unfolding trail_known_def
proof (intro conjI allI impI ballI)
  fix c assume c: "c < length (clauses t)"
  show "in_known L (sc_id (clauses t ! c)) (lits_at t c)" "0 \<le> sc_id (clauses t ! c)"
    using assms(3) [OF c] trail_knownD(1) [OF assms(1), of c] assms(2) unfolding in_known_def by (metis subsetD)+
next
  fix lit assume "lit \<in> set (trail t)" "lev t lit = 0"
  then show "(unit_id t lit, [lit]) \<in> L" using assms(2) assms(4) [of lit] trail_knownD(2) [OF assms(1), of lit] by (metis subsetD)
qed

text \<open>Steps that derive nothing.\<close>

lemma proof_ok_transfer:
  assumes "proof_ok K s" "derived t = derived s" "clause_id t = clause_id s" "unit_clauses_idx t = unit_clauses_idx s"
    and "length (vals t) = length (vals s)" "length (clauses t) = length (clauses s)"
    and "\<And>c. c < length (clauses s) \<Longrightarrow> mset (lits_at t c) = mset (lits_at s c) \<and> sc_id (clauses t ! c) = sc_id (clauses s ! c)"
    and "\<And>lit. lit \<in> set (trail t) \<Longrightarrow> lev t lit = 0 \<Longrightarrow> lit \<in> set (trail s) \<and> lev s lit = 0"
  shows "proof_ok K t"
proof -
  have p: "derivation K (derived s)" "trail_known (known K (derived s)) s"
    "\<forall>k \<in> known K (derived s). fst k \<le> clause_id s" "0 \<le> clause_id s" "length (unit_clauses_idx s) = 2 * length (vals s)"
    using assms(1) unfolding proof_ok_def by blast+
  have "unit_id t lit = unit_id s lit" for lit by (simp add: unit_id_def assms(4))
  then have "trail_known (known K (derived s)) t"
    using assms(6-8) by (intro trail_known_transfer [OF p(2)]) auto
  then show ?thesis using p assms(2-5) unfolding proof_ok_def by simp
qed

text \<open>A clause is derived with a resolution chain.\<close>

lemma derive_next:
  assumes "derivation K (derived s)" "\<forall>k \<in> known K (derived s). fst k \<le> clause_id s" "0 \<notin> set c"
    and "\<exists>xs did D. chain = chain_ids xs @ [did] \<and> resolution_proof (known K (derived s)) c xs (did, D)"
  shows "derivation K (derived s @ [(clause_id s + 1, c, chain)])"
    "\<forall>k \<in> known K (derived s @ [(clause_id s + 1, c, chain)]). fst k \<le> clause_id s + 1"
    "(clause_id s + 1, c) \<in> known K (derived s @ [(clause_id s + 1, c, chain)])"
    "known K (derived s) \<subseteq> known K (derived s @ [(clause_id s + 1, c, chain)])"
proof -
  have "clause_id s + 1 \<notin> fst ` known K (derived s)" using assms(2) by force
  then show "derivation K (derived s @ [(clause_id s + 1, c, chain)])"
    using assms(1,3,4) by (simp add: derivation_append)
qed (use assms(2) in auto)


lemma proof_okD:
  assumes "proof_ok K s"
  shows "derivation K (derived s)" "trail_known (known K (derived s)) s" "\<forall>k \<in> known K (derived s). fst k \<le> clause_id s"
    "0 \<le> clause_id s" "length (unit_clauses_idx s) = 2 * length (vals s)"
  using assms unfolding proof_ok_def by blast+

lemma vlit_eq: "vlit a = vlit b \<longleftrightarrow> a = b"
proof
  assume "vlit a = vlit b"
  then have "vidx a = vidx b \<and> (a < 0 \<longleftrightarrow> b < 0)" unfolding vlit_def by (auto split: if_splits) presburger+
  then show "a = b" by (auto simp: vidx_eq)
qed simp

lemma vlit_less: "lit_in n lit \<Longrightarrow> vlit lit < 2 * n"
  using vidx_less [of n lit] by (auto simp: vlit_def)

text \<open>Assigning a literal: at level zero it is derived as a unit.\<close>

lemma assign_proof_ok:
  assumes ok: "trail_ok s" and lit: "lit_in (length (vals s)) lit" "val s lit = 0" and K: "proof_ok K s" and lr: "opt_lrat opts"
    and chain: "vlevel (assigned_var s lit r) = 0 \<Longrightarrow>
      \<exists>xs did D. lrat_chain s = chain_ids xs @ [did] \<and> resolution_proof (known K (derived s)) [lit] xs (did, D)"
  shows "proof_ok K (search_assign opts lit r s)"
proof -
  let ?t = "search_assign opts lit r s"
  note P = proof_okD [OF K]
  note p = putsD [OF search_assign_puts [of s lit r opts]]
  note W = puts_values [OF search_assign_puts [of s lit r opts] trail_okD(1) [OF ok] lit]
  note A = search_assign_learns [where s = s and lit = lit and r = r and opts = opts]
  have old: "lev ?t k = lev s k" if "k \<in> set (trail s)" for k
  proof -
    have "vidx k \<noteq> vidx lit" using that W(5,6) by (auto simp: vidx_eq)
    then show ?thesis by (simp add: W(3))
  qed
  have new: "lev ?t lit = vlevel (assigned_var s lit r)" by (simp add: W(3))
  have cl: "lits_at ?t c = lits_at s c" for c by (simp add: lits_at_def)
  show ?thesis
  proof (cases "vlevel (assigned_var s lit r) = 0")
    case False
    have z: "k \<in> set (trail s) \<and> lev s k = 0" if "k \<in> set (trail ?t)" "lev ?t k = 0" for k
    proof -
      have "k \<noteq> lit" using that(2) new False by auto
      then have "k \<in> set (trail s)" using that(1) by simp
      then show ?thesis using old that(2) by simp
    qed
    show ?thesis
    proof (rule proof_ok_transfer [OF K])
      show "k \<in> set (trail s) \<and> lev s k = 0" if "k \<in> set (trail ?t)" "lev ?t k = 0" for k by (rule z [OF that])
    qed (use A False in \<open>simp_all add: W(1) cl\<close>)
  next
    case True
    note A = A [unfolded True, simplified]
    have nz: "0 \<notin> set [lit]" using lit(1) by (auto simp: lit_in_def)
    note N = derive_next [OF P(1,3) nz chain [OF True]]
    let ?L = "known K (derived s @ [(clause_id s + 1, [lit], lrat_chain s)])"
    have uid: "unit_id ?t k = (if k = lit then clause_id s + 1 else unit_id s k)" for k
      using A(3) lr P(5) vlit_less [OF lit(1)] by (auto simp: unit_id_def nth_list_update vlit_eq)
    have "trail_known ?L ?t"
    proof (rule trail_known_transfer [OF P(2) N(4)])
      fix k assume k: "k \<in> set (trail ?t)" "lev ?t k = 0"
      show "(k \<in> set (trail s) \<and> lev s k = 0 \<and> unit_id ?t k = unit_id s k) \<or> (unit_id ?t k, [k]) \<in> ?L"
      proof (cases "k = lit")
        case True
        then show ?thesis using N(3) uid by simp
      next
        case False
        then have "k \<in> set (trail s)" using k(1) by simp
        then show ?thesis using old k(2) uid False by simp
      qed
    qed (simp add: cl)
    then show ?thesis
      using N(1,2) A P(4,5) lr unfolding proof_ok_def by (simp add: W(1))
  qed
qed

text \<open>A driven clause.\<close>

lemma drives_proof_ok:
  assumes K: "proof_ok K s" and lr: "opt_lrat opts" and d: "drives opts s uip lits chain t" and len: "length (vals t) = length (vals s)"
    and uip: "lit_in (length (vals s)) uip" and lits: "0 \<notin> set lits" "distinct lits"
    and chain: "\<exists>xs did D. chain = chain_ids xs @ [did] \<and> resolution_proof (known K (derived s)) lits xs (did, D)"
  shows "proof_ok K t"
proof -
  note P = proof_okD [OF K]
  note N = derive_next [OF P(1,3) lits(1) chain]
  let ?i = "clause_id s + 1"
  let ?L = "known K (derived s @ [(?i, lits, chain)])"
  have t: "derived t = derived s @ [(?i, lits, chain)]" "clause_id t = ?i" "set (trail t) \<subseteq> insert (- uip) (set (trail s))"
    "\<And>x. x \<in> set (trail t) \<Longrightarrow> x \<noteq> - uip \<Longrightarrow> lev t x = lev s x"
    using d unfolding drives_def by (blast, blast, auto)
  have ku: "lit_in (length (vals s)) (- uip)" using uip by (simp add: lit_in_def)
  have "trail_known ?L t \<and> length (unit_clauses_idx t) = 2 * length (vals s)"
  proof (cases "length lits = 1")
    case True
    then have u: "lits = [- uip]" "clauses t = clauses s" "unit_clauses_idx t = (unit_clauses_idx s)[vlit (- uip) := ?i]"
      using d lr unfolding drives_def by simp_all
    have uid: "unit_id t k = (if k = - uip then ?i else unit_id s k)" for k
      using u(3) P(5) vlit_less [OF ku] by (auto simp: unit_id_def nth_list_update vlit_eq)
    have "trail_known ?L t"
    proof (rule trail_known_transfer [OF P(2) N(4)])
      fix k assume k: "k \<in> set (trail t)" "lev t k = 0"
      show "(k \<in> set (trail s) \<and> lev s k = 0 \<and> unit_id t k = unit_id s k) \<or> (unit_id t k, [k]) \<in> ?L"
        using k t(3,4) uid N(3) u(1) by (cases "k = - uip") auto
    qed (simp add: lits_at_def u(2))
    then show ?thesis using u(3) P(5) by simp
  next
    case False
    then have u: "lev t uip \<noteq> 0" "clauses t = clauses s @ [\<lparr>sc_id = ?i, sc_lits = lits\<rparr>]" "unit_clauses_idx t = unit_clauses_idx s"
      using d unfolding drives_def by simp_all
    have "trail_known ?L t"
    proof (rule trail_known_transfer [OF P(2) N(4)])
      fix c assume "c < length (clauses t)"
      then show "(c < length (clauses s) \<and> mset (lits_at t c) = mset (lits_at s c) \<and> sc_id (clauses t ! c) = sc_id (clauses s ! c)) \<or>
          (in_known ?L (sc_id (clauses t ! c)) (lits_at t c) \<and> 0 \<le> sc_id (clauses t ! c))"
        using N(3) P(4) by (cases "c < length (clauses s)") (auto simp: lits_at_def u(2) nth_append in_known_def less_Suc_eq)
    next
      fix k assume k: "k \<in> set (trail t)" "lev t k = 0"
      then have "k \<noteq> - uip" using u(1) by auto
      then show "(k \<in> set (trail s) \<and> lev s k = 0 \<and> unit_id t k = unit_id s k) \<or> (unit_id t k, [k]) \<in> ?L"
        using k t(3,4) by (auto simp: unit_id_def u(3))
    qed
    then show ?thesis using u(3) P(5) by simp
  qed
  then show ?thesis using N(1,2) P(4) len unfolding proof_ok_def t(1,2) by simp
qed


section \<open>The invariant of the search\<close>

definition core_ok :: "search_opts \<Rightarrow> (int \<times> int list) set \<Rightarrow> search \<Rightarrow> bool" where
  "core_ok opts K s \<longleftrightarrow> trail_ok s \<and> idle s \<and> (opt_lrat opts \<longrightarrow> proof_ok K s)"

definition search_ok :: "search_opts \<Rightarrow> (int \<times> int list) set \<Rightarrow> search \<Rightarrow> bool" where
  "search_ok opts K s \<longleftrightarrow> core_ok opts K s \<and> (\<forall>c. conflict s = Some c \<longrightarrow> falsified s c)"

lemma core_okD:
  assumes "core_ok opts K s"
  shows "trail_ok s" "idle s" "opt_lrat opts \<Longrightarrow> proof_ok K s"
  using assms unfolding core_ok_def by blast+

lemma idle_transfer:
  assumes "idle s" "ftab t = ftab s" "length (vals t) = length (vals s)" "clause t = clause s" "analyzed t = analyzed s"
    "unit_analyzed t = unit_analyzed s" "levels t = levels s" "lrat_chain t = []" "unit_chain t = unit_chain s"
    "mini_chain t = mini_chain s" "minimize_chain t = minimize_chain s" "minimized t = minimized s"
  shows "idle t"
  using assms unfolding idle_def flags_clear_def by simp

lemma core_conflict: "core_ok opts K (s\<lparr>conflict := x\<rparr>) = core_ok opts K s"
proof -
  have "trail_ok (s\<lparr>conflict := x\<rparr>) = trail_ok s"
    using same_search_ok [of s "s\<lparr>conflict := x\<rparr>"] same_search_ok [of "s\<lparr>conflict := x\<rparr>" s] by (auto simp: same_search_def)
  moreover have "idle (s\<lparr>conflict := x\<rparr>) = idle s" by (simp add: idle_def flags_clear_def)
  moreover have "proof_ok K (s\<lparr>conflict := x\<rparr>) = proof_ok K s"
    by (simp add: proof_ok_def trail_known_def)
  ultimately show ?thesis by (simp add: core_ok_def)
qed

lemma core_backtrack:
  assumes "core_ok opts K s" "l \<le> level s"
  shows "core_ok opts K (backtrack l s)"
proof -
  note C = core_okD [OF assms(1)]
  note B = backtrack_effect [OF C(1) assms(2)]
  have "idle (backtrack l s)" using idleD(6) [OF C(2)] by (intro idle_transfer [OF C(2)]) (simp_all add: B(5))
  moreover have "proof_ok K (backtrack l s)" if "opt_lrat opts"
    by (rule proof_ok_transfer [OF C(3) [OF that]]) (simp_all add: B(1,4,5,7) lits_at_def)
  ultimately show ?thesis using backtrack_ok [OF C(1) assms(2)] by (simp add: core_ok_def)
qed

lemma core_open_level:
  assumes "core_ok opts K s"
  shows "core_ok opts K (new_trail_level lit s)"
proof -
  note C = core_okD [OF assms]
  have "idle (new_trail_level lit s)"
    using idleD(6) [OF C(2)] by (intro idle_transfer [OF C(2)]) (simp_all add: new_trail_level_def)
  moreover have "proof_ok K (new_trail_level lit s)" if "opt_lrat opts"
    by (rule proof_ok_transfer [OF C(3) [OF that]]) (simp_all add: new_trail_level_def)
  ultimately show ?thesis using new_trail_level_ok [OF C(1)] by (simp add: core_ok_def)
qed

lemma core_assign:
  assumes c: "core_ok opts K s" and lit: "lit_in (length (vals s)) lit" "val s lit = 0"
    and t: "trail_ok (search_assign opts lit r s)"
    and chain: "opt_lrat opts \<Longrightarrow> vlevel (assigned_var s lit r) = 0 \<Longrightarrow>
      \<exists>xs did D. lrat_chain s = chain_ids xs @ [did] \<and> resolution_proof (known K (derived s)) [lit] xs (did, D)"
  shows "core_ok opts K (search_assign opts lit r s)"
proof -
  note C = core_okD [OF c]
  note W = puts_values [OF search_assign_puts [of s lit r opts] trail_okD(1) [OF C(1)] lit]
  have "idle (search_assign opts lit r s)"
    by (rule idle_transfer [OF C(2)]) (simp_all add: W(1))
  moreover have "proof_ok K (search_assign opts lit r s)" if "opt_lrat opts"
    using assign_proof_ok [OF C(1) lit C(3) [OF that] that chain [OF that]] .
  ultimately show ?thesis using t by (simp add: core_ok_def)
qed

lemma core_decide:
  assumes c: "core_ok opts K s" and lit: "lit_in (length (vals s)) lit" "val s lit = 0"
  shows "core_ok opts K (search_assume_decision opts lit s)"
  unfolding search_assume_decision_def
proof (rule core_assign [OF core_open_level [OF c]])
  show "lit_in (length (vals (new_trail_level lit s))) lit" "val (new_trail_level lit s) lit = 0"
    using lit by (simp_all add: new_trail_level_def)
  show "trail_ok (search_assign opts lit Decision_reason (new_trail_level lit s))"
    using assume_decision_ok [OF core_okD(1) [OF c] lit] by (simp add: search_assume_decision_def)
qed (simp add: assigned_var_def new_trail_level_def)

lemma propagate_chain:
  assumes ok: "trail_ok s" and c: "c < length (clauses s)" and o: "others_false s lit c"
    and lr: "opt_lrat opts" "lrat_chain s = []" "assignment_level s lit c = 0"
  shows "lrat_chain (build_chain_for_units opts lit c False s) =
      map (\<lambda>l. unit_id s (- l)) (filter (\<lambda>l. l \<notin> set [lit]) (lits_at s c)) @ [sc_id (clauses s ! c)]"
proof -
  have "val s l = -1" if "l \<in> set (lits_at s c)" "l \<noteq> lit" for l
  proof -
    note V = trail_okD(1) [OF ok]
    have t: "- l \<in> set (trail s)" by (rule others_falseD [OF ok c o that])
    have "l \<noteq> 0" using values_okD(4) [OF V t] by (auto simp: lit_in_def)
    then show ?thesis using values_okD(5) [OF V t] by simp
  qed
  then have "filter (\<lambda>l. l \<noteq> lit \<and> val s l \<noteq> 0) (lits_at s c) = filter (\<lambda>l. l \<notin> set [lit]) (lits_at s c)"
    and "map (\<lambda>l. unit_id s (val s l * l)) (filter (\<lambda>l. l \<notin> set [lit]) (lits_at s c)) =
      map (\<lambda>l. unit_id s (- l)) (filter (\<lambda>l. l \<notin> set [lit]) (lits_at s c))"
    by (auto intro!: filter_cong)
  then show ?thesis using lr by (simp add: build_chain_for_units_def)
qed

lemma core_propagate:
  assumes cr: "core_ok opts K s" and c: "c < length (clauses s)" "lit \<in> set (lits_at s c)" "others_false s lit c" "val s lit = 0"
  shows "core_ok opts K (propagate_unit opts lit c s)"
proof -
  note C = core_okD [OF cr]
  note T = trail_okD [OF C(1)]
  let ?s = "build_chain_for_units opts lit c False s"
  have bs: "?s = s\<lparr>lrat_chain := lrat_chain ?s\<rparr>" by (simp add: build_chain_for_units_def)
  then obtain ch where s: "?s = s\<lparr>lrat_chain := ch\<rparr>" by blast
  have ss: "same_search s ?s" unfolding s by simp
  have inr: "lit_in (length (vals s)) lit" by (rule clauses_okD(3) [OF T(4) c(1,2)])
  let ?t = "search_assign opts lit (Reason c) ?s"
  have ok: "trail_ok ?t"
  proof (rule assign_reason_ok [OF same_search_ok [OF C(1) ss]])
    show "c < length (clauses ?s)" "lit \<in> set (lits_at ?s c)" "others_false ?s lit c" "val ?s lit = 0"
      using c unfolding s by (simp_all add: others_false_def)
  qed
  have "idle ?t"
    using puts_values(1) [OF search_assign_puts [of ?s lit "Reason c" opts] trail_okD(1) [OF same_search_ok [OF C(1) ss]]] inr c(4)
    by (intro idle_transfer [OF C(2)]) (simp_all add: s)
  moreover have "proof_ok K ?t" if lr: "opt_lrat opts"
  proof (rule assign_proof_ok [OF same_search_ok [OF C(1) ss] _ _ _ lr])
    show "lit_in (length (vals ?s)) lit" "val ?s lit = 0" using inr c(4) by (simp_all add: s)
    show "proof_ok K ?s" using C(3) [OF lr] by (rule proof_ok_transfer) (simp_all add: s)
    assume "vlevel (assigned_var ?s lit (Reason c)) = 0"
    moreover have "assignment_level ?s lit c = assignment_level s lit c"
      by (simp add: s assignment_level_def cong: if_cong)
    ultimately have l0: "assignment_level s lit c = 0" by (simp add: assigned_var_def Let_def)
    note ch = propagate_chain [OF C(1) c(1,3) lr idleD(6) [OF C(2)] l0]
    have "lit \<notin> set (trail s)" using val_true_iff(3) [OF T(1) inr] c(4) by simp
    moreover have "- lit \<noteq> lit" using inr by (auto simp: lit_in_def)
    moreover have "- x \<in> set (trail s) \<and> lev s x = 0" if "x \<in> set (lits_at s c)" "x \<noteq> lit" for x
      using others_falseD [OF C(1) c(1,3) that] assignment_level_max [of s c lit] that l0 by fastforce
    ultimately have "\<exists>xs did D. map (\<lambda>l. unit_id s (- l)) (filter (\<lambda>l. l \<notin> set [lit]) (lits_at s c)) @ [sc_id (clauses s ! c)] =
        chain_ids xs @ [did] \<and> resolution_proof (known K (derived s)) [lit] xs (did, D)"
      using inr by (intro units_resolution [OF C(1) proof_okD(2) [OF C(3) [OF lr]] c(1)]) auto
    then show "\<exists>xs did D. lrat_chain ?s = chain_ids xs @ [did] \<and> resolution_proof (known K (derived ?s)) [lit] xs (did, D)"
      using ch by (simp add: s)
  qed
  ultimately show ?thesis using ok by (simp add: core_ok_def propagate_unit_def)
qed


section \<open>The fixed literals stay\<close>

lemma assignment_level_cong:
  "(\<And>x. lev t x = lev s x) \<Longrightarrow> lits_at t c = lits_at s c \<Longrightarrow> assignment_level t lit c = assignment_level s lit c"
  by (simp add: assignment_level_def cong: if_cong)

lemma propagate_unit_puts:
  "puts_literal s x (assigned_var s x (Reason c)) (propagate_unit opts x c s)"
proof -
  let ?s = "build_chain_for_units opts x c False s"
  have b: "\<exists>ch. ?s = s\<lparr>lrat_chain := ch\<rparr>"
    by (auto simp: build_chain_for_units_def intro: exI [of _ "lrat_chain s"])
  then obtain ch where ch: "?s = s\<lparr>lrat_chain := ch\<rparr>" by blast
  have "assigned_var ?s x (Reason c) = assigned_var s x (Reason c)"
    unfolding ch by (simp add: assigned_var_def assignment_level_cong [of "s\<lparr>lrat_chain := ch\<rparr>" s])
  then show ?thesis
    using search_assign_puts [of ?s x "Reason c" opts] unfolding propagate_unit_def puts_literal_def ch
    by (simp add: set_val_def)
qed

definition keeps_units :: "search \<Rightarrow> search \<Rightarrow> bool" where
  "keeps_units s t \<longleftrightarrow> (\<forall>x \<in> set (trail s). lev s x = 0 \<longrightarrow> x \<in> set (trail t) \<and> lev t x = 0)"

lemma keeps_units_trans: "keeps_units s t \<Longrightarrow> keeps_units t u \<Longrightarrow> keeps_units s u"
  by (simp add: keeps_units_def)

lemma keeps_units_same: "trail t = trail s \<Longrightarrow> vtab t = vtab s \<Longrightarrow> keeps_units s t"
  by (simp add: keeps_units_def var_def)

lemma puts_keeps_units:
  assumes "puts_literal s lit v t" "values_ok s" "lit_in (length (vals s)) lit" "val s lit = 0"
  shows "keeps_units s t"
proof -
  note W = puts_values [OF assms]
  have "vidx x \<noteq> vidx lit" if "x \<in> set (trail s)" for x using that W(5,6) by (auto simp: vidx_eq)
  then show ?thesis using putsD(1) [OF assms(1)] by (simp add: keeps_units_def W(3))
qed

lemma backtrack_keeps_units: "trail_ok s \<Longrightarrow> l \<le> level s \<Longrightarrow> keeps_units s (backtrack l s)"
  using backtrack_effect(1,7) by (simp add: keeps_units_def)

lemma drives_keeps_units:
  assumes "values_ok s" "drives opts s uip lits chain t" "uip \<in> set (trail s)"
  shows "keeps_units s t"
  unfolding keeps_units_def
proof (intro ballI impI)
  fix x assume x: "x \<in> set (trail s)" "lev s x = 0"
  obtain l where "trail t = filter (\<lambda>x. lev s x \<le> l) (trail s) @ [- uip]" using assms(2) unfolding drives_def by blast
  then have xt: "x \<in> set (trail t)" using x by simp
  have "x \<noteq> - uip" using trail_consistent [OF assms(1,3)] x(1) by blast
  then have "lev t x = lev s x" using assms(2) xt unfolding drives_def by blast
  then show "x \<in> set (trail t) \<and> lev t x = 0" using x(2) xt by simp
qed


section \<open>Analysis keeps the invariant\<close>

lemma core_empty:
  assumes cr: "core_ok opts K s" and c: "c < length (clauses s)" and f: "\<forall>x \<in> set (lits_at s c). - x \<in> set (trail s) \<and> lev s x = 0"
  shows "core_ok opts K (learn_empty_clause opts c s)"
proof -
  note C = core_okD [OF cr]
  let ?t = "learn_empty_clause opts c s"
  let ?ch = "if opt_lrat opts then map (\<lambda>lit. unit_id s (- lit)) (lits_at s c) @ [sc_id (clauses s ! c)] else []"
  have t: "?t = s\<lparr>clause_id := clause_id s + 1, derived := derived s @ [(clause_id s + 1, [], ?ch)], unsat := True, lrat_chain := []\<rparr>"
    using idleD(6) [OF C(2)] by (simp add: learn_empty_clause_def Let_def)
  have fields: "trail ?t = trail s" "vals ?t = vals s" "vtab ?t = vtab s" "level ?t = level s" "control ?t = control s" "clauses ?t = clauses s"
    "var ?t k = var s k" "val ?t k = val s k" "lits_at ?t i = lits_at s i" "unit_id ?t k = unit_id s k" "ftab ?t = ftab s" for k i
    by (simp_all add: t)
  have "trail_ok ?t"
    using trail_okD [OF C(1)]
    unfolding trail_ok_def values_ok_def levels_ok_def reason_ok_def clauses_ok_def fields by blast
  moreover have "idle ?t" by (rule idle_transfer [OF C(2)]) (simp_all add: t)
  moreover have "proof_ok K ?t" if lr: "opt_lrat opts"
  proof -
    note P = proof_okD [OF C(3) [OF lr]]
    have "\<exists>xs did D. map (\<lambda>l. unit_id s (- l)) (filter (\<lambda>l. l \<notin> set []) (lits_at s c)) @ [sc_id (clauses s ! c)] = chain_ids xs @ [did] \<and>
        resolution_proof (known K (derived s)) [] xs (did, D)"
      using f by (intro units_resolution [OF C(1) P(2) c]) auto
    then have "\<exists>xs did D. ?ch = chain_ids xs @ [did] \<and> resolution_proof (known K (derived s)) [] xs (did, D)"
      using lr by simp
    note N = derive_next [OF P(1,3) _ this]
    have "trail_known (known K (derived s @ [(clause_id s + 1, [], ?ch)])) ?t"
      by (rule trail_known_transfer [OF P(2) N(4)]) (simp_all add: fields)
    then show ?thesis using N(1,2) P(4,5) unfolding proof_ok_def by (simp add: t)
  qed
  ultimately show ?thesis by (simp add: core_ok_def)
qed

lemma core_analyze_level:
  assumes cr: "core_ok opts K s" and lv: "level s \<noteq> 0" and c: "falsified s c" and o: "lit \<in> set (lits_at s c)" "lev s lit = level s"
  shows "\<exists>t. analyze_level opts assumed stays c s = Some t \<and> core_ok opts K t \<and> conflict t = None \<and>
    length (vals t) = length (vals s) \<and> unsat t = unsat s \<and> (\<exists>cs. clauses t = clauses s @ cs) \<and> keeps_units s t"
proof -
  note C = core_okD [OF cr]
  obtain t rs uip u ms us lits where t: "analyze_level opts assumed stays c s = Some t" "analyzed_to opts s c rs uip u ms us lits t"
    using analyze_level_spec [OF C(1,2) lv c o] by blast
  then obtain w where a: "uip_found opts s c rs uip w" "learned opts s c rs uip u ms us" "mset lits = mset (clause u)"
    "drives opts s uip lits (lrat_chain (reverse_chain opts u)) t" "trail_ok t" "idle t" "conflict t = None"
    "length (vals t) = length (vals s)" "unsat t = unsat s"
    unfolding analyzed_to_def by blast
  have cl: "c < length (clauses s)" using c by (simp add: falsified_def)
  have uip: "lit_in (length (vals s)) uip" using values_okD(4) [OF trail_okD(1) [OF C(1)] uip_foundD(11) [OF a(1)]] .
  have sl: "set lits = set (clause u)" using a(3) by (rule mset_eq_setD)
  have d: "distinct lits" using a(2,3) mset_eq_imp_distinct_iff [OF a(3)] by (simp add: learned_def)
  have "x \<noteq> 0" if "x \<in> set lits" for x
  proof -
    have "x \<in> reached s c rs" using that sl a(2) uip_clause(4) [OF C(1) a(1)] by (auto simp: learned_def first_lits_def)
    then have "- x \<in> set (trail s)" using uip_foundD(2) [OF a(1)] by blast
    then show ?thesis using values_okD(4) [OF trail_okD(1) [OF C(1)], of "- x"] by (auto simp: lit_in_def)
  qed
  then have "0 \<notin> set lits" by blast
  moreover have "\<exists>xs did D. lrat_chain (reverse_chain opts u) = chain_ids xs @ [did] \<and>
      resolution_proof (known K (derived s)) lits xs (did, D)" if lr: "opt_lrat opts"
    using learned_resolution [OF C(1) proof_okD(2) [OF C(3) [OF lr]] lr lv cl a(1,2,3)] .
  ultimately have "proof_ok K t" if "opt_lrat opts"
    using drives_proof_ok [OF C(3) [OF that] that a(4,8) uip _ d] that by blast
  moreover have "\<exists>cs. clauses t = clauses s @ cs" using a(4) by (auto simp: drives_def split: if_splits)
  moreover have "keeps_units s t"
    by (rule drives_keeps_units [OF trail_okD(1) [OF C(1)] a(4) uip_foundD(11) [OF a(1)]])
  ultimately show ?thesis using t(1) a(5-9) by (auto simp: core_ok_def)
qed

text \<open>The clauses stay, in some order of their literals, and new ones come behind them.\<close>

definition keeps_clauses :: "search \<Rightarrow> search \<Rightarrow> bool" where
  "keeps_clauses s t \<longleftrightarrow> length (clauses s) \<le> length (clauses t) \<and>
     (\<forall>d < length (clauses s). mset (lits_at t d) = mset (lits_at s d))"

text \<open>The empty clause is derived when the search gives up.\<close>

definition refuted :: "search \<Rightarrow> bool" where
  "refuted s \<longleftrightarrow> (\<exists>chain. (clause_id s, [], chain) \<in> set (derived s))"

lemma analyze_ok:
  assumes so: "search_ok opts K s" and c: "conflict s = Some c"
  shows "\<exists>t. analyze opts assumed stays s = Some t \<and> search_ok opts K t \<and> length (vals t) = length (vals s) \<and> keeps_clauses s t \<and> keeps_units s t \<and>
    (if unsat t = unsat s then conflict t = None \<or> unsat t else refuted t)"
proof -
  have cr: "core_ok opts K s" and f: "falsified s c" using so c unfolding search_ok_def by blast+
  note C = core_okD [OF cr]
  obtain l forced u where u: "find_conflict_level c s = ((l, forced), u)" "trail_ok u" "falsified u c"
    "u = s\<lparr>clauses := clauses u\<rparr>" "length (clauses u) = length (clauses s)"
    "\<And>d. mset (lits_at u d) = mset (lits_at s d) \<and> sc_id (clauses u ! d) = sc_id (clauses s ! d)"
    "l \<le> level s" "\<forall>lit \<in> set (lits_at s c). lev s lit \<le> l"
    "forced = 0 \<Longrightarrow> 0 < l \<Longrightarrow> 2 \<le> on_level s l (lits_at s c)"
    "forced \<noteq> 0 \<Longrightarrow> 0 < l \<and> forced \<in> set (lits_at s c) \<and> lev s forced = l \<and>
      (\<forall>lit \<in> set (lits_at s c). lit \<noteq> forced \<longrightarrow> lev s lit < l)"
    by (rule find_conflict_level_spec [OF C(1) f]) blast
  obtain cs where us: "u = s\<lparr>clauses := cs\<rparr>" using u(4) by blast
  have "idle u" using idleD(6) [OF C(2)] unfolding us by (intro idle_transfer [OF C(2)]) simp_all
  moreover have "proof_ok K u" if "opt_lrat opts"
  proof (rule proof_ok_transfer [OF C(3) [OF that] _ _ _ _ u(5)])
    show "mset (lits_at u d) = mset (lits_at s d) \<and> sc_id (clauses u ! d) = sc_id (clauses s ! d)" for d by (rule u(6))
  qed (simp_all add: us)
  ultimately have cu: "core_ok opts K u" using u(2) by (simp add: core_ok_def)
  have lu: "lev u x = lev s x" "level u = level s" for x by (simp_all add: us)
  have sl: "set (lits_at u c) = set (lits_at s c)" using u(6) [of c] by (intro mset_eq_setD) blast
  have keep: "keeps_clauses s t" if "clauses t = clauses u @ cs" for t cs
    using that u(5,6) by (auto simp: keeps_clauses_def lits_at_def nth_append)
  have ku: "keeps_units s t" if "keeps_units u t" for t
    by (rule keeps_units_trans [OF keeps_units_same that]) (simp_all add: us)
  have cl: "c < length (clauses u)" "\<And>x. x \<in> set (lits_at u c) \<Longrightarrow> - x \<in> set (trail u)" using u(3) by (auto simp: falsified_def)
  show ?thesis
  proof (cases "forced = 0")
    case False
    note F = u(10) [OF False]
    define k where "k = l - 1"
    have kl: "x \<le> k \<longleftrightarrow> x < l" for x using F by (auto simp: k_def)
    let ?b = "backtrack k u"
    have le: "k \<le> level u" using u(7) lu(2) by (simp add: k_def)
    note B = backtrack_effect [OF u(2) le] and cb = core_backtrack [OF cu le]
    have fu: "forced \<in> set (lits_at ?b c)" "c < length (clauses ?b)" "lits_at ?b c = lits_at u c"
      using F sl cl(1) by (simp_all add: lits_at_def B(4))
    have "- forced \<in> set (trail u)" using cl(2) F sl by simp
    moreover have "k < lev u forced" using F lu(1) kl [of l] by simp
    ultimately have v0: "val ?b forced = 0" using B(9) [OF False] by simp
    have "others_false ?b forced c"
      unfolding others_false_def
    proof (intro ballI impI)
      fix x assume x: "x \<in> set (lits_at ?b c)" "x \<noteq> forced"
      then have "- x \<in> set (trail u)" "lev u x \<le> k" using cl(2) fu(3) F sl lu kl by simp_all
      then have "- x \<in> set (trail ?b)" by (simp add: B(1))
      then show "val ?b x < 0"
        using val_true_iff(2) [OF trail_okD(1) [OF core_okD(1) [OF cb]] clauses_okD(3) [OF trail_okD(4) [OF core_okD(1) [OF cb]] fu(2) x(1)]]
        by blast
    qed
    note vo = this
    have fi: "lit_in (length (vals ?b)) forced"
      by (rule clauses_okD(3) [OF trail_okD(4) [OF core_okD(1) [OF cb]] fu(2,1)])
    have "keeps_units u (propagate_unit opts forced c ?b)"
      by (rule keeps_units_trans [OF backtrack_keeps_units [OF u(2) le] puts_keeps_units
          [OF propagate_unit_puts trail_okD(1) [OF core_okD(1) [OF cb]] fi v0]])
    then have "keeps_units u ((propagate_unit opts forced c ?b)\<lparr>conflict := None\<rparr>)"
      by (rule keeps_units_trans [OF _ keeps_units_same]) simp_all
    note kp = ku [OF this]
    have "core_ok opts K (propagate_unit opts forced c ?b)"
      using core_propagate [OF cb fu(2,1)] v0 vo by simp
    then have "search_ok opts K ((propagate_unit opts forced c ?b)\<lparr>conflict := None\<rparr>)"
      by (simp add: search_ok_def core_conflict)
    moreover have "analyze opts assumed stays s = Some ((propagate_unit opts forced c ?b)\<lparr>conflict := None\<rparr>)"
      using c u(1) False by (simp add: analyze_def propagate_unit_def Let_def k_def)
    moreover have "length (vals (propagate_unit opts forced c ?b)) = length (vals s)" "unsat (propagate_unit opts forced c ?b) = unsat s"
      by (simp_all add: propagate_unit_def search_assign_def build_chain_for_units_def learn_unit_clause_def set_val_def Let_def B(5))
        (simp_all add: us)
    moreover have "keeps_clauses s ((propagate_unit opts forced c ?b)\<lparr>conflict := None\<rparr>)"
      by (rule keep [of _ "[]"]) (simp add: propagate_unit_def search_assign_def build_chain_for_units_def learn_unit_clause_def
          set_val_def Let_def B(4))
    ultimately show ?thesis using kp by simp
  next
    case True
    let ?b = "backtrack l u"
    have le: "l \<le> level u" using u(7) lu(2) by simp
    note B = backtrack_effect [OF u(2) le] and cb = core_backtrack [OF cu le]
    have lb: "lits_at ?b c = lits_at u c" by (simp add: lits_at_def B(4))
    have fb: "falsified ?b c" using falsified_backtrack [OF u(2,3) le] u(8) sl lu by simp
    show ?thesis
    proof (cases "l = 0")
      case zero: True
      have "lev ?b x = 0" if "x \<in> set (lits_at ?b c)" for x
        using that u(8) sl lb B(7) [of x] lu(1) [of x] zero by simp
      then have "core_ok opts K (learn_empty_clause opts c ?b)"
        using fb by (intro core_empty [OF cb]) (auto simp: falsified_def)
      moreover have "analyze opts assumed stays s = Some (learn_empty_clause opts c ?b)"
        using c u(1) True zero B(2) by (simp add: analyze_def)
      moreover have "unsat (learn_empty_clause opts c ?b)" "falsified (learn_empty_clause opts c ?b) d = falsified ?b d"
        "conflict (learn_empty_clause opts c ?b) = Some c" for d
        using c by (simp_all add: learn_empty_clause_def Let_def falsified_def us)
      moreover have "length (vals (learn_empty_clause opts c ?b)) = length (vals s)" "refuted (learn_empty_clause opts c ?b)"
        using B(5) by (simp_all add: learn_empty_clause_def Let_def refuted_def us) blast
      moreover have "keeps_clauses s (learn_empty_clause opts c ?b)"
        by (rule keep [of _ "[]"]) (simp add: learn_empty_clause_def Let_def B(4))
      moreover have "keeps_units s (learn_empty_clause opts c ?b)"
        by (rule ku [OF keeps_units_trans [OF backtrack_keeps_units [OF u(2) le] keeps_units_same]])
          (simp_all add: learn_empty_clause_def Let_def)
      ultimately show ?thesis using fb by (auto simp: search_ok_def)
    next
      case pos: False
      then have "on_level s l (lits_at s c) \<noteq> 0" using u(9) True by simp
      then obtain lit where lit: "lit \<in> set (lits_at s c)" "lev s lit = l" by (auto simp: on_level_0)
      have lv: "level ?b \<noteq> 0" using pos B(2) by simp
      have o: "lit \<in> set (lits_at ?b c)" "lev ?b lit = level ?b" using lit sl lb B(2,7) lu by simp_all
      obtain t where t: "analyze_level opts assumed stays c ?b = Some t" "core_ok opts K t" "conflict t = None"
        "length (vals t) = length (vals ?b)" "unsat t = unsat ?b" "\<exists>cs. clauses t = clauses ?b @ cs" "keeps_units ?b t"
        using core_analyze_level [OF cb lv fb o] by blast
      then have "analyze opts assumed stays s = Some t" using c u(1) True lv by (simp add: analyze_def Let_def)
      moreover have "length (vals t) = length (vals s)" "unsat t = unsat s" using t(4,5) B(5) by (simp_all add: us)
      moreover have "keeps_clauses s t" using t(6) B(4) keep by auto
      moreover have "keeps_units s t" by (rule ku [OF keeps_units_trans [OF backtrack_keeps_units [OF u(2) le] t(7)]])
      ultimately show ?thesis using t(2,3) by (simp add: search_ok_def)
    qed
  qed
qed



end
