(* ===== verification/Search_Run.thy ===== *)
theory Search_Run
  imports Search_Proof
begin

text \<open>
  Runs of the search of CaDiCaL: every step that is enabled succeeds and keeps the invariant of
  the trail, the analysis and the proof, from the state before the search on.
\<close>

section \<open>The start\<close>

text \<open>What the formula has to satisfy.\<close>

definition formula_ok :: "nat \<Rightarrow> (int \<times> int list) list \<Rightarrow> bool" where
  "formula_ok n fs \<longleftrightarrow> n < 2 ^ 31 \<and> distinct (map fst fs) \<and>
     (\<forall>(cid, c) \<in> set fs. 0 \<le> cid \<and> distinct c \<and> (\<forall>lit \<in> set c. lit_in (n + 1) lit))"

lemma id_bound:
  fixes m :: int
  shows "m \<le> fold (max \<circ> fst) fs m \<and> (\<forall>f \<in> set fs. fst f \<le> fold (max \<circ> fst) fs m)"
proof (induction fs arbitrary: m)
  case (Cons f fs)
  have "max (fst f) m \<le> fold (max \<circ> fst) fs (max (fst f) m) \<and> (\<forall>g \<in> set fs. fst g \<le> fold (max \<circ> fst) fs (max (fst f) m))"
    by (rule Cons)
  then show ?case by (auto simp: comp_def)
qed simp

lemma init_trail_ok:
  assumes "formula_ok n fs"
  shows "trail_ok (init_search n fs)" "idle (init_search n fs)"
proof -
  let ?s = "init_search n fs"
  have v: "val ?s k = 0" if "lit_in (n + 1) k" for k
    using vidx_less [OF that] by (simp add: val_def init_search_def del: replicate_Suc)
  have "values_ok ?s" using v assms unfolding values_ok_def formula_ok_def by (simp add: init_search_def)
  moreover have "levels_ok ?s" by (simp add: levels_ok_def init_search_def)
  moreover have "clauses_ok ?s"
    unfolding clauses_ok_def
  proof (intro allI impI)
    fix c assume c: "c < length (clauses ?s)"
    let ?fs = "filter (\<lambda>(cid, c). 2 \<le> length c) fs"
    have "?fs ! c \<in> set ?fs" using c by (intro nth_mem) (simp add: init_search_def)
    then have f: "?fs ! c \<in> set fs" "2 \<le> length (snd (?fs ! c))" by auto
    have "lits_at ?s c = snd (?fs ! c)" using c by (simp add: lits_at_def init_search_def split_beta)
    then show "2 \<le> length (lits_at ?s c) \<and> distinct (lits_at ?s c) \<and> (\<forall>lit \<in> set (lits_at ?s c). lit_in (length (vals ?s)) lit)"
      using f assms unfolding formula_ok_def by (auto simp: init_search_def)
  qed
  ultimately show "trail_ok ?s" by (simp add: trail_ok_def init_search_def)
  show "idle ?s" by (simp add: idle_def flags_clear_def init_search_def del: replicate_Suc)
qed


lemma init_search_ok:
  assumes "formula_ok n fs"
  shows "search_ok opts (set fs) (init_search n fs)"
proof -
  let ?s = "init_search n fs" and ?fs = "filter (\<lambda>(cid, c). 2 \<le> length c) fs"
  have d: "derived ?s = []" "clause_id ?s = fold (max \<circ> fst) fs 0" "trail ?s = []" "length (unit_clauses_idx ?s) = 2 * length (vals ?s)"
    by (simp_all add: init_search_def del: replicate_Suc)
  have "in_known (set fs) (sc_id (clauses ?s ! c)) (lits_at ?s c) \<and> 0 \<le> sc_id (clauses ?s ! c)" if c: "c < length (clauses ?s)" for c
  proof -
    have "?fs ! c \<in> set ?fs" using c by (intro nth_mem) (simp add: init_search_def)
    then have f: "?fs ! c \<in> set fs" by auto
    have "lits_at ?s c = snd (?fs ! c)" "sc_id (clauses ?s ! c) = fst (?fs ! c)"
      using c by (simp_all add: lits_at_def init_search_def split_beta)
    then show ?thesis using f assms unfolding formula_ok_def in_known_def by (auto intro!: exI [of _ "snd (?fs ! c)"])
  qed
  then have "trail_known (set fs) ?s" using d by (simp add: trail_known_def)
  moreover have "\<forall>k \<in> set fs. fst k \<le> clause_id ?s" "0 \<le> clause_id ?s" using id_bound [of 0 fs] d(2) by simp_all
  ultimately have "proof_ok (set fs) ?s" using d unfolding proof_ok_def by simp
  then show ?thesis using init_trail_ok [OF assms] unfolding search_ok_def core_ok_def by (simp add: init_search_def)
qed

lemma original_unit_puts:
  "puts_literal s lit \<lparr>vlevel = 0, vtrail = length (trail s), reason = None\<rparr> (assign_original_unit opts cid lit s)"
  by (simp add: puts_literal_def assign_original_unit_def set_val_def Let_def)

lemma core_original_unit:
  assumes c: "core_ok opts K s" and lit: "lit_in (length (vals s)) lit" "val s lit = 0" and k: "(cid, [lit]) \<in> K"
  shows "core_ok opts K (assign_original_unit opts cid lit s)"
proof -
  let ?t = "assign_original_unit opts cid lit s"
  note C = core_okD [OF c]
  note p = putsD [OF original_unit_puts [of s lit opts cid]]
  note W = puts_values [OF original_unit_puts [of s lit opts cid] trail_okD(1) [OF C(1)] lit]
  have f: "derived ?t = derived s" "clause_id ?t = clause_id s" "ftab ?t = ftab s" "clause ?t = clause s" "analyzed ?t = analyzed s"
    "unit_analyzed ?t = unit_analyzed s" "levels ?t = levels s" "lrat_chain ?t = lrat_chain s" "unit_chain ?t = unit_chain s"
    "mini_chain ?t = mini_chain s" "minimize_chain ?t = minimize_chain s" "minimized ?t = minimized s" "conflict ?t = conflict s"
    "unit_clauses_idx ?t = (if opt_lrat opts then (unit_clauses_idx s)[vlit lit := cid] else unit_clauses_idx s)"
    by (simp_all add: assign_original_unit_def set_val_def Let_def)
  have "trail_ok ?t"
  proof (rule puts_ok [OF original_unit_puts C(1) lit])
    show "reason_ok ?t (length (trail s))" unfolding reason_ok_def p W(3) by simp
  qed simp_all
  moreover have "idle ?t" using idleD(6) [OF C(2)] by (intro idle_transfer [OF C(2)]) (simp_all add: f W(1))
  moreover have "proof_ok K ?t" if lr: "opt_lrat opts"
  proof -
    note P = proof_okD [OF C(3) [OF lr]]
    have kk: "(cid, [lit]) \<in> known K (derived s)" using k by (simp add: known_def)
    have uid: "unit_id ?t x = (if x = lit then cid else unit_id s x)" for x
      using f(14) lr P(5) vlit_less [OF lit(1)] by (auto simp: unit_id_def nth_list_update vlit_eq)
    have old: "lev ?t x = lev s x" if "x \<in> set (trail s)" for x
    proof -
      have "vidx x \<noteq> vidx lit" using that W(5,6) by (auto simp: vidx_eq)
      then show ?thesis by (simp add: W(3))
    qed
    have "trail_known (known K (derived s)) ?t"
    proof (rule trail_known_transfer [OF P(2) subset_refl])
      fix x assume x: "x \<in> set (trail ?t)" "lev ?t x = 0"
      show "(x \<in> set (trail s) \<and> lev s x = 0 \<and> unit_id ?t x = unit_id s x) \<or> (unit_id ?t x, [x]) \<in> known K (derived s)"
      proof (cases "x = lit")
        case True
        then show ?thesis using kk uid by simp
      next
        case False
        then have "x \<in> set (trail s)" using x(1) p(1) by simp
        then show ?thesis using old x(2) uid False by simp
      qed
    qed (simp add: lits_at_def p(6))
    then show ?thesis using P lr unfolding proof_ok_def f(1,2,14) by (simp add: W(1))
  qed
  ultimately show ?thesis by (simp add: core_ok_def)
qed

lemma core_reorder:
  assumes c: "core_ok opts K s" and len: "length cs = length (clauses s)"
    and same: "\<And>d. d < length cs \<Longrightarrow> mset (sc_lits (cs ! d)) = mset (lits_at s d) \<and> sc_id (cs ! d) = sc_id (clauses s ! d)"
  shows "core_ok opts K (s\<lparr>clauses := cs\<rparr>)"
proof -
  note C = core_okD [OF c]
  have "trail_ok (s\<lparr>clauses := cs\<rparr>)" using same len by (intro reordered_ok [OF C(1)]) simp_all
  moreover have "idle (s\<lparr>clauses := cs\<rparr>)" using idleD(6) [OF C(2)] by (intro idle_transfer [OF C(2)]) simp_all
  moreover have "proof_ok K (s\<lparr>clauses := cs\<rparr>)" if "opt_lrat opts"
    using same len by (intro proof_ok_transfer [OF C(3) [OF that]]) (simp_all add: lits_at_def)
  ultimately show ?thesis by (simp add: core_ok_def)
qed

section \<open>Steps\<close>

text \<open>The invariant of a run: besides that of the search, what it means that the formula is unsatisfiable.\<close>

definition step_ok :: "search_opts \<Rightarrow> nat \<Rightarrow> (int \<times> int list) list \<Rightarrow> search \<Rightarrow> bool" where
  "step_ok opts n fs s \<longleftrightarrow> search_ok opts (set fs) s \<and> length (vals s) = n + 1 \<and> (unsat s \<longrightarrow> refuted s)"

lemma perform_ok:
  assumes so: "step_ok opts n fs s" and f: "formula_ok n fs" and e: "enabled fs e s"
  shows "\<exists>t. perform opts e s = Some t \<and> step_ok opts n fs t"
proof -
  have c: "core_ok opts (set fs) s" and len: "length (vals s) = n + 1" using so by (simp_all add: step_ok_def search_ok_def)
  note C = core_okD [OF c]
  have us: "\<not> unsat s" using e by (simp add: enabled_def)
  have no: ?thesis if "perform opts e s = Some t" "core_ok opts (set fs) t" "conflict t = conflict s" "conflict s = None"
    "length (vals t) = length (vals s)" "unsat t = unsat s" for t
    using that us len by (simp add: step_ok_def search_ok_def)
  show ?thesis
  proof (cases e)
    case (Original_unit cid lit)
    then have l: "(cid, [lit]) \<in> set fs" "val s lit = 0" "conflict s = None" using e by (simp_all add: enabled_def)
    have "lit_in (length (vals s)) lit" using f len l(1) by (auto simp: formula_ok_def)
    then have "core_ok opts (set fs) (assign_original_unit opts cid lit s)" by (rule core_original_unit [OF c _ l(2,1)])
    then show ?thesis
      by (rule no [rotated]) (simp_all add: Original_unit perform_def l assign_original_unit_def set_val_def Let_def)
  next
    case (Decide lit)
    then have l: "lit_in (length (vals s)) lit" "val s lit = 0" "conflict s = None" using e by (simp_all add: enabled_def)
    show ?thesis
      by (rule no [OF _ core_decide [OF c l(1,2)]])
        (simp_all add: Decide perform_def l search_assume_decision_def search_assign_def new_trail_level_def
          learn_unit_clause_def set_val_def Let_def)
  next
    case Pseudo_level
    then show ?thesis
      using e by (intro no [OF _ core_open_level [OF c, of 0]]) (simp_all add: perform_def enabled_def new_trail_level_def)
  next
    case (Propagate lit d)
    then have l: "d < length (clauses s)" "lit \<in> set (lits_at s d)" "others_false s lit d" "val s lit = 0" "conflict s = None"
      using e by (simp_all add: enabled_def others_false_def)
    show ?thesis
      by (rule no [OF _ core_propagate [OF c l(1-4)]])
        (simp_all add: Propagate perform_def l(5) propagate_unit_def search_assign_def build_chain_for_units_def
          learn_unit_clause_def set_val_def Let_def)
  next
    case (Find_conflict d)
    then have l: "d < length (clauses s)" "\<forall>lit \<in> set (lits_at s d). val s lit < 0" using e by (simp_all add: enabled_def)
    have "falsified s d"
      unfolding falsified_def
      using l val_true_iff(2) [OF trail_okD(1) [OF C(1)] clauses_okD(3) [OF trail_okD(4) [OF C(1)] l(1)]] by blast
    then have "falsified (s\<lparr>conflict := Some d\<rparr>) d" by (simp add: falsified_def)
    then show ?thesis using c len us by (simp add: Find_conflict perform_def step_ok_def search_ok_def core_conflict)
  next
    case (Analyze assumed stays)
    then obtain d where d: "conflict s = Some d" using e by (auto simp: enabled_def)
    have "search_ok opts (set fs) s" using so by (simp add: step_ok_def)
    from analyze_ok [OF this d, of assumed stays] obtain t where
      "analyze opts assumed stays s = Some t" "search_ok opts (set fs) t" "length (vals t) = length (vals s)"
      "if unsat t = unsat s then conflict t = None \<or> unsat t else refuted t" by blast
    then show ?thesis using len us by (auto simp: Analyze perform_def step_ok_def split: if_splits)
  next
    case (Restart l)
    then have "l \<le> level s" "conflict s = None" using e by (simp_all add: enabled_def)
    then show ?thesis
      using backtrack_effect(5) [OF C(1)] by (intro no [OF _ core_backtrack [OF c]]) (simp_all add: Restart perform_def)
  next
    case (Reorder d lits)
    then have d: "mset lits = mset (lits_at s d)" "conflict s = None" "d < length (clauses s)" using e by (simp_all add: enabled_def)
    have "core_ok opts (set fs) (s\<lparr>clauses := (clauses s)[d := (clauses s ! d)\<lparr>sc_lits := lits\<rparr>]\<rparr>)"
      by (rule core_reorder [OF c]) (use d in \<open>auto simp: nth_list_update lits_at_def\<close>)
    then show ?thesis by (rule no [rotated]) (simp_all add: Reorder perform_def d)
  qed
qed

lemma run_search_ok:
  assumes "formula_ok n fs" "step_ok opts n fs s" "run_search opts fs es s = Some t"
  shows "step_ok opts n fs t"
  using assms(2,3)
proof (induction es arbitrary: s)
  case (Cons e es)
  then have e: "enabled fs e s" by (simp split: if_splits)
  obtain u where u: "perform opts e s = Some u" "step_ok opts n fs u" using perform_ok [OF Cons.prems(1) assms(1) e] by blast
  then show ?case using Cons.IH [OF u(2)] Cons.prems(2) e by simp
qed simp

lemma run_from_start:
  assumes "formula_ok n fs" "run_search opts fs es (init_search n fs) = Some s"
  shows "step_ok opts n fs s"
proof (rule run_search_ok [OF assms(1) _ assms(2)])
  show "step_ok opts n fs (init_search n fs)"
    using init_search_ok [OF assms(1), of opts] by (simp add: step_ok_def init_search_def del: replicate_Suc)
qed

end

