(* ===== verification/Search_Claims.thy ===== *)
theory Search_Claims
  imports Search_Run "HOL-Library.Code_Target_Nat"
begin

text \<open>
  What the search of CaDiCaL promises: a consistent trail, analyses that return and learn the
  first implication clause, proofs the checker accepts, and answers that are right.
\<close>

section \<open>Concluding a proof\<close>

text \<open>Adding clauses does not conclude a proof.\<close>

lemma concluded_import [simp]: "concluded (import_clause c s) = concluded s"
  unfolding import_clause_def by (induction c arbitrary: s) (simp_all add: import_literal_def enlarge_vars_def Let_def)

lemma concluded_find [simp]: "concluded (snd (find cid s)) = concluded s"
  by (simp add: find_eq)

lemma concluded_find_present: "find_present restore cid s = (e, t) \<Longrightarrow> concluded t = concluded s"
  by (auto simp: find_present_def find_eq split: if_splits)

lemma concluded_insert [simp]: "concluded (insert_imported s) = concluded s"
proof -
  obtain A taut where "fold taut_step (imported_clause s) (checked_lits s, False) = (A, taut)" by fastforce
  then show ?thesis
    by (simp add: insert_imported_def insert_clause_def make_room_def enlarge_clauses_def new_clause_def compute_hash_def Let_def)
qed

lemma concluded_check_chain: "concluded (snd (check_chain ids used s)) = concluded s"
  by (induction ids arbitrary: used s) (simp_all add: find_eq Let_def split: option.splits)

lemma concluded_check [simp]: "concluded (snd (check ids s)) = concluded s"
proof -
  obtain A taut where f: "fold taut_step (imported_clause s) (checked_lits s, False) = (A, taut)" by fastforce
  obtain b t where "check_chain ids [] (s\<lparr>checked_lits := A\<rparr>) = (b, t)" by fastforce
  then show ?thesis using concluded_check_chain [of ids "[]" "s\<lparr>checked_lits := A\<rparr>"] by (simp add: check_def f)
qed

lemma concluded_resolve_chain: "resolve_chain ids A s = Inr (B, t) \<Longrightarrow> concluded t = concluded s"
  by (induction ids arbitrary: A s) (auto simp: find_eq split: option.splits)

lemma concluded_check_resolution: "check_resolution ids s = Inr (b, t) \<Longrightarrow> concluded t = concluded s"
proof (cases "ids = [] \<or> last ids < 0")
  case False
  assume "check_resolution ids s = Inr (b, t)"
  then obtain d A B u where d: "resolve_chain (rev (butlast ids)) A (s\<lparr>last_hash := hash_of s (last ids)\<rparr>) = Inr (B, u)"
    "match_resolvent (B, u) = Inr (b, t)"
    using False by (cases "lookup (last ids) s") (auto simp: check_resolution_def find_eq and_then_Inr)
  have "concluded t = concluded u"
    using d(2) by (auto split: option.splits prod.splits simp: prod.case_eq_if elim!: matched.elims)
  then show ?thesis using concluded_resolve_chain [OF d(1)] by simp
qed (auto simp: check_resolution_def split: if_splits)

lemma concluded_check_blocked [simp]: "concluded (snd (check_blocked ids s)) = concluded s"
proof -
  have "concluded (snd (blocked_result t r)) = concluded t" for t r by (cases r) simp
  then have "concluded (snd (blocked_end t r)) = concluded t" for t r by (cases r) simp_all
  then show ?thesis by (simp add: check_blocked_def blocked_scan_def mark_negations_def)
qed

lemma concluded_original:
  assumes "add_original_clause cid c False s = Inr t"
  shows "concluded t = concluded s"
proof -
  let ?s0 = "count_original cid False ((import_clause c s)\<lparr>last_id := cid\<rparr>)"
  obtain e u where f: "find_present False cid ?s0 = (e, u)" by fastforce
  have "t = insert_imported u" using assms f by (cases e) (auto simp: add_original_clause_def enter_original_def)
  then show ?thesis using concluded_find_present [OF f] by (simp add: count_original_def)
qed

lemma concluded_derived:
  assumes "add_derived_clause cid c chain s = Inr t"
  shows "concluded t = concluded s"
proof -
  obtain e u where f: "find_present False cid ((import_clause c s)\<lparr>last_id := cid, current_id := cid\<rparr>) = (e, u)" by fastforce
  have e: "e = None" using assms f by (cases e) (simp_all add: add_derived_clause_def)
  obtain b v where c: "check chain u = (b, v)" by fastforce
  obtain r w where r: "check_rup chain (b, v) = Inr (r, w)" "conclude_check chain (r, w) = Inr t"
    using assms f e c by (auto simp: add_derived_clause_def and_then_Inr)
  have w: "concluded w = concluded v" using r(1) concluded_check_resolution by (cases b) auto
  obtain r2 x where x: "check_else_blocked chain (r, w) = (r2, x)" by fastforce
  have "concluded x = concluded w" using x concluded_check_blocked [of chain w] by (cases r) auto
  moreover have "t = insert_imported x" using r(2) x by (cases r2) (simp_all add: conclude_check_def)
  ultimately show ?thesis using w concluded_find_present [OF f] concluded_check [of chain u] by (simp add: c)
qed

lemma concluded_run:
  assumes "run_lrat as s = Inr t" "\<And>a. a \<in> set as \<Longrightarrow> (\<exists>cid c. a = Original cid c False) \<or> (\<exists>cid c chain. a = Derived cid c chain)"
  shows "concluded t = concluded s"
  using assms
proof (induction as arbitrary: s)
  case (Cons a as)
  obtain u where u: "lrat_step a s = Inr u" "run_lrat as u = Inr t" using Cons.prems(1) by (auto simp: and_then_Inr)
  have "concluded u = concluded s"
    using Cons.prems(2) [of a] u(1) concluded_original concluded_derived by auto
  then show ?case using Cons.IH [OF u(2)] Cons.prems(2) by simp
qed simp

lemma conclude_accepted:
  assumes k: "knows s K" "(cid, []) \<in> K" and c: "\<not> concluded s"
  shows "\<exists>t. conclude_unsat CONFLICT [cid] s = Inr t"
proof -
  let ?s = "s\<lparr>concluded := True\<rparr>"
  note K = knowsD [OF k(1)]
  have t: "table_ok s" using lrat_invD(1) [OF K(1)] .
  have same: "lookup cid ?s = lookup cid s" by (rule lookup_cong) simp_all
  obtain d where d: "d \<in># db s" "lc_id d = cid" "lc_literals d = []" using k(2) unfolding K(2) by auto
  obtain e where e: "lookup cid s = Some e" using lookup_None [OF t _ d(1)] d(2) by (cases "lookup cid s") auto
  then have "e \<in># db s" "lc_id e = cid" using lookup_Some [OF e] by auto
  then have "lc_literals e = []" using K(3) [OF d(1), of e] d by simp
  then show ?thesis using e same c by (simp add: conclude_unsat_def find_eq)
qed

section \<open>The proof of a run\<close>

text \<open>The calls of a run to the checker: the formula, what was derived, and the conclusion.\<close>

definition search_proof :: "(int \<times> int list) list \<Rightarrow> search \<Rightarrow> lrat_call list" where
  "search_proof fs s =
     originals fs @ map derived_call (derived s) @ (if unsat s then [Conclude_unsat CONFLICT [clause_id s]] else [])"

lemma search_proof_accepted:
  assumes f: "formula_ok n fs" and so: "step_ok opts n fs s" and lr: "opt_lrat opts"
  shows "\<exists>t. run_lrat (search_proof fs s) (init_lrat ns) = Inr t"
proof -
  have c: "proof_ok (set fs) s" and u: "unsat s \<longrightarrow> refuted s"
    using so lr by (simp_all add: step_ok_def search_ok_def core_ok_def)
  note P = proof_okD [OF c]
  have nz: "0 \<notin> set c" if "(cid, c) \<in> set fs" for cid c using f that by (force simp: formula_ok_def lit_in_def)
  obtain t1 where t1: "run_lrat (originals fs) (init_lrat ns) = Inr t1" "knows t1 (set fs)"
    using originals_accepted [OF knows_initial, of fs ns] f nz by (auto simp: formula_ok_def originals_def)
  obtain t2 where t2: "run_lrat (map derived_call (derived s)) t1 = Inr t2" "knows t2 (known (set fs) (derived s))"
    using derivation_accepted [OF t1(2) P(1)] by blast
  have "concluded t2 = concluded t1"
    by (rule concluded_run [OF t2(1)]) (auto simp: derived_call_def)
  moreover have "concluded t1 = concluded (init_lrat ns)"
    by (rule concluded_run [OF t1(1)]) (auto simp: originals_def)
  ultimately have nc: "\<not> concluded t2" by (simp add: init_lrat_def)
  have "\<exists>t. run_lrat (if unsat s then [Conclude_unsat CONFLICT [clause_id s]] else []) t2 = Inr t"
  proof (cases "unsat s")
    case True
    then have "(clause_id s, []) \<in> known (set fs) (derived s)" using u by (force simp: refuted_def known_def)
    then show ?thesis using conclude_accepted [OF t2(2) _ nc] True by (auto simp: and_then_Inr)
  qed simp
  then show ?thesis using t1(1) t2(1) by (auto simp: search_proof_def run_lrat_append)
qed

text \<open>A derived clause follows from the clauses known before.\<close>

lemma derivation_distinct: "derivation K ds \<Longrightarrow> d \<in> set ds \<Longrightarrow> call_distinct (derived_call d)"
proof (induction ds arbitrary: K)
  case (Cons e ds)
  obtain cid c chain where e: "e = (cid, c, chain)" by (cases e)
  show ?case
    using Cons by (auto simp: e call_distinct_def call_ok_def derived_call_def resolution_proof_def)
qed simp


text \<open>The implication point is all that is open at the end.\<close>

lemma uip_open:
  assumes "uip_found opts s c rs uip w"
  shows "open_lits s c rs = {- uip}"
proof -
  note U = uip_foundD [OF assms]
  have e: "open_lits s c rs = uminus ` insert uip (set rs) - uminus ` set rs"
  proof (rule set_eqI)
    fix x
    have "- x \<notin> set rs \<longleftrightarrow> x \<notin> uminus ` set rs" using imageI [of "- x" "set rs" uminus] by auto
    then show "x \<in> open_lits s c rs \<longleftrightarrow> x \<in> uminus ` insert uip (set rs) - uminus ` set rs"
      unfolding U(13) [symmetric] open_lits_def by blast
  qed
  have "- uip \<notin> uminus ` set rs" using U(12) by auto
  then show ?thesis unfolding e by auto
qed

section \<open>The properties\<close>

text \<open>The formula of the witnesses, with two variables and no model, and a run that refutes it.\<close>

abbreviation formula4 :: "(int \<times> int list) list" where
  "formula4 \<equiv> [(1, [1, 2]), (2, [1, -2]), (3, [-1, 2]), (4, [-1, -2])]"

abbreviation opts4 :: search_opts where
  "opts4 \<equiv> \<lparr>opt_lrat = True, opt_minimize = True, opt_minimizedepth = 1000, opt_chrono = 1,
     opt_chronoalways = False, opt_chronolevelim = 100, opt_chronoreusetrail = False\<rparr>"

abbreviation to_conflict4 :: "search_event list" where
  "to_conflict4 \<equiv> [Decide 1, Propagate 2 2, Find_conflict 3]"

abbreviation to_end4 :: "search_event list" where
  "to_end4 \<equiv> to_conflict4 @ [Analyze 0 (\<lambda>a b. True), Propagate 2 0, Find_conflict 1, Analyze 0 (\<lambda>a b. True)]"

lemma formula4_ok: "formula_ok 2 formula4"
  by (simp add: formula_ok_def lit_in_def)

lemma run_conflict4:
  "map_option (\<lambda>s. (conflict s, unsat s, level s, length (clauses s), lits_at s 3, vlevel (var s (- 1))))
     (run_search opts4 formula4 to_conflict4 (init_search 2 formula4)) = Some (Some 3, False, 1, 4, [-1, -2], 1)"
  by code_simp

lemma run_end4: "map_option unsat (run_search opts4 formula4 to_end4 (init_search 2 formula4)) = Some True"
  by code_simp

text \<open>
  C21. In every state of a run the trail is consistent, also when it is out of order after
  chronological backtracking: values, levels and positions agree with it, every propagated
  literal is the only true one of its reason and has the highest level among the others, the
  decisions open their levels, and no flag or buffer of an analysis is left over.
\<close>

theorem search_run_invariant:
  assumes "formula_ok n fs" "run_search opts fs es (init_search n fs) = Some s"
  shows "trail_ok s \<and> idle s"
  using core_okD(1,2) run_from_start [OF assms] unfolding step_ok_def search_ok_def by blast

lemma search_run_invariant_witness:
  "\<exists>s. run_search opts4 formula4 to_conflict4 (init_search 2 formula4) = Some s \<and> conflict s = Some 3 \<and> trail_ok s"
proof -
  obtain s where "run_search opts4 formula4 to_conflict4 (init_search 2 formula4) = Some s" "conflict s = Some 3"
    using run_conflict4 unfolding map_option_eq_Some prod.inject by blast
  then show ?thesis using search_run_invariant [OF formula4_ok] by blast
qed

text \<open>
  C22. The analysis of a conflict always returns: the search for the implication point never
  leaves the trail or meets a literal without reason, and the stack of the minimized chains empties.
  Afterwards there is no conflict, or the formula is refuted.
\<close>

theorem search_analyze_returns:
  assumes "formula_ok n fs" "run_search opts fs es (init_search n fs) = Some s" "conflict s = Some c" "\<not> unsat s"
  shows "\<exists>t. analyze opts assumed stays s = Some t \<and> (conflict t = None \<or> unsat t)"
proof -
  have "step_ok opts n fs s" by (rule run_from_start [OF assms(1,2)])
  moreover have "enabled fs (Analyze assumed stays) s" using assms(3,4) by (simp add: enabled_def)
  ultimately obtain t where "analyze opts assumed stays s = Some t" "conflict t = None \<or> unsat t"
    using analyze_ok [of opts "set fs" s c assumed stays] assms(3,4) unfolding step_ok_def by (auto split: if_splits)
  then show ?thesis by blast
qed

lemma search_analyze_returns_witness:
  "\<exists>s t. run_search opts4 formula4 to_conflict4 (init_search 2 formula4) = Some s \<and>
     analyze opts4 0 (\<lambda>a b. True) s = Some t \<and> (conflict t = None \<or> unsat t)"
proof -
  obtain s where s: "run_search opts4 formula4 to_conflict4 (init_search 2 formula4) = Some s" "conflict s = Some 3" "\<not> unsat s"
    using run_conflict4 unfolding map_option_eq_Some prod.inject by blast
  then show ?thesis using search_analyze_returns [OF formula4_ok s] by blast
qed

text \<open>
  C23. The analysis of a conflict \<open>c\<close> on the current level resolves it with the reasons of \<open>rs\<close>: each time with the last
  literal of the trail that is open on that level, as long as another one is open, until a single one
  is left, the first unique implication point \<open>uip\<close>. What is learned are the false literals of lower
  levels that were reached, without those minimization takes, and \<open>- uip\<close>; it holds in every model of the clauses
  and the literals of level zero. It is handed to the proof, the trail loses what is above some lower level,
  and \<open>- uip\<close> is assigned with the clause as its reason, or as a unit.
\<close>

theorem analyze_level_learns:
  assumes "trail_ok s" "idle s" "level s \<noteq> 0" "falsified s c" "lit \<in> set (lits_at s c)" "lev s lit = level s"
  shows "\<exists>t uip rs lits chain. analyze_level opts assumed stays c s = Some t \<and>
    (\<forall>k < length rs. in_turn s c rs k) \<and> open_lits s c rs = {- uip} \<and> uip \<in> set (trail s) \<and> lev s uip = level s \<and>
    distinct lits \<and> - uip \<in> set lits \<and> set lits \<subseteq> first_lits s c rs uip \<and>
    (\<not> opt_minimize opts \<longrightarrow> set lits = first_lits s c rs uip) \<and> implies (known_clauses s) lits \<and>
    (\<forall>x \<in> set lits. x \<noteq> - uip \<longrightarrow> - x \<in> set (trail s) \<and> 0 < lev s x \<and> lev s x < level s) \<and>
    drives opts s uip lits chain t \<and> trail_ok t \<and> idle t \<and> conflict t = None"
proof -
  from analyze_level_spec [OF assms, of opts assumed stays] obtain t rs uip u ms us lits w where a:
    "analyze_level opts assumed stays c s = Some t" "uip_found opts s c rs uip w" "learned opts s c rs uip u ms us"
    "covers s (first_lits s c rs uip) (clause u)" "\<not> opt_minimize opts \<longrightarrow> set (clause u) = first_lits s c rs uip"
    "mset lits = mset (clause u)" "drives opts s uip lits (lrat_chain (reverse_chain opts u)) t" "trail_ok t" "idle t" "conflict t = None"
    unfolding analyzed_to_def by blast
  note K = uip_clause [OF assms(1) a(2)] and U = uip_foundD [OF a(2)]
  have l: "distinct (clause u)" "- uip \<in> set (clause u)" "set (clause u) \<subseteq> first_lits s c rs uip" using a(3) unfolding learned_def by auto
  have sl: "set lits = set (clause u)" "distinct lits" using a(6) l(1) by (metis set_mset_mset, metis mset_eq_imp_distinct_iff)
  have low: "\<forall>x \<in> set lits. x \<noteq> - uip \<longrightarrow> - x \<in> set (trail s) \<and> 0 < lev s x \<and> lev s x < level s"
    using l(3) U(2,11) unfolding sl(1) by (auto simp: first_lits_def)
  have "clause_true \<sigma> lits" if m: "models \<sigma> (known_clauses s)" for \<sigma>
  proof -
    have "\<exists>x \<in> first_lits s c rs uip. lit_true \<sigma> x"
      unfolding first_lits_def by (rule uip_clause_implied [OF assms(1,4) a(2) m])
    then have "clause_true \<sigma> (clause u)" using a(4) m unfolding covers_def by blast
    then show ?thesis by (simp add: clause_true_def sl(1))
  qed
  then have imp: "implies (known_clauses s) lits" by (simp add: implies_def)
  have op: "open_lits s c rs = {- uip}" by (rule uip_open [OF a(2)])
  have turns: "\<forall>k < length rs. in_turn s c rs k" using U(15) by blast
  have uip: "uip \<in> set (trail s)" "lev s uip = level s" using U(11) K(3) by auto
  have min: "\<not> opt_minimize opts \<longrightarrow> set lits = first_lits s c rs uip" using a(5) by (simp add: sl(1))
  have mem: "- uip \<in> set lits" "set lits \<subseteq> first_lits s c rs uip" using l(2,3) by (simp_all add: sl(1))
  show ?thesis
    by (rule exI [of _ t], rule exI [of _ uip], rule exI [of _ rs], rule exI [of _ lits],
        rule exI [of _ "lrat_chain (reverse_chain opts u)"])
      (intro conjI a(1,7-10) turns op uip sl(2) mem min imp low)
qed

lemma analyze_level_learns_witness:
  "\<exists>s t uip lits chain. run_search opts4 formula4 to_conflict4 (init_search 2 formula4) = Some s \<and>
     analyze_level opts4 0 (\<lambda>a b. True) 3 s = Some t \<and> drives opts4 s uip lits chain t"
proof -
  obtain s where s: "run_search opts4 formula4 to_conflict4 (init_search 2 formula4) = Some s" "conflict s = Some 3"
      "level s = 1" "length (clauses s) = 4" "lits_at s 3 = [-1, -2]" "vlevel (var s (- 1)) = 1"
    using run_conflict4 unfolding map_option_eq_Some prod.inject by blast
  have so: "step_ok opts4 2 formula4 s" by (rule run_from_start [OF formula4_ok s(1)])
  have "trail_ok s" "idle s" "falsified s 3" "lev s (- 1) = level s"
    using so core_okD(1,2) s(2,3,6) unfolding step_ok_def search_ok_def by auto
  from analyze_level_learns [OF this(1,2) _ this(3) _ this(4)] show ?thesis using s(1,3,5) by fastforce
qed

text \<open>
  C20. Every proof the search writes with LRAT chains is accepted: the checker takes the formula,
  each derived clause with its chain in order, and the conclusion when the search found the
  formula unsatisfiable.
\<close>

theorem search_proof_checked:
  assumes "formula_ok n fs" "run_search opts fs es (init_search n fs) = Some s" "opt_lrat opts"
  shows "accepted (run_lrat (search_proof fs s) (init_lrat ns))"
  using search_proof_accepted [OF assms(1) run_from_start [OF assms(1,2)] assms(3)] unfolding accepted_iff .

lemma search_proof_checked_witness:
  "\<exists>s. run_search opts4 formula4 to_end4 (init_search 2 formula4) = Some s \<and> unsat s \<and>
     accepted (run_lrat (search_proof formula4 s) (init_lrat nonces4))"
proof -
  obtain s where "run_search opts4 formula4 to_end4 (init_search 2 formula4) = Some s" "unsat s"
    using run_end4 unfolding map_option_eq_Some by blast
  moreover from this(1) have "accepted (run_lrat (search_proof formula4 s) (init_lrat nonces4))"
    by (rule search_proof_checked [OF formula4_ok]) simp
  ultimately show ?thesis by blast
qed

text \<open>
  C19. When the search with LRAT chains finds the formula unsatisfiable, it is.
\<close>

theorem search_unsat_correct:
  assumes "formula_ok n fs" "run_search opts fs es (init_search n fs) = Some s" "opt_lrat opts" "unsat s"
  shows "\<not> satisfiable (snd ` set fs)"
proof -
  have so: "step_ok opts n fs s" by (rule run_from_start [OF assms(1,2)])
  obtain t where t: "run_lrat (search_proof fs s) (init_lrat [1]) = Inr t"
    using search_proof_accepted [OF assms(1) so assms(3)] by blast
  have d: "derivation (set fs) (derived s)" using so assms(3) by (simp add: step_ok_def search_ok_def core_ok_def proof_ok_def)
  show ?thesis
  proof (rule refutation_sound)
    show "run_lrat (originals fs @ map derived_call (derived s) @ [Conclude_unsat CONFLICT [clause_id s]]) (init_lrat [1]) = Inr t"
      using t assms(4) by (simp add: search_proof_def)
    show "\<forall>c \<in> snd ` set fs. distinct c \<and> 0 \<notin> set c" using assms(1) by (force simp: formula_ok_def lit_in_def)
    show "\<forall>a \<in> set (map derived_call (derived s)). call_distinct a \<and> \<not> is_original a"
      using derivation_distinct [OF d] by (auto simp: is_original_def derived_call_def)
  qed
qed

lemma search_unsat_correct_witness: "\<not> satisfiable (snd ` set formula4)"
proof -
  obtain s where s: "run_search opts4 formula4 to_end4 (init_search 2 formula4) = Some s" "unsat s"
    using run_end4 unfolding map_option_eq_Some by blast
  show ?thesis by (rule search_unsat_correct [OF formula4_ok s(1) _ s(2)]) simp
qed

end
