(* ===== verification/Watch_Model.thy ===== *)
theory Watch_Model
  imports Search_Model
begin

text \<open>
  Propagation over watched literals (\<open>propagate.cpp\<close>, \<open>watch.hpp\<close>) and the rest of CaDiCaL's
  search with the watch lists: every clause is watched by its first two literals, with blocking
  literals, and remembers in \<open>cpos\<close> where the last replacement was found.

  The record \<open>watched\<close> puts the watch lists, the positions and the end of the propagated trail
  beside the state of \<open>Search_Model\<close>. The operations below are those of that model together with what
  they do to the watches. Clauses are never garbage here, and statistics are left out. A result
  \<open>None\<close> is an access outside of a clause.
\<close>

section \<open>State\<close>

record Watch =
  wclause :: nat
  blit :: int
  wsize :: nat

record watched =
  core :: search
  wtab :: "Watch list list"
  cpos :: "nat list"
  propagated :: nat

definition watches :: "watched \<Rightarrow> int \<Rightarrow> Watch list" where
  "watches s lit = wtab s ! vlit lit"

definition binary :: "Watch \<Rightarrow> bool" where
  "binary w \<longleftrightarrow> wsize w = 2"

definition on_core :: "(search \<Rightarrow> search) \<Rightarrow> watched \<Rightarrow> watched" where
  "on_core f s = s\<lparr>core := f (core s)\<rparr>"

definition set_lits :: "nat \<Rightarrow> int list \<Rightarrow> search \<Rightarrow> search" where
  "set_lits c lits s = s\<lparr>clauses := (clauses s)[c := (clauses s ! c)\<lparr>sc_lits := lits\<rparr>]\<rparr>"

definition watch_literal :: "int \<Rightarrow> int \<Rightarrow> nat \<Rightarrow> watched \<Rightarrow> watched" where
  "watch_literal lit other c s =
     s\<lparr>wtab := upd_nth (wtab s) (vlit lit)
        (\<lambda>ws. ws @ [\<lparr>wclause = c, blit = other, wsize = length (lits_at (core s) c)\<rparr>])\<rparr>"

definition watch_clause :: "nat \<Rightarrow> watched \<Rightarrow> watched" where
  "watch_clause c s =
     (let l0 = lits_at (core s) c ! 0; l1 = lits_at (core s) c ! 1
      in watch_literal l1 l0 c (watch_literal l0 l1 c s))"

definition remove_watch :: "int \<Rightarrow> nat \<Rightarrow> watched \<Rightarrow> watched" where
  "remove_watch lit c s = s\<lparr>wtab := upd_nth (wtab s) (vlit lit) (filter (\<lambda>w. wclause w \<noteq> c))\<rparr>"

section \<open>Propagation\<close>

text \<open>The search for a literal that is not false: the position and the value where it stops.\<close>

fun scan_false :: "search \<Rightarrow> int list \<Rightarrow> nat \<Rightarrow> int \<Rightarrow> nat \<times> int" where
  "scan_false s [] k v = (k, v)"
| "scan_false s (r # rs) k v = (let v = val s r in if v < 0 then scan_false s rs (k + 1) v else (k, v))"

text \<open>From the saved position to the end, then from the third literal to that position.\<close>

definition find_replacement :: "search \<Rightarrow> int list \<Rightarrow> nat \<Rightarrow> nat \<times> int" where
  "find_replacement s lits pos =
     (let (k, v) = scan_false s (drop pos lits) pos (- 1)
      in if v < 0 then scan_false s (drop 2 (take pos lits)) 2 v else (k, v))"

fun level_position :: "search \<Rightarrow> nat \<Rightarrow> int list \<Rightarrow> nat \<Rightarrow> nat option" where
  "level_position s l [] pos = None"
| "level_position s l (lit # lits) pos =
     (if vlevel (var s lit) = l then Some pos else level_position s l lits (pos + 1))"

text \<open>
  A unit: the clause is watched at a literal of the level of \<open>other\<close> instead of \<open>lit\<close> when that is
  higher, with the option \<open>chrono\<close> at two.
\<close>

definition rewatch_unit :: "search_opts \<Rightarrow> int \<Rightarrow> int \<Rightarrow> Watch \<Rightarrow> watched \<Rightarrow> (Watch option \<times> watched) option" where
  "rewatch_unit opts lit other w s =
     (let c = wclause w; lits = lits_at (core s) c; other_level = vlevel (var (core s) other)
      in if opt_chrono opts > 1 \<and> other_level > vlevel (var (core s) lit) then
           (case level_position (core s) other_level (drop 2 lits) 2 of
              None \<Rightarrow> None
            | Some pos \<Rightarrow>
                let r = lits ! pos;
                    s = on_core (set_lits c (lits[pos := lit, 0 := other, 1 := r])) s
                in Some (None, watch_literal r lit c s))
         else Some (Some w, s))"

text \<open>
  A watch of a clause with more than two literals: the watch kept, if any, and whether the loop
  stops.
\<close>

definition visit_long :: "search_opts \<Rightarrow> int \<Rightarrow> Watch \<Rightarrow> watched \<Rightarrow> (Watch option \<times> bool \<times> watched) option" where
  "visit_long opts lit w s =
     (let c = wclause w; lits = lits_at (core s) c;
          other = xor (xor (lits ! 0) (lits ! 1)) lit;
          u = val (core s) other
      in if u > 0 then Some (Some (w\<lparr>blit := other\<rparr>), False, s)
         else
           let (k, v) = find_replacement (core s) lits (cpos s ! c);
               r = lits ! k;
               s = s\<lparr>cpos := (cpos s)[c := k]\<rparr>
           in if v > 0 then Some (Some (w\<lparr>blit := r\<rparr>), False, s)
              else if v = 0 then
                let s = on_core (set_lits c (lits[0 := other, 1 := r, k := lit])) s
                in Some (None, False, watch_literal r lit c s)
              else if u = 0 then do {
                (kept, s) \<leftarrow> rewatch_unit opts lit other w (on_core (propagate_unit opts other c) s);
                Some (kept, False, s)
              }
              else Some (Some w, True, on_core (\<lambda>s. s\<lparr>conflict := Some c\<rparr>) s))"

definition visit :: "search_opts \<Rightarrow> int \<Rightarrow> Watch \<Rightarrow> watched \<Rightarrow> (Watch option \<times> bool \<times> watched) option" where
  "visit opts lit w s =
     (let b = val (core s) (blit w)
      in if b > 0 then Some (Some w, False, s)
         else if binary w then
           Some (Some w, False,
             on_core (\<lambda>s. if b < 0 then s\<lparr>conflict := Some (wclause w)\<rparr> else propagate_unit opts (blit w) (wclause w) s) s)
         else if conflict (core s) \<noteq> None then Some (Some w, True, s)
         else visit_long opts lit w s)"

text \<open>The loop over the watches of \<open>lit\<close>, with those kept so far; the rest is kept when it stops.\<close>

fun visit_watches :: "search_opts \<Rightarrow> int \<Rightarrow> Watch list \<Rightarrow> Watch list \<Rightarrow> watched \<Rightarrow> (Watch list \<times> watched) option" where
  "visit_watches opts lit [] kept s = Some (kept, s)"
| "visit_watches opts lit (w # ws) kept s =
     (case visit opts lit w s of
        None \<Rightarrow> None
      | Some (k, stop, s) \<Rightarrow>
          let kept = kept @ (case k of None \<Rightarrow> [] | Some w \<Rightarrow> [w])
          in if stop then Some (kept @ ws, s) else visit_watches opts lit ws kept s)"

definition propagate_literal :: "search_opts \<Rightarrow> watched \<Rightarrow> watched option" where
  "propagate_literal opts s =
     (let lit = - trail (core s) ! propagated s;
          s = s\<lparr>propagated := propagated s + 1\<rparr>
      in case visit_watches opts lit (watches s lit) [] s of
           None \<Rightarrow> None
         | Some (ws, s) \<Rightarrow> Some (s\<lparr>wtab := (wtab s)[vlit lit := ws]\<rparr>))"

partial_function (option) propagate :: "search_opts \<Rightarrow> watched \<Rightarrow> watched option" where
  "propagate opts s =
     (if conflict (core s) = None \<and> propagated s \<noteq> length (trail (core s))
      then Option.bind (propagate_literal opts s) (propagate opts) else Some s)"

declare propagate.simps [code]

section \<open>The rest of the search\<close>

definition watched_backtrack :: "nat \<Rightarrow> watched \<Rightarrow> watched" where
  "watched_backtrack new_level s =
     (if new_level = level (core s) then s
      else let assigned = ltrail (control (core s) ! (new_level + 1))
           in s\<lparr>core := backtrack new_level (core s),
                propagated := (if propagated s > assigned then assigned else propagated s)\<rparr>)"

definition watch_highest :: "nat \<Rightarrow> nat \<Rightarrow> nat \<Rightarrow> watched \<Rightarrow> watched" where
  "watch_highest res i c s =
     (let lits = lits_at (core s) c; lit = lits ! i;
          pos = highest_position (core s) res (drop (i + 1) lits) (i + 1) i (vlevel (var (core s) lit));
          s = (if pos > 1 then remove_watch lit c s else s);
          s = on_core (set_lits c (move_highest (core s) res i lits)) s
      in if pos > 1 then watch_literal (lits ! pos) (lits_at (core s) c ! (1 - i)) c s else s)"

definition watched_conflict_level :: "nat \<Rightarrow> watched \<Rightarrow> (nat \<times> int) \<times> watched" where
  "watched_conflict_level c s =
     (let (res, cnt, forced) = scan_levels (core s) (lits_at (core s) c) 0 0 0
      in ((res, if cnt \<noteq> 1 then 0 else forced), watch_highest res 1 c (watch_highest res 0 c s)))"

definition watched_driving_clause :: "watched \<Rightarrow> (watched \<times> nat) \<times> assign_reason" where
  "watched_driving_clause s =
     (let ((t, jump), driving) = new_driving_clause (core s);
          s = s\<lparr>core := t\<rparr>
      in ((case driving of Reason c \<Rightarrow> watch_clause c (s\<lparr>cpos := cpos s @ [2]\<rparr>) | _ \<Rightarrow> s, jump), driving))"

definition watched_learn :: "search_opts \<Rightarrow> nat \<Rightarrow> (nat \<Rightarrow> nat \<Rightarrow> bool) \<Rightarrow> int \<Rightarrow> watched \<Rightarrow> watched" where
  "watched_learn opts assumed stays uip s =
     (let ((s, jump), driving) = watched_driving_clause (on_core (reverse_chain opts) s);
          s = watched_backtrack (determine_actual_backtrack_level opts assumed stays jump (core s)) s
      in on_core finish_analysis (on_core (search_assign opts (- uip) driving) s))"

definition watched_analyze_level ::
  "search_opts \<Rightarrow> nat \<Rightarrow> (nat \<Rightarrow> nat \<Rightarrow> bool) \<Rightarrow> nat \<Rightarrow> watched \<Rightarrow> watched option" where
  "watched_analyze_level opts assumed stays c s = do {
     (uip, t) \<leftarrow> first_uip opts c (core s);
     t \<leftarrow> (if length (clause t) > 1 \<and> opt_minimize opts then minimize_clause opts t else Some t);
     Some (watched_learn opts assumed stays uip (s\<lparr>core := t\<rparr>))
   }"

definition watched_analyze :: "search_opts \<Rightarrow> nat \<Rightarrow> (nat \<Rightarrow> nat \<Rightarrow> bool) \<Rightarrow> watched \<Rightarrow> watched option" where
  "watched_analyze opts assumed stays s =
     (case conflict (core s) of
        None \<Rightarrow> None
      | Some c \<Rightarrow>
          let ((conflict_level, forced), s) = watched_conflict_level c s
          in if forced \<noteq> 0 then
               let s = on_core (build_chain_for_units opts forced c False) (watched_backtrack (conflict_level - 1) s)
               in Some (on_core (\<lambda>s. s\<lparr>conflict := None\<rparr>) (on_core (search_assign opts forced (Reason c)) s))
             else let s = watched_backtrack conflict_level s
               in if level (core s) = 0 then Some (on_core (learn_empty_clause opts c) s)
                  else watched_analyze_level opts assumed stays c s)"

section \<open>Runs\<close>

definition init_watched :: "nat \<Rightarrow> (int \<times> int list) list \<Rightarrow> watched" where
  "init_watched n fs =
     (let s = init_search n fs
      in fold watch_clause [0..<length (clauses s)]
           \<lparr>core = s, wtab = replicate (2 * (n + 1)) [], cpos = replicate (length (clauses s)) 2, propagated = 0\<rparr>)"

datatype watched_event =
  Unit_clause int int
| Decision int
| Pseudo_decision
| Propagation
| Analysis nat "nat \<Rightarrow> nat \<Rightarrow> bool"
| Backtracking nat

text \<open>Decisions need a propagated trail, as \<open>search_assume_decision\<close> asserts.\<close>

definition watched_enabled :: "(int \<times> int list) list \<Rightarrow> watched_event \<Rightarrow> watched \<Rightarrow> bool" where
  "watched_enabled fs e s \<longleftrightarrow> \<not> unsat (core s) \<and>
     (case e of
        Unit_clause cid lit \<Rightarrow> conflict (core s) = None \<and> (cid, [lit]) \<in> set fs \<and> val (core s) lit = 0
      | Decision lit \<Rightarrow> conflict (core s) = None \<and> propagated s = length (trail (core s)) \<and>
          lit_in (length (vals (core s))) lit \<and> val (core s) lit = 0
      | Pseudo_decision \<Rightarrow> conflict (core s) = None \<and> propagated s = length (trail (core s))
      | Propagation \<Rightarrow> conflict (core s) = None
      | Analysis assumed stays \<Rightarrow> conflict (core s) \<noteq> None
      | Backtracking l \<Rightarrow> conflict (core s) = None \<and> l \<le> level (core s))"

definition watched_perform :: "search_opts \<Rightarrow> watched_event \<Rightarrow> watched \<Rightarrow> watched option" where
  "watched_perform opts e s =
     (case e of
        Unit_clause cid lit \<Rightarrow> Some (on_core (assign_original_unit opts cid lit) s)
      | Decision lit \<Rightarrow> Some (on_core (search_assume_decision opts lit) s)
      | Pseudo_decision \<Rightarrow> Some (on_core (new_trail_level 0) s)
      | Propagation \<Rightarrow> propagate opts s
      | Analysis assumed stays \<Rightarrow> watched_analyze opts assumed stays s
      | Backtracking l \<Rightarrow> Some (watched_backtrack l s))"

fun run_watched :: "search_opts \<Rightarrow> (int \<times> int list) list \<Rightarrow> watched_event list \<Rightarrow> watched \<Rightarrow> watched option" where
  "run_watched opts fs [] s = Some s"
| "run_watched opts fs (e # es) s =
     (if watched_enabled fs e s then Option.bind (watched_perform opts e s) (run_watched opts fs es) else None)"

text \<open>\<open>satisfied\<close>, without assumptions and constraint.\<close>

definition satisfied :: "watched \<Rightarrow> bool" where
  "satisfied s \<longleftrightarrow> length (trail (core s)) = length (vals (core s)) - 1 \<and> propagated s = length (trail (core s))"

end
