(* ===== verification/Watch_Core.thy ===== *)
theory Watch_Core
  imports Search_Run Watch_Model
begin

text \<open>
  The operations over the watch lists do to the state of \<open>Search_Model\<close> what the operations of
  that model do.
\<close>

section \<open>What the watches leave as it is\<close>

lemma core_simps [simp]:
  "core (on_core f s) = f (core s)" "core (watch_literal lit other c s) = core s" "core (remove_watch lit c s) = core s"
  "core (watch_clause c s) = core s" "core (watched_backtrack l s) = backtrack l (core s)"
  by (simp_all add: on_core_def watch_literal_def remove_watch_def watch_clause_def watched_backtrack_def backtrack_def Let_def)

lemma set_lits_simps [simp]:
  "vals (set_lits c lits s) = vals s" "vtab (set_lits c lits s) = vtab s" "trail (set_lits c lits s) = trail s"
  "control (set_lits c lits s) = control s" "level (set_lits c lits s) = level s" "conflict (set_lits c lits s) = conflict s"
  "unsat (set_lits c lits s) = unsat s"
  "val (set_lits c lits s) lit = val s lit" "var (set_lits c lits s) lit = var s lit"
  "length (clauses (set_lits c lits s)) = length (clauses s)"
  by (simp_all add: set_lits_def)

lemma lits_at_set_lits: "c < length (clauses s) \<Longrightarrow> lits_at (set_lits c lits s) d = (if d = c then lits else lits_at s d)"
  by (auto simp: set_lits_def lits_at_def nth_list_update)

lemma highest_position_cong:
  "(\<And>lit. lev t lit = lev s lit) \<Longrightarrow> highest_position t res lits j pos highest = highest_position s res lits j pos highest"
  by (induction lits arbitrary: j pos highest) (simp_all add: Let_def)

lemma highest_set_lits [simp]:
  "highest_position (set_lits c ls s) res lits j pos highest = highest_position s res lits j pos highest"
  by (rule highest_position_cong) simp

lemma move_highest_set_lits [simp]: "move_highest (set_lits c ls s) res i lits = move_highest s res i lits"
  by (simp add: move_highest_def)

lemma core_watch_highest:
  "c < length (clauses (core s)) \<Longrightarrow>
    core (watch_highest res i c s) = set_lits c (move_highest (core s) res i (lits_at (core s) c)) (core s)"
  by (simp add: watch_highest_def Let_def)

lemma core_conflict_level:
  assumes c: "c < length (clauses (core s))"
  shows "find_conflict_level c (core s) = (fst (watched_conflict_level c s), core (snd (watched_conflict_level c s)))"
proof -
  obtain res cnt forced where sc: "scan_levels (core s) (lits_at (core s) c) 0 0 0 = (res, cnt, forced)" by (metis surj_pair)
  let ?lits = "move_highest (core s) res 0 (lits_at (core s) c)" and ?t = "watch_highest res 0 c s"
  have t: "core ?t = set_lits c ?lits (core s)" by (rule core_watch_highest [OF c])
  have "core (watch_highest res 1 c ?t) = set_lits c (move_highest (core s) res 1 ?lits) (set_lits c ?lits (core s))"
    using c by (simp add: core_watch_highest t lits_at_set_lits)
  also have "\<dots> = set_lits c (move_highest (core s) res 1 ?lits) (core s)" using c by (simp add: set_lits_def)
  finally show ?thesis by (simp add: find_conflict_level_def watched_conflict_level_def sc set_lits_def)
qed

lemma core_driving_clause:
  "new_driving_clause (core s) =
     (let ((t, jump), driving) = watched_driving_clause s in ((core t, jump), driving))"
  by (auto simp: watched_driving_clause_def new_driving_clause_def Let_def split: prod.splits)

lemma core_learn: "core (watched_learn opts assumed stays uip s) = learn_driving_clause opts assumed stays uip (core s)"
proof -
  obtain t jump driving where d: "watched_driving_clause (on_core (reverse_chain opts) s) = ((t, jump), driving)" by (metis surj_pair)
  show ?thesis
    using core_driving_clause [of "on_core (reverse_chain opts) s"]
    by (simp add: watched_learn_def learn_driving_clause_def d Let_def)
qed

lemma core_analyze_watched:
  "map_option core (watched_analyze_level opts assumed stays c s) = analyze_level opts assumed stays c (core s)"
  by (auto simp: watched_analyze_level_def analyze_level_def core_learn split: option.splits bind_splits)

lemma core_watched_analyze:
  assumes c: "conflict (core s) = Some c" "c < length (clauses (core s))"
  shows "map_option core (watched_analyze opts assumed stays s) = analyze opts assumed stays (core s)"
proof -
  obtain l forced t where w: "watched_conflict_level c s = ((l, forced), t)" by (metis surj_pair)
  have f: "find_conflict_level c (core s) = ((l, forced), core t)" using core_conflict_level [OF c(2)] w by simp
  show ?thesis
  proof (cases "forced = 0")
    case False
    then show ?thesis by (simp add: watched_analyze_def analyze_def c w f Let_def)
  next
    case True
    then show ?thesis
      using core_analyze_watched [of opts assumed stays c "watched_backtrack l t"]
      by (cases "level (core (watched_backtrack l t)) = 0") (simp_all add: watched_analyze_def analyze_def c w f Let_def)
  qed
qed

end
