(* ===== verification/Watch_Invariant.thy ===== *)
theory Watch_Invariant
  imports Watch_Core
begin

text \<open>
  The invariant of watched literals. A clause is guarded at a level when a watched literal that is
  false there is answered by a true literal that stays there; a watch list holds the clauses with its literal
  among their first two.
\<close>

section \<open>Guarded clauses\<close>

text \<open>The end of the trail that stays when the search returns to level \<open>l\<close>.\<close>

definition cut :: "search \<Rightarrow> nat \<Rightarrow> nat" where
  "cut s l = (if l < level s then ltrail (control s ! (l + 1)) else length (trail s))"

definition held :: "search \<Rightarrow> nat \<Rightarrow> nat \<Rightarrow> bool" where
  "held s l c \<longleftrightarrow> (\<exists>r \<in> set (lits_at s c). r \<in> set (trail s) \<and> lev s r \<le> l)"

text \<open>
  A clause is guarded at a level when a watched literal that is false on what was propagated and
  stays is answered by a true literal that stays too.
\<close>

definition guarded :: "search \<Rightarrow> nat \<Rightarrow> nat \<Rightarrow> nat \<Rightarrow> bool" where
  "guarded s p l c \<longleftrightarrow> (\<forall>i < 2. - (lits_at s c ! i) \<in> set (take (min p (cut s l)) (trail s)) \<longrightarrow> held s l c)"

definition guards :: "search \<Rightarrow> nat \<Rightarrow> bool" where
  "guards s p \<longleftrightarrow> ltrail (control s ! level s) \<le> p \<and> p \<le> length (trail s) \<and>
     (\<forall>l < level s. \<forall>c < length (clauses s). guarded s p l c) \<and>
     (conflict s = None \<longrightarrow> (\<forall>c < length (clauses s). guarded s p (level s) c))"

lemma guardsD:
  assumes "guards s p"
  shows "ltrail (control s ! level s) \<le> p" "p \<le> length (trail s)"
    "\<And>l c. l < level s \<Longrightarrow> c < length (clauses s) \<Longrightarrow> guarded s p l c"
    "\<And>c. conflict s = None \<Longrightarrow> c < length (clauses s) \<Longrightarrow> guarded s p (level s) c"
  using assms unfolding guards_def by blast+

lemma guards_at: "guards s p \<Longrightarrow> conflict s = None \<Longrightarrow> l \<le> level s \<Longrightarrow> c < length (clauses s) \<Longrightarrow> guarded s p l c"
  using guardsD(3,4) le_neq_implies_less by blast

lemma cut_bounds:
  assumes "levels_ok s" "l \<le> level s"
  shows "cut s l \<le> length (trail s)" "\<And>l'. l' \<le> l \<Longrightarrow> cut s l' \<le> cut s l"
    and "\<And>x. x \<in> set (take (cut s l) (trail s)) \<Longrightarrow> lev s x \<le> l"
proof -
  note L = levels_okD [OF assms(1)]
  show le: "cut s l \<le> length (trail s)" using L(2) [of "l + 1"] by (simp add: cut_def)
  show "cut s l' \<le> cut s l" if "l' \<le> l" for l'
    using L(2) [of "l' + 1"] L(3) [of "l' + 1" "l + 1"] that assms(2) by (auto simp: cut_def)
  show "lev s x \<le> l" if x: "x \<in> set (take (cut s l) (trail s))" for x
  proof (cases "l < level s")
    case True
    then obtain i where "i < ltrail (control s ! (l + 1))" "x = trail s ! i"
      using x le by (auto simp: cut_def in_set_conv_nth)
    then show ?thesis using L(5) [OF True] by simp
  next
    case False
    then show ?thesis using L(4) [of x] assms(2) in_set_takeD [OF x] by simp
  qed
qed

text \<open>The same clauses, trail and levels.\<close>

lemma guarded_cong:
  assumes "trail t = trail s" "vtab t = vtab s" "level t = level s" "map ltrail (control t) = map ltrail (control s)"
    and "lits_at t c = lits_at s c" "l \<le> level s" "length (control s) = level s + 1"
  shows "guarded t p l c = guarded s p l c"
proof -
  have len: "length (control t) = length (control s)" using assms(4) by (rule map_eq_imp_length_eq)
  have "ltrail (control t ! i) = ltrail (control s ! i)" if "i < length (control s)" for i
    using assms(4) that len by (metis nth_map)
  then have "cut t l = cut s l" using assms(1,3,6,7) by (simp add: cut_def)
  then show ?thesis using assms(1,2,5) by (simp add: guarded_def held_def var_def)
qed

lemma guards_cong:
  assumes "trail t = trail s" "vtab t = vtab s" "level t = level s" "map ltrail (control t) = map ltrail (control s)"
    and "clauses t = clauses s" "conflict t = conflict s" "length (control s) = level s + 1" "guards s p"
  shows "guards t p"
proof -
  have l: "lits_at t c = lits_at s c" for c using assms(5) by (simp add: lits_at_def)
  have len: "length (control t) = length (control s)" using assms(4) by (rule map_eq_imp_length_eq)
  then have "ltrail (control t ! level s) = ltrail (control s ! level s)" using assms(4,7) by (metis less_add_one nth_map)
  then show ?thesis
    using guardsD [OF assms(8)] guarded_cong [OF assms(1-4) l _ assms(7)] assms unfolding guards_def by auto
qed

text \<open>A literal is put on the trail.\<close>

lemma guarded_puts:
  assumes p: "puts_literal s x v t" and ok: "values_ok s" and x: "lit_in (length (vals s)) x" "val s x = 0"
    and le: "q \<le> length (trail s)" and g: "guarded s q l c"
  shows "guarded t q l c"
proof -
  note P = putsD [OF p] and W = puts_values [OF p ok x]
  have "take (min q (cut t l)) (trail t) = take (min q (cut s l)) (trail s)"
    using le by (simp add: P cut_def min_def)
  moreover have "held t l c" if h: "held s l c"
  proof -
    obtain r where r: "r \<in> set (lits_at s c)" "r \<in> set (trail s)" "lev s r \<le> l" using h by (auto simp: held_def)
    then have "lev t r = lev s r" using W(3) [of r] W(5,6) by (auto simp: vidx_eq)
    then show ?thesis using r by (auto simp: held_def lits_at_def P)
  qed
  ultimately show ?thesis using g by (simp add: guarded_def lits_at_def P)
qed

lemma guards_puts:
  assumes "puts_literal s x v t" "values_ok s" "lit_in (length (vals s)) x" "val s x = 0" "conflict t = conflict s" "guards s q"
  shows "guards t q"
  using guarded_puts [OF assms(1-4) guardsD(2) [OF assms(6)]] guardsD [OF assms(6)] putsD [OF assms(1)] assms(5)
  unfolding guards_def by auto

text \<open>A new level, when all was propagated.\<close>

lemma guards_new_level:
  assumes ok: "levels_ok s" and q: "q = length (trail s)" and n: "conflict s = None" and g: "guards s q"
  shows "guards (new_trail_level lit s) q"
proof -
  let ?t = "new_trail_level lit s"
  note L = levels_okD [OF ok]
  have f: "trail ?t = trail s" "level ?t = level s + 1" "clauses ?t = clauses s" "vtab ?t = vtab s" "conflict ?t = conflict s"
    "ltrail (control ?t ! level ?t) = length (trail s)"
    using L(1) by (simp_all add: new_trail_level_def nth_append)
  have cut: "cut ?t l = cut s (min l (level s))" if "l \<le> level ?t" for l
    using that L(1) by (auto simp: cut_def new_trail_level_def nth_append)
  have "guarded ?t q l c" if l: "l \<le> level ?t" and c: "c < length (clauses s)" for l c
  proof -
    have "guarded s q (min l (level s)) c" using guards_at [OF g n _ c] by simp
    then show ?thesis unfolding guarded_def cut [OF l] f held_def by (auto simp: lits_at_def f(3) var_def f(4))
  qed
  then show ?thesis using q f by (simp add: guards_def)
qed

text \<open>Backtracking.\<close>

lemma guarded_backtrack:
  assumes ok: "trail_ok s" and l: "k \<le> l" "l < level s" and g: "guarded s q k c"
  shows "guarded (backtrack l s) (min q (cut s l)) k c"
proof -
  let ?t = "backtrack l s"
  note T = trail_okD [OF ok]
  note B = backtrack_effect [OF ok less_imp_le [OF l(2)]]
  have cl: "cut s l = ltrail (control s ! (l + 1))" using l(2) by (simp add: cut_def)
  have tk: "take (cut s l) (trail ?t) = take (cut s l) (trail s)" unfolding cl by (rule B(11) [OF l(2)])
  have le: "cut s l \<le> length (trail s)" "cut s k \<le> cut s l" using cut_bounds(1,2) [OF T(2)] l by simp_all
  then have lt: "cut s l \<le> length (trail ?t)" using arg_cong [OF tk, of length] by simp
  have "min (min q (cut s l)) (cut ?t k) = min (min q (cut s l)) (cut s k)"
  proof (cases "k < l")
    case True
    then have "cut ?t k = cut s k" using l levels_okD(1) [OF T(2)] by (simp add: cut_def B(2,3))
    then show ?thesis by simp
  next
    case False
    then have "k = l" using l by simp
    moreover have "cut ?t l = length (trail ?t)" by (simp add: cut_def B(2))
    ultimately show ?thesis using lt by simp
  qed
  then have m: "min (min q (cut s l)) (cut ?t k) = min q (cut s k)" using le(2) by simp
  have "take (min q (cut s k)) (trail ?t) = take (min q (cut s k)) (take (cut s l) (trail ?t))" using le(2) by (simp add: min_def)
  also have "\<dots> = take (min q (cut s k)) (trail s)" unfolding tk using le(2) by (simp add: min_def)
  finally have t: "take (min q (cut s k)) (trail ?t) = take (min q (cut s k)) (trail s)" .
  have "held ?t k c" if h: "held s k c"
  proof -
    obtain r where r: "r \<in> set (lits_at s c)" "r \<in> set (trail s)" "lev s r \<le> k" using h by (auto simp: held_def)
    then show ?thesis using l(1) by (auto simp: held_def lits_at_def B(1,4,7))
  qed
  then show ?thesis using g unfolding guarded_def m t by (simp add: lits_at_def B(4))
qed

lemma guards_backtrack:
  assumes ok: "trail_ok s" and l: "l < level s" and g: "guards s q"
  shows "guards (backtrack l s) (min q (cut s l))"
proof -
  let ?t = "backtrack l s"
  note T = trail_okD [OF ok] and G = guardsD [OF g]
  note L = levels_okD [OF T(2)]
  note B = backtrack_effect [OF ok less_imp_le [OF l]]
  have cl: "cut s l = ltrail (control s ! (l + 1))" using l by (simp add: cut_def)
  have "take (cut s l) (trail ?t) = take (cut s l) (trail s)" unfolding cl by (rule B(11) [OF l])
  from arg_cong [OF this, of length] have "cut s l \<le> length (trail ?t)" using cut_bounds(1) [OF T(2), of l] l by simp
  moreover have "ltrail (control ?t ! l) \<le> q" "ltrail (control ?t ! l) \<le> cut s l"
    using L(1) L(3) [of l "level s"] L(3) [of l "l + 1"] l G(1) by (simp_all add: B(3) cl)
  moreover have "guarded ?t (min q (cut s l)) k c" if "k \<le> l" "c < length (clauses s)" for k c
    using guarded_backtrack [OF ok that(1) l] G(3) that l by simp
  ultimately show ?thesis by (simp add: guards_def B(2,4))
qed

section \<open>Watch lists\<close>

definition watch_ok :: "search \<Rightarrow> int \<Rightarrow> Watch \<Rightarrow> bool" where
  "watch_ok s lit w \<longleftrightarrow> wclause w < length (clauses s) \<and> lit \<in> set (take 2 (lits_at s (wclause w))) \<and>
     blit w \<in> set (lits_at s (wclause w)) \<and> blit w \<noteq> lit \<and> wsize w = length (lits_at s (wclause w))"

text \<open>The lists \<open>W\<close> hold exactly the first two literals of every clause.\<close>

definition lists_ok :: "search \<Rightarrow> (int \<Rightarrow> Watch list) \<Rightarrow> bool" where
  "lists_ok s W \<longleftrightarrow>
     (\<forall>lit. lit_in (length (vals s)) lit \<longrightarrow> distinct (map wclause (W lit)) \<and> (\<forall>w \<in> set (W lit). watch_ok s lit w)) \<and>
     (\<forall>c < length (clauses s). \<forall>lit \<in> set (take 2 (lits_at s c)). c \<in> wclause ` set (W lit))"

lemma lists_okD:
  assumes "lists_ok s W"
  shows "\<And>lit. lit_in (length (vals s)) lit \<Longrightarrow> distinct (map wclause (W lit))"
    "\<And>lit w. lit_in (length (vals s)) lit \<Longrightarrow> w \<in> set (W lit) \<Longrightarrow> watch_ok s lit w"
    "\<And>c lit. c < length (clauses s) \<Longrightarrow> lit \<in> set (take 2 (lits_at s c)) \<Longrightarrow> c \<in> wclause ` set (W lit)"
  using assms unfolding lists_ok_def by blast+

definition tables_ok :: "watched \<Rightarrow> bool" where
  "tables_ok s \<longleftrightarrow> length (wtab s) = 2 * length (vals (core s)) \<and> length (cpos s) = length (clauses (core s)) \<and>
     (\<forall>c < length (clauses (core s)). 2 \<le> cpos s ! c \<and> cpos s ! c \<le> length (lits_at (core s) c))"

lemma lists_ok_cong:
  assumes "clauses t = clauses s" "length (vals t) = length (vals s)"
    and "\<And>lit. lit_in (length (vals s)) lit \<Longrightarrow> W' lit = W lit"
    and "\<And>c lit. c < length (clauses s) \<Longrightarrow> lit \<in> set (lits_at s c) \<Longrightarrow> lit_in (length (vals s)) lit"
  shows "lists_ok t W' = lists_ok s W"
proof -
  have l: "lits_at t c = lits_at s c" for c using assms(1) by (simp add: lits_at_def)
  have w: "watch_ok t = watch_ok s" by (simp add: watch_ok_def l assms(1) fun_eq_iff)
  have "W' lit = W lit" if "c < length (clauses s)" "lit \<in> set (take 2 (lits_at s c))" for c lit
    using assms(3,4) that in_set_takeD by metis
  then show ?thesis using assms(1-3) unfolding lists_ok_def w l by auto
qed

text \<open>A clause gets another order, and its watch moves from \<open>lit\<close> to \<open>r\<close>.\<close>

lemma lists_ok_move:
  assumes W: "lists_ok s W" and c: "c < length (clauses s)" and m: "mset lits = mset (lits_at s c)"
    and old: "set (take 2 (lits_at s c)) = {other, lit}" "other \<noteq> lit" and new: "set (take 2 lits) = {other, r}"
    and r: "r \<noteq> lit" "r \<noteq> other" "b \<in> set lits" "b \<noteq> r"
    and lists: "W' lit = filter (\<lambda>w. wclause w \<noteq> c) (W lit)"
      "W' r = W r @ [\<lparr>wclause = c, blit = b, wsize = length lits\<rparr>]" "\<And>x. x \<noteq> lit \<Longrightarrow> x \<noteq> r \<Longrightarrow> W' x = W x"
    and inr: "\<And>x. x \<in> set (lits_at s c) \<Longrightarrow> lit_in (length (vals s)) x"
  shows "lists_ok (set_lits c lits s) W'"
proof -
  let ?t = "set_lits c lits s"
  note D = lists_okD [OF W]
  have l: "lits_at ?t d = (if d = c then lits else lits_at s d)" for d by (rule lits_at_set_lits [OF c])
  have sl: "set lits = set (lits_at s c)" "length lits = length (lits_at s c)" using m by (metis set_mset_mset, metis size_mset)
  have rin: "lit_in (length (vals s)) r" using inr new in_set_takeD [of r 2 lits] sl by blast
  have nr: "c \<notin> wclause ` set (W r)"
    using D(2) [OF rin] r(1,2) old(1) by (fastforce simp: watch_ok_def)
  have keep: "watch_ok ?t x w" if "watch_ok s x w" "wclause w \<noteq> c \<or> x = other" for x w
    using that sl new unfolding watch_ok_def l by auto
  have "distinct (map wclause (W' x)) \<and> (\<forall>w \<in> set (W' x). watch_ok ?t x w)" if x: "lit_in (length (vals s)) x" for x
  proof -
    have d: "distinct (map wclause (W x))" "\<And>w. w \<in> set (W x) \<Longrightarrow> watch_ok s x w" using D(1,2) [OF x] by blast+
    consider "x = lit" | "x = r" "x \<noteq> lit" | "x \<noteq> r" "x \<noteq> lit" by blast
    then show ?thesis
    proof cases
      case 1
      then show ?thesis using d keep lists(1) by (auto simp: distinct_map_filter)
    next
      case 2
      have "watch_ok ?t r \<lparr>wclause = c, blit = b, wsize = length lits\<rparr>"
        using c new r by (simp add: watch_ok_def l)
      moreover have "watch_ok ?t r w" if "w \<in> set (W r)" for w
        using keep [of r w] d(2) that nr 2(1) by (metis image_eqI)
      ultimately show ?thesis using d(1) nr 2(1) lists(2) by auto
    next
      case 3
      have "watch_ok ?t x w" if w: "w \<in> set (W x)" for w
      proof (rule keep [OF d(2) [OF w]])
        show "wclause w \<noteq> c \<or> x = other" using d(2) [OF w] old(1) 3(2) by (auto simp: watch_ok_def)
      qed
      then show ?thesis using d(1) lists(3) [OF 3(2,1)] by simp
    qed
  qed
  moreover have "d \<in> wclause ` set (W' x)" if d: "d < length (clauses s)" "x \<in> set (take 2 (lits_at ?t d))" for d x
  proof (cases "d = c")
    case True
    then have "x = other \<or> x = r" using d(2) new l by simp
    then show ?thesis using lists(2,3) D(3) [OF c, of other] old r(2) True by auto
  next
    case False
    then obtain w where w: "w \<in> set (W x)" "wclause w = d" using D(3) [OF d(1)] d(2) l by auto
    then have "w \<in> set (W' x)" using lists False by (cases "x = lit"; cases "x = r") (auto simp: r)
    then show ?thesis using w(2) by blast
  qed
  ultimately show ?thesis by (simp add: lists_ok_def)
qed

text \<open>Another order of a clause that keeps its watches.\<close>

lemma lists_ok_reorder:
  assumes W: "lists_ok s W" and c: "c < length (clauses s)" and m: "mset lits = mset (lits_at s c)"
    and same: "set (take 2 lits) = set (take 2 (lits_at s c))"
  shows "lists_ok (set_lits c lits s) W"
proof -
  have l: "lits_at (set_lits c lits s) d = (if d = c then lits else lits_at s d)" for d by (rule lits_at_set_lits [OF c])
  have sl: "set lits = set (lits_at s c)" "length lits = length (lits_at s c)" using m by (metis set_mset_mset, metis size_mset)
  have "watch_ok (set_lits c lits s) x w = watch_ok s x w" for x w
    using sl same by (simp add: watch_ok_def l)
  moreover have "set (take 2 (lits_at (set_lits c lits s) d)) = set (take 2 (lits_at s d))" for d using same l by simp
  ultimately show ?thesis using W by (simp add: lists_ok_def)
qed

text \<open>Another blocking literal.\<close>

lemma lists_ok_blit:
  assumes W: "lists_ok s (W(lit := ks @ w # ws))" and b: "b \<in> set (lits_at s (wclause w))" "b \<noteq> lit"
  shows "lists_ok s (W(lit := ks @ w\<lparr>blit := b\<rparr> # ws))"
proof -
  let ?V = "W(lit := ks @ w # ws)" and ?V' = "W(lit := ks @ w\<lparr>blit := b\<rparr> # ws)"
  have m: "map wclause (?V' x) = map wclause (?V x)" for x by simp
  have w: "watch_ok s x v" if "v \<in> set (?V' x)" "lit_in (length (vals s)) x" for x v
  proof (cases "v \<in> set (?V x)")
    case False
    then have v: "x = lit" "v = w\<lparr>blit := b\<rparr>" using that(1) by (auto split: if_splits)
    have "watch_ok s lit w" using lists_okD(2) [OF W, of lit w] that(2) v(1) by simp
    then show ?thesis using b by (simp add: v watch_ok_def)
  qed (rule lists_okD(2) [OF W that(2)])
  have i: "wclause ` set (?V' x) = wclause ` set (?V x)" for x using arg_cong [OF m, of set] by simp
  have d: "distinct (map wclause (?V' x))" if "lit_in (length (vals s)) x" for x unfolding m by (rule lists_okD(1) [OF W that])
  have c: "c \<in> wclause ` set (?V' x)" if "c < length (clauses s)" "x \<in> set (take 2 (lits_at s c))" for c x
    unfolding i by (rule lists_okD(3) [OF W that])
  show ?thesis unfolding lists_ok_def using d w c by blast
qed

lemma watches_simps:
  assumes "length (wtab s) = 2 * n" "lit_in n lit" "lit_in n x"
  shows "watches (watch_literal lit other c s) x =
      (if x = lit then watches s x @ [\<lparr>wclause = c, blit = other, wsize = length (lits_at (core s) c)\<rparr>] else watches s x)"
    "watches (remove_watch lit c s) x = (if x = lit then filter (\<lambda>w. wclause w \<noteq> c) (watches s x) else watches s x)"
    "watches (s\<lparr>wtab := (wtab s)[vlit lit := ws]\<rparr>) x = (if x = lit then ws else watches s x)"
  using vlit_less [OF assms(2)] vlit_less [OF assms(3)] assms(1)
  by (auto simp: watches_def watch_literal_def remove_watch_def upd_nth_def nth_list_update vlit_eq)

end
