(* ===== verification/Watch_Reach.thy ===== *)
theory Watch_Reach
  imports Watch_Invariant
begin

text \<open>
  States reached by the search without watches, and what the scans of propagation find.
\<close>

section \<open>Reaching\<close>

definition reaches :: "search_opts \<Rightarrow> (int \<times> int list) list \<Rightarrow> search \<Rightarrow> search \<Rightarrow> bool" where
  "reaches opts fs s t \<longleftrightarrow> (\<exists>es. run_search opts fs es s = Some t)"

lemma reaches_refl [simp]: "reaches opts fs s s"
  unfolding reaches_def by (rule exI [of _ "[]"]) simp

lemma run_search_append:
  "run_search opts fs (es @ es') s = Option.bind (run_search opts fs es s) (run_search opts fs es')"
  by (induction es arbitrary: s) (auto split: bind_splits)

lemma reaches_trans [trans]: "reaches opts fs s t \<Longrightarrow> reaches opts fs t u \<Longrightarrow> reaches opts fs s u"
  unfolding reaches_def using run_search_append by (metis Option.bind_lunit)

lemma reaches_step: "enabled fs e s \<Longrightarrow> perform opts e s = Some t \<Longrightarrow> reaches opts fs s t"
  unfolding reaches_def by (rule exI [of _ "[e]"]) simp

lemma reaches_ok: "formula_ok n fs \<Longrightarrow> step_ok opts n fs s \<Longrightarrow> reaches opts fs s t \<Longrightarrow> step_ok opts n fs t"
  unfolding reaches_def using run_search_ok by blast

lemma step_okD:
  assumes "step_ok opts n fs s"
  shows "trail_ok s" "length (vals s) = n + 1" "idle s"
  using assms core_okD(1,2) unfolding step_ok_def search_ok_def by blast+

text \<open>The state without its conflict, which the further assignments do not read.\<close>

definition calm :: "search \<Rightarrow> search" where
  "calm s = s\<lparr>conflict := None\<rparr>"

lemma calm_simps [simp]:
  "vals (calm s) = vals s" "vtab (calm s) = vtab s" "trail (calm s) = trail s" "control (calm s) = control s"
  "level (calm s) = level s" "clauses (calm s) = clauses s" "unsat (calm s) = unsat s" "conflict (calm s) = None"
  "val (calm s) lit = val s lit" "var (calm s) lit = var s lit" "lits_at (calm s) c = lits_at s c"
  "calm (s\<lparr>conflict := cc\<rparr>) = calm s" "calm (set_lits c lits s) = set_lits c lits (calm s)"
  by (simp_all add: calm_def set_lits_def)

lemma calm_None: "conflict s = None \<Longrightarrow> calm s = s"
  by (simp add: calm_def)

lemma calm_trail_ok [simp]: "trail_ok (calm s) = trail_ok s"
  unfolding trail_ok_def values_ok_def levels_ok_def reason_ok_def clauses_ok_def calm_simps Let_def by (rule refl)

lemma calm_build: "calm (build_chain_for_units opts x c b s) = build_chain_for_units opts x c b (calm s)"
proof -
  have "assignment_level (calm s) x c = assignment_level s x c" by (rule assignment_level_cong) simp_all
  moreover have "unit_id (calm s) = unit_id s" by (simp add: unit_id_def calm_def fun_eq_iff)
  ultimately show ?thesis by (simp add: build_chain_for_units_def) (simp add: calm_def)
qed

lemma calm_assign: "calm (search_assign opts x r s) = search_assign opts x r (calm s)"
proof -
  have "assignment_level (calm s) x c = assignment_level s x c" for c by (rule assignment_level_cong) simp_all
  then have "(case r of No_reason \<Rightarrow> 0 | Decision_reason \<Rightarrow> level (calm s) | Reason c \<Rightarrow> assignment_level (calm s) x c) =
    (case r of No_reason \<Rightarrow> 0 | Decision_reason \<Rightarrow> level s | Reason c \<Rightarrow> assignment_level s x c)" by (cases r) simp_all
  then show ?thesis unfolding search_assign_def Let_def
    by (simp add: learn_unit_clause_def set_val_def Let_def) (simp add: calm_def)
qed

lemma calm_propagate: "calm (propagate_unit opts x c s) = propagate_unit opts x c (calm s)"
  by (simp add: propagate_unit_def calm_build calm_assign)

lemma propagate_unit_fields [simp]:
  "trail (propagate_unit opts x c s) = trail s @ [x]" "level (propagate_unit opts x c s) = level s"
  "control (propagate_unit opts x c s) = control s" "clauses (propagate_unit opts x c s) = clauses s"
  "conflict (propagate_unit opts x c s) = conflict s" "unsat (propagate_unit opts x c s) = unsat s"
  "length (vals (propagate_unit opts x c s)) = length (vals s)"
  by (simp_all add: propagate_unit_def build_chain_for_units_def search_assign_def learn_unit_clause_def set_val_def Let_def)

section \<open>The replacement search\<close>

lemma scan_false_spec:
  assumes "v < 0" "scan_false s xs k v = (k', v')"
  shows "if v' < 0 then k' = k + length xs \<and> (\<forall>x \<in> set xs. val s x < 0)
    else k \<le> k' \<and> k' < k + length xs \<and> v' = val s (xs ! (k' - k))"
  using assms
proof (induction xs arbitrary: k v)
  case (Cons x xs)
  show ?case
  proof (cases "val s x < 0")
    case True
    then have e: "scan_false s xs (k + 1) (val s x) = (k', v')" using Cons.prems(2) by (simp add: Let_def)
    show ?thesis using Cons.IH [OF True e] True by (auto simp: nth_Cons' split: if_splits)
  next
    case False
    then show ?thesis using Cons.prems(2) by (auto simp: Let_def)
  qed
qed simp

lemma find_replacement_spec:
  assumes f: "find_replacement s lits pos = (k, v)" and pos: "2 \<le> pos" "pos \<le> length lits"
  shows "2 \<le> k" "k \<le> length lits" "v < 0 \<Longrightarrow> \<forall>x \<in> set (drop 2 lits). val s x < 0"
    "\<not> v < 0 \<Longrightarrow> k < length lits \<and> v = val s (lits ! k)"
proof -
  obtain k1 v1 where s1: "scan_false s (drop pos lits) pos (- 1) = (k1, v1)" by fastforce
  note S1 = scan_false_spec [OF _ s1]
  have a: "2 \<le> k \<and> k \<le> length lits \<and>
    (if v < 0 then \<forall>x \<in> set (drop 2 lits). val s x < 0 else k < length lits \<and> v = val s (lits ! k))"
  proof (cases "v1 < 0")
    case False
    then show ?thesis using S1 f s1 pos by (auto simp: find_replacement_def)
  next
    case True
    then have s2: "scan_false s (drop 2 (take pos lits)) 2 v1 = (k, v)" using f s1 by (simp add: find_replacement_def)
    note S2 = scan_false_spec [OF True s2]
    have "drop 2 lits = drop 2 (take pos lits) @ drop pos lits"
      using pos append_take_drop_id [of pos lits] by (metis drop_append drop_take length_take min.absorb2 diff_is_0_eq drop_0)
    then have "set (drop 2 lits) = set (drop 2 (take pos lits)) \<union> set (drop pos lits)" by simp
    moreover have "drop 2 (take pos lits) ! (k - 2) = lits ! k" if "2 \<le> k" "k < pos"
      using that pos by (simp add: Suc_diff_Suc numeral_2_eq_2)
    ultimately show ?thesis using S1 True S2 pos by (auto split: if_splits)
  qed
  then show "2 \<le> k" "k \<le> length lits" "v < 0 \<Longrightarrow> \<forall>x \<in> set (drop 2 lits). val s x < 0"
    "\<not> v < 0 \<Longrightarrow> k < length lits \<and> v = val s (lits ! k)" by (auto split: if_splits)
qed

lemma level_position_spec:
  "level_position s l lits pos = Some q \<Longrightarrow> pos \<le> q \<and> q < pos + length lits \<and> lev s (lits ! (q - pos)) = l"
proof (induction lits arbitrary: pos)
  case (Cons x lits)
  show ?case
  proof (cases "lev s x = l")
    case False
    then show ?thesis using Cons.IH [of "pos + 1"] Cons.prems by (auto simp: nth_Cons')
  qed (use Cons.prems in auto)
qed simp

lemma level_position_found: "x \<in> set lits \<Longrightarrow> lev s x = l \<Longrightarrow> \<exists>q. level_position s l lits pos = Some q"
  by (induction lits arbitrary: pos) auto

text \<open>The two watched literals and the others.\<close>

lemma take_2: "2 \<le> length xs \<Longrightarrow> take 2 xs = [xs ! 0, xs ! 1]"
  by (cases xs; cases "tl xs") (auto simp: numeral_2_eq_2)

lemma set_take_drop: "set xs = set (take n xs) \<union> set (drop n xs)"
  by (metis append_take_drop_id set_append)

lemma xor_other:
  fixes a b :: int
  shows "xor (xor a b) a = b" "xor (xor a b) b = a"
  by (simp_all add: xor.assoc xor.left_commute xor.commute [of a b])

lemma mset_rewatch:
  assumes x: "2 \<le> k" "k < length xs" "(xs ! 0 = b \<and> xs ! 1 = a) \<or> (xs ! 0 = a \<and> xs ! 1 = b)"
  shows "mset (xs[0 := b, 1 := xs ! k, k := a]) = mset xs" "mset (xs[k := a, 0 := b, 1 := xs ! k]) = mset xs"
proof -
  obtain x0 x1 ys where ys: "xs = x0 # x1 # ys"
    using x(1,2) by (cases xs rule: remdups_adj.cases) auto
  obtain j where j: "k = Suc (Suc j)" using that [of "k - 2"] x(1) by arith
  then have l: "j < length ys" using x(2) ys by simp
  have "add_mset (ys ! j) (mset ys - {#ys ! j#}) = mset ys" using l by simp
  then have m: "add_mset (ys ! j) (mset (ys[j := a])) = add_mset a (mset ys)"
    unfolding mset_update [OF l] by (subst add_mset_commute) (rule arg_cong)
  have e: "xs[0 := b, 1 := xs ! k, k := a] = b # ys ! j # ys[j := a]" "xs[k := a, 0 := b, 1 := xs ! k] = b # ys ! j # ys[j := a]"
    by (simp_all add: ys j)
  have "mset (b # ys ! j # ys[j := a]) = add_mset b (add_mset a (mset ys))" using m by simp
  also have "\<dots> = mset xs" using x(3) by (auto simp: ys)
  finally have q: "mset (b # ys ! j # ys[j := a]) = mset xs" .
  show "mset (xs[0 := b, 1 := xs ! k, k := a]) = mset xs" "mset (xs[k := a, 0 := b, 1 := xs ! k]) = mset xs"
    unfolding e by (rule q)+
qed

end
