(* ===== verification/Watch_Visit.thy ===== *)
theory Watch_Visit
  imports Watch_Reach
begin

text \<open>
  The loop over one watch list: it returns, keeps the watch lists, takes enabled steps of the search and leaves
  every visited clause guarded or a conflict.
\<close>

section \<open>During the propagation of a literal\<close>

text \<open>
  While the watches \<open>ws\<close> of \<open>lit\<close> are still to be visited: \<open>ks\<close> are kept. What was propagated before
  is guarded, and without conflict the clauses in \<open>ks\<close> have a true literal.
\<close>

definition visiting ::
  "search_opts \<Rightarrow> nat \<Rightarrow> (int \<times> int list) list \<Rightarrow> int \<Rightarrow> Watch list \<Rightarrow> Watch list \<Rightarrow> watched \<Rightarrow> bool" where
  "visiting opts n fs lit ks ws s \<longleftrightarrow>
     (let t = core s; p = propagated s - 1
      in step_ok opts n fs (calm t) \<and> \<not> unsat t \<and> 0 < propagated s \<and> p < length (trail t) \<and> lit = - (trail t ! p) \<and>
         ltrail (control t ! level t) \<le> p \<and> tables_ok s \<and> lists_ok t ((watches s)(lit := ks @ ws)) \<and>
         (\<forall>l \<le> level t. \<forall>c < length (clauses t). guarded t p l c) \<and>
         (conflict t = None \<longrightarrow> (\<forall>w \<in> set ks. held t (level t) (wclause w))) \<and>
         (\<forall>c. conflict t = Some c \<longrightarrow> falsified t c))"

lemma visitingD:
  assumes "visiting opts n fs lit ks ws s"
  shows "step_ok opts n fs (calm (core s))" "\<not> unsat (core s)" "0 < propagated s" "propagated s - 1 < length (trail (core s))"
    "lit = - (trail (core s) ! (propagated s - 1))" "ltrail (control (core s) ! level (core s)) \<le> propagated s - 1"
    "tables_ok s" "lists_ok (core s) ((watches s)(lit := ks @ ws))"
    "\<And>l c. l \<le> level (core s) \<Longrightarrow> c < length (clauses (core s)) \<Longrightarrow> guarded (core s) (propagated s - 1) l c"
    "\<And>w. conflict (core s) = None \<Longrightarrow> w \<in> set ks \<Longrightarrow> held (core s) (level (core s)) (wclause w)"
    "\<And>c. conflict (core s) = Some c \<Longrightarrow> falsified (core s) c"
    "trail_ok (core s)"
proof -
  show "step_ok opts n fs (calm (core s))" using assms unfolding visiting_def Let_def by blast
  from step_okD(1) [OF this] show "trail_ok (core s)" by simp
qed (use assms in \<open>unfold visiting_def Let_def, blast+\<close>)

text \<open>The values of literals, read off the trail.\<close>

lemma truth:
  assumes "trail_ok s" "c < length (clauses s)" "x \<in> set (lits_at s c)"
  shows "val s x > 0 \<longleftrightarrow> x \<in> set (trail s)" "val s x < 0 \<longleftrightarrow> - x \<in> set (trail s)"
    "val s x = 0 \<longleftrightarrow> x \<notin> set (trail s) \<and> - x \<notin> set (trail s)"
  using val_true_iff [OF trail_okD(1) [OF assms(1)] clauses_okD(3) [OF trail_okD(4) [OF assms(1)] assms(2,3)]] .

lemma held_true: "trail_ok s \<Longrightarrow> r \<in> set (lits_at s c) \<Longrightarrow> r \<in> set (trail s) \<Longrightarrow> held s (level s) c"
  using levels_okD(4) [OF trail_okD(2)] unfolding held_def by blast

text \<open>What the first watch to be visited says about its clause.\<close>

lemma visiting_watch:
  assumes v: "visiting opts n fs lit ks (w # ws) s"
  defines "c \<equiv> wclause w" and "lits \<equiv> lits_at (core s) (wclause w)"
  shows "c < length (clauses (core s))" "lit \<in> set (take 2 lits)" "lit \<in> set lits" "blit w \<in> set lits" "blit w \<noteq> lit"
    "wsize w = length lits" "2 \<le> length lits" "distinct lits" "lit_in (length (vals (core s))) lit"
    "- lit \<in> set (trail (core s))" "val (core s) lit < 0" "\<And>x. x \<in> set lits \<Longrightarrow> lit_in (length (vals (core s))) x"
    "\<And>x. x \<in> set ks \<union> set ws \<Longrightarrow> wclause x \<noteq> c"
proof -
  note V = visitingD [OF v]
  note T = trail_okD [OF V(12)]
  show t: "- lit \<in> set (trail (core s))" using V(4,5) by simp
  have "lit_in (length (vals (core s))) (- lit)" using values_okD(4) [OF T(1) t] .
  then show l: "lit_in (length (vals (core s))) lit" by (simp add: lit_in_def)
  have "watch_ok (core s) lit w" using lists_okD(2) [OF V(8) l] by simp
  then show c: "c < length (clauses (core s))" "lit \<in> set (take 2 lits)" "blit w \<in> set lits" "blit w \<noteq> lit" "wsize w = length lits"
    by (simp_all add: watch_ok_def c_def lits_def)
  show "2 \<le> length lits" "distinct lits" "\<And>x. x \<in> set lits \<Longrightarrow> lit_in (length (vals (core s))) x"
    using clauses_okD [OF T(4) c(1)] by (simp_all add: lits_def c_def)
  show i: "lit \<in> set lits" using c(2) in_set_takeD by metis
  show "val (core s) lit < 0" using truth(2) [OF V(12) c(1)] i t by (simp add: lits_def c_def)
  show "wclause x \<noteq> c" if "x \<in> set ks \<union> set ws" for x
    using lists_okD(1) [OF V(8) l] that by (force simp: c_def)
qed

text \<open>The watch is kept: its clause has a true literal or there is a conflict.\<close>

lemma visiting_keep:
  assumes v: "visiting opts n fs lit ks (w # ws) s" and h: "conflict (core s) = None \<Longrightarrow> held (core s) (level (core s)) (wclause w)"
  shows "visiting opts n fs lit (ks @ [w]) ws s"
  using v h unfolding visiting_def Let_def by auto

lemma visiting_blit:
  assumes v: "visiting opts n fs lit ks (w # ws) s" and b: "b \<in> set (lits_at (core s) (wclause w))" "b \<in> set (trail (core s))"
  shows "visiting opts n fs lit (ks @ [w\<lparr>blit := b\<rparr>]) ws s"
proof -
  note V = visitingD [OF v] and W = visiting_watch [OF v]
  have "b \<noteq> lit" using b(2) W(10) trail_consistent [OF trail_okD(1) [OF V(12)]] by auto
  then have "lists_ok (core s) ((watches s)(lit := ks @ w\<lparr>blit := b\<rparr> # ws))" by (rule lists_ok_blit [OF V(8) b(1)])
  then have "visiting opts n fs lit ks (w\<lparr>blit := b\<rparr> # ws) s" using v unfolding visiting_def Let_def by simp
  moreover have "held (core s) (level (core s)) (wclause (w\<lparr>blit := b\<rparr>))" using held_true [OF V(12)] b by simp
  ultimately show ?thesis by (rule visiting_keep)
qed

text \<open>A conflict, which stays.\<close>

lemma visiting_conflict:
  assumes v: "visiting opts n fs lit ks ws s" and f: "falsified (core s) c"
  shows "visiting opts n fs lit ks ws (on_core (\<lambda>s. s\<lparr>conflict := Some c\<rparr>) s)"
proof -
  let ?t = "core s\<lparr>conflict := Some c\<rparr>"
  have g: "guarded ?t p l d = guarded (core s) p l d" for p l d by (simp add: guarded_def held_def cut_def)
  have l: "lists_ok ?t W = lists_ok (core s) W" for W by (simp add: lists_ok_def watch_ok_def)
  have "watches (on_core (\<lambda>s. s\<lparr>conflict := Some c\<rparr>) s) = watches s" by (simp add: watches_def on_core_def fun_eq_iff)
  moreover have "core (on_core (\<lambda>s. s\<lparr>conflict := Some c\<rparr>) s) = ?t" "propagated (on_core (\<lambda>s. s\<lparr>conflict := Some c\<rparr>) s) = propagated s"
    "tables_ok (on_core (\<lambda>s. s\<lparr>conflict := Some c\<rparr>) s) = tables_ok s"
    by (simp_all add: on_core_def tables_ok_def)
  moreover have "falsified ?t c" using f by (simp add: falsified_def)
  ultimately show ?thesis
    using visitingD [OF v] unfolding visiting_def Let_def by (auto simp: g l)
qed

text \<open>A unit is assigned.\<close>

lemma visiting_assign:
  assumes f: "formula_ok n fs" and v: "visiting opts n fs lit ks ws s" and c: "c < length (clauses (core s))"
    and x: "x \<in> set (lits_at (core s) c)" "val (core s) x = 0" "others_false (core s) x c"
  defines "t \<equiv> on_core (propagate_unit opts x c) s"
  shows "visiting opts n fs lit ks ws t" "reaches opts fs (calm (core s)) (calm (core t))" "held (core t) (level (core t)) c"
    "lev (core t) x = assignment_level (core s) x c" "\<And>y. - y \<in> set (trail (core s)) \<Longrightarrow> lev (core t) y = lev (core s) y"
proof -
  note V = visitingD [OF v]
  let ?s = "core s" and ?t = "propagate_unit opts x c (core s)"
  have ct: "core t = ?t" by (simp add: t_def)
  note T = trail_okD [OF V(12)]
  have xi: "lit_in (length (vals ?s)) x" using clauses_okD(3) [OF T(4) c x(1)] .
  note P = putsD [OF propagate_unit_puts [of ?s x c opts]] and W = puts_values [OF propagate_unit_puts [of ?s x c opts] T(1) xi x(2)]
  have "enabled fs (Propagate x c) (calm ?s)"
    using V(2) c x by (simp add: enabled_def others_false_def)
  moreover have "perform opts (Propagate x c) (calm ?s) = Some (calm ?t)" by (simp add: perform_def calm_propagate)
  ultimately show r: "reaches opts fs (calm ?s) (calm (core t))" unfolding ct by (rule reaches_step)
  have so: "step_ok opts n fs (calm ?t)" using reaches_ok [OF f V(1) r] by (simp add: ct)
  then have tok: "trail_ok ?t" using step_okD(1) by fastforce
  show "lev (core t) x = assignment_level ?s x c" by (simp add: ct W(3) assigned_var_def Let_def)
  show old: "lev (core t) y = lev ?s y" if "- y \<in> set (trail ?s)" for y
    using that W(3,5,6) by (auto simp: ct vidx_eq)
  have la: "lits_at ?t d = lits_at ?s d" for d by (simp add: lits_at_def)
  show "held (core t) (level (core t)) c" unfolding ct by (rule held_true [OF tok, of x]) (use x(1) la in simp_all)
  have g: "guarded ?t (propagated s - 1) l d" if "l \<le> level ?s" "d < length (clauses ?s)" for l d
    using guarded_puts [OF propagate_unit_puts [of ?s x c opts] T(1) xi x(2) _ V(9) [OF that]] V(4) by simp
  have h: "held ?t (level ?t) d" if h: "held ?s (level ?s) d" for d
  proof -
    obtain r where "r \<in> set (lits_at ?s d)" "r \<in> set (trail ?s)" using h by (auto simp: held_def)
    then show ?thesis using held_true [OF tok, of r d] la by simp
  qed
  have lo: "lists_ok ?t ((watches s)(lit := ks @ ws))"
    using V(8) by (subst lists_ok_cong [where s = ?s]) (simp_all add: W(1) clauses_okD(3) [OF T(4)])
  have w: "watches t = watches s" "propagated t = propagated s" "tables_ok t"
    using V(7) by (simp_all add: t_def watches_def on_core_def fun_eq_iff tables_ok_def la)
  have fa: "falsified ?t d" if "falsified ?s d" for d using that by (auto simp: falsified_def la)
  show "visiting opts n fs lit ks ws t"
    unfolding visiting_def Let_def ct w(1,2)
    using so V(2-6) lo w(3) g V(10,11) h fa by (auto simp: nth_append)
qed

text \<open>The position of the last replacement is saved.\<close>

lemma visiting_cpos:
  assumes v: "visiting opts n fs lit ks ws s" and k: "2 \<le> k" "k \<le> length (lits_at (core s) c)"
  shows "visiting opts n fs lit ks ws (s\<lparr>cpos := (cpos s)[c := k]\<rparr>)"
proof -
  have "(cpos s)[c := k] ! d = (if d = c then k else cpos s ! d)" if "d < length (cpos s)" for d
    using that by (simp add: nth_list_update)
  then have "tables_ok (s\<lparr>cpos := (cpos s)[c := k]\<rparr>)"
    using visitingD(7) [OF v] k by (simp add: tables_ok_def)
  moreover have "watches (s\<lparr>cpos := (cpos s)[c := k]\<rparr>) = watches s" by (simp add: watches_def fun_eq_iff)
  ultimately show ?thesis using v unfolding visiting_def Let_def by auto
qed

text \<open>The watch moves to another literal of the clause.\<close>

lemma visiting_move:
  assumes f: "formula_ok n fs" and v: "visiting opts n fs lit ks (w # ws) s" and nc: "conflict (core s) = None"
  defines "c \<equiv> wclause w" and "lits \<equiv> lits_at (core s) (wclause w)"
  assumes m: "mset lits' = mset lits" and new: "lits' ! 0 = other" "lits' ! 1 = r"
    and other: "set (take 2 lits) = {other, lit}" "other \<noteq> lit" and r: "r \<in> set (drop 2 lits)"
    and g: "\<And>l. l \<le> level (core s) \<Longrightarrow> - r \<in> set (take (min (propagated s - 1) (cut (core s) l)) (trail (core s))) \<Longrightarrow> held (core s) l c"
  defines "t \<equiv> watch_literal r lit c (on_core (set_lits c lits') s)"
  shows "visiting opts n fs lit ks ws t" "reaches opts fs (calm (core s)) (calm (core t))"
proof -
  note V = visitingD [OF v] and W = visiting_watch [OF v, folded c_def lits_def]
  let ?s = "core s" and ?t = "set_lits c lits' (core s)"
  have ct: "core t = ?t" by (simp add: t_def)
  have lc: "lits_at (core s) c = lits" by (simp add: lits_def c_def)
  have sl: "set lits' = set lits" "length lits' = length lits" using m by (metis set_mset_mset, metis size_mset)
  have t2: "take 2 lits' = [other, r]" using take_2 [of lits'] W(7) sl(2) new by simp
  have la: "lits_at ?t d = (if d = c then lits' else lits_at ?s d)" for d by (rule lits_at_set_lits [OF W(1)])
  have "set (take 2 lits) \<inter> set (drop 2 lits) = {}" using W(8) by (metis append_take_drop_id distinct_append)
  then have rn: "r \<noteq> lit" "r \<noteq> other" using other r by auto
  have rin: "lit_in (length (vals ?s)) r" using W(12) r in_set_dropD by metis
  have "enabled fs (Reorder c lits') (calm ?s)"
    using V(2) W(1) m by (simp add: enabled_def lits_def c_def)
  moreover have "perform opts (Reorder c lits') (calm ?s) = Some (calm ?t)" by (simp add: perform_def set_lits_def calm_def)
  ultimately show rr: "reaches opts fs (calm ?s) (calm (core t))" unfolding ct by (rule reaches_step)
  have so: "step_ok opts n fs (calm ?t)" using reaches_ok [OF f V(1) rr] by (simp add: ct)
  have tok: "trail_ok ?t" using step_okD(1) [OF so] unfolding calm_trail_ok .
  have h: "held ?t l d = held ?s l d" for l d using sl(1) lc by (simp add: held_def la)
  have gd: "guarded ?t (propagated s - 1) l d" if "l \<le> level ?s" "d < length (clauses ?s)" for l d
  proof (cases "d = c")
    case False
    then show ?thesis using V(9) [OF that] by (simp add: guarded_def cut_def la h)
  next
    case True
    have g0: "guarded ?s (propagated s - 1) l c" using V(9) that True by simp
    have "other \<in> set (take 2 lits)" using other(1) by simp
    then obtain j where j: "j < 2" "other = lits ! j" using W(7) by (auto simp: in_set_conv_nth)
    have "held ?s l c"
      if i: "i < 2" "- (lits' ! i) \<in> set (take (min (propagated s - 1) (cut ?s l)) (trail ?s))" for i
    proof (cases "i = 0")
      case True
      then show ?thesis using g0 j i(2) new(1) unfolding guarded_def lits_def c_def by metis
    next
      case False
      then have "i = 1" using i(1) by simp
      then show ?thesis using g [OF \<open>l \<le> level ?s\<close>] i(2) new(2) by simp
    qed
    then show ?thesis unfolding True guarded_def h la by (simp add: cut_def)
  qed
  have len: "length (wtab s) = 2 * length (vals ?s)" using V(7) by (simp add: tables_ok_def)
  have wo: "wtab (on_core (set_lits c lits') s) = wtab s" "watches (on_core (set_lits c lits') s) = watches s"
    by (simp_all add: watches_def on_core_def fun_eq_iff)
  note ws = watches_simps(1) [of "on_core (set_lits c lits') s" "length (vals ?s)", OF _ rin]
  have wt: "watches t x = (if x = r then watches s x @ [\<lparr>wclause = c, blit = lit, wsize = length lits'\<rparr>] else watches s x)"
    if "lit_in (length (vals ?s)) x" for x
    using ws [OF _ that, of lit c] len la [of c] by (simp add: t_def wo)
  let ?W = "(watches s)(lit := ks @ w # ws)"
  let ?W' = "(?W(r := ?W r @ [\<lparr>wclause = c, blit = lit, wsize = length lits'\<rparr>]))(lit := ks @ ws)"
  have "filter (\<lambda>w. wclause w \<noteq> c) (ks @ w # ws) = ks @ ws" using W(13) by (auto simp: c_def filter_id_conv)
  then have "lists_ok ?t ?W'"
    using W(12) rn W(3) sl(1) new t2 other m
    by (intro lists_ok_move [OF V(8) W(1), of lits' other lit r lit]) (simp_all add: lits_def c_def)
  moreover have "lists_ok ?t ((watches t)(lit := ks @ ws)) = lists_ok ?t ?W'"
  proof (rule lists_ok_cong)
    show "((watches t)(lit := ks @ ws)) x = ?W' x" if "lit_in (length (vals ?t)) x" for x
      using wt [of x] that rn by simp
    show "lit_in (length (vals ?t)) x" if "d < length (clauses ?t)" "x \<in> set (lits_at ?t d)" for d x
      using clauses_okD(3) [OF trail_okD(4) [OF tok], of d x] that by simp
  qed simp_all
  ultimately have lo: "lists_ok ?t ((watches t)(lit := ks @ ws))" by simp
  have pt: "propagated t = propagated s" "cpos t = cpos s" "length (wtab t) = length (wtab s)"
    by (simp_all add: t_def watch_literal_def on_core_def)
  have "length (lits_at ?t d) = length (lits_at ?s d)" for d using sl(2) lc la [of d] by simp
  then have tb: "tables_ok t" using V(7) by (simp add: tables_ok_def ct pt)
  show "visiting opts n fs lit ks ws t"
    unfolding visiting_def Let_def ct pt
    using so V(2-6) tb lo gd V(10) nc h by simp
qed

section \<open>Visiting a watch\<close>

definition option_list :: "'a option \<Rightarrow> 'a list" where
  "option_list x = (case x of None \<Rightarrow> [] | Some y \<Rightarrow> [y])"

lemma option_list_simps [simp]: "option_list None = []" "option_list (Some y) = [y]"
  by (simp_all add: option_list_def)

text \<open>What visiting the first watch comes to.\<close>

definition visited ::
  "search_opts \<Rightarrow> nat \<Rightarrow> (int \<times> int list) list \<Rightarrow> int \<Rightarrow> Watch list \<Rightarrow> Watch list \<Rightarrow> watched \<Rightarrow> (Watch option \<times> bool \<times> watched) option \<Rightarrow> bool" where
  "visited opts n fs lit ks ws s r \<longleftrightarrow>
     (\<exists>k stop t. r = Some (k, stop, t) \<and> visiting opts n fs lit (ks @ option_list k) ws t \<and>
        reaches opts fs (calm (core s)) (calm (core t)) \<and> (stop \<longrightarrow> conflict (core t) \<noteq> None))"

lemma visitedI:
  "visiting opts n fs lit (ks @ option_list k) ws t \<Longrightarrow> reaches opts fs (calm (core s)) (calm (core t)) \<Longrightarrow>
    (stop \<Longrightarrow> conflict (core t) \<noteq> None) \<Longrightarrow> visited opts n fs lit ks ws s (Some (k, stop, t))"
  unfolding visited_def by blast

text \<open>The other watched literal.\<close>

lemma second_watch:
  fixes lits :: "int list"
  assumes "lit \<in> set (take 2 lits)" "2 \<le> length lits" "distinct lits"
  defines "other \<equiv> xor (xor (lits ! 0) (lits ! 1)) lit"
  shows "set (take 2 lits) = {other, lit}" "other \<noteq> lit" "other \<in> set lits"
    "(lits ! 0 = other \<and> lits ! 1 = lit) \<or> (lits ! 0 = lit \<and> lits ! 1 = other)"
    "\<And>x. x \<in> set lits \<Longrightarrow> x = other \<or> x = lit \<or> x \<in> set (drop 2 lits)"
proof -
  have t: "take 2 lits = [lits ! 0, lits ! 1]" by (rule take_2 [OF assms(2)])
  have ne: "lits ! 0 \<noteq> lits ! 1" using assms(2,3) unfolding distinct_conv_nth by (metis Suc_1 Suc_le_lessD less_trans zero_less_one zero_neq_one One_nat_def)
  show o: "(lits ! 0 = other \<and> lits ! 1 = lit) \<or> (lits ! 0 = lit \<and> lits ! 1 = other)"
    using assms(1) xor_other [of "lits ! 0" "lits ! 1"] unfolding t other_def by fastforce
  then show s: "set (take 2 lits) = {other, lit}" "other \<noteq> lit" using ne unfolding t by auto
  then show "other \<in> set lits" using in_set_takeD by (metis insertI1)
  show "x = other \<or> x = lit \<or> x \<in> set (drop 2 lits)" if "x \<in> set lits" for x
    using that set_take_drop [of lits 2] s(1) by auto
qed

text \<open>A unit, perhaps watched at another literal.\<close>

lemma rewatch_visited:
  assumes f: "formula_ok n fs" and v: "visiting opts n fs lit ks (w # ws) s" and nc: "conflict (core s) = None"
  defines "c \<equiv> wclause w" and "lits \<equiv> lits_at (core s) (wclause w)"
  defines "other \<equiv> xor (xor (lits ! 0) (lits ! 1)) lit"
  assumes u: "val (core s) other = 0" and low: "\<forall>x \<in> set (drop 2 lits). val (core s) x < 0"
  shows "visited opts n fs lit ks ws s
    (do { (kept, t) \<leftarrow> rewatch_unit opts lit other w (on_core (propagate_unit opts other c) s); Some (kept, False, t) })"
proof -
  note V = visitingD [OF v] and W = visiting_watch [OF v, folded c_def lits_def]
  note O = second_watch [OF W(2,7,8), folded other_def]
  have lc: "lits_at (core s) c = lits" by (simp add: lits_def c_def)
  let ?t = "on_core (propagate_unit opts other c) s"
  have of: "others_false (core s) other c"
    unfolding others_false_def lc using O(5) low W(11) by blast
  have fa: "- x \<in> set (trail (core s))" if "x \<in> set lits" "x \<noteq> other" for x
    using others_falseD [OF V(12) W(1) of] that lc by simp
  note A = visiting_assign [OF f v W(1), of other, unfolded lc, OF O(3) u of]
  have ct: "conflict (core ?t) = None" "lits_at (core ?t) c = lits" using nc by (simp_all add: lits_at_def lits_def c_def)
  note VT = visitingD [OF A(1)]
  let ?l = "assignment_level (core s) other c"
  show ?thesis
  proof (cases "opt_chrono opts > 1 \<and> ?l > lev (core s) lit")
    case False
    then have "rewatch_unit opts lit other w ?t = Some (Some w, ?t)"
      using A(4) A(5) [OF W(10)] by (auto simp: rewatch_unit_def Let_def)
    then have e: "(do { (kept, t) \<leftarrow> rewatch_unit opts lit other w ?t; Some (kept, False, t) }) = Some (Some w, False, ?t)" by simp
    have "visiting opts n fs lit (ks @ option_list (Some w)) ws ?t"
      using visiting_keep [OF A(1)] A(3) by (simp add: c_def)
    then show ?thesis unfolding e by (rule visitedI [OF _ A(2)]) simp
  next
    case True
    have "?l \<noteq> 0" using True by linarith
    then obtain y where y: "y \<in> set lits" "y \<noteq> other" "lev (core s) y = ?l"
      using assignment_level_max [of "core s" c other] lc by auto
    then have "y \<in> set (drop 2 lits)" using O(5) [OF y(1)] True by auto
    moreover have "lev (core ?t) y = ?l" using A(5) [OF fa [OF y(1,2)]] y(3) by simp
    ultimately obtain q where q: "level_position (core ?t) ?l (drop 2 lits) 2 = Some q" using level_position_found by blast
    from level_position_spec [OF this] have qb: "2 \<le> q" "q < length lits" "lev (core ?t) (drop 2 lits ! (q - 2)) = ?l" by auto
    have dn: "drop 2 lits ! (q - 2) = lits ! q" using qb(1,2) by (simp add: Suc_diff_Suc numeral_2_eq_2)
    let ?r = "lits ! q" and ?lits' = "lits[q := lit, 0 := other, 1 := lits ! q]"
    have r: "?r \<in> set (drop 2 lits)" using qb(1,2) dn by (metis nth_mem length_drop diff_less_mono)
    have m: "mset ?lits' = mset lits" by (rule mset_rewatch(2) [OF qb(1,2)]) (use O(4) in blast)
    have "0 < length lits" "1 < length lits" using qb(1,2) by linarith+
    then have n: "?lits' ! 0 = other" "?lits' ! 1 = ?r" by (simp_all add: nth_list_update)
    have lt: "lits_at (core ?t) (wclause w) = lits" using ct(2) by (simp add: c_def)
    have g: "held (core ?t) l (wclause w)"
      if "l \<le> level (core ?t)" "- ?r \<in> set (take (min (propagated ?t - 1) (cut (core ?t) l)) (trail (core ?t)))" for l
    proof -
      have "- ?r \<in> set (take (cut (core ?t) l) (trail (core ?t)))"
        using that(2) set_take_subset_set_take [of "min (propagated ?t - 1) (cut (core ?t) l)" "cut (core ?t) l" "trail (core ?t)"] by auto
      then have "lev (core ?t) (- ?r) \<le> l" by (rule cut_bounds(3) [OF trail_okD(2) [OF VT(12)] that(1)])
      then have "?l \<le> l" using qb(3) dn by simp
      then show ?thesis using A(4) O(3) lt by (auto simp: held_def intro!: bexI [of _ other])
    qed
    note M = visiting_move [OF f A(1) ct(1), unfolded lt, OF m n O(1,2) r g]
    let ?u = "watch_literal ?r lit (wclause w) (on_core (set_lits (wclause w) ?lits') ?t)"
    have "rewatch_unit opts lit other w ?t = Some (None, ?u)"
      using True A(4) A(5) [OF W(10)] q lt by (simp add: rewatch_unit_def Let_def)
    then have e: "(do { (kept, t) \<leftarrow> rewatch_unit opts lit other w ?t; Some (kept, False, t) }) = Some (None, False, ?u)" by simp
    show ?thesis unfolding e by (rule visitedI) (use M(1) reaches_trans [OF A(2) M(2)] in simp_all)
  qed
qed

lemma visit_long_visited:
  assumes f: "formula_ok n fs" and v: "visiting opts n fs lit ks (w # ws) s" and nc: "conflict (core s) = None"
  shows "visited opts n fs lit ks ws s (visit_long opts lit w s)"
proof -
  define c where "c = wclause w"
  define lits where "lits = lits_at (core s) c"
  define other where "other = xor (xor (lits ! 0) (lits ! 1)) lit"
  note V = visitingD [OF v] and W = visiting_watch [OF v, folded c_def, folded lits_def]
  note O = second_watch [OF W(2,7,8), folded other_def]
  note R = reaches_refl
  have L: "visit_long opts lit w s =
    (if val (core s) other > 0 then Some (Some (w\<lparr>blit := other\<rparr>), False, s)
     else case find_replacement (core s) lits (cpos s ! c) of (k, v) \<Rightarrow>
       if v > 0 then Some (Some (w\<lparr>blit := lits ! k\<rparr>), False, s\<lparr>cpos := (cpos s)[c := k]\<rparr>)
       else if v = 0 then Some (None, False,
         watch_literal (lits ! k) lit c (on_core (set_lits c (lits[0 := other, 1 := lits ! k, k := lit])) (s\<lparr>cpos := (cpos s)[c := k]\<rparr>)))
       else if val (core s) other = 0 then
         do { (kept, t) \<leftarrow> rewatch_unit opts lit other w (on_core (propagate_unit opts other c) (s\<lparr>cpos := (cpos s)[c := k]\<rparr>));
              Some (kept, False, t) }
       else Some (Some w, True, on_core (\<lambda>s. s\<lparr>conflict := Some c\<rparr>) (s\<lparr>cpos := (cpos s)[c := k]\<rparr>)))"
    by (simp only: visit_long_def Let_def c_def lits_def other_def)
  show ?thesis
  proof (cases "val (core s) other > 0")
    case True
    then have "visit_long opts lit w s = Some (Some (w\<lparr>blit := other\<rparr>), False, s)"
      by (simp add: L)
    moreover have "other \<in> set (trail (core s))" using truth(1) [OF V(12) W(1)] O(3) True by (simp add: lits_def)
    then have "visiting opts n fs lit (ks @ option_list (Some (w\<lparr>blit := other\<rparr>))) ws s"
      using visiting_blit [OF v] O(3) by (simp add: lits_def c_def)
    ultimately show ?thesis using R by (auto intro: visitedI)
  next
    case u: False
    obtain k x where kx: "find_replacement (core s) lits (cpos s ! c) = (k, x)" by fastforce
    have cp: "2 \<le> cpos s ! c" "cpos s ! c \<le> length lits" using V(7) W(1) by (auto simp: tables_ok_def lits_def)
    note K = find_replacement_spec [OF kx cp]
    let ?s = "s\<lparr>cpos := (cpos s)[c := k]\<rparr>" and ?r = "lits ! k"
    have vs: "visiting opts n fs lit ks (w # ws) ?s" using visiting_cpos [OF v K(1)] K(2) by (simp add: lits_def)
    have rd: "?r \<in> set (drop 2 lits)" "?r \<in> set lits" if "\<not> x < 0"
    proof -
      have "drop 2 lits ! (k - 2) = ?r" using K(1) K(4) [OF that] by (simp add: Suc_diff_Suc numeral_2_eq_2)
      moreover have "k - 2 < length (drop 2 lits)" using K(1) K(4) [OF that] by (simp add: diff_less_mono)
      ultimately show "?r \<in> set (drop 2 lits)" by (metis nth_mem)
      show "?r \<in> set lits" using K(4) [OF that] by simp
    qed
    consider "x > 0" | "x = 0" | "x < 0" "val (core s) other = 0" | "x < 0" "val (core s) other < 0" using u by linarith
    then show ?thesis
    proof cases
      case 1
      then have "visit_long opts lit w s = Some (Some (w\<lparr>blit := ?r\<rparr>), False, ?s)"
        using u kx by (simp add: L)
      moreover have "?r \<in> set (trail (core s))" using truth(1) [OF V(12) W(1), of ?r] rd(2) K(4) 1 by (simp add: lits_def)
      then have "visiting opts n fs lit (ks @ option_list (Some (w\<lparr>blit := ?r\<rparr>))) ws ?s"
        using visiting_blit [OF vs, of ?r] rd(2) 1 by (simp add: lits_def c_def)
      ultimately show ?thesis using R by (auto intro: visitedI)
    next
      case 2
      let ?lits' = "lits[0 := other, 1 := ?r, k := lit]"
      let ?t = "watch_literal ?r lit c (on_core (set_lits c ?lits') ?s)"
      have kl: "k < length lits" and vr: "val (core s) ?r = 0" using K(4) 2 by simp_all
      have e: "visit_long opts lit w s = Some (None, False, ?t)"
        using 2 u kx by (simp add: L)
      have m: "mset ?lits' = mset lits" by (rule mset_rewatch(1) [OF K(1) kl]) (use O(4) in blast)
      have "0 < length lits" "1 < length lits" "k \<noteq> 0" "k \<noteq> 1" using K(1) kl by linarith+
      then have n: "?lits' ! 0 = other" "?lits' ! 1 = ?r" by (simp_all add: nth_list_update)
      have "- ?r \<notin> set (trail (core s))" using truth(3) [OF V(12) W(1), of ?r] rd(2) vr 2 by (simp add: lits_def)
      then have g: "held (core ?s) l c" if "- ?r \<in> set (take m (trail (core ?s)))" for l m using that in_set_takeD by fastforce
      have lc: "lits_at (core ?s) (wclause w) = lits" by (simp add: lits_def c_def)
      note M = visiting_move [OF f vs, unfolded lc, folded c_def, OF _ m n O(1,2) rd(1) g]
      show ?thesis unfolding e using M nc 2 by (intro visitedI) simp_all
    next
      case 3
      have e: "visit_long opts lit w s =
        (do { (kept, t) \<leftarrow> rewatch_unit opts lit other w (on_core (propagate_unit opts other c) ?s); Some (kept, False, t) })"
        using 3 kx by (simp add: L)
      have "visited opts n fs lit ks ws ?s
        (do { (kept, t) \<leftarrow> rewatch_unit opts lit other w (on_core (propagate_unit opts other c) ?s); Some (kept, False, t) })"
        using rewatch_visited [OF f vs] nc 3 K(3) unfolding other_def lits_def c_def by simp
      then show ?thesis unfolding e visited_def by simp
    next
      case 4
      let ?t = "on_core (\<lambda>s. s\<lparr>conflict := Some c\<rparr>) ?s"
      have e: "visit_long opts lit w s = Some (Some w, True, ?t)"
        using 4 u kx by (simp add: L)
      have "val (core s) y < 0" if "y \<in> set lits" for y using O(5) [OF that] 4 K(3) W(11) by auto
      then have fa: "falsified (core ?s) c"
        using truth(2) [OF V(12) W(1)] W(1) by (auto simp: falsified_def lits_def)
      have "visiting opts n fs lit (ks @ [w]) ws ?t"
        by (rule visiting_keep [OF visiting_conflict [OF vs fa]]) simp
      then show ?thesis unfolding e by (intro visitedI) simp_all
    qed
  qed
qed

lemma visit_visited:
  assumes f: "formula_ok n fs" and v: "visiting opts n fs lit ks (w # ws) s"
  shows "visited opts n fs lit ks ws s (visit opts lit w s)"
proof -
  define c where "c = wclause w"
  define lits where "lits = lits_at (core s) c"
  note V = visitingD [OF v] and W = visiting_watch [OF v, folded c_def, folded lits_def]
  have keep: "visiting opts n fs lit (ks @ option_list (Some w)) ws s" if "conflict (core s) = None \<Longrightarrow> held (core s) (level (core s)) c"
    using visiting_keep [OF v] that by (simp add: c_def)
  have bt: "val (core s) (blit w) > 0 \<longleftrightarrow> blit w \<in> set (trail (core s))" "val (core s) (blit w) < 0 \<longleftrightarrow> - blit w \<in> set (trail (core s))"
    using truth(1,2) [OF V(12) W(1)] W(4) by (simp_all add: lits_def)
  show ?thesis
  proof (cases "val (core s) (blit w) > 0")
    case True
    then have e: "visit opts lit w s = Some (Some w, False, s)" by (simp add: visit_def)
    show ?thesis unfolding e
      by (rule visitedI [OF keep]) (use held_true [OF V(12), of "blit w" c] W(4) bt(1) True in \<open>simp_all add: lits_def\<close>)
  next
    case b: False
    show ?thesis
    proof (cases "binary w")
      case True
      then have "length lits = 2" using W(6) by (simp add: binary_def)
      then have "set (take 2 lits) = set lits" by simp
      then have sl: "set lits = {blit w, lit}"
        using second_watch(1) [OF W(2,7,8)] W(4,5) by (metis insertE insert_commute singletonD)
      show ?thesis
      proof (cases "val (core s) (blit w) < 0")
        case neg: True
        let ?t = "on_core (\<lambda>s. s\<lparr>conflict := Some c\<rparr>) s"
        have e: "visit opts lit w s = Some (Some w, False, ?t)"
          using b neg True by (simp add: visit_def c_def on_core_def)
        have fa: "falsified (core s) c" using W(1,10) bt(2) neg sl by (simp add: falsified_def lits_def)
        have "visiting opts n fs lit (ks @ [w]) ws ?t"
          by (rule visiting_keep [OF visiting_conflict [OF v fa]]) simp
        then show ?thesis unfolding e by (intro visitedI) simp_all
      next
        case nneg: False
        then have u: "val (core s) (blit w) = 0" using b by linarith
        let ?t = "on_core (propagate_unit opts (blit w) c) s"
        have e: "visit opts lit w s = Some (Some w, False, ?t)"
          using u True by (simp add: visit_def c_def on_core_def)
        have of: "others_false (core s) (blit w) c" using W(11) sl by (simp add: others_false_def lits_def)
        note A = visiting_assign [OF f v W(1) W(4)[unfolded lits_def] u of]
        have "visiting opts n fs lit (ks @ [w]) ws ?t" by (rule visiting_keep [OF A(1)]) (use A(3) in \<open>simp add: c_def\<close>)
        then show ?thesis unfolding e using A(2) by (intro visitedI) simp_all
      qed
    next
      case nb: False
      show ?thesis
      proof (cases "conflict (core s) = None")
        case True
        then have e: "visit opts lit w s = visit_long opts lit w s" using b nb by (simp add: visit_def)
        show ?thesis unfolding e by (rule visit_long_visited [OF f v True])
      next
        case False
        then have e: "visit opts lit w s = Some (Some w, True, s)" using b nb by (simp add: visit_def)
        show ?thesis unfolding e by (rule visitedI [OF keep]) (use False in simp_all)
      qed
    qed
  qed
qed

text \<open>All watches of the literal.\<close>

lemma visit_watches_visited:
  assumes f: "formula_ok n fs" and "visiting opts n fs lit ks ws s"
  shows "\<exists>ks' t. visit_watches opts lit ws ks s = Some (ks', t) \<and> visiting opts n fs lit ks' [] t \<and>
    reaches opts fs (calm (core s)) (calm (core t))"
  using assms(2)
proof (induction ws arbitrary: ks s)
  case (Cons w ws)
  obtain k stop t where t: "visit opts lit w s = Some (k, stop, t)" "visiting opts n fs lit (ks @ option_list k) ws t"
    "reaches opts fs (calm (core s)) (calm (core t))" "stop \<longrightarrow> conflict (core t) \<noteq> None"
    using visit_visited [OF f Cons.prems] unfolding visited_def by blast
  show ?case
  proof (cases stop)
    case True
    then have "visiting opts n fs lit (ks @ option_list k @ ws) [] t"
      using t(2,4) unfolding visiting_def Let_def by auto
    then show ?thesis using t(1,3) True by (simp add: Let_def option_list_def)
  next
    case False
    obtain ks' u where u: "visit_watches opts lit ws (ks @ option_list k) t = Some (ks', u)" "visiting opts n fs lit ks' [] u"
      "reaches opts fs (calm (core t)) (calm (core u))"
      using Cons.IH [OF t(2)] by blast
    then show ?thesis using t(1) False reaches_trans [OF t(3) u(3)] by (simp add: Let_def option_list_def)
  qed
qed simp

end
