(* ===== verification/Watch_Propagate.thy ===== *)
theory Watch_Propagate
  imports Watch_Visit
begin

text \<open>
  Propagation of one literal and of the trail: it returns, keeps the invariant and is complete.
\<close>

section \<open>The invariant of the search with watches\<close>

definition watched_ok :: "search_opts \<Rightarrow> nat \<Rightarrow> (int \<times> int list) list \<Rightarrow> watched \<Rightarrow> bool" where
  "watched_ok opts n fs s \<longleftrightarrow> step_ok opts n fs (core s) \<and> tables_ok s \<and> lists_ok (core s) (watches s) \<and>
     guards (core s) (propagated s)"

lemma watched_okD:
  assumes "watched_ok opts n fs s"
  shows "step_ok opts n fs (core s)" "tables_ok s" "lists_ok (core s) (watches s)" "guards (core s) (propagated s)"
    "trail_ok (core s)"
  using assms step_okD(1) unfolding watched_ok_def by blast+

lemma step_ok_calm:
  assumes "\<not> unsat s"
  shows "step_ok opts n fs s \<longleftrightarrow> step_ok opts n fs (calm s) \<and> (\<forall>c. conflict s = Some c \<longrightarrow> falsified s c)"
  using assms unfolding step_ok_def search_ok_def calm_def by (auto simp: core_conflict)

text \<open>A literal is propagated.\<close>

lemma visiting_start:
  assumes ok: "watched_ok opts n fs s" and u: "\<not> unsat (core s)" "conflict (core s) = None"
    and p: "propagated s < length (trail (core s))"
  defines "lit \<equiv> - trail (core s) ! propagated s"
  shows "visiting opts n fs lit [] (watches s lit) (s\<lparr>propagated := propagated s + 1\<rparr>)"
proof -
  note D = watched_okD [OF ok]
  note G = guardsD [OF D(4)]
  let ?s = "s\<lparr>propagated := propagated s + 1\<rparr>"
  have w: "watches ?s = watches s" by (simp add: watches_def fun_eq_iff)
  have "(watches s)(lit := watches s lit) = watches s" by simp
  moreover have "guarded (core s) (propagated s) l c" if "l \<le> level (core s)" "c < length (clauses (core s))" for l c
    by (rule guards_at [OF D(4) u(2) that])
  moreover have "step_ok opts n fs (calm (core s))" using D(1) u(2) by (simp add: calm_None)
  ultimately show ?thesis
    using D(2,3) u p G(1) unfolding visiting_def Let_def w by (simp add: lit_def tables_ok_def)
qed

lemma visiting_end:
  assumes v: "visiting opts n fs lit ks [] s"
  defines "t \<equiv> s\<lparr>wtab := (wtab s)[vlit lit := ks]\<rparr>"
  shows "watched_ok opts n fs t"
proof -
  note V = visitingD [OF v]
  let ?s = "core s" and ?p = "propagated s - 1"
  note T = trail_okD [OF V(12)]
  have ct: "core t = core s" "propagated t = propagated s" by (simp_all add: t_def)
  have len: "length (wtab s) = 2 * length (vals ?s)" using V(7) by (simp add: tables_ok_def)
  have ti: "- lit \<in> set (trail ?s)" "trail ?s ! ?p = - lit" using V(4,5) by simp_all
  have li: "lit_in (length (vals ?s)) lit" using values_okD(4) [OF T(1) ti(1)] by (simp add: lit_in_def)
  have so: "step_ok opts n fs ?s" using V(1,11) step_ok_calm [OF V(2)] by blast
  have lo: "lists_ok ?s (watches t)"
  proof -
    have "lists_ok ?s (watches t) = lists_ok ?s ((watches s)(lit := ks))"
      by (rule lists_ok_cong) (use watches_simps(3) [OF len li] clauses_okD(3) [OF T(4)] in \<open>simp_all add: t_def\<close>)
    then show ?thesis using V(8) by simp
  qed
  have tk: "take (propagated s) (trail ?s) = take ?p (trail ?s) @ [- lit]"
    using V(3,4) ti(2) take_Suc_conv_app_nth [OF V(4)] by simp
  have "guarded ?s (propagated s) l c" if lc: "l < level ?s" "c < length (clauses ?s)" for l c
  proof -
    have "cut ?s l \<le> ?p" using V(6) levels_okD(3) [OF T(2), of "l + 1" "level ?s"] lc(1) by (simp add: cut_def)
    then have "min (propagated s) (cut ?s l) = min ?p (cut ?s l)" by simp
    then show ?thesis using V(9) [of l c] lc unfolding guarded_def by simp
  qed
  moreover have "guarded ?s (propagated s) (level ?s) c" if nc: "conflict ?s = None" and c: "c < length (clauses ?s)" for c
    unfolding guarded_def
  proof (intro allI impI)
    fix i :: nat assume i: "i < 2" "- (lits_at ?s c ! i) \<in> set (take (min (propagated s) (cut ?s (level ?s))) (trail ?s))"
    have l2: "2 \<le> length (lits_at ?s c)" using clauses_okD(1) [OF T(4) c] .
    have "cut ?s (level ?s) = length (trail ?s)" by (simp add: cut_def)
    then have j: "- (lits_at ?s c ! i) \<in> set (take ?p (trail ?s)) \<or> lits_at ?s c ! i = lit"
      using i(2) V(3,4) tk by (auto simp: min_def split: if_splits)
    show "held ?s (level ?s) c"
    proof (cases "lits_at ?s c ! i = lit")
      case True
      then have "lit \<in> set (take 2 (lits_at ?s c))" using i(1) l2 take_2 [OF l2] by (auto simp: less_2_cases_iff)
      then have "c \<in> wclause ` set ks" using lists_okD(3) [OF V(8) c, of lit] by simp
      then show ?thesis using V(10) [OF nc] by auto
    next
      case False
      then have "- (lits_at ?s c ! i) \<in> set (take (min ?p (cut ?s (level ?s))) (trail ?s))"
        using j V(4) by (simp add: cut_def min_def)
      then show ?thesis using V(9) [of "level ?s" c] c i(1) unfolding guarded_def by blast
    qed
  qed
  ultimately have "guards ?s (propagated s)" using V(3,4,6) by (auto simp: guards_def)
  then show ?thesis using so lo V(7) unfolding watched_ok_def ct by (simp add: tables_ok_def t_def)
qed

lemma reaches_conflict:
  assumes "reaches opts fs s (calm t)" "\<not> unsat t" "\<And>c. conflict t = Some c \<Longrightarrow> falsified t c" "trail_ok t"
  shows "reaches opts fs s t"
proof (cases "conflict t")
  case None
  then show ?thesis using assms(1) by (simp add: calm_None)
next
  case (Some c)
  then have f: "falsified t c" by (rule assms(3))
  then have "enabled fs (Find_conflict c) (calm t)"
    using assms(2) truth(2) [OF assms(4), of c] by (auto simp: enabled_def falsified_def)
  moreover have "perform opts (Find_conflict c) (calm t) = Some t" using Some by (simp add: perform_def calm_def)
  ultimately show ?thesis using assms(1) reaches_step reaches_trans by blast
qed

lemma propagate_literal_ok:
  assumes f: "formula_ok n fs" and ok: "watched_ok opts n fs s" and u: "\<not> unsat (core s)" "conflict (core s) = None"
    and p: "propagated s < length (trail (core s))"
  shows "\<exists>t. propagate_literal opts s = Some t \<and> watched_ok opts n fs t \<and> \<not> unsat (core t) \<and> propagated t = propagated s + 1 \<and>
    reaches opts fs (core s) (core t)"
proof -
  define lit where "lit = - trail (core s) ! propagated s"
  let ?s = "s\<lparr>propagated := propagated s + 1\<rparr>"
  have v: "visiting opts n fs lit [] (watches s lit) ?s" using visiting_start [OF ok u p] by (simp add: lit_def)
  obtain ks t where t: "visit_watches opts lit (watches s lit) [] ?s = Some (ks, t)" "visiting opts n fs lit ks [] t"
    "reaches opts fs (calm (core s)) (calm (core t))"
    using visit_watches_visited [OF f v] by auto
  note V = visitingD [OF t(2)]
  have "watches ?s lit = watches s lit" by (simp add: watches_def)
  then have e: "propagate_literal opts s = Some (t\<lparr>wtab := (wtab t)[vlit lit := ks]\<rparr>)"
    using t(1) by (simp add: propagate_literal_def Let_def lit_def)
  have r: "reaches opts fs (core s) (core t)"
    using reaches_conflict [OF _ V(2,11,12)] t(3) u(2) by (simp add: calm_None)
  have "propagated t = propagated s + 1"
  proof -
    have "propagated t' = propagated s'" if "visit_watches opts lit ws ks' s' = Some (ks'', t')" for ws ks' ks'' s' t'
      using that
    proof (induction ws arbitrary: ks' s')
      case (Cons w ws)
      then show ?case
        by (auto simp: visit_def visit_long_def rewatch_unit_def Let_def on_core_def watch_literal_def
            split: if_splits option.splits prod.splits bind_splits)
    qed simp
    from this [OF t(1)] show ?thesis by simp
  qed
  then show ?thesis using e visiting_end [OF t(2)] V(2) r by simp
qed

lemma trail_bound:
  assumes "trail_ok s"
  shows "length (trail s) < length (vals s) \<or> trail s = []"
proof -
  note V = values_okD [OF trail_okD(1) [OF assms]]
  have "set (map vidx (trail s)) \<subseteq> {1..<length (vals s)}"
    using V(4) by (auto simp: lit_in_def vidx_def Suc_le_eq)
  then have "card (set (map vidx (trail s))) \<le> length (vals s) - 1" using card_mono [of "{1..<length (vals s)}"] by fastforce
  then have "length (trail s) \<le> length (vals s) - 1" using distinct_card [OF V(3)] by simp
  then show ?thesis by (cases "trail s") auto
qed

lemma propagate_ok:
  assumes f: "formula_ok n fs" and "watched_ok opts n fs s" "\<not> unsat (core s)"
  shows "\<exists>t. propagate opts s = Some t \<and> watched_ok opts n fs t \<and> \<not> unsat (core t) \<and> reaches opts fs (core s) (core t) \<and>
    (conflict (core t) = None \<longrightarrow> propagated t = length (trail (core t)))"
  using assms(2,3)
proof (induction "n - propagated s" arbitrary: s rule: less_induct)
  case less
  show ?case
  proof (cases "conflict (core s) = None \<and> propagated s \<noteq> length (trail (core s))")
    case False
    then have "propagate opts s = Some s" by (subst propagate.simps) auto
    then show ?thesis using less.prems False by auto
  next
    case True
    note D = watched_okD [OF less.prems(1)]
    have p: "propagated s < length (trail (core s))" using guardsD(2) [OF D(4)] True by simp
    then have "propagated s < n" using trail_bound [OF D(5)] step_okD(2) [OF D(1)] by auto
    have nc: "conflict (core s) = None" using True by blast
    from propagate_literal_ok [OF f less.prems nc p]
    obtain t where t: "propagate_literal opts s = Some t" "watched_ok opts n fs t" "\<not> unsat (core t)"
      "propagated t = propagated s + 1" "reaches opts fs (core s) (core t)" by blast
    have "n - propagated t < n - propagated s" using t(4) \<open>propagated s < n\<close> by simp
    from less.hyps [OF this t(2,3)]
    obtain u where u: "propagate opts t = Some u" "watched_ok opts n fs u" "\<not> unsat (core u)" "reaches opts fs (core t) (core u)"
      "conflict (core u) = None \<longrightarrow> propagated u = length (trail (core u))" by (elim exE conjE) (rule that)
    have "propagate opts s = Some u" using True t(1) u(1) by (subst propagate.simps) simp
    with u reaches_trans [OF t(5) u(4)] show ?thesis by simp
  qed
qed

end
