(* ===== verification/Watch_Steps.thy ===== *)
theory Watch_Steps
  imports Watch_Propagate
begin

text \<open>
  What a propagated trail says of the clauses; units, decisions, levels and backtracking keep the invariant.
\<close>

section \<open>What a propagated trail says\<close>

lemma propagated_clauses:
  assumes ok: "watched_ok opts n fs s" and n: "conflict (core s) = None" and p: "propagated s = length (trail (core s))"
    and c: "c < length (clauses (core s))"
  shows "(\<exists>x \<in> set (lits_at (core s) c). val (core s) x > 0) \<or>
    (val (core s) (lits_at (core s) c ! 0) = 0 \<and> val (core s) (lits_at (core s) c ! 1) = 0)"
proof -
  note D = watched_okD [OF ok]
  have g: "guarded (core s) (propagated s) (level (core s)) c" by (rule guardsD(4) [OF D(4) n c])
  have l2: "2 \<le> length (lits_at (core s) c)" using clauses_okD(1) [OF trail_okD(4) [OF D(5)] c] .
  have v: "val (core s) (lits_at (core s) c ! i) = 0" if no: "\<not> (\<exists>x \<in> set (lits_at (core s) c). val (core s) x > 0)" and i: "i < 2" for i
  proof -
    let ?x = "lits_at (core s) c ! i"
    have x: "?x \<in> set (lits_at (core s) c)" using i l2 by simp
    have "\<not> held (core s) (level (core s)) c" using no truth(1) [OF D(5) c] by (auto simp: held_def)
    then have "- ?x \<notin> set (trail (core s))" using g i p by (auto simp: guarded_def cut_def)
    then show ?thesis using no x truth [OF D(5) c x] by (metis linorder_neqE_linordered_idom)
  qed
  then show ?thesis using v [of 0] v [of 1] by auto
qed

section \<open>Assignments, levels and backtracking\<close>

lemma watched_ok_on_core:
  assumes ok: "watched_ok opts n fs s" and so: "step_ok opts n fs (f (core s))"
    and c: "clauses (f (core s)) = clauses (core s)" and g: "guards (f (core s)) (propagated s)"
  shows "watched_ok opts n fs (on_core f s)"
proof -
  note D = watched_okD [OF ok]
  have w: "watches (on_core f s) = watches s" by (simp add: watches_def on_core_def fun_eq_iff)
  have len: "length (vals (f (core s))) = length (vals (core s))" using step_okD(2) [OF so] step_okD(2) [OF D(1)] by simp
  have "lists_ok (f (core s)) (watches s) = lists_ok (core s) (watches s)"
    by (rule lists_ok_cong [OF c len]) (use clauses_okD(3) [OF trail_okD(4) [OF D(5)]] in simp_all)
  moreover have "tables_ok (on_core f s)" using D(2) by (simp add: tables_ok_def c len lits_at_def) (simp add: on_core_def)
  ultimately show ?thesis using so g D(3) unfolding watched_ok_def w by (simp add: on_core_def)
qed

lemma watched_backtrack_state:
  assumes "l < level (core s)"
  shows "core (watched_backtrack l s) = backtrack l (core s)"
    "propagated (watched_backtrack l s) = min (propagated s) (cut (core s) l)"
    "wtab (watched_backtrack l s) = wtab s" "cpos (watched_backtrack l s) = cpos s" "watches (watched_backtrack l s) = watches s"
  using assms by (simp_all add: watched_backtrack_def cut_def min_def watches_def fun_eq_iff Let_def)

lemma watched_ok_backtrack:
  assumes f: "formula_ok n fs" and ok: "watched_ok opts n fs s" and u: "\<not> unsat (core s)" "conflict (core s) = None"
    and l: "l \<le> level (core s)"
  shows "watched_ok opts n fs (watched_backtrack l s)"
proof (cases "l = level (core s)")
  case True
  then show ?thesis using ok by (simp add: watched_backtrack_def)
next
  case False
  then have l: "l < level (core s)" using l by simp
  note D = watched_okD [OF ok] and B = watched_backtrack_state [OF l]
  note E = backtrack_effect [OF D(5) less_imp_le [OF l]]
  obtain t where "perform opts (Restart l) (core s) = Some t" "step_ok opts n fs t"
    using perform_ok [OF D(1) f, of "Restart l"] u l by (auto simp: enabled_def)
  then have so: "step_ok opts n fs (backtrack l (core s))" by (simp add: perform_def)
  have "lists_ok (backtrack l (core s)) (watches s) = lists_ok (core s) (watches s)"
    by (rule lists_ok_cong) (use E(4,5) clauses_okD(3) [OF trail_okD(4) [OF D(5)]] in simp_all)
  moreover have "tables_ok (watched_backtrack l s)"
    using D(2) unfolding tables_ok_def B by (simp add: E(4,5) lits_at_def)
  ultimately show ?thesis using so D(3) guards_backtrack [OF D(5) l D(4)] unfolding watched_ok_def B by simp
qed

text \<open>The other steps that only assign or open a level.\<close>

lemma watched_ok_decision:
  assumes f: "formula_ok n fs" and ok: "watched_ok opts n fs s" and e: "watched_enabled fs (Decision lit) s"
  shows "watched_ok opts n fs (on_core (search_assume_decision opts lit) s)"
proof (rule watched_ok_on_core [OF ok])
  note D = watched_okD [OF ok]
  have e: "\<not> unsat (core s)" "conflict (core s) = None" "propagated s = length (trail (core s))"
    "lit_in (length (vals (core s))) lit" "val (core s) lit = 0" using e by (simp_all add: watched_enabled_def)
  show "step_ok opts n fs (search_assume_decision opts lit (core s))"
    using perform_ok [OF D(1) f, of "Decide lit"] e by (auto simp: enabled_def perform_def)
  let ?t = "new_trail_level lit (core s)"
  have t: "trail_ok ?t" "guards ?t (propagated s)"
    using new_trail_level_ok [OF D(5)] guards_new_level [OF trail_okD(2) [OF D(5)] e(3,2) D(4)] by simp_all
  have v: "lit_in (length (vals ?t)) lit" "val ?t lit = 0" using e(4,5) by (simp_all add: new_trail_level_def)
  show "clauses (search_assume_decision opts lit (core s)) = clauses (core s)"
    by (simp add: search_assume_decision_def new_trail_level_def)
  show "guards (search_assume_decision opts lit (core s)) (propagated s)"
    unfolding search_assume_decision_def
    by (rule guards_puts [OF search_assign_puts trail_okD(1) [OF t(1)] v _ t(2)]) simp
qed

lemma watched_ok_unit:
  assumes f: "formula_ok n fs" and ok: "watched_ok opts n fs s" and e: "watched_enabled fs (Unit_clause cid lit) s"
  shows "watched_ok opts n fs (on_core (assign_original_unit opts cid lit) s)"
proof (rule watched_ok_on_core [OF ok])
  note D = watched_okD [OF ok]
  have e: "\<not> unsat (core s)" "conflict (core s) = None" "(cid, [lit]) \<in> set fs" "val (core s) lit = 0"
    using e by (simp_all add: watched_enabled_def)
  have l: "lit_in (length (vals (core s))) lit" using f e(3) step_okD(2) [OF D(1)] by (auto simp: formula_ok_def)
  show "step_ok opts n fs (assign_original_unit opts cid lit (core s))"
    using perform_ok [OF D(1) f, of "Original_unit cid lit"] e by (auto simp: enabled_def perform_def)
  show "clauses (assign_original_unit opts cid lit (core s)) = clauses (core s)"
    by (simp add: assign_original_unit_def set_val_def Let_def)
  show "guards (assign_original_unit opts cid lit (core s)) (propagated s)"
    by (rule guards_puts [OF original_unit_puts trail_okD(1) [OF D(5)] l e(4) _ D(4)])
      (simp add: assign_original_unit_def set_val_def Let_def)
qed

lemma watched_ok_pseudo:
  assumes f: "formula_ok n fs" and ok: "watched_ok opts n fs s" and e: "watched_enabled fs Pseudo_decision s"
  shows "watched_ok opts n fs (on_core (new_trail_level 0) s)"
proof (rule watched_ok_on_core [OF ok])
  note D = watched_okD [OF ok]
  have e: "\<not> unsat (core s)" "conflict (core s) = None" "propagated s = length (trail (core s))"
    using e by (simp_all add: watched_enabled_def)
  show "step_ok opts n fs (new_trail_level 0 (core s))"
    using perform_ok [OF D(1) f, of Pseudo_level] e by (auto simp: enabled_def perform_def)
  show "guards (new_trail_level 0 (core s)) (propagated s)"
    by (rule guards_new_level [OF trail_okD(2) [OF D(5)] e(3,2) D(4)])
qed (simp add: new_trail_level_def)

end
