(* ===== verification/Watch_Highest.thy ===== *)
theory Watch_Highest
  imports Watch_Steps
begin

text \<open>
  Moving the highest literals of a conflict to its front, with their watches.
\<close>

section \<open>Moving the highest literals to the front\<close>

text \<open>\<open>highest_position\<close> finds a literal of the highest level, of the one at \<open>pos\<close> and the rest.\<close>

lemma highest_position_max:
  assumes "\<forall>x \<in> set (drop j L). lev s x \<le> res" "h = lev s (L ! pos)" "j \<le> length L"
  defines "q \<equiv> highest_position s res (drop j L) j pos h"
  shows "h \<le> lev s (L ! q)" "\<forall>x \<in> set (drop j L). lev s x \<le> lev s (L ! q)"
proof -
  have "h \<le> lev s (L ! highest_position s res xs j pos h) \<and> (\<forall>x \<in> set xs. lev s x \<le> lev s (L ! highest_position s res xs j pos h))"
    if "xs = drop j L" "\<forall>x \<in> set xs. lev s x \<le> res" "h = lev s (L ! pos)" for xs j pos h
    using that
  proof (induction xs arbitrary: j pos h)
    case (Cons x xs)
    have j: "j < length L" using Cons.prems(1) by (metis drop_all linorder_not_less list.distinct(1))
    then have x: "L ! j = x" "drop (j + 1) L = xs" using Cons.prems(1) by (simp_all add: Cons_nth_drop_Suc [symmetric])
    have r: "\<forall>y \<in> set xs. lev s y \<le> res" using Cons.prems(2) by simp
    consider "lev s x \<le> h" | "h < lev s x" "lev s x = res" | "h < lev s x" "lev s x \<noteq> res" by linarith
    then show ?case
    proof cases
      case 1
      then show ?thesis using Cons.IH [of "j + 1" h pos] x(2) r Cons.prems(3) by (auto simp: Let_def)
    next
      case 2
      then show ?thesis using x(1) r by (simp add: Let_def)
    next
      case 3
      then show ?thesis using Cons.IH [of "j + 1" "lev s x" j] x r by (auto simp: Let_def)
    qed
  qed simp
  from this [OF refl assms(1,2)] show "h \<le> lev s (L ! q)" "\<forall>x \<in> set (drop j L). lev s x \<le> lev s (L ! q)"
    by (simp_all add: q_def)
qed

text \<open>A move puts the highest literal of those from \<open>i\<close> on at \<open>i\<close>, and keeps those before.\<close>

lemma move_highest_spec:
  assumes i: "i < length L" and r: "\<forall>x \<in> set L. lev s x \<le> res"
  defines "M \<equiv> move_highest s res i L"
    and "q \<equiv> highest_position s res (drop (i + 1) L) (i + 1) i (lev s (L ! i))"
  shows "M = L[q := L ! i, i := L ! q]" "i \<le> q" "q < length L" "length M = length L" "M ! i = L ! q" "q \<noteq> i \<Longrightarrow> M ! q = L ! i"
    "\<And>k. k \<noteq> i \<Longrightarrow> k \<noteq> q \<Longrightarrow> M ! k = L ! k" "\<And>k. i \<le> k \<Longrightarrow> k < length L \<Longrightarrow> lev s (M ! k) \<le> lev s (M ! i)" "mset M = mset L"
proof -
  show m: "M = L[q := L ! i, i := L ! q]" by (simp add: M_def q_def move_highest_def Let_def)
  show iq: "i \<le> q" "q < length L"
    using highest_position_bound [of s res "drop (i + 1) L" "i + 1" i "lev s (L ! i)", folded q_def] i by auto
  then show "length M = length L" "M ! i = L ! q" "q \<noteq> i \<Longrightarrow> M ! q = L ! i" "\<And>k. k \<noteq> i \<Longrightarrow> k \<noteq> q \<Longrightarrow> M ! k = L ! k"
    using i by (simp_all add: m nth_list_update)
  show "mset M = mset L" unfolding M_def by (rule mset_move_highest [OF i])
  have "\<forall>x \<in> set (drop (i + 1) L). lev s x \<le> res" using r in_set_dropD by metis
  note H = highest_position_max [OF this refl, of i, folded q_def]
  have hi: "lev s (L ! k) \<le> lev s (L ! q)" if "i \<le> k" "k < length L" for k
  proof (cases "k = i")
    case True
    then show ?thesis using H(1) i by simp
  next
    case False
    then have "L ! k \<in> set (drop (i + 1) L)" using that by (auto simp: in_set_conv_nth intro!: exI [of _ "k - (i + 1)"])
    then show ?thesis using H(2) i by simp
  qed
  show "lev s (M ! k) \<le> lev s (M ! i)" if k: "i \<le> k" "k < length L" for k
  proof -
    have "M ! k = L ! k \<or> M ! k = L ! i \<or> M ! k = L ! q" using i iq k by (auto simp: m nth_list_update)
    then show ?thesis using hi [OF k] hi [of i] hi [of q] i iq by (auto simp: m)
  qed
qed

text \<open>The watches follow.\<close>

lemma watch_highest_ok:
  assumes t: "tables_ok s" and l: "lists_ok (core s) (watches s)" and c: "c < length (clauses (core s))" "clauses_ok (core s)"
    and i: "i < 2" and r: "\<forall>x \<in> set (lits_at (core s) c). lev (core s) x \<le> res"
  defines "u \<equiv> watch_highest res i c s"
  shows "tables_ok u" "lists_ok (core u) (watches u)" "propagated u = propagated s"
    "core u = set_lits c (move_highest (core s) res i (lits_at (core s) c)) (core s)"
proof -
  define L where "L = lits_at (core s) c"
  define M where "M = move_highest (core s) res i L"
  define q where "q = highest_position (core s) res (drop (i + 1) L) (i + 1) i (lev (core s) (L ! i))"
  note C = clauses_okD [OF c(2,1), folded L_def]
  have il: "i < length L" using i C(1) by simp
  note H = move_highest_spec [OF il, of "core s" res, folded M_def q_def]
  have r: "\<forall>x \<in> set L. lev (core s) x \<le> res" using r by (simp add: L_def)
  note H = H [OF r]
  show cu: "core u = set_lits c (move_highest (core s) res i (lits_at (core s) c)) (core s)"
    unfolding u_def by (rule core_watch_highest [OF c(1)])
  then have cu': "core u = set_lits c M (core s)" by (simp add: M_def L_def)
  have la: "lits_at (core u) d = (if d = c then M else lits_at (core s) d)" for d unfolding cu' by (rule lits_at_set_lits [OF c(1)])
  have ud: "u = (let s1 = (if q > 1 then remove_watch (L ! i) c s else s); s2 = on_core (set_lits c M) s1
      in if q > 1 then watch_literal (L ! q) (M ! (1 - i)) c s2 else s2)"
    by (simp only: u_def watch_highest_def Let_def flip: L_def q_def) (simp add: lits_at_set_lits c(1) flip: M_def)
  have len: "length (wtab s) = 2 * length (vals (core s))" using t by (simp add: tables_ok_def)
  have f: "propagated u = propagated s" "cpos u = cpos s" "length (wtab u) = length (wtab s)"
    by (simp_all add: ud on_core_def watch_literal_def remove_watch_def)
  show "propagated u = propagated s" by (rule f)
  have "length (lits_at (core u) d) = length (lits_at (core s) d)" for d using la [of d] H(4) by (simp add: L_def)
  then show "tables_ok u" using t by (simp add: tables_ok_def f cu')
  show "lists_ok (core u) (watches u)"
  proof (cases "q > 1")
    case False
    have w: "watches u = watches s" using False by (simp add: ud watches_def on_core_def fun_eq_iff)
    have t2: "take 2 L = [L ! 0, L ! 1]" "take 2 M = [M ! 0, M ! 1]" using C(1) H(4) take_2 [of L] take_2 [of M] by simp_all
    have "set (take 2 M) = set (take 2 L)"
    proof -
      have "(i = 0 \<and> q = 0) \<or> (i = 0 \<and> q = 1) \<or> (i = 1 \<and> q = 1)" using False i H(2) by linarith
      moreover have "0 < length L" "1 < length L" using C(1) by linarith+
      ultimately show ?thesis unfolding t2 by (elim disjE) (simp_all add: H(1) nth_list_update insert_commute)
    qed
    then show ?thesis unfolding cu' w using H(9) by (intro lists_ok_reorder [OF l c(1)]) (simp_all add: L_def)
  next
    case True
    let ?o = "M ! (1 - i)" and ?lit = "L ! i" and ?r = "L ! q"
    have oi: "1 - i < 2" "1 - i \<noteq> i" "1 - i \<noteq> q" using i True by (auto simp: less_2_cases_iff)
    then have o: "?o = L ! (1 - i)" using H(7) by simp
    have in2: "{i, 1 - i} = {0, 1 :: nat}" using i by auto
    have t2: "set (take 2 L) = {L ! (1 - i), L ! i}" "set (take 2 M) = {M ! (1 - i), M ! i}"
      using C(1) H(4) take_2 [of L] take_2 [of M] i by (auto simp: less_2_cases_iff)
    have qi: "q \<noteq> i" "1 - i < length L" using True i C(1) by (auto simp: less_2_cases_iff)
    have ne: "L ! (1 - i) \<noteq> L ! i" "L ! q \<noteq> L ! i" "L ! q \<noteq> L ! (1 - i)"
      using nth_eq_iff_index_eq [OF C(2)] qi oi il H(3) by metis+
    have inn: "lit_in (length (vals (core s))) ?lit" "lit_in (length (vals (core s))) ?r" using C(3) il H(3) by simp_all
    let ?W' = "(watches s)(?lit := filter (\<lambda>w. wclause w \<noteq> c) (watches s ?lit),
      ?r := watches s ?r @ [\<lparr>wclause = c, blit = ?o, wsize = length M\<rparr>])"
    have "lists_ok (set_lits c M (core s)) ?W'"
    proof (rule lists_ok_move [OF l c(1), where other = ?o and lit = ?lit and r = ?r and b = ?o])
      show "?o \<in> set M" using H(4) qi(2) by simp
    qed (use H(5,9) t2 ne o C(3) in \<open>simp_all add: L_def\<close>)
    moreover have "watches u x = ?W' x" if x: "lit_in (length (vals (core s))) x" for x
    proof -
      let ?s1 = "remove_watch ?lit c s"
      have w1: "watches ?s1 x = (if x = ?lit then filter (\<lambda>w. wclause w \<noteq> c) (watches s x) else watches s x)"
        by (rule watches_simps(2) [OF len inn(1) x])
      have w2: "watches (on_core (set_lits c M) ?s1) x = watches ?s1 x" by (simp add: watches_def on_core_def)
      have "length (wtab (on_core (set_lits c M) ?s1)) = 2 * length (vals (core s))" using len by (simp add: on_core_def remove_watch_def)
      note w3 = watches_simps(1) [OF this inn(2) x, of ?o c]
      have la': "lits_at (core (on_core (set_lits c M) ?s1)) c = M"
        using lits_at_set_lits [OF c(1), of M c] by (simp add: on_core_def remove_watch_def lits_at_def set_lits_def)
      have "u = watch_literal ?r ?o c (on_core (set_lits c M) ?s1)" using True by (simp only: ud Let_def if_True)
      then show ?thesis using w1 w2 w3 la' ne by (simp only: fun_upd_apply refl if_True) auto
    qed
    ultimately show ?thesis
      unfolding cu' using clauses_okD(3) [OF c(2)] la H(9)
      by (subst lists_ok_cong [where s = "set_lits c M (core s)" and W = ?W'])
        (auto simp: lits_at_set_lits [OF c(1)] L_def dest: mset_eq_setD split: if_splits)
  qed
qed

end
