(* ===== verification/Watch_Drive.thy ===== *)
theory Watch_Drive
  imports Watch_Highest
begin

text \<open>
  The conflict level with its watches, and the literal a clause drives after backtracking: the second
  literal of the clause has the level of the driven one, so the clause stays guarded.
\<close>

section \<open>The conflict level\<close>

lemma on_level_mset: "mset xs = mset ys \<Longrightarrow> on_level s l xs = on_level s l ys"
  unfolding on_level_def by (metis mset_filter size_mset)

text \<open>The watches of the conflict are moved to its highest literals.\<close>

lemma watched_conflict_level_ok:
  assumes ok: "trail_ok (core s)" and f: "falsified (core s) c" and t: "tables_ok s" and l: "lists_ok (core s) (watches s)"
  obtains res forced u M where "watched_conflict_level c s = ((res, forced), u)" "tables_ok u" "lists_ok (core u) (watches u)"
    and "propagated u = propagated s" "core u = set_lits c M (core s)" "mset M = mset (lits_at (core s) c)"
    and "trail_ok (core u)" "falsified (core u) c" "res \<le> level (core s)" "\<forall>x \<in> set M. lev (core s) x \<le> res"
    and "forced \<noteq> 0 \<Longrightarrow> 0 < res \<and> M ! 0 = forced \<and> lev (core s) forced = res \<and> lev (core s) (M ! 1) < res \<and>
      (\<forall>x \<in> set M. x \<noteq> forced \<longrightarrow> lev (core s) x \<le> lev (core s) (M ! 1))"
    and "forced = 0 \<Longrightarrow> 0 < res \<Longrightarrow> lev (core s) (M ! 0) = res \<and> lev (core s) (M ! 1) = res"
proof -
  define L where "L = lits_at (core s) c"
  have c: "c < length (clauses (core s))" using f by (simp add: falsified_def)
  note C = clauses_okD [OF trail_okD(4) [OF ok] c, folded L_def]
  obtain res forced v where F: "find_conflict_level c (core s) = ((res, forced), v)" "trail_ok v" "falsified v c"
      "res \<le> level (core s)" "\<forall>lit \<in> set L. lev (core s) lit \<le> res"
      "forced = 0 \<Longrightarrow> 0 < res \<Longrightarrow> 2 \<le> on_level (core s) res L"
      "forced \<noteq> 0 \<Longrightarrow> 0 < res \<and> forced \<in> set L \<and> lev (core s) forced = res \<and>
        (\<forall>lit \<in> set L. lit \<noteq> forced \<longrightarrow> lev (core s) lit < res)"
    unfolding L_def by (rule find_conflict_level_spec [OF ok f]) blast
  obtain u where u: "watched_conflict_level c s = ((res, forced), u)" "core u = v"
    using core_conflict_level [OF c] F(1) by (cases "watched_conflict_level c s") simp
  obtain cnt f0 where sc: "scan_levels (core s) L 0 0 0 = (res, cnt, f0)"
    using u(1) by (auto simp: watched_conflict_level_def L_def split: prod.splits)
  let ?s0 = "watch_highest res 0 c s"
  have uw: "u = watch_highest res 1 c ?s0" using u(1) sc by (simp add: watched_conflict_level_def flip: L_def)
  define M0 where "M0 = move_highest (core s) res 0 L"
  define M where "M = move_highest (core s) res 1 M0"
  note A = watch_highest_ok [OF t l c trail_okD(4) [OF ok] _ F(5) [unfolded L_def], where i = 0, folded L_def, folded M0_def, simplified]
  have m0: "mset M0 = mset L" unfolding M0_def by (rule mset_move_highest) (use C(1) in linarith)
  have l0: "lits_at (core ?s0) c = M0" "length M0 = length L" "set M0 = set L"
    using A(4) lits_at_set_lits [OF c] mset_eq_length [OF m0] mset_eq_setD [OF m0] by simp_all
  have c0: "c < length (clauses (core ?s0))" using c A(4) by simp
  have "clauses_ok (core ?s0)"
    unfolding clauses_ok_def
  proof (intro allI impI)
    fix d assume d: "d < length (clauses (core ?s0))"
    have m: "mset (lits_at (core ?s0) d) = mset (lits_at (core s) d)" using A(4) lits_at_set_lits [OF c] m0 by (simp add: L_def)
    note D = clauses_okD [OF trail_okD(4) [OF ok], of d]
    show "2 \<le> length (lits_at (core ?s0) d) \<and> distinct (lits_at (core ?s0) d) \<and>
        (\<forall>lit \<in> set (lits_at (core ?s0) d). lit_in (length (vals (core ?s0))) lit)"
      using D d A(4) mset_eq_length [OF m] mset_eq_setD [OF m] mset_eq_imp_distinct_iff [OF m] by simp
  qed
  moreover have "\<forall>x \<in> set (lits_at (core ?s0) c). lev (core ?s0) x \<le> res" using F(5) l0 A(4) by simp
  moreover have "move_highest (core ?s0) res 1 (lits_at (core ?s0) c) = M" using l0 A(4) by (simp add: M_def)
  ultimately have B: "tables_ok u" "lists_ok (core u) (watches u)" "propagated u = propagated ?s0" "core u = set_lits c M (core ?s0)"
    using watch_highest_ok [OF A(1,2) c0, of 1 res] unfolding uw by simp_all
  have cu: "core u = set_lits c M (core s)" using B(4) A(4) c by (simp add: set_lits_def)
  have len: "0 < length L" "1 < length M0" using C(1) l0(2) by linarith+
  note H0 = move_highest_spec [OF len(1) F(5), folded M0_def]
  have "\<forall>x \<in> set M0. lev (core s) x \<le> res" using F(5) l0(3) by simp
  note H1 = move_highest_spec [OF len(2) this, folded M_def]
  have m: "mset M = mset L" using H1(9) m0 by simp
  have h: "M ! 0 = M0 ! 0" "length M = length L" "set M = set L" using H1(2,7) H1(4) l0(2) mset_eq_setD [OF m] by simp_all
  have top0: "lev (core s) x \<le> lev (core s) (M ! 0)" if "x \<in> set M" for x
  proof -
    have "x \<in> set M0" using that h(3) l0(3) by simp
    then show ?thesis using H0(8) h(1) l0(2) by (auto simp: in_set_conv_nth)
  qed
  have top1: "lev (core s) (M ! k) \<le> lev (core s) (M ! 1)" if "1 \<le> k" "k < length M" for k using H1(8) that h(2) l0(2) by simp
  have dm: "distinct M" using C(2) mset_eq_imp_distinct_iff [OF m] by simp
  have ln: "0 < length M" "1 < length M" using C(1) h(2) by linarith+
  then have one: "M ! 1 \<in> set M" "M ! 0 \<in> set M" "M ! 1 \<noteq> M ! 0" using dm by (simp_all add: nth_eq_iff_index_eq)
  show thesis
  proof (rule that [OF u(1) B(1,2) _ cu])
    show "propagated u = propagated s" using A(3) B(3) by simp
    show "mset M = mset (lits_at (core s) c)" using m by (simp add: L_def)
    show "trail_ok (core u)" "falsified (core u) c" "res \<le> level (core s)" "\<forall>x \<in> set M. lev (core s) x \<le> res"
      using F(2-5) u(2) h(3) by simp_all
    show "forced \<noteq> 0 \<Longrightarrow> 0 < res \<and> M ! 0 = forced \<and> lev (core s) forced = res \<and> lev (core s) (M ! 1) < res \<and>
        (\<forall>x \<in> set M. x \<noteq> forced \<longrightarrow> lev (core s) x \<le> lev (core s) (M ! 1))"
    proof -
      assume "forced \<noteq> 0"
      note G = F(7) [OF this, folded h(3)]
      have z: "M ! 0 = forced" using top0 [of forced] G one(2) by fastforce
      moreover have "lev (core s) x \<le> lev (core s) (M ! 1)" if x: "x \<in> set M" "x \<noteq> forced" for x
      proof -
        obtain k where k: "k < length M" "M ! k = x" using x(1) by (auto simp: in_set_conv_nth)
        then have "k \<noteq> 0" using z x(2) by (cases k) auto
        then show ?thesis using top1 [of k] k by simp
      qed
      ultimately show ?thesis using G one by auto
    qed
    show "forced = 0 \<Longrightarrow> 0 < res \<Longrightarrow> lev (core s) (M ! 0) = res \<and> lev (core s) (M ! 1) = res"
    proof -
      assume "forced = 0" "0 < res"
      then have o: "2 \<le> on_level (core s) res M" using F(6) on_level_mset [OF m] by simp
      have le: "lev (core s) x \<le> res" if "x \<in> set M" for x using F(5) h(3) that by simp
      obtain a b xs where M: "M = a # b # xs" using C(1) h(2) by (cases M; cases "tl M") auto
      have "lev (core s) b = res"
      proof (rule ccontr)
        assume ne: "lev (core s) b \<noteq> res"
        have "lev (core s) b < res" using ne le [of b] M by simp
        have "lev (core s) x \<le> lev (core s) b" if "x \<in> set xs" for x
        proof -
          obtain k where "k < length xs" "xs ! k = x" using \<open>x \<in> set xs\<close> unfolding in_set_conv_nth by blast
          then show ?thesis using top1 [of "k + 2"] by (simp add: M)
        qed
        then have "on_level (core s) res xs = 0" using \<open>lev (core s) b < res\<close> by (force simp: on_level_0)
        then show False using o ne M by (simp split: if_splits)
      qed
      then show ?thesis using top0 [of b] le [of a] M by (simp add: order_antisym)
    qed
  qed
qed

section \<open>Driving a literal\<close>

definition guards_but :: "nat \<Rightarrow> search \<Rightarrow> nat \<Rightarrow> bool" where
  "guards_but c s p \<longleftrightarrow> ltrail (control s ! level s) \<le> p \<and> p \<le> length (trail s) \<and>
     (\<forall>k < level s. \<forall>d < length (clauses s). d \<noteq> c \<longrightarrow> guarded s p k d)"

lemma guards_butD:
  assumes "guards_but c s p"
  shows "ltrail (control s ! level s) \<le> p" "p \<le> length (trail s)"
    "\<And>k d. k < level s \<Longrightarrow> d < length (clauses s) \<Longrightarrow> d \<noteq> c \<Longrightarrow> guarded s p k d"
  using assms unfolding guards_but_def by blast+

lemma guards_but_guards: "guards s p \<Longrightarrow> guards_but c s p"
  unfolding guards_but_def guards_def by blast

lemma guards_but_back:
  assumes ok: "trail_ok s" and l: "l < level s" and g: "guards_but c s q"
  shows "guards_but c (backtrack l s) (min q (cut s l))"
    "\<And>k d. k \<le> l \<Longrightarrow> d < length (clauses s) \<Longrightarrow> d \<noteq> c \<Longrightarrow> guarded (backtrack l s) (min q (cut s l)) k d"
proof -
  let ?t = "backtrack l s"
  note T = trail_okD [OF ok] and G = guards_butD [OF g]
  note L = levels_okD [OF T(2)]
  note B = backtrack_effect [OF ok less_imp_le [OF l]]
  show k: "guarded ?t (min q (cut s l)) k d" if "k \<le> l" "d < length (clauses s)" "d \<noteq> c" for k d
    using guarded_backtrack [OF ok that(1) l] G(3) that l by simp
  have cl: "cut s l = ltrail (control s ! (l + 1))" using l by (simp add: cut_def)
  have "take (cut s l) (trail ?t) = take (cut s l) (trail s)" unfolding cl by (rule B(11) [OF l])
  from arg_cong [OF this, of length] have "cut s l \<le> length (trail ?t)" using cut_bounds(1) [OF T(2), of l] l by simp
  moreover have "ltrail (control ?t ! l) \<le> q" "ltrail (control ?t ! l) \<le> cut s l"
    using L(1) L(3) [of l "level s"] L(3) [of l "l + 1"] l G(1) by (simp_all add: B(3) cl)
  ultimately show "guards_but c ?t (min q (cut s l))" using k by (simp add: guards_but_def B(2,4))
qed

text \<open>The second literal of a clause that drives has the level of the driven one.\<close>

lemma drive_guards:
  assumes ok: "trail_ok s" and l: "l < level s" and g: "guards_but c s q"
    and p: "puts_literal (backtrack l s) y v t" and y: "lit_in (length (vals s)) y" "val (backtrack l s) y = 0" and tok: "trail_ok t"
    and c: "c < length (clauses s) \<Longrightarrow> lits_at s c ! 0 = y \<and> vlevel v \<le> lev s (lits_at s c ! 1)"
  shows "guards (calm t) (min q (cut s l))"
proof -
  let ?b = "backtrack l s" and ?q = "min q (cut s l)"
  note B = backtrack_effect [OF ok less_imp_le [OF l]] and bok = backtrack_ok [OF ok less_imp_le [OF l]]
  have yb: "lit_in (length (vals ?b)) y" using y(1) B(5) by simp
  note P = putsD [OF p] and W = puts_values [OF p trail_okD(1) [OF bok] yb y(2)]
  note G = guards_butD [OF guards_but_back(1) [OF ok l g]]
  have "guarded t ?q k d" if k: "k \<le> l" and d: "d < length (clauses s)" for k d
  proof (cases "d = c")
    case False
    then show ?thesis by (intro guarded_puts [OF p trail_okD(1) [OF bok] yb y(2) G(2)] guards_but_back(2) [OF ok l g k d])
  next
    case True
    have la: "lits_at t c = lits_at s c" by (simp add: lits_at_def P(6) B(4))
    have c0: "lits_at s c ! 0 = y" "vlevel v \<le> lev s (lits_at s c ! 1)" "2 \<le> length (lits_at s c)"
      using c d True clauses_okD(1) [OF trail_okD(4) [OF ok], of c] by simp_all
    have "y \<in> set (lits_at s c)" using c0(1,3) nth_mem [of 0 "lits_at s c"] by (cases "lits_at s c") simp_all
    have "held t k c" if i: "i < 2" and x: "- (lits_at s c ! i) \<in> set (take (min ?q (cut t k)) (trail t))" for i
    proof -
      have "?q \<le> length (trail ?b)" by (rule G(2))
      then have "- (lits_at s c ! i) \<in> set (trail ?b)" using x by (auto simp: P(1) dest: in_set_takeD)
      then have ne: "vidx (- (lits_at s c ! i)) \<noteq> vidx y" using W(5,6) by (metis vidx_eq minus_equation_iff)
      then have "i = 1" using i c0(1) by (cases i) auto
      have "- (lits_at s c ! 1) \<in> set (take (cut t k) (trail t))"
        using x unfolding \<open>i = 1\<close> by (meson min.cobounded2 set_take_subset_set_take subsetD)
      then have "lev t (lits_at s c ! 1) \<le> k" using cut_bounds(3) [OF trail_okD(2) [OF tok]] k by (fastforce simp: P(5) B(2))
      moreover have "lev t (lits_at s c ! 1) = lev s (lits_at s c ! 1)" using ne by (simp add: \<open>i = 1\<close> W(3) B(7))
      ultimately have "lev t y \<le> k" using c0(2) by (simp add: W(3))
      then show ?thesis using \<open>y \<in> _\<close> by (auto simp: held_def la P(1))
    qed
    then show ?thesis by (simp add: guarded_def la True)
  qed
  then have "guarded (calm t) ?q k d" if "k \<le> l" "d < length (clauses s)" for k d
    using that by (simp add: guarded_def held_def cut_def)
  then show ?thesis using G(1,2) by (simp add: guards_def P B(2,4))
qed

end
