(* ===== verification/Watch_Carry.thy ===== *)
theory Watch_Carry
  imports Watch_Drive
begin

text \<open>
  Steps that leave the watch lists as they are, and the watches of a new clause.
\<close>

section \<open>Carrying the watches along\<close>

lemma guards_but_cong:
  assumes "trail t = trail s" "vtab t = vtab s" "level t = level s" "map ltrail (control t) = map ltrail (control s)"
    and "length (control s) = level s + 1" "\<And>d. d < length (clauses t) \<Longrightarrow> d \<noteq> c \<Longrightarrow> d < length (clauses s) \<and> lits_at t d = lits_at s d"
    and "guards_but c s p"
  shows "guards_but c t p"
proof -
  have "length (control t) = length (control s)" using assms(4) by (rule map_eq_imp_length_eq)
  then have "ltrail (control t ! level s) = ltrail (control s ! level s)" using assms(4,5) by (metis less_add_one nth_map)
  moreover have "guarded t p k d" if "k < level s" "d < length (clauses t)" "d \<noteq> c" for k d
    using guarded_cong [OF assms(1-4) _ _ assms(5), of d k p] assms(6) [OF that(2,3)] guards_butD(3) [OF assms(7) that(1) _ that(3)] that(1) by simp
  ultimately show ?thesis using guards_butD(1,2) [OF assms(7)] assms(1,3) by (simp add: guards_but_def)
qed

lemma watches_carried:
  assumes "clauses (core t) = clauses (core s)" "length (vals (core t)) = length (vals (core s))" "wtab t = wtab s" "cpos t = cpos s"
    and "clauses_ok (core s)" "tables_ok s" "lists_ok (core s) (watches s)"
  shows "tables_ok t" "lists_ok (core t) (watches t)"
proof -
  have "watches t = watches s" using assms(3) by (simp add: watches_def fun_eq_iff)
  then show "lists_ok (core t) (watches t)" using lists_ok_cong [OF assms(1,2), of "watches s" "watches s"] clauses_okD(3) [OF assms(5)] assms(7) by simp
  show "tables_ok t" using assms(6) by (simp add: tables_ok_def assms(1-4) lits_at_def)
qed

lemma finish_same: "same_search t (finish_analysis t)" "conflict (finish_analysis t) = None"
  by (simp_all add: finish_analysis_def clear_levels_fold clear_unit_analyzed_literals_def clear_analyzed_literals_def clear_seen_def)

lemma guards_finish:
  assumes "trail_ok t" "guards (calm t) p"
  shows "guards (finish_analysis t) p"
proof -
  note S = same_searchD [OF finish_same(1) [of t]]
  show ?thesis by (rule guards_cong [where s = "calm t"])
    (use S finish_same(2) levels_okD(1) [OF trail_okD(2) [OF assms(1)]] assms(2) in simp_all)
qed

text \<open>A new clause.\<close>

lemma lists_ok_add:
  assumes W: "lists_ok s W" and cl: "clauses t = clauses s @ [cl]" "length (vals t) = length (vals s)"
    and l: "2 \<le> length (sc_lits cl)" "distinct (sc_lits cl)"
    and W': "\<And>x. lit_in (length (vals s)) x \<Longrightarrow> W' x = W x @
      (if x = sc_lits cl ! 0 then [\<lparr>wclause = length (clauses s), blit = sc_lits cl ! 1, wsize = length (sc_lits cl)\<rparr>]
       else if x = sc_lits cl ! 1 then [\<lparr>wclause = length (clauses s), blit = sc_lits cl ! 0, wsize = length (sc_lits cl)\<rparr>] else [])"
    and inr: "clauses_ok t"
  shows "lists_ok t W'"
proof -
  define c where "c = length (clauses s)"
  note D = lists_okD [OF W]
  have new: "lits_at t c = sc_lits cl" and old: "\<And>d. d < c \<Longrightarrow> lits_at t d = lits_at s d" by (simp_all add: c_def lits_at_def cl nth_append)
  have t2: "set (take 2 (sc_lits cl)) = {sc_lits cl ! 0, sc_lits cl ! 1}" using take_2 [OF l(1)] by simp
  have ne: "sc_lits cl ! 0 \<noteq> sc_lits cl ! 1" "sc_lits cl ! 0 \<in> set (sc_lits cl)" "sc_lits cl ! 1 \<in> set (sc_lits cl)"
    using l by (cases "sc_lits cl"; cases "tl (sc_lits cl)"; auto)+
  have keep: "watch_ok t x w" "wclause w < c" if "watch_ok s x w" for x w
    using that old by (simp_all add: watch_ok_def cl c_def)
  have "c < length (clauses t)" by (simp add: cl c_def)
  then have ws: "watch_ok t (sc_lits cl ! 0) \<lparr>wclause = c, blit = sc_lits cl ! 1, wsize = length (sc_lits cl)\<rparr>"
    "watch_ok t (sc_lits cl ! 1) \<lparr>wclause = c, blit = sc_lits cl ! 0, wsize = length (sc_lits cl)\<rparr>"
    using ne t2 by (simp_all add: watch_ok_def new)
  have "distinct (map wclause (W' x)) \<and> (\<forall>w \<in> set (W' x). watch_ok t x w)" if x: "lit_in (length (vals s)) x" for x
  proof -
    have "c \<notin> wclause ` set (W x)" using D(2) [OF x] keep(2) by fastforce
    then show ?thesis
      using D(1,2) [OF x] keep(1) ws unfolding W' [OF x, folded c_def] by auto
  qed
  moreover have "d \<in> wclause ` set (W' x)" if d: "d < length (clauses t)" "x \<in> set (take 2 (lits_at t d))" for d x
  proof -
    have x: "lit_in (length (vals s)) x" using clauses_okD(3) [OF inr d(1) in_set_takeD [OF d(2)]] cl(2) by simp
    show ?thesis
    proof (cases "d = c")
      case True
      then show ?thesis using d(2) new t2 unfolding W' [OF x, folded c_def] by auto
    next
      case False
      then have "d < c" using d(1) cl c_def by simp
      then have "d \<in> wclause ` set (W x)" using D(3) d(2) old c_def by simp
      then show ?thesis unfolding W' [OF x] by auto
    qed
  qed
  ultimately show ?thesis by (simp add: lists_ok_def cl(2))
qed

lemma watches_watch_clause:
  assumes "length (wtab s) = 2 * n" "lit_in n (lits_at (core s) c ! 0)" "lit_in n (lits_at (core s) c ! 1)" "lit_in n x"
    and "lits_at (core s) c ! 0 \<noteq> lits_at (core s) c ! 1"
  shows "watches (watch_clause c s) x = watches s x @
      (if x = lits_at (core s) c ! 0 then [\<lparr>wclause = c, blit = lits_at (core s) c ! 1, wsize = length (lits_at (core s) c)\<rparr>]
       else if x = lits_at (core s) c ! 1 then [\<lparr>wclause = c, blit = lits_at (core s) c ! 0, wsize = length (lits_at (core s) c)\<rparr>] else [])"
    "length (wtab (watch_clause c s)) = length (wtab s)" "cpos (watch_clause c s) = cpos s" "propagated (watch_clause c s) = propagated s"
proof -
  let ?t = "watch_literal (lits_at (core s) c ! 0) (lits_at (core s) c ! 1) c s"
  have "length (wtab ?t) = 2 * n" using assms(1) by (simp add: watch_literal_def)
  note w1 = watches_simps(1) [OF this assms(3,4)] and w0 = watches_simps(1) [OF assms(1,2,4)]
  show "watches (watch_clause c s) x = watches s x @
      (if x = lits_at (core s) c ! 0 then [\<lparr>wclause = c, blit = lits_at (core s) c ! 1, wsize = length (lits_at (core s) c)\<rparr>]
       else if x = lits_at (core s) c ! 1 then [\<lparr>wclause = c, blit = lits_at (core s) c ! 0, wsize = length (lits_at (core s) c)\<rparr>] else [])"
    unfolding watch_clause_def Let_def w1 unfolding w0 using assms(5) by auto
qed (simp_all add: watch_clause_def watch_literal_def Let_def)

end
