(* ===== verification/Watch_Learn.thy ===== *)
theory Watch_Learn
  imports Watch_Carry
begin

text \<open>
  Learning a clause: its watches, backtracking, and the assignment it drives.
\<close>

section \<open>Learning a clause\<close>

text \<open>The new clause of two literals or more, and the state that has it.\<close>

lemma driving_clause_new:
  assumes ok: "trail_ok w" and two: "2 \<le> length (clause w)" and d: "distinct (clause w)" "- uip \<in> set (clause w)"
    and f: "\<forall>y \<in> set (clause w). - y \<in> set (trail w)" "\<forall>y \<in> set (clause w). y \<noteq> - uip \<longrightarrow> lev w y < lev w (- uip)"
  obtains x lits i where "new_driving_clause w = ((x, lev w (lits ! 1)), Reason (length (clauses w)))"
    and "mset lits = mset (clause w)" "trail x = trail w" "vals x = vals w" "vtab x = vtab w" "level x = level w" "control x = control w"
      "clauses x = clauses w @ [\<lparr>sc_id = i, sc_lits = lits\<rparr>]" "lits_at x (length (clauses w)) = lits"
    and "trail_ok x" "lits ! 0 = - uip" "lits ! 1 \<in> set lits" "lits ! 1 \<noteq> - uip"
      "\<forall>y \<in> set lits. y \<noteq> - uip \<longrightarrow> lev w y \<le> lev w (lits ! 1)"
proof -
  define lits where "lits = sort_key (trail_rank w) (clause w)"
  define i where "i = sc_id (clauses (fst (fst (new_driving_clause w))) ! length (clauses w))"
  define x where "x = fst (fst (new_driving_clause w))"
  have n: "new_driving_clause w = ((x, lev w (lits ! 1)), Reason (length (clauses w)))"
    using two by (simp add: x_def lits_def new_driving_clause_def new_learned_redundant_clause_def Let_def)
  have ms: "mset lits = mset (clause w)" "set lits = set (clause w)" "length lits = length (clause w)" "distinct lits"
    using d(1) by (simp_all add: lits_def)
  note O = driving_order [OF trail_okD(1) [OF ok] f(1) d(2,1) f(2) two, folded lits_def]
  have tx: "trail x = trail w" "vals x = vals w" "vtab x = vtab w" "level x = level w" "control x = control w"
    "clauses x = clauses w @ [\<lparr>sc_id = i, sc_lits = lits\<rparr>]"
    using two by (simp_all add: x_def i_def lits_def new_driving_clause_def new_learned_redundant_clause_def Let_def)
  have "trail_ok x"
  proof (rule add_clause_ok [OF ok _ ms(4) _ tx])
    show "2 \<le> length lits" using two ms(3) by simp
    have "lit_in (length (vals w)) y" if "- y \<in> set (trail w)" for y
      using values_okD(4) [OF trail_okD(1) [OF ok] that] by simp
    then show "\<forall>y \<in> set lits. lit_in (length (vals w)) y" using f(1) ms(2) by simp
  qed
  then show thesis using that [OF n ms(1) tx] O ms(2) by (simp add: lits_at_def tx(6))
qed

lemma undone_unassigned:
  assumes "trail_ok s" "l < level s" "l < lev s y" "y \<in> set (trail s) \<or> - y \<in> set (trail s)"
  shows "val (backtrack l s) y = 0" "lit_in (length (vals s)) y"
proof -
  show "lit_in (length (vals s)) y" using values_okD(4) [OF trail_okD(1) [OF assms(1)]] assms(4) by fastforce
  then have "y \<noteq> 0" by (auto simp: lit_in_def)
  from backtrack_effect(9) [OF assms(1) less_imp_le [OF assms(2)] this] show "val (backtrack l s) y = 0" using assms(3,4) by simp
qed

lemma assignment_level_le:
  assumes "\<forall>x \<in> set (lits_at s c). x \<noteq> y \<longrightarrow> lev s x \<le> j"
  shows "assignment_level s y c \<le> j"
  using assignment_level_max [of s c y] assms by (metis le0)

text \<open>Backtracking, assigning the driven literal and clearing up.\<close>

lemma watched_driven:
  fixes opts :: search_opts
  assumes ok: "trail_ok (core b)" and g: "guards_but c (core b) (propagated b)" and w: "tables_ok b" "lists_ok (core b) (watches b)"
    and l: "l < level (core b)" and uip: "uip \<in> set (trail (core b))" "lev (core b) uip = level (core b)"
    and r: "(r = No_reason \<and> c = length (clauses (core b))) \<or> (r = Reason c \<and> c < length (clauses (core b)) \<and> lits_at (core b) c ! 0 = - uip \<and>
      (\<forall>x \<in> set (lits_at (core b) c). x \<noteq> - uip \<longrightarrow> - x \<in> set (trail (core b)) \<and> lev (core b) x \<le> l \<and> lev (core b) x \<le> lev (core b) (lits_at (core b) c ! 1)))"
  defines "t \<equiv> on_core finish_analysis (on_core (search_assign opts (- uip) r) (watched_backtrack l b))"
  shows "tables_ok t" "lists_ok (core t) (watches t)" "guards (core t) (propagated t)"
proof -
  let ?b = "backtrack l (core b)"
  let ?t = "search_assign opts (- uip) r ?b"
  note T = trail_okD [OF ok]
  have r': "r = No_reason \<or> (\<exists>d. r = Reason d \<and> d < length (clauses (core b)) \<and> - uip \<in> set (lits_at (core b) d) \<and>
      (\<forall>x \<in> set (lits_at (core b) d). x \<noteq> - uip \<longrightarrow> - x \<in> set (trail (core b)) \<and> lev (core b) x \<le> l))"
  proof -
    have "- uip \<in> set (lits_at (core b) c)" if "c < length (clauses (core b))" "lits_at (core b) c ! 0 = - uip"
      using clauses_okD(1) [OF T(4) that(1)] that(2) nth_mem [of 0 "lits_at (core b) c"] by (cases "lits_at (core b) c") simp_all
    then show ?thesis using r by blast
  qed
  note D = drive_assign(1-7) [OF ok uip l r', where opts = opts] and D8 = drive_assign(8) [OF ok uip l r']
  note B = watched_backtrack_state [OF l]
  note S = same_searchD [OF finish_same(1) [of ?t]]
  have ct: "core t = finish_analysis ?t" "wtab t = wtab b" "cpos t = cpos b" "propagated t = min (propagated b) (cut (core b) l)"
    using B by (simp_all add: t_def on_core_def)
  show "tables_ok t" "lists_ok (core t) (watches t)"
    using watches_carried [of t b] T(4) w S(2,5) D(4,5) by (simp_all add: ct)
  have u: "- uip \<in> set (trail (core b)) \<or> - (- uip) \<in> set (trail (core b))" "l < lev (core b) (- uip)" using uip l by simp_all
  note V = undone_unassigned [OF ok l u(2,1)]
  have "guards (calm ?t) (min (propagated b) (cut (core b) l))"
  proof (rule drive_guards [OF ok l g search_assign_puts V(2,1) D(1)])
    assume c: "c < length (clauses (core b))"
    then have r: "r = Reason c" "lits_at (core b) c ! 0 = - uip"
        "\<forall>x \<in> set (lits_at (core b) c). x \<noteq> - uip \<longrightarrow> lev (core b) x \<le> lev (core b) (lits_at (core b) c ! 1)"
      using r by auto
    show "lits_at (core b) c ! 0 = - uip \<and> vlevel (assigned_var ?b (- uip) r) \<le> lev (core b) (lits_at (core b) c ! 1)"
      using r(2) assignment_level_le [OF r(3)] D8 by (simp add: r(1) assigned_var_def Let_def)
  qed
  then show "guards (core t) (propagated t)" using guards_finish [OF D(1)] by (simp add: ct)
qed

lemma watched_learn_ok:
  fixes assumed :: nat and stays :: "nat \<Rightarrow> nat \<Rightarrow> bool"
  assumes ok: "trail_ok (core b)" and lv: "level (core b) \<noteq> 0" and L: "learned opts (core b) c rs uip v ms us"
    and uip: "uip \<in> set (trail (core b))" "lev (core b) uip = level (core b)"
    and f: "\<forall>x \<in> set (clause v). - x \<in> set (trail (core b)) \<and> (x \<noteq> - uip \<longrightarrow> lev (core b) x \<noteq> 0 \<and> lev (core b) x < level (core b))"
    and w: "tables_ok b" "lists_ok (core b) (watches b)"
    and g: "guards_but (length (clauses (core b))) (core b) (propagated b)"
  defines "t \<equiv> watched_learn opts assumed stays uip (b\<lparr>core := v\<rparr>)"
  shows "tables_ok t \<and> lists_ok (core t) (watches t) \<and> guards (core t) (propagated t)"
proof -
  define w where "w = reverse_chain opts v"
  let ?b = "b\<lparr>core := w\<rparr>" and ?c = "length (clauses w)"
  have ss: "same_search (core b) v" and d: "distinct (clause v)" "- uip \<in> set (clause v)" using L unfolding learned_def by auto
  have sw: "same_search (core b) w" using ss by (simp add: w_def reverse_chain_def)
  have cw: "clause w = clause v" by (simp add: w_def reverse_chain_def)
  note C = same_searchD [OF sw] and wok = same_search_ok [OF ok sw]
  note T = trail_okD [OF ok]
  have uw: "uip \<in> set (trail w)" "lev w uip = level w" using uip C by simp_all
  have B: "tables_ok ?b" "lists_ok (core ?b) (watches ?b)" using watches_carried [of ?b b] C(2,5) T(4) assms(7,8) by simp_all
  have G: "guards_but ?c w (propagated b)"
    by (rule guards_but_cong [OF C(1,3,4,11) levels_okD(1) [OF T(2)] _ g [folded C(5)]]) (simp add: C)
  have run: "t = (let ((s, jump), driving) = watched_driving_clause ?b;
      s = watched_backtrack (determine_actual_backtrack_level opts assumed stays jump (core s)) s
      in on_core finish_analysis (on_core (search_assign opts (- uip) driving) s))"
    by (simp add: t_def watched_learn_def w_def on_core_def)
  show ?thesis
  proof (cases "length (clause v) \<le> 1")
    case True
    define l where "l = determine_actual_backtrack_level opts assumed stays 0 w"
    have l: "l < level w" using backtrack_level_bound(2) [of 0 w] lv C(4) by (simp add: l_def)
    have "t = on_core finish_analysis (on_core (search_assign opts (- uip) No_reason) (watched_backtrack l ?b))"
      using True by (simp add: run watched_driving_clause_def new_driving_clause_def cw l_def)
    then show ?thesis using watched_driven [of ?b ?c l uip No_reason opts] wok G B l uw by simp
  next
    case False
    have f': "\<forall>y \<in> set (clause w). - y \<in> set (trail w)" "\<forall>y \<in> set (clause w). y \<noteq> - uip \<longrightarrow> lev w y < lev w (- uip)"
      using f uw(2) C(1,4,12) by (simp_all add: cw)
    obtain x lits i where n: "new_driving_clause w = ((x, lev w (lits ! 1)), Reason ?c)"
      and m: "mset lits = mset (clause w)" and tx: "trail x = trail w" "vals x = vals w" "vtab x = vtab w" "level x = level w"
        "control x = control w" "clauses x = clauses w @ [\<lparr>sc_id = i, sc_lits = lits\<rparr>]" "lits_at x ?c = lits"
      and xok: "trail_ok x" and O: "lits ! 0 = - uip" "lits ! 1 \<in> set lits" "lits ! 1 \<noteq> - uip"
        "\<forall>y \<in> set lits. y \<noteq> - uip \<longrightarrow> lev w y \<le> lev w (lits ! 1)"
      using driving_clause_new [OF wok _ _ _ f'] d False by (metis cw not_less_eq_eq numeral_2_eq_2 One_nat_def)
    have ml: "set lits = set (clause v)" "length lits = length (clause v)" "distinct lits"
      using mset_eq_setD [OF m] mset_eq_length [OF m] mset_eq_imp_distinct_iff [OF m] d(1) by (simp_all add: cw)
    have vx: "var x = var w" using tx(3) by (simp add: var_def fun_eq_iff)
    let ?y = "b\<lparr>core := x, cpos := cpos b @ [2]\<rparr>"
    define b1 where "b1 = watch_clause ?c ?y"
    have dr: "watched_driving_clause ?b = ((b1, lev w (lits ! 1)), Reason ?c)" by (simp add: watched_driving_clause_def n b1_def)
    have len: "length (wtab ?y) = 2 * length (vals x)" using B(1) tx(2) by (simp add: tables_ok_def)
    have rin: "lit_in (length (vals x)) y" if "y \<in> set lits" for y
      using clauses_okD(3) [OF trail_okD(4) [OF xok], of ?c y] tx(6,7) that by simp
    have two: "2 \<le> length lits" using False ml(2) by simp
    then have l01: "lits ! 0 \<in> set lits" "lits ! 0 \<noteq> lits ! 1" using O(1,3) by (cases lits; force)+
    have W: "watches b1 y = watches b y @
        (if y = lits ! 0 then [\<lparr>wclause = ?c, blit = lits ! 1, wsize = length lits\<rparr>]
         else if y = lits ! 1 then [\<lparr>wclause = ?c, blit = lits ! 0, wsize = length lits\<rparr>] else [])"
      if "lit_in (length (vals w)) y" for y
      using watches_watch_clause(1) [of ?y "length (vals x)" ?c y] len rin [OF l01(1)] rin [OF O(2)] that l01(2) tx(2,7)
      by (simp add: b1_def watches_def)
    have b1: "length (wtab b1) = length (wtab b)" "cpos b1 = cpos b @ [2]" "propagated b1 = propagated b" "core b1 = x"
      by (simp_all add: b1_def watch_clause_def watch_literal_def Let_def)
    have wb: "watches ?b = watches b" by (simp add: watches_def fun_eq_iff)
    have "lists_ok x (watches b1)"
      by (rule lists_ok_add [where s = w and W = "watches b" and cl = "\<lparr>sc_id = i, sc_lits = lits\<rparr>"])
        (use B(2) wb tx(2,6) two ml(3) W trail_okD(4) [OF xok] in simp_all)
    moreover have "tables_ok b1"
    proof -
      have "lits_at x e = lits_at w e" if "e < ?c" for e using that tx(6) by (simp add: lits_at_def nth_append)
      then show ?thesis using B(1) two tx(7) len b1(1) by (auto simp: tables_ok_def b1 tx(6) nth_append less_Suc_eq)
    qed
    moreover have "guards_but ?c x (propagated b1)"
      by (rule guards_but_cong [where s = w]) (use tx G levels_okD(1) [OF trail_okD(2) [OF wok]] in \<open>auto simp: b1 lits_at_def nth_append\<close>)
    moreover define l where "l = determine_actual_backtrack_level opts assumed stays (lev w (lits ! 1)) x"
    have "lev w (lits ! 1) < level x" using O(2,3) f' uw(2) tx(4) by (simp add: ml(1) cw)
    note bd = backtrack_level_bound [OF this, of opts assumed stays, folded l_def]
    have "t = on_core finish_analysis (on_core (search_assign opts (- uip) (Reason ?c)) (watched_backtrack l b1))"
      by (simp add: run dr b1 l_def)
    moreover have "\<forall>y \<in> set lits. y \<noteq> - uip \<longrightarrow> - y \<in> set (trail x) \<and> lev x y \<le> l \<and> lev x y \<le> lev x (lits ! 1)"
      using O(4) bd(1) f'(1) tx(1) by (auto simp: ml(1) cw vx)
    ultimately show ?thesis
      using watched_driven [of b1 ?c l uip "Reason ?c" opts] xok bd(2) uw tx O(1) by (simp add: b1 vx)
  qed
qed

end
