(* ===== verification/Watch_Analyze.thy ===== *)
theory Watch_Analyze
  imports Watch_Learn
begin

text \<open>
  The analysis of a conflict returns and keeps the invariant of the watches.
\<close>

section \<open>Analysis\<close>

text \<open>The state after the conflict level was found and the search returned to it.\<close>

lemma guards_but_set_lits:
  assumes "levels_ok s" "c < length (clauses s)" "guards_but c s p"
  shows "guards_but c (set_lits c M s) p"
  by (rule guards_but_cong [where s = s]) (use assms lits_at_set_lits [OF assms(2)] levels_okD(1) [OF assms(1)] in simp_all)

lemma guards_but_at_conflict:
  assumes ok: "trail_ok s" and g: "guards_but c s q" and l: "l \<le> level s"
  shows "guards_but c (backtrack l s) (if l = level s then q else min q (cut s l))"
proof (cases "l = level s")
  case True
  then show ?thesis using g by (simp add: backtrack_def)
next
  case False
  then show ?thesis using guards_but_back(1) [OF ok _ g, of l] l by simp
qed

lemma watched_backtrack_fields:
  assumes "l \<le> level (core s)"
  shows "core (watched_backtrack l s) = backtrack l (core s)" "wtab (watched_backtrack l s) = wtab s" "cpos (watched_backtrack l s) = cpos s"
    "propagated (watched_backtrack l s) = (if l = level (core s) then propagated s else min (propagated s) (cut (core s) l))"
  using assms by (auto simp: watched_backtrack_def backtrack_def cut_def min_def Let_def)

text \<open>A clause whose watches are both on the current level is guarded below it.\<close>

lemma guarded_above:
  assumes ok: "levels_ok s" and k: "k < level s" and i: "lev s (lits_at s c ! 0) = level s" "lev s (lits_at s c ! 1) = level s"
  shows "guarded s p k c"
proof -
  have "- (lits_at s c ! i) \<notin> set (take (min p (cut s k)) (trail s))" if "i < 2" for i
  proof
    assume "- (lits_at s c ! i) \<in> set (take (min p (cut s k)) (trail s))"
    then have "- (lits_at s c ! i) \<in> set (take (cut s k) (trail s))" by (meson min.cobounded2 set_take_subset_set_take subsetD)
    then have "lev s (lits_at s c ! i) \<le> k" using cut_bounds(3) [OF ok, of k] k by fastforce
    then show False using i k that by (auto simp: less_2_cases_iff)
  qed
  then show ?thesis by (simp add: guarded_def)
qed

text \<open>The forced literal of a conflict with one literal of the highest level.\<close>

lemma watched_forced:
  fixes opts :: search_opts
  assumes ok: "trail_ok (core u)" and g: "guards_but c (core u) (propagated u)" and w: "tables_ok u" "lists_ok (core u) (watches u)"
    and f: "falsified (core u) c" and l: "0 < l" "l \<le> level (core u)"
    and M: "lits_at (core u) c ! 0 = y" "lev (core u) y = l"
      "\<forall>x \<in> set (lits_at (core u) c). x \<noteq> y \<longrightarrow> lev (core u) x \<le> lev (core u) (lits_at (core u) c ! 1)"
  defines "b \<equiv> watched_backtrack (l - 1) u"
  defines "t \<equiv> on_core (\<lambda>s. s\<lparr>conflict := None\<rparr>) (on_core (search_assign opts y (Reason c)) (on_core (build_chain_for_units opts y c False) b))"
  assumes tok: "trail_ok (core t)"
  shows "tables_ok t" "lists_ok (core t) (watches t)" "guards (core t) (propagated t)"
proof -
  have lt: "l - 1 < level (core u)" using l by simp
  let ?t = "propagate_unit opts y c (backtrack (l - 1) (core u))"
  note B = watched_backtrack_state [OF lt] and E = backtrack_effect [OF ok less_imp_le [OF lt]]
  have ct: "core t = calm ?t" "wtab t = wtab u" "cpos t = cpos u" "propagated t = min (propagated u) (cut (core u) (l - 1))"
    using B by (simp_all add: t_def b_def on_core_def propagate_unit_def calm_def)
  show "tables_ok t" "lists_ok (core t) (watches t)"
    using watches_carried [of t u] trail_okD(4) [OF ok] w E(4,5) by (simp_all add: ct)
  have c: "c < length (clauses (core u))" using f by (simp add: falsified_def)
  have yin: "y \<in> set (lits_at (core u) c)"
    using M(1) clauses_okD(1) [OF trail_okD(4) [OF ok] c] nth_mem [of 0 "lits_at (core u) c"] by (cases "lits_at (core u) c") simp_all
  have "- y \<in> set (trail (core u))" using f yin by (simp add: falsified_def)
  note V = undone_unassigned [OF ok lt _ disjI2 [OF this]]
  have "guards (calm ?t) (min (propagated u) (cut (core u) (l - 1)))"
  proof (rule drive_guards [OF ok lt g propagate_unit_puts V(2,1)])
    show "trail_ok ?t" using tok by (simp add: ct)
    have "assignment_level (backtrack (l - 1) (core u)) y c = assignment_level (core u) y c"
      by (rule assignment_level_cong) (simp_all only: E(4,7) lits_at_def)
    then show "lits_at (core u) c ! 0 = y \<and> vlevel (assigned_var (backtrack (l - 1) (core u)) y (Reason c)) \<le> lev (core u) (lits_at (core u) c ! 1)"
      using M(1) assignment_level_le [OF M(3)] by (simp add: assigned_var_def Let_def)
  qed (use l M(2) in simp_all)
  then show "guards (core t) (propagated t)" by (simp add: ct)
qed

lemma learn_empty_fields [simp]:
  "trail (learn_empty_clause opts c s) = trail s" "level (learn_empty_clause opts c s) = level s"
  "control (learn_empty_clause opts c s) = control s" "clauses (learn_empty_clause opts c s) = clauses s"
  "vals (learn_empty_clause opts c s) = vals s" "conflict (learn_empty_clause opts c s) = conflict s"
  by (simp_all add: learn_empty_clause_def Let_def)

lemma watched_analyze_ok:
  assumes f: "formula_ok n fs" and ok: "watched_ok opts n fs s" and u: "\<not> unsat (core s)" "conflict (core s) \<noteq> None"
  shows "\<exists>t. watched_analyze opts assumed stays s = Some t \<and> watched_ok opts n fs t \<and> reaches opts fs (core s) (core t)"
proof -
  note D = watched_okD [OF ok]
  obtain c where c: "conflict (core s) = Some c" using u(2) by blast
  have fc: "falsified (core s) c" using D(1) c u(1) by (auto simp: step_ok_def search_ok_def)
  then have cl: "c < length (clauses (core s))" by (simp add: falsified_def)
  have e: "enabled fs (Analyze assumed stays) (core s)" using u by (simp add: enabled_def)
  obtain v where v: "perform opts (Analyze assumed stays) (core s) = Some v" "step_ok opts n fs v"
    using perform_ok [OF D(1) f e] by blast
  then obtain t where t: "watched_analyze opts assumed stays s = Some t" "core t = v"
    using core_watched_analyze [OF c cl, of opts assumed stays] by (auto simp: perform_def)
  have tok: "trail_ok (core t)" using step_okD(1) [OF v(2)] t(2) by simp
  have r: "reaches opts fs (core s) (core t)" using reaches_step [OF e v(1)] t(2) by simp
  obtain l forced x M where X: "watched_conflict_level c s = ((l, forced), x)" "tables_ok x" "lists_ok (core x) (watches x)"
      "propagated x = propagated s" "core x = set_lits c M (core s)" "mset M = mset (lits_at (core s) c)" "trail_ok (core x)"
      "falsified (core x) c" "l \<le> level (core s)" "\<forall>y \<in> set M. lev (core s) y \<le> l"
    and F: "forced \<noteq> 0 \<Longrightarrow> 0 < l \<and> M ! 0 = forced \<and> lev (core s) forced = l \<and> lev (core s) (M ! 1) < l \<and>
      (\<forall>y \<in> set M. y \<noteq> forced \<longrightarrow> lev (core s) y \<le> lev (core s) (M ! 1))"
    and N: "forced = 0 \<Longrightarrow> 0 < l \<Longrightarrow> lev (core s) (M ! 0) = l \<and> lev (core s) (M ! 1) = l"
    by (rule watched_conflict_level_ok [OF D(5) fc D(2,3)]) blast
  have lM: "lits_at (core x) c = M" using lits_at_set_lits [OF cl] X(5) by simp
  have G: "guards_but c (core x) (propagated x)"
    using guards_but_set_lits [OF trail_okD(2) [OF D(5)] cl guards_but_guards [OF D(4)]] X(4,5) by simp
  let ?b = "watched_backtrack l x"
  have "tables_ok t \<and> lists_ok (core t) (watches t) \<and> guards (core t) (propagated t)"
  proof (cases "forced = 0")
    case False
    have "t = on_core (\<lambda>s. s\<lparr>conflict := None\<rparr>) (on_core (search_assign opts forced (Reason c))
        (on_core (build_chain_for_units opts forced c False) (watched_backtrack (l - 1) x)))"
      using t(1) False by (simp add: watched_analyze_def c X(1) Let_def)
    then show ?thesis
      using watched_forced [OF X(7) G X(2,3,8), of l forced opts] F [OF False] X(9) tok lM by (simp add: X(5))
  next
    case True
    have lx: "l \<le> level (core x)" using X(5,9) by simp
    have b: "core ?b = backtrack l (core x)" "wtab ?b = wtab x" "cpos ?b = cpos x"
      "propagated ?b = (if l = level (core x) then propagated x else min (propagated x) (cut (core x) l))"
      by (rule watched_backtrack_fields [OF lx])+
    note E = backtrack_effect [OF X(7) lx]
    have bok: "trail_ok (core ?b)" using backtrack_ok [OF X(7) lx] by simp
    have B: "tables_ok ?b" "lists_ok (core ?b) (watches ?b)" using watches_carried [of ?b x] X(2,3) b E(4,5) trail_okD(4) [OF X(7)] by simp_all
    have Gb: "guards_but c (core ?b) (propagated ?b)" using guards_but_at_conflict [OF X(7) G lx] b by simp
    show ?thesis
    proof (cases "l = 0")
      case l0: True
      have tb: "t = on_core (learn_empty_clause opts c) ?b" using t(1) True using E(2) by (simp add: watched_analyze_def c X(1) Let_def l0)
      have "conflict (core ?b) = Some c" using c by (simp add: X(5))
      moreover have ct: "core t = learn_empty_clause opts c (core ?b)" "wtab t = wtab ?b" "cpos t = cpos ?b" "propagated t = propagated ?b"
        unfolding tb by (simp_all add: on_core_def)
      ultimately have "guards (core t) (propagated t)" using guards_butD(1,2) [OF Gb] E(2) l0 by (simp add: guards_def)
      moreover have "tables_ok t" "lists_ok (core t) (watches t)"
        using watches_carried [of t ?b] B trail_okD(4) [OF bok] ct by simp_all
      ultimately show ?thesis by blast
    next
      case False
      have "core_ok opts (set fs) (core s)" using D(1) by (simp add: step_ok_def search_ok_def)
      then have "core_ok opts (set fs) (core x)"
        unfolding X(5) set_lits_def by (rule core_reorder) (use X(6) cl in \<open>auto simp: nth_list_update lits_at_def\<close>)
      then have i: "idle (core ?b)" "level (core ?b) \<noteq> 0" using core_okD(2) [OF core_backtrack [OF _ lx]] E(2) False by simp_all
      have lb: "lits_at (backtrack l (core x)) c = M" using lM E(4) by (simp add: lits_at_def)
      have fb: "falsified (core ?b) c"
        using X(8,10) E(1,4) by (simp add: falsified_def lb lM) (simp add: X(5) lM)
      have M0: "M ! 0 \<in> set M"
        using clauses_okD(1) [OF trail_okD(4) [OF X(7)], of c] X(8) lM nth_mem [of 0 M] by (cases M) (simp_all add: falsified_def)
      then have M: "lits_at (core ?b) c ! 0 \<in> set (lits_at (core ?b) c)" "lev (core ?b) (lits_at (core ?b) c ! 0) = level (core ?b)"
          "lev (core ?b) (lits_at (core ?b) c ! 1) = level (core ?b)"
        using N [OF True] False E(2,7) by (simp_all add: lb) (simp_all add: X(5))
      obtain uip w rs v ms us where A: "first_uip opts c (core ?b) = Some (uip, w)"
          "(if length (clause w) > 1 \<and> opt_minimize opts then minimize_clause opts w else Some w) = Some v"
          "learned opts (core ?b) c rs uip v ms us" "uip \<in> set (trail (core ?b))" "lev (core ?b) uip = level (core ?b)"
          "\<forall>x \<in> set (clause v). - x \<in> set (trail (core ?b)) \<and> (x \<noteq> - uip \<longrightarrow> lev (core ?b) x \<noteq> 0 \<and> lev (core ?b) x < level (core ?b))"
        by (rule analyze_parts [OF bok i fb M(1,2)]) blast
      have "guards_but (length (clauses (core ?b))) (core ?b) (propagated ?b)"
        using guards_butD [OF Gb] guarded_above [OF trail_okD(2) [OF bok] _ M(2,3)] unfolding guards_but_def by metis
      moreover have "t = watched_learn opts assumed stays uip (?b\<lparr>core := v\<rparr>)"
        using t(1) True False A(1,2) i(2) by (simp add: watched_analyze_def c X(1) Let_def watched_analyze_level_def)
      ultimately show ?thesis using watched_learn_ok [OF bok i(2) A(3-6) B] by simp
    qed
  qed
  then have "watched_ok opts n fs t" using v(2) t(2) by (simp add: watched_ok_def)
  then show ?thesis using t(1) r by blast
qed

end
