(* ===== verification/Watch_Run.thy ===== *)
theory Watch_Run
  imports Watch_Analyze
begin

text \<open>
  Runs over the watch lists: the start, the steps, and the clauses, which no run loses.
\<close>

section \<open>The clauses of a run\<close>

lemma keeps_clauses_refl: "clauses t = clauses s \<Longrightarrow> keeps_clauses s t"
  by (simp add: keeps_clauses_def lits_at_def)

lemma keeps_clauses_trans: "keeps_clauses s t \<Longrightarrow> keeps_clauses t u \<Longrightarrow> keeps_clauses s u"
  unfolding keeps_clauses_def by (metis order.strict_trans2 order.trans)

lemma perform_keeps:
  assumes so: "step_ok opts n fs s" and f: "formula_ok n fs" and e: "enabled fs e s" and p: "perform opts e s = Some t"
  shows "keeps_clauses s t"
proof (cases e)
  case (Analyze assumed stays)
  then obtain d where d: "conflict s = Some d" using e by (auto simp: enabled_def)
  have "search_ok opts (set fs) s" using so by (simp add: step_ok_def)
  from analyze_ok [OF this d, of assumed stays] show ?thesis using p Analyze by (auto simp: perform_def)
next
  case (Reorder d lits)
  then have "t = s\<lparr>clauses := (clauses s)[d := (clauses s ! d)\<lparr>sc_lits := lits\<rparr>]\<rparr>" "mset lits = mset (lits_at s d)" "d < length (clauses s)"
    using p e by (simp_all add: perform_def enabled_def)
  then show ?thesis by (auto simp: keeps_clauses_def lits_at_def nth_list_update)
next
  case (Restart l)
  then have "t = backtrack l s" "l \<le> level s" using p e by (simp_all add: perform_def enabled_def)
  then show ?thesis using backtrack_effect(4) [OF step_okD(1) [OF so]] by (simp add: keeps_clauses_refl)
qed (use p in \<open>auto simp: perform_def assign_original_unit_def search_assume_decision_def new_trail_level_def search_assign_def
    learn_unit_clause_def set_val_def Let_def intro!: keeps_clauses_refl\<close>)

lemma perform_keeps_units:
  assumes so: "step_ok opts n fs s" and f: "formula_ok n fs" and e: "enabled fs e s" and p: "perform opts e s = Some t"
  shows "keeps_units s t"
proof -
  note T = trail_okD [OF step_okD(1) [OF so]] and len = step_okD(2) [OF so]
  show ?thesis
  proof (cases e)
    case (Original_unit cid lit)
    then have l: "(cid, [lit]) \<in> set fs" "val s lit = 0" "t = assign_original_unit opts cid lit s"
      using e p by (simp_all add: enabled_def perform_def)
    have "lit_in (length (vals s)) lit" using f len l(1) by (auto simp: formula_ok_def)
    then show ?thesis using puts_keeps_units [OF original_unit_puts T(1) _ l(2)] l(3) by simp
  next
    case (Decide lit)
    let ?s = "new_trail_level lit s"
    have l: "lit_in (length (vals s)) lit" "val s lit = 0" "t = search_assign opts lit Decision_reason ?s"
      using e p Decide by (simp_all add: enabled_def perform_def search_assume_decision_def)
    have "values_ok ?s" using T(1) by (simp add: values_ok_def new_trail_level_def)
    moreover have "lit_in (length (vals ?s)) lit" "val ?s lit = 0" using l by (simp_all add: new_trail_level_def)
    ultimately have "keeps_units ?s t" using puts_keeps_units [OF search_assign_puts] l(3) by simp
    then show ?thesis by (rule keeps_units_trans [OF keeps_units_same, rotated 2]) (simp_all add: new_trail_level_def)
  next
    case (Propagate lit d)
    then have l: "d < length (clauses s)" "lit \<in> set (lits_at s d)" "val s lit = 0" "t = propagate_unit opts lit d s"
      using e p by (simp_all add: enabled_def perform_def)
    show ?thesis unfolding l(4)
      by (rule puts_keeps_units [OF propagate_unit_puts T(1) clauses_okD(3) [OF T(4) l(1,2)] l(3)])
  next
    case (Analyze assumed stays)
    then obtain d where d: "conflict s = Some d" using e by (auto simp: enabled_def)
    have "search_ok opts (set fs) s" using so by (simp add: step_ok_def)
    from analyze_ok [OF this d, of assumed stays] show ?thesis using p Analyze by (auto simp: perform_def)
  next
    case (Restart l)
    then show ?thesis using backtrack_keeps_units [OF step_okD(1) [OF so]] p e by (auto simp: perform_def enabled_def)
  qed (use p in \<open>auto simp: perform_def new_trail_level_def intro!: keeps_units_same\<close>)
qed

text \<open>No run loses a clause or a fixed literal.\<close>

lemma reaches_keeps:
  assumes f: "formula_ok n fs" and so: "step_ok opts n fs s" and r: "reaches opts fs s t"
  shows "keeps_clauses s t \<and> keeps_units s t"
proof -
  have "keeps_clauses s t \<and> keeps_units s t" if "step_ok opts n fs s" "run_search opts fs es s = Some t" for es s
    using that
  proof (induction es arbitrary: s)
    case Nil
    then show ?case by (simp add: keeps_clauses_refl keeps_units_same)
  next
    case (Cons e es)
    then have e: "enabled fs e s" by (simp split: if_splits)
    obtain u where u: "perform opts e s = Some u" "step_ok opts n fs u" using perform_ok [OF Cons.prems(1) f e] by blast
    then have "keeps_clauses u t \<and> keeps_units u t" using Cons e by simp
    then show ?case
      using perform_keeps [OF Cons.prems(1) f e u(1)] perform_keeps_units [OF Cons.prems(1) f e u(1)]
        keeps_clauses_trans keeps_units_trans by blast
  qed
  then show ?thesis using so r by (auto simp: reaches_def)
qed

section \<open>The start\<close>

lemma init_watches:
  fixes s :: search and W P
  defines "u \<equiv> \<lambda>k. fold watch_clause [0..<k] \<lparr>core = s, wtab = replicate (2 * length (vals s)) [], cpos = P, propagated = 0\<rparr>"
  assumes ok: "clauses_ok s" and k: "k \<le> length (clauses s)"
  shows "core (u k) = s \<and> cpos (u k) = P \<and> propagated (u k) = 0 \<and> length (wtab (u k)) = 2 * length (vals s) \<and>
    lists_ok (s\<lparr>clauses := take k (clauses s)\<rparr>) (watches (u k))"
  using k
proof (induction k)
  case 0
  have "watches (u 0) lit = []" if "lit_in (length (vals s)) lit" for lit
    using vlit_less [OF that] by (simp add: u_def watches_def)
  then show ?case by (simp add: u_def lists_ok_def)
next
  case (Suc k)
  let ?s = "\<lambda>k. s\<lparr>clauses := take k (clauses s)\<rparr>"
  have U: "core (u k) = s" "cpos (u k) = P" "propagated (u k) = 0" "length (wtab (u k)) = 2 * length (vals s)"
    "lists_ok (?s k) (watches (u k))" using Suc by simp_all
  have u: "u (Suc k) = watch_clause k (u k)" by (simp add: u_def)
  have k: "k < length (clauses s)" using Suc.prems by simp
  note C = clauses_okD [OF ok k]
  obtain a b xs where L: "lits_at s k = a # b # xs" using C(1) by (cases "lits_at s k"; cases "tl (lits_at s k)") auto
  have c: "clauses (?s (Suc k)) = clauses (?s k) @ [clauses s ! k]" using k by (simp add: take_Suc_conv_app_nth)
  have "clauses_ok (?s (Suc k))" using ok by (auto simp: clauses_ok_def lits_at_def)
  moreover have l: "sc_lits (clauses s ! k) = a # b # xs" using L by (simp add: lits_at_def)
  moreover have "watches (u (Suc k)) x = watches (u k) x @
      (if x = a then [\<lparr>wclause = k, blit = b, wsize = length (a # b # xs)\<rparr>]
       else if x = b then [\<lparr>wclause = k, blit = a, wsize = length (a # b # xs)\<rparr>] else [])" if "lit_in (length (vals s)) x" for x
    using watches_watch_clause(1) [of "u k" "length (vals s)" k x] U C(2,3) L that by (simp add: u)
  ultimately have "lists_ok (?s (Suc k)) (watches (u (Suc k)))"
    using C(1,2) L k by (intro lists_ok_add [OF U(5) c]) simp_all
  then show ?case using U watches_watch_clause(2-4) [of "u k"] unfolding u by (simp add: watch_clause_def watch_literal_def Let_def)
qed

lemma init_watched_ok:
  assumes "formula_ok n fs"
  shows "watched_ok opts n fs (init_watched n fs)" "core (init_watched n fs) = init_search n fs"
proof -
  let ?s = "init_search n fs"
  have so: "step_ok opts n fs ?s" using run_from_start [OF assms, of opts "[]"] by simp
  note T = trail_okD [OF step_okD(1) [OF so]]
  have n: "length (vals ?s) = n + 1" by (simp add: init_search_def del: replicate_Suc)
  have I: "core (init_watched n fs) = ?s \<and> cpos (init_watched n fs) = replicate (length (clauses ?s)) 2 \<and>
      propagated (init_watched n fs) = 0 \<and> length (wtab (init_watched n fs)) = 2 * length (vals ?s) \<and>
      lists_ok (?s\<lparr>clauses := take (length (clauses ?s)) (clauses ?s)\<rparr>) (watches (init_watched n fs))"
    using init_watches [OF T(4) order_refl, of "replicate (length (clauses ?s)) 2"] unfolding n by (simp add: init_watched_def Let_def)
  then show "core (init_watched n fs) = ?s" by blast
  have "tables_ok (init_watched n fs)" using I clauses_okD(1) [OF T(4)] by (simp add: tables_ok_def)
  moreover have "guards ?s 0" by (simp add: guards_def guarded_def init_search_def)
  ultimately show "watched_ok opts n fs (init_watched n fs)" using I so by (simp add: watched_ok_def)
qed

section \<open>Steps\<close>

lemma watched_perform_ok:
  assumes f: "formula_ok n fs" and ok: "watched_ok opts n fs s" and e: "watched_enabled fs e s"
  shows "\<exists>t. watched_perform opts e s = Some t \<and> watched_ok opts n fs t \<and> reaches opts fs (core s) (core t)"
proof -
  note D = watched_okD [OF ok]
  have u: "\<not> unsat (core s)" using e by (simp add: watched_enabled_def)
  have one: "reaches opts fs (core s) t" if "enabled fs e' (core s)" "perform opts e' (core s) = Some t" for e' t
    using reaches_step [OF that] .
  show ?thesis
  proof (cases e)
    case (Unit_clause cid lit)
    then show ?thesis
      using watched_ok_unit [OF f ok, of cid lit] one [of "Original_unit cid lit"] e
      by (simp add: watched_perform_def watched_enabled_def enabled_def perform_def)
  next
    case (Decision lit)
    then show ?thesis
      using watched_ok_decision [OF f ok, of lit] one [of "Decide lit"] e
      by (simp add: watched_perform_def watched_enabled_def enabled_def perform_def)
  next
    case Pseudo_decision
    then show ?thesis
      using watched_ok_pseudo [OF f ok] one [of Pseudo_level] e
      by (simp add: watched_perform_def watched_enabled_def enabled_def perform_def)
  next
    case Propagation
    then show ?thesis using propagate_ok [OF f ok u] by (auto simp: watched_perform_def)
  next
    case (Analysis assumed stays)
    then have "conflict (core s) \<noteq> None" using e by (simp add: watched_enabled_def)
    from watched_analyze_ok [OF f ok u this, of assumed stays] show ?thesis by (simp add: Analysis watched_perform_def)
  next
    case (Backtracking l)
    then have l: "conflict (core s) = None" "l \<le> level (core s)" using e by (simp_all add: watched_enabled_def)
    then show ?thesis
      using watched_ok_backtrack [OF f ok u l] one [of "Restart l"] u
      by (simp add: Backtracking watched_perform_def enabled_def perform_def)
  qed
qed

lemma run_watched_ok:
  assumes f: "formula_ok n fs" and "watched_ok opts n fs s" "run_watched opts fs es s = Some t"
  shows "watched_ok opts n fs t \<and> reaches opts fs (core s) (core t)"
  using assms(2,3)
proof (induction es arbitrary: s)
  case (Cons e es)
  then have e: "watched_enabled fs e s" by (simp split: if_splits)
  obtain u where u: "watched_perform opts e s = Some u" "watched_ok opts n fs u" "reaches opts fs (core s) (core u)"
    using watched_perform_ok [OF f Cons.prems(1) e] by blast
  then show ?case using Cons.IH [OF u(2)] Cons.prems(2) e reaches_trans by auto
qed simp

text \<open>The units a run enters stay at level zero.\<close>

lemma run_enters:
  assumes f: "formula_ok n fs" and "watched_ok opts n fs s" "run_watched opts fs es s = Some t" "Unit_clause cid lit \<in> set es"
  shows "lit \<in> set (trail (core t)) \<and> lev (core t) lit = 0"
  using assms(2-)
proof (induction es arbitrary: s)
  case (Cons e es)
  then have e: "watched_enabled fs e s" by (simp split: if_splits)
  obtain u where u: "watched_perform opts e s = Some u" "watched_ok opts n fs u"
    using watched_perform_ok [OF f Cons.prems(1) e] by blast
  have r: "run_watched opts fs es u = Some t" using Cons.prems(2) e u(1) by simp
  show ?case
  proof (cases "Unit_clause cid lit \<in> set es")
    case True
    then show ?thesis by (rule Cons.IH [OF u(2) r])
  next
    case False
    then have here: "e = Unit_clause cid lit" using Cons.prems(3) by auto
    then have l: "(cid, [lit]) \<in> set fs" "val (core s) lit = 0" "core u = assign_original_unit opts cid lit (core s)"
      using e u(1) by (auto simp: watched_enabled_def watched_perform_def)
    note D = watched_okD [OF Cons.prems(1)]
    have "lit_in (length (vals (core s))) lit" using f step_okD(2) [OF D(1)] l(1) by (auto simp: formula_ok_def)
    note W = puts_values [OF original_unit_puts [of _ _ opts cid] trail_okD(1) [OF D(5)] this l(2)]
    have "lit \<in> set (trail (core u)) \<and> lev (core u) lit = 0"
      using W(3) [of lit] putsD(1) [OF original_unit_puts [of "core s" lit opts cid]] by (simp add: l(3))
    moreover have "keeps_units (core u) (core t)"
      using run_watched_ok [OF f u(2) r] reaches_keeps [OF f watched_okD(1) [OF u(2)]] by blast
    ultimately show ?thesis by (simp add: keeps_units_def)
  qed
qed simp

end
