(* ===== verification/Watch_Claims.thy ===== *)
theory Watch_Claims
  imports Watch_Run "HOL-Library.Code_Target_Nat"
begin

text \<open>
  What watched literals promise: they refine the search without them, miss no unit and no conflict, and
  end in a model when everything is assigned.
\<close>

section \<open>Satisfied states\<close>

lemma true_literal_models:
  assumes v: "values_ok s" and c: "\<exists>lit \<in> set c. val s lit > 0" "\<forall>lit \<in> set c. lit_in (length (vals s)) lit"
  shows "clause_true (\<lambda>x. 0 < val s x) c"
proof -
  obtain lit where lit: "lit \<in> set c" "val s lit > 0" using c(1) by blast
  have inn: "lit_in (length (vals s)) lit" "lit_in (length (vals s)) (- lit)" using c(2) lit(1) by simp_all
  have "lit \<in> set (trail s)" using val_true_iff(1) [OF v inn(1)] lit(2) by simp
  then have "val s (- lit) < 0" using val_true_iff(2) [OF v inn(2)] by simp
  moreover have "lit \<noteq> 0" using inn(1) by (simp add: lit_in_def)
  ultimately show ?thesis using lit by (auto simp: clause_true_def lit_true_def intro!: bexI [of _ lit])
qed

lemma trail_range:
  assumes "values_ok s"
  shows "set (map vidx (trail s)) \<subseteq> {1..<length (vals s)}"
proof
  fix i assume "i \<in> set (map vidx (trail s))"
  then obtain x where x: "x \<in> set (trail s)" "i = vidx x" by auto
  then show "i \<in> {1..<length (vals s)}" using values_okD(4) [OF assms x(1)] by (auto simp: lit_in_def vidx_def)
qed

lemma full_trail:
  assumes v: "values_ok s" and f: "length (trail s) = length (vals s) - 1" and lit: "lit_in (length (vals s)) lit"
  shows "val s lit \<noteq> 0"
proof -
  note V = values_okD [OF v]
  note trail_range [OF v]
  moreover have "card (set (map vidx (trail s))) = card {1..<length (vals s)}" using distinct_card [OF V(3)] f by simp
  ultimately have "set (map vidx (trail s)) = {1..<length (vals s)}" by (intro card_subset_eq) simp_all
  moreover have "vidx lit \<in> {1..<length (vals s)}" using lit by (auto simp: lit_in_def vidx_def)
  ultimately have "vidx lit \<in> set (map vidx (trail s))" by blast
  then obtain x where x: "x \<in> set (trail s)" "vidx x = vidx lit" by auto
  then have "lit \<in> set (trail s) \<or> - lit \<in> set (trail s)" by (auto simp: vidx_eq)
  then show ?thesis using val_true_iff(3) [OF v lit] by auto
qed

lemma satisfied_true:
  assumes f: "formula_ok n fs" and ok: "watched_ok opts n fs s" and r: "reaches opts fs (init_search n fs) (core s)"
    and sat: "satisfied s" "conflict (core s) = None" and c: "(cid, c) \<in> set fs" "2 \<le> length c"
  shows "\<exists>lit \<in> set c. val (core s) lit > 0"
proof -
  note D = watched_okD [OF ok]
  let ?s = "init_search n fs" and ?fs = "filter (\<lambda>(cid, c). 2 \<le> length c) fs"
  have so: "step_ok opts n fs ?s" using run_from_start [OF f, of opts "[]"] by simp
  have "(cid, c) \<in> set ?fs" using c by simp
  then obtain d where d: "d < length ?fs" "?fs ! d = (cid, c)" unfolding in_set_conv_nth by blast
  then have "d < length (clauses ?s)" "lits_at ?s d = c" by (simp_all add: init_search_def lits_at_def)
  then have k: "d < length (clauses (core s))" "mset (lits_at (core s) d) = mset c"
    using reaches_keeps [OF f so r] unfolding keeps_clauses_def by auto
  note C = clauses_okD [OF trail_okD(4) [OF D(5)] k(1)]
  have "lits_at (core s) d ! 0 \<in> set (lits_at (core s) d)" using C(1) nth_mem [of 0 "lits_at (core s) d"] by (cases "lits_at (core s) d") simp_all
  then have "val (core s) (lits_at (core s) d ! 0) \<noteq> 0"
    using full_trail [OF trail_okD(1) [OF D(5)]] C(3) sat(1) by (simp add: satisfied_def)
  moreover have "propagated s = length (trail (core s))" using sat(1) by (simp add: satisfied_def)
  ultimately show ?thesis using propagated_clauses [OF ok sat(2) _ k(1)] mset_eq_setD [OF k(2)] by auto
qed




section \<open>The properties\<close>

text \<open>The formula of the witnesses, and runs to a decision, a model and a refutation.\<close>

abbreviation formula5 :: "(int \<times> int list) list" where
  "formula5 \<equiv> [(1, [1, 2]), (2, [-1, 2, 3]), (3, [-3])]"

abbreviation opts5 :: search_opts where
  "opts5 \<equiv> \<lparr>opt_lrat = True, opt_minimize = True, opt_minimizedepth = 1000, opt_chrono = 1,
     opt_chronoalways = False, opt_chronolevelim = 100, opt_chronoreusetrail = False\<rparr>"

abbreviation to_decision5 :: "watched_event list" where
  "to_decision5 \<equiv> [Unit_clause 3 (-3), Propagation, Decision 1]"

lemma formula5_ok: "formula_ok 3 formula5"
  by (simp add: formula_ok_def lit_in_def)

lemma run_decision5:
  "map_option (\<lambda>s. (unsat (core s), propagated s, trail (core s)))
     (run_watched opts5 formula5 to_decision5 (init_watched 3 formula5)) = Some (False, 1, [-3, 1])"
  by code_simp

lemma run_model5:
  "map_option (\<lambda>s. (conflict (core s), satisfied s))
     (run_watched opts5 formula5 (to_decision5 @ [Propagation]) (init_watched 3 formula5)) = Some (None, True)"
  by code_simp


text \<open>
  C24. Watched literals do what the search without them may do: every state of a run over the watch
  lists is reached by a run that propagates any unit and finds any conflict, and in it the list
  of a literal holds one watch, with a blocking literal and the size, for exactly the clauses that have the
  literal among their first two.
\<close>

theorem watched_run_refines:
  assumes "formula_ok n fs" "run_watched opts fs es (init_watched n fs) = Some s"
  shows "(\<exists>es'. run_search opts fs es' (init_search n fs) = Some (core s)) \<and> lists_ok (core s) (watches s)"
proof -
  have "watched_ok opts n fs s \<and> reaches opts fs (init_search n fs) (core s)"
    using run_watched_ok [OF assms(1) init_watched_ok(1) [OF assms(1)] assms(2)] init_watched_ok(2) [OF assms(1)] by simp
  then show ?thesis using watched_okD(3) by (auto simp: reaches_def)
qed

lemma watched_run_refines_witness:
  "\<exists>s es'. run_watched opts5 formula5 (to_decision5 @ [Propagation]) (init_watched 3 formula5) = Some s \<and>
     run_search opts5 formula5 es' (init_search 3 formula5) = Some (core s) \<and> lists_ok (core s) (watches s)"
proof -
  obtain s where "run_watched opts5 formula5 (to_decision5 @ [Propagation]) (init_watched 3 formula5) = Some s"
    using run_model5 unfolding map_option_eq_Some by blast
  then show ?thesis using watched_run_refines [OF formula5_ok] by blast
qed

text \<open>
  C25. Propagation returns and misses nothing: afterwards a clause is false and is the conflict,
  or all of the trail was propagated and no clause is false or unit: each has a true literal or two unassigned ones.
\<close>

theorem propagate_complete:
  assumes "formula_ok n fs" "run_watched opts fs es (init_watched n fs) = Some s" "\<not> unsat (core s)"
  shows "\<exists>t. propagate opts s = Some t \<and>
    (case conflict (core t) of
       Some c \<Rightarrow> c < length (clauses (core t)) \<and> (\<forall>lit \<in> set (lits_at (core t) c). val (core t) lit < 0)
     | None \<Rightarrow> propagated t = length (trail (core t)) \<and>
         (\<forall>c < length (clauses (core t)). (\<exists>lit \<in> set (lits_at (core t) c). val (core t) lit > 0) \<or>
            2 \<le> length (filter (\<lambda>lit. val (core t) lit = 0) (lits_at (core t) c))))"
proof -
  have "watched_ok opts n fs s" by (rule conjunct1 [OF run_watched_ok [OF assms(1) init_watched_ok(1) [OF assms(1)] assms(2)]])
  from propagate_ok [OF assms(1) this assms(3)] obtain t where t: "propagate opts s = Some t" "watched_ok opts n fs t" "\<not> unsat (core t)"
    "conflict (core t) = None \<longrightarrow> propagated t = length (trail (core t))" by (elim exE conjE)
  note D = watched_okD [OF t(2)]
  have two: "2 \<le> length (filter P xs)" if l: "2 \<le> length xs" "P (xs ! 0)" "P (xs ! 1)" for P and xs :: "int list"
  proof -
    obtain a b ys where "xs = a # b # ys" using l(1) by (cases xs; cases "tl xs") auto
    then show ?thesis using l(2,3) by simp
  qed
  show ?thesis
  proof (cases "conflict (core t)")
    case None
    have "(\<exists>lit \<in> set (lits_at (core t) c). val (core t) lit > 0) \<or>
        2 \<le> length (filter (\<lambda>lit. val (core t) lit = 0) (lits_at (core t) c))" if c: "c < length (clauses (core t))" for c
      using propagated_clauses [OF t(2) None _ c] t(4) None two [OF clauses_okD(1) [OF trail_okD(4) [OF D(5)] c]] by auto
    then show ?thesis using t(1,4) None by simp
  next
    case (Some c)
    then have f: "falsified (core t) c" using D(1) t(3) by (auto simp: step_ok_def search_ok_def)
    then have "c < length (clauses (core t))" by (simp add: falsified_def)
    moreover have "val (core t) lit < 0" if "lit \<in> set (lits_at (core t) c)" for lit
      using val_true_iff(2) [OF trail_okD(1) [OF D(5)] clauses_okD(3) [OF trail_okD(4) [OF D(5)] \<open>c < _\<close> that]] f that
      by (simp add: falsified_def)
    ultimately show ?thesis using t(1) Some by auto
  qed
qed

lemma propagate_complete_witness:
  "\<exists>s t. run_watched opts5 formula5 to_decision5 (init_watched 3 formula5) = Some s \<and> trail (core s) = [-3, 1] \<and> propagate opts5 s = Some t"
proof -
  obtain s where "run_watched opts5 formula5 to_decision5 (init_watched 3 formula5) = Some s" "\<not> unsat (core s)" "trail (core s) = [-3, 1]"
    using run_decision5 unfolding map_option_eq_Some prod.inject by blast
  then show ?thesis using propagate_complete [OF formula5_ok] by blast
qed

text \<open>
  C26. When all variables are assigned and propagated without a conflict, the values are a model of
  the formula, for a run that entered its unit clauses and a formula without the empty clause:
  what is assigned at level zero stays true through decisions, conflicts and backtracking.
\<close>

theorem satisfied_models:
  assumes "formula_ok n fs" "run_watched opts fs es (init_watched n fs) = Some s" "satisfied s" "conflict (core s) = None"
    and "\<forall>(cid, c) \<in> set fs. length c < 2 \<longrightarrow> (\<exists>cid' lit. c = [lit] \<and> Unit_clause cid' lit \<in> set es)"
  shows "models (\<lambda>x. 0 < val (core s) x) (snd ` set fs)"
proof -
  note I = init_watched_ok [OF assms(1)]
  have ok: "watched_ok opts n fs s" "reaches opts fs (init_search n fs) (core s)"
    using run_watched_ok [OF assms(1) I(1) assms(2)] I(2) by simp_all
  note D = watched_okD [OF ok(1)]
  have "clause_true (\<lambda>x. 0 < val (core s) x) c" if c: "(cid, c) \<in> set fs" for cid c
  proof (rule true_literal_models [OF trail_okD(1) [OF D(5)]])
    show all: "\<forall>lit \<in> set c. lit_in (length (vals (core s))) lit"
      using assms(1) c step_okD(2) [OF D(1)] by (auto simp: formula_ok_def)
    show "\<exists>lit \<in> set c. val (core s) lit > 0"
    proof (cases "2 \<le> length c")
      case True
      then show ?thesis by (rule satisfied_true [OF assms(1) ok assms(3,4) c])
    next
      case False
      then obtain cid' lit where l: "c = [lit]" "Unit_clause cid' lit \<in> set es" using assms(5) c by fastforce
      then have "lit \<in> set (trail (core s))" using run_enters [OF assms(1) I(1) assms(2)] by blast
      then show ?thesis using val_true_iff(1) [OF trail_okD(1) [OF D(5)]] all l(1) by simp
    qed
  qed
  then show ?thesis by (auto simp: models_def)
qed

lemma satisfied_models_witness: "\<exists>\<sigma>. models \<sigma> (snd ` set formula5)"
proof -
  obtain s where s: "run_watched opts5 formula5 (to_decision5 @ [Propagation]) (init_watched 3 formula5) = Some s"
      "conflict (core s) = None" "satisfied s"
    using run_model5 unfolding map_option_eq_Some prod.inject by blast
  have "\<forall>(cid, c) \<in> set formula5. length c < 2 \<longrightarrow>
      (\<exists>cid' lit. c = [lit] \<and> Unit_clause cid' lit \<in> set (to_decision5 @ [Propagation]))" by auto
  from satisfied_models [OF formula5_ok s(1,3,2) this] show ?thesis by blast
qed



end
