(* ===== verification/Spec2Isabelle.thy ===== *)
theory Spec2Isabelle
  imports
    WL1_Correct AHU_Props Cms_Shim Cadical_Shim Nauty_Shim
    Lrat_Claims Drup_Claims Ext_Claims Reluctant Decide_Claims
    WL2_Claims Search_Claims Watch_Claims
begin

text \<open>
  graph-dialysis computes the vertex orbits of graphs. A Kotlin program reads the graphs, refines
  the vertex colours, peels trees off, and asks SAT solvers and Traces about the rest. Its native
  side, the C++ code under \<open>src/src/main/cpp\<close> and \<open>src/external/scawl-patch\<close>, is what these
  theories model. They are arranged by component; this one holds no definition.

  \<^bold>\<open>The parts and how they interact\<close>

  The Kotlin side calls five native libraries. Two compute: colour refinement
  (\<open>paige_tarjan_wl1.cpp\<close>) and the labels of coloured rooted trees (\<open>colored_ahu.cpp\<close>). Three bind
  a solver: CryptoMiniSat (\<open>cryptominisat_jni.cpp\<close>), CaDiCaL (\<open>cadical_jni.cpp\<close> over
  \<open>cadical/src/ccadical.cpp\<close>) and Traces (\<open>nauty_traces.cpp\<close>). CaDiCaL itself is in the repository.
  Of it are modelled the two proof checkers that follow every step of the solver
  (\<open>lratchecker.cpp\<close>, \<open>checker.cpp\<close>), the reconstruction stack that turns a model of the simplified
  formula into one of the original formula (\<open>extend.cpp\<close>, \<open>restore.cpp\<close>, \<open>external.cpp\<close>), and the
  search: the trail, propagation over watched literals, conflict analysis with minimization and the
  LRAT chains of what is learned (\<open>propagate.cpp\<close>, \<open>backtrack.cpp\<close>, \<open>analyze.cpp\<close>, \<open>minimize.cpp\<close>,
  \<open>watch.hpp\<close>), when it restarts (\<open>reluctant.hpp\<close>) and which variable it decides (\<open>heap.hpp\<close>,
  \<open>queue.hpp\<close> and what maintains them). The chains the search writes are what the LRAT checker reads.
  A separate program, the seeded 2-WL refinement (\<open>scawl_seeded.cpp\<close>), takes a graph and a seed
  colouring; the theories show that its result is the one of the native colour refinement.

  \<^bold>\<open>Which theory models what\<close>

  \<^item> \<open>Orbit_Prelude\<close>: facts on arrays as lists and the operations of the C++ library that the sources
    call (sorting, removing duplicates, binary search, resizing). \<open>Literals\<close>: DIMACS literals and
    clauses, satisfaction. \<open>Proof_Base\<close>: results that may be a fatal error, the reduction of 64-bit
    hashes, chained hash tables.
  \<^item> \<open>WL1_Refine\<close>: \<open>run1WL\<close> and the JNI entries; the record \<open>wl1\<close> holds the local arrays of the
    function. \<open>WL1_Split\<close>, \<open>WL1_Correct\<close>: its lemmas. A CSR graph is a pair of lists.
  \<^item> \<open>AHU_Model\<close>: the global registry as a record, the explicit stack of \<open>encode_tree\<close>, canonical
    strings, the JNI entries. \<open>AHU_Registry\<close> (the registry as a hash-consing store), \<open>AHU_Correct\<close>
    (the stack machine against a recursive encoding), \<open>AHU_Strings\<close>, \<open>AHU_Props\<close>.
  \<^item> \<open>Cms_Shim\<close>, \<open>Cadical_Shim\<close>, \<open>Nauty_Shim\<close>: the bindings. The solver object is the list of the calls
    it has received and what it answers is a function of that list, a parameter.
  \<^item> \<open>Lrat_Checker\<close>: the class \<open>LratChecker\<close>, one function per operation of the tracer interface.
    \<open>Lrat_Table\<close> (its hash table), \<open>Lrat_Sound\<close> (a single check), \<open>Lrat_Props\<close> and \<open>Lrat_Claims\<close>
    (whole proofs), \<open>Lrat_Complete\<close> (which chains it accepts).
  \<^item> \<open>Search_Model\<close>: the class \<open>Internal\<close> as far as the search needs it. The record \<open>search\<close> holds the
    values, the variables with level, trail position and reason, the flags, the control stack, the
    clauses and the buffers of the analysis; \<open>derived\<close> is what was handed to the proof. A run is a
    sequence of steps (\<open>search_event\<close>) in any order in which they are enabled, in which propagation is the
    assignment of any unit. \<open>Search_Trail\<close> (assigning, backtracking, the conflict level),
    \<open>Search_Analyze\<close> (the first implication clause), \<open>Search_Minimize\<close> and \<open>Search_Chain\<close>
    (minimization and its chains), \<open>Search_Learn\<close>, \<open>Search_Proof\<close> (the chains resolve to what is
    learned), \<open>Search_Run\<close>, \<open>Search_Claims\<close>.
  \<^item> \<open>Watch_Model\<close>: the same search with the watch lists of \<open>propagate.cpp\<close>, blocking literals and
    saved positions; the record \<open>watched\<close> has a \<open>search\<close> as its core. \<open>Watch_Core\<close> (what it does to
    the core), \<open>Watch_Invariant\<close>, \<open>Watch_Reach\<close>, \<open>Watch_Visit\<close> (one watch list), \<open>Watch_Propagate\<close>,
    \<open>Watch_Steps\<close>, \<open>Watch_Highest\<close>, \<open>Watch_Drive\<close>, \<open>Watch_Carry\<close>, \<open>Watch_Learn\<close>, \<open>Watch_Analyze\<close>
    (conflicts), \<open>Watch_Run\<close>, \<open>Watch_Claims\<close>.
  \<^item> \<open>Drup_Checker\<close>: the class \<open>Checker\<close> with clauses in a store of addresses. \<open>Drup_Wf\<close> (structure),
    \<open>Drup_Ops\<close> and \<open>Drup_Import\<close> (the table and the import of a clause), \<open>Drup_Sound\<close> and
    \<open>Drup_Check\<close> (propagation), \<open>Drup_Props\<close> and \<open>Drup_Claims\<close> (whole proofs).
  \<^item> \<open>Ext_Stack\<close>: the class \<open>External\<close> as far as the stack needs it, pushing and traversing;
    \<open>Ext_Layout\<close>: the stack as the encoding of a list of entries. \<open>Ext_Extend\<close>: extending and
    flipping. \<open>Ext_Restore\<close>: internalizing and restoring, \<open>Ext_Fates\<close>: restoring as a function on
    entries. \<open>Ext_Claims\<close>.
  \<^item> \<open>Reluctant\<close>: reluctant doubling and the Luby sequence.
  \<^item> \<open>Heap_Array\<close>, \<open>Heap_Order\<close>: the binary heap with positions. \<open>Decide_Model\<close>: both decision orders
    with what assigning, unassigning and bumping do to them; \<open>Decide_Scores\<close>, \<open>Decide_Queue\<close>,
    \<open>Decide_Recent\<close>, \<open>Decide_Claims\<close>.
  \<^item> \<open>WL2_Sort\<close>, \<open>WL2_Rows\<close>, \<open>WL2_Model\<close>: the program \<open>scawl_seeded.cpp\<close> in the configuration its
    \<open>main\<close> fixes for a graph and a seed file. \<open>WL2_Sorted\<close> (sorting), \<open>WL2_Bins\<close> and \<open>WL2_Colors\<close> (row
    colours), \<open>WL2_Table\<close> (the table of signatures), \<open>WL2_Round\<close>, \<open>WL2_Loop\<close>, \<open>WL2_Program\<close>,
    \<open>WL2_Claims\<close>.

  Definitions carry the names of the functions, classes and fields they translate.

  \<^bold>\<open>What the lemmas show\<close>

  \<^item> Colour refinement (\<open>WL1_Correct\<close>, C1 to C4 and C18): it ends on every graph, and the colouring is the
    coarsest equitable one below the initial colours, with dense ids, kept by automorphisms. The
    invariant behind it is that queueing all parts of a split but the largest is enough.
  \<^item> Tree labels (\<open>AHU_Props\<close>, C5 to C8): equal labels are isomorphic coloured trees, across all
    calls on one registry, and canonical strings identify labels as long as no colour contains a
    parenthesis.
  \<^item> Bindings (C9 to C13): the solvers receive the calls that IPASIR prescribes, on variables that
    exist, a deadline belongs to one solve, the learner's buffer never overflows and its callback receives
    exactly the exported clauses within its length limit, and the generators of Traces are automorphisms
    that respect the partition.
  \<^item> Proof checkers (\<open>Lrat_Claims\<close>, C14 to C17, \<open>Drup_Claims\<close>, C27 to C29): refutations by unit
    propagation are sound, what is derived is implied or blocked, the data structures stay well
    formed and no freed clause is reached. Some lemmas after them are proofs the checkers
    accept and should not, where the conditions of these theorems are not met.
  \<^item> Search without watch lists (\<open>Search_Claims\<close>, C19 to C23): the trail stays consistent also when
    backtracking leaves it out of order, every analysis returns and learns the clause of the
    first implication point, less what minimization may remove, which follows from the clauses, the proof of every run is accepted by the model of the LRAT checker, and so a refuted
    formula is unsatisfiable.
  \<^item> Search with watch lists (\<open>Watch_Claims\<close>, C24 to C26 and C30): its runs are runs of the search without
    them, propagation returns and misses no unit and no conflict, a full assignment is a model of the
    formula whose units the run entered, and no run gets stuck before. The invariant
    behind it says that a watched literal that is false among the propagated ones of a level is
    answered by a true literal of that level or a lower one.
  \<^item> Reconstruction stack (\<open>Ext_Claims\<close>, C31 to C34): both traversals read back what was pushed, the
    extended assignment satisfies the formula and every clause on the stack, restoring flushes
    exactly the satisfied clauses and gives back exactly those that tainted literals hit, in the
    solver's literals, and ids survive when they fit into 32 bits.
  \<^item> Restarts and decisions (\<open>Reluctant\<close>, C35, and \<open>Decide_Claims\<close>, C36 and C37): restart intervals are the Luby
    sequence, or with a limit its part below the limit again and again, and the decided variable is the best unassigned one by score, or the unassigned one
    bumped last, after any sequence of operations.
  \<^item> Seeded 2-WL (\<open>WL2_Claims\<close>, C38 to C40): the three-way quicksort sorts, row colours are equal
    exactly for equal rows, and the program ends with the partition of \<open>run1WL\<close>.

  \<^bold>\<open>Interfaces\<close>

  Where a component relies on another through a contract, the contract is a locale, its client's
  lemmas are proved in it, and it is interpreted on the model: \<open>hash_cons\<close> (\<open>AHU_Registry\<close>: what
  interning a label promises), \<open>clause_table\<close> (\<open>Lrat_Table\<close>: find, insert and remove against a
  multiset of clauses), \<open>weak_order\<close> (\<open>Heap_Order\<close>: what the heap needs of its comparison,
  interpreted on \<open>score_smaller\<close> in \<open>Decide_Scores\<close>) and \<open>signature_comparer\<close> (\<open>WL2_Bins\<close>: what the
  loops over a bin need of the comparing function they are passed, interpreted on \<open>RowsEqual\<close> in
  \<open>WL2_Colors\<close>).

  \<^bold>\<open>Loops, bounds and widths\<close>

  No loop is cut off by fuel. Loops whose end is part of what is claimed are \<open>while_option\<close>
  (\<open>run1WL\<close>, \<open>encode_tree\<close>) or \<open>partial_function\<close> (the 2-WL rounds, partition and quicksort, the heap
  operations, the search along the queue, propagation, the search for the implication point, the stack
  of minimized chains), and that they return is proved. The others are recursive
  functions with a termination proof. Reads out of range that the code does not guard are either
  excluded by an invariant or a value \<open>None\<close> of the operation (the arrays of the sorting, the
  matrix files, the stack). Widths are kept where they matter: 64-bit hashes and restart counters,
  32-bit cells and counters of the 2-WL program, the halves of a clause id on the reconstruction
  stack, the \<open>unsigned\<close> positions of the heap. Counters that hold numbers of vertices, variables or
  clauses are \<open>nat\<close> or \<open>int\<close>.

  \<^bold>\<open>What is not modelled\<close>

  \<^item> Code that is not in the repository is a parameter with its documented behaviour as a hypothesis:
    CryptoMiniSat, the solver behind CaDiCaL's wrapper, \<open>std::hash\<close>, the parallel hash map of the
    2-WL program. Traces is C code of nauty and is treated in the same way.
  \<^item> Of CaDiCaL's search: on-the-fly strengthening, shrinking and eager subsumption of learned
    clauses, bumping, phases, assumptions and external propagators. Its clauses are never garbage.
  \<^item> CaDiCaL's inprocessing. What it may do to a formula is bounded from outside: by the proof checkers and
    by the reconstruction stack.
  \<^item> How scores are computed in doubles; their order is all that deciding uses.
  \<^item> The configurations of the 2-WL program that \<open>main\<close> does not reach for a graph and a seed file:
    several processes or threads, the other loaders.
  \<^item> Assertions (the libraries are release builds), statistics, logging, printing, parsing of files,
    the tester \<open>mobical\<close>, and the Kotlin side.
\<close>

end
